(* ===== verification/BB_Prelude.thy ===== *)
theory BB_Prelude
  imports Complex_Main "HOL-Library.Multiset"
begin

text \<open>
  Shared vocabulary of the development: the exceptions of the Python sources as a datatype, results
  as a sum type, Python slices and ceiling division, and the list lemmas the component theories
  share. Exceptions carry no message: the model keeps the class of the exception only.
\<close>

named_theorems paged_simps \<open>unfolding rules of the paged KV table\<close>
named_theorems wire_simps \<open>unfolding rules of the wire format\<close>
named_theorems span_simps \<open>unfolding rules of span computation\<close>

datatype py_error =
    PagedKVError
  | ValueError
  | TypeError
  | KeyError
  | IndexError
  | ZeroDivisionError
  | RuntimeError
  | AttributeError
  | AssertionError
  | AllocationFailed
  | StructError
  | ZlibError
  | CodecError
  | TimeoutError
  | SessionClosed
  | HandlerError
  | InvalidStateError
  | MissingBlocksError
  | UnboundLocalError

type_synonym 'a result = "py_error + 'a"

text \<open>
  An operation that may raise after it has already changed its object returns the exception
  together with the state it leaves behind.
\<close>

type_synonym ('s, 'a) outcome = "'a result \<times> 's"

definition returned :: "('s, 'a) outcome \<Rightarrow> bool" where
  "returned r \<longleftrightarrow> (\<exists>x. fst r = Inr x)"

lemma returned_simps [simp]:
  "returned (Inr x, s)" "\<not> returned (Inl e, s)"
  by (auto simp: returned_def)

lemma map_sum_Inr_cases:
  assumes "map_sum id f r = Inr y"
  obtains x where "r = Inr x" and "y = f x"
  using assms by (cases r) auto

section \<open>Slices and ceiling division\<close>

text \<open>\<open>xs[a:b]\<close> for non-negative bounds: both bounds are clamped to the length.\<close>

definition pyslice :: "nat \<Rightarrow> nat \<Rightarrow> 'a list \<Rightarrow> 'a list" where
  "pyslice a b xs = take (b - a) (drop a xs)"

lemma length_pyslice [simp]: "length (pyslice a b xs) = min b (length xs) - a"
  by (simp add: pyslice_def)

lemma pyslice_full [simp]: "length xs \<le> b \<Longrightarrow> pyslice 0 b xs = xs"
  by (simp add: pyslice_def)

lemma pyslice_empty [simp]: "b \<le> a \<Longrightarrow> pyslice a b xs = []"
  by (simp add: pyslice_def)

lemma nth_pyslice [simp]:
  "i < min b (length xs) - a \<Longrightarrow> pyslice a b xs ! i = xs ! (a + i)"
  by (simp add: pyslice_def)

lemma pyslice_map: "pyslice a b (map f xs) = map f (pyslice a b xs)"
  by (simp add: pyslice_def take_map drop_map)

lemma pyslice_append_adjacent:
  "a \<le> b \<Longrightarrow> b \<le> c \<Longrightarrow> pyslice a b xs @ pyslice b c xs = pyslice a c xs"
proof -
  assume ab: "a \<le> b" and bc: "b \<le> c"
  have "drop b xs = drop (b - a) (drop a xs)" using ab by simp
  moreover have "c - a = (b - a) + (c - b)" using ab bc by simp
  ultimately show ?thesis by (simp only: pyslice_def take_add)
qed

lemma set_pyslice_subset: "set (pyslice a b xs) \<subseteq> set xs"
  unfolding pyslice_def by (meson set_drop_subset set_take_subset subset_trans)

text \<open>\<open>(n + b - 1) // b\<close>, the number of blocks of size \<open>b\<close> that cover \<open>n\<close> items.\<close>

definition ceil_div :: "nat \<Rightarrow> nat \<Rightarrow> nat" where
  "ceil_div n b = (n + b - 1) div b"

lemma ceil_div_le_iff:
  assumes "0 < b"
  shows "ceil_div n b \<le> m \<longleftrightarrow> n \<le> m * b"
proof -
  have "ceil_div n b \<le> m \<longleftrightarrow> n + b - 1 < (Suc m) * b"
    unfolding ceil_div_def using assms by (metis div_less_iff_less_mult less_Suc_eq_le)
  also have "\<dots> \<longleftrightarrow> n \<le> m * b" using assms by (simp add: field_simps) arith
  finally show ?thesis .
qed

lemma ceil_div_cover: "0 < b \<Longrightarrow> n \<le> ceil_div n b * b"
  using ceil_div_le_iff by blast

lemma ceil_div_mono: "m \<le> n \<Longrightarrow> ceil_div m b \<le> ceil_div n b"
  by (simp add: ceil_div_def div_le_mono)

lemma div_less_of_less_mult: "0 < (b::nat) \<Longrightarrow> pos < m * b \<Longrightarrow> pos div b < m"
  by (simp add: less_mult_imp_div_less)

lemma chunk_pos [simp]:
  assumes "0 < (b::nat)" and "pos < e"
  shows "0 < min (b - pos mod b) (e - pos)"
  using assms by simp

lemma chunk_decreases:
  assumes "0 < (b::nat)" and "pos < e"
  shows "e - (pos + min (b - pos mod b) (e - pos)) < e - pos"
proof -
  have "0 < min (b - pos mod b) (e - pos)" using assms by (rule chunk_pos)
  then show ?thesis using assms(2) by linarith
qed

lemma quot_rem_unique:
  assumes "(x::nat) < b"
  shows "(a * b + x) div b = a" and "(a * b + x) mod b = x"
  using assms by simp_all

section \<open>Lists\<close>

lemma butlast_last_id: "xs \<noteq> [] \<Longrightarrow> butlast xs @ [last xs] = xs"
  by simp

lemma mset_butlast_last: "xs \<noteq> [] \<Longrightarrow> mset xs = mset (butlast xs) + {#last xs#}"
  by (metis append_butlast_last_id mset_append mset_single_iff_right)

lemma nth_map2:
  "i < length xs \<Longrightarrow> i < length ys \<Longrightarrow> map2 f xs ys ! i = f (xs ! i) (ys ! i)"
  by simp

lemma map_nth_upt: "n \<le> length xs \<Longrightarrow> map (\<lambda>i. xs ! i) [0..<n] = take n xs"
  by (rule nth_equalityI) auto

text \<open>An element of a list of distinct numbers replaced by a run of fresh numbers.\<close>

lemma distinct_replace:
  assumes "distinct ids" and "\<forall>j \<in> set ids. j < m"
  shows "distinct (take i ids @ [m..<m + l] @ drop (Suc i) ids) \<and> (\<forall>j \<in> set (take i ids @ [m..<m + l] @ drop (Suc i) ids). j < m + l)"
proof -
  have t: "\<forall>j \<in> set (take i ids). j < m" and d: "\<forall>j \<in> set (drop (Suc i) ids). j < m"
    using assms(2) by (auto dest: in_set_takeD in_set_dropD)
  have "set (take i ids) \<inter> set (drop (Suc i) ids) = {}" using set_take_disj_set_drop_if_distinct [OF assms(1), of i "Suc i"] by simp
  moreover have "set (take i ids) \<inter> {m..<m + l} = {}" using t by fastforce
  moreover have "{m..<m + l} \<inter> set (drop (Suc i) ids) = {}" using d by fastforce
  ultimately have "distinct (take i ids @ [m..<m + l] @ drop (Suc i) ids)" using assms(1) by (auto simp: Int_Un_distrib)
  moreover have "\<forall>j \<in> set (take i ids @ [m..<m + l] @ drop (Suc i) ids). j < m + l" using t d by fastforce
  ultimately show ?thesis by blast
qed

section \<open>Maps\<close>

lemma ran_upd_insert: "ran (m(k \<mapsto> v)) = insert v (ran (m(k := None)))"
  by (metis fun_upd_same fun_upd_upd ran_map_upd)

lemma ran_split_at: "m k = Some v \<Longrightarrow> ran m = insert v (ran (m(k := None)))"
  by (metis fun_upd_triv ran_upd_insert)


section \<open>Dictionaries\<close>

text \<open>
  A Python dictionary as the list of its items in insertion order: assigning to an existing key keeps
  its place, a new key goes to the end.
\<close>

fun dict_put :: "'k \<Rightarrow> 'v \<Rightarrow> ('k \<times> 'v) list \<Rightarrow> ('k \<times> 'v) list" where
  "dict_put k v [] = [(k, v)]"
| "dict_put k v ((k', v') # d) = (if k' = k then (k, v) # d else (k', v') # dict_put k v d)"

lemma map_of_dict_put [simp]: "map_of (dict_put k v d) = (map_of d)(k \<mapsto> v)"
  by (induction k v d rule: dict_put.induct) (auto simp: fun_eq_iff)

lemma dict_put_keys: "fst ` set (dict_put k v d) = insert k (fst ` set d)"
  by (induction k v d rule: dict_put.induct) auto

lemma distinct_dict_put: "distinct (map fst d) \<Longrightarrow> distinct (map fst (dict_put k v d))"
proof (induction k v d rule: dict_put.induct)
  case (2 k v k' v' d)
  then show ?case by (cases "k' = k") (simp_all add: dict_put_keys)
qed simp

lemma in_dict_put: "(k', v') \<in> set (dict_put k v d) \<Longrightarrow> (k', v') = (k, v) \<or> (k', v') \<in> set d"
  by (induction k v d rule: dict_put.induct) (auto split: if_splits)


lemma sum_list_mset_cong: "mset xs = mset ys \<Longrightarrow> sum_list (map f xs) = (sum_list (map f ys) :: 'a :: comm_monoid_add)"
  by (metis mset_map sum_mset_sum_list)

lemma sum_dict_put:
  assumes "distinct (map fst d)" and "map_of d k = Some old"
  shows "sum_list (map (\<lambda>e. f (snd e)) (dict_put k new d)) = sum_list (map (\<lambda>e. f (snd e)) d) - f old + (f new :: real)"
  using assms
proof (induction d)
  case (Cons e d)
  obtain k' v' where e: "e = (k', v')" by fastforce
  from Cons show ?case by (cases "k' = k") (simp_all add: e)
qed simp

lemma dict_put_same_keys: "map_of d k \<noteq> None \<Longrightarrow> map fst (dict_put k v d) = map fst d"
  by (induction k v d rule: dict_put.induct) (auto split: if_splits)

end
