(* ===== verification/KV_Spec.thy ===== *)
theory KV_Spec
  imports BB_Prelude
begin

text \<open>
  The contract of a KV cache with speculative writes, as the callers of the paged table rely on it
  (\<^verbatim>\<open>server/paged_kv.py\<close>, module docstring, invariants 3 to 5). A cache holds per sequence the
  accepted length and the logical rows; \<open>put\<close> writes rows at a position and accepts them or not,
  \<open>accept\<close> promotes written rows, \<open>cut\<close> rolls back, \<open>get\<close> reads the accepted prefix.
  The consequences a speculative decoder needs are proved here once.
\<close>

locale kv_cache =
  fixes content :: "'s \<Rightarrow> 'i \<Rightarrow> (nat \<times> 'r list) option"
    and inv :: "'s \<Rightarrow> bool"
    and row_ok :: "'s \<Rightarrow> 'r \<Rightarrow> bool"
    and put :: "'i \<Rightarrow> nat \<Rightarrow> 'r list \<Rightarrow> bool \<Rightarrow> 's \<Rightarrow> ('s, unit) outcome"
    and accept :: "'i \<Rightarrow> nat \<Rightarrow> 's \<Rightarrow> ('s, unit) outcome"
    and cut :: "'i \<Rightarrow> nat \<Rightarrow> 's \<Rightarrow> ('s, unit) outcome"
    and get :: "'i \<Rightarrow> 's \<Rightarrow> 'r list result"
  assumes put_content:
      "inv s \<Longrightarrow> content s i = Some (a, ys) \<Longrightarrow> n \<le> length ys \<Longrightarrow> xs \<noteq> [] \<Longrightarrow> \<forall>x \<in> set xs. row_ok s x \<Longrightarrow>
       put i n xs c s = (Inr (), s') \<Longrightarrow>
       inv s' \<and> row_ok s' = row_ok s \<and>
       content s' = (content s)(i \<mapsto> (if c then max a (n + length xs) else a,
                                      take n ys @ xs @ drop (n + length xs) ys))"
    and accept_content:
      "inv s \<Longrightarrow> content s i = Some (a, ys) \<Longrightarrow> n \<le> length ys \<Longrightarrow>
       \<exists>s'. accept i n s = (Inr (), s') \<and> inv s' \<and> row_ok s' = row_ok s \<and>
            content s' = (content s)(i \<mapsto> (max a n, ys))"
    and cut_content:
      "inv s \<Longrightarrow> content s i = Some (a, ys) \<Longrightarrow> n \<le> a \<Longrightarrow>
       \<exists>s'. cut i n s = (Inr (), s') \<and> inv s' \<and> row_ok s' = row_ok s \<and>
            content s' = (content s)(i \<mapsto> (n, take n ys))"
    and get_content: "inv s \<Longrightarrow> content s i = Some (a, ys) \<Longrightarrow> get i s = Inr (take a ys)"
    and accepted_le: "inv s \<Longrightarrow> content s i = Some (a, ys) \<Longrightarrow> a \<le> length ys"
begin

text \<open>An unaccepted write past the accepted prefix is invisible to readers.\<close>

lemma speculative_write_invisible:
  assumes "inv s" "content s i = Some (a, ys)" "a \<le> n" "n \<le> length ys" "xs \<noteq> []"
    "\<forall>x \<in> set xs. row_ok s x" "put i n xs False s = (Inr (), s')"
  shows "get i s' = get i s"
proof -
  from put_content [OF assms(1,2,4,5,6,7)] have "inv s'"
    "content s' i = Some (a, take n ys @ xs @ drop (n + length xs) ys)" by simp_all
  then have "get i s' = Inr (take a (take n ys @ xs @ drop (n + length xs) ys))" by (rule get_content)
  also have "\<dots> = Inr (take a ys)" using assms(3,4) by (simp add: min_absorb1)
  finally show ?thesis using get_content [OF assms(1,2)] by simp
qed

text \<open>Rolling back to the accepted length after a speculative write restores every sequence.\<close>

lemma speculation_undone:
  assumes "inv s" "content s i = Some (a, ys)" "length ys = a" "xs \<noteq> []"
    "\<forall>x \<in> set xs. row_ok s x" "put i a xs False s = (Inr (), s')"
  shows "\<exists>s''. cut i a s' = (Inr (), s'') \<and> content s'' = content s \<and> inv s''"
proof -
  have "a \<le> length ys" using assms(3) by simp
  from put_content [OF assms(1,2) this assms(4,5,6)] have s': "inv s'"
    "content s' = (content s)(i \<mapsto> (a, ys @ xs))" using assms(3) by simp_all
  then have "content s' i = Some (a, ys @ xs)" by simp
  from cut_content [OF s'(1) this order_refl] obtain s'' where s'': "cut i a s' = (Inr (), s'')" "inv s''"
    "content s'' = (content s')(i \<mapsto> (a, take a (ys @ xs)))" by blast
  have "take a (ys @ xs) = ys" using assms(3) by simp
  with s''(3) s'(2) assms(2) have "content s'' = content s" by auto
  with s'' show ?thesis by blast
qed

text \<open>Writing the same rows again changes nothing.\<close>

lemma put_idempotent:
  assumes "inv s" "content s i = Some (a, ys)" "n \<le> length ys" "xs \<noteq> []" "\<forall>x \<in> set xs. row_ok s x"
    "put i n xs c s = (Inr (), s')" "put i n xs c s' = (Inr (), s'')"
  shows "content s'' = content s'"
proof -
  define zs where "zs = take n ys @ xs @ drop (n + length xs) ys"
  define a' where "a' = (if c then max a (n + length xs) else a)"
  from put_content [OF assms(1-6)] have s': "inv s'" "row_ok s' = row_ok s" "content s' = (content s)(i \<mapsto> (a', zs))"
    by (simp_all add: zs_def a'_def)
  have n: "n \<le> length zs" and ci: "content s' i = Some (a', zs)" using assms(3) s'(3) by (simp_all add: zs_def)
  have ok: "\<forall>x \<in> set xs. row_ok s' x" using assms(5) s'(2) by simp
  have "content s'' = (content s')(i \<mapsto> (if c then max a' (n + length xs) else a', take n zs @ xs @ drop (n + length xs) zs))"
    using put_content [OF s'(1) ci n assms(4) ok assms(7)] by simp
  moreover have "take n zs @ xs @ drop (n + length xs) zs = zs" using assms(3) by (simp add: zs_def)
  moreover have "(if c then max a' (n + length xs) else a') = a'" by (simp add: a'_def)
  ultimately show ?thesis using ci by auto
qed

text \<open>Accepting a prefix of a speculative write commits exactly those rows.\<close>

lemma accept_speculation:
  assumes "inv s" "content s i = Some (a, ys)" "length ys = a" "xs \<noteq> []"
    "\<forall>x \<in> set xs. row_ok s x" "put i a xs False s = (Inr (), s')" "m \<le> length xs"
  shows "\<exists>s2 s3. accept i (a + m) s' = (Inr (), s2) \<and> cut i (a + m) s2 = (Inr (), s3) \<and> inv s3 \<and>
     content s3 = (content s)(i \<mapsto> (a + m, ys @ take m xs)) \<and> get i s3 = Inr (ys @ take m xs)"
proof -
  have "a \<le> length ys" using assms(3) by simp
  from put_content [OF assms(1,2) this assms(4,5,6)] have s': "inv s'"
    "content s' = (content s)(i \<mapsto> (a, ys @ xs))" using assms(3) by simp_all
  then have c': "content s' i = Some (a, ys @ xs)" by simp
  have "a + m \<le> length (ys @ xs)" using assms(3,7) by simp
  from accept_content [OF s'(1) c' this] obtain s2 where s2: "accept i (a + m) s' = (Inr (), s2)" "inv s2"
    "content s2 = (content s')(i \<mapsto> (max a (a + m), ys @ xs))" by blast
  have c2: "content s2 i = Some (a + m, ys @ xs)" using s2(3) by simp
  from cut_content [OF s2(2) c2 order_refl] obtain s3 where s3: "cut i (a + m) s2 = (Inr (), s3)" "inv s3"
    "content s3 = (content s2)(i \<mapsto> (a + m, take (a + m) (ys @ xs)))" by blast
  have e: "take (a + m) (ys @ xs) = ys @ take m xs" using assms(3) by simp
  have c3: "content s3 = (content s)(i \<mapsto> (a + m, ys @ take m xs))" using s3(3) s2(3) s'(2) e by (simp add: fun_upd_idem_iff)
  then have "content s3 i = Some (a + m, ys @ take m xs)" by simp
  from get_content [OF s3(2) this] have "get i s3 = Inr (ys @ take m xs)" using assms(3,7) by (simp add: min_def)
  with s2(1) s3(1,2) c3 show ?thesis by blast
qed

end

end
