(* ===== verification/PagedKV.thy ===== *)
theory PagedKV
  imports KV_Spec
begin

text \<open>
  The paged KV table of \<^verbatim>\<open>server/paged_kv.py\<close>: a pool of fixed-size pages along the sequence
  dimension of a pair of backing tensors, and per sequence a page table with the accepted length
  \<open>l_acc\<close> and the logical length \<open>l_seq\<close>.

  A tensor is its shape together with its contents as nested lists (rows along the sequence
  dimension, batch-head cells, head-dimension vectors). Slice assignment follows PyTorch: bounds are
  clamped, the source is broadcast along axes of size one, and any other shape difference raises.
  Positions, sequence lengths and slice bounds are natural numbers; the arguments the code itself
  tests for a sign (the rollback target, the commit bound, the read length, the tracked width) are
  integers. Every operation returns the exception or value together with the table it leaves behind,
  because a write that runs out of pages has already moved pages to the sequence.
\<close>

section \<open>Tensors and slice assignment\<close>

record 'a tensor =
  shape :: "nat list"
  rows :: "'a list list list"

definition ndim :: "'a tensor \<Rightarrow> nat" where
  "ndim t = length (shape t)"

definition wf_tensor :: "'a tensor \<Rightarrow> bool" where
  "wf_tensor t \<longleftrightarrow> ndim t = 3 \<and> length (rows t) = shape t ! 0 \<and>
     (\<forall>row \<in> set (rows t). length row = shape t ! 1 \<and> (\<forall>cell \<in> set row. length cell = shape t ! 2))"

text \<open>\<open>t[a:b]\<close> along the first axis.\<close>

definition row_slice :: "nat \<Rightarrow> nat \<Rightarrow> 'a tensor \<Rightarrow> 'a tensor" where
  "row_slice a b t =
     \<lparr>shape = (shape t)[0 := min b (shape t ! 0) - a], rows = pyslice a b (rows t)\<rparr>"

text \<open>\<open>t[a:b, c:d, :]\<close>\<close>

definition block_slice :: "nat \<Rightarrow> nat \<Rightarrow> nat \<Rightarrow> nat \<Rightarrow> 'a tensor \<Rightarrow> 'a tensor" where
  "block_slice a b c d t =
     \<lparr>shape = [min b (shape t ! 0) - a, min d (shape t ! 1) - c, shape t ! 2],
      rows = map (pyslice c d) (pyslice a b (rows t))\<rparr>"

definition broadcastable :: "nat list \<Rightarrow> nat list \<Rightarrow> bool" where
  "broadcastable src dst \<longleftrightarrow> length src = length dst \<and> (\<forall>(s, d) \<in> set (zip src dst). s = d \<or> s = 1)"

definition expand :: "nat \<Rightarrow> 'b list \<Rightarrow> 'b list" where
  "expand n xs = (if length xs = n then xs else replicate n (hd xs))"

text \<open>\<open>dst[s0:s1, b0:b1, :] = src\<close>\<close>

definition assign_block :: "'a tensor \<Rightarrow> nat \<Rightarrow> nat \<Rightarrow> nat \<Rightarrow> nat \<Rightarrow> 'a tensor \<Rightarrow> 'a tensor result" where
  "assign_block dst s0 s1 b0 b1 src =
     (let region = shape (block_slice s0 s1 b0 b1 dst) in
      if broadcastable (shape src) region then
        let new = expand (region ! 0)
                    (map (\<lambda>row. expand (region ! 1) (map (expand (region ! 2)) row)) (rows src))
        in Inr (dst\<lparr>rows := take s0 (rows dst) @
             map2 (\<lambda>old fresh. take b0 old @ fresh @ drop (max b0 b1) old) (pyslice s0 s1 (rows dst)) new @
             drop (max s0 s1) (rows dst)\<rparr>)
      else Inl RuntimeError)"

section \<open>The table\<close>

record seq_state =
  pages :: "nat list"
  l_acc :: nat
  l_seq :: nat

definition new_seq :: seq_state where
  "new_seq = \<lparr>pages = [], l_acc = 0, l_seq = 0\<rparr>"

record 'a paged_table =
  kbuf :: "'a tensor"
  vbuf :: "'a tensor"
  block_size :: nat
  num_pages :: nat
  free_stack :: "nat list"
  seqs :: "int \<rightharpoonup> seq_state"

definition BLOCK_SIZE :: nat where
  "BLOCK_SIZE = 16"

definition init_table :: "'a tensor \<Rightarrow> 'a tensor \<Rightarrow> nat \<Rightarrow> 'a paged_table result" where
  "init_table bk bv bs =
     (if shape bk \<noteq> shape bv then Inl PagedKVError
      else if ndim bk \<noteq> 3 then Inl PagedKVError
      else if bs = 0 then Inl ZeroDivisionError
      else if shape bk ! 0 mod bs \<noteq> 0 then Inl PagedKVError
      else Inr \<lparr>kbuf = bk, vbuf = bv, block_size = bs, num_pages = shape bk ! 0 div bs,
                free_stack = rev [0..<shape bk ! 0 div bs], seqs = Map.empty\<rparr>)"

section \<open>Sequence lifecycle and accessors\<close>

definition register_sequence :: "int \<Rightarrow> 'a paged_table \<Rightarrow> ('a paged_table, unit) outcome" where
  "register_sequence sid t =
     (if seqs t sid \<noteq> None then (Inl PagedKVError, t)
      else (Inr (), t\<lparr>seqs := (seqs t)(sid \<mapsto> new_seq)\<rparr>))"

definition release_sequence :: "int \<Rightarrow> 'a paged_table \<Rightarrow> ('a paged_table, unit) outcome" where
  "release_sequence sid t =
     (case seqs t sid of
        None \<Rightarrow> (Inr (), t)
      | Some st \<Rightarrow> (Inr (), t\<lparr>seqs := (seqs t)(sid := None), free_stack := free_stack t @ pages st\<rparr>))"

definition has_sequence :: "int \<Rightarrow> 'a paged_table \<Rightarrow> bool" where
  "has_sequence sid t \<longleftrightarrow> seqs t sid \<noteq> None"

definition get_l_seq :: "int \<Rightarrow> 'a paged_table \<Rightarrow> nat result" where
  "get_l_seq sid t = (case seqs t sid of None \<Rightarrow> Inl KeyError | Some st \<Rightarrow> Inr (l_seq st))"

definition get_l_acc :: "int \<Rightarrow> 'a paged_table \<Rightarrow> nat result" where
  "get_l_acc sid t = (case seqs t sid of None \<Rightarrow> Inl KeyError | Some st \<Rightarrow> Inr (l_acc st))"

definition num_free_pages :: "'a paged_table \<Rightarrow> nat" where
  "num_free_pages t = length (free_stack t)"

definition num_used_pages :: "int \<Rightarrow> 'a paged_table \<Rightarrow> nat result" where
  "num_used_pages sid t = (case seqs t sid of None \<Rightarrow> Inl KeyError | Some st \<Rightarrow> Inr (length (pages st)))"

section \<open>Allocation\<close>

text \<open>The loop of \<open>_ensure_capacity\<close>; the flag says whether it ended without an empty free list.\<close>

function grow_pages :: "nat \<Rightarrow> nat list \<Rightarrow> nat list \<Rightarrow> bool \<times> nat list \<times> nat list" where
  "grow_pages needed ps free =
     (if length ps < needed then
        if free = [] then (False, ps, free)
        else grow_pages needed (ps @ [last free]) (butlast free)
      else (True, ps, free))"
  by pat_completeness auto
termination by (relation "measure (\<lambda>(needed, ps, free). needed - length ps)") auto

declare grow_pages.simps [simp del]

definition ensure_capacity :: "int \<Rightarrow> nat \<Rightarrow> 'a paged_table \<Rightarrow> ('a paged_table, unit) outcome" where
  "ensure_capacity sid target_len t =
     (case seqs t sid of
        None \<Rightarrow> (Inl KeyError, t)
      | Some st \<Rightarrow>
          (case grow_pages (ceil_div target_len (block_size t)) (pages st) (free_stack t) of
             (ok, ps, free) \<Rightarrow>
               ((if ok then Inr () else Inl PagedKVError),
                t\<lparr>seqs := (seqs t)(sid \<mapsto> st\<lparr>pages := ps\<rparr>), free_stack := free\<rparr>)))"

section \<open>Writes\<close>

text \<open>The page-by-page loop of \<open>write\<close> over \<open>pos\<close> and \<open>src_offset\<close>.\<close>

function write_loop ::
  "nat \<Rightarrow> nat list \<Rightarrow> nat \<Rightarrow> nat \<Rightarrow> 'a tensor \<Rightarrow> 'a tensor \<Rightarrow> nat \<Rightarrow> nat \<Rightarrow> nat \<Rightarrow>
   'a tensor \<Rightarrow> 'a tensor \<Rightarrow> ('a tensor \<times> 'a tensor, unit) outcome" where
  "write_loop bs ps b0 b1 kn vn end_pos pos src k v =
     (if bs = 0 then (Inl ZeroDivisionError, k, v)
      else if pos < end_pos then
        let page_idx = pos div bs; slot = pos mod bs; n = min (bs - slot) (end_pos - pos) in
        if page_idx < length ps then
          let s_base = ps ! page_idx * bs + slot in
          (case assign_block k s_base (s_base + n) b0 b1 (row_slice src (src + n) kn) of
             Inl e \<Rightarrow> (Inl e, k, v)
           | Inr k' \<Rightarrow>
               (case assign_block v s_base (s_base + n) b0 b1 (row_slice src (src + n) vn) of
                  Inl e \<Rightarrow> (Inl e, k', v)
                | Inr v' \<Rightarrow> write_loop bs ps b0 b1 kn vn end_pos (pos + n) (src + n) k' v'))
        else (Inl IndexError, k, v)
      else (Inr (), k, v))"
  by pat_completeness auto
termination
  by (relation "measure (\<lambda>(bs, ps, b0, b1, kn, vn, end_pos, pos, src, k, v). end_pos - pos)")
     (use chunk_decreases in force)+

declare write_loop.simps [simp del]

text \<open>The last lines of \<open>write\<close> and \<open>track_write\<close>.\<close>

definition advance :: "nat \<Rightarrow> bool \<Rightarrow> seq_state \<Rightarrow> seq_state" where
  "advance end_pos commit st =
     (let st1 = (if l_seq st < end_pos then st\<lparr>l_seq := end_pos\<rparr> else st) in
      if commit \<and> l_acc st1 < end_pos then st1\<lparr>l_acc := end_pos\<rparr> else st1)"

definition kv_write ::
  "int \<Rightarrow> nat \<Rightarrow> 'a tensor \<Rightarrow> 'a tensor \<Rightarrow> nat \<times> nat \<Rightarrow> bool \<Rightarrow> 'a paged_table \<Rightarrow>
   ('a paged_table, unit) outcome" where
  "kv_write sid start kn vn bh commit t =
     (if shape kn \<noteq> shape vn then (Inl PagedKVError, t)
      else if ndim kn \<noteq> 3 then (Inl PagedKVError, t)
      else if shape kn ! 0 = 0 then (Inr (), t)
      else
        let end_pos = start + shape kn ! 0 in
        (case ensure_capacity sid end_pos t of
           (Inl e, t1) \<Rightarrow> (Inl e, t1)
         | (Inr _, t1) \<Rightarrow>
             (case seqs t1 sid of
                None \<Rightarrow> (Inl KeyError, t1)
              | Some st \<Rightarrow>
                  (case write_loop (block_size t1) (pages st) (fst bh) (snd bh) kn vn end_pos start 0
                          (kbuf t1) (vbuf t1) of
                     (Inl e, k, v) \<Rightarrow> (Inl e, t1\<lparr>kbuf := k, vbuf := v\<rparr>)
                   | (Inr _, k, v) \<Rightarrow>
                       (Inr (), t1\<lparr>kbuf := k, vbuf := v,
                                  seqs := (seqs t1)(sid \<mapsto> advance end_pos commit st)\<rparr>)))))"

definition track_write :: "int \<Rightarrow> nat \<Rightarrow> int \<Rightarrow> bool \<Rightarrow> 'a paged_table \<Rightarrow> ('a paged_table, unit) outcome" where
  "track_write sid start s_new commit t =
     (if s_new \<le> 0 then (Inr (), t)
      else
        let t0 = (if seqs t sid = None then snd (register_sequence sid t) else t);
            end_pos = start + nat s_new in
        (case ensure_capacity sid end_pos t0 of
           (Inl e, t1) \<Rightarrow> (Inl e, t1)
         | (Inr _, t1) \<Rightarrow>
             (case seqs t1 sid of
                None \<Rightarrow> (Inl KeyError, t1)
              | Some st \<Rightarrow> (Inr (), t1\<lparr>seqs := (seqs t1)(sid \<mapsto> advance end_pos commit st)\<rparr>))))"

section \<open>Commit and rollback\<close>

definition commit_seq :: "int \<Rightarrow> int option \<Rightarrow> 'a paged_table \<Rightarrow> ('a paged_table, unit) outcome" where
  "commit_seq sid up_to t =
     (case seqs t sid of
        None \<Rightarrow> (Inl KeyError, t)
      | Some st \<Rightarrow>
          let target = (case up_to of None \<Rightarrow> int (l_seq st) | Some u \<Rightarrow> u) in
          if target > int (l_seq st) then (Inl PagedKVError, t)
          else if target > int (l_acc st) then
            (Inr (), t\<lparr>seqs := (seqs t)(sid \<mapsto> st\<lparr>l_acc := nat target\<rparr>)\<rparr>)
          else (Inr (), t))"

function shrink_pages :: "nat \<Rightarrow> nat list \<Rightarrow> nat list \<Rightarrow> nat list \<times> nat list" where
  "shrink_pages keep ps free =
     (if length ps > keep then shrink_pages keep (butlast ps) (free @ [last ps]) else (ps, free))"
  by pat_completeness auto
termination by (relation "measure (\<lambda>(keep, ps, free). length ps)") auto

declare shrink_pages.simps [simp del]

definition rollback :: "int \<Rightarrow> int \<Rightarrow> 'a paged_table \<Rightarrow> ('a paged_table, unit) outcome" where
  "rollback sid target t =
     (case seqs t sid of
        None \<Rightarrow> (Inl KeyError, t)
      | Some st \<Rightarrow>
          if target > int (l_acc st) then (Inl PagedKVError, t)
          else if target < 0 then (Inl PagedKVError, t)
          else
            (case shrink_pages (ceil_div (nat target) (block_size t)) (pages st) (free_stack t) of
               (ps, free) \<Rightarrow>
                 (Inr (), t\<lparr>seqs := (seqs t)(sid \<mapsto> \<lparr>pages = ps, l_acc = nat target, l_seq = nat target\<rparr>),
                            free_stack := free\<rparr>)))"

section \<open>Reads\<close>

function gather_loop ::
  "nat \<Rightarrow> nat list \<Rightarrow> nat \<Rightarrow> nat \<Rightarrow> 'a tensor \<Rightarrow> 'a tensor \<Rightarrow> nat \<Rightarrow> nat \<Rightarrow>
   'a tensor \<Rightarrow> 'a tensor \<Rightarrow> ('a tensor \<times> 'a tensor) result" where
  "gather_loop bs ps b0 b1 k v len pos ko vo =
     (if bs = 0 then Inl ZeroDivisionError
      else if pos < len then
        let page_idx = pos div bs; slot = pos mod bs; n = min (bs - slot) (len - pos) in
        if page_idx < length ps then
          let s_base = ps ! page_idx * bs + slot in
          (case assign_block ko pos (pos + n) 0 (shape ko ! 1) (block_slice s_base (s_base + n) b0 b1 k) of
             Inl e \<Rightarrow> Inl e
           | Inr ko' \<Rightarrow>
               (case assign_block vo pos (pos + n) 0 (shape vo ! 1) (block_slice s_base (s_base + n) b0 b1 v) of
                  Inl e \<Rightarrow> Inl e
                | Inr vo' \<Rightarrow> gather_loop bs ps b0 b1 k v len (pos + n) ko' vo'))
        else Inl IndexError
      else Inr (ko, vo))"
  by pat_completeness auto
termination
  by (relation "measure (\<lambda>(bs, ps, b0, b1, k, v, len, pos, ko, vo). len - pos)")
     (use chunk_decreases in force)+

declare gather_loop.simps [simp del]

text \<open>
  \<open>torch.empty\<close> returns uninitialised memory: \<open>junk\<close> stands for whatever value a cell holds
  before it is written.
\<close>

definition torch_empty :: "'a \<Rightarrow> nat \<Rightarrow> nat \<Rightarrow> nat \<Rightarrow> 'a tensor" where
  "torch_empty junk s b d = \<lparr>shape = [s, b, d], rows = replicate s (replicate b (replicate d junk))\<rparr>"

definition gather_prefix ::
  "'a \<Rightarrow> int \<Rightarrow> nat \<times> nat \<Rightarrow> int option \<Rightarrow> ('a tensor \<times> 'a tensor) option \<Rightarrow> 'a paged_table \<Rightarrow>
   ('a tensor \<times> 'a tensor) result" where
  "gather_prefix junk sid bh len out t =
     (case seqs t sid of
        None \<Rightarrow> Inl KeyError
      | Some st \<Rightarrow>
          let n = (case len of None \<Rightarrow> int (l_acc st) | Some l \<Rightarrow> l) in
          if n > int (l_acc st) then Inl PagedKVError
          else
            (case out of
               None \<Rightarrow>
                 if n < 0 \<or> snd bh < fst bh then Inl RuntimeError
                 else gather_loop (block_size t) (pages st) (fst bh) (snd bh) (kbuf t) (vbuf t) (nat n) 0
                        (torch_empty junk (nat n) (snd bh - fst bh) (shape (kbuf t) ! 2))
                        (torch_empty junk (nat n) (snd bh - fst bh) (shape (kbuf t) ! 2))
             | Some (ko, vo) \<Rightarrow>
                 gather_loop (block_size t) (pages st) (fst bh) (snd bh) (kbuf t) (vbuf t) (nat n) 0 ko vo))"

section \<open>Page ownership\<close>

text \<open>Every page is on the free stack or in exactly one page table, once.\<close>

definition pages_inv :: "nat \<Rightarrow> nat list \<Rightarrow> (int \<rightharpoonup> nat list) \<Rightarrow> bool" where
  "pages_inv np free pm \<longleftrightarrow>
     distinct free \<and>
     (\<forall>sid ps. pm sid = Some ps \<longrightarrow> distinct ps \<and> set ps \<inter> set free = {}) \<and>
     (\<forall>i j ps qs. i \<noteq> j \<longrightarrow> pm i = Some ps \<longrightarrow> pm j = Some qs \<longrightarrow> set ps \<inter> set qs = {}) \<and>
     set free \<union> \<Union> (set ` ran pm) = {..<np}"

lemma grow_pages_closed:
  "grow_pages needed ps free =
     (needed \<le> length ps + length free,
      ps @ take (needed - length ps) (rev free),
      take (length free - (needed - length ps)) free)"
proof (induction needed ps free rule: grow_pages.induct)
  case (1 needed ps free)
  show ?case
  proof (cases "length ps < needed \<and> free \<noteq> []")
    case True
    obtain fs f where free: "free = fs @ [f]" using True by (meson rev_exhaust)
    obtain d where d: "needed - length ps = Suc d" using True by (cases "needed - length ps") auto
    have "needed - Suc (length ps) = d" using d by simp
    then show ?thesis using 1 True d by (auto simp: grow_pages.simps [of needed ps] free)
  next
    case False
    then show ?thesis by (auto simp: grow_pages.simps [of needed ps])
  qed
qed

lemma shrink_pages_closed:
  "shrink_pages keep ps free = (take keep ps, free @ rev (drop keep ps))"
proof (induction keep ps free rule: shrink_pages.induct)
  case (1 keep ps free)
  show ?case
  proof (cases "length ps > keep")
    case True
    then obtain qs q where ps: "ps = qs @ [q]" by (metis append_butlast_last_id list.size(3) not_less_zero)
    with 1 True show ?thesis by (auto simp: shrink_pages.simps [of keep "qs @ [q]"])
  next
    case False
    then show ?thesis by (simp add: shrink_pages.simps [of keep ps])
  qed
qed

lemma grow_pages_mset:
  assumes "grow_pages needed ps free = (ok, ps', free')"
  shows "mset ps' + mset free' = mset ps + mset free"
proof -
  have "take (needed - length ps) (rev free) = rev (drop (length free - (needed - length ps)) free)"
    by (cases "needed - length ps \<le> length free") (simp_all add: rev_drop)
  then have "mset (take (needed - length ps) (rev free)) +
             mset (take (length free - (needed - length ps)) free) = mset free"
    by (metis append_take_drop_id mset_append mset_rev add.commute)
  with assms show ?thesis by (auto simp: grow_pages_closed add.assoc)
qed

lemma shrink_pages_mset:
  assumes "shrink_pages keep ps free = (ps', free')"
  shows "mset ps' + mset free' = mset ps + mset free"
proof -
  have "mset (take keep ps) + mset (drop keep ps) = mset ps"
    by (metis append_take_drop_id mset_append)
  with assms show ?thesis by (auto simp: shrink_pages_closed)
qed

lemma pages_inv_exchange:
  assumes inv: "pages_inv np free pm" and pm: "pm sid = Some ps"
    and eq: "mset ps' + mset free' = mset ps + mset free"
  shows "pages_inv np free' (pm(sid \<mapsto> ps'))"
proof -
  from eq have m: "mset (ps' @ free') = mset (ps @ free)" by simp
  then have s: "set ps' \<union> set free' = set ps \<union> set free" by (metis set_append set_mset_mset)
  have d: "distinct (ps' @ free')"
    using inv pm mset_eq_imp_distinct_iff [OF m] by (auto simp: pages_inv_def)
  have other: "set qs \<inter> (set ps' \<union> set free') = {}" if "j \<noteq> sid" "pm j = Some qs" for j qs
    unfolding s using inv pm that unfolding pages_inv_def by blast
  have cover: "set free' \<union> \<Union> (set ` ran (pm(sid \<mapsto> ps'))) = {..<np}"
  proof -
    have "\<Union> (set ` ran pm) = set ps \<union> \<Union> (set ` ran (pm(sid := None)))"
      by (simp add: ran_split_at [of pm, OF pm])
    then show ?thesis using inv s unfolding pages_inv_def ran_upd_insert by auto
  qed
  show ?thesis using d other cover inv unfolding pages_inv_def
    by (auto split: if_splits) (metis Un_iff disjoint_iff)+
qed

lemma pages_inv_release:
  assumes inv: "pages_inv np free pm" and pm: "pm sid = Some ps"
  shows "pages_inv np (free @ ps) (pm(sid := None))"
proof -
  have "\<Union> (set ` ran pm) = set ps \<union> \<Union> (set ` ran (pm(sid := None)))"
    by (simp add: ran_split_at [of pm, OF pm])
  with inv pm show ?thesis unfolding pages_inv_def
    by (auto split: if_splits) (metis disjoint_iff)+
qed

lemma pages_inv_register:
  assumes inv: "pages_inv np free pm" and pm: "pm sid = None"
  shows "pages_inv np free (pm(sid \<mapsto> []))"
proof -
  show ?thesis using inv pm unfolding pages_inv_def ran_map_upd [of pm, OF pm]
    by (auto split: if_splits)
qed

section \<open>Slice assignment\<close>

abbreviation splice_at :: "nat \<Rightarrow> nat \<Rightarrow> 'b list \<Rightarrow> 'b list \<Rightarrow> 'b list" where
  "splice_at b0 b1 old fresh \<equiv> take b0 old @ fresh @ drop (max b0 b1) old"

lemma length_splice:
  "length fresh = min b1 (length old) - b0 \<Longrightarrow> length (splice_at b0 b1 old fresh) = length old"
  by (auto simp: min_def max_def)

lemma set_splice_at: "set (splice_at b0 b1 old fresh) \<subseteq> set old \<union> set fresh"
  by (auto dest: in_set_takeD in_set_dropD)

lemma pyslice_splice:
  assumes "length fresh = b1 - b0" and "b0 \<le> b1" and "b1 \<le> length old"
  shows "pyslice b0 b1 (splice_at b0 b1 old fresh) = fresh"
  using assms by (simp add: pyslice_def)

lemma splice_full: "length fresh = length old \<Longrightarrow> splice_at 0 (length old) old fresh = fresh"
  by simp

lemma wf_tensorD:
  assumes "wf_tensor t"
  shows "length (shape t) = 3" "length (rows t) = shape t ! 0"
    "i < shape t ! 0 \<Longrightarrow> length (rows t ! i) = shape t ! 1"
    "i < shape t ! 0 \<Longrightarrow> j < shape t ! 1 \<Longrightarrow> length (rows t ! i ! j) = shape t ! 2"
  using assms unfolding wf_tensor_def ndim_def by (metis nth_mem)+

lemma wf_tensorI:
  assumes "length (shape t) = 3" "length (rows t) = shape t ! 0"
    "\<And>i. i < shape t ! 0 \<Longrightarrow> length (rows t ! i) = shape t ! 1 \<and> (\<forall>cell \<in> set (rows t ! i). length cell = shape t ! 2)"
  shows "wf_tensor t"
  using assms unfolding wf_tensor_def ndim_def by (metis in_set_conv_nth)

lemma shape3: "length sh = 3 \<Longrightarrow> sh = [sh ! 0, sh ! 1, sh ! 2]"
  by (auto simp: eval_nat_numeral length_Suc_conv)

lemma broadcastable3:
  "length s = 3 \<Longrightarrow> broadcastable s [a, b, c] \<longleftrightarrow>
     (s ! 0 = a \<or> s ! 0 = 1) \<and> (s ! 1 = b \<or> s ! 1 = 1) \<and> (s ! 2 = c \<or> s ! 2 = 1)"
  by (subst shape3 [of s]) (auto simp: broadcastable_def)

lemma length_expand [simp]: "length (expand n xs) = n"
  by (simp add: expand_def)

lemma set_expand: "length xs = m \<Longrightarrow> m = n \<or> m = 1 \<Longrightarrow> set (expand n xs) \<subseteq> set xs"
  by (cases xs) (auto simp: expand_def split: if_splits)

lemma wf_row_slice: "wf_tensor t \<Longrightarrow> wf_tensor (row_slice a b t)"
  using set_pyslice_subset [of a b "rows t"]
  by (auto simp: wf_tensor_def row_slice_def ndim_def)

lemma wf_block_slice:
  assumes "wf_tensor t" shows "wf_tensor (block_slice a b c d t)"
  using assms set_pyslice_subset [of a b "rows t"] set_pyslice_subset [of c d]
  by (fastforce simp: wf_tensor_def block_slice_def ndim_def)

text \<open>
  What a slice assignment that does not raise leaves behind, and that one whose source has the shape
  of the region does not raise.
\<close>

lemma assign_block_wf:
  assumes ok: "assign_block dst s0 s1 b0 b1 src = Inr dst'"
    and wd: "wf_tensor dst" and ws: "wf_tensor src"
  shows "wf_tensor dst'" and "shape dst' = shape dst"
proof -
  define a b c where "a = min s1 (shape dst ! 0) - s0" and "b = min b1 (shape dst ! 1) - b0" and "c = shape dst ! 2"
  define new where "new = expand a (map (\<lambda>row. expand b (map (expand c) row)) (rows src))"
  define M where "M = map2 (splice_at b0 b1) (pyslice s0 s1 (rows dst)) new"
  have bc: "broadcastable (shape src) [a, b, c]"
    and dst': "dst' = dst\<lparr>rows := splice_at s0 s1 (rows dst) M\<rparr>"
    using ok by (auto simp: assign_block_def block_slice_def Let_def M_def new_def a_def b_def c_def split: if_splits)
  have newrow: "length r = b \<and> (\<forall>cell \<in> set r. length cell = c)" if "r \<in> set new" for r
  proof -
    have "set new \<subseteq> set (map (\<lambda>row. expand b (map (expand c) row)) (rows src))"
      using bc wf_tensorD(1,2) [OF ws] unfolding new_def
      by (intro set_expand [where m = "shape src ! 0"]) (auto simp: broadcastable3)
    with that obtain row where row: "row \<in> set (rows src)" "r = expand b (map (expand c) row)" by auto
    have "set r \<subseteq> set (map (expand c) row)"
      unfolding row(2) using bc ws row(1) wf_tensorD(1) [OF ws]
      by (intro set_expand [where m = "shape src ! 1"]) (auto simp: broadcastable3 wf_tensor_def)
    with row(2) show ?thesis by auto
  qed
  have old: "length row = shape dst ! 1 \<and> (\<forall>cell \<in> set row. length cell = c)" if "row \<in> set (rows dst)" for row
    using wd that by (auto simp: wf_tensor_def c_def)
  have mid: "length r = shape dst ! 1 \<and> (\<forall>cell \<in> set r. length cell = c)" if r: "r \<in> set M" for r
  proof -
    from r obtain o1 n1 where on: "o1 \<in> set (pyslice s0 s1 (rows dst))" "n1 \<in> set new" "r = splice_at b0 b1 o1 n1"
      unfolding M_def by (auto dest: set_zip_leftD set_zip_rightD)
    have "o1 \<in> set (rows dst)" using on(1) by (rule subsetD [OF set_pyslice_subset])
    then have o: "length o1 = shape dst ! 1 \<and> (\<forall>cell \<in> set o1. length cell = c)" by (rule old)
    then have "length r = shape dst ! 1"
      unfolding on(3) using newrow [OF on(2)] by (subst length_splice) (auto simp: b_def)
    moreover have "\<forall>cell \<in> set r. length cell = c"
      using set_splice_at [of b0 o1 n1 b1] newrow [OF on(2)] o unfolding on(3) by blast
    ultimately show ?thesis by simp
  qed
  show "shape dst' = shape dst" by (simp add: dst')
  have "length M = min s1 (length (rows dst)) - s0"
    using wf_tensorD(2) [OF wd] by (simp add: M_def new_def a_def)
  then have "length (rows dst') = shape dst ! 0"
    using length_splice [of M s1 "rows dst" s0] wf_tensorD(2) [OF wd] by (simp add: dst')
  moreover have "length row = shape dst ! 1 \<and> (\<forall>cell \<in> set row. length cell = c)" if "row \<in> set (rows dst')" for row
  proof -
    have rd: "rows dst' = splice_at s0 s1 (rows dst) M" by (simp add: dst')
    have "row \<in> set (rows dst) \<union> set M" by (rule subsetD [OF set_splice_at that [unfolded rd]])
    then show ?thesis using old mid by blast
  qed
  ultimately show "wf_tensor dst'"
    using wf_tensorD(1) [OF wd] by (simp add: wf_tensor_def ndim_def dst' c_def)
qed

lemma assign_block_exact:
  assumes wd: "wf_tensor dst" and ws: "wf_tensor src"
    and s: "s0 \<le> s1" "s1 \<le> shape dst ! 0" and b: "b0 \<le> b1" "b1 \<le> shape dst ! 1"
    and sh: "shape src = [s1 - s0, b1 - b0, shape dst ! 2]"
  obtains dst' where "assign_block dst s0 s1 b0 b1 src = Inr dst'"
    "\<And>i. s0 \<le> i \<Longrightarrow> i < s1 \<Longrightarrow> rows dst' ! i = splice_at b0 b1 (rows dst ! i) (rows src ! (i - s0))"
    "\<And>i. i < s0 \<or> s1 \<le> i \<Longrightarrow> i < shape dst ! 0 \<Longrightarrow> rows dst' ! i = rows dst ! i"
proof -
  have row: "expand (b1 - b0) (map (expand (shape dst ! 2)) row) = row" if "row \<in> set (rows src)" for row
  proof -
    have "length row = b1 - b0" "\<forall>cell \<in> set row. length cell = shape dst ! 2"
      using ws that by (auto simp: wf_tensor_def sh)
    then have "map (expand (shape dst ! 2)) row = row" by (auto simp: expand_def intro: map_idI)
    with \<open>length row = b1 - b0\<close> show ?thesis by (simp add: expand_def)
  qed
  have new: "expand (s1 - s0) (map (\<lambda>row. expand (b1 - b0) (map (expand (shape dst ! 2)) row)) (rows src)) = rows src"
    using row wf_tensorD(2) [OF ws] by (simp add: expand_def sh cong: map_cong)
  have len: "length (rows dst) = shape dst ! 0" "length (rows src) = s1 - s0"
    using wf_tensorD(2) [OF wd] wf_tensorD(2) [OF ws] by (simp_all add: sh)
  let ?dst' = "dst\<lparr>rows := take s0 (rows dst) @
        map2 (splice_at b0 b1) (pyslice s0 s1 (rows dst)) (rows src) @ drop s1 (rows dst)\<rparr>"
  have "assign_block dst s0 s1 b0 b1 src = Inr ?dst'"
    using s b by (simp add: assign_block_def block_slice_def Let_def sh new broadcastable_def min_absorb1 max_absorb2)
  moreover have "rows ?dst' ! i = splice_at b0 b1 (rows dst ! i) (rows src ! (i - s0))" if "s0 \<le> i" "i < s1" for i
    using that s len by (auto simp: nth_append nth_map2)
  moreover have "rows ?dst' ! i = rows dst ! i" if "i < s0 \<or> s1 \<le> i" "i < shape dst ! 0" for i
    using that s len by (auto simp: nth_append)
  ultimately show ?thesis by (rule that)
qed

section \<open>The table invariant\<close>

abbreviation page_map :: "(int \<rightharpoonup> seq_state) \<Rightarrow> int \<rightharpoonup> nat list" where
  "page_map m \<equiv> map_option pages \<circ> m"

definition seq_ok :: "nat \<Rightarrow> seq_state \<Rightarrow> bool" where
  "seq_ok bs st \<longleftrightarrow> l_acc st \<le> l_seq st \<and> l_seq st \<le> length (pages st) * bs"

definition kv_inv :: "'a paged_table \<Rightarrow> bool" where
  "kv_inv t \<longleftrightarrow>
     0 < block_size t \<and> wf_tensor (kbuf t) \<and> wf_tensor (vbuf t) \<and> shape (kbuf t) = shape (vbuf t) \<and>
     shape (kbuf t) ! 0 = num_pages t * block_size t \<and>
     pages_inv (num_pages t) (free_stack t) (page_map (seqs t)) \<and>
     (\<forall>sid st. seqs t sid = Some st \<longrightarrow> seq_ok (block_size t) st)"

lemma kv_inv_seqD:
  assumes "kv_inv t" and "seqs t sid = Some st"
  shows "seq_ok (block_size t) st" "distinct (pages st)" "\<And>p. p \<in> set (pages st) \<Longrightarrow> p < num_pages t"
proof -
  from assms show "seq_ok (block_size t) st" by (auto simp: kv_inv_def)
  have pm: "page_map (seqs t) sid = Some (pages st)" using assms(2) by simp
  from assms(1) have pi: "pages_inv (num_pages t) (free_stack t) (page_map (seqs t))" by (simp add: kv_inv_def)
  then show "distinct (pages st)" using pm unfolding pages_inv_def by blast
  fix p assume "p \<in> set (pages st)"
  then have "p \<in> \<Union> (set ` ran (page_map (seqs t)))" using pm by (meson UN_I ranI)
  then show "p < num_pages t" using pi unfolding pages_inv_def by blast
qed

lemma page_map_upd [simp]: "page_map (m(sid \<mapsto> st)) = (page_map m)(sid \<mapsto> pages st)"
  by (auto simp: fun_eq_iff)

lemma page_map_del [simp]: "page_map (m(sid := None)) = (page_map m)(sid := None)"
  by (auto simp: fun_eq_iff)

text \<open>The general step: a new state for one sequence that conserves its pages with the free stack.\<close>

lemma kv_inv_update:
  assumes inv: "kv_inv t" and st: "seqs t sid = Some st"
    and eq: "mset (pages st') + mset free' = mset (pages st) + mset (free_stack t)"
    and ok: "seq_ok (block_size t) st'"
  shows "kv_inv (t\<lparr>seqs := (seqs t)(sid \<mapsto> st'), free_stack := free'\<rparr>)"
proof -
  have "pages_inv (num_pages t) free' ((page_map (seqs t))(sid \<mapsto> pages st'))"
    using inv st eq by (intro pages_inv_exchange [where ps = "pages st"]) (auto simp: kv_inv_def)
  with inv ok show ?thesis by (auto simp: kv_inv_def split: if_splits)
qed

lemma kv_inv_buffers:
  "kv_inv t \<Longrightarrow> wf_tensor k \<Longrightarrow> wf_tensor v \<Longrightarrow> shape k = shape (kbuf t) \<Longrightarrow> shape v = shape (vbuf t) \<Longrightarrow>
   kv_inv (t\<lparr>kbuf := k, vbuf := v\<rparr>)"
  by (auto simp: kv_inv_def)

lemma kv_inv_seq:
  assumes "kv_inv t" "seqs t sid = Some st" "pages st' = pages st" "seq_ok (block_size t) st'"
  shows "kv_inv (t\<lparr>seqs := (seqs t)(sid \<mapsto> st')\<rparr>)"
  using kv_inv_update [OF assms(1,2), of st' "free_stack t"] assms(3,4) by simp

lemma init_table_inv:
  assumes "init_table bk bv bs = Inr t" and "wf_tensor bk" and "wf_tensor bv"
  shows "kv_inv t"
proof -
  have "ran Map.empty = {}" by (rule ran_empty)
  with assms show ?thesis
    by (auto simp: init_table_def kv_inv_def pages_inv_def comp_def split: if_splits)
qed

lemma register_inv: "kv_inv t \<Longrightarrow> register_sequence sid t = (r, t') \<Longrightarrow> kv_inv t'"
  by (auto simp: register_sequence_def kv_inv_def new_seq_def seq_ok_def pages_inv_register split: if_splits)

lemma release_inv:
  assumes "kv_inv t" and "release_sequence sid t = (r, t')"
  shows "kv_inv t'"
proof (cases "seqs t sid")
  case None with assms show ?thesis by (simp add: release_sequence_def)
next
  case (Some st)
  have "pages_inv (num_pages t) (free_stack t @ pages st) ((page_map (seqs t))(sid := None))"
    using assms(1) Some by (intro pages_inv_release) (auto simp: kv_inv_def)
  with assms Some show ?thesis by (auto simp: release_sequence_def kv_inv_def split: if_splits)
qed

text \<open>Everything the allocation step establishes, whether or not it runs out of pages.\<close>

lemma ensure_capacity_spec:
  assumes inv: "kv_inv t" and st: "seqs t sid = Some st"
    and ec: "ensure_capacity sid len t = (r, t')"
  obtains ext where
    "kv_inv t'" "seqs t' = (seqs t)(sid \<mapsto> st\<lparr>pages := pages st @ ext\<rparr>)"
    "kbuf t' = kbuf t" "vbuf t' = vbuf t" "block_size t' = block_size t" "num_pages t' = num_pages t"
    "r = (if ceil_div len (block_size t) \<le> length (pages st) + length (free_stack t) then Inr () else Inl PagedKVError)"
    "r = Inr () \<Longrightarrow> len \<le> length (pages st @ ext) * block_size t"
    "r = Inl PagedKVError \<Longrightarrow> free_stack t' = []"
    "length ext + length (free_stack t') = length (free_stack t)"
proof -
  define n where "n = ceil_div len (block_size t) - length (pages st)"
  define ext where "ext = take n (rev (free_stack t))"
  have g: "grow_pages (ceil_div len (block_size t)) (pages st) (free_stack t) =
      (ceil_div len (block_size t) \<le> length (pages st) + length (free_stack t), pages st @ ext,
       take (length (free_stack t) - n) (free_stack t))"
    by (simp add: grow_pages_closed n_def ext_def)
  have t': "t' = t\<lparr>seqs := (seqs t)(sid \<mapsto> st\<lparr>pages := pages st @ ext\<rparr>),
                  free_stack := take (length (free_stack t) - n) (free_stack t)\<rparr>"
    and r: "r = (if ceil_div len (block_size t) \<le> length (pages st) + length (free_stack t) then Inr () else Inl PagedKVError)"
    using ec st g by (auto simp: ensure_capacity_def)
  have bs: "0 < block_size t" using inv by (simp add: kv_inv_def)
  have "seq_ok (block_size t) (st\<lparr>pages := pages st @ ext\<rparr>)"
    using kv_inv_seqD(1) [OF inv st] by (auto simp: seq_ok_def add_mult_distrib)
  then have "kv_inv t'" unfolding t'
    using grow_pages_mset [OF g] by (intro kv_inv_update [OF inv st]) simp_all
  moreover have "len \<le> length (pages st @ ext) * block_size t" if "r = Inr ()"
  proof -
    have "ceil_div len (block_size t) \<le> length (pages st @ ext)"
      using that r by (auto simp: ext_def n_def split: if_splits)
    then show ?thesis using ceil_div_le_iff [OF bs] by blast
  qed
  moreover have "free_stack t' = []" if "r = Inl PagedKVError"
    using that r by (auto simp: t' n_def split: if_splits)
  moreover have "length ext + length (free_stack t') = length (free_stack t)"
    by (auto simp: ext_def t')
  ultimately show ?thesis using r by (intro that) (simp_all add: t')
qed

section \<open>Physical positions and the copy loops\<close>

definition phys :: "nat \<Rightarrow> nat list \<Rightarrow> nat \<Rightarrow> nat" where
  "phys bs ps q = ps ! (q div bs) * bs + q mod bs"

definition pages_fit :: "nat \<Rightarrow> nat list \<Rightarrow> nat \<Rightarrow> bool" where
  "pages_fit bs ps s_total \<longleftrightarrow> 0 < bs \<and> distinct ps \<and> (\<forall>p \<in> set ps. p * bs + bs \<le> s_total)"

lemma kv_inv_pages_fit:
  assumes "kv_inv t" and "seqs t sid = Some st"
  shows "pages_fit (block_size t) (pages st) (shape (kbuf t) ! 0)"
proof -
  have "p * block_size t + block_size t \<le> num_pages t * block_size t" if "p \<in> set (pages st)" for p
    using kv_inv_seqD(3) [OF assms that] by (metis Suc_leI add.commute mult_Suc mult_le_mono1)
  then show ?thesis using assms kv_inv_seqD(2) [OF assms] by (auto simp: pages_fit_def kv_inv_def)
qed

lemma phys_less:
  assumes "pages_fit bs ps s_total" and "q < length ps * bs"
  shows "phys bs ps q < s_total"
proof -
  have "ps ! (q div bs) \<in> set ps" using assms by (auto simp: pages_fit_def div_less_of_less_mult)
  then have "ps ! (q div bs) * bs + bs \<le> s_total" using assms(1) by (auto simp: pages_fit_def)
  moreover have "q mod bs < bs" using assms(1) by (simp add: pages_fit_def)
  ultimately show ?thesis by (simp add: phys_def)
qed

lemma phys_inj:
  assumes fit: "pages_fit bs ps s_total" and q: "q < length ps * bs" and r: "r < length ps * bs"
    and eq: "phys bs ps q = phys bs ps r"
  shows "q = r"
proof -
  have bs: "0 < bs" using fit by (simp add: pages_fit_def)
  have "phys bs ps q div bs = ps ! (q div bs)" "phys bs ps r div bs = ps ! (r div bs)"
    "phys bs ps q mod bs = q mod bs" "phys bs ps r mod bs = r mod bs"
    using bs by (simp_all add: phys_def)
  with eq have "ps ! (q div bs) = ps ! (r div bs)" "q mod bs = r mod bs" by simp_all
  moreover have "q div bs < length ps" "r div bs < length ps"
    using div_less_of_less_mult [OF bs] q r by simp_all
  ultimately have "q div bs = r div bs" "q mod bs = r mod bs"
    using fit by (auto simp: pages_fit_def nth_eq_iff_index_eq)
  then show ?thesis by (metis div_mult_mod_eq)
qed

lemma phys_chunk:
  assumes "0 < bs" and "i < bs - pos mod bs"
  shows "phys bs ps (pos + i) = ps ! (pos div bs) * bs + pos mod bs + i"
proof -
  have lt: "pos mod bs + i < bs" using assms by simp
  have e: "pos + i = pos div bs * bs + (pos mod bs + i)" by (simp add: div_mult_mod_eq)
  have "(pos + i) div bs = pos div bs" "(pos + i) mod bs = pos mod bs + i"
    using quot_rem_unique [OF lt, of "pos div bs"] by (metis e)+
  then show ?thesis by (simp add: phys_def)
qed

text \<open>
  \<open>buf'\<close> is \<open>buf\<close> with the rows \<open>new\<close> (whose first row stands for logical position
  \<open>start\<close>) spliced in at the logical positions \<open>lo..<hi\<close>, and nothing else changed.
\<close>

definition written ::
  "nat \<Rightarrow> nat list \<Rightarrow> nat \<Rightarrow> nat \<Rightarrow> 'a tensor \<Rightarrow> nat \<Rightarrow> nat \<Rightarrow> nat \<Rightarrow> 'a tensor \<Rightarrow> 'a tensor \<Rightarrow> bool" where
  "written bs ps b0 b1 new start lo hi buf buf' \<longleftrightarrow>
     wf_tensor buf' \<and> shape buf' = shape buf \<and>
     (\<forall>q. lo \<le> q \<and> q < hi \<longrightarrow>
        rows buf' ! phys bs ps q = splice_at b0 b1 (rows buf ! phys bs ps q) (rows new ! (q - start))) \<and>
     (\<forall>r < shape buf ! 0. (\<forall>q. lo \<le> q \<and> q < hi \<longrightarrow> r \<noteq> phys bs ps q) \<longrightarrow> rows buf' ! r = rows buf ! r)"

lemma written_refl: "wf_tensor buf \<Longrightarrow> written bs ps b0 b1 new start hi hi buf buf"
  by (auto simp: written_def)

lemma written_trans:
  assumes fit: "pages_fit bs ps (shape buf ! 0)" and hi: "hi \<le> length ps * bs" and lm: "lo \<le> mid" "mid \<le> hi"
    and w1: "written bs ps b0 b1 new start lo mid buf buf1"
    and w2: "written bs ps b0 b1 new start mid hi buf1 buf2"
  shows "written bs ps b0 b1 new start lo hi buf buf2"
proof -
  have pl: "phys bs ps q < shape buf ! 0" if "q < hi" for q
    using phys_less [OF fit] that hi by simp
  have inj: "phys bs ps q = phys bs ps r \<longleftrightarrow> q = r" if "q < hi" "r < hi" for q r
    using phys_inj [OF fit, of q r] that hi by auto
  have a: "rows buf2 ! phys bs ps q = splice_at b0 b1 (rows buf ! phys bs ps q) (rows new ! (q - start))"
    if q: "lo \<le> q" "q < hi" for q
  proof (cases "q < mid")
    case True
    then have "rows buf2 ! phys bs ps q = rows buf1 ! phys bs ps q"
      using w1 w2 pl [OF q(2)] inj [OF q(2)] unfolding written_def by (metis not_less)
    with True q(1) w1 show ?thesis unfolding written_def by simp
  next
    case False
    then have "rows buf1 ! phys bs ps q = rows buf ! phys bs ps q"
      using w1 pl [OF q(2)] inj lm q unfolding written_def by (metis le_trans less_imp_le_nat not_le)
    with False q(2) w2 show ?thesis unfolding written_def by simp
  qed
  have b: "rows buf2 ! r = rows buf ! r"
    if r: "r < shape buf ! 0" and nq: "\<forall>q. lo \<le> q \<and> q < hi \<longrightarrow> r \<noteq> phys bs ps q" for r
  proof -
    have "rows buf1 ! r = rows buf ! r" using w1 r nq lm(2) unfolding written_def by auto
    moreover have "rows buf2 ! r = rows buf1 ! r" using w1 w2 r nq lm(1) unfolding written_def by auto
    ultimately show ?thesis by simp
  qed
  have "wf_tensor buf2" "shape buf2 = shape buf" using w1 w2 by (auto simp: written_def)
  with a b show ?thesis unfolding written_def by blast
qed

lemma assign_block_written:
  assumes wb: "wf_tensor buf" and wn: "wf_tensor new" and fit: "pages_fit bs ps (shape buf ! 0)"
    and b: "b0 \<le> b1" "b1 \<le> shape buf ! 1"
    and shn: "shape new = [m, b1 - b0, shape buf ! 2]"
    and n: "n \<le> bs - pos mod bs" "pos div bs < length ps" and start: "start \<le> pos" "pos - start + n \<le> m"
  obtains buf' where
    "assign_block buf (ps ! (pos div bs) * bs + pos mod bs) (ps ! (pos div bs) * bs + pos mod bs + n) b0 b1
        (row_slice (pos - start) (pos - start + n) new) = Inr buf'"
    "written bs ps b0 b1 new start pos (pos + n) buf buf'"
proof -
  have bs: "0 < bs" using fit by (simp add: pages_fit_def)
  define s0 where "s0 = ps ! (pos div bs) * bs + pos mod bs"
  define src where "src = row_slice (pos - start) (pos - start + n) new"
  have ws: "wf_tensor src" unfolding src_def by (rule wf_row_slice [OF wn])
  have shs: "shape src = [(s0 + n) - s0, b1 - b0, shape buf ! 2]"
    using start by (simp add: src_def row_slice_def shn)
  have "ps ! (pos div bs) \<in> set ps" using n(2) by simp
  then have "ps ! (pos div bs) * bs + bs \<le> shape buf ! 0" using fit by (auto simp: pages_fit_def)
  moreover have "pos mod bs < bs" using bs by simp
  ultimately have s1: "s0 + n \<le> shape buf ! 0" using n(1) unfolding s0_def by linarith
  obtain buf' where ok: "assign_block buf s0 (s0 + n) b0 b1 src = Inr buf'"
    and inside: "\<And>i. s0 \<le> i \<Longrightarrow> i < s0 + n \<Longrightarrow> rows buf' ! i = splice_at b0 b1 (rows buf ! i) (rows src ! (i - s0))"
    and outside: "\<And>i. i < s0 \<or> s0 + n \<le> i \<Longrightarrow> i < shape buf ! 0 \<Longrightarrow> rows buf' ! i = rows buf ! i"
    using assign_block_exact [OF wb ws _ s1 b shs] by (metis le_add1)
  have ph: "phys bs ps q = s0 + (q - pos)" if "pos \<le> q" "q < pos + n" for q
    using phys_chunk [OF bs, of "q - pos" pos ps] that n(1) by (simp add: s0_def)
  have src_row: "rows src ! i = rows new ! (pos - start + i)" if "i < n" for i
    using that start wf_tensorD(2) [OF wn] by (simp add: src_def row_slice_def shn)
  have "written bs ps b0 b1 new start pos (pos + n) buf buf'" unfolding written_def
  proof (intro conjI allI impI)
    show "wf_tensor buf'" "shape buf' = shape buf" using assign_block_wf [OF ok wb ws] by simp_all
    fix q assume q: "pos \<le> q \<and> q < pos + n"
    then have "rows buf' ! phys bs ps q = splice_at b0 b1 (rows buf ! phys bs ps q) (rows src ! (q - pos))"
    proof -
      obtain i where i: "q = pos + i" "i < n" using q by (metis le_Suc_ex nat_add_left_cancel_less)
      show ?thesis using ph [of q] inside [of "s0 + i"] i by simp
    qed
    moreover have "rows src ! (q - pos) = rows new ! (q - start)" using src_row [of "q - pos"] q start by auto
    ultimately show "rows buf' ! phys bs ps q = splice_at b0 b1 (rows buf ! phys bs ps q) (rows new ! (q - start))"
      by simp
  next
    fix r assume r: "r < shape buf ! 0" and nq: "\<forall>q. pos \<le> q \<and> q < pos + n \<longrightarrow> r \<noteq> phys bs ps q"
    have "r < s0 \<or> s0 + n \<le> r"
    proof (rule ccontr)
      assume "\<not> (r < s0 \<or> s0 + n \<le> r)"
      then obtain i where "r = s0 + i" "i < n" by (metis add_less_cancel_left le_Suc_ex not_le)
      then show False using nq [rule_format, of "pos + i"] ph [of "pos + i"] by simp
    qed
    then show "rows buf' ! r = rows buf ! r" using outside r by blast
  qed
  with ok show ?thesis by (intro that) (simp_all add: s0_def src_def)
qed

lemma write_loop_written:
  assumes fit: "pages_fit bs ps s_total" and hi: "end_pos \<le> length ps * bs"
    and b: "b0 \<le> b1" "b1 \<le> bh" and shn: "shape kn = [m, b1 - b0, d]" "shape vn = shape kn"
    and wn: "wf_tensor kn" "wf_tensor vn" and e: "end_pos = start + m"
  shows "wf_tensor k \<Longrightarrow> wf_tensor v \<Longrightarrow> shape k = [s_total, bh, d] \<Longrightarrow> shape v = shape k \<Longrightarrow>
     pos = start + src \<Longrightarrow> pos \<le> end_pos \<Longrightarrow>
     \<exists>k' v'. write_loop bs ps b0 b1 kn vn end_pos pos src k v = (Inr (), k', v') \<and>
       written bs ps b0 b1 kn start pos end_pos k k' \<and> written bs ps b0 b1 vn start pos end_pos v v'"
proof (induction "end_pos - pos" arbitrary: pos src k v rule: less_induct)
  case less
  have bs: "0 < bs" using fit by (simp add: pages_fit_def)
  show ?case
  proof (cases "pos < end_pos")
    case False
    with less.prems bs show ?thesis by (auto simp: write_loop.simps [of bs] intro: written_refl)
  next
    case True
    define n where "n = min (bs - pos mod bs) (end_pos - pos)"
    have idx: "pos div bs < length ps" using True hi by (intro div_less_of_less_mult [OF bs]) simp
    have n: "0 < n" "n \<le> bs - pos mod bs" "pos + n \<le> end_pos" "pos - start + n \<le> m"
      using True bs e less.prems(5) by (auto simp: n_def)
    have src: "src = pos - start" "start \<le> pos" using less.prems(5) by simp_all
    have fk: "pages_fit bs ps (shape k ! 0)" and fv: "pages_fit bs ps (shape v ! 0)"
      using fit less.prems(3,4) by simp_all
    have bk: "b1 \<le> shape k ! 1" "b1 \<le> shape v ! 1" using b less.prems(3,4) by simp_all
    have sk: "shape kn = [m, b1 - b0, shape k ! 2]" "shape vn = [m, b1 - b0, shape v ! 2]"
      using shn less.prems(3,4) by simp_all
    obtain k1 where k1: "assign_block k (ps ! (pos div bs) * bs + pos mod bs) (ps ! (pos div bs) * bs + pos mod bs + n)
          b0 b1 (row_slice src (src + n) kn) = Inr k1"
      and wk: "written bs ps b0 b1 kn start pos (pos + n) k k1"
      using assign_block_written [OF less.prems(1) wn(1) fk b(1) bk(1) sk(1) n(2) idx src(2) n(4)] unfolding src(1) by blast
    obtain v1 where v1: "assign_block v (ps ! (pos div bs) * bs + pos mod bs) (ps ! (pos div bs) * bs + pos mod bs + n)
          b0 b1 (row_slice src (src + n) vn) = Inr v1"
      and wv: "written bs ps b0 b1 vn start pos (pos + n) v v1"
      using assign_block_written [OF less.prems(2) wn(2) fv b(1) bk(2) sk(2) n(2) idx src(2) n(4)] unfolding src(1) by blast
    have step: "write_loop bs ps b0 b1 kn vn end_pos pos src k v =
        write_loop bs ps b0 b1 kn vn end_pos (pos + n) (src + n) k1 v1"
      using True bs idx k1 v1 by (subst write_loop.simps) (simp add: Let_def n_def)
    have "\<exists>k' v'. write_loop bs ps b0 b1 kn vn end_pos (pos + n) (src + n) k1 v1 = (Inr (), k', v') \<and>
        written bs ps b0 b1 kn start (pos + n) end_pos k1 k' \<and> written bs ps b0 b1 vn start (pos + n) end_pos v1 v'"
      using n True wk wv less.prems by (intro less.hyps) (auto simp: written_def)
    then obtain k' v' where r: "write_loop bs ps b0 b1 kn vn end_pos (pos + n) (src + n) k1 v1 = (Inr (), k', v')"
      and wk': "written bs ps b0 b1 kn start (pos + n) end_pos k1 k'"
      and wv': "written bs ps b0 b1 vn start (pos + n) end_pos v1 v'"
      by blast
    have "written bs ps b0 b1 kn start pos end_pos k k'" "written bs ps b0 b1 vn start pos end_pos v v'"
      using written_trans [OF fk hi _ n(3) wk wk'] written_trans [OF fv hi _ n(3) wv wv'] by simp_all
    with step r show ?thesis by auto
  qed
qed

text \<open>A write keeps the buffers well formed whatever it is given, also when it raises half way.\<close>

lemma write_loop_wf:
  "wf_tensor kn \<Longrightarrow> wf_tensor vn \<Longrightarrow> wf_tensor k \<Longrightarrow> wf_tensor v \<Longrightarrow>
   write_loop bs ps b0 b1 kn vn end_pos pos src k v = (r, k', v') \<Longrightarrow>
   wf_tensor k' \<and> wf_tensor v' \<and> shape k' = shape k \<and> shape v' = shape v"
proof (induction bs ps b0 b1 kn vn end_pos pos src k v arbitrary: r k' v' rule: write_loop.induct)
  case (1 bs ps b0 b1 kn vn end_pos pos src k v)
  define n where "n = min (bs - pos mod bs) (end_pos - pos)"
  define s where "s = ps ! (pos div bs) * bs + pos mod bs"
  define ak av where "ak = assign_block k s (s + n) b0 b1 (row_slice src (src + n) kn)"
    and "av = assign_block v s (s + n) b0 b1 (row_slice src (src + n) vn)"
  have k: "wf_tensor k1 \<and> shape k1 = shape k" if "ak = Inr k1" for k1
    using assign_block_wf [OF that [unfolded ak_def] "1.prems"(3) wf_row_slice [OF "1.prems"(1)]] by simp
  have v: "wf_tensor v1 \<and> shape v1 = shape v" if "av = Inr v1" for v1
    using assign_block_wf [OF that [unfolded av_def] "1.prems"(4) wf_row_slice [OF "1.prems"(2)]] by simp
  show ?case
  proof (cases "bs \<noteq> 0 \<and> pos < end_pos \<and> pos div bs < length ps \<and> (\<exists>k1 v1. ak = Inr k1 \<and> av = Inr v1)")
    case True
    then obtain k1 v1 where kv: "ak = Inr k1" "av = Inr v1" by blast
    have "write_loop bs ps b0 b1 kn vn end_pos (pos + n) (src + n) k1 v1 = (r, k', v')"
      using "1.prems"(5) True kv unfolding ak_def av_def s_def n_def
      by (simp add: write_loop.simps [of bs ps b0 b1 kn vn end_pos pos src k v] Let_def)
    from "1.IH" [OF _ _ refl refl n_def _ s_def kv(1) [unfolded ak_def] kv(2) [unfolded av_def] _ _ _ _ this]
    show ?thesis using True k [OF kv(1)] v [OF kv(2)] "1.prems"(1,2) by simp
  next
    case False
    with "1.prems"(3,4,5) k show ?thesis unfolding ak_def av_def s_def n_def
      by (auto simp: write_loop.simps [of bs ps b0 b1 kn vn end_pos pos src k v] Let_def
               split: if_splits sum.splits)
  qed
qed

section \<open>Every operation keeps the invariant\<close>

lemma advance_simps [simp]:
  "pages (advance e c st) = pages st"
  "l_seq (advance e c st) = max (l_seq st) e"
  "l_acc (advance e c st) = (if c then max (l_acc st) e else l_acc st)"
  by (auto simp: advance_def Let_def)

lemma kv_write_cases:
  assumes inv: "kv_inv t" and w: "kv_write sid start kn vn bh c t = (r, t')"
  obtains (shape_error) "t' = t" "r = Inl PagedKVError" "shape kn \<noteq> shape vn \<or> ndim kn \<noteq> 3"
  | (no_rows) "t' = t" "r = Inr ()"
  | (unknown) "t' = t" "r = Inl KeyError" "seqs t sid = None"
  | (oom) st where "seqs t sid = Some st"
      "ensure_capacity sid (start + shape kn ! 0) t = (Inl PagedKVError, t')" "r = Inl PagedKVError"
  | (copy_error) st t1 e k v where "seqs t sid = Some st"
      "ensure_capacity sid (start + shape kn ! 0) t = (Inr (), t1)" "r = Inl e" "t' = t1\<lparr>kbuf := k, vbuf := v\<rparr>"
      "write_loop (block_size t1) (pages (the (seqs t1 sid))) (fst bh) (snd bh) kn vn (start + shape kn ! 0) start 0
         (kbuf t1) (vbuf t1) = (Inl e, k, v)"
  | (finished) st t1 k v where "seqs t sid = Some st"
      "ensure_capacity sid (start + shape kn ! 0) t = (Inr (), t1)" "r = Inr ()"
      "t' = t1\<lparr>kbuf := k, vbuf := v, seqs := (seqs t1)(sid \<mapsto> advance (start + shape kn ! 0) c (the (seqs t1 sid)))\<rparr>"
      "write_loop (block_size t1) (pages (the (seqs t1 sid))) (fst bh) (snd bh) kn vn (start + shape kn ! 0) start 0
         (kbuf t1) (vbuf t1) = (Inr (), k, v)"
proof (cases "shape kn \<noteq> shape vn \<or> ndim kn \<noteq> 3 \<or> shape kn ! 0 = 0")
  case True
  with w have "t' = t \<and> (r = Inl PagedKVError \<and> (shape kn \<noteq> shape vn \<or> ndim kn \<noteq> 3) \<or> r = Inr ())"
    by (auto simp: kv_write_def split: if_splits)
  with shape_error no_rows show ?thesis by blast
next
  case False
  show ?thesis
  proof (cases "seqs t sid")
    case None
    with w False unknown show ?thesis by (auto simp: kv_write_def ensure_capacity_def Let_def)
  next
    case (Some st)
    obtain r1 t1 where ec: "ensure_capacity sid (start + shape kn ! 0) t = (r1, t1)" by fastforce
    from ensure_capacity_spec [OF inv Some ec] have r1: "r1 = Inr () \<or> r1 = Inl PagedKVError"
      and s1: "seqs t1 sid \<noteq> None" by (metis, metis fun_upd_same option.distinct(1))
    show ?thesis
    proof (cases "r1 = Inr ()")
      case False
      with r1 ec w Some \<open>\<not> (shape kn \<noteq> shape vn \<or> ndim kn \<noteq> 3 \<or> shape kn ! 0 = 0)\<close> show ?thesis
        by (intro oom [of st]) (auto simp: kv_write_def Let_def)
    next
      case True
      obtain rr k v where wl: "write_loop (block_size t1) (pages (the (seqs t1 sid))) (fst bh) (snd bh) kn vn
          (start + shape kn ! 0) start 0 (kbuf t1) (vbuf t1) = (rr, k, v)" by (metis prod_cases3)
      show ?thesis
      proof (cases rr)
        case (Inl e)
        with wl ec w Some True s1 False show ?thesis
          by (intro copy_error [of st t1 e v k]) (auto simp: kv_write_def Let_def)
      next
        case (Inr u)
        with wl ec w Some True s1 False show ?thesis
          by (intro finished [of st t1 v k]) (auto simp: kv_write_def Let_def)
      qed
    qed
  qed
qed

lemma kv_write_inv:
  assumes inv: "kv_inv t" and wn: "wf_tensor kn" "wf_tensor vn"
    and w: "kv_write sid start kn vn bh c t = (r, t')"
  shows "kv_inv t'"
  using inv w
proof (cases rule: kv_write_cases)
  case (oom st)
  then show ?thesis using ensure_capacity_spec [OF inv oom(1,2)] by blast
next
  case (copy_error st t1 e k v)
  have i1: "kv_inv t1" using ensure_capacity_spec [OF inv copy_error(1,2)] by blast
  then have "wf_tensor k \<and> wf_tensor v \<and> shape k = shape (kbuf t1) \<and> shape v = shape (vbuf t1)"
    using write_loop_wf [OF wn _ _ copy_error(5)] by (simp add: kv_inv_def)
  with i1 show ?thesis unfolding copy_error(4) by (intro kv_inv_buffers) simp_all
next
  case (finished st t1 k v)
  from ensure_capacity_spec [OF inv finished(1,2)] obtain ext where i1: "kv_inv t1"
    and s1: "seqs t1 = (seqs t)(sid \<mapsto> st\<lparr>pages := pages st @ ext\<rparr>)" "block_size t1 = block_size t"
    and len: "start + shape kn ! 0 \<le> length (pages st @ ext) * block_size t" by metis
  define st1 where "st1 = st\<lparr>pages := pages st @ ext\<rparr>"
  have st1: "seqs t1 sid = Some st1" by (simp add: s1 st1_def)
  have ok: "seq_ok (block_size t1) (advance (start + shape kn ! 0) c st1)"
    using kv_inv_seqD(1) [OF i1 st1] len by (auto simp: seq_ok_def st1_def s1(2))
  have "wf_tensor k \<and> wf_tensor v \<and> shape k = shape (kbuf t1) \<and> shape v = shape (vbuf t1)"
    using write_loop_wf [OF wn _ _ finished(5)] i1 by (simp add: kv_inv_def)
  then have "kv_inv (t1\<lparr>kbuf := k, vbuf := v\<rparr>)" using i1 by (intro kv_inv_buffers) simp_all
  then show ?thesis
    using kv_inv_seq [of "t1\<lparr>kbuf := k, vbuf := v\<rparr>" sid st1 "advance (start + shape kn ! 0) c st1"] st1 ok
    by (simp add: finished(4))
qed (use inv in simp_all)

lemma track_write_inv:
  assumes inv: "kv_inv t" and w: "track_write sid start n c t = (r, t')"
  shows "kv_inv t'"
proof (cases "n \<le> 0")
  case True with assms show ?thesis by (simp add: track_write_def)
next
  case False
  define t0 where "t0 = (if seqs t sid = None then snd (register_sequence sid t) else t)"
  have i0: "kv_inv t0" using inv register_inv [OF inv, of sid] by (cases "register_sequence sid t") (auto simp: t0_def)
  obtain st where st: "seqs t0 sid = Some st" by (cases "seqs t sid") (auto simp: t0_def register_sequence_def)
  obtain r1 t1 where ec: "ensure_capacity sid (start + nat n) t0 = (r1, t1)" by fastforce
  obtain ext where i1: "kv_inv t1" and s1: "seqs t1 = (seqs t0)(sid \<mapsto> st\<lparr>pages := pages st @ ext\<rparr>)"
    "block_size t1 = block_size t0"
    and len: "r1 = Inr () \<Longrightarrow> start + nat n \<le> length (pages st @ ext) * block_size t0"
    using ensure_capacity_spec [OF i0 st ec] by metis
  show ?thesis
  proof (cases r1)
    case (Inl e)
    with w False ec i1 show ?thesis by (auto simp: track_write_def Let_def t0_def)
  next
    case (Inr u)
    define st1 where "st1 = st\<lparr>pages := pages st @ ext\<rparr>"
    have st1: "seqs t1 sid = Some st1" by (simp add: s1 st1_def)
    have "seq_ok (block_size t1) (advance (start + nat n) c st1)"
      using kv_inv_seqD(1) [OF i1 st1] len Inr by (auto simp: seq_ok_def st1_def s1(2))
    then have "kv_inv (t1\<lparr>seqs := (seqs t1)(sid \<mapsto> advance (start + nat n) c st1)\<rparr>)"
      using i1 st1 by (intro kv_inv_seq) simp_all
    with w False ec Inr st1 show ?thesis by (auto simp: track_write_def Let_def t0_def)
  qed
qed

lemma commit_inv:
  assumes "kv_inv t" and "commit_seq sid u t = (r, t')"
  shows "kv_inv t'"
proof (cases "seqs t sid")
  case None with assms show ?thesis by (simp add: commit_seq_def)
next
  case (Some st)
  have "kv_inv (t\<lparr>seqs := (seqs t)(sid \<mapsto> st\<lparr>l_acc := n\<rparr>)\<rparr>)" if "n \<le> l_seq st" for n
    using kv_inv_seqD(1) [OF assms(1) Some] that
    by (intro kv_inv_seq [OF assms(1) Some]) (simp_all add: seq_ok_def)
  with assms Some show ?thesis by (auto simp: commit_seq_def Let_def split: if_splits)
qed

lemma rollback_inv:
  assumes inv: "kv_inv t" and rb: "rollback sid target t = (r, t')"
  shows "kv_inv t'"
proof (cases "seqs t sid")
  case None with assms show ?thesis by (simp add: rollback_def)
next
  case (Some st)
  show ?thesis
  proof (cases "0 \<le> target \<and> target \<le> int (l_acc st)")
    case False with assms Some show ?thesis by (auto simp: rollback_def split: if_splits)
  next
    case True
    have bs: "0 < block_size t" using inv by (simp add: kv_inv_def)
    have "l_acc st \<le> length (pages st) * block_size t"
      using kv_inv_seqD(1) [OF inv Some] by (simp add: seq_ok_def)
    then have "nat target \<le> length (pages st) * block_size t" using True by linarith
    then have "nat target \<le> length (take (ceil_div (nat target) (block_size t)) (pages st)) * block_size t"
      using ceil_div_cover [OF bs, of "nat target"] by (simp add: min_def)
    then show ?thesis
      using rb Some True shrink_pages_mset
      by (auto simp: rollback_def shrink_pages_closed seq_ok_def intro!: kv_inv_update [OF inv Some]
               split: if_splits)
  qed
qed

section \<open>Reads\<close>

lemma assign_block_gathered:
  assumes wo: "wf_tensor out" and wb: "wf_tensor buf" and fit: "pages_fit bs ps (shape buf ! 0)"
    and b: "b0 \<le> b1" "b1 \<le> shape buf ! 1" and sho: "shape out = [len, b1 - b0, shape buf ! 2]"
    and n: "n \<le> bs - pos mod bs" "pos div bs < length ps" "pos + n \<le> len"
  obtains out' where
    "assign_block out pos (pos + n) 0 (shape out ! 1)
       (block_slice (ps ! (pos div bs) * bs + pos mod bs) (ps ! (pos div bs) * bs + pos mod bs + n) b0 b1 buf) = Inr out'"
    "wf_tensor out'" "shape out' = shape out"
    "\<And>q. pos \<le> q \<Longrightarrow> q < pos + n \<Longrightarrow> rows out' ! q = pyslice b0 b1 (rows buf ! phys bs ps q)"
    "\<And>q. q < pos \<Longrightarrow> rows out' ! q = rows out ! q"
proof -
  have bs: "0 < bs" using fit by (simp add: pages_fit_def)
  define s0 where "s0 = ps ! (pos div bs) * bs + pos mod bs"
  define src where "src = block_slice s0 (s0 + n) b0 b1 buf"
  have "ps ! (pos div bs) \<in> set ps" using n(2) by simp
  then have "ps ! (pos div bs) * bs + bs \<le> shape buf ! 0" using fit by (auto simp: pages_fit_def)
  moreover have "pos mod bs < bs" using bs by simp
  ultimately have s1: "s0 + n \<le> shape buf ! 0" using n(1) unfolding s0_def by linarith
  have ws: "wf_tensor src" unfolding src_def by (rule wf_block_slice [OF wb])
  have shs: "shape src = [(pos + n) - pos, shape out ! 1 - 0, shape out ! 2]"
    using s1 b by (simp add: src_def block_slice_def sho)
  have pn: "pos + n \<le> shape out ! 0" using n(3) by (simp add: sho)
  obtain out' where ok: "assign_block out pos (pos + n) 0 (shape out ! 1) src = Inr out'"
    and inside: "\<And>i. pos \<le> i \<Longrightarrow> i < pos + n \<Longrightarrow>
        rows out' ! i = splice_at 0 (shape out ! 1) (rows out ! i) (rows src ! (i - pos))"
    and outside: "\<And>i. i < pos \<or> pos + n \<le> i \<Longrightarrow> i < shape out ! 0 \<Longrightarrow> rows out' ! i = rows out ! i"
    using assign_block_exact [OF wo ws _ pn _ _ shs] by (metis le_add1 le0 order_refl)
  have "rows out' ! q = pyslice b0 b1 (rows buf ! phys bs ps q)" if q: "pos \<le> q" "q < pos + n" for q
  proof -
    obtain i where i: "q = pos + i" "i < n" using q by (metis le_Suc_ex nat_add_left_cancel_less)
    have "phys bs ps q = s0 + i" using phys_chunk [OF bs, of i pos ps] i n(1) by (simp add: s0_def)
    moreover have "rows src ! i = pyslice b0 b1 (rows buf ! (s0 + i))"
      using i s1 wf_tensorD(2) [OF wb] by (simp add: src_def block_slice_def)
    moreover have "length (rows out ! q) = shape out ! 1"
      using wf_tensorD(3) [OF wo, of q] q n(3) by (simp add: sho)
    ultimately show ?thesis using inside [OF q] i by simp
  qed
  moreover have "rows out' ! q = rows out ! q" if "q < pos" for q
    using outside [of q] that n(3) by (simp add: sho)
  ultimately show ?thesis
    using ok assign_block_wf [OF ok wo ws] by (intro that [of out']) (simp_all add: s0_def src_def)
qed

definition prefix_rows :: "nat \<Rightarrow> nat list \<Rightarrow> nat \<Rightarrow> nat \<Rightarrow> 'a tensor \<Rightarrow> nat \<Rightarrow> 'a list list list" where
  "prefix_rows bs ps b0 b1 buf n = map (\<lambda>q. pyslice b0 b1 (rows buf ! phys bs ps q)) [0..<n]"

lemma prefix_rows_extend:
  assumes "take pos xs = prefix_rows bs ps b0 b1 buf pos" and "pos + n \<le> length ys" and "pos \<le> length xs"
    and "\<And>q. q < pos \<Longrightarrow> ys ! q = xs ! q"
    and "\<And>q. pos \<le> q \<Longrightarrow> q < pos + n \<Longrightarrow> ys ! q = pyslice b0 b1 (rows buf ! phys bs ps q)"
  shows "take (pos + n) ys = prefix_rows bs ps b0 b1 buf (pos + n)"
proof (rule nth_equalityI)
  fix i assume "i < length (take (pos + n) ys)"
  then have i: "i < pos + n" by simp
  have "xs ! i = pyslice b0 b1 (rows buf ! phys bs ps i)" if "i < pos"
    using arg_cong [OF assms(1), of "\<lambda>xs. xs ! i"] that by (simp add: prefix_rows_def)
  with i assms(4,5) show "take (pos + n) ys ! i = prefix_rows bs ps b0 b1 buf (pos + n) ! i"
    by (cases "i < pos") (auto simp: prefix_rows_def nth_append)
qed (use assms(2) in \<open>simp add: prefix_rows_def\<close>)

lemma gather_loop_correct:
  assumes fit: "pages_fit bs ps (shape k ! 0)" and hi: "len \<le> length ps * bs"
    and wb: "wf_tensor k" "wf_tensor v" "shape v = shape k"
    and b: "b0 \<le> b1" "b1 \<le> shape k ! 1"
  shows "wf_tensor ko \<Longrightarrow> wf_tensor vo \<Longrightarrow> shape ko = [len, b1 - b0, shape k ! 2] \<Longrightarrow> shape vo = shape ko \<Longrightarrow>
     pos \<le> len \<Longrightarrow> take pos (rows ko) = prefix_rows bs ps b0 b1 k pos \<Longrightarrow>
     take pos (rows vo) = prefix_rows bs ps b0 b1 v pos \<Longrightarrow>
     gather_loop bs ps b0 b1 k v len pos ko vo =
       Inr (\<lparr>shape = shape ko, rows = prefix_rows bs ps b0 b1 k len\<rparr>,
            \<lparr>shape = shape ko, rows = prefix_rows bs ps b0 b1 v len\<rparr>)"
proof (induction "len - pos" arbitrary: pos ko vo rule: less_induct)
  case less
  have bs: "0 < bs" using fit by (simp add: pages_fit_def)
  have lens: "length (rows ko) = len" "length (rows vo) = len"
    using wf_tensorD(2) [OF less.prems(1)] wf_tensorD(2) [OF less.prems(2)] less.prems(3,4) by simp_all
  show ?case
  proof (cases "pos < len")
    case False
    with less.prems lens bs show ?thesis by (cases ko; cases vo) (auto simp: gather_loop.simps [of bs])
  next
    case True
    define n where "n = min (bs - pos mod bs) (len - pos)"
    have idx: "pos div bs < length ps" using True hi by (intro div_less_of_less_mult [OF bs]) simp
    have n: "0 < n" "n \<le> bs - pos mod bs" "pos + n \<le> len" using True bs by (auto simp: n_def)
    have sv: "shape vo = [len, b1 - b0, shape v ! 2]" "b1 \<le> shape v ! 1" "pages_fit bs ps (shape v ! 0)"
      using less.prems(3,4) wb(3) b fit by simp_all
    obtain k1 where k1: "assign_block ko pos (pos + n) 0 (shape ko ! 1)
        (block_slice (ps ! (pos div bs) * bs + pos mod bs) (ps ! (pos div bs) * bs + pos mod bs + n) b0 b1 k) = Inr k1"
      and wk: "wf_tensor k1" "shape k1 = shape ko"
      and ik: "\<And>q. pos \<le> q \<Longrightarrow> q < pos + n \<Longrightarrow> rows k1 ! q = pyslice b0 b1 (rows k ! phys bs ps q)"
      and uk: "\<And>q. q < pos \<Longrightarrow> rows k1 ! q = rows ko ! q"
      using assign_block_gathered [OF less.prems(1) wb(1) fit b less.prems(3) n(2) idx n(3)] by blast
    obtain v1 where v1: "assign_block vo pos (pos + n) 0 (shape vo ! 1)
        (block_slice (ps ! (pos div bs) * bs + pos mod bs) (ps ! (pos div bs) * bs + pos mod bs + n) b0 b1 v) = Inr v1"
      and wv: "wf_tensor v1" "shape v1 = shape vo"
      and iv: "\<And>q. pos \<le> q \<Longrightarrow> q < pos + n \<Longrightarrow> rows v1 ! q = pyslice b0 b1 (rows v ! phys bs ps q)"
      and uv: "\<And>q. q < pos \<Longrightarrow> rows v1 ! q = rows vo ! q"
      using assign_block_gathered [OF less.prems(2) wb(2) sv(3) b(1) sv(2) sv(1) n(2) idx n(3)] by blast
    have l1: "length (rows k1) = len" "length (rows v1) = len"
      using wf_tensorD(2) [OF wk(1)] wf_tensorD(2) [OF wv(1)] wk wv less.prems(3,4) by simp_all
    have pk: "take (pos + n) (rows k1) = prefix_rows bs ps b0 b1 k (pos + n)"
      using less.prems(6) uk ik n(3) lens l1 by (intro prefix_rows_extend [where xs = "rows ko"]) simp_all
    have pv: "take (pos + n) (rows v1) = prefix_rows bs ps b0 b1 v (pos + n)"
      using less.prems(7) uv iv n(3) lens l1 by (intro prefix_rows_extend [where xs = "rows vo"]) simp_all
    have "gather_loop bs ps b0 b1 k v len pos ko vo = gather_loop bs ps b0 b1 k v len (pos + n) k1 v1"
      using True bs idx k1 v1 by (subst gather_loop.simps) (simp add: Let_def n_def)
    also have "\<dots> = Inr (\<lparr>shape = shape k1, rows = prefix_rows bs ps b0 b1 k len\<rparr>,
            \<lparr>shape = shape k1, rows = prefix_rows bs ps b0 b1 v len\<rparr>)"
      using n True wk wv less.prems(3,4) pk pv by (intro less.hyps) simp_all
    finally show ?thesis by (simp add: wk)
  qed
qed

lemma wf_torch_empty [simp]: "wf_tensor (torch_empty junk s b d)"
  by (auto simp: wf_tensor_def torch_empty_def ndim_def)

lemma gather_prefix_correct:
  assumes inv: "kv_inv t" and st: "seqs t sid = Some st"
    and b: "b0 \<le> b1" "b1 \<le> shape (kbuf t) ! 1" and n: "n \<le> l_acc st"
    and len: "len = None \<and> n = l_acc st \<or> len = Some (int n)"
  shows "gather_prefix junk sid (b0, b1) len None t =
     Inr (\<lparr>shape = [n, b1 - b0, shape (kbuf t) ! 2], rows = prefix_rows (block_size t) (pages st) b0 b1 (kbuf t) n\<rparr>,
          \<lparr>shape = [n, b1 - b0, shape (kbuf t) ! 2], rows = prefix_rows (block_size t) (pages st) b0 b1 (vbuf t) n\<rparr>)"
proof -
  have "n \<le> length (pages st) * block_size t"
    using kv_inv_seqD(1) [OF inv st] n by (auto simp: seq_ok_def)
  moreover have "shape (torch_empty junk n (b1 - b0) (shape (kbuf t) ! 2)) = [n, b1 - b0, shape (kbuf t) ! 2]"
    by (simp add: torch_empty_def)
  ultimately have "gather_loop (block_size t) (pages st) b0 b1 (kbuf t) (vbuf t) n 0
      (torch_empty junk n (b1 - b0) (shape (kbuf t) ! 2)) (torch_empty junk n (b1 - b0) (shape (kbuf t) ! 2)) =
     Inr (\<lparr>shape = [n, b1 - b0, shape (kbuf t) ! 2], rows = prefix_rows (block_size t) (pages st) b0 b1 (kbuf t) n\<rparr>,
          \<lparr>shape = [n, b1 - b0, shape (kbuf t) ! 2], rows = prefix_rows (block_size t) (pages st) b0 b1 (vbuf t) n\<rparr>)"
    using gather_loop_correct [OF kv_inv_pages_fit [OF inv st], of n "vbuf t" b0 b1
        "torch_empty junk n (b1 - b0) (shape (kbuf t) ! 2)" "torch_empty junk n (b1 - b0) (shape (kbuf t) ! 2)" 0]
      inv b by (simp add: kv_inv_def prefix_rows_def)
  with st len n b show ?thesis by (auto simp: gather_prefix_def Let_def)
qed

section \<open>Refinement of the KV-cache contract\<close>

definition logical_rows :: "'a paged_table \<Rightarrow> seq_state \<Rightarrow> ('a list list \<times> 'a list list) list" where
  "logical_rows t st =
     map (\<lambda>q. (rows (kbuf t) ! phys (block_size t) (pages st) q, rows (vbuf t) ! phys (block_size t) (pages st) q))
       [0..<l_seq st]"

definition kv_content :: "'a paged_table \<Rightarrow> int \<Rightarrow> (nat \<times> ('a list list \<times> 'a list list) list) option" where
  "kv_content t sid = map_option (\<lambda>st. (l_acc st, logical_rows t st)) (seqs t sid)"

definition kv_row_ok :: "'a paged_table \<Rightarrow> 'a list list \<times> 'a list list \<Rightarrow> bool" where
  "kv_row_ok t r \<longleftrightarrow> (\<forall>row \<in> {fst r, snd r}. length row = shape (kbuf t) ! 1 \<and>
                       (\<forall>cell \<in> set row. length cell = shape (kbuf t) ! 2))"

text \<open>Full-width calls of the operations on lists of rows, as the cache manager makes them.\<close>

definition rows_tensor :: "'a paged_table \<Rightarrow> 'a list list list \<Rightarrow> 'a tensor" where
  "rows_tensor t rs = \<lparr>shape = [length rs, shape (kbuf t) ! 1, shape (kbuf t) ! 2], rows = rs\<rparr>"

definition kv_put ::
  "int \<Rightarrow> nat \<Rightarrow> ('a list list \<times> 'a list list) list \<Rightarrow> bool \<Rightarrow> 'a paged_table \<Rightarrow> ('a paged_table, unit) outcome" where
  "kv_put sid n xs c t =
     kv_write sid n (rows_tensor t (map fst xs)) (rows_tensor t (map snd xs)) (0, shape (kbuf t) ! 1) c t"

definition kv_accept :: "int \<Rightarrow> nat \<Rightarrow> 'a paged_table \<Rightarrow> ('a paged_table, unit) outcome" where
  "kv_accept sid n t = commit_seq sid (Some (int n)) t"

definition kv_cut :: "int \<Rightarrow> nat \<Rightarrow> 'a paged_table \<Rightarrow> ('a paged_table, unit) outcome" where
  "kv_cut sid n t = rollback sid (int n) t"

definition kv_get :: "'a \<Rightarrow> int \<Rightarrow> 'a paged_table \<Rightarrow> ('a list list \<times> 'a list list) list result" where
  "kv_get junk sid t =
     (case gather_prefix junk sid (0, shape (kbuf t) ! 1) None None t of
        Inl e \<Rightarrow> Inl e
      | Inr (k, v) \<Rightarrow> Inr (zip (rows k) (rows v)))"

lemma kv_contentD:
  assumes "kv_content t sid = Some (a, ys)"
  obtains st where "seqs t sid = Some st" "a = l_acc st" "ys = logical_rows t st" "length ys = l_seq st"
  using assms by (auto simp: kv_content_def logical_rows_def)

lemma phys_append: "0 < bs \<Longrightarrow> q < length ps * bs \<Longrightarrow> phys bs (ps @ ext) q = phys bs ps q"
  by (simp add: phys_def nth_append div_less_of_less_mult)

text \<open>What a write that returns does to the table.\<close>

lemma kv_write_returns:
  assumes inv: "kv_inv t" and st: "seqs t sid = Some st" and wn: "wf_tensor kn" "wf_tensor vn"
    and shn: "shape kn = [m, b1 - b0, shape (kbuf t) ! 2]" "shape vn = shape kn" and m: "0 < m"
    and b: "b0 \<le> b1" "b1 \<le> shape (kbuf t) ! 1"
    and w: "kv_write sid start kn vn (b0, b1) c t = (r, t')"
  obtains (oom) "r = Inl PagedKVError" "length (pages st) + length (free_stack t) < ceil_div (start + m) (block_size t)"
      "ensure_capacity sid (start + m) t = (Inl PagedKVError, t')"
  | (ok) ext where "r = Inr ()" "ceil_div (start + m) (block_size t) \<le> length (pages st) + length (free_stack t)"
      "kv_inv t'" "block_size t' = block_size t" "num_pages t' = num_pages t"
      "seqs t' = (seqs t)(sid \<mapsto> advance (start + m) c (st\<lparr>pages := pages st @ ext\<rparr>))"
      "start + m \<le> length (pages st @ ext) * block_size t"
      "written (block_size t) (pages st @ ext) b0 b1 kn start start (start + m) (kbuf t) (kbuf t')"
      "written (block_size t) (pages st @ ext) b0 b1 vn start start (start + m) (vbuf t) (vbuf t')"
      "length ext + length (free_stack t') = length (free_stack t)"
proof -
  have m0: "shape kn ! 0 = m" "ndim kn = 3" using shn by (simp_all add: ndim_def)
  have wfk: "wf_tensor (kbuf t)" "wf_tensor (vbuf t)" "shape (vbuf t) = shape (kbuf t)"
    using inv by (simp_all add: kv_inv_def)
  have shk: "shape (kbuf t) = [shape (kbuf t) ! 0, shape (kbuf t) ! 1, shape (kbuf t) ! 2]"
    by (rule shape3 [OF wf_tensorD(1) [OF wfk(1)]])
  obtain r1 t1 where ec: "ensure_capacity sid (start + m) t = (r1, t1)" by fastforce
  obtain ext where i1: "kv_inv t1" and s1: "seqs t1 = (seqs t)(sid \<mapsto> st\<lparr>pages := pages st @ ext\<rparr>)"
    and same: "kbuf t1 = kbuf t" "vbuf t1 = vbuf t" "block_size t1 = block_size t" "num_pages t1 = num_pages t"
    and r1: "r1 = (if ceil_div (start + m) (block_size t) \<le> length (pages st) + length (free_stack t) then Inr () else Inl PagedKVError)"
    and len: "r1 = Inr () \<Longrightarrow> start + m \<le> length (pages st @ ext) * block_size t"
    and fr: "length ext + length (free_stack t1) = length (free_stack t)"
    using ensure_capacity_spec [OF inv st ec] by blast
  show ?thesis
  proof (cases "ceil_div (start + m) (block_size t) \<le> length (pages st) + length (free_stack t)")
    case False
    with w ec r1 m m0 shn(2) show ?thesis by (intro oom) (auto simp: kv_write_def Let_def)
  next
    case True
    define st1 where "st1 = st\<lparr>pages := pages st @ ext\<rparr>"
    have st1: "seqs t1 sid = Some st1" "pages st1 = pages st @ ext" by (simp_all add: s1 st1_def)
    have fit: "pages_fit (block_size t) (pages st @ ext) (shape (kbuf t) ! 0)"
      using kv_inv_pages_fit [OF i1 st1(1)] same st1(2) by simp
    have hi: "start + m \<le> length (pages st @ ext) * block_size t" using len r1 True by simp
    obtain k' v' where wl: "write_loop (block_size t) (pages st @ ext) b0 b1 kn vn (start + m) start 0 (kbuf t) (vbuf t) =
        (Inr (), k', v')"
      and wr: "written (block_size t) (pages st @ ext) b0 b1 kn start start (start + m) (kbuf t) k'"
        "written (block_size t) (pages st @ ext) b0 b1 vn start start (start + m) (vbuf t) v'"
      using write_loop_written [OF fit hi b shn(1,2) wn refl wfk(1,2) shk wfk(3), of start 0] by auto
    have t': "r = Inr ()" "t' = t1\<lparr>kbuf := k', vbuf := v', seqs := (seqs t1)(sid \<mapsto> advance (start + m) c st1)\<rparr>"
      using w ec r1 True m m0 shn(2) st1 wl same by (auto simp: kv_write_def Let_def)
    have "kv_inv t'" by (rule kv_write_inv [OF inv wn w])
    then show ?thesis using t' True same hi wr fr by (intro ok [of ext]) (simp_all add: s1 st1_def)
  qed
qed

text \<open>Rows of another sequence never move: its pages are disjoint from the written ones.\<close>

lemma written_other:
  assumes inv: "kv_inv t'" and i: "seqs t' i = Some si" and j: "seqs t' j = Some sj" and ij: "i \<noteq> j"
    and sh: "shape buf ! 0 = shape (kbuf t') ! 0"
    and w: "written (block_size t') (pages si) b0 b1 new start lo hi buf buf'" and hi: "hi \<le> length (pages si) * block_size t'"
    and q: "q < length (pages sj) * block_size t'"
  shows "rows buf' ! phys (block_size t') (pages sj) q = rows buf ! phys (block_size t') (pages sj) q"
proof -
  let ?bs = "block_size t'"
  have bs: "0 < ?bs" using inv by (simp add: kv_inv_def)
  have pl: "phys ?bs (pages sj) q < shape buf ! 0" using phys_less [OF kv_inv_pages_fit [OF inv j] q] sh by simp
  have "phys ?bs (pages sj) q \<noteq> phys ?bs (pages si) p" if p: "p < hi" for p
  proof
    assume "phys ?bs (pages sj) q = phys ?bs (pages si) p"
    then have "phys ?bs (pages sj) q div ?bs = phys ?bs (pages si) p div ?bs" by simp
    then have "pages sj ! (q div ?bs) = pages si ! (p div ?bs)" using bs by (simp add: phys_def)
    moreover have "q div ?bs < length (pages sj)" "p div ?bs < length (pages si)"
      using div_less_of_less_mult [OF bs] q p hi by simp_all
    ultimately have "set (pages si) \<inter> set (pages sj) \<noteq> {}" by (metis disjoint_iff nth_mem)
    moreover have "set (pages si) \<inter> set (pages sj) = {}"
    proof -
      have pi: "pages_inv (num_pages t') (free_stack t') (page_map (seqs t'))" using inv by (simp add: kv_inv_def)
      have "page_map (seqs t') i = Some (pages si)" "page_map (seqs t') j = Some (pages sj)" using i j by simp_all
      with pi ij show ?thesis unfolding pages_inv_def by blast
    qed
    ultimately show False by blast
  qed
  then show ?thesis using w pl unfolding written_def by blast
qed

lemma wf_rows_tensor:
  assumes "\<forall>x \<in> set xs. kv_row_ok t x"
  shows "wf_tensor (rows_tensor t (map fst xs))" "wf_tensor (rows_tensor t (map snd xs))"
  using assms by (auto simp: wf_tensor_def rows_tensor_def ndim_def kv_row_ok_def)

lemma written_full_row:
  assumes "written bs ps 0 w new start lo hi buf buf'" and "lo \<le> q" and "q < hi"
    and "length (rows buf ! phys bs ps q) \<le> w"
  shows "rows buf' ! phys bs ps q = rows new ! (q - start)"
  using assms by (auto simp: written_def)

lemma written_unchanged:
  assumes "written bs ps b0 b1 new start lo hi buf buf'" and "r < shape buf ! 0"
    and "\<forall>q. lo \<le> q \<and> q < hi \<longrightarrow> r \<noteq> phys bs ps q"
  shows "rows buf' ! r = rows buf ! r"
  using assms unfolding written_def by blast

lemma kv_put_content:
  assumes inv: "kv_inv t" and c0: "kv_content t sid = Some (a, ys)" and n: "n \<le> length ys"
    and xs: "xs \<noteq> []" "\<forall>x \<in> set xs. kv_row_ok t x" and w: "kv_put sid n xs c t = (Inr (), t')"
  shows "kv_inv t' \<and> kv_row_ok t' = kv_row_ok t \<and>
    kv_content t' = (kv_content t)(sid \<mapsto> (if c then max a (n + length xs) else a,
                                          take n ys @ xs @ drop (n + length xs) ys))"
proof -
  obtain st where st: "seqs t sid = Some st" "a = l_acc st" "ys = logical_rows t st" "length ys = l_seq st"
    using c0 by (rule kv_contentD)
  define bs where "bs = block_size t"
  have wt: "wf_tensor (kbuf t)" "wf_tensor (vbuf t)" "shape (vbuf t) = shape (kbuf t)" using inv by (simp_all add: kv_inv_def)
  have shn: "shape (rows_tensor t (map fst xs)) = [length xs, shape (kbuf t) ! 1 - 0, shape (kbuf t) ! 2]"
    "shape (rows_tensor t (map snd xs)) = shape (rows_tensor t (map fst xs))" by (simp_all add: rows_tensor_def)
  have m: "0 < length xs" using xs(1) by simp
  have w': "kv_write sid n (rows_tensor t (map fst xs)) (rows_tensor t (map snd xs)) (0, shape (kbuf t) ! 1) c t = (Inr (), t')"
    using w by (simp add: kv_put_def)
  obtain ext where inv': "kv_inv t'" and bs': "block_size t' = bs"
    and s': "seqs t' = (seqs t)(sid \<mapsto> advance (n + length xs) c (st\<lparr>pages := pages st @ ext\<rparr>))"
    and hi: "n + length xs \<le> length (pages st @ ext) * bs"
    and wk: "written bs (pages st @ ext) 0 (shape (kbuf t) ! 1) (rows_tensor t (map fst xs)) n n (n + length xs) (kbuf t) (kbuf t')"
    and wv: "written bs (pages st @ ext) 0 (shape (kbuf t) ! 1) (rows_tensor t (map snd xs)) n n (n + length xs) (vbuf t) (vbuf t')"
  proof (rule kv_write_returns [OF inv st(1) wf_rows_tensor [OF xs(2)] shn m le0 order_refl w'], goal_cases)
    case 1 then show ?case by simp
  next
    case (2 ext) show ?case by (rule that [of ext]) (fact 2 [folded bs_def])+
  qed
  have bs: "0 < bs" using inv by (simp add: bs_def kv_inv_def)
  have sh: "shape (kbuf t') = shape (kbuf t)" using wk by (simp add: written_def)
  have lp: "l_seq st \<le> length (pages st) * bs" using kv_inv_seqD(1) [OF inv st(1)] by (simp add: seq_ok_def bs_def)
  define st' where "st' = advance (n + length xs) c (st\<lparr>pages := pages st @ ext\<rparr>)"
  have st': "seqs t' sid = Some st'" "pages st' = pages st @ ext" "l_seq st' = max (l_seq st) (n + length xs)"
    by (simp_all add: s' st'_def)
  have fit: "pages_fit bs (pages st') (shape (kbuf t) ! 0)" using kv_inv_pages_fit [OF inv' st'(1)] sh bs' by simp
  have row: "(rows (kbuf t') ! phys bs (pages st') q, rows (vbuf t') ! phys bs (pages st') q) =
      (take n ys @ xs @ drop (n + length xs) ys) ! q" if q: "q < l_seq st'" for q
  proof -
    have qp: "q < length (pages st') * bs" using kv_inv_seqD(1) [OF inv' st'(1)] q by (simp add: seq_ok_def bs')
    have pl: "phys bs (pages st') q < shape (kbuf t) ! 0" by (rule phys_less [OF fit qp])
    show ?thesis
    proof (cases "n \<le> q \<and> q < n + length xs")
      case True
      have len: "length (rows (kbuf t) ! phys bs (pages st') q) \<le> shape (kbuf t) ! 1"
        "length (rows (vbuf t) ! phys bs (pages st') q) \<le> shape (kbuf t) ! 1"
        using wf_tensorD(3) [OF wt(1) pl] wf_tensorD(3) [OF wt(2)] pl wt(3) by simp_all
      have "rows (kbuf t') ! phys bs (pages st') q = rows (rows_tensor t (map fst xs)) ! (q - n)"
        "rows (vbuf t') ! phys bs (pages st') q = rows (rows_tensor t (map snd xs)) ! (q - n)"
        using written_full_row [OF wk, of q] written_full_row [OF wv, of q] True len st'(2) by simp_all
      with True n show ?thesis by (auto simp: rows_tensor_def nth_append)
    next
      case False
      then have ql: "q < l_seq st" using q n st(4) by (auto simp: st'(3) max_def split: if_splits)
      have ne: "\<forall>p. n \<le> p \<and> p < n + length xs \<longrightarrow> phys bs (pages st') q \<noteq> phys bs (pages st') p"
        using phys_inj [OF fit qp] hi st'(2) False by (metis less_le_trans)
      have "rows (kbuf t') ! phys bs (pages st') q = rows (kbuf t) ! phys bs (pages st') q"
        "rows (vbuf t') ! phys bs (pages st') q = rows (vbuf t) ! phys bs (pages st') q"
        using written_unchanged [OF wk [folded st'(2)] pl ne] written_unchanged [OF wv [folded st'(2)] _ ne]
          pl wt(3) by simp_all
      moreover have "phys bs (pages st') q = phys bs (pages st) q"
        using phys_append [OF bs, of q "pages st" ext] ql lp st'(2) by simp
      moreover have "(take n ys @ xs @ drop (n + length xs) ys) ! q = ys ! q"
        using False n ql st(4) by (auto simp: nth_append)
      ultimately show ?thesis using ql by (simp add: st(3) logical_rows_def bs_def)
    qed
  qed
  have "logical_rows t' st' = take n ys @ xs @ drop (n + length xs) ys"
    using row n st(4) by (intro nth_equalityI) (auto simp: logical_rows_def bs' st'(3))
  moreover have "logical_rows t' sj = logical_rows t sj" if j: "j \<noteq> sid" "seqs t j = Some sj" for j sj
  proof -
    have j': "seqs t' j = Some sj" using j s' by simp
    have lj: "l_seq sj \<le> length (pages sj) * block_size t'" using kv_inv_seqD(1) [OF inv' j'] by (simp add: seq_ok_def)
    have "rows (kbuf t') ! phys bs (pages sj) q = rows (kbuf t) ! phys bs (pages sj) q \<and>
          rows (vbuf t') ! phys bs (pages sj) q = rows (vbuf t) ! phys bs (pages sj) q" if "q < l_seq sj" for q
      using written_other [OF inv' st'(1) j' j(1) [symmetric], of "kbuf t" 0 "shape (kbuf t) ! 1"]
        written_other [OF inv' st'(1) j' j(1) [symmetric], of "vbuf t" 0 "shape (kbuf t) ! 1"]
        sh wt(3) wk wv hi that lj unfolding bs' st'(2) by (metis less_le_trans)
    then show ?thesis by (auto simp: logical_rows_def bs' bs_def)
  qed
  ultimately have "kv_content t' = (kv_content t)(sid \<mapsto> (if c then max a (n + length xs) else a,
                                          take n ys @ xs @ drop (n + length xs) ys))"
    by (auto simp: kv_content_def fun_eq_iff s' st(2) st'_def split: option.splits intro!: option.map_cong0)
  moreover have "kv_row_ok t' = kv_row_ok t" by (simp add: kv_row_ok_def sh fun_eq_iff)
  ultimately show ?thesis using inv' by simp
qed

lemma kv_cut_content:
  assumes inv: "kv_inv t" and c0: "kv_content t sid = Some (a, ys)" and n: "n \<le> a"
  shows "\<exists>t'. kv_cut sid n t = (Inr (), t') \<and> kv_inv t' \<and> kv_row_ok t' = kv_row_ok t \<and>
     kv_content t' = (kv_content t)(sid \<mapsto> (n, take n ys))"
proof -
  obtain st where st: "seqs t sid = Some st" "a = l_acc st" "ys = logical_rows t st" using c0 by (rule kv_contentD)
  have ok: "seq_ok (block_size t) st" and bs: "0 < block_size t" using kv_inv_seqD(1) [OF inv st(1)] inv by (simp_all add: kv_inv_def)
  define keep where "keep = ceil_div n (block_size t)"
  define st' where "st' = \<lparr>pages = take keep (pages st), l_acc = n, l_seq = n\<rparr>"
  define t' where "t' = t\<lparr>seqs := (seqs t)(sid \<mapsto> st'), free_stack := free_stack t @ rev (drop keep (pages st))\<rparr>"
  have r: "kv_cut sid n t = (Inr (), t')"
    using st n by (simp add: kv_cut_def rollback_def shrink_pages_closed t'_def st'_def keep_def)
  have np: "n < Suc (length (pages st) * block_size t)" using ok n st(2) by (simp add: seq_ok_def)
  have "phys (block_size t) (take keep (pages st)) q = phys (block_size t) (pages st) q" if "q < n" for q
  proof -
    have "n \<le> keep * block_size t" unfolding keep_def by (rule ceil_div_cover [OF bs])
    then have "q div block_size t < keep" using that by (intro div_less_of_less_mult [OF bs]) simp
    then show ?thesis by (simp add: phys_def)
  qed
  then have "logical_rows t' st' = take n ys"
    using ok n st by (auto simp: logical_rows_def t'_def st'_def seq_ok_def take_map intro!: nth_equalityI)
  moreover have "logical_rows t' sj = logical_rows t sj" for sj by (simp add: logical_rows_def t'_def)
  ultimately have "kv_content t' = (kv_content t)(sid \<mapsto> (n, take n ys))"
    by (auto simp: kv_content_def fun_eq_iff t'_def st'_def split: option.splits)
  moreover have "kv_inv t'" using r rollback_inv [OF inv] by (simp add: kv_cut_def)
  moreover have "kv_row_ok t' = kv_row_ok t" by (simp add: kv_row_ok_def t'_def fun_eq_iff)
  ultimately show ?thesis using r by blast
qed

lemma kv_accept_content:
  assumes inv: "kv_inv t" and c0: "kv_content t sid = Some (a, ys)" and n: "n \<le> length ys"
  shows "\<exists>t'. kv_accept sid n t = (Inr (), t') \<and> kv_inv t' \<and> kv_row_ok t' = kv_row_ok t \<and>
     kv_content t' = (kv_content t)(sid \<mapsto> (max a n, ys))"
proof -
  obtain st where st: "seqs t sid = Some st" "a = l_acc st" "ys = logical_rows t st" "length ys = l_seq st"
    using c0 by (rule kv_contentD)
  define t' where "t' = (if a < n then t\<lparr>seqs := (seqs t)(sid \<mapsto> st\<lparr>l_acc := n\<rparr>)\<rparr> else t)"
  have r: "kv_accept sid n t = (Inr (), t')"
    using st n by (auto simp: kv_accept_def commit_seq_def t'_def)
  have "logical_rows t' sj = logical_rows t sj" for sj by (simp add: logical_rows_def t'_def)
  moreover have "logical_rows t (st\<lparr>l_acc := n\<rparr>) = ys" by (simp add: logical_rows_def st(3))
  ultimately have "kv_content t' = (kv_content t)(sid \<mapsto> (max a n, ys))"
    using st by (auto simp: kv_content_def fun_eq_iff t'_def max_def split: option.splits)
  moreover have "kv_inv t'" using r commit_inv [OF inv] by (simp add: kv_accept_def)
  moreover have "kv_row_ok t' = kv_row_ok t" by (simp add: kv_row_ok_def t'_def fun_eq_iff)
  ultimately show ?thesis using r by blast
qed

lemma kv_get_content:
  assumes inv: "kv_inv t" and c0: "kv_content t sid = Some (a, ys)"
  shows "kv_get junk sid t = Inr (take a ys)"
proof -
  obtain st where st: "seqs t sid = Some st" "a = l_acc st" "ys = logical_rows t st" using c0 by (rule kv_contentD)
  have ok: "seq_ok (block_size t) st" by (rule kv_inv_seqD(1) [OF inv st(1)])
  have wt: "wf_tensor (kbuf t)" "wf_tensor (vbuf t)" "shape (vbuf t) = shape (kbuf t)" using inv by (simp_all add: kv_inv_def)
  have row: "pyslice 0 (shape (kbuf t) ! 1) (rows (kbuf t) ! phys (block_size t) (pages st) q) = rows (kbuf t) ! phys (block_size t) (pages st) q"
     "pyslice 0 (shape (kbuf t) ! 1) (rows (vbuf t) ! phys (block_size t) (pages st) q) = rows (vbuf t) ! phys (block_size t) (pages st) q"
    if "q < l_acc st" for q
  proof -
    have "q < length (pages st) * block_size t" using ok that by (simp add: seq_ok_def)
    then have pl: "phys (block_size t) (pages st) q < shape (kbuf t) ! 0" by (rule phys_less [OF kv_inv_pages_fit [OF inv st(1)]])
    show "pyslice 0 (shape (kbuf t) ! 1) (rows (kbuf t) ! phys (block_size t) (pages st) q) = rows (kbuf t) ! phys (block_size t) (pages st) q"
      using wf_tensorD(3) [OF wt(1) pl] by simp
    show "pyslice 0 (shape (kbuf t) ! 1) (rows (vbuf t) ! phys (block_size t) (pages st) q) = rows (vbuf t) ! phys (block_size t) (pages st) q"
      using wf_tensorD(3) [OF wt(2)] pl wt(3) by simp
  qed
  have "gather_prefix junk sid (0, shape (kbuf t) ! 1) None None t =
     Inr (\<lparr>shape = [l_acc st, shape (kbuf t) ! 1, shape (kbuf t) ! 2], rows = prefix_rows (block_size t) (pages st) 0 (shape (kbuf t) ! 1) (kbuf t) (l_acc st)\<rparr>,
          \<lparr>shape = [l_acc st, shape (kbuf t) ! 1, shape (kbuf t) ! 2], rows = prefix_rows (block_size t) (pages st) 0 (shape (kbuf t) ! 1) (vbuf t) (l_acc st)\<rparr>)"
    using gather_prefix_correct [OF inv st(1), of 0 "shape (kbuf t) ! 1" "l_acc st" None junk] by simp
  then show ?thesis
    using ok row st(2) by (auto simp: kv_get_def st(3) logical_rows_def prefix_rows_def seq_ok_def zip_map_map take_map intro!: nth_equalityI)
qed

lemma kv_accepted_le:
  assumes "kv_inv t" and "kv_content t sid = Some (a, ys)"
  shows "a \<le> length ys"
  using assms(2) by (rule kv_contentD) (use kv_inv_seqD(1) [OF assms(1)] in \<open>auto simp: seq_ok_def\<close>)

interpretation paged: kv_cache kv_content kv_inv kv_row_ok kv_put kv_accept kv_cut "kv_get junk" for junk
  by unfold_locales (fact kv_put_content kv_accept_content kv_cut_content kv_get_content kv_accepted_le)+

end
