(* ===== verification/PagedKV_Props.thy ===== *)
theory PagedKV_Props
  imports PagedKV
begin

text \<open>
  What the paged table guarantees over arbitrary call sequences: the calls as a step relation, page
  ownership in every reachable state, read-after-write, speculation, exhaustion of the page pool and
  the agreement of \<^verbatim>\<open>track_write\<close> with \<^verbatim>\<open>write\<close>.
\<close>

section \<open>Properties\<close>

text \<open>One call on the table, with whatever arguments, returning or raising.\<close>

inductive kv_step :: "'a paged_table \<Rightarrow> 'a paged_table \<Rightarrow> bool" where
  register: "register_sequence sid t = (r, t') \<Longrightarrow> kv_step t t'"
| release: "release_sequence sid t = (r, t') \<Longrightarrow> kv_step t t'"
| kv_write: "wf_tensor kn \<Longrightarrow> wf_tensor vn \<Longrightarrow> kv_write sid start kn vn bh c t = (r, t') \<Longrightarrow> kv_step t t'"
| track: "track_write sid start n c t = (r, t') \<Longrightarrow> kv_step t t'"
| commit: "commit_seq sid up_to t = (r, t') \<Longrightarrow> kv_step t t'"
| roll_back: "rollback sid target t = (r, t') \<Longrightarrow> kv_step t t'"

inductive kv_reachable :: "'a paged_table \<Rightarrow> bool" where
  init: "init_table bk bv bs = Inr t \<Longrightarrow> wf_tensor bk \<Longrightarrow> wf_tensor bv \<Longrightarrow> kv_reachable t"
| step: "kv_reachable t \<Longrightarrow> kv_step t t' \<Longrightarrow> kv_reachable t'"

lemma ran_page_map: "\<Union> (set ` ran (page_map m)) = (\<Union>st \<in> ran m. set (pages st))"
  by (auto simp: ran_def)

lemma kv_step_inv: "kv_step t t' \<Longrightarrow> kv_inv t \<Longrightarrow> kv_inv t'"
  by (induction rule: kv_step.induct)
     (blast intro: register_inv release_inv kv_write_inv track_write_inv commit_inv rollback_inv)+

lemma kv_reachable_inv: "kv_reachable t \<Longrightarrow> kv_inv t"
  by (induction rule: kv_reachable.induct) (auto intro: init_table_inv kv_step_inv)

text \<open>
  C7 In every state reachable from a fresh table by any calls, including calls that raise (a write
  that runs out of pages, a refused rollback), no page is lost or shared: the free stack and the
  page tables are disjoint, duplicate-free, and together hold exactly the pages of the pool, and
  every sequence has \<open>l_acc \<le> l_seq\<close> with all logical positions backed by its pages.
\<close>
theorem paged_page_safety:
  assumes "kv_reachable t"
  shows "distinct (free_stack t) \<and>
     (\<forall>i si. seqs t i = Some si \<longrightarrow>
        distinct (pages si) \<and> set (pages si) \<inter> set (free_stack t) = {} \<and>
        l_acc si \<le> l_seq si \<and> l_seq si \<le> length (pages si) * block_size t) \<and>
     (\<forall>i j si sj. i \<noteq> j \<longrightarrow> seqs t i = Some si \<longrightarrow> seqs t j = Some sj \<longrightarrow> set (pages si) \<inter> set (pages sj) = {}) \<and>
     set (free_stack t) \<union> (\<Union>st \<in> ran (seqs t). set (pages st)) = {..<num_pages t}"
proof (intro conjI allI impI)
  have inv: "kv_inv t" by (rule kv_reachable_inv [OF assms])
  then have pi: "pages_inv (num_pages t) (free_stack t) (page_map (seqs t))" by (simp add: kv_inv_def)
  have pm: "page_map (seqs t) k = Some (pages sk)" if "seqs t k = Some sk" for k sk using that by simp
  show "distinct (free_stack t)" using pi by (simp add: pages_inv_def)
  show "set (free_stack t) \<union> (\<Union>st \<in> ran (seqs t). set (pages st)) = {..<num_pages t}"
    using pi ran_page_map [of "seqs t"] by (simp add: pages_inv_def)
  fix i si assume si: "seqs t i = Some si"
  show "distinct (pages si)" "set (pages si) \<inter> set (free_stack t) = {}"
    using pi pm [OF si] unfolding pages_inv_def by blast+
  show "l_acc si \<le> l_seq si" "l_seq si \<le> length (pages si) * block_size t"
    using kv_inv_seqD(1) [OF inv si] by (simp_all add: seq_ok_def)
next
  fix i j si sj assume ij: "i \<noteq> j" and si: "seqs t i = Some si" and sj: "seqs t j = Some sj"
  have "pages_inv (num_pages t) (free_stack t) (page_map (seqs t))"
    using kv_reachable_inv [OF assms] by (simp add: kv_inv_def)
  moreover have "page_map (seqs t) i = Some (pages si)" "page_map (seqs t) j = Some (pages sj)" using si sj by simp_all
  ultimately show "set (pages si) \<inter> set (pages sj) = {}" using ij unfolding pages_inv_def by blast
qed

text \<open>A small table: two pages of two tokens, one batch-head row, head dimension one.\<close>

definition demo_backing :: "nat tensor" where
  "demo_backing = \<lparr>shape = [4, 1, 1], rows = [[[0]], [[0]], [[0]], [[0]]]\<rparr>"

definition demo_table :: "nat paged_table" where
  "demo_table = \<lparr>kbuf = demo_backing, vbuf = demo_backing, block_size = 2, num_pages = 2,
                 free_stack = [1, 0], seqs = Map.empty\<rparr>"

definition demo_seq :: "nat paged_table" where
  "demo_seq = demo_table\<lparr>seqs := [7 \<mapsto> new_seq]\<rparr>"

lemma demo_reachable: "kv_reachable demo_seq"
proof -
  have "[0..<2] = [0, 1::nat]" by (simp add: numeral_2_eq_2)
  then have "init_table demo_backing demo_backing 2 = Inr demo_table"
    by (simp add: init_table_def demo_table_def demo_backing_def ndim_def)
  moreover have "wf_tensor demo_backing" unfolding wf_tensor_def ndim_def demo_backing_def by simp
  ultimately have "kv_reachable demo_table" using kv_reachable.init by blast
  moreover have "kv_step demo_table demo_seq"
    by (rule kv_step.register [of 7 _ "Inr ()"]) (simp add: register_sequence_def demo_table_def demo_seq_def)
  ultimately show ?thesis by (rule kv_reachable.step)
qed

theorem paged_page_safety_witness:
  "set (free_stack demo_seq) \<union> (\<Union>st \<in> ran (seqs demo_seq). set (pages st)) = {..<num_pages demo_seq}"
  using paged_page_safety [OF demo_reachable] by blast


section \<open>Read after write\<close>

lemma prefix_rows_append:
  assumes "0 < bs" and "n \<le> length ps * bs"
  shows "prefix_rows bs (ps @ ext) b0 b1 buf n = prefix_rows bs ps b0 b1 buf n"
  using phys_append [OF assms(1)] assms(2) by (auto simp: prefix_rows_def)

lemma prefix_rows_written:
  assumes w: "written bs ps b0 b1 new start start (start + m) buf buf'" and fit: "pages_fit bs ps (shape buf ! 0)"
    and hi: "start + m \<le> length ps * bs" and n: "n \<le> length ps * bs" "start \<le> n"
    and wb: "wf_tensor buf" "b0 \<le> b1" "b1 \<le> shape buf ! 1" and wn: "wf_tensor new" "shape new = [m, b1 - b0, d]"
  shows "prefix_rows bs ps b0 b1 buf' (max n (start + m)) =
    take start (prefix_rows bs ps b0 b1 buf n) @ rows new @ drop (start + m) (prefix_rows bs ps b0 b1 buf n)"
proof (rule nth_equalityI)
  have ln: "length (rows new) = m" using wf_tensorD(2) [OF wn(1)] wn(2) by simp
  then show "length (prefix_rows bs ps b0 b1 buf' (max n (start + m))) =
    length (take start (prefix_rows bs ps b0 b1 buf n) @ rows new @ drop (start + m) (prefix_rows bs ps b0 b1 buf n))"
    using n(2) by (auto simp: prefix_rows_def)
  fix q assume "q < length (prefix_rows bs ps b0 b1 buf' (max n (start + m)))"
  then have q: "q < max n (start + m)" by (simp add: prefix_rows_def)
  have qp: "q < length ps * bs" using q hi n by (auto simp: max_def split: if_splits)
  have pl: "phys bs ps q < shape buf ! 0" by (rule phys_less [OF fit qp])
  show "prefix_rows bs ps b0 b1 buf' (max n (start + m)) ! q =
    (take start (prefix_rows bs ps b0 b1 buf n) @ rows new @ drop (start + m) (prefix_rows bs ps b0 b1 buf n)) ! q"
  proof (cases "start \<le> q \<and> q < start + m")
    case True
    have "rows buf' ! phys bs ps q = splice_at b0 b1 (rows buf ! phys bs ps q) (rows new ! (q - start))"
      using w True unfolding written_def by blast
    moreover have "length (rows buf ! phys bs ps q) = shape buf ! 1" by (rule wf_tensorD(3) [OF wb(1) pl])
    moreover have "length (rows new ! (q - start)) = b1 - b0" using wf_tensorD(3) [OF wn(1), of "q - start"] wn(2) True by (simp add: less_diff_conv2)
    ultimately have "pyslice b0 b1 (rows buf' ! phys bs ps q) = rows new ! (q - start)"
      using wb(2,3) by (simp add: pyslice_def)
    moreover have "q - start < m" using True by arith
    ultimately show ?thesis using True q n(2) ln by (simp add: prefix_rows_def nth_append)
  next
    case False
    have "phys bs ps q \<noteq> phys bs ps p" if "start \<le> p" "p < start + m" for p
      using phys_inj [OF fit qp, of p] that hi False by auto
    then have "rows buf' ! phys bs ps q = rows buf ! phys bs ps q" by (intro written_unchanged [OF w pl]) blast
    then show ?thesis using False q n(2) ln by (auto simp: prefix_rows_def nth_append)
  qed
qed

text \<open>
  C10 A committed write that returns is read back exactly, for any batch-head slice: if the write
  starts inside the accepted prefix, reading the accepted prefix afterwards gives the old prefix with
  the new rows spliced in at the start position, whatever \<open>torch.empty\<close> held before (\<open>junk\<close>).
  It covers writes that start inside a page, span several pages and allocate new ones.
\<close>
theorem paged_read_after_write:
  assumes "kv_reachable t" and "seqs t sid = Some st" and "wf_tensor kn" and "wf_tensor vn"
    and "shape kn = [m, b1 - b0, shape (kbuf t) ! 2]" and "shape vn = shape kn" and "0 < m"
    and "b0 \<le> b1" and "b1 \<le> shape (kbuf t) ! 1" and "start \<le> l_acc st"
    and "kv_write sid start kn vn (b0, b1) True t = (Inr (), t')"
  shows "\<exists>ko vo ko' vo'. gather_prefix junk sid (b0, b1) None None t = Inr (ko, vo) \<and>
      gather_prefix junk sid (b0, b1) None None t' = Inr (ko', vo') \<and>
      rows ko' = take start (rows ko) @ rows kn @ drop (start + m) (rows ko) \<and>
      rows vo' = take start (rows vo) @ rows vn @ drop (start + m) (rows vo)"
proof -
  have inv: "kv_inv t" by (rule kv_reachable_inv [OF assms(1)])
  have wt: "wf_tensor (kbuf t)" "wf_tensor (vbuf t)" "shape (vbuf t) = shape (kbuf t)" and bs: "0 < block_size t"
    using inv by (simp_all add: kv_inv_def)
  obtain ext where i': "kv_inv t'" and bs': "block_size t' = block_size t"
    and s': "seqs t' = (seqs t)(sid \<mapsto> advance (start + m) True (st\<lparr>pages := pages st @ ext\<rparr>))"
    and hi: "start + m \<le> length (pages st @ ext) * block_size t"
    and wk: "written (block_size t) (pages st @ ext) b0 b1 kn start start (start + m) (kbuf t) (kbuf t')"
    and wv: "written (block_size t) (pages st @ ext) b0 b1 vn start start (start + m) (vbuf t) (vbuf t')"
    by (rule kv_write_returns [OF inv assms(2-9,11)]) auto
  define st' where "st' = advance (start + m) True (st\<lparr>pages := pages st @ ext\<rparr>)"
  have st': "seqs t' sid = Some st'" "pages st' = pages st @ ext" "l_acc st' = max (l_acc st) (start + m)"
    by (simp_all add: s' st'_def)
  have sh: "shape (kbuf t') = shape (kbuf t)" using wk by (simp add: written_def)
  have la: "l_acc st \<le> length (pages st) * block_size t" using kv_inv_seqD(1) [OF inv assms(2)] by (simp add: seq_ok_def)
  then have la': "l_acc st \<le> length (pages st @ ext) * block_size t" by (simp add: add_mult_distrib)
  have fit: "pages_fit (block_size t) (pages st @ ext) (shape (kbuf t) ! 0)"
    using kv_inv_pages_fit [OF i' st'(1)] sh bs' st'(2) by simp
  have fitv: "pages_fit (block_size t) (pages st @ ext) (shape (vbuf t) ! 0)" "b1 \<le> shape (vbuf t) ! 1"
    "shape vn = [m, b1 - b0, shape (kbuf t) ! 2]" using fit assms(5,6,9) wt(3) by simp_all
  note old = gather_prefix_correct [OF inv assms(2,8,9) order_refl disjI1, of None junk]
  note new = gather_prefix_correct [OF i' st'(1) assms(8) _ order_refl disjI1, of None junk]
  show ?thesis
    using old new sh assms(9) st'(2,3) bs'
      prefix_rows_written [OF wk fit hi la' assms(10) wt(1) assms(8,9,3,5)]
      prefix_rows_written [OF wv fitv(1) hi la' assms(10) wt(2) assms(8) fitv(2) assms(4) fitv(3)]
      prefix_rows_append [OF bs la, of ext b0 b1 "kbuf t"] prefix_rows_append [OF bs la, of ext b0 b1 "vbuf t"] by simp
qed

text \<open>
  A speculative write (not committed) at the end of a sequence that is fully accepted can always
  be undone: rolling back to the accepted length returns normally and restores the logical contents of
  every sequence, and the table still satisfies its page invariant.
\<close>
theorem paged_speculation_undone:
  assumes "kv_reachable t" and "seqs t sid = Some st" and "l_seq st = l_acc st" and "xs \<noteq> []"
    and "\<forall>x \<in> set xs. kv_row_ok t x" and "kv_put sid (l_acc st) xs False t = (Inr (), t')"
  shows "\<exists>t''. rollback sid (int (l_acc st)) t' = (Inr (), t'') \<and> kv_content t'' = kv_content t \<and> kv_inv t''"
proof -
  have "kv_content t sid = Some (l_acc st, logical_rows t st)" "length (logical_rows t st) = l_acc st"
    using assms(2,3) by (simp_all add: kv_content_def logical_rows_def)
  from paged.speculation_undone [OF kv_reachable_inv [OF assms(1)] this assms(4-6)]
  show ?thesis by (simp add: kv_cut_def)
qed

text \<open>
  C22 Verified speculation: after a speculative write of \<open>xs\<close> at the end of a fully accepted
  sequence, committing the first \<open>m\<close> of the new positions and rolling back to them leaves exactly
  the old rows followed by the first \<open>m\<close> new ones, and that is what a read returns. Every other
  sequence keeps its contents.
\<close>
theorem paged_accept_speculation:
  assumes "kv_reachable t" and "seqs t sid = Some st" and "l_seq st = l_acc st" and "xs \<noteq> []"
    and "\<forall>x \<in> set xs. kv_row_ok t x" and "kv_put sid (l_acc st) xs False t = (Inr (), t')" and "m \<le> length xs"
  shows "\<exists>t2 t3. commit_seq sid (Some (int (l_acc st + m))) t' = (Inr (), t2) \<and>
     rollback sid (int (l_acc st + m)) t2 = (Inr (), t3) \<and>
     kv_content t3 = (kv_content t)(sid \<mapsto> (l_acc st + m, logical_rows t st @ take m xs)) \<and>
     kv_get junk sid t3 = Inr (logical_rows t st @ take m xs)"
proof -
  have "kv_content t sid = Some (l_acc st, logical_rows t st)" "length (logical_rows t st) = l_acc st"
    using assms(2,3) by (simp_all add: kv_content_def logical_rows_def)
  from paged.accept_speculation [OF kv_reachable_inv [OF assms(1)] this assms(4-7), of junk]
  show ?thesis unfolding kv_accept_def kv_cut_def by blast
qed


text \<open>A two-row payload, the write of it that commits and the one that does not.\<close>

definition demo_payload :: "nat tensor" where
  "demo_payload = \<lparr>shape = [3, 1, 1], rows = [[[5]], [[6]], [[7]]]\<rparr>"

definition demo_rows :: "(nat list list \<times> nat list list) list" where
  "demo_rows = [([[5]], [[8]]), ([[6]], [[9]])]"

lemma demo_writes:
  "kv_write 7 0 demo_payload demo_payload (0, 1) True demo_seq =
     (Inr (), snd (kv_write 7 0 demo_payload demo_payload (0, 1) True demo_seq))"
  "kv_put 7 0 demo_rows False demo_seq = (Inr (), snd (kv_put 7 0 demo_rows False demo_seq))"
proof -
  have "fst (kv_write 7 0 demo_payload demo_payload (0, 1) True demo_seq) = Inr ()" by code_simp
  then show "kv_write 7 0 demo_payload demo_payload (0, 1) True demo_seq =
     (Inr (), snd (kv_write 7 0 demo_payload demo_payload (0, 1) True demo_seq))" by (metis prod.collapse)
  have "fst (kv_put 7 0 demo_rows False demo_seq) = Inr ()" by code_simp
  then show "kv_put 7 0 demo_rows False demo_seq = (Inr (), snd (kv_put 7 0 demo_rows False demo_seq))"
    by (metis prod.collapse)
qed

lemma demo_facts:
  "seqs demo_seq 7 = Some new_seq" "shape (kbuf demo_seq) = [4, 1, 1]" "wf_tensor demo_payload"
  "shape demo_payload = [3, 1, 1]" "l_acc new_seq = 0" "l_seq new_seq = 0" "demo_rows \<noteq> []"
  "\<forall>x \<in> set demo_rows. kv_row_ok demo_seq x"
  by (auto simp: demo_seq_def demo_table_def demo_backing_def demo_payload_def wf_tensor_def ndim_def
      new_seq_def demo_rows_def kv_row_ok_def)

theorem paged_read_after_write_witness:
  "\<exists>ko vo ko' vo'. gather_prefix 0 7 (0, 1) None None demo_seq = Inr (ko, vo) \<and>
     gather_prefix 0 7 (0, 1) None None (snd (kv_write 7 0 demo_payload demo_payload (0, 1) True demo_seq)) = Inr (ko', vo') \<and>
     rows ko' = take 0 (rows ko) @ rows demo_payload @ drop (0 + 3) (rows ko) \<and>
     rows vo' = take 0 (rows vo) @ rows demo_payload @ drop (0 + 3) (rows vo)"
  by (rule paged_read_after_write [OF demo_reachable demo_facts(1) demo_facts(3,3) _ refl _ _ _ _ demo_writes(1)])
     (simp_all add: demo_facts)

theorem paged_speculation_undone_witness:
  "\<exists>t''. rollback 7 (int (l_acc new_seq)) (snd (kv_put 7 0 demo_rows False demo_seq)) = (Inr (), t'') \<and>
     kv_content t'' = kv_content demo_seq \<and> kv_inv t''"
  by (rule paged_speculation_undone [OF demo_reachable demo_facts(1)])
     (use demo_writes(2) demo_facts in simp_all)

theorem paged_accept_speculation_witness:
  "\<exists>t2 t3. commit_seq 7 (Some (int (l_acc new_seq + 1))) (snd (kv_put 7 0 demo_rows False demo_seq)) = (Inr (), t2) \<and>
     rollback 7 (int (l_acc new_seq + 1)) t2 = (Inr (), t3) \<and>
     kv_content t3 = (kv_content demo_seq)(7 \<mapsto> (l_acc new_seq + 1, logical_rows demo_seq new_seq @ take 1 demo_rows)) \<and>
     kv_get 0 7 t3 = Inr (logical_rows demo_seq new_seq @ take 1 demo_rows)"
  by (rule paged_accept_speculation [OF demo_reachable demo_facts(1)])
     (use demo_writes(2) demo_facts in \<open>simp_all add: demo_rows_def\<close>)

section \<open>Exhaustion and the state-only mirror\<close>

text \<open>
  A write raises exactly when the pool cannot hold it: for a registered sequence and rows of the
  table's width, \<open>write\<close> returns if the pages of the sequence and the free pages together cover the
  end position and raises \<open>PagedKVError\<close> otherwise. When it raises, no stored row, no length and
  no other sequence has changed, but the whole free stack has been moved to the failing sequence.
\<close>
theorem paged_write_exhaustion:
  assumes "kv_reachable t" and "seqs t sid = Some st" and "wf_tensor kn" and "wf_tensor vn"
    and "shape kn = [m, b1 - b0, shape (kbuf t) ! 2]" and "shape vn = shape kn" and "0 < m"
    and "b0 \<le> b1" and "b1 \<le> shape (kbuf t) ! 1"
    and "kv_write sid start kn vn (b0, b1) c t = (r, t')"
  shows "if start + m \<le> (length (pages st) + num_free_pages t) * block_size t then r = Inr ()
     else r = Inl PagedKVError \<and> num_free_pages t' = 0 \<and> kbuf t' = kbuf t \<and> vbuf t' = vbuf t \<and>
          (\<exists>ext. length ext = num_free_pages t \<and> seqs t' = (seqs t)(sid \<mapsto> st\<lparr>pages := pages st @ ext\<rparr>))"
proof -
  have inv: "kv_inv t" by (rule kv_reachable_inv [OF assms(1)])
  then have bs: "0 < block_size t" by (simp add: kv_inv_def)
  note le = ceil_div_le_iff [OF bs, of "start + m" "length (pages st) + length (free_stack t)"]
  show ?thesis
  proof (rule kv_write_returns [OF inv assms(2-10)], goal_cases)
    case 1
    from ensure_capacity_spec [OF inv assms(2) 1(3)] obtain ext where
      "seqs t' = (seqs t)(sid \<mapsto> st\<lparr>pages := pages st @ ext\<rparr>)" "kbuf t' = kbuf t" "vbuf t' = vbuf t"
      "free_stack t' = []" "length ext + length (free_stack t') = length (free_stack t)" by metis
    with 1 le show ?case by (auto simp: num_free_pages_def)
  next
    case (2 ext)
    with le show ?case by (simp add: num_free_pages_def)
  qed
qed

text \<open>
  \<open>track_write\<close> leaves exactly the page tables, free stack and lengths that the corresponding
  \<open>write\<close> leaves, and never touches the backing tensors: the two entry points can be mixed.
\<close>
theorem paged_track_write_mirrors:
  assumes "kv_reachable t" and "seqs t sid = Some st" and "wf_tensor kn" and "wf_tensor vn"
    and "shape kn = [m, b1 - b0, shape (kbuf t) ! 2]" and "shape vn = shape kn" and "0 < m"
    and "b0 \<le> b1" and "b1 \<le> shape (kbuf t) ! 1"
    and "kv_write sid start kn vn (b0, b1) c t = (r, t')"
  shows "track_write sid start (int m) c t = (r, t'\<lparr>kbuf := kbuf t, vbuf := vbuf t\<rparr>)"
proof -
  have inv: "kv_inv t" by (rule kv_reachable_inv [OF assms(1)])
  have sh: "shape kn ! 0 = m" "ndim kn = 3" using assms(5) by (simp_all add: ndim_def)
  obtain r1 t1 where ec: "ensure_capacity sid (start + m) t = (r1, t1)" by fastforce
  from ensure_capacity_spec [OF inv assms(2) ec] have same: "kbuf t1 = kbuf t" "vbuf t1 = vbuf t" by metis+
  have ts: "seqs t1 sid \<noteq> None" using ensure_capacity_spec [OF inv assms(2) ec] by (metis fun_upd_same option.distinct(1))
  have tr: "track_write sid start (int m) c t = (case r1 of Inl e \<Rightarrow> (Inl e, t1)
      | Inr _ \<Rightarrow> (Inr (), t1\<lparr>seqs := (seqs t1)(sid \<mapsto> advance (start + m) c (the (seqs t1 sid)))\<rparr>))"
    using assms(2,7) ec ts by (auto simp: track_write_def Let_def split: sum.splits)
  obtain rr k v where wl: "write_loop (block_size t1) (pages (the (seqs t1 sid))) b0 b1 kn vn
      (start + m) start 0 (kbuf t1) (vbuf t1) = (rr, k, v)" by (metis prod_cases3)
  have w: "(r, t') = (case r1 of Inl e \<Rightarrow> (Inl e, t1) | Inr _ \<Rightarrow> (case rr of
        Inl e \<Rightarrow> (Inl e, t1\<lparr>kbuf := k, vbuf := v\<rparr>)
      | Inr _ \<Rightarrow> (Inr (), t1\<lparr>kbuf := k, vbuf := v, seqs := (seqs t1)(sid \<mapsto> advance (start + m) c (the (seqs t1 sid)))\<rparr>)))"
    unfolding assms(10) [symmetric] using assms(6,7) sh ec ts wl by (auto simp: kv_write_def Let_def split: sum.splits)
  have "r = Inr () \<or> r1 = Inl PagedKVError"
    by (rule kv_write_returns [OF inv assms(2-10)]) (use ec in auto)
  with w tr same show ?thesis by (auto split: sum.splits)
qed

lemma demo_write_result: "kv_write 7 2 demo_payload demo_payload (0, 1) True demo_seq =
   (Inl PagedKVError, snd (kv_write 7 2 demo_payload demo_payload (0, 1) True demo_seq))"
proof -
  have "(case fst (kv_write 7 2 demo_payload demo_payload (0, 1) True demo_seq) of Inl PagedKVError \<Rightarrow> True | _ \<Rightarrow> False)"
    by code_simp
  then have "fst (kv_write 7 2 demo_payload demo_payload (0, 1) True demo_seq) = Inl PagedKVError"
    by (auto split: sum.splits py_error.splits)
  then show ?thesis by (metis prod.collapse)
qed

theorem paged_write_exhaustion_witness:
  "num_free_pages (snd (kv_write 7 2 demo_payload demo_payload (0, 1) True demo_seq)) = 0"
proof -
  have sh: "shape demo_payload = [3, 1 - 0, shape (kbuf demo_seq) ! 2]" "(1::nat) \<le> shape (kbuf demo_seq) ! 1"
    by (simp_all add: demo_facts)
  have n: "length (pages new_seq) = 0" "num_free_pages demo_seq = 2" "block_size demo_seq = 2"
    by (simp_all add: new_seq_def num_free_pages_def demo_seq_def demo_table_def)
  show ?thesis
    using paged_write_exhaustion [OF demo_reachable demo_facts(1) demo_facts(3,3) sh(1) refl _ _ sh(2) demo_write_result]
    unfolding n by simp
qed

theorem paged_track_write_mirrors_witness:
  "track_write 7 0 (int 3) True demo_seq =
     (Inr (), (snd (kv_write 7 0 demo_payload demo_payload (0, 1) True demo_seq))\<lparr>kbuf := kbuf demo_seq, vbuf := vbuf demo_seq\<rparr>)"
  by (rule paged_track_write_mirrors [OF demo_reachable demo_facts(1) demo_facts(3,3) _ refl _ _ _ demo_writes(1)])
     (simp_all add: demo_facts)

end
