(* ===== verification/PrefixIndex.thy ===== *)
theory PrefixIndex
  imports BB_Prelude
begin

text \<open>
  KV prefix reuse: the server-side index of \<^verbatim>\<open>server/prefix_index.py\<close>, the request planner of
  \<^verbatim>\<open>mvp_capabilities/kv_prefix_reuse.py\<close> and the client-side prefill metadata of
  \<^verbatim>\<open>client/kv_prefix_reuse.py\<close>.

  Token sequences arrive as arbitrary Python iterables, so an element is an integer, a boolean or
  something else, and normalisation rejects the last two. SHA-256 is the argument \<open>sha\<close>: nothing
  is assumed of it, so every statement below holds under hash collisions too. The \<open>OrderedDict\<close>
  is the association list of its items, oldest first. The \<open>metadata\<close> dictionary is carried
  through unread.
\<close>

section \<open>The contract of a prefix matcher\<close>

text \<open>
  A matcher finds in its store a token list and a length such that both agree on that many tokens.
  Attention is causal: the cached row of a position is a function of the tokens up to that position.
  So the rows of the match are the rows a full prefill computes.
\<close>

definition kv_rows :: "('t list \<Rightarrow> 'r) \<Rightarrow> 't list \<Rightarrow> nat \<Rightarrow> 'r list" where
  "kv_rows row tokens n = map (\<lambda>i. row (take (Suc i) tokens)) [0..<n]"

locale prefix_matcher =
  fixes stored :: "'s \<Rightarrow> 't list set"
    and best :: "'s \<Rightarrow> 't list \<Rightarrow> ('t list \<times> nat) option"
  assumes best_sound: "best s q = Some (ts, n) \<Longrightarrow>
      ts \<in> stored s \<and> 0 < n \<and> n \<le> length q \<and> n \<le> length ts \<and> take n q = take n ts"
begin

lemma reuse_is_recompute:
  assumes "best s q = Some (ts, n)"
  shows "kv_rows row ts n @ map (\<lambda>i. row (take (Suc i) q)) [n..<length q] = kv_rows row q (length q)"
proof -
  from best_sound [OF assms] have n: "n \<le> length q" "take n q = take n ts" by blast+
  have "take (Suc i) ts = take (Suc i) q" if "i < n" for i
    using arg_cong [OF n(2), of "take (Suc i)"] that by (simp add: min_def)
  then have "kv_rows row ts n = map (\<lambda>i. row (take (Suc i) q)) [0..<n]" by (simp add: kv_rows_def)
  moreover have "[0..<n] @ [n..<length q] = [0..<length q]" using n(1) by (metis le0 le_add_diff_inverse upt_add_eq_append)
  ultimately show ?thesis by (metis kv_rows_def map_append)
qed

end

section \<open>Tokens and keys\<close>

datatype py_token = TInt int | TBool bool | TOther

fun int_tokens :: "py_token list \<Rightarrow> int list option" where
  "int_tokens [] = Some []"
| "int_tokens (TInt n # ts) = map_option ((#) n) (int_tokens ts)"
| "int_tokens (TBool b # ts) = None"
| "int_tokens (TOther # ts) = None"

definition normalize_tokens :: "py_token list \<Rightarrow> int list result" where
  "normalize_tokens ts =
     (case int_tokens ts of None \<Rightarrow> Inl ValueError
      | Some out \<Rightarrow> if out = [] then Inl ValueError else Inr out)"

text \<open>\<open>json.dumps\<close> of a list of integers with compact separators.\<close>

fun show_nat :: "nat \<Rightarrow> string" where
  "show_nat n = (if n < 10 then [char_of (48 + n)] else show_nat (n div 10) @ [char_of (48 + n mod 10)])"

definition show_int :: "int \<Rightarrow> string" where
  "show_int i = (if i < 0 then CHR ''-'' # show_nat (nat (- i)) else show_nat (nat i))"

fun join_with :: "char \<Rightarrow> string list \<Rightarrow> string" where
  "join_with c [] = []"
| "join_with c [x] = x"
| "join_with c (x # y # xs) = x @ c # join_with c (y # xs)"

definition json_ints :: "int list \<Rightarrow> string" where
  "json_ints ns = CHR ''['' # join_with CHR '','' (map show_int ns) @ [CHR '']'']"

definition prefix_tokens_sha256 :: "(string \<Rightarrow> string) \<Rightarrow> py_token list \<Rightarrow> string result" where
  "prefix_tokens_sha256 sha ts =
     (case normalize_tokens ts of Inl e \<Rightarrow> Inl e | Inr ns \<Rightarrow> Inr (sha (json_ints ns)))"

section \<open>The index\<close>

record 'm prefix_entry =
  token_prefix :: "int list"
  handle :: int
  prefix_length :: int
  token_sha256 :: string
  metadata :: 'm

record 'm prefix_index =
  max_size_tokens :: "int option"
  entries :: "(string \<times> 'm prefix_entry) list"
  current_size_tokens :: int

definition new_index :: "int option \<Rightarrow> 'm prefix_index" where
  "new_index m = \<lparr>max_size_tokens = m, entries = [], current_size_tokens = 0\<rparr>"

text \<open>\<open>OrderedDict.pop(key, None)\<close> on the items.\<close>

definition pop_key :: "string \<Rightarrow> (string \<times> 'e) list \<Rightarrow> (string \<times> 'e) list" where
  "pop_key k es = filter (\<lambda>(k', _). k' \<noteq> k) es"

fun evict_loop :: "int \<Rightarrow> int \<Rightarrow> (string \<times> 'm prefix_entry) list \<Rightarrow> int \<times> (string \<times> 'm prefix_entry) list" where
  "evict_loop m cur [] = (cur, [])"
| "evict_loop m cur ((k, e) # es) =
     (if m < cur then evict_loop m (cur - prefix_length e) es else (cur, (k, e) # es))"

definition evict_if_needed :: "'m prefix_index \<Rightarrow> 'm prefix_index" where
  "evict_if_needed idx =
     (case max_size_tokens idx of
        None \<Rightarrow> idx
      | Some m \<Rightarrow>
          (case evict_loop m (current_size_tokens idx) (entries idx) of
             (cur, es) \<Rightarrow> idx\<lparr>entries := es, current_size_tokens := cur\<rparr>))"

definition register_prefix ::
  "(string \<Rightarrow> string) \<Rightarrow> py_token list \<Rightarrow> int \<Rightarrow> int option \<Rightarrow> 'm \<Rightarrow> 'm prefix_index \<Rightarrow>
   ('m prefix_index, 'm prefix_entry) outcome" where
  "register_prefix sha ts h plen meta idx =
     (case normalize_tokens ts of
        Inl e \<Rightarrow> (Inl e, idx)
      | Inr tokens \<Rightarrow>
          let len = (case plen of None \<Rightarrow> int (length tokens) | Some l \<Rightarrow> l) in
          if len \<le> 0 \<or> int (length tokens) < len then (Inl ValueError, idx)
          else
            let indexed = take (nat len) tokens in
            (case prefix_tokens_sha256 sha (map TInt indexed) of
               Inl e \<Rightarrow> (Inl e, idx)
             | Inr key \<Rightarrow>
                 let cur = (case map_of (entries idx) key of
                              None \<Rightarrow> current_size_tokens idx
                            | Some prev \<Rightarrow> current_size_tokens idx - prefix_length prev);
                     entry = \<lparr>token_prefix = indexed, handle = h, prefix_length = len,
                              token_sha256 = key, metadata = meta\<rparr>
                 in (Inr entry,
                     evict_if_needed (idx\<lparr>entries := pop_key key (entries idx) @ [(key, entry)],
                                          current_size_tokens := cur + len\<rparr>))))"

fun lookup_loop ::
  "(string \<Rightarrow> string) \<Rightarrow> int list \<Rightarrow> nat \<Rightarrow> nat \<Rightarrow> 'm prefix_index \<Rightarrow>
   ('m prefix_index, 'm prefix_entry option) outcome" where
  "lookup_loop sha query min_len 0 idx = (Inr None, idx)"
| "lookup_loop sha query min_len (Suc n) idx =
     (if Suc n < min_len then (Inr None, idx)
      else
        (case prefix_tokens_sha256 sha (map TInt (take (Suc n) query)) of
           Inl e \<Rightarrow> (Inl e, idx)
         | Inr key \<Rightarrow>
             (case map_of (entries idx) key of
                None \<Rightarrow> lookup_loop sha query min_len n idx
              | Some entry \<Rightarrow>
                  if token_prefix entry \<noteq> take (Suc n) query then lookup_loop sha query min_len n idx
                  else (Inr (Some entry), idx\<lparr>entries := pop_key key (entries idx) @ [(key, entry)]\<rparr>))))"

definition lookup_prefix ::
  "(string \<Rightarrow> string) \<Rightarrow> py_token list \<Rightarrow> int \<Rightarrow> 'm prefix_index \<Rightarrow>
   ('m prefix_index, 'm prefix_entry option) outcome" where
  "lookup_prefix sha ts min_prefix_length idx =
     (case normalize_tokens ts of
        Inl e \<Rightarrow> (Inl e, idx)
      | Inr query \<Rightarrow> lookup_loop sha query (nat (max 1 min_prefix_length)) (length query) idx)"

definition remove_prefix ::
  "(string \<Rightarrow> string) \<Rightarrow> py_token list \<Rightarrow> 'm prefix_index \<Rightarrow>
   ('m prefix_index, 'm prefix_entry option) outcome" where
  "remove_prefix sha ts idx =
     (case prefix_tokens_sha256 sha ts of
        Inl e \<Rightarrow> (Inl e, idx)
      | Inr key \<Rightarrow>
          (case map_of (entries idx) key of
             None \<Rightarrow> (Inr None, idx)
           | Some entry \<Rightarrow>
               (Inr (Some entry),
                idx\<lparr>entries := pop_key key (entries idx),
                    current_size_tokens := current_size_tokens idx - prefix_length entry\<rparr>)))"

definition index_len :: "'m prefix_index \<Rightarrow> nat" where
  "index_len idx = length (entries idx)"


section \<open>Accounting\<close>

definition entry_ok :: "(string \<Rightarrow> string) \<Rightarrow> string \<times> 'm prefix_entry \<Rightarrow> bool" where
  "entry_ok sha ke \<longleftrightarrow>
     (case ke of (k, e) \<Rightarrow> token_sha256 e = k \<and> k = sha (json_ints (token_prefix e)) \<and>
        token_prefix e \<noteq> [] \<and> prefix_length e = int (length (token_prefix e)))"

definition total_length :: "(string \<times> 'm prefix_entry) list \<Rightarrow> int" where
  "total_length es = (\<Sum>(k, e) \<leftarrow> es. prefix_length e)"

definition index_inv :: "(string \<Rightarrow> string) \<Rightarrow> 'm prefix_index \<Rightarrow> bool" where
  "index_inv sha idx \<longleftrightarrow>
     distinct (map fst (entries idx)) \<and> (\<forall>ke \<in> set (entries idx). entry_ok sha ke) \<and>
     current_size_tokens idx = total_length (entries idx) \<and>
     (\<forall>m. max_size_tokens idx = Some m \<longrightarrow> current_size_tokens idx \<le> max 0 m)"

lemma total_length_simps [simp]:
  "total_length [] = 0" "total_length ((k, e) # es) = prefix_length e + total_length es"
  "total_length (xs @ ys) = total_length xs + total_length ys"
  by (simp_all add: total_length_def)

lemma pop_key_append_fresh [simp]: "k \<notin> fst ` set (pop_key k es)"
  by (auto simp: pop_key_def)

lemma pop_key_absent: "k \<notin> fst ` set es \<Longrightarrow> pop_key k es = es"
  by (force simp: pop_key_def filter_id_conv)

lemma distinct_pop_key: "distinct (map fst es) \<Longrightarrow> distinct (map fst (pop_key k es))"
  by (induction es) (auto simp: pop_key_def)

lemma set_pop_key: "set (pop_key k es) = {ke \<in> set es. fst ke \<noteq> k}"
  by (auto simp: pop_key_def)

lemma total_length_pop:
  assumes "distinct (map fst es)"
  shows "total_length (pop_key k es) =
    total_length es - (case map_of es k of None \<Rightarrow> 0 | Some e \<Rightarrow> prefix_length e)"
  using assms
proof (induction es)
  case (Cons ke es)
  obtain k' e' where ke: "ke = (k', e')" by fastforce
  show ?case
  proof (cases "k' = k")
    case True
    then have "pop_key k es = es" using Cons.prems by (intro pop_key_absent) (simp add: ke)
    with True show ?thesis by (simp add: ke pop_key_def)
  next
    case False
    with Cons show ?thesis by (simp add: ke pop_key_def)
  qed
qed (simp add: pop_key_def)

lemma pop_key_eq_remove1:
  assumes "distinct (map fst es)" and "map_of es k = Some e"
  shows "mset (pop_key k es @ [(k, e)]) = mset es"
  using assms
proof (induction es)
  case (Cons ke es)
  obtain k' e' where ke: "ke = (k', e')" by fastforce
  show ?case
  proof (cases "k' = k")
    case True
    then have "pop_key k es = es" using Cons.prems by (intro pop_key_absent) (simp add: ke)
    with True Cons.prems show ?thesis by (simp add: ke pop_key_def)
  next
    case False
    with Cons show ?thesis by (simp add: ke pop_key_def)
  qed
qed simp

lemma evict_loop_spec:
  "\<exists>dropped. es = dropped @ snd (evict_loop m cur es) \<and>
     fst (evict_loop m cur es) = cur - total_length dropped \<and>
     (snd (evict_loop m cur es) = [] \<or> fst (evict_loop m cur es) \<le> m)"
proof (induction m cur es rule: evict_loop.induct)
  case (2 m cur k e es)
  show ?case
  proof (cases "m < cur")
    case True
    from 2 [OF True] obtain dropped where "es = dropped @ snd (evict_loop m (cur - prefix_length e) es)"
      "fst (evict_loop m (cur - prefix_length e) es) = cur - prefix_length e - total_length dropped"
      "snd (evict_loop m (cur - prefix_length e) es) = [] \<or> fst (evict_loop m (cur - prefix_length e) es) \<le> m" by blast
    with True show ?thesis by (intro exI [of _ "(k, e) # dropped"]) simp
  qed simp
qed simp

text \<open>Eviction drops a prefix of the order, that is the least recently used entries.\<close>

lemma evict_if_needed_spec:
  assumes "current_size_tokens idx = total_length (entries idx)"
  shows "\<exists>dropped. entries idx = dropped @ entries (evict_if_needed idx) \<and>
     current_size_tokens (evict_if_needed idx) = total_length (entries (evict_if_needed idx)) \<and>
     max_size_tokens (evict_if_needed idx) = max_size_tokens idx \<and>
     (\<forall>m. max_size_tokens idx = Some m \<longrightarrow> current_size_tokens (evict_if_needed idx) \<le> max 0 m)"
proof (cases "max_size_tokens idx")
  case None
  with assms show ?thesis by (simp add: evict_if_needed_def)
next
  case (Some m)
  obtain cur es where r: "evict_loop m (current_size_tokens idx) (entries idx) = (cur, es)" by fastforce
  have "\<exists>dropped. entries idx = dropped @ es \<and> cur = current_size_tokens idx - total_length dropped \<and> (es = [] \<or> cur \<le> m)"
    using evict_loop_spec [of "entries idx" m "current_size_tokens idx"] by (simp add: r)
  then obtain dropped where d: "entries idx = dropped @ es" "cur = current_size_tokens idx - total_length dropped"
    "es = [] \<or> cur \<le> m" by blast
  have "cur = total_length es" using d(1,2) assms by simp
  with d Some r show ?thesis by (intro exI [of _ dropped]) (auto simp: evict_if_needed_def)
qed

lemma int_tokens_TInt [simp]: "int_tokens (map TInt ns) = Some ns"
  by (induction ns) auto

lemma key_of_ints [simp]: "ns \<noteq> [] \<Longrightarrow> prefix_tokens_sha256 sha (map TInt ns) = Inr (sha (json_ints ns))"
  by (simp add: prefix_tokens_sha256_def normalize_tokens_def)

text \<open>What a registration that returns does, before and after eviction.\<close>

lemma register_returns:
  assumes "register_prefix sha ts h plen meta idx = (Inr e, idx')"
  obtains key idx1 where "token_prefix e \<noteq> []" "entry_ok sha (key, e)" "handle e = h" "metadata e = meta"
    "idx1 = idx\<lparr>entries := pop_key key (entries idx) @ [(key, e)],
                current_size_tokens := current_size_tokens idx -
                  (case map_of (entries idx) key of None \<Rightarrow> 0 | Some p \<Rightarrow> prefix_length p) + prefix_length e\<rparr>"
    "idx' = evict_if_needed idx1"
proof -
  from assms obtain tokens len where n: "normalize_tokens ts = Inr tokens" and
    len: "len = (case plen of None \<Rightarrow> int (length tokens) | Some l \<Rightarrow> l)" "0 < len" "len \<le> int (length tokens)"
    by (auto simp: register_prefix_def Let_def split: sum.splits if_splits)
  define indexed where "indexed = take (nat len) tokens"
  have ne: "indexed \<noteq> []" "int (length indexed) = len" using len by (auto simp: indexed_def)
  define key where "key = sha (json_ints indexed)"
  define en where "en = \<lparr>token_prefix = indexed, handle = h, prefix_length = len, token_sha256 = key, metadata = meta\<rparr>"
  have k: "prefix_tokens_sha256 sha (map TInt (take (nat len) tokens)) = Inr key"
    using key_of_ints [OF ne(1)] by (simp add: indexed_def key_def)
  have "register_prefix sha ts h plen meta idx =
      (Inr en, evict_if_needed (idx\<lparr>entries := pop_key key (entries idx) @ [(key, en)],
         current_size_tokens := (case map_of (entries idx) key of None \<Rightarrow> current_size_tokens idx
            | Some prev \<Rightarrow> current_size_tokens idx - prefix_length prev) + len\<rparr>))"
    using len(2,3) by (simp add: register_prefix_def n len(1) [symmetric] k en_def indexed_def Let_def)
  then have e: "e = en" "idx' = evict_if_needed (idx\<lparr>entries := pop_key key (entries idx) @ [(key, e)],
                current_size_tokens := current_size_tokens idx -
                  (case map_of (entries idx) key of None \<Rightarrow> 0 | Some p \<Rightarrow> prefix_length p) + prefix_length e\<rparr>)"
    using assms by (auto simp: en_def split: option.splits)
  show ?thesis
    by (rule that [of key, OF _ _ _ _ refl e(2)]) (use ne in \<open>simp_all add: e(1) en_def entry_ok_def key_def\<close>)
qed

lemma register_prefix_inv:
  assumes inv: "index_inv sha idx" and r: "register_prefix sha ts h plen meta idx = (res, idx')"
  shows "index_inv sha idx'"
proof (cases res)
  case (Inl err)
  have "idx' = idx"
    using r Inl by (auto simp: register_prefix_def Let_def split: sum.splits if_splits)
  with inv show ?thesis by simp
next
  case (Inr e)
  obtain key idx1 where ok: "entry_ok sha (key, e)" and
    i1: "idx1 = idx\<lparr>entries := pop_key key (entries idx) @ [(key, e)],
                current_size_tokens := current_size_tokens idx -
                  (case map_of (entries idx) key of None \<Rightarrow> 0 | Some p \<Rightarrow> prefix_length p) + prefix_length e\<rparr>"
    and idx': "idx' = evict_if_needed idx1"
    using register_returns [OF r [unfolded Inr]] by metis
  have d: "distinct (map fst (entries idx1))" and okall: "\<forall>ke \<in> set (entries idx1). entry_ok sha ke"
    using inv ok by (auto simp: i1 index_inv_def distinct_pop_key set_pop_key)
  have "current_size_tokens idx1 = total_length (entries idx1)"
    using inv total_length_pop [of "entries idx" key] by (auto simp: i1 index_inv_def split: option.splits)
  from evict_if_needed_spec [OF this] obtain dropped where
    "entries idx1 = dropped @ entries idx'" "current_size_tokens idx' = total_length (entries idx')"
    "max_size_tokens idx' = max_size_tokens idx1"
    "\<forall>m. max_size_tokens idx1 = Some m \<longrightarrow> current_size_tokens idx' \<le> max 0 m" unfolding idx' by blast
  with d okall show ?thesis by (simp add: index_inv_def)
qed


section \<open>Lookup\<close>

definition covers :: "'m prefix_index \<Rightarrow> int list \<Rightarrow> nat \<Rightarrow> nat \<Rightarrow> bool" where
  "covers idx query min_len n \<longleftrightarrow>
     min_len \<le> n \<and> 0 < n \<and> n \<le> length query \<and> (\<exists>(k, e) \<in> set (entries idx). token_prefix e = take n query)"

lemma entry_at_key:
  assumes "index_inv sha idx" and "(k, e) \<in> set (entries idx)"
  shows "map_of (entries idx) (sha (json_ints (token_prefix e))) = Some e"
  using assms by (auto simp: index_inv_def entry_ok_def)

lemma lookup_loop_spec:
  assumes inv: "index_inv sha idx"
  shows "0 < min_len \<Longrightarrow> n \<le> length query \<Longrightarrow>
    (case lookup_loop sha query min_len n idx of
       (Inr None, idx') \<Rightarrow> idx' = idx \<and> (\<forall>i \<le> n. \<not> covers idx query min_len i)
     | (Inr (Some e), idx') \<Rightarrow>
         (\<exists>i \<le> n. covers idx query min_len i \<and> token_prefix e = take i query \<and>
            (\<forall>j. i < j \<and> j \<le> n \<longrightarrow> \<not> covers idx query min_len j)) \<and>
         (token_sha256 e, e) \<in> set (entries idx) \<and>
         idx' = idx\<lparr>entries := pop_key (token_sha256 e) (entries idx) @ [(token_sha256 e, e)]\<rparr>
     | (Inl err, idx') \<Rightarrow> False)"
proof (induction n)
  case 0
  then show ?case by (auto simp: covers_def)
next
  case (Suc n)
  let ?key = "sha (json_ints (take (Suc n) query))"
  have ne: "take (Suc n) query \<noteq> []" using Suc.prems by auto
  show ?case
  proof (cases "Suc n < min_len")
    case True
    then show ?thesis by (auto simp: covers_def)
  next
    case low: False
    show ?thesis
    proof (cases "\<exists>e. map_of (entries idx) ?key = Some e \<and> token_prefix e = take (Suc n) query")
      case True
      then obtain e where e: "map_of (entries idx) ?key = Some e" "token_prefix e = take (Suc n) query" by blast
      then have mem: "(?key, e) \<in> set (entries idx)" by (meson map_of_SomeD)
      then have sk: "token_sha256 e = ?key" using inv by (auto simp: index_inv_def entry_ok_def)
      have "covers idx query min_len (Suc n)" using low mem e(2) Suc.prems by (auto simp: covers_def)
      moreover have "lookup_loop sha query min_len (Suc n) idx =
          (Inr (Some e), idx\<lparr>entries := pop_key ?key (entries idx) @ [(?key, e)]\<rparr>)"
        using low e key_of_ints [OF ne, of sha] by simp
      ultimately show ?thesis using mem sk e(2) by (auto intro!: exI [of _ "Suc n"])
    next
      case False
      have "\<not> covers idx query min_len (Suc n)"
      proof
        assume "covers idx query min_len (Suc n)"
        then obtain k e where ke: "(k, e) \<in> set (entries idx)" "token_prefix e = take (Suc n) query"
          by (auto simp: covers_def)
        with entry_at_key [OF inv ke(1)] False show False by auto
      qed
      then have none: "\<not> covers idx query min_len j" if "j \<le> Suc n" "\<not> j \<le> n" for j
        using that by (metis le_SucE)
      have skip: "lookup_loop sha query min_len (Suc n) idx = lookup_loop sha query min_len n idx"
        using low False key_of_ints [OF ne, of sha] by (auto split: option.splits)
      show ?thesis unfolding skip using Suc none
        by (auto split: prod.splits sum.splits option.splits) (metis le_SucI not_less_eq_eq)+
    qed
  qed
qed

lemma requeue_inv:
  assumes "index_inv sha idx" and "map_of (entries idx) k = Some e"
  shows "index_inv sha (idx\<lparr>entries := pop_key k (entries idx) @ [(k, e)]\<rparr>)"
proof -
  have d: "distinct (map fst (entries idx))" using assms(1) by (simp add: index_inv_def)
  have "total_length (pop_key k (entries idx)) + prefix_length e = total_length (entries idx)"
    using total_length_pop [OF d, of k] assms(2) by simp
  moreover have "(k, e) \<in> set (entries idx)" using assms(2) by (rule map_of_SomeD)
  ultimately show ?thesis using assms d by (auto simp: index_inv_def distinct_pop_key set_pop_key)
qed

lemma lookup_inv:
  assumes inv: "index_inv sha idx" and r: "lookup_prefix sha ts mp idx = (res, idx')"
  shows "index_inv sha idx'"
proof (cases "normalize_tokens ts")
  case (Inl err)
  with r inv show ?thesis by (simp add: lookup_prefix_def)
next
  case (Inr query)
  from r have l: "lookup_loop sha query (nat (max 1 mp)) (length query) idx = (res, idx')" by (simp add: lookup_prefix_def Inr)
  have "0 < nat (max 1 mp)" by simp
  from lookup_loop_spec [OF inv this order_refl, of query] consider "idx' = idx"
    | e where "(token_sha256 e, e) \<in> set (entries idx)"
        "idx' = idx\<lparr>entries := pop_key (token_sha256 e) (entries idx) @ [(token_sha256 e, e)]\<rparr>"
    unfolding l by (auto split: sum.splits option.splits)
  then show ?thesis
  proof cases
    case 1 with inv show ?thesis by simp
  next
    case (2 e)
    have "distinct (map fst (entries idx))" using inv by (simp add: index_inv_def)
    then have "map_of (entries idx) (token_sha256 e) = Some e" using 2(1) by simp
    from requeue_inv [OF inv this] 2(2) show ?thesis by simp
  qed
qed

lemma remove_inv:
  assumes inv: "index_inv sha idx" and r: "remove_prefix sha ts idx = (res, idx')"
  shows "index_inv sha idx'"
proof -
  have d: "distinct (map fst (entries idx))" using inv by (simp add: index_inv_def)
  have nn: "0 \<le> prefix_length e" if "map_of (entries idx) k = Some e" for k e
    using inv map_of_SomeD [OF that] by (auto simp: index_inv_def entry_ok_def)
  have cut: "index_inv sha (idx\<lparr>entries := pop_key k (entries idx), current_size_tokens := current_size_tokens idx - prefix_length e\<rparr>)"
    if "map_of (entries idx) k = Some e" for k e
  proof -
    have "total_length (pop_key k (entries idx)) = total_length (entries idx) - prefix_length e"
      using total_length_pop [OF d, of k] that by simp
    with inv nn [OF that] show ?thesis by (auto simp: index_inv_def distinct_pop_key set_pop_key)
  qed
  show ?thesis using r inv cut by (auto simp: remove_prefix_def split: sum.splits option.splits)
qed

inductive index_reachable :: "(string \<Rightarrow> string) \<Rightarrow> 'm prefix_index \<Rightarrow> bool" for sha where
  init: "index_reachable sha (new_index m)"
| register: "index_reachable sha idx \<Longrightarrow> register_prefix sha ts h plen meta idx = (r, idx') \<Longrightarrow> index_reachable sha idx'"
| look: "index_reachable sha idx \<Longrightarrow> lookup_prefix sha ts mp idx = (q, idx') \<Longrightarrow> index_reachable sha idx'"
| remove: "index_reachable sha idx \<Longrightarrow> remove_prefix sha ts idx = (q, idx') \<Longrightarrow> index_reachable sha idx'"

lemma index_reachable_inv: "index_reachable sha idx \<Longrightarrow> index_inv sha idx"
proof (induction rule: index_reachable.induct)
  case (init m)
  then show ?case by (simp add: new_index_def index_inv_def)
qed (auto intro: register_prefix_inv lookup_inv remove_inv)

text \<open>The index as a prefix matcher: the match of a lookup with the default minimum.\<close>

definition index_best :: "(string \<Rightarrow> string) \<Rightarrow> 'm prefix_index \<Rightarrow> int list \<Rightarrow> (int list \<times> nat) option" where
  "index_best sha idx query =
     (case fst (lookup_prefix sha (map TInt query) 1 idx) of
        Inr (Some e) \<Rightarrow> Some (token_prefix e, nat (prefix_length e)) | _ \<Rightarrow> None)"

definition checked_best :: "(string \<Rightarrow> string) \<Rightarrow> 'm prefix_index \<Rightarrow> int list \<Rightarrow> (int list \<times> nat) option" where
  "checked_best sha idx query = (if index_inv sha idx then index_best sha idx query else None)"

lemma lookup_sound:
  assumes inv: "index_inv sha idx" and ne: "query \<noteq> []"
    and r: "lookup_prefix sha (map TInt query) mp idx = (res, idx')"
  shows "case res of
      Inr (Some e) \<Rightarrow> (\<exists>i. covers idx query (nat (max 1 mp)) i \<and> token_prefix e = take i query \<and> prefix_length e = int i \<and>
          (\<forall>j > i. \<not> covers idx query (nat (max 1 mp)) j)) \<and> (token_sha256 e, e) \<in> set (entries idx) \<and>
          idx' = idx\<lparr>entries := pop_key (token_sha256 e) (entries idx) @ [(token_sha256 e, e)]\<rparr>
    | Inr None \<Rightarrow> idx' = idx \<and> (\<forall>j. \<not> covers idx query (nat (max 1 mp)) j)
    | Inl err \<Rightarrow> False"
proof -
  have l: "lookup_loop sha query (nat (max 1 mp)) (length query) idx = (res, idx')"
    using r ne by (simp add: lookup_prefix_def normalize_tokens_def)
  have far: "\<not> covers idx query (nat (max 1 mp)) j" if "\<not> j \<le> length query" for j using that by (simp add: covers_def)
  have pl: "prefix_length e = int i" if "(token_sha256 e, e) \<in> set (entries idx)" "token_prefix e = take i query" "i \<le> length query" for e i
    using inv that by (auto simp: index_inv_def entry_ok_def min_def)
  have "0 < nat (max 1 mp)" by simp
  from lookup_loop_spec [OF inv this order_refl, of query, unfolded l] far pl
  show ?thesis by (auto split: sum.splits option.splits) (metis not_le)+
qed

interpretation index_matcher: prefix_matcher
  "\<lambda>idx. token_prefix ` snd ` set (entries idx)" "checked_best sha" for sha
proof (unfold_locales, goal_cases)
  case (1 idx q ts n)
  then have inv: "index_inv sha idx" and b: "index_best sha idx q = Some (ts, n)" by (simp_all add: checked_best_def split: if_splits)
  have ne: "q \<noteq> []" using b by (auto simp: index_best_def lookup_prefix_def normalize_tokens_def)
  obtain res idx' where r: "lookup_prefix sha (map TInt q) 1 idx = (res, idx')" by fastforce
  from b obtain e where e: "res = Inr (Some e)" "ts = token_prefix e" "n = nat (prefix_length e)"
    by (auto simp: index_best_def r split: sum.splits option.splits)
  from lookup_sound [OF inv ne r] e obtain i where "covers idx q 1 i" "token_prefix e = take i q" "prefix_length e = int i"
    "(token_sha256 e, e) \<in> set (entries idx)" by auto
  then show ?case using e by (force simp: covers_def image_iff)
qed


section \<open>Properties of the index\<close>

text \<open>
  After any sequence of registrations, lookups and removals (raising or not) the index has one
  entry per key, every entry is filed under the hash of its own tokens, the token counter equals the
  sum of the entry lengths, and with a limit the counter never exceeds it: eviction runs to the bound.
  The hash function is arbitrary.
\<close>
theorem index_accounting:
  assumes "index_reachable sha idx"
  shows "distinct (map fst (entries idx)) \<and>
     (\<forall>(k, e) \<in> set (entries idx). k = sha (json_ints (token_prefix e)) \<and> prefix_length e = int (length (token_prefix e))) \<and>
     current_size_tokens idx = (\<Sum>(k, e) \<leftarrow> entries idx. int (length (token_prefix e))) \<and>
     (\<forall>m. max_size_tokens idx = Some m \<longrightarrow> current_size_tokens idx \<le> max 0 m)"
proof -
  have inv: "index_inv sha idx" by (rule index_reachable_inv [OF assms])
  then have "total_length (entries idx) = (\<Sum>(k, e) \<leftarrow> entries idx. int (length (token_prefix e)))"
    unfolding total_length_def by (intro arg_cong [of _ _ sum_list] map_cong refl) (auto simp: index_inv_def entry_ok_def)
  then show ?thesis using inv by (auto simp: index_inv_def entry_ok_def)
qed

text \<open>
  C13 A lookup on a reachable index returns the longest registered prefix of the query of at least
  the minimum length, and \<open>None\<close> exactly when there is none; it never raises for a non-empty
  query, never changes which entries are present, and makes the returned entry the most recently used
  one. A hash collision cannot produce a wrong match.
\<close>
theorem lookup_longest_prefix:
  assumes "index_reachable sha idx" and "query \<noteq> []"
    and "lookup_prefix sha (map TInt query) mp idx = (res, idx')"
  shows "(\<exists>found. res = Inr found \<and>
      (\<forall>e. found = Some e \<longrightarrow>
         (\<exists>n. nat (max 1 mp) \<le> n \<and> n \<le> length query \<and> token_prefix e = take n query \<and>
            (\<forall>(k, e') \<in> set (entries idx). \<forall>m. nat (max 1 mp) \<le> m \<longrightarrow> m \<le> length query \<longrightarrow>
               token_prefix e' = take m query \<longrightarrow> m \<le> n)) \<and>
         snd (last (entries idx')) = e) \<and>
      (found = None \<longrightarrow>
         (\<forall>(k, e') \<in> set (entries idx). \<forall>m. nat (max 1 mp) \<le> m \<longrightarrow> m \<le> length query \<longrightarrow> token_prefix e' \<noteq> take m query))) \<and>
     mset (entries idx') = mset (entries idx)"
proof -
  have inv: "index_inv sha idx" by (rule index_reachable_inv [OF assms(1)])
  have d: "distinct (map fst (entries idx))" using inv by (simp add: index_inv_def)
  note spec = lookup_sound [OF inv assms(2,3)]
  have hit: "covers idx query (nat (max 1 mp)) m" if "(k, e') \<in> set (entries idx)" "nat (max 1 mp) \<le> m"
    "m \<le> length query" "token_prefix e' = take m query" for k e' m
    using that by (auto simp: covers_def)
  show ?thesis
  proof (cases res)
    case (Inl err) with spec show ?thesis by simp
  next
    case (Inr found)
    show ?thesis
    proof (cases found)
      case None
      with spec Inr hit show ?thesis by auto
    next
      case (Some e)
      with spec Inr obtain n where n: "covers idx query (nat (max 1 mp)) n" "token_prefix e = take n query"
        "\<forall>j > n. \<not> covers idx query (nat (max 1 mp)) j" "(token_sha256 e, e) \<in> set (entries idx)"
        "idx' = idx\<lparr>entries := pop_key (token_sha256 e) (entries idx) @ [(token_sha256 e, e)]\<rparr>" by auto
      have "mset (entries idx') = mset (entries idx)"
        using pop_key_eq_remove1 [OF d, of "token_sha256 e" e] n(4) d by (simp add: n(5))
      moreover have "m \<le> n" if "(k, e') \<in> set (entries idx)" "nat (max 1 mp) \<le> m"
          "m \<le> length query" "token_prefix e' = take m query" for k e' m
        using hit [OF that] n(3) by (meson not_le)
      moreover have "nat (max 1 mp) \<le> n" "n \<le> length query" using n(1) by (simp_all add: covers_def)
      moreover have "snd (last (entries idx')) = e" by (simp add: n(5))
      ultimately show ?thesis using Inr Some n(2) by blast
    qed
  qed
qed

text \<open>
  Reusing the cached rows of the match and computing only the rest gives exactly the rows a full
  prefill would: whatever the per-position row is, as long as it depends on the tokens up to that
  position only.
\<close>
theorem index_reuse_is_recompute:
  assumes "index_reachable sha idx" and "index_best sha idx query = Some (ts, n)"
  shows "kv_rows row ts n @ map (\<lambda>i. row (take (Suc i) query)) [n..<length query] = kv_rows row query (length query)"
proof -
  have "checked_best sha idx query = Some (ts, n)"
    using assms(2) index_reachable_inv [OF assms(1)] by (simp add: checked_best_def)
  then show ?thesis by (rule index_matcher.reuse_is_recompute)
qed

lemma evict_last_fits:
  "prefix_length e \<le> m \<Longrightarrow> snd (evict_loop m (total_length es + prefix_length e) (es @ [(k, e)])) \<noteq> []"
proof (induction es)
  case (Cons ke es)
  obtain k' e' where ke: "ke = (k', e')" by fastforce
  have "total_length (ke # es) + prefix_length e - prefix_length e' = total_length es + prefix_length e" by (simp add: ke)
  with Cons show ?case by (simp add: ke)
qed simp

text \<open>
  Registering a prefix that fits the limit is never undone by the eviction it triggers: the entry
  is present, as the most recently used one, and looking up the same tokens returns it.
\<close>
theorem register_then_lookup:
  assumes "index_reachable sha idx" and "tokens \<noteq> []"
    and "\<forall>m. max_size_tokens idx = Some m \<longrightarrow> int (length tokens) \<le> m"
    and "register_prefix sha (map TInt tokens) h None meta idx = (res, idx')"
  shows "\<exists>e. res = Inr e \<and> handle e = h \<and> token_prefix e = tokens \<and> snd (last (entries idx')) = e \<and>
     fst (lookup_prefix sha (map TInt tokens) 1 idx') = Inr (Some e)"
proof -
  have inv: "index_inv sha idx" and inv': "index_inv sha idx'"
    using index_reachable_inv [OF assms(1)] register_prefix_inv [OF _ assms(4)] by auto
  have "res \<noteq> Inl x" for x
    using assms(2,4) by (auto simp: register_prefix_def normalize_tokens_def Let_def)
  then obtain e where e: "res = Inr e" by (cases res) auto
  have tp: "token_prefix e = tokens"
    using assms(2,4) e by (auto simp: register_prefix_def normalize_tokens_def Let_def)
  obtain key idx1 where ok: "entry_ok sha (key, e)" "handle e = h"
    and i1: "idx1 = idx\<lparr>entries := pop_key key (entries idx) @ [(key, e)],
                current_size_tokens := current_size_tokens idx -
                  (case map_of (entries idx) key of None \<Rightarrow> 0 | Some p \<Rightarrow> prefix_length p) + prefix_length e\<rparr>"
    and idx': "idx' = evict_if_needed idx1"
    using register_returns [OF assms(4) [unfolded e]] by metis
  have cur: "current_size_tokens idx1 = total_length (entries idx1)"
    using inv total_length_pop [of "entries idx" key] by (auto simp: i1 index_inv_def split: option.splits)
  have keep: "entries idx' \<noteq> []"
  proof (cases "max_size_tokens idx1")
    case None
    then show ?thesis by (simp add: idx' evict_if_needed_def i1)
  next
    case (Some m)
    have "int (length tokens) \<le> m" using assms(3) Some by (simp add: i1)
    moreover have "prefix_length e = int (length tokens)" using ok(1) tp by (simp add: entry_ok_def)
    ultimately have fits: "total_length [(key, e)] \<le> m" by simp
    have "snd (evict_loop m (total_length es + total_length [(key, e)]) (es @ [(key, e)])) \<noteq> []" for es
      using fits evict_last_fits [of e m es key] by simp
    moreover have e1: "entries idx1 = pop_key key (entries idx) @ [(key, e)]" by (simp add: i1)
    ultimately have "snd (evict_loop m (current_size_tokens idx1) (entries idx1)) \<noteq> []" using cur by simp
    then show ?thesis by (auto simp: idx' evict_if_needed_def Some split: prod.splits)
  qed
  from evict_if_needed_spec [OF cur] obtain dropped where "entries idx1 = dropped @ entries idx'" unfolding idx' by blast
  then have "last (entries idx1) = last (entries idx')" using keep by simp
  then have la: "last (entries idx') = (key, e)" by (simp add: i1)
  then have mem: "(key, e) \<in> set (entries idx')" using keep by (metis last_in_set)
  have k: "key = sha (json_ints tokens)" using ok(1) tp by (simp add: entry_ok_def)
  have "lookup_loop sha tokens 1 (length tokens) idx' =
      (Inr (Some e), idx'\<lparr>entries := pop_key key (entries idx') @ [(key, e)]\<rparr>)"
  proof -
    obtain n where n: "length tokens = Suc n" using assms(2) by (cases tokens) auto
    have "map_of (entries idx') key = Some e" using inv' mem by (simp add: index_inv_def)
    then show ?thesis using assms(2) tp k key_of_ints [of tokens sha] by (simp add: n del: key_of_ints)
  qed
  then show ?thesis using e ok(2) tp la assms(2) by (simp add: lookup_prefix_def normalize_tokens_def)
qed

definition demo_index :: "unit prefix_index" where
  "demo_index = snd (register_prefix (\<lambda>s. s) (map TInt [4, 5]) 1 None () (new_index (Some 3)))"

lemma demo_index_reachable: "index_reachable (\<lambda>s. s) demo_index"
proof -
  obtain r idx' where r: "register_prefix (\<lambda>s. s) (map TInt [4, 5]) 1 None () (new_index (Some 3)) = (r, idx')" by fastforce
  have "index_reachable (\<lambda>s. s) idx'" by (rule index_reachable.register [OF index_reachable.init r])
  then show ?thesis unfolding demo_index_def r by simp
qed

theorem index_accounting_witness:
  "current_size_tokens demo_index = (\<Sum>(k, e) \<leftarrow> entries demo_index. int (length (token_prefix e)))"
  using index_accounting [OF demo_index_reachable] by blast

theorem lookup_longest_prefix_witness:
  "mset (entries (snd (lookup_prefix (\<lambda>s. s) (map TInt [4, 5, 6]) 1 demo_index))) = mset (entries demo_index)"
  using lookup_longest_prefix [OF demo_index_reachable, of "[4, 5, 6]" 1] by (metis list.distinct(1) prod.collapse)

theorem index_reuse_is_recompute_witness:
  "kv_rows sum_list [4, 5] 2 @ map (\<lambda>i. sum_list (take (Suc i) [4, 5, 6])) [2..<3] = kv_rows sum_list [4, 5, 6 :: int] 3"
proof -
  have "index_best (\<lambda>s. s) demo_index [4, 5, 6] = Some ([4, 5], 2)" by code_simp
  from index_reuse_is_recompute [OF demo_index_reachable this, of sum_list] show ?thesis by (simp add: eval_nat_numeral)
qed

theorem register_then_lookup_witness:
  "\<exists>e. handle e = 9 \<and> fst (lookup_prefix (\<lambda>s. s) (map TInt [7, 8, 9]) 1
      (snd (register_prefix (\<lambda>s. s) (map TInt [7, 8, 9]) 9 None () demo_index))) = Inr (Some e)"
proof -
  obtain r idx' where r: "register_prefix (\<lambda>s. s) (map TInt [7, 8, 9]) 9 None () demo_index = (r, idx')" by fastforce
  have m: "max_size_tokens demo_index = Some 3" by code_simp
  from register_then_lookup [OF demo_index_reachable _ _ r] m show ?thesis unfolding r by auto
qed

end
