(* ===== verification/PrefixReuse.thy ===== *)
theory PrefixReuse
  imports PrefixIndex
begin

text \<open>
  The request planner of \<^verbatim>\<open>mvp_capabilities/kv_prefix_reuse.py\<close> and the prefill metadata of
  \<^verbatim>\<open>client/kv_prefix_reuse.py\<close>. Reports are records with the computed fields of the returned
  dictionaries; constant string fields (source, claim boundary, next steps) are left out. SHA-256 is
  the argument \<open>sha\<close> again.
\<close>

section \<open>The planner\<close>

record prefix_request =
  request_id :: string
  req_token_ids :: "int list"

record cache_entry =
  cache_id :: string
  cache_token_ids :: "int list"

definition make_prefix_request :: "string \<Rightarrow> int list \<Rightarrow> prefix_request result" where
  "make_prefix_request rid ts =
     (if rid = [] then Inl ValueError else if ts = [] then Inl ValueError
      else Inr \<lparr>request_id = rid, req_token_ids = ts\<rparr>)"

definition make_cache_entry :: "string \<Rightarrow> int list \<Rightarrow> cache_entry result" where
  "make_cache_entry cid ts =
     (if cid = [] then Inl ValueError else if ts = [] then Inl ValueError
      else Inr \<lparr>cache_id = cid, cache_token_ids = ts\<rparr>)"

definition prefix_hash :: "(string \<Rightarrow> string) \<Rightarrow> int list \<Rightarrow> string" where
  "prefix_hash sha ts = take 16 (sha (join_with CHR '','' (map show_int ts)))"

fun common_prefix_len :: "int list \<Rightarrow> int list \<Rightarrow> nat" where
  "common_prefix_len (x # xs) (y # ys) = (if x \<noteq> y then 0 else Suc (common_prefix_len xs ys))"
| "common_prefix_len _ _ = 0"

fun best_prefix_loop :: "int list \<Rightarrow> cache_entry list \<Rightarrow> cache_entry option \<times> nat \<Rightarrow> cache_entry option \<times> nat" where
  "best_prefix_loop req [] best = best"
| "best_prefix_loop req (e # es) (best_entry, best_len) =
     (let candidate_len = common_prefix_len req (cache_token_ids e) in
      if best_len < candidate_len then best_prefix_loop req es (Some e, candidate_len)
      else best_prefix_loop req es (best_entry, best_len))"

definition find_best_prefix :: "int list \<Rightarrow> cache_entry list \<Rightarrow> int \<Rightarrow> cache_entry option \<times> nat" where
  "find_best_prefix req es min_reuse =
     (let (best_entry, best_len) = best_prefix_loop req es (None, 0) in
      if int best_len < min_reuse then (None, 0) else (best_entry, best_len))"

fun validate_unique :: "string set \<Rightarrow> prefix_request list \<Rightarrow> unit result" where
  "validate_unique seen [] = Inr ()"
| "validate_unique seen (r # rs) =
     (if request_id r \<in> seen then Inl ValueError else validate_unique (insert (request_id r) seen) rs)"

record plan_item =
  item_request_id :: string
  matched_cache_id :: "string option"
  reused_token_count :: nat
  reused_token_ids :: "int list"
  prefill_token_ids :: "int list"
  reconstructed_token_ids :: "int list"
  reconstruction_matches :: bool

record plan_state =
  cache_entries :: "cache_entry list"
  plan_items :: "plan_item list"
  total_original :: nat
  total_prefill :: nat
  saved_prefill :: nat

definition plan_request :: "int \<Rightarrow> prefix_request \<Rightarrow> plan_state \<Rightarrow> plan_state result" where
  "plan_request min_reuse r s =
     (let (matched, prefix_len) = find_best_prefix (req_token_ids r) (cache_entries s) min_reuse;
          reused = take prefix_len (req_token_ids r);
          suffix = drop prefix_len (req_token_ids r);
          reconstructed = reused @ suffix;
          item = \<lparr>item_request_id = request_id r, matched_cache_id = map_option cache_id matched,
                  reused_token_count = prefix_len, reused_token_ids = reused, prefill_token_ids = suffix,
                  reconstructed_token_ids = reconstructed,
                  reconstruction_matches = (reconstructed = req_token_ids r)\<rparr>
      in (case make_cache_entry (request_id r @ '':full'') (req_token_ids r) of
            Inl e \<Rightarrow> Inl e
          | Inr ce \<Rightarrow> Inr \<lparr>cache_entries = cache_entries s @ [ce], plan_items = plan_items s @ [item],
                           total_original = total_original s + length (req_token_ids r),
                           total_prefill = total_prefill s + length suffix,
                           saved_prefill = saved_prefill s + prefix_len\<rparr>))"

fun plan_loop :: "int \<Rightarrow> prefix_request list \<Rightarrow> plan_state \<Rightarrow> plan_state result" where
  "plan_loop min_reuse [] s = Inr s"
| "plan_loop min_reuse (r # rs) s =
     (case plan_request min_reuse r s of Inl e \<Rightarrow> Inl e | Inr s' \<Rightarrow> plan_loop min_reuse rs s')"

record reuse_report =
  verification_passed :: bool
  request_count :: nat
  min_reuse_tokens :: int
  total_original_prefill_tokens :: nat
  total_planned_prefill_tokens :: nat
  saved_prefill_tokens :: nat
  reuse_event_count :: nat
  all_reconstructions_match :: bool
  cache_entry_count_after_plan :: nat
  cache_token_hashes :: "string \<rightharpoonup> string"
  plan :: "plan_item list"

definition plan_kv_prefix_reuse ::
  "(string \<Rightarrow> string) \<Rightarrow> prefix_request list \<Rightarrow> cache_entry list \<Rightarrow> int \<Rightarrow> reuse_report result" where
  "plan_kv_prefix_reuse sha requests initial min_reuse =
     (if min_reuse < 1 then Inl ValueError
      else (case validate_unique {} requests of
         Inl e \<Rightarrow> Inl e
       | Inr _ \<Rightarrow>
           (case plan_loop min_reuse requests
                  \<lparr>cache_entries = initial, plan_items = [], total_original = 0, total_prefill = 0, saved_prefill = 0\<rparr> of
              Inl e \<Rightarrow> Inl e
            | Inr s \<Rightarrow>
                let all_match = list_all reconstruction_matches (plan_items s) in
                Inr \<lparr>verification_passed = all_match, request_count = length requests, min_reuse_tokens = min_reuse,
                     total_original_prefill_tokens = total_original s, total_planned_prefill_tokens = total_prefill s,
                     saved_prefill_tokens = saved_prefill s,
                     reuse_event_count = length (filter (\<lambda>i. reused_token_count i \<noteq> 0) (plan_items s)),
                     all_reconstructions_match = all_match, cache_entry_count_after_plan = length (cache_entries s),
                     cache_token_hashes =
                       foldl (\<lambda>d e. d(cache_id e \<mapsto> prefix_hash sha (cache_token_ids e))) Map.empty (cache_entries s),
                     plan = plan_items s\<rparr>)))"

section \<open>Prefill metadata on the client\<close>

text \<open>
  An input is a tensor (its rank and rows), a sequence of rows or something else; a row is a tensor
  or sequence of elements, or something else; an element may hide its value behind \<open>.item()\<close>.
\<close>

datatype raw_token = Plain py_token | HasItem py_token
datatype raw_row = RowTokens "raw_token list" | RowOther
datatype raw_input = InTensor nat "py_token list list" | InRows "raw_row list" | InOther

fun raw_value :: "raw_token \<Rightarrow> py_token" where
  "raw_value (Plain t) = t"
| "raw_value (HasItem t) = t"

fun row_tokens :: "raw_row \<Rightarrow> int list result" where
  "row_tokens RowOther = Inl TypeError"
| "row_tokens (RowTokens ts) =
     (case int_tokens (map raw_value ts) of None \<Rightarrow> Inl TypeError
      | Some ns \<Rightarrow> if ns = [] then Inl ValueError else Inr ns)"

fun rows_tokens :: "raw_row list \<Rightarrow> int list list result" where
  "rows_tokens [] = Inr []"
| "rows_tokens (r # rs) =
     (case row_tokens r of Inl e \<Rightarrow> Inl e
      | Inr x \<Rightarrow> (case rows_tokens rs of Inl e \<Rightarrow> Inl e | Inr xs \<Rightarrow> Inr (x # xs)))"

definition two_rows :: "int list list result \<Rightarrow> int list list result" where
  "two_rows r = (case r of Inl e \<Rightarrow> Inl e | Inr rows \<Rightarrow> if length rows < 2 then Inl ValueError else Inr rows)"

fun normalize_token_rows :: "raw_input \<Rightarrow> int list list result" where
  "normalize_token_rows (InTensor rank rows) =
     (if rank \<noteq> 2 then Inl ValueError
      else two_rows (rows_tokens (map (\<lambda>r. RowTokens (map Plain r)) rows)))"
| "normalize_token_rows InOther = Inl TypeError"
| "normalize_token_rows (InRows rows) = two_rows (rows_tokens rows)"

fun common_prefix_loop :: "nat \<Rightarrow> nat \<Rightarrow> int list list \<Rightarrow> int list \<Rightarrow> int list" where
  "common_prefix_loop 0 idx rows prefix = prefix"
| "common_prefix_loop (Suc n) idx rows prefix =
     (let token = hd rows ! idx in
      if list_all (\<lambda>row. row ! idx = token) (tl rows) then common_prefix_loop n (Suc idx) rows (prefix @ [token])
      else prefix)"

definition common_prefix :: "int list list \<Rightarrow> int list" where
  "common_prefix rows = (if rows = [] then [] else common_prefix_loop (Min (length ` set rows)) 0 rows [])"

record prefill_request =
  pf_request_id :: string
  prefix_token_ids :: "int list"
  suffix_token_ids :: "int list"
  prefill_token_count :: nat
  reusable_prefix_token_count :: nat

record prefill_event =
  ev_request_count :: nat
  common_prefix_token_ids :: "int list"
  common_prefix_token_count :: nat
  ev_requests :: "prefill_request list"
  same_prefix_varied_suffix_proven :: bool

definition build_prefill_metadata_event :: "raw_input \<Rightarrow> string list option \<Rightarrow> prefill_event result" where
  "build_prefill_metadata_event input_ids request_ids =
     (case normalize_token_rows input_ids of
        Inl e \<Rightarrow> Inl e
      | Inr rows \<Rightarrow>
          let prefix = common_prefix rows in
          if prefix = [] then Inl ValueError
          else
            let ids = (case request_ids of None \<Rightarrow> map (\<lambda>i. ''request-'' @ show_nat i) [0..<length rows] | Some ids \<Rightarrow> ids) in
            if length ids \<noteq> length rows then Inl ValueError
            else
              Inr \<lparr>ev_request_count = length rows, common_prefix_token_ids = prefix,
                   common_prefix_token_count = length prefix,
                   ev_requests = map (\<lambda>(rid, row).
                      \<lparr>pf_request_id = rid, prefix_token_ids = prefix, suffix_token_ids = drop (length prefix) row,
                       prefill_token_count = length row, reusable_prefix_token_count = length prefix\<rparr>) (zip ids rows),
                   same_prefix_varied_suffix_proven =
                     (length rows \<le> card (set (map (drop (length prefix)) rows)))\<rparr>)"


section \<open>Longest match\<close>

lemma common_prefix_len_spec:
  "common_prefix_len xs ys \<le> length xs \<and> common_prefix_len xs ys \<le> length ys \<and>
   take (common_prefix_len xs ys) xs = take (common_prefix_len xs ys) ys"
  by (induction xs ys rule: common_prefix_len.induct) auto

lemma common_prefix_len_maximal:
  "n \<le> length xs \<Longrightarrow> n \<le> length ys \<Longrightarrow> take n xs = take n ys \<Longrightarrow> n \<le> common_prefix_len xs ys"
proof (induction xs ys arbitrary: n rule: common_prefix_len.induct)
  case (1 x xs y ys)
  then show ?case by (cases n) auto
qed auto

lemma best_prefix_loop_spec:
  "case best of (b, n) \<Rightarrow> (b = None \<longleftrightarrow> n = 0) \<and> (\<forall>e. b = Some e \<longrightarrow> e \<in> S \<and> n = common_prefix_len req (cache_token_ids e)) \<Longrightarrow>
   (case best_prefix_loop req es best of (b', n') \<Rightarrow>
      (b' = None \<longleftrightarrow> n' = 0) \<and> (\<forall>e. b' = Some e \<longrightarrow> e \<in> S \<union> set es \<and> n' = common_prefix_len req (cache_token_ids e)) \<and>
      snd best \<le> n' \<and> (\<forall>e \<in> set es. common_prefix_len req (cache_token_ids e) \<le> n'))"
proof (induction req es best arbitrary: S rule: best_prefix_loop.induct)
  case (2 req e es b n)
  show ?case
  proof (cases "n < common_prefix_len req (cache_token_ids e)")
    case True
    with 2(1) [OF refl True, of "insert e S"] show ?thesis by (auto simp: Let_def split: prod.splits)
  next
    case False
    with 2(2) [OF refl False, of S] 2(3) show ?thesis by (auto simp: Let_def split: prod.splits)
  qed
qed (auto split: prod.splits)

lemma find_best_prefix_spec:
  assumes "find_best_prefix req es m = (b, n)" and "1 \<le> m"
  shows "(b = None \<longleftrightarrow> n = 0)"
    and "b = Some e \<Longrightarrow> e \<in> set es \<and> n = common_prefix_len req (cache_token_ids e) \<and> m \<le> int n"
    and "n \<le> length req"
    and "e \<in> set es \<Longrightarrow> m \<le> int (common_prefix_len req (cache_token_ids e)) \<Longrightarrow> common_prefix_len req (cache_token_ids e) \<le> n"
proof -
  obtain b' n' where r: "best_prefix_loop req es (None, 0) = (b', n')" by fastforce
  from best_prefix_loop_spec [where best = "(None, 0)" and S = "{}" and req = req and es = es] r
  have s: "b' = None \<longleftrightarrow> n' = 0" "\<forall>e. b' = Some e \<longrightarrow> e \<in> set es \<and> n' = common_prefix_len req (cache_token_ids e)"
    "\<forall>e \<in> set es. common_prefix_len req (cache_token_ids e) \<le> n'" by auto
  have bn: "(b, n) = (if int n' < m then (None, 0) else (b', n'))" using assms(1) by (simp add: find_best_prefix_def r)
  show "(b = None \<longleftrightarrow> n = 0)" using bn s(1) by (auto split: if_splits)
  show "e \<in> set es \<and> n = common_prefix_len req (cache_token_ids e) \<and> m \<le> int n" if "b = Some e"
    using that bn s(2) by (auto split: if_splits)
  show "n \<le> length req"
  proof (cases b)
    case None then show ?thesis using bn s(1) by (auto split: if_splits)
  next
    case (Some e) then show ?thesis using bn s(2) common_prefix_len_spec [of req] by (auto split: if_splits)
  qed
  show "common_prefix_len req (cache_token_ids e) \<le> n" if e: "e \<in> set es" "m \<le> int (common_prefix_len req (cache_token_ids e))"
  proof -
    have "common_prefix_len req (cache_token_ids e) \<le> n'" using s(3) e(1) by blast
    then show ?thesis using e(2) bn by (auto split: if_splits)
  qed
qed

text \<open>The planner's search is a prefix matcher too.\<close>

definition planner_best :: "int \<Rightarrow> cache_entry list \<Rightarrow> int list \<Rightarrow> (int list \<times> nat) option" where
  "planner_best m es req =
     (case find_best_prefix req es (max 1 m) of (Some e, n) \<Rightarrow> Some (cache_token_ids e, n) | (None, n) \<Rightarrow> None)"

interpretation planner_matcher: prefix_matcher "\<lambda>es. cache_token_ids ` set es" "planner_best m" for m
proof (unfold_locales, goal_cases)
  case (1 es q ts n)
  then obtain e where f: "find_best_prefix q es (max 1 m) = (Some e, n)" "ts = cache_token_ids e"
    by (auto simp: planner_best_def split: prod.splits option.splits)
  have m: "1 \<le> max 1 m" by simp
  have e: "e \<in> set es" "n = common_prefix_len q (cache_token_ids e)" "0 < n"
    using find_best_prefix_spec(1,2) [OF f(1) m] by auto
  then show ?case using f(2) common_prefix_len_spec [of q "cache_token_ids e"] by simp
qed

definition item_ok :: "int \<Rightarrow> prefix_request \<Rightarrow> cache_entry list \<Rightarrow> plan_item \<Rightarrow> bool" where
  "item_ok m r es i \<longleftrightarrow>
     item_request_id i = request_id r \<and> reconstruction_matches i \<and>
     reused_token_ids i @ prefill_token_ids i = req_token_ids r \<and>
     length (reused_token_ids i) = reused_token_count i \<and>
     (0 < reused_token_count i \<longrightarrow> m \<le> int (reused_token_count i) \<and>
        (\<exists>e \<in> set es. take (reused_token_count i) (cache_token_ids e) = reused_token_ids i)) \<and>
     (\<forall>e \<in> set es. \<forall>n. m \<le> int n \<longrightarrow> n \<le> length (req_token_ids r) \<longrightarrow> n \<le> length (cache_token_ids e) \<longrightarrow>
        take n (req_token_ids r) = take n (cache_token_ids e) \<longrightarrow> n \<le> reused_token_count i)"

definition full_entry :: "prefix_request \<Rightarrow> cache_entry" where
  "full_entry r = \<lparr>cache_id = request_id r @ '':full'', cache_token_ids = req_token_ids r\<rparr>"

lemma plan_request_ok:
  assumes "req_token_ids r \<noteq> []" and "1 \<le> m"
  obtains i where "item_ok m r (cache_entries s) i"
    "plan_request m r s = Inr \<lparr>cache_entries = cache_entries s @ [full_entry r], plan_items = plan_items s @ [i],
       total_original = total_original s + length (req_token_ids r),
       total_prefill = total_prefill s + length (prefill_token_ids i),
       saved_prefill = saved_prefill s + reused_token_count i\<rparr>"
proof -
  obtain b n where f: "find_best_prefix (req_token_ids r) (cache_entries s) m = (b, n)" by fastforce
  define i where "i = \<lparr>item_request_id = request_id r, matched_cache_id = map_option cache_id b,
                  reused_token_count = n, reused_token_ids = take n (req_token_ids r),
                  prefill_token_ids = drop n (req_token_ids r), reconstructed_token_ids = req_token_ids r,
                  reconstruction_matches = True\<rparr>"
  note spec = find_best_prefix_spec [OF f assms(2)]
  have hit: "m \<le> int n \<and> (\<exists>e \<in> set (cache_entries s). take n (cache_token_ids e) = take n (req_token_ids r))" if "0 < n"
  proof -
    have "b \<noteq> None" using spec(1) that by auto
    then obtain e where e: "b = Some e" by blast
    have "n = common_prefix_len (req_token_ids r) (cache_token_ids e)" "e \<in> set (cache_entries s)" "m \<le> int n"
      using spec(2) [OF e] by simp_all
    with common_prefix_len_spec [of "req_token_ids r" "cache_token_ids e"] show ?thesis by auto
  qed
  have longest: "k \<le> n" if "e \<in> set (cache_entries s)" "m \<le> int k" "k \<le> length (req_token_ids r)"
    "k \<le> length (cache_token_ids e)" "take k (req_token_ids r) = take k (cache_token_ids e)" for e k
  proof -
    have "k \<le> common_prefix_len (req_token_ids r) (cache_token_ids e)" by (rule common_prefix_len_maximal [OF that(3-5)])
    with spec(4) [OF that(1)] that(2) show ?thesis by linarith
  qed
  have "item_ok m r (cache_entries s) i"
    using hit longest spec(3) by (simp add: item_ok_def i_def)
  moreover have "plan_request m r s = Inr \<lparr>cache_entries = cache_entries s @ [full_entry r], plan_items = plan_items s @ [i],
       total_original = total_original s + length (req_token_ids r),
       total_prefill = total_prefill s + length (prefill_token_ids i),
       saved_prefill = saved_prefill s + reused_token_count i\<rparr>"
    using assms(1) by (simp add: plan_request_def f Let_def make_cache_entry_def full_entry_def i_def)
  ultimately show ?thesis by (rule that)
qed

lemma plan_loop_ok:
  assumes "1 \<le> m"
  shows "\<forall>r \<in> set rs. req_token_ids r \<noteq> [] \<Longrightarrow>
    \<exists>s'. plan_loop m rs s = Inr s' \<and>
      (\<exists>items. plan_items s' = plan_items s @ items \<and> length items = length rs \<and>
         (\<forall>j < length rs. item_ok m (rs ! j) (cache_entries s @ map full_entry (take j rs)) (items ! j))) \<and>
      cache_entries s' = cache_entries s @ map full_entry rs \<and>
      total_original s' = total_original s + (\<Sum>r \<leftarrow> rs. length (req_token_ids r)) \<and>
      total_prefill s' + saved_prefill s' + total_original s = total_prefill s + saved_prefill s + total_original s'"
proof (induction rs arbitrary: s)
  case (Cons r rs)
  have ne: "req_token_ids r \<noteq> []" using Cons.prems by simp
  obtain i where i: "item_ok m r (cache_entries s) i"
    and p: "plan_request m r s = Inr \<lparr>cache_entries = cache_entries s @ [full_entry r], plan_items = plan_items s @ [i],
       total_original = total_original s + length (req_token_ids r),
       total_prefill = total_prefill s + length (prefill_token_ids i),
       saved_prefill = saved_prefill s + reused_token_count i\<rparr>"
    by (rule plan_request_ok [OF ne assms])
  define s1 where "s1 = \<lparr>cache_entries = cache_entries s @ [full_entry r], plan_items = plan_items s @ [i],
       total_original = total_original s + length (req_token_ids r),
       total_prefill = total_prefill s + length (prefill_token_ids i),
       saved_prefill = saved_prefill s + reused_token_count i\<rparr>"
  have len: "length (prefill_token_ids i) + reused_token_count i = length (req_token_ids r)"
    using i by (metis add.commute item_ok_def length_append)
  from Cons.IH [of s1] Cons.prems obtain s' items where s': "plan_loop m rs s1 = Inr s'"
    "plan_items s' = plan_items s1 @ items" "length items = length rs"
    "\<forall>j < length rs. item_ok m (rs ! j) (cache_entries s1 @ map full_entry (take j rs)) (items ! j)"
    "cache_entries s' = cache_entries s1 @ map full_entry rs"
    "total_original s' = total_original s1 + (\<Sum>r \<leftarrow> rs. length (req_token_ids r))"
    "total_prefill s' + saved_prefill s' + total_original s1 = total_prefill s1 + saved_prefill s1 + total_original s'" by auto
  have "item_ok m ((r # rs) ! j) (cache_entries s @ map full_entry (take j (r # rs))) ((i # items) ! j)" if "j < length (r # rs)" for j
    using that i s'(4) by (cases j) (simp_all add: s1_def)
  moreover have "plan_loop m (r # rs) s = Inr s'" using p s'(1) by (simp add: s1_def)
  ultimately show ?case using s'(2,3,5,6,7) len by (intro exI [of _ s']) (auto simp: s1_def intro!: exI [of _ "i # items"])
qed simp

lemma validate_unique_iff: "validate_unique seen rs = Inr () \<longleftrightarrow>
   distinct (map request_id rs) \<and> request_id ` set rs \<inter> seen = {}"
  by (induction seen rs rule: validate_unique.induct) auto

text \<open>
  Planning succeeds for distinct, non-empty requests, and every planned request reuses exactly the
  longest prefix it shares with a cached sequence (the initial ones and the requests planned before
  it) of at least the minimum length, prefills the rest, and reconstructs its tokens; over the whole
  plan, saved plus planned tokens equal the original tokens.
\<close>
theorem prefix_plan_correct:
  assumes "1 \<le> m" and "distinct (map request_id rs)" and "\<forall>r \<in> set rs. req_token_ids r \<noteq> []"
  shows "\<exists>rep. plan_kv_prefix_reuse sha rs initial m = Inr rep \<and> verification_passed rep \<and>
     length (plan rep) = length rs \<and>
     (\<forall>j < length rs. item_ok m (rs ! j) (initial @ map full_entry (take j rs)) (plan rep ! j)) \<and>
     total_planned_prefill_tokens rep + saved_prefill_tokens rep = total_original_prefill_tokens rep \<and>
     total_original_prefill_tokens rep = (\<Sum>r \<leftarrow> rs. length (req_token_ids r)) \<and>
     cache_entry_count_after_plan rep = length initial + length rs"
proof -
  define s0 where "s0 = \<lparr>cache_entries = initial, plan_items = [], total_original = 0, total_prefill = 0, saved_prefill = 0\<rparr>"
  from plan_loop_ok [OF assms(1,3), of s0] obtain s' where s': "plan_loop m rs s0 = Inr s'"
    "length (plan_items s') = length rs"
    "\<forall>j < length rs. item_ok m (rs ! j) (initial @ map full_entry (take j rs)) (plan_items s' ! j)"
    "cache_entries s' = initial @ map full_entry rs" "total_original s' = (\<Sum>r \<leftarrow> rs. length (req_token_ids r))"
    "total_prefill s' + saved_prefill s' = total_original s'" by (auto simp: s0_def)
  have "validate_unique {} rs = Inr ()" using assms(2) by (simp add: validate_unique_iff)
  moreover have "list_all reconstruction_matches (plan_items s')"
    using s'(2,3) by (auto simp: list_all_length item_ok_def)
  ultimately show ?thesis using s' assms(1) by (simp add: plan_kv_prefix_reuse_def s0_def Let_def)
qed

theorem prefix_plan_correct_witness:
  "\<exists>rep. plan_kv_prefix_reuse (\<lambda>s. s) [\<lparr>request_id = ''a'', req_token_ids = [1, 2]\<rparr>, \<lparr>request_id = ''b'', req_token_ids = [1, 3]\<rparr>] [] 1 = Inr rep \<and>
     verification_passed rep"
  using prefix_plan_correct [of 1 "[\<lparr>request_id = ''a'', req_token_ids = [1, 2]\<rparr>, \<lparr>request_id = ''b'', req_token_ids = [1, 3]\<rparr>]" "\<lambda>s. s" "[]"]
  by auto

section \<open>The common prefix of a batch\<close>

lemma common_prefix_loop_spec:
  assumes "rows \<noteq> []" and "\<forall>row \<in> set rows. idx + n \<le> length row" and "\<forall>row \<in> set rows. take idx row = prefix" and "length prefix = idx"
  shows "\<exists>k \<le> n. length (common_prefix_loop n idx rows prefix) = idx + k \<and>
     (\<forall>row \<in> set rows. take (idx + k) row = common_prefix_loop n idx rows prefix) \<and>
     (k < n \<longrightarrow> (\<exists>row \<in> set rows. row ! (idx + k) \<noteq> hd rows ! (idx + k)))"
  using assms
proof (induction n arbitrary: idx prefix)
  case (Suc n)
  show ?case
  proof (cases "list_all (\<lambda>row. row ! idx = hd rows ! idx) (tl rows)")
    case True
    then have all: "row ! idx = hd rows ! idx" if "row \<in> set rows" for row
      using that Suc.prems(1) by (cases rows) (auto simp: list_all_iff)
    have "take (Suc idx) row = prefix @ [hd rows ! idx]" if "row \<in> set rows" for row
      using that all [OF that] Suc.prems(2,3) by (fastforce simp: take_Suc_conv_app_nth)
    with Suc.IH [of "Suc idx" "prefix @ [hd rows ! idx]"] Suc.prems
    obtain k where "k \<le> n" "length (common_prefix_loop n (Suc idx) rows (prefix @ [hd rows ! idx])) = Suc idx + k"
      "\<forall>row \<in> set rows. take (Suc idx + k) row = common_prefix_loop n (Suc idx) rows (prefix @ [hd rows ! idx])"
      "k < n \<longrightarrow> (\<exists>row \<in> set rows. row ! (Suc idx + k) \<noteq> hd rows ! (Suc idx + k))" by auto
    with True show ?thesis by (intro exI [of _ "Suc k"]) (simp add: Let_def)
  next
    case False
    then have "\<exists>row \<in> set rows. row ! idx \<noteq> hd rows ! idx" by (cases rows) (auto simp: list_all_iff)
    with False Suc.prems show ?thesis by (intro exI [of _ 0]) (auto simp: Let_def)
  qed
qed auto

lemma common_prefix_spec:
  assumes "rows \<noteq> []"
  shows "row \<in> set rows \<Longrightarrow> take (length (common_prefix rows)) row = common_prefix rows"
    and "(\<And>row. row \<in> set rows \<Longrightarrow> n \<le> length row \<and> take n row = take n (hd rows)) \<Longrightarrow> n \<le> length (common_prefix rows)"
proof -
  define m where "m = Min (length ` set rows)"
  have ml: "m \<le> length row" if "row \<in> set rows" for row unfolding m_def using that by simp
  have "length ` set rows \<noteq> {}" using assms by simp
  then obtain r0 where r0: "r0 \<in> set rows" "length r0 = m"
    unfolding m_def by (metis (mono_tags, lifting) List.finite_set Min_in finite_imageI imageE)
  from common_prefix_loop_spec [OF assms, of 0 m "[]"] ml obtain k where k: "k \<le> m" "length (common_prefix rows) = k"
    "\<forall>row \<in> set rows. take k row = common_prefix rows" "k < m \<longrightarrow> (\<exists>row \<in> set rows. row ! k \<noteq> hd rows ! k)"
    using assms by (auto simp: common_prefix_def m_def)
  show "take (length (common_prefix rows)) row = common_prefix rows" if "row \<in> set rows"
    using k(2,3) that by blast
  show "n \<le> length (common_prefix rows)" if all: "\<And>row. row \<in> set rows \<Longrightarrow> n \<le> length row \<and> take n row = take n (hd rows)"
  proof (rule ccontr)
    assume "\<not> n \<le> length (common_prefix rows)"
    then have kn: "k < n" using k(2) by simp
    moreover have "n \<le> m" using all [OF r0(1)] r0(2) by simp
    ultimately obtain row where row: "row \<in> set rows" "row ! k \<noteq> hd rows ! k" using k(4) by auto
    have "take n row ! k = take n (hd rows) ! k" using all [OF row(1)] by simp
    with row(2) kn show False by simp
  qed
qed

text \<open>
  The prefill metadata of a batch is exact: when the event is built, the shared prefix is the
  longest one common to all rows and non-empty, every request's prefix and suffix concatenate to its
  row, and the varied-suffix flag is set exactly when no two rows have the same suffix.
\<close>
theorem prefill_metadata_exact:
  assumes "normalize_token_rows inp = Inr rows" and "build_prefill_metadata_event inp ids = Inr ev"
  shows "common_prefix_token_ids ev \<noteq> [] \<and>
     length (ev_requests ev) = length rows \<and>
     (\<forall>i < length rows. prefix_token_ids (ev_requests ev ! i) = common_prefix_token_ids ev \<and>
        prefix_token_ids (ev_requests ev ! i) @ suffix_token_ids (ev_requests ev ! i) = rows ! i) \<and>
     (\<forall>n. (\<forall>row \<in> set rows. n \<le> length row \<and> take n row = take n (hd rows)) \<longrightarrow> n \<le> common_prefix_token_count ev) \<and>
     (same_prefix_varied_suffix_proven ev \<longleftrightarrow> distinct (map suffix_token_ids (ev_requests ev)))"
proof -
  define prefix where "prefix = common_prefix rows"
  obtain rids where rids: "length rids = length rows" and ne: "prefix \<noteq> []"
    and ev: "ev = \<lparr>ev_request_count = length rows, common_prefix_token_ids = prefix,
                   common_prefix_token_count = length prefix,
                   ev_requests = map (\<lambda>(rid, row).
                      \<lparr>pf_request_id = rid, prefix_token_ids = prefix, suffix_token_ids = drop (length prefix) row,
                       prefill_token_count = length row, reusable_prefix_token_count = length prefix\<rparr>) (zip rids rows),
                   same_prefix_varied_suffix_proven =
                     (length rows \<le> card (set (map (drop (length prefix)) rows)))\<rparr>"
    using assms by (auto simp: build_prefill_metadata_event_def Let_def prefix_def split: if_splits)
  have rne: "rows \<noteq> []" using ne by (auto simp: prefix_def common_prefix_def)
  have "map suffix_token_ids (ev_requests ev) = map (drop (length prefix)) rows"
    using rids by (auto simp: ev intro: nth_equalityI)
  moreover have "length rows \<le> card (set (map (drop (length prefix)) rows)) \<longleftrightarrow> distinct (map (drop (length prefix)) rows)"
    using card_length [of "map (drop (length prefix)) rows"] distinct_card [of "map (drop (length prefix)) rows"]
      card_distinct [of "map (drop (length prefix)) rows"] by auto
  moreover have "prefix @ drop (length prefix) row = row" if "row \<in> set rows" for row
    using common_prefix_spec(1) [OF rne that] by (metis append_take_drop_id prefix_def)
  moreover have "n \<le> length prefix" if "\<forall>row \<in> set rows. n \<le> length row \<and> take n row = take n (hd rows)" for n
    using common_prefix_spec(2) [OF rne] that by (simp add: prefix_def)
  ultimately show ?thesis using ne rids by (simp add: ev)
qed

theorem prefill_metadata_exact_witness:
  "\<exists>ev. build_prefill_metadata_event (InTensor 2 [[TInt 1, TInt 2], [TInt 1, TInt 3]]) None = Inr ev \<and>
     common_prefix_token_ids ev \<noteq> []"
proof -
  let ?inp = "InTensor 2 [[TInt 1, TInt 2], [TInt 1, TInt 3]]"
  have n: "normalize_token_rows ?inp = Inr [[1, 2], [1, 3]]" by code_simp
  have "(case build_prefill_metadata_event ?inp None of Inr ev \<Rightarrow> True | Inl e \<Rightarrow> False)" by code_simp
  then obtain ev where ev: "build_prefill_metadata_event ?inp None = Inr ev" by (auto split: sum.splits)
  from prefill_metadata_exact [OF n ev] ev show ?thesis by blast
qed

end
