(* ===== verification/MemoryCache.thy ===== *)
theory MemoryCache
  imports PagedKV
begin

text \<open>
  The attention-cache allocator: \<^verbatim>\<open>server/memory_cache.py\<close>, the descriptors of
  \<^verbatim>\<open>server/cache_descriptors.py\<close> and the admission part of
  \<^verbatim>\<open>server/memory_cache_manager.py\<close>.

  Connection handlers admit an allocation against the token limit, hand out handles and send the
  descriptors through a pipe; the runtime drains the pipe and owns the tensors. The shared integers
  are C \<open>int64\<close> values and wrap. The device backend is a pair of parameters \<open>dev_linear\<close>
  and \<open>dev_kv\<close> that build a cache from a descriptor, and \<open>as_pair\<close> says whether a cache is
  a pair of plain tensors. Logging and memory probes are left out. The waiting of an allocation is
  modelled twice: as an atomic operation that fails when memory is short, and as an interleaving of
  the individual critical sections of several handler processes.
\<close>

section \<open>Descriptors\<close>

datatype 'x descr =
    LinearStateDescr (kind: string) (dshape: "int list") (info: 'x)
  | TensorDescr (dshape: "int list") (info: 'x)

fun is_linear_state_descriptor :: "'x descr \<Rightarrow> bool" where
  "is_linear_state_descriptor (LinearStateDescr k s x) = True"
| "is_linear_state_descriptor (TensorDescr s x) = False"

definition cache_allocation_tokens :: "int list \<Rightarrow> int" where
  "cache_allocation_tokens size_dims = (if size_dims = [] then 0 else hd size_dims)"

definition descr_numel :: "int list \<Rightarrow> int" where
  "descr_numel size_dims = foldl (*) 1 size_dims"

text \<open>\<open>getattr(descr, "cache_allocation_tokens", descr.shape[-1])\<close> evaluates its default first.\<close>

fun descr_tokens :: "'x descr \<Rightarrow> int result" where
  "descr_tokens d =
     (if dshape d = [] then Inl IndexError
      else Inr (if is_linear_state_descriptor d then cache_allocation_tokens (dshape d) else last (dshape d)))"

fun allocation_size_loop :: "'x descr list \<Rightarrow> int \<Rightarrow> int result" where
  "allocation_size_loop [] n = Inr n"
| "allocation_size_loop (d # ds) n =
     (case descr_tokens d of Inl e \<Rightarrow> Inl e | Inr t \<Rightarrow> allocation_size_loop ds (max t n))"

definition get_allocation_size_tokens :: "'x descr list \<Rightarrow> int result" where
  "get_allocation_size_tokens ds = allocation_size_loop ds 0"

section \<open>State\<close>

definition c_int64 :: "int \<Rightarrow> int" where
  "c_int64 x = (x + 2 ^ 63) mod 2 ^ 64 - 2 ^ 63"

text \<open>A pipe message: handles with descriptors to create, or with \<open>None\<close> to delete.\<close>

type_synonym 'x message = "int list \<times> 'x descr list option"

record ('x, 'c, 'a) mem_cache =
  max_size_tokens :: int
  current_size_tokens :: int
  enqueued_size_tokens :: int
  handle_counter :: int
  allocation_tokens :: "int list \<rightharpoonup> int"
  handle_to_allocation :: "int \<rightharpoonup> int list"
  pipe :: "'x message list"
  memory_freed_event :: bool
  allocated_tensors :: "int \<rightharpoonup> 'c"
  paged_tables :: "int \<rightharpoonup> 'a paged_table"

definition new_mem_cache :: "int option \<Rightarrow> ('x, 'c, 'a) mem_cache" where
  "new_mem_cache m = \<lparr>max_size_tokens = (case m of None \<Rightarrow> 2048 | Some n \<Rightarrow> n), current_size_tokens = 0,
     enqueued_size_tokens = 0, handle_counter = 0, allocation_tokens = Map.empty,
     handle_to_allocation = Map.empty, pipe = [], memory_freed_event = False,
     allocated_tensors = Map.empty, paged_tables = Map.empty\<rparr>"

definition tokens_left :: "('x, 'c, 'a) mem_cache \<Rightarrow> int" where
  "tokens_left s = max_size_tokens s - current_size_tokens s"

section \<open>Allocation\<close>

text \<open>The body of \<open>_schedule_alloc\<close> under \<open>_lock_metadata\<close>.\<close>

definition commit_alloc :: "int \<Rightarrow> 'x descr list \<Rightarrow> ('x, 'c, 'a) mem_cache \<Rightarrow> int list \<times> ('x, 'c, 'a) mem_cache" where
  "commit_alloc n ds s =
     (let handles = map (\<lambda>i. handle_counter s + int i) [0..<length ds] in
      (handles,
       s\<lparr>current_size_tokens := c_int64 (current_size_tokens s + n),
         handle_counter := c_int64 (handle_counter s + int (length handles)),
         allocation_tokens := (allocation_tokens s)(handles \<mapsto> n),
         handle_to_allocation := foldl (\<lambda>m h. m(h \<mapsto> handles)) (handle_to_allocation s) handles,
         pipe := pipe s @ [(handles, Some ds)]\<rparr>))"

definition enqueue_tokens :: "int \<Rightarrow> ('x, 'c, 'a) mem_cache \<Rightarrow> ('x, 'c, 'a) mem_cache" where
  "enqueue_tokens n s = s\<lparr>enqueued_size_tokens := c_int64 (enqueued_size_tokens s + n)\<rparr>"

definition dequeue_tokens :: "int \<Rightarrow> ('x, 'c, 'a) mem_cache \<Rightarrow> ('x, 'c, 'a) mem_cache" where
  "dequeue_tokens n s = s\<lparr>enqueued_size_tokens := c_int64 (enqueued_size_tokens s - n)\<rparr>"

text \<open>
  \<open>_schedule_alloc\<close> run without interference. \<open>immediate\<close> is \<open>timeout == 0\<close>; with nobody
  to free memory meanwhile, a positive timeout expires exactly when memory is short.
\<close>

definition schedule_alloc ::
  "int \<Rightarrow> 'x descr list \<Rightarrow> bool \<Rightarrow> ('x, 'c, 'a) mem_cache \<Rightarrow> (('x, 'c, 'a) mem_cache, int list) outcome" where
  "schedule_alloc n ds immediate s =
     (let s1 = enqueue_tokens n s in
      if immediate \<and> current_size_tokens s1 + enqueued_size_tokens s1 > max_size_tokens s1
      then (Inl AllocationFailed, dequeue_tokens n s1)
      else if current_size_tokens s1 + n > max_size_tokens s1
      then (Inl AllocationFailed, dequeue_tokens n s1)
      else let (handles, s2) = commit_alloc n ds (dequeue_tokens n s1) in (Inr handles, s2))"

definition allocate_cache ::
  "'x descr list \<Rightarrow> bool \<Rightarrow> ('x, 'c, 'a) mem_cache \<Rightarrow> (('x, 'c, 'a) mem_cache, int list) outcome" where
  "allocate_cache ds immediate s =
     (case get_allocation_size_tokens ds of
        Inl e \<Rightarrow> (Inl e, s)
      | Inr n \<Rightarrow> schedule_alloc n ds immediate s)"

section \<open>Freeing\<close>

fun free_groups_of :: "int list \<Rightarrow> bool \<Rightarrow> (int \<rightharpoonup> int list) \<Rightarrow> int list set \<Rightarrow> int list list" where
  "free_groups_of [] known h2a seen = []"
| "free_groups_of (h # hs) known h2a seen =
     (case h2a h of
        None \<Rightarrow>
          if known then free_groups_of hs known h2a seen
          else if [h] \<in> seen then free_groups_of hs known h2a seen
          else [h] # free_groups_of hs known h2a (insert [h] seen)
      | Some g \<Rightarrow>
          if g \<in> seen then free_groups_of hs known h2a seen
          else g # free_groups_of hs known h2a (insert g seen))"

text \<open>The second loop of \<open>force_free\<close>: tokens and handles freed, and the two dictionaries.\<close>

record free_acc =
  acc_tokens :: int
  acc_handles :: "int list"
  acc_alloc :: "int list \<rightharpoonup> int"
  acc_h2a :: "int \<rightharpoonup> int list"

fun free_group :: "bool \<Rightarrow> free_acc \<Rightarrow> int list \<Rightarrow> free_acc" where
  "free_group known acc g =
     (case acc_alloc acc g of
        None \<Rightarrow>
          if known then acc
          else acc\<lparr>acc_handles := acc_handles acc @ g, acc_h2a := acc_h2a acc |` (- set g)\<rparr>
      | Some n \<Rightarrow>
          acc\<lparr>acc_tokens := acc_tokens acc + n, acc_handles := acc_handles acc @ g,
              acc_alloc := (acc_alloc acc)(g := None), acc_h2a := acc_h2a acc |` (- set g)\<rparr>)"

text \<open>\<open>known\<close> says that \<open>alloc_tokens_num\<close> was passed, which only \<open>_free\<close> does.\<close>

definition force_free :: "int list \<Rightarrow> bool \<Rightarrow> ('x, 'c, 'a) mem_cache \<Rightarrow> ('x, 'c, 'a) mem_cache" where
  "force_free handles known s =
     (if handles = [] then s
      else
        let groups = free_groups_of handles known (handle_to_allocation s) {};
            acc = foldl (free_group known)
                    \<lparr>acc_tokens = 0, acc_handles = [], acc_alloc = allocation_tokens s,
                     acc_h2a = handle_to_allocation s\<rparr> groups
        in s\<lparr>allocation_tokens := acc_alloc acc, handle_to_allocation := acc_h2a acc,
             pipe := (if acc_handles acc = [] then pipe s else pipe s @ [(acc_handles acc, None)]),
             current_size_tokens :=
               (if acc_tokens acc = 0 then current_size_tokens s
                else c_int64 (max 0 (current_size_tokens s - acc_tokens acc))),
             memory_freed_event := True\<rparr>)"

text \<open>\<open>_free\<close>, the done-callback of an allocation: nothing to do when the allocation raised.\<close>

definition free_task :: "int list result \<Rightarrow> ('x, 'c, 'a) mem_cache \<Rightarrow> ('x, 'c, 'a) mem_cache" where
  "free_task r s = (case r of Inl e \<Rightarrow> s | Inr handles \<Rightarrow> force_free handles True s)"

section \<open>The runtime side\<close>

definition register_paged_view ::
  "('c \<Rightarrow> ('a tensor \<times> 'a tensor) option) \<Rightarrow> int \<Rightarrow> 'c \<Rightarrow> ('x, 'c, 'a) mem_cache \<Rightarrow> ('x, 'c, 'a) mem_cache" where
  "register_paged_view as_pair h c s =
     (case as_pair c of
        None \<Rightarrow> s
      | Some (k, v) \<Rightarrow>
          if ndim k \<noteq> 3 \<or> shape k \<noteq> shape v then s
          else if shape k ! 0 mod BLOCK_SIZE \<noteq> 0 then s
          else (case init_table k v BLOCK_SIZE of
                  Inl e \<Rightarrow> s
                | Inr t \<Rightarrow> s\<lparr>paged_tables := (paged_tables s)(h \<mapsto> t)\<rparr>))"

definition paged_view :: "int \<Rightarrow> ('x, 'c, 'a) mem_cache \<Rightarrow> 'a paged_table option" where
  "paged_view h s = paged_tables s h"

record ('x, 'c, 'a) device =
  dev_linear :: "'x descr \<Rightarrow> 'c"
  dev_kv :: "'x descr \<Rightarrow> 'c"
  as_pair :: "'c \<Rightarrow> ('a tensor \<times> 'a tensor) option"
  paged_kv_enabled :: bool

fun create_tensor :: "('x, 'c, 'a) device \<Rightarrow> ('x, 'c, 'a) mem_cache \<Rightarrow> int \<times> 'x descr \<Rightarrow> ('x, 'c, 'a) mem_cache" where
  "create_tensor dev s (h, d) =
     (if is_linear_state_descriptor d
      then s\<lparr>allocated_tensors := (allocated_tensors s)(h \<mapsto> dev_linear dev d)\<rparr>
      else
        let c = dev_kv dev d;
            s1 = s\<lparr>allocated_tensors := (allocated_tensors s)(h \<mapsto> c)\<rparr>
        in if paged_kv_enabled dev then register_paged_view (as_pair dev) h c s1 else s1)"

fun delete_tensor :: "('x, 'c, 'a) mem_cache \<Rightarrow> int \<Rightarrow> ('x, 'c, 'a) mem_cache" where
  "delete_tensor s h =
     s\<lparr>allocated_tensors := (allocated_tensors s)(h := None), paged_tables := (paged_tables s)(h := None)\<rparr>"

fun process_message :: "('x, 'c, 'a) device \<Rightarrow> 'x message \<Rightarrow> ('x, 'c, 'a) mem_cache \<Rightarrow> (('x, 'c, 'a) mem_cache, unit) outcome" where
  "process_message dev (hs, Some ds) s =
     (if length hs \<noteq> length ds then (Inl AssertionError, s)
      else (Inr (), foldl (create_tensor dev) s (zip hs ds)))"
| "process_message dev (hs, None) s = (Inr (), foldl delete_tensor s hs)"

text \<open>\<open>while self._pipe_recv.poll()\<close>: each message leaves the pipe before it is processed.\<close>

fun drain_pipe :: "('x, 'c, 'a) device \<Rightarrow> 'x message list \<Rightarrow> ('x, 'c, 'a) mem_cache \<Rightarrow> (('x, 'c, 'a) mem_cache, unit) outcome" where
  "drain_pipe dev [] s = (Inr (), s)"
| "drain_pipe dev (m # ms) s =
     (case process_message dev m (s\<lparr>pipe := ms\<rparr>) of
        (Inl e, s') \<Rightarrow> (Inl e, s')
      | (Inr _, s') \<Rightarrow> drain_pipe dev ms s')"

text \<open>
  The blocking loop of \<open>use_cache\<close>: messages that arrive later are received one at a time while a
  requested handle is missing; when \<open>late\<close> runs out the call is still blocked, which is \<open>None\<close>.
\<close>

fun await_handles ::
  "('x, 'c, 'a) device \<Rightarrow> int list \<Rightarrow> 'x message list \<Rightarrow> ('x, 'c, 'a) mem_cache \<Rightarrow>
   (('x, 'c, 'a) mem_cache, 'c list) outcome option" where
  "await_handles dev hs late s =
     (if \<forall>h \<in> set hs. allocated_tensors s h \<noteq> None
      then Some (Inr (map (\<lambda>h. the (allocated_tensors s h)) hs), s)
      else (case late of
              [] \<Rightarrow> None
            | m # ms \<Rightarrow>
                (case process_message dev m s of
                   (Inl e, s') \<Rightarrow> Some (Inl e, s')
                 | (Inr _, s') \<Rightarrow> await_handles dev hs ms s')))"

definition use_cache ::
  "('x, 'c, 'a) device \<Rightarrow> int list \<Rightarrow> 'x message list \<Rightarrow> ('x, 'c, 'a) mem_cache \<Rightarrow>
   (('x, 'c, 'a) mem_cache, 'c list) outcome option" where
  "use_cache dev hs late s =
     (case drain_pipe dev (pipe s) s of
        (Inl e, s') \<Rightarrow> Some (Inl e, s')
      | (Inr _, s') \<Rightarrow> await_handles dev hs late s')"


section \<open>Books\<close>

definition alloc_sum :: "(int list \<rightharpoonup> int) \<Rightarrow> int" where
  "alloc_sum m = (\<Sum>g \<in> dom m. the (m g))"

text \<open>The two dictionaries agree: handle groups partition the live handles.\<close>

definition books :: "(int list \<rightharpoonup> int) \<Rightarrow> (int \<rightharpoonup> int list) \<Rightarrow> bool" where
  "books alloc h2a \<longleftrightarrow>
     finite (dom alloc) \<and> (\<forall>g n. alloc g = Some n \<longrightarrow> 0 \<le> n \<and> (g = [] \<longrightarrow> n = 0)) \<and>
     (\<forall>h g. h2a h = Some g \<longleftrightarrow> g \<in> dom alloc \<and> h \<in> set g)"

lemma alloc_sum_insert:
  "finite (dom m) \<Longrightarrow> m g = None \<Longrightarrow> alloc_sum (m(g \<mapsto> n)) = alloc_sum m + n"
  by (auto simp: alloc_sum_def domIff intro!: sum.cong)

lemma alloc_sum_remove:
  assumes "finite (dom m)" and "m g = Some n"
  shows "alloc_sum (m(g := None)) = alloc_sum m - n"
proof -
  have "alloc_sum ((m(g := None))(g \<mapsto> n)) = alloc_sum (m(g := None)) + n"
    by (rule alloc_sum_insert) (use assms in auto)
  moreover have "(m(g := None))(g \<mapsto> n) = m" using assms(2) by auto
  ultimately show ?thesis by simp
qed

lemma alloc_sum_nonneg: "books alloc h2a \<Longrightarrow> 0 \<le> alloc_sum alloc"
  unfolding alloc_sum_def books_def by (intro sum_nonneg) auto

lemma books_disjoint:
  assumes "books alloc h2a" and "g \<in> dom alloc" and "g' \<in> dom alloc" and "g \<noteq> g'"
  shows "set g \<inter> set g' = {}"
  using assms unfolding books_def by (metis (no_types, lifting) disjoint_iff option.inject)

lemma books_remove:
  assumes b: "books alloc h2a" and g: "alloc g = Some n"
  shows "books (alloc(g := None)) (h2a |` (- set g))"
proof -
  have gd: "g \<in> dom alloc" using g by blast
  have "(h2a |` (- set g)) h = Some g' \<longleftrightarrow> g' \<in> dom (alloc(g := None)) \<and> h \<in> set g'" for h g'
  proof (cases "h \<in> set g")
    case True
    then have "h \<notin> set g'" if "g' \<in> dom alloc" "g' \<noteq> g" using books_disjoint [OF b gd that(1)] that by auto
    with True show ?thesis by (auto simp: restrict_map_def)
  next
    case False
    then have "h2a h = Some g' \<longleftrightarrow> g' \<in> dom alloc \<and> h \<in> set g'" using b unfolding books_def by blast
    with False show ?thesis by (auto simp: restrict_map_def)
  qed
  then show ?thesis using b by (auto simp: books_def)
qed

definition freeable :: "bool \<Rightarrow> free_acc \<Rightarrow> int list list \<Rightarrow> bool" where
  "freeable known acc gs \<longleftrightarrow> distinct gs \<and>
     (\<forall>g \<in> set gs. acc_alloc acc g = None \<longrightarrow> known \<or> (\<forall>h \<in> set g. acc_h2a acc h = None))"

lemma restrict_absent: "(\<forall>h \<in> set g. m h = None) \<Longrightarrow> m |` (- set g) = m"
  by (auto simp: restrict_map_def fun_eq_iff)

lemma free_group_step:
  assumes b: "books (acc_alloc acc) (acc_h2a acc)" and f: "freeable known acc (g # gs)"
    and a: "acc' = free_group known acc g"
  shows "books (acc_alloc acc') (acc_h2a acc')"
    and "alloc_sum (acc_alloc acc') + acc_tokens acc' = alloc_sum (acc_alloc acc) + acc_tokens acc"
    and "acc_tokens acc \<le> acc_tokens acc'"
    and "freeable known acc' gs"
    and "acc_h2a acc = h2a0 |` (- set (acc_handles acc)) \<Longrightarrow> acc_h2a acc' = h2a0 |` (- set (acc_handles acc'))"
proof -
  have fin: "finite (dom (acc_alloc acc))" using b by (simp add: books_def)
  have *: "books (acc_alloc acc') (acc_h2a acc') \<and> alloc_sum (acc_alloc acc') + acc_tokens acc' = alloc_sum (acc_alloc acc) + acc_tokens acc \<and>
     acc_tokens acc \<le> acc_tokens acc' \<and>
     freeable known acc' gs \<and> (acc_h2a acc = h2a0 |` (- set (acc_handles acc)) \<longrightarrow> acc_h2a acc' = h2a0 |` (- set (acc_handles acc')))"
  proof (cases "acc_alloc acc g")
    case None
    have "restrict_map (acc_h2a acc) (- set g) = acc_h2a acc" if "\<not> known"
      using f None that by (intro restrict_absent) (auto simp: freeable_def)
    then show ?thesis using b f None by (auto simp: a freeable_def Int_commute)
  next
    case (Some n)
    have n: "0 \<le> n" using b Some by (auto simp: books_def)
    have "freeable known acc' gs"
      using f Some by (auto simp: a freeable_def restrict_map_def)
    with n show ?thesis using books_remove [OF b Some] alloc_sum_remove [OF fin Some] Some
      by (simp add: a Int_commute)
  qed
  show "books (acc_alloc acc') (acc_h2a acc')"
    and "alloc_sum (acc_alloc acc') + acc_tokens acc' = alloc_sum (acc_alloc acc) + acc_tokens acc"
    and "acc_tokens acc \<le> acc_tokens acc'"
    and "freeable known acc' gs"
    and "acc_h2a acc = h2a0 |` (- set (acc_handles acc)) \<Longrightarrow> acc_h2a acc' = h2a0 |` (- set (acc_handles acc'))"
    using * by blast+
qed

declare free_group.simps [simp del]

lemma free_groups_fold:
  assumes "books (acc_alloc acc) (acc_h2a acc)" and "freeable known acc gs" and "acc_h2a acc = h2a0 |` (- set (acc_handles acc))"
    and "acc' = foldl (free_group known) acc gs"
  shows "books (acc_alloc acc') (acc_h2a acc') \<and>
     alloc_sum (acc_alloc acc') + acc_tokens acc' = alloc_sum (acc_alloc acc) + acc_tokens acc \<and>
     acc_tokens acc \<le> acc_tokens acc' \<and> acc_h2a acc' = h2a0 |` (- set (acc_handles acc'))"
  using assms
proof (induction gs arbitrary: acc)
  case (Cons g gs)
  define acc1 where "acc1 = free_group known acc g"
  note step = free_group_step [OF Cons.prems(1,2) acc1_def]
  have "acc' = foldl (free_group known) acc1 gs" using Cons.prems(4) by (simp add: acc1_def)
  from Cons.IH [OF step(1,4) step(5) [OF Cons.prems(3)] this] step(2,3) show ?case by linarith
qed simp

lemma free_groups_of_freeable:
  assumes "books alloc h2a"
  shows "distinct (free_groups_of hs known h2a seen) \<and>
    (\<forall>g \<in> set (free_groups_of hs known h2a seen). g \<notin> seen \<and>
       (g \<in> dom alloc \<or> \<not> known \<and> (\<forall>h \<in> set g. h2a h = None)))"
proof (induction hs arbitrary: seen)
  case (Cons h hs)
  show ?case
  proof (cases "h2a h")
    case None
    with Cons [of seen] Cons [of "insert [h] seen"] show ?thesis by auto
  next
    case (Some g)
    then have "g \<in> dom alloc" using assms unfolding books_def by blast
    with Some Cons [of seen] Cons [of "insert g seen"] show ?thesis by auto
  qed
qed simp

text \<open>Everything \<open>force_free\<close> does to the books.\<close>

lemma force_free_effect:
  assumes b: "books (allocation_tokens s) (handle_to_allocation s)"
    and c: "current_size_tokens s = alloc_sum (allocation_tokens s)" "current_size_tokens s < 2 ^ 63"
    and s': "s' = force_free hs known s"
  obtains freed where
    "books (allocation_tokens s') (handle_to_allocation s')"
    "current_size_tokens s' = alloc_sum (allocation_tokens s')" "current_size_tokens s' \<le> current_size_tokens s"
    "handle_to_allocation s' = handle_to_allocation s |` (- set freed)"
    "pipe s' = pipe s @ (if freed = [] then [] else [(freed, None)])"
    "max_size_tokens s' = max_size_tokens s" "handle_counter s' = handle_counter s"
    "allocated_tensors s' = allocated_tensors s" "paged_tables s' = paged_tables s"
proof (cases "hs = []")
  case True
  then have "s' = s" by (simp add: s' force_free_def)
  with b c show ?thesis by (intro that [of "[]"]) (simp_all add: restrict_map_def fun_eq_iff)
next
  case False
  define acc0 where "acc0 = \<lparr>acc_tokens = 0, acc_handles = [], acc_alloc = allocation_tokens s, acc_h2a = handle_to_allocation s\<rparr>"
  define groups where "groups = free_groups_of hs known (handle_to_allocation s) {}"
  define acc where "acc = foldl (free_group known) acc0 groups"
  have "freeable known acc0 groups"
    using free_groups_of_freeable [OF b, of hs known "{}"] by (auto simp: freeable_def groups_def acc0_def)
  moreover have "books (acc_alloc acc0) (acc_h2a acc0)" "acc_h2a acc0 = handle_to_allocation s |` (- set (acc_handles acc0))"
    using b by (simp_all add: acc0_def restrict_map_def)
  ultimately have "books (acc_alloc acc) (acc_h2a acc) \<and>
     alloc_sum (acc_alloc acc) + acc_tokens acc = alloc_sum (acc_alloc acc0) + acc_tokens acc0 \<and>
     acc_tokens acc0 \<le> acc_tokens acc \<and> acc_h2a acc = handle_to_allocation s |` (- set (acc_handles acc))"
    using free_groups_fold acc_def by blast
  then have f: "books (acc_alloc acc) (acc_h2a acc)" "alloc_sum (acc_alloc acc) + acc_tokens acc = alloc_sum (allocation_tokens s)"
    "0 \<le> acc_tokens acc" "acc_h2a acc = handle_to_allocation s |` (- set (acc_handles acc))"
    by (auto simp: acc0_def)
  have nn: "0 \<le> alloc_sum (acc_alloc acc)" by (rule alloc_sum_nonneg [OF f(1)])
  have cur: "c_int64 (max 0 (current_size_tokens s - acc_tokens acc)) = alloc_sum (acc_alloc acc)"
    using f(2,3) nn c by (simp add: c_int64_def)
  have s'e: "s' = s\<lparr>allocation_tokens := acc_alloc acc, handle_to_allocation := acc_h2a acc,
             pipe := (if acc_handles acc = [] then pipe s else pipe s @ [(acc_handles acc, None)]),
             current_size_tokens :=
               (if acc_tokens acc = 0 then current_size_tokens s
                else c_int64 (max 0 (current_size_tokens s - acc_tokens acc))),
             memory_freed_event := True\<rparr>"
    using False by (simp add: s' force_free_def acc_def acc0_def groups_def Let_def)
  show ?thesis
    by (rule that [of "acc_handles acc"]) (use f c cur nn in \<open>simp_all add: s'e\<close>)
qed

section \<open>Pipe contents\<close>

text \<open>The handles that exist at the runtime once a list of messages has been processed.\<close>

fun live_after :: "'x message list \<Rightarrow> int set \<Rightarrow> int set" where
  "live_after [] A = A"
| "live_after ((hs, Some ds) # ms) A = live_after ms (A \<union> set hs)"
| "live_after ((hs, None) # ms) A = live_after ms (A - set hs)"

definition well_sized :: "'x message list \<Rightarrow> bool" where
  "well_sized ms \<longleftrightarrow> (\<forall>(hs, dso) \<in> set ms. \<forall>ds. dso = Some ds \<longrightarrow> length hs = length ds)"

lemma live_after_append: "live_after (ms @ ns) A = live_after ns (live_after ms A)"
  by (induction ms A rule: live_after.induct) auto

lemma create_tensor_dom [simp]:
  "dom (allocated_tensors (create_tensor dev s x)) = insert (fst x) (dom (allocated_tensors s))"
  "pipe (create_tensor dev s x) = pipe s"
  "handle_to_allocation (create_tensor dev s x) = handle_to_allocation s"
  by (cases x; auto simp: Let_def register_paged_view_def split: option.splits sum.splits)+

declare create_tensor.simps [simp del]

lemma fold_create [simp]:
  "dom (allocated_tensors (foldl (create_tensor dev) s hds)) = fst ` set hds \<union> dom (allocated_tensors s)"
  "pipe (foldl (create_tensor dev) s hds) = pipe s"
  "handle_to_allocation (foldl (create_tensor dev) s hds) = handle_to_allocation s"
  by (induction hds arbitrary: s) auto

lemma fold_delete [simp]:
  "dom (allocated_tensors (foldl delete_tensor s hs)) = dom (allocated_tensors s) - set hs"
  "pipe (foldl delete_tensor s hs) = pipe s"
  "handle_to_allocation (foldl delete_tensor s hs) = handle_to_allocation s"
  by (induction hs arbitrary: s) auto

lemma process_message_ok:
  assumes "\<forall>ds. dso = Some ds \<longrightarrow> length hs = length ds"
  shows "process_message dev (hs, dso) s = (Inr (), snd (process_message dev (hs, dso) s)) \<and>
    dom (allocated_tensors (snd (process_message dev (hs, dso) s))) =
      (if dso = None then dom (allocated_tensors s) - set hs else dom (allocated_tensors s) \<union> set hs) \<and>
    handle_to_allocation (snd (process_message dev (hs, dso) s)) = handle_to_allocation s \<and>
    pipe (snd (process_message dev (hs, dso) s)) = pipe s"
proof (cases dso)
  case (Some ds)
  then have "fst ` set (zip hs ds) = set hs" using assms by (metis list.set_map map_fst_zip)
  with Some assms show ?thesis by (simp add: Un_commute)
qed simp

lemma drain_pipe_ok:
  "well_sized ms \<Longrightarrow> \<exists>s'. drain_pipe dev ms s = (Inr (), s') \<and>
     dom (allocated_tensors s') = live_after ms (dom (allocated_tensors s)) \<and>
     handle_to_allocation s' = handle_to_allocation s \<and> (ms \<noteq> [] \<longrightarrow> pipe s' = [])"
proof (induction ms arbitrary: s)
  case (Cons m ms)
  obtain hs dso where m: "m = (hs, dso)" by fastforce
  have ws: "well_sized ms" using Cons.prems by (simp add: well_sized_def)
  define s1 where "s1 = snd (process_message dev m (s\<lparr>pipe := ms\<rparr>))"
  have sz: "\<forall>ds. dso = Some ds \<longrightarrow> length hs = length ds" using Cons.prems by (simp add: well_sized_def m)
  from process_message_ok [OF sz, of dev "s\<lparr>pipe := ms\<rparr>", folded m, folded s1_def]
  have p: "process_message dev m (s\<lparr>pipe := ms\<rparr>) = (Inr (), s1)"
    and d: "live_after (m # ms) (dom (allocated_tensors s)) = live_after ms (dom (allocated_tensors s1))"
    and h: "handle_to_allocation s1 = handle_to_allocation s" and pi: "pipe s1 = ms"
    by (cases dso; simp add: m)+
  from Cons.IH [OF ws, of s1] obtain s' where "drain_pipe dev ms s1 = (Inr (), s')"
    "dom (allocated_tensors s') = live_after ms (dom (allocated_tensors s1))"
    "handle_to_allocation s' = handle_to_allocation s1" "ms \<noteq> [] \<longrightarrow> pipe s' = []" by blast
  then show ?case using p d h pi by (cases "ms = []") auto
qed simp


section \<open>Invariant\<close>

definition mc_inv :: "('x, 'c, 'a) mem_cache \<Rightarrow> bool" where
  "mc_inv s \<longleftrightarrow>
     books (allocation_tokens s) (handle_to_allocation s) \<and>
     current_size_tokens s = alloc_sum (allocation_tokens s) \<and>
     0 \<le> max_size_tokens s \<and> max_size_tokens s < 2 ^ 62 \<and> current_size_tokens s \<le> max_size_tokens s \<and>
     0 \<le> handle_counter s \<and> handle_counter s < 2 ^ 63 \<and>
     (\<forall>h \<in> dom (handle_to_allocation s). h < handle_counter s) \<and>
     well_sized (pipe s) \<and>
     live_after (pipe s) (dom (allocated_tensors s)) = dom (handle_to_allocation s)"

lemma c_int64_id: "- (2 ^ 63) \<le> x \<Longrightarrow> x < 2 ^ 63 \<Longrightarrow> c_int64 x = x"
  by (simp add: c_int64_def)

lemma fold_handles: "foldl (\<lambda>m h. m(h \<mapsto> g)) m hs = (\<lambda>h. if h \<in> set hs then Some g else m h)"
  by (induction hs arbitrary: m) (auto simp: fun_eq_iff)

lemma commit_alloc_inv:
  assumes inv: "mc_inv s" and n: "0 \<le> n" "ds = [] \<longrightarrow> n = 0" and fits: "current_size_tokens s + n \<le> max_size_tokens s"
    and hc: "handle_counter s + int (length ds) < 2 ^ 63"
    and c: "commit_alloc n ds s = (hs, s')"
  shows "mc_inv s'" and "current_size_tokens s' = current_size_tokens s + n"
    and "length hs = length ds" and "distinct hs" and "set hs \<inter> dom (handle_to_allocation s) = {}"
    and "dom (handle_to_allocation s') = dom (handle_to_allocation s) \<union> set hs"
proof -
  have hs: "hs = map (\<lambda>i. handle_counter s + int i) [0..<length ds]" using c by (simp add: commit_alloc_def Let_def)
  show len: "length hs = length ds" and dist: "distinct hs"
    by (auto simp: hs distinct_map inj_on_def)
  have b: "books (allocation_tokens s) (handle_to_allocation s)" and cur: "current_size_tokens s = alloc_sum (allocation_tokens s)"
    and lim: "0 \<le> max_size_tokens s" "max_size_tokens s < 2 ^ 62" and cnt: "0 \<le> handle_counter s"
    and below: "\<forall>h \<in> dom (handle_to_allocation s). h < handle_counter s"
    using inv by (simp_all add: mc_inv_def)
  have rng: "handle_counter s \<le> h \<and> h < handle_counter s + int (length ds)" if "h \<in> set hs" for h
    using that by (auto simp: hs)
  show fresh: "set hs \<inter> dom (handle_to_allocation s) = {}"
  proof -
    have "h \<notin> dom (handle_to_allocation s)" if "h \<in> set hs" for h using rng [OF that] below by (metis not_le)
    then show ?thesis by blast
  qed
  have nn: "0 \<le> current_size_tokens s" unfolding cur by (rule alloc_sum_nonneg [OF b])
  have c1: "c_int64 (current_size_tokens s + n) = current_size_tokens s + n"
    by (rule c_int64_id) (use nn n fits lim in simp_all)
  have c2: "c_int64 (handle_counter s + int (length hs)) = handle_counter s + int (length ds)"
    unfolding len by (rule c_int64_id) (use cnt hc in simp_all)
  have s': "s' = s\<lparr>current_size_tokens := current_size_tokens s + n, handle_counter := handle_counter s + int (length ds),
         allocation_tokens := (allocation_tokens s)(hs \<mapsto> n),
         handle_to_allocation := (\<lambda>h. if h \<in> set hs then Some hs else handle_to_allocation s h),
         pipe := pipe s @ [(hs, Some ds)]\<rparr>"
    using c c1 c2 unfolding commit_alloc_def Let_def hs [symmetric] fold_handles by simp
  have "books ((allocation_tokens s)(hs \<mapsto> n)) (\<lambda>h. if h \<in> set hs then Some hs else handle_to_allocation s h)"
  proof -
    have hs0: "hs = [] \<longrightarrow> n = 0" using n(2) len by auto
    have "(if h \<in> set hs then Some hs else handle_to_allocation s h) = Some g \<longleftrightarrow>
        g \<in> dom ((allocation_tokens s)(hs \<mapsto> n)) \<and> h \<in> set g" for h g
    proof (cases "h \<in> set hs")
      case True
      then have "handle_to_allocation s h \<noteq> Some g" using fresh by blast
      then have "\<not> (g \<in> dom (allocation_tokens s) \<and> h \<in> set g)" using b unfolding books_def by blast
      with True show ?thesis by auto
    next
      case False
      have "handle_to_allocation s h = Some g \<longleftrightarrow> g \<in> dom (allocation_tokens s) \<and> h \<in> set g" using b unfolding books_def by blast
      with False show ?thesis by auto
    qed
    then show ?thesis using b n(1) hs0 by (auto simp: books_def)
  qed
  moreover have "alloc_sum ((allocation_tokens s)(hs \<mapsto> n)) = current_size_tokens s + n"
  proof (cases "allocation_tokens s hs")
    case None
    with b cur show ?thesis by (simp add: books_def alloc_sum_insert)
  next
    case (Some k)
    have "hs = []"
    proof (rule ccontr)
      assume "hs \<noteq> []"
      then have "handle_to_allocation s (hd hs) = Some hs" using b Some unfolding books_def by (metis domI hd_in_set)
      with fresh \<open>hs \<noteq> []\<close> show False by (meson disjoint_iff domI hd_in_set)
    qed
    then have "n = 0" "k = 0" using n(2) len b Some by (auto simp: books_def)
    then have "(allocation_tokens s)(hs \<mapsto> n) = allocation_tokens s" using Some by auto
    with \<open>n = 0\<close> cur show ?thesis by simp
  qed
  moreover have dom': "dom (\<lambda>h. if h \<in> set hs then Some hs else handle_to_allocation s h) = dom (handle_to_allocation s) \<union> set hs"
    by (auto split: if_splits)
  moreover have "live_after (pipe s @ [(hs, Some ds)]) (dom (allocated_tensors s)) = dom (handle_to_allocation s) \<union> set hs"
    using inv by (simp add: live_after_append mc_inv_def)
  moreover have "well_sized (pipe s @ [(hs, Some ds)])" using inv len by (auto simp: well_sized_def mc_inv_def)
  moreover have "h < handle_counter s + int (length ds)" if "h \<in> dom (handle_to_allocation s) \<union> set hs" for h
  proof (cases "h \<in> set hs")
    case True with rng show ?thesis by blast
  next
    case False
    then have "h < handle_counter s" using that below by blast
    then show ?thesis by simp
  qed
  ultimately show "mc_inv s'" using lim fits cnt hc by (simp add: mc_inv_def s')
  show "current_size_tokens s' = current_size_tokens s + n" by (simp add: s')
  show "dom (handle_to_allocation s') = dom (handle_to_allocation s) \<union> set hs" using dom' by (simp add: s')
qed

lemma mc_inv_enqueued: "mc_inv (s\<lparr>enqueued_size_tokens := x\<rparr>) = mc_inv s"
  by (simp add: mc_inv_def)

lemma allocation_size_nonneg:
  "allocation_size_loop ds m = Inr n \<Longrightarrow> 0 \<le> m \<Longrightarrow> 0 \<le> n \<and> (ds = [] \<longrightarrow> n = m)"
proof (induction ds arbitrary: m)
  case (Cons d ds)
  obtain t where "allocation_size_loop ds (max t m) = Inr n" using Cons.prems(1) by (auto split: if_splits)
  with Cons.IH [of "max t m"] Cons.prems(2) show ?case by auto
qed simp

lemma schedule_alloc_cases:
  assumes "schedule_alloc n ds im s = (r, s')"
  obtains (refused) x where "r = Inl AllocationFailed" "s' = s\<lparr>enqueued_size_tokens := x\<rparr>"
  | (granted) x hs where "r = Inr hs" "current_size_tokens s + n \<le> max_size_tokens s"
      "commit_alloc n ds (s\<lparr>enqueued_size_tokens := x\<rparr>) = (hs, s')"
  using assms by (auto simp: schedule_alloc_def enqueue_tokens_def dequeue_tokens_def Let_def split: if_splits prod.splits)

lemma allocate_cache_inv:
  assumes inv: "mc_inv s" and hc: "handle_counter s + int (length ds) < 2 ^ 63"
    and a: "allocate_cache ds im s = (r, s')"
  shows "mc_inv s'"
proof (cases "get_allocation_size_tokens ds")
  case (Inl e)
  with a inv show ?thesis by (simp add: allocate_cache_def)
next
  case (Inr n)
  then have n: "0 \<le> n" "ds = [] \<longrightarrow> n = 0"
    using allocation_size_nonneg [of ds 0 n] by (simp_all add: get_allocation_size_tokens_def)
  from a Inr have "schedule_alloc n ds im s = (r, s')" by (simp add: allocate_cache_def)
  then show ?thesis
  proof (cases rule: schedule_alloc_cases)
    case (refused x)
    with inv show ?thesis by (simp add: mc_inv_enqueued)
  next
    case (granted x hs)
    show ?thesis by (rule commit_alloc_inv(1) [OF _ n _ _ granted(3)]) (use inv granted(2) hc in \<open>simp_all add: mc_inv_enqueued\<close>)
  qed
qed

lemma force_free_inv:
  assumes inv: "mc_inv s"
  shows "mc_inv (force_free hs known s)"
proof -
  define s' where "s' = force_free hs known s"
  have pre: "books (allocation_tokens s) (handle_to_allocation s)" "current_size_tokens s = alloc_sum (allocation_tokens s)"
    "current_size_tokens s < 2 ^ 63" using inv by (simp_all add: mc_inv_def)
  obtain freed where e: "books (allocation_tokens s') (handle_to_allocation s')"
    "current_size_tokens s' = alloc_sum (allocation_tokens s')" "current_size_tokens s' \<le> current_size_tokens s"
    "handle_to_allocation s' = handle_to_allocation s |` (- set freed)"
    "pipe s' = pipe s @ (if freed = [] then [] else [(freed, None)])"
    "max_size_tokens s' = max_size_tokens s" "handle_counter s' = handle_counter s"
    "allocated_tensors s' = allocated_tensors s" "paged_tables s' = paged_tables s"
    by (rule force_free_effect [OF pre s'_def])
  have "live_after (pipe s') (dom (allocated_tensors s')) = dom (handle_to_allocation s) - set freed"
    using inv by (simp add: e live_after_append mc_inv_def)
  moreover have "well_sized (pipe s')" using inv by (auto simp: e well_sized_def mc_inv_def)
  moreover have "dom (handle_to_allocation s |` (- set freed)) = dom (handle_to_allocation s) - set freed" by auto
  moreover have "\<forall>h \<in> dom (handle_to_allocation s'). h < handle_counter s'"
    using inv by (auto simp: e(4,7) mc_inv_def)
  ultimately have "mc_inv s'" using inv e(1,2,3,6,7) e(4) unfolding mc_inv_def by auto
  then show ?thesis by (simp add: s'_def)
qed


lemma drain_inv:
  assumes inv: "mc_inv s" and d: "drain_pipe dev (pipe s) s = (r, s')"
  shows "r = Inr () \<and> dom (allocated_tensors s') = dom (handle_to_allocation s)"
  using drain_pipe_ok [of "pipe s" dev s] inv d by (auto simp: mc_inv_def)

section \<open>Properties of serialised use\<close>

text \<open>Calls of one process, or of several whose allocations do not overlap in time.\<close>

inductive mc_reachable :: "int \<Rightarrow> ('x, 'c, 'a) mem_cache \<Rightarrow> bool" for limit where
  init: "0 \<le> limit \<Longrightarrow> limit < 2 ^ 62 \<Longrightarrow> mc_reachable limit (new_mem_cache (Some limit))"
| alloc: "mc_reachable limit s \<Longrightarrow> handle_counter s + int (length ds) < 2 ^ 63 \<Longrightarrow>
    allocate_cache ds im s = (r, s') \<Longrightarrow> mc_reachable limit s'"
| free: "mc_reachable limit s \<Longrightarrow> mc_reachable limit (force_free hs known s)"

lemma mc_reachable_inv: "mc_reachable limit s \<Longrightarrow> mc_inv s"
proof (induction rule: mc_reachable.induct)
  case init
  then show ?case by (simp add: mc_inv_def new_mem_cache_def books_def alloc_sum_def well_sized_def)
qed (auto intro: allocate_cache_inv force_free_inv)

text \<open>
  C14 With serialised allocations the token limit is never exceeded and the counter never drifts: in
  every state reachable by allocations (granted or refused) and frees (by owner, early, repeated, or
  of unknown handles) the current size equals the sum over the live allocations, stays within
  \<open>0..max_size_tokens\<close>, and the live handles are exactly the disjoint union of the handle groups.
\<close>
theorem cache_accounting:
  assumes "mc_reachable limit s"
  shows "current_size_tokens s = (\<Sum>g \<in> dom (allocation_tokens s). the (allocation_tokens s g)) \<and>
     0 \<le> current_size_tokens s \<and> current_size_tokens s \<le> max_size_tokens s \<and>
     dom (handle_to_allocation s) = (\<Union>g \<in> dom (allocation_tokens s). set g) \<and>
     (\<forall>g \<in> dom (allocation_tokens s). \<forall>g' \<in> dom (allocation_tokens s). g \<noteq> g' \<longrightarrow> set g \<inter> set g' = {})"
proof -
  have inv: "mc_inv s" by (rule mc_reachable_inv [OF assms])
  then have b: "books (allocation_tokens s) (handle_to_allocation s)" by (simp add: mc_inv_def)
  have "handle_to_allocation s h = Some g \<longleftrightarrow> g \<in> dom (allocation_tokens s) \<and> h \<in> set g" for h g
    using b unfolding books_def by blast
  then have "dom (handle_to_allocation s) = (\<Union>g \<in> dom (allocation_tokens s). set g)"
    unfolding dom_def [of "handle_to_allocation s"] by auto
  with inv alloc_sum_nonneg [OF b] books_disjoint [OF b] show ?thesis by (simp add: mc_inv_def alloc_sum_def)
qed

lemma free_groups_of_mem:
  "h \<in> set hs \<Longrightarrow> h2a h = Some g \<Longrightarrow> g \<notin> seen \<Longrightarrow> g \<in> set (free_groups_of hs known h2a seen)"
proof (induction hs arbitrary: seen)
  case (Cons x hs)
  show ?case
  proof (cases "h2a x")
    case None
    with Cons.prems have h: "h \<in> set hs" by auto
    show ?thesis
      using None Cons.IH [OF h Cons.prems(2,3)] Cons.IH [OF h Cons.prems(2), of "insert [x] seen"] Cons.prems(3)
      by (cases known; cases "g = [x]") simp_all
  next
    case (Some g')
    show ?thesis
    proof (cases "g' = g")
      case True
      with Some Cons.prems(3) show ?thesis by simp
    next
      case False
      then have h: "h \<in> set hs" using Some Cons.prems(1,2) by auto
      from False Some Cons.IH [OF h Cons.prems(2,3)] Cons.IH [OF h Cons.prems(2), of "insert g' seen"] Cons.prems(3)
      show ?thesis by simp
    qed
  qed
qed simp

lemma free_groups_none: "acc_h2a acc h = None \<Longrightarrow> acc_h2a (foldl (free_group known) acc gs) h = None"
  by (induction gs arbitrary: acc) (auto simp: free_group.simps restrict_map_def split: option.splits)

lemma free_groups_gone:
  "g \<in> set gs \<Longrightarrow> h \<in> set g \<Longrightarrow> acc_h2a (foldl (free_group False) acc gs) h = None"
proof (induction gs arbitrary: acc)
  case (Cons g' gs)
  show ?case
  proof (cases "g = g'")
    case True
    have "acc_h2a (free_group False acc g) h = None" using Cons.prems(2)
      by (simp add: free_group.simps restrict_map_def split: option.splits)
    then show ?thesis using free_groups_none [of "free_group False acc g" h False gs] True by simp
  next
    case False
    then have "g \<in> set gs" using Cons.prems(1) by simp
    from Cons.IH [OF this Cons.prems(2)] show ?thesis by simp
  qed
qed simp

text \<open>
  An early \<open>force_free\<close> of the handles of an allocation followed by the owner's own release
  gives the tokens back once: the second call changes neither the counter nor the books and sends no
  message.
\<close>
theorem double_free_is_harmless:
  assumes "mc_reachable limit s" and "hs \<noteq> []" and "set hs \<subseteq> dom (handle_to_allocation s)"
  shows "let s1 = force_free hs False s; s2 = force_free hs True s1 in
     current_size_tokens s2 = current_size_tokens s1 \<and> allocation_tokens s2 = allocation_tokens s1 \<and>
     handle_to_allocation s2 = handle_to_allocation s1 \<and> pipe s2 = pipe s1 \<and>
     (\<forall>h \<in> set hs. handle_to_allocation s1 h = None)"
proof -
  have inv: "mc_inv s" by (rule mc_reachable_inv [OF assms(1)])
  have b: "books (allocation_tokens s) (handle_to_allocation s)" using inv by (simp add: mc_inv_def)
  define s1 where "s1 = force_free hs False s"
  have gone: "handle_to_allocation s1 h = None" if h: "h \<in> set hs" for h
  proof -
    define acc0 where "acc0 = \<lparr>acc_tokens = 0, acc_handles = [], acc_alloc = allocation_tokens s, acc_h2a = handle_to_allocation s\<rparr>"
    define groups where "groups = free_groups_of hs False (handle_to_allocation s) {}"
    obtain g where g: "handle_to_allocation s h = Some g" using assms(3) h by blast
    have "g \<in> set groups" using free_groups_of_mem [of h hs "handle_to_allocation s" g "{}" False] h g by (simp add: groups_def)
    moreover have "h \<in> set g" using b g unfolding books_def by blast
    ultimately have "acc_h2a (foldl (free_group False) acc0 groups) h = None" by (rule free_groups_gone)
    then show ?thesis using assms(2) by (simp add: s1_def force_free_def acc0_def groups_def Let_def)
  qed
  have "free_groups_of hs' True (handle_to_allocation s1) {} = []" if "set hs' \<subseteq> set hs" for hs'
    using that gone by (induction hs') auto
  then have "free_groups_of hs True (handle_to_allocation s1) {} = []" by simp
  then show ?thesis using gone assms(2) by (simp add: Let_def s1_def [symmetric] force_free_def [of hs True])
qed

text \<open>
  Draining the pipe never fails and leaves the runtime with exactly the live handles: every
  handle handed out and not yet freed has its tensor, no freed handle keeps one, whatever order the
  allocations and frees were issued in. So \<open>use_cache\<close> of live handles returns without waiting for
  later messages.
\<close>
theorem use_cache_live_handles:
  assumes "mc_reachable limit s" and "set hs \<subseteq> dom (handle_to_allocation s)"
  shows "\<exists>cs s'. use_cache dev hs late s = Some (Inr cs, s') \<and> length cs = length hs \<and>
     dom (allocated_tensors s') = dom (handle_to_allocation s)"
proof -
  obtain r s' where d: "drain_pipe dev (pipe s) s = (r, s')" by fastforce
  have ok: "r = Inr ()" "dom (allocated_tensors s') = dom (handle_to_allocation s)"
    using drain_inv [OF mc_reachable_inv [OF assms(1)] d] by simp_all
  then have "\<forall>h \<in> set hs. allocated_tensors s' h \<noteq> None" using assms(2) by blast
  then have "await_handles dev hs late s' = Some (Inr (map (\<lambda>h. the (allocated_tensors s' h)) hs), s')" by simp
  with d ok show ?thesis by (simp add: use_cache_def)
qed

definition demo_cache :: "(unit, nat, nat) mem_cache" where
  "demo_cache = snd (allocate_cache [TensorDescr [1, 2, 8] (), LinearStateDescr ''conv'' [3, 4] ()] False (new_mem_cache (Some 10)))"

lemma demo_cache_reachable: "mc_reachable 10 demo_cache"
proof -
  obtain r s' where a: "allocate_cache [TensorDescr [1, 2, 8] (), LinearStateDescr ''conv'' [3, 4] ()] False
      (new_mem_cache (Some 10) :: (unit, nat, nat) mem_cache) = (r, s')" by fastforce
  have "mc_reachable 10 s'"
    by (rule mc_reachable.alloc [OF mc_reachable.init _ a]) (simp_all add: new_mem_cache_def)
  then show ?thesis unfolding demo_cache_def a by simp
qed

lemma demo_cache_handles: "dom (handle_to_allocation demo_cache) = {0, 1}" "current_size_tokens demo_cache = 8"
proof -
  show "current_size_tokens demo_cache = 8" by code_simp
  have "handle_to_allocation demo_cache = (\<lambda>h. if h \<in> set [0, 1] then Some [0, 1] else None)"
    by (simp add: demo_cache_def allocate_cache_def get_allocation_size_tokens_def schedule_alloc_def enqueue_tokens_def
        dequeue_tokens_def commit_alloc_def new_mem_cache_def c_int64_def cache_allocation_tokens_def fold_handles Let_def
        fun_eq_iff upt_rec)
  then show "dom (handle_to_allocation demo_cache) = {0, 1}" by (auto split: if_splits)
qed

theorem cache_accounting_witness:
  "current_size_tokens demo_cache = 8 \<and> current_size_tokens demo_cache \<le> max_size_tokens demo_cache"
  using cache_accounting [OF demo_cache_reachable] demo_cache_handles(2) by simp

theorem double_free_is_harmless_witness:
  "current_size_tokens (force_free [0] True (force_free [0] False demo_cache)) = current_size_tokens (force_free [0] False demo_cache)"
  using double_free_is_harmless [OF demo_cache_reachable, of "[0]"] demo_cache_handles(1) by (simp add: Let_def)

theorem use_cache_live_handles_witness:
  "\<exists>cs s'. use_cache \<lparr>dev_linear = (\<lambda>d. 1), dev_kv = (\<lambda>d. 2), as_pair = (\<lambda>c. None), paged_kv_enabled = True\<rparr> [0, 1] [] demo_cache = Some (Inr cs, s') \<and>
     length cs = 2"
  using use_cache_live_handles [OF demo_cache_reachable, of "[0, 1]"] demo_cache_handles(1) by fastforce

section \<open>Interleaved allocation\<close>

text \<open>
  The critical sections of \<open>_schedule_alloc\<close> in several handler processes. A client is outside,
  has enqueued its tokens, holds \<open>_lock_acquire_memory\<close>, has been admitted (and has left the lock),
  has left the queue, or is finished. The lock is the \<open>mp.Lock\<close>; every step is one section.
\<close>

datatype phase = Outside | Enqueued int bool | Locked int bool | Admitted int | Dequeued int | Finished "int list result"

record ('x, 'c, 'a) alloc_world =
  mem :: "('x, 'c, 'a) mem_cache"
  lock_owner :: "nat option"
  phases :: "nat \<Rightarrow> phase"

inductive alloc_step :: "('x, 'c, 'a) alloc_world \<Rightarrow> ('x, 'c, 'a) alloc_world \<Rightarrow> bool" where
  enqueue: "phases w c = Outside \<Longrightarrow> 0 \<le> n \<Longrightarrow>
    alloc_step w (w\<lparr>mem := enqueue_tokens n (mem w), phases := (phases w)(c := Enqueued n im)\<rparr>)"
| early_refuse: "phases w c = Enqueued n True \<Longrightarrow>
    current_size_tokens (mem w) + enqueued_size_tokens (mem w) > max_size_tokens (mem w) \<Longrightarrow>
    alloc_step w (w\<lparr>mem := dequeue_tokens n (mem w), phases := (phases w)(c := Finished (Inl AllocationFailed))\<rparr>)"
| lock: "phases w c = Enqueued n im \<Longrightarrow> lock_owner w = None \<Longrightarrow>
    im \<longrightarrow> current_size_tokens (mem w) + enqueued_size_tokens (mem w) \<le> max_size_tokens (mem w) \<Longrightarrow>
    alloc_step w (w\<lparr>lock_owner := Some c, phases := (phases w)(c := Locked n im)\<rparr>)"
| admit: "phases w c = Locked n im \<Longrightarrow> current_size_tokens (mem w) + n \<le> max_size_tokens (mem w) \<Longrightarrow>
    alloc_step w (w\<lparr>lock_owner := None, phases := (phases w)(c := Admitted n)\<rparr>)"
| refuse: "phases w c = Locked n im \<Longrightarrow> current_size_tokens (mem w) + n > max_size_tokens (mem w) \<Longrightarrow>
    alloc_step w (w\<lparr>mem := dequeue_tokens n (mem w), lock_owner := None,
                    phases := (phases w)(c := Finished (Inl AllocationFailed))\<rparr>)"
| dequeue: "phases w c = Admitted n \<Longrightarrow>
    alloc_step w (w\<lparr>mem := dequeue_tokens n (mem w), phases := (phases w)(c := Dequeued n)\<rparr>)"
| commit: "phases w c = Dequeued n \<Longrightarrow> commit_alloc n ds (mem w) = (hs, m') \<Longrightarrow>
    alloc_step w (w\<lparr>mem := m', phases := (phases w)(c := Finished (Inr hs))\<rparr>)"
| release: "alloc_step w (w\<lparr>mem := force_free hs known (mem w)\<rparr>)"

inductive alloc_run :: "('x, 'c, 'a) alloc_world \<Rightarrow> ('x, 'c, 'a) alloc_world \<Rightarrow> bool" where
  stop: "alloc_run w w"
| more: "alloc_step w w1 \<Longrightarrow> alloc_run w1 w2 \<Longrightarrow> alloc_run w w2"

definition idle_world :: "int \<Rightarrow> ('x, 'c, 'a) alloc_world" where
  "idle_world limit = \<lparr>mem = new_mem_cache (Some limit), lock_owner = None, phases = (\<lambda>c. Outside)\<rparr>"

definition two_phases :: "phase \<Rightarrow> phase \<Rightarrow> nat \<Rightarrow> phase" where
  "two_phases p q c = (if c = 0 then p else if c = 1 then q else Outside)"

lemma two_phases:
  "two_phases p q 0 = p" "two_phases p q (Suc 0) = q"
  "(two_phases p q)(0 := p') = two_phases p' q" "(two_phases p q)(Suc 0 := q') = two_phases p q'"
  by (auto simp: two_phases_def)

text \<open>
  C29 The admission check and the accounting are separate critical sections, so two handler processes
  can both be admitted against the same free tokens: with any positive limit there is an interleaving
  of two allocations, each of which fits, after which the cache holds twice its limit.
\<close>
theorem concurrent_overcommit:
  assumes "0 < limit" and "limit < 2 ^ 62"
  shows "\<exists>w. alloc_run (idle_world limit :: (unit, 'c, 'a) alloc_world) w \<and>
     max_size_tokens (mem w) = limit \<and> current_size_tokens (mem w) = 2 * limit \<and>
     (\<exists>h1 h2. phases w 0 = Finished (Inr h1) \<and> phases w 1 = Finished (Inr h2))"
proof -
  define d where "d = [TensorDescr [limit] ()]"
  define m0 where "m0 = (new_mem_cache (Some limit) :: (unit, 'c, 'a) mem_cache)"
  define m2 where "m2 = enqueue_tokens limit (enqueue_tokens limit m0)"
  define m4 where "m4 = dequeue_tokens limit (dequeue_tokens limit m2)"
  define m5 where "m5 = snd (commit_alloc limit d m4)"
  define m6 where "m6 = snd (commit_alloc limit d m5)"
  define w where "w m l p q = (\<lparr>mem = m, lock_owner = l, phases = two_phases p q\<rparr> :: (unit, 'c, 'a) alloc_world)" for m l p q
  note w_simps = w_def two_phases
  have cur: "current_size_tokens m2 = 0" "max_size_tokens m2 = limit"
    by (simp_all add: m2_def m0_def enqueue_tokens_def new_mem_cache_def)
  have r1: "alloc_step (w m0 None Outside Outside) (w (enqueue_tokens limit m0) None (Enqueued limit False) Outside)"
    using alloc_step.enqueue [of "w m0 None Outside Outside" 0 limit False] assms(1) by (simp add: w_simps)
  have r2: "alloc_step (w (enqueue_tokens limit m0) None (Enqueued limit False) Outside) (w m2 None (Enqueued limit False) (Enqueued limit False))"
    using alloc_step.enqueue [of "w (enqueue_tokens limit m0) None (Enqueued limit False) Outside" 1 limit False] assms(1)
    by (simp add: w_simps m2_def)
  have r3: "alloc_step (w m2 None (Enqueued limit False) q) (w m2 (Some 0) (Locked limit False) q)" for q
    using alloc_step.lock [of "w m2 None (Enqueued limit False) q" 0 limit False] by (simp add: w_simps)
  have r4: "alloc_step (w m2 (Some 0) (Locked limit False) q) (w m2 None (Admitted limit) q)" for q
    using alloc_step.admit [of "w m2 (Some 0) (Locked limit False) q" 0 limit False] cur by (simp add: w_simps)
  have r5: "alloc_step (w m2 None p (Enqueued limit False)) (w m2 (Some 1) p (Locked limit False))" for p
    using alloc_step.lock [of "w m2 None p (Enqueued limit False)" 1 limit False] by (simp add: w_simps)
  have r6: "alloc_step (w m2 (Some 1) p (Locked limit False)) (w m2 None p (Admitted limit))" for p
    using alloc_step.admit [of "w m2 (Some 1) p (Locked limit False)" 1 limit False] cur by (simp add: w_simps)
  have r7: "alloc_step (w m2 None (Admitted limit) (Admitted limit)) (w (dequeue_tokens limit m2) None (Dequeued limit) (Admitted limit))"
    using alloc_step.dequeue [of "w m2 None (Admitted limit) (Admitted limit)" 0 limit] by (simp add: w_simps)
  have r8: "alloc_step (w (dequeue_tokens limit m2) None (Dequeued limit) (Admitted limit)) (w m4 None (Dequeued limit) (Dequeued limit))"
    using alloc_step.dequeue [of "w (dequeue_tokens limit m2) None (Dequeued limit) (Admitted limit)" 1 limit] by (simp add: w_simps m4_def)
  have r9: "alloc_step (w m4 None (Dequeued limit) (Dequeued limit)) (w m5 None (Finished (Inr (fst (commit_alloc limit d m4)))) (Dequeued limit))"
    using alloc_step.commit [of "w m4 None (Dequeued limit) (Dequeued limit)" 0 limit d] by (simp add: w_simps m5_def)
  have r10: "alloc_step (w m5 None p (Dequeued limit)) (w m6 None p (Finished (Inr (fst (commit_alloc limit d m5)))))" for p
    using alloc_step.commit [of "w m5 None p (Dequeued limit)" 1 limit d] by (simp add: w_simps m6_def)
  have run: "alloc_run (w m0 None Outside Outside)
      (w m6 None (Finished (Inr (fst (commit_alloc limit d m4)))) (Finished (Inr (fst (commit_alloc limit d m5)))))"
    by (rule more [OF r1 more [OF r2 more [OF r3 more [OF r4 more [OF r5 more [OF r6
        more [OF r7 more [OF r8 more [OF r9 more [OF r10 stop]]]]]]]]]])
  have "current_size_tokens m6 = 2 * limit" "max_size_tokens m6 = limit"
    using assms by (simp_all add: m6_def m5_def m4_def m2_def m0_def commit_alloc_def dequeue_tokens_def enqueue_tokens_def
        new_mem_cache_def c_int64_def d_def Let_def)
  moreover have "idle_world limit = w m0 None Outside Outside"
    by (simp add: idle_world_def w_def m0_def two_phases_def fun_eq_iff)
  ultimately show ?thesis using run by (intro exI) (auto simp: w_simps)
qed

theorem concurrent_overcommit_witness:
  "\<exists>w. alloc_run (idle_world 8 :: (unit, nat, nat) alloc_world) w \<and> current_size_tokens (mem w) = 16"
  using concurrent_overcommit [of 8, where 'c = nat and 'a = nat] by auto

end
