(* ===== verification/NDTensor.thy ===== *)
theory NDTensor
  imports BB_Prelude
begin

text \<open>
  Tensors of any rank, as the micro-batch code slices, pads and concatenates them: the extents and
  the value at each index list. Two tensors are equal as tensors (\<open>nd_eq\<close>) when extents and all
  values inside them agree; values at indices outside the extents carry no meaning.
\<close>

record 'a nd =
  dims :: "nat list"
  elem_at :: "nat list \<Rightarrow> 'a"

definition in_range :: "nat list \<Rightarrow> nat list \<Rightarrow> bool" where
  "in_range idx ds \<longleftrightarrow> list_all2 (<) idx ds"

definition nd_eq :: "'a nd \<Rightarrow> 'a nd \<Rightarrow> bool" where
  "nd_eq t u \<longleftrightarrow> dims t = dims u \<and> (\<forall>idx. in_range idx (dims t) \<longrightarrow> elem_at t idx = elem_at u idx)"

definition numel :: "'a nd \<Rightarrow> nat" where
  "numel t = prod_list (dims t)"

text \<open>\<open>t[..., a:b, ...]\<close> on axis \<open>ax\<close>, bounds clamped.\<close>

definition nd_slice :: "nat \<Rightarrow> nat \<Rightarrow> nat \<Rightarrow> 'a nd \<Rightarrow> 'a nd" where
  "nd_slice ax a b t =
     \<lparr>dims = (dims t)[ax := min b (dims t ! ax) - a], elem_at = (\<lambda>idx. elem_at t (idx[ax := idx ! ax + a]))\<rparr>"

definition nd_full :: "nat list \<Rightarrow> 'a \<Rightarrow> 'a nd" where
  "nd_full ds v = \<lparr>dims = ds, elem_at = (\<lambda>idx. v)\<rparr>"

text \<open>Same rank, and the same extent on every axis but \<open>ax\<close>.\<close>

definition same_rest :: "nat \<Rightarrow> 'a nd \<Rightarrow> 'a nd \<Rightarrow> bool" where
  "same_rest ax s t \<longleftrightarrow> length (dims t) = length (dims s) \<and>
     list_all (\<lambda>axis. axis = ax \<or> dims t ! axis = dims s ! axis) [0..<length (dims s)]"

text \<open>
  \<open>torch.cat\<close>. All ranks agree in every call of the code, so the special treatment of empty
  one-dimensional tensors makes no difference.
\<close>

fun cat_at :: "nat \<Rightarrow> 'a nd list \<Rightarrow> nat list \<Rightarrow> 'a" where
  "cat_at ax [] idx = undefined"
| "cat_at ax (t # ts) idx =
     (if idx ! ax < dims t ! ax then elem_at t idx else cat_at ax ts (idx[ax := idx ! ax - dims t ! ax]))"

definition nd_cat :: "nat \<Rightarrow> 'a nd list \<Rightarrow> 'a nd result" where
  "nd_cat ax ts =
     (if ts = [] then Inl RuntimeError
      else if length (dims (hd ts)) \<le> ax then Inl IndexError
      else if list_all (same_rest ax (hd ts)) (tl ts)
      then Inr \<lparr>dims = (dims (hd ts))[ax := sum_list (map (\<lambda>t. dims t ! ax) ts)], elem_at = cat_at ax ts\<rparr>
      else Inl RuntimeError)"

lemma in_range_length: "in_range idx ds \<Longrightarrow> length idx = length ds"
  by (simp add: in_range_def list_all2_lengthD)

lemma in_range_nth: "in_range idx ds \<longleftrightarrow> length idx = length ds \<and> (\<forall>i < length ds. idx ! i < ds ! i)"
  by (auto simp: in_range_def list_all2_conv_all_nth)

lemma in_range_update:
  "in_range idx (ds[ax := n]) \<Longrightarrow> ax < length ds \<Longrightarrow> k < ds ! ax \<Longrightarrow> in_range (idx[ax := k]) ds"
  unfolding in_range_nth by (metis length_list_update nth_list_update_eq nth_list_update_neq)

lemma nd_eq_refl [simp]: "nd_eq t t"
  by (simp add: nd_eq_def)

lemma same_rest_iff: "same_rest ax s t \<longleftrightarrow> length (dims t) = length (dims s) \<and>
   (\<forall>axis < length (dims s). axis \<noteq> ax \<longrightarrow> dims t ! axis = dims s ! axis)"
  by (auto simp: same_rest_def list_all_iff)

lemma same_rest_slices: "same_rest ax (nd_slice ax a b t) (nd_slice ax c d t)"
  by (auto simp: same_rest_iff nd_slice_def)

section \<open>Contiguous ranges\<close>

text \<open>Ranges that follow one another without gap from \<open>a\<close> to \<open>n\<close>.\<close>

fun contiguous :: "(nat \<times> nat) list \<Rightarrow> nat \<Rightarrow> nat \<Rightarrow> bool" where
  "contiguous [] a n \<longleftrightarrow> a = n"
| "contiguous ((s, e) # rs) a n \<longleftrightarrow> s = a \<and> s < e \<and> contiguous rs e n"

lemma contiguous_le: "contiguous rs a n \<Longrightarrow> a \<le> n"
  by (induction rs a n rule: contiguous.induct) auto

lemma contiguous_sum: "contiguous rs a n \<Longrightarrow> sum_list (map (\<lambda>(s, e). e - s) rs) = n - a"
proof (induction rs a n rule: contiguous.induct)
  case (2 s e rs a n)
  then show ?case using contiguous_le [of rs e n] by auto
qed simp

lemma pyslice_drop: "a \<le> e \<Longrightarrow> pyslice a e xs @ drop e xs = drop a xs"
  by (metis append_take_drop_id drop_drop le_add_diff_inverse2 pyslice_def)

lemma contiguous_concat: "contiguous rs a (length xs) \<Longrightarrow> concat (map (\<lambda>(s, e). pyslice s e xs) rs) = drop a xs"
proof (induction rs arbitrary: a)
  case (Cons r rs)
  obtain s e where r: "r = (s, e)" by fastforce
  then have "s = a" "a \<le> e" "contiguous rs e (length xs)" using Cons.prems by auto
  with Cons.IH pyslice_drop [of a e xs] show ?case by (simp add: r)
qed simp

lemma contiguous_bounds: "contiguous rs a n \<Longrightarrow> (s, e) \<in> set rs \<Longrightarrow> a \<le> s \<and> s < e \<and> e \<le> n"
proof (induction rs a n rule: contiguous.induct)
  case (2 s' e' rs a n)
  then show ?case using contiguous_le [of rs e' n] by fastforce
qed simp

lemma cat_at_slices:
  assumes "contiguous rs a n" and "n \<le> dims t ! ax" and "ax < length idx" and "idx ! ax < n - a"
    and "ax < length (dims t)"
  shows "cat_at ax (map (\<lambda>(s, e). nd_slice ax s e t) rs) idx = elem_at t (idx[ax := idx ! ax + a])"
  using assms
proof (induction rs a n arbitrary: idx rule: contiguous.induct)
  case (2 s e rs a n)
  have c: "s = a" "a < e" "contiguous rs e n" using 2 by auto
  have en: "e \<le> n" using contiguous_le [OF c(3)] .
  have w: "min e (dims t ! ax) - a = e - a" using en 2 by simp
  show ?case
  proof (cases "idx ! ax < e - a")
    case True
    then show ?thesis using c w 2 by (simp add: nd_slice_def)
  next
    case False
    have "cat_at ax (map (\<lambda>(s, e). nd_slice ax s e t) rs) (idx[ax := idx ! ax - (e - a)]) =
        elem_at t ((idx[ax := idx ! ax - (e - a)])[ax := (idx[ax := idx ! ax - (e - a)]) ! ax + e])"
      using 2 False by (intro 2(1)) auto
    also have "\<dots> = elem_at t (idx[ax := idx ! ax + a])" using False c 2 by simp
    finally show ?thesis using False c w 2 by (simp add: nd_slice_def)
  qed
qed simp

lemma cat_slices:
  assumes c: "contiguous rs 0 (dims t ! ax)" and d: "ax < length (dims t)" and ne: "rs \<noteq> []"
  shows "\<exists>u. nd_cat ax (map (\<lambda>(s, e). nd_slice ax s e t) rs) = Inr u \<and> nd_eq u t"
proof -
  let ?ts = "map (\<lambda>(s, e). nd_slice ax s e t) rs"
  obtain s e rs' where rs: "rs = (s, e) # rs'" using ne by (cases rs) auto
  have sl: "same_rest ax (nd_slice ax s e t) (nd_slice ax c d t)" for c d by (rule same_rest_slices)
  have all: "list_all (same_rest ax (hd ?ts)) (tl ?ts)" using sl by (auto simp: rs list_all_iff)
  have w: "dims (nd_slice ax x y t) ! ax = y - x" if "(x, y) \<in> set rs" for x y
    using contiguous_bounds [OF c that] d by (simp add: nd_slice_def)
  have "map (\<lambda>u. dims u ! ax) ?ts = map (\<lambda>(s, e). e - s) rs" using w by auto
  then have sum: "sum_list (map (\<lambda>u. dims u ! ax) ?ts) = dims t ! ax" using contiguous_sum [OF c] by (simp only: diff_zero)
  have dd: "(dims (hd ?ts))[ax := dims t ! ax] = dims t" by (simp add: rs nd_slice_def)
  have "nd_cat ax ?ts = Inr \<lparr>dims = dims t, elem_at = cat_at ax ?ts\<rparr>"
    using d all sum dd by (simp add: nd_cat_def rs nd_slice_def)
  moreover have "cat_at ax ?ts idx = elem_at t idx" if "in_range idx (dims t)" for idx
    using cat_at_slices [OF c order_refl, of idx] that d by (simp add: in_range_nth)
  ultimately show ?thesis by (auto simp: nd_eq_def)
qed

section \<open>The contract of a batch partition\<close>

text \<open>Any partition into contiguous ranges can be undone by concatenation, on every axis.\<close>

locale batch_partition =
  fixes ranges :: "nat \<Rightarrow> (nat \<times> nat) list"
  assumes ranges_contiguous: "contiguous (ranges n) 0 n"
begin

lemma concat_ranges: "concat (map (\<lambda>(s, e). pyslice s e xs) (ranges (length xs))) = xs"
  using contiguous_concat [OF ranges_contiguous, of xs] by simp

lemma sizes_sum: "sum_list (map (\<lambda>(s, e). e - s) (ranges n)) = n"
  using contiguous_sum [OF ranges_contiguous, of n] by simp

lemma cat_ranges:
  assumes "ax < length (dims t)" and "0 < dims t ! ax"
  shows "\<exists>u. nd_cat ax (map (\<lambda>(s, e). nd_slice ax s e t) (ranges (dims t ! ax))) = Inr u \<and> nd_eq u t"
proof (rule cat_slices [OF ranges_contiguous assms(1)])
  show "ranges (dims t ! ax) \<noteq> []" using ranges_contiguous [of "dims t ! ax"] assms(2) by auto
qed

end

end
