(* ===== verification/Microbatch.thy ===== *)
theory Microbatch
  imports NDTensor
begin

text \<open>
  Micro-batching: \<^verbatim>\<open>utils/microbatch_ops.py\<close> (ranges, splitting, merging),
  \<^verbatim>\<open>server/microbatch.py\<close> (slicing the inputs of a step, step metadata) and
  \<^verbatim>\<open>utils/microbatch_schema.py\<close> (fields cached from the first micro-batch).

  The configured micro-batch size \<open>mbs\<close> and the enable flag are arguments, since the code reads
  them from the environment. A Python value is \<open>None\<close>, a tensor or something else; device, dtype
  and contiguity are not modelled. Axes are non-negative.
\<close>

datatype 'a tval = NoneV | TensorV "'a nd" | OtherV

fun is_none :: "'a tval \<Rightarrow> bool" where
  "is_none NoneV = True" | "is_none (TensorV t) = False" | "is_none OtherV = False"

text \<open>
  An optional integer setting arrives as nothing, as a value \<open>int()\<close> accepts, or as one it rejects.
\<close>

datatype int_setting = Unset | Valid int | Unparsable

definition get_micro_batch_size :: "bool \<Rightarrow> int_setting \<Rightarrow> int" where
  "get_micro_batch_size flag env =
     (if \<not> flag then 0 else (case env of Unset \<Rightarrow> 0 | Unparsable \<Rightarrow> 0 | Valid n \<Rightarrow> if n < 1 then 0 else n))"

definition is_microbatch_enabled :: "bool \<Rightarrow> int_setting \<Rightarrow> bool" where
  "is_microbatch_enabled flag env \<longleftrightarrow> flag \<and> 0 < get_micro_batch_size flag env"

section \<open>Ranges, splitting and merging\<close>

definition should_split_batch :: "bool \<Rightarrow> int \<Rightarrow> nat \<Rightarrow> bool" where
  "should_split_batch enabled mbs batch_size =
     (if \<not> enabled then False else if mbs \<le> 0 then False else mbs < int batch_size)"

function range_loop :: "nat \<Rightarrow> nat \<Rightarrow> nat \<Rightarrow> (nat \<times> nat) list" where
  "range_loop mbs batch_size start =
     (if mbs = 0 then []
      else if start < batch_size then
        let e = min (start + mbs) batch_size in (start, e) # range_loop mbs batch_size e
      else [])"
  by pat_completeness auto
termination by (relation "measure (\<lambda>(mbs, n, start). n - start)") auto

declare range_loop.simps [simp del]

definition compute_micro_batch_ranges :: "int \<Rightarrow> nat \<Rightarrow> (nat \<times> nat) list" where
  "compute_micro_batch_ranges mbs batch_size =
     (if batch_size = 0 then []
      else if mbs \<le> 0 then [(0, batch_size)]
      else range_loop (nat mbs) batch_size 0)"

fun split_tensor_to_microbatches :: "bool \<Rightarrow> int \<Rightarrow> nat \<Rightarrow> 'a nd option \<Rightarrow> 'a nd option list result" where
  "split_tensor_to_microbatches enabled mbs ax None = Inr [None]"
| "split_tensor_to_microbatches enabled mbs ax (Some t) =
     (if length (dims t) \<le> ax then Inl IndexError
      else if \<not> should_split_batch enabled mbs (dims t ! ax) then Inr [Some t]
      else Inr (map (\<lambda>(s, e). Some (nd_slice ax s e t)) (compute_micro_batch_ranges mbs (dims t ! ax))))"

definition max_shape :: "nat \<Rightarrow> 'a nd \<Rightarrow> 'a nd list \<Rightarrow> nat list" where
  "max_shape ax first rest =
     foldl (\<lambda>ms out. map (\<lambda>axis. if axis = ax then ms ! axis else max (ms ! axis) (dims out ! axis)) [0..<length ms])
       (dims first) rest"

definition pad_to :: "nat \<Rightarrow> nat list \<Rightarrow> 'a \<Rightarrow> 'a nd \<Rightarrow> 'a nd" where
  "pad_to ax ms v out =
     (let padded_shape = map (\<lambda>axis. if axis = ax then dims out ! axis else ms ! axis) [0..<length (dims out)] in
      if dims out = padded_shape then out
      else \<lparr>dims = padded_shape,
            elem_at = (\<lambda>idx. if in_range idx (dims out) then elem_at out idx else elem_at (nd_full padded_shape v) idx)\<rparr>)"

fun tensors_of :: "'a tval list \<Rightarrow> 'a nd list option" where
  "tensors_of [] = Some []"
| "tensors_of (TensorV t # vs) = map_option ((#) t) (tensors_of vs)"
| "tensors_of (v # vs) = None"

text \<open>The common tail of both merge functions, on the values that are not \<open>None\<close>.\<close>

definition merge_valid :: "'a \<Rightarrow> nat \<Rightarrow> 'a tval list \<Rightarrow> 'a tval result" where
  "merge_valid pad ax valid =
     (case valid of
        TensorV first # rest \<Rightarrow>
          (case tensors_of rest of
             None \<Rightarrow> Inl ValueError
           | Some ts \<Rightarrow>
               if list_all (same_rest ax first) ts then map_sum id TensorV (nd_cat ax (first # ts))
               else if list_ex (\<lambda>t. length (dims t) \<noteq> length (dims first)) ts then Inl ValueError
               else map_sum id TensorV (nd_cat ax (map (pad_to ax (max_shape ax first ts) pad) (first # ts))))
      | _ \<Rightarrow> Inl TypeError)"

definition merge_microbatch_outputs :: "'a \<Rightarrow> 'a tval list \<Rightarrow> nat \<Rightarrow> 'a tval result" where
  "merge_microbatch_outputs zero outputs ax =
     (if length outputs = 1 then Inr (hd outputs)
      else
        let valid = filter (\<lambda>v. \<not> is_none v) outputs in
        if valid = [] then Inr NoneV else merge_valid zero ax valid)"

definition merge_microbatch_keep_indices :: "int tval list \<Rightarrow> nat \<Rightarrow> int \<Rightarrow> int tval result" where
  "merge_microbatch_keep_indices outputs ax pad_value =
     (let valid = filter (\<lambda>v. \<not> is_none v) outputs in
      if valid = [] then Inr NoneV
      else if length valid = 1 then Inr (hd valid)
      else merge_valid pad_value ax valid)"

section \<open>Slicing the inputs of a step\<close>

definition is_dummy :: "'a nd \<Rightarrow> bool" where
  "is_dummy t \<longleftrightarrow> numel t = 0"

fun slice_batch_aligned :: "'a tval \<Rightarrow> nat \<Rightarrow> nat \<Rightarrow> nat \<Rightarrow> 'a tval" where
  "slice_batch_aligned (TensorV t) mb_start mb_end full =
     (if is_dummy t then TensorV t
      else if dims t = [] then TensorV t
      else if dims t ! 0 = full then TensorV (nd_slice 0 mb_start mb_end t)
      else TensorV t)"
| "slice_batch_aligned v mb_start mb_end full = v"

fun slice_keep_indices :: "'a tval \<Rightarrow> nat \<Rightarrow> nat \<Rightarrow> nat \<Rightarrow> 'a tval" where
  "slice_keep_indices (TensorV t) mb_start mb_end full =
     (if is_dummy t \<or> dims t = [] then TensorV t
      else if dims t ! 0 = full then TensorV (nd_slice 0 mb_start mb_end t)
      else TensorV t)"
| "slice_keep_indices v mb_start mb_end full = v"

record 'a microbatch_inputs =
  hidden_states :: "'a nd"
  hypo_ids :: "'a tval"
  tree_attention_mask :: "'a tval"
  kv_cache_position_ids :: "'a tval"
  draft_tokens :: "'a tval"
  prefill_length :: "'a tval"
  keep_indices :: "'a tval"
  active_mask :: "'a tval"
  batch_offset :: nat
  full_batch_size :: nat
  micro_batch_size :: int

text \<open>
  Indexing a zero-dimensional tensor raises. A \<open>hypo_ids\<close> that is neither \<open>None\<close> nor a tensor
  fails in \<open>is_dummy\<close>, which reads \<open>numel\<close>.
\<close>

definition slice_microbatch_inputs ::
  "'a nd \<Rightarrow> 'a tval \<Rightarrow> 'a tval \<Rightarrow> 'a tval \<Rightarrow> 'a tval \<Rightarrow> 'a tval \<Rightarrow> 'a tval \<Rightarrow> 'a tval \<Rightarrow> nat \<Rightarrow> nat \<Rightarrow> nat \<Rightarrow>
   'a microbatch_inputs result" where
  "slice_microbatch_inputs hidden hypo tree kvpos draft prefill keep active mb_start mb_end full =
     (case (case hypo of
              NoneV \<Rightarrow> Inr NoneV
            | OtherV \<Rightarrow> Inl AttributeError
            | TensorV h \<Rightarrow>
                if is_dummy h then Inr (TensorV h)
                else if dims h = [] then Inl IndexError
                else Inr (TensorV (nd_slice 0 mb_start mb_end h))) of
        Inl e \<Rightarrow> Inl e
      | Inr mb_hypo \<Rightarrow>
          if dims hidden = [] then Inl IndexError
          else
            Inr \<lparr>hidden_states = nd_slice 0 mb_start mb_end hidden, hypo_ids = mb_hypo,
                 tree_attention_mask = slice_batch_aligned tree mb_start mb_end full,
                 kv_cache_position_ids = slice_batch_aligned kvpos mb_start mb_end full,
                 draft_tokens = slice_batch_aligned draft mb_start mb_end full,
                 prefill_length = slice_batch_aligned prefill mb_start mb_end full,
                 keep_indices = slice_keep_indices keep mb_start mb_end full,
                 active_mask = slice_batch_aligned active mb_start mb_end full,
                 batch_offset = mb_start, full_batch_size = full,
                 micro_batch_size = int mb_end - int mb_start\<rparr>)"

definition resolve_expected_num_microbatches :: "int \<Rightarrow> int \<Rightarrow> int_setting \<Rightarrow> int_setting \<Rightarrow> int" where
  "resolve_expected_num_microbatches default_mbs full total_mb configured =
     (case total_mb of
        Valid n \<Rightarrow> max 1 n
      | _ \<Rightarrow>
          let mbs = (case configured of Unset \<Rightarrow> default_mbs | Valid n \<Rightarrow> n | Unparsable \<Rightarrow> 0) in
          if 0 < mbs then max 1 ((full + mbs - 1) div mbs) else 1)"

text \<open>
  Metadata of a cross-stage push: the request's own metadata, overridden by the fields of this
  micro-batch, overridden by the caller's extra fields.
\<close>

definition dict_update :: "('k \<rightharpoonup> 'v) \<Rightarrow> ('k \<times> 'v) list \<Rightarrow> ('k \<rightharpoonup> 'v)" where
  "dict_update d kvs = foldl (\<lambda>m (k, v). m(k \<mapsto> v)) d kvs"

datatype meta_value = MInt int | MStr string | MOther string

definition build_cross_stage_push_metadata ::
  "(string \<rightharpoonup> meta_value) option \<Rightarrow> int \<Rightarrow> int \<Rightarrow> int \<Rightarrow> int \<Rightarrow> string \<Rightarrow> int \<Rightarrow> int \<Rightarrow> int \<Rightarrow> int \<Rightarrow>
   (string \<times> meta_value) list option \<Rightarrow> (string \<rightharpoonup> meta_value)" where
  "build_cross_stage_push_metadata step mb_idx mb_offset mb_size full sender total_mb t0 t1 t2 extra =
     (let base = (case step of None \<Rightarrow> Map.empty | Some m \<Rightarrow> m);
          push = dict_update base
            [(''micro_batch_idx'', MInt mb_idx), (''micro_batch_offset'', MInt mb_offset),
             (''micro_batch_size'', MInt mb_size), (''full_batch_size'', MInt full),
             (''sender_blocks'', MStr sender), (''total_micro_batches'', MInt total_mb),
             (''stage_compute_start_timestamp_us'', MInt t0), (''stage_compute_end_timestamp_us'', MInt t1),
             (''stage_push_timestamp_us'', MInt t2)]
      in (case extra of None \<Rightarrow> push | Some kvs \<Rightarrow> dict_update push kvs))"


section \<open>Request context\<close>

text \<open>Field values of a request; tensors of the request are opaque.\<close>

datatype 'a field_value = FNone | FNones nat | FArange nat | FInt int | FBool bool | FValue 'a

record 'a request_context =
  ctx_request_id :: string
  ctx_step_id :: "string option"
  cached_fields :: "string \<rightharpoonup> 'a field_value"
  num_backends :: nat
  is_initialized :: bool

definition new_request_context :: "string \<Rightarrow> string option \<Rightarrow> 'a request_context" where
  "new_request_context rid sid =
     \<lparr>ctx_request_id = rid, ctx_step_id = sid, cached_fields = Map.empty, num_backends = 0, is_initialized = False\<rparr>"

definition cache_from_mb0 ::
  "'a field_value \<Rightarrow> 'a field_value \<Rightarrow> 'a field_value \<Rightarrow> 'a field_value \<Rightarrow> 'a field_value \<Rightarrow>
   'a field_value \<Rightarrow> 'a field_value \<Rightarrow> 'a field_value \<Rightarrow> nat \<Rightarrow> 'a request_context \<Rightarrow> 'a request_context" where
  "cache_from_mb0 prompts hypo tree kvpos draft prefill spec pruning n ctx =
     ctx\<lparr>cached_fields := map_of [(''prompts'', prompts), (''hypo_ids'', hypo), (''tree_attention_mask'', tree),
            (''kv_cache_position_ids'', kvpos), (''draft_tokens'', draft), (''prefill_length'', prefill),
            (''is_spec_dec'', spec), (''need_pruning'', pruning)],
         num_backends := n, is_initialized := True\<rparr>"

definition get_field :: "string \<Rightarrow> 'a field_value \<Rightarrow> 'a request_context \<Rightarrow> 'a field_value" where
  "get_field name dflt ctx = (case cached_fields ctx name of None \<Rightarrow> dflt | Some v \<Rightarrow> v)"

definition has_field :: "string \<Rightarrow> 'a request_context \<Rightarrow> bool" where
  "has_field name ctx \<longleftrightarrow> cached_fields ctx name \<noteq> None"

definition field_defaults :: "nat \<Rightarrow> nat \<Rightarrow> (string \<times> 'a field_value) list" where
  "field_defaults batch_size n =
     [(''prompts'', FNones n), (''hypo_ids'', FArange batch_size), (''tree_attention_mask'', FNone),
      (''kv_cache_position_ids'', FNone), (''draft_tokens'', FNone), (''prefill_length'', FInt 0),
      (''is_spec_dec'', FBool False), (''need_pruning'', FBool False)]"

text \<open>
  \<open>keep_indices\<close> first, then the request-level fields in the order of the returned tuple. The
  hidden states pass through unchanged and are left out.
\<close>

definition fill_microbatch_defaults ::
  "nat \<Rightarrow> nat \<Rightarrow> 'a field_value option \<Rightarrow> 'a request_context option \<Rightarrow> nat \<Rightarrow> 'a field_value \<times> 'a field_value list" where
  "fill_microbatch_defaults batch_size seq_length keep ctx n =
     ((case keep of None \<Rightarrow> FArange seq_length | Some k \<Rightarrow> k),
      (case ctx of
         Some c \<Rightarrow>
           if is_initialized c then map (\<lambda>(name, dflt). get_field name dflt c) (field_defaults batch_size n)
           else map snd (field_defaults batch_size n)
       | None \<Rightarrow> map snd (field_defaults batch_size n)))"

section \<open>Ranges partition the batch\<close>

lemma range_loop_contiguous: "0 < mbs \<Longrightarrow> start \<le> n \<Longrightarrow> contiguous (range_loop mbs n start) start n"
proof (induction mbs n start rule: range_loop.induct)
  case (1 mbs n start)
  then show ?case by (subst range_loop.simps) (auto simp: Let_def)
qed

lemma compute_ranges_contiguous: "contiguous (compute_micro_batch_ranges mbs n) 0 n"
  by (auto simp: compute_micro_batch_ranges_def intro: range_loop_contiguous)

interpretation microbatch: batch_partition "compute_micro_batch_ranges mbs" for mbs
  by unfold_locales (rule compute_ranges_contiguous)

lemma range_loop_size: "(s, e) \<in> set (range_loop mbs n start) \<Longrightarrow> e - s \<le> mbs"
proof (induction mbs n start rule: range_loop.induct)
  case (1 mbs n start)
  show ?case
  proof (cases "mbs = 0 \<or> \<not> start < n")
    case True
    with 1(2) show ?thesis by (subst (asm) range_loop.simps) (auto split: if_splits)
  next
    case False
    with 1(2) have "(s, e) = (start, min (start + mbs) n) \<or> (s, e) \<in> set (range_loop mbs n (min (start + mbs) n))"
      by (subst (asm) range_loop.simps) (simp add: Let_def)
    with 1(1) [OF _ _ refl] False show ?thesis by auto
  qed
qed

lemma range_loop_count: "0 < mbs \<Longrightarrow> start \<le> n \<Longrightarrow> length (range_loop mbs n start) = ceil_div (n - start) mbs"
proof (induction mbs n start rule: range_loop.induct)
  case (1 mbs n start)
  show ?case
  proof (cases "start < n")
    case False
    with 1 show ?thesis by (subst range_loop.simps) (simp add: ceil_div_def)
  next
    case True
    show ?thesis
    proof (cases "start + mbs \<le> n")
      case le: True
      have "length (range_loop mbs n start) = Suc (length (range_loop mbs n (start + mbs)))"
        using 1 True le by (subst range_loop.simps) (simp add: Let_def min_def)
      also have "\<dots> = Suc (ceil_div (n - (start + mbs)) mbs)" using 1 True le by (simp add: min_def)
      also have "\<dots> = ceil_div (n - start) mbs"
      proof -
        have e: "n - start + mbs - 1 = (n - (start + mbs) + mbs - 1) + mbs" using le 1(2) by simp
        show ?thesis unfolding ceil_div_def e using 1(2) by (simp del: add_diff_assoc2)
      qed
      finally show ?thesis .
    next
      case False
      have "range_loop mbs n n = []" by (subst range_loop.simps) simp
      then have "length (range_loop mbs n start) = 1"
        using 1(2) True False by (subst range_loop.simps) (simp add: Let_def min_def)
      moreover have "ceil_div (n - start) mbs = 1"
        using True False 1(2) by (simp add: ceil_div_def Suc_leI div_nat_eqI)
      ultimately show ?thesis by simp
    qed
  qed
qed

text \<open>
  The micro-batch ranges partition the batch: they are contiguous from zero to the batch size, none
  is empty, none exceeds a positive configured size, and their number is the one
  \<open>resolve_expected_num_microbatches\<close> tells the receiving stage to wait for.
\<close>
theorem ranges_partition_batch:
  assumes "0 < n"
  shows "contiguous (compute_micro_batch_ranges mbs n) 0 n \<and>
     (\<forall>(s, e) \<in> set (compute_micro_batch_ranges mbs n). s < e \<and> e \<le> n \<and> (0 < mbs \<longrightarrow> int (e - s) \<le> mbs)) \<and>
     int (length (compute_micro_batch_ranges mbs n)) = resolve_expected_num_microbatches mbs (int n) Unset Unset"
proof (intro conjI)
  show c: "contiguous (compute_micro_batch_ranges mbs n) 0 n" by (rule compute_ranges_contiguous)
  have "int (e - s) \<le> mbs" if "0 < mbs" "(s, e) \<in> set (compute_micro_batch_ranges mbs n)" for s e
    using that range_loop_size [of s e "nat mbs" n 0] by (auto simp: compute_micro_batch_ranges_def split: if_splits)
  then show "\<forall>(s, e) \<in> set (compute_micro_batch_ranges mbs n). s < e \<and> e \<le> n \<and> (0 < mbs \<longrightarrow> int (e - s) \<le> mbs)"
    using contiguous_bounds [OF c] by blast
  show "int (length (compute_micro_batch_ranges mbs n)) = resolve_expected_num_microbatches mbs (int n) Unset Unset"
  proof (cases "0 < mbs")
    case True
    have "int (ceil_div n (nat mbs)) = (int n + mbs - 1) div mbs"
      using True assms by (simp add: ceil_div_def zdiv_int of_nat_diff)
    moreover have "1 \<le> (int n + mbs - 1) div mbs" using True assms by (simp add: pos_imp_zdiv_pos_iff int_one_le_iff_zero_less)
    ultimately show ?thesis
      using True assms range_loop_count [of "nat mbs" 0 n]
      by (simp add: compute_micro_batch_ranges_def resolve_expected_num_microbatches_def)
  qed (use assms in \<open>simp add: compute_micro_batch_ranges_def resolve_expected_num_microbatches_def\<close>)
qed

theorem ranges_partition_batch_witness:
  "int (length (compute_micro_batch_ranges 2 5)) = resolve_expected_num_microbatches 2 (int 5) Unset Unset"
  using ranges_partition_batch [of 5 2] by simp


section \<open>Splitting and merging\<close>

lemma tensors_of_map [simp]: "tensors_of (map TensorV ts) = Some ts"
  by (induction ts) auto

lemma map_sum_Inr [simp]: "map_sum f g (Inr x) = Inr (g x)" by simp

lemma ranges_more_than_one:
  assumes "should_split_batch enabled mbs n"
  shows "1 < length (compute_micro_batch_ranges mbs n)"
proof -
  have m: "0 < mbs" "mbs < int n" using assms by (auto simp: should_split_batch_def split: if_splits)
  then have "nat mbs < n" "0 < nat mbs" by auto
  then have "1 < ceil_div n (nat mbs)" using ceil_div_le_iff [of "nat mbs" n 1] by (simp add: not_le)
  then show ?thesis using m range_loop_count [of "nat mbs" 0 n] by (auto simp: compute_micro_batch_ranges_def)
qed

text \<open>
  C17 Splitting a tensor into micro-batches and merging the pieces again gives the tensor back, for
  any rank and any axis, whether or not the configuration causes a split.
\<close>
theorem split_merge_roundtrip:
  assumes "ax < length (dims t)" and "split_tensor_to_microbatches enabled mbs ax (Some t) = Inr chunks"
  shows "\<exists>u. merge_microbatch_outputs zero (map (\<lambda>c. case c of None \<Rightarrow> NoneV | Some x \<Rightarrow> TensorV x) chunks) ax = Inr (TensorV u) \<and>
     nd_eq u t"
proof (cases "should_split_batch enabled mbs (dims t ! ax)")
  case False
  with assms have "chunks = [Some t]" by simp
  then show ?thesis by (simp add: merge_microbatch_outputs_def)
next
  case True
  define rs where "rs = compute_micro_batch_ranges mbs (dims t ! ax)"
  define ts where "ts = map (\<lambda>(s, e). nd_slice ax s e t) rs"
  have len: "1 < length rs" using ranges_more_than_one [OF True] by (simp add: rs_def)
  have pos: "0 < dims t ! ax" using True by (auto simp: should_split_batch_def split: if_splits)
  have "chunks = map Some ts" using assms True by (auto simp: ts_def rs_def case_prod_unfold comp_def)
  then have vals: "map (\<lambda>c. case c of None \<Rightarrow> NoneV | Some x \<Rightarrow> TensorV x) chunks = map TensorV ts" by simp
  obtain u where u: "nd_cat ax ts = Inr u" "nd_eq u t"
    using microbatch.cat_ranges [OF assms(1) pos, of mbs] by (auto simp: ts_def rs_def)
  obtain t1 t2 ts' where ts': "ts = t1 # t2 # ts'" using len by (cases ts; cases "tl ts") (auto simp: ts_def)
  have ok: "list_all (same_rest ax t1) (t2 # ts')"
    using u(1) by (auto simp: nd_cat_def ts' split: if_splits)
  have f: "filter (\<lambda>v. \<not> is_none v) (map TensorV ts) = map TensorV ts" by (auto intro: filter_True)
  have "merge_microbatch_outputs zero (map TensorV ts) ax = merge_valid zero ax (map TensorV ts)"
    unfolding merge_microbatch_outputs_def f by (simp add: ts')
  also have "\<dots> = Inr (TensorV u)"
    using ok u(1) tensors_of_map [of "t2 # ts'"] by (simp add: merge_valid_def ts')
  finally show ?thesis using u(2) vals by auto
qed

definition demo_nd :: "nat nd" where
  "demo_nd = \<lparr>dims = [2, 3], elem_at = (\<lambda>idx. idx ! 0 * 10 + idx ! 1)\<rparr>"

theorem split_merge_roundtrip_witness:
  "\<exists>u. merge_microbatch_outputs 0 (map (\<lambda>c. case c of None \<Rightarrow> NoneV | Some x \<Rightarrow> TensorV x)
       (map (\<lambda>(s, e). Some (nd_slice 1 s e demo_nd)) (compute_micro_batch_ranges 2 3))) 1 = Inr (TensorV u) \<and> nd_eq u demo_nd"
  by (rule split_merge_roundtrip [of 1 demo_nd True 2]) (simp_all add: demo_nd_def should_split_batch_def)

subsection \<open>Padding\<close>

lemma length_max_shape [simp]: "length (max_shape ax first rest) = length (dims first)"
proof -
  have "length (foldl (\<lambda>ms out. map (\<lambda>axis. if axis = ax then ms ! axis else max (ms ! axis) (dims out ! axis)) [0..<length ms]) xs rest) = length xs" for xs
    by (induction rest arbitrary: xs) auto
  then show ?thesis by (simp add: max_shape_def)
qed

lemma max_shape_step:
  "axis < length ms \<Longrightarrow> axis \<noteq> ax \<Longrightarrow>
   foldl (\<lambda>ms out. map (\<lambda>axis. if axis = ax then ms ! axis else max (ms ! axis) (dims out ! axis)) [0..<length ms]) ms rest ! axis =
   foldl (\<lambda>m out. max m (dims out ! axis)) (ms ! axis) rest"
  by (induction rest arbitrary: ms) auto

lemma foldl_max: "foldl (\<lambda>m out. max m (f out)) (x :: nat) rest = Max (insert x (f ` set rest))"
proof -
  have "foldl (\<lambda>m out. max m (f out)) x rest = fold max (map f rest) x"
    by (induction rest arbitrary: x) (simp_all add: max.commute)
  then show ?thesis using Max.set_eq_fold [of x "map f rest"] by simp
qed

lemma max_shape_bound:
  assumes "axis < length (dims first)" and "axis \<noteq> ax" and "t \<in> set (first # rest)"
  shows "dims t ! axis \<le> max_shape ax first rest ! axis"
  using assms by (auto simp: max_shape_def max_shape_step foldl_max intro: Max_ge)

lemma pad_to_props:
  assumes "length ms = length (dims out)" and "\<And>axis. axis < length (dims out) \<Longrightarrow> axis \<noteq> ax \<Longrightarrow> dims out ! axis \<le> ms ! axis"
  shows "length (dims (pad_to ax ms v out)) = length (dims out)"
    and "axis < length (dims out) \<Longrightarrow> dims (pad_to ax ms v out) ! axis = (if axis = ax then dims out ! axis else ms ! axis)"
    and "in_range idx (dims (pad_to ax ms v out)) \<Longrightarrow>
      elem_at (pad_to ax ms v out) idx = (if in_range idx (dims out) then elem_at out idx else v)"
proof -
  define ps where "ps = map (\<lambda>axis. if axis = ax then dims out ! axis else ms ! axis) [0..<length (dims out)]"
  have d: "dims (pad_to ax ms v out) = ps" by (simp add: pad_to_def ps_def Let_def)
  show "length (dims (pad_to ax ms v out)) = length (dims out)" by (simp add: d ps_def)
  show "dims (pad_to ax ms v out) ! axis = (if axis = ax then dims out ! axis else ms ! axis)" if "axis < length (dims out)"
    using that by (simp add: d ps_def)
  show "elem_at (pad_to ax ms v out) idx = (if in_range idx (dims out) then elem_at out idx else v)"
    if r: "in_range idx (dims (pad_to ax ms v out))"
  proof (cases "dims out = ps")
    case True
    then show ?thesis using r d by (simp add: pad_to_def ps_def [symmetric] Let_def)
  next
    case False
    then show ?thesis by (simp add: pad_to_def ps_def [symmetric] Let_def nd_full_def)
  qed
qed

text \<open>Where part \<open>k\<close> of a concatenation is found.\<close>

lemma cat_at_part:
  assumes "k < length ts" and "i < dims (ts ! k) ! ax" and "ax < length idx"
  shows "cat_at ax ts (idx[ax := sum_list (map (\<lambda>t. dims t ! ax) (take k ts)) + i]) = elem_at (ts ! k) (idx[ax := i])"
  using assms
proof (induction ts arbitrary: k)
  case (Cons t ts)
  show ?case
  proof (cases k)
    case 0
    with Cons.prems show ?thesis by simp
  next
    case (Suc j)
    have "cat_at ax ts (idx[ax := sum_list (map (\<lambda>t. dims t ! ax) (take j ts)) + i]) = elem_at (ts ! j) (idx[ax := i])"
      using Cons.prems Suc by (intro Cons.IH) auto
    with Suc Cons.prems show ?thesis by simp
  qed
qed simp

text \<open>
  Merging keep-indices of different widths loses nothing: when all parts are tensors of one rank,
  the merge returns, its extent on the batch axis is the sum of the parts', on every other axis the
  maximum, and at the offset of each part it holds exactly that part's entries, with the pad value
  (minus one) everywhere else.
\<close>
theorem keep_indices_merge_exact:
  assumes "1 < length ts" and "ax < rank" and "\<forall>t \<in> set ts. length (dims t) = rank"
  shows "\<exists>u. merge_microbatch_keep_indices (map TensorV ts) ax (- 1) = Inr (TensorV u) \<and>
     dims u ! ax = sum_list (map (\<lambda>t. dims t ! ax) ts) \<and>
     (\<forall>axis < rank. axis \<noteq> ax \<longrightarrow> dims u ! axis = Max ((\<lambda>t. dims t ! axis) ` set ts)) \<and>
     (\<forall>k < length ts. \<forall>idx. in_range idx ((dims u)[ax := dims (ts ! k) ! ax]) \<longrightarrow>
        elem_at u (idx[ax := sum_list (map (\<lambda>t. dims t ! ax) (take k ts)) + idx ! ax]) =
          (if in_range idx (dims (ts ! k)) then elem_at (ts ! k) idx else - 1))"
proof -
  obtain first rest where ts: "ts = first # rest" "rest \<noteq> []" using assms(1) by (cases ts) auto
  have rk: "length (dims first) = rank" "\<forall>t \<in> set rest. length (dims t) = rank" using assms(3) ts by auto
  define ms where "ms = max_shape ax first rest"
  define ps where "ps = map (pad_to ax ms (- 1)) ts"
  have lms: "length ms = rank" using rk by (simp add: ms_def)
  have bound: "dims t ! axis \<le> ms ! axis" if "t \<in> set ts" "axis < rank" "axis \<noteq> ax" for t axis
    using max_shape_bound [of axis first ax t rest] that rk ts by (simp add: ms_def)
  have msx: "ms ! axis = Max ((\<lambda>t. dims t ! axis) ` set ts)" if "axis < rank" "axis \<noteq> ax" for axis
    using that rk by (simp add: ms_def max_shape_def max_shape_step foldl_max ts)
  have pt: "length (dims (pad_to ax ms (- 1) t)) = rank"
    "axis < rank \<Longrightarrow> dims (pad_to ax ms (- 1) t) ! axis = (if axis = ax then dims t ! axis else ms ! axis)"
    "in_range idx (dims (pad_to ax ms (- 1) t)) \<Longrightarrow>
      elem_at (pad_to ax ms (- 1) t) idx = (if in_range idx (dims t) then elem_at t idx else - 1)"
    if "t \<in> set ts" for t axis idx
    using pad_to_props [where ms = ms and out = t and ax = ax and v = "- 1"] that assms(3) bound [OF that] lms by auto
  have padded: "nd_cat ax ps = Inr \<lparr>dims = (dims (hd ps))[ax := sum_list (map (\<lambda>t. dims t ! ax) ps)], elem_at = cat_at ax ps\<rparr>"
  proof -
    have "list_all (same_rest ax (hd ps)) (tl ps)"
      using pt(1,2) by (auto simp: list_all_iff same_rest_iff ps_def ts)
    then show ?thesis using pt(1) [of first] assms(2) by (simp add: nd_cat_def ps_def ts)
  qed
  have same: "ps = ts" if "list_all (same_rest ax first) rest"
  proof -
    have "ms ! axis = dims t ! axis" if "t \<in> set ts" "axis < rank" "axis \<noteq> ax" for t axis
    proof -
      have all: "dims x ! axis = dims first ! axis" if "x \<in> set ts" for x
        using that \<open>list_all (same_rest ax first) rest\<close> \<open>axis < rank\<close> \<open>axis \<noteq> ax\<close> rk ts by (auto simp: list_all_iff same_rest_iff)
      have "(\<lambda>t. dims t ! axis) ` set ts = (\<lambda>t. dims first ! axis) ` set ts" by (rule image_cong [OF refl all])
      then have "(\<lambda>t. dims t ! axis) ` set ts = {dims first ! axis}" by (auto simp: ts(1))
      with msx [OF that(2,3)] all [OF that(1)] show ?thesis by simp
    qed
    note eq = this
    have "pad_to ax ms (- 1) t = t" if t: "t \<in> set ts" for t
    proof -
      have rt: "length (dims t) = rank" using assms(3) t by blast
      have "dims t = map (\<lambda>axis. if axis = ax then dims t ! axis else ms ! axis) [0..<length (dims t)]"
        by (rule nth_equalityI) (use eq [OF t] rt in simp_all)
      then show ?thesis by (simp add: pad_to_def Let_def)
    qed
    then show ?thesis by (simp add: ps_def map_idI)
  qed
  have merged: "merge_microbatch_keep_indices (map TensorV ts) ax (- 1) = map_sum id TensorV (nd_cat ax ps)"
  proof -
    have f: "filter (\<lambda>v. \<not> is_none v) (map TensorV ts) = map TensorV ts" by (auto intro: filter_True)
    have l: "length (map TensorV ts) \<noteq> 1" "map TensorV ts \<noteq> []" using ts by auto
    have nr: "\<not> list_ex (\<lambda>t. length (dims t) \<noteq> length (dims first)) rest" using rk by (auto simp: list_ex_iff)
    have "merge_microbatch_keep_indices (map TensorV ts) ax (- 1) = merge_valid (- 1) ax (map TensorV ts)"
      unfolding merge_microbatch_keep_indices_def f using l by (simp add: Let_def)
    also have "\<dots> = map_sum id TensorV (nd_cat ax ps)"
      using same nr by (auto simp: merge_valid_def ts(1) ps_def ms_def)
    finally show ?thesis .
  qed
  define u where "u = \<lparr>dims = (dims (hd ps))[ax := sum_list (map (\<lambda>t. dims t ! ax) ps)], elem_at = cat_at ax ps\<rparr>"
  have sums: "map (\<lambda>t. dims t ! ax) ps = map (\<lambda>t. dims t ! ax) ts" using pt(2) assms(2) by (auto simp: ps_def)
  have hdp: "hd ps = pad_to ax ms (- 1) first" by (simp add: ps_def ts)
  have du: "dims u ! axis = (if axis = ax then sum_list (map (\<lambda>t. dims t ! ax) ts) else ms ! axis)" "length (dims u) = rank" if "axis < rank" for axis
    using that pt(1,2) [of first] assms(2) sums by (simp_all add: u_def hdp ts)
  have part: "elem_at u (idx[ax := sum_list (map (\<lambda>t. dims t ! ax) (take k ts)) + idx ! ax]) =
          (if in_range idx (dims (ts ! k)) then elem_at (ts ! k) idx else - 1)"
    if k: "k < length ts" and r: "in_range idx ((dims u)[ax := dims (ts ! k) ! ax])" for k idx
  proof -
    have tk: "ts ! k \<in> set ts" using k by simp
    have li: "length idx = rank" using in_range_length [OF r] du(2) [OF assms(2)] by simp
    have dp: "(dims u)[ax := dims (ts ! k) ! ax] = dims (ps ! k)"
      using k du pt(1,2) [OF tk] assms(2) by (intro nth_equalityI) (auto simp: ps_def nth_list_update)
    have i: "idx ! ax < dims (ps ! k) ! ax" using r assms(2) pt(1) [OF tk] k unfolding dp by (simp add: in_range_nth ps_def)
    have "map (\<lambda>t. dims t ! ax) (take k ps) = map (\<lambda>t. dims t ! ax) (take k ts)" using sums by (metis take_map)
    then have "elem_at u (idx[ax := sum_list (map (\<lambda>t. dims t ! ax) (take k ts)) + idx ! ax]) = elem_at (ps ! k) idx"
      using cat_at_part [of k ps "idx ! ax" ax idx] k i li assms(2) by (simp add: u_def ps_def)
    then show ?thesis using pt(3) [OF tk, of idx] r k unfolding dp by (simp add: ps_def)
  qed
  have "merge_microbatch_keep_indices (map TensorV ts) ax (- 1) = Inr (TensorV u)" using merged padded by (simp add: u_def)
  then show ?thesis using du msx part assms(2) by (intro exI [of _ u]) auto
qed


definition demo_keep :: "nat \<Rightarrow> int nd" where
  "demo_keep n = \<lparr>dims = [1, n], elem_at = (\<lambda>idx. int (idx ! 1))\<rparr>"

theorem keep_indices_merge_exact_witness:
  "\<exists>u. merge_microbatch_keep_indices (map TensorV [demo_keep 1, demo_keep 2]) 0 (- 1) = Inr (TensorV u) \<and> dims u ! 0 = 2"
  using keep_indices_merge_exact [of "[demo_keep 1, demo_keep 2]" 0 2] by (auto simp: demo_keep_def)

section \<open>Slicing and context\<close>

text \<open>
  The inputs of the micro-batches tile the request: slicing a request's inputs at every range gives
  pieces whose hidden states, and whose batch-aligned mask, concatenate back to the full tensors,
  whose sizes add up to the batch, and whose offsets are the range starts.
\<close>
theorem sliced_inputs_tile_batch:
  assumes "0 < n" and "dims hidden \<noteq> []" and "dims hidden ! 0 = n" and "dims tm \<noteq> []" and "dims tm ! 0 = n"
    and "0 < numel tm"
  shows "\<exists>parts u v. map (\<lambda>(s, e). slice_microbatch_inputs hidden NoneV (TensorV tm) k d p q a s e n) (compute_micro_batch_ranges mbs n) = map Inr parts \<and>
     nd_cat 0 (map hidden_states parts) = Inr u \<and> nd_eq u hidden \<and>
     map tree_attention_mask parts = map TensorV (map (\<lambda>(s, e). nd_slice 0 s e tm) (compute_micro_batch_ranges mbs n)) \<and>
     nd_cat 0 (map (\<lambda>(s, e). nd_slice 0 s e tm) (compute_micro_batch_ranges mbs n)) = Inr v \<and> nd_eq v tm \<and>
     sum_list (map micro_batch_size parts) = int n \<and>
     map batch_offset parts = map fst (compute_micro_batch_ranges mbs n)"
proof -
  define rs where "rs = compute_micro_batch_ranges mbs n"
  define part where "part = (\<lambda>(s, e). \<lparr>hidden_states = nd_slice 0 s e hidden, hypo_ids = NoneV,
                 tree_attention_mask = TensorV (nd_slice 0 s e tm),
                 kv_cache_position_ids = slice_batch_aligned k s e n,
                 draft_tokens = slice_batch_aligned d s e n, prefill_length = slice_batch_aligned p s e n,
                 keep_indices = slice_keep_indices q s e n, active_mask = slice_batch_aligned a s e n,
                 batch_offset = s, full_batch_size = n, micro_batch_size = int e - int s\<rparr>)"
  have "(\<lambda>(s, e). slice_microbatch_inputs hidden NoneV (TensorV tm) k d p q a s e n) = (\<lambda>r. Inr (part r))"
    using assms by (auto simp: slice_microbatch_inputs_def part_def is_dummy_def fun_eq_iff)
  then have 1: "map (\<lambda>(s, e). slice_microbatch_inputs hidden NoneV (TensorV tm) k d p q a s e n) rs = map Inr (map part rs)"
    by simp
  have hs: "map hidden_states (map part rs) = map (\<lambda>(s, e). nd_slice 0 s e hidden) rs"
    and ms: "map tree_attention_mask (map part rs) = map TensorV (map (\<lambda>(s, e). nd_slice 0 s e tm) rs)"
    and os: "map batch_offset (map part rs) = map fst rs"
    by (auto simp: part_def)
  have "sum_list (map micro_batch_size (map part rs)) = int (sum_list (map (\<lambda>(s, e). e - s) rs))"
  proof -
    have "s \<le> e" if "(s, e) \<in> set rs" for s e
      using contiguous_bounds [OF compute_ranges_contiguous] that by (fastforce simp: rs_def)
    then have "map (micro_batch_size \<circ> part) rs = map (int \<circ> (\<lambda>(s, e). e - s)) rs" by (auto simp: part_def of_nat_diff)
    then have "sum_list (map (micro_batch_size \<circ> part) rs) = sum_list (map int (map (\<lambda>(s, e). e - s) rs))" by (simp only: map_map)
    moreover have "sum_list (map int xs) = int (sum_list xs)" for xs by (induction xs) auto
    ultimately show ?thesis by (simp only: map_map [symmetric])
  qed
  then have sz: "sum_list (map micro_batch_size (map part rs)) = int n" by (simp add: rs_def microbatch.sizes_sum)
  have l: "0 < length (dims hidden)" "0 < dims hidden ! 0" "0 < length (dims tm)" "0 < dims tm ! 0" using assms by auto
  show ?thesis
    using 1 hs ms os sz microbatch.cat_ranges [OF l(1,2), of mbs] microbatch.cat_ranges [OF l(3,4), of mbs] assms(3,5)
    unfolding rs_def [symmetric] by (metis rs_def)
qed

theorem sliced_inputs_tile_batch_witness:
  "\<exists>parts u. map (\<lambda>(s, e). slice_microbatch_inputs demo_nd NoneV (TensorV demo_nd) NoneV NoneV NoneV NoneV NoneV s e 2) (compute_micro_batch_ranges 1 2) = map Inr parts \<and>
     nd_cat 0 (map hidden_states parts) = Inr u \<and> nd_eq u demo_nd"
proof -
  have "numel demo_nd = 6" by (simp add: numel_def demo_nd_def)
  then show ?thesis
    using sliced_inputs_tile_batch [of 2 demo_nd demo_nd NoneV NoneV NoneV NoneV NoneV 1] by (auto simp: demo_nd_def)
qed

text \<open>
  Fields sent only with the first micro-batch reach every later one: after caching, filling the
  defaults returns exactly the cached values, even those cached as \<open>None\<close>, and without an initialised
  context it returns the documented defaults.
\<close>
lemma cached_fields_reach_every_microbatch:
  "snd (fill_microbatch_defaults b sl keep (Some (cache_from_mb0 v1 v2 v3 v4 v5 v6 v7 v8 m (new_request_context rid sid))) n) =
     [v1, v2, v3, v4, v5, v6, v7, v8] \<and>
   snd (fill_microbatch_defaults b sl keep (Some (new_request_context rid sid)) n) =
     [FNones n, FArange b, FNone, FNone, FNone, FInt 0, FBool False, FBool False] \<and>
   fst (fill_microbatch_defaults b sl None ctx n) = FArange sl"
  by (simp add: fill_microbatch_defaults_def field_defaults_def get_field_def cache_from_mb0_def new_request_context_def)

end
