(* ===== verification/Spans.thy ===== *)
theory Spans
  imports BB_Prelude
begin

text \<open>
  Which server holds which blocks: \<^verbatim>\<open>data_structures.py\<close> (server records and module uids),
  \<^verbatim>\<open>utils/dht.py\<close> (\<open>compute_spans\<close>), \<^verbatim>\<open>client/routing/sequence_info.py\<close> and
  \<^verbatim>\<open>server/block_selection.py\<close>.

  Peer ids are an arbitrary linear order, dictionaries are lists of items in insertion order,
  throughputs are real numbers (the code uses floats and guards its comparisons with an epsilon). A
  module uid is a string and is parsed as the code does. The random shuffle of the rebalancing
  simulation is an argument.
\<close>

section \<open>Module uids\<close>

fun split_on :: "char \<Rightarrow> string \<Rightarrow> string list" where
  "split_on c [] = [[]]"
| "split_on c (x # xs) =
     (if x = c then [] # split_on c xs
      else (case split_on c xs of [] \<Rightarrow> [[x]] | y # ys \<Rightarrow> (x # y) # ys))"

definition digit_value :: "char \<Rightarrow> nat option" where
  "digit_value c = (let n = of_char c :: nat in if 48 \<le> n \<and> n \<le> 57 then Some (n - 48) else None)"

text \<open>\<open>int()\<close> of a string: surrounding blanks, a sign, digits with single underscores between.\<close>

fun parse_digits :: "string \<Rightarrow> nat \<Rightarrow> bool \<Rightarrow> nat option" where
  "parse_digits [] acc after_digit = (if after_digit then Some acc else None)"
| "parse_digits (c # cs) acc after_digit =
     (case digit_value c of
        Some d \<Rightarrow> parse_digits cs (acc * 10 + d) True
      | None \<Rightarrow> if c = CHR ''_'' \<and> after_digit then parse_digits cs acc False else None)"

definition py_int :: "string \<Rightarrow> int result" where
  "py_int s =
     (let t = rev (dropWhile (\<lambda>c. c = CHR '' '') (rev (dropWhile (\<lambda>c. c = CHR '' '') s)));
          r = (case t of
                 [] \<Rightarrow> None
               | c # cs \<Rightarrow>
                   if c = CHR ''-'' then map_option (\<lambda>n. - int n) (parse_digits cs 0 False)
                   else if c = CHR ''+'' then map_option int (parse_digits cs 0 False)
                   else map_option int (parse_digits t 0 False))
      in (case r of None \<Rightarrow> Inl ValueError | Some i \<Rightarrow> Inr i))"

definition parse_uid :: "string \<Rightarrow> (string \<times> int) result" where
  "parse_uid uid =
     (if CHR '' '' \<in> set uid then Inl AssertionError
      else (case split_on CHR ''.'' uid of
              [prefix, index] \<Rightarrow> (case py_int index of Inl e \<Rightarrow> Inl e | Inr i \<Rightarrow> Inr (prefix, i))
            | _ \<Rightarrow> Inl ValueError))"

section \<open>Servers, modules and spans\<close>

datatype server_state = OFFLINE | JOINING | ONLINE

fun state_value :: "server_state \<Rightarrow> nat" where
  "state_value OFFLINE = 0" | "state_value JOINING = 1" | "state_value ONLINE = 2"

record 'p server_info =
  sstate :: server_state
  sthroughput :: real
  start_block :: "int option"
  end_block :: "int option"
  inference_rps :: "real option"
  network_rps :: "real option"
  forward_rps :: "real option"
  using_relay :: "bool option"
  cache_tokens_left :: "int option"
  next_pings :: "('p \<times> real) list option"
  adapters :: "string list"

record 'p module_info =
  uid :: string
  servers :: "('p \<times> 'p server_info) list"

record 'p span_info =
  span_peer :: 'p
  span_start :: int
  span_end :: int
  span_server :: "'p server_info"

definition span_length :: "'p span_info \<Rightarrow> int" where
  "span_length sp = span_end sp - span_start sp"

definition span_state :: "'p span_info \<Rightarrow> server_state" where
  "span_state sp = sstate (span_server sp)"

definition span_throughput :: "'p span_info \<Rightarrow> real" where
  "span_throughput sp = sthroughput (span_server sp)"

text \<open>The span a new entry opens: its own block, or the range the server claims.\<close>

definition entry_span :: "int \<Rightarrow> nat \<Rightarrow> nat \<Rightarrow> 'p \<Rightarrow> 'p server_info \<Rightarrow> 'p span_info" where
  "entry_span offset n block_idx p info =
     (let fresh = \<lparr>span_peer = p, span_start = int block_idx, span_end = int block_idx + 1, span_server = info\<rparr> in
      (case (start_block info, end_block info) of
         (Some sb, Some eb) \<Rightarrow> fresh\<lparr>span_start := max (sb - offset) 0, span_end := min (eb - offset) (int n)\<rparr>
       | _ \<Rightarrow> fresh))"

text \<open>One server entry of one block in the double loop of \<open>compute_spans\<close>.\<close>

definition add_entry ::
  "server_state \<Rightarrow> int \<Rightarrow> nat \<Rightarrow> nat \<Rightarrow> ('p \<times> 'p span_info) list \<Rightarrow> 'p \<times> 'p server_info \<Rightarrow> ('p \<times> 'p span_info) list" where
  "add_entry min_state offset n block_idx spans entry =
     (let (p, info) = entry in
      if state_value (sstate info) < state_value min_state then spans
      else
        (case map_of spans p of
           None \<Rightarrow> dict_put p (entry_span offset n block_idx p info) spans
         | Some sp \<Rightarrow>
             if state_value (span_state sp) < state_value (sstate info)
             then dict_put p (entry_span offset n block_idx p info) spans
             else if span_state sp = sstate info
             then dict_put p (sp\<lparr>span_end := max (span_end sp) (int block_idx + 1)\<rparr>) spans
             else spans))"

fun spans_loop ::
  "server_state \<Rightarrow> int \<Rightarrow> nat \<Rightarrow> nat \<Rightarrow> ('p :: linorder) module_info list \<Rightarrow> ('p \<times> 'p span_info) list \<Rightarrow> ('p \<times> 'p span_info) list" where
  "spans_loop min_state offset n i [] spans = spans"
| "spans_loop min_state offset n i (m # ms) spans =
     spans_loop min_state offset n (Suc i) ms (foldl (add_entry min_state offset n i) spans (sort_key fst (servers m)))"

definition compute_spans :: "server_state \<Rightarrow> ('p :: linorder) module_info list \<Rightarrow> ('p \<times> 'p span_info) list result" where
  "compute_spans min_state infos =
     (case (case infos of [] \<Rightarrow> Inr 0 | m # ms \<Rightarrow> map_sum id snd (parse_uid (uid m))) of
        Inl e \<Rightarrow> Inl e
      | Inr offset \<Rightarrow> Inr (spans_loop min_state offset (length infos) 0 infos []))"

section \<open>Sequence information\<close>

record 'p sequence_info =
  block_uids :: "string list"
  block_infos :: "'p module_info list"
  spans_by_priority :: "'p span_info list"
  spans_containing_block :: "'p span_info list list"
  last_updated_time :: "real option"

definition make_empty :: "string list \<Rightarrow> 'p sequence_info" where
  "make_empty uids = \<lparr>block_uids = uids, block_infos = map (\<lambda>u. \<lparr>uid = u, servers = []\<rparr>) uids,
     spans_by_priority = [], spans_containing_block = replicate (length uids) [], last_updated_time = None\<rparr>"

text \<open>\<open>for block_index in range(span.start, span.end): ...append(span)\<close>; a bad index raises.\<close>

definition append_span :: "'p span_info list list result \<Rightarrow> 'p span_info \<Rightarrow> 'p span_info list list result" where
  "append_span acc sp =
     (case acc of
        Inl e \<Rightarrow> Inl e
      | Inr table \<Rightarrow>
          foldl (\<lambda>r b. case r of
                   Inl e \<Rightarrow> Inl e
                 | Inr tb \<Rightarrow>
                     if b < - int (length tb) \<or> int (length tb) \<le> b then Inl IndexError
                     else let k = nat (if b < 0 then b + int (length tb) else b) in Inr (tb[k := tb ! k @ [sp]]))
            (Inr table) [span_start sp..span_end sp - 1])"

definition sort_spans :: "('p :: linorder) module_info list \<Rightarrow> ('p span_info list \<times> 'p span_info list list) result" where
  "sort_spans infos =
     (case compute_spans ONLINE infos of
        Inl e \<Rightarrow> Inl e
      | Inr spans \<Rightarrow>
          let by_priority = sort_key (\<lambda>sp. - span_length sp) (map snd spans) in
          (case foldl append_span (Inr (replicate (length infos) [])) by_priority of
             Inl e \<Rightarrow> Inl e
           | Inr table \<Rightarrow> Inr (by_priority, table)))"

definition slice_sequence :: "nat \<Rightarrow> nat \<Rightarrow> ('p :: linorder) sequence_info \<Rightarrow> 'p sequence_info result" where
  "slice_sequence a b s =
     (case sort_spans (pyslice a b (block_infos s)) of
        Inl e \<Rightarrow> Inl e
      | Inr (by_priority, table) \<Rightarrow>
          Inr \<lparr>block_uids = pyslice a b (block_uids s), block_infos = pyslice a b (block_infos s),
               spans_by_priority = by_priority, spans_containing_block = table,
               last_updated_time = last_updated_time s\<rparr>)"

fun update_infos :: "string list \<Rightarrow> 'p module_info list \<Rightarrow> 'p module_info list \<Rightarrow> ('p module_info list, unit) outcome" where
  "update_infos (u # us) (new # news) (old # olds) =
     (if u \<noteq> uid new then (Inl AssertionError, old # olds)
      else (case update_infos us news olds of (r, rest) \<Rightarrow> (r, old\<lparr>servers := servers new\<rparr> # rest)))"
| "update_infos us news olds = (Inr (), olds)"

definition update_sequence :: "('p :: linorder) module_info list \<Rightarrow> real \<Rightarrow> 'p sequence_info \<Rightarrow> ('p sequence_info, unit) outcome" where
  "update_sequence news now s =
     (if length news \<noteq> length (block_uids s) then (Inl AssertionError, s)
      else
        (case update_infos (block_uids s) news (block_infos s) of
           (Inl e, infos) \<Rightarrow> (Inl e, s\<lparr>block_infos := infos\<rparr>)
         | (Inr _, infos) \<Rightarrow>
             (case sort_spans infos of
                Inl e \<Rightarrow> (Inl e, s\<lparr>block_infos := infos\<rparr>)
              | Inr (by_priority, table) \<Rightarrow>
                  (Inr (), s\<lparr>block_infos := infos, spans_by_priority := by_priority,
                             spans_containing_block := table, last_updated_time := Some now\<rparr>))))"

section \<open>Block selection\<close>

text \<open>\<open>throughputs[a:b] += v\<close>, with negative bounds counted from the end as NumPy does.\<close>

definition slice_bound :: "nat \<Rightarrow> int \<Rightarrow> int" where
  "slice_bound n b = (if b < 0 then max 0 (b + int n) else min b (int n))"

definition add_range :: "int \<Rightarrow> int \<Rightarrow> real \<Rightarrow> real list \<Rightarrow> real list" where
  "add_range a b v thr =
     map (\<lambda>i. if slice_bound (length thr) a \<le> int i \<and> int i < slice_bound (length thr) b then thr ! i + v else thr ! i)
       [0..<length thr]"

definition add_span :: "'p span_info \<Rightarrow> real \<Rightarrow> real list \<Rightarrow> real list" where
  "add_span sp v thr = add_range (span_start sp) (span_end sp) v thr"

definition compute_throughputs :: "(('p :: linorder) \<times> 'p span_info) list \<Rightarrow> nat \<Rightarrow> real list" where
  "compute_throughputs spans total_blocks =
     foldl (\<lambda>thr sp. add_span sp (span_throughput sp) thr) (replicate total_blocks 0) (sort_key span_peer (map snd spans))"

text \<open>Lexicographic comparison of the sorted windows, then of the start.\<close>

fun lex_less :: "real list \<Rightarrow> real list \<Rightarrow> bool" where
  "lex_less [] [] = False"
| "lex_less [] (y # ys) = True"
| "lex_less (x # xs) [] = False"
| "lex_less (x # xs) (y # ys) = (x < y \<or> x = y \<and> lex_less xs ys)"

definition window :: "real list \<Rightarrow> int \<Rightarrow> nat \<Rightarrow> real list" where
  "window thr num_blocks i =
     sort (pyslice (nat (slice_bound (length thr) (int i))) (nat (slice_bound (length thr) (int i + num_blocks))) thr)"

text \<open>\<open>min\<close> over the windows in order of their start; with no window it raises.\<close>

definition choose_best_start :: "real list \<Rightarrow> int \<Rightarrow> nat result" where
  "choose_best_start thr num_blocks =
     (if int (length thr) < num_blocks then Inl ValueError
      else Inr (foldl (\<lambda>best i. if lex_less (window thr num_blocks i) (window thr num_blocks best) then i else best)
                  0 [0..<nat (int (length thr) - num_blocks + 1)]))"

definition choose_best_blocks :: "nat \<Rightarrow> ('p :: linorder) module_info list \<Rightarrow> nat list result" where
  "choose_best_blocks num_blocks infos =
     (case compute_spans JOINING infos of
        Inl e \<Rightarrow> Inl e
      | Inr spans \<Rightarrow>
          (case choose_best_start (compute_throughputs spans (length infos)) (int num_blocks) of
             Inl e \<Rightarrow> Inl e
           | Inr start \<Rightarrow> Inr [start..<start + num_blocks]))"

definition move_span :: "'p span_info \<Rightarrow> int \<Rightarrow> 'p span_info" where
  "move_span sp new_start = sp\<lparr>span_start := new_start, span_end := new_start + span_length sp\<rparr>"

definition block_eps :: real where
  "block_eps = 1 / 1000"

text \<open>One server of a round of the simulated rebalancing.\<close>

definition rebalance_one ::
  "'p \<Rightarrow> (real list \<times> ('p \<times> 'p span_info) list) \<Rightarrow> (bool \<times> real list \<times> ('p \<times> 'p span_info) list) result" where
  "rebalance_one p st =
     (let (thr, spans) = st in
      (case map_of spans p of
         None \<Rightarrow> Inl KeyError
       | Some sp \<Rightarrow>
           let thr1 = add_span sp (- (span_throughput sp * (1 + block_eps))) thr in
           (case choose_best_start thr1 (span_length sp) of
              Inl e \<Rightarrow> Inl e
            | Inr new_start \<Rightarrow>
                let thr2 = add_span sp (span_throughput sp * block_eps) thr1;
                    moved = (span_start sp \<noteq> int new_start);
                    sp' = (if moved then move_span sp (int new_start) else sp)
                in Inr (moved, add_span sp' (span_throughput sp) thr2, dict_put p sp' spans))))"

fun rebalance_round ::
  "'p list \<Rightarrow> bool \<Rightarrow> real list \<times> ('p \<times> 'p span_info) list \<Rightarrow> (bool \<times> real list \<times> ('p \<times> 'p span_info) list) result" where
  "rebalance_round [] moved st = Inr (moved, st)"
| "rebalance_round (p # ps) moved st =
     (case rebalance_one p st of
        Inl e \<Rightarrow> Inl e
      | Inr (m, st') \<Rightarrow> rebalance_round ps (moved \<or> m) st')"

text \<open>
  \<open>while moved\<close>: nothing bounds the number of rounds, so a run that does not end is \<open>None\<close>.
  \<open>shuffle k\<close> is the permutation drawn in round \<open>k\<close>.
\<close>

partial_function (option) rebalance_loop ::
  "(nat \<Rightarrow> 'p list \<Rightarrow> 'p list) \<Rightarrow> nat \<Rightarrow> real list \<times> ('p \<times> 'p span_info) list \<Rightarrow>
   (real list \<times> ('p \<times> 'p span_info) list) result option" where
  "rebalance_loop shuffle k st =
     (case rebalance_round (shuffle k (map fst (snd st))) False st of
        Inl e \<Rightarrow> Some (Inl e)
      | Inr (moved, st') \<Rightarrow> if moved then rebalance_loop shuffle (Suc k) st' else Some (Inr st'))"

definition should_choose_other_blocks ::
  "(nat \<Rightarrow> 'p list \<Rightarrow> 'p list) \<Rightarrow> 'p \<Rightarrow> ('p :: linorder) module_info list \<Rightarrow> real \<Rightarrow> bool result option" where
  "should_choose_other_blocks shuffle local_peer infos balance_quality =
     (if 1 < balance_quality then Some (Inr True)
      else (case compute_spans JOINING infos of
        Inl e \<Rightarrow> Some (Inl e)
      | Inr spans \<Rightarrow>
          let thr = compute_throughputs spans (length infos) in
          if thr = [] then Some (Inl ValueError)
          else
            let initial = Min (set thr) in
            (case map_of spans local_peer of
               None \<Rightarrow> Some (Inl AssertionError)
             | Some sp \<Rightarrow>
                 let thr1 = add_span sp (- (span_throughput sp * (1 + block_eps))) thr in
                 if block_eps < initial \<and> Min (set thr1) \<le> 0 then Some (Inr False)
                 else (case choose_best_start thr1 (span_length sp) of
                    Inl e \<Rightarrow> Some (Inl e)
                  | Inr new_start \<Rightarrow>
                      if span_start sp = int new_start then Some (Inr False)
                      else
                        let thr2 = add_span sp (span_throughput sp * block_eps) thr1;
                            sp' = move_span sp (int new_start);
                            thr3 = add_span sp' (span_throughput sp) thr2
                        in (case rebalance_loop shuffle 0 (thr3, dict_put local_peer sp' spans) of
                              None \<Rightarrow> None
                            | Some (Inl e) \<Rightarrow> Some (Inl e)
                            | Some (Inr (thr', _)) \<Rightarrow>
                                let new_throughput = Min (set thr') in
                                if new_throughput < initial \<or> new_throughput < block_eps then Some (Inr False)
                                else Some (Inr (initial / new_throughput < balance_quality - block_eps)))))))"


section \<open>Computed spans\<close>

definition span_ok :: "server_state \<Rightarrow> nat \<Rightarrow> 'p \<times> 'p span_info \<Rightarrow> bool" where
  "span_ok min_state n e \<longleftrightarrow>
     (case e of (p, sp) \<Rightarrow> span_peer sp = p \<and> 0 \<le> span_start sp \<and> span_end sp \<le> int n \<and>
        state_value min_state \<le> state_value (span_state sp))"

definition spans_ok :: "server_state \<Rightarrow> nat \<Rightarrow> ('p \<times> 'p span_info) list \<Rightarrow> bool" where
  "spans_ok min_state n spans \<longleftrightarrow> distinct (map fst spans) \<and> (\<forall>e \<in> set spans. span_ok min_state n e)"

lemma spans_ok_put:
  assumes "spans_ok ms n spans" and "span_ok ms n (p, sp)"
  shows "spans_ok ms n (dict_put p sp spans)"
proof -
  have "span_ok ms n e" if "e \<in> set (dict_put p sp spans)" for e
    using in_dict_put [of "fst e" "snd e" p sp spans] that assms by (auto simp: spans_ok_def)
  then show ?thesis using assms by (simp add: spans_ok_def distinct_dict_put)
qed

lemma entry_span_ok:
  "i < n \<Longrightarrow> state_value ms \<le> state_value (sstate info) \<Longrightarrow> span_ok ms n (p, entry_span offset n i p info)"
  by (auto simp: span_ok_def entry_span_def span_state_def Let_def split: option.splits)

lemma add_entry_ok:
  assumes ok: "spans_ok ms n spans" and i: "i < n"
  shows "spans_ok ms n (add_entry ms offset n i spans e)"
proof -
  obtain p info where e: "e = (p, info)" by fastforce
  show ?thesis
  proof (cases "state_value (sstate info) < state_value ms")
    case True
    with ok show ?thesis by (simp add: add_entry_def e)
  next
    case False
    then have c: "span_ok ms n (p, entry_span offset n i p info)" using i by (intro entry_span_ok) simp_all
    have sp: "span_ok ms n (p, sp\<lparr>span_end := max (span_end sp) (int i + 1)\<rparr>)" if "map_of spans p = Some sp" for sp
      using ok map_of_SomeD [OF that] i by (auto simp: spans_ok_def span_ok_def span_state_def)
    show ?thesis
      using False ok spans_ok_put [OF ok c] spans_ok_put [OF ok sp] by (simp add: add_entry_def e split: option.splits)
  qed
qed

lemma fold_entry_ok: "spans_ok ms n spans \<Longrightarrow> i < n \<Longrightarrow> spans_ok ms n (foldl (add_entry ms offset n i) spans es)"
  by (induction es arbitrary: spans) (auto intro: add_entry_ok)

lemma spans_loop_ok: "spans_ok ms n spans \<Longrightarrow> i + length infos \<le> n \<Longrightarrow> spans_ok ms n (spans_loop ms offset n i infos spans)"
  by (induction infos arbitrary: i spans) (simp_all add: fold_entry_ok)

lemma compute_spans_ok: "compute_spans ms infos = Inr spans \<Longrightarrow> spans_ok ms (length infos) spans"
  unfolding compute_spans_def using spans_loop_ok [of ms "length infos" "[]" 0 infos]
  by (auto simp: spans_ok_def split: sum.splits)

text \<open>A peer's span under the double loop, when all its entries agree and claim no range.\<close>

definition uniform :: "server_state \<Rightarrow> 'p \<Rightarrow> 'p module_info list \<Rightarrow> bool" where
  "uniform st p infos \<longleftrightarrow> (\<forall>m \<in> set infos. distinct (map fst (servers m)) \<and>
     (\<forall>info. (p, info) \<in> set (servers m) \<longrightarrow> sstate info = st \<and> (start_block info = None \<or> end_block info = None)))"

definition holds :: "'p \<Rightarrow> 'p module_info \<Rightarrow> bool" where
  "holds p m \<longleftrightarrow> p \<in> fst ` set (servers m)"

lemma add_entry_other: "q \<noteq> p \<Longrightarrow> map_of (add_entry ms offset n i spans (q, info)) p = map_of spans p"
  by (auto simp: add_entry_def Let_def split: option.splits)

lemma fold_entry_other: "p \<notin> fst ` set es \<Longrightarrow> map_of (foldl (add_entry ms offset n i) spans es) p = map_of spans p"
  by (induction es arbitrary: spans) (auto simp: add_entry_other)

definition extended :: "'p span_info option \<Rightarrow> 'p \<Rightarrow> nat \<Rightarrow> 'p server_info \<Rightarrow> 'p span_info" where
  "extended old p i info =
     (case old of
        None \<Rightarrow> \<lparr>span_peer = p, span_start = int i, span_end = int i + 1, span_server = info\<rparr>
      | Some sp \<Rightarrow> sp\<lparr>span_end := max (span_end sp) (int i + 1)\<rparr>)"

lemma fold_entry_uniform:
  assumes "distinct (map fst es)" and "(p, info) \<in> set es" and "state_value ms \<le> state_value st"
    and "sstate info = st" and "start_block info = None \<or> end_block info = None"
    and "\<forall>sp. map_of spans p = Some sp \<longrightarrow> span_state sp = st"
  shows "map_of (foldl (add_entry ms offset n i) spans es) p = Some (extended (map_of spans p) p i info)"
  using assms
proof (induction es arbitrary: spans)
  case (Cons e es)
  obtain q x where e: "e = (q, x)" by fastforce
  show ?case
  proof (cases "q = p")
    case True
    then have x: "x = info" and out: "p \<notin> fst ` set es" using Cons.prems(1,2) by (auto simp: e rev_image_eqI)
    have "map_of (add_entry ms offset n i spans (p, info)) p = Some (extended (map_of spans p) p i info)"
      using Cons.prems(3-6) by (auto simp: add_entry_def extended_def entry_span_def Let_def split: option.splits)
    then show ?thesis using fold_entry_other [OF out, of ms offset n i "add_entry ms offset n i spans (p, info)"] True x
      by (simp add: e)
  next
    case False
    have "map_of (foldl (add_entry ms offset n i) (add_entry ms offset n i spans (q, x)) es) p =
        Some (extended (map_of (add_entry ms offset n i spans (q, x)) p) p i info)"
      using Cons.prems False by (intro Cons.IH) (auto simp: e add_entry_other)
    then show ?thesis using False by (simp add: e add_entry_other)
  qed
qed simp

lemma distinct_sort_fst: "distinct (map fst xs) \<Longrightarrow> distinct (map fst (sort_key fst xs))"
  by (metis distinct_map mset_eq_imp_distinct_iff mset_map mset_sort)

lemma spans_loop_snoc:
  "spans_loop ms offset n i (xs @ [m]) spans =
   foldl (add_entry ms offset n (i + length xs)) (spans_loop ms offset n i xs spans) (sort_key fst (servers m))"
  by (induction xs arbitrary: i spans) simp_all

definition blocks_of :: "'p \<Rightarrow> 'p module_info list \<Rightarrow> nat list" where
  "blocks_of p infos = filter (\<lambda>j. holds p (infos ! j)) [0..<length infos]"

lemma blocks_of_snoc: "blocks_of p (xs @ [m]) = blocks_of p xs @ (if holds p m then [length xs] else [])"
  by (auto simp: blocks_of_def nth_append intro: filter_cong)

lemma blocks_of_less: "j \<in> set (blocks_of p xs) \<Longrightarrow> j < length xs"
  by (auto simp: blocks_of_def)

lemma spans_loop_uniform:
  assumes ms: "state_value ms \<le> state_value st"
  shows "uniform st p xs \<Longrightarrow>
    (if blocks_of p xs = [] then map_of (spans_loop ms offset n 0 xs []) p = None
     else \<exists>sp. map_of (spans_loop ms offset n 0 xs []) p = Some sp \<and> span_state sp = st \<and>
        span_start sp = int (hd (blocks_of p xs)) \<and> span_end sp = int (last (blocks_of p xs)) + 1)"
proof (induction xs rule: rev_induct)
  case Nil
  then show ?case by (simp add: blocks_of_def)
next
  case (snoc m xs)
  define old where "old = spans_loop ms offset n 0 xs []"
  define new where "new = spans_loop ms offset n 0 (xs @ [m]) []"
  have new: "new = foldl (add_entry ms offset n (length xs)) old (sort_key fst (servers m))"
    by (simp add: new_def old_def spans_loop_snoc)
  have IH: "if blocks_of p xs = [] then map_of old p = None
     else \<exists>sp. map_of old p = Some sp \<and> span_state sp = st \<and>
        span_start sp = int (hd (blocks_of p xs)) \<and> span_end sp = int (last (blocks_of p xs)) + 1"
    using snoc by (simp add: uniform_def old_def)
  have u: "distinct (map fst (servers m))"
    "\<And>info. (p, info) \<in> set (servers m) \<Longrightarrow> sstate info = st \<and> (start_block info = None \<or> end_block info = None)"
    using snoc.prems by (auto simp: uniform_def)
  show ?case
  proof (cases "holds p m")
    case False
    then have "map_of new p = map_of old p" unfolding new by (intro fold_entry_other) (simp add: holds_def)
    with IH False show ?thesis by (simp add: blocks_of_snoc new_def)
  next
    case True
    then obtain info where info: "(p, info) \<in> set (sort_key fst (servers m))" by (auto simp: holds_def)
    then have "(p, info) \<in> set (servers m)" by simp
    note ui = u(2) [OF this]
    have st: "\<forall>sp. map_of old p = Some sp \<longrightarrow> span_state sp = st" using IH by (auto split: if_splits)
    have r: "map_of new p = Some (extended (map_of old p) p (length xs) info)"
      unfolding new by (rule fold_entry_uniform [OF distinct_sort_fst [OF u(1)] info ms _ _ st]) (use ui in auto)
    have lt: "last (blocks_of p xs) < length xs" if "blocks_of p xs \<noteq> []" using blocks_of_less [OF last_in_set [OF that]] .
    show ?thesis
    proof (cases "blocks_of p xs = []")
      case empty: True
      with IH r True ui show ?thesis by (simp add: blocks_of_snoc new_def [symmetric] extended_def span_state_def)
    next
      case False
      with IH obtain sp where sp: "map_of old p = Some sp" "span_state sp = st" "span_start sp = int (hd (blocks_of p xs))"
        "span_end sp = int (last (blocks_of p xs)) + 1" by auto
      have "map_of new p = Some (sp\<lparr>span_end := int (length xs) + 1\<rparr>)"
        using r sp lt [OF False] by (simp add: extended_def max_def)
      with False True sp show ?thesis by (simp add: blocks_of_snoc new_def [symmetric] span_state_def)
    qed
  qed
qed



definition demo_server :: "nat server_info" where
  "demo_server = \<lparr>sstate = ONLINE, sthroughput = 2, start_block = None, end_block = None, inference_rps = None,
     network_rps = None, forward_rps = None, using_relay = None, cache_tokens_left = None, next_pings = None, adapters = []\<rparr>"

definition demo_infos :: "nat module_info list" where
  "demo_infos = [\<lparr>uid = ''m.0'', servers = [(7, demo_server)]\<rparr>, \<lparr>uid = ''m.1'', servers = [(7, demo_server), (3, demo_server)]\<rparr>]"

definition demo_spans :: "(nat \<times> nat span_info) list" where
  "demo_spans = [(7, \<lparr>span_peer = 7, span_start = 0, span_end = 2, span_server = demo_server\<rparr>),
                 (3, \<lparr>span_peer = 3, span_start = 1, span_end = 2, span_server = demo_server\<rparr>)]"

lemma demo_compute_spans: "state_value ms \<le> 2 \<Longrightarrow> compute_spans ms demo_infos = Inr demo_spans"
proof -
  assume ms: "state_value ms \<le> 2"
  have "parse_uid ''m.0'' = Inr (''m'', 0)" by code_simp
  then show ?thesis using ms
    by (simp add: compute_spans_def demo_infos_def demo_spans_def demo_server_def add_entry_def entry_span_def span_state_def)
qed


section \<open>Which spans hold a block\<close>

lemma append_loop:
  assumes "distinct bs" and "\<forall>b \<in> set bs. 0 \<le> b \<and> b < int (length tb)"
  shows "foldl (\<lambda>r b. case r of
                   Inl e \<Rightarrow> Inl e
                 | Inr tb \<Rightarrow>
                     if b < - int (length tb) \<or> int (length tb) \<le> b then Inl IndexError
                     else let k = nat (if b < 0 then b + int (length tb) else b) in Inr (tb[k := tb ! k @ [sp]]))
            (Inr tb) bs = Inr (map (\<lambda>i. if int i \<in> set bs then tb ! i @ [sp] else tb ! i) [0..<length tb])"
  using assms
proof (induction bs arbitrary: tb)
  case Nil
  then show ?case by (simp add: map_nth)
next
  case (Cons b bs)
  define tb' where "tb' = tb[nat b := tb ! nat b @ [sp]]"
  have b: "0 \<le> b" "b < int (length tb)" "b \<notin> set bs" using Cons.prems by auto
  have "map (\<lambda>i. if int i \<in> set bs then tb' ! i @ [sp] else tb' ! i) [0..<length tb'] =
        map (\<lambda>i. if int i \<in> set (b # bs) then tb ! i @ [sp] else tb ! i) [0..<length tb]"
    using b by (intro nth_equalityI) (auto simp: tb'_def nth_list_update)
  moreover have "\<forall>b \<in> set bs. 0 \<le> b \<and> b < int (length tb')" "distinct bs" using Cons.prems by (auto simp: tb'_def)
  ultimately show ?case using b Cons.IH [of tb'] by (simp add: tb'_def Let_def)
qed

definition covers_block :: "'p span_info \<Rightarrow> nat \<Rightarrow> bool" where
  "covers_block sp i \<longleftrightarrow> span_start sp \<le> int i \<and> int i < span_end sp"

lemma append_span_ok:
  assumes "0 \<le> span_start sp" and "span_end sp \<le> int (length tb)"
  shows "append_span (Inr tb) sp = Inr (map (\<lambda>i. if covers_block sp i then tb ! i @ [sp] else tb ! i) [0..<length tb])"
  unfolding append_span_def covers_block_def using append_loop [of "[span_start sp..span_end sp - 1]" tb sp] assms by auto

lemma fold_append_span:
  assumes "\<forall>sp \<in> set sps. 0 \<le> span_start sp \<and> span_end sp \<le> int (length tb)"
  shows "foldl append_span (Inr tb) sps = Inr (map (\<lambda>i. tb ! i @ filter (\<lambda>sp. covers_block sp i) sps) [0..<length tb])"
  using assms
proof (induction sps arbitrary: tb)
  case Nil
  then show ?case by (simp add: map_nth)
next
  case (Cons sp sps)
  define tb' where "tb' = map (\<lambda>i. if covers_block sp i then tb ! i @ [sp] else tb ! i) [0..<length tb]"
  have "foldl append_span (Inr tb') sps = Inr (map (\<lambda>i. tb' ! i @ filter (\<lambda>sp. covers_block sp i) sps) [0..<length tb'])"
    using Cons.prems by (intro Cons.IH) (simp add: tb'_def)
  moreover have "append_span (Inr tb) sp = Inr tb'" using append_span_ok [of sp tb] Cons.prems by (simp add: tb'_def)
  ultimately show ?case by (auto simp: tb'_def)
qed

text \<open>
  The routing tables built from module records never fail once the first uid parses: the spans are
  ordered by decreasing length, and the entry of a block lists exactly the online spans that contain
  it, in that order.
\<close>
theorem routing_tables_exact:
  assumes "compute_spans ONLINE infos = Inr spans"
  shows "\<exists>by_priority table. sort_spans infos = Inr (by_priority, table) \<and>
     mset by_priority = mset (map snd spans) \<and> sorted (map (\<lambda>sp. - span_length sp) by_priority) \<and>
     length table = length infos \<and>
     (\<forall>i < length infos. table ! i = filter (\<lambda>sp. span_start sp \<le> int i \<and> int i < span_end sp) by_priority)"
proof -
  define sps where "sps = sort_key (\<lambda>sp. - span_length sp) (map snd spans)"
  have "\<forall>sp \<in> set sps. 0 \<le> span_start sp \<and> span_end sp \<le> int (length (replicate (length infos) []))"
    using compute_spans_ok [OF assms] by (auto simp: sps_def spans_ok_def span_ok_def)
  from fold_append_span [OF this]
  have t: "foldl append_span (Inr (replicate (length infos) [])) sps =
     Inr (map (\<lambda>i. filter (\<lambda>sp. covers_block sp i) sps) [0..<length infos])" by (simp cong: map_cong)
  have "sort_spans infos = Inr (sps, map (\<lambda>i. filter (\<lambda>sp. covers_block sp i) sps) [0..<length infos])"
    using t by (simp add: sort_spans_def assms Let_def sps_def)
  then show ?thesis by (auto simp: sps_def covers_block_def)
qed

theorem routing_tables_exact_witness:
  "\<exists>by_priority table. sort_spans demo_infos = Inr (by_priority, table) \<and> length table = 2"
  using routing_tables_exact [OF demo_compute_spans] by (auto simp: demo_infos_def)

section \<open>Throughput bookkeeping\<close>

definition covered :: "nat \<Rightarrow> 'p span_info \<Rightarrow> nat \<Rightarrow> bool" where
  "covered n sp i \<longleftrightarrow> slice_bound n (span_start sp) \<le> int i \<and> int i < slice_bound n (span_end sp)"

lemma length_add_span [simp]: "length (add_span sp v thr) = length thr"
  by (simp add: add_span_def add_range_def)

lemma nth_add_span: "i < length thr \<Longrightarrow> add_span sp v thr ! i = thr ! i + (if covered (length thr) sp i then v else 0)"
  by (simp add: add_span_def add_range_def covered_def)

definition load :: "nat \<Rightarrow> ('p \<times> 'p span_info) list \<Rightarrow> nat \<Rightarrow> real" where
  "load n spans i = sum_list (map (\<lambda>e. if covered n (snd e) i then span_throughput (snd e) else 0) spans)"

lemma fold_add_span:
  "length (foldl (\<lambda>thr sp. add_span sp (span_throughput sp) thr) thr sps) = length thr \<and>
   (\<forall>i < length thr. foldl (\<lambda>thr sp. add_span sp (span_throughput sp) thr) thr sps ! i =
      thr ! i + sum_list (map (\<lambda>sp. if covered (length thr) sp i then span_throughput sp else 0) sps))"
  by (induction sps arbitrary: thr) (auto simp: nth_add_span)

lemma compute_throughputs_load:
  "length (compute_throughputs spans n) = n"
  "i < n \<Longrightarrow> compute_throughputs spans n ! i = load n spans i"
proof -
  have "sum_list (map f (sort_key span_peer (map snd spans))) = sum_list (map (\<lambda>e. f (snd e)) spans)" for f :: "'a span_info \<Rightarrow> real"
    using sum_list_mset_cong [of "sort_key span_peer (map snd spans)" "map snd spans" f] by (simp add: comp_def)
  then show "length (compute_throughputs spans n) = n" "i < n \<Longrightarrow> compute_throughputs spans n ! i = load n spans i"
    using fold_add_span [of "replicate n 0" "sort_key span_peer (map snd spans)"] by (auto simp: compute_throughputs_def load_def)
qed

text \<open>Throughputs agree with the spans they were accumulated from.\<close>

definition balanced :: "real list \<times> ('p \<times> 'p span_info) list \<Rightarrow> bool" where
  "balanced st \<longleftrightarrow> distinct (map fst (snd st)) \<and> (\<forall>i < length (fst st). fst st ! i = load (length (fst st)) (snd st) i)"

lemma load_put:
  assumes "distinct (map fst spans)" and "map_of spans p = Some sp"
  shows "load n (dict_put p sp' spans) i = load n spans i - (if covered n sp i then span_throughput sp else 0) +
     (if covered n sp' i then span_throughput sp' else 0)"
  unfolding load_def using sum_dict_put [OF assms, of "\<lambda>sp. if covered n sp i then span_throughput sp else 0" sp'] by simp

text \<open>Removing a span with the epsilon surcharge, adding the surcharge back and placing the span.\<close>

lemma relocate_balanced:
  assumes b: "balanced (thr, spans)" and p: "map_of spans p = Some sp" and tp: "span_throughput sp' = span_throughput sp"
    and thr': "thr' = add_span sp' (span_throughput sp) (add_span sp (span_throughput sp * block_eps)
                        (add_span sp (- (span_throughput sp * (1 + block_eps))) thr))"
  shows "balanced (thr', dict_put p sp' spans)" and "length thr' = length thr"
proof -
  have d: "distinct (map fst spans)" using b by (simp add: balanced_def)
  show l: "length thr' = length thr" by (simp add: thr')
  have "thr' ! i = load (length thr) (dict_put p sp' spans) i" if "i < length thr" for i
    using b that load_put [OF d p, of "length thr" sp' i] tp
    by (cases "covered (length thr) sp i"; cases "covered (length thr) sp' i")
       (simp_all add: thr' nth_add_span balanced_def algebra_simps)
  then show "balanced (thr', dict_put p sp' spans)" using d by (simp add: balanced_def l distinct_dict_put)
qed

definition same_servers :: "('p \<times> 'p span_info) list \<Rightarrow> ('p \<times> 'p span_info) list \<Rightarrow> bool" where
  "same_servers spans spans' \<longleftrightarrow> map fst spans' = map fst spans \<and>
     (\<forall>p sp'. map_of spans' p = Some sp' \<longrightarrow>
        (\<exists>sp. map_of spans p = Some sp \<and> span_server sp' = span_server sp \<and> span_length sp' = span_length sp))"

lemma same_servers_refl: "same_servers spans spans"
  by (simp add: same_servers_def)

lemma same_servers_trans: "same_servers a b \<Longrightarrow> same_servers b c \<Longrightarrow> same_servers a c"
  unfolding same_servers_def by metis

lemma same_servers_move:
  assumes "map_of spans p = Some sp" and "span_server sp' = span_server sp" and "span_length sp' = span_length sp"
  shows "same_servers spans (dict_put p sp' spans)"
  using assms dict_put_same_keys [of spans p sp'] by (auto simp: same_servers_def)

lemma move_span_simps [simp]: "span_server (move_span sp k) = span_server sp" "span_length (move_span sp k) = span_length sp"
  by (simp_all add: move_span_def span_length_def)

definition run_ok :: "real list \<times> ('p \<times> 'p span_info) list \<Rightarrow> real list \<times> ('p \<times> 'p span_info) list \<Rightarrow> bool" where
  "run_ok st st' \<longleftrightarrow> balanced st' \<and> length (fst st') = length (fst st) \<and> same_servers (snd st) (snd st')"

lemma run_ok_refl: "balanced st \<Longrightarrow> run_ok st st"
  by (simp add: run_ok_def same_servers_refl)

lemma run_ok_trans: "run_ok a b \<Longrightarrow> run_ok b c \<Longrightarrow> run_ok a c"
  by (auto simp: run_ok_def intro: same_servers_trans)

lemma rebalance_one_ok:
  assumes "balanced st" and "rebalance_one p st = Inr (m, st')"
  shows "run_ok st st'"
proof -
  obtain thr spans where st: "st = (thr, spans)" by fastforce
  from assms(2) obtain sp k where sp: "map_of spans p = Some sp"
    and k: "choose_best_start (add_span sp (- (span_throughput sp * (1 + block_eps))) thr) (span_length sp) = Inr k"
    by (auto simp: rebalance_one_def st Let_def split: option.splits sum.splits)
  define sp' where "sp' = (if span_start sp \<noteq> int k then move_span sp (int k) else sp)"
  define thr' where "thr' = add_span sp' (span_throughput sp) (add_span sp (span_throughput sp * block_eps)
                        (add_span sp (- (span_throughput sp * (1 + block_eps))) thr))"
  have st': "st' = (thr', dict_put p sp' spans)"
    using assms(2) sp k by (auto simp: rebalance_one_def st Let_def sp'_def thr'_def)
  have sv: "span_server sp' = span_server sp" "span_length sp' = span_length sp" by (simp_all add: sp'_def)
  then have "span_throughput sp' = span_throughput sp" by (simp add: span_throughput_def)
  from relocate_balanced [OF assms(1) [unfolded st] sp this thr'_def] same_servers_move [OF sp sv]
  show ?thesis by (simp add: run_ok_def st st')
qed

lemma rebalance_round_ok: "balanced st \<Longrightarrow> rebalance_round ps moved st = Inr (m, st') \<Longrightarrow> run_ok st st'"
proof (induction ps arbitrary: moved st)
  case (Cons p ps)
  then obtain m1 st1 where 1: "rebalance_one p st = Inr (m1, st1)" "rebalance_round ps (moved \<or> m1) st1 = Inr (m, st')"
    by (auto split: sum.splits)
  have r: "run_ok st st1" by (rule rebalance_one_ok [OF Cons.prems(1) 1(1)])
  then have "balanced st1" by (simp add: run_ok_def)
  from run_ok_trans [OF r Cons.IH [OF this 1(2)]] show ?case .
qed (simp add: run_ok_refl)

lemma rebalance_loop_ok:
  assumes "rebalance_loop shuffle k st = Some r"
  shows "balanced st \<longrightarrow> (\<forall>st'. r = Inr st' \<longrightarrow> run_ok st st')"
proof (rule rebalance_loop.raw_induct [where P = "\<lambda>shuffle k st r. balanced st \<longrightarrow> (\<forall>st'. r = Inr st' \<longrightarrow> run_ok st st')", OF _ assms])
  fix loop shuffle k and st :: "real list \<times> ('a \<times> 'a span_info) list" and r
  assume IH: "\<And>shuffle k st r. loop shuffle k st = Some r \<Longrightarrow> balanced st \<longrightarrow> (\<forall>st'. r = Inr st' \<longrightarrow> run_ok st st')"
    and step: "(case rebalance_round (shuffle k (map fst (snd st))) False st of Inl e \<Rightarrow> Some (Inl e)
        | Inr (moved, st') \<Rightarrow> if moved then loop shuffle (Suc k) st' else Some (Inr st')) = Some r"
  show "balanced st \<longrightarrow> (\<forall>st'. r = Inr st' \<longrightarrow> run_ok st st')"
  proof (intro impI allI)
    fix st' assume b: "balanced st" and r: "r = Inr st'"
    from step r obtain moved st1 where rr: "rebalance_round (shuffle k (map fst (snd st))) False st = Inr (moved, st1)"
      by (auto split: sum.splits)
    have ok: "run_ok st st1" by (rule rebalance_round_ok [OF b rr])
    show "run_ok st st'"
    proof (cases moved)
      case True
      then have "loop shuffle (Suc k) st1 = Some r" using step rr by simp
      from IH [OF this] r ok have "run_ok st1 st'" by (simp add: run_ok_def)
      with ok show ?thesis by (rule run_ok_trans)
    next
      case False
      with step rr r ok show ?thesis by simp
    qed
  qed
qed

text \<open>
  The incremental throughput bookkeeping of the rebalancing simulation never drifts: a round that
  returns leaves throughputs that equal, block by block, the sum over the moved spans, and it only
  relocates spans: the same servers, lengths and throughputs.
\<close>
theorem rebalance_bookkeeping:
  assumes "distinct (map fst spans)"
    and "rebalance_loop shuffle k (compute_throughputs spans n, spans) = Some (Inr (thr', spans'))"
  shows "thr' = compute_throughputs spans' n \<and> same_servers spans spans'"
proof -
  let ?st = "(compute_throughputs spans n, spans)"
  have "balanced ?st" using assms(1) by (auto simp: balanced_def compute_throughputs_load)
  with rebalance_loop_ok [OF assms(2)] have ok: "run_ok ?st (thr', spans')" by simp
  then have "thr' = compute_throughputs spans' n"
    by (intro nth_equalityI) (auto simp: run_ok_def balanced_def compute_throughputs_load)
  with ok show ?thesis by (simp add: run_ok_def)
qed

section \<open>The best window\<close>

lemma lex_less_trans: "lex_less xs ys \<Longrightarrow> lex_less ys zs \<Longrightarrow> lex_less xs zs"
proof (induction xs ys arbitrary: zs rule: lex_less.induct)
  case (4 x xs y ys)
  then show ?case by (cases zs) auto
qed (auto elim: lex_less.elims)

lemma lex_less_irrefl [simp]: "\<not> lex_less xs xs"
  by (induction xs) auto

lemma argmin_fold:
  assumes tr: "\<And>a b c. lt a b \<Longrightarrow> lt b c \<Longrightarrow> lt a c" and ir: "\<And>a. \<not> lt a a"
  shows "let b = foldl (\<lambda>best i. if lt (w i) (w best) then i else best) 0 [0..<Suc n] in
     b \<le> n \<and> (\<forall>j \<le> n. \<not> lt (w j) (w b) \<and> (w j = w b \<longrightarrow> b \<le> j))"
proof (induction n)
  case 0
  then show ?case by (simp add: ir)
next
  case (Suc n)
  define b where "b = foldl (\<lambda>best i. if lt (w i) (w best) then i else best) 0 [0..<Suc n]"
  have IH: "b \<le> n" "\<And>j. j \<le> n \<Longrightarrow> \<not> lt (w j) (w b)" "\<And>j. j \<le> n \<Longrightarrow> w j = w b \<Longrightarrow> b \<le> j"
    using Suc unfolding b_def by (auto simp: Let_def)
  have step: "foldl (\<lambda>best i. if lt (w i) (w best) then i else best) 0 [0..<Suc (Suc n)] =
      (if lt (w (Suc n)) (w b) then Suc n else b)"
    by (simp add: b_def)
  show ?case
  proof (cases "lt (w (Suc n)) (w b)")
    case True
    have "\<not> lt (w j) (w (Suc n))" if "j \<le> Suc n" for j
      using that IH(2) [of j] tr [OF _ True, of "w j"] ir by (cases "j = Suc n") auto
    moreover have "Suc n \<le> j" if "j \<le> Suc n" "w j = w (Suc n)" for j
      using that IH(2) [of j] True by (cases "j = Suc n") auto
    ultimately show ?thesis unfolding step Let_def using True by simp
  next
    case False
    have "\<not> lt (w j) (w b) \<and> (w j = w b \<longrightarrow> b \<le> j)" if "j \<le> Suc n" for j
      using that IH False by (cases "j = Suc n") auto
    then show ?thesis unfolding step Let_def using False IH(1) by simp
  qed
qed

text \<open>
  A joining server takes the weakest stretch of the model: when there are enough blocks, the chosen
  blocks are consecutive, lie within the model, and no other stretch of that length has a smaller
  sorted throughput vector; among equal ones the first is taken.
\<close>
theorem best_blocks_weakest:
  assumes "compute_spans JOINING infos = Inr spans" and "k \<le> length infos"
  shows "\<exists>start. choose_best_blocks k infos = Inr [start..<start + k] \<and> start + k \<le> length infos \<and>
     (\<forall>j. j + k \<le> length infos \<longrightarrow>
        \<not> lex_less (sort (pyslice j (j + k) (compute_throughputs spans (length infos))))
                   (sort (pyslice start (start + k) (compute_throughputs spans (length infos)))) \<and>
        (sort (pyslice j (j + k) (compute_throughputs spans (length infos))) =
           sort (pyslice start (start + k) (compute_throughputs spans (length infos))) \<longrightarrow> start \<le> j))"
proof -
  define n where "n = length infos"
  define thr where "thr = compute_throughputs spans n"
  define w where "w = window thr (int k)"
  define b where "b = foldl (\<lambda>best i. if lex_less (w i) (w best) then i else best) 0 [0..<Suc (n - k)]"
  have len: "length thr = n" by (simp add: thr_def compute_throughputs_load)
  have kn: "k \<le> n" using assms(2) by (simp add: n_def)
  have c: "nat (int n - int k + 1) = Suc (n - k)" using kn by simp
  have "choose_best_start thr (int k) = Inr b"
    unfolding choose_best_start_def len c b_def w_def using kn by simp
  then have r: "choose_best_blocks k infos = Inr [b..<b + k]"
    using assms(1) by (simp add: choose_best_blocks_def thr_def n_def)
  have win: "w j = sort (pyslice j (j + k) thr)" if "j + k \<le> n" for j
    using that by (simp add: w_def window_def slice_bound_def len flip: of_nat_add)
  have opt: "b \<le> n - k" "\<And>j. j \<le> n - k \<Longrightarrow> \<not> lex_less (w j) (w b) \<and> (w j = w b \<longrightarrow> b \<le> j)"
    using argmin_fold [of lex_less w "n - k", OF lex_less_trans lex_less_irrefl] by (auto simp: b_def Let_def)
  then have bn: "b + k \<le> n" using kn by simp
  have "\<not> lex_less (sort (pyslice j (j + k) thr)) (sort (pyslice b (b + k) thr)) \<and>
      (sort (pyslice j (j + k) thr) = sort (pyslice b (b + k) thr) \<longrightarrow> b \<le> j)" if "j + k \<le> n" for j
    using opt(2) [of j] win [OF that] win [OF bn] that by simp
  with r bn show ?thesis unfolding thr_def n_def by blast
qed

theorem best_blocks_weakest_witness:
  "\<exists>start. choose_best_blocks 1 demo_infos = Inr [start..<start + 1] \<and> start + 1 \<le> length demo_infos"
proof -
  have "compute_spans JOINING demo_infos = Inr demo_spans" by (rule demo_compute_spans) simp
  from best_blocks_weakest [OF this, of 1] show ?thesis by (auto simp: demo_infos_def)
qed

theorem rebalance_bookkeeping_witness:
  "\<exists>thr' spans'. rebalance_loop (\<lambda>k ps. ps) 0 (compute_throughputs demo_spans 2, demo_spans) = Some (Inr (thr', spans')) \<and>
     thr' = compute_throughputs spans' 2"
proof -
  have "\<exists>thr' spans'. rebalance_loop (\<lambda>k ps. ps) 0 (compute_throughputs demo_spans 2, demo_spans) = Some (Inr (thr', spans'))"
  proof -
    have "\<exists>st. rebalance_round (map fst demo_spans) False (compute_throughputs demo_spans 2, demo_spans) = Inr (False, st)"
      by (simp add: demo_spans_def demo_server_def compute_throughputs_def add_span_def add_range_def slice_bound_def
          span_throughput_def rebalance_one_def span_length_def choose_best_start_def window_def pyslice_def block_eps_def
          upt_rec Let_def)
    then show ?thesis by (subst rebalance_loop.simps) auto
  qed
  then obtain thr' spans' where r: "rebalance_loop (\<lambda>k ps. ps) 0 (compute_throughputs demo_spans 2, demo_spans) = Some (Inr (thr', spans'))" by blast
  have "distinct (map fst demo_spans)" by (simp add: demo_spans_def)
  from rebalance_bookkeeping [OF this r] r show ?thesis by blast
qed


section \<open>The decision to move\<close>

text \<open>
  A server gives up its blocks only for a real gain: when the check answers yes (with a quality
  threshold of at most one), there is a placement of the same servers, reached by relocating spans
  only, whose weakest block is at least as fast as now and by more than the requested factor faster.
\<close>
theorem moves_only_for_gain:
  assumes "should_choose_other_blocks shuffle p infos q = Some (Inr True)" and "q \<le> 1"
    and "compute_spans JOINING infos = Inr spans"
  shows "\<exists>spans'. same_servers spans spans' \<and>
     (let now = Min (set (compute_throughputs spans (length infos)));
          new = Min (set (compute_throughputs spans' (length infos)))
      in now \<le> new \<and> block_eps \<le> new \<and> now < (q - block_eps) * new)"
proof -
  define n where "n = length infos"
  define thr where "thr = compute_throughputs spans n"
  have d: "distinct (map fst spans)" using compute_spans_ok [OF assms(3)] by (simp add: spans_ok_def)
  have b: "balanced (thr, spans)" using d by (auto simp: balanced_def compute_throughputs_load thr_def)
  obtain sp where sp: "map_of spans p = Some sp"
    using assms by (auto simp: should_choose_other_blocks_def Let_def split: if_splits option.splits)
  define thr1 where "thr1 = add_span sp (- (span_throughput sp * (1 + block_eps))) thr"
  obtain k where k: "choose_best_start thr1 (span_length sp) = Inr k"
    using assms sp by (auto simp: should_choose_other_blocks_def Let_def thr1_def thr_def n_def split: if_splits sum.splits)
  define sp' where "sp' = move_span sp (int k)"
  define thr3 where "thr3 = add_span sp' (span_throughput sp) (add_span sp (span_throughput sp * block_eps) thr1)"
  obtain thr' spans' where loop: "rebalance_loop shuffle 0 (thr3, dict_put p sp' spans) = Some (Inr (thr', spans'))"
    and res: "Min (set thr) \<le> Min (set thr')" "block_eps \<le> Min (set thr')" "Min (set thr) / Min (set thr') < q - block_eps"
    using assms sp k
    by (auto simp: should_choose_other_blocks_def Let_def thr1_def thr_def n_def thr3_def sp'_def not_less
        simp del: Min_less_iff Min_le_iff Min_gr_iff Min_ge_iff split: if_splits sum.splits option.splits)
  have sv: "span_server sp' = span_server sp" "span_length sp' = span_length sp" by (simp_all add: sp'_def)
  then have tp: "span_throughput sp' = span_throughput sp" by (simp add: span_throughput_def)
  have b3: "balanced (thr3, dict_put p sp' spans)" and l3: "length thr3 = length thr"
    using relocate_balanced [OF b sp tp] by (simp_all add: thr3_def thr1_def)
  from rebalance_loop_ok [OF loop] b3 have ok: "run_ok (thr3, dict_put p sp' spans) (thr', spans')" by simp
  have same: "same_servers spans spans'"
    using same_servers_trans [OF same_servers_move [OF sp sv]] ok by (simp add: run_ok_def)
  have "length thr' = n" using ok l3 by (simp add: run_ok_def thr_def compute_throughputs_load)
  then have "thr' = compute_throughputs spans' n"
    using ok by (intro nth_equalityI) (auto simp: run_ok_def balanced_def compute_throughputs_load)
  moreover have "Min (set thr) < (q - block_eps) * Min (set thr')"
    using res(2,3) by (simp add: block_eps_def pos_divide_less_eq)
  ultimately show ?thesis using same res(1,2) by (auto simp: Let_def thr_def n_def)
qed

definition idle_infos :: "nat module_info list" where
  "idle_infos = [\<lparr>uid = ''m.0'', servers = [(1, demo_server), (2, demo_server)]\<rparr>, \<lparr>uid = ''m.1'', servers = []\<rparr>]"


definition idle_spans :: "(nat \<times> nat span_info) list" where
  "idle_spans = [(1, \<lparr>span_peer = 1, span_start = 0, span_end = 1, span_server = demo_server\<rparr>),
                 (2, \<lparr>span_peer = 2, span_start = 0, span_end = 1, span_server = demo_server\<rparr>)]"

lemma idle_compute_spans: "compute_spans JOINING idle_infos = Inr idle_spans"
proof -
  have "parse_uid ''m.0'' = Inr (''m'', 0)" by code_simp
  then show ?thesis
    by (simp add: compute_spans_def idle_infos_def idle_spans_def demo_server_def add_entry_def entry_span_def span_state_def)
qed

lemmas span_eval = demo_server_def compute_throughputs_def add_span_def add_range_def slice_bound_def
  span_throughput_def rebalance_one_def span_length_def choose_best_start_def window_def pyslice_def block_eps_def
  move_span_def upt_rec Let_def

lemma idle_decision: "should_choose_other_blocks (\<lambda>k ps. ps) 1 idle_infos (1 / 2) = Some (Inr True)"
proof -
  define st where "st = ([2, 2 :: real], dict_put 1 \<lparr>span_peer = 1, span_start = 1, span_end = 2, span_server = demo_server\<rparr> idle_spans)"
  have "\<exists>spans'. rebalance_round (map fst (snd st)) False st = Inr (False, [2, 2], spans')"
    by (simp add: st_def idle_spans_def span_eval)
  then obtain spans' where rr: "rebalance_round (map fst (snd st)) False st = Inr (False, [2, 2], spans')" by blast
  have "rebalance_loop (\<lambda>k ps. ps) 0 st = Some (Inr ([2, 2], spans'))" by (subst rebalance_loop.simps) (simp add: rr)
  then show ?thesis
    unfolding should_choose_other_blocks_def idle_compute_spans
    by (simp add: idle_infos_def) (simp add: st_def idle_spans_def span_eval)
qed

theorem moves_only_for_gain_witness:
  "\<exists>spans'. same_servers idle_spans spans' \<and> block_eps \<le> Min (set (compute_throughputs spans' (length idle_infos)))"
  using moves_only_for_gain [OF idle_decision _ idle_compute_spans] by (auto simp: Let_def)

end
