(* ===== verification/Routing.thy ===== *)
theory Routing
  imports Spans
begin

text \<open>
  Client-side routing, \<^verbatim>\<open>client/routing/sequence_manager.py\<close>: choosing a chain of servers for a
  range of blocks, refreshing the table from the DHT, failures, back-off and shared shutdown.

  Third-party code is a parameter: the shortest-path search of dijkstar (\<open>find_path\<close>), NumPy's
  random choice (\<open>pick\<close>), the ping table (\<open>rtts\<close>), hivemind's blacklist (\<open>banned\<close>). Round
  trip times are finite or infinite; delays are real numbers. Locks and the background thread are not
  modelled: each operation is the code that runs under \<open>lock_changes\<close>.
\<close>

section \<open>The inference graph\<close>

datatype rtt = Finite real | Infinite

definition rtt_to_delay :: "rtt option \<Rightarrow> real" where
  "rtt_to_delay r = (case r of None \<Rightarrow> 15 / 100 | Some Infinite \<Rightarrow> 5 | Some (Finite x) \<Rightarrow> min (x / 2) 5)"

definition has_cache_for :: "'p span_info \<Rightarrow> int option \<Rightarrow> bool" where
  "has_cache_for sp needed =
     (case (needed, cache_tokens_left (span_server sp)) of
        (Some t, Some left) \<Rightarrow> t * 2 * span_length sp \<le> left
      | _ \<Rightarrow> True)"

datatype 'p node = Start | End | At 'p nat

type_synonym 'p graph = "(('p node \<times> 'p node) \<times> real) list"

text \<open>Adding an edge again replaces its weight.\<close>

definition add_edge :: "'p node \<Rightarrow> 'p node \<Rightarrow> real \<Rightarrow> 'p graph \<Rightarrow> 'p graph" where
  "add_edge u v d g = dict_put (u, v) d g"

definition overhead_delay :: real where "overhead_delay = 18 / 1000"
definition alloc_delay :: real where "alloc_delay = 10"
definition default_inference_rps :: real where "default_inference_rps = 300"

definition missing_blocks :: "'p span_info list list \<Rightarrow> nat \<Rightarrow> nat \<Rightarrow> nat list" where
  "missing_blocks table a b = filter (\<lambda>i. table ! i = []) [a..<b]"

definition penalty :: "'p span_info \<Rightarrow> int option \<Rightarrow> real" where
  "penalty sp needed = (if has_cache_for sp needed then 0 else alloc_delay)"

definition entry_edges :: "('p \<Rightarrow> rtt option) \<Rightarrow> int option \<Rightarrow> nat \<Rightarrow> 'p span_info list \<Rightarrow> 'p graph \<Rightarrow> 'p graph" where
  "entry_edges rtts needed a sps g =
     foldl (\<lambda>g sp. add_edge Start (At (span_peer sp) a)
              (rtt_to_delay (rtts (span_peer sp)) + overhead_delay + penalty sp needed) g) g sps"

definition exit_edges :: "('p \<Rightarrow> rtt option) \<Rightarrow> nat \<Rightarrow> 'p span_info list \<Rightarrow> 'p graph \<Rightarrow> 'p graph" where
  "exit_edges rtts b sps g =
     foldl (\<lambda>g sp. add_edge (At (span_peer sp) b) End (rtt_to_delay (rtts (span_peer sp))) g) g sps"

definition next_rtt :: "'p span_info \<Rightarrow> 'p \<Rightarrow> rtt option" where
  "next_rtt sp q =
     (case next_pings (span_server sp) of None \<Rightarrow> None | Some m \<Rightarrow> map_option Finite (map_of m q))"

definition hop_edges :: "'p span_info list list \<Rightarrow> int option \<Rightarrow> 'p graph \<Rightarrow> nat \<Rightarrow> 'p graph" where
  "hop_edges table needed g i =
     foldl (\<lambda>g cur.
        if span_end cur \<noteq> int i then g
        else foldl (\<lambda>g nxt. add_edge (At (span_peer cur) i) (At (span_peer nxt) i)
                     (rtt_to_delay (next_rtt cur (span_peer nxt)) + overhead_delay + penalty nxt needed) g)
               g (table ! i))
       g (table ! (i - 1))"

text \<open>The blocks \<open>range(max(span.start, a), min(span.end, b))\<close> of a span.\<close>

definition span_blocks :: "'p span_info \<Rightarrow> nat \<Rightarrow> nat \<Rightarrow> nat list" where
  "span_blocks sp a b = [nat (max (span_start sp) (int a))..<nat (min (span_end sp) (int b))]"

definition compute_edges :: "nat \<Rightarrow> nat \<Rightarrow> 'p graph result \<Rightarrow> 'p span_info \<Rightarrow> 'p graph result" where
  "compute_edges a b acc sp =
     (case acc of
        Inl e \<Rightarrow> Inl e
      | Inr g \<Rightarrow>
          let rps = (case inference_rps (span_server sp) of None \<Rightarrow> default_inference_rps | Some r \<Rightarrow> r);
              blocks = span_blocks sp a b
          in if blocks \<noteq> [] \<and> rps = 0 then Inl ZeroDivisionError
             else Inr (foldl (\<lambda>g i. add_edge (At (span_peer sp) i) (At (span_peer sp) (Suc i)) (1 / rps) g) g blocks))"

definition build_inference_graph ::
  "('p \<Rightarrow> rtt option) \<Rightarrow> int option \<Rightarrow> nat \<Rightarrow> nat \<Rightarrow> 'p sequence_info \<Rightarrow> 'p graph result" where
  "build_inference_graph rtts needed a b s =
     (let table = spans_containing_block s in
      if length table < b then Inl IndexError
      else if missing_blocks table a b \<noteq> [] then Inl MissingBlocksError
      else
        let g1 = entry_edges rtts needed a (table ! a) [];
            g2 = exit_edges rtts b (table ! (b - 1)) g1;
            g3 = foldl (hop_edges table needed) g2 [a + 1..<b]
        in foldl (compute_edges a b) (Inr g3) (spans_by_priority s))"

section \<open>Minimum latency\<close>

text \<open>Grouping the nodes of the path into spans.\<close>

fun group_nodes :: "('p \<Rightarrow> 'p server_info) \<Rightarrow> 'p span_info list \<Rightarrow> ('p \<times> nat) list \<Rightarrow> 'p span_info list" where
  "group_nodes infos acc [] = acc"
| "group_nodes infos acc ((p, i) # ns) =
     (if acc = [] \<or> span_peer (last acc) \<noteq> p
      then group_nodes infos (acc @ [\<lparr>span_peer = p, span_start = int i, span_end = int i, span_server = infos p\<rparr>]) ns
      else group_nodes infos (butlast acc @ [(last acc)\<lparr>span_end := int i\<rparr>]) ns)"

fun node_pairs :: "'p node list \<Rightarrow> ('p \<times> nat) list" where
  "node_pairs [] = []"
| "node_pairs (At p i # ns) = (p, i) # node_pairs ns"
| "node_pairs (n # ns) = node_pairs ns"

definition server_infos_of :: "'p span_info list list \<Rightarrow> nat \<Rightarrow> nat \<Rightarrow> 'p \<rightharpoonup> 'p server_info" where
  "server_infos_of table a b =
     foldl (\<lambda>m sp. m(span_peer sp \<mapsto> span_server sp)) Map.empty (concat (map (\<lambda>i. table ! i) [a..<b]))"

definition make_sequence_with_min_latency ::
  "('p graph \<Rightarrow> 'p node list result) \<Rightarrow> ('p \<Rightarrow> rtt option) \<Rightarrow> int option \<Rightarrow> nat \<Rightarrow> nat \<Rightarrow> 'p sequence_info \<Rightarrow>
   'p span_info list result" where
  "make_sequence_with_min_latency find_path rtts needed a b s =
     (if a = b then Inr []
      else if length (spans_containing_block s) < b then Inl IndexError
      else if missing_blocks (spans_containing_block s) a b \<noteq> [] then Inl MissingBlocksError
      else
        let infos = server_infos_of (spans_containing_block s) a b in
        (case build_inference_graph rtts needed a b s of
           Inl e \<Rightarrow> Inl e
         | Inr g \<Rightarrow>
             (case find_path g of
                Inl e \<Rightarrow> Inl e
              | Inr nodes \<Rightarrow>
                  Inr (filter (\<lambda>sp. 0 < span_length sp)
                         (group_nodes (\<lambda>p. the (infos p)) [] (node_pairs (butlast (tl nodes))))))))"

section \<open>Maximum throughput\<close>

definition span_weights :: "('p \<Rightarrow> rtt option) \<Rightarrow> 'p span_info list \<Rightarrow> real list" where
  "span_weights rtts sps =
     map (\<lambda>sp. if rtts (span_peer sp) \<noteq> Some Infinite then of_int (span_length sp) else 1 / 1000000) sps"

text \<open>\<open>pick\<close> draws from candidates and normalised weights; its first argument tells calls apart.\<close>

function throughput_loop ::
  "(nat \<Rightarrow> 'p span_info list \<Rightarrow> real list \<Rightarrow> 'p span_info) \<Rightarrow> ('p \<Rightarrow> rtt option) \<Rightarrow> 'p span_info list list \<Rightarrow> nat \<Rightarrow> nat \<Rightarrow>
   'p span_info list result" where
  "throughput_loop pick rtts table end_index current =
     (if current < end_index then
        if length table \<le> current then Inl IndexError
        else if table ! current = [] then Inl MissingBlocksError
        else
          let weights = span_weights rtts (table ! current);
              chosen = pick current (table ! current) (map (\<lambda>w. w / sum_list weights) weights)
          in if span_start chosen \<le> int current \<and> int current < span_end chosen
             then (case throughput_loop pick rtts table end_index (nat (span_end chosen)) of
                     Inl e \<Rightarrow> Inl e
                   | Inr rest \<Rightarrow> Inr (chosen\<lparr>span_start := int current\<rparr> # rest))
             else Inl AssertionError
      else Inr [])"
  by pat_completeness auto
termination by (relation "measure (\<lambda>(pick, rtts, table, e, c). e - c)") auto

declare throughput_loop.simps [simp del]

definition make_sequence_with_max_throughput ::
  "(nat \<Rightarrow> 'p span_info list \<Rightarrow> real list \<Rightarrow> 'p span_info) \<Rightarrow> ('p \<Rightarrow> rtt option) \<Rightarrow> nat \<Rightarrow> nat \<Rightarrow> 'p sequence_info \<Rightarrow>
   'p span_info list result" where
  "make_sequence_with_max_throughput pick rtts a b s = throughput_loop pick rtts (spans_containing_block s) b a"

definition make_sequence ::
  "('p graph \<Rightarrow> 'p node list result) \<Rightarrow> (nat \<Rightarrow> 'p span_info list \<Rightarrow> real list \<Rightarrow> 'p span_info) \<Rightarrow> ('p \<Rightarrow> rtt option) \<Rightarrow>
   string \<Rightarrow> int option \<Rightarrow> nat \<Rightarrow> nat option \<Rightarrow> 'p sequence_info \<Rightarrow> 'p span_info list result" where
  "make_sequence find_path pick rtts mode needed a b_opt s =
     (let b = (case b_opt of None \<Rightarrow> length (block_uids s) | Some b \<Rightarrow> b) in
      if mode = ''min_latency'' then make_sequence_with_min_latency find_path rtts needed a b s
      else if mode = ''max_throughput'' then make_sequence_with_max_throughput pick rtts a b s
      else Inl RuntimeError)"

section \<open>Refresh and failures\<close>

definition filter_servers ::
  "'p list option \<Rightarrow> 'p list option \<Rightarrow> ('p \<Rightarrow> bool) \<Rightarrow> 'p module_info \<Rightarrow> 'p module_info" where
  "filter_servers allowed blocked banned m =
     (let listed = filter (\<lambda>(p, i). (case allowed of None \<Rightarrow> True | Some ps \<Rightarrow> p \<in> set ps) \<and>
                                   (case blocked of None \<Rightarrow> True | Some ps \<Rightarrow> p \<notin> set ps)) (servers m);
          valid = filter (\<lambda>(p, i). \<not> banned p) listed
      in m\<lparr>servers := (if length valid < length listed \<and> valid \<noteq> [] then valid else listed)\<rparr>)"

definition refresh ::
  "'p list option \<Rightarrow> 'p list option \<Rightarrow> ('p \<Rightarrow> bool) \<Rightarrow> ('p :: linorder) module_info list \<Rightarrow> real \<Rightarrow> 'p sequence_info \<Rightarrow>
   ('p sequence_info, unit) outcome" where
  "refresh allowed blocked banned news now s = update_sequence (map (filter_servers allowed blocked banned) news) now s"

text \<open>Removing a failed peer; the flag says that an update was triggered.\<close>

definition on_request_failure :: "'p option \<Rightarrow> 'p sequence_info \<Rightarrow> bool \<times> 'p sequence_info" where
  "on_request_failure peer s =
     (let infos = map (\<lambda>m. m\<lparr>servers := filter (\<lambda>(p, i). Some p \<noteq> peer) (servers m)\<rparr>) (block_infos s) in
      (list_ex (\<lambda>m. servers m = []) infos, s\<lparr>block_infos := infos\<rparr>))"

definition get_retry_delay :: "real \<Rightarrow> real \<Rightarrow> nat \<Rightarrow> real" where
  "get_retry_delay min_backoff max_backoff attempt_no =
     (if attempt_no = 0 then 0 else min (min_backoff * 2 ^ (attempt_no - 1)) max_backoff)"

text \<open>
  The retry loop of \<open>rpc_info\<close>: the outcomes of the successive attempts; \<open>None\<close> when they run
  out while the loop would try again. The second component lists the delays slept.
\<close>

fun rpc_info_loop :: "real \<Rightarrow> real \<Rightarrow> nat option \<Rightarrow> nat \<Rightarrow> 'i result list \<Rightarrow> ('i result \<times> real list) option" where
  "rpc_info_loop lo hi max_retries attempt [] = None"
| "rpc_info_loop lo hi max_retries attempt (Inr i # rs) = Some (Inr i, [])"
| "rpc_info_loop lo hi max_retries attempt (Inl e # rs) =
     (if Some (attempt + 1) = max_retries then Some (Inl e, [])
      else map_option (\<lambda>(r, ds). (r, get_retry_delay lo hi attempt # ds)) (rpc_info_loop lo hi max_retries (Suc attempt) rs))"

section \<open>Shared resources\<close>

record shared_resources =
  refcount :: int
  owns_dht :: bool
  owns_p2p :: bool
  p2p_alive :: bool
  dht_shutdowns :: nat
  p2p_shutdowns :: nat

text \<open>A group of managers that share their connections; an entry says whether it is closed.\<close>

record manager_group =
  resources :: shared_resources
  closed :: "bool list"

definition first_manager :: "bool \<Rightarrow> bool \<Rightarrow> manager_group" where
  "first_manager created_dht created_p2p =
     \<lparr>resources = \<lparr>refcount = 1, owns_dht = created_dht, owns_p2p = created_p2p, p2p_alive = True,
                   dht_shutdowns = 0, p2p_shutdowns = 0\<rparr>,
      closed = [False]\<rparr>"

definition derive_manager :: "manager_group \<Rightarrow> manager_group" where
  "derive_manager g = g\<lparr>resources := (resources g)\<lparr>refcount := refcount (resources g) + 1\<rparr>, closed := closed g @ [False]\<rparr>"

definition shutdown_manager :: "nat \<Rightarrow> manager_group \<Rightarrow> manager_group" where
  "shutdown_manager i g =
     (if length (closed g) \<le> i \<or> closed g ! i then g
      else
        let r = (resources g)\<lparr>refcount := refcount (resources g) - 1\<rparr>;
            g1 = g\<lparr>closed := (closed g)[i := True], resources := r\<rparr>
        in if refcount r \<noteq> 0 then g1
           else
             let r1 = (if owns_p2p r \<and> p2p_alive r then r\<lparr>p2p_alive := False, p2p_shutdowns := p2p_shutdowns r + 1\<rparr> else r);
                 r2 = (if owns_dht r1 then r1\<lparr>dht_shutdowns := dht_shutdowns r1 + 1\<rparr> else r1)
             in g1\<lparr>resources := r2\<rparr>)"


section \<open>Edges of the graph\<close>

definition edges :: "'p graph \<Rightarrow> ('p node \<times> 'p node) set" where
  "edges g = fst ` set g"

lemma edges_add [simp]: "edges (add_edge u v d g) = insert (u, v) (edges g)"
  by (simp add: edges_def add_edge_def dict_put_keys)

lemma edges_fold: "edges (foldl (\<lambda>g x. add_edge (u x) (v x) (d x) g) g xs) = edges g \<union> (\<lambda>x. (u x, v x)) ` set xs"
  by (induction xs arbitrary: g) auto

lemma edges_hop:
  "edges (hop_edges table needed g i) = edges g \<union>
     {(At (span_peer cur) i, At (span_peer nxt) i) | cur nxt. cur \<in> set (table ! (i - 1)) \<and> span_end cur = int i \<and> nxt \<in> set (table ! i)}"
proof -
  have "edges (foldl (\<lambda>g cur. if span_end cur \<noteq> int i then g
        else foldl (\<lambda>g nxt. add_edge (At (span_peer cur) i) (At (span_peer nxt) i)
                     (rtt_to_delay (next_rtt cur (span_peer nxt)) + overhead_delay + penalty nxt needed) g) g (table ! i)) g curs) =
      edges g \<union> {(At (span_peer cur) i, At (span_peer nxt) i) | cur nxt. cur \<in> set curs \<and> span_end cur = int i \<and> nxt \<in> set (table ! i)}" for curs
    by (induction curs arbitrary: g) (auto simp: edges_fold)
  then show ?thesis by (simp add: hop_edges_def)
qed

lemma edges_hops:
  "edges (foldl (hop_edges table needed) g is) = edges g \<union>
     {(At (span_peer cur) i, At (span_peer nxt) i) | cur nxt i. i \<in> set is \<and> cur \<in> set (table ! (i - 1)) \<and> span_end cur = int i \<and> nxt \<in> set (table ! i)}"
  by (induction "is" arbitrary: g) (auto simp: edges_hop)

lemma compute_edges_Inl [simp]: "foldl (compute_edges a b) (Inl e) sps = Inl e"
  by (induction sps) (auto simp: compute_edges_def)

lemma edges_compute:
  assumes "foldl (compute_edges a b) (Inr g) sps = Inr g'"
  shows "edges g' = edges g \<union> {(At (span_peer sp) i, At (span_peer sp) (Suc i)) | sp i. sp \<in> set sps \<and> i \<in> set (span_blocks sp a b)}"
  using assms
proof (induction sps arbitrary: g)
  case (Cons sp sps)
  obtain g1 where g1: "compute_edges a b (Inr g) sp = Inr g1" using Cons.prems by (cases "compute_edges a b (Inr g) sp") auto
  then have "edges g1 = edges g \<union> (\<lambda>i. (At (span_peer sp) i, At (span_peer sp) (Suc i))) ` set (span_blocks sp a b)"
    by (auto simp: compute_edges_def Let_def edges_fold split: if_splits)
  with Cons.IH [of g1] Cons.prems g1 show ?case by auto
qed simp

text \<open>The routing tables as a refresh builds them.\<close>

definition tables_exact :: "'p sequence_info \<Rightarrow> bool" where
  "tables_exact s \<longleftrightarrow>
     (\<forall>i < length (spans_containing_block s).
        spans_containing_block s ! i = filter (\<lambda>sp. covers_block sp i) (spans_by_priority s)) \<and>
     (\<forall>sp \<in> set (spans_by_priority s). 0 \<le> span_start sp \<and> span_end sp \<le> int (length (spans_containing_block s)))"

lemma update_tables_exact:
  assumes "update_sequence news now s = (Inr (), s')"
  shows "tables_exact s'"
proof -
  obtain infos where i: "snd (update_infos (block_uids s) news (block_infos s)) = infos" "block_infos s' = infos"
    "sort_spans infos = Inr (spans_by_priority s', spans_containing_block s')"
    using assms by (auto simp: update_sequence_def split: if_splits prod.splits sum.splits)
  then obtain spans where sp: "compute_spans ONLINE infos = Inr spans" by (auto simp: sort_spans_def split: sum.splits)
  from routing_tables_exact [OF sp] i(3) have t: "mset (spans_by_priority s') = mset (map snd spans)"
    "length (spans_containing_block s') = length infos"
    "\<forall>i < length infos. spans_containing_block s' ! i = filter (\<lambda>sp. covers_block sp i) (spans_by_priority s')"
    by (auto simp: covers_block_def)
  have "set (spans_by_priority s') = snd ` set spans" using t(1) by (metis list.set_map set_mset_mset)
  then show ?thesis using t compute_spans_ok [OF sp] by (auto simp: tables_exact_def spans_ok_def span_ok_def)
qed

lemma graph_edges:
  assumes t: "tables_exact s" and ab: "a < b" "b \<le> length (spans_containing_block s)"
    and g: "build_inference_graph rtts needed a b s = Inr g"
  shows "(u, v) \<in> edges g \<longleftrightarrow>
     (\<exists>sp \<in> set (spans_containing_block s ! a). u = Start \<and> v = At (span_peer sp) a) \<or>
     (\<exists>sp \<in> set (spans_containing_block s ! (b - 1)). u = At (span_peer sp) b \<and> v = End) \<or>
     (\<exists>i cur nxt. a < i \<and> i < b \<and> cur \<in> set (spans_containing_block s ! (i - 1)) \<and> span_end cur = int i \<and>
        nxt \<in> set (spans_containing_block s ! i) \<and> u = At (span_peer cur) i \<and> v = At (span_peer nxt) i) \<or>
     (\<exists>i. a \<le> i \<and> i < b \<and> (\<exists>sp \<in> set (spans_containing_block s ! i). u = At (span_peer sp) i \<and> v = At (span_peer sp) (Suc i)))"
proof -
  define table where "table = spans_containing_block s"
  have bl: "i \<in> set (span_blocks sp a b) \<longleftrightarrow> a \<le> i \<and> i < b \<and> covers_block sp i" if "0 \<le> span_start sp" for sp i
    using that by (auto simp: span_blocks_def covers_block_def)
  have held: "(\<exists>sp \<in> set (spans_by_priority s). P sp \<and> i \<in> set (span_blocks sp a b)) \<longleftrightarrow>
      a \<le> i \<and> i < b \<and> (\<exists>sp \<in> set (table ! i). P sp)" for i P
    using t ab bl by (auto simp: tables_exact_def table_def)
  define g1 where "g1 = entry_edges rtts needed a (table ! a) []"
  define g2 where "g2 = exit_edges rtts b (table ! (b - 1)) g1"
  define g3 where "g3 = foldl (hop_edges table needed) g2 [a + 1..<b]"
  have "foldl (compute_edges a b) (Inr g3) (spans_by_priority s) = Inr g"
    using g unfolding build_inference_graph_def Let_def table_def [symmetric] g1_def [symmetric] g2_def [symmetric] g3_def [symmetric]
    by (simp split: if_splits)
  from edges_compute [OF this]
  have e: "(u, v) \<in> edges g \<longleftrightarrow> (u, v) \<in> edges g3 \<or>
     (\<exists>i. \<exists>sp \<in> set (spans_by_priority s). (u = At (span_peer sp) i \<and> v = At (span_peer sp) (Suc i)) \<and> i \<in> set (span_blocks sp a b))" by blast
  have e3: "(u, v) \<in> edges g3 \<longleftrightarrow> (u, v) \<in> edges g2 \<or>
     (\<exists>i cur nxt. a < i \<and> i < b \<and> cur \<in> set (table ! (i - 1)) \<and> span_end cur = int i \<and>
        nxt \<in> set (table ! i) \<and> u = At (span_peer cur) i \<and> v = At (span_peer nxt) i)"
    unfolding g3_def edges_hops by (auto simp: Suc_le_eq)
  have e2: "(u, v) \<in> edges g2 \<longleftrightarrow> (\<exists>sp \<in> set (table ! a). u = Start \<and> v = At (span_peer sp) a) \<or>
     (\<exists>sp \<in> set (table ! (b - 1)). u = At (span_peer sp) b \<and> v = End)"
    unfolding g2_def g1_def entry_edges_def exit_edges_def edges_fold by (auto simp: edges_def)
  have "(u, v) \<in> edges g \<longleftrightarrow>
     (\<exists>sp \<in> set (table ! a). u = Start \<and> v = At (span_peer sp) a) \<or>
     (\<exists>sp \<in> set (table ! (b - 1)). u = At (span_peer sp) b \<and> v = End) \<or>
     (\<exists>i cur nxt. a < i \<and> i < b \<and> cur \<in> set (table ! (i - 1)) \<and> span_end cur = int i \<and>
        nxt \<in> set (table ! i) \<and> u = At (span_peer cur) i \<and> v = At (span_peer nxt) i) \<or>
     (\<exists>i. \<exists>sp \<in> set (spans_by_priority s). (u = At (span_peer sp) i \<and> v = At (span_peer sp) (Suc i)) \<and> i \<in> set (span_blocks sp a b))"
    unfolding e e3 e2 by blast
  then show ?thesis unfolding held table_def by blast
qed

lemma compute_edges_ok:
  assumes "\<forall>sp \<in> set sps. inference_rps (span_server sp) \<noteq> Some 0"
  shows "\<exists>g'. foldl (compute_edges a b) (Inr g) sps = Inr g'"
  using assms
proof (induction sps arbitrary: g)
  case (Cons sp sps)
  have "\<exists>g1. compute_edges a b (Inr g) sp = Inr g1"
    using Cons.prems by (auto simp: compute_edges_def Let_def default_inference_rps_def split: option.splits)
  with Cons show ?case by auto
qed simp


section \<open>Paths and chains of spans\<close>

definition is_path :: "'p graph \<Rightarrow> 'p node list \<Rightarrow> bool" where
  "is_path g ns \<longleftrightarrow> 2 \<le> length ns \<and> hd ns = Start \<and> last ns = End \<and>
     (\<forall>k. Suc k < length ns \<longrightarrow> (ns ! k, ns ! Suc k) \<in> edges g)"

fun chain :: "'p span_info list \<Rightarrow> int \<Rightarrow> int \<Rightarrow> bool" where
  "chain [] a b \<longleftrightarrow> a = b"
| "chain (sp # sps) a b \<longleftrightarrow> span_start sp = a \<and> span_start sp \<le> span_end sp \<and> chain sps (span_end sp) b"

lemma chain_append: "chain (xs @ ys) a c \<longleftrightarrow> (\<exists>b. chain xs a b \<and> chain ys b c)"
  by (induction xs arbitrary: a) auto

lemma chain_filter: "chain sps a b \<Longrightarrow> chain (filter (\<lambda>sp. 0 < span_length sp) sps) a b"
  by (induction sps arbitrary: a) (auto simp: span_length_def)

text \<open>
  A walk over (server, block) nodes: each step moves one block on within a server that holds the
  block, or changes the server at the same block.
\<close>

fun walk :: "('p \<Rightarrow> nat \<Rightarrow> bool) \<Rightarrow> 'p \<times> nat \<Rightarrow> ('p \<times> nat) list \<Rightarrow> bool" where
  "walk held x [] \<longleftrightarrow> True"
| "walk held (p, i) ((q, j) # ns) \<longleftrightarrow> (j = i \<or> q = p \<and> j = Suc i \<and> held p i) \<and> walk held (q, j) ns"

definition holds_blocks :: "('p \<Rightarrow> nat \<Rightarrow> bool) \<Rightarrow> 'p span_info list \<Rightarrow> bool" where
  "holds_blocks held sps \<longleftrightarrow>
     (\<forall>sp \<in> set sps. \<forall>i. span_start sp \<le> int i \<and> int i < span_end sp \<longrightarrow> held (span_peer sp) i)"

lemma group_nodes_chain:
  assumes "walk held (p, i) ns" and "acc \<noteq> []" and "span_peer (last acc) = p" and "span_end (last acc) = int i"
    and "chain acc a (int i)" and "holds_blocks held acc"
  shows "chain (group_nodes infos acc ns) a (int (snd (last ((p, i) # ns)))) \<and> holds_blocks held (group_nodes infos acc ns)"
  using assms
proof (induction ns arbitrary: p i acc)
  case (Cons x ns)
  obtain q j where x: "x = (q, j)" by fastforce
  have step: "j = i \<or> q = p \<and> j = Suc i \<and> held p i" and w: "walk held (q, j) ns" using Cons.prems(1) by (simp_all add: x)
  obtain front la where acc: "acc = front @ [la]" using Cons.prems(2) by (meson rev_exhaust)
  define acc' where "acc' = (if q \<noteq> p then acc @ [\<lparr>span_peer = q, span_start = int j, span_end = int j, span_server = infos q\<rparr>]
      else front @ [la\<lparr>span_end := int j\<rparr>])"
  have g: "group_nodes infos acc (x # ns) = group_nodes infos acc' ns"
    using Cons.prems(2,3) by (simp add: x acc acc'_def)
  have "acc' \<noteq> []" "span_peer (last acc') = q" "span_end (last acc') = int j"
    using Cons.prems(3) by (auto simp: acc'_def acc)
  moreover have "chain acc' a (int j)"
    using Cons.prems(4,5) step by (auto simp: acc'_def acc chain_append)
  moreover have "holds_blocks held acc'"
  proof -
    have old: "held (span_peer sp) k" if "sp \<in> set acc" "span_start sp \<le> int k" "int k < span_end sp" for sp k
      using Cons.prems(6) that unfolding holds_blocks_def by blast
    have "held (span_peer sp) k" if sp: "sp \<in> set acc'" and k: "span_start sp \<le> int k" "int k < span_end sp" for sp k
    proof (cases "sp \<in> set acc")
      case True
      with old k show ?thesis by blast
    next
      case False
      have qp: "q = p" and e: "sp = la\<lparr>span_end := int j\<rparr>" using False sp k by (auto simp: acc'_def acc split: if_splits)
      have la: "la \<in> set acc" "span_end la = int i" "span_peer la = p" using Cons.prems(3,4) by (simp_all add: acc)
      show ?thesis
      proof (cases "k < i")
        case True
        with old [OF la(1), of k] k e la show ?thesis by simp
      next
        case False
        then have "k = i \<and> j = Suc i" using k(2) e step by auto
        with step e la show ?thesis by auto
      qed
    qed
    then show ?thesis by (simp add: holds_blocks_def)
  qed
  ultimately show ?case using Cons.IH [OF w] unfolding g by (simp add: x)
qed simp

lemma node_pairs_At: "node_pairs (map (\<lambda>(p, i). At p i) ps) = ps"
  by (induction ps) auto

text \<open>Every path of the inference graph is such a walk from the first block to the last.\<close>

lemma path_is_walk:
  assumes t: "tables_exact s" and ab: "a < b" "b \<le> length (spans_containing_block s)"
    and g: "build_inference_graph rtts needed a b s = Inr g" and path: "is_path g ns"
  obtains p ps where "ns = Start # map (\<lambda>(p, i). At p i) ((p, a) # ps) @ [End]"
    "walk (\<lambda>q i. a \<le> i \<and> i < b \<and> (\<exists>sp \<in> set (spans_containing_block s ! i). span_peer sp = q)) (p, a) ps"
    "snd (last ((p, a) # ps)) = b"
proof -
  let ?held = "\<lambda>q i. a \<le> i \<and> i < b \<and> (\<exists>sp \<in> set (spans_containing_block s ! i). span_peer sp = q)"
  note e = graph_edges [OF t ab g]
  have suffix: "\<exists>ps. rest = map (\<lambda>(p, i). At p i) ps @ [End] \<and> walk ?held (q, j) ps \<and> snd (last ((q, j) # ps)) = b"
    if "rest \<noteq> []" "last rest = End" "\<forall>k. Suc k < length (At q j # rest) \<longrightarrow> ((At q j # rest) ! k, (At q j # rest) ! Suc k) \<in> edges g"
    for rest q j
    using that
  proof (induction rest arbitrary: q j)
    case (Cons x rest)
    have qx: "(At q j, x) \<in> edges g" using Cons.prems(3) by force
    have tl: "\<forall>k. Suc k < length (x # rest) \<longrightarrow> ((x # rest) ! k, (x # rest) ! Suc k) \<in> edges g"
      using Cons.prems(3) by (metis Suc_less_eq length_Cons nth_Cons_Suc)
    show ?case
    proof (cases "x = End")
      case True
      have "rest = []"
      proof (rule ccontr)
        assume "rest \<noteq> []"
        then have "(End, rest ! 0) \<in> edges g" using tl True by force
        then show False by (simp add: e)
      qed
      with True qx show ?thesis by (auto simp: e)
    next
      case False
      with qx obtain q' j' where x: "x = At q' j'" "j' = j \<or> q' = q \<and> j' = Suc j \<and> ?held q j" by (auto simp: e)
      have r: "rest \<noteq> []" "last rest = End" using Cons.prems(2) False by (auto split: if_splits)
      from Cons.IH [OF r, of q' j'] tl x(1) obtain ps where ps: "rest = map (\<lambda>(p, i). At p i) ps @ [End]"
        "walk ?held (q', j') ps" "snd (last ((q', j') # ps)) = b" by auto
      with x show ?thesis by (intro exI [of _ "(q', j') # ps"]) auto
    qed
  qed simp
  obtain x rest where ns: "ns = Start # x # rest" using path by (cases ns; cases "tl ns") (auto simp: is_path_def)
  have pe: "\<forall>k. Suc k < length (Start # x # rest) \<longrightarrow> ((Start # x # rest) ! k, (Start # x # rest) ! Suc k) \<in> edges g"
    using path by (simp add: is_path_def ns)
  then have "(Start, x) \<in> edges g" by force
  then obtain p where x: "x = At p a" by (auto simp: e)
  have tl: "\<forall>k. Suc k < length (x # rest) \<longrightarrow> ((x # rest) ! k, (x # rest) ! Suc k) \<in> edges g"
    using pe by (metis Suc_less_eq length_Cons nth_Cons_Suc)
  have "rest \<noteq> []" "last rest = End" using path x by (auto simp: is_path_def ns split: if_splits)
  from suffix [OF this tl [unfolded x]] obtain ps where "rest = map (\<lambda>(p, i). At p i) ps @ [End]"
    "walk ?held (p, a) ps" "snd (last ((p, a) # ps)) = b" by blast
  then show ?thesis using ns x by (intro that [of p ps]) auto
qed

text \<open>Reachability in the graph, and a path as a list.\<close>

lemma reach_path:
  "(u, v) \<in> (edges g)\<^sup>* \<Longrightarrow> \<exists>ns. ns \<noteq> [] \<and> hd ns = u \<and> last ns = v \<and> (\<forall>k. Suc k < length ns \<longrightarrow> (ns ! k, ns ! Suc k) \<in> edges g)"
proof (induction rule: converse_rtrancl_induct)
  case base
  then show ?case by (intro exI [of _ "[v]"]) simp
next
  case (step u w)
  then obtain ns where ns: "ns \<noteq> []" "hd ns = w" "last ns = v" "\<forall>k. Suc k < length ns \<longrightarrow> (ns ! k, ns ! Suc k) \<in> edges g" by blast
  have "((u # ns) ! k, (u # ns) ! Suc k) \<in> edges g" if "Suc k < length (u # ns)" for k
    using that ns step.hyps(1) by (cases k) (auto simp: hd_conv_nth)
  with ns show ?case by (intro exI [of _ "u # ns"]) auto
qed

lemma path_exists:
  assumes t: "tables_exact s" and ab: "a < b" "b \<le> length (spans_containing_block s)"
    and g: "build_inference_graph rtts needed a b s = Inr g" and full: "\<forall>i. a \<le> i \<and> i < b \<longrightarrow> spans_containing_block s ! i \<noteq> []"
  shows "\<exists>ns. is_path g ns"
proof -
  define table where "table = spans_containing_block s"
  note e = graph_edges [OF t ab g, folded table_def]
  have mem: "sp \<in> set (table ! i) \<longleftrightarrow> sp \<in> set (spans_by_priority s) \<and> covers_block sp i" if "i < length table" for sp i
    using t that by (simp add: tables_exact_def table_def)
  have along: "(At (span_peer sp) i, At (span_peer sp) (i + d)) \<in> (edges g)\<^sup>*"
    if "a \<le> i" "i + d \<le> b" "\<forall>j. i \<le> j \<and> j < i + d \<longrightarrow> sp \<in> set (table ! j)" for sp i d
    using that
  proof (induction d)
    case (Suc d)
    have "(At (span_peer sp) (i + d), At (span_peer sp) (Suc (i + d))) \<in> edges g" using Suc.prems by (auto simp: e)
    with Suc show ?case by (auto intro: rtrancl.rtrancl_into_rtrancl)
  qed simp
  have to_end: "(At (span_peer sp) i, End) \<in> (edges g)\<^sup>*" if "a \<le> i" "i < b" "sp \<in> set (table ! i)" for sp i
    using that
  proof (induction "b - i" arbitrary: i sp rule: less_induct)
    case less
    have il: "i < length table" using less.prems ab by (simp add: table_def)
    then have sp: "sp \<in> set (spans_by_priority s)" "covers_block sp i" using mem less.prems by auto
    define f where "f = nat (min (span_end sp) (int b))"
    have f: "i < f" "f \<le> b" "int f \<le> span_end sp" using sp(2) less.prems by (auto simp: f_def covers_block_def)
    have on: "sp \<in> set (table ! j)" if "i \<le> j" "j < f" for j
      using that f sp ab by (subst mem) (auto simp: table_def covers_block_def)
    have r1: "(At (span_peer sp) i, At (span_peer sp) f) \<in> (edges g)\<^sup>*"
      using along [of i "f - i" sp] less.prems f on by simp
    show ?case
    proof (cases "f = b")
      case True
      have "sp \<in> set (table ! (b - 1))" using on [of "b - 1"] True f by simp
      then have "(At (span_peer sp) f, End) \<in> edges g" using True by (auto simp: e)
      with r1 show ?thesis by (rule rtrancl.rtrancl_into_rtrancl)
    next
      case False
      then have fb: "f < b" "span_end sp = int f" using f by (auto simp: f_def)
      obtain nxt where nxt: "nxt \<in> set (table ! f)" using full less.prems f fb by (metis list.set_intros(1) neq_Nil_conv table_def le_trans less_imp_le)
      have "sp \<in> set (table ! (f - 1))" using on [of "f - 1"] f by simp
      then have "(At (span_peer sp) f, At (span_peer nxt) f) \<in> edges g"
        unfolding e using nxt fb f(1) less.prems(1) by (metis le_less_trans)
      moreover have "(At (span_peer nxt) f, End) \<in> (edges g)\<^sup>*" using less.hyps [of f nxt] f fb less.prems nxt by simp
      ultimately show ?thesis using r1 by (meson converse_rtrancl_into_rtrancl rtrancl_trans)
    qed
  qed
  obtain sp where sp: "sp \<in> set (table ! a)" using full ab by (metis list.set_intros(1) neq_Nil_conv table_def order_refl)
  then have "(Start, At (span_peer sp) a) \<in> edges g" by (auto simp: e)
  then have "(Start, End) \<in> (edges g)\<^sup>*" using to_end [OF order_refl ab(1) sp] by (rule converse_rtrancl_into_rtrancl)
  from reach_path [OF this] obtain ns where ns: "ns \<noteq> []" "hd ns = Start" "last ns = End"
    "\<forall>k. Suc k < length ns \<longrightarrow> (ns ! k, ns ! Suc k) \<in> edges g" by blast
  have "length ns \<noteq> 1" using ns by (cases ns) auto
  then show ?thesis using ns by (intro exI [of _ ns]) (cases ns; auto simp: is_path_def Suc_le_eq)
qed


section \<open>Properties\<close>

text \<open>
  C16 With up-to-date tables, minimum-latency routing finds a route exactly when every block of the
  range is held by some server, and raises \<open>MissingBlocksError\<close> otherwise. A route is a gap-free
  chain of non-empty spans from the first block to the last, and every block of a span is announced
  by the span's server. It relies only on the path search returning a path of the given graph when
  there is one; no server announces zero inference speed.
\<close>
theorem min_latency_route:
  assumes "tables_exact s" and "a < b" and "b \<le> length (spans_containing_block s)"
    and "\<forall>sp \<in> set (spans_by_priority s). inference_rps (span_server sp) \<noteq> Some 0"
    and "\<And>g. build_inference_graph rtts needed a b s = Inr g \<Longrightarrow>
           (\<forall>ns. find_path g = Inr ns \<longrightarrow> is_path g ns) \<and> ((\<exists>ns. is_path g ns) \<longrightarrow> (\<exists>ns. find_path g = Inr ns))"
  shows "if \<exists>i. a \<le> i \<and> i < b \<and> spans_containing_block s ! i = []
     then make_sequence_with_min_latency find_path rtts needed a b s = Inl MissingBlocksError
     else \<exists>route. make_sequence_with_min_latency find_path rtts needed a b s = Inr route \<and>
            chain route (int a) (int b) \<and> (\<forall>sp \<in> set route. 0 < span_length sp) \<and>
            (\<forall>sp \<in> set route. \<forall>i. span_start sp \<le> int i \<and> int i < span_end sp \<longrightarrow>
               (\<exists>osp \<in> set (spans_containing_block s ! i). span_peer osp = span_peer sp))"
proof (cases "\<exists>i. a \<le> i \<and> i < b \<and> spans_containing_block s ! i = []")
  case True
  then have "missing_blocks (spans_containing_block s) a b \<noteq> []" by (auto simp: missing_blocks_def filter_empty_conv)
  with True assms(2,3) show ?thesis by (simp add: make_sequence_with_min_latency_def)
next
  case False
  then have none: "missing_blocks (spans_containing_block s) a b = []" by (auto simp: missing_blocks_def filter_empty_conv)
  have "\<exists>g. build_inference_graph rtts needed a b s = Inr g"
    unfolding build_inference_graph_def Let_def using none assms(3) compute_edges_ok [OF assms(4)] by simp
  then obtain g where g: "build_inference_graph rtts needed a b s = Inr g" by blast
  have "\<exists>ns. is_path g ns" using path_exists [OF assms(1-3) g] False by blast
  with assms(5) [OF g] obtain ns where ns: "find_path g = Inr ns" "is_path g ns" by blast
  let ?held = "\<lambda>q i. a \<le> i \<and> i < b \<and> (\<exists>sp \<in> set (spans_containing_block s ! i). span_peer sp = q)"
  obtain p ps where w: "ns = Start # map (\<lambda>(p, i). At p i) ((p, a) # ps) @ [End]" "walk ?held (p, a) ps"
    "snd (last ((p, a) # ps)) = b" by (rule path_is_walk [OF assms(1-3) g ns(2)])
  define infos where "infos = (\<lambda>p. the (server_infos_of (spans_containing_block s) a b p))"
  define sps where "sps = group_nodes infos [] ((p, a) # ps)"
  have np: "node_pairs (butlast (tl ns)) = (p, a) # ps" using node_pairs_At [of "(p, a) # ps"] by (simp add: w(1))
  define init where "init = [\<lparr>span_peer = p, span_start = int a, span_end = int a, span_server = infos p\<rparr>]"
  have "chain (group_nodes infos init ps) (int a) (int (snd (last ((p, a) # ps)))) \<and> holds_blocks ?held (group_nodes infos init ps)"
    by (rule group_nodes_chain [OF w(2)]) (auto simp: init_def holds_blocks_def)
  then have "chain sps (int a) (int b) \<and> holds_blocks ?held sps" unfolding w(3) by (simp add: sps_def init_def)
  moreover have "make_sequence_with_min_latency find_path rtts needed a b s = Inr (filter (\<lambda>sp. 0 < span_length sp) sps)"
    using assms(2,3) none g ns(1) np by (simp add: make_sequence_with_min_latency_def sps_def infos_def Let_def)
  ultimately show ?thesis using False chain_filter [of sps] by (auto simp: holds_blocks_def)
qed

text \<open>
  Maximum-throughput routing with up-to-date tables and any random choice among the candidates: it
  raises \<open>MissingBlocksError\<close> only for a block no server holds, and otherwise returns a gap-free chain
  of announced spans that starts at the first block and reaches the end of the range (the last span
  may reach past it).
\<close>
theorem max_throughput_route:
  assumes "tables_exact s" and "b \<le> length (spans_containing_block s)"
    and "\<And>i ws. spans_containing_block s ! i \<noteq> [] \<Longrightarrow> pick i (spans_containing_block s ! i) ws \<in> set (spans_containing_block s ! i)"
  shows "a \<le> b \<Longrightarrow>
     (case make_sequence_with_max_throughput pick rtts a b s of
        Inl e \<Rightarrow> e = MissingBlocksError \<and> (\<exists>i. a \<le> i \<and> i < b \<and> spans_containing_block s ! i = [])
      | Inr route \<Rightarrow> (\<exists>e. chain route (int a) e \<and> int b \<le> e) \<and>
          (\<forall>sp \<in> set route. \<exists>osp \<in> set (spans_by_priority s). span_peer osp = span_peer sp \<and>
             span_start osp \<le> span_start sp \<and> span_start sp < span_end sp \<and> span_end sp = span_end osp))"
  unfolding make_sequence_with_max_throughput_def
proof (induction "b - a" arbitrary: a rule: less_induct)
  case less
  define table where "table = spans_containing_block s"
  show ?case
  proof (cases "a < b \<and> table ! a \<noteq> []")
    case False
    then show ?thesis using less.prems assms(2) by (subst throughput_loop.simps) (auto simp: table_def)
  next
    case True
    define weights where "weights = span_weights rtts (table ! a)"
    define c where "c = pick a (table ! a) (map (\<lambda>w. w / sum_list weights) weights)"
    have al: "a < length table" using True assms(2) by (simp add: table_def)
    have "c \<in> set (table ! a)" using assms(3) True by (simp add: c_def table_def)
    then have c: "c \<in> set (spans_by_priority s)" "span_start c \<le> int a" "int a < span_end c"
      using assms(1) al by (auto simp: tables_exact_def table_def covers_block_def)
    define a' where "a' = nat (span_end c)"
    have a': "a < a'" "span_end c = int a'" using c(3) by (auto simp: a'_def)
    have unfold: "throughput_loop pick rtts table b a =
        (case throughput_loop pick rtts table b a' of Inl e \<Rightarrow> Inl e | Inr rest \<Rightarrow> Inr (c\<lparr>span_start := int a\<rparr> # rest))"
      using True al c by (subst throughput_loop.simps, unfold Let_def, fold weights_def, fold c_def) (simp add: a'_def)
    show ?thesis
    proof (cases "a' \<le> b")
      case le: True
      have "b - a' < b - a" using a' le True by simp
      note IH = less.hyps [OF this le, folded table_def]
      show ?thesis
      proof (cases "throughput_loop pick rtts table b a'")
        case (Inl e)
        with IH a' show ?thesis unfolding table_def [symmetric] unfold by (auto intro: less_imp_le le_trans)
      next
        case (Inr rest)
        with IH obtain e where e: "chain rest (int a') e" "int b \<le> e"
          and rest: "\<forall>sp \<in> set rest. \<exists>osp \<in> set (spans_by_priority s). span_peer osp = span_peer sp \<and>
             span_start osp \<le> span_start sp \<and> span_start sp < span_end sp \<and> span_end sp = span_end osp" by auto
        have ch: "chain (c\<lparr>span_start := int a\<rparr> # rest) (int a) e" using e a' by simp
        show ?thesis unfolding table_def [symmetric] unfold Inr using ch e rest c by auto
      qed
    next
      case False
      then have "throughput_loop pick rtts table b a' = Inr []" by (subst throughput_loop.simps) simp
      then show ?thesis using False a' c unfolding unfold [unfolded table_def] by (auto simp: table_def)
    qed
  qed
qed

text \<open>
  Refreshing respects the lists and never starves a block because of bans: a block keeps only
  servers that are allowed and not blocked; banned ones are dropped, unless that would leave the block
  without any server, in which case the ban is ignored.
\<close>
theorem refresh_respects_lists:
  "(\<forall>(p, i) \<in> set (servers (filter_servers allowed blocked banned m)).
      (p, i) \<in> set (servers m) \<and> (\<forall>ps. allowed = Some ps \<longrightarrow> p \<in> set ps) \<and> (\<forall>ps. blocked = Some ps \<longrightarrow> p \<notin> set ps)) \<and>
   (let listed = filter (\<lambda>(p, i). (\<forall>ps. allowed = Some ps \<longrightarrow> p \<in> set ps) \<and> (\<forall>ps. blocked = Some ps \<longrightarrow> p \<notin> set ps)) (servers m) in
    if \<exists>(p, i) \<in> set listed. \<not> banned p then servers (filter_servers allowed blocked banned m) = filter (\<lambda>(p, i). \<not> banned p) listed
    else servers (filter_servers allowed blocked banned m) = listed)"
proof -
  define listed where "listed = filter (\<lambda>(p, i). (\<forall>ps. allowed = Some ps \<longrightarrow> p \<in> set ps) \<and> (\<forall>ps. blocked = Some ps \<longrightarrow> p \<notin> set ps)) (servers m)"
  define valid where "valid = filter (\<lambda>(p, i). \<not> banned p) listed"
  have l: "filter (\<lambda>(p, i). (case allowed of None \<Rightarrow> True | Some ps \<Rightarrow> p \<in> set ps) \<and>
                                   (case blocked of None \<Rightarrow> True | Some ps \<Rightarrow> p \<notin> set ps)) (servers m) = listed"
    unfolding listed_def by (intro filter_cong) (auto split: option.splits)
  have s: "servers (filter_servers allowed blocked banned m) = (if length valid < length listed \<and> valid \<noteq> [] then valid else listed)"
    by (simp add: filter_servers_def l valid_def Let_def)
  have full: "valid = listed" if "\<not> length valid < length listed"
    using that length_filter_less [of _ listed "\<lambda>(p, i). \<not> banned p"] unfolding valid_def by (metis filter_True)
  have ne: "valid \<noteq> [] \<longleftrightarrow> (\<exists>(p, i) \<in> set listed. \<not> banned p)" unfolding valid_def by (auto simp: filter_empty_conv)
  have sub: "set (servers (filter_servers allowed blocked banned m)) \<subseteq> set listed" using s by (auto simp: valid_def)
  have "\<forall>(p, i) \<in> set (servers (filter_servers allowed blocked banned m)).
      (p, i) \<in> set (servers m) \<and> (\<forall>ps. allowed = Some ps \<longrightarrow> p \<in> set ps) \<and> (\<forall>ps. blocked = Some ps \<longrightarrow> p \<notin> set ps)"
    using sub by (auto simp: listed_def)
  moreover have "if \<exists>(p, i) \<in> set listed. \<not> banned p then servers (filter_servers allowed blocked banned m) = valid
    else servers (filter_servers allowed blocked banned m) = listed"
    using s full ne by auto
  ultimately show ?thesis unfolding listed_def [symmetric] valid_def [symmetric] Let_def by blast
qed

text \<open>
  A failed peer leaves the module records of every block but stays in the routing tables: the spans
  that \<open>make_sequence\<close> reads are not recomputed, and an update is triggered only if some block has no
  server left.
\<close>
theorem failed_peer_still_routed:
  "let (updated, s') = on_request_failure (Some p) s in
     (\<forall>m \<in> set (block_infos s'). p \<notin> fst ` set (servers m)) \<and>
     spans_containing_block s' = spans_containing_block s \<and> spans_by_priority s' = spans_by_priority s \<and>
     (updated \<longleftrightarrow> (\<exists>m \<in> set (block_infos s). fst ` set (servers m) \<subseteq> {p}))"
proof -
  have "filter (\<lambda>(q, i). Some q \<noteq> Some p) (servers m) = [] \<longleftrightarrow> fst ` set (servers m) \<subseteq> {p}" for m :: "'a module_info"
    by (auto simp: filter_empty_conv)
  then show ?thesis by (auto simp: on_request_failure_def Let_def list_ex_iff)
qed

text \<open>
  Back-off delays start at zero, never decrease with the attempt number and never exceed the
  configured maximum, for non-negative settings.
\<close>
lemma retry_delay_bounds:
  assumes "0 \<le> lo" and "0 \<le> hi" and "m \<le> n"
  shows "get_retry_delay lo hi 0 = 0 \<and> 0 \<le> get_retry_delay lo hi m \<and>
     get_retry_delay lo hi m \<le> get_retry_delay lo hi n \<and> get_retry_delay lo hi n \<le> hi"
proof -
  have "lo * 2 ^ (m - 1) \<le> lo * 2 ^ (n - 1)" using assms by (intro mult_left_mono power_increasing) auto
  then show ?thesis using assms by (auto simp: get_retry_delay_def min_def)
qed


section \<open>Demonstration data\<close>

definition demo_seq_info :: "nat sequence_info" where
  "demo_seq_info = \<lparr>block_uids = [''m.0'', ''m.1''], block_infos = demo_infos,
     spans_by_priority = map snd demo_spans,
     spans_containing_block = map (\<lambda>i. filter (\<lambda>sp. covers_block sp i) (map snd demo_spans)) [0, 1],
     last_updated_time = Some 0\<rparr>"

lemma demo_tables_exact: "tables_exact demo_seq_info"
  by (auto simp: tables_exact_def demo_seq_info_def demo_spans_def less_Suc_eq numeral_2_eq_2)

lemma demo_full: "i < 2 \<Longrightarrow> spans_containing_block demo_seq_info ! i \<noteq> []"
  by (auto simp: demo_seq_info_def demo_spans_def covers_block_def less_2_cases_iff)

definition demo_path :: "nat node list" where
  "demo_path = [Start, At 7 0, At 7 1, At 7 2, End]"

lemma demo_is_path:
  assumes "build_inference_graph rtts needed 0 2 demo_seq_info = Inr g"
  shows "is_path g demo_path"
proof -
  have l: "2 \<le> length (spans_containing_block demo_seq_info)" by (simp add: demo_seq_info_def)
  have t: "\<exists>sp \<in> set (spans_containing_block demo_seq_info ! i). span_peer sp = 7" if "i < 2" for i
    using that by (auto simp: demo_seq_info_def demo_spans_def covers_block_def less_2_cases_iff)
  note e = graph_edges [OF demo_tables_exact _ l assms]
  have "(Start, At 7 0) \<in> edges g" "(At 7 0, At 7 1) \<in> edges g" "(At 7 1, At 7 2) \<in> edges g" "(At 7 2, End) \<in> edges g"
    using t [of 0] t [of 1] by (auto simp: e numeral_2_eq_2)
  then show ?thesis by (auto simp: is_path_def demo_path_def nth_Cons split: nat.splits)
qed

theorem min_latency_route_witness:
  "\<exists>route. make_sequence_with_min_latency (\<lambda>g. Inr demo_path) (\<lambda>p. None) None 0 2 demo_seq_info = Inr route \<and> chain route (int 0) (int 2)"
proof -
  have full: "\<not> (\<exists>i. 0 \<le> i \<and> i < 2 \<and> spans_containing_block demo_seq_info ! i = [])" using demo_full by blast
  have l: "2 \<le> length (spans_containing_block demo_seq_info)" by (simp add: demo_seq_info_def)
  have r: "\<forall>sp \<in> set (spans_by_priority demo_seq_info). inference_rps (span_server sp) \<noteq> Some 0"
    by (simp add: demo_seq_info_def demo_spans_def demo_server_def)
  have "if \<exists>i. 0 \<le> i \<and> i < 2 \<and> spans_containing_block demo_seq_info ! i = []
     then make_sequence_with_min_latency (\<lambda>g. Inr demo_path) (\<lambda>p. None) None 0 2 demo_seq_info = Inl MissingBlocksError
     else \<exists>route. make_sequence_with_min_latency (\<lambda>g. Inr demo_path) (\<lambda>p. None) None 0 2 demo_seq_info = Inr route \<and>
            chain route (int 0) (int 2) \<and> (\<forall>sp \<in> set route. 0 < span_length sp) \<and>
            (\<forall>sp \<in> set route. \<forall>i. span_start sp \<le> int i \<and> int i < span_end sp \<longrightarrow>
               (\<exists>osp \<in> set (spans_containing_block demo_seq_info ! i). span_peer osp = span_peer sp))"
    by (rule min_latency_route [OF demo_tables_exact _ l r]) (auto intro: demo_is_path)
  then show ?thesis unfolding if_not_P [OF full] by blast
qed

theorem max_throughput_route_witness:
  "case make_sequence_with_max_throughput (\<lambda>i sps ws. hd sps) (\<lambda>p. None) 0 2 demo_seq_info of
     Inl e \<Rightarrow> False | Inr route \<Rightarrow> \<exists>e. chain route (int 0) e \<and> int 2 \<le> e"
proof -
  have full: "\<not> (\<exists>i. 0 \<le> i \<and> i < 2 \<and> spans_containing_block demo_seq_info ! i = [])" using demo_full by blast
  have l: "2 \<le> length (spans_containing_block demo_seq_info)" by (simp add: demo_seq_info_def)
  from max_throughput_route [OF demo_tables_exact l, of "\<lambda>i sps ws. hd sps" 0 "\<lambda>p. None"] full
  show ?thesis by (auto split: sum.splits)
qed

theorem refresh_respects_lists_witness:
  "servers (filter_servers (Some [7, 3]) (Some [5]) (\<lambda>p. p = 7) (demo_infos ! 1)) = [(3, demo_server)]"
  using refresh_respects_lists [of "Some [7, 3]" "Some [5]" "\<lambda>p. p = 7" "demo_infos ! 1"]
  by (simp add: demo_infos_def)

theorem failed_peer_still_routed_witness:
  "fst (on_request_failure (Some 7) demo_seq_info) \<and>
   spans_containing_block (snd (on_request_failure (Some 7) demo_seq_info)) = spans_containing_block demo_seq_info"
  using failed_peer_still_routed [of 7 demo_seq_info]
  by (simp add: split_def Let_def demo_seq_info_def demo_infos_def)

section \<open>Shared shutdown\<close>

inductive group_reachable :: "bool \<Rightarrow> bool \<Rightarrow> manager_group \<Rightarrow> bool" for d p where
  init: "group_reachable d p (first_manager d p)"
| derive: "group_reachable d p g \<Longrightarrow> False \<in> set (closed g) \<Longrightarrow> group_reachable d p (derive_manager g)"
| shut: "group_reachable d p g \<Longrightarrow> group_reachable d p (shutdown_manager i g)"

definition open_count :: "manager_group \<Rightarrow> nat" where
  "open_count g = length (filter Not (closed g))"

lemma open_count_close:
  assumes "i < length xs" and "\<not> xs ! i"
  shows "length (filter Not xs) = Suc (length (filter Not (xs[i := True])))"
  using assms
proof (induction xs arbitrary: i)
  case (Cons x xs)
  then show ?case by (cases i) auto
qed simp

text \<open>
  Managers that share their connections close them exactly once: however managers are derived (from
  one that is still open) and shut down, in any order and repeatedly, the reference count equals the
  number of open managers, nothing is closed while one is open, and once all are shut down each owned
  connection has been closed exactly one time.
\<close>
theorem shared_resources_closed_once:
  assumes "group_reachable d p g"
  shows "refcount (resources g) = int (open_count g) \<and>
     dht_shutdowns (resources g) = (if open_count g = 0 \<and> d then 1 else 0) \<and>
     p2p_shutdowns (resources g) = (if open_count g = 0 \<and> p then 1 else 0)"
proof -
  have "refcount (resources g) = int (open_count g) \<and> owns_dht (resources g) = d \<and> owns_p2p (resources g) = p \<and>
     p2p_alive (resources g) = (\<not> (open_count g = 0 \<and> p)) \<and>
     dht_shutdowns (resources g) = (if open_count g = 0 \<and> d then 1 else 0) \<and>
     p2p_shutdowns (resources g) = (if open_count g = 0 \<and> p then 1 else 0)"
    using assms
  proof (induction rule: group_reachable.induct)
    case init
    then show ?case by (simp add: first_manager_def open_count_def)
  next
    case (derive g)
    then have "open_count g \<noteq> 0" by (auto simp: open_count_def filter_empty_conv)
    with derive show ?case by (simp add: derive_manager_def open_count_def)
  next
    case (shut g i)
    show ?case
    proof (cases "length (closed g) \<le> i \<or> closed g ! i")
      case True
      with shut show ?thesis by (simp add: shutdown_manager_def)
    next
      case False
      define g1 where "g1 = g\<lparr>closed := (closed g)[i := True]\<rparr>"
      have o: "open_count g = Suc (open_count g1)" using open_count_close [of i "closed g"] False by (simp add: open_count_def g1_def)
      have o': "open_count (shutdown_manager i g) = open_count g1"
        using False by (auto simp: shutdown_manager_def open_count_def g1_def Let_def)
      show ?thesis unfolding o' using shut o False by (auto simp: shutdown_manager_def Let_def)
    qed
  qed
  then show ?thesis by blast
qed

theorem shared_resources_closed_once_witness:
  "dht_shutdowns (resources (shutdown_manager 0 (shutdown_manager 1 (derive_manager (first_manager True False))))) = 1"
proof -
  have r: "group_reachable True False (shutdown_manager 0 (shutdown_manager 1 (derive_manager (first_manager True False))))"
    by (intro group_reachable.intros) (simp add: first_manager_def)
  have "open_count (shutdown_manager 0 (shutdown_manager 1 (derive_manager (first_manager True False)))) = 0" by code_simp
  with shared_resources_closed_once [OF r] show ?thesis by simp
qed

end
