(* ===== verification/SpecTree.thy ===== *)
theory SpecTree
  imports BB_Prelude "HOL-Library.Sublist"
begin

text \<open>
  Speculation trees, \<^verbatim>\<open>models/llama/spe_dec_tree.py\<close>: growing a tree layer by layer, writing it out in
  depth-first order with parent positions, and the attention masks built from those positions.

  A \<open>TreeNode\<close> object is a value of \<open>tree_node\<close>; a reference to a node is its path from the root
  (child numbers), so that \<open>[]\<close> is the root, the one node without parent. The
  \<open>position_in_sequence\<close> of a node is its entry in the position map. Matrices are lists of rows;
  device and dtype are not modelled. A parent walk that never ends is \<open>None\<close>.
\<close>

section \<open>Trees\<close>

datatype tree_node =
  TreeNode (token_id: int) (probability: real) (node_depth: nat) (children: "tree_node list")

definition new_node :: "int \<Rightarrow> real \<Rightarrow> nat \<Rightarrow> tree_node" where
  "new_node tok prob d = TreeNode tok prob d []"

definition add_child :: "int \<Rightarrow> real \<Rightarrow> tree_node \<Rightarrow> tree_node" where
  "add_child tok prob n =
     TreeNode (token_id n) (probability n) (node_depth n) (children n @ [new_node tok prob (node_depth n + 1)])"

fun add_children :: "(int \<times> real) list \<Rightarrow> tree_node \<Rightarrow> tree_node" where
  "add_children [] n = n"
| "add_children ((tok, prob) # cands) n = add_children cands (add_child tok prob n)"

fun node_at :: "tree_node \<Rightarrow> nat list \<Rightarrow> tree_node option" where
  "node_at n [] = Some n"
| "node_at n (k # ks) = (if k < length (children n) then node_at (children n ! k) ks else None)"

fun update_at :: "(tree_node \<Rightarrow> tree_node) \<Rightarrow> nat list \<Rightarrow> tree_node \<Rightarrow> tree_node" where
  "update_at f [] n = f n"
| "update_at f (k # ks) n =
     (if k < length (children n)
      then TreeNode (token_id n) (probability n) (node_depth n) ((children n)[k := update_at f ks (children n ! k)])
      else n)"

text \<open>The tokens, and the nodes, on the way from the root; the root itself is not part of it.\<close>

definition get_path_nodes_from_root :: "nat list \<Rightarrow> nat list list" where
  "get_path_nodes_from_root p = map (\<lambda>k. take (Suc k) p) [0..<length p]"

definition get_path_from_root :: "tree_node \<Rightarrow> nat list \<Rightarrow> int list" where
  "get_path_from_root r p = map (\<lambda>q. token_id (the (node_at r q))) (get_path_nodes_from_root p)"

fun get_all_leaf_node_paths :: "nat list \<Rightarrow> tree_node \<Rightarrow> nat list list list"
  and leaf_paths_of :: "nat list \<Rightarrow> nat \<Rightarrow> tree_node list \<Rightarrow> nat list list list" where
  "get_all_leaf_node_paths p (TreeNode tok prob d cs) =
     (if cs = [] then [get_path_nodes_from_root p] else leaf_paths_of p 0 cs)"
| "leaf_paths_of p k [] = []"
| "leaf_paths_of p k (c # cs) = get_all_leaf_node_paths (p @ [k]) c @ leaf_paths_of p (Suc k) cs"

record spec_tree =
  root :: tree_node
  max_depth :: nat
  total_nodes :: nat

definition new_tree :: "int \<Rightarrow> spec_tree" where
  "new_tree tok = \<lparr>root = new_node tok 1 0, max_depth = 0, total_nodes = 1\<rparr>"

fun nodes_at :: "nat list \<Rightarrow> nat \<Rightarrow> nat \<Rightarrow> tree_node \<Rightarrow> nat list list"
  and nodes_at_of :: "nat list \<Rightarrow> nat \<Rightarrow> nat \<Rightarrow> nat \<Rightarrow> tree_node list \<Rightarrow> nat list list" where
  "nodes_at p depth current (TreeNode tok prob d cs) =
     (if current = depth then [p] else if current < depth then nodes_at_of p depth (Suc current) 0 cs else [])"
| "nodes_at_of p depth current k [] = []"
| "nodes_at_of p depth current k (c # cs) = nodes_at (p @ [k]) depth current c @ nodes_at_of p depth current (Suc k) cs"

definition get_nodes_at_depth :: "nat \<Rightarrow> spec_tree \<Rightarrow> nat list list" where
  "get_nodes_at_depth depth t = (if depth = 0 then [[]] else nodes_at [] depth 0 (root t))"

text \<open>
  The loop of \<open>add_layer\<close>: each parent gets its candidates as further children; the second
  component lists the new nodes.
\<close>

fun layer_loop :: "(nat list \<times> (int \<times> real) list) list \<Rightarrow> tree_node \<Rightarrow> nat list list \<Rightarrow> tree_node \<times> nat list list" where
  "layer_loop [] r acc = (r, acc)"
| "layer_loop ((p, cands) # rest) r acc =
     (let n = length (children (the (node_at r p))) in
      layer_loop rest (update_at (add_children cands) p r) (acc @ map (\<lambda>k. p @ [k]) [n..<n + length cands]))"

definition add_layer ::
  "nat list list \<Rightarrow> (int \<times> real) list list \<Rightarrow> spec_tree \<Rightarrow> (spec_tree, nat list list) outcome" where
  "add_layer parents cands t =
     (if length parents \<noteq> length cands then (Inl ValueError, t)
      else
        let (r, new) = layer_loop (zip parents cands) (root t) [] in
        (Inr new,
         if new = [] then t\<lparr>root := r\<rparr>
         else t\<lparr>root := r,
                max_depth := max (max_depth t) (Max (set (map (\<lambda>q. node_depth (the (node_at r q))) new))),
                total_nodes := total_nodes t + length new\<rparr>))"

section \<open>Depth-first order\<close>

record lin_state =
  lin_nodes :: "(nat list \<times> tree_node) list"
  lin_parents :: "int list"
  position_map :: "nat list \<rightharpoonup> nat"

definition visit :: "nat list \<Rightarrow> tree_node \<Rightarrow> lin_state \<Rightarrow> lin_state" where
  "visit p n st =
     (let pos = length (lin_nodes st);
          pm = (position_map st)(p \<mapsto> pos)
      in \<lparr>lin_nodes = lin_nodes st @ [(p, n)],
          lin_parents = lin_parents st @ [case pm (butlast p) of None \<Rightarrow> - 1 | Some q \<Rightarrow> int q],
          position_map = pm\<rparr>)"

fun dfs_with_positions :: "nat list \<Rightarrow> tree_node \<Rightarrow> lin_state \<Rightarrow> lin_state"
  and dfs_children :: "nat list \<Rightarrow> nat \<Rightarrow> tree_node list \<Rightarrow> lin_state \<Rightarrow> lin_state" where
  "dfs_with_positions p (TreeNode tok prob d cs) st =
     dfs_children p 0 cs (if p \<noteq> [] then visit p (TreeNode tok prob d cs) st else st)"
| "dfs_children p k [] st = st"
| "dfs_children p k (c # cs) st = dfs_children p (Suc k) cs (dfs_with_positions (p @ [k]) c st)"

definition linearize_tree_with_positions :: "spec_tree \<Rightarrow> lin_state" where
  "linearize_tree_with_positions t =
     dfs_with_positions [] (root t) \<lparr>lin_nodes = [], lin_parents = [], position_map = Map.empty\<rparr>"

section \<open>Ancestor masks\<close>

text \<open>The walk \<open>while j >= 0\<close> from a node up the parent positions.\<close>

partial_function (option) ancestor_walk :: "int list \<Rightarrow> int \<Rightarrow> int list result option" where
  "ancestor_walk parents j =
     (if j < 0 then Some (Inr [])
      else if int (length parents) \<le> j then Some (Inl IndexError)
      else Option.bind (ancestor_walk parents (parents ! nat j)) (\<lambda>r. Some (map_sum id ((#) j) r)))"

fun ancestor_rows :: "int list \<Rightarrow> int list \<Rightarrow> int list list result option" where
  "ancestor_rows parents [] = Some (Inr [])"
| "ancestor_rows parents (p # ps) =
     (case ancestor_walk parents p of
        None \<Rightarrow> None
      | Some (Inl e) \<Rightarrow> Some (Inl e)
      | Some (Inr as) \<Rightarrow> map_option (map_sum id ((#) as)) (ancestor_rows parents ps))"

definition false_matrix :: "nat \<Rightarrow> nat \<Rightarrow> bool list list" where
  "false_matrix r c = replicate r (replicate c False)"

definition set_cell :: "bool list list \<Rightarrow> nat \<times> nat \<Rightarrow> bool list list" where
  "set_cell m rc = m[fst rc := (m ! fst rc)[snd rc := True]]"

definition build_ancestor_matrix_optimized :: "int list \<Rightarrow> bool list list result option" where
  "build_ancestor_matrix_optimized parents =
     (let n = length parents in
      if n = 0 then Some (Inr [])
      else map_option (map_sum id (\<lambda>rows.
             if \<not> list_ex (\<lambda>r. r \<noteq> []) rows then false_matrix n n
             else foldl set_cell (false_matrix n n)
                    (concat (map (\<lambda>(i, as). map (\<lambda>a. (i, nat a)) as) (enumerate 0 rows)))))
           (ancestor_rows parents parents))"

text \<open>\<open>|\<close> of square matrices, with PyTorch's broadcasting of a one-by-one matrix.\<close>

definition square_or :: "bool list list \<Rightarrow> bool list list \<Rightarrow> bool list list result" where
  "square_or a b =
     (let m = length a; n = length b in
      if m = n then Inr (map2 (map2 (\<or>)) a b)
      else if m = 1 then Inr (map (map (\<lambda>x. a ! 0 ! 0 \<or> x)) b)
      else if n = 1 then Inr (map (map (\<lambda>x. x \<or> b ! 0 ! 0)) a)
      else Inl RuntimeError)"

definition eye :: "nat \<Rightarrow> bool list list" where
  "eye n = map (\<lambda>i. map (\<lambda>j. i = j) [0..<n]) [0..<n]"

text \<open>The result is the list of matrices along the leading dimension that \<open>unsqueeze\<close> adds.\<close>

definition build_incremental_tree_attention_mask :: "nat \<Rightarrow> int list \<Rightarrow> bool list list list result option" where
  "build_incremental_tree_attention_mask tree_len parents =
     (if tree_len = 0 then Some (Inr [])
      else if parents \<noteq> [] then
        (case build_ancestor_matrix_optimized parents of
           None \<Rightarrow> None
         | Some (Inl e) \<Rightarrow> Some (Inl e)
         | Some (Inr m) \<Rightarrow> Some (map_sum id (\<lambda>x. [x]) (square_or m (eye tree_len))))
      else Some (Inr [eye tree_len]))"

partial_function (option) mark_ancestors :: "int list \<Rightarrow> nat \<Rightarrow> bool list \<Rightarrow> bool list result option" where
  "mark_ancestors parents current row =
     (if length parents \<le> current then Some (Inl IndexError)
      else
        let parent = parents ! current in
        if parent < 0 then Some (Inr row)
        else if int (length row) \<le> parent then Some (Inl IndexError)
        else mark_ancestors parents (nat parent) (row[nat parent := True]))"

fun mask_rows :: "int list \<Rightarrow> nat \<Rightarrow> nat list \<Rightarrow> bool list list result option" where
  "mask_rows parents tree_len [] = Some (Inr [])"
| "mask_rows parents tree_len (i # is) =
     (case mark_ancestors parents i ((replicate tree_len False)[i := True]) of
        None \<Rightarrow> None
      | Some (Inl e) \<Rightarrow> Some (Inl e)
      | Some (Inr row) \<Rightarrow> map_option (map_sum id ((#) row)) (mask_rows parents tree_len is))"

definition build_tree_attention_mask_with_root :: "nat \<Rightarrow> int list \<Rightarrow> bool list list result option" where
  "build_tree_attention_mask_with_root tree_len parents = mask_rows parents tree_len [0..<tree_len]"


section \<open>Preorder\<close>

text \<open>The nodes of a tree in preorder, with their paths.\<close>

fun preorder :: "tree_node \<Rightarrow> (nat list \<times> tree_node) list"
  and preorder_list :: "nat \<Rightarrow> tree_node list \<Rightarrow> (nat list \<times> tree_node) list" where
  "preorder (TreeNode tok prob d cs) = ([], TreeNode tok prob d cs) # preorder_list 0 cs"
| "preorder_list k [] = []"
| "preorder_list k (c # cs) = map (\<lambda>(q, n). (k # q, n)) (preorder c) @ preorder_list (Suc k) cs"

lemma preorder_nonempty_hd: "preorder n = ([], n) # preorder_list 0 (children n)"
  by (cases n) simp

lemma dfs_is_fold:
  "dfs_with_positions p n st =
     foldl (\<lambda>st (q, m). visit (p @ q) m st) st (if p = [] then preorder_list 0 (children n) else preorder n)"
  "dfs_children p k cs st = foldl (\<lambda>st (q, m). visit (p @ q) m st) st (preorder_list k cs)"
proof (induction p n st and p k cs st rule: dfs_with_positions_dfs_children.induct)
  case (3 p k c cs st)
  then show ?case by (simp add: foldl_map split_def)
qed auto

corollary linearize_is_fold:
  "linearize_tree_with_positions t =
     foldl (\<lambda>st (q, m). visit q m st) \<lparr>lin_nodes = [], lin_parents = [], position_map = Map.empty\<rparr> (preorder_list 0 (children (root t)))"
  by (simp add: linearize_tree_with_positions_def dfs_is_fold)

lemma preorder_nodes:
  "(q, m) \<in> set (preorder n) \<longleftrightarrow> node_at n q = Some m"
  "(q, m) \<in> set (preorder_list k cs) \<longleftrightarrow> (\<exists>j q'. q = (k + j) # q' \<and> j < length cs \<and> node_at (cs ! j) q' = Some m)"
proof (induction n and k cs arbitrary: q m and q m rule: preorder_preorder_list.induct)
  case (1 tok prob d cs)
  then show ?case by (cases q) auto
next
  case (3 k c cs)
  have "(q, m) \<in> set (preorder_list k (c # cs)) \<longleftrightarrow>
      (\<exists>q'. q = k # q' \<and> node_at c q' = Some m) \<or> (\<exists>j q'. q = (Suc k + j) # q' \<and> j < length cs \<and> node_at (cs ! j) q' = Some m)"
    using 3 by auto
  also have "\<dots> \<longleftrightarrow> (\<exists>j q'. q = (k + j) # q' \<and> j < length (c # cs) \<and> node_at ((c # cs) ! j) q' = Some m)" (is "?l \<longleftrightarrow> ?r")
  proof
    assume ?l
    then show ?r
    proof (elim disjE exE)
      fix q' assume "q = k # q' \<and> node_at c q' = Some m"
      then show ?r by (intro exI [of _ 0] exI [of _ q']) simp
    next
      fix j q' assume "q = (Suc k + j) # q' \<and> j < length cs \<and> node_at (cs ! j) q' = Some m"
      then show ?r by (intro exI [of _ "Suc j"] exI [of _ q']) simp
    qed
  next
    assume ?r
    then obtain j q' where "q = (k + j) # q'" "j < length (c # cs)" "node_at ((c # cs) ! j) q' = Some m" by blast
    then show ?l by (cases j) auto
  qed
  finally show ?case .
qed auto

lemma preorder_distinct:
  "distinct (map fst (preorder n))"
  "distinct (map fst (preorder_list k cs))"
proof (induction n and k cs rule: preorder_preorder_list.induct)
  case (1 tok prob d cs)
  then show ?case by (auto simp: preorder_nodes)
next
  case (3 k c cs)
  have "map fst (map (\<lambda>(q, n). (k # q, n)) (preorder c)) = map ((#) k) (map fst (preorder c))" by (simp add: split_def)
  moreover have "distinct (map ((#) k) (map fst (preorder c)))"
    unfolding distinct_map [of "(#) k"] using 3(1) by (simp add: inj_on_def)
  ultimately have "distinct (map fst (map (\<lambda>(q, n). (k # q, n)) (preorder c)))" by metis
  moreover have "fst ` set (map (\<lambda>(q, n). (k # q, n)) (preorder c)) \<inter> fst ` set (preorder_list (Suc k) cs) = {}"
    by (auto simp: preorder_nodes)
  ultimately show ?case using 3(2) unfolding preorder_list.simps map_append distinct_append set_map by blast
qed simp

text \<open>A parent comes before its children.\<close>

fun parents_first :: "nat list set \<Rightarrow> (nat list \<times> 'n) list \<Rightarrow> bool" where
  "parents_first S [] = True"
| "parents_first S ((q, m) # xs) = ((q = [] \<or> butlast q \<in> S) \<and> parents_first (insert q S) xs)"

lemma parents_first_append:
  "parents_first S (xs @ ys) \<longleftrightarrow> parents_first S xs \<and> parents_first (S \<union> fst ` set xs) ys"
proof (induction S xs rule: parents_first.induct)
  case (2 S q m xs)
  have "insert q S \<union> fst ` set xs = S \<union> fst ` set ((q, m) # xs)" by auto
  with 2 show ?case by simp
qed simp

lemma parents_first_mono: "parents_first S xs \<Longrightarrow> S \<subseteq> T \<Longrightarrow> parents_first T xs"
proof (induction S xs arbitrary: T rule: parents_first.induct)
  case (2 S q m xs)
  then have "parents_first (insert q T) xs" by (meson insert_mono parents_first.simps(2))
  with 2 show ?case by auto
qed simp

lemma parents_first_shift:
  "parents_first S xs \<Longrightarrow> [] \<in> T \<Longrightarrow> (#) k ` S \<subseteq> T \<Longrightarrow> parents_first T (map (\<lambda>(q, m). (k # q, m)) xs)"
proof (induction S xs arbitrary: T rule: parents_first.induct)
  case (2 S q m xs)
  have "(#) k ` insert q S \<subseteq> insert (k # q) T" using 2(4) by auto
  with 2 have "parents_first (insert (k # q) T) (map (\<lambda>(q, m). (k # q, m)) xs)" by simp
  with 2 show ?case by auto
qed simp

lemma preorder_parents_first:
  "parents_first S (preorder n)"
  "[] \<in> S \<Longrightarrow> parents_first S (preorder_list k cs)"
proof (induction n and k cs arbitrary: S and S rule: preorder_preorder_list.induct)
  case (3 k c cs)
  have "parents_first S (map (\<lambda>(q, n). (k # q, n)) (preorder c))"
    using 3(3) by (intro parents_first_shift [OF 3(1) [of "{}"]]) auto
  with 3 show ?case by (simp add: parents_first_append)
qed auto

section \<open>Linearisation\<close>

definition parent_ok :: "lin_state \<Rightarrow> nat \<Rightarrow> bool" where
  "parent_ok st i \<longleftrightarrow>
     (let q = fst (lin_nodes st ! i) in
      q \<noteq> [] \<and> (if length q = 1 then lin_parents st ! i = - 1
                else \<exists>j < i. lin_parents st ! i = int j \<and> fst (lin_nodes st ! j) = butlast q))"

definition positions_ok :: "lin_state \<Rightarrow> bool" where
  "positions_ok st \<longleftrightarrow>
     (\<forall>q i. position_map st q = Some i \<longleftrightarrow> i < length (lin_nodes st) \<and> fst (lin_nodes st ! i) = q) \<and>
     length (lin_parents st) = length (lin_nodes st) \<and>
     (\<forall>i < length (lin_nodes st). parent_ok st i)"

lemma visit_ok:
  assumes "positions_ok st" and "q \<noteq> []" and "q \<notin> fst ` set (lin_nodes st)"
    and "length q = 1 \<or> butlast q \<in> fst ` set (lin_nodes st)"
  shows "positions_ok (visit q m st)"
proof -
  let ?n = "length (lin_nodes st)"
  have nq: "fst (lin_nodes st ! i) \<noteq> q" if "i < ?n" for i using assms(3) that by (metis image_eqI nth_mem)
  have pm: "position_map st q' = Some i \<longleftrightarrow> i < ?n \<and> fst (lin_nodes st ! i) = q'" for q' i
    using assms(1) unfolding positions_ok_def by blast
  have bq: "butlast q \<noteq> q" using assms(2) by (metis append_butlast_last_id not_Cons_self2 self_append_conv)
  have root: "position_map st [] = None"
    using assms(1) pm [of "[]"] unfolding positions_ok_def parent_ok_def Let_def by (metis not_None_eq)
  have old: "lin_parents (visit q m st) ! i = lin_parents st ! i" "lin_nodes (visit q m st) ! i = lin_nodes st ! i" if "i < ?n" for i
    using that assms(1) by (auto simp: visit_def Let_def nth_append positions_ok_def)
  have new: "lin_parents (visit q m st) ! ?n = (case position_map st (butlast q) of None \<Rightarrow> - 1 | Some j \<Rightarrow> int j)"
    using assms(1) bq by (simp add: visit_def Let_def nth_append positions_ok_def)
  have newp: "parent_ok (visit q m st) ?n"
  proof (cases "length q = 1")
    case True
    then have "butlast q = []" by (auto simp: length_Suc_conv)
    then show ?thesis using True root new assms(2) by (simp add: parent_ok_def visit_def Let_def)
  next
    case False
    then obtain j where j: "j < ?n" "fst (lin_nodes st ! j) = butlast q" using assms(4) by (metis imageE in_set_conv_nth)
    then have "position_map st (butlast q) = Some j" using pm by blast
    then show ?thesis using j new old False assms(2) by (auto simp: parent_ok_def visit_def Let_def)
  qed
  have nodes: "lin_nodes (visit q m st) = lin_nodes st @ [(q, m)]" "position_map (visit q m st) = (position_map st)(q \<mapsto> ?n)"
    "length (lin_parents (visit q m st)) = Suc (length (lin_parents st))"
    by (simp_all add: visit_def Let_def)
  have olds: "parent_ok st i" if "i < ?n" for i
    using assms(1) that unfolding positions_ok_def by blast
  show ?thesis unfolding positions_ok_def
  proof (intro conjI allI impI)
    fix q' i
    show "position_map (visit q m st) q' = Some i \<longleftrightarrow> i < length (lin_nodes (visit q m st)) \<and> fst (lin_nodes (visit q m st) ! i) = q'"
      using pm nq by (auto simp: nodes nth_append less_Suc_eq)
  next
    show "length (lin_parents (visit q m st)) = length (lin_nodes (visit q m st))"
      using assms(1) by (simp add: nodes positions_ok_def)
  next
    fix i assume "i < length (lin_nodes (visit q m st))"
    then consider "i < ?n" | "i = ?n" by (auto simp: nodes less_Suc_eq)
    then show "parent_ok (visit q m st) i"
    proof cases
      case 1
      have "lin_nodes (visit q m st) ! j = lin_nodes st ! j" if "j < i" for j using 1 that old by simp
      with 1 olds [OF 1] old [OF 1] show ?thesis unfolding parent_ok_def Let_def by metis
    next
      case 2
      with newp show ?thesis by simp
    qed
  qed
qed

lemma fold_visit_ok:
  assumes "positions_ok st" and "distinct (map fst (lin_nodes st @ xs))" and "[] \<notin> fst ` set xs"
    and "parents_first (insert [] (fst ` set (lin_nodes st))) xs"
  shows "positions_ok (foldl (\<lambda>st (q, m). visit q m st) st xs) \<and>
     lin_nodes (foldl (\<lambda>st (q, m). visit q m st) st xs) = lin_nodes st @ xs"
  using assms
proof (induction xs arbitrary: st)
  case (Cons x xs)
  obtain q m where x: "x = (q, m)" by fastforce
  have q: "q \<noteq> []" "q \<notin> fst ` set (lin_nodes st)" using Cons.prems x by auto
  have "length q = 1 \<or> butlast q \<in> fst ` set (lin_nodes st)"
    using Cons.prems(4) q(1) unfolding x by (cases q; cases "tl q = []") auto
  from visit_ok [OF Cons.prems(1) q this] have ok: "positions_ok (visit q m st)" .
  have n: "lin_nodes (visit q m st) = lin_nodes st @ [(q, m)]" by (simp add: visit_def Let_def)
  have "parents_first (insert [] (fst ` set (lin_nodes (visit q m st)))) xs"
    using Cons.prems(4) unfolding x n by (simp add: insert_commute)
  with Cons.IH [OF ok] Cons.prems show ?case by (simp add: x n)
qed simp

lemma linearize_ok:
  "positions_ok (linearize_tree_with_positions t)"
  "lin_nodes (linearize_tree_with_positions t) = tl (preorder (root t))"
proof -
  let ?st = "\<lparr>lin_nodes = [], lin_parents = [], position_map = Map.empty\<rparr>"
  have "positions_ok ?st" by (simp add: positions_ok_def)
  moreover have "[] \<notin> fst ` set (preorder_list 0 (children (root t)))" by (auto simp: preorder_nodes)
  ultimately have "positions_ok (linearize_tree_with_positions t) \<and>
      lin_nodes (linearize_tree_with_positions t) = lin_nodes ?st @ preorder_list 0 (children (root t))"
    unfolding linearize_is_fold
    by (intro fold_visit_ok) (auto simp: preorder_distinct intro: preorder_parents_first(2))
  then show "positions_ok (linearize_tree_with_positions t)"
    "lin_nodes (linearize_tree_with_positions t) = tl (preorder (root t))" by (auto simp: preorder_nonempty_hd)
qed


section \<open>Walking up the parents\<close>

definition parent_step :: "int list \<Rightarrow> (nat \<times> nat) set" where
  "parent_step parents = {(j, i). i < length parents \<and> parents ! i = int j}"

definition wf_parents :: "int list \<Rightarrow> bool" where
  "wf_parents parents \<longleftrightarrow> (\<forall>i < length parents. parents ! i < int i)"

lemma ancestors_of_root: "parents ! i < 0 \<Longrightarrow> (j, i) \<notin> (parent_step parents)\<^sup>+"
proof
  assume "parents ! i < 0" "(j, i) \<in> (parent_step parents)\<^sup>+"
  then obtain k where "(k, i) \<in> parent_step parents" by (metis tranclE)
  with \<open>parents ! i < 0\<close> show False by (simp add: parent_step_def)
qed

lemma ancestors_of_child:
  assumes "i < length parents" and "parents ! i = int p"
  shows "{j. (j, i) \<in> (parent_step parents)\<^sup>+} = insert p {j. (j, p) \<in> (parent_step parents)\<^sup>+}"
proof -
  have 1: "(p, i) \<in> parent_step parents" using assms by (simp add: parent_step_def)
  have 2: "k = p" if "(k, i) \<in> parent_step parents" for k using that assms by (simp add: parent_step_def)
  show ?thesis
  proof (intro set_eqI iffI; clarsimp)
    fix j assume "(j, i) \<in> (parent_step parents)\<^sup>+" "(j, p) \<notin> (parent_step parents)\<^sup>+"
    then show "j = p" using 2 by (metis tranclE)
  next
    fix j assume "j = p \<or> (j, p) \<in> (parent_step parents)\<^sup>+"
    then show "(j, i) \<in> (parent_step parents)\<^sup>+" using 1 by auto
  qed
qed

lemma parent_cases:
  assumes "wf_parents parents" and "i < length parents"
  obtains (top) "parents ! i < 0" | (up) p where "p < i" and "parents ! i = int p"
  using assms by (cases "parents ! i < 0") (auto simp: wf_parents_def, metis nonneg_int_cases not_less of_nat_less_iff)

lemma ancestor_walk_ok:
  assumes "wf_parents parents"
  shows "i < length parents \<Longrightarrow>
     \<exists>as. ancestor_walk parents (parents ! i) = Some (Inr as) \<and> set as = int ` {j. (j, i) \<in> (parent_step parents)\<^sup>+}"
proof (induction i rule: less_induct)
  case (less i)
  from assms less.prems show ?case
  proof (cases rule: parent_cases)
    case top
    then show ?thesis by (subst ancestor_walk.simps) (simp add: ancestors_of_root)
  next
    case (up p)
    then obtain as where as: "ancestor_walk parents (parents ! p) = Some (Inr as)"
      "set as = int ` {j. (j, p) \<in> (parent_step parents)\<^sup>+}" using less.IH [of p] less.prems by auto
    have "ancestor_walk parents (int p) = Some (Inr (int p # as))"
      using as up less.prems by (subst ancestor_walk.simps) simp
    then show ?thesis using as up ancestors_of_child [OF less.prems up(2)] by simp
  qed
qed

lemma mark_ancestors_ok:
  assumes "wf_parents parents"
  shows "i < length parents \<Longrightarrow> length row = length parents \<Longrightarrow>
     \<exists>row'. mark_ancestors parents i row = Some (Inr row') \<and> length row' = length parents \<and>
        (\<forall>j < length parents. row' ! j \<longleftrightarrow> row ! j \<or> (j, i) \<in> (parent_step parents)\<^sup>+)"
proof (induction i arbitrary: row rule: less_induct)
  case (less i)
  from assms less.prems(1) show ?case
  proof (cases rule: parent_cases)
    case top
    then show ?thesis using less.prems by (subst mark_ancestors.simps) (simp add: ancestors_of_root)
  next
    case (up p)
    then obtain row' where r: "mark_ancestors parents p (row[p := True]) = Some (Inr row')" "length row' = length parents"
      "\<forall>j < length parents. row' ! j \<longleftrightarrow> row[p := True] ! j \<or> (j, p) \<in> (parent_step parents)\<^sup>+"
      using less.IH [of p "row[p := True]"] less.prems by auto
    have "mark_ancestors parents i row = Some (Inr row')"
      using r(1) up less.prems by (subst mark_ancestors.simps) simp
    moreover have "row[p := True] ! j \<or> (j, p) \<in> (parent_step parents)\<^sup>+ \<longleftrightarrow> row ! j \<or> (j, i) \<in> (parent_step parents)\<^sup>+"
      if "j < length parents" for j
      using ancestors_of_child [OF less.prems(1) up(2)] that less.prems up by (auto simp: nth_list_update set_eq_iff)
    ultimately show ?thesis using r by auto
  qed
qed

lemma mask_rows_ok:
  assumes "wf_parents parents" and "\<forall>i \<in> set is. i < length parents"
  shows "\<exists>m. mask_rows parents (length parents) is = Some (Inr m) \<and> length m = length is \<and>
     (\<forall>k < length is. length (m ! k) = length parents \<and>
        (\<forall>j < length parents. m ! k ! j \<longleftrightarrow> j = is ! k \<or> (j, is ! k) \<in> (parent_step parents)\<^sup>+))"
  using assms(2)
proof (induction "is")
  case (Cons i "is")
  let ?n = "length parents"
  obtain row where row: "mark_ancestors parents i ((replicate ?n False)[i := True]) = Some (Inr row)" "length row = ?n"
    "\<forall>j < ?n. row ! j \<longleftrightarrow> (replicate ?n False)[i := True] ! j \<or> (j, i) \<in> (parent_step parents)\<^sup>+"
    using mark_ancestors_ok [OF assms(1), of i "(replicate ?n False)[i := True]"] Cons.prems by auto
  obtain m where m: "mask_rows parents ?n is = Some (Inr m)" "length m = length is"
    "\<forall>k < length is. length (m ! k) = ?n \<and> (\<forall>j < ?n. m ! k ! j \<longleftrightarrow> j = is ! k \<or> (j, is ! k) \<in> (parent_step parents)\<^sup>+)"
    using Cons by auto
  have "row ! j \<longleftrightarrow> j = i \<or> (j, i) \<in> (parent_step parents)\<^sup>+" if "j < ?n" for j
    using row(3) that by (auto simp: nth_list_update)
  with row m show ?case by (auto simp: nth_Cons split: nat.splits)
qed simp

lemma ancestor_rows_ok:
  assumes "wf_parents parents" and "\<forall>i \<in> set is. i < length parents"
  shows "\<exists>rows. ancestor_rows parents (map (\<lambda>i. parents ! i) is) = Some (Inr rows) \<and> length rows = length is \<and>
     (\<forall>k < length is. set (rows ! k) = int ` {j. (j, is ! k) \<in> (parent_step parents)\<^sup>+})"
  using assms(2)
proof (induction "is")
  case (Cons i "is")
  then obtain as rows where "ancestor_walk parents (parents ! i) = Some (Inr as)" "set as = int ` {j. (j, i) \<in> (parent_step parents)\<^sup>+}"
    "ancestor_rows parents (map (\<lambda>i. parents ! i) is) = Some (Inr rows)" "length rows = length is"
    "\<forall>k < length is. set (rows ! k) = int ` {j. (j, is ! k) \<in> (parent_step parents)\<^sup>+}"
    using ancestor_walk_ok [OF assms(1), of i] by auto
  then show ?case by (auto simp: nth_Cons split: nat.splits)
qed simp

definition is_matrix :: "nat \<Rightarrow> nat \<Rightarrow> bool list list \<Rightarrow> bool" where
  "is_matrix r c m \<longleftrightarrow> length m = r \<and> (\<forall>i < r. length (m ! i) = c)"

lemma false_matrix_ok [simp]: "is_matrix r c (false_matrix r c)" "i < r \<Longrightarrow> j < c \<Longrightarrow> \<not> false_matrix r c ! i ! j"
  by (simp_all add: is_matrix_def false_matrix_def)

lemma set_cells:
  assumes "is_matrix r c m" and "\<forall>(a, b) \<in> set cells. a < r \<and> b < c"
  shows "is_matrix r c (foldl set_cell m cells) \<and>
     (\<forall>i < r. \<forall>j < c. foldl set_cell m cells ! i ! j \<longleftrightarrow> m ! i ! j \<or> (i, j) \<in> set cells)"
  using assms
proof (induction cells arbitrary: m)
  case (Cons x cells)
  have m: "is_matrix r c (set_cell m x)" using Cons.prems by (auto simp: is_matrix_def set_cell_def nth_list_update)
  have "set_cell m x ! i ! j \<longleftrightarrow> m ! i ! j \<or> (i, j) = x" if "i < r" "j < c" for i j
    using Cons.prems that by (cases x) (auto simp: is_matrix_def set_cell_def nth_list_update)
  with Cons.IH [OF m] Cons.prems show ?case by auto
qed simp

lemma ancestor_matrix_ok:
  assumes "wf_parents parents"
  shows "\<exists>m. build_ancestor_matrix_optimized parents = Some (Inr m) \<and> is_matrix (length parents) (length parents) m \<and>
     (\<forall>i < length parents. \<forall>j < length parents. m ! i ! j \<longleftrightarrow> (j, i) \<in> (parent_step parents)\<^sup>+)"
proof (cases "parents = []")
  case False
  let ?n = "length parents"
  have "map (\<lambda>i. parents ! i) [0..<?n] = parents" by (rule map_nth)
  then obtain rows where rows: "ancestor_rows parents parents = Some (Inr rows)" "length rows = ?n"
    "\<forall>k < ?n. set (rows ! k) = int ` {j. (j, k) \<in> (parent_step parents)\<^sup>+}"
    using ancestor_rows_ok [OF assms, of "[0..<?n]"] by auto
  define cells where "cells = concat (map (\<lambda>(i, as). map (\<lambda>a. (i, nat a)) as) (enumerate 0 rows))"
  have cell: "(i, j) \<in> set cells \<longleftrightarrow> i < ?n \<and> (j, i) \<in> (parent_step parents)\<^sup>+" for i j
  proof -
    have "(i, j) \<in> set cells \<longleftrightarrow> i < ?n \<and> (\<exists>a \<in> set (rows ! i). j = nat a)"
      using rows(2) by (force simp: cells_def in_set_enumerate_eq)
    with rows(3) show ?thesis by auto
  qed
  have dom: "j < ?n" if "(j, i) \<in> (parent_step parents)\<^sup>+" "i < ?n" for i j
    using that
  proof (induction i rule: less_induct)
    case (less i)
    then show ?case
      by (cases rule: parent_cases [OF assms less.prems(2)])
        (use ancestors_of_root ancestors_of_child [OF less.prems(2)] in \<open>auto simp: set_eq_iff\<close>)
  qed
  have "\<forall>(a, b) \<in> set cells. a < ?n \<and> b < ?n" using cell dom by auto
  from set_cells [OF false_matrix_ok(1) this]
  have m: "is_matrix ?n ?n (foldl set_cell (false_matrix ?n ?n) cells)"
    "\<forall>i < ?n. \<forall>j < ?n. foldl set_cell (false_matrix ?n ?n) cells ! i ! j \<longleftrightarrow> (i, j) \<in> set cells" by auto
  have e: "cells = []" if "\<not> list_ex (\<lambda>r. r \<noteq> []) rows"
    using that by (auto simp: cells_def list_ex_iff in_set_enumerate_eq)
  then have "build_ancestor_matrix_optimized parents = Some (Inr (foldl set_cell (false_matrix ?n ?n) cells))"
    unfolding build_ancestor_matrix_optimized_def Let_def rows(1) using False by (simp flip: cells_def)
  with m cell show ?thesis by auto
qed (simp add: build_ancestor_matrix_optimized_def is_matrix_def)


section \<open>Ancestry in the tree\<close>

abbreviation path_of :: "lin_state \<Rightarrow> nat \<Rightarrow> nat list" where
  "path_of st i \<equiv> fst (lin_nodes st ! i)"

lemma positions_wf: "positions_ok st \<Longrightarrow> wf_parents (lin_parents st)"
  unfolding positions_ok_def wf_parents_def parent_ok_def Let_def
  by (metis of_nat_0_le_iff of_nat_less_iff order_less_le_trans zero_less_one neg_less_0_iff_less)

lemma path_inj: "positions_ok st \<Longrightarrow> i < length (lin_nodes st) \<Longrightarrow> j < length (lin_nodes st) \<Longrightarrow> path_of st i = path_of st j \<Longrightarrow> i = j"
  unfolding positions_ok_def by (metis option.inject)

lemma path_parent:
  assumes "positions_ok st" and "i < length (lin_nodes st)"
  shows "(j, i) \<in> parent_step (lin_parents st) \<longleftrightarrow> j < length (lin_nodes st) \<and> length (path_of st i) \<noteq> 1 \<and> path_of st j = butlast (path_of st i)"
proof -
  have p: "parent_ok st i" "length (lin_parents st) = length (lin_nodes st)" using assms by (auto simp: positions_ok_def)
  show ?thesis
  proof (cases "length (path_of st i) = 1")
    case True
    then show ?thesis using p by (simp add: parent_step_def parent_ok_def Let_def)
  next
    case False
    then obtain k where k: "k < i" "lin_parents st ! i = int k" "path_of st k = butlast (path_of st i)"
      using p(1) by (auto simp: parent_ok_def Let_def)
    have "path_of st j = path_of st k \<longleftrightarrow> j = k" if "j < length (lin_nodes st)" for j
      using path_inj [OF assms(1) that, of k] k(1) assms(2) by auto
    then show ?thesis using k p assms(2) False by (auto simp: parent_step_def)
  qed
qed

lemma prefix_butlast_iff: "xs \<noteq> [] \<Longrightarrow> prefix ys (butlast xs) \<longleftrightarrow> strict_prefix ys xs"
  by (cases xs rule: rev_cases) (auto simp: strict_prefix_def dest: prefix_length_le)

lemma ancestor_is_prefix:
  assumes "positions_ok st"
  shows "i < length (lin_nodes st) \<Longrightarrow>
     (j, i) \<in> (parent_step (lin_parents st))\<^sup>+ \<longleftrightarrow> j < length (lin_nodes st) \<and> strict_prefix (path_of st j) (path_of st i)"
proof (induction i rule: less_induct)
  case (less i)
  have ne: "path_of st k \<noteq> []" if "k < length (lin_nodes st)" for k
    using assms that by (auto simp: positions_ok_def parent_ok_def Let_def)
  have len: "length (lin_parents st) = length (lin_nodes st)" using assms by (simp add: positions_ok_def)
  show ?case
  proof (cases "length (path_of st i) = 1")
    case True
    then obtain k where "path_of st i = [k]" by (auto simp: length_Suc_conv)
    then have "\<not> (j < length (lin_nodes st) \<and> strict_prefix (path_of st j) (path_of st i))"
      using ne [of j] by (auto simp: strict_prefix_def prefix_Cons)
    moreover have "(k, i) \<notin> parent_step (lin_parents st)" for k using True path_parent [OF assms less.prems] by simp
    ultimately show ?thesis by (metis tranclE)
  next
    case False
    have "parent_ok st i" using assms less.prems by (auto simp: positions_ok_def)
    then obtain p where p: "p < i" "lin_parents st ! i = int p" "path_of st p = butlast (path_of st i)"
      using False by (auto simp: parent_ok_def Let_def)
    have "(j, i) \<in> (parent_step (lin_parents st))\<^sup>+ \<longleftrightarrow> j = p \<or> (j, p) \<in> (parent_step (lin_parents st))\<^sup>+"
      using ancestors_of_child [of i "lin_parents st" p] less.prems p len by auto
    also have "\<dots> \<longleftrightarrow> j < length (lin_nodes st) \<and> prefix (path_of st j) (path_of st p)"
      using less.IH [OF p(1)] p(1) less.prems path_inj [OF assms, of j p] by (auto simp: strict_prefix_def)
    also have "prefix (path_of st j) (path_of st p) \<longleftrightarrow> strict_prefix (path_of st j) (path_of st i)"
      unfolding p(3) by (rule prefix_butlast_iff [OF ne [OF less.prems]])
    finally show ?thesis .
  qed
qed

lemma tree_mask_ok:
  assumes "positions_ok st"
  shows "\<exists>m. build_tree_attention_mask_with_root (length (lin_nodes st)) (lin_parents st) = Some (Inr m) \<and>
     is_matrix (length (lin_nodes st)) (length (lin_nodes st)) m \<and>
     (\<forall>i < length (lin_nodes st). \<forall>j < length (lin_nodes st). m ! i ! j \<longleftrightarrow> prefix (path_of st j) (path_of st i))"
proof -
  let ?n = "length (lin_nodes st)"
  have len: "length (lin_parents st) = ?n" using assms by (simp add: positions_ok_def)
  from mask_rows_ok [OF positions_wf [OF assms], of "[0..<?n]"]
  obtain m where m: "mask_rows (lin_parents st) ?n [0..<?n] = Some (Inr m)" "length m = ?n"
    "\<forall>k < ?n. length (m ! k) = ?n \<and> (\<forall>j < ?n. m ! k ! j \<longleftrightarrow> j = k \<or> (j, k) \<in> (parent_step (lin_parents st))\<^sup>+)"
    unfolding len by auto
  have "prefix (path_of st j) (path_of st i) \<longleftrightarrow> j = i \<or> (j, i) \<in> (parent_step (lin_parents st))\<^sup>+" if "i < ?n" "j < ?n" for i j
    using ancestor_is_prefix [OF assms that(1), of j] path_inj [OF assms that(2,1)] that by (auto simp: strict_prefix_def)
  with m show ?thesis by (auto simp: build_tree_attention_mask_with_root_def is_matrix_def)
qed

lemma incremental_mask_ok:
  assumes "positions_ok st" and "build_tree_attention_mask_with_root (length (lin_nodes st)) (lin_parents st) = Some (Inr m)"
  shows "build_incremental_tree_attention_mask (length (lin_nodes st)) (lin_parents st) =
     Some (Inr (if lin_nodes st = [] then [] else [m]))"
proof (cases "lin_nodes st = []")
  case False
  let ?n = "length (lin_nodes st)"
  have len: "length (lin_parents st) = ?n" using assms by (simp add: positions_ok_def)
  obtain a where a: "build_ancestor_matrix_optimized (lin_parents st) = Some (Inr a)" "is_matrix ?n ?n a"
    "\<forall>i < ?n. \<forall>j < ?n. a ! i ! j \<longleftrightarrow> (j, i) \<in> (parent_step (lin_parents st))\<^sup>+"
    using ancestor_matrix_ok [OF positions_wf [OF assms(1)]] unfolding len by blast
  have m: "is_matrix ?n ?n m" "\<forall>i < ?n. \<forall>j < ?n. m ! i ! j \<longleftrightarrow> prefix (path_of st j) (path_of st i)"
    using tree_mask_ok [OF assms(1)] assms(2) by auto
  have "map2 (map2 (\<or>)) a (eye ?n) = m"
  proof (rule nth_equalityI)
    fix i assume "i < length (map2 (map2 (\<or>)) a (eye ?n))"
    then have i: "i < ?n" using a(2) by (simp add: is_matrix_def eye_def)
    show "map2 (map2 (\<or>)) a (eye ?n) ! i = m ! i"
    proof (rule nth_equalityI)
      fix j assume "j < length (map2 (map2 (\<or>)) a (eye ?n) ! i)"
      then have j: "j < ?n" using a(2) i by (simp add: is_matrix_def eye_def)
      have "prefix (path_of st j) (path_of st i) \<longleftrightarrow> (j, i) \<in> (parent_step (lin_parents st))\<^sup>+ \<or> i = j"
        using ancestor_is_prefix [OF assms(1) i, of j] path_inj [OF assms(1) j i] j by (auto simp: strict_prefix_def)
      then show "map2 (map2 (\<or>)) a (eye ?n) ! i ! j = m ! i ! j"
        using a(2,3) m i j by (simp add: is_matrix_def eye_def)
    qed (use a(2) m(1) i in \<open>simp add: is_matrix_def eye_def\<close>)
  qed (use a(2) m(1) in \<open>simp add: is_matrix_def eye_def\<close>)
  moreover have "length a = length (eye ?n)" using a(2) by (simp add: is_matrix_def eye_def)
  moreover have "lin_parents st \<noteq> []" using False len by auto
  ultimately show ?thesis using False a(1) by (simp add: build_incremental_tree_attention_mask_def square_or_def Let_def)
qed (simp add: build_incremental_tree_attention_mask_def)

section \<open>Properties\<close>

text \<open>
  C20 Writing out a tree lists every node but the root exactly once, in depth-first order, a parent
  always before its children: each parent position points to the node one step up the path, and is
  -1 exactly for the children of the root. The position map inverts the list.
\<close>
theorem linearization_exact:
  "let st = linearize_tree_with_positions t in
   (\<forall>q n. (q, n) \<in> set (lin_nodes st) \<longleftrightarrow> q \<noteq> [] \<and> node_at (root t) q = Some n) \<and>
   distinct (map fst (lin_nodes st)) \<and> length (lin_parents st) = length (lin_nodes st) \<and>
   (\<forall>i < length (lin_nodes st).
      position_map st (path_of st i) = Some i \<and>
      (if length (path_of st i) = 1 then lin_parents st ! i = - 1
       else \<exists>j < i. lin_parents st ! i = int j \<and> path_of st j = butlast (path_of st i)))"
proof -
  define st where "st = linearize_tree_with_positions t"
  have ok: "positions_ok st" "lin_nodes st = preorder_list 0 (children (root t))"
    using linearize_ok by (auto simp: st_def preorder_nonempty_hd)
  have "(q, n) \<in> set (lin_nodes st) \<longleftrightarrow> q \<noteq> [] \<and> node_at (root t) q = Some n" for q n
    unfolding ok(2) preorder_nodes by (cases q) auto
  moreover have "distinct (map fst (lin_nodes st))" by (simp add: ok(2) preorder_distinct)
  ultimately show ?thesis unfolding st_def [symmetric] Let_def using ok(1)
    by (auto simp: positions_ok_def parent_ok_def Let_def)
qed

text \<open>
  C19 Both mask builders agree on every tree and always return: a node attends exactly to itself and
  to the nodes on its path from the root.
\<close>
theorem tree_attention_is_ancestry:
  "let st = linearize_tree_with_positions t; n = length (lin_nodes st) in
   \<exists>m. build_tree_attention_mask_with_root n (lin_parents st) = Some (Inr m) \<and>
     build_incremental_tree_attention_mask n (lin_parents st) = Some (Inr (if n = 0 then [] else [m])) \<and>
     length m = n \<and>
     (\<forall>i < n. length (m ! i) = n \<and> (\<forall>j < n. m ! i ! j \<longleftrightarrow> prefix (path_of st j) (path_of st i)))"
  using tree_mask_ok [OF linearize_ok(1), of t] incremental_mask_ok [OF linearize_ok(1), of t]
  by (fastforce simp: Let_def is_matrix_def)

definition demo_tree :: spec_tree where
  "demo_tree = snd (add_layer [[0], [1]] [[(7, 1/2), (8, 1/4)], [(9, 1)]] (snd (add_layer [[]] [[(5, 1/2), (6, 1/2)]] (new_tree 1))))"

theorem linearization_exact_witness:
  "lin_parents (linearize_tree_with_positions demo_tree) = [- 1, 0, 0, - 1, 3] \<and>
   position_map (linearize_tree_with_positions demo_tree) (path_of (linearize_tree_with_positions demo_tree) 4) = Some 4"
proof -
  have "lin_parents (linearize_tree_with_positions demo_tree) = [- 1, 0, 0, - 1, 3]" by code_simp
  moreover have "length (lin_nodes (linearize_tree_with_positions demo_tree)) = 5" by code_simp
  ultimately show ?thesis using linearization_exact [of demo_tree] unfolding Let_def by simp
qed

theorem tree_attention_is_ancestry_witness:
  "\<exists>m. build_tree_attention_mask_with_root 5 (lin_parents (linearize_tree_with_positions demo_tree)) = Some (Inr m) \<and> m ! 1 ! 0 \<and> \<not> m ! 2 ! 1"
proof -
  have n: "length (lin_nodes (linearize_tree_with_positions demo_tree)) = 5" by code_simp
  have "map fst (lin_nodes (linearize_tree_with_positions demo_tree)) = [[0], [0, 0], [0, 1], [1], [1, 0]]" by code_simp
  then have p: "path_of (linearize_tree_with_positions demo_tree) i = [[0], [0, 0], [0, 1], [1], [1, 0]] ! i" if "i < 5" for i
    using n that by (metis nth_map)
  show ?thesis using tree_attention_is_ancestry [of demo_tree] p [of 0] p [of 1] p [of 2] unfolding Let_def n by fastforce
qed

end
