(* ===== verification/SpecBatch.thy ===== *)
theory SpecBatch
  imports SpecTree
begin

text \<open>
  A batch of speculation trees as model input, \<open>prepare_incremental_tree_batch\<close> of
  \<^verbatim>\<open>models/llama/spe_dec_tree.py\<close>: padded tokens and one attention mask per tree, for the prefill
  and for the generation phase, and the bookkeeping of \<open>SpeculativeTree\<close> it relies on.

  The input ids enter only through their width. A mask is a matrix; the leading dimension of size one
  is the position in the list of masks.
\<close>

section \<open>Masks of one tree\<close>

text \<open>\<open>mask[r0:r1, c0:c1] = ...\<close>; bounds are clipped to the matrix.\<close>

definition fill_block :: "nat \<Rightarrow> nat \<Rightarrow> nat \<Rightarrow> nat \<Rightarrow> (nat \<Rightarrow> nat \<Rightarrow> bool) \<Rightarrow> bool list list \<Rightarrow> bool list list" where
  "fill_block r0 r1 c0 c1 f m =
     map (\<lambda>i. map (\<lambda>j. if r0 \<le> i \<and> i < r1 \<and> c0 \<le> j \<and> j < c1 then f (i - r0) (j - c0) else m ! i ! j) [0..<length (m ! i)])
       [0..<length m]"

text \<open>
  The first valid entry is the root position: everything before it counts as committed, a negative
  bound counting from the end. With no valid entry \<open>argmax\<close> is 0.
\<close>

definition first_valid :: "int list \<Rightarrow> nat" where
  "first_valid ids = (if list_ex (\<lambda>v. 0 \<le> v) ids then length (takeWhile (\<lambda>v. v < 0) ids) else 0)"

definition compute_single_cache_valid_mask :: "int list \<Rightarrow> nat \<Rightarrow> bool list result" where
  "compute_single_cache_valid_mask ids cache_len =
     (if ids = [] then Inl IndexError
      else
        let root_position = ids ! first_valid ids;
            bound = (if root_position < 0 then max 0 (root_position + int cache_len) else min root_position (int cache_len));
            base = map (\<lambda>c. int c < bound) [0..<cache_len];
            positions = map (\<lambda>v. min (max v 0) (int cache_len - 1)) (filter (\<lambda>v. 0 \<le> v) ids)
        in if positions \<noteq> [] \<and> cache_len = 0 then Inl IndexError
           else Inr (foldl (\<lambda>m v. m[nat v := True]) base positions))"

definition generation_mask :: "nat \<Rightarrow> bool list \<Rightarrow> nat \<Rightarrow> bool list list \<Rightarrow> bool list list" where
  "generation_mask cache_len valid tree_len tree_mask =
     (let inputs_len = tree_len + 1;
          total_len = cache_len + inputs_len;
          m0 = false_matrix inputs_len total_len;
          m1 = fill_block 0 1 0 cache_len (\<lambda>i j. valid ! j) m0;
          m2 = fill_block 0 1 cache_len (cache_len + 1) (\<lambda>i j. True) m1
      in if tree_len = 0 then m2
         else
           let m3 = fill_block 1 inputs_len 0 cache_len (\<lambda>i j. valid ! j) m2;
               m4 = fill_block 1 inputs_len cache_len (cache_len + 1) (\<lambda>i j. True) m3
           in fill_block 1 inputs_len (cache_len + 1) total_len (\<lambda>i j. tree_mask ! i ! j) m4)"

definition pad_generation_mask :: "nat \<Rightarrow> bool list \<Rightarrow> nat \<Rightarrow> nat \<Rightarrow> bool list list \<Rightarrow> bool list list" where
  "pad_generation_mask cache_len valid tree_len max_tree_size m =
     (let inputs_len = tree_len + 1; max_inputs_len = max_tree_size + 1 in
      if inputs_len < max_inputs_len then
        fill_block inputs_len max_inputs_len 0 cache_len (\<lambda>i j. valid ! j)
          (fill_block 0 inputs_len 0 (cache_len + inputs_len) (\<lambda>i j. m ! i ! j)
             (false_matrix max_inputs_len (cache_len + max_inputs_len)))
      else m)"

text \<open>
  The prefill mask covers prompt and tree. A prompt longer than the input makes an assignment fail:
  a shape mismatch, or an index out of range for the root (a one-by-one block broadcasts).
\<close>

definition prefill_mask :: "nat \<Rightarrow> int \<Rightarrow> nat \<Rightarrow> bool list list \<Rightarrow> bool list list result" where
  "prefill_mask past_len curr_seq_len tree_len tree_mask =
     (let total_len = past_len + tree_len;
          prompt_len = (if 0 < curr_seq_len then nat (curr_seq_len - 1) else 0);
          root_pos = prompt_len
      in if total_len < prompt_len \<and> prompt_len \<noteq> 1 then Inl RuntimeError
         else if total_len \<le> root_pos then Inl IndexError
         else
           let m0 = false_matrix total_len total_len;
               m1 = fill_block 0 prompt_len 0 prompt_len (\<lambda>i j. j \<le> i) m0;
               m2 = fill_block root_pos (root_pos + 1) 0 prompt_len (\<lambda>i j. True) m1;
               m3 = fill_block root_pos (root_pos + 1) root_pos (root_pos + 1) (\<lambda>i j. True) m2
           in if tree_len = 0 then Inr m3
              else
                let m4 = fill_block past_len (past_len + tree_len) 0 prompt_len (\<lambda>i j. True) m3;
                    m5 = fill_block past_len (past_len + tree_len) root_pos (root_pos + 1) (\<lambda>i j. True) m4
                in Inr (fill_block past_len (past_len + tree_len) past_len (past_len + tree_len) (\<lambda>i j. tree_mask ! i ! j) m5))"

definition pad_prefill_mask :: "nat \<Rightarrow> int \<Rightarrow> nat \<Rightarrow> nat \<Rightarrow> bool list list \<Rightarrow> bool list list" where
  "pad_prefill_mask past_len curr_seq_len tree_len max_tree_size m =
     (let total_len = past_len + tree_len; padded = past_len + max_tree_size in
      if tree_len < max_tree_size then
        let p = fill_block 0 total_len 0 total_len (\<lambda>i j. m ! i ! j) (false_matrix padded padded) in
        if 0 < curr_seq_len then fill_block total_len padded 0 (nat curr_seq_len) (\<lambda>i j. True) p else p
      else m)"

section \<open>The batch\<close>

record batch_args =
  input_width :: nat
  pad_token_id :: int
  seq_lengths :: "int list option"
  is_prefill :: bool
  kv_cache_position_ids :: "int list list option"

definition batch_cache_len :: "batch_args \<Rightarrow> nat" where
  "batch_cache_len a =
     (case kv_cache_position_ids a of
        None \<Rightarrow> 0
      | Some rows \<Rightarrow>
          if is_prefill a then 0
          else let valid = filter (\<lambda>v. 0 \<le> v) (concat rows) in
               if valid = [] then 0 else nat (Max (set valid)) + 1)"

text \<open>One iteration: the padded tokens and the mask of tree \<open>i\<close>.\<close>

definition prepare_tree :: "batch_args \<Rightarrow> nat \<Rightarrow> nat \<Rightarrow> spec_tree \<Rightarrow> (int list \<times> bool list list) result option" where
  "prepare_tree a max_tree_size i t =
     (case (case seq_lengths a of
              None \<Rightarrow> Inr (int (input_width a))
            | Some ls \<Rightarrow> if i < length ls then Inr (ls ! i) else Inl IndexError) of
        Inl e \<Rightarrow> Some (Inl e)
      | Inr curr_seq_len \<Rightarrow>
          let st = linearize_tree_with_positions t;
              tokens = map (\<lambda>(q, n). token_id n) (lin_nodes st);
              tree_len = length tokens;
              padded = tokens @ replicate (max_tree_size - tree_len) (pad_token_id a);
              tree_mask = (if tree_len = 0 then Some (Inr []) else build_tree_attention_mask_with_root tree_len (lin_parents st))
          in if is_prefill a then
               (case tree_mask of
                  None \<Rightarrow> None
                | Some (Inl e) \<Rightarrow> Some (Inl e)
                | Some (Inr tm) \<Rightarrow>
                    Some (map_sum id (\<lambda>m. (padded, pad_prefill_mask (input_width a) curr_seq_len tree_len max_tree_size m))
                            (prefill_mask (input_width a) curr_seq_len tree_len tm)))
             else
               (case kv_cache_position_ids a of
                  None \<Rightarrow> Some (Inl TypeError)
                | Some rows \<Rightarrow>
                    if length rows \<le> i then Some (Inl IndexError)
                    else
                      let cache_len = batch_cache_len a in
                      (case compute_single_cache_valid_mask (rows ! i) cache_len of
                         Inl e \<Rightarrow> Some (Inl e)
                       | Inr valid \<Rightarrow>
                           (case tree_mask of
                              None \<Rightarrow> None
                            | Some (Inl e) \<Rightarrow> Some (Inl e)
                            | Some (Inr tm) \<Rightarrow>
                                Some (Inr (padded, pad_generation_mask cache_len valid tree_len max_tree_size
                                                     (generation_mask cache_len valid tree_len tm)))))))"

fun prepare_loop :: "batch_args \<Rightarrow> nat \<Rightarrow> nat \<Rightarrow> spec_tree list \<Rightarrow> (int list \<times> bool list list) list result option" where
  "prepare_loop a max_tree_size i [] = Some (Inr [])"
| "prepare_loop a max_tree_size i (t # ts) =
     (case prepare_tree a max_tree_size i t of
        None \<Rightarrow> None
      | Some (Inl e) \<Rightarrow> Some (Inl e)
      | Some (Inr x) \<Rightarrow> map_option (map_sum id ((#) x)) (prepare_loop a max_tree_size (Suc i) ts))"

definition matrix_shape :: "bool list list \<Rightarrow> nat \<times> nat list" where
  "matrix_shape m = (length m, map length m)"

definition prepare_incremental_tree_batch ::
  "batch_args \<Rightarrow> spec_tree list \<Rightarrow> (int list list \<times> bool list list list option \<times> nat list list list list) result option" where
  "prepare_incremental_tree_batch a trees =
     (if list_all (\<lambda>t. total_nodes t \<le> 1) trees then Some (Inr (map (\<lambda>_. []) trees, None, map (\<lambda>_. []) trees))
      else
        let max_tree_size = Max (set (map (\<lambda>t. total_nodes t - 1) (filter (\<lambda>t. 1 < total_nodes t) trees))) in
        (case prepare_loop a max_tree_size 0 trees of
           None \<Rightarrow> None
         | Some (Inl e) \<Rightarrow> Some (Inl e)
         | Some (Inr items) \<Rightarrow>
             let tokens = map fst items; masks = map snd items in
             if list_ex (\<lambda>ts. length ts \<noteq> length (hd tokens)) tokens then Some (Inl ValueError)
             else if list_ex (\<lambda>m. matrix_shape m \<noteq> matrix_shape (hd masks)) masks then Some (Inl RuntimeError)
             else Some (Inr (tokens, Some masks, map (\<lambda>t. get_all_leaf_node_paths [] (root t)) trees))))"


section \<open>Node counts of grown trees\<close>

definition paths :: "tree_node \<Rightarrow> nat list set" where
  "paths r = {q. node_at r q \<noteq> None}"

lemma paths_preorder: "paths r = fst ` set (preorder r)"
  using preorder_nodes(1) [of _ _ r] by (force simp: paths_def)

lemma finite_paths [simp]: "finite (paths r)"
  by (simp add: paths_preorder)

lemma card_paths: "card (paths r) = length (preorder r)"
  unfolding paths_preorder using distinct_card [OF preorder_distinct(1), of r] by simp

lemma children_add_children: "children (add_children cands n) = children n @ map (\<lambda>(tok, prob). new_node tok prob (node_depth n + 1)) cands"
  by (induction cands n rule: add_children.induct) (simp_all add: add_child_def)

lemma depth_add_children [simp]: "node_depth (add_children cands n) = node_depth n"
  by (induction cands n rule: add_children.induct) (simp_all add: add_child_def)

lemma node_at_leaf: "node_at (new_node tok prob d) q \<noteq> None \<longleftrightarrow> q = []"
  by (cases q) (auto simp: new_node_def)

lemma paths_add_children:
  "paths (add_children cands n) = paths n \<union> (\<lambda>k. [k]) ` {length (children n)..<length (children n) + length cands}"
proof (intro set_eqI)
  fix q
  show "q \<in> paths (add_children cands n) \<longleftrightarrow> q \<in> paths n \<union> (\<lambda>k. [k]) ` {length (children n)..<length (children n) + length cands}"
    by (cases q) (auto simp: paths_def children_add_children nth_append split_def node_at_leaf simp del: not_None_eq split: if_splits)
qed

lemma paths_grow:
  "p \<in> paths r \<Longrightarrow> paths (update_at (add_children cands) p r) =
     paths r \<union> (\<lambda>k. p @ [k]) ` {length (children (the (node_at r p)))..<length (children (the (node_at r p))) + length cands}"
proof (induction p arbitrary: r)
  case Nil
  show ?case by (simp add: paths_add_children)
next
  case (Cons k p)
  let ?c = "children r ! k"
  have k: "k < length (children r)" "p \<in> paths ?c" using Cons.prems by (auto simp: paths_def split: if_splits)
  define new where "new = {length (children (the (node_at ?c p)))..<length (children (the (node_at ?c p))) + length cands}"
  have IH: "paths (update_at (add_children cands) p ?c) = paths ?c \<union> (\<lambda>j. p @ [j]) ` new"
    unfolding new_def by (rule Cons.IH [OF k(2)])
  have q: "q \<in> paths (update_at (add_children cands) (k # p) r) \<longleftrightarrow> q \<in> paths r \<or> q \<in> (\<lambda>j. (k # p) @ [j]) ` new" for q
  proof (cases q)
    case Nil
    then show ?thesis by (auto simp: paths_def)
  next
    case (Cons j q')
    have "q' \<in> paths (update_at (add_children cands) p ?c) \<longleftrightarrow> q' \<in> paths ?c \<or> q' \<in> (\<lambda>j. p @ [j]) ` new" using IH by blast
    then show ?thesis using k by (auto simp: Cons paths_def nth_list_update)
  qed
  have "node_at r (k # p) = node_at ?c p" using k by simp
  then show ?case using q unfolding new_def by (intro set_eqI) simp
qed

fun depths :: "nat \<Rightarrow> tree_node \<Rightarrow> bool" where
  "depths d (TreeNode tok prob d' cs) = (d' = d \<and> (\<forall>c \<in> set cs. depths (Suc d) c))"

lemma depths_iff: "depths d n \<longleftrightarrow> node_depth n = d \<and> (\<forall>c \<in> set (children n). depths (Suc d) c)"
  by (cases n) auto

lemma depths_node: "depths d n \<Longrightarrow> node_at n q = Some m \<Longrightarrow> depths (d + length q) m"
proof (induction q arbitrary: d n)
  case (Cons k q)
  then have "depths (Suc d) (children n ! k)" by (metis depths_iff node_at.simps(2) nth_mem option.distinct(1))
  with Cons show ?case by (metis (no_types, lifting) add_Suc_right add_Suc length_Cons node_at.simps(2) option.distinct(1))
qed simp

lemma depth_is_length: "depths 0 r \<Longrightarrow> node_at r q = Some m \<Longrightarrow> node_depth m = length q"
  using depths_node [of 0 r q m] depths_iff [of "length q" m] by simp

lemma depths_grow: "depths d r \<Longrightarrow> depths d (update_at (add_children cands) p r)"
proof (induction p arbitrary: d r)
  case Nil
  then show ?case
    unfolding update_at.simps depths_iff [of _ "add_children cands r"] children_add_children
    by (auto simp: depths_iff [of d r] new_node_def)
next
  case (Cons k p)
  show ?case
  proof (cases "k < length (children r)")
    case True
    then have c: "depths (Suc d) (children r ! k)" using Cons.prems by (metis depths_iff nth_mem)
    show ?thesis using True Cons.prems Cons.IH [OF c]
      by (auto simp: depths_iff [of d r] dest!: set_update_subset_insert [THEN subsetD])
  qed (use Cons.prems in simp)
qed

lemma layer_loop_ok:
  assumes "\<forall>(p, c) \<in> set todo. p \<in> paths r" and "depths 0 r" and "layer_loop todo r acc = (r', new)"
  shows "\<exists>fresh. new = acc @ fresh \<and> paths r' = paths r \<union> set fresh \<and> paths r \<inter> set fresh = {} \<and> distinct fresh \<and> depths 0 r'"
  using assms
proof (induction todo r acc rule: layer_loop.induct)
  case (2 p cands todo r acc)
  define n where "n = length (children (the (node_at r p)))"
  define here where "here = map (\<lambda>k. p @ [k]) [n..<n + length cands]"
  define r1 where "r1 = update_at (add_children cands) p r"
  have p: "p \<in> paths r" using 2(2) by auto
  have r1: "paths r1 = paths r \<union> set here"
    using paths_grow [OF p, of cands] by (auto simp: r1_def here_def n_def)
  have fresh: "paths r \<inter> set here = {}"
  proof -
    obtain m where m: "node_at r p = Some m" using p by (auto simp: paths_def)
    have "node_at r (p @ [k]) = None" if "n \<le> k" for k
      using m that unfolding n_def by (induction p arbitrary: r) (auto split: if_splits)
    then show ?thesis by (auto simp: here_def paths_def)
  qed
  have "\<exists>fresh. new = (acc @ here) @ fresh \<and> paths r' = paths r1 \<union> set fresh \<and> paths r1 \<inter> set fresh = {} \<and> distinct fresh \<and> depths 0 r'"
  proof (rule 2(1) [OF n_def, folded r1_def here_def])
    show "\<forall>(p, c) \<in> set todo. p \<in> paths r1" using 2(2) r1 by auto
    show "depths 0 r1" using 2(3) by (simp add: r1_def depths_grow)
    show "layer_loop todo r1 (acc @ here) = (r', new)" using 2(4) by (simp add: Let_def r1_def here_def n_def)
  qed
  then obtain f where f: "new = (acc @ here) @ f" "paths r' = paths r1 \<union> set f" "paths r1 \<inter> set f = {}" "distinct f" "depths 0 r'" by blast
  have "distinct here" by (simp add: here_def distinct_map inj_on_def)
  then have "new = acc @ (here @ f) \<and> paths r' = paths r \<union> set (here @ f) \<and> paths r \<inter> set (here @ f) = {} \<and> distinct (here @ f)"
    using f r1 fresh by auto
  with f(5) show ?case by blast
qed auto

definition tree_ok :: "spec_tree \<Rightarrow> bool" where
  "tree_ok t \<longleftrightarrow> total_nodes t = length (preorder (root t)) \<and> depths 0 (root t) \<and>
     max_depth t = Max (length ` paths (root t))"

lemma new_tree_ok: "tree_ok (new_tree tok)"
proof -
  have "paths (new_node tok 1 0) = {[]}" by (auto simp: paths_def node_at_leaf simp del: not_None_eq)
  then show ?thesis by (simp add: tree_ok_def new_tree_def new_node_def)
qed

lemma add_layer_ok:
  assumes "tree_ok t" and "set parents \<subseteq> paths (root t)" and "length parents = length cands"
  shows "\<exists>new. fst (add_layer parents cands t) = Inr new \<and> tree_ok (snd (add_layer parents cands t)) \<and>
     paths (root (snd (add_layer parents cands t))) = paths (root t) \<union> set new \<and> paths (root t) \<inter> set new = {} \<and> distinct new"
proof -
  obtain r new where l: "layer_loop (zip parents cands) (root t) [] = (r, new)" by fastforce
  have "\<forall>(p, c) \<in> set (zip parents cands). p \<in> paths (root t)" using assms(2) by (auto dest: set_zip_leftD)
  from layer_loop_ok [OF this _ l] assms(1)
  have f: "paths r = paths (root t) \<union> set new" "paths (root t) \<inter> set new = {}" "distinct new" "depths 0 r" by (auto simp: tree_ok_def)
  have dep: "node_depth (the (node_at r q)) = length q" if "q \<in> paths r" for q
    using that by (auto simp: paths_def depth_is_length [OF f(4)])
  have cnt: "length (preorder r) = total_nodes t + length new"
    using f assms(1) by (simp add: card_paths [symmetric] tree_ok_def card_Un_disjoint distinct_card)
  have "[] \<in> paths (root t)" by (simp add: paths_def)
  then have mx: "Max (length ` paths r) = max (max_depth t) (Max (set (map (\<lambda>q. node_depth (the (node_at r q))) new)))" if "new \<noteq> []"
  proof -
    have "(\<lambda>q. node_depth (the (node_at r q))) ` set new = length ` set new" using dep f(1) by (intro image_cong) auto
    then show ?thesis using that assms(1) \<open>[] \<in> paths (root t)\<close>
      by (subst f(1), simp only: image_Un, subst Max_Un) (auto simp: tree_ok_def)
  qed
  have a: "add_layer parents cands t = (Inr new, if new = [] then t\<lparr>root := r\<rparr>
         else t\<lparr>root := r,
                max_depth := max (max_depth t) (Max (set (map (\<lambda>q. node_depth (the (node_at r q))) new))),
                total_nodes := total_nodes t + length new\<rparr>)"
    using assms(3) l by (simp add: add_layer_def Let_def)
  have "tree_ok (snd (add_layer parents cands t))"
  proof (cases "new = []")
    case True
    then show ?thesis using f cnt assms(1) by (simp add: a tree_ok_def)
  next
    case False
    then show ?thesis using f cnt mx [OF False] unfolding a by (simp add: tree_ok_def)
  qed
  then show ?thesis using f a by auto
qed

text \<open>Trees built by adding layers below nodes of the tree.\<close>

inductive grown :: "spec_tree \<Rightarrow> bool" where
  start: "grown (new_tree tok)"
| layer: "grown t \<Longrightarrow> set parents \<subseteq> paths (root t) \<Longrightarrow> length parents = length cands \<Longrightarrow> grown (snd (add_layer parents cands t))"

lemma grown_ok: "grown t \<Longrightarrow> tree_ok t"
proof (induction rule: grown.induct)
  case (layer t parents cands)
  then show ?case using add_layer_ok by blast
qed (rule new_tree_ok)

text \<open>
  The bookkeeping of a tree grown layer by layer is exact: \<open>total_nodes\<close> is the number of nodes,
  every node carries its distance from the root as depth and \<open>max_depth\<close> is the greatest of them.
  A further layer adds exactly the returned nodes, all of them new.
\<close>
theorem tree_bookkeeping_exact:
  assumes "grown t" and "set parents \<subseteq> paths (root t)" and "length parents = length cands"
  shows "total_nodes t = card (paths (root t)) \<and> (\<forall>q n. node_at (root t) q = Some n \<longrightarrow> node_depth n = length q) \<and>
     max_depth t = Max (length ` paths (root t)) \<and>
     (\<exists>new t'. add_layer parents cands t = (Inr new, t') \<and> grown t' \<and> distinct new \<and>
        paths (root t') = paths (root t) \<union> set new \<and> paths (root t) \<inter> set new = {})"
proof -
  have ok: "tree_ok t" using assms(1) by (rule grown_ok)
  have "node_depth n = length q" if "node_at (root t) q = Some n" for q n
    using depth_is_length [OF _ that] ok by (simp add: tree_ok_def)
  moreover obtain new where "fst (add_layer parents cands t) = Inr new"
      "paths (root (snd (add_layer parents cands t))) = paths (root t) \<union> set new" "paths (root t) \<inter> set new = {}" "distinct new"
    using add_layer_ok [OF ok assms(2,3)] by blast
  moreover have "grown (snd (add_layer parents cands t))" using assms by (rule grown.layer)
  ultimately show ?thesis using ok by (cases "add_layer parents cands t") (auto simp: tree_ok_def card_paths)
qed


theorem tree_bookkeeping_exact_witness:
  "total_nodes demo_tree = card (paths (root demo_tree)) \<and> max_depth demo_tree = Max (length ` paths (root demo_tree))"
proof -
  define t1 where "t1 = snd (add_layer [[]] [[(5, 1/2), (6, 1/2)]] (new_tree 1))"
  have "grown t1" unfolding t1_def by (intro grown.intros) (auto simp: paths_def)
  moreover have "node_at (root t1) [0] \<noteq> None" "node_at (root t1) [1] \<noteq> None" unfolding t1_def by code_simp+
  ultimately have g: "grown demo_tree" unfolding demo_tree_def t1_def [symmetric] by (intro grown.layer) (auto simp: paths_def)
  show ?thesis using tree_bookkeeping_exact [OF g, of "[]" "[]"] by simp
qed


section \<open>Cells of the masks\<close>

lemma fill_block_matrix [simp]: "is_matrix r c m \<Longrightarrow> is_matrix r c (fill_block r0 r1 c0 c1 f m)"
  by (simp add: is_matrix_def fill_block_def)

lemma fill_block_cell:
  "is_matrix r c m \<Longrightarrow> i < r \<Longrightarrow> j < c \<Longrightarrow>
     fill_block r0 r1 c0 c1 f m ! i ! j = (if r0 \<le> i \<and> i < r1 \<and> c0 \<le> j \<and> j < c1 then f (i - r0) (j - c0) else m ! i ! j)"
  by (simp add: is_matrix_def fill_block_def)

lemma generation_mask_cell:
  "is_matrix (n + 1) (c + n + 1) (generation_mask c valid n tm)"
  "i < n + 1 \<Longrightarrow> j < c + n + 1 \<Longrightarrow>
     generation_mask c valid n tm ! i ! j = (if j < c then valid ! j else if j = c then True else 0 < i \<and> tm ! (i - 1) ! (j - c - 1))"
proof -
  show "is_matrix (n + 1) (c + n + 1) (generation_mask c valid n tm)"
    by (simp add: generation_mask_def Let_def add.assoc [symmetric] del: add_Suc_right)
  assume ij: "i < n + 1" "j < c + n + 1"
  define m0 where "m0 = false_matrix (n + 1) (c + n + 1)"
  have m0: "is_matrix (n + 1) (c + n + 1) m0" "\<not> m0 ! i ! j" using ij by (simp_all add: m0_def)
  have g: "generation_mask c valid n tm =
      (let m2 = fill_block 0 1 c (c + 1) (\<lambda>i j. True) (fill_block 0 1 0 c (\<lambda>i j. valid ! j) m0) in
       if n = 0 then m2
       else fill_block 1 (n + 1) (c + 1) (c + n + 1) (\<lambda>i j. tm ! i ! j)
              (fill_block 1 (n + 1) c (c + 1) (\<lambda>i j. True) (fill_block 1 (n + 1) 0 c (\<lambda>i j. valid ! j) m2)))"
    by (simp add: generation_mask_def Let_def m0_def add.assoc)
  show "generation_mask c valid n tm ! i ! j = (if j < c then valid ! j else if j = c then True else 0 < i \<and> tm ! (i - 1) ! (j - c - 1))"
    using ij m0 unfolding g Let_def
    by (cases "n = 0"; cases "i = 0") (auto simp: fill_block_cell [of "n + 1" "c + n + 1"] fill_block_cell [of "Suc n" "Suc (c + n)"])
qed

lemma pad_generation_cell:
  assumes "n \<le> N"
  shows "is_matrix (N + 1) (c + N + 1) (pad_generation_mask c valid n N (generation_mask c valid n tm))"
  and "i < N + 1 \<Longrightarrow> j < c + N + 1 \<Longrightarrow>
     pad_generation_mask c valid n N (generation_mask c valid n tm) ! i ! j =
       (if j < c then valid ! j else if j = c then i \<le> n else 0 < i \<and> i \<le> n \<and> j \<le> c + n \<and> tm ! (i - 1) ! (j - c - 1))"
proof -
  have e: "c + (N + 1) = c + N + 1" by simp
  show "is_matrix (N + 1) (c + N + 1) (pad_generation_mask c valid n N (generation_mask c valid n tm))"
  proof (cases "n < N")
    case True
    then show ?thesis unfolding pad_generation_mask_def Let_def e by simp
  next
    case False
    then show ?thesis using assms generation_mask_cell(1) [of n c valid tm] by (simp add: pad_generation_mask_def)
  qed
  assume ij: "i < N + 1" "j < c + N + 1"
  show "pad_generation_mask c valid n N (generation_mask c valid n tm) ! i ! j =
       (if j < c then valid ! j else if j = c then i \<le> n else 0 < i \<and> i \<le> n \<and> j \<le> c + n \<and> tm ! (i - 1) ! (j - c - 1))"
  proof (cases "n < N")
    case True
    define z where "z = false_matrix (N + 1) (c + N + 1)"
    have z: "is_matrix (N + 1) (c + N + 1) z" "\<not> z ! i ! j" using ij by (simp_all add: z_def)
    have p: "pad_generation_mask c valid n N (generation_mask c valid n tm) =
        fill_block (n + 1) (N + 1) 0 c (\<lambda>i j. valid ! j) (fill_block 0 (n + 1) 0 (c + (n + 1)) (\<lambda>i j. generation_mask c valid n tm ! i ! j) z)"
      using True by (simp add: pad_generation_mask_def z_def)
    show ?thesis
    proof (cases "i < n + 1 \<and> j < c + n + 1")
      case inner: True
      then show ?thesis using ij z unfolding p
        by (simp add: fill_block_cell [of "N + 1" "c + N + 1"] fill_block_cell [of "Suc N" "Suc (c + N)"] generation_mask_cell(2) del: One_nat_def)
    next
      case outer: False
      then show ?thesis using ij z unfolding p
        by (auto simp add: fill_block_cell [of "N + 1" "c + N + 1"] fill_block_cell [of "Suc N" "Suc (c + N)"])
    qed
  next
    case False
    then have "n = N" using assms by simp
    then show ?thesis using ij generation_mask_cell(2) [of i n j c valid tm] by (auto simp: pad_generation_mask_def)
  qed
qed

lemma fold_mark:
  "\<forall>v \<in> set vs. nat v < length m \<Longrightarrow> c < length m \<Longrightarrow>
     foldl (\<lambda>m v. m[nat v := True]) m vs ! c \<longleftrightarrow> m ! c \<or> (\<exists>v \<in> set vs. nat v = c)"
  by (induction vs arbitrary: m) (auto simp: nth_list_update)

lemma length_fold_mark [simp]: "length (foldl (\<lambda>m v. m[nat v := True]) m vs) = length m"
  by (induction vs arbitrary: m) auto

lemma first_valid_nonneg:
  assumes "\<exists>v \<in> set ids. 0 \<le> v"
  shows "0 \<le> ids ! first_valid ids" and "ids ! first_valid ids \<in> set ids"
proof -
  have l: "length (takeWhile (\<lambda>v. v < 0) ids) < length ids"
    using assms by (metis (mono_tags, lifting) length_takeWhile_le linorder_not_less nat_less_le takeWhile_eq_all_conv takeWhile_eq_take take_all_iff)
  then show "0 \<le> ids ! first_valid ids" using assms nth_length_takeWhile [OF l] by (auto simp: first_valid_def list_ex_iff)
  show "ids ! first_valid ids \<in> set ids" using l assms by (auto simp: first_valid_def list_ex_iff)
qed

lemma cache_mask_ok:
  assumes "\<exists>v \<in> set ids. 0 \<le> v" and "\<forall>v \<in> set ids. v < int cache_len"
  shows "\<exists>m. compute_single_cache_valid_mask ids cache_len = Inr m \<and> length m = cache_len \<and>
     (\<forall>c < cache_len. m ! c \<longleftrightarrow> int c < ids ! first_valid ids \<or> int c \<in> set ids)"
proof -
  have c0: "0 < cache_len" "ids \<noteq> []" using assms by force+
  have f: "0 \<le> ids ! first_valid ids" "ids ! first_valid ids < int cache_len"
    using first_valid_nonneg [OF assms(1)] assms(2) by auto
  define base where "base = map (\<lambda>c. int c < ids ! first_valid ids) [0..<cache_len]"
  define pos where "pos = map (\<lambda>v. min (max v 0) (int cache_len - 1)) (filter (\<lambda>v. 0 \<le> v) ids)"
  have e: "compute_single_cache_valid_mask ids cache_len = Inr (foldl (\<lambda>m v. m[nat v := True]) base pos)"
    using c0 f by (simp add: compute_single_cache_valid_mask_def base_def pos_def Let_def)
  have pos: "pos = filter (\<lambda>v. 0 \<le> v) ids" unfolding pos_def using assms(2) by (intro map_idI) auto
  have lim: "\<forall>v \<in> set pos. nat v < length base" unfolding pos base_def using assms(2) c0 by auto
  have "foldl (\<lambda>m v. m[nat v := True]) base pos ! c \<longleftrightarrow> int c < ids ! first_valid ids \<or> int c \<in> set ids" if "c < cache_len" for c
    using fold_mark [OF lim, of c] that by (auto simp: pos base_def)
  then show ?thesis using e by (auto simp: base_def)
qed


section \<open>The whole batch\<close>

lemma prepare_loop_ok:
  assumes "\<forall>i < length ts. \<exists>x. prepare_tree a N (k + i) (ts ! i) = Some (Inr x) \<and> P (k + i) (ts ! i) x"
  shows "\<exists>xs. prepare_loop a N k ts = Some (Inr xs) \<and> length xs = length ts \<and> (\<forall>i < length ts. P (k + i) (ts ! i) (xs ! i))"
  using assms
proof (induction ts arbitrary: k)
  case (Cons t ts)
  obtain x where x: "prepare_tree a N k t = Some (Inr x)" "P k t x" using Cons.prems by force
  have "\<forall>i < length ts. \<exists>x. prepare_tree a N (Suc k + i) (ts ! i) = Some (Inr x) \<and> P (Suc k + i) (ts ! i) x"
    using Cons.prems by force
  from Cons.IH [OF this] obtain xs where "prepare_loop a N (Suc k) ts = Some (Inr xs)" "length xs = length ts"
    "\<forall>i < length ts. P (Suc k + i) (ts ! i) (xs ! i)" by blast
  with x show ?case by (auto simp: nth_Cons split: nat.splits)
qed simp

definition attends :: "nat \<Rightarrow> int list \<Rightarrow> lin_state \<Rightarrow> nat \<Rightarrow> nat \<Rightarrow> bool" where
  "attends C ids st r c \<longleftrightarrow>
     (if c < C then int c < ids ! first_valid ids \<or> int c \<in> set ids
      else if c = C then r \<le> length (lin_nodes st)
      else 0 < r \<and> r \<le> length (lin_nodes st) \<and> c \<le> C + length (lin_nodes st) \<and>
           prefix (path_of st (c - C - 1)) (path_of st (r - 1)))"

definition item_ok :: "batch_args \<Rightarrow> nat \<Rightarrow> int list \<Rightarrow> lin_state \<Rightarrow> int list \<Rightarrow> bool list list \<Rightarrow> bool" where
  "item_ok a N ids st tokens m \<longleftrightarrow>
     tokens = map (\<lambda>(q, n). token_id n) (lin_nodes st) @ replicate (N - length (lin_nodes st)) (pad_token_id a) \<and>
     is_matrix (N + 1) (batch_cache_len a + N + 1) m \<and>
     (\<forall>r < N + 1. \<forall>c < batch_cache_len a + N + 1. m ! r ! c \<longleftrightarrow> attends (batch_cache_len a) ids st r c)"

lemma prepare_tree_ok:
  assumes "\<not> is_prefill a" and "kv_cache_position_ids a = Some rows" and "i < length rows"
    and "\<exists>v \<in> set (rows ! i). 0 \<le> v"
    and "case seq_lengths a of None \<Rightarrow> True | Some ls \<Rightarrow> i < length ls"
    and "length (lin_nodes (linearize_tree_with_positions t)) \<le> N"
  shows "\<exists>x. prepare_tree a N i t = Some (Inr x) \<and> item_ok a N (rows ! i) (linearize_tree_with_positions t) (fst x) (snd x)"
proof -
  define st where "st = linearize_tree_with_positions t"
  define C where "C = batch_cache_len a"
  define n where "n = length (lin_nodes st)"
  have v: "\<exists>v \<in> set (concat rows). 0 \<le> v" using assms(3,4) nth_mem by fastforce
  then have ne: "filter (\<lambda>v. 0 \<le> v) (concat rows) \<noteq> []" by (auto simp: filter_empty_conv)
  have lim: "v < int C" if "v \<in> set (rows ! i)" for v
  proof (cases "0 \<le> v")
    case True
    then have "v \<le> Max (set (filter (\<lambda>v. 0 \<le> v) (concat rows)))"
      using that assms(3) by (intro Max_ge) (auto intro: nth_mem)
    then show ?thesis using ne assms(1,2) True by (simp add: C_def batch_cache_len_def Let_def)
  qed simp
  obtain valid where valid: "compute_single_cache_valid_mask (rows ! i) C = Inr valid" "length valid = C"
    "\<forall>c < C. valid ! c \<longleftrightarrow> int c < rows ! i ! first_valid (rows ! i) \<or> int c \<in> set (rows ! i)"
    using cache_mask_ok [OF assms(4), of C] lim by blast
  obtain tm where tm: "build_tree_attention_mask_with_root n (lin_parents st) = Some (Inr tm)"
    "\<forall>i < n. \<forall>j < n. tm ! i ! j \<longleftrightarrow> prefix (path_of st j) (path_of st i)"
    using tree_mask_ok [OF linearize_ok(1), of t] unfolding st_def n_def by blast
  define m where "m = pad_generation_mask C valid n N (generation_mask C valid n tm)"
  define toks where "toks = map (\<lambda>(q, n). token_id n) (lin_nodes st) @ replicate (N - n) (pad_token_id a)"
  have zero: "generation_mask C valid n [] = generation_mask C valid n tm" if "n = 0"
    using that by (simp add: generation_mask_def)
  have "\<exists>sl. (case seq_lengths a of None \<Rightarrow> Inr (int (input_width a)) | Some ls \<Rightarrow> if i < length ls then Inr (ls ! i) else Inl IndexError) = Inr sl"
    using assms(5) by (auto split: option.splits)
  then have p: "prepare_tree a N i t = Some (Inr (toks, m))"
    using assms(1-3) valid(1) tm(1) zero unfolding prepare_tree_def Let_def st_def [symmetric] C_def [symmetric] m_def toks_def
    by (cases "n = 0") (auto simp: n_def)
  have "m ! r ! c \<longleftrightarrow> attends C (rows ! i) st r c" if "r < N + 1" "c < C + N + 1" for r c
    using pad_generation_cell(2) [OF assms(6) that, folded st_def, folded n_def, of valid tm] valid(3) tm(2)
    unfolding attends_def m_def n_def [symmetric] by auto
  moreover have "is_matrix (N + 1) (C + N + 1) m"
    using pad_generation_cell(1) [OF assms(6)] unfolding m_def n_def st_def by blast
  ultimately have "item_ok a N (rows ! i) st toks m" by (simp add: item_ok_def toks_def C_def n_def)
  with p show ?thesis unfolding st_def by auto
qed

lemma lin_nodes_count: "grown t \<Longrightarrow> length (lin_nodes (linearize_tree_with_positions t)) = total_nodes t - 1"
  using grown_ok [of t] by (simp add: linearize_ok(2) tree_ok_def)

lemma is_matrix_shape: "is_matrix r c m \<Longrightarrow> matrix_shape m = (r, replicate r c)"
  unfolding is_matrix_def matrix_shape_def by (auto intro: nth_equalityI)

text \<open>
  C18 In the generation phase a batch of grown trees always becomes rectangular input, whatever their
  sizes. In the mask of each tree every row attends to the committed part of its cache and to the kept
  positions; the root attends to itself; a node also to the root, to itself and to its ancestors, and
  to no other tree token; padding rows attend to the cache only.
\<close>
theorem generation_batch_exact:
  assumes "\<forall>t \<in> set trees. grown t" and "\<exists>t \<in> set trees. 1 < total_nodes t"
    and "\<not> is_prefill a" and "kv_cache_position_ids a = Some rows" and "length rows = length trees"
    and "\<forall>ids \<in> set rows. \<exists>v \<in> set ids. 0 \<le> v"
    and "case seq_lengths a of None \<Rightarrow> True | Some ls \<Rightarrow> length trees \<le> length ls"
  shows "\<exists>N tokens masks.
     prepare_incremental_tree_batch a trees =
       Some (Inr (tokens, Some masks, map (\<lambda>t. get_all_leaf_node_paths [] (root t)) trees)) \<and>
     length tokens = length trees \<and> length masks = length trees \<and>
     (\<forall>i < length trees. total_nodes (trees ! i) - 1 \<le> N \<and>
        item_ok a N (rows ! i) (linearize_tree_with_positions (trees ! i)) (tokens ! i) (masks ! i))"
proof -
  define big where "big = filter (\<lambda>t. 1 < total_nodes t) trees"
  define N where "N = Max (set (map (\<lambda>t. total_nodes t - 1) big))"
  have ne: "big \<noteq> []" using assms(2) by (auto simp: big_def filter_empty_conv)
  have le: "total_nodes t - 1 \<le> N" if "t \<in> set trees" for t
  proof (cases "1 < total_nodes t")
    case True
    then show ?thesis using that unfolding N_def by (intro Max_ge) (auto simp: big_def)
  qed simp
  have "\<forall>i < length trees. \<exists>x. prepare_tree a N (0 + i) (trees ! i) = Some (Inr x) \<and>
      item_ok a N (rows ! (0 + i)) (linearize_tree_with_positions (trees ! i)) (fst x) (snd x)"
  proof (intro allI impI)
    fix i assume i: "i < length trees"
    then have t: "length (lin_nodes (linearize_tree_with_positions (trees ! i))) \<le> N" using assms(1) le by (simp add: lin_nodes_count)
    have v: "\<exists>v \<in> set (rows ! i). 0 \<le> v" using assms(5,6) i by simp
    have s: "case seq_lengths a of None \<Rightarrow> True | Some ls \<Rightarrow> i < length ls" using assms(7) i by (auto split: option.splits)
    show "\<exists>x. prepare_tree a N (0 + i) (trees ! i) = Some (Inr x) \<and>
      item_ok a N (rows ! (0 + i)) (linearize_tree_with_positions (trees ! i)) (fst x) (snd x)"
      using prepare_tree_ok [OF assms(3,4) _ v s t] i assms(5) by simp
  qed
  from prepare_loop_ok [where P = "\<lambda>i t x. item_ok a N (rows ! i) (linearize_tree_with_positions t) (fst x) (snd x)", OF this]
  obtain xs where xs: "prepare_loop a N 0 trees = Some (Inr xs)" "length xs = length trees"
    "\<forall>i < length trees. item_ok a N (rows ! i) (linearize_tree_with_positions (trees ! i)) (fst (xs ! i)) (snd (xs ! i))" by auto
  have shapes: "length (fst x) = N" "matrix_shape (snd x) = (N + 1, replicate (N + 1) (batch_cache_len a + N + 1))" if x: "x \<in> set xs" for x
  proof -
    obtain i where i: "i < length trees" "xs ! i = x" using x unfolding in_set_conv_nth xs(2) by blast
    have "total_nodes (trees ! i) - 1 \<le> N" using le i(1) by simp
    moreover have "fst x = map (\<lambda>(q, n). token_id n) (lin_nodes (linearize_tree_with_positions (trees ! i))) @
        replicate (N - length (lin_nodes (linearize_tree_with_positions (trees ! i)))) (pad_token_id a)"
      using xs(3) i unfolding item_ok_def by blast
    ultimately show "length (fst x) = N" using lin_nodes_count [of "trees ! i"] assms(1) i(1) by simp
    show "matrix_shape (snd x) = (N + 1, replicate (N + 1) (batch_cache_len a + N + 1))"
      by (rule is_matrix_shape) (use xs(3) i in \<open>unfold item_ok_def, blast\<close>)
  qed
  have xne: "xs \<noteq> []" using xs(2) assms(2) by auto
  have "\<not> list_ex (\<lambda>ts. length ts \<noteq> length (hd (map fst xs))) (map fst xs)"
    using shapes(1) hd_in_set [OF xne] by (simp add: list_ex_iff hd_map [OF xne])
  moreover have "\<not> list_ex (\<lambda>m. matrix_shape m \<noteq> matrix_shape (hd (map snd xs))) (map snd xs)"
    using shapes(2) hd_in_set [OF xne] by (simp add: list_ex_iff hd_map [OF xne])
  moreover have "\<not> list_all (\<lambda>t. total_nodes t \<le> 1) trees" using assms(2) unfolding list_all_iff not_less [symmetric] by blast
  ultimately have "prepare_incremental_tree_batch a trees =
      Some (Inr (map fst xs, Some (map snd xs), map (\<lambda>t. get_all_leaf_node_paths [] (root t)) trees))"
    unfolding prepare_incremental_tree_batch_def Let_def big_def [symmetric] N_def [symmetric] xs(1) by simp
  then show ?thesis using xs(2,3) le by (intro exI [of _ N] exI [of _ "map fst xs"] exI [of _ "map snd xs"]) simp
qed


definition demo_batch :: batch_args where
  "demo_batch = \<lparr>input_width = 4, pad_token_id = 0, seq_lengths = Some [4, 4], is_prefill = False,
     kv_cache_position_ids = Some [[3, 5], [3, - 1]]\<rparr>"

theorem generation_batch_exact_witness:
  "\<exists>tokens masks. prepare_incremental_tree_batch demo_batch [snd (add_layer [[]] [[(5, 1)]] (new_tree 1)), new_tree 2] =
     Some (Inr (tokens, Some masks, [[[[0]]], [[]]])) \<and> length masks = 2"
proof -
  let ?t = "snd (add_layer [[]] [[(5, 1)]] (new_tree 1))"
  have t: "grown ?t" "grown (new_tree 2)" by (intro grown.intros; auto simp: paths_def)+
  have n: "1 < total_nodes ?t" by code_simp
  have l: "get_all_leaf_node_paths [] (root ?t) = [[[0]]]" "get_all_leaf_node_paths [] (root (new_tree 2)) = [[]]" by code_simp+
  show ?thesis
    using generation_batch_exact [of "[?t, new_tree 2]" demo_batch "[[3, 5], [3, - 1]]"] t n l by (auto simp: demo_batch_def)
qed

end
