(* ===== verification/SpecVerify.thy ===== *)
theory SpecVerify
  imports SpecBatch
begin

text \<open>
  Verifying speculation trees against the target model's logits,
  \<^verbatim>\<open>models/llama/speculative_model.py\<close>: \<open>_extract_best_verified_paths_fixed\<close> (greedy branch) and
  \<open>_update_input_ids_with_padding\<close>, and the acceptance histogram of
  \<^verbatim>\<open>spec_decoding_tree_shape.py\<close>. The logits and the chain of logits processors are parameters: the
  model that computes them is third-party code. Logits are real numbers.
\<close>

section \<open>Acceptance histogram\<close>

record histogram =
  seen :: "nat list"
  accepted :: "nat list"

definition empty_histogram :: "nat \<Rightarrow> histogram" where
  "empty_histogram n = \<lparr>seen = replicate n 0, accepted = replicate n 0\<rparr>"

definition record_edge :: "nat \<Rightarrow> bool \<Rightarrow> histogram \<Rightarrow> histogram" where
  "record_edge depth was_accepted h =
     (let pad = depth + 1 - length (seen h);
          s = (if length (seen h) \<le> depth then seen h @ replicate pad 0 else seen h);
          a = (if length (seen h) \<le> depth then accepted h @ replicate pad 0 else accepted h)
      in \<lparr>seen = s[depth := s ! depth + 1], accepted = (if was_accepted then a[depth := a ! depth + 1] else a)\<rparr>)"

definition acceptance_rates :: "real \<Rightarrow> histogram \<Rightarrow> real list" where
  "acceptance_rates flr h =
     map (\<lambda>(s, a). max flr (if 0 < s then of_nat a / of_nat s else flr)) (zip (seen h) (accepted h))"

definition histogram_ok :: "histogram \<Rightarrow> bool" where
  "histogram_ok h \<longleftrightarrow> length (accepted h) = length (seen h) \<and> (\<forall>d < length (seen h). accepted h ! d \<le> seen h ! d)"

lemma empty_histogram_ok: "histogram_ok (empty_histogram n)"
  by (simp add: histogram_ok_def empty_histogram_def)

lemma record_edge_ok:
  assumes "histogram_ok h"
  shows "histogram_ok (record_edge d b h) \<and> length (seen (record_edge d b h)) = max (length (seen h)) (d + 1)"
  using assms by (auto simp: histogram_ok_def record_edge_def Let_def nth_list_update nth_append le_SucI less_diff_conv split: if_splits)

lemma acceptance_rates_bounds:
  assumes "histogram_ok h" and "0 \<le> flr" and "flr \<le> 1"
  shows "\<forall>r \<in> set (acceptance_rates flr h). flr \<le> r \<and> r \<le> 1"
proof
  fix r assume "r \<in> set (acceptance_rates flr h)"
  then obtain d where d: "d < length (seen h)"
    "r = max flr (if 0 < seen h ! d then real (accepted h ! d) / real (seen h ! d) else flr)"
    using assms(1) by (auto simp: acceptance_rates_def in_set_zip histogram_ok_def)
  have "accepted h ! d \<le> seen h ! d" using assms(1) d(1) by (simp add: histogram_ok_def)
  then have "real (accepted h ! d) / real (seen h ! d) \<le> 1" by (cases "seen h ! d = 0") (simp_all add: divide_le_eq_1)
  then show "flr \<le> r \<and> r \<le> 1" using assms(2,3) d(2) by auto
qed

section \<open>Greedy verification of one row\<close>

definition argmax :: "real list \<Rightarrow> nat" where
  "argmax xs = length (takeWhile (\<lambda>x. x \<noteq> Max (set xs)) xs)"

text \<open>A node of a path as the loop reads it: token, own position and position of the parent.\<close>

definition node_ref :: "spec_tree \<Rightarrow> lin_state \<Rightarrow> nat list \<Rightarrow> int \<times> int \<times> int" where
  "node_ref t st q =
     (let pos = (\<lambda>q. case position_map st q of None \<Rightarrow> - 1 | Some i \<Rightarrow> int i) in
      (token_id (the (node_at (root t) q)), pos q, pos (butlast q)))"

text \<open>
  Walking down one path: tokens and absolute positions verified so far and the depth of the first
  mismatch, if there was one.
\<close>

fun verify_walk :: "nat list \<Rightarrow> nat \<Rightarrow> int \<Rightarrow> nat \<Rightarrow> (int \<times> int \<times> int) list \<Rightarrow> int list \<times> int list \<times> nat option" where
  "verify_walk predicted seq_len root_position d [] = ([], [], None)"
| "verify_walk predicted seq_len root_position d ((tok, pos, ppos) # rest) =
     (let p = nat (ppos + 1) in
      if seq_len \<le> p \<or> length predicted \<le> p then ([], [], None)
      else if int (predicted ! p) = tok then
        (case verify_walk predicted seq_len root_position (Suc d) rest of
           (ts, ps, rej) \<Rightarrow> (tok # ts, (root_position + pos + 1) # ps, rej))
      else ([], [], Some d))"

text \<open>The best path so far: the first one of greatest verified length; at first the score is -1.\<close>

fun best_walk :: "nat list \<Rightarrow> nat \<Rightarrow> int \<Rightarrow> (int \<times> int \<times> int) list list \<Rightarrow> (int list \<times> int list \<times> nat option) option \<Rightarrow>
    (int list \<times> int list \<times> nat option) option" where
  "best_walk predicted seq_len root_position [] best = best"
| "best_walk predicted seq_len root_position (p # ps) best =
     (let w = verify_walk predicted seq_len root_position 0 p in
      best_walk predicted seq_len root_position ps
        (case best of None \<Rightarrow> Some w | Some b \<Rightarrow> if length (fst b) < length (fst w) then Some w else best))"

definition record_walk :: "int list \<times> int list \<times> nat option \<Rightarrow> histogram \<Rightarrow> histogram" where
  "record_walk w h =
     (let h1 = foldl (\<lambda>h d. record_edge d True h) h [0..<length (fst w)] in
      (case snd (snd w) of None \<Rightarrow> h1 | Some d \<Rightarrow> record_edge d False h1))"

text \<open>\<open>argmax\<close> of the processed logits of the selected slice; an empty slice falls back to the last row.\<close>

definition ensure_non_empty :: "real list list \<Rightarrow> real list list \<Rightarrow> real list list" where
  "ensure_non_empty logits rows =
     (if rows \<noteq> [] \<and> hd rows \<noteq> [] then rows
      else pyslice (length logits - 1) (length logits - 1 + 1) logits)"

definition next_token :: "(real list \<Rightarrow> real list) \<Rightarrow> real list list \<Rightarrow> int result" where
  "next_token process rows =
     (if rows = [] then Inl IndexError
      else if process (hd rows) = [] then Inl IndexError
      else Inr (int (argmax (process (hd rows)))))"

record row_result =
  verified :: "int list"
  positions :: "int list"
  llm_token :: int

definition extract_row ::
  "(real list \<Rightarrow> real list) \<Rightarrow> real list list \<Rightarrow> nat \<Rightarrow> nat \<Rightarrow> bool \<Rightarrow> (int \<times> int \<times> int) list list \<Rightarrow>
   (row_result \<times> (int list \<times> int list \<times> nat option)) result" where
  "extract_row process logits tree_len actual_len is_first node_paths =
     (let seq_len = length logits;
          fallback_pos = seq_len - tree_len;
          rfp = (if is_first then actual_len else fallback_pos);
          root_position = int actual_len - 1;
          predicted = (if seq_len = 0 \<or> hd logits = [] then [] else map argmax logits);
          best = (case best_walk predicted seq_len root_position node_paths None of None \<Rightarrow> ([], [], None) | Some b \<Rightarrow> b)
      in case best of (vs, ps, rej) \<Rightarrow>
         if vs \<noteq> [] then
           let pos = last ps - root_position in
           if pos < - int seq_len \<or> int seq_len \<le> pos then Inl IndexError
           else
             let row = logits ! nat (if pos < 0 then pos + int seq_len else pos);
                 final = ensure_non_empty logits [row]
             in if list_all (list_all (\<lambda>x. x = 0)) final
                then Inr (\<lparr>verified = butlast vs, positions = root_position # butlast ps, llm_token = last vs\<rparr>, best)
                else (case next_token process final of
                        Inl e \<Rightarrow> Inl e
                      | Inr tok \<Rightarrow> Inr (\<lparr>verified = vs, positions = root_position # ps, llm_token = tok\<rparr>, best))
         else
           let rows = (if rfp = 0 then [] else pyslice (rfp - 1) rfp logits) in
           (case next_token process (ensure_non_empty logits rows) of
              Inl e \<Rightarrow> Inl e
            | Inr tok \<Rightarrow> Inr (\<lparr>verified = [], positions = [root_position], llm_token = tok\<rparr>, best)))"

section \<open>The batch\<close>

record verify_result =
  verified_tokens :: "int list list option"
  kv_positions :: "int list list"
  llm_tokens :: "int list"
  valid_lengths :: "nat list"

fun extract_rows ::
  "(nat \<Rightarrow> real list \<Rightarrow> real list) \<Rightarrow> nat \<Rightarrow> bool \<Rightarrow> nat \<Rightarrow>
   (real list list \<times> nat \<times> (int \<times> int \<times> int) list list) list \<Rightarrow> histogram option \<Rightarrow> (histogram option, row_result list) outcome" where
  "extract_rows process tree_len is_first i [] h = (Inr [], h)"
| "extract_rows process tree_len is_first i ((logits, actual_len, node_paths) # items) h =
     (case extract_row (process i) logits tree_len actual_len is_first node_paths of
        Inl e \<Rightarrow> (Inl e, h)
      | Inr (r, w) \<Rightarrow>
          (case extract_rows process tree_len is_first (Suc i) items (map_option (record_walk w) h) of
             (Inl e, h') \<Rightarrow> (Inl e, h')
           | (Inr rs, h') \<Rightarrow> (Inr (r # rs), h')))"

definition pad_rows :: "int \<Rightarrow> int list list \<Rightarrow> int list list" where
  "pad_rows v rows = (let w = Max (set (map length rows)) in map (\<lambda>r. r @ replicate (w - length r) v) rows)"

definition extract_best_verified_paths_fixed ::
  "(nat \<Rightarrow> real list \<Rightarrow> real list) \<Rightarrow> nat \<Rightarrow> bool \<Rightarrow>
   (real list list \<times> nat \<times> (int \<times> int \<times> int) list list) list \<Rightarrow> histogram option \<Rightarrow> (histogram option, verify_result) outcome" where
  "extract_best_verified_paths_fixed process tree_len is_first items h =
     (case extract_rows process tree_len is_first 0 items h of
        (Inl e, h') \<Rightarrow> (Inl e, h')
      | (Inr rs, h') \<Rightarrow>
          if rs = [] then (Inl RuntimeError, h')
          else
            let vs = map verified rs in
            (Inr \<lparr>verified_tokens = (if 0 < Max (set (map length vs)) then Some (pad_rows (- 1) vs) else None),
                  kv_positions = pad_rows (- 1) (map positions rs),
                  llm_tokens = map llm_token rs,
                  valid_lengths = map length vs\<rparr>, h'))"

section \<open>Extending the input ids\<close>

text \<open>
  Row \<open>i\<close> of the new ids: the old valid tokens, the verified ones, the model's token, padding. A
  slice that is too short makes the assignment fail (a single element broadcasts).
\<close>

definition copy_slice :: "nat \<Rightarrow> int list \<Rightarrow> int list result" where
  "copy_slice n xs =
     (if n \<le> length xs then Inr (take n xs)
      else if length xs = 1 then Inr (replicate n (hd xs))
      else Inl RuntimeError)"

definition update_row :: "nat \<Rightarrow> int \<Rightarrow> int list \<Rightarrow> nat \<Rightarrow> int list option \<Rightarrow> nat \<Rightarrow> int \<Rightarrow> int list result" where
  "update_row new_max_len pad ids old_len vrow v_len llm =
     (case copy_slice old_len ids of
        Inl e \<Rightarrow> Inl e
      | Inr old \<Rightarrow>
          (case (case vrow of
                   None \<Rightarrow> Inr []
                 | Some vs \<Rightarrow> if v_len = 0 then Inr [] else copy_slice v_len vs) of
             Inl e \<Rightarrow> Inl e
           | Inr vs \<Rightarrow>
               let row = old @ vs @ [llm] in Inr (row @ replicate (new_max_len - length row) pad)))"

fun sequence_results :: "'a result list \<Rightarrow> 'a list result" where
  "sequence_results [] = Inr []"
| "sequence_results (Inl e # rs) = Inl e"
| "sequence_results (Inr x # rs) = map_sum id ((#) x) (sequence_results rs)"

definition update_input_ids_with_padding ::
  "int \<Rightarrow> int list list \<Rightarrow> verify_result \<Rightarrow> nat list \<Rightarrow> (int list list \<times> nat list) result" where
  "update_input_ids_with_padding pad ids r lens =
     (let new_lens = map2 (\<lambda>n v. n + (v + 1)) lens (valid_lengths r) in
      if new_lens = [] then Inl RuntimeError
      else
        map_sum id (\<lambda>rows. (rows, new_lens))
          (sequence_results (map (\<lambda>i. update_row (Max (set new_lens)) pad (ids ! i) (lens ! i)
             (case verified_tokens r of None \<Rightarrow> None | Some vs \<Rightarrow> Some (vs ! i)) (valid_lengths r ! i) (llm_tokens r ! i))
             [0..<length ids])))"


section \<open>Paths of a tree\<close>

fun nodes_after :: "nat list \<Rightarrow> nat list \<Rightarrow> nat list list" where
  "nodes_after p [] = []"
| "nodes_after p (k # ks) = (p @ [k]) # nodes_after (p @ [k]) ks"

lemma nodes_after_map: "nodes_after p q = map (\<lambda>k. p @ take (Suc k) q) [0..<length q]"
  by (induction p q rule: nodes_after.induct) (auto simp: map_upt_Suc simp del: upt_Suc)

lemma path_nodes_after: "get_path_nodes_from_root q = nodes_after [] q"
  by (simp add: get_path_nodes_from_root_def nodes_after_map)

lemma nodes_after_append: "nodes_after p (q @ r) = nodes_after p q @ nodes_after (p @ q) r"
  by (induction p q rule: nodes_after.induct) auto

lemma tokens_snoc: "get_path_from_root r (p @ [k]) = get_path_from_root r p @ [token_id (the (node_at r (p @ [k])))]"
  by (simp add: get_path_from_root_def path_nodes_after nodes_after_append)

lemma tokens_append:
  "get_path_from_root r (p @ q) = get_path_from_root r p @ map (\<lambda>q'. token_id (the (node_at r q'))) (nodes_after p q)"
  by (simp add: get_path_from_root_def path_nodes_after nodes_after_append)

lemma length_nodes_after [simp]: "length (nodes_after p q) = length q"
  by (simp add: nodes_after_map)

lemma length_tokens [simp]: "length (get_path_from_root r q) = length q"
  by (simp add: get_path_from_root_def path_nodes_after)

lemma tokens_Nil [simp]: "get_path_from_root r [] = []"
  by (simp add: get_path_from_root_def path_nodes_after)

lemma node_at_append: "node_at n (p @ q) = Option.bind (node_at n p) (\<lambda>m. node_at m q)"
  by (induction n p rule: node_at.induct) auto

lemma paths_prefix: "p @ q \<in> paths n \<Longrightarrow> p \<in> paths n"
  by (auto simp: paths_def node_at_append bind_eq_Some_conv split: bind_splits)

text \<open>The leaf paths are those of the leaves, and every node lies on one of them.\<close>

lemma leaf_node_paths:
  "set (get_all_leaf_node_paths p n) = {get_path_nodes_from_root (p @ q) | q m. node_at n q = Some m \<and> children m = []}"
  "set (leaf_paths_of p k cs) =
     {get_path_nodes_from_root (p @ (k + j) # q) | j q m. j < length cs \<and> node_at (cs ! j) q = Some m \<and> children m = []}"
proof (induction p n and p k cs rule: get_all_leaf_node_paths_leaf_paths_of.induct)
  case (1 p tok prob d cs)
  show ?case
  proof (cases "cs = []")
    case True
    have "node_at (TreeNode tok prob d []) q = Some m \<longleftrightarrow> q = [] \<and> m = TreeNode tok prob d []" for q m by (cases q) auto
    then show ?thesis using True by auto
  next
    case False
    have e: "(node_at (TreeNode tok prob d cs) q = Some m \<and> children m = []) \<longleftrightarrow>
        (\<exists>j q'. q = j # q' \<and> j < length cs \<and> node_at (cs ! j) q' = Some m \<and> children m = [])" for q m
      using False by (cases q) auto
    show ?thesis using False 1 unfolding e by auto
  qed
next
  case (3 p k c cs)
  have "(\<exists>j q m. x = get_path_nodes_from_root (p @ (k + j) # q) \<and> j < length (c # cs) \<and> node_at ((c # cs) ! j) q = Some m \<and> children m = []) \<longleftrightarrow>
      (\<exists>q m. x = get_path_nodes_from_root (p @ k # q) \<and> node_at c q = Some m \<and> children m = []) \<or>
      (\<exists>j q m. x = get_path_nodes_from_root (p @ (Suc k + j) # q) \<and> j < length cs \<and> node_at (cs ! j) q = Some m \<and> children m = [])" (is "?l \<longleftrightarrow> ?r") for x
  proof
    assume ?l
    then obtain j q m where "x = get_path_nodes_from_root (p @ (k + j) # q)" "j < length (c # cs)" "node_at ((c # cs) ! j) q = Some m" "children m = []" by blast
    then show ?r by (cases j) (auto simp: add_Suc_right [symmetric] simp del: add_Suc_right)
  next
    assume ?r
    then show ?l
    proof (elim disjE exE conjE)
      fix q m assume "x = get_path_nodes_from_root (p @ k # q)" "node_at c q = Some m" "children m = []"
      then show ?l by (intro exI [of _ 0] exI [of _ q] exI [of _ m]) simp
    next
      fix j q m assume "x = get_path_nodes_from_root (p @ (Suc k + j) # q)" "j < length cs" "node_at (cs ! j) q = Some m" "children m = []"
      then show ?l by (intro exI [of _ "Suc j"] exI [of _ q] exI [of _ m]) simp
    qed
  qed
  then show ?case using 3 by auto
qed auto

lemma some_leaf: "\<exists>q m. node_at n q = Some m \<and> children m = []"
proof (induction n rule: measure_induct_rule [where f = size])
  case (less n)
  show ?case
  proof (cases "children n = []")
    case True
    then show ?thesis by (intro exI [of _ "[]"]) simp
  next
    case False
    then obtain c cs where c: "children n = c # cs" by (cases "children n") auto
    then have "size c < size n" by (cases n) (auto simp: less_Suc_eq)
    from less [OF this] obtain q m where "node_at c q = Some m" "children m = []" by blast
    then show ?thesis using c by (intro exI [of _ "0 # q"] exI [of _ m]) simp
  qed
qed

lemma leaf_below:
  assumes "p \<in> paths n"
  shows "\<exists>q. p @ q \<in> paths n \<and> get_path_nodes_from_root (p @ q) \<in> set (get_all_leaf_node_paths [] n)"
proof -
  obtain m where m: "node_at n p = Some m" using assms by (auto simp: paths_def)
  obtain q l where "node_at m q = Some l" "children l = []" using some_leaf by blast
  then have "node_at n (p @ q) = Some l" "children l = []" using m by (simp_all add: node_at_append)
  then show ?thesis by (auto simp: leaf_node_paths paths_def)
qed

section \<open>Greedy decoding\<close>

fun greedy :: "(int list \<Rightarrow> int) \<Rightarrow> int list \<Rightarrow> nat \<Rightarrow> int list" where
  "greedy f ctx 0 = []"
| "greedy f ctx (Suc n) = f ctx # greedy f (ctx @ [f ctx]) n"

lemma length_greedy [simp]: "length (greedy f ctx n) = n"
  by (induction n arbitrary: ctx) auto

lemma greedy_add: "greedy f ctx (m + n) = greedy f ctx m @ greedy f (ctx @ greedy f ctx m) n"
  by (induction m arbitrary: ctx) auto

lemma greedy_Suc: "greedy f ctx (Suc n) = greedy f ctx n @ [f (ctx @ greedy f ctx n)]"
  using greedy_add [of f ctx n 1] by simp

lemma take_greedy: "m \<le> n \<Longrightarrow> take m (greedy f ctx n) = greedy f ctx m"
  using greedy_add [of f ctx m "n - m"] by simp

text \<open>
  What tree attention promises of the logits: row 0 belongs to the context, the row after the
  position of a node to the context extended by the node's path.
\<close>

definition row_of :: "lin_state \<Rightarrow> nat list \<Rightarrow> nat" where
  "row_of st q = (case position_map st q of None \<Rightarrow> 0 | Some i \<Rightarrow> Suc i)"

definition tree_logits :: "(int list \<Rightarrow> real list) \<Rightarrow> int list \<Rightarrow> spec_tree \<Rightarrow> real list list \<Rightarrow> bool" where
  "tree_logits lm ctx t logits \<longleftrightarrow>
     (\<forall>q \<in> paths (root t). row_of (linearize_tree_with_positions t) q < length logits \<and>
        logits ! row_of (linearize_tree_with_positions t) q = lm (ctx @ get_path_from_root (root t) q)) \<and>
     (\<forall>row \<in> set logits. row \<noteq> [])"

definition best_token :: "(int list \<Rightarrow> real list) \<Rightarrow> int list \<Rightarrow> int" where
  "best_token lm ctx = int (argmax (lm ctx))"

lemma root_row: "row_of (linearize_tree_with_positions t) [] = 0"
proof -
  have "position_map (linearize_tree_with_positions t) [] \<noteq> Some i" for i
    using linearize_ok(1) [of t] by (auto simp: positions_ok_def parent_ok_def Let_def)
  then show ?thesis by (auto simp: row_of_def split: option.splits)
qed

lemma node_row:
  "nat ((case position_map st q of None \<Rightarrow> - 1 | Some i \<Rightarrow> int i) + 1) = row_of st q"
  "(case position_map st q of None \<Rightarrow> - 1 | Some i \<Rightarrow> int i) + 1 = int (row_of st q)"
  by (auto simp: row_of_def split: option.splits)

definition abs_position :: "lin_state \<Rightarrow> int \<Rightarrow> nat list \<Rightarrow> int" where
  "abs_position st root_position q = root_position + int (row_of st q)"

lemma verify_walk_spec:
  assumes "tree_logits lm ctx t logits" and "p @ q \<in> paths (root t)"
    and "ctx @ get_path_from_root (root t) p = c"
  defines "st \<equiv> linearize_tree_with_positions t"
  shows "\<exists>m rej. verify_walk (map argmax logits) (length logits) rp d (map (node_ref t st) (nodes_after p q)) =
       (map (\<lambda>q'. token_id (the (node_at (root t) q'))) (nodes_after p (take m q)), map (abs_position st rp) (nodes_after p (take m q)), rej) \<and>
     m \<le> length q \<and> map (\<lambda>q'. token_id (the (node_at (root t) q'))) (nodes_after p (take m q)) = greedy (best_token lm) c m \<and>
     (m < length q \<longrightarrow> map (\<lambda>q'. token_id (the (node_at (root t) q'))) (nodes_after p (take (Suc m) q)) \<noteq> greedy (best_token lm) c (Suc m))"
  using assms(2,3)
proof (induction q arbitrary: p c d)
  case Nil
  then show ?case by (intro exI [of _ 0] exI [of _ None]) simp
next
  case (Cons k q)
  let ?tok = "\<lambda>q'. token_id (the (node_at (root t) q'))"
  have p: "p \<in> paths (root t)" "(p @ [k]) @ q \<in> paths (root t)" using Cons.prems(1) paths_prefix by auto
  have row: "row_of st p < length logits" "logits ! row_of st p = lm c"
    using assms(1) p(1) Cons.prems(2) unfolding tree_logits_def st_def by auto
  have ref: "node_ref t st (p @ [k]) = (?tok (p @ [k]), case position_map st (p @ [k]) of None \<Rightarrow> - 1 | Some i \<Rightarrow> int i,
      case position_map st p of None \<Rightarrow> - 1 | Some i \<Rightarrow> int i)" by (simp add: node_ref_def Let_def)
  have bt: "int (map argmax logits ! row_of st p) = best_token lm c" using row by (simp add: best_token_def)
  show ?case
  proof (cases "best_token lm c = ?tok (p @ [k])")
    case True
    have c': "ctx @ get_path_from_root (root t) (p @ [k]) = c @ [best_token lm c]"
      using Cons.prems(2) True by (simp add: tokens_snoc flip: Cons.prems(2))
    from Cons.IH [OF p(2) c', of "Suc d"] obtain m rej where
      m: "verify_walk (map argmax logits) (length logits) rp (Suc d) (map (node_ref t st) (nodes_after (p @ [k]) q)) =
         (map ?tok (nodes_after (p @ [k]) (take m q)), map (abs_position st rp) (nodes_after (p @ [k]) (take m q)), rej)"
      "m \<le> length q" "map ?tok (nodes_after (p @ [k]) (take m q)) = greedy (best_token lm) (c @ [best_token lm c]) m"
      "m < length q \<longrightarrow> map ?tok (nodes_after (p @ [k]) (take (Suc m) q)) \<noteq> greedy (best_token lm) (c @ [best_token lm c]) (Suc m)" by blast
    have a: "rp + (case position_map st (p @ [k]) of None \<Rightarrow> - 1 | Some i \<Rightarrow> int i) + 1 = abs_position st rp (p @ [k])"
      unfolding abs_position_def node_row(2) [symmetric] by simp
    have w: "verify_walk (map argmax logits) (length logits) rp d (map (node_ref t st) (nodes_after p (k # q))) =
        (map ?tok (nodes_after p (take (Suc m) (k # q))), map (abs_position st rp) (nodes_after p (take (Suc m) (k # q))), rej)"
      using m(1) row(1) True bt by (simp add: ref node_row(1) Let_def a)
    have g: "map ?tok (nodes_after p (take (Suc m) (k # q))) = greedy (best_token lm) c (Suc m)" using m(3) True by simp
    have n: "Suc m < length (k # q) \<longrightarrow>
        map ?tok (nodes_after p (take (Suc (Suc m)) (k # q))) \<noteq> greedy (best_token lm) c (Suc (Suc m))"
      using m(4) True by auto
    show ?thesis using w g n m(2) by (intro exI [of _ "Suc m"] exI [of _ rej] conjI) auto
  next
    case False
    have "verify_walk (map argmax logits) (length logits) rp d (map (node_ref t st) (nodes_after p (k # q))) = ([], [], Some d)"
      using row(1) False bt by (simp add: ref node_row(1) Let_def)
    then show ?thesis using False by (intro exI [of _ 0] exI [of _ "Some d"]) simp
  qed
qed


lemma best_walk_Some:
  "\<exists>w. best_walk pr L rp ps (Some b) = Some w \<and> (w = b \<or> w \<in> verify_walk pr L rp 0 ` set ps) \<and> length (fst b) \<le> length (fst w) \<and>
     (\<forall>p \<in> set ps. length (fst (verify_walk pr L rp 0 p)) \<le> length (fst w))"
proof (induction ps arbitrary: b)
  case (Cons p ps)
  define b' where "b' = (if length (fst b) < length (fst (verify_walk pr L rp 0 p)) then verify_walk pr L rp 0 p else b)"
  obtain w where w: "best_walk pr L rp ps (Some b') = Some w" "w = b' \<or> w \<in> verify_walk pr L rp 0 ` set ps"
    "length (fst b') \<le> length (fst w)" "\<forall>p \<in> set ps. length (fst (verify_walk pr L rp 0 p)) \<le> length (fst w)"
    using Cons.IH by blast
  have "best_walk pr L rp (p # ps) (Some b) = Some w" using w(1) by (auto simp: b'_def Let_def)
  moreover have "length (fst b) \<le> length (fst b')" "length (fst (verify_walk pr L rp 0 p)) \<le> length (fst b')"
    "b' = b \<or> b' = verify_walk pr L rp 0 p" by (auto simp: b'_def)
  ultimately show ?case using w by (intro exI [of _ w]) (auto simp del: best_walk.simps)
qed simp

lemma best_walk_spec:
  assumes "ps \<noteq> []"
  shows "\<exists>w. best_walk pr L rp ps None = Some w \<and> w \<in> verify_walk pr L rp 0 ` set ps \<and>
     (\<forall>p \<in> set ps. length (fst (verify_walk pr L rp 0 p)) \<le> length (fst w))"
proof -
  obtain p ps' where ps: "ps = p # ps'" using assms by (cases ps) auto
  show ?thesis using best_walk_Some [of pr L rp ps' "verify_walk pr L rp 0 p"] by (auto simp: ps Let_def)
qed

text \<open>The best walk of a tree: the longest path that agrees with greedy decoding.\<close>

lemma best_walk_tree:
  assumes "tree_logits lm ctx t logits"
  defines "st \<equiv> linearize_tree_with_positions t"
  shows "\<exists>q rej. best_walk (map argmax logits) (length logits) rp (map (map (node_ref t st)) (get_all_leaf_node_paths [] (root t))) None =
       Some (get_path_from_root (root t) q, map (abs_position st rp) (get_path_nodes_from_root q), rej) \<and>
     q \<in> paths (root t) \<and> get_path_from_root (root t) q = greedy (best_token lm) ctx (length q) \<and>
     (\<forall>q' \<in> paths (root t). get_path_from_root (root t) q' = greedy (best_token lm) ctx (length q') \<longrightarrow> length q' \<le> length q)"
proof -
  let ?W = "verify_walk (map argmax logits) (length logits) rp 0"
  let ?ps = "map (map (node_ref t st)) (get_all_leaf_node_paths [] (root t))"
  have walk: "\<exists>m rej. ?W (map (node_ref t st) (get_path_nodes_from_root q)) =
       (get_path_from_root (root t) (take m q), map (abs_position st rp) (get_path_nodes_from_root (take m q)), rej) \<and> m \<le> length q \<and>
     get_path_from_root (root t) (take m q) = greedy (best_token lm) ctx m \<and>
     (m < length q \<longrightarrow> get_path_from_root (root t) (take (Suc m) q) \<noteq> greedy (best_token lm) ctx (Suc m))" if "q \<in> paths (root t)" for q
    using verify_walk_spec [OF assms(1), of "[]" q ctx rp 0] that
    unfolding st_def by (simp add: get_path_from_root_def path_nodes_after)
  have ne: "?ps \<noteq> []" using leaf_below [of "[]" "root t"] by (auto simp: paths_def)
  obtain w where w: "best_walk (map argmax logits) (length logits) rp ?ps None = Some w" "w \<in> ?W ` set ?ps"
    "\<forall>p \<in> set ?ps. length (fst (?W p)) \<le> length (fst w)" using best_walk_spec [OF ne] by blast
  have "\<exists>q. q \<in> paths (root t) \<and> w = ?W (map (node_ref t st) (get_path_nodes_from_root q))"
  proof -
    obtain path where path: "path \<in> set (get_all_leaf_node_paths [] (root t))" "w = ?W (map (node_ref t st) path)" using w(2) by auto
    then show ?thesis unfolding leaf_node_paths by (auto simp: paths_def)
  qed
  then obtain q0 where q0: "q0 \<in> paths (root t)" "w = ?W (map (node_ref t st) (get_path_nodes_from_root q0))" by blast
  from walk [OF q0(1)] obtain m rej where m: "w = (get_path_from_root (root t) (take m q0), map (abs_position st rp) (get_path_nodes_from_root (take m q0)), rej)"
    "m \<le> length q0" "get_path_from_root (root t) (take m q0) = greedy (best_token lm) ctx m" unfolding q0(2) [symmetric] by blast
  have "length q' \<le> m" if q': "q' \<in> paths (root t)" "get_path_from_root (root t) q' = greedy (best_token lm) ctx (length q')" for q'
  proof -
    obtain s where s: "q' @ s \<in> paths (root t)" "get_path_nodes_from_root (q' @ s) \<in> set (get_all_leaf_node_paths [] (root t))"
      using leaf_below [OF q'(1)] by blast
    from walk [OF s(1)] obtain m' rej' where
      m': "?W (map (node_ref t st) (get_path_nodes_from_root (q' @ s))) = (get_path_from_root (root t) (take m' (q' @ s)), map (abs_position st rp) (get_path_nodes_from_root (take m' (q' @ s))), rej')"
      "m' \<le> length (q' @ s)" "m' < length (q' @ s) \<longrightarrow> get_path_from_root (root t) (take (Suc m') (q' @ s)) \<noteq> greedy (best_token lm) ctx (Suc m')" by blast
    have "length q' \<le> m'"
    proof (rule ccontr)
      assume "\<not> length q' \<le> m'"
      then have lt: "Suc m' \<le> length q'" by simp
      have "q' = take (Suc m') q' @ drop (Suc m') q'" by simp
      then have "take (Suc m') (get_path_from_root (root t) q') = get_path_from_root (root t) (take (Suc m') q')"
        using lt tokens_append [of "root t" "take (Suc m') q'" "drop (Suc m') q'"] by simp
      then have "get_path_from_root (root t) (take (Suc m') q') = greedy (best_token lm) ctx (Suc m')"
        using q'(2) take_greedy [OF lt, of "best_token lm" ctx] by simp
      with m'(3) lt show False by simp
    qed
    moreover have "m' \<le> m" using w(3) s(2) m'(1,2) m(1,2) by force
    ultimately show ?thesis by simp
  qed
  moreover have "take m q0 \<in> paths (root t)" using q0(1) paths_prefix [of "take m q0" "drop m q0"] by simp
  ultimately show ?thesis using w(1) m by (intro exI [of _ "take m q0"] exI [of _ rej]) simp
qed

lemma row_exact_full:
  assumes "tree_logits lm ctx t logits" and "length logits = tree_len + 1"
    and "\<forall>row \<in> set logits. process row \<noteq> [] \<and> argmax (process row) = argmax row"
  shows "\<exists>r w q k.
     extract_row process logits tree_len n False
       (map (map (node_ref t (linearize_tree_with_positions t))) (get_all_leaf_node_paths [] (root t))) = Inr (r, w) \<and>
     q \<in> paths (root t) \<and> verified r = get_path_from_root (root t) q \<and>
     positions r = (int n - 1) # map (abs_position (linearize_tree_with_positions t) (int n - 1)) (get_path_nodes_from_root q) \<and>
     0 < k \<and> verified r @ [llm_token r] = greedy (best_token lm) ctx k \<and>
     ((\<forall>row \<in> set logits. \<exists>x \<in> set row. x \<noteq> 0) \<longrightarrow>
        (\<forall>q' \<in> paths (root t). get_path_from_root (root t) q' = greedy (best_token lm) ctx (length q') \<longrightarrow> length q' \<le> length (verified r)))"
proof -
  define st where "st = linearize_tree_with_positions t"
  define rp where "rp = int n - 1"
  obtain q rej where b: "best_walk (map argmax logits) (length logits) rp (map (map (node_ref t st)) (get_all_leaf_node_paths [] (root t))) None =
       Some (get_path_from_root (root t) q, map (abs_position st rp) (get_path_nodes_from_root q), rej)"
    and q: "q \<in> paths (root t)" "get_path_from_root (root t) q = greedy (best_token lm) ctx (length q)"
    and mx: "\<forall>q' \<in> paths (root t). get_path_from_root (root t) q' = greedy (best_token lm) ctx (length q') \<longrightarrow> length q' \<le> length q"
    using best_walk_tree [OF assms(1), of rp] unfolding st_def by blast
  have lne: "logits \<noteq> []" using assms(2) by auto
  have ne: "logits \<noteq> []" "hd logits \<noteq> []" using lne assms(1) hd_in_set [OF lne] by (auto simp: tree_logits_def)
  have next_ok: "next_token process [row] = Inr (int (argmax row))" if "row \<in> set logits" for row
    using assms(3) that by (simp add: next_token_def)
  have row: "row_of st q < length logits" "logits ! row_of st q = lm (ctx @ get_path_from_root (root t) q)"
    using assms(1) q(1) by (auto simp: tree_logits_def st_def)
  have in_l: "logits ! row_of st q \<in> set logits" using row(1) by simp
  have ens: "ensure_non_empty logits [row] = [row]" if "row \<in> set logits" for row
    using assms(1) that by (simp add: ensure_non_empty_def tree_logits_def)
  define X where "X = extract_row process logits tree_len n False (map (map (node_ref t st)) (get_all_leaf_node_paths [] (root t)))"
  let ?w = "(get_path_from_root (root t) q, map (abs_position st rp) (get_path_nodes_from_root q), rej)"
  show ?thesis unfolding st_def [symmetric] rp_def [symmetric] X_def [symmetric]
  proof (cases "q = []")
    case True
    have z: "logits ! 0 = lm ctx" "logits ! 0 \<in> set logits" using row True root_row [of t] in_l by (simp_all add: st_def)
    have "pyslice 0 1 logits = [logits ! 0]" using ne by (cases logits) (auto simp: pyslice_def)
    then have "X = Inr (\<lparr>verified = [], positions = [rp], llm_token = best_token lm ctx\<rparr>, ?w)"
      unfolding X_def extract_row_def Let_def using ne b True assms(2) next_ok [OF z(2)] ens [OF z(2)] z(1)
      by (simp add: rp_def best_token_def path_nodes_after)
    then show "\<exists>r w q k. X = Inr (r, w) \<and> q \<in> paths (root t) \<and> verified r = get_path_from_root (root t) q \<and>
        positions r = rp # map (abs_position st rp) (get_path_nodes_from_root q) \<and> 0 < k \<and> verified r @ [llm_token r] = greedy (best_token lm) ctx k \<and>
        ((\<forall>row \<in> set logits. \<exists>x \<in> set row. x \<noteq> 0) \<longrightarrow> (\<forall>q' \<in> paths (root t). get_path_from_root (root t) q' = greedy (best_token lm) ctx (length q') \<longrightarrow> length q' \<le> length (verified r)))"
      using True q mx by (intro exI [of _ "\<lparr>verified = [], positions = [rp], llm_token = best_token lm ctx\<rparr>"] exI [of _ ?w] exI [of _ "[]"] exI [of _ 1])
        (simp add: path_nodes_after)
  next
    case False
    define vs ps where "vs = get_path_from_root (root t) q" and "ps = map (abs_position st rp) (get_path_nodes_from_root q)"
    have "length vs = length q" "length ps = length q" by (simp_all add: vs_def ps_def path_nodes_after)
    then have vne: "vs \<noteq> []" "ps \<noteq> []" using False by auto
    obtain p k where pk: "q = p @ [k]" using False by (cases q rule: rev_cases) auto
    have split: "vs = get_path_from_root (root t) p @ [last vs]" "ps = map (abs_position st rp) (get_path_nodes_from_root p) @ [abs_position st rp q]"
      by (auto simp: vs_def ps_def pk tokens_snoc path_nodes_after nodes_after_append)
    have lp: "last ps - rp = int (row_of st q)" using split(2) by (metis abs_position_def add_diff_cancel_left' last_snoc)
    define rw where "rw = logits ! row_of st q"
    have ex: "X = (if list_all (\<lambda>x. x = 0) rw then Inr (\<lparr>verified = butlast vs, positions = rp # butlast ps, llm_token = last vs\<rparr>, ?w)
        else Inr (\<lparr>verified = vs, positions = rp # ps, llm_token = int (argmax rw)\<rparr>, ?w))"
      unfolding X_def extract_row_def Let_def using ne b vne lp row(1) next_ok [OF in_l] ens [OF in_l]
      by (simp add: rp_def [symmetric] vs_def [symmetric] ps_def [symmetric] rw_def [symmetric])
    have llm: "int (argmax rw) = best_token lm (ctx @ vs)" using row(2) by (simp add: rw_def best_token_def vs_def)
    have g: "vs = greedy (best_token lm) ctx (length q)" using q(2) by (simp add: vs_def)
    show "\<exists>r w q k. X = Inr (r, w) \<and> q \<in> paths (root t) \<and> verified r = get_path_from_root (root t) q \<and>
        positions r = rp # map (abs_position st rp) (get_path_nodes_from_root q) \<and> 0 < k \<and> verified r @ [llm_token r] = greedy (best_token lm) ctx k \<and>
        ((\<forall>row \<in> set logits. \<exists>x \<in> set row. x \<noteq> 0) \<longrightarrow> (\<forall>q' \<in> paths (root t). get_path_from_root (root t) q' = greedy (best_token lm) ctx (length q') \<longrightarrow> length q' \<le> length (verified r)))"
    proof (cases "list_all (\<lambda>x. x = 0) rw")
      case True
      then have "\<not> (\<forall>row \<in> set logits. \<exists>x \<in> set row. x \<noteq> 0)" using in_l by (auto simp: list_all_iff rw_def)
      moreover have "butlast vs = get_path_from_root (root t) p" "butlast ps = map (abs_position st rp) (get_path_nodes_from_root p)"
        using split by (metis butlast_snoc)+
      moreover have "p \<in> paths (root t)" using q(1) pk paths_prefix by blast
      moreover have "butlast vs @ [last vs] = greedy (best_token lm) ctx (length q)" using vne g by simp
      moreover have "X = Inr (\<lparr>verified = butlast vs, positions = rp # butlast ps, llm_token = last vs\<rparr>, ?w)" using ex True by simp
      ultimately show ?thesis using False
        by (intro exI [of _ "\<lparr>verified = butlast vs, positions = rp # butlast ps, llm_token = last vs\<rparr>"] exI [of _ ?w] exI [of _ p] exI [of _ "length q"])
          (simp only: row_result.simps length_greater_0_conv simp_thms)
    next
      case nz: False
      have "vs @ [int (argmax rw)] = greedy (best_token lm) ctx (Suc (length q))" unfolding greedy_Suc llm g [symmetric] by simp
      then show ?thesis using ex nz q(1) mx
        by (intro exI [of _ "\<lparr>verified = vs, positions = rp # ps, llm_token = int (argmax rw)\<rparr>"] exI [of _ ?w] exI [of _ q] exI [of _ "Suc (length q)"])
          (simp add: vs_def ps_def)
    qed
  qed
qed



lemma row_exact:
  assumes "tree_logits lm ctx t logits" and "length logits = tree_len + 1"
    and "\<forall>row \<in> set logits. process row \<noteq> [] \<and> argmax (process row) = argmax row"
  shows "\<exists>r w. extract_row process logits tree_len n False
       (map (map (node_ref t (linearize_tree_with_positions t))) (get_all_leaf_node_paths [] (root t))) = Inr (r, w) \<and>
     (\<exists>k > 0. verified r @ [llm_token r] = greedy (best_token lm) ctx k)"
  using row_exact_full [OF assms, of n] by blast

section \<open>Whole runs\<close>

lemma extract_rows_ok:
  assumes "\<forall>j < length items. \<exists>r w. (case items ! j of (logits, n, ps) \<Rightarrow>
     extract_row (process (i + j)) logits tree_len n is_first ps) = Inr (r, w) \<and> P (i + j) r"
  shows "\<exists>rs h'. extract_rows process tree_len is_first i items h = (Inr rs, h') \<and> length rs = length items \<and>
     (\<forall>j < length items. P (i + j) (rs ! j))"
  using assms
proof (induction items arbitrary: i h)
  case (Cons x items)
  obtain logits n ps where x: "x = (logits, n, ps)" by (cases x) auto
  obtain r w where r: "extract_row (process i) logits tree_len n is_first ps = Inr (r, w)" "P i r"
    using Cons.prems [rule_format, of 0] by (auto simp: x)
  have "\<forall>j < length items. \<exists>r w. (case items ! j of (logits, n, ps) \<Rightarrow>
     extract_row (process (Suc i + j)) logits tree_len n is_first ps) = Inr (r, w) \<and> P (Suc i + j) r"
    using Cons.prems [rule_format, of "Suc j" for j] by simp
  from Cons.IH [OF this, of "map_option (record_walk w) h"] obtain rs h' where
    "extract_rows process tree_len is_first (Suc i) items (map_option (record_walk w) h) = (Inr rs, h')" "length rs = length items"
    "\<forall>j < length items. P (Suc i + j) (rs ! j)" by blast
  with r show ?case by (auto simp: x nth_Cons split: nat.splits)
qed simp

lemma sequence_results_ok:
  "\<forall>j < n. f j = Inr (g j) \<Longrightarrow> sequence_results (map f [0..<n]) = Inr (map g [0..<n])"
proof (induction n arbitrary: f g)
  case (Suc n)
  then have "sequence_results (map (\<lambda>j. f (Suc j)) [0..<n]) = Inr (map (\<lambda>j. g (Suc j)) [0..<n])" by simp
  with Suc.prems show ?case by (simp add: map_upt_Suc del: upt_Suc)
qed simp

lemma pad_rows_nth:
  "j < length rows \<Longrightarrow> \<exists>m. pad_rows v rows ! j = rows ! j @ replicate m v"
  by (auto simp: pad_rows_def Let_def)

lemma update_ok:
  assumes "length rs = length ids" and "length lens = length ids" and "ids \<noteq> []" and "\<forall>j < length ids. lens ! j \<le> length (ids ! j)"
    and "r = \<lparr>verified_tokens = (if 0 < Max (set (map length (map verified rs))) then Some (pad_rows (- 1) (map verified rs)) else None),
                  kv_positions = pad_rows (- 1) (map positions rs), llm_tokens = map llm_token rs, valid_lengths = map length (map verified rs)\<rparr>"
  shows "\<exists>ids' lens'. update_input_ids_with_padding pad ids r lens = Inr (ids', lens') \<and> length ids' = length ids \<and> length lens' = length ids \<and>
     (\<forall>j < length ids. lens' ! j = lens ! j + length (verified (rs ! j)) + 1 \<and> lens' ! j \<le> length (ids' ! j) \<and>
        take (lens' ! j) (ids' ! j) = take (lens ! j) (ids ! j) @ verified (rs ! j) @ [llm_token (rs ! j)])"
proof -
  define new_lens where "new_lens = map2 (\<lambda>n v. n + (v + 1)) lens (valid_lengths r)"
  define row where "row j = take (lens ! j) (ids ! j) @ verified (rs ! j) @ [llm_token (rs ! j)]" for j
  define full where "full j = row j @ replicate (Max (set new_lens) - length (row j)) pad" for j
  define f where "f j = update_row (Max (set new_lens)) pad (ids ! j) (lens ! j)
             (case verified_tokens r of None \<Rightarrow> None | Some vs \<Rightarrow> Some (vs ! j)) (valid_lengths r ! j) (llm_tokens r ! j)" for j
  have rowj: "f j = Inr (full j)" if j: "j < length ids" for j
  proof -
    have old: "copy_slice (lens ! j) (ids ! j) = Inr (take (lens ! j) (ids ! j))" using assms(4) j by (simp add: copy_slice_def)
    have l: "valid_lengths r ! j = length (verified (rs ! j))" "llm_tokens r ! j = llm_token (rs ! j)" using assms(1,5) j by simp_all
    show ?thesis
    proof (cases "0 < Max (set (map length (map verified rs)))")
      case True
      then have vt: "verified_tokens r = Some (pad_rows (- 1) (map verified rs))" using assms(5) by simp
      obtain m where m: "pad_rows (- 1) (map verified rs) ! j = verified (rs ! j) @ replicate m (- 1)"
        using pad_rows_nth [of j "map verified rs" "- 1"] assms(1) j by auto
      have "copy_slice (length (verified (rs ! j))) (verified (rs ! j) @ replicate m (- 1)) = Inr (verified (rs ! j))"
        by (simp add: copy_slice_def)
      then show ?thesis using old l m by (auto simp: f_def vt update_row_def full_def row_def Let_def)
    next
      case False
      then have vt: "verified_tokens r = None" using assms(5) by simp
      have "length (verified (rs ! j)) \<le> Max (set (map length (map verified rs)))" using assms(1) j by (intro Max_ge) auto
      then have "verified (rs ! j) = []" using False by simp
      then show ?thesis using old l by (auto simp: f_def vt update_row_def full_def row_def Let_def)
    qed
  qed
  have nl: "length new_lens = length ids" "new_lens ! j = lens ! j + length (verified (rs ! j)) + 1" if "j < length ids" for j
    using assms(1,2,5) that by (simp_all add: new_lens_def)
  have ln: "length new_lens = length ids" using assms(1,2,5) by (simp add: new_lens_def)
  have rl: "length (row j) = new_lens ! j" if "j < length ids" for j using that nl assms(4) by (simp add: row_def)
  have "length (row j) \<le> Max (set new_lens)" if "j < length ids" for j
    unfolding rl [OF that] using that ln by (intro Max_ge) auto
  then have fl: "new_lens ! j \<le> length (full j)" "take (new_lens ! j) (full j) = row j" if "j < length ids" for j
    using that rl [OF that, symmetric] by (simp_all add: full_def)
  have "update_input_ids_with_padding pad ids r lens = Inr (map full [0..<length ids], new_lens)"
    unfolding update_input_ids_with_padding_def Let_def new_lens_def [symmetric] f_def [symmetric]
    using sequence_results_ok [of "length ids" f full] rowj assms(3) ln by auto
  then show ?thesis using nl fl ln by (intro exI [of _ "map full [0..<length ids]"] exI [of _ new_lens]) (simp add: row_def)
qed

text \<open>One item per sequence: its logits, its length and the leaf paths of its tree.\<close>

definition step_items :: "spec_tree list \<Rightarrow> real list list list \<Rightarrow> nat list \<Rightarrow> (real list list \<times> nat \<times> (int \<times> int \<times> int) list list) list" where
  "step_items trees logits lens =
     map (\<lambda>i. (logits ! i, lens ! i, map (map (node_ref (trees ! i) (linearize_tree_with_positions (trees ! i)))) (get_all_leaf_node_paths [] (root (trees ! i)))))
       [0..<length trees]"

definition step_inputs_ok ::
  "(int list \<Rightarrow> real list) \<Rightarrow> (nat \<Rightarrow> real list \<Rightarrow> real list) \<Rightarrow> nat \<Rightarrow> spec_tree list \<Rightarrow> real list list list \<Rightarrow> int list list \<Rightarrow> nat list \<Rightarrow> bool" where
  "step_inputs_ok lm process tree_len trees logits ids lens \<longleftrightarrow>
     length trees = length ids \<and>
     (\<forall>i < length ids. tree_logits lm (take (lens ! i) (ids ! i)) (trees ! i) (logits ! i) \<and> length (logits ! i) = tree_len + 1 \<and>
        (\<forall>row \<in> set (logits ! i). process i row \<noteq> [] \<and> argmax (process i row) = argmax row))"

inductive spec_run :: "(int list \<Rightarrow> real list) \<Rightarrow> int \<Rightarrow> int list list \<Rightarrow> nat list \<Rightarrow> int list list \<Rightarrow> nat list \<Rightarrow> nat \<Rightarrow> bool"
  for lm pad ids0 lens0 where
  start: "spec_run lm pad ids0 lens0 ids0 lens0 0"
| step: "spec_run lm pad ids0 lens0 ids lens n \<Longrightarrow> step_inputs_ok lm process tree_len trees logits ids lens \<Longrightarrow>
    extract_best_verified_paths_fixed process tree_len False (step_items trees logits lens) h = (Inr r, h') \<Longrightarrow>
    update_input_ids_with_padding pad ids r lens = Inr (ids', lens') \<Longrightarrow> spec_run lm pad ids0 lens0 ids' lens' (Suc n)"

lemma step_ok:
  assumes "step_inputs_ok lm process tree_len trees logits ids lens" and "length lens = length ids" and "ids \<noteq> []"
    and "\<forall>j < length ids. lens ! j \<le> length (ids ! j)"
  shows "\<exists>r h' ids' lens'. extract_best_verified_paths_fixed process tree_len False (step_items trees logits lens) h = (Inr r, h') \<and>
     update_input_ids_with_padding pad ids r lens = Inr (ids', lens') \<and> length ids' = length ids \<and> length lens' = length ids \<and>
     (\<forall>j < length ids. lens' ! j \<le> length (ids' ! j) \<and>
        (\<exists>k > 0. lens' ! j = lens ! j + k \<and>
           take (lens' ! j) (ids' ! j) = take (lens ! j) (ids ! j) @ greedy (best_token lm) (take (lens ! j) (ids ! j)) k))"
proof -
  let ?P = "\<lambda>j r. \<exists>k > 0. verified r @ [llm_token r] = greedy (best_token lm) (take (lens ! j) (ids ! j)) k"
  have len: "length trees = length ids" using assms(1) by (simp add: step_inputs_ok_def)
  have "\<forall>j < length (step_items trees logits lens). \<exists>r w. (case step_items trees logits lens ! j of (logits, n, ps) \<Rightarrow>
     extract_row (process (0 + j)) logits tree_len n False ps) = Inr (r, w) \<and> ?P (0 + j) r"
  proof (intro allI impI)
    fix j assume "j < length (step_items trees logits lens)"
    then have j: "j < length ids" "j < length trees" using len by (simp_all add: step_items_def)
    have i: "tree_logits lm (take (lens ! j) (ids ! j)) (trees ! j) (logits ! j)" "length (logits ! j) = tree_len + 1"
      "\<forall>row \<in> set (logits ! j). process j row \<noteq> [] \<and> argmax (process j row) = argmax row"
      using assms(1) j(1) unfolding step_inputs_ok_def by blast+
    have it: "step_items trees logits lens ! j = (logits ! j, lens ! j,
        map (map (node_ref (trees ! j) (linearize_tree_with_positions (trees ! j)))) (get_all_leaf_node_paths [] (root (trees ! j))))"
      using j(2) by (simp add: step_items_def)
    show "\<exists>r w. (case step_items trees logits lens ! j of (logits, n, ps) \<Rightarrow>
       extract_row (process (0 + j)) logits tree_len n False ps) = Inr (r, w) \<and> ?P (0 + j) r"
      unfolding it prod.case add_0 using row_exact [OF i, of "lens ! j"] by blast
  qed
  from extract_rows_ok [where P = ?P, OF this, of h] obtain rs h' where
    rs: "extract_rows process tree_len False 0 (step_items trees logits lens) h = (Inr rs, h')" "length rs = length ids"
    "\<forall>j < length ids. ?P j (rs ! j)" using len by (auto simp: step_items_def)
  define r where "r = \<lparr>verified_tokens = (if 0 < Max (set (map length (map verified rs))) then Some (pad_rows (- 1) (map verified rs)) else None),
                  kv_positions = pad_rows (- 1) (map positions rs), llm_tokens = map llm_token rs, valid_lengths = map length (map verified rs)\<rparr>"
  have ex: "extract_best_verified_paths_fixed process tree_len False (step_items trees logits lens) h = (Inr r, h')"
  proof -
    have "rs \<noteq> []" using rs(2) assms(3) by auto
    then show ?thesis unfolding extract_best_verified_paths_fixed_def rs(1) r_def Let_def prod.case sum.case by (simp only: if_False)
  qed
  from update_ok [OF rs(2) assms(2,3,4) r_def, of pad] obtain ids' lens' where
    u: "update_input_ids_with_padding pad ids r lens = Inr (ids', lens')" "length ids' = length ids" "length lens' = length ids"
    "\<forall>j < length ids. lens' ! j = lens ! j + length (verified (rs ! j)) + 1 \<and> lens' ! j \<le> length (ids' ! j) \<and>
        take (lens' ! j) (ids' ! j) = take (lens ! j) (ids ! j) @ verified (rs ! j) @ [llm_token (rs ! j)]" by blast
  have "\<exists>k > 0. lens' ! j = lens ! j + k \<and>
      take (lens' ! j) (ids' ! j) = take (lens ! j) (ids ! j) @ greedy (best_token lm) (take (lens ! j) (ids ! j)) k" if j: "j < length ids" for j
  proof -
    obtain k where k: "0 < k" "verified (rs ! j) @ [llm_token (rs ! j)] = greedy (best_token lm) (take (lens ! j) (ids ! j)) k" using rs(3) j by blast
    have "k = length (verified (rs ! j)) + 1" using arg_cong [OF k(2), of length] by simp
    then show ?thesis using k u(4) j by (intro exI [of _ k]) (metis add.assoc)
  qed
  then show ?thesis using ex u by (intro exI [of _ r] exI [of _ h'] exI [of _ ids'] exI [of _ lens']) blast
qed


lemma spec_run_greedy:
  assumes "spec_run lm pad ids0 lens0 ids lens n" and "length lens0 = length ids0" and "ids0 \<noteq> []" and "\<forall>j < length ids0. lens0 ! j \<le> length (ids0 ! j)"
  shows "length ids = length ids0 \<and> length lens = length ids0 \<and>
     (\<forall>j < length ids0. lens ! j \<le> length (ids ! j) \<and> (\<exists>k \<ge> n. lens ! j = lens0 ! j + k \<and>
        take (lens ! j) (ids ! j) = take (lens0 ! j) (ids0 ! j) @ greedy (best_token lm) (take (lens0 ! j) (ids0 ! j)) k))"
  using assms(1)
proof (induction rule: spec_run.induct)
  case start
  then show ?case using assms by simp
next
  case (step ids lens n process tree_len trees logits h r h' ids' lens')
  have len: "length ids = length ids0" "length lens = length ids" "ids \<noteq> []" "\<forall>j < length ids. lens ! j \<le> length (ids ! j)"
    using step.IH assms(3) by auto
  have st: "length ids' = length ids" "length lens' = length ids"
    "\<And>j. j < length ids \<Longrightarrow> lens' ! j \<le> length (ids' ! j) \<and> (\<exists>k > 0. lens' ! j = lens ! j + k \<and>
        take (lens' ! j) (ids' ! j) = take (lens ! j) (ids ! j) @ greedy (best_token lm) (take (lens ! j) (ids ! j)) k)"
    using step_ok [OF step.hyps(2) len(2-4), of h pad] step.hyps(3,4) by auto
  have "\<exists>k \<ge> Suc n. lens' ! j = lens0 ! j + k \<and> take (lens' ! j) (ids' ! j) = take (lens0 ! j) (ids0 ! j) @ greedy (best_token lm) (take (lens0 ! j) (ids0 ! j)) k"
    if j: "j < length ids0" for j
  proof -
    have j': "j < length ids" using j len(1) by simp
    obtain k where k: "n \<le> k" "lens ! j = lens0 ! j + k"
      "take (lens ! j) (ids ! j) = take (lens0 ! j) (ids0 ! j) @ greedy (best_token lm) (take (lens0 ! j) (ids0 ! j)) k" using step.IH j by blast
    obtain k' where k': "0 < k'" "lens' ! j = lens ! j + k'"
      "take (lens' ! j) (ids' ! j) = take (lens ! j) (ids ! j) @ greedy (best_token lm) (take (lens ! j) (ids ! j)) k'" using st(3) [OF j'] by blast
    have "take (lens' ! j) (ids' ! j) = take (lens0 ! j) (ids0 ! j) @ greedy (best_token lm) (take (lens0 ! j) (ids0 ! j)) (k + k')"
      unfolding k'(3) k(3) greedy_add by simp
    then show ?thesis using k(1,2) k'(1,2) by (intro exI [of _ "k + k'"]) simp
  qed
  then show ?case using st len(1) by auto
qed


lemma row_of_le: "row_of (linearize_tree_with_positions t) q \<le> length (lin_nodes (linearize_tree_with_positions t))"
  using linearize_ok(1) [of t] by (auto simp: row_of_def positions_ok_def split: option.splits)

definition tree_with_one :: spec_tree where
  "tree_with_one = snd (add_layer [[]] [[(1, 1/2), (0, 1/2)]] (new_tree 7))"

lemma constant_logits: "tree_logits (\<lambda>c. [0, 1]) ctx tree_with_one (replicate 3 [0, 1])"
proof -
  have "length (lin_nodes (linearize_tree_with_positions tree_with_one)) = 2" by code_simp
  then have l: "row_of (linearize_tree_with_positions tree_with_one) q < 3" for q using row_of_le [of tree_with_one q] by simp
  show ?thesis using l by (simp add: tree_logits_def)
qed



end
