(* ===== verification/SpecSampling.thy ===== *)
theory SpecSampling
  imports SpecVerify
begin

text \<open>
  Sampling verification and tree shapes: \<^verbatim>\<open>models/llama/spec_decoding_verify.py\<close> (rejection sampling),
  the sampling branch of \<^verbatim>\<open>speculative_model.py\<close> and \<^verbatim>\<open>spec_decoding_tree_shape.py\<close> (budgeted
  expansion and Sequoia widths). Probabilities are real numbers. The random generator is a parameter:
  \<open>u i\<close> is the uniform number of edge \<open>i\<close>, \<open>draw i w\<close> the index \<open>torch.multinomial\<close> returns for the
  weights \<open>w\<close>; so is \<open>probs_of\<close>, the softmax of the processed and tempered logits.
\<close>

section \<open>Rejection sampling\<close>

record edge_result =
  edge_accepted :: bool
  sampled_token :: nat

definition residual_distribution :: "real list \<Rightarrow> real list \<Rightarrow> real list" where
  "residual_distribution p_target p_draft =
     (let residual = map2 (\<lambda>p q. max (p - q) 0) p_target p_draft;
          s = sum_list residual
      in if s \<le> 0 then map (\<lambda>p. p / max (sum_list p_target) (1 / 10 ^ 20)) p_target
         else map (\<lambda>r. r / s) residual)"

definition accept_prob :: "real list \<Rightarrow> real list \<Rightarrow> nat \<Rightarrow> real" where
  "accept_prob p_target p_draft tok = min (p_target ! tok / p_draft ! tok) 1"

definition verify_edge :: "real list \<Rightarrow> real list \<Rightarrow> int \<Rightarrow> real \<Rightarrow> (real list \<Rightarrow> nat) \<Rightarrow> edge_result result" where
  "verify_edge p_target p_draft draft_token u draw =
     (if length p_target \<noteq> length p_draft then Inl AssertionError
      else if draft_token < 0 \<or> int (length p_target) \<le> draft_token then Inl AssertionError
      else
        let tok = nat draft_token in
        if p_draft ! tok \<le> 0 then Inr \<lparr>edge_accepted = True, sampled_token = tok\<rparr>
        else if u < accept_prob p_target p_draft tok then Inr \<lparr>edge_accepted = True, sampled_token = tok\<rparr>
        else Inr \<lparr>edge_accepted = False, sampled_token = draw (residual_distribution p_target p_draft)\<rparr>)"

fun verify_path_loop ::
  "(nat \<Rightarrow> real) \<Rightarrow> (nat \<Rightarrow> real list \<Rightarrow> nat) \<Rightarrow> nat \<Rightarrow> (real list \<times> real list \<times> int) list \<Rightarrow> nat list \<Rightarrow> nat \<Rightarrow>
   (nat list \<times> nat \<times> bool) result" where
  "verify_path_loop u draw i [] committed n = Inr (committed, n, True)"
| "verify_path_loop u draw i ((p, q, tok) # edges) committed n =
     (case verify_edge p q tok (u i) (draw i) of
        Inl e \<Rightarrow> Inl e
      | Inr r \<Rightarrow>
          if edge_accepted r then verify_path_loop u draw (Suc i) edges (committed @ [sampled_token r]) (n + 1)
          else Inr (committed @ [sampled_token r], n, False))"

definition verify_path ::
  "(nat \<Rightarrow> real) \<Rightarrow> (nat \<Rightarrow> real list \<Rightarrow> nat) \<Rightarrow> real list list \<Rightarrow> real list list \<Rightarrow> int list \<Rightarrow> (nat list \<times> nat) result" where
  "verify_path u draw target_probs draft_probs draft_tokens =
     (let path_len = length target_probs in
      if length draft_tokens \<noteq> path_len then Inl AssertionError
      else
        (case verify_path_loop u draw 0 (zip target_probs (zip draft_probs draft_tokens)) [] 0 of
           Inl e \<Rightarrow> Inl e
         | Inr (committed, n, all_accepted) \<Rightarrow>
             if \<not> all_accepted then Inr (committed, n)
             else if length draft_probs < path_len then Inl IndexError
             else if path_len = 0 then Inl IndexError
             else Inr (committed @ [draw path_len (last target_probs)], n)))"

section \<open>Sampling branch of the verifier\<close>

text \<open>A path as a list of (token, position, position of the parent, probability, siblings).\<close>

type_synonym sample_node = "int \<times> int \<times> int \<times> real \<times> (int \<times> real) list"

definition sample_ref :: "spec_tree \<Rightarrow> lin_state \<Rightarrow> nat list \<Rightarrow> sample_node" where
  "sample_ref t st q =
     (case node_ref t st q of (tok, pos, ppos) \<Rightarrow>
        (tok, pos, ppos, probability (the (node_at (root t) q)),
         map (\<lambda>c. (token_id c, probability c)) (children (the (node_at (root t) (butlast q))))))"

definition path_log_prob :: "sample_node list \<Rightarrow> real option" where
  "path_log_prob path =
     (if list_ex (\<lambda>(tok, pos, ppos, prob, sibs). prob \<le> 0) path then None
      else Some (sum_list (map (\<lambda>(tok, pos, ppos, prob, sibs). ln prob) path)))"

text \<open>The usable path of greatest log-probability, the first of them on ties.\<close>

fun best_sample_path :: "nat \<Rightarrow> sample_node list list \<Rightarrow> (real \<times> sample_node list) option \<Rightarrow> (real \<times> sample_node list) option" where
  "best_sample_path seq_len [] best = best"
| "best_sample_path seq_len (path # rest) best =
     (let best' =
        (if path = [] then best
         else (case path_log_prob path of
                 None \<Rightarrow> best
               | Some lp \<Rightarrow>
                   (case last path of (tok, pos, ppos, prob, sibs) \<Rightarrow>
                      if int seq_len \<le> ppos + 1 then best
                      else (case best of None \<Rightarrow> Some (lp, path) | Some (b, _) \<Rightarrow> if b < lp then Some (lp, path) else best))))
      in best_sample_path seq_len rest best')"

definition draft_row :: "nat \<Rightarrow> (int \<times> real) list \<Rightarrow> real list" where
  "draft_row vocab sibs =
     foldl (\<lambda>row (tok, prob). if 0 \<le> tok \<and> tok < int vocab then row[nat tok := max prob (row ! nat tok)] else row)
       (replicate vocab 0) sibs"

definition sample_row ::
  "(nat \<Rightarrow> real) \<Rightarrow> (nat \<Rightarrow> real list \<Rightarrow> nat) \<Rightarrow> (real list \<Rightarrow> real list) \<Rightarrow> real list list \<Rightarrow> nat \<Rightarrow> nat \<Rightarrow> nat \<Rightarrow> bool \<Rightarrow>
   sample_node list list \<Rightarrow> row_result result" where
  "sample_row u draw probs_of logits vocab tree_len actual_len is_first node_paths =
     (let seq_len = length logits;
          rfp = (if is_first then actual_len else seq_len - tree_len);
          root_position = int actual_len - 1
      in case best_sample_path seq_len node_paths None of
           None \<Rightarrow>
             let rows = pyslice (rfp - 1) rfp logits;
                 rows' = (if rows = [] \<or> hd rows = [] then pyslice (seq_len - 1) seq_len logits else rows)
             in if rows' = [] then Inl IndexError
                else Inr \<lparr>verified = [], positions = [root_position], llm_token = int (draw 0 (probs_of (hd rows')))\<rparr>
         | Some (lp, path) \<Rightarrow>
             if list_ex (\<lambda>(tok, pos, ppos, prob, sibs). int seq_len \<le> ppos + 1) path then Inl IndexError
             else
               let target = map (\<lambda>(tok, pos, ppos, prob, sibs). probs_of (logits ! nat (ppos + 1))) path;
                   draft = map (\<lambda>(tok, pos, ppos, prob, sibs). draft_row vocab sibs) path;
                   tokens = map (\<lambda>(tok, pos, ppos, prob, sibs). tok) path;
                   path_positions = map (\<lambda>(tok, pos, ppos, prob, sibs). root_position + pos + 1) path
               in (case verify_path u draw target draft tokens of
                     Inl e \<Rightarrow> Inl e
                   | Inr (committed, n) \<Rightarrow>
                       Inr \<lparr>verified = map int (take n committed), positions = root_position # take n path_positions,
                            llm_token = int (if n < length committed then committed ! n else last committed)\<rparr>))"

section \<open>Budgeted expansion\<close>

text \<open>Log-probabilities: a real number, or minus infinity for an impossible path.\<close>

datatype xreal = NegInf | Fin real | PosInf

instantiation xreal :: linorder
begin

fun less_eq_xreal :: "xreal \<Rightarrow> xreal \<Rightarrow> bool" where
  "less_eq_xreal NegInf y = True"
| "less_eq_xreal (Fin x) NegInf = False"
| "less_eq_xreal (Fin x) (Fin y) = (x \<le> y)"
| "less_eq_xreal (Fin x) PosInf = True"
| "less_eq_xreal PosInf PosInf = True"
| "less_eq_xreal PosInf y = False"

definition less_xreal :: "xreal \<Rightarrow> xreal \<Rightarrow> bool" where
  "less_xreal x y \<longleftrightarrow> x \<le> y \<and> \<not> y \<le> x"

instance
proof
  fix x y z :: xreal
  show "x < y \<longleftrightarrow> x \<le> y \<and> \<not> y \<le> x" by (rule less_xreal_def)
  show "x \<le> x" by (cases x) auto
  show "x \<le> y \<Longrightarrow> y \<le> z \<Longrightarrow> x \<le> z" by (cases x; cases y; cases z) auto
  show "x \<le> y \<Longrightarrow> y \<le> x \<Longrightarrow> x = y" by (cases x; cases y) auto
  show "x \<le> y \<or> y \<le> x" by (cases x; cases y) auto
qed

end

fun neg_xreal :: "xreal \<Rightarrow> xreal" where
  "neg_xreal NegInf = PosInf" | "neg_xreal (Fin x) = Fin (- x)" | "neg_xreal PosInf = NegInf"

lemma neg_xreal_le [simp]: "neg_xreal x \<le> neg_xreal y \<longleftrightarrow> y \<le> x"
  by (cases x; cases y) auto

record 'h frontier_node =
  node_handle :: 'h
  path_lp :: xreal
  frontier_depth :: nat

definition select_topk_by_logprob :: "'h frontier_node list \<Rightarrow> int \<Rightarrow> 'h frontier_node list" where
  "select_topk_by_logprob frontier budget =
     (if budget \<le> 0 then []
      else if int (length frontier) \<le> budget then frontier
      else take (nat budget) (sort_key (\<lambda>n. neg_xreal (path_lp n)) frontier))"

definition prune_below_threshold :: "'h frontier_node list \<Rightarrow> real \<Rightarrow> 'h frontier_node list" where
  "prune_below_threshold frontier min_log_prob = filter (\<lambda>n. Fin min_log_prob \<le> path_lp n) frontier"

definition budgeted_expand_plan :: "'h frontier_node list \<Rightarrow> int \<Rightarrow> real option \<Rightarrow> 'h frontier_node list" where
  "budgeted_expand_plan frontier budget min_log_prob =
     select_topk_by_logprob
       (case min_log_prob of None \<Rightarrow> frontier | Some m \<Rightarrow> prune_below_threshold frontier m) budget"

definition child_logprob :: "xreal \<Rightarrow> real \<Rightarrow> xreal" where
  "child_logprob parent prob =
     (if prob \<le> 0 then NegInf
      else (case parent of NegInf \<Rightarrow> NegInf | Fin x \<Rightarrow> Fin (x + ln prob) | PosInf \<Rightarrow> PosInf))"


section \<open>Sequoia widths\<close>

definition reach_prob :: "real list \<Rightarrow> nat list \<Rightarrow> nat \<Rightarrow> real" where
  "reach_prob acc widths depth =
     (if list_ex (\<lambda>d. widths ! d = 0) [0..<depth] then 0
      else prod_list (map (\<lambda>d. 1 - (1 - acc ! d) ^ (widths ! d)) [0..<depth]))"

text \<open>The size of the subtree below one new node; the loop stops at the first depth of width 0.\<close>

fun subtree_loop :: "nat \<Rightarrow> nat \<Rightarrow> nat list \<Rightarrow> nat" where
  "subtree_loop subtree running [] = subtree"
| "subtree_loop subtree running (w # ws) =
     (if running * w = 0 then subtree else subtree_loop (subtree + running * w) (running * w) ws)"

definition bump_cost :: "nat list \<Rightarrow> nat \<Rightarrow> nat" where
  "bump_cost widths depth =
     prod_list (map (\<lambda>w. max w 1) (take depth widths)) * subtree_loop 1 1 (drop (Suc depth) widths)"

definition marginal_ratio :: "real list \<Rightarrow> nat list \<Rightarrow> nat \<Rightarrow> real" where
  "marginal_ratio acc widths depth =
     (if acc ! depth \<le> 0 then 0
      else acc ! depth * (1 - acc ! depth) ^ (widths ! depth) * reach_prob acc widths depth / real (max (bump_cost widths depth) 1))"

text \<open>\<open>heapq\<close>: the smallest pair is popped, in lexicographic order.\<close>

definition heap_min :: "(real \<times> nat) list \<Rightarrow> real \<times> nat" where
  "heap_min h = foldl (\<lambda>b x. if fst x < fst b \<or> fst x = fst b \<and> snd x < snd b then x else b) (hd h) (tl h)"

definition push_ratio :: "real list \<Rightarrow> nat list \<Rightarrow> (real \<times> nat) list \<Rightarrow> nat \<Rightarrow> (real \<times> nat) list" where
  "push_ratio acc widths h d =
     (if d < length widths \<and> 0 < marginal_ratio acc widths d then h @ [(- marginal_ratio acc widths d, d)] else h)"

definition stale :: "real list \<Rightarrow> nat list \<Rightarrow> real \<times> nat \<Rightarrow> bool" where
  "stale acc widths e \<longleftrightarrow> marginal_ratio acc widths (snd e) < - fst e - 1 / 10 ^ 12"

lemma heap_min_in: "h \<noteq> [] \<Longrightarrow> heap_min h \<in> set h"
proof -
  have "foldl (\<lambda>b x. if fst x < fst b \<or> fst x = fst b \<and> snd x < snd b then x else b) b xs \<in> insert b (set xs)" for b and xs :: "(real \<times> nat) list"
    by (induction xs arbitrary: b) auto
  from this [of "hd h" "tl h"] show "h \<noteq> [] \<Longrightarrow> ?thesis" by (cases h) (auto simp: heap_min_def)
qed

lemma subtree_loop_ge: "subtree \<le> subtree_loop subtree running ws"
proof (induction subtree running ws rule: subtree_loop.induct)
  case (2 subtree running w ws)
  then show ?case by (cases "running * w = 0") auto
qed simp

lemma bump_cost_pos: "0 < bump_cost widths depth"
proof -
  have "0 < prod_list (map (\<lambda>w. max w 1) ws)" for ws :: "nat list" by (induction ws) auto
  then show ?thesis using subtree_loop_ge [of 1 1 "drop (Suc depth) widths"] by (simp add: bump_cost_def)
qed

function sequoia_loop :: "real list \<Rightarrow> (real \<times> nat) list \<Rightarrow> nat \<Rightarrow> nat list \<Rightarrow> nat list" where
  "sequoia_loop acc heap remaining widths =
     (if remaining = 0 \<or> heap = [] then widths
      else
        let e = heap_min heap; d = snd e; rest = remove1 e heap; fresh = marginal_ratio acc widths d in
        if - fst e \<le> 0 then widths
        else if stale acc widths e then
          sequoia_loop acc (if 0 < fresh then rest @ [(- fresh, d)] else rest) remaining widths
        else if remaining < bump_cost widths d then sequoia_loop acc rest remaining widths
        else
          let w' = widths[d := widths ! d + 1] in
          sequoia_loop acc (push_ratio acc w' (push_ratio acc w' rest d) (Suc d)) (remaining - bump_cost widths d) w')"
  by pat_completeness auto
termination
proof (relation "measures [\<lambda>(acc, heap, remaining, widths). remaining,
    \<lambda>(acc, heap, remaining, widths). length (filter (stale acc widths) heap), \<lambda>(acc, heap, remaining, widths). length heap]", goal_cases)
  case 1
  then show ?case by simp
next
  case (2 acc heap remaining widths e d rest fresh)
  have e: "e \<in> set heap" using 2 heap_min_in by auto
  have "length (filter (stale acc widths) rest) < length (filter (stale acc widths) heap)"
  proof -
    have in_f: "e \<in> set (filter (stale acc widths) heap)" using e 2 by simp
    then show ?thesis unfolding 2(4) filter_remove1 length_remove1 using length_pos_if_in_set [OF in_f] by simp
  qed
  moreover have "\<not> stale acc widths (- fresh, d)" using 2 by (simp add: stale_def)
  ultimately show ?case by simp
next
  case (3 acc heap remaining widths e d rest fresh)
  have e: "e \<in> set heap" using 3 heap_min_in by auto
  have "length rest < length heap" using e 3 by (simp add: length_remove1 length_pos_if_in_set)
  moreover have "length (filter (stale acc widths) rest) = length (filter (stale acc widths) heap)" using 3 by (simp add: filter_remove1)
  ultimately show ?case by simp
next
  case (4 acc heap remaining widths e d rest fresh w')
  then show ?case using bump_cost_pos [of widths d] by simp
qed

declare sequoia_loop.simps [simp del]

definition sequoia_optimize_widths :: "real list \<Rightarrow> int \<Rightarrow> int option \<Rightarrow> nat list" where
  "sequoia_optimize_widths per_depth_accept max_total_nodes depth_limit =
     (let depth = (case depth_limit of None \<Rightarrow> int (length per_depth_accept) | Some d \<Rightarrow> min d (int (length per_depth_accept))) in
      if depth \<le> 0 then []
      else
        let w0 = replicate (nat depth) 0;
            w = sequoia_loop per_depth_accept [(- marginal_ratio per_depth_accept w0 0, 0)] (nat max_total_nodes) w0
        in rev (dropWhile (\<lambda>x. x = 0) (rev w)))"

section \<open>Rejection sampling preserves the target\<close>

definition distribution :: "real list \<Rightarrow> bool" where
  "distribution p \<longleftrightarrow> (\<forall>x \<in> set p. 0 \<le> x) \<and> sum_list p = 1"

lemma sum_list_nth: "sum_list (map f [0..<length xs]) = (\<Sum>i<length xs. f i)"
  by (simp add: interv_sum_list_conv_sum_set_nat atLeast0LessThan)

lemma sum_list_as_sum: "sum_list xs = (\<Sum>i<length xs. xs ! i :: real)"
  by (simp add: sum_list_sum_nth atLeast0LessThan)

text \<open>The mass the target has in excess of the draft equals the mass the draft has in excess.\<close>

lemma excess_mass:
  fixes p q :: "real list"
  assumes "length p = length q" and "sum_list p = sum_list q"
  shows "(\<Sum>i<length p. max (p ! i - q ! i) 0) = (\<Sum>i<length p. max (q ! i - p ! i) 0)"
proof -
  have "(\<Sum>i<length p. max (p ! i - q ! i) 0) - (\<Sum>i<length p. max (q ! i - p ! i) 0) = (\<Sum>i<length p. p ! i - q ! i)"
    unfolding sum_subtractf [symmetric] by (intro sum.cong) auto
  also have "\<dots> = 0" using assms by (simp add: sum_subtractf sum_list_as_sum)
  finally show ?thesis by simp
qed

lemma residual_nth:
  assumes "length p = length q" and "i < length p" and "0 < (\<Sum>i<length p. max (p ! i - q ! i) 0)"
  shows "residual_distribution p q ! i = max (p ! i - q ! i) 0 / (\<Sum>i<length p. max (p ! i - q ! i) 0)"
proof -
  have "sum_list (map2 (\<lambda>p q. max (p - q) 0) p q) = (\<Sum>i<length p. max (p ! i - q ! i) 0)"
    using assms(1) by (simp add: sum_list_as_sum)
  then show ?thesis using assms by (simp add: residual_distribution_def Let_def)
qed

lemma residual_is_distribution:
  assumes "distribution p" and "length p = length q"
  shows "distribution (residual_distribution p q)"
proof -
  let ?r = "map2 (\<lambda>p q. max (p - q) 0) p q"
  have nn: "\<forall>x \<in> set ?r. 0 \<le> x" by auto
  show ?thesis
  proof (cases "sum_list ?r \<le> 0")
    case True
    then have "residual_distribution p q = p" using assms(1) by (simp add: residual_distribution_def distribution_def Let_def map_idI)
    then show ?thesis using assms(1) by simp
  next
    case False
    then have e: "residual_distribution p q = map (\<lambda>r. r * inverse (sum_list ?r)) ?r" by (simp add: residual_distribution_def Let_def divide_inverse)
    have "sum_list (map (\<lambda>r. r * inverse (sum_list ?r)) ?r) = sum_list ?r * inverse (sum_list ?r)"
      using sum_list_mult_const [of id "inverse (sum_list ?r)" ?r] by simp
    then show ?thesis using False nn unfolding distribution_def e by auto
  qed
qed

lemma accepted_mass:
  assumes "0 \<le> q ! i" and "0 \<le> p ! i"
  shows "q ! i * accept_prob p q i = min (q ! i) (p ! i)" and "q ! i * (1 - accept_prob p q i) = max (q ! i - p ! i) 0"
  using assms by (cases "q ! i = 0"; auto simp: accept_prob_def min_def field_simps)+

text \<open>
  C21 Rejection sampling of one edge preserves the target distribution. An edge with positive draft
  probability is accepted exactly when the uniform number is below \<open>min(1, p/q)\<close>, and otherwise the
  token is drawn from the residual, which is a probability distribution; when the draft token itself
  has the draft distribution, the token that comes out has exactly the target distribution.
\<close>
theorem rejection_sampling_exact:
  assumes "distribution p" and "distribution q" and "length p = length q"
  shows "distribution (residual_distribution p q) \<and>
     (\<forall>d < length p. \<forall>u draw. 0 < q ! d \<longrightarrow>
        verify_edge p q (int d) u draw =
          Inr (if u < accept_prob p q d then \<lparr>edge_accepted = True, sampled_token = d\<rparr>
               else \<lparr>edge_accepted = False, sampled_token = draw (residual_distribution p q)\<rparr>)) \<and>
     (\<forall>t < length p. q ! t * accept_prob p q t +
        (\<Sum>d<length p. q ! d * (1 - accept_prob p q d)) * residual_distribution p q ! t = p ! t)"
proof (intro conjI allI impI)
  show "distribution (residual_distribution p q)" using assms(1,3) by (rule residual_is_distribution)
next
  fix d u draw assume "d < length p" "0 < q ! d"
  then show "verify_edge p q (int d) u draw = Inr (if u < accept_prob p q d then \<lparr>edge_accepted = True, sampled_token = d\<rparr>
               else \<lparr>edge_accepted = False, sampled_token = draw (residual_distribution p q)\<rparr>)"
    using assms(3) by (simp add: verify_edge_def Let_def)
next
  fix t assume t: "t < length p"
  have nn: "0 \<le> p ! i" "0 \<le> q ! i" if "i < length p" for i using assms that by (auto simp: distribution_def)
  define S where "S = (\<Sum>i<length p. max (p ! i - q ! i) 0)"
  have rej: "(\<Sum>d<length p. q ! d * (1 - accept_prob p q d)) = S"
    unfolding S_def using excess_mass [of p q] assms accepted_mass(2) nn by (simp add: distribution_def)
  have "max (p ! t - q ! t) 0 \<le> S" unfolding S_def using t by (intro member_le_sum) auto
  then have "S * residual_distribution p q ! t = max (p ! t - q ! t) 0"
    using residual_nth [OF assms(3) t] unfolding S_def [symmetric] by (cases "0 < S") auto
  then show "q ! t * accept_prob p q t + (\<Sum>d<length p. q ! d * (1 - accept_prob p q d)) * residual_distribution p q ! t = p ! t"
    unfolding rej using accepted_mass(1) nn [OF t] by simp
qed

theorem rejection_sampling_exact_witness:
  "distribution (residual_distribution [1/2, 1/2] [3/4, 1/4])"
  using rejection_sampling_exact [of "[1/2, 1/2]" "[3/4, 1/4]"] by (simp add: distribution_def)

text \<open>
  A draft token chosen deterministically does not keep the target distribution: the verifier takes
  the path of greatest draft probability instead of drawing it. With target probabilities one half
  each and draft probabilities 3/4 and 1/4 the more likely draft token comes out with probability 2/3,
  since the residual puts no mass on it.
\<close>
theorem top_path_sampling_is_biased:
  "accept_prob [1/2, 1/2] [3/4, 1/4] 0 + (1 - accept_prob [1/2, 1/2] [3/4, 1/4] 0) * residual_distribution [1/2, 1/2] [3/4, 1/4] ! 0 = 2/3 \<and>
   (case best_sample_path 2 [[(0, 0, - 1, 3/4, [(0, 3/4), (1, 1/4)])], [(1, 1, - 1, 1/4, [(0, 3/4), (1, 1/4)])]] None of
      None \<Rightarrow> False | Some (lp, path) \<Rightarrow> fst (hd path) = 0)"
  by (simp add: accept_prob_def residual_distribution_def path_log_prob_def)

section \<open>Verifying a path\<close>

lemma verify_path_loop_spec:
  assumes "verify_path_loop u draw i edges committed n = Inr (out, m, all_ok)"
  shows "\<exists>k x. m = n + k \<and> k \<le> length edges \<and>
     (if all_ok then k = length edges \<and> out = committed @ map (\<lambda>(p, q, tok). nat tok) edges
      else k < length edges \<and> out = committed @ map (\<lambda>(p, q, tok). nat tok) (take k edges) @ [draw (i + k) (residual_distribution (fst (edges ! k)) (fst (snd (edges ! k))))]) \<and>
     (\<forall>j < k. \<exists>r. verify_edge (fst (edges ! j)) (fst (snd (edges ! j))) (snd (snd (edges ! j))) (u (i + j)) (draw (i + j)) = Inr r \<and> edge_accepted r)"
  using assms
proof (induction edges arbitrary: i committed n)
  case (Cons e edges)
  obtain p q tok where e: "e = (p, q, tok)" by (cases e) auto
  obtain r where r: "verify_edge p q tok (u i) (draw i) = Inr r" using Cons.prems by (auto simp: e split: sum.splits)
  have tok: "sampled_token r = nat tok" if "edge_accepted r"
    using r that by (auto simp: verify_edge_def Let_def split: if_splits)
  show ?case
  proof (cases "edge_accepted r")
    case True
    with Cons.prems r have "verify_path_loop u draw (Suc i) edges (committed @ [nat tok]) (n + 1) = Inr (out, m, all_ok)" by (simp add: e tok)
    from Cons.IH [OF this] obtain k where k: "m = n + 1 + k" "k \<le> length edges"
      "if all_ok then k = length edges \<and> out = committed @ [nat tok] @ map (\<lambda>(p, q, tok). nat tok) edges
       else k < length edges \<and> out = committed @ [nat tok] @ map (\<lambda>(p, q, tok). nat tok) (take k edges) @ [draw (Suc i + k) (residual_distribution (fst (edges ! k)) (fst (snd (edges ! k))))]"
      "\<forall>j < k. \<exists>r. verify_edge (fst (edges ! j)) (fst (snd (edges ! j))) (snd (snd (edges ! j))) (u (Suc i + j)) (draw (Suc i + j)) = Inr r \<and> edge_accepted r"
      by auto
    have "\<forall>j < Suc k. \<exists>r. verify_edge (fst ((e # edges) ! j)) (fst (snd ((e # edges) ! j))) (snd (snd ((e # edges) ! j))) (u (i + j)) (draw (i + j)) = Inr r \<and> edge_accepted r"
      using k(4) r True by (auto simp: e nth_Cons split: nat.splits)
    then show ?thesis using k(1-3) by (intro exI [of _ "Suc k"]) (auto simp: e split: if_splits)
  next
    case False
    have s: "sampled_token r = draw i (residual_distribution p q)" using r False by (auto simp: verify_edge_def Let_def split: if_splits)
    have "out = committed @ [draw i (residual_distribution p q)] \<and> m = n \<and> \<not> all_ok" using Cons.prems r False by (auto simp: e s)
    then show ?thesis by (intro exI [of _ 0]) (simp add: e)
  qed
qed auto

text \<open>
  Verifying a path commits exactly the accepted prefix and one more token: every edge before the
  reported length was accepted and contributes its draft token; the last token is drawn from the
  residual of the first rejected edge, or from the target distribution of the last edge when all were
  accepted.
\<close>
theorem verify_path_shape:
  assumes "verify_path u draw target draft tokens = Inr (committed, k)"
  shows "k \<le> length target \<and> length committed = k + 1 \<and> take k committed = map nat (take k tokens) \<and>
     committed ! k = (if k < length target then draw k (residual_distribution (target ! k) (draft ! k)) else draw (length target) (last target)) \<and>
     (\<forall>j < k. \<exists>r. verify_edge (target ! j) (draft ! j) (tokens ! j) (u j) (draw j) = Inr r \<and> edge_accepted r)"
proof -
  define edges where "edges = zip target (zip draft tokens)"
  have lt: "length tokens = length target" using assms by (simp add: verify_path_def Let_def split: if_splits)
  obtain out m all_ok where w: "verify_path_loop u draw 0 edges [] 0 = Inr (out, m, all_ok)"
  proof (cases "verify_path_loop u draw 0 edges [] 0")
    case (Inl e)
    then show thesis using assms lt by (simp add: verify_path_def Let_def flip: edges_def)
  next
    case (Inr x)
    then show thesis using that by (cases x) auto
  qed
  from verify_path_loop_spec [OF w] obtain k' where k': "m = k'" "k' \<le> length edges"
    "if all_ok then k' = length edges \<and> out = map (\<lambda>(p, q, tok). nat tok) edges
      else k' < length edges \<and> out = map (\<lambda>(p, q, tok). nat tok) (take k' edges) @ [draw k' (residual_distribution (fst (edges ! k')) (fst (snd (edges ! k'))))]"
    "\<forall>j < k'. \<exists>r. verify_edge (fst (edges ! j)) (fst (snd (edges ! j))) (snd (snd (edges ! j))) (u j) (draw j) = Inr r \<and> edge_accepted r" by auto
  have le: "length edges = min (length target) (length draft)" using lt by (simp add: edges_def)
  have e: "edges ! j = (target ! j, draft ! j, tokens ! j)" if "j < length edges" for j using that lt by (simp add: edges_def)
  have toks: "map (\<lambda>(p, q, tok). nat tok) (take j edges) = map nat (take j tokens)" if "j \<le> length edges" for j
    using that lt by (intro nth_equalityI) (auto simp: e le)
  have acc: "\<forall>j < k'. \<exists>r. verify_edge (target ! j) (draft ! j) (tokens ! j) (u j) (draw j) = Inr r \<and> edge_accepted r"
  proof (intro allI impI)
    fix j assume j: "j < k'"
    then have "j < length edges" using k'(2) by simp
    from k'(4) [rule_format, OF j, unfolded e [OF this] fst_conv snd_conv]
    show "\<exists>r. verify_edge (target ! j) (draft ! j) (tokens ! j) (u j) (draw j) = Inr r \<and> edge_accepted r" .
  qed
  show ?thesis
  proof (cases all_ok)
    case True
    then have full: "k' = length edges" "out = map (\<lambda>(p, q, tok). nat tok) (take k' edges)" using k'(3) by auto
    have c: "length target \<le> length draft" "committed = out @ [draw (length target) (last target)]" "k = m"
      using assms lt w True by (auto simp: verify_path_def Let_def edges_def [symmetric] split: if_splits)
    then have "k' = length target" using full(1) le by simp
    moreover have "out = map nat (take k' tokens)" using full(2) toks k'(2) by simp
    ultimately show ?thesis using c(2,3) k'(1) acc lt by (simp add: nth_append)
  next
    case False
    then have part: "k' < length edges" "out = map (\<lambda>(p, q, tok). nat tok) (take k' edges) @ [draw k' (residual_distribution (target ! k') (draft ! k'))]"
      using k'(3) e [of k'] by auto
    have c: "committed = out" "k = m" using assms lt w False by (auto simp: verify_path_def Let_def edges_def [symmetric])
    have "out = map nat (take k' tokens) @ [draw k' (residual_distribution (target ! k') (draft ! k'))]" using part(2) toks k'(2) by simp
    moreover have "k' < length target" using part(1) le by simp
    ultimately show ?thesis using c k'(1) acc lt by (simp add: nth_append)
  qed
qed


theorem verify_path_shape_witness:
  "\<exists>committed k. verify_path (\<lambda>i. 1/2) (\<lambda>i w. 1) [[1, 0], [0, 1]] [[1, 0], [1, 0]] [0, 0] = Inr (committed, k) \<and>
     length committed = k + 1 \<and> take k committed = map nat (take k [0, 0])"
proof -
  have e: "verify_path (\<lambda>i. 1/2) (\<lambda>i w. 1) [[1, 0], [0, 1]] [[1, 0], [1, 0]] [0, 0] = Inr ([0, 1], 1)"
    by (simp add: verify_path_def verify_edge_def accept_prob_def Let_def)
  show ?thesis using verify_path_shape [OF e] e by blast
qed

section \<open>Budgeted plans keep the best nodes\<close>

text \<open>
  A budgeted plan keeps as many of the eligible frontier nodes as the budget allows and none that is
  left out has a greater path probability than one that is kept.
\<close>
theorem budgeted_plan_best:
  fixes frontier :: "'h frontier_node list" and bound :: "real option"
  defines "pool \<equiv> filter (\<lambda>n. case bound of None \<Rightarrow> True | Some m \<Rightarrow> Fin m \<le> path_lp n) frontier"
  shows "length (budgeted_expand_plan frontier budget bound) = min (length pool) (nat budget) \<and>
     mset (budgeted_expand_plan frontier budget bound) \<subseteq># mset pool \<and>
     (\<forall>n \<in> set (budgeted_expand_plan frontier budget bound).
        \<forall>m \<in># mset pool - mset (budgeted_expand_plan frontier budget bound). path_lp m \<le> path_lp n)"
proof -
  have pool: "(case bound of None \<Rightarrow> frontier | Some m \<Rightarrow> prune_below_threshold frontier m) = pool"
    by (auto simp: pool_def prune_below_threshold_def split: option.splits)
  define key where "key = (\<lambda>n :: 'h frontier_node. neg_xreal (path_lp n))"
  consider "budget \<le> 0" | "0 < budget" "int (length pool) \<le> budget" | "0 < budget" "budget < int (length pool)" by linarith
  then show ?thesis
  proof cases
    case 3
    let ?s = "sort_key key pool"
    have out: "budgeted_expand_plan frontier budget bound = take (nat budget) ?s"
      using 3 by (simp add: budgeted_expand_plan_def pool select_topk_by_logprob_def key_def)
    have split: "mset pool = mset (take (nat budget) ?s) + mset (drop (nat budget) ?s)"
      by (metis append_take_drop_id mset_append mset_sort)
    have "sorted (map key (take (nat budget) ?s) @ map key (drop (nat budget) ?s))"
      by (metis append_take_drop_id map_append sorted_sort_key)
    then have le: "key n \<le> key m" if "n \<in> set (take (nat budget) ?s)" "m \<in> set (drop (nat budget) ?s)" for n m
      using that by (auto simp: sorted_append)
    show ?thesis unfolding out using 3 split le by (auto simp: key_def)
  qed (auto simp: budgeted_expand_plan_def pool select_topk_by_logprob_def)
qed

theorem budgeted_plan_best_witness:
  "length (budgeted_expand_plan [\<lparr>node_handle = (), path_lp = Fin 0, frontier_depth = 1\<rparr>, \<lparr>node_handle = (), path_lp = NegInf, frontier_depth = 1\<rparr>] 1 None) = 1"
  using budgeted_plan_best [of "[\<lparr>node_handle = (), path_lp = Fin 0, frontier_depth = 1\<rparr>, \<lparr>node_handle = (), path_lp = NegInf, frontier_depth = 1\<rparr>]" 1 None] by simp

section \<open>Sequoia plans stay within the budget\<close>

text \<open>The number of nodes of the tree with the given widths, the root not counted.\<close>

fun tree_size :: "nat list \<Rightarrow> nat" where
  "tree_size [] = 0"
| "tree_size (w # ws) = w * (1 + tree_size ws)"

lemma subtree_loop_size: "subtree_loop s r ws = s + r * tree_size ws"
proof (induction s r ws rule: subtree_loop.induct)
  case (2 s r w ws)
  then show ?case by (cases "r * w = 0") (auto simp: algebra_simps)
qed simp

lemma tree_size_bump:
  "d < length ws \<Longrightarrow> tree_size (ws[d := ws ! d + 1]) = tree_size ws + prod_list (take d ws) * (1 + tree_size (drop (Suc d) ws))"
proof (induction ws arbitrary: d)
  case (Cons w ws)
  then show ?case by (cases d) (auto simp: algebra_simps)
qed simp

definition filled_to :: "nat list \<Rightarrow> nat \<Rightarrow> bool" where
  "filled_to ws d \<longleftrightarrow> d < length ws \<and> (\<forall>i < d. 0 < ws ! i)"

definition prefix_filled :: "nat list \<Rightarrow> bool" where
  "prefix_filled ws \<longleftrightarrow> (\<forall>i < length ws. 0 < ws ! i \<longrightarrow> filled_to ws i)"

lemma bump_cost_exact: "filled_to ws d \<Longrightarrow> bump_cost ws d = prod_list (take d ws) * (1 + tree_size (drop (Suc d) ws))"
proof -
  assume f: "filled_to ws d"
  have "map (\<lambda>w. max w 1) (take d ws) = take d ws"
    using f by (intro nth_equalityI) (auto simp: filled_to_def Suc_le_eq max_def)
  then show ?thesis by (simp add: bump_cost_def subtree_loop_size)
qed

lemma filled_bump: "filled_to ws d \<Longrightarrow> filled_to ws i \<Longrightarrow> filled_to (ws[d := ws ! d + 1]) i"
  by (auto simp: filled_to_def nth_list_update)

lemma prefix_filled_bump: "prefix_filled ws \<Longrightarrow> filled_to ws d \<Longrightarrow> prefix_filled (ws[d := ws ! d + 1])"
  by (auto simp: prefix_filled_def filled_to_def nth_list_update split: if_splits)

lemma set_push_ratio: "set (push_ratio acc ws h d) \<subseteq> set h \<union> (if d < length ws then {(- marginal_ratio acc ws d, d)} else {})"
  by (simp add: push_ratio_def) auto

lemma push_ratio_filled:
  assumes "\<forall>x \<in> set h. filled_to ws (snd x)" and "d < length ws \<Longrightarrow> filled_to ws d"
  shows "\<forall>x \<in> set (push_ratio acc ws h d). filled_to ws (snd x)"
  using assms set_push_ratio [of acc ws h d] by (fastforce split: if_splits)

lemma sequoia_loop_ok:
  "\<forall>e \<in> set heap. filled_to ws (snd e) \<Longrightarrow> prefix_filled ws \<Longrightarrow>
     length (sequoia_loop acc heap remaining ws) = length ws \<and> prefix_filled (sequoia_loop acc heap remaining ws) \<and>
     tree_size (sequoia_loop acc heap remaining ws) \<le> tree_size ws + remaining \<and>
     (\<forall>i < length ws. ws ! i \<le> sequoia_loop acc heap remaining ws ! i)"
proof (induction acc heap remaining ws rule: sequoia_loop.induct)
  case (1 acc heap remaining ws)
  define e d rest where "e = heap_min heap" and "d = snd e" and "rest = remove1 e heap"
  define fresh where "fresh = marginal_ratio acc ws d"
  consider (finished) "remaining = 0 \<or> heap = [] \<or> - fst e \<le> 0"
    | (stale) "remaining \<noteq> 0" "heap \<noteq> []" "\<not> - fst e \<le> 0" "stale acc ws e"
    | (skip) "remaining \<noteq> 0" "heap \<noteq> []" "\<not> - fst e \<le> 0" "\<not> stale acc ws e" "remaining < bump_cost ws d"
    | (bump) "remaining \<noteq> 0" "heap \<noteq> []" "\<not> - fst e \<le> 0" "\<not> stale acc ws e" "\<not> remaining < bump_cost ws d" by blast
  then show ?case
  proof cases
    case finished
    then have "sequoia_loop acc heap remaining ws = ws" by (subst sequoia_loop.simps) (auto simp: Let_def e_def)
    then show ?thesis using 1(5) by simp
  next
    case stale
    have r: "sequoia_loop acc heap remaining ws = sequoia_loop acc (if 0 < fresh then rest @ [(- fresh, d)] else rest) remaining ws"
      using stale by (subst sequoia_loop.simps) (simp add: Let_def e_def d_def rest_def fresh_def)
    have "e \<in> set heap" using stale by (simp add: e_def heap_min_in)
    then have "\<forall>x \<in> set (if 0 < fresh then rest @ [(- fresh, d)] else rest). filled_to ws (snd x)"
      using 1(4) notin_set_remove1 by (auto simp: rest_def d_def dest: notin_set_remove1)
    from 1(1) [OF _ e_def d_def rest_def fresh_def _ _ this 1(5)] stale show ?thesis unfolding r by simp
  next
    case skip
    have r: "sequoia_loop acc heap remaining ws = sequoia_loop acc rest remaining ws"
      using skip by (subst sequoia_loop.simps) (simp add: Let_def e_def d_def rest_def)
    have "\<forall>x \<in> set rest. filled_to ws (snd x)" using 1(4) by (auto simp: rest_def dest: notin_set_remove1)
    from 1(2) [OF _ e_def d_def rest_def fresh_def _ _ _ this 1(5)] skip show ?thesis unfolding r by simp
  next
    case bump
    define w' where "w' = ws[d := ws ! d + 1]"
    define heap' where "heap' = push_ratio acc w' (push_ratio acc w' rest d) (Suc d)"
    have r: "sequoia_loop acc heap remaining ws = sequoia_loop acc heap' (remaining - bump_cost ws d) w'"
      using bump by (subst sequoia_loop.simps) (simp add: Let_def e_def d_def rest_def w'_def heap'_def)
    have "e \<in> set heap" using bump by (simp add: e_def heap_min_in)
    then have fd: "filled_to ws d" using 1(4) by (simp add: d_def)
    have old: "\<forall>x \<in> set rest. filled_to w' (snd x)" using 1(4) filled_bump [OF fd] by (auto simp: rest_def w'_def dest: notin_set_remove1)
    have new: "filled_to w' d" "Suc d < length w' \<Longrightarrow> filled_to w' (Suc d)"
      using fd by (auto simp: filled_to_def w'_def nth_list_update less_Suc_eq)
    have h': "\<forall>x \<in> set heap'. filled_to w' (snd x)"
      unfolding heap'_def using old new by (intro push_ratio_filled) auto
    have pf: "prefix_filled w'" unfolding w'_def using 1(5) fd by (rule prefix_filled_bump)
    note IH = 1(3) [OF _ e_def d_def rest_def fresh_def _ _ _ w'_def, folded heap'_def, OF _ _ _ _ h' pf]
    have size: "tree_size w' = tree_size ws + bump_cost ws d"
      using fd tree_size_bump [of d ws] unfolding w'_def bump_cost_exact [OF fd] by (simp only: filled_to_def)
    have mono: "ws ! i \<le> w' ! i" if "i < length ws" for i using that by (cases "i = d") (simp_all add: w'_def)
    have lw: "length w' = length ws" by (simp add: w'_def)
    show ?thesis unfolding r using IH bump size mono unfolding lw by (auto intro: order_trans)
  qed
qed

lemma trailing_zeros:
  assumes "prefix_filled ws"
  shows "\<forall>x \<in> set (rev (dropWhile (\<lambda>x. x = 0) (rev ws))). 0 < x" and "tree_size (rev (dropWhile (\<lambda>x. x = 0) (rev ws))) = tree_size ws"
    and "length (rev (dropWhile (\<lambda>x. x = 0) (rev ws))) \<le> length ws"
proof -
  define k where "k = length (takeWhile (\<lambda>x. x = 0) (rev ws))"
  define ys where "ys = rev (dropWhile (\<lambda>x. x = 0) (rev ws))"
  have ws: "ws = ys @ replicate k 0"
  proof -
    have "takeWhile (\<lambda>x. x = 0) (rev ws) = replicate k 0" unfolding k_def by (metis (mono_tags) replicate_length_same set_takeWhileD)
    then have "rev ws = replicate k 0 @ rev ys" unfolding ys_def by (metis rev_rev_ident takeWhile_dropWhile_id)
    then show ?thesis by (metis rev_append rev_replicate rev_rev_ident)
  qed
  have lastp: "0 < last ys" if "ys \<noteq> []"
    using that hd_dropWhile [of "\<lambda>x. x = 0" "rev ws"] by (simp add: ys_def last_rev)
  have "0 < ys ! i" if i: "i < length ys" for i
  proof (cases "i = length ys - 1")
    case True
    then show ?thesis using lastp i by (metis last_conv_nth length_0_conv not_less_zero)
  next
    case False
    have "0 < ws ! (length ys - 1)" using lastp i last_conv_nth [of ys] by (cases "ys = []") (auto simp: ws nth_append)
    then have "filled_to ws (length ys - 1)" using assms i by (simp add: prefix_filled_def ws)
    then have "0 < ws ! i" using i False by (simp add: filled_to_def)
    then show ?thesis using i by (simp add: ws nth_append)
  qed
  then show "\<forall>x \<in> set (rev (dropWhile (\<lambda>x. x = 0) (rev ws))). 0 < x" unfolding ys_def [symmetric] by (metis in_set_conv_nth)
  have "tree_size (xs @ replicate k 0) = tree_size xs" for xs by (induction xs) (cases k; auto)+
  then have "tree_size ys = tree_size ws" by (metis ws)
  then show "tree_size (rev (dropWhile (\<lambda>x. x = 0) (rev ws))) = tree_size ws" by (simp add: ys_def)
  have "length ys \<le> length ws" by (metis ws length_append le_add1)
  then show "length (rev (dropWhile (\<lambda>x. x = 0) (rev ws))) \<le> length ws" by (simp add: ys_def)
qed

text \<open>
  A Sequoia plan is computed for every acceptance profile and stays within its limits: all widths
  are positive, there are at most as many depths as rates (and as the limit), and the tree it
  describes has at most the budgeted number of nodes. With a positive budget and a positive first rate
  the plan is not empty.
\<close>
theorem sequoia_plan_within_budget:
  "let w = sequoia_optimize_widths acc n bound in
     (\<forall>x \<in> set w. 0 < x) \<and> length w \<le> length acc \<and> (\<forall>d. bound = Some d \<longrightarrow> length w \<le> nat d) \<and> tree_size w \<le> nat n \<and>
     (0 < n \<and> acc \<noteq> [] \<and> 0 < acc ! 0 \<and> (\<forall>d. bound = Some d \<longrightarrow> 0 < d) \<longrightarrow> w \<noteq> [])"
proof -
  define depth where "depth = (case bound of None \<Rightarrow> int (length acc) | Some d \<Rightarrow> min d (int (length acc)))"
  show ?thesis
  proof (cases "depth \<le> 0")
    case True
    then have "sequoia_optimize_widths acc n bound = []" by (simp add: sequoia_optimize_widths_def depth_def Let_def)
    then show ?thesis using True by (auto simp: Let_def depth_def min_def split: option.splits if_splits)
  next
    case False
    define w0 where "w0 = replicate (nat depth) (0 :: nat)"
    define heap where "heap = [(- marginal_ratio acc w0 0, 0 :: nat)]"
    define w where "w = sequoia_loop acc heap (nat n) w0"
    have f: "\<forall>e \<in> set heap. filled_to w0 (snd e)" "prefix_filled w0"
      using False by (auto simp: heap_def filled_to_def prefix_filled_def w0_def)
    have z: "tree_size w0 = 0" unfolding w0_def by (cases "nat depth") auto
    have ok: "length w = nat depth" "prefix_filled w" "tree_size w \<le> nat n"
      using sequoia_loop_ok [OF f, of acc "nat n"] z by (auto simp: w_def w0_def)
    have res: "sequoia_optimize_widths acc n bound = rev (dropWhile (\<lambda>x. x = 0) (rev w))"
      using False by (simp add: sequoia_optimize_widths_def depth_def Let_def w_def heap_def w0_def)
    have ne: "rev (dropWhile (\<lambda>x. x = 0) (rev w)) \<noteq> []" if pos: "0 < n" "0 < acc ! 0"
    proof -
      have w00: "w0 ! 0 = 0" "0 < length w0" using False by (simp_all add: w0_def)
      have cost: "bump_cost w0 0 = 1"
      proof -
        have "tree_size (drop (Suc 0) w0) = 0" unfolding w0_def by (cases "nat depth - Suc 0") auto
        then show ?thesis by (simp add: bump_cost_def subtree_loop_size)
      qed
      have mr: "marginal_ratio acc w0 0 = acc ! 0" using pos w00 cost by (simp add: marginal_ratio_def reach_prob_def)
      have hm: "heap_min heap = (- acc ! 0, 0)" by (simp add: heap_min_def heap_def mr)
      define w1 where "w1 = w0[0 := 1]"
      have step: "w = sequoia_loop acc (push_ratio acc w1 (push_ratio acc w1 [] 0) (Suc 0)) (nat n - 1) w1"
      proof -
        have "heap \<noteq> []" "remove1 (- acc ! 0, 0) heap = []" by (simp_all add: heap_def mr)
        then show ?thesis
          unfolding w_def by (subst sequoia_loop.simps) (use pos w00 in \<open>simp add: Let_def hm stale_def mr cost w1_def\<close>)
      qed
      have f1: "filled_to w1 0" "Suc 0 < length w1 \<Longrightarrow> filled_to w1 (Suc 0)" using w00 by (auto simp: filled_to_def w1_def)
      have p1: "prefix_filled w1" using prefix_filled_bump [OF f(2), of 0] w00 by (simp add: w1_def filled_to_def)
      have "\<forall>e \<in> set (push_ratio acc w1 (push_ratio acc w1 [] 0) (Suc 0)). filled_to w1 (snd e)"
        using f1 by (intro push_ratio_filled) auto
      from sequoia_loop_ok [OF this p1, of acc "nat n - 1"] have "w1 ! 0 \<le> w ! 0" "length w = length w1" unfolding step [symmetric] using w00 by (auto simp: w1_def)
      then have "0 < w ! 0" "0 < length w" using w00 by (auto simp: w1_def)
      then have "\<exists>x \<in> set (rev w). x \<noteq> 0" by (metis less_numeral_extra(3) nth_mem set_rev)
      then show ?thesis by (simp add: dropWhile_eq_Nil_conv)
    qed
    show ?thesis unfolding res Let_def using trailing_zeros [OF ok(2)] ok ne False
      by (auto simp: depth_def split: option.splits)
  qed
qed

theorem sequoia_plan_within_budget_witness: "sequoia_optimize_widths [1/2, 1/4] 5 None \<noteq> []"
  using sequoia_plan_within_budget [of "[1/2, 1/4]" 5 None] by (simp add: Let_def)

end
