(* ===== verification/WireFormat.thy ===== *)
theory WireFormat
  imports Spans "HOL-Library.Word"
begin

text \<open>
  The lossless transport wrapper, \<^verbatim>\<open>utils/lossless_transport.py\<close>: the header, the byte-lane layouts,
  choosing a wrapper when sending and decoding any buffer when receiving.

  Bytes are 8-bit words. The compressors (zstandard with and without dictionary, zlib, ZipNN) are
  parameters, collected in a record; \<open>None\<close> means that the package or dictionary is missing. Settings
  that the code reads from the environment or the configuration module are a record too. Timing,
  profiling and logging are left out. Text is ASCII.
\<close>

type_synonym byte = "8 word"
type_synonym bytes = "byte list"

section \<open>Packed integers and headers\<close>

text \<open>\<open>struct\<close> in network order: \<open>k\<close> bytes, most significant first.\<close>

fun be_bytes :: "nat \<Rightarrow> nat \<Rightarrow> bytes" where
  "be_bytes 0 v = []"
| "be_bytes (Suc k) v = be_bytes k (v div 256) @ [word_of_nat v]"

definition be_value :: "bytes \<Rightarrow> nat" where
  "be_value bs = foldl (\<lambda>acc b. acc * 256 + unat b) 0 bs"

definition pack_uint :: "nat \<Rightarrow> nat \<Rightarrow> bytes result" where
  "pack_uint k v = (if v < 256 ^ k then Inr (be_bytes k v) else Inl StructError)"

definition MAGIC :: bytes where "MAGIC = [66, 66, 76, 67]"
definition VERSION :: nat where "VERSION = 1"
definition HEADER_SIZE :: nat where "HEADER_SIZE = 14"
definition BYTE_SPLIT_PAYLOAD_SIZE :: nat where "BYTE_SPLIT_PAYLOAD_SIZE = 5"

definition ALGO_ZSTD :: nat where "ALGO_ZSTD = 1"
definition ALGO_ZLIB :: nat where "ALGO_ZLIB = 2"
definition ALGO_ZSTD_BYTE_SPLIT :: nat where "ALGO_ZSTD_BYTE_SPLIT = 3"
definition ALGO_ZIPNN :: nat where "ALGO_ZIPNN = 4"
definition ALGO_ZSTD_DICT_BYTE_SPLIT :: nat where "ALGO_ZSTD_DICT_BYTE_SPLIT = 5"
definition ALGO_ZSTD_BYTE_SPLIT_HIGH_ONLY :: nat where "ALGO_ZSTD_BYTE_SPLIT_HIGH_ONLY = 6"
definition ALGO_ZSTD_DICT_BYTE_SPLIT_PREFILL :: nat where "ALGO_ZSTD_DICT_BYTE_SPLIT_PREFILL = 7"
definition ALGO_ZSTD_DICT_BYTE_SPLIT_DECODE :: nat where "ALGO_ZSTD_DICT_BYTE_SPLIT_DECODE = 8"

lemmas algo_defs = ALGO_ZSTD_def ALGO_ZLIB_def ALGO_ZSTD_BYTE_SPLIT_def ALGO_ZIPNN_def ALGO_ZSTD_DICT_BYTE_SPLIT_def
  ALGO_ZSTD_BYTE_SPLIT_HIGH_ONLY_def ALGO_ZSTD_DICT_BYTE_SPLIT_PREFILL_def ALGO_ZSTD_DICT_BYTE_SPLIT_DECODE_def

definition pack_header :: "nat \<Rightarrow> nat \<Rightarrow> bytes result" where
  "pack_header algo_id n =
     (case (pack_uint 1 VERSION, pack_uint 1 algo_id, pack_uint 8 n) of
        (Inr v, Inr a, Inr s) \<Rightarrow> Inr (MAGIC @ v @ a @ s)
      | _ \<Rightarrow> Inl StructError)"

definition parse_wrapper :: "bool \<Rightarrow> bytes \<Rightarrow> (nat \<times> nat \<times> bytes) option result" where
  "parse_wrapper strict buffer =
     (if length buffer < HEADER_SIZE then Inr None
      else if take 4 buffer \<noteq> MAGIC then Inr None
      else
        let version = be_value (pyslice 4 5 buffer);
            algo_id = be_value (pyslice 5 6 buffer);
            original_size = be_value (pyslice 6 14 buffer)
        in if version \<noteq> VERSION then (if strict then Inl ValueError else Inr None)
           else Inr (Some (algo_id, original_size, drop HEADER_SIZE buffer)))"

section \<open>Byte lanes\<close>

text \<open>\<open>xs[k::s]\<close> and \<open>out[k::s] = vals\<close>; in every use the lengths agree.\<close>

definition stride :: "nat \<Rightarrow> nat \<Rightarrow> 'a list \<Rightarrow> 'a list" where
  "stride k s xs = map (\<lambda>i. xs ! (k + i * s)) [0..<(length xs + (s - 1) - k) div s]"

definition set_stride :: "nat \<Rightarrow> nat \<Rightarrow> 'a list \<Rightarrow> 'a list \<Rightarrow> 'a list" where
  "set_stride k s vals out = map (\<lambda>i. if k \<le> i \<and> (i - k) mod s = 0 then vals ! ((i - k) div s) else out ! i) [0..<length out]"

definition split_high_byte_lane :: "bytes \<Rightarrow> nat \<Rightarrow> (bytes \<times> bytes) result" where
  "split_high_byte_lane raw elem_size =
     (if elem_size = 2 then Inr (stride 1 2 raw, stride 0 2 raw)
      else if elem_size = 4 then
        let extracted = stride 3 4 raw;
            remaining = replicate (length raw - length extracted) 0
        in Inr (extracted, set_stride 2 3 (stride 2 4 raw) (set_stride 1 3 (stride 1 4 raw) (set_stride 0 3 (stride 0 4 raw) remaining)))
      else Inl ValueError)"

definition reconstruct_high_byte_lane :: "bytes \<Rightarrow> bytes \<Rightarrow> nat \<Rightarrow> nat \<Rightarrow> bytes result" where
  "reconstruct_high_byte_lane extracted remaining elem_size original_size =
     (if elem_size = 0 \<or> original_size mod elem_size \<noteq> 0 then Inl ValueError
      else
        let extracted_size = original_size div elem_size; remaining_size = original_size - extracted_size in
        if length extracted \<noteq> extracted_size then Inl ValueError
        else if length remaining \<noteq> remaining_size then Inl ValueError
        else
          let out = replicate original_size 0 in
          if elem_size = 2 then Inr (set_stride 1 2 extracted (set_stride 0 2 remaining out))
          else if elem_size = 4 then
            Inr (set_stride 3 4 extracted (set_stride 2 4 (stride 2 3 remaining)
                  (set_stride 1 4 (stride 1 3 remaining) (set_stride 0 4 (stride 0 3 remaining) out))))
          else Inl ValueError)"

section \<open>Compressors\<close>

record zlib_out =
  z_raw :: bytes
  z_unconsumed :: bytes
  z_eof :: bool
  z_unused :: bytes

datatype dict_kind = AnyPhase | PrefillDict | DecodeDict

datatype dtype = Float16 | BFloat16 | Float32 | OtherDtype

record codecs =
  zstd_compress :: "(bytes \<Rightarrow> bytes) option"
  zstd_decompress :: "(bytes \<Rightarrow> nat \<Rightarrow> bytes result) option"
  zlib_compress :: "bytes \<Rightarrow> bytes"
  zlib_decompress :: "bytes \<Rightarrow> nat \<Rightarrow> zlib_out result"
  zipnn_compress :: "dtype \<Rightarrow> (bytes \<Rightarrow> bytes result) option"
  zipnn_decompress :: "(bytes \<Rightarrow> bytes result) option"
  dict_compress :: "dict_kind \<Rightarrow> (bytes \<Rightarrow> bytes) option"
  dict_decompress :: "dict_kind \<Rightarrow> (bytes \<Rightarrow> nat \<Rightarrow> bytes result) option"

definition compress_with_algo :: "codecs \<Rightarrow> string \<Rightarrow> bytes \<Rightarrow> nat \<times> bytes" where
  "compress_with_algo cs algo raw =
     (if algo \<in> {'''', ''none'', ''off'', ''disabled''} then (0, raw)
      else if algo = ''zstd'' then
        (case zstd_compress cs of None \<Rightarrow> (0, raw) | Some c \<Rightarrow> (ALGO_ZSTD, c raw))
      else if algo = ''zlib'' then (ALGO_ZLIB, zlib_compress cs raw)
      else (0, raw))"

definition decompress_zlib_capped :: "codecs \<Rightarrow> bytes \<Rightarrow> nat \<Rightarrow> bytes result" where
  "decompress_zlib_capped cs payload original_size =
     (case zlib_decompress cs payload (original_size + 1) of
        Inl e \<Rightarrow> Inl e
      | Inr z \<Rightarrow>
          if original_size < length (z_raw z) \<or> z_unconsumed z \<noteq> [] then Inl ValueError
          else if \<not> z_eof z then Inl ValueError
          else if z_unused z \<noteq> [] then Inl ValueError
          else Inr (z_raw z))"

definition check_size :: "nat \<Rightarrow> bytes result \<Rightarrow> bytes result" where
  "check_size original_size r =
     (case r of Inl e \<Rightarrow> Inl e | Inr raw \<Rightarrow> if length raw \<noteq> original_size then Inl ValueError else Inr raw)"

definition decompress_with_algo :: "codecs \<Rightarrow> nat \<Rightarrow> bytes \<Rightarrow> nat \<Rightarrow> bytes result" where
  "decompress_with_algo cs algo_id payload original_size =
     (if algo_id = ALGO_ZSTD then
        (case zstd_decompress cs of None \<Rightarrow> Inl RuntimeError | Some d \<Rightarrow> check_size original_size (d payload original_size))
      else if algo_id = ALGO_ZLIB then check_size original_size (decompress_zlib_capped cs payload original_size)
      else if algo_id = ALGO_ZIPNN then
        (case zipnn_decompress cs of None \<Rightarrow> Inl RuntimeError | Some d \<Rightarrow> check_size original_size (d payload))
      else Inl ValueError)"

section \<open>Building wrappers\<close>

definition with_header :: "nat \<Rightarrow> bytes \<Rightarrow> bytes \<Rightarrow> bytes result" where
  "with_header algo_id raw payload = map_sum id (\<lambda>h. h @ payload) (pack_header algo_id (length raw))"

definition build_plain_wrapper :: "codecs \<Rightarrow> string \<Rightarrow> bytes \<Rightarrow> (nat \<times> bytes) result" where
  "build_plain_wrapper cs algo raw =
     (let (algo_id, compressed) = compress_with_algo cs algo raw in
      if algo_id = 0 then Inr (0, raw)
      else map_sum id (\<lambda>w. (algo_id, w)) (with_header algo_id raw compressed))"

definition split_payload :: "nat \<Rightarrow> bytes \<Rightarrow> bytes \<Rightarrow> bytes result" where
  "split_payload elem_size extracted_part remaining_part =
     (case (pack_uint 1 elem_size, pack_uint 4 (length extracted_part)) of
        (Inr e, Inr n) \<Rightarrow> Inr (e @ n @ extracted_part @ remaining_part)
      | _ \<Rightarrow> Inl StructError)"

text \<open>The lanes, a lane encoder for each, the packed payload and the header.\<close>

definition build_split :: "(bytes \<Rightarrow> bytes result) \<Rightarrow> (bytes \<Rightarrow> bytes result) \<Rightarrow> nat \<Rightarrow> bytes \<Rightarrow> nat \<Rightarrow> bytes result" where
  "build_split enc_high enc_low algo_id raw elem_size =
     (case split_high_byte_lane raw elem_size of
        Inl e \<Rightarrow> Inl e
      | Inr (high, low) \<Rightarrow>
          (case enc_high high of
             Inl e \<Rightarrow> Inl e
           | Inr h \<Rightarrow>
               (case enc_low low of
                  Inl e \<Rightarrow> Inl e
                | Inr l \<Rightarrow>
                    (case split_payload elem_size h l of
                       Inl e \<Rightarrow> Inl e
                     | Inr payload \<Rightarrow> with_header algo_id raw payload))))"

definition zstd_lane :: "codecs \<Rightarrow> bytes \<Rightarrow> bytes result" where
  "zstd_lane cs lane =
     (case compress_with_algo cs ''zstd'' lane of (algo_id, c) \<Rightarrow> if algo_id \<noteq> ALGO_ZSTD then Inl RuntimeError else Inr c)"

definition build_zstd_byte_split_wrapper :: "codecs \<Rightarrow> bytes \<Rightarrow> nat \<Rightarrow> bytes result" where
  "build_zstd_byte_split_wrapper cs raw elem_size = build_split (zstd_lane cs) (zstd_lane cs) ALGO_ZSTD_BYTE_SPLIT raw elem_size"

definition build_zstd_byte_split_high_only_wrapper :: "codecs \<Rightarrow> bytes \<Rightarrow> nat \<Rightarrow> bytes result" where
  "build_zstd_byte_split_high_only_wrapper cs raw elem_size =
     build_split (zstd_lane cs) Inr ALGO_ZSTD_BYTE_SPLIT_HIGH_ONLY raw elem_size"

fun dict_algo :: "dict_kind \<Rightarrow> nat" where
  "dict_algo AnyPhase = ALGO_ZSTD_DICT_BYTE_SPLIT"
| "dict_algo PrefillDict = ALGO_ZSTD_DICT_BYTE_SPLIT_PREFILL"
| "dict_algo DecodeDict = ALGO_ZSTD_DICT_BYTE_SPLIT_DECODE"

definition build_dict_byte_split_wrapper :: "codecs \<Rightarrow> dict_kind \<Rightarrow> bytes \<Rightarrow> nat \<Rightarrow> bytes result" where
  "build_dict_byte_split_wrapper cs kind raw elem_size =
     (case dict_compress cs kind of
        None \<Rightarrow> Inl RuntimeError
      | Some c \<Rightarrow> build_split (\<lambda>x. Inr (c x)) (\<lambda>x. Inr (c x)) (dict_algo kind) raw elem_size)"

definition build_zipnn_wrapper :: "codecs \<Rightarrow> dtype option \<Rightarrow> bytes \<Rightarrow> bytes result" where
  "build_zipnn_wrapper cs dt raw =
     (case dt of
        None \<Rightarrow> Inl ValueError
      | Some d \<Rightarrow>
          if d = OtherDtype then Inl ValueError
          else (case zipnn_compress cs d of
                  None \<Rightarrow> Inl RuntimeError
                | Some c \<Rightarrow> (case c raw of Inl e \<Rightarrow> Inl e | Inr payload \<Rightarrow> with_header ALGO_ZIPNN raw payload)))"

section \<open>Decoding wrappers\<close>

definition decode_split :: "(bytes \<Rightarrow> nat \<Rightarrow> bytes result) \<Rightarrow> (bytes \<Rightarrow> nat \<Rightarrow> bytes result) \<Rightarrow> bytes \<Rightarrow> nat \<Rightarrow> bytes result" where
  "decode_split dec_high dec_low payload original_size =
     (if length payload < BYTE_SPLIT_PAYLOAD_SIZE then Inl ValueError
      else
        let elem_size = be_value (pyslice 0 1 payload);
            extracted_end = BYTE_SPLIT_PAYLOAD_SIZE + be_value (pyslice 1 5 payload)
        in if length payload < extracted_end then Inl ValueError
           else if original_size mod (max 1 elem_size) \<noteq> 0 then Inl ValueError
           else if elem_size = 0 then Inl ZeroDivisionError
           else
             let high_size = original_size div elem_size; low_size = original_size - high_size in
             (case dec_high (pyslice BYTE_SPLIT_PAYLOAD_SIZE extracted_end payload) high_size of
                Inl e \<Rightarrow> Inl e
              | Inr high \<Rightarrow>
                  (case dec_low (drop extracted_end payload) low_size of
                     Inl e \<Rightarrow> Inl e
                   | Inr low \<Rightarrow> reconstruct_high_byte_lane high low elem_size original_size)))"

definition decode_zstd_byte_split_payload :: "codecs \<Rightarrow> bytes \<Rightarrow> nat \<Rightarrow> bytes result" where
  "decode_zstd_byte_split_payload cs payload n =
     decode_split (decompress_with_algo cs ALGO_ZSTD) (decompress_with_algo cs ALGO_ZSTD) payload n"

text \<open>The low lane is raw, and its size is checked before the high lane is decompressed.\<close>

definition decode_zstd_byte_split_high_only_payload :: "codecs \<Rightarrow> bytes \<Rightarrow> nat \<Rightarrow> bytes result" where
  "decode_zstd_byte_split_high_only_payload cs payload n =
     decode_split
       (\<lambda>high k. if length (drop (BYTE_SPLIT_PAYLOAD_SIZE + be_value (pyslice 1 5 payload)) payload) \<noteq> n - k
                  then Inl ValueError else decompress_with_algo cs ALGO_ZSTD high k)
       (\<lambda>low k. Inr low) payload n"

definition decode_dict_byte_split_payload :: "codecs \<Rightarrow> dict_kind \<Rightarrow> bytes \<Rightarrow> nat \<Rightarrow> bytes result" where
  "decode_dict_byte_split_payload cs kind payload n =
     (case dict_decompress cs kind of None \<Rightarrow> Inl RuntimeError | Some d \<Rightarrow> decode_split d d payload n)"

definition unwrap_buffer :: "codecs \<Rightarrow> nat \<Rightarrow> bytes \<Rightarrow> bytes result" where
  "unwrap_buffer cs max_decoded buffer =
     (case parse_wrapper True buffer of
        Inl e \<Rightarrow> Inl e
      | Inr None \<Rightarrow> Inr buffer
      | Inr (Some (algo_id, n, payload)) \<Rightarrow>
          if max_decoded < n then Inl ValueError
          else if algo_id = ALGO_ZSTD_BYTE_SPLIT then decode_zstd_byte_split_payload cs payload n
          else if algo_id = ALGO_ZSTD_DICT_BYTE_SPLIT then decode_dict_byte_split_payload cs AnyPhase payload n
          else if algo_id = ALGO_ZSTD_DICT_BYTE_SPLIT_PREFILL then decode_dict_byte_split_payload cs PrefillDict payload n
          else if algo_id = ALGO_ZSTD_DICT_BYTE_SPLIT_DECODE then decode_dict_byte_split_payload cs DecodeDict payload n
          else if algo_id = ALGO_ZSTD_BYTE_SPLIT_HIGH_ONLY then decode_zstd_byte_split_high_only_payload cs payload n
          else decompress_with_algo cs algo_id payload n)"


section \<open>Settings and context\<close>

definition is_space :: "char \<Rightarrow> bool" where
  "is_space c \<longleftrightarrow> (let n = of_char c :: nat in n = 32 \<or> 9 \<le> n \<and> n \<le> 13 \<or> 28 \<le> n \<and> n \<le> 31)"

definition strip :: "string \<Rightarrow> string" where
  "strip s = rev (dropWhile is_space (rev (dropWhile is_space s)))"

definition lower :: "string \<Rightarrow> string" where
  "lower s = map (\<lambda>c. let n = of_char c :: nat in if 65 \<le> n \<and> n \<le> 90 then char_of (n + 32) else c) s"

text \<open>The debug context of a tensor; an empty one counts as none.\<close>

type_synonym debug_context = "(string \<times> string) list"

definition context_value :: "debug_context \<Rightarrow> string \<Rightarrow> string" where
  "context_value ctx key = (if ctx = [] then [] else strip (case map_of ctx key of None \<Rightarrow> [] | Some v \<Rightarrow> v))"

definition match_target_pattern :: "string \<Rightarrow> string \<Rightarrow> bool" where
  "match_target_pattern actual pattern \<longleftrightarrow> pattern = ''*'' \<or> pattern = [] \<or> actual = pattern"

definition target_items :: "string \<Rightarrow> string list" where
  "target_items raw = map (\<lambda>item. lower (strip item)) (filter (\<lambda>item. strip item \<noteq> []) (split_on CHR '','' raw))"

definition context_matches_target_specs :: "debug_context \<Rightarrow> string list \<Rightarrow> bool" where
  "context_matches_target_specs ctx specs \<longleftrightarrow>
     ctx \<noteq> [] \<and>
     list_ex (\<lambda>spec. case split_on CHR '':'' spec of
        [a, b, c] \<Rightarrow> match_target_pattern (lower (context_value ctx ''source'')) a \<and>
                     match_target_pattern (lower (context_value ctx ''channel'')) b \<and>
                     match_target_pattern (lower (context_value ctx ''tensor_name'')) c
      | _ \<Rightarrow> False) specs"

record settings =
  send_enabled :: bool
  algo :: string
  layout :: string
  single_path :: bool
  min_bytes :: nat
  min_gain_bytes :: nat
  layout_targets :: string
  hybrid_dict_blocks :: string
  little_endian :: bool

record tensor_meta =
  tdtype :: dtype
  tnumel :: nat

fun element_size :: "dtype \<Rightarrow> nat" where
  "element_size Float16 = 2" | "element_size BFloat16 = 2" | "element_size Float32 = 4" | "element_size OtherDtype = 8"

definition adaptive_hybrid_prefers_zstd_dict :: "settings \<Rightarrow> debug_context \<Rightarrow> bool" where
  "adaptive_hybrid_prefers_zstd_dict cfg ctx \<longleftrightarrow>
     lower (context_value ctx ''phase'') = ''prefill'' \<and> lower (context_value ctx ''source'') = ''client'' \<and>
     lower (context_value ctx ''channel'') = ''rpc_inference'' \<and> lower (context_value ctx ''tensor_name'') = ''hidden_states'' \<and>
     context_value ctx ''blocks'' \<in> set (filter (\<lambda>p. p \<noteq> []) (map strip (split_on CHR '','' (hybrid_dict_blocks cfg))))"

definition supports_byte_split_layout :: "settings \<Rightarrow> tensor_meta option \<Rightarrow> bool \<Rightarrow> nat \<Rightarrow> debug_context \<Rightarrow> bool" where
  "supports_byte_split_layout cfg t uncompressed raw_size ctx \<longleftrightarrow>
     layout cfg \<in> {''byte_split'', ''byte_split_high_only''} \<and>
     algo cfg \<in> {''zstd'', ''zstd_dict'', ''zstd_dict_byte_split'', ''zstd_dict_byte_split_zstd'', ''adaptive_hybrid'', ''hybrid_adaptive'', ''phase_aware_dict''} \<and>
     little_endian cfg \<and> uncompressed \<and>
     (case t of None \<Rightarrow> False
      | Some m \<Rightarrow> tdtype m \<noteq> OtherDtype \<and> raw_size = tnumel m * element_size (tdtype m)) \<and>
     context_matches_target_specs ctx (target_items (layout_targets cfg))"

text \<open>The probe that must survive a round trip before ZipNN is used for a dtype.\<close>

definition zipnn_probe :: bytes where
  "zipnn_probe = map (\<lambda>idx. word_of_nat (idx * 73 + 11)) [0..<4096]"

definition zipnn_lossless_dtype_supported :: "codecs \<Rightarrow> dtype \<Rightarrow> bool" where
  "zipnn_lossless_dtype_supported cs dt =
     (case (zipnn_compress cs dt, zipnn_decompress cs) of
        (Some c, Some d) \<Rightarrow> (case c zipnn_probe of Inl e \<Rightarrow> False | Inr y \<Rightarrow> d y = Inr zipnn_probe)
      | _ \<Rightarrow> False)"

definition supports_zipnn_transport :: "codecs \<Rightarrow> settings \<Rightarrow> tensor_meta option \<Rightarrow> bool \<Rightarrow> nat \<Rightarrow> debug_context \<Rightarrow> bool" where
  "supports_zipnn_transport cs cfg t uncompressed raw_size ctx \<longleftrightarrow>
     uncompressed \<and>
     (case t of None \<Rightarrow> False
      | Some m \<Rightarrow> tdtype m \<noteq> OtherDtype \<and> raw_size = tnumel m * element_size (tdtype m) \<and>
          context_matches_target_specs ctx (target_items (layout_targets cfg)) \<and>
          zipnn_lossless_dtype_supported cs (tdtype m))"

section \<open>Choosing a wrapper\<close>

text \<open>A builder that raises adds no candidate.\<close>

definition candidate :: "nat \<Rightarrow> bytes result \<Rightarrow> (nat \<times> bytes) list" where
  "candidate algo_id r = (case r of Inl e \<Rightarrow> [] | Inr w \<Rightarrow> [(algo_id, w)])"

definition tensor_elem_size :: "tensor_meta option \<Rightarrow> nat" where
  "tensor_elem_size t = (case t of None \<Rightarrow> 2 | Some m \<Rightarrow> element_size (tdtype m))"

definition plain_candidate :: "codecs \<Rightarrow> settings \<Rightarrow> bytes \<Rightarrow> (nat \<times> bytes) list result" where
  "plain_candidate cs cfg raw =
     (case build_plain_wrapper cs (algo cfg) raw of
        Inl e \<Rightarrow> Inl e
      | Inr (algo_id, w) \<Rightarrow> Inr (if algo_id \<noteq> 0 then [(algo_id, w)] else []))"

definition wrapper_candidates ::
  "codecs \<Rightarrow> settings \<Rightarrow> tensor_meta option \<Rightarrow> bool \<Rightarrow> debug_context \<Rightarrow> bytes \<Rightarrow> (nat \<times> bytes) list result" where
  "wrapper_candidates cs cfg t uncompressed ctx raw =
     (let bs = supports_byte_split_layout cfg t uncompressed (length raw) ctx;
          zn = supports_zipnn_transport cs cfg t uncompressed (length raw) ctx;
          es = tensor_elem_size t;
          zipnn = candidate ALGO_ZIPNN (build_zipnn_wrapper cs (map_option tdtype t) raw);
          dict = (\<lambda>kind. candidate (dict_algo kind) (build_dict_byte_split_wrapper cs kind raw es));
          phase = lower (context_value ctx ''phase'')
      in if algo cfg = ''zipnn'' then Inr (if zn then zipnn else [])
         else if algo cfg \<in> {''zstd_dict'', ''zstd_dict_byte_split'', ''zstd_dict_byte_split_zstd''}
         then Inr (if bs then dict AnyPhase else [])
         else if algo cfg = ''phase_aware_dict'' then
           let first =
             (if bs \<and> phase = ''prefill'' \<and> dict_compress cs PrefillDict \<noteq> None then dict PrefillDict
              else if bs \<and> phase = ''decode'' \<and> dict_compress cs DecodeDict \<noteq> None then dict DecodeDict
              else [])
           in Inr (if first = [] \<and> bs then candidate ALGO_ZSTD_BYTE_SPLIT (build_zstd_byte_split_wrapper cs raw es) else first)
         else if algo cfg \<in> {''adaptive_hybrid'', ''hybrid_adaptive''} then
           let first = (if adaptive_hybrid_prefers_zstd_dict cfg ctx \<and> bs then dict AnyPhase else [])
           in Inr (if first = [] \<and> zn then zipnn else first)
         else
           let split =
             (if layout cfg = ''byte_split_high_only''
              then candidate ALGO_ZSTD_BYTE_SPLIT_HIGH_ONLY (build_zstd_byte_split_high_only_wrapper cs raw es)
              else candidate ALGO_ZSTD_BYTE_SPLIT (build_zstd_byte_split_wrapper cs raw es))
           in if single_path cfg \<and> algo cfg = ''zstd'' \<and> bs
              then (if split \<noteq> [] then Inr split else plain_candidate cs cfg raw)
              else map_sum id (\<lambda>plain. plain @ (if bs then split else [])) (plain_candidate cs cfg raw))"

text \<open>The first of the shortest candidates.\<close>

definition shortest :: "(nat \<times> bytes) list \<Rightarrow> nat \<times> bytes" where
  "shortest cands = foldl (\<lambda>b x. if length (snd x) < length (snd b) then x else b) (hd cands) (tl cands)"

datatype wrap_reason = Disabled | EmptyBuffer | BelowMinBytes | AlreadyWrapped | NotApplied | MinGainNotMet | Applied

definition wrap_serialized_tensor ::
  "codecs \<Rightarrow> settings \<Rightarrow> tensor_meta option \<Rightarrow> bool \<Rightarrow> debug_context \<Rightarrow> bytes \<Rightarrow> (bytes \<times> wrap_reason) result" where
  "wrap_serialized_tensor cs cfg t uncompressed ctx raw =
     (if \<not> send_enabled cfg then Inr (raw, Disabled)
      else if raw = [] then Inr (raw, EmptyBuffer)
      else if length raw < min_bytes cfg then Inr (raw, BelowMinBytes)
      else if (case parse_wrapper False raw of Inr (Some x) \<Rightarrow> True | _ \<Rightarrow> False) then Inr (raw, AlreadyWrapped)
      else
        (case wrapper_candidates cs cfg t uncompressed ctx raw of
           Inl e \<Rightarrow> Inl e
         | Inr cands \<Rightarrow>
             if cands = [] then Inr (raw, NotApplied)
             else
               let w = snd (shortest cands) in
               if length raw \<le> length w + min_gain_bytes cfg then Inr (raw, MinGainNotMet)
               else Inr (w, Applied)))"

section \<open>Streams\<close>

text \<open>
  A tensor arrives in parts: the first part of a tensor carries its dtype, the later ones do not.
  \<open>combine\<close> joins the parts of one tensor (hivemind's \<open>combine_from_streaming\<close>).
\<close>

record part =
  has_dtype :: bool
  chunk :: bytes

fun stream_loop :: "part list \<Rightarrow> part list \<Rightarrow> part list list" where
  "stream_loop [] tensor_parts = (if tensor_parts = [] then [] else [tensor_parts])"
| "stream_loop (p # ps) tensor_parts =
     (if has_dtype p \<and> tensor_parts \<noteq> [] then tensor_parts # stream_loop ps [p] else stream_loop ps (tensor_parts @ [p]))"

fun first_error :: "'a result list \<Rightarrow> 'a list result" where
  "first_error [] = Inr []"
| "first_error (Inl e # rs) = Inl e"
| "first_error (Inr x # rs) = map_sum id ((#) x) (first_error rs)"

definition deserialize_tensor_stream :: "codecs \<Rightarrow> nat \<Rightarrow> (part list \<Rightarrow> bytes) \<Rightarrow> part list list \<Rightarrow> bytes list result" where
  "deserialize_tensor_stream cs max_decoded combine batches =
     first_error (map (\<lambda>ps. unwrap_buffer cs max_decoded (combine ps)) (stream_loop (concat batches) []))"


section \<open>Packed integers\<close>

lemma length_be_bytes [simp]: "length (be_bytes k v) = k"
  by (induction k v rule: be_bytes.induct) auto

lemma be_value_snoc: "be_value (bs @ [b]) = be_value bs * 256 + unat b"
  by (simp add: be_value_def)

lemma unat_byte: "unat (word_of_nat v :: byte) = v mod 256"
  by (simp add: unat_of_nat)

lemma be_roundtrip: "v < 256 ^ k \<Longrightarrow> be_value (be_bytes k v) = v"
proof (induction k v rule: be_bytes.induct)
  case (1 v)
  then show ?case by (simp add: be_value_def)
next
  case (2 k v)
  then have "v div 256 < 256 ^ k" by (simp add: less_mult_imp_div_less mult.commute)
  with 2 show ?case by (simp add: be_value_snoc unat_byte del: be_bytes.simps(1))
qed

lemma pack_uint_Inr: "pack_uint k v = Inr bs \<Longrightarrow> length bs = k \<and> be_value bs = v"
  by (auto simp: pack_uint_def be_roundtrip split: if_splits)

lemma pyslice_prefix: "length xs = b \<Longrightarrow> pyslice 0 b (xs @ ys) = xs"
  by (simp add: pyslice_def)

lemma pyslice_middle: "length xs = a \<Longrightarrow> a + length ys = b \<Longrightarrow> pyslice a b (xs @ ys @ zs) = ys"
  by (auto simp: pyslice_def)

lemma parse_packed:
  assumes "pack_header algo_id n = Inr h"
  shows "parse_wrapper strict (h @ payload) = Inr (Some (algo_id, n, payload))" and "length h = 14"
proof -
  obtain v a s where h: "h = MAGIC @ v @ a @ s" "pack_uint 1 VERSION = Inr v" "pack_uint 1 algo_id = Inr a" "pack_uint 8 n = Inr s"
    using assms by (auto simp: pack_header_def split: sum.splits)
  have l: "length v = 1" "length a = 1" "length s = 8" "be_value v = VERSION" "be_value a = algo_id" "be_value s = n"
    using h pack_uint_Inr by blast+
  show "length h = 14" using l h(1) by (simp add: MAGIC_def)
  have m: "length MAGIC = 4" by (simp add: MAGIC_def)
  have "take 4 (h @ payload) = MAGIC" using h(1) m by simp
  moreover have "pyslice 4 5 (h @ payload) = v" using h(1) m l pyslice_middle [of MAGIC 4 v 5 "a @ s @ payload"] by simp
  moreover have "pyslice 5 6 (h @ payload) = a" using h(1) m l pyslice_middle [of "MAGIC @ v" 5 a 6 "s @ payload"] by simp
  moreover have "pyslice 6 14 (h @ payload) = s" using h(1) m l pyslice_middle [of "MAGIC @ v @ a" 6 s 14 payload] by simp
  ultimately show "parse_wrapper strict (h @ payload) = Inr (Some (algo_id, n, payload))"
    using l \<open>length h = 14\<close> by (simp add: parse_wrapper_def HEADER_SIZE_def Let_def)
qed

section \<open>Lanes\<close>

lemma residue_iff:
  assumes "k < s" and "c < (s :: nat)"
  shows "(k \<le> c + a * s \<and> (c + a * s - k) mod s = 0) \<longleftrightarrow> c = k"
proof
  assume h: "k \<le> c + a * s \<and> (c + a * s - k) mod s = 0"
  then have "(c + a * s) mod s = k mod s" by (metis mod_eq_dvd_iff_nat mod_0_imp_dvd)
  with assms show "c = k" by simp
qed (use assms in simp)

lemma length_set_stride [simp]: "length (set_stride k s vals out) = length out"
  by (simp add: set_stride_def)

lemma nth_set_stride:
  assumes "k < s" and "c < s" and "c + a * s < length out"
  shows "set_stride k s vals out ! (c + a * s) = (if c = k then vals ! a else out ! (c + a * s))"
  using assms residue_iff [OF assms(1,2), of a] by (auto simp: set_stride_def)

lemma length_stride: "k < s \<Longrightarrow> length xs = s * q \<Longrightarrow> length (stride k s xs) = q"
proof -
  assume a: "k < s" "length xs = s * q"
  have "(s * q + (s - 1) - k) div s = q"
    using a(1) by (intro div_nat_eqI) (auto simp: algebra_simps)
  with a(2) show ?thesis by (simp add: stride_def)
qed

lemma nth_stride: "k < s \<Longrightarrow> length xs = s * q \<Longrightarrow> i < q \<Longrightarrow> stride k s xs ! i = xs ! (k + i * s)"
  using length_stride [of k s xs q] by (simp add: stride_def)

lemma split_index:
  assumes "i < s * q" and "0 < (s :: nat)"
  obtains a c where "i = c + a * s" and "c < s" and "a < q"
proof
  show "i = i mod s + i div s * s" by (simp add: mult.commute)
  show "i mod s < s" using assms(2) by simp
  show "i div s < q" using assms(1) by (simp add: less_mult_imp_div_less mult.commute)
qed

lemma lanes_roundtrip:
  assumes "elem_size = 2 \<or> elem_size = 4" and "length raw = elem_size * q"
  shows "\<exists>high low. split_high_byte_lane raw elem_size = Inr (high, low) \<and> length high = q \<and> length low = length raw - q \<and>
     reconstruct_high_byte_lane high low elem_size (length raw) = Inr raw"
  using assms(1)
proof
  assume e: "elem_size = 2"
  have l: "length (stride 1 2 raw) = q" "length (stride 0 2 raw) = q" using assms(2) e by (simp_all add: length_stride)
  have "set_stride 1 2 (stride 1 2 raw) (set_stride 0 2 (stride 0 2 raw) (replicate (length raw) 0)) = raw"
  proof (rule nth_equalityI)
    fix i assume "i < length (set_stride 1 2 (stride 1 2 raw) (set_stride 0 2 (stride 0 2 raw) (replicate (length raw) 0)))"
    then have "i < 2 * q" using assms(2) e by simp
    then obtain a c where i: "i = c + a * 2" "c < 2" "a < q" by (rule split_index) simp
    have lt: "c + a * 2 < length raw" using i assms(2) e by simp
    show "set_stride 1 2 (stride 1 2 raw) (set_stride 0 2 (stride 0 2 raw) (replicate (length raw) 0)) ! i = raw ! i"
    proof -
      have "set_stride 1 2 (stride 1 2 raw) (set_stride 0 2 (stride 0 2 raw) (replicate (length raw) 0)) ! (c + a * 2) =
          (if c = 1 then stride 1 2 raw ! a else if c = 0 then stride 0 2 raw ! a else replicate (length raw) 0 ! (c + a * 2))"
        using i(2) lt by (simp only: nth_set_stride length_set_stride length_replicate)
      moreover have "stride c 2 raw ! a = raw ! (c + a * 2)" using i assms(2) e by (simp add: nth_stride)
      ultimately show ?thesis unfolding i(1) using i(2) by (auto simp: less_2_cases_iff)
    qed
  qed simp
  then show ?thesis using e l assms(2) by (simp add: split_high_byte_lane_def reconstruct_high_byte_lane_def Let_def)
next
  assume e: "elem_size = 4"
  define high where "high = stride 3 4 raw"
  define low where "low = set_stride 2 3 (stride 2 4 raw) (set_stride 1 3 (stride 1 4 raw) (set_stride 0 3 (stride 0 4 raw) (replicate (length raw - length high) 0)))"
  have l: "length high = q" "length low = 3 * q" using assms(2) e by (simp_all add: high_def low_def length_stride)
  have low: "low ! (c + a * 3) = raw ! (c + a * 4)" if "c < 3" "a < q" for a c
  proof -
    have lt: "c + a * 3 < length raw - length high" using that assms(2) e l(1) by simp
    have cs: "c = 0 \<or> c = 1 \<or> c = 2" using that(1) by linarith
    have "low ! (c + a * 3) = (if c = 2 then stride 2 4 raw ! a else if c = 1 then stride 1 4 raw ! a
        else if c = 0 then stride 0 4 raw ! a else replicate (length raw - length high) 0 ! (c + a * 3))"
      unfolding low_def using that(1) lt by (simp only: nth_set_stride length_set_stride length_replicate)
    then have "low ! (c + a * 3) = stride c 4 raw ! a" using cs by auto
    also have "\<dots> = raw ! (c + a * 4)" using that assms(2) e by (simp add: nth_stride)
    finally show ?thesis .
  qed
  let ?out = "set_stride 3 4 high (set_stride 2 4 (stride 2 3 low) (set_stride 1 4 (stride 1 3 low) (set_stride 0 4 (stride 0 3 low) (replicate (length raw) 0))))"
  have "?out = raw"
  proof (rule nth_equalityI)
    fix i assume "i < length ?out"
    then have "i < 4 * q" using assms(2) e by simp
    then obtain a c where i: "i = c + a * 4" "c < 4" "a < q" by (rule split_index) simp
    have lt: "c + a * 4 < length raw" using i assms(2) e by simp
    have st: "stride k 3 low ! a = raw ! (k + a * 4)" if "k < 3" for k
      using that i(3) l(2) low by (simp add: nth_stride)
    have hi: "high ! a = raw ! (3 + a * 4)" unfolding high_def using i(3) assms(2) e by (simp add: nth_stride)
    have cs: "c = 0 \<or> c = 1 \<or> c = 2 \<or> c = 3" using i(2) by linarith
    have "?out ! (c + a * 4) = (if c = 3 then high ! a else if c = 2 then stride 2 3 low ! a else if c = 1 then stride 1 3 low ! a
        else if c = 0 then stride 0 3 low ! a else replicate (length raw) 0 ! (c + a * 4))"
      using i(2) lt by (simp only: nth_set_stride length_set_stride length_replicate)
    with st hi cs show "?out ! i = raw ! i" unfolding i(1) by auto
  qed simp
  then have "reconstruct_high_byte_lane high low 4 (length raw) = Inr raw"
    using e l assms(2) unfolding reconstruct_high_byte_lane_def Let_def by simp
  moreover have "split_high_byte_lane raw 4 = Inr (high, low)"
    unfolding split_high_byte_lane_def Let_def high_def [symmetric] low_def [symmetric] by simp
  ultimately show ?thesis using e l assms(2) by simp
qed


section \<open>What the compressors promise\<close>

text \<open>Everything the sender's compressors produce, the receiver's decompressors restore.\<close>

definition codecs_match :: "codecs \<Rightarrow> codecs \<Rightarrow> bool" where
  "codecs_match cs cr \<longleftrightarrow>
     (\<forall>c. zstd_compress cs = Some c \<longrightarrow> (\<exists>d. zstd_decompress cr = Some d \<and> (\<forall>x. d (c x) (length x) = Inr x))) \<and>
     (\<forall>x. zlib_decompress cr (zlib_compress cs x) (length x + 1) = Inr \<lparr>z_raw = x, z_unconsumed = [], z_eof = True, z_unused = []\<rparr>) \<and>
     (\<forall>dt c. zipnn_compress cs dt = Some c \<longrightarrow> (\<exists>d. zipnn_decompress cr = Some d \<and> (\<forall>x y. c x = Inr y \<longrightarrow> d y = Inr x))) \<and>
     (\<forall>kind c. dict_compress cs kind = Some c \<longrightarrow> (\<exists>d. dict_decompress cr kind = Some d \<and> (\<forall>x. d (c x) (length x) = Inr x)))"

lemma codecs_match_cases:
  assumes "codecs_match cs cr"
  shows "zstd_compress cs = Some c \<Longrightarrow> \<exists>d. zstd_decompress cr = Some d \<and> (\<forall>x. d (c x) (length x) = Inr x)"
    and "zlib_decompress cr (zlib_compress cs x) (length x + 1) = Inr \<lparr>z_raw = x, z_unconsumed = [], z_eof = True, z_unused = []\<rparr>"
    and "zipnn_compress cs dt = Some f \<Longrightarrow> \<exists>d. zipnn_decompress cr = Some d \<and> (\<forall>x y. f x = Inr y \<longrightarrow> d y = Inr x)"
    and "dict_compress cs kind = Some c \<Longrightarrow> \<exists>d. dict_decompress cr kind = Some d \<and> (\<forall>x. d (c x) (length x) = Inr x)"
  using assms unfolding codecs_match_def by simp_all

lemma zstd_lane_restored:
  assumes "codecs_match cs cr" and "zstd_lane cs lane = Inr c"
  shows "decompress_with_algo cr ALGO_ZSTD c (length lane) = Inr lane"
proof -
  obtain f where f: "zstd_compress cs = Some f" "c = f lane"
    using assms(2) by (auto simp: zstd_lane_def compress_with_algo_def ALGO_ZSTD_def split: option.splits if_splits)
  obtain d where d: "zstd_decompress cr = Some d" "d (f lane) (length lane) = Inr lane"
    using codecs_match_cases(1) [OF assms(1) f(1)] by blast
  show ?thesis using d f by (simp add: decompress_with_algo_def check_size_def)
qed

lemma split_decode:
  assumes "build_split enc_high enc_low algo_id raw elem_size = Inr w"
    and "elem_size = 2 \<or> elem_size = 4" and "length raw mod elem_size = 0"
    and "\<And>lane c. enc_high lane = Inr c \<Longrightarrow> length lane = length raw div elem_size \<Longrightarrow> dec_high c (length lane) = Inr lane"
    and "\<And>lane c. enc_low lane = Inr c \<Longrightarrow> length lane = length raw - length raw div elem_size \<Longrightarrow> dec_low c (length lane) = Inr lane"
  shows "\<exists>payload h l. parse_wrapper True w = Inr (Some (algo_id, length raw, payload)) \<and> decode_split dec_high dec_low payload (length raw) = Inr raw \<and>
     (\<exists>high low. enc_high high = Inr h \<and> enc_low low = Inr l \<and> length low = length raw - length raw div elem_size \<and>
        drop (BYTE_SPLIT_PAYLOAD_SIZE + be_value (pyslice 1 5 payload)) payload = l)"
proof -
  define q where "q = length raw div elem_size"
  have raw: "length raw = elem_size * q" using assms(2,3) by (auto simp: q_def)
  from lanes_roundtrip [OF assms(2) raw] obtain high low where
    lanes: "split_high_byte_lane raw elem_size = Inr (high, low)" "length high = q" "length low = length raw - q"
      "reconstruct_high_byte_lane high low elem_size (length raw) = Inr raw" by blast
  obtain h l payload where b: "enc_high high = Inr h" "enc_low low = Inr l" "split_payload elem_size h l = Inr payload"
    "with_header algo_id raw payload = Inr w"
    using assms(1) lanes(1) by (auto simp: build_split_def split: sum.splits)
  obtain hd where hd: "pack_header algo_id (length raw) = Inr hd" "w = hd @ payload" using b(4) by (auto simp: with_header_def split: sum.splits elim: map_sum_Inr_cases)
  obtain e n where p: "payload = e @ n @ h @ l" "pack_uint 1 elem_size = Inr e" "pack_uint 4 (length h) = Inr n"
    using b(3) by (auto simp: split_payload_def split: sum.splits)
  have en: "length e = 1" "be_value e = elem_size" "length n = 4" "be_value n = length h" using p(2,3) pack_uint_Inr by blast+
  have s1: "pyslice 0 1 payload = e" using p(1) en by (simp add: pyslice_def)
  have s2: "pyslice 1 5 payload = n" using p(1) en pyslice_middle [of e 1 n 5 "h @ l"] by simp
  have s3: "pyslice 5 (5 + length h) payload = h" using p(1) en pyslice_middle [of "e @ n" 5 h "5 + length h" l] by simp
  have s4: "drop (5 + length h) payload = l" using p(1) en by simp
  have "length payload = 5 + length h + length l" using p(1) en by simp
  moreover have "dec_high h q = Inr high" using assms(4) [OF b(1)] lanes(2) by (simp add: q_def)
  moreover have "dec_low l (length raw - q) = Inr low" using assms(5) [OF b(2)] lanes(3) by (simp add: q_def)
  ultimately have "decode_split dec_high dec_low payload (length raw) = Inr raw"
    using s1 s2 s3 s4 en lanes(4) assms(2,3) by (auto simp: decode_split_def BYTE_SPLIT_PAYLOAD_SIZE_def Let_def q_def)
  moreover have "parse_wrapper True w = Inr (Some (algo_id, length raw, payload))" unfolding hd(2) by (rule parse_packed(1) [OF hd(1)])
  moreover have "drop (BYTE_SPLIT_PAYLOAD_SIZE + be_value (pyslice 1 5 payload)) payload = l"
    using s2 s4 en by (simp add: BYTE_SPLIT_PAYLOAD_SIZE_def)
  ultimately show ?thesis using b(1,2) lanes(3) unfolding q_def by blast
qed

section \<open>Every candidate decodes\<close>

definition decodes_to :: "codecs \<Rightarrow> nat \<Rightarrow> bytes \<Rightarrow> bytes \<Rightarrow> bool" where
  "decodes_to cr max_decoded raw w \<longleftrightarrow> (length raw \<le> max_decoded \<longrightarrow> unwrap_buffer cr max_decoded w = Inr raw)"

lemma zstd_split_decodes:
  assumes "codecs_match cs cr" and "build_zstd_byte_split_wrapper cs raw es = Inr w" and "es = 2 \<or> es = 4" and "length raw mod es = 0"
  shows "decodes_to cr mx raw w"
proof -
  from split_decode [where dec_high = "decompress_with_algo cr ALGO_ZSTD" and dec_low = "decompress_with_algo cr ALGO_ZSTD",
      OF assms(2) [unfolded build_zstd_byte_split_wrapper_def] assms(3,4)
      zstd_lane_restored [OF assms(1)] zstd_lane_restored [OF assms(1)]]
  obtain payload where "parse_wrapper True w = Inr (Some (ALGO_ZSTD_BYTE_SPLIT, length raw, payload))"
    "decode_split (decompress_with_algo cr ALGO_ZSTD) (decompress_with_algo cr ALGO_ZSTD) payload (length raw) = Inr raw" by blast
  then show ?thesis by (simp add: decodes_to_def unwrap_buffer_def decode_zstd_byte_split_payload_def)
qed

lemma high_only_decodes:
  assumes "codecs_match cs cr" and "build_zstd_byte_split_high_only_wrapper cs raw es = Inr w" and "es = 2 \<or> es = 4" and "length raw mod es = 0"
  shows "decodes_to cr mx raw w"
proof -
  have lo: "\<And>lane c. (Inr lane :: bytes result) = Inr c \<Longrightarrow> length lane = length raw - length raw div es \<Longrightarrow> (\<lambda>low k. Inr low) c (length lane) = Inr lane" by simp
  from split_decode [where dec_high = "decompress_with_algo cr ALGO_ZSTD" and dec_low = "\<lambda>low k. Inr low",
      OF assms(2) [unfolded build_zstd_byte_split_high_only_wrapper_def] assms(3,4) zstd_lane_restored [OF assms(1)] lo]
  obtain payload low where p: "parse_wrapper True w = Inr (Some (ALGO_ZSTD_BYTE_SPLIT_HIGH_ONLY, length raw, payload))"
    "decode_split (decompress_with_algo cr ALGO_ZSTD) (\<lambda>low k. Inr low) payload (length raw) = Inr raw"
    "length low = length raw - length raw div es" "drop (BYTE_SPLIT_PAYLOAD_SIZE + be_value (pyslice 1 5 payload)) payload = low" by force
  have "decode_split (\<lambda>high k. if length (drop (BYTE_SPLIT_PAYLOAD_SIZE + be_value (pyslice 1 5 payload)) payload) \<noteq> length raw - k
          then Inl ValueError else decompress_with_algo cr ALGO_ZSTD high k) (\<lambda>low k. Inr low) payload (length raw) = Inr raw"
    using p(2) unfolding decode_split_def
    by (auto simp: Let_def reconstruct_high_byte_lane_def p(4) split: if_splits sum.splits)
  with p(1) show ?thesis by (simp add: decodes_to_def unwrap_buffer_def decode_zstd_byte_split_high_only_payload_def algo_defs)
qed

lemma dict_split_decodes:
  assumes "codecs_match cs cr" and "build_dict_byte_split_wrapper cs kind raw es = Inr w" and "es = 2 \<or> es = 4" and "length raw mod es = 0"
  shows "decodes_to cr mx raw w"
proof -
  obtain c where c: "dict_compress cs kind = Some c" "build_split (\<lambda>x. Inr (c x)) (\<lambda>x. Inr (c x)) (dict_algo kind) raw es = Inr w"
    using assms(2) by (auto simp: build_dict_byte_split_wrapper_def split: option.splits)
  obtain d where d: "dict_decompress cr kind = Some d" "\<And>x. d (c x) (length x) = Inr x" using codecs_match_cases(4) [OF assms(1) c(1)] by blast
  have dec: "\<And>lane y. (Inr (c lane) :: bytes result) = Inr y \<Longrightarrow> d y (length lane) = Inr lane" using d(2) by auto
  from split_decode [where dec_high = d and dec_low = d, OF c(2) assms(3,4) dec dec]
  obtain payload where "parse_wrapper True w = Inr (Some (dict_algo kind, length raw, payload))" "decode_split d d payload (length raw) = Inr raw" by blast
  then show ?thesis using d(1) by (cases kind) (simp_all add: decodes_to_def unwrap_buffer_def decode_dict_byte_split_payload_def algo_defs)
qed

lemma zipnn_decodes:
  assumes "codecs_match cs cr" and "build_zipnn_wrapper cs dt raw = Inr w"
  shows "decodes_to cr mx raw w"
proof -
  obtain t c payload where c: "zipnn_compress cs t = Some c" "c raw = Inr payload" "with_header ALGO_ZIPNN raw payload = Inr w"
    using assms(2) by (auto simp: build_zipnn_wrapper_def split: option.splits if_splits sum.splits)
  obtain d where d: "zipnn_decompress cr = Some d" "d payload = Inr raw" using codecs_match_cases(3) [OF assms(1) c(1)] c(2) by blast
  obtain h where h: "pack_header ALGO_ZIPNN (length raw) = Inr h" "w = h @ payload" using c(3) by (auto simp: with_header_def elim: map_sum_Inr_cases)
  show ?thesis using parse_packed(1) [OF h(1), of True payload] d
    by (simp add: decodes_to_def unwrap_buffer_def h(2) algo_defs decompress_with_algo_def check_size_def)
qed

lemma plain_decodes:
  assumes "codecs_match cs cr" and "plain_candidate cs cfg raw = Inr cands" and "(a, w) \<in> set cands"
  shows "decodes_to cr mx raw w"
proof -
  obtain c where c: "compress_with_algo cs (algo cfg) raw = (a, c)" "a \<noteq> 0" "with_header a raw c = Inr w"
    using assms(2,3) by (auto simp: plain_candidate_def build_plain_wrapper_def split: sum.splits if_splits prod.splits elim!: map_sum_Inr_cases)
  obtain h where h: "pack_header a (length raw) = Inr h" "w = h @ c" using c(3) by (auto simp: with_header_def elim: map_sum_Inr_cases)
  have "decompress_with_algo cr a c (length raw) = Inr raw \<and> a \<in> {ALGO_ZSTD, ALGO_ZLIB}"
  proof (cases "algo cfg = ''zstd''")
    case True
    then obtain f where f: "zstd_compress cs = Some f" "a = ALGO_ZSTD" "c = f raw"
      using c(1,2) by (auto simp: compress_with_algo_def split: option.splits)
    then have "zstd_lane cs raw = Inr c" by (simp add: zstd_lane_def compress_with_algo_def)
    with zstd_lane_restored [OF assms(1)] f show ?thesis by simp
  next
    case False
    then have f: "a = ALGO_ZLIB" "c = zlib_compress cs raw" using c(1,2) by (auto simp: compress_with_algo_def split: if_splits)
    have "zlib_decompress cr c (length raw + 1) = Inr \<lparr>z_raw = raw, z_unconsumed = [], z_eof = True, z_unused = []\<rparr>"
      using codecs_match_cases(2) [OF assms(1)] f(2) by simp
    with f(1) show ?thesis by (simp add: decompress_with_algo_def decompress_zlib_capped_def check_size_def algo_defs)
  qed
  then show ?thesis using parse_packed(1) [OF h(1), of True c]
    by (auto simp: decodes_to_def unwrap_buffer_def h(2) algo_defs)
qed


section \<open>Properties\<close>

lemma byte_split_elements:
  assumes "supports_byte_split_layout cfg t unc (length raw) ctx"
  shows "(tensor_elem_size t = 2 \<or> tensor_elem_size t = 4) \<and> length raw mod tensor_elem_size t = 0"
proof -
  obtain m where m: "t = Some m" "tdtype m \<noteq> OtherDtype" "length raw = tnumel m * element_size (tdtype m)"
    using assms by (auto simp: supports_byte_split_layout_def split: option.splits)
  then show ?thesis by (cases "tdtype m") (auto simp: tensor_elem_size_def)
qed

lemma candidate_decodes:
  "(\<And>w. r = Inr w \<Longrightarrow> decodes_to cr mx raw w) \<Longrightarrow> \<forall>x \<in> set (candidate a r). decodes_to cr mx raw (snd x)"
  by (auto simp: candidate_def split: sum.splits)

lemma candidates_decode:
  assumes "codecs_match cs cr" and "wrapper_candidates cs cfg t unc ctx raw = Inr cands"
  shows "\<forall>x \<in> set cands. decodes_to cr mx raw (snd x)"
proof -
  define bs where "bs = supports_byte_split_layout cfg t unc (length raw) ctx"
  define zn where "zn = supports_zipnn_transport cs cfg t unc (length raw) ctx"
  define es where "es = tensor_elem_size t"
  define zipnn where "zipnn = candidate ALGO_ZIPNN (build_zipnn_wrapper cs (map_option tdtype t) raw)"
  define dict where "dict = (\<lambda>kind. candidate (dict_algo kind) (build_dict_byte_split_wrapper cs kind raw es))"
  define zs where "zs = candidate ALGO_ZSTD_BYTE_SPLIT (build_zstd_byte_split_wrapper cs raw es)"
  define hi where "hi = candidate ALGO_ZSTD_BYTE_SPLIT_HIGH_ONLY (build_zstd_byte_split_high_only_wrapper cs raw es)"
  define phase where "phase = lower (context_value ctx ''phase'')"
  let ?ok = "\<lambda>xs. \<forall>x \<in> set xs. decodes_to cr mx raw (snd x)"
  have e: "es = 2 \<or> es = 4" "length raw mod es = 0" if bs using byte_split_elements that unfolding bs_def es_def by blast+
  have z: "?ok zipnn" unfolding zipnn_def by (rule candidate_decodes) (rule zipnn_decodes [OF assms(1)])
  have d: "?ok (dict kind)" if bs for kind unfolding dict_def by (rule candidate_decodes) (rule dict_split_decodes [OF assms(1) _ e [OF that]])
  have s: "?ok zs" if bs unfolding zs_def by (rule candidate_decodes) (rule zstd_split_decodes [OF assms(1) _ e [OF that]])
  have h: "?ok hi" if bs unfolding hi_def by (rule candidate_decodes) (rule high_only_decodes [OF assms(1) _ e [OF that]])
  have p: "?ok ps" if "plain_candidate cs cfg raw = Inr ps" for ps using plain_decodes [OF assms(1) that] by auto
  note w = assms(2) [unfolded wrapper_candidates_def Let_def, folded bs_def zn_def es_def, folded zipnn_def dict_def zs_def hi_def, folded phase_def]
  consider "algo cfg = ''zipnn''"
    | "algo cfg \<noteq> ''zipnn''" "algo cfg \<in> {''zstd_dict'', ''zstd_dict_byte_split'', ''zstd_dict_byte_split_zstd''}"
    | "algo cfg = ''phase_aware_dict''"
    | "algo cfg \<in> {''adaptive_hybrid'', ''hybrid_adaptive''}"
    | "algo cfg \<noteq> ''zipnn''" "algo cfg \<notin> {''zstd_dict'', ''zstd_dict_byte_split'', ''zstd_dict_byte_split_zstd''}"
      "algo cfg \<noteq> ''phase_aware_dict''" "algo cfg \<notin> {''adaptive_hybrid'', ''hybrid_adaptive''}" by blast
  then show ?thesis
  proof cases
    case 1
    with w have "cands = (if zn then zipnn else [])" by simp
    with z show ?thesis by auto
  next
    case 2
    with w have "cands = (if bs then dict AnyPhase else [])" by (simp add: dict_def split: if_splits)
    then show ?thesis using d [of AnyPhase] by (cases bs) simp_all
  next
    case 3
    with w have "cands \<in> {[], dict PrefillDict, dict DecodeDict, zs} \<and> (cands \<noteq> [] \<longrightarrow> bs)" unfolding dict_def by (auto split: if_splits)
    with d s show ?thesis by auto
  next
    case 4
    with w have "cands \<in> {[], dict AnyPhase, zipnn} \<and> (cands = dict AnyPhase \<longrightarrow> bs \<or> cands = [] \<or> cands = zipnn)" unfolding dict_def by (auto split: if_splits)
    with d z show ?thesis by auto
  next
    case 5
    define split where "split = (if layout cfg = ''byte_split_high_only'' then hi else zs)"
    have so: "?ok split" if bs using s [OF that] h [OF that] by (simp add: split_def)
    from 5 w have "(if single_path cfg \<and> algo cfg = ''zstd'' \<and> bs then (if split \<noteq> [] then Inr split else plain_candidate cs cfg raw)
        else map_sum id (\<lambda>plain. plain @ (if bs then split else [])) (plain_candidate cs cfg raw)) = Inr cands"
      unfolding split_def by simp
    then show ?thesis using so p by (auto split: if_splits elim!: map_sum_Inr_cases simp del: split_paired_All) (metis snd_conv)+
  qed
qed

lemma candidates_total:
  assumes "length raw < 256 ^ 8"
  shows "\<exists>cands. wrapper_candidates cs cfg t unc ctx raw = Inr cands"
proof -
  have "\<exists>ps. plain_candidate cs cfg raw = Inr ps"
    using assms by (auto simp: plain_candidate_def build_plain_wrapper_def compress_with_algo_def with_header_def pack_header_def pack_uint_def
        VERSION_def algo_defs split: option.splits)
  then show ?thesis by (auto simp: wrapper_candidates_def Let_def)
qed

lemma shortest_in: "cands \<noteq> [] \<Longrightarrow> shortest cands \<in> set cands"
proof -
  have "foldl (\<lambda>b x. if length (snd x) < length (snd b) then x else b) b xs \<in> insert b (set xs)" for b and xs :: "(nat \<times> bytes) list"
    by (induction xs arbitrary: b) auto
  from this [of "hd cands" "tl cands"] show "cands \<noteq> [] \<Longrightarrow> ?thesis" by (cases cands) (auto simp: shortest_def)
qed

text \<open>
  C11 Sending and receiving a tensor buffer restores it byte for byte, for every configuration, tensor
  type and context: whatever wrapper the sender chooses, the receiver's decoder returns the original
  buffer, and the wire bytes are the buffer itself or are shorter by more than the required gain.
  The buffer must not itself look like a wrapper and must fit the receiver's limit.
\<close>
theorem wire_roundtrip:
  assumes "codecs_match cs cr" and "parse_wrapper True raw = Inr None" and "length raw \<le> max_decoded" and "length raw < 256 ^ 8"
  shows "\<exists>wire reason. wrap_serialized_tensor cs cfg t unc ctx raw = Inr (wire, reason) \<and> unwrap_buffer cr max_decoded wire = Inr raw \<and>
     (wire = raw \<or> reason = Applied \<and> length wire + min_gain_bytes cfg < length raw)"
proof -
  have same: "unwrap_buffer cr max_decoded raw = Inr raw" using assms(2) by (simp add: unwrap_buffer_def)
  have np: "\<not> (case parse_wrapper False raw of Inr (Some x) \<Rightarrow> True | _ \<Rightarrow> False)"
    using assms(2) by (auto simp: parse_wrapper_def Let_def split: if_splits)
  obtain cands where c: "wrapper_candidates cs cfg t unc ctx raw = Inr cands" using candidates_total [OF assms(4)] by blast
  consider "\<not> send_enabled cfg \<or> raw = [] \<or> length raw < min_bytes cfg \<or> cands = [] \<or> length raw \<le> length (snd (shortest cands)) + min_gain_bytes cfg"
    | "send_enabled cfg" "raw \<noteq> []" "\<not> length raw < min_bytes cfg" "cands \<noteq> []" "\<not> length raw \<le> length (snd (shortest cands)) + min_gain_bytes cfg" by blast
  then show ?thesis
  proof cases
    case 1
    then have "\<exists>reason. wrap_serialized_tensor cs cfg t unc ctx raw = Inr (raw, reason)"
      unfolding wrap_serialized_tensor_def if_not_P [OF np] c Let_def by auto
    with same show ?thesis by blast
  next
    case 2
    then have "wrap_serialized_tensor cs cfg t unc ctx raw = Inr (snd (shortest cands), Applied)"
      unfolding wrap_serialized_tensor_def if_not_P [OF np] c Let_def by simp
    moreover have "decodes_to cr max_decoded raw (snd (shortest cands))"
      using candidates_decode [OF assms(1) c] shortest_in [OF 2(4)] by blast
    ultimately show ?thesis using assms(3) 2(5) by (simp add: decodes_to_def)
  qed
qed

text \<open>
  C31 Decoding is safe against hostile buffers, whatever the decompressors return: a buffer without a
  valid header is passed through unchanged, and otherwise the decoder either raises or returns exactly
  the declared number of bytes, which never exceeds the configured limit.
\<close>
theorem unwrap_is_bounded:
  assumes "unwrap_buffer cr max_decoded buffer = Inr out"
  shows "(parse_wrapper True buffer = Inr None \<and> out = buffer) \<or>
     (\<exists>algo_id payload. parse_wrapper True buffer = Inr (Some (algo_id, length out, payload)) \<and> length out \<le> max_decoded)"
proof -
  have rec: "length out = n" if "reconstruct_high_byte_lane h l e n = Inr out" for h l e n
    using that by (auto simp: reconstruct_high_byte_lane_def Let_def split: if_splits)
  have split: "length out = n" if "decode_split dh dl payload n = Inr out" for dh dl payload n
    using that rec by (auto simp: decode_split_def Let_def split: if_splits sum.splits)
  have plain: "length out = n" if "decompress_with_algo cr a payload n = Inr out" for a payload n
    using that by (auto simp: decompress_with_algo_def check_size_def split: if_splits option.splits sum.splits)
  show ?thesis
  proof (cases "parse_wrapper True buffer")
    case (Inr r)
    show ?thesis
    proof (cases r)
      case None
      then show ?thesis using assms Inr by (simp add: unwrap_buffer_def)
    next
      case (Some x)
      obtain a n payload where x: "x = (a, n, payload)" by (cases x) auto
      have lim: "n \<le> max_decoded" using assms Inr Some x by (auto simp: unwrap_buffer_def split: if_splits)
      have "length out = n"
        using assms Inr Some x split plain
        by (auto simp: unwrap_buffer_def decode_zstd_byte_split_payload_def decode_dict_byte_split_payload_def
            decode_zstd_byte_split_high_only_payload_def split: if_splits option.splits)
      then show ?thesis using Inr Some x lim by blast
    qed
  qed (use assms in \<open>simp add: unwrap_buffer_def\<close>)
qed

text \<open>
  A stream of tensors, each sent as parts of which only the first carries the dtype, is cut back into
  the same tensors.
\<close>
lemma stream_regroups:
  assumes "\<forall>ps \<in> set tensors. \<exists>p rest. ps = p # rest \<and> has_dtype p \<and> (\<forall>q \<in> set rest. \<not> has_dtype q)"
  shows "stream_loop (concat tensors) [] = tensors"
proof -
  have skip: "\<forall>q \<in> set rest. \<not> has_dtype q \<Longrightarrow> stream_loop (rest @ more) acc = stream_loop more (acc @ rest)" for rest more acc
    by (induction rest arbitrary: acc) auto
  show ?thesis
  proof (cases tensors)
    case (Cons ps ts)
    then obtain p rest where p: "ps = p # rest" "has_dtype p" "\<forall>q \<in> set rest. \<not> has_dtype q" using assms by auto
    have ts: "\<forall>ps \<in> set ts. \<exists>p rest. ps = p # rest \<and> has_dtype p \<and> (\<forall>q \<in> set rest. \<not> has_dtype q)" using assms Cons by auto
    have "stream_loop (concat ts) acc = acc # ts" if "acc \<noteq> []" for acc
      using ts that
    proof (induction ts arbitrary: acc)
      case (Cons ps tensors)
      then obtain p rest where "ps = p # rest" "has_dtype p" "\<forall>q \<in> set rest. \<not> has_dtype q" by auto
      with Cons skip [of rest "concat tensors" "[p]"] show ?case by simp
    qed simp
    then show ?thesis using p skip [of rest "concat ts" "[p]"] by (simp add: Cons)
  qed simp
qed

definition demo_codecs :: codecs where
  "demo_codecs = \<lparr>zstd_compress = Some (\<lambda>x. x), zstd_decompress = Some (\<lambda>x n. Inr x), zlib_compress = (\<lambda>x. x),
     zlib_decompress = (\<lambda>x n. Inr \<lparr>z_raw = x, z_unconsumed = [], z_eof = True, z_unused = []\<rparr>),
     zipnn_compress = (\<lambda>dt. None), zipnn_decompress = None, dict_compress = (\<lambda>k. None), dict_decompress = (\<lambda>k. None)\<rparr>"

definition demo_settings :: settings where
  "demo_settings = \<lparr>send_enabled = True, algo = ''zstd'', layout = ''byte_split'', single_path = True, min_bytes = 1, min_gain_bytes = 0,
     layout_targets = ''*:*:hidden_states'', hybrid_dict_blocks = ''0:20'', little_endian = True\<rparr>"

theorem wire_roundtrip_witness:
  "\<exists>wire reason. wrap_serialized_tensor demo_codecs demo_settings None True [] [1, 2, 3] = Inr (wire, reason) \<and>
     unwrap_buffer demo_codecs 100 wire = Inr [1, 2, 3]"
proof -
  have "codecs_match demo_codecs demo_codecs" by (simp add: codecs_match_def demo_codecs_def)
  from wire_roundtrip [OF this, of "[1, 2, 3]" 100 demo_settings None True "[]"] show ?thesis
    by (simp add: parse_wrapper_def HEADER_SIZE_def) blast
qed

definition demo_wire :: bytes where
  "demo_wire = MAGIC @ be_bytes 1 1 @ be_bytes 1 1 @ be_bytes 8 2 @ [7, 9]"

theorem unwrap_is_bounded_witness: "unwrap_buffer demo_codecs 100 demo_wire = Inr [7, 9] \<and> length ([7, 9] :: bytes) \<le> 100"
proof -
  have "unwrap_buffer demo_codecs 100 demo_wire = Inr [7, 9]" by code_simp
  with unwrap_is_bounded [OF this] show ?thesis by auto
qed

end
