(* ===== verification/ServerStage.thy ===== *)
theory ServerStage
  imports BB_Prelude
begin

text \<open>
  One stage of the pipeline: a server that runs the blocks \<open>a..<b\<close> of a model on behalf of one
  inference session, \<open>iterate_rpc_inference\<close> of \<^verbatim>\<open>server/block_functions.py\<close> with its
  position accounting, and the contract a client relies on.

  A hidden-state tensor of shape (batch, tokens, hidden) is a list of batch rows of token vectors; the
  token vector is an arbitrary type. A transformer block is a function on the token vectors of one
  batch row, a parameter of the model; its contract is that it keeps the length and is causal. The
  cache keeps one input vector per block, batch row and position, written and read by position as the
  pre-allocated tensors of the server are. Attention inside a speculative step is a parameter.
\<close>

section \<open>Tensors of token vectors\<close>

definition width :: "'h list list \<Rightarrow> nat" where
  "width x = (case x of [] \<Rightarrow> 0 | r # rs \<Rightarrow> length r)"

text \<open>\<open>x[:, -n:]\<close>; \<open>-0\<close> is 0, so no column is dropped then.\<close>

definition last_cols :: "nat \<Rightarrow> 'h list list \<Rightarrow> 'h list list" where
  "last_cols n x = map (\<lambda>r. if n = 0 then r else drop (length r - n) r) x"

definition take_cols :: "nat \<Rightarrow> 'h list list \<Rightarrow> 'h list list" where
  "take_cols n x = map (take n) x"

definition cat_cols :: "'h list list \<Rightarrow> 'h list list \<Rightarrow> 'h list list" where
  "cat_cols x y = map2 (@) x y"

definition tensor_shape :: "nat \<Rightarrow> nat \<Rightarrow> 'h list list \<Rightarrow> bool" where
  "tensor_shape B T x \<longleftrightarrow> length x = B \<and> (\<forall>r \<in> set x. length r = T)"

lemma shape_width: "tensor_shape B T x \<Longrightarrow> 0 < B \<Longrightarrow> width x = T"
  by (cases x) (auto simp: tensor_shape_def width_def)

lemma shape_take: "tensor_shape B T x \<Longrightarrow> tensor_shape B (min T n) (take_cols n x)"
  by (auto simp: tensor_shape_def take_cols_def)

lemma shape_cat: "tensor_shape B S x \<Longrightarrow> tensor_shape B T y \<Longrightarrow> tensor_shape B (S + T) (cat_cols x y)"
  by (auto simp: tensor_shape_def cat_cols_def set_zip)

lemma shape_last: "tensor_shape B T x \<Longrightarrow> 0 < n \<Longrightarrow> tensor_shape B (min n T) (last_cols n x)"
  by (auto simp: tensor_shape_def last_cols_def)

lemma last_cols_all: "tensor_shape B T x \<Longrightarrow> T \<le> n \<Longrightarrow> last_cols n x = x"
  by (auto simp: tensor_shape_def last_cols_def intro: map_idI)

lemma last_cols_last_cols:
  assumes "0 < n" and "n \<le> w"
  shows "last_cols n (last_cols w x) = last_cols n x"
  using assms by (auto simp: last_cols_def intro!: arg_cong2 [where f = drop])

lemma take_cols_all: "tensor_shape B T x \<Longrightarrow> T \<le> n \<Longrightarrow> take_cols n x = x"
  by (auto simp: tensor_shape_def take_cols_def intro: map_idI)

lemma take_cols_take: "take_cols m (take_cols n x) = take_cols (min m n) x"
  by (simp add: take_cols_def)

lemma take_cols_cat:
  assumes "tensor_shape B S x" and "tensor_shape B T y"
  shows "take_cols S (cat_cols x y) = x"
  using assms by (intro nth_equalityI) (simp_all add: tensor_shape_def cat_cols_def take_cols_def)

lemma last_cols_cat:
  assumes "tensor_shape B S x" and "tensor_shape B n y" and "0 < n"
  shows "last_cols n (cat_cols x y) = y"
  using assms by (intro nth_equalityI) (simp_all add: tensor_shape_def cat_cols_def last_cols_def)

lemma cat_take_last:
  assumes "tensor_shape B (P + n) x" and "0 < n"
  shows "cat_cols (take_cols P x) (last_cols n x) = x"
proof -
  have "take P r @ drop (length r - n) r = r" if "r \<in> set x" for r
    using assms that by (simp add: tensor_shape_def)
  then show ?thesis using assms(2) by (simp add: cat_cols_def last_cols_def take_cols_def map2_map_map map_idI)
qed

lemma cat_empty: "tensor_shape B 0 x \<Longrightarrow> tensor_shape B T y \<Longrightarrow> cat_cols x y = y"
  by (rule nth_equalityI) (simp_all add: tensor_shape_def cat_cols_def)

section \<open>Requests\<close>

datatype layout = DecodeMinimalV2 | DecodeCompactV2 | SpecCompactV1

record 'h request =
  rq_inputs :: "'h list list"
  rq_layout :: layout
  rq_start :: "nat option"
  rq_spec :: bool
  rq_pruning :: bool
  rq_kv_positions :: "int list list option"
  rq_max_length :: "nat option"
  rq_full_batch :: nat
  rq_micro_batch :: nat
  rq_next :: "nat list"

text \<open>Hidden states and the keep-indices.\<close>

type_synonym 'h reply = "'h list list \<times> int list list"

section \<open>Running a span of blocks\<close>

text \<open>What the blocks \<open>a..<b\<close> make of the rows of block \<open>a\<close>, with no cache: the specification.\<close>

definition run_span :: "(nat \<Rightarrow> 'h list \<Rightarrow> 'h list) \<Rightarrow> nat \<Rightarrow> nat \<Rightarrow> 'h list list \<Rightarrow> 'h list list" where
  "run_span blk a b x = map (\<lambda>r. fold blk [a..<b] r) x"

definition causal_blocks :: "(nat \<Rightarrow> 'h list \<Rightarrow> 'h list) \<Rightarrow> bool" where
  "causal_blocks blk \<longleftrightarrow> (\<forall>k r. length (blk k r) = length r) \<and> (\<forall>k m r. blk k (take m r) = take m (blk k r))"

lemma run_span_empty [simp]: "run_span blk a a x = x"
  by (simp add: run_span_def)

lemma run_span_compose:
  assumes "a \<le> b" and "b \<le> c"
  shows "run_span blk b c (run_span blk a b x) = run_span blk a c x"
proof -
  have "[a..<c] = [a..<b] @ [b..<c]" using assms by (metis le_Suc_ex upt_add_eq_append)
  then show ?thesis by (simp add: run_span_def)
qed

lemma fold_causal:
  assumes "causal_blocks blk"
  shows "length (fold blk ks r) = length r" and "fold blk ks (take m r) = take m (fold blk ks r)"
  using assms by (induction ks arbitrary: r) (simp_all add: causal_blocks_def)

lemma run_span_shape: "causal_blocks blk \<Longrightarrow> tensor_shape B T x \<Longrightarrow> tensor_shape B T (run_span blk a b x)"
  by (auto simp: tensor_shape_def run_span_def fold_causal)

lemma run_span_take: "causal_blocks blk \<Longrightarrow> run_span blk a b (take_cols m x) = take_cols m (run_span blk a b x)"
  by (simp add: run_span_def take_cols_def fold_causal)

section \<open>The contract of a stage\<close>

text \<open>
  What a client relies on: a fresh session holds nothing; a request that starts at position \<open>p\<close> drops
  what the session holds from \<open>p\<close> on, appends the inputs and answers with the rows of the new tokens
  that a run over all tokens would give.
\<close>

locale stage_server =
  fixes serve :: "nat \<Rightarrow> nat \<Rightarrow> 'c \<Rightarrow> 'h request \<Rightarrow> 'h reply result \<times> 'c"
    and fresh :: "nat \<Rightarrow> nat \<Rightarrow> 'c"
    and holds :: "nat \<Rightarrow> nat \<Rightarrow> 'c \<Rightarrow> 'h list list \<Rightarrow> bool"
    and blk :: "nat \<Rightarrow> 'h list \<Rightarrow> 'h list"
    and limit :: nat
  assumes fresh_holds: "tensor_shape B 0 M \<Longrightarrow> holds a b (fresh a b) M"
    and serve_exact: "causal_blocks blk \<Longrightarrow> holds a b c M \<Longrightarrow> a \<le> b \<Longrightarrow> tensor_shape B T M \<Longrightarrow> tensor_shape B n (rq_inputs rq) \<Longrightarrow> p \<le> T \<Longrightarrow>
      rq_start rq = Some p \<Longrightarrow> \<not> rq_spec rq \<Longrightarrow> 0 < B \<Longrightarrow> p + n \<le> limit \<Longrightarrow>
      \<exists>c' keep. serve a b c rq = (Inr (map (drop p) (run_span blk a b (cat_cols (take_cols p M) (rq_inputs rq))), keep), c') \<and>
                holds a b c' (cat_cols (take_cols p M) (rq_inputs rq))"


section \<open>The stage as the server runs it\<close>

record 'h stage_state =
  stage_prefix :: nat
  kv_rows :: "nat \<Rightarrow> nat \<Rightarrow> nat \<Rightarrow> 'h"

definition fresh_stage :: "'h \<Rightarrow> 'h stage_state" where
  "fresh_stage junk = \<lparr>stage_prefix = 0, kv_rows = (\<lambda>k b i. junk)\<rparr>"

definition write_rows :: "nat \<Rightarrow> 'h list list \<Rightarrow> (nat \<Rightarrow> nat \<Rightarrow> 'h) \<Rightarrow> nat \<Rightarrow> nat \<Rightarrow> 'h" where
  "write_rows p x c = (\<lambda>b i. if b < length x \<and> p \<le> i \<and> i < p + length (x ! b) then x ! b ! (i - p) else c b i)"

definition block_step :: "(nat \<Rightarrow> 'h list \<Rightarrow> 'h list) \<Rightarrow> nat \<Rightarrow> nat \<Rightarrow> 'h list list \<Rightarrow> (nat \<Rightarrow> nat \<Rightarrow> 'h) \<Rightarrow> 'h list list \<times> (nat \<Rightarrow> nat \<Rightarrow> 'h)" where
  "block_step blk k p x c =
     (let c' = write_rows p x c in
      (map (\<lambda>b. drop p (blk k (map (c' b) [0..<p + length (x ! b)]))) [0..<length x], c'))"

fun stage_blocks ::
  "(nat \<Rightarrow> 'h list \<Rightarrow> 'h list) \<Rightarrow> nat \<Rightarrow> nat list \<Rightarrow> 'h list list \<Rightarrow> (nat \<Rightarrow> nat \<Rightarrow> nat \<Rightarrow> 'h) \<Rightarrow> 'h list list \<times> (nat \<Rightarrow> nat \<Rightarrow> nat \<Rightarrow> 'h)" where
  "stage_blocks blk p [] x kv = (x, kv)"
| "stage_blocks blk p (k # ks) x kv =
     (case block_step blk k p x (kv k) of (y, c) \<Rightarrow> stage_blocks blk p ks y (kv(k := c)))"

definition effective_token_increment :: "'h list list \<Rightarrow> int list list option \<Rightarrow> bool \<Rightarrow> nat" where
  "effective_token_increment x kv_positions is_spec =
     (if \<not> is_spec then width x
      else case kv_positions of
             None \<Rightarrow> width x
           | Some rows \<Rightarrow> if concat rows = [] then 0 else length (hd rows))"

text \<open>
  A request may move the position back (or anywhere); the length check comes before any block runs.
  A speculative request runs its blocks under a tree mask, a parameter here.
\<close>

definition stage_serve ::
  "(nat \<Rightarrow> 'h list \<Rightarrow> 'h list) \<Rightarrow> (nat \<Rightarrow> nat \<Rightarrow> nat \<Rightarrow> 'h request \<Rightarrow> (nat \<Rightarrow> nat \<Rightarrow> nat \<Rightarrow> 'h) \<Rightarrow> 'h reply result \<times> (nat \<Rightarrow> nat \<Rightarrow> nat \<Rightarrow> 'h)) \<Rightarrow> nat \<Rightarrow>
   nat \<Rightarrow> nat \<Rightarrow> 'h stage_state \<Rightarrow> 'h request \<Rightarrow> 'h reply result \<times> 'h stage_state" where
  "stage_serve blk tree_blocks max_length a b st rq =
     (let p = (case rq_start rq of None \<Rightarrow> stage_prefix st | Some p \<Rightarrow> p);
          st1 = st\<lparr>stage_prefix := p\<rparr>;
          inc = effective_token_increment (rq_inputs rq) (rq_kv_positions rq) (rq_spec rq)
      in if max_length < p + inc then (Inl ValueError, st1)
         else if rq_spec rq then
           (case tree_blocks a b p rq (kv_rows st1) of
              (Inl e, kv) \<Rightarrow> (Inl e, st1\<lparr>kv_rows := kv\<rparr>)
            | (Inr y, kv) \<Rightarrow> (Inr y, st1\<lparr>kv_rows := kv, stage_prefix := p + inc\<rparr>))
         else
           (case stage_blocks blk p [a..<b] (rq_inputs rq) (kv_rows st1) of
              (y, kv) \<Rightarrow> (Inr (y, []), st1\<lparr>kv_rows := kv, stage_prefix := p + inc\<rparr>)))"

definition stage_holds :: "(nat \<Rightarrow> 'h list \<Rightarrow> 'h list) \<Rightarrow> nat \<Rightarrow> nat \<Rightarrow> 'h stage_state \<Rightarrow> 'h list list \<Rightarrow> bool" where
  "stage_holds blk a b st M \<longleftrightarrow>
     (\<forall>k. a \<le> k \<and> k < b \<longrightarrow> (\<forall>r < length M. \<forall>i < length (M ! r). kv_rows st k r i = run_span blk a k M ! r ! i))"

subsection \<open>The stage meets its contract\<close>

lemma block_step_exact:
  assumes "causal_blocks blk" and "a \<le> k" and "tensor_shape B T M" and "p \<le> T"
    and c: "\<And>r i. r < B \<Longrightarrow> i < p \<Longrightarrow> c r i = run_span blk a k M ! r ! i"
  shows "\<exists>c'. block_step blk k p (map (drop p) (run_span blk a k M)) c = (map (drop p) (run_span blk a (Suc k) M), c') \<and>
     (\<forall>r < B. \<forall>i < T. c' r i = run_span blk a k M ! r ! i)"
proof -
  define N where "N = run_span blk a k M"
  have N: "tensor_shape B T N" unfolding N_def by (rule run_span_shape [OF assms(1,3)])
  then have len: "length N = B" "\<And>r. r < B \<Longrightarrow> length (N ! r) = T" by (auto simp: tensor_shape_def)
  let ?c = "write_rows p (map (drop p) N) c"
  have c': "?c r i = N ! r ! i" if "r < B" "i < T" for r i
    using that assms(4) c [of r i] by (auto simp: write_rows_def len N_def [symmetric])
  have next_run: "run_span blk a (Suc k) M = map (blk k) N"
    unfolding N_def using assms(2) by (simp add: run_span_def)
  have "map (\<lambda>r. drop p (blk k (map (?c r) [0..<p + length (map (drop p) N ! r)]))) [0..<length (map (drop p) N)] =
        map (drop p) (map (blk k) N)"
  proof (rule nth_equalityI, goal_cases)
    case (2 r)
    then have r: "r < B" by (simp add: len)
    have "map (?c r) [0..<T] = N ! r" using c' [OF r] len(2) [OF r] by (intro nth_equalityI) auto
    then show ?case using r assms(4) by (simp add: len)
  qed (simp add: len)
  then show ?thesis using c' by (auto simp: block_step_def Let_def next_run N_def [symmetric])
qed

lemma stage_blocks_exact:
  assumes "causal_blocks blk" and "tensor_shape B T M" and "p \<le> T" and "a \<le> k" and "k \<le> b"
    and "\<And>j r i. k \<le> j \<Longrightarrow> j < b \<Longrightarrow> r < B \<Longrightarrow> i < p \<Longrightarrow> kv j r i = run_span blk a j M ! r ! i"
  shows "\<exists>kv'. stage_blocks blk p [k..<b] (map (drop p) (run_span blk a k M)) kv = (map (drop p) (run_span blk a b M), kv') \<and>
     (\<forall>j r i. k \<le> j \<longrightarrow> j < b \<longrightarrow> r < B \<longrightarrow> i < T \<longrightarrow> kv' j r i = run_span blk a j M ! r ! i) \<and>
     (\<forall>j < k. kv' j = kv j)"
  using assms(4-)
proof (induction "b - k" arbitrary: k kv)
  case (Suc d)
  then have k: "k < b" by simp
  obtain c' where c': "block_step blk k p (map (drop p) (run_span blk a k M)) (kv k) = (map (drop p) (run_span blk a (Suc k) M), c')"
    "\<And>r i. r < B \<Longrightarrow> i < T \<Longrightarrow> c' r i = run_span blk a k M ! r ! i"
    using block_step_exact [OF assms(1) Suc.prems(1) assms(2,3), of "kv k"] Suc.prems(3) [of k] k by auto
  have "\<exists>kv'. stage_blocks blk p [Suc k..<b] (map (drop p) (run_span blk a (Suc k) M)) (kv(k := c')) = (map (drop p) (run_span blk a b M), kv') \<and>
     (\<forall>j r i. Suc k \<le> j \<longrightarrow> j < b \<longrightarrow> r < B \<longrightarrow> i < T \<longrightarrow> kv' j r i = run_span blk a j M ! r ! i) \<and>
     (\<forall>j < Suc k. kv' j = (kv(k := c')) j)"
    using Suc.hyps(2) Suc.prems k by (intro Suc.hyps(1)) auto
  then obtain kv' where kv': "stage_blocks blk p [Suc k..<b] (map (drop p) (run_span blk a (Suc k) M)) (kv(k := c')) = (map (drop p) (run_span blk a b M), kv')"
    "\<And>j r i. Suc k \<le> j \<Longrightarrow> j < b \<Longrightarrow> r < B \<Longrightarrow> i < T \<Longrightarrow> kv' j r i = run_span blk a j M ! r ! i"
    "\<And>j. j < Suc k \<Longrightarrow> kv' j = (kv(k := c')) j" by blast
  have "kv' j r i = run_span blk a j M ! r ! i" if "k \<le> j" "j < b" "r < B" "i < T" for j r i
    using that kv'(2) [of j r i] kv'(3) [of k] c'(2) by (cases "j = k") auto
  moreover have "stage_blocks blk p [k..<b] (map (drop p) (run_span blk a k M)) kv = (map (drop p) (run_span blk a b M), kv')"
    unfolding upt_conv_Cons [OF k] using c'(1) kv'(1) by simp
  moreover have "kv' j = kv j" if "j < k" for j using kv'(3) [of j] that by simp
  ultimately show ?case by blast
qed simp


lemma stage_serve_exact:
  assumes "causal_blocks blk" and holds: "stage_holds blk a b st M" and "a \<le> b" and M: "tensor_shape B T M"
    and X: "tensor_shape B n (rq_inputs rq)" and "p \<le> T" and rq: "rq_start rq = Some p" "\<not> rq_spec rq"
    and "0 < B" and "p + n \<le> limit"
  shows "\<exists>st' keep. stage_serve blk tree_blocks limit a b st rq =
       (Inr (map (drop p) (run_span blk a b (cat_cols (take_cols p M) (rq_inputs rq))), keep), st') \<and>
     stage_holds blk a b st' (cat_cols (take_cols p M) (rq_inputs rq))"
proof -
  define N where "N = cat_cols (take_cols p M) (rq_inputs rq)"
  have tM: "tensor_shape B p (take_cols p M)" using shape_take [OF M, of p] assms(6) by (simp add: min_absorb2)
  have N: "tensor_shape B (p + n) N" unfolding N_def by (rule shape_cat [OF tM X])
  have tN: "take_cols p N = take_cols p M" unfolding N_def by (rule take_cols_cat [OF tM X])
  have dN: "map (drop p) N = rq_inputs rq"
    using tM X by (intro nth_equalityI) (simp_all add: N_def cat_cols_def tensor_shape_def)
  have "run_span blk a j M ! r ! i = run_span blk a j N ! r ! i" if "r < B" "i < p" for j r i
  proof -
    have "take_cols p (run_span blk a j M) ! r ! i = take_cols p (run_span blk a j N) ! r ! i"
      using tN by (metis run_span_take [OF assms(1)])
    then show ?thesis using that M N by (simp add: take_cols_def run_span_def tensor_shape_def)
  qed
  then have "kv_rows st j r i = run_span blk a j N ! r ! i" if "a \<le> j" "j < b" "r < B" "i < p" for j r i
    using holds that M assms(6) by (auto simp: stage_holds_def tensor_shape_def)
  then obtain kv' where kv': "stage_blocks blk p [a..<b] (map (drop p) (run_span blk a a N)) (kv_rows st) = (map (drop p) (run_span blk a b N), kv')"
    "\<forall>j r i. a \<le> j \<longrightarrow> j < b \<longrightarrow> r < B \<longrightarrow> i < p + n \<longrightarrow> kv' j r i = run_span blk a j N ! r ! i"
    using stage_blocks_exact [OF assms(1) N _ order_refl assms(3), of p "kv_rows st"] by auto
  have "width (rq_inputs rq) = n" by (rule shape_width [OF X assms(9)])
  then have "stage_serve blk tree_blocks limit a b st rq = (Inr (map (drop p) (run_span blk a b N), []), st\<lparr>stage_prefix := p + n, kv_rows := kv'\<rparr>)"
    using kv'(1) assms(10) rq by (simp add: stage_serve_def effective_token_increment_def Let_def dN)
  moreover have "stage_holds blk a b (st\<lparr>stage_prefix := p + n, kv_rows := kv'\<rparr>) N"
    using kv'(2) N by (auto simp: stage_holds_def tensor_shape_def)
  ultimately show ?thesis unfolding N_def by blast
qed

interpretation stage: stage_server "stage_serve blk tree_blocks limit" "\<lambda>a b. fresh_stage junk" "stage_holds blk" blk limit
  for blk :: "nat \<Rightarrow> 'h list \<Rightarrow> 'h list" and tree_blocks limit junk
proof (unfold_locales, goal_cases)
  case (1 B M a b)
  then have "length (M ! r) = 0" if "r < length M" for r using that by (simp add: tensor_shape_def)
  then show ?case by (simp add: stage_holds_def)
next
  case (2 a b c M B T n rq p)
  then show ?case by (rule stage_serve_exact)
qed

end
