(* ===== verification/HiddenRestore.thy ===== *)
theory HiddenRestore
  imports ServerStage
begin

text \<open>
  Hidden states of a pruned speculation step: \<open>restore_hidden_states\<close> of
  \<^verbatim>\<open>server/block_functions.py\<close> and its twin \<open>_restore_hidden_states\<close> of
  \<^verbatim>\<open>client/inference_session.py\<close>, with the tests that decide when to restore and how the last
  stage merges its micro-batches. Pruning keeps, for every batch row, the vectors whose positions are
  listed in that row of the keep-indices, a matrix padded with -1; restoring scatters them back into a
  zero tensor. A tensor has two dimensions (rows of all batch entries, flattened) or three.
\<close>

datatype 'h hidden = Flat "'h list" | Batched "'h list list"

definition valid_count :: "int list list \<Rightarrow> nat" where
  "valid_count keep = length (filter (\<lambda>k. 0 \<le> k) (concat keep))"

text \<open>\<open>hidden_states[keep_indices >= 0]\<close>\<close>

definition select_valid :: "'h list list \<Rightarrow> int list list \<Rightarrow> 'h list" where
  "select_valid x keep = concat (map2 (\<lambda>r ks. map fst (filter (\<lambda>(h, k). 0 \<le> k) (zip r ks))) x keep)"

fun take_groups :: "int list list \<Rightarrow> nat \<Rightarrow> nat \<Rightarrow> 'h list list \<Rightarrow> 'h list result" where
  "take_groups keep per_group g [] = Inr []"
| "take_groups keep per_group g (rows # rest) =
     (let n = valid_count (pyslice (g * per_group) ((g + 1) * per_group) keep) in
      if n = 0 then take_groups keep per_group (Suc g) rest
      else if length rows < n then Inl ValueError
      else map_sum id (\<lambda>more. take n rows @ more) (take_groups keep per_group (Suc g) rest))"

definition flatten_hidden_with_keep_layout :: "'h \<Rightarrow> int list list \<Rightarrow> 'h list list \<Rightarrow> 'h list result" where
  "flatten_hidden_with_keep_layout zero keep x =
     (if length x = length keep \<and> width x = width keep then Inr (select_valid x keep)
      else if x \<noteq> [] \<and> length keep mod length x = 0 then take_groups keep (length keep div length x) 0 x
      else
        let flat = concat x; expected = valid_count keep in
        Inr (if expected < length flat \<and> list_all (\<lambda>h. h = zero) (drop expected flat) then take expected flat else flat))"

text \<open>The pairs of batch row and position that are kept, in the order of the flattened rows.\<close>

definition keep_pairs :: "int list list \<Rightarrow> (nat \<times> nat) list" where
  "keep_pairs keep = concat (map (\<lambda>b. map (\<lambda>k. (b, nat k)) (filter (\<lambda>k. 0 \<le> k) (keep ! b))) [0..<length keep])"

definition put_row :: "'h list list \<Rightarrow> (nat \<times> nat) \<times> 'h \<Rightarrow> 'h list list" where
  "put_row x e = (case e of ((b, s), h) \<Rightarrow> x[b := (x ! b)[s := h]])"

definition restore_hidden_states :: "'h \<Rightarrow> 'h hidden \<Rightarrow> int list list \<Rightarrow> nat \<Rightarrow> 'h list list result" where
  "restore_hidden_states zero hidden keep seq_len =
     (case (case hidden of Flat rows \<Rightarrow> Inr rows | Batched x \<Rightarrow> flatten_hidden_with_keep_layout zero keep x) of
        Inl e \<Rightarrow> Inl e
      | Inr flat \<Rightarrow>
          if length flat \<noteq> valid_count keep then Inl ValueError
          else if list_ex (\<lambda>(b, s). seq_len \<le> s) (keep_pairs keep) then Inl IndexError
          else Inr (foldl put_row (replicate (length keep) (replicate seq_len zero)) (zip (keep_pairs keep) flat)))"

definition should_restore_spec_hidden_states :: "'h hidden \<Rightarrow> int list list option \<Rightarrow> int list list option \<Rightarrow> bool" where
  "should_restore_spec_hidden_states hidden keep draft =
     (case (hidden, keep, draft) of
        (Batched x, Some ks, Some ts) \<Rightarrow> length x \<noteq> length ks \<or> width x \<noteq> width ts
      | _ \<Rightarrow> False)"

text \<open>
  The last speculative stage answers with the flattened rows of each micro-batch; they are joined
  along the token axis. Any other shape falls back to the ordinary merge, a parameter.
\<close>

fun flat_chunk :: "'h hidden \<Rightarrow> 'h list option" where
  "flat_chunk (Flat rows) = Some rows"
| "flat_chunk (Batched x) = (if length x = 1 then Some (hd x) else None)"

definition merge_inference_microbatch_hidden_states ::
  "('h hidden list \<Rightarrow> 'h hidden result) \<Rightarrow> 'h hidden option list \<Rightarrow> bool \<Rightarrow> bool \<Rightarrow> 'h hidden option result" where
  "merge_inference_microbatch_hidden_states merge outputs is_spec is_last_block =
     (let outs = map the (filter (\<lambda>out. out \<noteq> None) outputs) in
      if outs = [] then Inr None
      else if \<not> is_spec \<or> \<not> is_last_block then map_sum id Some (merge outs)
      else if list_ex (\<lambda>out. flat_chunk out = None) outs then map_sum id Some (merge outs)
      else Inr (Some (Batched [concat (map (\<lambda>out. the (flat_chunk out)) outs)])))"


section \<open>Restoring undoes pruning\<close>

definition pruned :: "'h list list \<Rightarrow> int list list \<Rightarrow> 'h list" where
  "pruned x keep = concat (map2 (\<lambda>r ks. map (\<lambda>k. r ! nat k) (filter (\<lambda>k. 0 \<le> k) ks)) x keep)"

definition unpruned :: "'h \<Rightarrow> 'h list list \<Rightarrow> int list list \<Rightarrow> nat \<Rightarrow> 'h list list" where
  "unpruned zero x keep S = map (\<lambda>b. map (\<lambda>s. if int s \<in> set (keep ! b) then x ! b ! s else zero) [0..<S]) [0..<length keep]"

text \<open>Keep-indices as the servers send them: every row has the kept positions first, then padding.\<close>

definition keep_row_ok :: "nat \<Rightarrow> int list \<Rightarrow> bool" where
  "keep_row_ok S ks \<longleftrightarrow> (\<forall>k \<in> set ks. k < int S) \<and> filter (\<lambda>k. 0 \<le> k) ks = takeWhile (\<lambda>k. 0 \<le> k) ks"

definition keep_ok :: "nat \<Rightarrow> int list list \<Rightarrow> bool" where
  "keep_ok S keep \<longleftrightarrow> (\<forall>ks \<in> set keep. keep_row_ok S ks)"

lemma valid_count_simps [simp]:
  "valid_count [] = 0"
  "valid_count (ks # keep) = length (filter (\<lambda>k. 0 \<le> k) ks) + valid_count keep"
  "valid_count (keep1 @ keep2) = valid_count keep1 + valid_count keep2"
  by (simp_all add: valid_count_def)

lemma pruned_simps [simp]:
  "pruned [] keep = []" "pruned x [] = []"
  "pruned (r # x) (ks # keep) = map (\<lambda>k. r ! nat k) (filter (\<lambda>k. 0 \<le> k) ks) @ pruned x keep"
  by (simp_all add: pruned_def)

lemma length_pruned: "length x = length keep \<Longrightarrow> length (pruned x keep) = valid_count keep"
  by (induction x keep rule: list_induct2) simp_all

lemma pruned_append: "length x1 = length k1 \<Longrightarrow> pruned (x1 @ x2) (k1 @ k2) = pruned x1 k1 @ pruned x2 k2"
  by (induction x1 k1 rule: list_induct2) simp_all

lemma keep_pairs_Cons: "keep_pairs (ks # keep) = map (\<lambda>k. (0, nat k)) (filter (\<lambda>k. 0 \<le> k) ks) @ map (\<lambda>(b, s). (Suc b, s)) (keep_pairs keep)"
proof -
  have "[0..<length (ks # keep)] = 0 # map Suc [0..<length keep]" by (simp add: upt_conv_Cons map_Suc_upt del: upt_Suc)
  then show ?thesis by (simp add: keep_pairs_def map_concat comp_def del: upt_Suc)
qed

lemma keep_pairs_Nil [simp]: "keep_pairs [] = []"
  by (simp add: keep_pairs_def)

lemma length_keep_pairs: "length (keep_pairs keep) = valid_count keep"
  by (induction keep) (simp_all add: keep_pairs_Cons)

lemma pruned_pairs: "length x = length keep \<Longrightarrow> pruned x keep = map (\<lambda>(b, s). x ! b ! s) (keep_pairs keep)"
  by (induction x keep rule: list_induct2) (simp_all add: keep_pairs_Cons comp_def split_def)

lemma in_keep_pairs: "(b, s) \<in> set (keep_pairs keep) \<longleftrightarrow> b < length keep \<and> int s \<in> set (keep ! b)"
  by (auto simp: keep_pairs_def image_iff)

lemma foldl_put_rows:
  assumes "\<forall>(b, s) \<in> set ps. b < B \<and> s < S" and "tensor_shape B S t"
  shows "tensor_shape B S (foldl put_row t (map (\<lambda>(b, s). ((b, s), v b s)) ps)) \<and>
     (\<forall>b < B. \<forall>s < S. foldl put_row t (map (\<lambda>(b, s). ((b, s), v b s)) ps) ! b ! s = (if (b, s) \<in> set ps then v b s else t ! b ! s))"
  using assms
proof (induction ps arbitrary: t)
  case (Cons p ps)
  obtain b0 s0 where p: "p = (b0, s0)" by fastforce
  define t' where "t' = put_row t ((b0, s0), v b0 s0)"
  have b0: "b0 < B" "s0 < S" using Cons.prems(1) by (auto simp: p)
  have t': "tensor_shape B S t'" using Cons.prems(2) b0 by (auto simp: t'_def put_row_def tensor_shape_def set_conv_nth nth_list_update)
  have at: "t' ! b ! s = (if (b, s) = (b0, s0) then v b s else t ! b ! s)" if "b < B" "s < S" for b s
    using that Cons.prems(2) b0 by (cases "b = b0") (auto simp: t'_def put_row_def tensor_shape_def nth_list_update)
  have "\<forall>(b, s) \<in> set ps. b < B \<and> s < S" using Cons.prems(1) by auto
  from Cons.IH [OF this t'] at show ?case by (simp add: p t'_def [symmetric])
qed simp

lemma restore_flat:
  assumes "length x = length keep" and "keep_ok S keep"
  shows "restore_hidden_states zero (Flat (pruned x keep)) keep S = Inr (unpruned zero x keep S)"
proof -
  let ?B = "length keep"
  let ?t = "replicate ?B (replicate S zero)"
  have range: "\<forall>(b, s) \<in> set (keep_pairs keep). b < ?B \<and> s < S"
    using assms(2) by (fastforce simp: in_keep_pairs keep_ok_def keep_row_ok_def)
  have zipped: "zip (keep_pairs keep) (pruned x keep) = map (\<lambda>(b, s). ((b, s), x ! b ! s)) (keep_pairs keep)"
    unfolding pruned_pairs [OF assms(1)] zip_map2 by (simp add: zip_same_conv_map split_def)
  note put = foldl_put_rows [OF range, of ?t "\<lambda>b s. x ! b ! s", folded zipped]
  have t: "tensor_shape ?B S ?t" by (simp add: tensor_shape_def)
  have "foldl put_row ?t (zip (keep_pairs keep) (pruned x keep)) = unpruned zero x keep S"
  proof (rule nth_equalityI, goal_cases)
    case 1
    show ?case using put [OF t] by (simp add: tensor_shape_def unpruned_def)
  next
    case (2 b)
    then have b: "b < ?B" using put [OF t] by (simp add: tensor_shape_def)
    show ?case using b put [OF t] by (intro nth_equalityI) (auto simp: tensor_shape_def unpruned_def in_keep_pairs)
  qed
  moreover have "\<not> list_ex (\<lambda>(b, s). S \<le> s) (keep_pairs keep)" using range by (fastforce simp: list_ex_iff)
  ultimately show ?thesis using length_pruned [OF assms(1)] by (simp add: restore_hidden_states_def)
qed


subsection \<open>The three-dimensional layouts\<close>

lemma restore_of_flat:
  assumes "flatten_hidden_with_keep_layout zero keep x = Inr flat"
  shows "restore_hidden_states zero (Batched x) keep S = restore_hidden_states zero (Flat flat) keep S"
  using assms by (simp add: restore_hidden_states_def)

lemma select_valid_padded:
  assumes "list_all2 (\<lambda>r ks. length r = length ks) x keep" and "length y = length keep"
    and "\<forall>ks \<in> set keep. keep_row_ok S ks"
    and "\<forall>b < length keep. \<exists>pad. x ! b = map (\<lambda>k. y ! b ! nat k) (filter (\<lambda>k. 0 \<le> k) (keep ! b)) @ pad"
  shows "select_valid x keep = pruned y keep"
  using assms
proof (induction arbitrary: y rule: list_all2_induct)
  case (Cons r x ks keep)
  obtain r' y' where y: "y = r' # y'" using Cons.prems(1) by (cases y) auto
  obtain pad where pad: "r = map (\<lambda>k. r' ! nat k) (filter (\<lambda>k. 0 \<le> k) ks) @ pad" using Cons.prems(3) by (auto simp: y)
  define vs where "vs = takeWhile (\<lambda>k. 0 \<le> k) ks"
  have vs: "filter (\<lambda>k. 0 \<le> k) ks = vs" using Cons.prems(2) by (simp add: keep_row_ok_def vs_def)
  define rest where "rest = dropWhile (\<lambda>k. 0 \<le> k) ks"
  have ks: "ks = vs @ rest" by (simp add: vs_def rest_def)
  have "filter (\<lambda>k. 0 \<le> k) vs @ filter (\<lambda>k. 0 \<le> k) rest = vs" using vs by (metis filter_append ks)
  moreover have "filter (\<lambda>k. 0 \<le> k) vs = vs" by (auto simp: vs_def filter_id_conv dest: set_takeWhileD)
  ultimately have neg: "filter (\<lambda>k. 0 \<le> k) rest = []" by simp
  have len: "length (map (\<lambda>k. r' ! nat k) vs) = length vs" by simp
  have pos: "\<forall>k \<in> set vs. 0 \<le> k" by (auto simp: vs_def dest: set_takeWhileD)
  have "map fst (filter (\<lambda>(h, k). 0 \<le> k) (zip r ks)) = map (\<lambda>k. r' ! nat k) vs"
  proof -
    have "zip r ks = zip (map (\<lambda>k. r' ! nat k) vs) vs @ zip pad rest" unfolding pad vs by (subst ks) (simp add: zip_append)
    moreover have "filter (\<lambda>(h, k). 0 \<le> k) (zip pad rest) = []"
      using neg by (auto simp: filter_empty_conv dest: set_zip_rightD)
    moreover have "filter (\<lambda>(h, k). 0 \<le> k) (zip (map (\<lambda>k. r' ! nat k) vs) vs) = zip (map (\<lambda>k. r' ! nat k) vs) vs"
      using pos by (auto simp: filter_id_conv dest: set_zip_rightD)
    ultimately show ?thesis by simp
  qed
  moreover have "select_valid x keep = pruned y' keep"
    using Cons.prems by (intro Cons.IH) (auto simp: y nth_Cons' split: if_splits dest: spec [of _ "Suc _"])
  ultimately show ?case by (simp add: y vs select_valid_def)
qed (simp add: select_valid_def)

definition group_rows :: "nat \<Rightarrow> 'h list list \<Rightarrow> int list list \<Rightarrow> nat \<Rightarrow> 'h list" where
  "group_rows per x keep g = pruned (pyslice (g * per) ((g + 1) * per) x) (pyslice (g * per) ((g + 1) * per) keep)"

lemma length_group_rows:
  "length x = length keep \<Longrightarrow> length (group_rows per x keep g) = valid_count (pyslice (g * per) ((g + 1) * per) keep)"
  unfolding group_rows_def by (rule length_pruned) simp

lemma take_groups_exact:
  assumes "length x = length keep"
  shows "take_groups keep per g (map (\<lambda>i. group_rows per x keep i @ pad i) [g..<g + d]) = Inr (concat (map (group_rows per x keep) [g..<g + d]))"
proof (induction d arbitrary: g)
  case (Suc d)
  have upt: "[g..<g + Suc d] = g # [Suc g..<Suc g + d]" by (simp add: upt_conv_Cons)
  have n: "valid_count (pyslice (g * per) ((g + 1) * per) keep) = length (group_rows per x keep g)"
    by (simp only: length_group_rows [OF assms])
  show ?case using Suc [of "Suc g"] unfolding upt list.map take_groups.simps n Let_def by (simp del: upt_Suc)
qed simp

lemma take_pyslice: "take (Suc G * per) ys = take (G * per) ys @ pyslice (G * per) ((G + 1) * per) ys"
  using take_add [of "G * per" per ys] by (simp add: pyslice_def add.commute)

lemma pyslice_single: "b < length z \<Longrightarrow> pyslice b (b + 1) z = [z ! b]"
  by (simp add: pyslice_def take_Suc_conv_app_nth)

lemma groups_cover:
  assumes "length x = length keep"
  shows "concat (map (group_rows per x keep) [0..<G]) = pruned (take (G * per) x) (take (G * per) keep)"
proof (induction G)
  case (Suc G)
  have "pruned (take (Suc G * per) x) (take (Suc G * per) keep) = pruned (take (G * per) x) (take (G * per) keep) @ group_rows per x keep G"
    using assms unfolding take_pyslice group_rows_def by (intro pruned_append) simp
  then show ?case using Suc by simp
qed simp

lemma grouped_restores:
  assumes "length x = length keep" and "keep_ok S keep" and "\<forall>ks \<in> set keep. length ks = width keep"
    and "0 < G" and "G * per = length keep" and w: "\<forall>g < G. length (group_rows per x keep g @ pad g) = w"
  shows "restore_hidden_states zero (Batched (map (\<lambda>g. group_rows per x keep g @ pad g) [0..<G])) keep S = Inr (unpruned zero x keep S)"
proof -
  let ?y = "map (\<lambda>g. group_rows per x keep g @ pad g) [0..<G]"
  have all: "concat (map (group_rows per x keep) [0..<G]) = pruned x keep"
    using groups_cover [OF assms(1), of per G] assms(1,5) by simp
  have wy: "width ?y = w" using w assms(4) by (cases G) (simp_all add: width_def upt_conv_Cons del: upt_Suc)
  have "flatten_hidden_with_keep_layout zero keep ?y = Inr (pruned x keep)"
  proof (cases "length ?y = length keep \<and> width ?y = width keep")
    case True
    then have per: "per = 1" "G = length keep" using assms(4,5) by auto
    have row: "\<exists>p. ?y ! b = map (\<lambda>k. x ! b ! nat k) (filter (\<lambda>k. 0 \<le> k) (keep ! b)) @ p" if "b < length keep" for b
    proof -
      from pyslice_single [of b x] pyslice_single [of b keep] have "group_rows per x keep b = map (\<lambda>k. x ! b ! nat k) (filter (\<lambda>k. 0 \<le> k) (keep ! b))"
        using that assms(1) by (simp add: group_rows_def per)
      then show ?thesis using that by (auto simp: per)
    qed
    have "select_valid ?y keep = pruned x keep"
    proof (rule select_valid_padded [OF _ assms(1), of _ S])
      show "list_all2 (\<lambda>r ks. length r = length ks) ?y keep"
        using True wy w assms(3) by (auto simp: list_all2_conv_all_nth per)
      show "\<forall>ks \<in> set keep. keep_row_ok S ks" using assms(2) by (simp add: keep_ok_def)
      show "\<forall>b < length keep. \<exists>p. ?y ! b = map (\<lambda>k. x ! b ! nat k) (filter (\<lambda>k. 0 \<le> k) (keep ! b)) @ p" using row by blast
    qed
    then show ?thesis unfolding flatten_hidden_with_keep_layout_def if_P [OF True] by simp
  next
    case False
    have "length keep mod G = 0 \<and> length keep div G = per"
      using assms(4) unfolding assms(5) [symmetric] by simp
    then have "flatten_hidden_with_keep_layout zero keep ?y = take_groups keep per 0 ?y"
      using False assms(4) by (auto simp: flatten_hidden_with_keep_layout_def)
    with take_groups_exact [OF assms(1), of per 0 pad G] all show ?thesis by simp
  qed
  then show ?thesis using restore_flat [OF assms(1,2)] by (simp add: restore_of_flat)
qed


subsection \<open>The property\<close>

text \<open>
  C24 Restoring inverts pruning for every layout a server may answer with: the flattened rows, the
  flattened rows under a batch axis of size one (which the last stage also obtains when it merges its
  micro-batches), and one padded row per micro-batch. Every kept vector returns to its batch row and
  position and all others are zero.
\<close>
theorem restore_inverts_pruning:
  assumes "length x = length keep" and "keep_ok S keep" and "\<forall>ks \<in> set keep. length ks = width keep"
    and "0 < G" and "G * per = length keep"
    and "\<forall>g < G. length (group_rows per x keep g @ pad g) = w"
  shows "restore_hidden_states zero (Flat (pruned x keep)) keep S = Inr (unpruned zero x keep S) \<and>
     merge_inference_microbatch_hidden_states merge (map (\<lambda>g. Some (Batched [group_rows per x keep g])) [0..<G]) True True =
       Inr (Some (Batched [pruned x keep])) \<and>
     restore_hidden_states zero (Batched [pruned x keep]) keep S = Inr (unpruned zero x keep S) \<and>
     restore_hidden_states zero (Batched (map (\<lambda>g. group_rows per x keep g @ pad g) [0..<G])) keep S = Inr (unpruned zero x keep S)"
proof (intro conjI)
  have all: "concat (map (group_rows per x keep) [0..<G]) = pruned x keep"
    using groups_cover [OF assms(1), of per G] assms(1,5) by simp
  have "filter (\<lambda>out. out \<noteq> None) (map (\<lambda>g. Some (Batched [group_rows per x keep g])) [0..<G]) = map (\<lambda>g. Some (Batched [group_rows per x keep g])) [0..<G]"
    by (simp add: filter_id_conv)
  then show "merge_inference_microbatch_hidden_states merge (map (\<lambda>g. Some (Batched [group_rows per x keep g])) [0..<G]) True True =
       Inr (Some (Batched [pruned x keep]))"
    using assms(4) all by (simp add: merge_inference_microbatch_hidden_states_def list_ex_iff comp_def)
  have one: "group_rows (length keep) x keep 0 = pruned x keep" using assms(1) by (simp add: group_rows_def)
  show "restore_hidden_states zero (Batched [pruned x keep]) keep S = Inr (unpruned zero x keep S)"
    using grouped_restores [OF assms(1-3), of 1 "length keep" "\<lambda>g. []" "length (pruned x keep)" zero] by (simp add: one)
qed (rule restore_flat [OF assms(1,2)], rule grouped_restores [OF assms])

theorem restore_inverts_pruning_witness:
  "restore_hidden_states 0 (Batched [[7, 5, 0 :: int], [4, 2, 1]]) [[2, 0, -1], [3, 1, 0]] 4 = Inr [[5, 0, 7, 0], [1, 2, 0, 4]]"
proof -
  let ?x = "[[5, 6, 7, 8], [1, 2, 3, 4 :: int]]" and ?keep = "[[2, 0, -1], [3, 1, 0 :: int]]"
  have ok: "keep_ok 4 ?keep" by (simp add: keep_ok_def keep_row_ok_def)
  have rows: "group_rows 1 ?x ?keep 0 = [7, 5]" "group_rows 1 ?x ?keep 1 = [4, 2, 1]"
    by (simp_all add: group_rows_def pyslice_def)
  have len: "\<forall>g < 2. length (group_rows 1 ?x ?keep g @ (if g = 0 then [0] else [])) = 3"
    using rows by (auto simp: less_2_cases_iff)
  have map: "map (\<lambda>g. group_rows 1 ?x ?keep g @ (if g = 0 then [0] else [])) [0..<2] = [[7, 5, 0], [4, 2, 1]]"
    using rows by (simp add: upt_rec)
  have un: "unpruned 0 ?x ?keep 4 = [[5, 0, 7, 0], [1, 2, 0, 4]]" by (simp add: unpruned_def upt_rec)
  have "restore_hidden_states 0 (Batched (map (\<lambda>g. group_rows 1 ?x ?keep g @ (if g = 0 then [0] else [])) [0..<2])) ?keep 4 = Inr (unpruned 0 ?x ?keep 4)"
    by (rule restore_inverts_pruning [where merge = "\<lambda>outs. Inl ValueError", THEN conjunct2, THEN conjunct2, THEN conjunct2, OF _ ok _ _ _ len])
      (simp_all add: width_def)
  then show ?thesis unfolding map un .
qed

end
