(* ===== verification/InferSession.thy ===== *)
theory InferSession
  imports Routing HiddenRestore
begin

text \<open>
  The fault-tolerant inference session of the client, \<^verbatim>\<open>client/inference_session.py\<close>: one
  session per server of the chain, each with the inputs it has sent so far, and the step that retries
  on other servers and replays the history when a server fails.

  The swarm is an argument: a clock tells the attempts apart, and at each tick it decides which route
  the sequence manager offers, which connections succeed and whether a request or its reply gets lost.
  The remote end of every session is part of the state and answers through a function \<open>serve\<close>, for
  which \<open>ServerStage\<close> has the contract and the model of the server's code. Ids stand for the random
  uuids and for references between session objects. Deep prompts and the rows staged for continuous
  batching are off; logging, timing and the wire format (see \<open>WireFormat\<close>) are left out.
\<close>

section \<open>State\<close>

record ('p, 'h) server_session =
  sess_id :: nat
  sess_span :: "'p span_info"
  stepped :: bool
  sess_closed :: bool
  sess_position :: nat
  history :: "'h list list option"
  next_session :: "nat option"

definition new_server_session :: "nat \<Rightarrow> 'p span_info \<Rightarrow> ('p, 'h) server_session" where
  "new_server_session i sp =
     \<lparr>sess_id = i, sess_span = sp, stepped = False, sess_closed = False, sess_position = 0, history = None, next_session = None\<rparr>"

definition set_session_position :: "nat \<Rightarrow> ('p, 'h) server_session \<Rightarrow> ('p, 'h) server_session" where
  "set_session_position p ss =
     ss\<lparr>sess_position := p,
        history := (case history ss of
                      None \<Rightarrow> None
                    | Some h \<Rightarrow> if p \<le> width h then (if 0 < p then Some (take_cols p h) else None) else Some h)\<rparr>"

lemma set_session_position_simps [simp]:
  "sess_span (set_session_position p ss) = sess_span ss" "sess_id (set_session_position p ss) = sess_id ss"
  by (simp_all add: set_session_position_def)

datatype net_event = Deliver | LoseRequest | LoseReply

record ('p, 'h, 'c) swarm =
  route :: "nat \<Rightarrow> nat \<Rightarrow> nat \<Rightarrow> 'p span_info list result"
  connects :: "nat \<Rightarrow> nat \<Rightarrow> bool"
  net :: "nat \<Rightarrow> net_event"
  pushed :: "nat \<Rightarrow> nat \<Rightarrow> 'h reply result"
  serve_fn :: "nat \<Rightarrow> nat \<Rightarrow> 'c \<Rightarrow> 'h request \<Rightarrow> 'h reply result \<times> 'c"
  fresh_fn :: "nat \<Rightarrow> nat \<Rightarrow> 'c"

record client_config =
  max_retries :: "nat option"
  use_server_to_server :: bool
  push_only_downstream_decode :: bool
  num_blocks :: nat

record ('p, 'h, 'c) client_session =
  sessions :: "('p, 'h) server_session list"
  client_position :: nat
  client_max_length :: nat
  client_closed :: bool
  next_id :: nat
  clock :: nat
  remote :: "nat \<Rightarrow> 'c"
  notices :: "('p option \<times> bool) list"

definition new_client_session :: "nat \<Rightarrow> (nat \<Rightarrow> 'c) \<Rightarrow> ('p, 'h, 'c) client_session" where
  "new_client_session max_length r =
     \<lparr>sessions = [], client_position = 0, client_max_length = max_length, client_closed = False, next_id = 0, clock = 0,
      remote = r, notices = []\<rparr>"

text \<open>The setter of \<open>position\<close> moves every server session along.\<close>

definition set_position :: "nat \<Rightarrow> ('p, 'h, 'c) client_session \<Rightarrow> ('p, 'h, 'c) client_session" where
  "set_position p st = st\<lparr>client_position := p, sessions := map (set_session_position p) (sessions st)\<rparr>"

definition tick :: "('p, 'h, 'c) client_session \<Rightarrow> ('p, 'h, 'c) client_session" where
  "tick st = st\<lparr>clock := clock st + 1\<rparr>"

section \<open>One server\<close>

definition server_session_tokens_to_advance :: "'h list list \<Rightarrow> nat \<Rightarrow> bool \<Rightarrow> nat" where
  "server_session_tokens_to_advance sent n is_spec = (if is_spec then n else width sent)"

definition trim_recovered_history_for_existing_downstream :: "'h list list \<Rightarrow> nat \<Rightarrow> nat \<Rightarrow> bool \<Rightarrow> 'h list list" where
  "trim_recovered_history_for_existing_downstream x n downstream_position is_spec =
     (if is_spec \<or> n = 0 \<or> downstream_position = 0 then x
      else if width x \<le> n then x
      else last_cols n x)"

definition append_history :: "nat \<Rightarrow> 'h list list \<Rightarrow> ('p, 'h) server_session \<Rightarrow> 'h list list result" where
  "append_history n x ss =
     (case history ss of
        None \<Rightarrow> Inr x
      | Some h \<Rightarrow>
          if width h = sess_position ss
          then (if length h \<noteq> length x then Inl RuntimeError else Inr (cat_cols h (last_cols n x)))
          else Inr h)"

record 'h step_args =
  sa_inputs :: "'h list list"
  sa_kv_positions :: "int list list option"
  sa_draft :: "int list list option"
  sa_spec :: bool
  sa_hypo :: "nat option"
  sa_batches :: "nat list"

text \<open>
  The servers a stage may push its outputs to: the sessions after it that have been stepped, followed
  along the links; \<open>fuel\<close> is the number of sessions.
\<close>

fun collect_next_servers :: "nat \<Rightarrow> ('p, 'h) server_session list \<Rightarrow> nat option \<Rightarrow> nat list" where
  "collect_next_servers 0 ss i = []"
| "collect_next_servers (Suc fuel) ss None = []"
| "collect_next_servers (Suc fuel) ss (Some i) =
     (case find (\<lambda>s. sess_id s = i) ss of
        None \<Rightarrow> []
      | Some s \<Rightarrow> if stepped s then i # collect_next_servers fuel ss (next_session s) else [])"

definition push_only_decode :: "client_config \<Rightarrow> ('p, 'h) server_session \<Rightarrow> bool \<Rightarrow> bool" where
  "push_only_decode cfg ss is_spec \<longleftrightarrow>
     use_server_to_server cfg \<and> push_only_downstream_decode cfg \<and> stepped ss \<and> 0 < span_start (sess_span ss) \<and> \<not> is_spec"

definition make_request ::
  "client_config \<Rightarrow> 'h step_args \<Rightarrow> bool \<Rightarrow> nat \<Rightarrow> 'h list list \<Rightarrow> ('p, 'h) server_session \<Rightarrow> ('p, 'h, 'c) client_session \<Rightarrow> 'h request" where
  "make_request cfg sa need_pruning n sent ss st =
     \<lparr>rq_inputs = sent,
      rq_layout = (if sa_spec sa then SpecCompactV1 else if sa_hypo sa \<noteq> None then DecodeCompactV2 else DecodeMinimalV2),
      rq_start = Some (if sa_spec sa then sess_position ss + n else sess_position ss),
      rq_spec = sa_spec sa,
      rq_pruning = need_pruning,
      rq_kv_positions = (if sa_spec sa then sa_kv_positions sa else None),
      rq_max_length = (if stepped ss then None else Some (client_max_length st)),
      rq_full_batch = Max (set (length sent # 1 # sa_batches sa)),
      rq_micro_batch = length sent,
      rq_next = (if use_server_to_server cfg then collect_next_servers (length (sessions st)) (sessions st) (next_session ss) else [])\<rparr>"

text \<open>
  One exchange with one server. The history grows and \<open>stepped\<close> is set before the reply is awaited;
  the position moves only when the reply arrives.
\<close>

definition server_step ::
  "client_config \<Rightarrow> ('p, 'h, 'c) swarm \<Rightarrow> 'h step_args \<Rightarrow> bool \<Rightarrow> 'h list list \<Rightarrow> ('p, 'h) server_session \<Rightarrow> ('p, 'h, 'c) client_session \<Rightarrow>
   'h reply result \<times> ('p, 'h) server_session \<times> ('p, 'h, 'c) client_session" where
  "server_step cfg sw sa need_pruning x ss st =
     (let n = (if sa_spec sa then (case sa_kv_positions sa of None \<Rightarrow> 0 | Some rows \<Rightarrow> length (hd rows)) else width x) in
      if sess_closed ss then (Inl SessionClosed, ss, st)
      else case append_history n x ss of
        Inl e \<Rightarrow> (Inl e, ss, st)
      | Inr h \<Rightarrow>
          let ss1 = ss\<lparr>history := Some h\<rparr>;
              sent = (if stepped ss then x else h);
              advanced = sess_position ss + server_session_tokens_to_advance sent n (sa_spec sa);
              a = nat (span_start (sess_span ss)); b = nat (span_end (sess_span ss))
          in if push_only_decode cfg ss (sa_spec sa) then
               (case pushed sw (clock st) (sess_id ss) of
                  Inl e \<Rightarrow> (Inl e, ss1, tick st)
                | Inr y \<Rightarrow> (Inr y, ss1\<lparr>sess_position := advanced\<rparr>, tick st))
             else
               let ss2 = ss1\<lparr>stepped := True\<rparr>;
                   rq = make_request cfg sa need_pruning n sent ss st;
                   (r, c) = serve_fn sw a b (remote st (sess_id ss)) rq;
                   served = (tick st)\<lparr>remote := (remote st)(sess_id ss := c)\<rparr>
               in (case net sw (clock st) of
                     LoseRequest \<Rightarrow> (Inl TimeoutError, ss2, tick st)
                   | LoseReply \<Rightarrow> (Inl TimeoutError, ss2, served)
                   | Deliver \<Rightarrow>
                       (case r of
                          Inl e \<Rightarrow> (Inl HandlerError, ss2, served)
                        | Inr y \<Rightarrow> (Inr y, ss2\<lparr>sess_position := advanced\<rparr>, served))))"

section \<open>The chain of servers\<close>

definition close_session :: "nat \<Rightarrow> ('p, 'h) server_session list \<Rightarrow> ('p, 'h) server_session list" where
  "close_session i ss = (if i < length ss then ss[i := (ss ! i)\<lparr>sess_closed := True\<rparr>] else ss)"

text \<open>\<open>_enter_server_sessions\<close>: one new session per span, or none when a connection fails.\<close>

definition enter_server_sessions :: "('p, 'h, 'c) swarm \<Rightarrow> 'p span_info list \<Rightarrow> ('p, 'h, 'c) client_session \<Rightarrow>
    ('p, 'h) server_session list result \<times> ('p, 'h, 'c) client_session" where
  "enter_server_sessions sw spans st =
     (if list_all (connects sw (clock st)) [0..<length spans] then
        let new = map2 new_server_session [next_id st..<next_id st + length spans] spans in
        (Inr new, st\<lparr>next_id := next_id st + length spans,
           remote := (\<lambda>i. if next_id st \<le> i \<and> i < next_id st + length spans
                           then let sp = spans ! (i - next_id st) in fresh_fn sw (nat (span_start sp)) (nat (span_end sp))
                           else remote st i)\<rparr>)
      else (Inl TimeoutError, st))"

definition link_sessions :: "nat \<Rightarrow> nat \<Rightarrow> ('p, 'h) server_session list \<Rightarrow> ('p, 'h) server_session list" where
  "link_sessions lo hi ss = foldl (\<lambda>ss i. ss[i := (ss ! i)\<lparr>next_session := Some (sess_id (ss ! (i + 1)))\<rparr>]) ss [lo..<hi]"

definition update_server_sequence :: "client_config \<Rightarrow> ('p, 'h, 'c) swarm \<Rightarrow> nat \<Rightarrow> nat \<Rightarrow> ('p, 'h, 'c) client_session \<Rightarrow> (('p, 'h, 'c) client_session, unit) outcome" where
  "update_server_sequence cfg sw server_idx block_idx st =
     (let ss = close_session server_idx (sessions st);
          n_prev = length ss;
          update_end = (if server_idx < n_prev then nat (span_end (sess_span (ss ! server_idx))) else num_blocks cfg);
          st1 = st\<lparr>sessions := ss\<rparr>
      in case route sw (clock st) block_idx update_end of
           Inl e \<Rightarrow> (Inl e, tick st1)
         | Inr spans \<Rightarrow>
             if spans = [] then (Inl IndexError, tick st1)
             else
               let spans' = butlast spans @ [(last spans)\<lparr>span_end := min (span_end (last spans)) (int update_end)\<rparr>] in
               (case enter_server_sessions sw spans' st1 of
                  (Inl e, st2) \<Rightarrow> (Inl e, tick st2)
                | (Inr new, st2) \<Rightarrow>
                    let new' = (if server_idx < n_prev then new[0 := (new ! 0)\<lparr>history := history (ss ! server_idx)\<rparr>] else new);
                        all = take server_idx ss @ new' @ drop (Suc server_idx) ss
                    in (Inr (), tick st2\<lparr>sessions := link_sessions (server_idx - 1) (min (server_idx + length spans) (length all - 1)) all\<rparr>)))"

section \<open>The step\<close>

definition attempt_step ::
  "client_config \<Rightarrow> ('p, 'h, 'c) swarm \<Rightarrow> 'h step_args \<Rightarrow> nat \<Rightarrow> nat \<Rightarrow> nat \<Rightarrow> nat \<Rightarrow> 'h list list \<Rightarrow> bool \<Rightarrow> ('p, 'h, 'c) client_session \<Rightarrow>
   (('p, 'h, 'c) client_session, 'h reply \<times> nat) outcome" where
  "attempt_step cfg sw sa n server_idx block_idx attempt x need_pruning st =
     (let (u, st1) = (if sessions st = [] \<or> 1 \<le> attempt then update_server_sequence cfg sw server_idx block_idx st else (Inr (), st)) in
      case u of
        Inl e \<Rightarrow> (Inl e, st1\<lparr>notices := notices st1 @ [(None, False)]\<rparr>)
      | Inr _ \<Rightarrow>
          if length (sessions st1) \<le> server_idx then (Inl IndexError, st1\<lparr>notices := notices st1 @ [(None, False)]\<rparr>)
          else
            let ss = sessions st1 ! server_idx;
                peer = span_peer (sess_span ss);
                (r, ss', st2) = server_step cfg sw sa need_pruning (trim_recovered_history_for_existing_downstream x n (sess_position ss) (sa_spec sa)) ss st1;
                st3 = st2\<lparr>sessions := (sessions st2)[server_idx := ss']\<rparr>
            in (case r of
                  Inl e \<Rightarrow> (Inl e, st3\<lparr>notices := notices st3 @ [(Some peer, False)]\<rparr>)
                | Inr y \<Rightarrow> (Inr (y, nat (span_end (sess_span ss))), st3\<lparr>notices := notices st3 @ [(Some peer, True)]\<rparr>)))"

partial_function (option) step_loop ::
  "client_config \<Rightarrow> ('p, 'h, 'c) swarm \<Rightarrow> 'h step_args \<Rightarrow> nat \<Rightarrow> nat \<Rightarrow> nat \<Rightarrow> nat \<Rightarrow> 'h list list \<Rightarrow> bool \<Rightarrow> int list list \<Rightarrow> ('p, 'h, 'c) client_session \<Rightarrow>
   (('p, 'h, 'c) client_session, 'h reply) outcome option" where
  "step_loop cfg sw sa n server_idx block_idx attempt x need_pruning keep st =
     (if num_blocks cfg \<le> block_idx then Some (Inr (x, keep), st)
      else case attempt_step cfg sw sa n server_idx block_idx attempt x need_pruning st of
             (Inl e, st') \<Rightarrow>
               if max_retries cfg = Some (attempt + 1) then Some (Inl e, st')
               else step_loop cfg sw sa n server_idx block_idx (attempt + 1) x need_pruning keep st'
           | (Inr ((y, ks), block_end), st') \<Rightarrow>
               step_loop cfg sw sa n (server_idx + 1) block_end 0 y False (if sa_spec sa \<and> need_pruning then ks else keep) st')"

lemmas step_loop_induct = step_loop.raw_induct
  [where xa = "((((((((((cfg, sw), sa), n), i), a), k), x), np), keep), st)" for cfg sw sa n i a k x np keep st,
   unfolded split_conv, rotated, consumes 1, case_names loop]

text \<open>
  The whole step. \<open>None\<close> is a step that retries forever (with \<open>max_retries = None\<close> the code does). The
  position has already moved when a short answer is found.
\<close>

definition step ::
  "client_config \<Rightarrow> ('p, 'h, 'c) swarm \<Rightarrow> 'h \<Rightarrow> 'h step_args \<Rightarrow> ('p, 'h, 'c) client_session \<Rightarrow> (('p, 'h, 'c) client_session, 'h list list) outcome option" where
  "step cfg sw zero sa st =
     (let x = sa_inputs sa;
          n = (case sa_kv_positions sa of None \<Rightarrow> width x | Some rows \<Rightarrow> length (hd rows))
      in if client_closed st then Some (Inl AssertionError, st)
         else if (case sa_hypo sa of None \<Rightarrow> False | Some b \<Rightarrow> b \<noteq> length x) then Some (Inl AssertionError, st)
         else if sa_kv_positions sa = Some [] then Some (Inl IndexError, st)
         else if client_max_length st < client_position st + n then Some (Inl ValueError, st)
         else case step_loop cfg sw sa n 0 0 0 x (sa_spec sa) (replicate (length x) (map int [0..<width x])) st of
                None \<Rightarrow> None
              | Some (Inl e, st') \<Rightarrow> Some (Inl e, st')
              | Some (Inr (y, keep), st') \<Rightarrow>
                  let st'' = st'\<lparr>client_position := client_position st' + n\<rparr> in
                  (case (if sa_draft sa \<noteq> None \<and> sa_spec sa
                         then restore_hidden_states zero (Batched y) keep (width (the (sa_draft sa))) else Inr y) of
                     Inl e \<Rightarrow> Some (Inl e, st'')
                   | Inr out \<Rightarrow>
                       if \<not> sa_spec sa \<and> 0 < n \<and> n < width out then Some (Inr (last_cols n out), st'')
                       else if 0 < n \<and> width out < n then Some (Inl RuntimeError, st'')
                       else Some (Inr out, st'')))"

definition close_client :: "('p, 'h, 'c) client_session \<Rightarrow> ('p, 'h, 'c) client_session" where
  "close_client st = (if client_closed st then st else st\<lparr>sessions := [], client_closed := True\<rparr>)"


section \<open>What the sessions hold\<close>

abbreviation lo :: "('p, 'h) server_session \<Rightarrow> nat" where
  "lo s \<equiv> nat (span_start (sess_span s))"

abbreviation hi :: "('p, 'h) server_session \<Rightarrow> nat" where
  "hi s \<equiv> nat (span_end (sess_span s))"

text \<open>The sequence manager offers gap-free routes of non-empty spans (see \<open>min_latency_route\<close>).\<close>

definition routes_ok :: "('p, 'h, 'c) swarm \<Rightarrow> bool" where
  "routes_ok sw \<longleftrightarrow> (\<forall>t a b spans. a < b \<longrightarrow> route sw t a b = Inr spans \<longrightarrow>
     chain spans (int a) (int b) \<and> (\<forall>sp \<in> set spans. 0 < span_length sp))"

definition plain_step :: "client_config \<Rightarrow> 'h step_args \<Rightarrow> bool" where
  "plain_step cfg sa \<longleftrightarrow> \<not> sa_spec sa \<and> sa_kv_positions sa = None \<and> \<not> (use_server_to_server cfg \<and> push_only_downstream_decode cfg)"

definition span_chain :: "nat \<Rightarrow> nat \<Rightarrow> ('p, 'h) server_session list \<Rightarrow> bool" where
  "span_chain a b ss \<longleftrightarrow> chain (map sess_span ss) (int a) (int b) \<and> (\<forall>s \<in> set ss. 0 < span_length (sess_span s))"

definition ids_ok :: "('p, 'h, 'c) client_session \<Rightarrow> bool" where
  "ids_ok st \<longleftrightarrow> distinct (map sess_id (sessions st)) \<and> (\<forall>s \<in> set (sessions st). sess_id s < next_id st)"

text \<open>A moment at which nothing fails.\<close>

definition calm :: "client_config \<Rightarrow> ('p, 'h, 'c) swarm \<Rightarrow> nat \<Rightarrow> bool" where
  "calm cfg sw t \<longleftrightarrow> net sw t = Deliver \<and> (\<forall>i. connects sw t i) \<and>
     (\<forall>a b. a < b \<longrightarrow> b \<le> num_blocks cfg \<longrightarrow> (\<exists>spans. route sw t a b = Inr spans))"

text \<open>A session that failed in this step: its history already has the tokens of the step.\<close>

definition spoiled :: "(nat \<Rightarrow> 'h list \<Rightarrow> 'h list) \<Rightarrow> 'h list list \<Rightarrow> ('p, 'h) server_session \<Rightarrow> bool" where
  "spoiled blk L s \<longleftrightarrow> history s = Some (run_span blk 0 (lo s) L)"

text \<open>Linking changes nothing but the links.\<close>

definition relinked :: "('p, 'h) server_session list \<Rightarrow> ('p, 'h) server_session list \<Rightarrow> bool" where
  "relinked ss' ss \<longleftrightarrow> list_all2 (\<lambda>s' s. \<exists>nx. s' = s\<lparr>next_session := nx\<rparr>) ss' ss"

lemma relink_self: "\<exists>nx. s = s\<lparr>next_session := nx\<rparr>"
  by (rule exI [of _ "next_session s"]) simp

lemma relinked_refl: "relinked ss ss"
  unfolding relinked_def by (intro list_all2_refl relink_self)

lemma relinked_trans: "relinked xs ys \<Longrightarrow> relinked ys zs \<Longrightarrow> relinked xs zs"
  unfolding relinked_def by (rule list_all2_trans) auto

lemma relinked_update: "relinked (ss[i := (ss ! i)\<lparr>next_session := nx\<rparr>]) ss"
proof (cases "i < length ss")
  case True
  then show ?thesis by (auto simp: relinked_def list_all2_conv_all_nth nth_list_update relink_self)
next
  case False
  then have "ss[i := (ss ! i)\<lparr>next_session := nx\<rparr>] = ss" by (intro list_update_beyond) simp
  then show ?thesis by (metis relinked_refl)
qed

lemma relinked_link: "relinked (link_sessions a b ss) ss"
proof -
  have "relinked (foldl (\<lambda>ss i. ss[i := (ss ! i)\<lparr>next_session := Some (sess_id (ss ! (i + 1)))\<rparr>]) ss js) ss" for js
  proof (induction js rule: rev_induct)
    case (snoc j js)
    from relinked_update snoc show ?case unfolding foldl_append foldl.simps by (rule relinked_trans)
  qed (simp add: relinked_refl)
  then show ?thesis by (simp add: link_sessions_def)
qed

lemma relinked_maps:
  assumes "relinked ss' ss"
  shows "map sess_span ss' = map sess_span ss" and "map sess_id ss' = map sess_id ss"
  using assms unfolding relinked_def by (induction rule: list_all2_induct) auto

lemma relinked_chain: "relinked ss' ss \<Longrightarrow> span_chain a b ss' = span_chain a b ss"
proof -
  assume "relinked ss' ss"
  then have m: "map sess_span ss' = map sess_span ss" by (rule relinked_maps)
  then have "sess_span ` set ss' = sess_span ` set ss" by (metis list.set_map)
  then have "(\<forall>s \<in> set ss'. 0 < span_length (sess_span s)) = (\<forall>s \<in> set ss. 0 < span_length (sess_span s))"
    by (metis (no_types, lifting) imageE imageI)
  with m show ?thesis by (simp add: span_chain_def)
qed

lemma chain_le: "chain sps a b \<Longrightarrow> a \<le> b"
  by (induction sps arbitrary: a) (auto intro: order_trans)

lemma chain_end: "chain sps a b \<Longrightarrow> sps \<noteq> [] \<Longrightarrow> span_end (last sps) = b"
  by (induction sps arbitrary: a) (auto split: if_splits)

text \<open>What an exchange with the session of id \<open>i\<close> leaves alone.\<close>

definition only_session :: "nat \<Rightarrow> ('p, 'h, 'c) client_session \<Rightarrow> ('p, 'h, 'c) client_session \<Rightarrow> bool" where
  "only_session i st st' \<longleftrightarrow> sessions st' = sessions st \<and> next_id st' = next_id st \<and> client_max_length st' = client_max_length st \<and>
     client_position st' = client_position st \<and> client_closed st' = client_closed st \<and>
     (\<forall>j. j \<noteq> i \<longrightarrow> remote st' j = remote st j) \<and> clock st < clock st'"

text \<open>The part of the client state that no attempt touches; time only moves forward.\<close>

definition same_client :: "('p, 'h, 'c) client_session \<Rightarrow> ('p, 'h, 'c) client_session \<Rightarrow> bool" where
  "same_client st st' \<longleftrightarrow> client_max_length st' = client_max_length st \<and> client_position st' = client_position st \<and>
     client_closed st' = client_closed st \<and> clock st < clock st'"

context stage_server
begin

definition good_setup :: "client_config \<Rightarrow> ('d, 'h, 'c) swarm \<Rightarrow> 'h step_args \<Rightarrow> nat \<Rightarrow> bool" where
  "good_setup cfg sw sa B \<longleftrightarrow> plain_step cfg sa \<and> routes_ok sw \<and> serve_fn sw = serve \<and> fresh_fn sw = fresh \<and> causal_blocks blk \<and> 0 < B"

text \<open>A session in step with the client: \<open>L\<close> has the inputs of the first block for all positions.\<close>

definition warm :: "nat \<Rightarrow> nat \<Rightarrow> 'h list list \<Rightarrow> (nat \<Rightarrow> 'c) \<Rightarrow> ('d, 'h) server_session \<Rightarrow> bool" where
  "warm B P L r s \<longleftrightarrow> \<not> sess_closed s \<and> stepped s \<and> sess_position s = P \<and>
     history s = (if P = 0 then None else Some (run_span blk 0 (lo s) L)) \<and>
     (\<exists>M T. holds (lo s) (hi s) (r (sess_id s)) M \<and> tensor_shape B T M \<and> P \<le> T \<and> take_cols P M = run_span blk 0 (lo s) L)"

definition untouched :: "(nat \<Rightarrow> 'c) \<Rightarrow> ('d, 'h) server_session \<Rightarrow> bool" where
  "untouched r s \<longleftrightarrow> \<not> sess_closed s \<and> \<not> stepped s \<and> sess_position s = 0 \<and> r (sess_id s) = fresh (lo s) (hi s)"

text \<open>
  The state of the session whose turn it is, given whether the inputs that reach it have all the
  positions: in step, new with the whole history to replay, or new without history.
\<close>

definition ready :: "nat \<Rightarrow> nat \<Rightarrow> nat \<Rightarrow> 'h list list \<Rightarrow> bool \<Rightarrow> (nat \<Rightarrow> 'c) \<Rightarrow> ('d, 'h) server_session \<Rightarrow> bool" where
  "ready B P n L full r s \<longleftrightarrow>
     warm B P (take_cols P L) r s \<or> untouched r s \<and> (spoiled blk L s \<or> history s = None \<and> full)"

lemma exchange:
  assumes su: "good_setup cfg sw sa B" and le: "lo s \<le> hi s"
    and I: "tensor_shape B (P + n) I" and lim: "P + n \<le> limit" and n: "0 < n"
    and app: "append_history (width xin) xin s = Inr I" and open_s: "\<not> sess_closed s"
    and sent: "sent = (if stepped s then xin else I)" and sh: "tensor_shape B m sent" and pm: "sess_position s + m = P + n"
    and M: "holds (lo s) (hi s) (remote st (sess_id s)) M" "tensor_shape B T M" "sess_position s \<le> T"
    and whole: "cat_cols (take_cols (sess_position s) M) sent = I"
  shows "\<exists>out s' st'. server_step cfg sw sa np xin s st = (out, s', st') \<and>
     sess_span s' = sess_span s \<and> sess_id s' = sess_id s \<and> history s' = Some I \<and>
     only_session (sess_id s) st st' \<and>
     (case out of Inl e \<Rightarrow> net sw (clock st) \<noteq> Deliver
      | Inr (y, keep) \<Rightarrow> y = map (drop (sess_position s)) (run_span blk (lo s) (hi s) I) \<and>
          \<not> sess_closed s' \<and> stepped s' \<and> sess_position s' = P + n \<and> holds (lo s) (hi s) (remote st' (sess_id s)) I)"
proof -
  from su have ns: "\<not> sa_spec sa" "\<not> push_only_decode cfg s False" and sv: "serve_fn sw = serve" and ca: "causal_blocks blk" and B: "0 < B"
    by (auto simp: good_setup_def plain_step_def push_only_decode_def)
  define rq where "rq = make_request cfg sa np (width xin) sent s st"
  have rq: "rq_inputs rq = sent" "rq_start rq = Some (sess_position s)" "\<not> rq_spec rq"
    using ns by (simp_all add: rq_def make_request_def)
  have "\<exists>c keep. serve (lo s) (hi s) (remote st (sess_id s)) rq =
      (Inr (map (drop (sess_position s)) (run_span blk (lo s) (hi s) I), keep), c) \<and> holds (lo s) (hi s) c I"
    using serve_exact [OF ca M(1) le M(2) _ M(3) rq(2,3) B] sh pm lim by (simp add: rq(1) whole)
  then obtain c keep where c: "serve (lo s) (hi s) (remote st (sess_id s)) rq =
      (Inr (map (drop (sess_position s)) (run_span blk (lo s) (hi s) I), keep), c)" "holds (lo s) (hi s) c I" by blast
  have adv: "server_session_tokens_to_advance sent (width xin) False = m"
    using shape_width [OF sh B] by (simp add: server_session_tokens_to_advance_def)
  show ?thesis using c ns app open_s adv pm
    by (cases "net sw (clock st)") (simp_all add: server_step_def Let_def sv rq_def sent tick_def only_session_def)
qed

lemma drop_last_cols:
  assumes "tensor_shape B (P + n) H" and "0 < n"
  shows "map (drop P) H = last_cols n H"
  using assms by (auto simp: tensor_shape_def last_cols_def)

lemma turn_warm:
  assumes su: "good_setup cfg sw sa B" and le: "lo s \<le> hi s" and L: "tensor_shape B (P + n) L" and lim: "P + n \<le> limit" and n: "0 < n"
    and x: "x = last_cols w (run_span blk 0 (lo s) L)" "w = n \<or> w = P + n"
    and wm: "warm B P (take_cols P L) (remote st) s"
  shows "\<exists>out s' st'. server_step cfg sw sa np (trim_recovered_history_for_existing_downstream x n (sess_position s) (sa_spec sa)) s st = (out, s', st') \<and>
     sess_span s' = sess_span s \<and> sess_id s' = sess_id s \<and> only_session (sess_id s) st st' \<and> spoiled blk L s' \<and>
     (case out of Inl e \<Rightarrow> net sw (clock st) \<noteq> Deliver
      | Inr (y, keep) \<Rightarrow> warm B (P + n) L (remote st') s' \<and> y = last_cols n (run_span blk 0 (hi s) L))"
proof -
  from su have ca: "causal_blocks blk" and B: "0 < B" and ns: "\<not> sa_spec sa" by (auto simp: good_setup_def plain_step_def)
  define I where "I = run_span blk 0 (lo s) L"
  have I: "tensor_shape B (P + n) I" unfolding I_def by (rule run_span_shape [OF ca L])
  have H: "run_span blk (lo s) (hi s) I = run_span blk 0 (hi s) L" unfolding I_def using le by (intro run_span_compose) auto
  have shH: "tensor_shape B (P + n) (run_span blk 0 (hi s) L)" by (rule run_span_shape [OF ca L])
  have old: "run_span blk 0 (lo s) (take_cols P L) = take_cols P I" unfolding I_def by (rule run_span_take [OF ca])
  from wm obtain M T where pos: "sess_position s = P" and st: "stepped s" "\<not> sess_closed s"
    and hist: "history s = (if P = 0 then None else Some (take_cols P I))"
    and M: "holds (lo s) (hi s) (remote st (sess_id s)) M" "tensor_shape B T M" "P \<le> T" "take_cols P M = take_cols P I"
    unfolding warm_def old by blast
  have shn: "tensor_shape B n (last_cols n I)" using shape_last [OF I n] by (simp add: min_absorb1)
  define xin where "xin = trim_recovered_history_for_existing_downstream x n P (sa_spec sa)"
  have wx: "width x = (if w = n then n else P + n)"
    using x(2) shape_width [OF shn B] shape_width [OF I B] last_cols_all [OF I order_refl] by (auto simp: x(1) I_def [symmetric])
  have xin: "xin = last_cols n I"
    using x(2) wx n last_cols_all [OF I, of "P + n"] ns by (auto simp: xin_def trim_recovered_history_for_existing_downstream_def x(1) I_def [symmetric])
  have wxin: "width xin = n" unfolding xin by (rule shape_width [OF shn B])
  have app: "append_history (width xin) xin s = Inr I"
  proof (cases "P = 0")
    case True
    then have "last_cols n I = I" using last_cols_all [OF I] by simp
    with True hist show ?thesis by (simp add: append_history_def xin)
  next
    case False
    have tP: "tensor_shape B P (take_cols P I)" using shape_take [OF I, of P] by (simp add: min_absorb2)
    have "length (take_cols P I) = length xin" using I shn by (simp add: take_cols_def tensor_shape_def xin)
    moreover have "cat_cols (take_cols P I) (last_cols n xin) = I"
      unfolding xin last_cols_last_cols [OF n order_refl] by (rule cat_take_last [OF I n])
    ultimately show ?thesis using False hist shape_width [OF tP B] by (simp add: append_history_def wxin pos)
  qed
  have whole: "cat_cols (take_cols (sess_position s) M) xin = I" unfolding pos M(4) xin by (rule cat_take_last [OF I n])
  from exchange [OF su le I lim n app st(2), of xin n st M T np, OF _ _ _ M(1,2) _ whole] st(1) shn M(3)
  obtain out s' st' where step: "server_step cfg sw sa np xin s st = (out, s', st')"
    and fr: "sess_span s' = sess_span s" "sess_id s' = sess_id s" "history s' = Some I" "only_session (sess_id s) st st'"
    and out: "case out of Inl e \<Rightarrow> net sw (clock st) \<noteq> Deliver
      | Inr (y, keep) \<Rightarrow> y = map (drop (sess_position s)) (run_span blk (lo s) (hi s) I) \<and>
          \<not> sess_closed s' \<and> stepped s' \<and> sess_position s' = P + n \<and> holds (lo s) (hi s) (remote st' (sess_id s)) I"
    by (auto simp: pos [symmetric] xin [symmetric])
  have sp: "spoiled blk L s'" using fr by (simp add: spoiled_def I_def)
  have "case out of Inl e \<Rightarrow> net sw (clock st) \<noteq> Deliver
      | Inr (y, keep) \<Rightarrow> warm B (P + n) L (remote st') s' \<and> y = last_cols n (run_span blk 0 (hi s) L)"
    using out n fr I take_cols_all [OF I order_refl] drop_last_cols [OF shH n]
    by (auto simp: warm_def H pos I_def [symmetric] split: sum.splits prod.splits intro!: exI [of _ I])
  with step fr sp show ?thesis by (simp add: xin_def pos)
qed

lemma turn_fresh:
  assumes su: "good_setup cfg sw sa B" and le: "lo s \<le> hi s" and L: "tensor_shape B (P + n) L" and lim: "P + n \<le> limit" and n: "0 < n"
    and un: "untouched (remote st) s" and or: "spoiled blk L s \<or> history s = None \<and> x = run_span blk 0 (lo s) L"
  shows "\<exists>out s' st'. server_step cfg sw sa np (trim_recovered_history_for_existing_downstream x n (sess_position s) (sa_spec sa)) s st = (out, s', st') \<and>
     sess_span s' = sess_span s \<and> sess_id s' = sess_id s \<and> only_session (sess_id s) st st' \<and> spoiled blk L s' \<and>
     (case out of Inl e \<Rightarrow> net sw (clock st) \<noteq> Deliver
      | Inr (y, keep) \<Rightarrow> warm B (P + n) L (remote st') s' \<and> y = last_cols (P + n) (run_span blk 0 (hi s) L))"
proof -
  from su have ca: "causal_blocks blk" and B: "0 < B" by (auto simp: good_setup_def)
  define I where "I = run_span blk 0 (lo s) L"
  have I: "tensor_shape B (P + n) I" unfolding I_def by (rule run_span_shape [OF ca L])
  have H: "run_span blk (lo s) (hi s) I = run_span blk 0 (hi s) L" unfolding I_def using le by (intro run_span_compose) auto
  have shH: "tensor_shape B (P + n) (run_span blk 0 (hi s) L)" by (rule run_span_shape [OF ca L])
  from un have pos: "sess_position s = 0" and st: "\<not> stepped s" "\<not> sess_closed s" and r: "remote st (sess_id s) = fresh (lo s) (hi s)"
    by (auto simp: untouched_def)
  define E where "E = replicate B ([] :: 'h list)"
  have E: "tensor_shape B 0 E" by (simp add: E_def tensor_shape_def)
  have hE: "holds (lo s) (hi s) (remote st (sess_id s)) E" unfolding r by (rule fresh_holds [OF E])
  have app: "append_history (width x) x s = Inr I"
    using or shape_width [OF I B] n by (auto simp: append_history_def spoiled_def I_def [symmetric] pos)
  have whole: "cat_cols (take_cols (sess_position s) E) I = I"
    unfolding pos using cat_empty [OF shape_take [OF E, of 0, simplified] I] .
  have trim: "trim_recovered_history_for_existing_downstream x n (sess_position s) (sa_spec sa) = x"
    by (simp add: trim_recovered_history_for_existing_downstream_def pos)
  from exchange [OF su le I lim n app st(2), of I "P + n" st E 0 np, OF _ I _ hE E _ whole] st(1)
  obtain out s' st' where step: "server_step cfg sw sa np x s st = (out, s', st')"
    and fr: "sess_span s' = sess_span s" "sess_id s' = sess_id s" "history s' = Some I" "only_session (sess_id s) st st'"
    and out: "case out of Inl e \<Rightarrow> net sw (clock st) \<noteq> Deliver
      | Inr (y, keep) \<Rightarrow> y = map (drop (sess_position s)) (run_span blk (lo s) (hi s) I) \<and>
          \<not> sess_closed s' \<and> stepped s' \<and> sess_position s' = P + n \<and> holds (lo s) (hi s) (remote st' (sess_id s)) I"
    by (auto simp: pos [symmetric])
  have sp: "spoiled blk L s'" using fr by (simp add: spoiled_def I_def)
  have "case out of Inl e \<Rightarrow> net sw (clock st) \<noteq> Deliver
      | Inr (y, keep) \<Rightarrow> warm B (P + n) L (remote st') s' \<and> y = last_cols (P + n) (run_span blk 0 (hi s) L)"
    using out n fr I take_cols_all [OF I order_refl] last_cols_all [OF shH order_refl]
    by (auto simp: warm_def H pos I_def [symmetric] split: sum.splits prod.splits intro!: exI [of _ I])
  with step fr sp show ?thesis unfolding trim by blast
qed

lemma turn:
  assumes su: "good_setup cfg sw sa B" and le: "lo s \<le> hi s" and L: "tensor_shape B (P + n) L" and lim: "P + n \<le> limit" and n: "0 < n"
    and x: "x = last_cols w (run_span blk 0 (lo s) L)" "w = n \<or> w = P + n" and rd: "ready B P n L (w = P + n) (remote st) s"
  shows "\<exists>out s' st'. server_step cfg sw sa np (trim_recovered_history_for_existing_downstream x n (sess_position s) (sa_spec sa)) s st = (out, s', st') \<and>
     sess_span s' = sess_span s \<and> sess_id s' = sess_id s \<and> only_session (sess_id s) st st' \<and> spoiled blk L s' \<and>
     (case out of Inl e \<Rightarrow> net sw (clock st) \<noteq> Deliver
      | Inr (y, keep) \<Rightarrow> warm B (P + n) L (remote st') s' \<and>
          (\<exists>w'. y = last_cols w' (run_span blk 0 (hi s) L) \<and> (w' = n \<or> w' = P + n) \<and> (\<not> stepped s \<or> P = 0 \<longrightarrow> w' = P + n)))"
proof (cases "warm B P (take_cols P L) (remote st) s")
  case True
  then have "stepped s" by (simp add: warm_def)
  with turn_warm [OF su le L lim n x True, of np] show ?thesis
    by (elim exE conjE) (fastforce split: sum.splits prod.splits)
next
  case False
  from su have "causal_blocks blk" by (simp add: good_setup_def)
  then have "last_cols (P + n) (run_span blk 0 (lo s) L) = run_span blk 0 (lo s) L"
    by (intro last_cols_all [OF run_span_shape [OF _ L] order_refl])
  with False rd x have *: "untouched (remote st) s" "spoiled blk L s \<or> history s = None \<and> x = run_span blk 0 (lo s) L"
    by (auto simp: ready_def)
  from turn_fresh [OF su le L lim n *, of np] show ?thesis
    by (elim exE conjE) (fastforce split: sum.splits prod.splits)
qed

text \<open>The sessions after the current one, given whether it answers with all positions.\<close>

primrec pending :: "nat \<Rightarrow> nat \<Rightarrow> 'h list list \<Rightarrow> (nat \<Rightarrow> 'c) \<Rightarrow> bool \<Rightarrow> ('d, 'h) server_session list \<Rightarrow> bool" where
  "pending B P L r full [] \<longleftrightarrow> True"
| "pending B P L r full (s # ss) \<longleftrightarrow>
     warm B P (take_cols P L) r s \<and> pending B P L r (P = 0) ss \<or>
     untouched r s \<and> history s = None \<and> full \<and> pending B P L r True ss"

lemma pending_mono: "pending B P L r full ss \<Longrightarrow> pending B P L r True ss"
  by (cases ss) auto

lemma pending_cong:
  assumes "\<And>s. s \<in> set ss \<Longrightarrow> r' (sess_id s) = r (sess_id s)"
  shows "pending B P L r' full ss = pending B P L r full ss"
  using assms by (induction ss arbitrary: full) (simp_all add: warm_def untouched_def)

lemma pending_blanks:
  "(\<And>s. s \<in> set bs \<Longrightarrow> untouched r s \<and> history s = None) \<Longrightarrow> pending B P L r True ss \<Longrightarrow> pending B P L r True (bs @ ss)"
  by (induction bs) auto

definition armed :: "client_config \<Rightarrow> nat \<Rightarrow> nat \<Rightarrow> nat \<Rightarrow> 'h list list \<Rightarrow> nat \<Rightarrow> nat \<Rightarrow> bool \<Rightarrow> (nat \<Rightarrow> 'c) \<Rightarrow> ('d, 'h) server_session list \<Rightarrow> bool" where
  "armed cfg B P n L i a full r ss \<longleftrightarrow>
     (\<exists>dn s rest. ss = dn @ s # rest \<and> length dn = i \<and> span_chain 0 a dn \<and> span_chain a (num_blocks cfg) (s # rest) \<and>
        (\<forall>d \<in> set dn. warm B (P + n) L r d) \<and> ready B P n L full r s \<and> pending B P L r (\<not> stepped s \<or> P = 0) rest)"

definition loop_inv :: "client_config \<Rightarrow> nat \<Rightarrow> nat \<Rightarrow> nat \<Rightarrow> 'h list list \<Rightarrow> nat \<Rightarrow> nat \<Rightarrow> nat \<Rightarrow> bool \<Rightarrow> ('d, 'h, 'c) client_session \<Rightarrow> bool" where
  "loop_inv cfg B P n L i a k full st \<longleftrightarrow> ids_ok st \<and>
     (if sessions st = [] then i = 0 \<and> a = 0 \<and> P = 0
      else \<exists>dn rest. sessions st = dn @ rest \<and> length dn = i \<and> span_chain 0 a dn \<and> span_chain a (num_blocks cfg) rest \<and>
        (\<forall>d \<in> set dn. warm B (P + n) L (remote st) d) \<and>
        (if k = 0 then pending B P L (remote st) full rest
         else \<exists>s ss. rest = s # ss \<and> spoiled blk L s \<and> pending B P L (remote st) True ss))"

lemma armed_initially:
  assumes "loop_inv cfg B P n L i a 0 full st" and "sessions st \<noteq> []" and "a < num_blocks cfg"
  shows "armed cfg B P n L i a full (remote st) (sessions st)"
proof -
  from assms(1,2) obtain dn rest where *: "sessions st = dn @ rest" "length dn = i" "span_chain 0 a dn" "span_chain a (num_blocks cfg) rest"
    "\<forall>d \<in> set dn. warm B (P + n) L (remote st) d" "pending B P L (remote st) full rest" by (auto simp: loop_inv_def)
  with assms(3) obtain s ss where rest: "rest = s # ss" by (cases rest) (auto simp: span_chain_def)
  have "stepped s" if "warm B P (take_cols P L) (remote st) s" using that by (simp add: warm_def)
  moreover have "\<not> stepped s" if "untouched (remote st) s" using that by (simp add: untouched_def)
  ultimately have "ready B P n L full (remote st) s \<and> pending B P L (remote st) (\<not> stepped s \<or> P = 0) ss"
    using *(6) by (auto simp: rest ready_def)
  with * show ?thesis unfolding armed_def rest by blast
qed

lemma relink_simps [simp]:
  "warm B P L r (s\<lparr>next_session := nx\<rparr>) = warm B P L r s"
  "untouched r (s\<lparr>next_session := nx\<rparr>) = untouched r s"
  "ready B P n L full r (s\<lparr>next_session := nx\<rparr>) = ready B P n L full r s"
  by (simp_all add: warm_def untouched_def ready_def spoiled_def)

lemma relinked_pending: "relinked ss' ss \<Longrightarrow> pending B P L r full ss' = pending B P L r full ss"
  unfolding relinked_def
proof (induction arbitrary: full rule: list_all2_induct)
  case (Cons s' ss' s ss)
  then obtain nx where "s' = s\<lparr>next_session := nx\<rparr>" by blast
  then show ?case using Cons.IH by simp
qed simp

lemma relinked_warm: "relinked ss' ss \<Longrightarrow> (\<forall>s \<in> set ss'. warm B Q L r s) = (\<forall>s \<in> set ss. warm B Q L r s)"
  unfolding relinked_def by (induction rule: list_all2_induct) auto

lemma relinked_armed:
  assumes "relinked ss' ss" and "armed cfg B P n L i a full r ss"
  shows "armed cfg B P n L i a full r ss'"
proof -
  from assms(2) obtain dn s rest where a: "ss = dn @ s # rest" "length dn = i" "span_chain 0 a dn" "span_chain a (num_blocks cfg) (s # rest)"
    "\<forall>d \<in> set dn. warm B (P + n) L r d" "ready B P n L full r s" "pending B P L r (\<not> stepped s \<or> P = 0) rest"
    by (auto simp: armed_def)
  from assms(1) obtain dn' tl' where t: "ss' = dn' @ tl'" "length dn' = i" "relinked dn' dn" "relinked tl' (s # rest)"
    using a(2) by (auto simp: relinked_def a(1) list_all2_append2)
  from t(4) obtain s' rest' nx where u: "tl' = s' # rest'" "s' = s\<lparr>next_session := nx\<rparr>" "relinked rest' rest"
    unfolding relinked_def list_all2_Cons2 by blast
  note b = t(1) [unfolded u(1)] t(2,3) t(4) [unfolded u(1)] u(2,3)
  have "ready B P n L full r s'" using a(6) by (simp add: b(5))
  moreover have "pending B P L r (\<not> stepped s' \<or> P = 0) rest'" using a(7) relinked_pending [OF b(6)] by (simp add: b(5))
  moreover have "\<forall>d \<in> set dn'. warm B (P + n) L r d" using a(5) relinked_warm [OF b(3)] by blast
  ultimately show ?thesis using a(3,4) b(1,2) relinked_chain [OF b(3)] relinked_chain [OF b(4)] unfolding armed_def by blast
qed

lemma enter_ok:
  assumes "enter_server_sessions sw spans st = (Inr new, st2)" and "fresh_fn sw = fresh"
  shows "map sess_span new = spans" and "map sess_id new = [next_id st..<next_id st + length spans]"
    and "next_id st2 = next_id st + length spans" and "sessions st2 = sessions st" and "\<And>j. j < next_id st \<Longrightarrow> remote st2 j = remote st j"
    and "\<And>s. s \<in> set new \<Longrightarrow> untouched (remote st2) s \<and> history s = None"
    and "same_client st (tick st2)"
proof -
  let ?m = "length spans"
  from assms have new: "new = map2 new_server_session [next_id st..<next_id st + ?m] spans"
    and st2: "st2 = st\<lparr>next_id := next_id st + ?m,
           remote := (\<lambda>i. if next_id st \<le> i \<and> i < next_id st + ?m
                           then let sp = spans ! (i - next_id st) in fresh (nat (span_start sp)) (nat (span_end sp)) else remote st i)\<rparr>"
    by (auto simp: enter_server_sessions_def Let_def split: if_splits)
  show "map sess_span new = spans" and "map sess_id new = [next_id st..<next_id st + ?m]"
    by (auto simp: new new_server_session_def intro!: nth_equalityI)
  show "next_id st2 = next_id st + length spans" and "sessions st2 = sessions st" and "\<And>j. j < next_id st \<Longrightarrow> remote st2 j = remote st j"
    and "same_client st (tick st2)"
    by (simp_all add: st2 same_client_def tick_def)
  show "untouched (remote st2) s \<and> history s = None" if "s \<in> set new" for s
    using that by (auto simp: new st2 set_zip new_server_session_def untouched_def Let_def)
qed

lemma update_failed:
  assumes "loop_inv cfg B P n L i a k full st" and "sessions st = [] \<or> 1 \<le> k"
    and st': "sessions st' = close_session i (sessions st)" "remote st' = remote st" "next_id st' = next_id st"
  shows "loop_inv cfg B P n L i a (Suc k') full st'"
proof (cases "sessions st = []")
  case True
  with assms show ?thesis by (simp add: loop_inv_def ids_ok_def close_session_def)
next
  case False
  with assms(1,2) obtain dn s ss where *: "sessions st = dn @ s # ss" "length dn = i" "span_chain 0 a dn" "span_chain a (num_blocks cfg) (s # ss)"
    "\<forall>d \<in> set dn. warm B (P + n) L (remote st) d" "spoiled blk L s" "pending B P L (remote st) True ss" "ids_ok st"
    by (auto simp: loop_inv_def)
  define s' where "s' = s\<lparr>sess_closed := True\<rparr>"
  have ss': "sessions st' = dn @ s' # ss" unfolding st'(1) *(1) *(2) [symmetric] close_session_def s'_def by (simp add: list_update_append)
  have "ids_ok st'" using *(8) by (auto simp: ids_ok_def ss' *(1) st'(3) s'_def)
  moreover have "span_chain a (num_blocks cfg) (s' # ss)" "spoiled blk L s'" using *(4,6) by (simp_all add: span_chain_def spoiled_def s'_def)
  ultimately show ?thesis using * unfolding loop_inv_def ss' st'(2) by auto
qed

lemma chain_pos: "chain sps a b \<Longrightarrow> sps \<noteq> [] \<Longrightarrow> \<forall>sp \<in> set sps. 0 < span_length sp \<Longrightarrow> a < b"
proof (induction sps arbitrary: a)
  case (Cons sp sps)
  then show ?case by (cases sps) (fastforce simp: span_length_def)+
qed simp

lemma armed_after_update:
  assumes "span_chain 0 a dn" and "length dn = i" and "\<forall>d \<in> set dn. warm B (P + n) L r d"
    and new: "span_chain a e new" "new \<noteq> []" "\<And>s. s \<in> set new \<Longrightarrow> untouched r s \<and> history s = None"
    and rest: "span_chain e (num_blocks cfg) rest" "pending B P L r True rest"
    and h: "h = Some (run_span blk 0 a L) \<or> h = None \<and> full"
  shows "armed cfg B P n L i a full r (dn @ new[0 := (new ! 0)\<lparr>history := h\<rparr>] @ rest)"
proof -
  obtain s0 news where s0: "new = s0 # news" using new(2) by (cases new) auto
  define s where "s = s0\<lparr>history := h\<rparr>"
  have lo: "lo s = a" using new(1) by (simp add: s0 s_def span_chain_def)
  have un: "untouched r s" "\<not> stepped s" using new(3) [of s0] by (auto simp: s0 s_def untouched_def)
  have "history s = h" by (simp add: s_def)
  then have "ready B P n L full r s" using un(1) h by (auto simp: ready_def spoiled_def lo)
  moreover have "pending B P L r (\<not> stepped s \<or> P = 0) (news @ rest)" using un(2) new(3) rest(2) by (simp add: s0 pending_blanks)
  moreover have "span_chain a (num_blocks cfg) (s # news @ rest)"
    using new(1) rest(1) by (auto simp: span_chain_def s0 s_def chain_append)
  ultimately show ?thesis using assms(1-3) unfolding armed_def s0 by (auto simp: s_def [symmetric])
qed

lemma session_update_ok:
  assumes su: "good_setup cfg sw sa B" and inv: "loop_inv cfg B P n L i a k full st" and due: "sessions st = [] \<or> 1 \<le> k"
    and a: "a < num_blocks cfg" and full: "P = 0 \<Longrightarrow> full" and up: "update_server_sequence cfg sw i a st = (u, st')"
  shows "same_client st st' \<and> ids_ok st' \<and> (calm cfg sw (clock st) \<longrightarrow> u = Inr ()) \<and>
     (case u of Inl e \<Rightarrow> loop_inv cfg B P n L i a (Suc k) full st'
      | Inr _ \<Rightarrow> armed cfg B P n L i a full (remote st') (sessions st'))"
proof -
  define ss where "ss = close_session i (sessions st)"
  define e where "e = (if i < length ss then nat (span_end (sess_span (ss ! i))) else num_blocks cfg)"
  define st1 where "st1 = st\<lparr>sessions := ss\<rparr>"
  have failed: "loop_inv cfg B P n L i a (Suc k) full st2 \<and> same_client st st2 \<and> ids_ok st2"
    if "sessions st2 = ss" "remote st2 = remote st" "next_id st2 = next_id st" "same_client st st2" for st2
    using update_failed [OF inv due, of st2 k] that by (auto simp: ss_def loop_inv_def)
  have shape: "\<exists>dn rest. ss = dn @ rest \<and> length dn = i \<and> span_chain 0 a dn \<and> (\<forall>d \<in> set dn. warm B (P + n) L (remote st) d) \<and>
      span_chain e (num_blocks cfg) (drop (Suc i) ss) \<and> pending B P L (remote st) True (drop (Suc i) ss) \<and> a < e \<and>
      (if i < length ss then history (ss ! i) = Some (run_span blk 0 a L) else P = 0 \<and> ss = [])"
  proof (cases "sessions st = []")
    case True
    with inv a show ?thesis by (auto simp: loop_inv_def ss_def close_session_def span_chain_def e_def)
  next
    case False
    from failed [of "tick st1"] have "loop_inv cfg B P n L i a (Suc k) full (tick st1)"
      by (simp add: st1_def tick_def same_client_def)
    moreover have ne: "sessions (tick st1) \<noteq> []" using False by (auto simp: st1_def tick_def ss_def close_session_def)
    ultimately obtain dn s rest where *: "ss = dn @ s # rest" "length dn = i" "span_chain 0 a dn" "span_chain a (num_blocks cfg) (s # rest)"
      "\<forall>d \<in> set dn. warm B (P + n) L (remote st) d" "spoiled blk L s" "pending B P L (remote st) True rest"
      by (auto simp: loop_inv_def st1_def tick_def)
    have at: "ss ! i = s" "i < length ss" "drop (Suc i) ss = rest" using *(1,2) by auto
    have s: "span_start (sess_span s) = int a" "a < hi s" "chain (map sess_span rest) (int (hi s)) (int (num_blocks cfg))"
      using *(4) by (auto simp: span_chain_def span_length_def)
    have "span_chain (hi s) (num_blocks cfg) rest" using *(4) s(3) by (simp add: span_chain_def)
    then show ?thesis using * s at by (auto simp: e_def spoiled_def)
  qed
  then obtain dn rest where d: "ss = dn @ rest" "length dn = i" "span_chain 0 a dn" "\<forall>d \<in> set dn. warm B (P + n) L (remote st) d"
    "span_chain e (num_blocks cfg) (drop (Suc i) ss)" "pending B P L (remote st) True (drop (Suc i) ss)" "a < e"
    "if i < length ss then history (ss ! i) = Some (run_span blk 0 a L) else P = 0 \<and> ss = []" by blast
  have eN: "e \<le> num_blocks cfg" using chain_le d(5) by (fastforce simp: span_chain_def)
  show ?thesis
  proof (cases "route sw (clock st) a e")
    case (Inl err)
    then have "\<not> calm cfg sw (clock st)" using d(7) eN unfolding calm_def by fastforce
    with Inl up failed [of "tick st1"] show ?thesis
      by (auto simp: update_server_sequence_def Let_def ss_def [symmetric] e_def [symmetric] st1_def same_client_def tick_def)
  next
    case (Inr spans)
    from su d(7) Inr have sp: "chain spans (int a) (int e)" "\<forall>sp \<in> set spans. 0 < span_length sp" by (auto simp: good_setup_def routes_ok_def)
    with d(7) have ne: "spans \<noteq> []" by auto
    have trim: "butlast spans @ [(last spans)\<lparr>span_end := min (span_end (last spans)) (int e)\<rparr>] = spans"
    proof -
      have "span_end (last spans) = int e" by (rule chain_end [OF sp(1) ne])
      then have "(last spans)\<lparr>span_end := min (span_end (last spans)) (int e)\<rparr> = last spans" by (cases "last spans") simp
      with ne show ?thesis by simp
    qed
    obtain o2 st2 where en: "enter_server_sessions sw spans st1 = (o2, st2)" by fastforce
    show ?thesis
    proof (cases o2)
      case (Inl err)
      then have "st2 = st1" "\<not> list_all (connects sw (clock st)) [0..<length spans]"
        using en by (auto simp: enter_server_sessions_def Let_def st1_def split: if_splits)
      then have "st2 = st1" "\<not> calm cfg sw (clock st)" by (auto simp: calm_def list_all_iff)
      with up Inl Inr ne en failed [of "tick st1"] show ?thesis
        by (auto simp: update_server_sequence_def Let_def ss_def [symmetric] e_def [symmetric] st1_def [symmetric] trim)
          (simp_all add: st1_def same_client_def tick_def)
    next
      case (Inr new)
      note ent = enter_ok [OF en [unfolded Inr] su [unfolded good_setup_def, THEN conjunct2, THEN conjunct2, THEN conjunct2, THEN conjunct1]]
      define h where "h = (if i < length ss then history (ss ! i) else None)"
      define new' where "new' = new[0 := (new ! 0)\<lparr>history := h\<rparr>]"
      define all where "all = dn @ new' @ drop (Suc i) ss"
      define lk where "lk = link_sessions (i - 1) (min (i + length spans) (length all - 1)) all"
      have nn: "new \<noteq> []" using ent(1) ne by auto
      have "new[0 := (new ! 0)\<lparr>history := None\<rparr>] = new"
      proof -
        have "history (new ! 0) = None" using ent(6) [of "new ! 0"] nn by simp
        then have "(new ! 0)\<lparr>history := None\<rparr> = new ! 0" by (cases "new ! 0") simp
        then show ?thesis by simp
      qed
      then have new'_eq: "(if i < length ss then new[0 := (new ! 0)\<lparr>history := history (ss ! i)\<rparr>] else new) = new'"
        by (simp add: new'_def h_def)
      have tk: "take i ss = dn" using d(1,2) by simp
      have "update_server_sequence cfg sw i a st = (Inr (), tick st2\<lparr>sessions := lk\<rparr>)"
        unfolding update_server_sequence_def Let_def ss_def [symmetric] e_def [symmetric] st1_def [symmetric]
        by (simp only: \<open>route sw (clock st) a e = Inr spans\<close> sum.case ne if_False trim en Inr prod.case new'_eq tk all_def [symmetric] lk_def [symmetric])
      with up have st': "u = Inr ()" "st' = tick st2\<lparr>sessions := lk\<rparr>" by simp_all
      have ids: "ids_ok (tick st1)" using failed [of "tick st1"] by (simp add: st1_def tick_def same_client_def)
      have old: "remote st2 (sess_id s) = remote st (sess_id s)" if "s \<in> set ss" for s
        using ids that ent(5) [of "sess_id s"] by (auto simp: ids_ok_def st1_def tick_def)
      have w: "\<forall>x \<in> set dn. warm B (P + n) L (remote st2) x" using d(4) old by (auto simp: warm_def d(1))
      have p: "pending B P L (remote st2) True (drop (Suc i) ss)"
        using d(6) by (subst pending_cong [of _ "remote st2" "remote st"]) (simp_all add: old in_set_dropD)
      have "span_chain a e new" using sp ent(1) by (auto simp: span_chain_def)
      from armed_after_update [OF d(3,2) w this nn ent(6) d(5) p, of h full] d(8) full
      have "armed cfg B P n L i a full (remote st2) all" by (auto simp: all_def new'_def h_def split: if_splits)
      then have "armed cfg B P n L i a full (remote st2) lk" unfolding lk_def by (rule relinked_armed [OF relinked_link])
      moreover have "map sess_id lk = map sess_id dn @ [next_id st..<next_id st + length spans] @ map sess_id (drop (Suc i) ss)"
      proof -
        have "map sess_id new' = map sess_id new" by (cases new) (simp_all add: new'_def)
        then show ?thesis unfolding lk_def relinked_maps(2) [OF relinked_link] by (simp add: all_def ent(2) st1_def)
      qed
      then have lk: "map sess_id lk = map sess_id (take i (sessions (tick st1))) @ [next_id st..<next_id st + length spans] @ map sess_id (drop (Suc i) (sessions (tick st1)))"
        by (simp add: st1_def tick_def tk)
      have "distinct (map sess_id (sessions (tick st1)))" "\<forall>j \<in> set (map sess_id (sessions (tick st1))). j < next_id st"
        using ids by (auto simp: ids_ok_def st1_def tick_def)
      from distinct_replace [OF this, of i "length spans"]
      have "distinct (map sess_id lk) \<and> (\<forall>j \<in> set (map sess_id lk). j < next_id st + length spans)" unfolding lk take_map drop_map .
      then have "ids_ok st'" using ent(3) by (simp add: ids_ok_def st'(2) tick_def st1_def)
      moreover have "same_client st st'" using ent(7) by (simp add: same_client_def st'(2) st1_def tick_def)
      ultimately show ?thesis by (simp add: st' tick_def)
    qed
  qed
qed

lemma loop_inv_next:
  assumes "ids_ok st" and "sessions st = dn @ rest" and "dn \<noteq> []" and "length dn = i" and "span_chain 0 a dn" and "span_chain a (num_blocks cfg) rest"
    and "\<forall>d \<in> set dn. warm B (P + n) L (remote st) d" and "pending B P L (remote st) full rest"
  shows "loop_inv cfg B P n L i a 0 full st"
proof -
  have "\<exists>dn rest. sessions st = dn @ rest \<and> length dn = i \<and> span_chain 0 a dn \<and> span_chain a (num_blocks cfg) rest \<and>
        (\<forall>d \<in> set dn. warm B (P + n) L (remote st) d) \<and> pending B P L (remote st) full rest"
    using assms by blast
  with assms(1-3) show ?thesis by (simp add: loop_inv_def)
qed

lemma attempt_ok:
  assumes su: "good_setup cfg sw sa B" and L: "tensor_shape B (P + n) L" and lim: "P + n \<le> limit" and n: "0 < n"
    and a: "a < num_blocks cfg" and inv: "loop_inv cfg B P n L i a k (w = P + n) st"
    and x: "x = last_cols w (run_span blk 0 a L)" "w = n \<or> w = P + n"
    and att: "attempt_step cfg sw sa n i a k x np st = (out, st')"
  shows "same_client st st' \<and> ((\<forall>t \<ge> clock st. calm cfg sw t) \<longrightarrow> (\<exists>r. out = Inr r)) \<and>
     (case out of Inl e \<Rightarrow> loop_inv cfg B P n L i a (Suc k) (w = P + n) st'
      | Inr ((y, ks), b) \<Rightarrow> a < b \<and> b \<le> num_blocks cfg \<and>
          (\<exists>w'. y = last_cols w' (run_span blk 0 b L) \<and> (w' = n \<or> w' = P + n) \<and> loop_inv cfg B P n L (i + 1) b 0 (w' = P + n) st'))"
proof -
  obtain u st1 where u: "(if sessions st = [] \<or> 1 \<le> k then update_server_sequence cfg sw i a st else (Inr (), st)) = (u, st1)" by fastforce
  have pre: "(st1 = st \<or> same_client st st1) \<and> ids_ok st1 \<and> (calm cfg sw (clock st) \<longrightarrow> u = Inr ()) \<and>
     (case u of Inl e \<Rightarrow> same_client st st1 \<and> loop_inv cfg B P n L i a (Suc k) (w = P + n) st1
      | Inr _ \<Rightarrow> armed cfg B P n L i a (w = P + n) (remote st1) (sessions st1))"
  proof (cases "sessions st = [] \<or> 1 \<le> k")
    case True
    with u have "update_server_sequence cfg sw i a st = (u, st1)" by simp
    from session_update_ok [OF su inv True a _ this] x(2) show ?thesis by (auto split: sum.splits)
  next
    case False
    then have "k = 0" "sessions st \<noteq> []" by auto
    moreover from inv have "ids_ok st" by (simp add: loop_inv_def)
    ultimately show ?thesis using u armed_initially [of cfg B P n L i a "w = P + n" st] inv a False by auto
  qed
  show ?thesis
  proof (cases u)
    case (Inl e)
    then have "out = Inl e" "st' = st1\<lparr>notices := notices st1 @ [(None, False)]\<rparr>" using att unfolding attempt_step_def u by simp_all
    moreover have "loop_inv cfg B P n L i a (Suc k) (w = P + n) st1" "same_client st st1" "\<not> calm cfg sw (clock st)" using pre Inl by auto
    ultimately show ?thesis by (auto simp: loop_inv_def ids_ok_def same_client_def)
  next
    case (Inr _)
    with pre have ar: "armed cfg B P n L i a (w = P + n) (remote st1) (sessions st1)" by simp
    from ar obtain dn s rest where *: "sessions st1 = dn @ s # rest" "length dn = i" "span_chain 0 a dn" "span_chain a (num_blocks cfg) (s # rest)"
      "\<forall>d \<in> set dn. warm B (P + n) L (remote st1) d" "ready B P n L (w = P + n) (remote st1) s" "pending B P L (remote st1) (\<not> stepped s \<or> P = 0) rest"
      by (auto simp: armed_def)
    have at: "sessions st1 ! i = s" "\<not> length (sessions st1) \<le> i" using *(1,2) by auto
    have sp: "span_start (sess_span s) = int a" "a < hi s" "chain (map sess_span rest) (int (hi s)) (int (num_blocks cfg))" "lo s = a"
      using *(4) by (auto simp: span_chain_def span_length_def)
    have b: "hi s \<le> num_blocks cfg" using chain_le [OF sp(3)] by linarith
    obtain r s' st2 where stp: "server_step cfg sw sa np (trim_recovered_history_for_existing_downstream x n (sess_position s) (sa_spec sa)) s st1 = (r, s', st2)"
      by (metis prod_cases3)
    from turn [OF su _ L lim n, of s x w st1 np] sp(2,4) x *(6) stp
    have t: "sess_span s' = sess_span s" "sess_id s' = sess_id s" "only_session (sess_id s) st1 st2" "spoiled blk L s'"
      "case r of Inl e \<Rightarrow> net sw (clock st1) \<noteq> Deliver
      | Inr (y, keep) \<Rightarrow> warm B (P + n) L (remote st2) s' \<and>
          (\<exists>w'. y = last_cols w' (run_span blk 0 (hi s) L) \<and> (w' = n \<or> w' = P + n) \<and> (\<not> stepped s \<or> P = 0 \<longrightarrow> w' = P + n))"
      by auto
    define ok where "ok = (case r of Inl e \<Rightarrow> False | Inr y \<Rightarrow> True)"
    define st3 where "st3 = st2\<lparr>sessions := (sessions st2)[i := s'], notices := notices st2 @ [(Some (span_peer (sess_span s)), ok)]\<rparr>"
    have res: "out = map_sum id (\<lambda>y. (y, hi s)) r" "st' = st3"
      using att unfolding attempt_step_def u by (auto simp: Inr at stp st3_def ok_def Let_def split: sum.splits)
    have ss3: "sessions st3 = dn @ s' # rest" using t(3) *(1,2) by (simp add: st3_def only_session_def list_update_append)
    have ids1: "ids_ok st1" using pre by blast
    have rem: "remote st3 (sess_id d) = remote st1 (sess_id d)" if "d \<in> set dn \<union> set rest" for d
    proof -
      have "sess_id s \<notin> sess_id ` (set dn \<union> set rest)" using ids1 *(1) by (auto simp: ids_ok_def)
      then have "sess_id d \<noteq> sess_id s" using that by (metis imageI)
      then show ?thesis using t(3) by (simp add: st3_def only_session_def)
    qed
    have w3: "\<forall>d \<in> set dn. warm B (P + n) L (remote st3) d" using *(5) rem by (auto simp: warm_def)
    have p3: "pending B P L (remote st3) full rest = pending B P L (remote st1) full rest" for full by (rule pending_cong) (simp add: rem)
    have ids3: "ids_ok st3" using ids1 t(2,3) *(1) by (simp add: ids_ok_def ss3) (simp add: st3_def only_session_def)
    have same: "same_client st st3" using pre t(3) by (auto simp: same_client_def only_session_def st3_def)
    show ?thesis
    proof (cases r)
      case (Inl e)
      have "span_chain a (num_blocks cfg) (s' # rest)" using *(4) t(1) by (simp add: span_chain_def)
      moreover have "pending B P L (remote st3) True rest" using *(7) pending_mono p3 by blast
      ultimately have "loop_inv cfg B P n L i a (Suc k) (w = P + n) st3"
        using ids3 *(2,3) w3 t(4) unfolding loop_inv_def ss3 by auto
      moreover have "\<not> (\<forall>t \<ge> clock st. calm cfg sw t)"
      proof -
        have "clock st \<le> clock st1" using pre by (auto simp: same_client_def)
        moreover have "\<not> calm cfg sw (clock st1)" using t(5) Inl by (simp add: calm_def)
        ultimately show ?thesis by blast
      qed
      ultimately show ?thesis using same Inl by (simp add: res)
    next
      case (Inr z)
      obtain y keep where z: "z = (y, keep)" by fastforce
      from t(5) Inr obtain w' where w': "warm B (P + n) L (remote st2) s'" "y = last_cols w' (run_span blk 0 (hi s) L)" "w' = n \<or> w' = P + n"
        "\<not> stepped s \<or> P = 0 \<longrightarrow> w' = P + n" by (auto simp: z)
      have "pending B P L (remote st3) (w' = P + n) rest" proof (cases "w' = P + n")
        case True
        then show ?thesis using pending_mono *(7) p3 by simp
      next
        case False
        then show ?thesis using w'(4) *(7) p3 by simp
      qed
      moreover have "span_chain 0 (hi s) (dn @ [s'])" using *(3,4) sp t(1) by (auto simp: span_chain_def chain_append)
      moreover have "span_chain (hi s) (num_blocks cfg) rest" using *(4) sp(3) by (simp add: span_chain_def)
      moreover have "\<forall>d \<in> set (dn @ [s']). warm B (P + n) L (remote st3) d" using w3 w'(1) by (simp add: st3_def)
      moreover have "sessions st3 = (dn @ [s']) @ rest" by (simp add: ss3)
      ultimately have "loop_inv cfg B P n L (i + 1) (hi s) 0 (w' = P + n) st3"
        using ids3 *(2) by (intro loop_inv_next [where dn = "dn @ [s']" and rest = rest]) simp_all
      then show ?thesis using same sp(2) b w'(2,3) Inr by (auto simp: res z)
    qed
  qed
qed

definition finished :: "client_config \<Rightarrow> nat \<Rightarrow> nat \<Rightarrow> 'h list list \<Rightarrow> ('d, 'h, 'c) client_session \<Rightarrow> bool" where
  "finished cfg B P L st \<longleftrightarrow> ids_ok st \<and> span_chain 0 (num_blocks cfg) (sessions st) \<and> (\<forall>s \<in> set (sessions st). warm B P L (remote st) s)"

lemma loop_end:
  assumes "loop_inv cfg B P n L i a k full st" and "a = num_blocks cfg" and "0 < num_blocks cfg"
  shows "finished cfg B (P + n) L st"
proof -
  from assms have ne: "sessions st \<noteq> []" by (auto simp: loop_inv_def)
  with assms(1) obtain dn rest where *: "ids_ok st" "sessions st = dn @ rest" "span_chain 0 a dn" "span_chain a (num_blocks cfg) rest"
    "\<forall>d \<in> set dn. warm B (P + n) L (remote st) d" by (auto simp: loop_inv_def)
  have "rest = []"
  proof (rule ccontr)
    assume "rest \<noteq> []"
    with *(4) have "int a < int (num_blocks cfg)" by (intro chain_pos [of "map sess_span rest"]) (auto simp: span_chain_def)
    with assms(2) show False by simp
  qed
  with * assms(2) show ?thesis by (simp add: finished_def)
qed

lemma step_loop_exact:
  assumes su: "good_setup cfg sw sa B" and L: "tensor_shape B (P + n) L" and lim: "P + n \<le> limit" and n: "0 < n" and N: "0 < num_blocks cfg"
    and run: "step_loop cfg sw sa n i a k x np keep st = Some (out, st')"
    and inv: "loop_inv cfg B P n L i a k (w = P + n) st" "x = last_cols w (run_span blk 0 a L)" "w = n \<or> w = P + n" "a \<le> num_blocks cfg"
  shows "(st' = st \<or> same_client st st') \<and>
     (case out of Inl e \<Rightarrow> True
      | Inr (y, ks) \<Rightarrow> finished cfg B (P + n) L st' \<and> (\<exists>w'. y = last_cols w' (run_span blk 0 (num_blocks cfg) L) \<and> (w' = n \<or> w' = P + n)))"
proof -
  have "loop_inv cfg B P n L i a k (w = P + n) st \<longrightarrow> x = last_cols w (run_span blk 0 a L) \<longrightarrow> w = n \<or> w = P + n \<longrightarrow> a \<le> num_blocks cfg \<longrightarrow>
     (snd r = st \<or> same_client st (snd r)) \<and>
     (case fst r of Inl e \<Rightarrow> True
      | Inr (y, ks) \<Rightarrow> finished cfg B (P + n) L (snd r) \<and> (\<exists>w'. y = last_cols w' (run_span blk 0 (num_blocks cfg) L) \<and> (w' = n \<or> w' = P + n)))"
    if "step_loop cfg' sw' sa' n' i a k x np keep st = Some r" "cfg' = cfg" "sw' = sw" "sa' = sa" "n' = n" for cfg' sw' sa' n' i a k x np keep st r w
    using that
  proof (induction arbitrary: w rule: step_loop_induct)
    case (loop loop cfg' sw' sa' n' i a k x np keep st r w)
    show ?case
    proof (intro impI)
      assume inv: "loop_inv cfg B P n L i a k (w = P + n) st" and x: "x = last_cols w (run_span blk 0 a L)" "w = n \<or> w = P + n" and aN: "a \<le> num_blocks cfg"
      show "(snd r = st \<or> same_client st (snd r)) \<and>
        (case fst r of Inl e \<Rightarrow> True
         | Inr (y, ks) \<Rightarrow> finished cfg B (P + n) L (snd r) \<and> (\<exists>w'. y = last_cols w' (run_span blk 0 (num_blocks cfg) L) \<and> (w' = n \<or> w' = P + n)))"
      proof (cases "num_blocks cfg \<le> a")
        case True
        with aN have "a = num_blocks cfg" by simp
        moreover from True loop(2-) have "r = (Inr (x, keep), st)" by simp
        ultimately show ?thesis using x loop_end [OF inv _ N] by auto
      next
        case False
        obtain o1 st1 where att: "attempt_step cfg sw sa n i a k x np st = (o1, st1)" by fastforce
        from False have "a < num_blocks cfg" by simp
        note ok = attempt_ok [OF su L lim n this inv x att]
        show ?thesis
        proof (cases o1)
          case (Inl e)
          show ?thesis
          proof (cases "max_retries cfg = Some (k + 1)")
            case True
            with loop(2-) False att Inl have "r = (Inl e, st1)" by simp
            with ok show ?thesis by simp
          next
            case F: False
            with loop(2-) False att Inl have "loop cfg sw sa n i a (k + 1) x np keep st1 = Some r" by simp
            from loop(1) [OF this refl refl refl refl, of w] ok Inl x aN show ?thesis by (auto simp: same_client_def)
          qed
        next
          case (Inr z)
          obtain y ks b where z: "z = ((y, ks), b)" by (metis prod.exhaust)
          from loop(2-) False att have rec: "loop cfg sw sa n (i + 1) b 0 y False (if sa_spec sa \<and> np then ks else keep) st1 = Some r" by (simp add: Inr z)
          from ok obtain w' where "loop_inv cfg B P n L (i + 1) b 0 (w' = P + n) st1" "y = last_cols w' (run_span blk 0 b L)" "w' = n \<or> w' = P + n" "b \<le> num_blocks cfg"
            "same_client st st1" by (auto simp: Inr z)
          with loop(1) [OF rec refl refl refl refl, of w'] show ?thesis by (auto simp: same_client_def)
        qed
      qed
    qed
  qed
  from this [OF run refl refl refl refl, of w] inv show ?thesis unfolding fst_conv snd_conv by blast
qed

subsection \<open>Between the steps\<close>

definition idle :: "client_config \<Rightarrow> nat \<Rightarrow> 'h list list \<Rightarrow> ('d, 'h, 'c) client_session \<Rightarrow> bool" where
  "idle cfg B L st \<longleftrightarrow> ids_ok st \<and> tensor_shape B (client_position st) L \<and> \<not> client_closed st \<and> client_max_length st \<le> limit \<and>
     (if sessions st = [] then client_position st = 0
      else span_chain 0 (num_blocks cfg) (sessions st) \<and> (\<forall>s \<in> set (sessions st). warm B (client_position st) L (remote st) s))"

lemma pending_warm: "(\<forall>s \<in> set ss. warm B P (take_cols P L) r s) \<Longrightarrow> pending B P L r full ss"
  by (induction ss arbitrary: full) auto

lemma idle_start:
  assumes "idle cfg B L st" and "tensor_shape B n X" and "P = client_position st"
  shows "loop_inv cfg B P n (cat_cols L X) 0 0 0 (n = P + n) st"
proof -
  have L: "tensor_shape B P L" using assms by (simp add: idle_def)
  have "take_cols P (cat_cols L X) = L" by (rule take_cols_cat [OF L assms(2)])
  with assms show ?thesis by (auto simp: idle_def loop_inv_def span_chain_def intro!: pending_warm)
qed

lemma idle_set_position:
  fixes st :: "('d, 'h, 'c) client_session"
  assumes "idle cfg B L st" and "p \<le> client_position st" and ca: "causal_blocks blk" and B: "0 < B"
  shows "idle cfg B (take_cols p L) (set_position p st)"
proof -
  let ?P = "client_position st"
  have L: "tensor_shape B ?P L" using assms(1) by (simp add: idle_def)
  have "warm B p (take_cols p L) r (set_session_position p s)" if w: "warm B ?P L r s" for r and s :: "('d, 'h) server_session"
  proof -
    have wd: "width (run_span blk 0 (lo s) L) = ?P" by (rule shape_width [OF run_span_shape [OF ca L] B])
    have "take_cols p M = run_span blk 0 (lo s) (take_cols p L)" if "take_cols ?P M = run_span blk 0 (lo s) L" for M
      using that assms(2) unfolding run_span_take [OF ca] by (metis take_cols_take min_absorb1)
    then show ?thesis
      using w assms(2) wd unfolding warm_def set_session_position_simps
      by (auto simp: set_session_position_def run_span_take [OF ca] intro: order_trans)
  qed
  then have "\<forall>s \<in> set (sessions st). warm B p (take_cols p L) (remote st) (set_session_position p s)"
    if "\<forall>s \<in> set (sessions st). warm B ?P L (remote st) s" using that by blast
  moreover have "tensor_shape B p (take_cols p L)" using shape_take [OF L, of p] assms(2) by (simp add: min_absorb2)
  ultimately show ?thesis using assms(1,2) by (auto simp: idle_def set_position_def ids_ok_def span_chain_def comp_def)
qed

text \<open>The step after its guards, for a plain request.\<close>

lemma step_plain:
  assumes "plain_step cfg sa" and "\<not> client_closed st" and "width (sa_inputs sa) = n" and "0 < n"
    and "client_position st + n \<le> client_max_length st" and "sa_hypo sa = None \<or> sa_hypo sa = Some (length (sa_inputs sa))"
  shows "step cfg sw zero sa st =
    (case step_loop cfg sw sa n 0 0 0 (sa_inputs sa) False (replicate (length (sa_inputs sa)) (map int [0..<n])) st of
       None \<Rightarrow> None
     | Some (Inl e, st') \<Rightarrow> Some (Inl e, st')
     | Some (Inr (z, keep), st') \<Rightarrow>
         Some (if n < width z then Inr (last_cols n z) else if width z < n then Inl RuntimeError else Inr z,
               st'\<lparr>client_position := client_position st' + n\<rparr>))"
  using assms by (auto simp: step_def plain_step_def Let_def split: option.splits sum.splits prod.splits)

lemma step_guards:
  assumes "plain_step cfg sa" and "step cfg sw zero sa st = Some (Inr y, st')" and "width (sa_inputs sa) = n"
  shows "client_position st + n \<le> client_max_length st" and "sa_hypo sa = None \<or> sa_hypo sa = Some (length (sa_inputs sa))"
  using assms by (auto simp: step_def plain_step_def Let_def not_less[symmetric] split: if_splits option.splits)

lemma step_exact:
  assumes su: "good_setup cfg sw sa B" and N: "0 < num_blocks cfg" and idle: "idle cfg B L st"
    and X: "tensor_shape B n (sa_inputs sa)" and n: "0 < n" and run: "step cfg sw zero sa st = Some (Inr y, st')"
  shows "y = last_cols n (run_span blk 0 (num_blocks cfg) (cat_cols L (sa_inputs sa))) \<and> idle cfg B (cat_cols L (sa_inputs sa)) st'"
proof -
  let ?X = "sa_inputs sa" and ?P = "client_position st" and ?N = "num_blocks cfg"
  let ?L = "cat_cols L ?X"
  from su have ns: "\<not> sa_spec sa" "sa_kv_positions sa = None" and ca: "causal_blocks blk" and B: "0 < B" by (auto simp: good_setup_def plain_step_def)
  have sL: "tensor_shape B ?P L" using idle by (simp add: idle_def)
  have L: "tensor_shape B (?P + n) ?L" by (rule shape_cat [OF sL X])
  have wX: "width ?X = n" by (rule shape_width [OF X B])
  from su have pl: "plain_step cfg sa" by (simp add: good_setup_def)
  note guards = step_guards [OF pl run wX]
  with idle have lim: "?P + n \<le> limit" by (simp add: idle_def)
  have x: "?X = last_cols n (run_span blk 0 0 ?L)" using last_cols_cat [OF sL X n] by simp
  from idle have "\<not> client_closed st" by (simp add: idle_def)
  from step_plain [OF pl this wX n guards, of sw zero] run obtain z keep st1
    where lp: "step_loop cfg sw sa n 0 0 0 ?X False (replicate (length ?X) (map int [0..<n])) st = Some (Inr (z, keep), st1)"
    and res: "st' = st1\<lparr>client_position := client_position st1 + n\<rparr>" "y = (if n < width z then last_cols n z else z)"
    by (auto split: option.splits sum.splits prod.splits if_splits)
  from step_loop_exact [OF su L lim n N lp idle_start [OF idle X refl] x]
  have sc: "st1 = st \<or> same_client st st1" and fin: "finished cfg B (?P + n) ?L st1"
    and "\<exists>w'. z = last_cols w' (run_span blk 0 ?N ?L) \<and> (w' = n \<or> w' = ?P + n)" by auto
  then obtain w' where z: "z = last_cols w' (run_span blk 0 ?N ?L)" "w' = n \<or> w' = ?P + n" by blast
  have H: "tensor_shape B (?P + n) (run_span blk 0 ?N ?L)" by (rule run_span_shape [OF ca L])
  have "y = last_cols n (run_span blk 0 ?N ?L)"
  proof (cases "w' = n")
    case True
    have "tensor_shape B n z" using shape_last [OF H n] True z(1) by (simp add: min_absorb1)
    then have "width z = n" by (rule shape_width [OF _ B])
    with res(2) z(1) True show ?thesis by simp
  next
    case False
    then have zH: "z = run_span blk 0 ?N ?L" using z last_cols_all [OF H] by auto
    then have "width z = ?P + n" using shape_width [OF H B] by simp
    with False z(2) res(2) n show ?thesis by (simp add: zH)
  qed
  moreover have "sessions st1 \<noteq> []" using fin N by (auto simp: finished_def span_chain_def)
  then have "idle cfg B ?L st'"
    using fin sc idle L by (auto simp: idle_def finished_def res(1) ids_ok_def same_client_def span_chain_def N)
  ultimately show ?thesis by blast
qed

subsection \<open>Steps return\<close>

lemma step_loop_returns:
  assumes su: "good_setup cfg sw sa B" and L: "tensor_shape B (P + n) L" and lim: "P + n \<le> limit" and n: "0 < n" and mr: "max_retries cfg = Some m"
    and "loop_inv cfg B P n L i a k (w = P + n) st" and "x = last_cols w (run_span blk 0 a L)" and "w = n \<or> w = P + n" and "k < m"
  shows "\<exists>r. step_loop cfg sw sa n i a k x np keep st = Some r"
  using assms(6-)
proof (induction "(num_blocks cfg - a) * m + (m - k)" arbitrary: i a k x np keep st w rule: less_induct)
  case less
  obtain o1 st1 where att: "attempt_step cfg sw sa n i a k x np st = (o1, st1)" by fastforce
  show ?case
  proof (cases "num_blocks cfg \<le> a")
    case True
    then show ?thesis by (subst step_loop.simps) simp
  next
    case False
    then have aN: "a < num_blocks cfg" by simp
    note ok = attempt_ok [OF su L lim n aN less.prems(1-3) att]
    show ?thesis
    proof (cases o1)
      case (Inl e)
      show ?thesis
      proof (cases "m = k + 1")
        case True
        then show ?thesis using False att Inl mr by (subst step_loop.simps) simp
      next
        case F: False
        then have "(num_blocks cfg - a) * m + (m - Suc k) < (num_blocks cfg - a) * m + (m - k)" "Suc k < m" using less.prems(4) by simp_all
        moreover have "loop_inv cfg B P n L i a (Suc k) (w = P + n) st1" using ok Inl by simp
        ultimately have "\<exists>r. step_loop cfg sw sa n i a (Suc k) x np keep st1 = Some r" using less.hyps less.prems(2,3) by blast
        then show ?thesis using False att Inl mr F by (subst step_loop.simps) simp
      qed
    next
      case (Inr z)
      obtain y ks b where z: "z = ((y, ks), b)" by (metis prod.exhaust)
      from ok obtain w' where w': "loop_inv cfg B P n L (i + 1) b 0 (w' = P + n) st1" "y = last_cols w' (run_span blk 0 b L)" "w' = n \<or> w' = P + n"
        "a < b" "b \<le> num_blocks cfg" by (auto simp: Inr z)
      have "Suc (num_blocks cfg - b) \<le> num_blocks cfg - a" using w'(4,5) by simp
      then have "Suc (num_blocks cfg - b) * m \<le> (num_blocks cfg - a) * m" by (rule mult_le_mono1)
      then have "(num_blocks cfg - b) * m + (m - 0) < (num_blocks cfg - a) * m + (m - k)" using less.prems(4) by simp
      from less.hyps [OF this w'(1-3)] less.prems(4)
      have "\<exists>r. step_loop cfg sw sa n (i + 1) b 0 y False (if sa_spec sa \<and> np then ks else keep) st1 = Some r" by simp
      then show ?thesis using False att by (subst step_loop.simps) (simp add: Inr z)
    qed
  qed
qed

lemma step_loop_live:
  assumes su: "good_setup cfg sw sa B" and L: "tensor_shape B (P + n) L" and lim: "P + n \<le> limit" and n: "0 < n" and mr: "max_retries cfg = None"
    and calm: "\<And>t. T \<le> t \<Longrightarrow> calm cfg sw t"
    and "loop_inv cfg B P n L i a k (w = P + n) st" and "x = last_cols w (run_span blk 0 a L)" and "w = n \<or> w = P + n"
  shows "\<exists>y st'. step_loop cfg sw sa n i a k x np keep st = Some (Inr y, st')"
  using assms(7-)
proof (induction "(num_blocks cfg - a) + (T - clock st)" arbitrary: i a k x np keep st w rule: less_induct)
  case less
  obtain o1 st1 where att: "attempt_step cfg sw sa n i a k x np st = (o1, st1)" by fastforce
  show ?case
  proof (cases "num_blocks cfg \<le> a")
    case True
    then show ?thesis by (subst step_loop.simps) simp
  next
    case False
    then have aN: "a < num_blocks cfg" by simp
    note ok = attempt_ok [OF su L lim n aN less.prems att]
    have later: "clock st < clock st1" using ok by (simp add: same_client_def)
    show ?thesis
    proof (cases o1)
      case (Inl e)
      then have "\<not> T \<le> clock st" using ok calm by (meson order_trans Inl_not_Inr)
      then have "(num_blocks cfg - a) + (T - clock st1) < (num_blocks cfg - a) + (T - clock st)" using later by simp
      moreover have "loop_inv cfg B P n L i a (Suc k) (w = P + n) st1" using ok Inl by simp
      ultimately have "\<exists>y st'. step_loop cfg sw sa n i a (Suc k) x np keep st1 = Some (Inr y, st')" using less.hyps less.prems(2,3) by blast
      then show ?thesis using False att Inl mr by (subst step_loop.simps) simp
    next
      case (Inr z)
      obtain y ks b where z: "z = ((y, ks), b)" by (metis prod.exhaust)
      from ok obtain w' where w': "loop_inv cfg B P n L (i + 1) b 0 (w' = P + n) st1" "y = last_cols w' (run_span blk 0 b L)" "w' = n \<or> w' = P + n"
        "a < b" "b \<le> num_blocks cfg" by (auto simp: Inr z)
      have "(num_blocks cfg - b) + (T - clock st1) < (num_blocks cfg - a) + (T - clock st)" using w'(4,5) later by simp
      from less.hyps [OF this w'(1-3)]
      have "\<exists>y' st'. step_loop cfg sw sa n (i + 1) b 0 y False (if sa_spec sa \<and> np then ks else keep) st1 = Some (Inr y', st')" by simp
      then show ?thesis using False att by (subst step_loop.simps) (simp add: Inr z)
    qed
  qed
qed

lemma step_returns:
  assumes su: "good_setup cfg sw sa B" and idle: "idle cfg B L st" and X: "tensor_shape B n (sa_inputs sa)" and n: "0 < n"
    and fits: "client_position st + n \<le> client_max_length st" and hypo: "sa_hypo sa = None \<or> sa_hypo sa = Some (length (sa_inputs sa))"
  shows "max_retries cfg = Some m \<Longrightarrow> 0 < m \<Longrightarrow> \<exists>r. step cfg sw zero sa st = Some r"
    and "max_retries cfg = None \<Longrightarrow> 0 < num_blocks cfg \<Longrightarrow> (\<And>t. T \<le> t \<Longrightarrow> calm cfg sw t) \<Longrightarrow> \<exists>y st'. step cfg sw zero sa st = Some (Inr y, st')"
proof -
  let ?P = "client_position st" and ?L = "cat_cols L (sa_inputs sa)"
  from su have pl: "plain_step cfg sa" and B: "0 < B" and ca: "causal_blocks blk" by (auto simp: good_setup_def)
  have w: "width (sa_inputs sa) = n" by (rule shape_width [OF X B])
  have sL: "tensor_shape B ?P L" and op: "\<not> client_closed st" and lim: "?P + n \<le> limit" using idle fits by (auto simp: idle_def)
  have L: "tensor_shape B (?P + n) ?L" by (rule shape_cat [OF sL X])
  have x: "sa_inputs sa = last_cols n (run_span blk 0 0 ?L)" using last_cols_cat [OF sL X n] by simp
  note inv = idle_start [OF idle X refl]
  note plain = step_plain [OF pl op w n fits hypo, of sw zero]
  show "\<exists>r. step cfg sw zero sa st = Some r" if "max_retries cfg = Some m" "0 < m"
    using step_loop_returns [OF su L lim n that(1) inv x _ that(2)]
    unfolding plain by (auto split: option.splits sum.splits)
  show "\<exists>y st'. step cfg sw zero sa st = Some (Inr y, st')" if mr: "max_retries cfg = None" and N: "0 < num_blocks cfg" and calm: "\<And>t. T \<le> t \<Longrightarrow> calm cfg sw t"
  proof -
    obtain z keep st1 where lp: "step_loop cfg sw sa n 0 0 0 (sa_inputs sa) False (replicate (length (sa_inputs sa)) (map int [0..<n])) st = Some (Inr (z, keep), st1)"
      using step_loop_live [OF su L lim n mr calm inv x] by (metis prod.exhaust)
    from step_loop_exact [OF su L lim n N lp inv x] obtain w' where z: "z = last_cols w' (run_span blk 0 (num_blocks cfg) ?L)" "w' = n \<or> w' = ?P + n" by auto
    have H: "tensor_shape B (?P + n) (run_span blk 0 (num_blocks cfg) ?L)" by (rule run_span_shape [OF ca L])
    have "tensor_shape B w' z" using shape_last [OF H, of w'] z n by (auto simp: min_absorb1)
    then have "width z = w'" by (rule shape_width [OF _ B])
    then have "\<not> width z < n" using z(2) by auto
    then show ?thesis unfolding plain lp by simp
  qed
qed

end


section \<open>Runs of a session\<close>

text \<open>
  A client that only keeps the answers of steps that returned and may move its position back. \<open>L\<close>
  collects the inputs of the positions it stands at.
\<close>

inductive session_run :: "client_config \<Rightarrow> ('p, 'h, 'c) swarm \<Rightarrow> 'h \<Rightarrow> nat \<Rightarrow> nat \<Rightarrow> ('p, 'h, 'c) client_session \<Rightarrow> 'h list list \<Rightarrow> bool"
  for cfg sw zero B max_length where
  run_start: "session_run cfg sw zero B max_length (new_client_session max_length r) (replicate B [])"
| run_step: "session_run cfg sw zero B max_length st L \<Longrightarrow> plain_step cfg sa \<Longrightarrow> tensor_shape B n (sa_inputs sa) \<Longrightarrow> 0 < n \<Longrightarrow>
    step cfg sw zero sa st = Some (Inr y, st') \<Longrightarrow> session_run cfg sw zero B max_length st' (cat_cols L (sa_inputs sa))"
| run_back: "session_run cfg sw zero B max_length st L \<Longrightarrow> p \<le> client_position st \<Longrightarrow>
    session_run cfg sw zero B max_length (set_position p st) (take_cols p L)"

definition served_by :: "(nat \<Rightarrow> 'h list \<Rightarrow> 'h list) \<Rightarrow> nat \<Rightarrow> ('p, 'h, 'h stage_state) swarm \<Rightarrow> bool" where
  "served_by blk max_length sw \<longleftrightarrow> causal_blocks blk \<and> routes_ok sw \<and>
     (\<exists>tree_blocks junk. serve_fn sw = stage_serve blk tree_blocks max_length \<and> fresh_fn sw = (\<lambda>a b. fresh_stage junk))"

context stage_server
begin

lemma run_idle:
  assumes "session_run cfg sw zero B max_length st L" and "max_length \<le> limit"
    and "serve_fn sw = serve" and "fresh_fn sw = fresh" and "causal_blocks blk" and "routes_ok sw" and "0 < B" and "0 < num_blocks cfg"
  shows "idle cfg B L st"
  using assms(1)
proof induction
  case (run_start r)
  then show ?case using assms(2) by (simp add: idle_def new_client_session_def ids_ok_def tensor_shape_def)
next
  case (run_step st L sa n y st')
  then have "good_setup cfg sw sa B" using assms by (simp add: good_setup_def)
  from step_exact [OF this assms(8) run_step.IH run_step.hyps(3,4,5)] show ?case by blast
next
  case (run_back st L p)
  then show ?case using idle_set_position assms(5,7) by blast
qed

end


text \<open>
  C23 A step within the reserved length always returns when the number of retries is bounded, and when
  it is not, it succeeds as soon as the swarm stops failing for long enough.
\<close>
theorem step_always_returns:
  assumes "session_run cfg sw zero B max_length st L" and "served_by blk max_length sw" and "0 < B" and "0 < num_blocks cfg"
    and "plain_step cfg sa" and "tensor_shape B n (sa_inputs sa)" and "0 < n"
    and "client_position st + n \<le> client_max_length st" and "sa_hypo sa = None \<or> sa_hypo sa = Some (length (sa_inputs sa))"
  shows "(max_retries cfg = Some m \<and> 0 < m \<longrightarrow> (\<exists>r. step cfg sw zero sa st = Some r)) \<and>
     (max_retries cfg = None \<and> (\<exists>T. \<forall>t \<ge> T. calm cfg sw t) \<longrightarrow> (\<exists>y st'. step cfg sw zero sa st = Some (Inr y, st')))"
proof -
  from assms(2) obtain tree_blocks junk where sw: "serve_fn sw = stage_serve blk tree_blocks max_length" "fresh_fn sw = (\<lambda>a b. fresh_stage junk)"
    and ca: "causal_blocks blk" "routes_ok sw" by (auto simp: served_by_def)
  have idle: "stage.idle blk max_length cfg B L st" by (rule stage.run_idle [OF assms(1) order_refl sw ca assms(3,4)])
  have su: "stage.good_setup blk tree_blocks max_length junk cfg sw sa B" using sw ca assms(3,5) by (simp add: stage.good_setup_def)
  note ret = stage.step_returns [OF su idle assms(6-9), where zero = zero]
  show ?thesis using ret(1) ret(2) assms(4) by blast
qed


section \<open>A run with a lost reply\<close>

definition demo_swarm :: "(nat, int, int stage_state) swarm" where
  "demo_swarm =
     \<lparr>route = (\<lambda>t a b. Inr [\<lparr>span_peer = t, span_start = int a, span_end = int b, span_server = demo_server\<rparr>]),
      connects = (\<lambda>t i. t \<noteq> 0), net = (\<lambda>t. if t = 2 then LoseReply else Deliver), pushed = (\<lambda>t i. Inl TimeoutError),
      serve_fn = stage_serve (\<lambda>k. map (\<lambda>x. 10 * x + int k)) (\<lambda>a b p rq kv. (Inl RuntimeError, kv)) 8,
      fresh_fn = (\<lambda>a b. fresh_stage 0)\<rparr>"

definition demo_config :: client_config where
  "demo_config = \<lparr>max_retries = None, use_server_to_server = True, push_only_downstream_decode = False, num_blocks = 2\<rparr>"

definition demo_step :: "int step_args" where
  "demo_step = \<lparr>sa_inputs = [[3, 4]], sa_kv_positions = None, sa_draft = None, sa_spec = False, sa_hypo = None, sa_batches = []\<rparr>"

abbreviation demo_start :: "(nat, int, int stage_state) client_session" where
  "demo_start \<equiv> new_client_session 8 (\<lambda>i. fresh_stage 0)"

lemma demo_served: "served_by (\<lambda>k. map (\<lambda>x. 10 * x + int k)) 8 demo_swarm"
proof -
  have "causal_blocks (\<lambda>k. map (\<lambda>x. 10 * x + int k))" by (simp add: causal_blocks_def take_map)
  moreover have "routes_ok demo_swarm" by (simp add: routes_ok_def demo_swarm_def span_length_def)
  ultimately show ?thesis by (auto simp: served_by_def demo_swarm_def)
qed

lemma demo_run: "session_run demo_config demo_swarm 0 1 8 demo_start [[]]"
  using run_start [of demo_config demo_swarm 0 1 8 "\<lambda>i. fresh_stage 0"] by simp

lemma demo_shape: "plain_step demo_config demo_step" "tensor_shape 1 2 (sa_inputs demo_step)" "0 < num_blocks demo_config"
  by (simp_all add: plain_step_def demo_config_def demo_step_def tensor_shape_def)

theorem step_always_returns_witness:
  "\<exists>y st'. step demo_config demo_swarm 0 demo_step demo_start = Some (Inr y, st')"
proof -
  have "calm demo_config demo_swarm t" if "3 \<le> t" for t using that by (simp add: calm_def demo_swarm_def)
  then have "\<exists>T. \<forall>t \<ge> T. calm demo_config demo_swarm t" by blast
  moreover have "max_retries demo_config = None" by (simp add: demo_config_def)
  ultimately show ?thesis
    using step_always_returns [OF demo_run demo_served _ demo_shape(3,1,2), of 0]
    by (simp add: new_client_session_def demo_step_def)
qed

lemma demo_returns: "\<exists>y st'. step demo_config demo_swarm 0 demo_step demo_start = Some (Inr y, st')"
proof -
  let ?blk = "\<lambda>k. map (\<lambda>x. 10 * x + int k)" and ?tree = "\<lambda>a b p rq kv. (Inl RuntimeError, kv)"
  have ca: "causal_blocks ?blk" and ro: "routes_ok demo_swarm" using demo_served by (simp_all add: served_by_def)
  have sw: "serve_fn demo_swarm = stage_serve ?blk ?tree 8" "fresh_fn demo_swarm = (\<lambda>a b. fresh_stage 0)" by (simp_all add: demo_swarm_def)
  have idle: "stage.idle ?blk 8 demo_config 1 [[]] demo_start"
    by (rule stage.run_idle [OF demo_run order_refl sw ca ro _ demo_shape(3)]) simp
  have su: "stage.good_setup ?blk ?tree 8 0 demo_config demo_swarm demo_step 1"
    using ca ro sw demo_shape(1) by (simp add: stage.good_setup_def)
  have "calm demo_config demo_swarm t" if "3 \<le> t" for t using that by (simp add: calm_def demo_swarm_def)
  then show ?thesis
    by (intro stage.step_returns(2) [OF su idle demo_shape(2), of 3])
      (simp_all add: new_client_session_def demo_step_def demo_config_def)
qed


end
