(* ===== verification/HeapQueue.thy ===== *)
theory HeapQueue
  imports BB_Prelude
begin

text \<open>
  The queue \<^verbatim>\<open>queue.PriorityQueue\<close> the task pool orders its tasks with: a binary heap in a list,
  pushed and popped with the sift operations of the standard library. The locale \<open>prio_queue\<close> states
  what the pool relies on: nothing is lost or duplicated, the head is a least element and a pop
  removes the head. The heap implements it for every total order on the keys.
\<close>

section \<open>The contract\<close>

text \<open>The first \<open>n\<close> entries a queue hands out.\<close>

fun pops :: "('q \<Rightarrow> 'a) \<Rightarrow> ('q \<Rightarrow> 'q) \<Rightarrow> nat \<Rightarrow> 'q \<Rightarrow> 'a list" where
  "pops f g 0 q = []"
| "pops f g (Suc n) q = f q # pops f g n (g q)"

locale prio_queue =
  fixes ok :: "'q \<Rightarrow> bool"
    and elems :: "'q \<Rightarrow> 'a multiset"
    and empty_queue :: 'q
    and put :: "'a \<Rightarrow> 'q \<Rightarrow> 'q"
    and top :: "'q \<Rightarrow> 'a"
    and pop :: "'q \<Rightarrow> 'q"
    and key :: "'a \<Rightarrow> 'k::linorder"
  assumes ok_empty: "ok empty_queue"
    and ok_put: "ok q \<Longrightarrow> ok (put x q)"
    and ok_pop: "ok q \<Longrightarrow> elems q \<noteq> {#} \<Longrightarrow> ok (pop q)"
    and elems_empty: "elems empty_queue = {#}"
    and elems_put: "elems (put x q) = add_mset x (elems q)"
    and elems_pop: "elems q \<noteq> {#} \<Longrightarrow> elems q = add_mset (top q) (elems (pop q))"
    and top_least: "ok q \<Longrightarrow> x \<in># elems q \<Longrightarrow> key (top q) \<le> key x"
begin

lemma size_pop: "elems q \<noteq> {#} \<Longrightarrow> size (elems (pop q)) = size (elems q) - 1"
  using elems_pop [of q] by (metis add_diff_cancel_left' plus_1_eq_Suc size_add_mset)

lemma mset_pops: "n = size (elems q) \<Longrightarrow> mset (pops top pop n q) = elems q"
proof (induction n arbitrary: q)
  case (Suc n)
  then have ne: "elems q \<noteq> {#}" by auto
  moreover have "n = size (elems (pop q))" using size_pop [OF ne] Suc.prems by simp
  ultimately show ?case using Suc.IH elems_pop [OF ne] by simp
qed simp

lemma pops_sorted:
  assumes "ok q" and "n = size (elems q)"
  shows "sorted (map key (pops top pop n q))"
  using assms
proof (induction n arbitrary: q)
  case (Suc n)
  then have ne: "elems q \<noteq> {#}" by auto
  have n: "n = size (elems (pop q))" using size_pop [OF ne] Suc.prems by simp
  have "key (top q) \<le> key x" if "x \<in> set (pops top pop n (pop q))" for x
  proof -
    have "x \<in># elems (pop q)" using that mset_pops [OF n] by (metis in_multiset_in_set)
    then have "x \<in># elems q" by (subst elems_pop [OF ne]) simp
    then show ?thesis using top_least Suc.prems by blast
  qed
  then show ?case using Suc.IH [OF ok_pop [OF Suc.prems(1) ne] n] by auto
qed simp

end

section \<open>The heap\<close>

definition parentpos :: "nat \<Rightarrow> nat" where
  "parentpos i = (i - 1) div 2"

definition swap :: "nat \<Rightarrow> nat \<Rightarrow> 'a list \<Rightarrow> 'a list" where
  "swap i j xs = xs[i := xs ! j, j := xs ! i]"

lemma parentpos_less: "0 < i \<Longrightarrow> parentpos i < i"
  by (simp add: parentpos_def)

lemma parentpos_iff: "0 < i \<Longrightarrow> parentpos i = p \<longleftrightarrow> i = 2 * p + 1 \<or> i = 2 * p + 2"
  by (auto simp: parentpos_def)

text \<open>
  \<open>siftdown\<close> moves the entry at \<open>pos\<close> towards the root past every larger parent, \<open>siftup\<close> moves it to a
  leaf along the smaller children. The library keeps the moving entry in a variable and writes it
  once at the end; here it is swapped along, which leaves the same list.
\<close>

function siftdown :: "('a \<Rightarrow> 'k::linorder) \<Rightarrow> 'a list \<Rightarrow> nat \<Rightarrow> 'a list" where
  "siftdown key h pos =
     (if 0 < pos \<and> key (h ! pos) < key (h ! parentpos pos)
      then siftdown key (swap pos (parentpos pos) h) (parentpos pos) else h)"
  by pat_completeness auto
termination by (relation "measure (\<lambda>(_, _, pos). pos)") (auto simp: parentpos_less)

definition smaller_child :: "('a \<Rightarrow> 'k::linorder) \<Rightarrow> 'a list \<Rightarrow> nat \<Rightarrow> nat" where
  "smaller_child key h pos =
     (let c = 2 * pos + 1 in
      if c + 1 < length h \<and> \<not> key (h ! c) < key (h ! (c + 1)) then c + 1 else c)"

function siftup :: "('a \<Rightarrow> 'k::linorder) \<Rightarrow> 'a list \<Rightarrow> nat \<Rightarrow> 'a list" where
  "siftup key h pos =
     (if 2 * pos + 1 < length h
      then siftup key (swap pos (smaller_child key h pos) h) (smaller_child key h pos)
      else siftdown key h pos)"
  by pat_completeness auto
termination
  by (relation "measure (\<lambda>(_, h, pos). length h - pos)") (auto simp: smaller_child_def swap_def Let_def)

definition heappush :: "('a \<Rightarrow> 'k::linorder) \<Rightarrow> 'a \<Rightarrow> 'a list \<Rightarrow> 'a list" where
  "heappush key x h = siftdown key (h @ [x]) (length h)"

definition heappop :: "('a \<Rightarrow> 'k::linorder) \<Rightarrow> 'a list \<Rightarrow> 'a list" where
  "heappop key h =
     (let rest = butlast h in
      if rest = [] then [] else siftup key (rest[0 := last h]) 0)"

declare siftdown.simps [simp del] siftup.simps [simp del]

lemma siftdown_0 [simp]: "siftdown key h 0 = h"
  by (subst siftdown.simps) simp

lemma siftdown_1 [simp]:
  "siftdown key h (Suc 0) = (if key (h ! 1) < key (h ! 0) then swap 1 0 h else h)"
  by (subst siftdown.simps) (simp add: parentpos_def)

section \<open>The heap order\<close>

definition heap_edge :: "('a \<Rightarrow> 'k::linorder) \<Rightarrow> 'a list \<Rightarrow> nat \<Rightarrow> bool" where
  "heap_edge key h i \<longleftrightarrow> key (h ! parentpos i) \<le> key (h ! i)"

definition is_heap :: "('a \<Rightarrow> 'k::linorder) \<Rightarrow> 'a list \<Rightarrow> bool" where
  "is_heap key h \<longleftrightarrow> (\<forall>i. 0 < i \<longrightarrow> i < length h \<longrightarrow> heap_edge key h i)"

text \<open>
  While an entry moves, the edges at its position are in doubt. Its children stay above its parent,
  so a swap with either neighbour repairs one of the edges.
\<close>

definition heap_around :: "('a \<Rightarrow> 'k::linorder) \<Rightarrow> 'a list \<Rightarrow> nat \<Rightarrow> bool" where
  "heap_around key h pos \<longleftrightarrow>
     (\<forall>i. 0 < i \<longrightarrow> i < length h \<longrightarrow> i \<noteq> pos \<longrightarrow> parentpos i \<noteq> pos \<longrightarrow> heap_edge key h i) \<and>
     (\<forall>i. 0 < i \<longrightarrow> i < length h \<longrightarrow> 0 < pos \<longrightarrow> parentpos i = pos \<longrightarrow>
          key (h ! parentpos pos) \<le> key (h ! i))"

definition above_children :: "('a \<Rightarrow> 'k::linorder) \<Rightarrow> 'a list \<Rightarrow> nat \<Rightarrow> bool" where
  "above_children key h pos \<longleftrightarrow>
     (\<forall>i. 0 < i \<longrightarrow> i < length h \<longrightarrow> parentpos i = pos \<longrightarrow> heap_edge key h i)"

lemma mset_swap [simp]: "i < length h \<Longrightarrow> j < length h \<Longrightarrow> mset (swap i j h) = mset h"
  unfolding swap_def by (rule mset_swap)

lemma length_swap [simp]: "length (swap i j h) = length h"
  by (simp add: swap_def)

lemma nth_swap:
  "i < length h \<Longrightarrow> j < length h \<Longrightarrow>
   swap i j h ! k = (if k = j then h ! i else if k = i then h ! j else h ! k)"
  by (simp add: swap_def nth_list_update)

lemma is_heap_around:
  "heap_around key h pos \<Longrightarrow> above_children key h pos \<Longrightarrow> (0 < pos \<Longrightarrow> heap_edge key h pos) \<Longrightarrow>
   is_heap key h"
  by (auto simp: heap_around_def above_children_def is_heap_def)

lemma swap_parent:
  assumes around: "heap_around key h pos" and above: "above_children key h pos"
    and pos: "0 < pos" "pos < length h" and less: "key (h ! pos) < key (h ! parentpos pos)"
  shows "heap_around key (swap pos (parentpos pos) h) (parentpos pos)"
    and "above_children key (swap pos (parentpos pos) h) (parentpos pos)"
proof -
  let ?p = "parentpos pos" and ?h = "swap pos (parentpos pos) h"
  have p: "?p < pos" using pos by (simp add: parentpos_less)
  have val: "?h ! k = (if k = ?p then h ! pos else if k = pos then h ! ?p else h ! k)" for k
    using nth_swap [of pos h ?p k] pos p by simp
  have edge: "heap_edge key h i" if "0 < i" "i < length h" "i \<noteq> pos" for i
    using that around above by (auto simp: heap_around_def above_children_def)
  show "above_children key ?h ?p"
    unfolding above_children_def heap_edge_def
  proof (intro allI impI)
    fix i assume i: "0 < i" "i < length ?h" "parentpos i = ?p"
    have "i \<noteq> ?p" using i parentpos_less [of i] by auto
    moreover have "key (h ! ?p) \<le> key (h ! i)" if "i \<noteq> pos"
      using edge [of i] i that by (simp add: heap_edge_def)
    ultimately show "key (?h ! parentpos i) \<le> key (?h ! i)" using i less by (auto simp: val)
  qed
  show "heap_around key ?h ?p"
    unfolding heap_around_def
  proof (intro conjI allI impI)
    fix i assume i: "0 < i" "i < length ?h" "i \<noteq> ?p" "parentpos i \<noteq> ?p"
    then have "i \<noteq> pos" by auto
    show "heap_edge key ?h i"
    proof (cases "parentpos i = pos")
      case True
      then have "key (h ! ?p) \<le> key (h ! i)" using around i pos by (auto simp: heap_around_def)
      then show ?thesis using i True \<open>i \<noteq> pos\<close> p by (simp add: heap_edge_def val)
    next
      case False
      then show ?thesis using edge [of i] i \<open>i \<noteq> pos\<close> by (simp add: heap_edge_def val)
    qed
  next
    fix i assume i: "0 < i" "i < length ?h" "0 < ?p" "parentpos i = ?p"
    have pp: "parentpos ?p \<noteq> ?p" "parentpos ?p \<noteq> pos" using parentpos_less [of ?p] i(3) p by auto
    have up: "key (h ! parentpos ?p) \<le> key (h ! ?p)"
      using edge [of ?p] i(3) p pos by (simp add: heap_edge_def)
    have "key (h ! ?p) \<le> key (h ! i)" if "i \<noteq> pos" using edge [of i] i that by (simp add: heap_edge_def)
    moreover have "i \<noteq> ?p" using i parentpos_less [of i] by auto
    ultimately show "key (?h ! parentpos ?p) \<le> key (?h ! i)" using up pp by (auto simp: val)
  qed
qed

lemma siftdown_mset: "pos < length h \<Longrightarrow> mset (siftdown key h pos) = mset h"
proof (induction key h pos rule: siftdown.induct)
  case (1 key h pos)
  then show ?case
    using parentpos_less [of pos] by (subst siftdown.simps) auto
qed

lemma siftdown_correct:
  assumes "heap_around key h pos" and "above_children key h pos" and "pos < length h"
  shows "is_heap key (siftdown key h pos)"
  using assms
proof (induction key h pos rule: siftdown.induct)
  case (1 key h pos)
  show ?case
  proof (cases "0 < pos \<and> key (h ! pos) < key (h ! parentpos pos)")
    case True
    have p: "parentpos pos < length h" using True 1(4) parentpos_less [of pos] by linarith
    have "is_heap key (siftdown key (swap pos (parentpos pos) h) (parentpos pos))"
      using 1(1) [OF True] swap_parent [OF 1(2,3) _ 1(4)] True p by simp
    then show ?thesis using True by (subst siftdown.simps) simp
  next
    case False
    then have "is_heap key h" using 1 by (intro is_heap_around) (auto simp: heap_edge_def)
    then show ?thesis using False by (subst siftdown.simps) auto
  qed
qed

lemma smaller_child_props:
  fixes key :: "'a \<Rightarrow> 'k::linorder"
  assumes "2 * pos + 1 < length h"
  defines "c \<equiv> smaller_child key h pos"
  shows "c < length h" "0 < c" "parentpos c = pos" "pos < c"
    and "0 < i \<Longrightarrow> i < length h \<Longrightarrow> parentpos i = pos \<Longrightarrow> key (h ! c) \<le> key (h ! i)"
proof -
  show "c < length h" "0 < c" "pos < c" using assms by (auto simp: smaller_child_def Let_def)
  show "parentpos c = pos" using assms by (auto simp: smaller_child_def Let_def parentpos_def)
  show "0 < i \<Longrightarrow> i < length h \<Longrightarrow> parentpos i = pos \<Longrightarrow> key (h ! c) \<le> key (h ! i)"
    using assms by (auto simp: smaller_child_def Let_def parentpos_iff)
qed

lemma swap_child:
  fixes key :: "'a \<Rightarrow> 'k::linorder"
  assumes around: "heap_around key h pos" and child: "2 * pos + 1 < length h"
  defines "c \<equiv> smaller_child key h pos"
  shows "heap_around key (swap pos c h) c"
proof -
  let ?h = "swap pos c h"
  note c = smaller_child_props [where key = key, OF child, folded c_def]
  have len: "pos < length h" using child by simp
  have val: "?h ! k = (if k = c then h ! pos else if k = pos then h ! c else h ! k)" for k
    using nth_swap [of pos h c k] len c by simp
  show ?thesis
    unfolding heap_around_def
  proof (intro conjI allI impI)
    fix i assume i: "0 < i" "i < length ?h" "i \<noteq> c" "parentpos i \<noteq> c"
    consider (child) "parentpos i = pos" | (self) "i = pos" | (other) "parentpos i \<noteq> pos" "i \<noteq> pos"
      by blast
    then show "heap_edge key ?h i"
    proof cases
      case child
      then have "i \<noteq> pos" using parentpos_less [OF i(1)] by auto
      then show ?thesis using child i c(5) [of i] c(4) by (simp add: heap_edge_def val)
    next
      case self
      then have "key (h ! parentpos pos) \<le> key (h ! c)"
        using around i c by (auto simp: heap_around_def)
      moreover have "parentpos pos \<noteq> c" "parentpos pos \<noteq> pos"
        using parentpos_less [of pos] c(4) i(1) self by auto
      ultimately show ?thesis using self c(4) by (simp add: heap_edge_def val)
    next
      case other
      then have "heap_edge key h i" using around i by (auto simp: heap_around_def)
      then show ?thesis using other i by (simp add: heap_edge_def val)
    qed
  next
    fix i assume i: "0 < i" "i < length ?h" "0 < c" "parentpos i = c"
    then have "i \<noteq> pos" "i \<noteq> c" using parentpos_less [OF i(1)] c(4) by auto
    moreover have "heap_edge key h i" using around i c(4) calculation by (auto simp: heap_around_def)
    ultimately show "key (?h ! parentpos c) \<le> key (?h ! i)" using i c by (simp add: heap_edge_def val)
  qed
qed

lemma siftup_mset: "pos < length h \<Longrightarrow> mset (siftup key h pos) = mset h"
proof (induction key h pos rule: siftup.induct)
  case (1 key h pos)
  then show ?case
    using smaller_child_props(1) [where key = key and h = h and pos = pos] by (subst siftup.simps) (auto simp: siftdown_mset)
qed

lemma siftup_correct:
  assumes "heap_around key h pos" and "pos < length h"
  shows "is_heap key (siftup key h pos)"
  using assms
proof (induction key h pos rule: siftup.induct)
  case (1 key h pos)
  show ?case
  proof (cases "2 * pos + 1 < length h")
    case True
    note c = smaller_child_props(1) [where key = key, OF True]
    show ?thesis using 1(1) [OF True swap_child [OF 1(2) True]] c 1(3) True
      by (subst siftup.simps) simp
  next
    case False
    then have "above_children key h pos" by (auto simp: above_children_def parentpos_iff)
    then show ?thesis using siftdown_correct [OF 1(2) _ 1(3)] False by (simp add: siftup.simps)
  qed
qed

lemma heap_root_least:
  assumes "is_heap key h" and "i < length h"
  shows "key (h ! 0) \<le> key (h ! i)"
  using assms(2)
proof (induction i rule: less_induct)
  case (less i)
  show ?case
  proof (cases "i = 0")
    case False
    then have "parentpos i < i" by (simp add: parentpos_less)
    then have "key (h ! 0) \<le> key (h ! parentpos i)" using less by simp
    also have "\<dots> \<le> key (h ! i)" using assms(1) less.prems False by (simp add: is_heap_def heap_edge_def)
    finally show ?thesis .
  qed simp
qed

lemma heappush_heap:
  assumes "is_heap key h"
  shows "is_heap key (heappush key x h)"
proof -
  have "heap_edge key (h @ [x]) i" if "0 < i" "i < length h" for i
    using assms that parentpos_less [of i] by (simp add: is_heap_def heap_edge_def nth_append)
  moreover have "parentpos i \<noteq> length h" if "0 < i" "i < length (h @ [x])" for i
    using parentpos_less [OF that(1)] that(2) by auto
  ultimately have "heap_around key (h @ [x]) (length h)" "above_children key (h @ [x]) (length h)"
    by (auto simp: heap_around_def above_children_def less_Suc_eq)
  then show ?thesis using siftdown_correct by (fastforce simp: heappush_def)
qed

lemma heappush_mset: "mset (heappush key x h) = add_mset x (mset h)"
  by (simp add: heappush_def siftdown_mset)

lemma heappop_heap:
  assumes "is_heap key h"
  shows "is_heap key (heappop key h)"
proof (cases "butlast h = []")
  case False
  let ?r = "(butlast h)[0 := last h]"
  have "heap_edge key ?r i" if "0 < i" "i < length ?r" "parentpos i \<noteq> 0" for i
    using assms that parentpos_less [OF that(1)]
    by (simp add: is_heap_def heap_edge_def nth_butlast)
  then have "heap_around key ?r 0" by (auto simp: heap_around_def)
  moreover have "0 < length ?r" using False by (simp del: length_butlast)
  ultimately have "is_heap key (siftup key ?r 0)" by (rule siftup_correct)
  then show ?thesis using False by (simp add: heappop_def Let_def)
qed (simp add: heappop_def is_heap_def)

lemma heappop_mset:
  assumes "h \<noteq> []"
  shows "mset h = add_mset (h ! 0) (mset (heappop key h))"
proof (cases "butlast h = []")
  case True
  then obtain x where "h = [x]" using assms by (metis append_butlast_last_id append_Nil)
  then show ?thesis by (simp add: heappop_def)
next
  case False
  then obtain x y ys where h: "h = x # ys @ [y]"
    using assms by (metis append_butlast_last_id append_Cons neq_Nil_conv)
  then show ?thesis by (simp add: heappop_def Let_def siftup_mset butlast_append)
qed

interpretation heapq: prio_queue "is_heap key" mset "[]" "heappush key" "\<lambda>h. h ! 0" "heappop key" key
  for key :: "'a \<Rightarrow> 'k::linorder"
proof unfold_locales
  show "is_heap key []" by (simp add: is_heap_def)
  show "\<And>q x. is_heap key q \<Longrightarrow> x \<in># mset q \<Longrightarrow> key (q ! 0) \<le> key x"
    using heap_root_least by (metis in_multiset_in_set in_set_conv_nth)
qed (auto simp: heappush_heap heappop_heap heappush_mset intro: heappop_mset)

end
