(* ===== verification/TaskPool.thy ===== *)
theory TaskPool
  imports HeapQueue "HOL-Library.Product_Lexorder"
begin

text \<open>
  The server's task pool, \<^verbatim>\<open>server/task_pool.py\<close>, and \<^verbatim>\<open>server/task_prioritizer.py\<close>. Connection
  handlers submit tasks to a process-wide queue, the pool's own thread moves them to a priority
  queue, and the runtime takes the most urgent one, computes and answers its future. The three run
  concurrently: a pool's life is a sequence of their steps in any order.
\<close>

section \<open>Tasks and pools\<close>

datatype device = Cpu | Cuda nat

record 'a torch =
  shape :: "nat list"
  elem_bytes :: nat
  device_of :: device
  content :: 'a

text \<open>An argument or a result is a tensor, a dictionary of numbers (a timing report), or another object.\<close>

datatype 'a val = Tensor "'a torch" | Dict "string \<rightharpoonup> real" | Obj 'a

text \<open>
  A task is compared by priority and submission time only; its future is represented by the
  identifier of the future.
\<close>

record 'a task =
  priority :: real
  time_submitted :: real
  uid :: nat
  args :: "'a val list"

definition task_key :: "'a task \<Rightarrow> real \<times> real" where
  "task_key t = (priority t, time_submitted t)"

datatype 'a answer = Result "'a val list" | Exception py_error

record pool_config =
  max_batch_size :: nat
  pool_device :: "device option"
  track_transfer_timing :: bool

text \<open>
  \<open>in_submit\<close> holds the tasks of handlers that have put the task in the queue and not yet counted it
  in the pipe. The pool's priority is \<^const>\<open>None\<close> where the code has a pair of infinities. \<open>futures\<close> are
  the answers given so far; \<open>next_uid\<close> is the identifier of the next future.
\<close>

record 'a pool =
  submitted_tasks :: "'a task option list"
  in_submit :: "'a task list"
  ordered_tasks :: "'a task list"
  dispatched_tasks :: "nat \<rightharpoonup> 'a task"
  runtime_transfer_timings :: "nat \<rightharpoonup> (string \<rightharpoonup> real)"
  pipe_count :: nat
  pool_priority :: "(real \<times> real) option"
  running :: bool
  futures :: "nat \<rightharpoonup> 'a answer"
  next_uid :: nat

definition new_pool :: "'a pool" where
  "new_pool =
     \<lparr>submitted_tasks = [], in_submit = [], ordered_tasks = [], dispatched_tasks = Map.empty,
      runtime_transfer_timings = Map.empty, pipe_count = 0, pool_priority = None, running = True,
      futures = Map.empty, next_uid = 0\<rparr>"

definition set_future :: "nat \<Rightarrow> 'a answer \<Rightarrow> 'a pool \<Rightarrow> ('a pool, unit) outcome" where
  "set_future u a s =
     (if futures s u = None then (Inr (), s\<lparr>futures := (futures s)(u \<mapsto> a)\<rparr>)
      else (Inl InvalidStateError, s))"

section \<open>Priorities and sizes\<close>

text \<open>\<^verbatim>\<open>DummyTaskPrioritizer.prioritize\<close>, by the \<open>type\<close> keyword of the call.\<close>

definition prioritize :: "string option \<Rightarrow> real" where
  "prioritize kind = (if kind = Some ''inference'' then 1 else 2)"

definition get_task_size :: "'a task \<Rightarrow> nat result" where
  "get_task_size t =
     (case args t of
        [] \<Rightarrow> Inr 1
      | Tensor x # _ \<Rightarrow>
          (if 2 \<le> length (shape x) then Inr (shape x ! 0 * shape x ! 1) else Inr 1)
      | _ \<Rightarrow> Inl AttributeError)"

definition prio_less :: "real \<times> real \<Rightarrow> (real \<times> real) option \<Rightarrow> bool" where
  "prio_less k p = (case p of None \<Rightarrow> True | Some q \<Rightarrow> k < q)"

section \<open>Submitting\<close>

text \<open>
  \<open>submit_put\<close> runs \<^verbatim>\<open>submit_task\<close> up to the put on the shared queue, \<open>submit_count\<close> the rest: the
  message in the pipe that counts unfinished batches and the update of the pool's priority.
\<close>

definition submit_put ::
  "pool_config \<Rightarrow> real \<Rightarrow> real \<Rightarrow> 'a val list \<Rightarrow> 'a pool \<Rightarrow> ('a pool, nat) outcome" where
  "submit_put cfg prio now as s =
     (let t = \<lparr>priority = prio, time_submitted = now, uid = next_uid s, args = as\<rparr> in
      case get_task_size t of
        Inl e \<Rightarrow> (Inl e, s)
      | Inr n \<Rightarrow>
          let s1 = s\<lparr>next_uid := next_uid s + 1\<rparr> in
          if max_batch_size cfg < n
          then (case set_future (uid t) (Exception ValueError) s1 of
                  (Inl e, s2) \<Rightarrow> (Inl e, s2)
                | (Inr _, s2) \<Rightarrow> (Inr (uid t), s2))
          else (Inr (uid t),
                s1\<lparr>submitted_tasks := submitted_tasks s1 @ [Some t], in_submit := in_submit s1 @ [t]\<rparr>))"

definition submit_count :: "'a task \<Rightarrow> 'a pool \<Rightarrow> 'a pool" where
  "submit_count t s =
     (let s1 = s\<lparr>in_submit := remove1 t (in_submit s), pipe_count := pipe_count s + 1\<rparr> in
      if prio_less (task_key t) (pool_priority s1) then s1\<lparr>pool_priority := Some (task_key t)\<rparr> else s1)"

text \<open>The whole call, when no other thread runs in between.\<close>

definition submit_task ::
  "pool_config \<Rightarrow> real \<Rightarrow> real \<Rightarrow> 'a val list \<Rightarrow> 'a pool \<Rightarrow> ('a pool, nat) outcome" where
  "submit_task cfg prio now as s =
     (case submit_put cfg prio now as s of
        (r, s1) \<Rightarrow>
          if length (in_submit s) < length (in_submit s1) then (r, submit_count (last (in_submit s1)) s1)
          else (r, s1))"

definition shutdown :: "'a pool \<Rightarrow> 'a pool" where
  "shutdown s = s\<lparr>submitted_tasks := submitted_tasks s @ [None]\<rparr>"

section \<open>The prioritiser thread\<close>

text \<open>One iteration of \<^verbatim>\<open>run\<close>; \<open>get\<close> blocks while the queue is empty.\<close>

definition run_iteration :: "'a pool \<Rightarrow> 'a pool option" where
  "run_iteration s =
     (if \<not> running s then None
      else case submitted_tasks s of
        [] \<Rightarrow> None
      | None # rest \<Rightarrow> Some (s\<lparr>submitted_tasks := rest, running := False\<rparr>)
      | Some t # rest \<Rightarrow>
          Some (s\<lparr>submitted_tasks := rest, ordered_tasks := heappush task_key t (ordered_tasks s)\<rparr>))"

section \<open>The runtime's side\<close>

definition move_to_device :: "device \<Rightarrow> 'a torch \<Rightarrow> 'a torch" where
  "move_to_device d x = x\<lparr>device_of := d\<rparr>"

definition move_to_device_if_tensor :: "device \<Rightarrow> 'a val \<Rightarrow> 'a val" where
  "move_to_device_if_tensor d v = (case v of Tensor x \<Rightarrow> Tensor (move_to_device d x) | _ \<Rightarrow> v)"

definition tensor_bytes :: "'a torch \<Rightarrow> nat" where
  "tensor_bytes x = prod_list (shape x) * elem_bytes x"

definition estimate_tensor_bytes :: "'a val list \<Rightarrow> nat" where
  "estimate_tensor_bytes vs =
     sum_list (map (\<lambda>v. case v of Tensor x \<Rightarrow> tensor_bytes x | _ \<Rightarrow> 0) vs)"

definition bump :: "string \<Rightarrow> real \<Rightarrow> (string \<rightharpoonup> real) \<Rightarrow> (string \<rightharpoonup> real)" where
  "bump k x m = m(k \<mapsto> the (m k) + x)"

definition no_transfer :: "string \<rightharpoonup> real" where
  "no_transfer = [''t_cpu2gpu_ms'' \<mapsto> 0, ''t_gpu2gpu_ms'' \<mapsto> 0, ''input_bytes'' \<mapsto> 0, ''gpu2gpu_bytes'' \<mapsto> 0]"

text \<open>One pass of the argument loop; \<open>ms\<close> is what the clock shows for this transfer.\<close>

definition move_arg ::
  "device option \<Rightarrow> real \<Rightarrow> 'a val \<Rightarrow> (string \<rightharpoonup> real) \<Rightarrow> 'a val \<times> (string \<rightharpoonup> real)" where
  "move_arg dev ms v timing =
     (case v of
        Tensor x \<Rightarrow>
          let y = (case dev of None \<Rightarrow> x | Some d \<Rightarrow> move_to_device d x);
              bytes = real (tensor_bytes x)
          in (Tensor y,
              if device_of x = device_of y then timing
              else (case (device_of x, device_of y) of
                      (Cpu, Cuda _) \<Rightarrow> bump ''input_bytes'' bytes (bump ''t_cpu2gpu_ms'' ms timing)
                    | (Cuda _, Cuda _) \<Rightarrow> bump ''gpu2gpu_bytes'' bytes (bump ''t_gpu2gpu_ms'' ms timing)
                    | _ \<Rightarrow> timing))
      | _ \<Rightarrow> (v, timing))"

fun move_args ::
  "device option \<Rightarrow> (nat \<Rightarrow> real) \<Rightarrow> 'a val list \<Rightarrow> (string \<rightharpoonup> real) \<Rightarrow> 'a val list \<times> (string \<rightharpoonup> real)" where
  "move_args dev ms [] timing = ([], timing)"
| "move_args dev ms (v # vs) timing =
     (let (w, timing1) = move_arg dev (ms (length vs)) v timing;
          (ws, timing2) = move_args dev ms vs timing1
      in (w # ws, timing2))"

text \<open>
  \<^verbatim>\<open>load_batch_to_runtime\<close>: blocks (\<^const>\<open>None\<close>) while no task is ordered or no message is in the
  pipe. \<open>dev\<close> is the device the runtime asks for.
\<close>

definition load_batch_to_runtime ::
  "pool_config \<Rightarrow> device option \<Rightarrow> (nat \<Rightarrow> real) \<Rightarrow> 'a pool \<Rightarrow> ((nat \<times> 'a val list) \<times> 'a pool) option" where
  "load_batch_to_runtime cfg dev ms s =
     (if ordered_tasks s = [] \<or> pipe_count s = 0 then None
      else
        let target = (case dev of None \<Rightarrow> pool_device cfg | Some d \<Rightarrow> Some d);
            t = ordered_tasks s ! 0;
            rest = heappop task_key (ordered_tasks s);
            (batch_inputs, timing) = move_args target ms (args t) no_transfer;
            s1 = s\<lparr>ordered_tasks := rest\<rparr>;
            s2 = (if track_transfer_timing cfg
                  then s1\<lparr>runtime_transfer_timings := (runtime_transfer_timings s1)(uid t \<mapsto> timing)\<rparr>
                  else s1);
            s3 = s2\<lparr>dispatched_tasks := (dispatched_tasks s2)(uid t \<mapsto> t), pipe_count := pipe_count s2 - 1\<rparr>;
            s4 = (if rest = [] then s3 else s3\<lparr>pool_priority := Some (task_key (rest ! 0))\<rparr>)
        in Some ((uid t, batch_inputs), s4))"

definition add_timing :: "(string \<rightharpoonup> real) \<Rightarrow> 'a val list \<Rightarrow> 'a val list" where
  "add_timing timing outs =
     (if outs = [] then [Dict timing]
      else case last outs of
        Dict d \<Rightarrow> butlast outs @ [Dict (d ++ timing)]
      | _ \<Rightarrow> outs @ [Dict timing])"

definition send_outputs_from_runtime ::
  "pool_config \<Rightarrow> real \<Rightarrow> nat \<Rightarrow> 'a val list \<Rightarrow> 'a pool \<Rightarrow> ('a pool, unit) outcome" where
  "send_outputs_from_runtime cfg ms u batch_outputs s =
     (let outs = map (move_to_device_if_tensor Cpu) batch_outputs;
          (outs1, s1) =
            (if track_transfer_timing cfg
             then (let timing = (case runtime_transfer_timings s u of None \<Rightarrow> Map.empty | Some m \<Rightarrow> m)
                                (''t_gpu2cpu_ms'' \<mapsto> ms,
                                 ''output_bytes'' \<mapsto> real (estimate_tensor_bytes outs),
                                 ''runtime_transfer_valid'' \<mapsto> 1)
                   in (add_timing timing outs,
                       s\<lparr>runtime_transfer_timings := (runtime_transfer_timings s)(u := None)\<rparr>))
             else (outs, s));
          found = dispatched_tasks s1 u;
          s2 = s1\<lparr>dispatched_tasks := (dispatched_tasks s1)(u := None)\<rparr>
      in case found of
           None \<Rightarrow> (Inr (), s2)
         | Some t \<Rightarrow> set_future (uid t) (Result outs1) s2)"

definition send_exception_from_runtime :: "nat \<Rightarrow> py_error \<Rightarrow> 'a pool \<Rightarrow> ('a pool, unit) outcome" where
  "send_exception_from_runtime u e s =
     (let s1 = s\<lparr>runtime_transfer_timings := (runtime_transfer_timings s)(u := None)\<rparr>;
          found = dispatched_tasks s1 u;
          s2 = s1\<lparr>dispatched_tasks := (dispatched_tasks s1)(u := None)\<rparr>
      in case found of
           None \<Rightarrow> (Inr (), s2)
         | Some t \<Rightarrow> set_future (uid t) (Exception e) s2)"

definition pool_empty :: "'a pool \<Rightarrow> bool" where
  "pool_empty s \<longleftrightarrow> pipe_count s = 0"


section \<open>The pool under concurrency\<close>

text \<open>
  Internal steps are those the server makes on its own: a handler finishes its submission, the
  thread moves a task, the runtime loads a task and answers a task it has loaded. A step of the pool
  is an internal one, a new submission, a shutdown, or an answer with an identifier of any kind.
\<close>

inductive pool_internal :: "pool_config \<Rightarrow> 'a pool \<Rightarrow> 'a pool \<Rightarrow> bool" for cfg where
  count: "t \<in> set (in_submit s) \<Longrightarrow> pool_internal cfg s (submit_count t s)"
| run: "run_iteration s = Some s' \<Longrightarrow> pool_internal cfg s s'"
| load: "load_batch_to_runtime cfg dev ms s = Some (b, s') \<Longrightarrow> pool_internal cfg s s'"
| outputs: "dispatched_tasks s u = Some t \<Longrightarrow> send_outputs_from_runtime cfg ms' u outs s = (r, s') \<Longrightarrow>
    pool_internal cfg s s'"
| failure: "dispatched_tasks s u = Some t \<Longrightarrow> send_exception_from_runtime u e s = (r, s') \<Longrightarrow>
    pool_internal cfg s s'"

inductive pool_step :: "pool_config \<Rightarrow> 'a pool \<Rightarrow> 'a pool \<Rightarrow> bool" for cfg where
  internal: "pool_internal cfg s s' \<Longrightarrow> pool_step cfg s s'"
| submit: "submit_put cfg prio now as s = (r, s') \<Longrightarrow> pool_step cfg s s'"
| stop: "pool_step cfg s (shutdown s)"
| stray_outputs: "send_outputs_from_runtime cfg ms u outs s = (r, s') \<Longrightarrow> pool_step cfg s s'"
| stray_failure: "send_exception_from_runtime u e s = (r, s') \<Longrightarrow> pool_step cfg s s'"

inductive pool_reachable :: "pool_config \<Rightarrow> 'a pool \<Rightarrow> bool" for cfg where
  fresh: "pool_reachable cfg new_pool"
| further: "pool_reachable cfg s \<Longrightarrow> pool_step cfg s s' \<Longrightarrow> pool_reachable cfg s'"

subsection \<open>No task is lost or answered twice\<close>

definition waiting :: "'a pool \<Rightarrow> 'a task multiset" where
  "waiting s = mset (List.map_filter id (submitted_tasks s)) + mset (ordered_tasks s)"

definition places :: "'a pool \<Rightarrow> nat \<Rightarrow> nat" where
  "places s u = count (image_mset uid (waiting s)) u + of_bool (dispatched_tasks s u \<noteq> None)
                + of_bool (futures s u \<noteq> None)"

definition pool_ok :: "'a pool \<Rightarrow> bool" where
  "pool_ok s \<longleftrightarrow>
     (\<forall>u. places s u = of_bool (u < next_uid s)) \<and>
     (\<forall>u t. dispatched_tasks s u = Some t \<longrightarrow> uid t = u) \<and>
     is_heap task_key (ordered_tasks s) \<and>
     pipe_count s + length (in_submit s) = size (waiting s) \<and>
     finite (dom (dispatched_tasks s))"

lemma pool_okD:
  assumes "pool_ok s"
  shows "places s u = of_bool (u < next_uid s)"
    and "dispatched_tasks s u = Some t \<Longrightarrow> uid t = u"
    and "is_heap task_key (ordered_tasks s)"
    and "pipe_count s + length (in_submit s) = size (waiting s)"
    and "finite (dom (dispatched_tasks s))"
  using assms by (auto simp: pool_ok_def)

lemma map_filter_id_simps [simp]:
  "List.map_filter id [] = []"
  "List.map_filter id (None # xs) = List.map_filter id xs"
  "List.map_filter id (Some x # xs) = x # List.map_filter id xs"
  "List.map_filter id (xs @ ys) = List.map_filter id xs @ List.map_filter id ys"
  by (simp_all add: List.map_filter_def)

lemma pool_ok_new: "pool_ok new_pool"
  by (simp add: pool_ok_def new_pool_def places_def waiting_def heapq.ok_empty)

lemma pool_ok_count: "pool_ok s \<Longrightarrow> t \<in> set (in_submit s) \<Longrightarrow> pool_ok (submit_count t s)"
  by (auto simp: pool_ok_def submit_count_def places_def waiting_def Let_def length_remove1)
     (metis One_nat_def Suc_pred length_pos_if_in_set add_Suc_right)+

lemma dispatched_not_answered:
  assumes "pool_ok s" and "dispatched_tasks s u = Some t"
  shows "futures s u = None" and "u < next_uid s" and "count (image_mset uid (waiting s)) u = 0"
  using pool_okD(1) [OF assms(1), of u] assms(2) by (auto simp: places_def of_bool_def split: if_splits)

lemma fresh_not_answered:
  assumes "pool_ok s" and "next_uid s \<le> u"
  shows "futures s u = None" and "dispatched_tasks s u = None"
  using pool_okD(1) [OF assms(1), of u] assms(2) by (auto simp: places_def of_bool_def split: if_splits)

lemma set_future_fresh:
  "futures s u = None \<Longrightarrow> set_future u a s = (Inr (), s\<lparr>futures := (futures s)(u \<mapsto> a)\<rparr>)"
  by (simp add: set_future_def)

lemma submit_put_cases:
  assumes "submit_put cfg prio now as s = (r, s')" and "pool_ok s"
  obtains (raises) "s' = s"
  | (too_big) "r = Inr (next_uid s)"
      "s' = s\<lparr>next_uid := next_uid s + 1, futures := (futures s)(next_uid s \<mapsto> Exception ValueError)\<rparr>"
  | (queued) t where "uid t = next_uid s" "r = Inr (next_uid s)"
      "s' = s\<lparr>next_uid := next_uid s + 1, submitted_tasks := submitted_tasks s @ [Some t],
               in_submit := in_submit s @ [t]\<rparr>"
proof -
  let ?t = "\<lparr>priority = prio, time_submitted = now, uid = next_uid s, args = as\<rparr>"
  have new: "futures s (next_uid s) = None" using fresh_not_answered [OF assms(2)] by simp
  show thesis
  proof (cases "get_task_size ?t")
    case (Inl e)
    then show thesis using assms(1) raises by (simp add: submit_put_def)
  next
    case (Inr n)
    show thesis
    proof (cases "max_batch_size cfg < n")
      case True
      then show thesis using assms(1) Inr too_big by (simp add: submit_put_def Let_def set_future_def new)
    next
      case False
      then show thesis using assms(1) Inr queued [of ?t] by (simp add: submit_put_def Let_def)
    qed
  qed
qed

lemma pool_ok_put:
  assumes ok: "pool_ok s" and put: "submit_put cfg prio now as s = (r, s')"
  shows "pool_ok s'"
  using put ok
proof (cases rule: submit_put_cases)
  case too_big
  have "places s' u = of_bool (u < next_uid s')" for u
    using pool_okD(1) [OF ok, of u] fresh_not_answered [OF ok, of u]
    by (auto simp: too_big places_def waiting_def less_Suc_eq of_bool_def)
  then show ?thesis using ok too_big by (auto simp: pool_ok_def waiting_def)
next
  case (queued t)
  have "places s' u = of_bool (u < next_uid s')" for u
    using pool_okD(1) [OF ok, of u] queued(1)
    by (auto simp: queued(3) places_def waiting_def less_Suc_eq of_bool_def)
  then show ?thesis using ok queued by (auto simp: pool_ok_def waiting_def)
qed (use ok in simp)

lemma run_iteration_cases:
  assumes "run_iteration s = Some s'"
  obtains (stop) rest where "running s" "submitted_tasks s = None # rest"
      "s' = s\<lparr>submitted_tasks := rest, running := False\<rparr>"
  | (move) t rest where "running s" "submitted_tasks s = Some t # rest"
      "s' = s\<lparr>submitted_tasks := rest, ordered_tasks := heappush task_key t (ordered_tasks s)\<rparr>"
  using assms by (auto simp: run_iteration_def split: if_splits list.splits option.splits)

lemma pool_ok_run:
  assumes "pool_ok s" and "run_iteration s = Some s'"
  shows "pool_ok s'"
  using assms(2)
proof (cases rule: run_iteration_cases)
  case (stop rest)
  then show ?thesis using assms(1) by (auto simp: pool_ok_def places_def waiting_def)
next
  case (move t rest)
  then have "waiting s' = waiting s" by (simp add: waiting_def heappush_mset)
  then show ?thesis using assms(1) move by (auto simp: pool_ok_def places_def heappush_heap)
qed

lemma load_cases:
  assumes "load_batch_to_runtime cfg dev ms s = Some ((u, ins), s')"
  obtains t where "ordered_tasks s \<noteq> []" "0 < pipe_count s" "t = ordered_tasks s ! 0" "u = uid t"
    "ins = fst (move_args (case dev of None \<Rightarrow> pool_device cfg | Some d \<Rightarrow> Some d) ms (args t) no_transfer)"
    "ordered_tasks s' = heappop task_key (ordered_tasks s)"
    "dispatched_tasks s' = (dispatched_tasks s)(u \<mapsto> t)" "pipe_count s' = pipe_count s - 1"
    "submitted_tasks s' = submitted_tasks s" "in_submit s' = in_submit s" "futures s' = futures s"
    "next_uid s' = next_uid s" "running s' = running s"
proof
  show "ordered_tasks s \<noteq> []" "0 < pipe_count s"
    using assms by (auto simp: load_batch_to_runtime_def split: if_splits)
qed (use assms in \<open>auto simp: load_batch_to_runtime_def Let_def split: if_splits prod.splits\<close>)

lemma load_enabled:
  assumes "ordered_tasks s \<noteq> []" and "0 < pipe_count s"
  shows "\<exists>ins s'. load_batch_to_runtime cfg dev ms s = Some ((uid (ordered_tasks s ! 0), ins), s')"
proof -
  have "\<exists>x y. move_args d ms vs m = (x, y)" for d vs m by (cases "move_args d ms vs m") simp
  then show ?thesis using assms by (auto simp: load_batch_to_runtime_def Let_def split: prod.split)
qed

lemma load_waiting:
  assumes "load_batch_to_runtime cfg dev ms s = Some ((u, ins), s')"
  shows "\<exists>t. uid t = u \<and> dispatched_tasks s' = (dispatched_tasks s)(u \<mapsto> t) \<and> waiting s = add_mset t (waiting s')"
proof -
  from assms obtain t where t: "ordered_tasks s \<noteq> []" "t = ordered_tasks s ! 0" "u = uid t"
    "ordered_tasks s' = heappop task_key (ordered_tasks s)" "dispatched_tasks s' = (dispatched_tasks s)(u \<mapsto> t)"
    "submitted_tasks s' = submitted_tasks s" by (rule load_cases)
  then have "waiting s = add_mset t (waiting s')"
    using heappop_mset [OF t(1), of task_key] by (simp add: waiting_def)
  then show ?thesis using t by blast
qed

lemma pool_ok_load:
  assumes ok: "pool_ok s" and l: "load_batch_to_runtime cfg dev ms s = Some (b, s')"
  shows "pool_ok s'"
proof -
  obtain u ins where b: "b = (u, ins)" by (cases b)
  obtain t where t: "uid t = u" "dispatched_tasks s' = (dispatched_tasks s)(u \<mapsto> t)" "waiting s = add_mset t (waiting s')"
    using load_waiting l b by blast
  have eqs: "0 < pipe_count s" "ordered_tasks s' = heappop task_key (ordered_tasks s)" "pipe_count s' = pipe_count s - 1"
    "in_submit s' = in_submit s" "futures s' = futures s" "next_uid s' = next_uid s"
    by (rule load_cases [OF l [unfolded b]], simp)+
  have "dispatched_tasks s u = None"
  proof (rule ccontr)
    assume "dispatched_tasks s u \<noteq> None"
    then obtain t' where "dispatched_tasks s u = Some t'" by blast
    from dispatched_not_answered(3) [OF ok this] show False using t by simp
  qed
  then have "places s' v = places s v" for v using t eqs by (auto simp: places_def)
  then show ?thesis
    using ok t eqs by (auto simp: pool_ok_def heappop_heap)
qed

text \<open>Both answers take the task out of the dictionary and set its future; a stray one does neither.\<close>

definition answer_of :: "pool_config \<Rightarrow> real \<Rightarrow> nat \<Rightarrow> 'a val list \<Rightarrow> 'a pool \<Rightarrow> 'a val list" where
  "answer_of cfg ms u outs s =
     (let moved = map (move_to_device_if_tensor Cpu) outs in
      if track_transfer_timing cfg
      then add_timing ((case runtime_transfer_timings s u of None \<Rightarrow> Map.empty | Some m \<Rightarrow> m)
             (''t_gpu2cpu_ms'' \<mapsto> ms, ''output_bytes'' \<mapsto> real (estimate_tensor_bytes moved),
              ''runtime_transfer_valid'' \<mapsto> 1)) moved
      else moved)"

definition answered :: "nat \<Rightarrow> 'a answer \<Rightarrow> 'a pool \<Rightarrow> 'a pool \<Rightarrow> bool" where
  "answered u a s s' \<longleftrightarrow>
     dispatched_tasks s' = (dispatched_tasks s)(u := None) \<and>
     futures s' = (if dispatched_tasks s u = None then futures s else (futures s)(u \<mapsto> a)) \<and>
     submitted_tasks s' = submitted_tasks s \<and> ordered_tasks s' = ordered_tasks s \<and>
     in_submit s' = in_submit s \<and> pipe_count s' = pipe_count s \<and> next_uid s' = next_uid s \<and>
     running s' = running s"

lemma send_outputs_answers:
  assumes "pool_ok s"
  shows "\<exists>s'. send_outputs_from_runtime cfg ms u outs s = (Inr (), s') \<and>
           answered u (Result (answer_of cfg ms u outs s)) s s'"
  using dispatched_not_answered [OF assms] pool_okD(2) [OF assms]
  by (auto simp: send_outputs_from_runtime_def Let_def set_future_def answered_def answer_of_def
      split: option.splits)

lemma send_exception_answers:
  assumes "pool_ok s"
  shows "\<exists>s'. send_exception_from_runtime u e s = (Inr (), s') \<and> answered u (Exception e) s s'"
  using dispatched_not_answered [OF assms] pool_okD(2) [OF assms]
  by (auto simp: send_exception_from_runtime_def Let_def set_future_def answered_def split: option.splits)

lemma pool_ok_answered:
  assumes "pool_ok s" and "answered u a s s'"
  shows "pool_ok s'"
proof -
  have w: "waiting s' = waiting s" using assms(2) by (simp add: answered_def waiting_def)
  have "places s' v = places s v" for v
    using assms dispatched_not_answered [OF assms(1)] by (auto simp: places_def answered_def w)
  then show ?thesis using assms by (auto simp: pool_ok_def answered_def w split: if_splits)
qed

lemma pool_ok_internal: "pool_internal cfg s s' \<Longrightarrow> pool_ok s \<Longrightarrow> pool_ok s'"
  by (induction rule: pool_internal.induct)
     (auto dest: pool_ok_count pool_ok_run pool_ok_load,
      (metis pool_ok_answered send_outputs_answers send_exception_answers snd_conv)+)

lemma pool_ok_step: "pool_step cfg s s' \<Longrightarrow> pool_ok s \<Longrightarrow> pool_ok s'"
proof (induction rule: pool_step.induct)
  case (stop s)
  then show ?case by (auto simp: pool_ok_def shutdown_def places_def waiting_def)
qed (auto dest: pool_ok_internal pool_ok_put,
     (metis pool_ok_answered send_outputs_answers send_exception_answers snd_conv)+)

lemma pool_ok_reachable: "pool_reachable cfg s \<Longrightarrow> pool_ok s"
  by (induction rule: pool_reachable.induct) (auto intro: pool_ok_new pool_ok_step)


subsection \<open>Draining\<close>

definition work_left :: "'a pool \<Rightarrow> nat" where
  "work_left s = 3 * length (submitted_tasks s) + 2 * length (ordered_tasks s) + length (in_submit s)
                 + card (dom (dispatched_tasks s))"

lemma length_heappush [simp]: "length (heappush key x h) = Suc (length h)"
  using arg_cong [OF heappush_mset, of size key x h] by simp

lemma length_heappop: "h \<noteq> [] \<Longrightarrow> length h = Suc (length (heappop key h))"
  using arg_cong [OF heappop_mset [of h key], of size] by simp

lemma work_left_count: "t \<in> set (in_submit s) \<Longrightarrow> work_left (submit_count t s) < work_left s"
  using length_pos_if_in_set [of t "in_submit s"]
  by (simp add: work_left_def submit_count_def Let_def length_remove1)

lemma work_left_run:
  assumes "run_iteration s = Some s'"
  shows "work_left s' < work_left s"
  using assms by (cases rule: run_iteration_cases) (simp_all add: work_left_def)

lemma work_left_load:
  assumes "pool_ok s" and l: "load_batch_to_runtime cfg dev ms s = Some (b, s')"
  shows "work_left s' < work_left s"
proof -
  obtain u ins where b: "b = (u, ins)" by (cases b)
  from l [unfolded b] show ?thesis
  proof (rule load_cases)
    fix t assume t: "ordered_tasks s \<noteq> []" "ordered_tasks s' = heappop task_key (ordered_tasks s)"
      "dispatched_tasks s' = (dispatched_tasks s)(u \<mapsto> t)" "submitted_tasks s' = submitted_tasks s"
      "in_submit s' = in_submit s"
    have "card (dom (dispatched_tasks s')) \<le> Suc (card (dom (dispatched_tasks s)))"
      using pool_okD(5) [OF assms(1)] t by (simp add: card_insert_if)
    then show ?thesis using t length_heappop [OF t(1), of task_key] by (simp add: work_left_def)
  qed
qed

lemma work_left_answered:
  assumes "pool_ok s" and "dispatched_tasks s u = Some t" and "answered u a s s'"
  shows "work_left s' < work_left s"
proof -
  have "u \<in> dom (dispatched_tasks s)" using assms by blast
  then have "card (dom (dispatched_tasks s) - {u}) < card (dom (dispatched_tasks s))"
    using pool_okD(5) [OF assms(1)] by (meson card_Diff1_less)
  then show ?thesis using assms by (simp add: work_left_def answered_def)
qed

lemma work_left_decreases: "pool_internal cfg s s' \<Longrightarrow> pool_ok s \<Longrightarrow> work_left s' < work_left s"
proof (induction rule: pool_internal.induct)
  case (outputs s u t ms' outs r s')
  then show ?case using send_outputs_answers [of s cfg ms' u outs] work_left_answered by fastforce
next
  case (failure s u t e r s')
  then show ?case using send_exception_answers [of s u e] work_left_answered by fastforce
qed (auto intro: work_left_count work_left_run work_left_load)

lemma pool_ok_internals: "(pool_internal cfg)\<^sup>*\<^sup>* s s' \<Longrightarrow> pool_ok s \<Longrightarrow> pool_ok s'"
  by (induction rule: rtranclp_induct) (auto intro: pool_ok_internal)

lemma stuck_pool:
  fixes s :: "'a pool"
  assumes ok: "pool_ok s" and stuck: "\<not> (\<exists>s'. pool_internal cfg s s')"
  shows "in_submit s = []" and "ordered_tasks s = []" and "dispatched_tasks s = Map.empty"
    and "running s \<Longrightarrow> submitted_tasks s = []"
proof -
  show sub: "in_submit s = []"
    using stuck pool_internal.count [where cfg = cfg and s = s] by (meson last_in_set)
  show "dispatched_tasks s = Map.empty"
  proof
    fix u
    show "dispatched_tasks s u = None"
      using stuck pool_internal.failure [where cfg = cfg and s = s and u = u and e = ValueError]
      by (metis option.exhaust prod.exhaust)
  qed
  show "ordered_tasks s = []"
  proof (rule ccontr)
    assume ne: "ordered_tasks s \<noteq> []"
    then have "0 < size (waiting s)" by (simp add: waiting_def)
    then have "pipe_count s \<noteq> 0" using pool_okD(4) [OF ok] sub by auto
    then have "\<exists>b s'. load_batch_to_runtime cfg None (\<lambda>_. 0) s = Some (b, s')"
      using load_enabled [OF ne] by blast
    then show False using stuck pool_internal.load by blast
  qed
  show "running s \<Longrightarrow> submitted_tasks s = []"
  proof (rule ccontr)
    assume "running s" and "submitted_tasks s \<noteq> []"
    then have "\<exists>s'. run_iteration s = Some s'"
      by (auto simp: run_iteration_def split: list.splits option.splits)
    then show False using stuck pool_internal.run by blast
  qed
qed

lemma stuck_answers:
  assumes ok: "pool_ok s" and stuck: "\<not> (\<exists>s'. pool_internal cfg s s')" and u: "u < next_uid s"
  shows "futures s u \<noteq> None \<or> (\<not> running s \<and> (\<exists>t. Some t \<in> set (submitted_tasks s) \<and> uid t = u))"
proof (cases "futures s u")
  case None
  note st = stuck_pool [OF ok stuck]
  have "places s u = 1" using pool_okD(1) [OF ok] u by simp
  then have "count (image_mset uid (waiting s)) u = 1" using None st(3) by (simp add: places_def)
  then have "u \<in># image_mset uid (waiting s)" by (metis count_eq_zero_iff zero_neq_one)
  then obtain t where t: "t \<in> set (List.map_filter id (submitted_tasks s))" "uid t = u"
    using st(2) by (auto simp: waiting_def)
  then have "Some t \<in> set (submitted_tasks s)" by (auto simp: List.map_filter_def)
  then show ?thesis using t st(4) by auto
qed simp

subsection \<open>The order of loading\<close>

fun load_all ::
  "pool_config \<Rightarrow> device option \<Rightarrow> (nat \<Rightarrow> real) \<Rightarrow> nat \<Rightarrow> 'a pool \<Rightarrow> (nat \<times> 'a val list) list" where
  "load_all cfg dev ms 0 s = []"
| "load_all cfg dev ms (Suc n) s =
     (case load_batch_to_runtime cfg dev ms s of
        None \<Rightarrow> []
      | Some (b, s') \<Rightarrow> b # load_all cfg dev ms n s')"

lemma load_all_pops:
  "length (ordered_tasks s) = n \<Longrightarrow> n \<le> pipe_count s \<Longrightarrow>
   map fst (load_all cfg dev ms n s) = map uid (pops (\<lambda>h. h ! 0) (heappop task_key) n (ordered_tasks s))"
proof (induction n arbitrary: s)
  case (Suc n)
  then have ne: "ordered_tasks s \<noteq> []" and p: "0 < pipe_count s" by auto
  then obtain ins s' where l: "load_batch_to_runtime cfg dev ms s = Some ((uid (ordered_tasks s ! 0), ins), s')"
    using load_enabled by blast
  then have "ordered_tasks s' = heappop task_key (ordered_tasks s)" "pipe_count s' = pipe_count s - 1"
    by (rule load_cases, simp)+
  then show ?case using Suc l length_heappop [OF ne, of task_key] by simp
qed simp

lemma futures_grow:
  assumes "pool_step cfg s s'" and ok: "pool_ok s"
  shows "futures s \<subseteq>\<^sub>m futures s'"
proof -
  have ans: "futures s \<subseteq>\<^sub>m futures s1" if "answered u a s s1" for u a s1
    using that dispatched_not_answered(1) [OF ok] by (auto simp: answered_def map_le_def dom_def)
  have outs: "futures s \<subseteq>\<^sub>m futures s1" if "send_outputs_from_runtime cfg ms u outs s = (r, s1)" for ms u outs r s1
    using that send_outputs_answers [OF ok, of cfg ms u outs] ans by auto
  have exc: "futures s \<subseteq>\<^sub>m futures s1" if "send_exception_from_runtime u e s = (r, s1)" for u e r s1
    using that send_exception_answers [OF ok, of u e] ans by auto
  have int: "futures s \<subseteq>\<^sub>m futures s1" if "pool_internal cfg s s1" for s1
    using that
  proof cases
    case (count t)
    then show ?thesis by (simp add: submit_count_def Let_def)
  next
    case run
    then show ?thesis by (cases rule: run_iteration_cases) simp_all
  next
    case (load dev ms b)
    then show ?thesis by (cases b) (auto elim!: load_cases)
  qed (auto intro: outs exc)
  show ?thesis
    using assms(1)
  proof cases
    case (submit prio now as r)
    then show ?thesis using ok fresh_not_answered [OF ok, of "next_uid s"]
      by (cases rule: submit_put_cases) (auto simp: map_le_def)
  qed (auto intro: outs exc int simp: shutdown_def)
qed

subsection \<open>A pool with two tasks\<close>

text \<open>A forward pass and, later, an inference step, both moved to the priority queue.\<close>

definition sample_config :: pool_config where
  "sample_config = \<lparr>max_batch_size = 8, pool_device = None, track_transfer_timing = True\<rparr>"

definition sample_args :: "unit val list" where
  "sample_args = [Tensor \<lparr>shape = [2, 3], elem_bytes = 2, device_of = Cpu, content = ()\<rparr>]"

definition sample_pool :: "unit pool" where
  "sample_pool =
     (let s1 = snd (submit_task sample_config (prioritize (Some ''forward'')) 1 sample_args new_pool);
          s2 = snd (submit_task sample_config (prioritize (Some ''inference'')) 2 sample_args s1)
      in the (run_iteration (the (run_iteration s2))))"

lemma submit_task_reachable:
  assumes "pool_reachable cfg s"
  shows "pool_reachable cfg (snd (submit_task cfg prio now as s))"
proof -
  obtain r s1 where put: "submit_put cfg prio now as s = (r, s1)" by fastforce
  then have s1: "pool_reachable cfg s1" using assms further submit by blast
  show ?thesis
  proof (cases "length (in_submit s) < length (in_submit s1)")
    case True
    then have "last (in_submit s1) \<in> set (in_submit s1)" by (cases "in_submit s1") auto
    then show ?thesis using True s1 put by (auto simp: submit_task_def intro: further internal count)
  qed (use s1 put in \<open>simp add: submit_task_def\<close>)
qed

lemmas submit_eval = submit_task_def submit_put_def submit_count_def get_task_size_def Let_def
  prio_less_def task_key_def

lemma sample_pool_moves:
  defines "s2 \<equiv> snd (submit_task sample_config (prioritize (Some ''inference'')) 2 sample_args
     (snd (submit_task sample_config (prioritize (Some ''forward'')) 1 sample_args new_pool)))"
  shows "\<exists>s3. run_iteration s2 = Some s3 \<and> run_iteration s3 = Some sample_pool"
  unfolding s2_def sample_pool_def Let_def
  by (simp add: submit_eval sample_config_def sample_args_def new_pool_def run_iteration_def)

lemma sample_pool_reachable: "pool_reachable sample_config sample_pool"
  using sample_pool_moves
  by (meson fresh further internal run submit_task_reachable)

lemma sample_pool_state:
  "in_submit sample_pool = []" "map uid (ordered_tasks sample_pool) = [1, 0]" "next_uid sample_pool = 2"
  unfolding sample_pool_def
  by (simp_all add: submit_eval sample_config_def sample_args_def new_pool_def run_iteration_def
      heappush_def swap_def prioritize_def)

section \<open>Properties\<close>

text \<open>
  C5 Whatever the interleaving of handlers, prioritiser thread and runtime, and also with answers
  for unknown tasks, every future handed out is in exactly one place: its task waits in one of the
  two queues once, or is with the runtime, or the future has its answer. So no task is lost, none is
  run twice, and neither kind of answer ever meets a future that is already set. An answer is never
  changed later.
\<close>

theorem pool_answers_once:
  assumes "pool_reachable cfg s"
  shows "(\<forall>u. places s u = of_bool (u < next_uid s))
    \<and> pipe_count s + length (in_submit s) = size (waiting s)
    \<and> (\<forall>ms u outs. \<exists>s'. send_outputs_from_runtime cfg ms u outs s = (Inr (), s') \<and>
         answered u (Result (answer_of cfg ms u outs s)) s s')
    \<and> (\<forall>u e. \<exists>s'. send_exception_from_runtime u e s = (Inr (), s') \<and> answered u (Exception e) s s')
    \<and> (\<forall>s'. pool_step cfg s s' \<longrightarrow> futures s \<subseteq>\<^sub>m futures s')"
proof (intro conjI allI impI)
  note ok = pool_ok_reachable [OF assms]
  show "places s u = of_bool (u < next_uid s)" for u using ok by (rule pool_okD)
  show "pipe_count s + length (in_submit s) = size (waiting s)" using ok by (rule pool_okD)
  show "\<exists>s'. send_outputs_from_runtime cfg ms u outs s = (Inr (), s') \<and>
         answered u (Result (answer_of cfg ms u outs s)) s s'" for ms u outs
    using ok by (rule send_outputs_answers)
  show "\<exists>s'. send_exception_from_runtime u e s = (Inr (), s') \<and> answered u (Exception e) s s'" for u e
    using ok by (rule send_exception_answers)
  show "futures s \<subseteq>\<^sub>m futures s'" if "pool_step cfg s s'" for s'
    using futures_grow [OF that ok] .
qed

theorem pool_answers_once_witness:
  "pool_reachable sample_config sample_pool \<and> next_uid sample_pool = 2 \<and> places sample_pool 0 = 1
   \<and> places sample_pool 1 = 1 \<and> places sample_pool 2 = 0"
  using pool_answers_once [OF sample_pool_reachable] sample_pool_reachable by (simp add: sample_pool_state)

text \<open>
  C32 The pool drains: its internal steps end after a bounded number, whatever their order, and when
  none is left, no task is in a queue of a running pool or with the runtime, so every future ever
  handed out is answered. After a shutdown the only futures without an answer belong to tasks
  submitted behind the shutdown marker.
\<close>

theorem pool_drains:
  assumes "pool_reachable cfg s"
  shows "\<not> (\<exists>f. f 0 = s \<and> (\<forall>i. pool_internal cfg (f i) (f (Suc i))))
    \<and> (\<forall>s' u. (pool_internal cfg)\<^sup>*\<^sup>* s s' \<longrightarrow> (\<nexists>s''. pool_internal cfg s' s'') \<longrightarrow> u < next_uid s' \<longrightarrow>
         futures s' u \<noteq> None \<or>
         (\<not> running s' \<and> (\<exists>t. Some t \<in> set (submitted_tasks s') \<and> uid t = u)))"
proof (intro conjI allI impI notI)
  note ok = pool_ok_reachable [OF assms]
  assume "\<exists>f. f 0 = s \<and> (\<forall>i. pool_internal cfg (f i) (f (Suc i)))"
  then obtain f where f: "f 0 = s" "\<And>i. pool_internal cfg (f i) (f (Suc i))" by blast
  have ok_f: "pool_ok (f i)" for i using ok f by (induction i) (auto intro: pool_ok_internal)
  have "work_left (f i) + i \<le> work_left s" for i
  proof (induction i)
    case (Suc i)
    then show ?case using work_left_decreases [OF f(2) [of i] ok_f [of i]] by linarith
  qed (simp add: f(1))
  from this [of "Suc (work_left s)"] show False by simp
next
  fix s' u
  assume "(pool_internal cfg)\<^sup>*\<^sup>* s s'" "\<nexists>s''. pool_internal cfg s' s''" "u < next_uid s'"
  then show "futures s' u \<noteq> None \<or>
      (\<not> running s' \<and> (\<exists>t. Some t \<in> set (submitted_tasks s') \<and> uid t = u))"
    using stuck_answers pool_ok_internals pool_ok_reachable [OF assms] by blast
qed

theorem pool_drains_witness:
  "pool_reachable sample_config sample_pool
   \<and> \<not> (\<exists>f. f 0 = sample_pool \<and> (\<forall>i. pool_internal sample_config (f i) (f (Suc i))))"
  using pool_drains [OF sample_pool_reachable] sample_pool_reachable by blast

text \<open>
  The runtime is served in order of urgency: when no submission is in progress, loading all
  ordered tasks hands out every one of them once, sorted by priority and, within a priority, by the
  time of submission. With the priorities of \<^verbatim>\<open>DummyTaskPrioritizer\<close> inference steps come before
  forward and backward passes.
\<close>

theorem loads_by_urgency:
  assumes "pool_reachable cfg s" and "in_submit s = []"
  shows "\<exists>ts. map fst (load_all cfg dev ms (length (ordered_tasks s)) s) = map uid ts
    \<and> mset ts = mset (ordered_tasks s)
    \<and> sorted (map (\<lambda>t. (priority t, time_submitted t)) ts)"
proof -
  note ok = pool_ok_reachable [OF assms(1)]
  let ?n = "length (ordered_tasks s)"
  let ?ts = "pops (\<lambda>h. h ! 0) (heappop task_key) ?n (ordered_tasks s)"
  have "?n \<le> pipe_count s" using pool_okD(4) [OF ok] assms(2) by (simp add: waiting_def)
  then have "map fst (load_all cfg dev ms ?n s) = map uid ?ts" by (simp add: load_all_pops)
  moreover have "mset ?ts = mset (ordered_tasks s)" by (rule heapq.mset_pops) simp
  moreover have "sorted (map task_key ?ts)" using pool_okD(3) [OF ok] by (intro heapq.pops_sorted) simp_all
  ultimately show ?thesis by (auto simp: task_key_def [abs_def])
qed

theorem loads_by_urgency_witness:
  "in_submit sample_pool = [] \<and> length (ordered_tasks sample_pool) = 2
   \<and> (\<exists>ts. map fst (load_all sample_config None (\<lambda>_. 0) 2 sample_pool) = map uid ts
        \<and> mset ts = mset (ordered_tasks sample_pool)
        \<and> sorted (map (\<lambda>t. (priority t, time_submitted t)) ts))"
proof -
  have "length (ordered_tasks sample_pool) = 2"
    using arg_cong [OF sample_pool_state(2), of length] by simp
  then show ?thesis
    using loads_by_urgency [OF sample_pool_reachable sample_pool_state(1), of None "\<lambda>_. 0"] sample_pool_state(1)
    by simp
qed

end
