(* ===== verification/ContinuousBatching.thy ===== *)
theory ContinuousBatching
  imports BB_Prelude
begin

text \<open>
  Continuous batching of decode requests: the live loop of \<^verbatim>\<open>client/live_continuous_batching.py\<close>,
  driven by an injected batch step, and the scheduler simulation of
  \<^verbatim>\<open>mvp_capabilities/continuous_batching.py\<close>. Requests arrive at ticks of their own, wait in a queue,
  and every tick a bounded batch taken from the front of the queue advances by one token.
\<close>

section \<open>Requests and loop state\<close>

text \<open>
  \<^verbatim>\<open>LiveDecodeRequest\<close> and \<^verbatim>\<open>DecodeRequest\<close> have the same fields and the same checks; the simulation
  calls the input tokens \<^verbatim>\<open>prompt_token_ids\<close>.
\<close>

record decode_request =
  request_id :: string
  input_token_ids :: "int list"
  target_token_ids :: "int list"
  arrival_tick :: int

definition make_decode_request :: "string \<Rightarrow> int list \<Rightarrow> int list \<Rightarrow> int \<Rightarrow> decode_request result" where
  "make_decode_request i inp tgt arr =
     (if i = [] then Inl ValueError
      else if inp = [] then Inl ValueError
      else if arr < 0 then Inl ValueError
      else Inr \<lparr>request_id = i, input_token_ids = inp, target_token_ids = tgt, arrival_tick = arr\<rparr>)"

fun validate_requests :: "string set \<Rightarrow> decode_request list \<Rightarrow> unit result" where
  "validate_requests seen [] = Inr ()"
| "validate_requests seen (r # rs) =
     (if request_id r \<in> seen then Inl ValueError else validate_requests (insert (request_id r) seen) rs)"

record request_state =
  request :: decode_request
  position :: nat
  generated :: "int list"

record decode_row =
  row_request_id :: string
  row_tick :: int
  row_position :: nat
  row_input_token_id :: int

record timeline_row =
  t_tick :: int
  t_request_ids :: "string list"
  t_positions :: "nat list"
  t_input_token_ids :: "int list"
  t_output_token_ids :: "int list"
  t_finished_request_ids :: "string list"

record decode_loop =
  pending :: "decode_request list"
  active :: "string list"
  active_set :: "string set"
  states :: "string \<rightharpoonup> request_state"
  completed :: "string list"
  timeline :: "timeline_row list"
  tick :: int

definition initial_loop :: "decode_request list \<Rightarrow> decode_loop" where
  "initial_loop requests =
     (let ordered = sort_key arrival_tick requests in
      \<lparr>pending = ordered, active = [], active_set = {},
       states = map_of (rev (map (\<lambda>r. (request_id r, \<lparr>request = r, position = 0, generated = []\<rparr>)) requests)),
       completed = [], timeline = [], tick = (if ordered = [] then 0 else arrival_tick (hd ordered))\<rparr>)"

section \<open>One tick\<close>

text \<open>The requests whose tick has come join the queue; those with nothing to generate are complete.\<close>

fun admit :: "decode_request list \<Rightarrow> decode_loop \<Rightarrow> decode_loop" where
  "admit [] st = st\<lparr>pending := []\<rparr>"
| "admit (r # rs) st =
     (if arrival_tick r \<le> tick st then
        if target_token_ids r = [] then admit rs (st\<lparr>completed := completed st @ [request_id r]\<rparr>)
        else admit rs (st\<lparr>active := active st @ [request_id r],
                          active_set := insert (request_id r) (active_set st)\<rparr>)
      else st\<lparr>pending := r # rs\<rparr>)"

text \<open>\<open>active_set.remove\<close> raises when the identifier is missing.\<close>

fun take_batch :: "nat \<Rightarrow> string list \<Rightarrow> string set \<Rightarrow> (string list \<times> string list \<times> string set) result" where
  "take_batch 0 act aset = Inr ([], act, aset)"
| "take_batch (Suc n) [] aset = Inr ([], [], aset)"
| "take_batch (Suc n) (i # act) aset =
     (if i \<in> aset
      then (case take_batch n act (aset - {i}) of
              Inl e \<Rightarrow> Inl e
            | Inr (ids, act', aset') \<Rightarrow> Inr (i # ids, act', aset'))
      else Inl KeyError)"

definition input_token :: "request_state \<Rightarrow> int result" where
  "input_token rs =
     (let source = (if position rs = 0 then input_token_ids (request rs) else generated rs) in
      if source = [] then Inl IndexError else Inr (last source))"

fun build_rows :: "(string \<rightharpoonup> request_state) \<Rightarrow> int \<Rightarrow> string list \<Rightarrow> decode_row list result" where
  "build_rows sts t [] = Inr []"
| "build_rows sts t (i # ids) =
     (case sts i of
        None \<Rightarrow> Inl KeyError
      | Some rs \<Rightarrow>
          (case input_token rs of
             Inl e \<Rightarrow> Inl e
           | Inr x \<Rightarrow>
               (case build_rows sts t ids of
                  Inl e \<Rightarrow> Inl e
                | Inr rows \<Rightarrow>
                    Inr (\<lparr>row_request_id = i, row_tick = t, row_position = position rs,
                          row_input_token_id = x\<rparr> # rows))))"

datatype step_outputs = Mapped "string \<rightharpoonup> int" | Listed "int list"

definition normalize_outputs :: "decode_row list \<Rightarrow> step_outputs \<Rightarrow> (string \<rightharpoonup> int) result" where
  "normalize_outputs rows outputs =
     (case outputs of
        Mapped m \<Rightarrow>
          if \<forall>row \<in> set rows. m (row_request_id row) \<noteq> None
          then Inr (m |` set (map row_request_id rows)) else Inl KeyError
      | Listed xs \<Rightarrow>
          if length xs \<noteq> length rows then Inl ValueError
          else Inr (map_of (rev (zip (map row_request_id rows) xs))))"

record row_results =
  r_states :: "string \<rightharpoonup> request_state"
  r_completed :: "string list"
  r_finished :: "string list"
  r_requeue :: "string list"
  r_tokens :: "int list"

definition apply_row :: "(string \<rightharpoonup> int) \<Rightarrow> decode_row \<Rightarrow> row_results \<Rightarrow> row_results result" where
  "apply_row outs row acc =
     (let i = row_request_id row in
      case r_states acc i of
        None \<Rightarrow> Inl KeyError
      | Some rs \<Rightarrow>
          (case outs i of
             None \<Rightarrow> Inl KeyError
           | Some x \<Rightarrow>
               let acc1 = acc\<lparr>r_tokens := r_tokens acc @ [x],
                              r_states := (r_states acc)(i \<mapsto> rs\<lparr>generated := generated rs @ [x],
                                                                position := row_position row + 1\<rparr>)\<rparr>
               in if length (target_token_ids (request rs)) \<le> row_position row + 1
                  then Inr (acc1\<lparr>r_finished := r_finished acc1 @ [i], r_completed := r_completed acc1 @ [i]\<rparr>)
                  else Inr (acc1\<lparr>r_requeue := r_requeue acc1 @ [i]\<rparr>)))"

fun apply_rows :: "(string \<rightharpoonup> int) \<Rightarrow> decode_row list \<Rightarrow> row_results \<Rightarrow> row_results result" where
  "apply_rows outs [] acc = Inr acc"
| "apply_rows outs (row # rows) acc =
     (case apply_row outs row acc of Inl e \<Rightarrow> Inl e | Inr acc' \<Rightarrow> apply_rows outs rows acc')"

fun requeue_all :: "string list \<Rightarrow> string list \<Rightarrow> string set \<Rightarrow> string list \<times> string set" where
  "requeue_all [] act aset = (act, aset)"
| "requeue_all (i # ids) act aset =
     (if i \<in> aset then requeue_all ids act aset else requeue_all ids (act @ [i]) (insert i aset))"

definition start_results :: "decode_loop \<Rightarrow> row_results" where
  "start_results st =
     \<lparr>r_states = states st, r_completed = completed st, r_finished = [], r_requeue = [], r_tokens = []\<rparr>"

definition finish_tick ::
  "decode_loop \<Rightarrow> string list \<Rightarrow> string set \<Rightarrow> decode_row list \<Rightarrow> row_results \<Rightarrow> decode_loop" where
  "finish_tick st act aset rows acc =
     (let (act', aset') = requeue_all (r_requeue acc) act aset in
      st\<lparr>active := act', active_set := aset', states := r_states acc, completed := r_completed acc,
         timeline := timeline st @
           [\<lparr>t_tick = tick st, t_request_ids = map row_request_id rows, t_positions = map row_position rows,
             t_input_token_ids = map row_input_token_id rows, t_output_token_ids = r_tokens acc,
             t_finished_request_ids = r_finished acc\<rparr>],
         tick := tick st + 1\<rparr>)"

text \<open>
  The body of the \<^verbatim>\<open>while\<close> loop of \<^verbatim>\<open>run\<close>; the flag is false where the loop breaks. The injected
  step may keep state of its own and may raise.
\<close>

type_synonym 's batch_step = "'s \<Rightarrow> decode_row list \<Rightarrow> step_outputs result \<times> 's"

definition live_tick ::
  "nat \<Rightarrow> 's batch_step \<Rightarrow> decode_loop \<Rightarrow> 's \<Rightarrow> (bool \<times> decode_loop) result \<times> 's" where
  "live_tick max_batch step_batch st0 s =
     (let st = admit (pending st0) st0 in
      if active st = [] then
        if pending st = [] then (Inr (False, st), s)
        else (Inr (True, st\<lparr>tick := max (tick st + 1) (arrival_tick (hd (pending st)))\<rparr>), s)
      else case take_batch max_batch (active st) (active_set st) of
        Inl e \<Rightarrow> (Inl e, s)
      | Inr (ids, act, aset) \<Rightarrow>
          (case build_rows (states st) (tick st) ids of
             Inl e \<Rightarrow> (Inl e, s)
           | Inr rows \<Rightarrow>
               (case step_batch s rows of
                  (Inl e, s') \<Rightarrow> (Inl e, s')
                | (Inr outputs, s') \<Rightarrow>
                    (case normalize_outputs rows outputs of
                       Inl e \<Rightarrow> (Inl e, s')
                     | Inr outs \<Rightarrow>
                         (case apply_rows outs rows (start_results st) of
                            Inl e \<Rightarrow> (Inl e, s')
                          | Inr acc \<Rightarrow> (Inr (True, finish_tick st act aset rows acc), s'))))))"

partial_function (option) live_loop ::
  "nat \<Rightarrow> 's batch_step \<Rightarrow> decode_loop \<Rightarrow> 's \<Rightarrow> (decode_loop result \<times> 's) option" where
  "live_loop max_batch step_batch st s =
     (if pending st = [] \<and> active st = [] then Some (Inr st, s)
      else case live_tick max_batch step_batch st s of
        (Inl e, s') \<Rightarrow> Some (Inl e, s')
      | (Inr (again, st'), s') \<Rightarrow>
          if again then live_loop max_batch step_batch st' s' else Some (Inr st', s'))"

section \<open>The report\<close>

record decode_report =
  verification_passed :: bool
  request_count :: nat
  rep_max_batch_size :: nat
  rep_timeline :: "timeline_row list"
  outputs_by_request :: "string \<rightharpoonup> int list"
  expected_by_request :: "string \<rightharpoonup> int list"
  completed_request_ids :: "string list"

definition expected_outputs :: "decode_request list \<Rightarrow> string \<rightharpoonup> int list" where
  "expected_outputs requests = map_of (rev (map (\<lambda>r. (request_id r, target_token_ids r)) requests))"

definition decode_report_of :: "nat \<Rightarrow> decode_request list \<Rightarrow> decode_loop \<Rightarrow> decode_report" where
  "decode_report_of max_batch requests st =
     (let outs = map_of (rev (map (\<lambda>r. (request_id r, generated (the (states st (request_id r))))) requests));
          expected = expected_outputs requests in
      \<lparr>verification_passed = (outs = expected \<and> length (completed st) = length requests),
       request_count = length requests, rep_max_batch_size = max_batch, rep_timeline = timeline st,
       outputs_by_request = outs, expected_by_request = expected, completed_request_ids = completed st\<rparr>)"

text \<open>
  \<^verbatim>\<open>LiveContinuousDecodeLoop(max_batch_size).run(requests, step_batch)\<close>. The constructor converts the
  batch size with \<^verbatim>\<open>int\<close>.
\<close>

definition live_run ::
  "int \<Rightarrow> 's batch_step \<Rightarrow> decode_request list \<Rightarrow> 's \<Rightarrow> (decode_report result \<times> 's) option" where
  "live_run max_batch_size step_batch requests s =
     (if max_batch_size < 1 then Some (Inl ValueError, s)
      else case validate_requests {} requests of
        Inl e \<Rightarrow> Some (Inl e, s)
      | Inr _ \<Rightarrow>
          map_option (map_prod (map_sum id (decode_report_of (nat max_batch_size) requests)) id)
            (live_loop (nat max_batch_size) step_batch (initial_loop requests) s))"

section \<open>The simulation\<close>

text \<open>
  The simulation reads and advances the state of one request after the other and takes the next
  token from the request's own target.
\<close>

fun sim_rows ::
  "string list \<Rightarrow> int \<Rightarrow> row_results \<Rightarrow> (decode_row list \<times> row_results) result" where
  "sim_rows [] t acc = Inr ([], acc)"
| "sim_rows (i # ids) t acc =
     (case r_states acc i of
        None \<Rightarrow> Inl KeyError
      | Some rs \<Rightarrow>
          (case input_token rs of
             Inl e \<Rightarrow> Inl e
           | Inr x \<Rightarrow>
               let p = position rs; tgt = target_token_ids (request rs) in
               if length tgt \<le> p then Inl IndexError
               else
                 let acc1 = acc\<lparr>r_tokens := r_tokens acc @ [tgt ! p],
                                r_states := (r_states acc)(i \<mapsto> rs\<lparr>generated := generated rs @ [tgt ! p],
                                                                  position := p + 1\<rparr>)\<rparr>;
                     acc2 = (if length tgt \<le> p + 1
                             then acc1\<lparr>r_finished := r_finished acc1 @ [i], r_completed := r_completed acc1 @ [i]\<rparr>
                             else acc1\<lparr>r_requeue := r_requeue acc1 @ [i]\<rparr>)
                 in case sim_rows ids t acc2 of
                      Inl e \<Rightarrow> Inl e
                    | Inr (rows, acc3) \<Rightarrow>
                        Inr (\<lparr>row_request_id = i, row_tick = t, row_position = p,
                              row_input_token_id = x\<rparr> # rows, acc3)))"

definition sim_tick :: "nat \<Rightarrow> decode_loop \<Rightarrow> (bool \<times> decode_loop) result" where
  "sim_tick max_batch st0 =
     (let st = admit (pending st0) st0 in
      if active st = [] then
        if pending st = [] then Inr (False, st)
        else Inr (True, st\<lparr>tick := max (tick st + 1) (arrival_tick (hd (pending st)))\<rparr>)
      else case take_batch max_batch (active st) (active_set st) of
        Inl e \<Rightarrow> Inl e
      | Inr (ids, act, aset) \<Rightarrow>
          (case sim_rows ids (tick st) (start_results st) of
             Inl e \<Rightarrow> Inl e
           | Inr (rows, acc) \<Rightarrow> Inr (True, finish_tick st act aset rows acc)))"

partial_function (option) sim_loop :: "nat \<Rightarrow> decode_loop \<Rightarrow> decode_loop result option" where
  "sim_loop max_batch st =
     (if pending st = [] \<and> active st = [] then Some (Inr st)
      else case sim_tick max_batch st of
        Inl e \<Rightarrow> Some (Inl e)
      | Inr (again, st') \<Rightarrow> if again then sim_loop max_batch st' else Some (Inr st'))"

record sim_report =
  base_report :: decode_report
  total_decode_batches :: nat
  serial_decode_batches :: nat
  average_batch_fill :: rat

definition simulate_continuous_decode :: "decode_request list \<Rightarrow> int \<Rightarrow> sim_report result option" where
  "simulate_continuous_decode requests max_batch_size =
     (if max_batch_size < 1 then Some (Inl ValueError)
      else case validate_requests {} requests of
        Inl e \<Rightarrow> Some (Inl e)
      | Inr _ \<Rightarrow>
          map_option (map_sum id (\<lambda>st.
            let batches = length (timeline st);
                used = sum_list (map (\<lambda>e. length (t_request_ids e)) (timeline st)) in
            \<lparr>base_report = decode_report_of (nat max_batch_size) requests st,
             total_decode_batches = batches,
             serial_decode_batches = sum_list (map (\<lambda>r. length (target_token_ids r)) requests),
             average_batch_fill = (if batches = 0 then 0 else of_nat used / of_nat (batches * nat max_batch_size))\<rparr>))
            (sim_loop (nat max_batch_size) (initial_loop requests)))"

text \<open>\<^verbatim>\<open>_example_requests\<close>: one request and another that arrives a tick later.\<close>

definition example_requests :: "string \<Rightarrow> decode_request list result" where
  "example_requests name =
     (if name = ''staggered'' then
        Inr [\<lparr>request_id = ''req-a'', input_token_ids = [101], target_token_ids = [10, 11, 12], arrival_tick = 0\<rparr>,
             \<lparr>request_id = ''req-b'', input_token_ids = [201, 202], target_token_ids = [20, 21], arrival_tick = 1\<rparr>]
      else Inl ValueError)"

text \<open>\<^verbatim>\<open>build_padded_batch\<close>: rows padded on the right to the longest, with masks and lengths.\<close>

record padded_batch =
  input_ids :: "int list list"
  attention_mask :: "int list list"
  sequence_lengths :: "nat list"

definition build_padded_batch :: "int list list \<Rightarrow> int \<Rightarrow> padded_batch" where
  "build_padded_batch sequences pad_token_id =
     (if sequences = [] then \<lparr>input_ids = [], attention_mask = [], sequence_lengths = []\<rparr>
      else
        let max_len = Max (set (map length sequences)) in
        \<lparr>input_ids = map (\<lambda>q. q @ replicate (max_len - length q) pad_token_id) sequences,
         attention_mask = map (\<lambda>q. replicate (length q) 1 @ replicate (max_len - length q) 0) sequences,
         sequence_lengths = map length sequences\<rparr>)"

record tick_batch =
  b_tick :: int
  b_request_ids :: "string list"
  b_positions :: "nat list"
  b_input_batch :: padded_batch
  b_expected_output_token_ids :: "int list"
  b_finished_request_ids :: "string list"

definition live_loop_adapter_plan :: "decode_request list \<Rightarrow> int \<Rightarrow> bool \<Rightarrow> int \<Rightarrow> tick_batch list result option" where
  "live_loop_adapter_plan requests max_batch_size opt_in pad =
     map_option (map_sum id (\<lambda>rep.
       if opt_in
       then map (\<lambda>e. \<lparr>b_tick = t_tick e, b_request_ids = t_request_ids e, b_positions = t_positions e,
                      b_input_batch = build_padded_batch (map (\<lambda>x. [x]) (t_input_token_ids e)) pad,
                      b_expected_output_token_ids = t_output_token_ids e,
                      b_finished_request_ids = t_finished_request_ids e\<rparr>) (rep_timeline (base_report rep))
       else []))
       (simulate_continuous_decode requests max_batch_size)"


section \<open>What the parts of a tick compute\<close>

lemma validate_requests_iff:
  "validate_requests seen rs = Inr u \<longleftrightarrow>
   distinct (map request_id rs) \<and> seen \<inter> request_id ` set rs = {}"
  by (induction rs arbitrary: seen) auto

lemma admit_eq:
  "admit rs st =
     (let due = takeWhile (\<lambda>r. arrival_tick r \<le> tick st) rs;
          joining = map request_id (filter (\<lambda>r. target_token_ids r \<noteq> []) due) in
      st\<lparr>pending := dropWhile (\<lambda>r. arrival_tick r \<le> tick st) rs,
         active := active st @ joining, active_set := active_set st \<union> set joining,
         completed := completed st @ map request_id (filter (\<lambda>r. target_token_ids r = []) due)\<rparr>)"
  by (induction rs st rule: admit.induct) (simp_all add: Let_def del: set_map set_filter)

lemma take_batch_queue:
  "distinct act \<Longrightarrow> take_batch n act (set act) = Inr (take n act, drop n act, set (drop n act))"
proof (induction n act "set act" rule: take_batch.induct)
  case (3 n i act)
  have "set (i # act) - {i} = set act" using 3(2) by auto
  then show ?case using 3 by simp
qed simp_all

definition row_of :: "(string \<rightharpoonup> request_state) \<Rightarrow> int \<Rightarrow> string \<Rightarrow> decode_row" where
  "row_of sts t i =
     (let rs = the (sts i) in
      \<lparr>row_request_id = i, row_tick = t, row_position = position rs,
       row_input_token_id = last (if position rs = 0 then input_token_ids (request rs) else generated rs)\<rparr>)"

lemma row_of_sel [simp]:
  "row_request_id (row_of sts t i) = i" "row_position (row_of sts t i) = position (the (sts i))"
  "row_tick (row_of sts t i) = t"
  by (simp_all add: row_of_def Let_def)

lemma build_rows_Inr:
  "build_rows sts t ids = Inr rows \<Longrightarrow> (\<forall>i \<in> set ids. sts i \<noteq> None) \<and> rows = map (row_of sts t) ids"
  by (induction ids arbitrary: rows)
     (auto simp: input_token_def row_of_def Let_def split: option.splits sum.splits if_splits)

definition advance_request :: "int \<Rightarrow> request_state \<Rightarrow> request_state" where
  "advance_request x rs = rs\<lparr>generated := generated rs @ [x], position := position rs + 1\<rparr>"

definition at_end :: "request_state \<Rightarrow> bool" where
  "at_end rs \<longleftrightarrow> length (target_token_ids (request rs)) \<le> position rs + 1"

lemma advance_request_sel [simp]:
  "request (advance_request x rs) = request rs" "position (advance_request x rs) = Suc (position rs)"
  "generated (advance_request x rs) = generated rs @ [x]"
  by (simp_all add: advance_request_def)

lemma apply_rows_Inr:
  assumes "apply_rows outs rows acc = Inr acc'" and "rows = map (row_of sts t) ids"
    and "distinct ids" and "\<forall>i \<in> set ids. r_states acc i = sts i"
  shows "(\<forall>i \<in> set ids. sts i \<noteq> None \<and> outs i \<noteq> None) \<and>
    acc' = acc\<lparr>r_states := (\<lambda>i. if i \<in> set ids then Some (advance_request (the (outs i)) (the (sts i))) else r_states acc i),
               r_tokens := r_tokens acc @ map (\<lambda>i. the (outs i)) ids,
               r_finished := r_finished acc @ filter (\<lambda>i. at_end (the (sts i))) ids,
               r_completed := r_completed acc @ filter (\<lambda>i. at_end (the (sts i))) ids,
               r_requeue := r_requeue acc @ filter (\<lambda>i. \<not> at_end (the (sts i))) ids\<rparr>"
  using assms
proof (induction ids arbitrary: rows acc)
  case (Cons i ids)
  obtain acc1 where one: "apply_row outs (row_of sts t i) acc = Inr acc1"
    and rest: "apply_rows outs (map (row_of sts t) ids) acc1 = Inr acc'"
    using Cons.prems(1,2) by (auto split: sum.splits)
  have si: "r_states acc i = sts i" using Cons.prems(4) by simp
  then obtain rs x where rs: "sts i = Some rs" and x: "outs i = Some x"
    using one by (auto simp: apply_row_def Let_def split: option.splits)
  have acc1: "acc1 = acc\<lparr>r_states := (r_states acc)(i \<mapsto> advance_request x rs), r_tokens := r_tokens acc @ [x],
      r_finished := r_finished acc @ (if at_end rs then [i] else []),
      r_completed := r_completed acc @ (if at_end rs then [i] else []),
      r_requeue := r_requeue acc @ (if at_end rs then [] else [i])\<rparr>"
    using one rs x si by (auto simp: apply_row_def Let_def advance_request_def at_end_def split: if_splits)
  have "\<forall>j \<in> set ids. r_states acc1 j = sts j" using Cons.prems(3,4) acc1 by auto
  from Cons.IH [OF rest refl _ this] Cons.prems(3)
  show ?case using rs x by (auto simp: acc1 fun_eq_iff)
qed auto

lemma requeue_all_queue:
  "distinct ids \<Longrightarrow> set ids \<inter> set act = {} \<Longrightarrow>
   requeue_all ids act (set act) = (act @ ids, set (act @ ids))"
proof (induction ids arbitrary: act)
  case (Cons i ids)
  then have "requeue_all ids (act @ [i]) (set (act @ [i])) = (act @ i # ids, set (act @ i # ids))"
    by (subst Cons.IH) auto
  then show ?case using Cons.prems by simp
qed simp

section \<open>The invariant of the loop\<close>

text \<open>
  \<open>history i es\<close> deinterleaves the timeline: the positions, input and output tokens of request \<open>i\<close> in
  the order of the ticks. \<open>served rs\<close> is what autoregressive decoding of the generated tokens looks
  like: position \<open>k\<close> is fed the last input token or the previous output.
\<close>

definition entry_rows :: "timeline_row \<Rightarrow> (string \<times> nat \<times> int \<times> int) list" where
  "entry_rows e = zip (t_request_ids e) (zip (t_positions e) (zip (t_input_token_ids e) (t_output_token_ids e)))"

definition history :: "string \<Rightarrow> timeline_row list \<Rightarrow> (nat \<times> int \<times> int) list" where
  "history i es = map snd (filter (\<lambda>x. fst x = i) (concat (map entry_rows es)))"

definition served :: "decode_request \<Rightarrow> int list \<Rightarrow> (nat \<times> int \<times> int) list" where
  "served r out = map (\<lambda>k. (k, (if k = 0 then last (input_token_ids r) else out ! (k - 1)), out ! k)) [0..<length out]"

lemma served_snoc:
  "served r (g @ [x]) = served r g @ [(length g, (if g = [] then last (input_token_ids r) else last g), x)]"
  by (auto simp: served_def nth_append last_conv_nth)

lemma history_snoc: "history i (es @ [e]) = history i es @ map snd (filter (\<lambda>x. fst x = i) (entry_rows e))"
  by (simp add: history_def)

lemma filter_fst_distinct:
  "distinct xs \<Longrightarrow> filter (\<lambda>x. fst x = i) (map (\<lambda>j. (j, f j)) xs) = (if i \<in> set xs then [(i, f i)] else [])"
  by (induction xs) auto

definition timeline_ok :: "decode_request list \<Rightarrow> nat \<Rightarrow> timeline_row list \<Rightarrow> int \<Rightarrow> bool" where
  "timeline_ok reqs mb es now \<longleftrightarrow>
     sorted_wrt (<) (map t_tick es) \<and>
     (\<forall>e \<in> set es. t_tick e < now \<and> t_request_ids e \<noteq> [] \<and> length (t_request_ids e) \<le> mb \<and>
        distinct (t_request_ids e) \<and> map fst (entry_rows e) = t_request_ids e \<and>
        (\<forall>r \<in> set reqs. request_id r \<in> set (t_request_ids e) \<longrightarrow> arrival_tick r \<le> t_tick e))"

definition request_ok :: "decode_loop \<Rightarrow> decode_request \<Rightarrow> bool" where
  "request_ok st r \<longleftrightarrow>
     (\<exists>rs. states st (request_id r) = Some rs \<and> request rs = r \<and> position rs = length (generated rs) \<and>
        history (request_id r) (timeline st) = served r (generated rs) \<and>
        (request_id r \<in> set (active st) \<longrightarrow>
           length (generated rs) < length (target_token_ids r) \<and> arrival_tick r \<le> tick st) \<and>
        (request_id r \<in> set (completed st) \<longrightarrow> length (generated rs) = length (target_token_ids r)) \<and>
        (r \<in> set (pending st) \<longrightarrow> generated rs = []))"

definition loop_ok :: "decode_request list \<Rightarrow> nat \<Rightarrow> decode_loop \<Rightarrow> bool" where
  "loop_ok reqs mb st \<longleftrightarrow>
     mset (map request_id (pending st)) + mset (active st) + mset (completed st) = mset (map request_id reqs) \<and>
     set (pending st) \<subseteq> set reqs \<and> active_set st = set (active st) \<and>
     (\<forall>r \<in> set reqs. request_ok st r) \<and> timeline_ok reqs mb (timeline st) (tick st)"

lemma loop_ok_distinct:
  assumes "loop_ok reqs mb st" and "distinct (map request_id reqs)"
  shows "distinct (map request_id (pending st) @ active st @ completed st)"
  using assms unfolding loop_ok_def
  by (metis (no_types, lifting) mset_append mset_eq_imp_distinct_iff add.assoc)

lemma loop_ok_active:
  assumes "loop_ok reqs mb st" and "i \<in> set (active st)"
  shows "\<exists>r \<in> set reqs. request_id r = i"
proof -
  have "i \<in># mset (map request_id reqs)" using assms by (metis in_multiset_in_set loop_ok_def union_iff)
  then show ?thesis by auto
qed

lemma loop_ok_initial:
  assumes "distinct (map request_id reqs)"
  shows "loop_ok reqs mb (initial_loop reqs)"
proof -
  have st: "states (initial_loop reqs) (request_id r) = Some \<lparr>request = r, position = 0, generated = []\<rparr>"
    if "r \<in> set reqs" for r
    unfolding initial_loop_def Let_def
    using that assms by (auto intro!: map_of_is_SomeI simp: comp_def simp flip: rev_map)
  have "mset (map request_id (sort_key arrival_tick reqs)) = mset (map request_id reqs)" by simp
  then show ?thesis
    using st by (auto simp: loop_ok_def request_ok_def timeline_ok_def history_def served_def)
      (auto simp: initial_loop_def Let_def)
qed

lemma loop_ok_admit:
  assumes ok: "loop_ok reqs mb st" and dist: "distinct (map request_id reqs)"
  shows "loop_ok reqs mb (admit (pending st) st)"
proof -
  let ?P = "\<lambda>r. arrival_tick r \<le> tick st"
  define due where "due = takeWhile ?P (pending st)"
  define left where "left = dropWhile ?P (pending st)"
  have split: "pending st = due @ left" by (simp add: due_def left_def)
  have due_P: "r \<in> set due \<Longrightarrow> ?P r" for r by (auto simp: due_def dest: set_takeWhileD)
  let ?st = "admit (pending st) st"
  have fields: "pending ?st = left" "active ?st = active st @ map request_id (filter (\<lambda>r. target_token_ids r \<noteq> []) due)"
    "active_set ?st = active_set st \<union> set (map request_id (filter (\<lambda>r. target_token_ids r \<noteq> []) due))"
    "completed ?st = completed st @ map request_id (filter (\<lambda>r. target_token_ids r = []) due)"
    "states ?st = states st" "timeline ?st = timeline st" "tick ?st = tick st"
    by (simp_all add: admit_eq Let_def due_def left_def)
  have parts: "mset (map request_id (filter (\<lambda>r. target_token_ids r \<noteq> []) due))
      + mset (map request_id (filter (\<lambda>r. target_token_ids r = []) due)) = mset (map request_id due)"
    by (induction due) auto
  have m: "mset (map request_id left) + mset (active ?st) + mset (completed ?st) = mset (map request_id reqs)"
  proof -
    have "mset (map request_id left) + mset (map request_id due) + mset (active st) + mset (completed st)
        = mset (map request_id reqs)"
      using ok by (simp add: loop_ok_def split ac_simps)
    then show ?thesis unfolding fields parts [symmetric] mset_append by (simp only: ac_simps)
  qed
  have in_due: "r \<in> set due" if "r \<in> set reqs" "q \<in> set due" "request_id q = request_id r" for r q
  proof -
    have "q \<in> set reqs" using ok that(2) split by (auto simp: loop_ok_def)
    then have "q = r" using dist that by (metis distinct_map inj_onD)
    then show ?thesis using that by simp
  qed
  have "request_ok ?st r" if r: "r \<in> set reqs" for r
  proof -
    obtain rs where rs: "states st (request_id r) = Some rs" "request rs = r" "position rs = length (generated rs)"
      "history (request_id r) (timeline st) = served r (generated rs)"
      "request_id r \<in> set (active st) \<Longrightarrow> length (generated rs) < length (target_token_ids r) \<and> arrival_tick r \<le> tick st"
      "request_id r \<in> set (completed st) \<Longrightarrow> length (generated rs) = length (target_token_ids r)"
      "r \<in> set (pending st) \<Longrightarrow> generated rs = []"
      using ok r unfolding loop_ok_def request_ok_def by blast
    have due_r: "generated rs = [] \<and> ?P r \<and> q = r" if "q \<in> set due" "request_id q = request_id r" for q
      using rs(7) in_due [OF r that] due_P split dist that ok r
      by (auto simp: distinct_map inj_on_def loop_ok_def)
    show ?thesis
      unfolding request_ok_def fields
      using rs due_r split by (intro exI [of _ rs]) fastforce
  qed
  then show ?thesis using ok m fields split by (auto simp: loop_ok_def)
qed


section \<open>A tick keeps the invariant and makes progress\<close>

definition undecoded :: "decode_request list \<Rightarrow> decode_loop \<Rightarrow> nat" where
  "undecoded reqs st =
     sum_list (map (\<lambda>r. length (target_token_ids r) - length (generated (the (states st (request_id r))))) reqs)"

definition loop_measure :: "decode_request list \<Rightarrow> decode_loop \<Rightarrow> nat" where
  "loop_measure reqs st =
     2 * (undecoded reqs st + length (pending st)) +
     (if pending st \<noteq> [] \<and> tick st < arrival_tick (hd (pending st)) then 1 else 0)"

text \<open>The state a tick with batch \<open>ids\<close> and output tokens \<open>outs\<close> leaves.\<close>

definition ticked :: "decode_loop \<Rightarrow> nat \<Rightarrow> (string \<rightharpoonup> int) \<Rightarrow> decode_loop" where
  "ticked st mb outs =
     (let ids = take mb (active st); fin = (\<lambda>i. at_end (the (states st i)));
          rows = map (row_of (states st) (tick st)) ids;
          act = drop mb (active st) @ filter (\<lambda>i. \<not> fin i) ids in
      st\<lparr>active := act, active_set := set act,
         states := (\<lambda>i. if i \<in> set ids then Some (advance_request (the (outs i)) (the (states st i))) else states st i),
         completed := completed st @ filter fin ids,
         timeline := timeline st @
           [\<lparr>t_tick = tick st, t_request_ids = ids, t_positions = map row_position rows,
             t_input_token_ids = map row_input_token_id rows, t_output_token_ids = map (\<lambda>i. the (outs i)) ids,
             t_finished_request_ids = filter fin ids\<rparr>],
         tick := tick st + 1\<rparr>)"

lemma finish_tick_eq:
  assumes "distinct (active st)" and "ids = take mb (active st)"
    and "apply_rows outs (map (row_of (states st) (tick st)) ids) (start_results st) = Inr acc"
  shows "finish_tick st (drop mb (active st)) (set (drop mb (active st))) (map (row_of (states st) (tick st)) ids) acc
         = ticked st mb outs"
proof -
  have d: "distinct ids" using assms by simp
  have "set ids \<inter> set (drop mb (active st)) = {}"
    using assms(1,2) set_take_disj_set_drop_if_distinct [of "active st" mb mb] by simp
  then have rq: "requeue_all (filter P ids) (drop mb (active st)) (set (drop mb (active st)))
      = (drop mb (active st) @ filter P ids, set (drop mb (active st) @ filter P ids))" for P
    using d by (intro requeue_all_queue) auto
  have acc: "acc = start_results st\<lparr>
      r_states := (\<lambda>i. if i \<in> set ids then Some (advance_request (the (outs i)) (the (states st i))) else states st i),
      r_tokens := map (\<lambda>i. the (outs i)) ids, r_finished := filter (\<lambda>i. at_end (the (states st i))) ids,
      r_completed := completed st @ filter (\<lambda>i. at_end (the (states st i))) ids,
      r_requeue := filter (\<lambda>i. \<not> at_end (the (states st i))) ids\<rparr>"
    using apply_rows_Inr [OF assms(3) refl d] by (simp add: start_results_def cong: if_cong)
  show ?thesis
    unfolding finish_tick_def acc assms(2)
    by (simp add: rq [unfolded assms(2)] ticked_def Let_def comp_def)
qed

lemma ticked_sel [simp]:
  "pending (ticked st mb outs) = pending st" "tick (ticked st mb outs) = tick st + 1"
  "active (ticked st mb outs) =
     drop mb (active st) @ filter (\<lambda>i. \<not> at_end (the (states st i))) (take mb (active st))"
  "active_set (ticked st mb outs) = set (active (ticked st mb outs))"
  "completed (ticked st mb outs) =
     completed st @ filter (\<lambda>i. at_end (the (states st i))) (take mb (active st))"
  "states (ticked st mb outs) i =
     (if i \<in> set (take mb (active st)) then Some (advance_request (the (outs i)) (the (states st i))) else states st i)"
  by (simp_all add: ticked_def Let_def)

lemma ticked_history:
  assumes "distinct (active st)"
  shows "history i (timeline (ticked st mb outs)) = history i (timeline st) @
    (if i \<in> set (take mb (active st))
     then [(position (the (states st i)), row_input_token_id (row_of (states st) (tick st) i), the (outs i))] else [])"
proof -
  have "zip xs (zip (map f xs) (zip (map g xs) (map h xs))) = map (\<lambda>i. (i, f i, g i, h i)) xs"
    for xs :: "string list" and f :: "string \<Rightarrow> nat" and g h :: "string \<Rightarrow> int"
    by (induction xs) auto
  then show ?thesis
    using assms by (simp add: ticked_def Let_def history_snoc entry_rows_def comp_def filter_fst_distinct)
qed

lemma request_ok_ticked:
  assumes ok: "loop_ok reqs mb st" and dist: "distinct (map request_id reqs)" and r: "r \<in> set reqs"
  shows "request_ok (ticked st mb outs) r"
proof -
  let ?i = "request_id r"
  obtain rs where rs: "states st ?i = Some rs" "request rs = r" "position rs = length (generated rs)"
      "history ?i (timeline st) = served r (generated rs)"
      "?i \<in> set (active st) \<Longrightarrow> length (generated rs) < length (target_token_ids r) \<and> arrival_tick r \<le> tick st"
      "?i \<in> set (completed st) \<Longrightarrow> length (generated rs) = length (target_token_ids r)"
      "r \<in> set (pending st) \<Longrightarrow> generated rs = []"
    using ok r unfolding loop_ok_def request_ok_def by blast
  have d: "distinct (map request_id (pending st) @ active st @ completed st)"
    using loop_ok_distinct [OF ok dist] .
  show ?thesis
  proof (cases "?i \<in> set (take mb (active st))")
    case True
    then have act: "?i \<in> set (active st)" by (meson in_set_takeD)
    have out: "?i \<notin> set (drop mb (active st))" "?i \<notin> set (completed st)" "r \<notin> set (pending st)"
      using d act True set_take_disj_set_drop_if_distinct [of "active st" mb mb] by auto
    have "history ?i (timeline (ticked st mb outs)) = served r (generated rs @ [the (outs ?i)])"
      using True d rs(1-4) by (simp add: ticked_history served_snoc row_of_def Let_def)
    then show ?thesis
      unfolding request_ok_def
      using True rs act out by (intro exI [of _ "advance_request (the (outs ?i)) rs"]) (auto simp: at_end_def)
  next
    case False
    then show ?thesis
      unfolding request_ok_def
      using rs d by (intro exI [of _ rs]) (auto simp: ticked_history dest: in_set_dropD)
  qed
qed

lemma timeline_ok_ticked:
  assumes ok: "loop_ok reqs mb st" and dist: "distinct (map request_id reqs)" and ne: "active st \<noteq> []" "0 < mb"
  shows "timeline_ok reqs mb (timeline (ticked st mb outs)) (tick (ticked st mb outs))"
proof -
  have "distinct (active st)" using loop_ok_distinct [OF ok dist] by simp
  moreover have "arrival_tick r \<le> tick st" if "r \<in> set reqs" "request_id r \<in> set (take mb (active st))" for r
    using ok that unfolding loop_ok_def request_ok_def by (metis in_set_takeD)
  ultimately show ?thesis
    using ok ne unfolding loop_ok_def timeline_ok_def
    by (auto simp: ticked_def Let_def sorted_wrt_append entry_rows_def)
qed

lemma loop_ok_ticked:
  assumes ok: "loop_ok reqs mb st" and dist: "distinct (map request_id reqs)" and ne: "active st \<noteq> []" "0 < mb"
  shows "loop_ok reqs mb (ticked st mb outs)"
proof -
  have "mset (active (ticked st mb outs)) + mset (completed (ticked st mb outs)) = mset (active st) + mset (completed st)"
    (is "?L = _")
  proof -
    have f: "mset (filter (\<lambda>i. \<not> P i) xs) + mset (filter P xs) = mset xs" for P and xs :: "string list"
      by (induction xs) auto
    have "?L = mset (drop mb (active st)) + (mset (filter (\<lambda>i. \<not> at_end (the (states st i))) (take mb (active st)))
        + mset (filter (\<lambda>i. at_end (the (states st i))) (take mb (active st)))) + mset (completed st)"
      by (simp add: ac_simps)
    also have "\<dots> = mset (take mb (active st) @ drop mb (active st)) + mset (completed st)"
      unfolding f mset_append by (simp only: ac_simps)
    finally show ?thesis by simp
  qed
  then show ?thesis
    using ok request_ok_ticked [OF ok dist] timeline_ok_ticked [OF assms]
    unfolding loop_ok_def by (simp add: add.assoc del: ticked_sel(3,5))
qed

lemma undecoded_ticked:
  assumes ok: "loop_ok reqs mb st" and dist: "distinct (map request_id reqs)" and ne: "active st \<noteq> []" "0 < mb"
  shows "undecoded reqs (ticked st mb outs) < undecoded reqs st"
proof -
  obtain i act where act: "active st = i # act" using ne by (cases "active st") auto
  then obtain q where q: "q \<in> set reqs" "request_id q = i" using loop_ok_active [OF ok, of i] by auto
  have st: "\<exists>rs. states st (request_id r) = Some rs \<and>
      (request_id r \<in> set (active st) \<longrightarrow> length (generated rs) < length (target_token_ids r))" if "r \<in> set reqs" for r
    using ok that unfolding loop_ok_def request_ok_def by blast
  let ?f = "\<lambda>s r. length (target_token_ids r) - length (generated (the (states s (request_id r))))"
  have le: "?f (ticked st mb outs) r \<le> ?f st r" for r by (simp add: diff_le_mono2)
  have less: "?f (ticked st mb outs) q < ?f st q"
    using st [OF q(1)] q act ne(2) by (cases mb) auto
  have "distinct reqs" using dist by (simp add: distinct_map)
  then have "undecoded reqs s = (\<Sum>r\<in>set reqs. ?f s r)" for s
    by (simp add: undecoded_def sum_list_distinct_conv_sum_set)
  then show ?thesis using le less q(1) by (auto intro: sum_strict_mono_ex1)
qed

lemma live_tick_cases:
  assumes "live_tick mb step_batch st0 s = (Inr (again, st'), s')" and "loop_ok reqs mb st0"
    and "distinct (map request_id reqs)" and "st = admit (pending st0) st0"
  obtains (stop) "\<not> again" "st' = st" "active st = []" "pending st = []" "s' = s"
  | (idle) "again" "active st = []" "pending st \<noteq> []" "s' = s"
      "st' = st\<lparr>tick := max (tick st + 1) (arrival_tick (hd (pending st)))\<rparr>"
  | (batch) rows outputs outs where "again" "active st \<noteq> []" "st' = ticked st mb outs"
      "rows = map (row_of (states st) (tick st)) (take mb (active st))"
      "step_batch s rows = (Inr outputs, s')" "normalize_outputs rows outputs = Inr outs"
proof -
  note ok = loop_ok_admit [OF assms(2,3), folded assms(4)]
  have d: "distinct (active st)" using loop_ok_distinct [OF ok assms(3)] by simp
  have tb: "take_batch mb (active st) (active_set st)
      = Inr (take mb (active st), drop mb (active st), set (drop mb (active st)))"
    using take_batch_queue [OF d] ok by (simp add: loop_ok_def)
  show thesis
  proof (cases "active st = []")
    case True
    then show thesis using stop idle assms(1,4) by (auto simp: live_tick_def Let_def split: if_splits)
  next
    case False
    then obtain rows outputs outs acc where *: "build_rows (states st) (tick st) (take mb (active st)) = Inr rows"
      "step_batch s rows = (Inr outputs, s')" "normalize_outputs rows outputs = Inr outs"
      "apply_rows outs rows (start_results st) = Inr acc"
      "again" "st' = finish_tick st (drop mb (active st)) (set (drop mb (active st))) rows acc"
      using assms(1,4) tb by (auto simp: live_tick_def Let_def split: if_splits sum.splits prod.splits)
    have rows: "rows = map (row_of (states st) (tick st)) (take mb (active st))" using build_rows_Inr [OF *(1)] by simp
    have "st' = ticked st mb outs" using finish_tick_eq [OF d refl] * rows by blast
    then show thesis using batch False * rows by blast
  qed
qed

lemma admit_measure:
  assumes "st = admit (pending st0) st0"
  shows "undecoded reqs st = undecoded reqs st0" and "length (pending st) \<le> length (pending st0)"
    and "pending st \<noteq> [] \<Longrightarrow> tick st < arrival_tick (hd (pending st))"
    and "length (pending st) = length (pending st0) \<Longrightarrow> pending st = pending st0 \<and> active st = active st0"
    and "tick st = tick st0"
proof -
  show "undecoded reqs st = undecoded reqs st0" "tick st = tick st0"
    using assms by (simp_all add: undecoded_def admit_eq Let_def)
  show "length (pending st) \<le> length (pending st0)"
    using assms by (simp add: admit_eq Let_def length_dropWhile_le)
  show "pending st \<noteq> [] \<Longrightarrow> tick st < arrival_tick (hd (pending st))"
    using assms hd_dropWhile [of "\<lambda>r. arrival_tick r \<le> tick st0" "pending st0"] by (simp add: admit_eq Let_def)
  let ?P = "\<lambda>r. arrival_tick r \<le> tick st0"
  assume "length (pending st) = length (pending st0)"
  then have "length (dropWhile ?P (pending st0)) = length (pending st0)"
    using assms by (simp add: admit_eq Let_def)
  moreover have "length (takeWhile ?P (pending st0)) + length (dropWhile ?P (pending st0)) = length (pending st0)"
    by (metis length_append takeWhile_dropWhile_id)
  ultimately have "takeWhile ?P (pending st0) = []" by simp
  moreover have "dropWhile (\<lambda>r. arrival_tick r \<le> tick st0) (pending st0) = pending st0"
    using calculation by (metis append_Nil takeWhile_dropWhile_id)
  ultimately show "pending st = pending st0 \<and> active st = active st0" using assms by (simp add: admit_eq Let_def)
qed

lemma live_tick_progress:
  assumes tck: "live_tick mb step_batch st0 s = (Inr (again, st'), s')" and ok: "loop_ok reqs mb st0"
    and dist: "distinct (map request_id reqs)" and mb: "0 < mb"
  shows "loop_ok reqs mb st'" and "again \<Longrightarrow> loop_measure reqs st' < loop_measure reqs st0"
    and "\<not> again \<Longrightarrow> pending st' = [] \<and> active st' = []"
proof -
  define st where "st = admit (pending st0) st0"
  note ok1 = loop_ok_admit [OF ok dist, folded st_def]
  note m = admit_measure [OF st_def]
  have "loop_ok reqs mb st' \<and> (again \<longrightarrow> loop_measure reqs st' < loop_measure reqs st0) \<and>
    (\<not> again \<longrightarrow> pending st' = [] \<and> active st' = [])"
    using tck ok dist st_def
  proof (cases rule: live_tick_cases)
    case stop
    then show ?thesis using ok1 by simp
  next
    case idle
    have late: "loop_ok reqs mb (st\<lparr>tick := t\<rparr>)" if "tick st \<le> t" for t
      using ok1 that by (fastforce simp: loop_ok_def request_ok_def timeline_ok_def)
    have "undecoded reqs st' = undecoded reqs st0" using m(1) idle(5) by (simp add: undecoded_def)
    moreover have "\<not> tick st' < arrival_tick (hd (pending st'))" using idle by simp
    moreover have "length (pending st) < length (pending st0) \<or>
        (pending st = pending st0 \<and> tick st0 < arrival_tick (hd (pending st0)))"
      using m(2-5) idle(3) by (cases "length (pending st) = length (pending st0)") auto
    ultimately have "loop_measure reqs st' < loop_measure reqs st0"
      using idle by (auto simp: loop_measure_def)
    then show ?thesis using late idle by simp
  next
    case (batch rows outputs outs)
    then show ?thesis
      using loop_ok_ticked [OF ok1 dist _ mb] undecoded_ticked [OF ok1 dist _ mb, of outs] m(1,2)
      by (auto simp: loop_measure_def)
  qed
  then show "loop_ok reqs mb st'" "again \<Longrightarrow> loop_measure reqs st' < loop_measure reqs st0"
    "\<not> again \<Longrightarrow> pending st' = [] \<and> active st' = []" by auto
qed

text \<open>
  The loop ends, and whatever the ticks keep beside the invariant holds at the end of a loop that
  does not raise.
\<close>

lemma live_loop_rule:
  assumes "loop_ok reqs mb st" and "I st" and "distinct (map request_id reqs)" and "0 < mb"
    and keep: "\<And>st s again st' s'. loop_ok reqs mb st \<Longrightarrow> I st \<Longrightarrow>
      live_tick mb step_batch st s = (Inr (again, st'), s') \<Longrightarrow> I st'"
  shows "\<exists>r s'. live_loop mb step_batch st s = Some (r, s') \<and>
    (\<forall>st'. r = Inr st' \<longrightarrow> loop_ok reqs mb st' \<and> I st' \<and> pending st' = [] \<and> active st' = [])"
  using assms(1,2)
proof (induction "loop_measure reqs st" arbitrary: st s rule: less_induct)
  case less
  show ?case
  proof (cases "pending st = [] \<and> active st = []")
    case True
    then show ?thesis using less.prems by (subst live_loop.simps) simp
  next
    case False
    obtain r s1 where tk: "live_tick mb step_batch st s = (r, s1)" by fastforce
    show ?thesis
    proof (cases r)
      case (Inl e)
      then show ?thesis using False tk by (subst live_loop.simps) auto
    next
      case (Inr a)
      obtain again st1 where a: "a = (again, st1)" by (cases a)
      note p = live_tick_progress [OF tk [unfolded Inr a] less.prems(1) assms(3,4)]
      have i: "I st1" using keep less.prems tk Inr a by blast
      show ?thesis
      proof (cases again)
        case True
        then show ?thesis using less.hyps [OF p(2) p(1) i, of s1] False tk Inr a by (subst live_loop.simps) auto
      next
        case False': False
        then show ?thesis using p i False tk Inr a by (subst live_loop.simps) auto
      qed
    qed
  qed
qed

lemma live_loop_final:
  assumes l: "live_loop mb step_batch st s = Some (Inr st', s')"
    and "loop_ok reqs mb st" and "I st" and "distinct (map request_id reqs)" and "0 < mb"
    and keep: "\<And>st s again st' s'. loop_ok reqs mb st \<Longrightarrow> I st \<Longrightarrow>
      live_tick mb step_batch st s = (Inr (again, st'), s') \<Longrightarrow> I st'"
  shows "loop_ok reqs mb st' \<and> I st' \<and> pending st' = [] \<and> active st' = []"
proof -
  have "\<exists>r s'. live_loop mb step_batch st s = Some (r, s') \<and>
    (\<forall>st'. r = Inr st' \<longrightarrow> loop_ok reqs mb st' \<and> I st' \<and> pending st' = [] \<and> active st' = [])"
    using assms(2-5) keep by (rule live_loop_rule)
  then show ?thesis using l by auto
qed

section \<open>Success\<close>

definition good_step :: "'s batch_step \<Rightarrow> bool" where
  "good_step step_batch \<longleftrightarrow>
     (\<forall>s rows. \<exists>outputs s' outs. step_batch s rows = (Inr outputs, s') \<and> normalize_outputs rows outputs = Inr outs)"

lemma normalize_outputs_dom:
  assumes "normalize_outputs rows outputs = Inr outs" and "row \<in> set rows"
  shows "outs (row_request_id row) \<noteq> None"
proof (cases outputs)
  case (Mapped m)
  then show ?thesis using assms by (auto simp: normalize_outputs_def split: if_splits)
next
  case (Listed xs)
  then have "length xs = length rows" "outs = map_of (rev (zip (map row_request_id rows) xs))"
    using assms by (auto simp: normalize_outputs_def split: if_splits)
  moreover have "row_request_id row \<in> fst ` set (rev (zip (map row_request_id rows) xs))"
    using assms(2) calculation(1) by (metis length_map list.set_map map_fst_zip set_map set_rev image_eqI)
  ultimately show ?thesis by (metis map_of_eq_None_iff)
qed

lemma build_rows_ok:
  "\<forall>i \<in> set ids. \<exists>rs x. sts i = Some rs \<and> input_token rs = Inr x \<Longrightarrow> \<exists>rows. build_rows sts t ids = Inr rows"
  by (induction ids) (fastforce split: option.splits sum.splits)+

lemma apply_rows_ok:
  assumes "\<forall>i \<in> set ids. r_states acc i \<noteq> None \<and> outs i \<noteq> None"
  shows "\<exists>acc'. apply_rows outs (map (row_of sts t) ids) acc = Inr acc'"
  using assms
proof (induction ids arbitrary: acc)
  case (Cons i ids)
  then have "\<exists>acc1. apply_row outs (row_of sts t i) acc = Inr acc1"
    by (auto simp: apply_row_def Let_def)
  then obtain acc1 where one: "apply_row outs (row_of sts t i) acc = Inr acc1" by blast
  then have "\<forall>j \<in> set ids. r_states acc1 j \<noteq> None \<and> outs j \<noteq> None"
    using Cons.prems by (auto simp: apply_row_def Let_def split: option.splits if_splits)
  then show ?case using Cons.IH one by simp
qed simp

lemma live_tick_ok:
  assumes ok: "loop_ok reqs mb st0" and dist: "distinct (map request_id reqs)"
    and inp: "\<forall>r \<in> set reqs. input_token_ids r \<noteq> []" and good: "good_step step_batch"
  shows "\<exists>a s'. live_tick mb step_batch st0 s = (Inr a, s')"
proof -
  define st where "st = admit (pending st0) st0"
  note ok1 = loop_ok_admit [OF ok dist, folded st_def]
  have d: "distinct (active st)" using loop_ok_distinct [OF ok1 dist] by simp
  have tb: "take_batch mb (active st) (active_set st)
      = Inr (take mb (active st), drop mb (active st), set (drop mb (active st)))"
    using take_batch_queue [OF d] ok1 by (simp add: loop_ok_def)
  have known: "\<exists>rs x. states st i = Some rs \<and> input_token rs = Inr x" if act: "i \<in> set (active st)" for i
  proof -
    obtain r where r: "r \<in> set reqs" "request_id r = i" using loop_ok_active [OF ok1 act] by blast
    then obtain rs where "states st i = Some rs" "request rs = r" "position rs = length (generated rs)"
      using ok1 unfolding loop_ok_def request_ok_def by blast
    then show ?thesis using inp r by (auto simp: input_token_def Let_def)
  qed
  then obtain rows where rows: "build_rows (states st) (tick st) (take mb (active st)) = Inr rows"
    using build_rows_ok [of "take mb (active st)" "states st" "tick st"] by (meson in_set_takeD)
  obtain outputs s' outs where o: "step_batch s rows = (Inr outputs, s')" "normalize_outputs rows outputs = Inr outs"
    using good unfolding good_step_def by blast
  note rows_eq = build_rows_Inr [OF rows]
  have "\<forall>i \<in> set (take mb (active st)). r_states (start_results st) i \<noteq> None \<and> outs i \<noteq> None"
    using rows_eq normalize_outputs_dom [OF o(2)] by (fastforce simp: start_results_def)
  then obtain acc where "apply_rows outs rows (start_results st) = Inr acc"
    using apply_rows_ok rows_eq by blast
  then show ?thesis using tb rows o by (auto simp: live_tick_def Let_def st_def [symmetric])
qed

lemma live_loop_succeeds:
  assumes "loop_ok reqs mb st" and dist: "distinct (map request_id reqs)" and mb: "0 < mb"
    and inp: "\<forall>r \<in> set reqs. input_token_ids r \<noteq> []" and good: "good_step step_batch"
  shows "\<exists>st' s'. live_loop mb step_batch st s = Some (Inr st', s')"
  using assms(1)
proof (induction "loop_measure reqs st" arbitrary: st s rule: less_induct)
  case less
  obtain again st1 s1 where tk: "live_tick mb step_batch st s = (Inr (again, st1), s1)"
    using live_tick_ok [OF less.prems dist inp good] by fastforce
  note p = live_tick_progress [OF tk less.prems dist mb]
  show ?case
  proof (cases again)
    case True
    then show ?thesis using less.hyps [OF p(2) p(1), of s1] tk by (subst live_loop.simps) auto
  next
    case False
    then show ?thesis using tk by (subst live_loop.simps) auto
  qed
qed

section \<open>Fairness\<close>

text \<open>The batches since the last one with request \<open>i\<close>, and the bound on such gaps.\<close>

definition since :: "string \<Rightarrow> timeline_row list \<Rightarrow> nat" where
  "since i es = length (takeWhile (\<lambda>e. i \<notin> set (t_request_ids e)) (rev es))"

definition fair :: "nat \<Rightarrow> nat \<Rightarrow> timeline_row list \<Rightarrow> bool" where
  "fair n mb es \<longleftrightarrow>
     (\<forall>i a b. a < b \<longrightarrow> b < length es \<longrightarrow> i \<in> set (t_request_ids (es ! a)) \<longrightarrow> i \<in> set (t_request_ids (es ! b)) \<longrightarrow>
        (\<forall>c. a < c \<longrightarrow> c < b \<longrightarrow> i \<notin> set (t_request_ids (es ! c))) \<longrightarrow> b - a - 1 \<le> (n - 1) div mb)"

definition queue_fair :: "nat \<Rightarrow> nat \<Rightarrow> decode_loop \<Rightarrow> bool" where
  "queue_fair n mb st \<longleftrightarrow>
     fair n mb (timeline st) \<and>
     (\<forall>j < length (active st). generated (the (states st (active st ! j))) \<noteq> [] \<longrightarrow>
        since (active st ! j) (timeline st) * mb + j < n)"

lemma since_snoc: "since i (es @ [e]) = (if i \<in> set (t_request_ids e) then 0 else Suc (since i es))"
  by (simp add: since_def)

lemma since_last:
  assumes "a < length es" and "i \<in> set (t_request_ids (es ! a))"
    and "\<forall>c. a < c \<longrightarrow> c < length es \<longrightarrow> i \<notin> set (t_request_ids (es ! c))"
  shows "since i es = length es - a - 1"
  using assms
proof (induction es rule: rev_induct)
  case (snoc e es)
  show ?case
  proof (cases "a = length es")
    case True
    then show ?thesis using snoc.prems by (simp add: since_snoc)
  next
    case False
    then have a: "a < length es" using snoc.prems by simp
    have "i \<notin> set (t_request_ids e)" using snoc.prems(3) a by (metis length_append_singleton lessI nth_append_length)
    moreover have "since i es = length es - a - 1"
      using snoc.IH a snoc.prems by (metis length_append_singleton less_SucI nth_append)
    ultimately show ?thesis using a by (simp add: since_snoc)
  qed
qed simp

lemma fair_snoc:
  assumes "fair n mb es" and "\<And>i. i \<in> set (t_request_ids e) \<Longrightarrow>
     (\<exists>a < length es. i \<in> set (t_request_ids (es ! a))) \<Longrightarrow> since i es \<le> (n - 1) div mb"
  shows "fair n mb (es @ [e])"
  unfolding fair_def
proof (intro allI impI)
  fix i a b
  assume *: "a < b" "b < length (es @ [e])" "i \<in> set (t_request_ids ((es @ [e]) ! a))"
    "i \<in> set (t_request_ids ((es @ [e]) ! b))"
    "\<forall>c. a < c \<longrightarrow> c < b \<longrightarrow> i \<notin> set (t_request_ids ((es @ [e]) ! c))"
  show "b - a - 1 \<le> (n - 1) div mb"
  proof (cases "b = length es")
    case True
    then have "since i es = b - a - 1" using * by (intro since_last [of a es i, THEN trans]) (auto simp: nth_append)
    then show ?thesis using assms(2) [of i] * True by (auto simp: nth_append)
  next
    case False
    then have b: "b < length es" using * by simp
    have old: "\<And>c. c \<le> b \<Longrightarrow> (es @ [e]) ! c = es ! c" using b by (simp add: nth_append)
    show ?thesis
      using assms(1) * b old unfolding fair_def by (metis less_imp_le order.refl)
  qed
qed

lemma queue_fair_admit:
  assumes qf: "queue_fair n mb st0" and ok: "loop_ok reqs mb st0" and dist: "distinct (map request_id reqs)"
  shows "queue_fair n mb (admit (pending st0) st0)"
proof -
  define joining where "joining = map request_id (filter (\<lambda>r. target_token_ids r \<noteq> [])
    (takeWhile (\<lambda>r. arrival_tick r \<le> tick st0) (pending st0)))"
  have new: "generated (the (states st0 i)) = []" if "i \<in> set joining" for i
  proof -
    have "\<exists>r. r \<in> set (pending st0) \<and> request_id r = i"
      using that unfolding joining_def by (auto dest: set_takeWhileD)
    then obtain r where r: "r \<in> set (pending st0)" "request_id r = i" by blast
    then have "request_ok st0 r" using ok by (auto simp: loop_ok_def)
    then show ?thesis using r by (auto simp: request_ok_def)
  qed
  have "generated (the (states st0 ((active st0 @ joining) ! j))) \<noteq> [] \<Longrightarrow>
      since ((active st0 @ joining) ! j) (timeline st0) * mb + j < n"
    if "j < length (active st0 @ joining)" for j
    using qf new that by (cases "j < length (active st0)") (auto simp: queue_fair_def nth_append)
  then show ?thesis
    using qf by (simp add: queue_fair_def admit_eq Let_def joining_def [symmetric])
qed

lemma loop_ok_active_length:
  assumes "loop_ok reqs mb st"
  shows "length (active st) \<le> length reqs"
proof -
  have "size (mset (map request_id (pending st)) + mset (active st) + mset (completed st)) = length reqs"
    using assms by (simp add: loop_ok_def)
  then show ?thesis by simp
qed

lemma served_before:
  assumes ok: "loop_ok reqs mb st" and act: "i \<in> set (active st)"
    and e: "e \<in> set (timeline st)" "i \<in> set (t_request_ids e)"
  shows "generated (the (states st i)) \<noteq> []"
proof -
  obtain r where r: "r \<in> set reqs" "request_id r = i" using loop_ok_active [OF ok act] by blast
  then obtain rs where rs: "states st i = Some rs" "history i (timeline st) = served r (generated rs)"
    using ok unfolding loop_ok_def request_ok_def by blast
  have "map fst (entry_rows e) = t_request_ids e"
    using ok e(1) by (auto simp: loop_ok_def timeline_ok_def)
  then obtain x where x: "(i, x) \<in> set (entry_rows e)" using e(2) by (metis (no_types) image_iff list.set_map prod.collapse)
  then have "x \<in> set (history i (timeline st))" using e(1) by (force simp: history_def)
  then show ?thesis using rs by (auto simp: served_def)
qed

lemma queue_fair_ticked:
  assumes qf: "queue_fair (length reqs) mb st" and ok: "loop_ok reqs mb st"
    and dist: "distinct (map request_id reqs)" and mb: "0 < mb" and ne: "active st \<noteq> []"
  shows "queue_fair (length reqs) mb (ticked st mb outs)"
proof -
  let ?n = "length reqs" and ?st = "ticked st mb outs" and ?ids = "take mb (active st)"
  have d: "distinct (active st)" using loop_ok_distinct [OF ok dist] by simp
  obtain e where tl: "timeline ?st = timeline st @ [e]" and e: "t_request_ids e = ?ids"
    by (simp add: ticked_def Let_def)
  have "since i (timeline st) \<le> (?n - 1) div mb"
    if i: "i \<in> set ?ids" and before: "\<exists>a < length (timeline st). i \<in> set (t_request_ids (timeline st ! a))" for i
  proof -
    obtain j where j: "j < length (active st)" "active st ! j = i"
      using i by (metis in_set_conv_nth in_set_takeD)
    have "generated (the (states st i)) \<noteq> []"
      using served_before [OF ok] i before by (metis in_set_takeD nth_mem)
    then have "since i (timeline st) * mb < ?n" using qf j by (force simp: queue_fair_def)
    then show ?thesis using mb by (simp add: less_eq_div_iff_mult_less_eq)
  qed
  then have "fair ?n mb (timeline ?st)"
    using fair_snoc qf e unfolding tl queue_fair_def by metis
  moreover have "since (active ?st ! j) (timeline ?st) * mb + j < ?n"
    if j: "j < length (active ?st)" and g: "generated (the (states ?st (active ?st ! j))) \<noteq> []" for j
  proof (cases "j < length (active st) - mb")
    case True
    then have a: "active ?st ! j = active st ! (mb + j)" by (simp add: nth_append)
    have "active st ! (mb + j) \<notin> set ?ids"
    proof
      assume "active st ! (mb + j) \<in> set ?ids"
      then obtain k where "k < mb" "k < length (active st)" "active st ! k = active st ! (mb + j)"
        by (auto simp: in_set_conv_nth)
      then show False using d True by (simp add: nth_eq_iff_index_eq)
    qed
    moreover from this have "since (active st ! (mb + j)) (timeline st) * mb + (mb + j) < ?n"
      using qf True g a by (simp add: queue_fair_def)
    ultimately show ?thesis using a by (simp add: tl since_snoc e del: ticked_sel)
  next
    case False
    then have "active ?st ! j \<in> set (filter (\<lambda>i. \<not> at_end (the (states st i))) ?ids)"
      using j by (simp add: nth_append del: set_filter)
    then have "since (active ?st ! j) (timeline ?st) = 0" by (simp add: tl since_snoc e del: ticked_sel)
    then show ?thesis using j loop_ok_active_length [OF loop_ok_ticked [OF ok dist ne mb]] by (metis add_0 less_le_trans mult_0)
  qed
  ultimately show ?thesis by (simp add: queue_fair_def)
qed

lemma queue_fair_initial: "queue_fair n mb (initial_loop reqs)"
  by (simp add: queue_fair_def initial_loop_def Let_def fair_def)

lemma queue_fair_tick:
  assumes tck: "live_tick mb step_batch st0 s = (Inr (again, st'), s')" and ok: "loop_ok reqs mb st0"
    and dist: "distinct (map request_id reqs)" and mb: "0 < mb" and qf: "queue_fair (length reqs) mb st0"
  shows "queue_fair (length reqs) mb st'"
proof -
  define st where "st = admit (pending st0) st0"
  note ok1 = loop_ok_admit [OF ok dist, folded st_def]
  note qf1 = queue_fair_admit [OF qf ok dist, folded st_def]
  show ?thesis
    using tck ok dist st_def
  proof (cases rule: live_tick_cases)
    case (batch rows outputs outs)
    then show ?thesis using queue_fair_ticked [OF qf1 ok1 dist mb] by simp
  qed (use qf1 in \<open>simp_all add: queue_fair_def\<close>)
qed

section \<open>The simulation as a live loop\<close>

definition target_of :: "decode_request list \<Rightarrow> string \<Rightarrow> int list" where
  "target_of reqs i = target_token_ids (the (map_of (map (\<lambda>r. (request_id r, r)) reqs) i))"

text \<open>The step that answers every row with the next target token of its request.\<close>

definition target_step :: "decode_request list \<Rightarrow> unit batch_step" where
  "target_step reqs s rows = (Inr (Listed (map (\<lambda>row. target_of reqs (row_request_id row) ! row_position row) rows)), s)"

lemma target_of_request:
  "distinct (map request_id reqs) \<Longrightarrow> r \<in> set reqs \<Longrightarrow> target_of reqs (request_id r) = target_token_ids r"
  unfolding target_of_def
  by (subst map_of_is_SomeI [where y = r]) (auto simp: comp_def)

lemma good_target_step: "good_step (target_step reqs)"
  by (simp add: good_step_def target_step_def normalize_outputs_def)

lemma build_rows_cong:
  "\<forall>i \<in> set ids. sts i = sts' i \<Longrightarrow> build_rows sts t ids = build_rows sts' t ids"
  by (induction ids) (auto split: option.splits sum.splits)

lemma sim_rows_eq:
  assumes "distinct ids"
    and "\<forall>i \<in> set ids. \<exists>rs. r_states acc i = Some rs \<and> position rs < length (target_token_ids (request rs)) \<and>
           outs i = Some (target_token_ids (request rs) ! position rs)"
  shows "sim_rows ids t acc =
    (case build_rows (r_states acc) t ids of
       Inl e \<Rightarrow> Inl e
     | Inr rows \<Rightarrow> (case apply_rows outs rows acc of Inl e \<Rightarrow> Inl e | Inr acc' \<Rightarrow> Inr (rows, acc')))"
  using assms
proof (induction ids arbitrary: acc)
  case (Cons i ids)
  obtain rs where rs: "r_states acc i = Some rs" "position rs < length (target_token_ids (request rs))"
    "outs i = Some (target_token_ids (request rs) ! position rs)" using Cons.prems(2) by auto
  show ?case
  proof (cases "input_token rs")
    case (Inr x)
    let ?row = "\<lparr>row_request_id = i, row_tick = t, row_position = position rs, row_input_token_id = x\<rparr>"
    have "\<exists>acc1. apply_row outs ?row acc = Inr acc1"
      using rs by (simp add: apply_row_def Let_def)
    then obtain acc1 where one: "apply_row outs ?row acc = Inr acc1" by blast
    have others: "\<forall>j \<in> set ids. r_states acc1 j = r_states acc j"
      using one rs Cons.prems(1) by (auto simp: apply_row_def Let_def split: if_splits)
    have "sim_rows (i # ids) t acc = (case sim_rows ids t acc1 of Inl e \<Rightarrow> Inl e | Inr (rows, acc3) \<Rightarrow> Inr (?row # rows, acc3))"
      using one rs Inr by (simp add: apply_row_def Let_def split: if_splits)
    also have "sim_rows ids t acc1 = (case build_rows (r_states acc) t ids of
       Inl e \<Rightarrow> Inl e
     | Inr rows \<Rightarrow> (case apply_rows outs rows acc1 of Inl e \<Rightarrow> Inl e | Inr acc' \<Rightarrow> Inr (rows, acc')))"
      using Cons.IH [of acc1] Cons.prems others build_rows_cong [OF others, of t] by simp
    finally show ?thesis using rs Inr one by (simp split: sum.splits)
  qed (use rs in simp)
qed simp

lemma target_step_outs:
  assumes "distinct ids" and "i \<in> set ids"
    and "normalize_outputs (map (row_of sts t) ids)
           (Listed (map (\<lambda>row. target_of reqs (row_request_id row) ! row_position row) (map (row_of sts t) ids))) = Inr outs"
  shows "outs i = Some (target_of reqs i ! position (the (sts i)))"
proof -
  have "outs = map_of (rev (zip ids (map (\<lambda>i. target_of reqs i ! position (the (sts i))) ids)))"
    using assms(3) by (simp add: normalize_outputs_def comp_def)
  moreover have "zip ids (map f ids) = map (\<lambda>i. (i, f i)) ids" for f :: "string \<Rightarrow> int" by (induction ids) auto
  ultimately show ?thesis
    using assms(1,2) by (auto intro!: map_of_is_SomeI simp: comp_def simp flip: rev_map)
qed

lemma sim_tick_eq:
  assumes ok: "loop_ok reqs mb st0" and dist: "distinct (map request_id reqs)"
  shows "sim_tick mb st0 = fst (live_tick mb (target_step reqs) st0 s)"
proof -
  define st where "st = admit (pending st0) st0"
  note ok1 = loop_ok_admit [OF ok dist, folded st_def]
  have d: "distinct (active st)" using loop_ok_distinct [OF ok1 dist] by simp
  let ?ids = "take mb (active st)"
  have tb: "take_batch mb (active st) (active_set st) = Inr (?ids, drop mb (active st), set (drop mb (active st)))"
    using take_batch_queue [OF d] ok1 by (simp add: loop_ok_def)
  have known: "\<exists>rs. states st i = Some rs \<and> position rs < length (target_token_ids (request rs)) \<and>
      target_of reqs i = target_token_ids (request rs)" if act: "i \<in> set (active st)" for i
  proof -
    obtain r where r: "r \<in> set reqs" "request_id r = i" using loop_ok_active [OF ok1 act] by blast
    then have "request_ok st r" using ok1 by (simp add: loop_ok_def)
    then show ?thesis using r act target_of_request [OF dist r(1)] by (auto simp: request_ok_def)
  qed
  show ?thesis
  proof (cases "build_rows (states st) (tick st) ?ids")
    case (Inl e)
    have "sim_rows ?ids (tick st) (start_results st) = Inl e"
      using sim_rows_eq [of ?ids "start_results st" "\<lambda>i. Some (target_of reqs i ! position (the (states st i)))"] d known Inl
      by (fastforce simp: start_results_def dest: in_set_takeD)
    then show ?thesis
      using Inl tb by (auto simp: sim_tick_def live_tick_def Let_def st_def [symmetric])
  next
    case (Inr rows)
    note rows = build_rows_Inr [OF Inr, THEN conjunct2]
    obtain outs where outs: "normalize_outputs rows
        (Listed (map (\<lambda>row. target_of reqs (row_request_id row) ! row_position row) rows)) = Inr outs"
      by (simp add: normalize_outputs_def)
    have "outs i = Some (target_of reqs i ! position (the (states st i)))" if "i \<in> set ?ids" for i
      using target_step_outs [OF _ that outs [unfolded rows]] d by simp
    then have "sim_rows ?ids (tick st) (start_results st) =
        (case apply_rows outs rows (start_results st) of Inl e \<Rightarrow> Inl e | Inr acc' \<Rightarrow> Inr (rows, acc'))"
      using sim_rows_eq [of ?ids "start_results st" outs] d known Inr
      by (fastforce simp: start_results_def dest: in_set_takeD)
    then show ?thesis
      using Inr tb outs
      by (simp add: sim_tick_def live_tick_def Let_def st_def [symmetric] target_step_def split: sum.split)
  qed
qed

lemma sim_loop_eq:
  assumes "loop_ok reqs mb st" and dist: "distinct (map request_id reqs)" and mb: "0 < mb"
  shows "sim_loop mb st = map_option fst (live_loop mb (target_step reqs) st s)"
  using assms(1)
proof (induction "loop_measure reqs st" arbitrary: st s rule: less_induct)
  case less
  obtain r s1 where tk: "live_tick mb (target_step reqs) st s = (r, s1)" by (rule prod.exhaust)
  note st = sim_tick_eq [OF less.prems dist, of s, unfolded tk fst_conv]
  show ?case
  proof (cases r)
    case (Inl e)
    then show ?thesis using tk st by (subst live_loop.simps, subst sim_loop.simps) simp
  next
    case (Inr a)
    obtain again st1 where a: "a = (again, st1)" by (cases a)
    note p = live_tick_progress [OF tk [unfolded Inr a] less.prems dist mb]
    show ?thesis
      using less.hyps [OF p(2) p(1), of s1] tk st Inr a
      by (subst live_loop.simps, subst sim_loop.simps) (cases again; simp)
  qed
qed

definition on_target :: "decode_request list \<Rightarrow> decode_loop \<Rightarrow> bool" where
  "on_target reqs st \<longleftrightarrow>
     (\<forall>r \<in> set reqs. let g = generated (the (states st (request_id r))) in g = take (length g) (target_token_ids r))"

lemma on_target_tick:
  assumes tck: "live_tick mb (target_step reqs) st0 s = (Inr (again, st'), s')" and ok: "loop_ok reqs mb st0"
    and dist: "distinct (map request_id reqs)" and ot: "on_target reqs st0"
  shows "on_target reqs st'"
proof -
  define st where "st = admit (pending st0) st0"
  note ok1 = loop_ok_admit [OF ok dist, folded st_def]
  have d: "distinct (active st)" using loop_ok_distinct [OF ok1 dist] by simp
  have ot1: "on_target reqs st" using ot by (simp add: st_def on_target_def admit_eq Let_def)
  show ?thesis
    using tck ok dist st_def
  proof (cases rule: live_tick_cases)
    case (batch rows outputs outs)
    have o: "normalize_outputs rows (Listed (map (\<lambda>row. target_of reqs (row_request_id row) ! row_position row) rows)) = Inr outs"
      using batch(5,6) by (simp add: target_step_def)
    have "let g = generated (the (states st' (request_id r))) in g = take (length g) (target_token_ids r)"
      if r: "r \<in> set reqs" for r
    proof (cases "request_id r \<in> set (take mb (active st))")
      case True
      obtain rs where rs: "states st (request_id r) = Some rs" "position rs = length (generated rs)"
        "length (generated rs) < length (target_token_ids r)"
        using ok1 r True unfolding loop_ok_def request_ok_def by (metis in_set_takeD)
      have "outs (request_id r) = Some (target_token_ids r ! length (generated rs))"
        using target_step_outs [OF _ True o [unfolded batch(4)]] d target_of_request [OF dist r] rs by simp
      moreover have "generated rs = take (length (generated rs)) (target_token_ids r)"
        using ot1 r rs(1) by (force simp: on_target_def Let_def)
      ultimately show ?thesis
        using True rs batch(3) by (simp add: Let_def take_Suc_conv_app_nth)
    qed (use ot1 r batch(3) in \<open>simp add: on_target_def\<close>)
    then show ?thesis by (simp add: on_target_def)
  qed (use ot1 in \<open>simp_all add: on_target_def\<close>)
qed

lemma on_target_initial:
  assumes "distinct (map request_id reqs)"
  shows "on_target reqs (initial_loop reqs)"
proof -
  have "generated (the (states (initial_loop reqs) (request_id r))) = []" if "r \<in> set reqs" for r
    unfolding initial_loop_def Let_def
    using that assms by (simp, subst map_of_is_SomeI [where y = "\<lparr>request = r, position = 0, generated = []\<rparr>"])
      (auto simp: comp_def simp flip: rev_map)
  then show ?thesis by (simp add: on_target_def)
qed

section \<open>The report of a finished loop\<close>

lemma finished_loop:
  assumes ok: "loop_ok reqs mb st" and fin: "pending st = []" "active st = []"
    and dist: "distinct (map request_id reqs)" and r: "r \<in> set reqs"
  shows "\<exists>out. outputs_by_request (decode_report_of mb reqs st) (request_id r) = Some out \<and>
    length out = length (target_token_ids r) \<and> history (request_id r) (timeline st) = served r out \<and>
    out = generated (the (states st (request_id r)))"
proof -
  have "mset (completed st) = mset (map request_id reqs)" using ok fin by (simp add: loop_ok_def)
  then have "request_id r \<in> set (completed st)" using r by (metis image_eqI list.set_map set_mset_mset)
  then have "length (generated (the (states st (request_id r)))) = length (target_token_ids r)"
    "history (request_id r) (timeline st) = served r (generated (the (states st (request_id r))))"
    using ok r unfolding loop_ok_def request_ok_def by force+
  moreover have "outputs_by_request (decode_report_of mb reqs st) (request_id r)
      = Some (generated (the (states st (request_id r))))"
    unfolding decode_report_of_def Let_def
    using dist r by (auto intro!: map_of_is_SomeI simp: comp_def simp flip: rev_map)
  ultimately show ?thesis by blast
qed

lemma live_run_loop:
  assumes "distinct (map request_id reqs)" and "1 \<le> n"
  shows "live_run n step_batch reqs s =
    map_option (map_prod (map_sum id (decode_report_of (nat n) reqs)) id)
      (live_loop (nat n) step_batch (initial_loop reqs) s)"
proof -
  have "validate_requests {} reqs = Inr ()" using assms(1) by (simp add: validate_requests_iff)
  then show ?thesis using assms(2) by (simp add: live_run_def)
qed

lemma live_run_validated:
  assumes "live_run n step_batch reqs s = Some (Inr rep, s')"
  shows "distinct (map request_id reqs)" and "1 \<le> n"
  using assms by (auto simp: live_run_def validate_requests_iff split: if_splits sum.splits)

lemma live_run_succeeds:
  assumes "1 \<le> n" and "distinct (map request_id reqs)" and "\<forall>q \<in> set reqs. input_token_ids q \<noteq> []"
    and "good_step step_batch"
  shows "\<exists>rep s'. live_run n step_batch reqs s = Some (Inr rep, s')"
  using live_loop_succeeds [OF loop_ok_initial [OF assms(2)] assms(2) _ assms(3,4), of "nat n" s] assms(1)
  by (auto simp: live_run_loop [OF assms(2,1)])

definition staggered :: "decode_request list" where
  "staggered = (case example_requests ''staggered'' of Inr rs \<Rightarrow> rs | Inl _ \<Rightarrow> [])"

lemma staggered_ok:
  "distinct (map request_id staggered)" "\<forall>q \<in> set staggered. input_token_ids q \<noteq> []" "length staggered = 2"
  "map request_id staggered = [''req-a'', ''req-b'']" "map target_token_ids staggered = [[10, 11, 12], [20, 21]]"
  by (simp_all add: staggered_def example_requests_def)

section \<open>Properties\<close>

text \<open>
  C33 The live loop always returns: for every list of requests, batch size and batch step, whether or
  not the step raises or answers with the wrong number of tokens, the loop ends with a report or an
  exception. It ends with a report when the batch size is positive, the identifiers are distinct, the
  requests carry input tokens and the step answers every row it is given.
\<close>

theorem live_run_terminates:
  "\<exists>r s'. live_run n step_batch reqs s = Some (r, s') \<and>
     (1 \<le> n \<longrightarrow> distinct (map request_id reqs) \<longrightarrow> (\<forall>q \<in> set reqs. input_token_ids q \<noteq> []) \<longrightarrow>
      good_step step_batch \<longrightarrow> (\<exists>rep. r = Inr rep))"
proof (cases "1 \<le> n \<and> distinct (map request_id reqs)")
  case True
  then have mb: "0 < nat n" by simp
  note ok = loop_ok_initial [of reqs "nat n"]
  obtain r s' where l: "live_loop (nat n) step_batch (initial_loop reqs) s = Some (r, s')"
    using live_loop_rule [OF ok, of "\<lambda>_. True" step_batch s] True mb by auto
  moreover have "\<exists>st'. r = Inr st'" if "\<forall>q \<in> set reqs. input_token_ids q \<noteq> []" "good_step step_batch"
    using live_loop_succeeds [OF ok _ mb that, of s] True l by auto
  ultimately show ?thesis using True by (fastforce simp: live_run_loop)
next
  case False
  then show ?thesis
    by (cases "validate_requests {} reqs") (auto simp: live_run_def validate_requests_iff)
qed

theorem live_run_terminates_witness:
  "\<exists>rep s'. live_run 1 (target_step staggered) staggered () = Some (Inr rep, s')"
  using live_run_terminates [of 1 "target_step staggered" staggered "()"] good_target_step staggered_ok(1,2) by auto

text \<open>
  C6 Continuous batching does not mix requests up: in a report the batches come in order of time,
  none is empty or above the batch size, and none holds a request twice or before it has arrived.
  Read off for one request, the batches are its autoregressive decoding: positions from 0 on without
  gap or repetition, each fed with the token produced before it, as many as the request asked for.
  Every request is completed once. Between two consecutive tokens of a request at most
  \<open>(n - 1) div b\<close> batches go to others, for \<open>n\<close> requests and batch size \<open>b\<close>.
\<close>

theorem continuous_batching_exact:
  assumes "live_run n step_batch reqs s = Some (Inr rep, s')"
  shows "sorted_wrt (<) (map t_tick (rep_timeline rep))
    \<and> (\<forall>e \<in> set (rep_timeline rep). t_request_ids e \<noteq> [] \<and> int (length (t_request_ids e)) \<le> n \<and>
         distinct (t_request_ids e) \<and>
         (\<forall>r \<in> set reqs. request_id r \<in> set (t_request_ids e) \<longrightarrow> arrival_tick r \<le> t_tick e))
    \<and> (\<forall>r \<in> set reqs. \<exists>out. outputs_by_request rep (request_id r) = Some out \<and>
         length out = length (target_token_ids r) \<and> history (request_id r) (rep_timeline rep) = served r out)
    \<and> mset (completed_request_ids rep) = mset (map request_id reqs)
    \<and> fair (length reqs) (nat n) (rep_timeline rep)"
proof -
  note v = live_run_validated [OF assms]
  have mb: "0 < nat n" using v by simp
  obtain st where l: "live_loop (nat n) step_batch (initial_loop reqs) s = Some (Inr st, s')"
    and rep: "rep = decode_report_of (nat n) reqs st"
    using assms by (auto simp: live_run_loop [OF v] elim!: map_sum_Inr_cases)
  have "loop_ok reqs (nat n) st \<and> queue_fair (length reqs) (nat n) st \<and> pending st = [] \<and> active st = []"
    using l loop_ok_initial [OF v(1)] queue_fair_initial v(1) mb
    by (rule live_loop_final) (rule queue_fair_tick [OF _ _ v(1) mb])
  then have ok: "loop_ok reqs (nat n) st" and qf: "queue_fair (length reqs) (nat n) st"
    and fin: "pending st = []" "active st = []" by auto
  have sel: "rep_timeline rep = timeline st" "completed_request_ids rep = completed st"
    by (simp_all add: rep decode_report_of_def Let_def)
  have "mset (completed st) = mset (map request_id reqs)" using ok fin by (simp add: loop_ok_def)
  moreover have "\<forall>r \<in> set reqs. \<exists>out. outputs_by_request rep (request_id r) = Some out \<and>
      length out = length (target_token_ids r) \<and> history (request_id r) (timeline st) = served r out"
    using finished_loop [OF ok fin v(1)] unfolding rep by blast
  moreover have "int (length xs) \<le> n \<longleftrightarrow> length xs \<le> nat n" for xs :: "string list" using v by linarith
  ultimately show ?thesis
    using ok qf by (simp add: sel loop_ok_def timeline_ok_def queue_fair_def)
qed

theorem continuous_batching_exact_witness:
  "\<exists>rep s'. live_run 1 (target_step staggered) staggered () = Some (Inr rep, s')
     \<and> mset (completed_request_ids rep) = {#''req-a'', ''req-b''#} \<and> fair 2 1 (rep_timeline rep)"
proof -
  obtain rep s' where l: "live_run 1 (target_step staggered) staggered () = Some (Inr rep, s')"
    using live_run_succeeds [OF _ staggered_ok(1,2) good_target_step, of 1 staggered "()"] by auto
  from continuous_batching_exact [OF this] l show ?thesis
    by (simp add: staggered_ok)
qed

text \<open>
  The scheduler simulation is the live loop run with the step that produces the target tokens: the
  two give the same report. For requests with input tokens and distinct identifiers and a positive
  batch size it returns, and its own check passes: every request gets its target tokens.
\<close>

theorem simulation_is_live_loop:
  assumes "distinct (map request_id reqs)" and "1 \<le> n" and "\<forall>r \<in> set reqs. input_token_ids r \<noteq> []"
  shows "\<exists>rep. simulate_continuous_decode reqs n = Some (Inr rep)
    \<and> live_run n (target_step reqs) reqs () = Some (Inr (base_report rep), ())
    \<and> verification_passed (base_report rep)
    \<and> outputs_by_request (base_report rep) = expected_outputs reqs"
proof -
  have mb: "0 < nat n" using assms by simp
  note ok0 = loop_ok_initial [OF assms(1), of "nat n"]
  obtain st where l: "live_loop (nat n) (target_step reqs) (initial_loop reqs) () = Some (Inr st, ())"
    using live_loop_succeeds [OF ok0 assms(1) mb assms(3) good_target_step, where s = "()"] by auto
  have "loop_ok reqs (nat n) st \<and> on_target reqs st \<and> pending st = [] \<and> active st = []"
    using l ok0 on_target_initial [OF assms(1)] assms(1) mb
    by (rule live_loop_final) (rule on_target_tick [OF _ _ assms(1)])
  then have ok: "loop_ok reqs (nat n) st" and ot: "on_target reqs st" and fin: "pending st = []" "active st = []"
    by auto
  have v: "validate_requests {} reqs = Inr ()" using assms(1) by (simp add: validate_requests_iff)
  let ?rep = "decode_report_of (nat n) reqs st"
  have gen: "generated (the (states st (request_id r))) = target_token_ids r" if "r \<in> set reqs" for r
    using finished_loop [OF ok fin assms(1) that] ot that by (auto simp: on_target_def Let_def)
  then have outs: "outputs_by_request ?rep = expected_outputs reqs"
    by (simp add: decode_report_of_def expected_outputs_def Let_def cong: map_cong)
  moreover have "length (completed st) = length reqs"
    using ok fin by (metis (no_types, lifting) add_0 length_map loop_ok_def mset.simps(1) size_mset list.map(1))
  ultimately have "verification_passed ?rep" by (simp add: decode_report_of_def Let_def)
  moreover have "live_run n (target_step reqs) reqs () = Some (Inr ?rep, ())"
    using l by (simp add: live_run_loop [OF assms(1,2)])
  moreover have "sim_loop (nat n) (initial_loop reqs) = Some (Inr st)"
    using sim_loop_eq [OF ok0 assms(1) mb, of "()"] l by simp
  ultimately show ?thesis
    using assms(2) outs v by (simp add: simulate_continuous_decode_def Let_def)
qed

theorem simulation_is_live_loop_witness:
  "\<exists>rep. simulate_continuous_decode staggered 2 = Some (Inr rep) \<and> verification_passed (base_report rep)"
  using simulation_is_live_loop [OF staggered_ok(1) _ staggered_ok(2), of 2] by auto

end
