(* ===== verification/FlowControl.thy ===== *)
theory FlowControl
  imports BB_Prelude
begin

text \<open>
  Server-to-server links: the adaptive limiter of in-flight pushes and the link telemetry of
  \<^verbatim>\<open>server/s2s_flow.py\<close>, and the clock-offset estimate and link samples of \<^verbatim>\<open>server/handler.py\<close>.
  Floating-point numbers are real numbers here: rounding errors are not part of the model.
\<close>

section \<open>The push limiter\<close>

record limiter =
  limit :: int
  min_limit :: int
  max_limit :: int
  ewma_alpha :: real
  decision_interval :: int
  in_flight :: int
  ewma_wait_ms :: real
  ewma_send_ms :: real
  release_events :: int
  recent_failures :: int
  consecutive_failures :: int

definition new_limiter :: "int \<Rightarrow> int \<Rightarrow> int \<Rightarrow> real \<Rightarrow> int \<Rightarrow> limiter" where
  "new_limiter initial mn mx alpha interval =
     \<lparr>limit = max mn (min mx initial), min_limit = mn, max_limit = mx, ewma_alpha = alpha,
      decision_interval = max 1 interval, in_flight = 0, ewma_wait_ms = 0, ewma_send_ms = 0,
      release_events = 0, recent_failures = 0, consecutive_failures = 0\<rparr>"

definition update_ewma :: "limiter \<Rightarrow> real \<Rightarrow> real \<Rightarrow> real" where
  "update_ewma l prev sample =
     (if prev \<le> 0 then sample else prev * (1 - ewma_alpha l) + sample * ewma_alpha l)"

text \<open>\<open>acquire\<close> waits while the limit is reached (\<^const>\<open>None\<close>); \<open>wait_ms\<close> is the measured wait.\<close>

definition acquire :: "real \<Rightarrow> limiter \<Rightarrow> limiter option" where
  "acquire wait_ms l =
     (if limit l \<le> in_flight l then None
      else Some (l\<lparr>in_flight := in_flight l + 1,
                   ewma_wait_ms := update_ewma l (ewma_wait_ms l) wait_ms\<rparr>))"

definition note_outcome :: "bool \<Rightarrow> limiter \<Rightarrow> limiter" where
  "note_outcome success l =
     (if success
      then l\<lparr>consecutive_failures := 0, recent_failures := max 0 (recent_failures l - 1)\<rparr>
      else l\<lparr>consecutive_failures := consecutive_failures l + 1,
             recent_failures := min 16 (recent_failures l + 1)\<rparr>)"

definition adapt_limit :: "limiter \<Rightarrow> limiter" where
  "adapt_limit l =
     (if 2 \<le> consecutive_failures l \<or> 3 \<le> recent_failures l
      then l\<lparr>limit := max (min_limit l) (limit l - 1), consecutive_failures := 0\<rparr>
      else if ewma_wait_ms l > 8 \<and> ewma_send_ms l < 220 \<and> max 1 (limit l - 1) \<le> in_flight l
      then l\<lparr>limit := min (max_limit l) (limit l + 1)\<rparr>
      else if ewma_send_ms l > 320 \<and> ewma_wait_ms l < 2
      then l\<lparr>limit := max (min_limit l) (limit l - 1)\<rparr>
      else l)"

definition release :: "real \<Rightarrow> bool \<Rightarrow> limiter \<Rightarrow> limiter" where
  "release send_time_ms success l =
     (let l1 = l\<lparr>in_flight := max 0 (in_flight l - 1),
                 ewma_send_ms := update_ewma l (ewma_send_ms l) (max 0 send_time_ms)\<rparr>;
          l2 = note_outcome success l1;
          l3 = l2\<lparr>release_events := release_events l2 + 1\<rparr>
      in if release_events l3 mod decision_interval l3 = 0 then adapt_limit l3 else l3)"

text \<open>
  The pushes of a server: each holds a slot from its \<open>acquire\<close> to its \<open>release\<close>. The second argument
  counts the pushes that hold one.
\<close>

inductive pushing :: "limiter \<Rightarrow> limiter \<Rightarrow> nat \<Rightarrow> bool" for l0 where
  idle: "pushing l0 l0 0"
| start: "pushing l0 l n \<Longrightarrow> acquire w l = Some l' \<Longrightarrow> pushing l0 l' (Suc n)"
| finish: "pushing l0 l (Suc n) \<Longrightarrow> pushing l0 (release t ok l) n"

definition limiter_ok :: "int \<Rightarrow> int \<Rightarrow> limiter \<Rightarrow> nat \<Rightarrow> bool" where
  "limiter_ok mn mx l n \<longleftrightarrow>
     min_limit l = mn \<and> max_limit l = mx \<and> mn \<le> limit l \<and> limit l \<le> mx \<and> in_flight l = int n \<and>
     int n \<le> mx \<and> 0 \<le> recent_failures l \<and> recent_failures l \<le> 16"

lemma limiter_ok_acquire:
  "limiter_ok mn mx l n \<Longrightarrow> acquire w l = Some l' \<Longrightarrow> limiter_ok mn mx l' (Suc n)"
  by (auto simp: limiter_ok_def acquire_def split: if_splits)

lemma adapt_limit_step:
  assumes "min_limit l \<le> limit l" and "limit l \<le> max_limit l"
  shows "\<bar>limit (adapt_limit l) - limit l\<bar> \<le> 1"
proof -
  have "\<bar>max (min_limit l) (limit l - 1) - limit l\<bar> \<le> 1" "\<bar>min (max_limit l) (limit l + 1) - limit l\<bar> \<le> 1"
    using assms by linarith+
  then show ?thesis by (simp add: adapt_limit_def)
qed

lemma note_outcome_sel [simp]:
  "limit (note_outcome ok l) = limit l" "min_limit (note_outcome ok l) = min_limit l"
  "max_limit (note_outcome ok l) = max_limit l" "in_flight (note_outcome ok l) = in_flight l"
  by (simp_all add: note_outcome_def)

lemma limiter_ok_release:
  assumes "limiter_ok mn mx l (Suc n)"
  shows "limiter_ok mn mx (release t ok l) n"
proof -
  have adapt: "limiter_ok mn mx (adapt_limit k) n" if "limiter_ok mn mx k n" for k
    using that by (simp add: limiter_ok_def adapt_limit_def)
  have "limiter_ok mn mx (note_outcome ok (l\<lparr>in_flight := max 0 (in_flight l - 1), ewma_send_ms := x\<rparr>)
      \<lparr>release_events := y\<rparr>) n" for x y
    using assms by (simp add: limiter_ok_def note_outcome_def)
  then show ?thesis using adapt by (simp add: release_def Let_def)
qed

text \<open>
  C36 The limiter bounds the pushes in flight: whatever the measured times, failures and the order of
  pushes, the limit stays between its bounds and moves by at most one per finished push, the counter
  equals the number of pushes that hold a slot, no more than the upper bound ever hold one, and a
  push is let through whenever fewer than the lower bound do.
\<close>

theorem push_concurrency_bounded:
  assumes "pushing (new_limiter initial mn mx alpha interval) l n" and "1 \<le> mn" and "mn \<le> mx"
  shows "mn \<le> limit l \<and> limit l \<le> mx \<and> in_flight l = int n \<and> int n \<le> mx
    \<and> (int n < mn \<longrightarrow> (\<forall>w. \<exists>l'. acquire w l = Some l'))
    \<and> (\<forall>t ok. \<bar>limit (release t ok l) - limit l\<bar> \<le> 1)"
proof -
  have ok: "limiter_ok mn mx l n"
    using assms(1)
  proof induction
    case idle
    then show ?case using assms(2,3) by (auto simp: limiter_ok_def new_limiter_def)
  qed (auto intro: limiter_ok_acquire limiter_ok_release)
  have "\<bar>limit (release t b l) - limit l\<bar> \<le> 1" for t b
    using adapt_limit_step [of "note_outcome b (l\<lparr>in_flight := max 0 (in_flight l - 1),
        ewma_send_ms := update_ewma l (ewma_send_ms l) (max 0 t)\<rparr>)\<lparr>release_events := x\<rparr>" for x] ok
    by (simp add: limiter_ok_def release_def Let_def)
  moreover have "\<exists>l'. acquire w l = Some l'" if "int n < mn" for w
    using ok that by (auto simp: limiter_ok_def acquire_def)
  ultimately show ?thesis using ok by (auto simp: limiter_ok_def)
qed

theorem push_concurrency_bounded_witness:
  "\<exists>l. acquire 9 (new_limiter 4 2 12 (1/5) 8) = Some l \<and> in_flight l = 1 \<and> limit l \<le> 12"
proof -
  have "\<exists>l. acquire 9 (new_limiter 4 2 12 (1/5) 8) = Some l" by (simp add: acquire_def new_limiter_def)
  then obtain l where l: "acquire 9 (new_limiter 4 2 12 (1/5) 8) = Some l" by blast
  have "pushing (new_limiter 4 2 12 (1/5) 8) l (Suc 0)" by (rule pushing.start [OF pushing.idle l])
  from push_concurrency_bounded [OF this] l show ?thesis by auto
qed

section \<open>Clock offsets\<close>

text \<open>
  The estimate a server keeps per peer: \<open>offset_us\<close> is the remote clock minus the local one. \<open>alpha\<close> and
  \<open>max_rtt_us\<close> are the configuration of the handler.
\<close>

record clock_state =
  offset_us :: real
  rtt_us :: real
  best_rtt_us :: real
  samples :: nat
  last_raw_offset_us :: real
  last_raw_rtt_us :: real
  updated_at_us :: int

type_synonym clock_table = "string \<rightharpoonup> clock_state"

definition effective_alpha :: "real \<Rightarrow> real \<Rightarrow> real \<Rightarrow> real" where
  "effective_alpha alpha best sample_rtt = min 1 (max (1/100) (alpha * (best / max sample_rtt 1)))"

definition update_clock_sync_estimate ::
  "real \<Rightarrow> real \<Rightarrow> int \<Rightarrow> string \<Rightarrow> real \<Rightarrow> real \<Rightarrow> clock_table \<Rightarrow> clock_state option \<times> clock_table" where
  "update_clock_sync_estimate alpha max_rtt now peer off rtt tab =
     (if rtt < 0 then (None, tab)
      else if 0 < max_rtt \<and> max_rtt < rtt then (None, tab)
      else
        let st = (case tab peer of
                    None \<Rightarrow> \<lparr>offset_us = off, rtt_us = rtt, best_rtt_us = rtt, samples = 1,
                             last_raw_offset_us = off, last_raw_rtt_us = rtt, updated_at_us = now\<rparr>
                  | Some s \<Rightarrow>
                      let best = min (best_rtt_us s) rtt;
                          a = effective_alpha alpha best rtt
                      in \<lparr>offset_us = offset_us s * (1 - a) + off * a, rtt_us = rtt_us s * (1 - a) + rtt * a,
                          best_rtt_us = best, samples = samples s + 1,
                          last_raw_offset_us = off, last_raw_rtt_us = rtt, updated_at_us = now\<rparr>)
        in (Some st, tab(peer \<mapsto> st)))"

text \<open>
  The answer to a push: the time the receiver got it and the time it acknowledged, on the receiver's
  clock; \<^const>\<open>None\<close> for an answer without metadata or with metadata that cannot be read. A missing or
  unreadable time is 0.
\<close>

record push_ack =
  receiver_recv_us :: int
  receiver_ack_us :: int

definition build_rpc_push_ack_response :: "int \<Rightarrow> int \<Rightarrow> push_ack" where
  "build_rpc_push_ack_response receive_us now = \<lparr>receiver_recv_us = receive_us, receiver_ack_us = now\<rparr>"

definition network_rtt_us :: "int \<Rightarrow> int \<Rightarrow> push_ack \<Rightarrow> int" where
  "network_rtt_us send ack r =
     max 0 (max 0 (ack - send) - max 0 (receiver_ack_us r - receiver_recv_us r))"

definition sample_offset_us :: "int \<Rightarrow> int \<Rightarrow> push_ack \<Rightarrow> real" where
  "sample_offset_us send ack r =
     real_of_int ((receiver_recv_us r - send) + (receiver_ack_us r - ack)) / 2"

definition update_clock_sync_from_rpc_response ::
  "real \<Rightarrow> real \<Rightarrow> int \<Rightarrow> string \<Rightarrow> int \<Rightarrow> int \<Rightarrow> push_ack option \<Rightarrow> clock_table \<Rightarrow> clock_table" where
  "update_clock_sync_from_rpc_response alpha max_rtt now peer send ack response tab =
     (case response of
        None \<Rightarrow> tab
      | Some r \<Rightarrow>
          if receiver_recv_us r \<le> 0 \<or> receiver_ack_us r \<le> 0 \<or> ack < send then tab
          else snd (update_clock_sync_estimate alpha max_rtt now peer (sample_offset_us send ack r)
                      (real_of_int (network_rtt_us send ack r)) tab))"

record push_timing =
  end_to_end_rtt_ms :: real
  network_rtt_ms :: real
  receiver_processing_ms :: real

definition extract_rpc_push_timing :: "push_ack option \<Rightarrow> int \<Rightarrow> int \<Rightarrow> real \<Rightarrow> push_timing" where
  "extract_rpc_push_timing response send ack fallback =
     (let default = \<lparr>end_to_end_rtt_ms = max 0 (real_of_int (ack - send) / 1000),
                     network_rtt_ms = max 0 fallback, receiver_processing_ms = 0\<rparr> in
      case response of
        None \<Rightarrow> default
      | Some r \<Rightarrow>
          if receiver_recv_us r \<le> 0 \<or> receiver_ack_us r < receiver_recv_us r \<or> ack < send then default
          else
            let proc = max 0 (real_of_int (receiver_ack_us r - receiver_recv_us r) / 1000);
                e2e = max 0 (real_of_int (ack - send) / 1000)
            in \<lparr>end_to_end_rtt_ms = e2e, network_rtt_ms = max 0 (e2e - proc), receiver_processing_ms = proc\<rparr>)"

section \<open>Link telemetry\<close>

record telemetry =
  label :: string
  window_size :: nat
  tel_samples :: nat
  total_bytes :: int
  clock_sync_samples :: nat
  last_latency_ms :: "real option"
  latency_ms_window :: "real list"
  bandwidth_mbps_window :: "real list"
  jitter_ms_window :: "real list"
  raw_latency_ms_window :: "real list"

text \<open>
  \<^verbatim>\<open>S2SLinkTelemetry\<close> declares its fields for a data class and has no \<^verbatim>\<open>@dataclass\<close> decorator and no
  constructor, so calling it with arguments raises.
\<close>

definition new_telemetry :: "string \<Rightarrow> nat \<Rightarrow> telemetry result" where
  "new_telemetry lbl window = Inl TypeError"

definition window_append :: "nat \<Rightarrow> real \<Rightarrow> real list \<Rightarrow> real list" where
  "window_append n x xs = (let ys = xs @ [x] in drop (length ys - n) ys)"

definition telemetry_record :: "real \<Rightarrow> real \<Rightarrow> real \<Rightarrow> int \<Rightarrow> bool \<Rightarrow> telemetry \<Rightarrow> real \<times> telemetry" where
  "telemetry_record latency raw bandwidth bytes clock_ok t =
     (let jitter = (case last_latency_ms t of None \<Rightarrow> 0 | Some p \<Rightarrow> \<bar>latency - p\<bar>) in
      (jitter,
       t\<lparr>last_latency_ms := Some latency, tel_samples := tel_samples t + 1,
         total_bytes := total_bytes t + max 0 bytes,
         clock_sync_samples := clock_sync_samples t + (if clock_ok then 1 else 0),
         latency_ms_window := window_append (window_size t) latency (latency_ms_window t),
         bandwidth_mbps_window := window_append (window_size t) bandwidth (bandwidth_mbps_window t),
         jitter_ms_window := window_append (window_size t) jitter (jitter_ms_window t),
         raw_latency_ms_window := window_append (window_size t) raw (raw_latency_ms_window t)\<rparr>))"

definition calc_mbps :: "int \<Rightarrow> real \<Rightarrow> real" where
  "calc_mbps bytes latency = (if bytes \<le> 0 \<or> latency \<le> 0 then 0 else real_of_int bytes * 8 / (latency * 1000))"

definition classify_link_stability :: "real \<Rightarrow> real \<Rightarrow> real \<Rightarrow> string" where
  "classify_link_stability mean std jitter =
     (if mean \<le> 0 then ''unknown''
      else let cv = std / mean in
        if cv \<le> 5/100 \<and> jitter \<le> max 2 (mean * (10/100)) then ''stable''
        else if cv \<le> 15/100 \<and> jitter \<le> max 5 (mean * (25/100)) then ''moderate''
        else ''volatile'')"

text \<open>
  \<^verbatim>\<open>_record_s2s_network_sample\<close> without its log lines. \<open>key\<close> is the label of the link.
\<close>

definition record_s2s_network_sample ::
  "nat \<Rightarrow> string \<Rightarrow> int \<Rightarrow> int \<Rightarrow> real \<Rightarrow> real \<Rightarrow> bool \<Rightarrow> (string \<rightharpoonup> telemetry) \<Rightarrow>
   ((string \<rightharpoonup> telemetry), unit) outcome" where
  "record_s2s_network_sample window key payload_bytes metadata_bytes raw_transfer_ms wire_ms clock_ok stats =
     (let latency = (if wire_ms > 0 then wire_ms else raw_transfer_ms) in
      if latency \<le> 0 then (Inr (), stats)
      else
        let bytes = max 0 payload_bytes + max 0 metadata_bytes;
            bandwidth = calc_mbps bytes latency;
            found = (case stats key of Some t \<Rightarrow> Inr t | None \<Rightarrow> new_telemetry key window)
        in case found of
             Inl e \<Rightarrow> (Inl e, stats)
           | Inr t \<Rightarrow>
               let raw = (if raw_transfer_ms > 0 then raw_transfer_ms else latency)
               in (Inr (), stats(key \<mapsto> snd (telemetry_record latency raw bandwidth bytes clock_ok t))))"

text \<open>Without an entry in the table there never is one: the first sample of a link raises.\<close>

lemma sample_of_new_link_raises:
  assumes "stats key = None" and "0 < wire_ms \<or> 0 < raw_transfer_ms"
  shows "record_s2s_network_sample window key pb mb raw_transfer_ms wire_ms ok stats = (Inl TypeError, stats)"
  using assms by (auto simp: record_s2s_network_sample_def new_telemetry_def Let_def)

lemma samples_keep_empty:
  "snd (record_s2s_network_sample window key pb mb raw wire ok Map.empty) = Map.empty"
  by (simp add: record_s2s_network_sample_def new_telemetry_def Let_def)

section \<open>The clock estimate is sound\<close>

text \<open>
  A push as it happens, on the sender's clock: sent, received, acknowledged, answered. The receiver's
  clock is ahead by \<open>theta\<close>.
\<close>

definition exchange_ok :: "int \<Rightarrow> int \<Rightarrow> int \<Rightarrow> int \<Rightarrow> bool" where
  "exchange_ok t_send t_recv t_ack t_done \<longleftrightarrow> t_send \<le> t_recv \<and> t_recv \<le> t_ack \<and> t_ack \<le> t_done"

definition stamped :: "int \<Rightarrow> int \<Rightarrow> int \<Rightarrow> push_ack" where
  "stamped theta t_recv t_ack = build_rpc_push_ack_response (t_recv + theta) (t_ack + theta)"

lemma sample_offset_error:
  assumes "exchange_ok t1 r a t4"
  shows "\<bar>sample_offset_us t1 t4 (stamped theta r a) - real_of_int theta\<bar>
         \<le> real_of_int (network_rtt_us t1 t4 (stamped theta r a)) / 2"
proof -
  have "real_of_int t1 \<le> real_of_int r" "real_of_int r \<le> real_of_int a" "real_of_int a \<le> real_of_int t4"
    using assms by (auto simp: exchange_ok_def)
  then have "\<bar>(real_of_int r - t1 + (real_of_int a - t4)) / 2\<bar> \<le> (real_of_int t4 - t1 - (real_of_int a - r)) / 2"
    unfolding abs_le_iff by (intro conjI; simp add: field_simps)
  moreover have "network_rtt_us t1 t4 (stamped theta r a) = t4 - t1 - (a - r)"
    using assms by (simp add: exchange_ok_def network_rtt_us_def stamped_def build_rpc_push_ack_response_def)
  moreover have "sample_offset_us t1 t4 (stamped theta r a) - real_of_int theta
      = (real_of_int r - t1 + (real_of_int a - t4)) / 2"
    by (simp add: sample_offset_us_def stamped_def build_rpc_push_ack_response_def field_simps)
  ultimately show ?thesis by (simp only: of_int_diff)
qed

inductive clock_synced :: "real \<Rightarrow> real \<Rightarrow> int \<Rightarrow> string \<Rightarrow> clock_table \<Rightarrow> bool" for alpha max_rtt theta peer where
  start: "clock_synced alpha max_rtt theta peer Map.empty"
| push: "clock_synced alpha max_rtt theta peer tab \<Longrightarrow> exchange_ok t1 r a t4 \<Longrightarrow>
    clock_synced alpha max_rtt theta peer
      (update_clock_sync_from_rpc_response alpha max_rtt now peer t1 t4 (Some (stamped theta r a)) tab)"
| lost: "clock_synced alpha max_rtt theta peer tab \<Longrightarrow>
    clock_synced alpha max_rtt theta peer
      (update_clock_sync_from_rpc_response alpha max_rtt now peer t1 t4 None tab)"

definition clock_ok :: "real \<Rightarrow> real \<Rightarrow> clock_state \<Rightarrow> bool" where
  "clock_ok theta max_rtt st \<longleftrightarrow>
     \<bar>offset_us st - theta\<bar> \<le> rtt_us st / 2 \<and> 0 \<le> best_rtt_us st \<and> best_rtt_us st \<le> rtt_us st \<and>
     (0 < max_rtt \<longrightarrow> rtt_us st \<le> max_rtt)"

lemma effective_alpha_bounds: "0 < effective_alpha alpha best r" "effective_alpha alpha best r \<le> 1"
  by (auto simp: effective_alpha_def)

lemma convex_le:
  fixes a :: real
  assumes "0 \<le> a" and "a \<le> 1" and "x \<le> z" and "y \<le> z"
  shows "x * (1 - a) + y * a \<le> z"
proof -
  have "x * (1 - a) + y * a \<le> z * (1 - a) + z * a" using assms by (intro add_mono mult_right_mono) auto
  then show ?thesis by (simp add: algebra_simps)
qed

lemma convex_ge:
  fixes a :: real
  assumes "0 \<le> a" and "a \<le> 1" and "z \<le> x" and "z \<le> y"
  shows "z \<le> x * (1 - a) + y * a"
  using convex_le [OF assms(1,2), of "- x" "- z" "- y"] assms by simp

lemma convex_error:
  fixes a :: real
  assumes a: "0 \<le> a" "a \<le> 1" and "\<bar>x - t\<bar> \<le> p / 2" and "\<bar>y - t\<bar> \<le> q / 2"
  shows "\<bar>x * (1 - a) + y * a - t\<bar> \<le> (p * (1 - a) + q * a) / 2"
proof -
  have "\<bar>x * (1 - a) + y * a - t\<bar> = \<bar>(x - t) * (1 - a) + (y - t) * a\<bar>" by (simp add: algebra_simps)
  also have "\<dots> \<le> \<bar>x - t\<bar> * (1 - a) + \<bar>y - t\<bar> * a"
    using a abs_triangle_ineq [of "(x - t) * (1 - a)" "(y - t) * a"] by (simp add: abs_mult)
  also have "\<dots> \<le> p / 2 * (1 - a) + q / 2 * a" using assms by (intro add_mono mult_right_mono) auto
  finally show ?thesis by (simp add: field_simps)
qed

lemma clock_ok_update:
  assumes old: "\<And>s. tab peer = Some s \<Longrightarrow> clock_ok theta max_rtt s"
    and off: "\<bar>off - theta\<bar> \<le> rtt / 2" and new: "snd (update_clock_sync_estimate alpha max_rtt now peer off rtt tab) peer = Some st"
  shows "clock_ok theta max_rtt st"
proof (cases "rtt < 0 \<or> (0 < max_rtt \<and> max_rtt < rtt)")
  case True
  then show ?thesis using new old by (auto simp: update_clock_sync_estimate_def split: if_splits)
next
  case False
  show ?thesis
  proof (cases "tab peer")
    case None
    then show ?thesis using new off False by (auto simp: update_clock_sync_estimate_def clock_ok_def Let_def)
  next
    case (Some s)
    define a where "a = effective_alpha alpha (min (best_rtt_us s) rtt) rtt"
    have a: "0 \<le> a" "a \<le> 1" using effective_alpha_bounds unfolding a_def by (auto intro: less_imp_le)
    have st: "offset_us st = offset_us s * (1 - a) + off * a" "rtt_us st = rtt_us s * (1 - a) + rtt * a"
      "best_rtt_us st = min (best_rtt_us s) rtt"
      using new Some False by (auto simp: update_clock_sync_estimate_def Let_def a_def)
    have s: "clock_ok theta max_rtt s" using old Some by simp
    have "rtt_us st \<le> max_rtt" if "0 < max_rtt"
      unfolding st using s that False by (intro convex_le [OF a]) (auto simp: clock_ok_def)
    moreover have "best_rtt_us st \<le> rtt_us st"
      unfolding st using s by (intro convex_ge [OF a]) (auto simp: clock_ok_def)
    moreover have "\<bar>offset_us st - theta\<bar> \<le> rtt_us st / 2"
      unfolding st using s off by (intro convex_error [OF a]) (auto simp: clock_ok_def)
    ultimately show ?thesis using s st(3) False by (auto simp: clock_ok_def)
  qed
qed

text \<open>
  The clock estimate is sound: if the peer's clock is ahead by a fixed amount, then after any
  number of pushes, lost answers included and whatever the two directions of the network cost, the
  estimated offset is off by at most half of the estimated round-trip time, and by at most half of
  the configured limit when there is one.
\<close>

theorem clock_offset_error:
  assumes "clock_synced alpha max_rtt theta peer tab" and "tab peer = Some st"
  shows "\<bar>offset_us st - real_of_int theta\<bar> \<le> rtt_us st / 2
    \<and> (0 < max_rtt \<longrightarrow> \<bar>offset_us st - real_of_int theta\<bar> \<le> max_rtt / 2)"
proof -
  have "clock_ok (real_of_int theta) max_rtt st"
    using assms
  proof (induction arbitrary: st)
    case (push tab t1 r a t4 now)
    show ?case
    proof (cases "receiver_recv_us (stamped theta r a) \<le> 0 \<or> receiver_ack_us (stamped theta r a) \<le> 0 \<or> t4 < t1")
      case True
      then show ?thesis using push by (simp add: update_clock_sync_from_rpc_response_def)
    next
      case False
      then have "snd (update_clock_sync_estimate alpha max_rtt now peer (sample_offset_us t1 t4 (stamped theta r a))
          (real_of_int (network_rtt_us t1 t4 (stamped theta r a))) tab) peer = Some st"
        using push.prems by (simp add: update_clock_sync_from_rpc_response_def)
      with push.IH sample_offset_error [OF push.hyps(2)] show ?thesis by (rule clock_ok_update)
    qed
  qed (auto simp: update_clock_sync_from_rpc_response_def)
  then show ?thesis by (auto simp: clock_ok_def)
qed

theorem clock_offset_error_witness:
  "\<exists>tab st. clock_synced (1/5) 0 1000 ''p'' tab \<and> tab ''p'' = Some st \<and> \<bar>offset_us st - 1000\<bar> \<le> rtt_us st / 2"
proof -
  define tab where "tab = update_clock_sync_from_rpc_response (1/5) 0 99 ''p'' 10 40 (Some (stamped 1000 20 25)) Map.empty"
  have c: "clock_synced (1/5) 0 1000 ''p'' tab"
    unfolding tab_def by (rule clock_synced.push [OF clock_synced.start]) (simp add: exchange_ok_def)
  have "\<exists>st. tab ''p'' = Some st"
    by (simp add: tab_def update_clock_sync_from_rpc_response_def update_clock_sync_estimate_def stamped_def
        build_rpc_push_ack_response_def network_rtt_us_def Let_def)
  then obtain st where "tab ''p'' = Some st" by blast
  with clock_offset_error [OF c this] c show ?thesis by auto
qed

end
