(* ===== verification/HandlerSessions.thy ===== *)
theory HandlerSessions
  imports FlowControl Microbatch "HOL-Library.Sublist"
begin

text \<open>
  The connection handlers of a server, \<^verbatim>\<open>server/handler.py\<close>: several processes, each the owner of some
  inference sessions, that pass pushed activations to one another; the intake of pushes; and the
  iterator that merges a client's stream with the pushes of its session and drops what was already
  handled. Message metadata is reduced to the fields the handlers read.
\<close>

section \<open>Messages\<close>

record push_meta =
  session_id :: string
  step_id :: "string option"
  pushed :: bool
  is_mb_start_signal :: bool
  is_microbatch_push :: bool
  mb_idx :: nat
  mb_offset :: int
  mb_size :: int
  mb_full_batch_size :: int
  total_micro_batches :: int_setting
  sender_blocks :: string
  receiver_blocks :: string
  sender_send_us :: int
  push_timestamp_us :: int
  sender_clock_offset_us :: int
  sender_clock_samples :: int

text \<open>A request as received: its tensors (opaque here), their bytes, and its metadata if it has any.\<close>

record 'a push_request =
  uids :: "string list"
  tensors :: "'a list"
  payload_bytes :: int
  metadata_bytes :: int
  meta :: "push_meta option"

record 'a mb_item =
  item_step_id :: "string option"
  item_mb_idx :: nat
  item_expected :: int
  item_payload :: "'a push_request"
  item_offset :: int
  item_size :: int
  item_full_batch_size :: int

datatype 'a queue_item = Full "'a push_request" | Micro "'a mb_item"

text \<open>The sentinel \<^const>\<open>None\<close> in a queue wakes the reader of a session that has ended.\<close>

datatype 'a event = NEW_SESSION string nat | END_SESSION string | PUSH string "'a queue_item" | SHUTDOWN

type_synonym mb_key = "string \<times> string option"

record 'a handler =
  session_queues :: "string \<rightharpoonup> 'a queue_item option list"
  session_handlers :: "string \<rightharpoonup> nat"
  mb_processed :: "mb_key \<rightharpoonup> nat set"
  mb_processed_timestamps :: "mb_key \<rightharpoonup> real"
  mb_expected :: "mb_key \<rightharpoonup> int"
  mb_received :: "mb_key \<rightharpoonup> int"
  s2s_link_stats :: "string \<rightharpoonup> telemetry"
  listening :: bool

record 'a cluster =
  n_handlers :: nat
  handlers :: "nat \<Rightarrow> 'a handler"
  event_queues :: "nat \<Rightarrow> 'a event list"

definition new_handler :: "'a handler" where
  "new_handler =
     \<lparr>session_queues = Map.empty, session_handlers = Map.empty, mb_processed = Map.empty,
      mb_processed_timestamps = Map.empty, mb_expected = Map.empty, mb_received = Map.empty,
      s2s_link_stats = Map.empty, listening = True\<rparr>"

definition new_cluster :: "nat \<Rightarrow> 'a cluster" where
  "new_cluster n = \<lparr>n_handlers = n, handlers = (\<lambda>_. new_handler), event_queues = (\<lambda>_. [])\<rparr>"

abbreviation set_handler :: "nat \<Rightarrow> 'a handler \<Rightarrow> 'a cluster \<Rightarrow> 'a cluster" where
  "set_handler k h c \<equiv> c\<lparr>handlers := (handlers c)(k := h)\<rparr>"

section \<open>Sessions\<close>

text \<open>The events go to every other handler.\<close>

definition broadcast :: "nat \<Rightarrow> 'a event \<Rightarrow> 'a cluster \<Rightarrow> 'a cluster" where
  "broadcast k e c =
     c\<lparr>event_queues := (\<lambda>j. if j < n_handlers c \<and> j \<noteq> k then event_queues c j @ [e] else event_queues c j)\<rparr>"

text \<open>Entering and leaving the context manager \<^verbatim>\<open>_managed_session\<close>.\<close>

definition open_session :: "nat \<Rightarrow> string \<Rightarrow> 'a cluster \<Rightarrow> ('a cluster, unit) outcome" where
  "open_session k sid c =
     (let h = handlers c k in
      if session_queues h sid \<noteq> None then (Inl AssertionError, c)
      else (Inr (), broadcast k (NEW_SESSION sid k)
              (set_handler k (h\<lparr>session_queues := (session_queues h)(sid \<mapsto> []),
                                session_handlers := (session_handlers h)(sid \<mapsto> k)\<rparr>) c)))"

definition end_session :: "nat \<Rightarrow> string \<Rightarrow> 'a cluster \<Rightarrow> ('a cluster, 'a queue_item option list) outcome" where
  "end_session k sid c =
     (let h = handlers c k in
      case session_queues h sid of
        None \<Rightarrow> (Inl KeyError, c)
      | Some q \<Rightarrow>
          let h1 = h\<lparr>session_queues := (session_queues h)(sid := None)\<rparr> in
          if session_handlers h1 sid = None then (Inl KeyError, set_handler k h1 c)
          else (Inr (q @ [None]), broadcast k (END_SESSION sid)
                  (set_handler k (h1\<lparr>session_handlers := (session_handlers h1)(sid := None)\<rparr>) c)))"

definition put_into_session_queue ::
  "nat \<Rightarrow> string \<Rightarrow> 'a queue_item \<Rightarrow> 'a cluster \<Rightarrow> ('a cluster, unit) outcome" where
  "put_into_session_queue k sid x c =
     (let h = handlers c k in
      case session_handlers h sid of
        None \<Rightarrow> (Inr (), c)
      | Some j \<Rightarrow>
          if j = k then
            (case session_queues h sid of
               None \<Rightarrow> (Inl KeyError, c)
             | Some q \<Rightarrow> (Inr (), set_handler k (h\<lparr>session_queues := (session_queues h)(sid \<mapsto> q @ [Some x])\<rparr>) c))
          else (Inr (), c\<lparr>event_queues := (event_queues c)(j := event_queues c j @ [PUSH sid x])\<rparr>))"

text \<open>\<open>get\<close> on the queue of a session of this handler: waits (\<^const>\<open>None\<close>) while the queue is empty.\<close>

definition get_from_session_queue ::
  "nat \<Rightarrow> string \<Rightarrow> 'a cluster \<Rightarrow> ('a queue_item option \<times> 'a cluster) option result" where
  "get_from_session_queue k sid c =
     (let h = handlers c k in
      case session_handlers h sid of
        None \<Rightarrow> Inl KeyError
      | Some j \<Rightarrow>
          if j \<noteq> k then Inl AssertionError
          else (case session_queues h sid of
                  None \<Rightarrow> Inl KeyError
                | Some [] \<Rightarrow> Inr None
                | Some (x # q) \<Rightarrow>
                    Inr (Some (x, set_handler k (h\<lparr>session_queues := (session_queues h)(sid \<mapsto> q)\<rparr>) c))))"

text \<open>One iteration of \<^verbatim>\<open>_listen_to_event_queue\<close>; \<^const>\<open>None\<close> when there is nothing to do.\<close>

definition listen_step :: "nat \<Rightarrow> 'a cluster \<Rightarrow> 'a cluster option" where
  "listen_step k c =
     (let h = handlers c k in
      if \<not> listening h then None
      else case event_queues c k of
        [] \<Rightarrow> None
      | e # es \<Rightarrow>
          let c1 = c\<lparr>event_queues := (event_queues c)(k := es)\<rparr> in
          Some (case e of
            SHUTDOWN \<Rightarrow> set_handler k (h\<lparr>listening := False\<rparr>) c1
          | NEW_SESSION sid j \<Rightarrow> set_handler k (h\<lparr>session_handlers := (session_handlers h)(sid \<mapsto> j)\<rparr>) c1
          | END_SESSION sid \<Rightarrow> set_handler k (h\<lparr>session_handlers := (session_handlers h)(sid := None)\<rparr>) c1
          | PUSH sid x \<Rightarrow>
              (case session_queues h sid of
                 None \<Rightarrow> c1
               | Some q \<Rightarrow> set_handler k (h\<lparr>session_queues := (session_queues h)(sid \<mapsto> q @ [Some x])\<rparr>) c1)))"

definition shutdown_handler :: "nat \<Rightarrow> 'a cluster \<Rightarrow> 'a cluster" where
  "shutdown_handler k c = c\<lparr>event_queues := (event_queues c)(k := event_queues c k @ [SHUTDOWN])\<rparr>"

section \<open>The intake of pushes\<close>

definition check_uids :: "string set \<Rightarrow> string list \<Rightarrow> string list result" where
  "check_uids served us =
     (if us = [] then Inl RuntimeError
      else if \<exists>u \<in> set us. u \<notin> served then Inl RuntimeError else Inr us)"

definition link_key :: "string \<Rightarrow> push_meta \<Rightarrow> string" where
  "link_key channel m = channel @ '':'' @ sender_blocks m @ ''->'' @ receiver_blocks m"

definition transfer_ms :: "int \<Rightarrow> int \<Rightarrow> real" where
  "transfer_ms receive_us stamp =
     (if 0 < stamp \<and> stamp \<le> receive_us then max 0 (real_of_int (receive_us - stamp) / 1000) else -1)"

definition wire_time_ms :: "int \<Rightarrow> push_meta \<Rightarrow> real" where
  "wire_time_ms receive_us m =
     (if 0 < sender_clock_samples m \<and> 0 < sender_send_us m
      then max 0 (real_of_int (receive_us - (sender_send_us m + sender_clock_offset_us m)) / 1000) else -1)"

text \<open>
  Configuration of a handler: the blocks it serves, the telemetry window, the time the idempotency
  record of a step is kept (\<^verbatim>\<open>_MB_PROCESSED_TTL\<close>) and the micro-batch size of the process.
\<close>

record handler_config =
  module_backends :: "string set"
  s2s_stats_window :: nat
  mb_processed_ttl :: real
  default_micro_batch_size :: int

definition forget_stale :: "real \<Rightarrow> real \<Rightarrow> 'a handler \<Rightarrow> 'a handler" where
  "forget_stale now ttl h =
     (let stale = (\<lambda>k. case mb_processed_timestamps h k of None \<Rightarrow> False | Some t \<Rightarrow> now - t > ttl) in
      h\<lparr>mb_processed := (\<lambda>k. if stale k then None else mb_processed h k),
        mb_processed_timestamps := (\<lambda>k. if stale k then None else mb_processed_timestamps h k)\<rparr>)"

definition begin_tracking :: "real \<Rightarrow> real \<Rightarrow> mb_key \<Rightarrow> 'a handler \<Rightarrow> 'a handler" where
  "begin_tracking now ttl key h =
     (if mb_processed h key \<noteq> None then h
      else forget_stale now ttl
             (h\<lparr>mb_processed := (mb_processed h)(key \<mapsto> {}),
                mb_processed_timestamps := (mb_processed_timestamps h)(key \<mapsto> now)\<rparr>))"

text \<open>
  \<^verbatim>\<open>_handle_microbatch_push\<close> at handler \<open>k\<close>, in three parts. \<open>accept_microbatch\<close> opens the record of the
  step, skips a micro-batch that is already in it (\<^const>\<open>False\<close>), notes it, takes the sample of the link
  and counts; \<open>now\<close> is the monotonic clock in seconds, \<open>receive_us\<close> the wall clock. A record that has
  just been forgotten makes the look-up raise. Reports and log lines are left out.
\<close>

definition expected_microbatches :: "handler_config \<Rightarrow> push_meta \<Rightarrow> int" where
  "expected_microbatches cfg m =
     resolve_expected_num_microbatches (default_micro_batch_size cfg) (mb_full_batch_size m)
       (total_micro_batches m) Unset"

definition count_microbatch :: "handler_config \<Rightarrow> push_meta \<Rightarrow> 'a handler \<Rightarrow> 'a handler" where
  "count_microbatch cfg m h =
     (let key = (session_id m, step_id m);
          h1 = (if mb_expected h key = None
                then h\<lparr>mb_expected := (mb_expected h)(key \<mapsto> expected_microbatches cfg m),
                       mb_received := (mb_received h)(key \<mapsto> 0)\<rparr> else h)
      in h1\<lparr>mb_received := (mb_received h1)(key \<mapsto> (case mb_received h1 key of None \<Rightarrow> 0 | Some n \<Rightarrow> n) + 1)\<rparr>)"

definition accept_microbatch ::
  "handler_config \<Rightarrow> real \<Rightarrow> int \<Rightarrow> 'a push_request \<Rightarrow> push_meta \<Rightarrow> 'a handler \<Rightarrow> ('a handler, bool) outcome" where
  "accept_microbatch cfg now receive_us req m h =
     (let key = (session_id m, step_id m);
          h1 = begin_tracking now (mb_processed_ttl cfg) key h
      in case mb_processed h1 key of
           None \<Rightarrow> (Inl KeyError, h1)
         | Some seen \<Rightarrow>
             if mb_idx m \<in> seen then (Inr False, h1)
             else
               let h2 = h1\<lparr>mb_processed := (mb_processed h1)(key \<mapsto> insert (mb_idx m) seen)\<rparr>
               in case record_s2s_network_sample (s2s_stats_window cfg) (link_key ''micro_batch'' m)
                         (payload_bytes req) (metadata_bytes req) (transfer_ms receive_us (push_timestamp_us m))
                         (wire_time_ms receive_us m) (0 < sender_clock_samples m) (s2s_link_stats h2) of
                    (Inl e, stats) \<Rightarrow> (Inl e, h2\<lparr>s2s_link_stats := stats\<rparr>)
                  | (Inr _, stats) \<Rightarrow> (Inr True, count_microbatch cfg m (h2\<lparr>s2s_link_stats := stats\<rparr>)))"

text \<open>The record is dropped when all micro-batches of the step have been queued.\<close>

definition end_tracking :: "push_meta \<Rightarrow> 'a handler \<Rightarrow> 'a handler" where
  "end_tracking m h =
     (let key = (session_id m, step_id m) in
      h\<lparr>mb_expected := (mb_expected h)(key := None), mb_received := (mb_received h)(key := None),
        mb_processed := (mb_processed h)(key := None),
        mb_processed_timestamps := (mb_processed_timestamps h)(key := None)\<rparr>)"

definition mb_item_of :: "handler_config \<Rightarrow> 'a push_request \<Rightarrow> push_meta \<Rightarrow> 'a mb_item" where
  "mb_item_of cfg req m =
     \<lparr>item_step_id = step_id m, item_mb_idx = mb_idx m, item_expected = expected_microbatches cfg m,
      item_payload = req, item_offset = mb_offset m, item_size = mb_size m,
      item_full_batch_size = mb_full_batch_size m\<rparr>"

definition handle_microbatch_push ::
  "handler_config \<Rightarrow> real \<Rightarrow> int \<Rightarrow> nat \<Rightarrow> 'a push_request \<Rightarrow> push_meta \<Rightarrow> 'a cluster \<Rightarrow> ('a cluster, unit) outcome" where
  "handle_microbatch_push cfg now receive_us k req m c =
     (case accept_microbatch cfg now receive_us req m (handlers c k) of
        (Inl e, h) \<Rightarrow> (Inl e, set_handler k h c)
      | (Inr fresh, h) \<Rightarrow>
          if \<not> fresh then (Inr (), set_handler k h c)
          else (case put_into_session_queue k (session_id m) (Micro (mb_item_of cfg req m)) (set_handler k h c) of
                  (Inl e, c2) \<Rightarrow> (Inl e, c2)
                | (Inr _, c2) \<Rightarrow>
                    if expected_microbatches cfg m \<le> the (mb_received h (session_id m, step_id m))
                    then (Inr (), set_handler k (end_tracking m (handlers c2 k)) c2)
                    else (Inr (), c2)))"

text \<open>\<^verbatim>\<open>rpc_push\<close>; the answer is the acknowledgement with the two clock readings.\<close>

definition rpc_push ::
  "handler_config \<Rightarrow> real \<Rightarrow> int \<Rightarrow> int \<Rightarrow> nat \<Rightarrow> 'a push_request \<Rightarrow> 'a cluster \<Rightarrow> ('a cluster, push_ack) outcome" where
  "rpc_push cfg now receive_us ack_us k req c =
     (case check_uids (module_backends cfg) (uids req) of
        Inl e \<Rightarrow> (Inl e, c)
      | Inr _ \<Rightarrow>
          (case meta req of
             None \<Rightarrow> (Inl ValueError, c)
           | Some m \<Rightarrow>
               let ack = build_rpc_push_ack_response receive_us ack_us in
               if is_microbatch_push m then
                 (case handle_microbatch_push cfg now receive_us k req m c of
                    (Inl e, c1) \<Rightarrow> (Inl e, c1)
                  | (Inr _, c1) \<Rightarrow> (Inr ack, c1))
               else
                 let h = handlers c k;
                     (r, stats) =
                       (if pushed m
                        then record_s2s_network_sample (s2s_stats_window cfg) (link_key ''full_batch'' m)
                               (payload_bytes req) (metadata_bytes req) (transfer_ms receive_us (sender_send_us m))
                               (wire_time_ms receive_us m) (0 < sender_clock_samples m) (s2s_link_stats h)
                        else (Inr (), s2s_link_stats h));
                     c1 = set_handler k (h\<lparr>s2s_link_stats := stats\<rparr>) c
                 in case r of
                      Inl e \<Rightarrow> (Inl e, c1)
                    | Inr _ \<Rightarrow>
                        (case put_into_session_queue k (session_id m) (Full req) c1 of
                           (Inl e, c2) \<Rightarrow> (Inl e, c2)
                         | (Inr _, c2) \<Rightarrow> (Inr ack, c2))))"

section \<open>The iterator over the steps of a session\<close>

record step_filter =
  processed_step_ids :: "string set"
  microbatch_step_ids :: "string set"
  processed_microbatch_ids :: "(string option \<times> nat) set"
  n_pushes :: nat
  n_late_pushes :: nat

definition new_step_filter :: step_filter where
  "new_step_filter =
     \<lparr>processed_step_ids = {}, microbatch_step_ids = {}, processed_microbatch_ids = {}, n_pushes = 0, n_late_pushes = 0\<rparr>"

definition filter_micro :: "'a mb_item \<Rightarrow> step_filter \<Rightarrow> bool \<times> step_filter" where
  "filter_micro x f =
     (let sid = item_step_id x; key = (sid, item_mb_idx x);
          late = (case sid of None \<Rightarrow> False
                  | Some s \<Rightarrow> s \<in> processed_step_ids f \<and> s \<notin> microbatch_step_ids f) in
      if late then (False, f)
      else if key \<in> processed_microbatch_ids f then (False, f)
      else (True, f\<lparr>processed_microbatch_ids := insert key (processed_microbatch_ids f),
                    microbatch_step_ids := (case sid of None \<Rightarrow> microbatch_step_ids f
                                            | Some s \<Rightarrow> insert s (microbatch_step_ids f))\<rparr>))"

definition request_step_id :: "'a push_request \<Rightarrow> string option" where
  "request_step_id req = (case meta req of None \<Rightarrow> None | Some m \<Rightarrow> step_id m)"

definition filter_full :: "'a push_request \<Rightarrow> step_filter \<Rightarrow> bool \<times> step_filter" where
  "filter_full req f =
     (let sid = request_step_id req;
          was_pushed = (case meta req of None \<Rightarrow> False | Some m \<Rightarrow> pushed m);
          signal = (case meta req of None \<Rightarrow> False | Some m \<Rightarrow> is_mb_start_signal m) in
      if signal then (False, f)
      else
        let f1 = (if was_pushed then f\<lparr>n_pushes := n_pushes f + 1\<rparr> else f) in
        if (case sid of None \<Rightarrow> False | Some s \<Rightarrow> s \<in> microbatch_step_ids f1) then (False, f1)
        else (case sid of
                None \<Rightarrow> (True, f1)
              | Some s \<Rightarrow>
                  if s \<notin> processed_step_ids f1
                  then (True, f1\<lparr>processed_step_ids := insert s (processed_step_ids f1)\<rparr>)
                  else if was_pushed then (False, f1\<lparr>n_late_pushes := n_late_pushes f1 + 1\<rparr>)
                  else (False, f1)))"

definition has_content :: "'a push_request \<Rightarrow> bool" where
  "has_content req \<longleftrightarrow> tensors req \<noteq> [] \<or> meta req \<noteq> None"

text \<open>
  \<^verbatim>\<open>_iterate_inference_steps\<close> on the requests in the order in which they come, whether from the stream
  or from the session's queue. It ends with the sentinel, with an empty request, or when nothing
  comes any more. What it yields is what the server computes.
\<close>

fun iterate_inference_steps :: "'a queue_item option list \<Rightarrow> step_filter \<Rightarrow> 'a queue_item list" where
  "iterate_inference_steps [] f = []"
| "iterate_inference_steps (None # rest) f = []"
| "iterate_inference_steps (Some (Micro x) # rest) f =
     (let (take_it, f') = filter_micro x f in
      if take_it then Micro x # iterate_inference_steps rest f' else iterate_inference_steps rest f')"
| "iterate_inference_steps (Some (Full req) # rest) f =
     (if \<not> has_content req then []
      else let (take_it, f') = filter_full req f in
        if take_it then Full req # iterate_inference_steps rest f' else iterate_inference_steps rest f')"

section \<open>Every step is computed once\<close>

text \<open>
  The steps computed as a whole, and the micro-batches computed, among what the iterator yields.
  \<open>arrived\<close> is what comes before the iterator ends.
\<close>

fun full_steps :: "'a queue_item list \<Rightarrow> string list" where
  "full_steps [] = []"
| "full_steps (Full req # ys) =
     (case request_step_id req of None \<Rightarrow> full_steps ys | Some s \<Rightarrow> s # full_steps ys)"
| "full_steps (Micro x # ys) = full_steps ys"

fun micro_keys :: "'a queue_item list \<Rightarrow> (string option \<times> nat) list" where
  "micro_keys [] = []"
| "micro_keys (Full req # ys) = micro_keys ys"
| "micro_keys (Micro x # ys) = (item_step_id x, item_mb_idx x) # micro_keys ys"

fun arrived :: "'a queue_item option list \<Rightarrow> 'a queue_item list" where
  "arrived [] = []"
| "arrived (None # rest) = []"
| "arrived (Some (Micro x) # rest) = Micro x # arrived rest"
| "arrived (Some (Full req) # rest) = (if has_content req then Full req # arrived rest else [])"

definition is_signal :: "'a push_request \<Rightarrow> bool" where
  "is_signal req \<longleftrightarrow> (case meta req of None \<Rightarrow> False | Some m \<Rightarrow> is_mb_start_signal m)"

definition filter_ok :: "step_filter \<Rightarrow> bool" where
  "filter_ok f \<longleftrightarrow> processed_step_ids f \<inter> microbatch_step_ids f = {} \<and>
     (\<forall>s i. (Some s, i) \<in> processed_microbatch_ids f \<longrightarrow> s \<in> microbatch_step_ids f)"

lemma filter_micro_cases:
  assumes "filter_micro x f = (b, f')" and "filter_ok f"
  obtains (drop_late) s where "\<not> b" "f' = f" "item_step_id x = Some s" "s \<in> processed_step_ids f"
  | (drop_dup) "\<not> b" "f' = f" "(item_step_id x, item_mb_idx x) \<in> processed_microbatch_ids f"
  | (take) "b" "(item_step_id x, item_mb_idx x) \<notin> processed_microbatch_ids f"
      "set_option (item_step_id x) \<inter> processed_step_ids f = {}"
      "f' = f\<lparr>processed_microbatch_ids := insert (item_step_id x, item_mb_idx x) (processed_microbatch_ids f),
              microbatch_step_ids := set_option (item_step_id x) \<union> microbatch_step_ids f\<rparr>"
proof -
  let ?k = "(item_step_id x, item_mb_idx x)"
  consider (late) s where "item_step_id x = Some s" "s \<in> processed_step_ids f"
    | (fresh) "set_option (item_step_id x) \<inter> processed_step_ids f = {}" by (cases "item_step_id x") auto
  then show thesis
  proof cases
    case (late s)
    then have "s \<notin> microbatch_step_ids f" using assms(2) by (auto simp: filter_ok_def)
    then have "filter_micro x f = (False, f)" using late by (simp add: filter_micro_def)
    then show thesis using assms(1) by (intro drop_late [OF _ _ late]) simp_all
  next
    case fresh
    show thesis
    proof (cases "?k \<in> processed_microbatch_ids f")
      case True
      then have "filter_micro x f = (False, f)" by (simp add: filter_micro_def Let_def)
      then show thesis using assms(1) by (intro drop_dup [OF _ _ True]) simp_all
    next
      case False
      then have "filter_micro x f = (True, f\<lparr>processed_microbatch_ids := insert ?k (processed_microbatch_ids f),
          microbatch_step_ids := set_option (item_step_id x) \<union> microbatch_step_ids f\<rparr>)"
        using fresh by (cases "item_step_id x") (simp_all add: filter_micro_def Let_def)
      then show thesis using assms(1) by (intro take [OF _ False fresh]) simp_all
    qed
  qed
qed

lemma filter_full_cases:
  assumes "filter_full req f = (b, f')" and "filter_ok f"
  obtains (signal) "\<not> b" "f' = f" "is_signal req"
  | (drop_micro) s where "\<not> b" "request_step_id req = Some s" "s \<in> microbatch_step_ids f"
      "processed_step_ids f' = processed_step_ids f"
  | (drop_dup) s where "\<not> b" "request_step_id req = Some s" "s \<in> processed_step_ids f"
      "processed_step_ids f' = processed_step_ids f"
  | (take) "b" "set_option (request_step_id req) \<inter> (processed_step_ids f \<union> microbatch_step_ids f) = {}"
      "processed_step_ids f' = set_option (request_step_id req) \<union> processed_step_ids f"
proof (cases "is_signal req")
  case True
  then have "filter_full req f = (False, f)"
    by (simp add: filter_full_def is_signal_def Let_def split: option.splits)
  then show thesis using assms(1) True signal by simp
next
  case False
  define f1 where "f1 = (if (case meta req of None \<Rightarrow> False | Some m \<Rightarrow> pushed m)
    then f\<lparr>n_pushes := n_pushes f + 1\<rparr> else f)"
  have f1: "processed_step_ids f1 = processed_step_ids f" "microbatch_step_ids f1 = microbatch_step_ids f"
    by (simp_all add: f1_def)
  note eq = assms(1) [unfolded filter_full_def Let_def, folded f1_def is_signal_def]
  show thesis
  proof (cases "request_step_id req")
    case None
    then show thesis using eq False f1 take by (simp split: if_splits)
  next
    case (Some s)
    consider "s \<in> microbatch_step_ids f" | "s \<notin> microbatch_step_ids f" "s \<in> processed_step_ids f"
      | "s \<notin> microbatch_step_ids f" "s \<notin> processed_step_ids f" by blast
    then show thesis
    proof cases
      case 1
      then show thesis using eq False Some f1 drop_micro [of s] by auto
    next
      case 2
      then show thesis using eq False Some f1 drop_dup [of s] by (auto split: if_splits)
    next
      case 3
      then show thesis using eq False Some f1 take by auto
    qed
  qed
qed

lemma filter_full_keeps [simp]:
  assumes "filter_full req f = (b, f')"
  shows "microbatch_step_ids f' = microbatch_step_ids f" "processed_microbatch_ids f' = processed_microbatch_ids f"
  using assms by (auto simp: filter_full_def Let_def split: if_splits option.splits)

lemma filter_micro_ok: "filter_micro x f = (b, f') \<Longrightarrow> filter_ok f \<Longrightarrow> filter_ok f'"
  by (erule (1) filter_micro_cases) (auto simp: filter_ok_def)

lemma filter_full_ok: "filter_full req f = (b, f') \<Longrightarrow> filter_ok f \<Longrightarrow> filter_ok f'"
  by (frule filter_full_keeps(1), frule filter_full_keeps(2), erule (1) filter_full_cases) (auto simp: filter_ok_def)

definition computed_once :: "step_filter \<Rightarrow> 'a queue_item list \<Rightarrow> bool" where
  "computed_once f ys \<longleftrightarrow>
     distinct (full_steps ys) \<and> distinct (micro_keys ys) \<and>
     set (full_steps ys) \<inter> (processed_step_ids f \<union> microbatch_step_ids f) = {} \<and>
     set (micro_keys ys) \<inter> processed_microbatch_ids f = {} \<and>
     (\<forall>s i. (Some s, i) \<in> set (micro_keys ys) \<longrightarrow> s \<notin> set (full_steps ys) \<and> s \<notin> processed_step_ids f)"

lemma computed_once_micro:
  assumes "computed_once f' ys" and "filter_micro x f = (True, f')" and "filter_ok f"
  shows "computed_once f (Micro x # ys)"
  using assms(2,3)
proof (cases rule: filter_micro_cases)
  case take
  then show ?thesis using assms(1) by (cases "item_step_id x") (auto simp: computed_once_def)
qed simp_all

lemma computed_once_full:
  assumes "computed_once f' ys" and "filter_full req f = (True, f')" and "filter_ok f"
  shows "computed_once f (Full req # ys)"
  using assms(2,3)
proof (cases rule: filter_full_cases)
  case take
  note keeps = filter_full_keeps [OF assms(2)]
  show ?thesis
  proof (cases "request_step_id req")
    case None
    then show ?thesis using assms(1) keeps take by (simp add: computed_once_def)
  next
    case (Some s)
    then have "s \<notin> set (full_steps ys)" "\<forall>i. (Some s, i) \<notin> set (micro_keys ys)"
      using assms(1) take by (auto simp: computed_once_def)
    then show ?thesis using assms(1) keeps take Some by (simp add: computed_once_def)
  qed
qed simp_all

lemma dropped_unchanged:
  "filter_micro x f = (False, f') \<Longrightarrow> f' = f"
  "filter_full req f = (False, f') \<Longrightarrow> filter_ok f \<Longrightarrow> processed_step_ids f' = processed_step_ids f"
  by (simp add: filter_micro_def Let_def split: if_splits) (erule (1) filter_full_cases; simp)

lemma iterate_computed_once:
  "filter_ok f \<Longrightarrow> computed_once f (iterate_inference_steps items f)"
proof (induction items f rule: iterate_inference_steps.induct)
  case (3 x rest f)
  obtain b f' where fm: "filter_micro x f = (b, f')" by fastforce
  have ok: "computed_once f' (iterate_inference_steps rest f')"
    using 3 fm filter_micro_ok [OF fm] by (cases b) auto
  show ?case
  proof (cases b)
    case True
    then show ?thesis using ok fm 3(3) computed_once_micro by (auto simp: Let_def)
  next
    case False
    then have "f' = f" using fm dropped_unchanged(1) by simp
    then show ?thesis using ok fm False by simp
  qed
next
  case (4 req rest f)
  obtain b f' where ff: "filter_full req f = (b, f')" by fastforce
  show ?case
  proof (cases "has_content req")
    case True
    have ok: "computed_once f' (iterate_inference_steps rest f')"
      using 4 ff filter_full_ok [OF ff] True by (cases b) auto
    show ?thesis
    proof (cases b)
      case True
      then show ?thesis using ok ff 4(3) \<open>has_content req\<close> computed_once_full by (auto simp: Let_def)
    next
      case False
      then have "computed_once f (iterate_inference_steps rest f')"
        using ok ff filter_full_keeps [OF ff] dropped_unchanged(2) [of req f f'] 4(3) by (simp add: computed_once_def)
      then show ?thesis using ff False \<open>has_content req\<close> by simp
    qed
  qed (simp add: computed_once_def)
qed (simp_all add: computed_once_def)

lemma iterate_subseq: "subseq (iterate_inference_steps items f) (arrived items)"
  by (induction items f rule: iterate_inference_steps.induct) (auto simp: Let_def split: prod.split)

text \<open>What arrives is computed, unless the same work already was.\<close>

definition covered :: "step_filter \<Rightarrow> 'a queue_item list \<Rightarrow> 'a queue_item \<Rightarrow> bool" where
  "covered f ys y =
     (case y of
        Micro x \<Rightarrow>
          (item_step_id x, item_mb_idx x) \<in> set (micro_keys ys) \<union> processed_microbatch_ids f \<or>
          set_option (item_step_id x) \<inter> (set (full_steps ys) \<union> processed_step_ids f) \<noteq> {}
      | Full req \<Rightarrow>
          is_signal req \<or>
          (case request_step_id req of
             None \<Rightarrow> Full req \<in> set ys
           | Some s \<Rightarrow>
               s \<in> set (full_steps ys) \<union> processed_step_ids f \<or>
               s \<in> microbatch_step_ids f \<or> (\<exists>i. (Some s, i) \<in> set (micro_keys ys))))"

lemma covered_mono:
  assumes "covered f' ys y" and "set ys \<subseteq> set zs" and "set (full_steps ys) \<subseteq> set (full_steps zs)"
    and "set (micro_keys ys) \<subseteq> set (micro_keys zs)"
    and "processed_step_ids f' \<subseteq> set (full_steps zs) \<union> processed_step_ids f"
    and "processed_microbatch_ids f' \<subseteq> set (micro_keys zs) \<union> processed_microbatch_ids f"
    and "\<And>s. s \<in> microbatch_step_ids f' \<Longrightarrow> s \<in> microbatch_step_ids f \<or> (\<exists>i. (Some s, i) \<in> set (micro_keys zs))"
  shows "covered f zs y"
proof (cases y)
  case (Micro x)
  then show ?thesis using assms by (cases "item_step_id x") (auto simp: covered_def)
next
  case (Full req)
  show ?thesis
  proof (cases "request_step_id req")
    case None
    then show ?thesis using Full assms(1,2) by (auto simp: covered_def)
  next
    case (Some s)
    then show ?thesis using Full assms(1,3-5) assms(7) [of s] by (auto simp: covered_def)
  qed
qed

lemma covered_skip:
  "covered f' ys y \<Longrightarrow> processed_step_ids f' = processed_step_ids f \<Longrightarrow>
   microbatch_step_ids f' = microbatch_step_ids f \<Longrightarrow> processed_microbatch_ids f' = processed_microbatch_ids f \<Longrightarrow>
   covered f ys y"
  by (erule covered_mono) auto

lemma iterate_covers:
  "filter_ok f \<Longrightarrow> y \<in> set (arrived items) \<Longrightarrow> covered f (iterate_inference_steps items f) y"
proof (induction items f rule: iterate_inference_steps.induct)
  case (3 x rest f)
  obtain b f' where fm: "filter_micro x f = (b, f')" by fastforce
  let ?ys = "iterate_inference_steps rest f'"
  have rest: "covered f' ?ys y" if "y \<in> set (arrived rest)"
    using 3 fm filter_micro_ok [OF fm] that by (cases b) auto
  from fm 3(3) show ?case
  proof (cases rule: filter_micro_cases)
    case (drop_late s)
    then show ?thesis using rest fm 3(4) by (auto simp: covered_def)
  next
    case drop_dup
    then show ?thesis using rest fm 3(4) by (auto simp: covered_def)
  next
    case take
    have "covered f (Micro x # ?ys) y" if "y \<in> set (arrived rest)"
      by (rule covered_mono [OF rest [OF that]]) (use take in \<open>auto simp: elem_set\<close>)
    moreover have "covered f (Micro x # ?ys) (Micro x)" by (simp add: covered_def)
    ultimately show ?thesis using 3(4) fm take(1) by auto
  qed
next
  case (4 req rest f)
  obtain b f' where ff: "filter_full req f = (b, f')" by fastforce
  let ?ys = "iterate_inference_steps rest f'"
  have content: "has_content req" using 4(4) by (auto split: if_splits)
  note keeps = filter_full_keeps [OF ff]
  have rest: "covered f' ?ys y" if "y \<in> set (arrived rest)"
    using 4 ff filter_full_ok [OF ff] that content by (cases b) auto
  have y: "y = Full req \<or> y \<in> set (arrived rest)" using 4(4) content by auto
  from ff 4(3) show ?case
  proof (cases rule: filter_full_cases)
    case signal
    then show ?thesis using rest ff y content by (auto simp: covered_def)
  next
    case (drop_micro s)
    then show ?thesis
      using y ff content covered_skip [OF rest drop_micro(4) keeps] by (auto simp: covered_def)
  next
    case (drop_dup s)
    then show ?thesis
      using y ff content covered_skip [OF rest drop_dup(4) keeps] by (auto simp: covered_def)
  next
    case take
    have "covered f (Full req # ?ys) y" if "y \<in> set (arrived rest)"
      by (rule covered_mono [OF rest [OF that]])
        (use take keeps in \<open>cases "request_step_id req"; auto\<close>)+
    moreover have "covered f (Full req # ?ys) (Full req)" by (cases "request_step_id req") (simp_all add: covered_def)
    ultimately show ?thesis using y ff take(1) content by auto
  qed
qed simp_all

text \<open>
  C4 A server computes every step of a session once. Whatever the order and repetition in which full
  requests and micro-batches arrive over the client's stream and the pushes of the previous server,
  what the iterator yields is a selection of them, in their order, in which no step is computed as a
  whole twice, no micro-batch twice, and no step in both ways. Nothing is lost either: a micro-batch
  that arrived is computed unless its step was computed as a whole, and a full request that arrived
  is computed unless its step already was, as a whole or in micro-batches.
\<close>

theorem steps_computed_once:
  fixes items :: "'a queue_item option list"
  defines "ys \<equiv> iterate_inference_steps items new_step_filter"
  shows "subseq ys (arrived items)
    \<and> distinct (full_steps ys) \<and> distinct (micro_keys ys)
    \<and> (\<forall>s i. (Some s, i) \<in> set (micro_keys ys) \<longrightarrow> s \<notin> set (full_steps ys))
    \<and> (\<forall>x. Micro x \<in> set (arrived items) \<longrightarrow>
         (item_step_id x, item_mb_idx x) \<in> set (micro_keys ys)
         \<or> (\<exists>s. item_step_id x = Some s \<and> s \<in> set (full_steps ys)))
    \<and> (\<forall>req. Full req \<in> set (arrived items) \<longrightarrow> \<not> is_signal req \<longrightarrow>
         (case request_step_id req of
            None \<Rightarrow> Full req \<in> set ys
          | Some s \<Rightarrow> s \<in> set (full_steps ys) \<or> (\<exists>i. (Some s, i) \<in> set (micro_keys ys))))"
proof -
  have ok: "filter_ok new_step_filter" by (simp add: filter_ok_def new_step_filter_def)
  have once: "computed_once new_step_filter ys" unfolding ys_def using ok by (rule iterate_computed_once)
  have cov: "covered new_step_filter ys y" if "y \<in> set (arrived items)" for y
    unfolding ys_def using ok that by (rule iterate_covers)
  have micro: "(item_step_id x, item_mb_idx x) \<in> set (micro_keys ys)
         \<or> (\<exists>s. item_step_id x = Some s \<and> s \<in> set (full_steps ys))" if "Micro x \<in> set (arrived items)" for x
    using cov [OF that] by (cases "item_step_id x") (auto simp: covered_def new_step_filter_def)
  have full: "case request_step_id req of
            None \<Rightarrow> Full req \<in> set ys
          | Some s \<Rightarrow> s \<in> set (full_steps ys) \<or> (\<exists>i. (Some s, i) \<in> set (micro_keys ys))"
    if "Full req \<in> set (arrived items)" "\<not> is_signal req" for req
    using cov [OF that(1)] that(2) by (auto simp: covered_def new_step_filter_def split: option.splits)
  show ?thesis
    using once micro full iterate_subseq unfolding computed_once_def ys_def by blast
qed


definition sample_micro :: "nat \<Rightarrow> unit queue_item" where
  "sample_micro i = Micro \<lparr>item_step_id = Some ''s1'', item_mb_idx = i, item_expected = 2,
     item_payload = \<lparr>uids = [''b.0''], tensors = [], payload_bytes = 0, metadata_bytes = 0, meta = None\<rparr>,
     item_offset = 0, item_size = 1, item_full_batch_size = 2\<rparr>"

theorem steps_computed_once_witness:
  "micro_keys (iterate_inference_steps [Some (sample_micro 0), Some (sample_micro 0), Some (sample_micro 1)]
      new_step_filter) = [(Some ''s1'', 0), (Some ''s1'', 1)]
   \<and> distinct (micro_keys (iterate_inference_steps [Some (sample_micro 0), Some (sample_micro 0), Some (sample_micro 1)]
      new_step_filter))"
  using steps_computed_once [of "[Some (sample_micro 0), Some (sample_micro 0), Some (sample_micro 1)]"]
  by (simp add: sample_micro_def filter_micro_def new_step_filter_def Let_def)

section \<open>Handlers and their sessions\<close>

text \<open>
  The life of a server: sessions open and close, pushes arrive at any handler, readers take items,
  handlers work off their event queues, in any order. The set collects the session identifiers used
  so far; clients draw identifiers that were never used.
\<close>

inductive server_run :: "handler_config \<Rightarrow> nat \<Rightarrow> string set \<Rightarrow> 'a cluster \<Rightarrow> bool" for cfg n where
  boot: "server_run cfg n {} (new_cluster n)"
| open_new: "server_run cfg n used c \<Longrightarrow> k < n \<Longrightarrow> sid \<notin> used \<Longrightarrow> open_session k sid c = (r, c') \<Longrightarrow>
    server_run cfg n (insert sid used) c'"
| close: "server_run cfg n used c \<Longrightarrow> k < n \<Longrightarrow> session_queues (handlers c k) sid \<noteq> None \<Longrightarrow>
    end_session k sid c = (r, c') \<Longrightarrow> server_run cfg n used c'"
| push: "server_run cfg n used c \<Longrightarrow> k < n \<Longrightarrow> rpc_push cfg now t_recv t_ack k req c = (r, c') \<Longrightarrow>
    server_run cfg n used c'"
| read: "server_run cfg n used c \<Longrightarrow> k < n \<Longrightarrow> get_from_session_queue k sid c = Inr (Some (x, c')) \<Longrightarrow>
    server_run cfg n used c'"
| listen: "server_run cfg n used c \<Longrightarrow> k < n \<Longrightarrow> listen_step k c = Some c' \<Longrightarrow> server_run cfg n used c'"
| stop: "server_run cfg n used c \<Longrightarrow> k < n \<Longrightarrow> server_run cfg n used (shutdown_handler k c)"

fun event_session :: "'a event \<Rightarrow> string option" where
  "event_session (NEW_SESSION sid j) = Some sid"
| "event_session (END_SESSION sid) = Some sid"
| "event_session (PUSH sid x) = None"
| "event_session SHUTDOWN = None"

text \<open>
  What the tables of the handlers agree on: a handler has a queue for exactly the sessions its own
  table assigns to it, a session has one owner, and announcements in a handler's queue concern
  sessions of others.
\<close>

definition handler_routes ::
  "nat \<Rightarrow> string set \<Rightarrow> nat \<Rightarrow> (string \<rightharpoonup> 'q) \<Rightarrow> (string \<rightharpoonup> nat) \<Rightarrow> 'a event list \<Rightarrow> bool" where
  "handler_routes n used k sq sh ev \<longleftrightarrow>
     (\<forall>sid. sh sid = Some k \<longleftrightarrow> sid \<in> dom sq) \<and> ran sh \<subseteq> {..<n} \<and> dom sq \<subseteq> used \<and>
     (\<forall>e \<in> set ev. \<forall>sid. event_session e = Some sid \<longrightarrow> sid \<in> used \<and> sid \<notin> dom sq) \<and>
     (\<forall>sid j. NEW_SESSION sid j \<in> set ev \<longrightarrow> j < n \<and> j \<noteq> k)"

abbreviation routes_at :: "nat \<Rightarrow> string set \<Rightarrow> 'a cluster \<Rightarrow> nat \<Rightarrow> bool" where
  "routes_at n used c k \<equiv>
     handler_routes n used k (session_queues (handlers c k)) (session_handlers (handlers c k)) (event_queues c k)"

definition routes_ok :: "nat \<Rightarrow> string set \<Rightarrow> 'a cluster \<Rightarrow> bool" where
  "routes_ok n used c \<longleftrightarrow>
     n_handlers c = n \<and> (\<forall>k < n. routes_at n used c k) \<and>
     (\<forall>j < n. \<forall>k < n. j \<noteq> k \<longrightarrow> dom (session_queues (handlers c j)) \<inter> dom (session_queues (handlers c k)) = {})"

lemma routes_okD:
  assumes "routes_ok n used c" and "k < n"
  shows "n_handlers c = n" and "routes_at n used c k"
    and "j < n \<Longrightarrow> j \<noteq> k \<Longrightarrow> dom (session_queues (handlers c j)) \<inter> dom (session_queues (handlers c k)) = {}"
  using assms by (simp_all add: routes_ok_def)

lemma handler_routes_event:
  "handler_routes n used k sq sh ev \<Longrightarrow> event_session e = None \<Longrightarrow> handler_routes n used k sq sh (ev @ [e])"
  by (cases e) (auto simp: handler_routes_def)

lemma handler_routes_dom: "handler_routes n used k sq sh ev \<Longrightarrow> dom sq' = dom sq \<Longrightarrow> handler_routes n used k sq' sh ev"
  by (simp add: handler_routes_def)

lemma handler_routes_drop: "handler_routes n used k sq sh (e # ev) \<Longrightarrow> handler_routes n used k sq sh ev"
  by (simp add: handler_routes_def)

lemma handler_routes_new:
  "handler_routes n used k sq sh (NEW_SESSION sid j # ev) \<Longrightarrow> handler_routes n used k sq (sh(sid \<mapsto> j)) ev"
  unfolding handler_routes_def ran_def by (auto split: if_splits)

lemma handler_routes_end:
  "handler_routes n used k sq sh (END_SESSION sid # ev) \<Longrightarrow> handler_routes n used k sq (sh(sid := None)) ev"
  unfolding handler_routes_def ran_def by (auto split: if_splits)

lemma handler_routes_open:
  assumes "handler_routes n used k sq sh ev" and "sid \<notin> used" and "k < n"
  shows "handler_routes n (insert sid used) k (sq(sid \<mapsto> q)) (sh(sid \<mapsto> k)) ev"
  using assms unfolding handler_routes_def ran_def by (auto split: if_splits)

lemma handler_routes_announce:
  assumes "handler_routes n used k sq sh ev" and "sid \<notin> used" and "j < n" and "j \<noteq> k"
  shows "handler_routes n (insert sid used) k sq sh (ev @ [NEW_SESSION sid j])"
  using assms unfolding handler_routes_def by auto

lemma handler_routes_close:
  assumes "handler_routes n used k sq sh ev"
  shows "handler_routes n used k (sq(sid := None)) (sh(sid := None)) ev"
  using assms unfolding handler_routes_def ran_def by (auto split: if_splits)

lemma handler_routes_retract:
  assumes "handler_routes n used k sq sh ev" and "sid \<in> used" and "sid \<notin> dom sq"
  shows "handler_routes n used k sq sh (ev @ [END_SESSION sid])"
  using assms unfolding handler_routes_def by auto

text \<open>A change at one handler that keeps the sessions it has, and harmless events for others.\<close>

lemma routes_ok_update:
  assumes ok: "routes_ok n used c" and "n_handlers c' = n_handlers c"
    and "\<And>j. session_handlers (handlers c' j) = session_handlers (handlers c j)"
    and "\<And>j. dom (session_queues (handlers c' j)) = dom (session_queues (handlers c j))"
    and "\<And>j. event_queues c' j = event_queues c j \<or> (\<exists>e. event_session e = None \<and> event_queues c' j = event_queues c j @ [e])"
  shows "routes_ok n used c'"
proof -
  have "routes_at n used c' j" if "j < n" for j
  proof -
    have "handler_routes n used j (session_queues (handlers c' j)) (session_handlers (handlers c j)) (event_queues c j)"
      using routes_okD(2) [OF ok that] assms(4) by (rule handler_routes_dom)
    then show ?thesis using assms(3,5) [of j] handler_routes_event by metis
  qed
  then show ?thesis using ok assms(2,4) by (simp add: routes_ok_def)
qed

lemma routes_ok_boot: "routes_ok n {} (new_cluster n)"
  by (simp add: routes_ok_def handler_routes_def new_cluster_def new_handler_def)

definition queued :: "nat \<Rightarrow> string \<Rightarrow> 'a queue_item \<Rightarrow> 'a cluster \<Rightarrow> 'a cluster" where
  "queued k sid x c =
     (case session_handlers (handlers c k) sid of
        None \<Rightarrow> c
      | Some j \<Rightarrow>
          if j = k
          then c\<lparr>handlers := (handlers c)(k := (handlers c k)\<lparr>session_queues := (session_queues (handlers c k))
                 (sid \<mapsto> the (session_queues (handlers c k) sid) @ [Some x])\<rparr>)\<rparr>
          else c\<lparr>event_queues := (event_queues c)(j := event_queues c j @ [PUSH sid x])\<rparr>)"

lemma put_queues:
  assumes "routes_at n used c k"
  shows "put_into_session_queue k sid x c = (Inr (), queued k sid x c)"
proof -
  have "session_handlers (handlers c k) sid = Some k \<Longrightarrow> \<exists>q. session_queues (handlers c k) sid = Some q"
    using assms by (auto simp: handler_routes_def)
  then show ?thesis
    by (auto simp: put_into_session_queue_def queued_def Let_def split: option.split)
qed

lemma queued_handlers:
  "session_handlers (handlers (queued k sid x c) j) = session_handlers (handlers c j)"
  "n_handlers (queued k sid x c) = n_handlers c"
  by (simp_all add: queued_def split: option.split)

lemma queued_dom:
  assumes "routes_at n used c k"
  shows "dom (session_queues (handlers (queued k sid x c) j)) = dom (session_queues (handlers c j))"
  using assms by (auto simp: queued_def handler_routes_def split: option.split)

lemma queued_events:
  "event_queues (queued k sid x c) j = event_queues c j \<or>
   (\<exists>e. event_session e = None \<and> event_queues (queued k sid x c) j = event_queues c j @ [e])"
  by (auto simp: queued_def split: option.split)

lemma routes_ok_queued:
  assumes "routes_ok n used c" and "k < n"
  shows "routes_ok n used (queued k sid x c)"
  using assms(1) queued_handlers(2,1) queued_dom [OF routes_okD(2) [OF assms]] queued_events
  by (rule routes_ok_update)

subsection \<open>The intake leaves the tables alone\<close>

definition same_tables :: "'a handler \<Rightarrow> 'a handler \<Rightarrow> bool" where
  "same_tables h h' \<longleftrightarrow>
     session_queues h' = session_queues h \<and> session_handlers h' = session_handlers h \<and> listening h' = listening h"

definition same_routes :: "'a cluster \<Rightarrow> 'a cluster \<Rightarrow> bool" where
  "same_routes c c' \<longleftrightarrow>
     n_handlers c' = n_handlers c \<and> event_queues c' = event_queues c \<and>
     (\<forall>j. same_tables (handlers c j) (handlers c' j))"

lemma same_routes_refl [simp]: "same_routes c c"
  by (simp add: same_routes_def same_tables_def)

lemma same_routes_trans: "same_routes a b \<Longrightarrow> same_routes b c \<Longrightarrow> same_routes a c"
  by (simp add: same_routes_def same_tables_def)

lemma same_routes_set_handler: "same_tables (handlers c k) h \<Longrightarrow> same_routes c (set_handler k h c)"
  by (simp add: same_routes_def same_tables_def)

lemma same_routes_queued: "same_routes c c' \<Longrightarrow> same_routes (queued k sid x c) (queued k sid x c')"
  by (auto simp: same_routes_def same_tables_def queued_def split: option.split)

lemma routes_ok_same: "routes_ok n used c \<Longrightarrow> same_routes c c' \<Longrightarrow> routes_ok n used c'"
  by (simp add: routes_ok_def same_routes_def same_tables_def)

lemma accept_tables:
  assumes "accept_microbatch cfg now t req m h = (r, h')"
  shows "same_tables h h'"
proof -
  have track: "same_tables h (begin_tracking now ttl key h)" for ttl key
    by (simp add: same_tables_def begin_tracking_def forget_stale_def Let_def)
  have upd: "same_tables h (g\<lparr>mb_processed := x\<rparr>)" "same_tables h (g\<lparr>s2s_link_stats := y\<rparr>)"
    "same_tables h (count_microbatch cfg m g)" if "same_tables h g" for g x y
    using that by (simp_all add: same_tables_def count_microbatch_def Let_def)
  show ?thesis
    using assms track unfolding accept_microbatch_def Let_def
    by (auto split: option.splits if_splits prod.splits sum.splits intro!: upd)
qed

lemma handle_microbatch_push_routes:
  assumes at: "routes_at n used c k" and "handle_microbatch_push cfg now t k req m c = (r, c')"
  shows "same_routes c c' \<or> same_routes (queued k (session_id m) (Micro (mb_item_of cfg req m)) c) c'"
proof -
  obtain a h where ah: "accept_microbatch cfg now t req m (handlers c k) = (a, h)" by fastforce
  note same = same_routes_set_handler [OF accept_tables [OF ah]]
  show ?thesis
  proof (cases "\<exists>e. a = Inl e \<or> a = Inr False")
    case True
    then show ?thesis using assms(2) ah same by (auto simp: handle_microbatch_push_def)
  next
    case False
    then have a: "a = Inr True" by (cases a) auto
    let ?c1 = "set_handler k h c" and ?x = "Micro (mb_item_of cfg req m)"
    have "routes_at n used ?c1 k" using at accept_tables [OF ah] by (simp add: same_tables_def)
    from put_queues [OF this] have put: "put_into_session_queue k (session_id m) ?x ?c1 = (Inr (), queued k (session_id m) ?x ?c1)" .
    have "same_routes d (set_handler k (end_tracking m (handlers d k)) d)" for d :: "'a cluster"
      by (intro same_routes_set_handler) (simp add: same_tables_def end_tracking_def Let_def)
    then have "same_routes (queued k (session_id m) ?x ?c1) c'"
      using assms(2) ah a put by (auto simp: handle_microbatch_push_def split: if_splits)
    then show ?thesis using same_routes_queued [OF same] same_routes_trans by blast
  qed
qed

lemma rpc_push_routes:
  assumes at: "routes_at n used c k" and "rpc_push cfg now t_recv t_ack k req c = (r, c')"
  shows "same_routes c c' \<or> (\<exists>sid x. same_routes (queued k sid x c) c')"
proof (cases "meta req")
  case None
  then show ?thesis using assms(2) by (auto simp: rpc_push_def split: sum.splits)
next
  case (Some m)
  show ?thesis
  proof (cases "is_microbatch_push m")
    case True
    then show ?thesis
      using assms(2) Some handle_microbatch_push_routes [OF at]
      by (auto simp: rpc_push_def split: sum.splits prod.splits) blast+
  next
    case False
    have same: "same_routes c (set_handler k (handlers c k\<lparr>s2s_link_stats := stats\<rparr>) c)" for stats
      by (intro same_routes_set_handler) (simp add: same_tables_def)
    have put: "put_into_session_queue k (session_id m) (Full req) (set_handler k (handlers c k\<lparr>s2s_link_stats := stats\<rparr>) c)
        = (Inr (), queued k (session_id m) (Full req) (set_handler k (handlers c k\<lparr>s2s_link_stats := stats\<rparr>) c))" for stats
      using at by (intro put_queues) simp
    have "c' = c \<or> (\<exists>stats. c' = set_handler k (handlers c k\<lparr>s2s_link_stats := stats\<rparr>) c \<or>
        c' = queued k (session_id m) (Full req) (set_handler k (handlers c k\<lparr>s2s_link_stats := stats\<rparr>) c))"
      using assms(2) Some False put
      by (auto simp: rpc_push_def Let_def split: sum.splits prod.splits)
    then show ?thesis using same same_routes_queued [OF same] same_routes_refl by blast
  qed
qed

subsection \<open>The tables agree\<close>

lemma routes_ok_open:
  assumes ok: "routes_ok n used c" and k: "k < n" and new: "sid \<notin> used" and "open_session k sid c = (r, c')"
  shows "r = Inr ()" and "routes_ok n (insert sid used) c'"
proof -
  have fresh: "sid \<notin> dom (session_queues (handlers c j))" if "j < n" for j
    using routes_okD(2) [OF ok that] new by (auto simp: handler_routes_def)
  then have none: "session_queues (handlers c k) sid = None" using k by auto
  then show "r = Inr ()" using assms(4) by (auto simp: open_session_def Let_def)
  have c': "c' = broadcast k (NEW_SESSION sid k) (set_handler k (handlers c k\<lparr>session_queues := (session_queues (handlers c k))(sid \<mapsto> []),
      session_handlers := (session_handlers (handlers c k))(sid \<mapsto> k)\<rparr>) c)"
    using assms(4) none by (auto simp: open_session_def Let_def)
  have "routes_at n (insert sid used) c' j" if "j < n" for j
    using routes_okD(1,2) [OF ok that] that new k
    by (cases "j = k") (simp_all add: c' broadcast_def handler_routes_open handler_routes_announce)
  then show "routes_ok n (insert sid used) c'"
    using ok fresh k by (auto simp: routes_ok_def c' broadcast_def)
qed

lemma routes_ok_close:
  assumes ok: "routes_ok n used c" and k: "k < n" and own: "session_queues (handlers c k) sid \<noteq> None"
    and "end_session k sid c = (r, c')"
  shows "\<exists>q. r = Inr q" and "routes_ok n used c'"
proof -
  note at = routes_okD(2) [OF ok k]
  have mine: "session_handlers (handlers c k) sid = Some k" and used: "sid \<in> used"
    using at own by (auto simp: handler_routes_def)
  then show "\<exists>q. r = Inr q" using own assms(4) by (auto simp: end_session_def Let_def split: if_splits)
  have c': "c' = broadcast k (END_SESSION sid) (set_handler k (handlers c k\<lparr>session_queues := (session_queues (handlers c k))(sid := None),
      session_handlers := (session_handlers (handlers c k))(sid := None)\<rparr>) c)"
    using own mine assms(4) by (auto simp: end_session_def Let_def split: if_splits)
  have other: "sid \<notin> dom (session_queues (handlers c j))" if "j < n" "j \<noteq> k" for j
    using routes_okD(3) [OF ok k that] own by auto
  have "routes_at n used c' j" if "j < n" for j
    using routes_okD(1,2) [OF ok that] other [OF that] used that
    by (cases "j = k") (simp_all add: c' broadcast_def handler_routes_close handler_routes_retract)
  moreover have sub: "dom (session_queues (handlers c' j)) \<subseteq> dom (session_queues (handlers c j))" for j
    by (auto simp: c' broadcast_def split: if_splits)
  have "dom (session_queues (handlers c' i)) \<inter> dom (session_queues (handlers c' j)) = {}" if "i < n" "j < n" "i \<noteq> j" for i j
    using routes_okD(3) [OF ok that(2,1,3)] sub [of i] sub [of j] by blast
  moreover have "n_handlers c' = n" using routes_okD(1) [OF ok k] by (simp add: c' broadcast_def)
  ultimately show "routes_ok n used c'" by (simp add: routes_ok_def)
qed

lemma routes_ok_read:
  assumes ok: "routes_ok n used c" and k: "k < n" and "get_from_session_queue k sid c = Inr (Some (x, c'))"
  shows "routes_ok n used c'"
proof -
  obtain q where "session_queues (handlers c k) sid \<noteq> None"
    "c' = set_handler k (handlers c k\<lparr>session_queues := (session_queues (handlers c k))(sid \<mapsto> q)\<rparr>) c"
    using assms(3) by (auto simp: get_from_session_queue_def Let_def split: option.splits if_splits list.splits)
  then show ?thesis by (intro routes_ok_update [OF ok]) auto
qed

lemma routes_ok_listen:
  assumes ok: "routes_ok n used c" and k: "k < n" and l: "listen_step k c = Some c'"
  shows "routes_ok n used c'"
proof -
  obtain e es where ev: "event_queues c k = e # es" and li: "listening (handlers c k)"
    using l by (auto simp: listen_step_def Let_def split: if_splits list.splits)
  note at = routes_okD(2) [OF ok k, unfolded ev]
  have "routes_at n used c' k \<and> dom (session_queues (handlers c' k)) = dom (session_queues (handlers c k))"
  proof (cases e)
    case (PUSH sid x)
    show ?thesis
    proof (cases "session_queues (handlers c k) sid")
      case (Some q)
      then have d: "dom ((session_queues (handlers c k))(sid \<mapsto> q @ [Some x])) = dom (session_queues (handlers c k))" by auto
      have "c' = set_handler k (handlers c k\<lparr>session_queues := (session_queues (handlers c k))(sid \<mapsto> q @ [Some x])\<rparr>)
          (c\<lparr>event_queues := (event_queues c)(k := es)\<rparr>)"
        using l ev li PUSH Some by (simp add: listen_step_def Let_def)
      then show ?thesis
        using d handler_routes_dom [OF handler_routes_drop [OF at] d] by simp
    qed (use l ev li PUSH handler_routes_drop [OF at] in \<open>auto simp: listen_step_def Let_def\<close>)
  qed (use l ev li at in \<open>auto simp: listen_step_def Let_def
      intro: handler_routes_drop handler_routes_new handler_routes_end\<close>)
  moreover have "n_handlers c' = n_handlers c" "\<And>j. j \<noteq> k \<Longrightarrow> handlers c' j = handlers c j \<and> event_queues c' j = event_queues c j"
    using l ev li by (auto simp: listen_step_def Let_def split: event.splits option.splits)
  ultimately show ?thesis using ok unfolding routes_ok_def by metis
qed

lemma routes_ok_run: "server_run cfg n used c \<Longrightarrow> routes_ok n used c"
proof (induction rule: server_run.induct)
  case (push used c k now t_recv t_ack req r c')
  then show ?case
    using rpc_push_routes [OF routes_okD(2) [OF push.IH push.hyps(2)] push.hyps(3)] routes_ok_same routes_ok_queued
    by metis
next
  case (stop used c k)
  show ?case by (rule routes_ok_update [OF stop.IH]) (auto simp: shutdown_handler_def)
qed (auto intro: routes_ok_boot routes_ok_open routes_ok_close routes_ok_read routes_ok_listen)

subsection \<open>Delivery\<close>

fun pushes_for :: "string \<Rightarrow> 'a event list \<Rightarrow> 'a queue_item list" where
  "pushes_for sid [] = []"
| "pushes_for sid (PUSH s x # es) = (if s = sid then x # pushes_for sid es else pushes_for sid es)"
| "pushes_for sid (e # es) = pushes_for sid es"

lemma pushes_for_append [simp]: "pushes_for sid (es @ es') = pushes_for sid es @ pushes_for sid es'"
  by (induction sid es rule: pushes_for.induct) auto

text \<open>The handler works off \<open>i\<close> events.\<close>

fun listen_steps :: "nat \<Rightarrow> nat \<Rightarrow> 'a cluster \<Rightarrow> 'a cluster option" where
  "listen_steps k 0 c = Some c"
| "listen_steps k (Suc i) c = (case listen_step k c of None \<Rightarrow> None | Some c' \<Rightarrow> listen_steps k i c')"

lemma listen_steps_deliver:
  "listening (handlers c k) \<Longrightarrow> SHUTDOWN \<notin> set (event_queues c k) \<Longrightarrow>
   session_queues (handlers c k) sid = Some q \<Longrightarrow>
   \<exists>c'. listen_steps k (length (event_queues c k)) c = Some c' \<and> event_queues c' k = [] \<and>
     session_queues (handlers c' k) sid = Some (q @ map Some (pushes_for sid (event_queues c k)))"
proof (induction "event_queues c k" arbitrary: c q)
  case (Cons e es)
  note ev = Cons(2) [symmetric]
  have "e \<noteq> SHUTDOWN" using Cons.prems(2) ev by auto
  then obtain c1 where step: "listen_step k c = Some c1" and c1: "event_queues c1 k = es" "listening (handlers c1 k)"
    "session_queues (handlers c1 k) sid = Some (q @ map Some (pushes_for sid [e]))"
    using Cons.prems ev
    by (cases e) (auto simp: listen_step_def Let_def split: option.splits)
  have "\<exists>c'. listen_steps k (length (event_queues c1 k)) c1 = Some c' \<and> event_queues c' k = [] \<and>
     session_queues (handlers c' k) sid = Some ((q @ map Some (pushes_for sid [e])) @ map Some (pushes_for sid (event_queues c1 k)))"
    using Cons.prems(2) ev c1 by (intro Cons.hyps(1)) auto
  moreover have "pushes_for sid (e # es) = pushes_for sid [e] @ pushes_for sid es"
    using pushes_for_append [of sid "[e]" es] by simp
  ultimately show ?case using step ev c1(1) by simp
qed simp

text \<open>
  C34 The handlers of a server agree on who owns a session, in every state reached by opening and
  closing sessions, pushes at any handler, reads and event handling in any order: a session has one
  owner, the owner finds its queue whenever its table points to itself, closing and reading a session
  at its owner never raises, and a push never raises for want of a queue. A push that reaches a
  handler which knows the owner arrives in the session's queue when the owner has worked off its
  events: once, behind what was pushed before it.
\<close>

theorem push_reaches_session:
  assumes run: "server_run cfg n used c" and k: "k < n" and j: "j < n"
    and own: "session_queues (handlers c j) sid = Some q"
  shows "(\<forall>i < n. session_queues (handlers c i) sid \<noteq> None \<longrightarrow> i = j)
    \<and> (\<exists>c'. end_session j sid c = (Inr (q @ [None]), c'))
    \<and> (\<exists>r. get_from_session_queue j sid c = Inr r)
    \<and> (\<exists>c1. put_into_session_queue k sid x c = (Inr (), c1) \<and>
        (session_handlers (handlers c k) sid = Some j \<longrightarrow> listening (handlers c j) \<longrightarrow>
         SHUTDOWN \<notin> set (event_queues c j) \<longrightarrow>
         (\<exists>c2. listen_steps j (length (event_queues c1 j)) c1 = Some c2 \<and>
            session_queues (handlers c2 j) sid =
              (if k = j then Some (q @ Some x # map Some (pushes_for sid (event_queues c j)))
               else Some (q @ map Some (pushes_for sid (event_queues c j)) @ [Some x])))))"
proof (intro conjI)
  note ok = routes_ok_run [OF run]
  have mine: "session_handlers (handlers c j) sid = Some j"
    using routes_okD(2) [OF ok j] own by (auto simp: handler_routes_def)
  show "\<forall>i < n. session_queues (handlers c i) sid \<noteq> None \<longrightarrow> i = j"
    using routes_okD(3) [OF ok j] own by blast
  show "\<exists>c'. end_session j sid c = (Inr (q @ [None]), c')"
    using own mine by (simp add: end_session_def Let_def)
  show "\<exists>r. get_from_session_queue j sid c = Inr r"
    using own mine by (simp add: get_from_session_queue_def Let_def split: list.split)
  let ?c1 = "queued k sid x c"
  have put: "put_into_session_queue k sid x c = (Inr (), ?c1)" using routes_okD(2) [OF ok k] by (rule put_queues)
  have "\<exists>c2. listen_steps j (length (event_queues ?c1 j)) ?c1 = Some c2 \<and>
            session_queues (handlers c2 j) sid =
              (if k = j then Some (q @ Some x # map Some (pushes_for sid (event_queues c j)))
               else Some (q @ map Some (pushes_for sid (event_queues c j)) @ [Some x]))"
    if known: "session_handlers (handlers c k) sid = Some j" and li: "listening (handlers c j)"
      and nos: "SHUTDOWN \<notin> set (event_queues c j)"
  proof -
    have q1: "session_queues (handlers ?c1 j) sid = Some (if k = j then q @ [Some x] else q)"
      and ev: "event_queues ?c1 j = event_queues c j @ (if k = j then [] else [PUSH sid x])"
      and "listening (handlers ?c1 j)"
      using known own li by (auto simp: queued_def)
    then have "\<exists>c2. listen_steps j (length (event_queues ?c1 j)) ?c1 = Some c2 \<and> event_queues c2 j = [] \<and>
        session_queues (handlers c2 j) sid = Some ((if k = j then q @ [Some x] else q) @ map Some (pushes_for sid (event_queues ?c1 j)))"
      using nos by (intro listen_steps_deliver) auto
    then show ?thesis unfolding ev by (auto split: if_splits)
  qed
  then show "\<exists>c1. put_into_session_queue k sid x c = (Inr (), c1) \<and>
        (session_handlers (handlers c k) sid = Some j \<longrightarrow> listening (handlers c j) \<longrightarrow>
         SHUTDOWN \<notin> set (event_queues c j) \<longrightarrow>
         (\<exists>c2. listen_steps j (length (event_queues c1 j)) c1 = Some c2 \<and>
            session_queues (handlers c2 j) sid =
              (if k = j then Some (q @ Some x # map Some (pushes_for sid (event_queues c j)))
               else Some (q @ map Some (pushes_for sid (event_queues c j)) @ [Some x]))))"
    using put by blast
qed


theorem push_reaches_session_witness:
  "\<exists>c. server_run \<lparr>module_backends = {}, s2s_stats_window = 4, mb_processed_ttl = 120, default_micro_batch_size = 1\<rparr>
          2 {''u''} (c :: unit cluster) \<and> session_queues (handlers c 0) ''u'' = Some []
     \<and> (\<exists>c1. put_into_session_queue 1 ''u'' (sample_micro 0) c = (Inr (), c1))"
proof -
  let ?cfg = "\<lparr>module_backends = {}, s2s_stats_window = 4, mb_processed_ttl = 120, default_micro_batch_size = 1\<rparr>"
  define c where "c = snd (open_session 0 ''u'' (new_cluster 2 :: unit cluster))"
  have "open_session 0 ''u'' (new_cluster 2 :: unit cluster) = (Inr (), c)"
    by (simp add: c_def open_session_def new_cluster_def new_handler_def Let_def)
  then have "server_run ?cfg 2 (insert ''u'' {}) c" by (intro server_run.open_new [OF server_run.boot, of 0]) simp_all
  then have run: "server_run ?cfg 2 {''u''} c" .
  have own: "session_queues (handlers c 0) ''u'' = Some []"
    by (simp add: c_def open_session_def new_cluster_def new_handler_def broadcast_def Let_def)
  have "\<exists>c1. put_into_session_queue 1 ''u'' (sample_micro 0) c = (Inr (), c1)"
    using push_reaches_session [OF run _ _ own, of 1 "sample_micro 0", THEN conjunct2, THEN conjunct2, THEN conjunct2]
    by simp blast
  then show ?thesis using run own by blast
qed

subsection \<open>Pushes with timestamps\<close>

lemma accept_stats:
  assumes "accept_microbatch cfg now t req m h = (r, h')" and "s2s_link_stats h = Map.empty"
  shows "s2s_link_stats h' = Map.empty"
proof -
  have track: "s2s_link_stats (begin_tracking now ttl key h) = Map.empty" for ttl key
    using assms(2) by (simp add: begin_tracking_def forget_stale_def Let_def)
  have count: "s2s_link_stats (count_microbatch cfg m g) = s2s_link_stats g" for g :: "'a handler"
    by (simp add: count_microbatch_def Let_def)
  have sample: "record_s2s_network_sample w l a b x y z Map.empty = (p, stats) \<Longrightarrow> stats = Map.empty"
    for w l a b x y z p stats
    using samples_keep_empty [of w l a b x y z] by simp
  show ?thesis
    using assms(1) track unfolding accept_microbatch_def Let_def
    by (auto simp: count split: option.splits if_splits prod.splits sum.splits dest!: sample)
qed

definition no_stats :: "'a cluster \<Rightarrow> bool" where
  "no_stats c \<longleftrightarrow> (\<forall>k. s2s_link_stats (handlers c k) = Map.empty)"

lemma no_stats_put:
  "put_into_session_queue k sid x c = (r, c') \<Longrightarrow> no_stats c \<Longrightarrow> no_stats c'"
  by (auto simp: put_into_session_queue_def no_stats_def Let_def split: option.splits if_splits)

lemma no_stats_microbatch:
  assumes "handle_microbatch_push cfg now t k req m c = (r, c')" and "no_stats c"
  shows "no_stats c'"
proof -
  obtain a h where ah: "accept_microbatch cfg now t req m (handlers c k) = (a, h)" by fastforce
  have "s2s_link_stats h = Map.empty" using accept_stats [OF ah] assms(2) by (simp add: no_stats_def)
  then have c1: "no_stats (set_handler k h c)" using assms(2) by (simp add: no_stats_def)
  have "no_stats d \<Longrightarrow> no_stats (set_handler k (end_tracking m (handlers d k)) d)" for d :: "'a cluster"
    by (simp add: no_stats_def end_tracking_def Let_def)
  then show ?thesis
    using assms(1) ah c1
    by (auto simp: handle_microbatch_push_def split: sum.splits if_splits prod.splits dest!: no_stats_put [OF _ c1])
qed

lemma no_stats_push:
  assumes "rpc_push cfg now t t' k req c = (r, c')" and "no_stats c"
  shows "no_stats c'"
proof -
  have stats: "s2s_link_stats (handlers c k) = Map.empty" using assms(2) by (simp add: no_stats_def)
  have sample: "record_s2s_network_sample w l a e x y z Map.empty = (p, stats) \<Longrightarrow> stats = Map.empty"
    for w l a e x y z p stats
    using samples_keep_empty [of w l a e x y z] by simp
  have c1: "no_stats (set_handler k (handlers c k\<lparr>s2s_link_stats := Map.empty\<rparr>) c)" using assms(2) by (simp add: no_stats_def)
  show ?thesis
    using assms stats c1
    by (auto simp: rpc_push_def Let_def split: sum.splits option.splits if_splits prod.splits
        dest!: sample no_stats_microbatch dest: no_stats_put [OF _ c1])
qed

lemma no_stats_run: "server_run cfg n used c \<Longrightarrow> no_stats c"
proof (induction rule: server_run.induct)
  case (listen used c k c')
  then show ?case
    by (auto simp: listen_step_def no_stats_def Let_def split: if_splits list.splits event.splits option.splits)
qed (auto simp: no_stats_def new_cluster_def new_handler_def open_session_def end_session_def broadcast_def
      get_from_session_queue_def shutdown_handler_def Let_def
      dest: no_stats_push [unfolded no_stats_def] split: if_splits option.splits list.splits)

text \<open>
  C35 A push that carries the sender's timestamps is lost. Taking the first sample of a link raises,
  and no link ever gets past its first sample, so in every reachable state a full-batch push with a
  positive transfer time raises \<^const>\<open>TypeError\<close> and leaves every queue as it was. A micro-batch push does
  the same after it has been noted as processed: when the sender repeats it, the repetition is
  acknowledged and again nothing is queued.
\<close>

theorem timed_pushes_are_lost:
  assumes run: "server_run cfg n used c" and "k < n" and m: "meta req = Some m"
    and u: "check_uids (module_backends cfg) (uids req) = Inr us" and ttl: "0 \<le> mb_processed_ttl cfg"
    and full: "\<not> is_microbatch_push m \<Longrightarrow> pushed m \<and> 0 < transfer_ms t (sender_send_us m)"
    and micro: "is_microbatch_push m \<Longrightarrow>
      0 < transfer_ms t (push_timestamp_us m) \<and> mb_processed (handlers c k) (session_id m, step_id m) = None"
  shows "\<exists>c'. rpc_push cfg now t t_ack k req c = (Inl TypeError, c') \<and> same_routes c c'
    \<and> (is_microbatch_push m \<longrightarrow>
        (\<forall>later t2 t2_ack. \<exists>c''. rpc_push cfg later t2 t2_ack k req c'
           = (Inr (build_rpc_push_ack_response t2 t2_ack), c'') \<and> same_routes c c''))"
proof (cases "is_microbatch_push m")
  case False
  have stats: "s2s_link_stats (handlers c k) = Map.empty" using no_stats_run [OF run] by (simp add: no_stats_def)
  have "record_s2s_network_sample (s2s_stats_window cfg) (link_key ''full_batch'' m) (payload_bytes req)
      (metadata_bytes req) (transfer_ms t (sender_send_us m)) (wire_time_ms t m) (0 < sender_clock_samples m) Map.empty
      = (Inl TypeError, Map.empty)"
    using full [OF False] by (intro sample_of_new_link_raises) auto
  moreover have "same_routes c (set_handler k (handlers c k\<lparr>s2s_link_stats := Map.empty\<rparr>) c)"
    by (intro same_routes_set_handler) (simp add: same_tables_def)
  ultimately show ?thesis using False full [OF False] m u stats by (simp add: rpc_push_def Let_def)
next
  case True
  let ?key = "(session_id m, step_id m)"
  define h1 where "h1 = begin_tracking now (mb_processed_ttl cfg) ?key (handlers c k)"
  have h1: "mb_processed h1 ?key = Some {}"
    using micro [OF True] ttl by (simp add: h1_def begin_tracking_def forget_stale_def Let_def)
  have stats: "s2s_link_stats h1 = Map.empty"
    using no_stats_run [OF run] by (simp add: h1_def no_stats_def begin_tracking_def forget_stale_def Let_def)
  have sample: "record_s2s_network_sample (s2s_stats_window cfg) (link_key ''micro_batch'' m) (payload_bytes req)
      (metadata_bytes req) (transfer_ms t (push_timestamp_us m)) (wire_time_ms t m) (0 < sender_clock_samples m) Map.empty
      = (Inl TypeError, Map.empty)"
    using micro [OF True] by (intro sample_of_new_link_raises) auto
  define h2 where "h2 = h1\<lparr>mb_processed := (mb_processed h1)(?key \<mapsto> {mb_idx m}), s2s_link_stats := Map.empty\<rparr>"
  have first: "accept_microbatch cfg now t req m (handlers c k) = (Inl TypeError, h2)"
    using h1 stats sample by (simp add: accept_microbatch_def Let_def h1_def [symmetric] h2_def)
  have again: "accept_microbatch cfg later t2 req m h2 = (Inr False, h2)" for later t2
    by (simp add: accept_microbatch_def begin_tracking_def h2_def Let_def)
  have "rpc_push cfg now t t_ack k req c = (Inl TypeError, set_handler k h2 c)"
    using True m u first by (simp add: rpc_push_def handle_microbatch_push_def)
  moreover have "rpc_push cfg later t2 t2_ack k req (set_handler k h2 c)
      = (Inr (build_rpc_push_ack_response t2 t2_ack), set_handler k h2 c)" for later t2 t2_ack
    using True m u again [of later t2] by (simp add: rpc_push_def handle_microbatch_push_def)
  ultimately show ?thesis
    using same_routes_set_handler [OF accept_tables [OF first]] by blast
qed

definition sample_push_meta :: push_meta where
  "sample_push_meta = \<lparr>session_id = ''u'', step_id = Some ''s1'', pushed = True, is_mb_start_signal = False,
     is_microbatch_push = True, mb_idx = 0, mb_offset = 0, mb_size = 1, mb_full_batch_size = 2,
     total_micro_batches = Valid 2, sender_blocks = ''0:4'', receiver_blocks = ''4:8'', sender_send_us = 1000,
     push_timestamp_us = 1000, sender_clock_offset_us = 0, sender_clock_samples = 0\<rparr>"

theorem timed_pushes_are_lost_witness:
  "\<exists>c'. rpc_push \<lparr>module_backends = {''b.4''}, s2s_stats_window = 4, mb_processed_ttl = 120, default_micro_batch_size = 1\<rparr>
     0 3000 3001 0 \<lparr>uids = [''b.4''], tensors = [()], payload_bytes = 64, metadata_bytes = 10, meta = Some sample_push_meta\<rparr>
     (new_cluster 1) = (Inl TypeError, c') \<and> same_routes (new_cluster 1) c'"
proof -
  let ?cfg = "\<lparr>module_backends = {''b.4''}, s2s_stats_window = 4, mb_processed_ttl = 120, default_micro_batch_size = 1\<rparr>"
  have u: "check_uids (module_backends ?cfg)
      (uids \<lparr>uids = [''b.4''], tensors = [()], payload_bytes = 64, metadata_bytes = 10, meta = Some sample_push_meta\<rparr>)
      = Inr [''b.4'']" by (simp add: check_uids_def)
  show ?thesis
    using timed_pushes_are_lost [OF server_run.boot [of ?cfg 1] _ _ u, of 0 sample_push_meta 3000 0 3001]
    by (auto simp: sample_push_meta_def transfer_ms_def new_cluster_def new_handler_def)
qed

end
