(* ===== verification/KVMultiplex.thy ===== *)
theory KVMultiplex
  imports BB_Prelude
begin

text \<open>
  The cache slabs of a server and the working slots that micro-batches share
  (\<open>server/memory_cache_manager.py\<close>). A slab is a pair of tensors of shape \<open>(S, B*H, D)\<close>; the
  model keeps the vector of length \<open>D\<close> at a position and a head as one value. When the slab holds
  fewer batch rows than the request has, a micro-batch is written into a working slot, its rows are
  copied to a CPU staging buffer, and they are copied back before the micro-batch is read again.
  Both copies may run on their own CUDA streams: a launched copy waits in a queue until the stream
  reaches it, and an event is the position of the copy in its stream.

  Sizes, offsets and positions are natural numbers: the sources clamp the negative ones away.
\<close>

section \<open>Slot geometry\<close>

record kv_policy =
  gpu_batch_size :: nat
  num_gpu_batches :: nat

record block_config =
  num_attention_heads :: nat
  num_key_value_heads :: "nat option"
  num_key_value_groups :: "nat option"

definition working_slot_batch_size :: "kv_policy \<Rightarrow> nat" where
  "working_slot_batch_size p = max 1 (gpu_batch_size p)"

definition working_slot_count :: "kv_policy \<Rightarrow> nat \<Rightarrow> nat" where
  "working_slot_count p capacity =
     (let configured = max 1 (num_gpu_batches p); slot_batch = working_slot_batch_size p in
      if capacity = 0 then 1
      else max 1 (min configured (max 1 ((capacity + slot_batch - 1) div slot_batch))))"

definition resolve_working_slot :: "kv_policy \<Rightarrow> nat \<Rightarrow> nat \<Rightarrow> nat option \<Rightarrow> nat \<times> nat \<times> nat \<times> nat" where
  "resolve_working_slot p mb capacity actual =
     (let slot_batch = working_slot_batch_size p;
          slot = mb mod working_slot_count p capacity;
          start = slot * slot_batch;
          slot_capacity = min slot_batch (capacity - start);
          active = (case actual of
                      None \<Rightarrow> slot_capacity
                    | Some n \<Rightarrow> if n = 0 then slot_capacity else min n slot_capacity)
      in (slot, start, active, slot_capacity))"

definition source_heads_per_batch :: "block_config \<Rightarrow> nat \<Rightarrow> nat \<Rightarrow> nat \<Rightarrow> nat \<Rightarrow> nat" where
  "source_heads_per_batch cfg attention_heads source_bh full_batch micro_batch =
     (let att = max 1 attention_heads in
      if full_batch > 0 \<and> micro_batch > 0 \<and> source_bh mod micro_batch = 0 \<and>
         0 < source_bh div micro_batch \<and> source_bh div micro_batch \<le> att
      then source_bh div micro_batch
      else
        let kv_heads =
              (case num_key_value_heads cfg of
                 Some k \<Rightarrow> k
               | None \<Rightarrow>
                   let groups = (case num_key_value_groups cfg of Some g \<Rightarrow> g | None \<Rightarrow> 1) in
                   if groups > 1 \<and> att mod groups = 0 then att div groups else att)
        in if 0 < kv_heads \<and> kv_heads \<le> att \<and> source_bh mod kv_heads = 0 then kv_heads else att)"

definition is_expected_tail_mb :: "nat \<Rightarrow> nat \<Rightarrow> nat \<Rightarrow> nat \<Rightarrow> bool" where
  "is_expected_tail_mb policy_mb runtime_mb total_b batch_offset \<longleftrightarrow>
     total_b > 0 \<and> runtime_mb < policy_mb \<and> batch_offset + runtime_mb = total_b"

definition compute_microbatch_index :: "kv_policy \<Rightarrow> nat \<Rightarrow> nat option \<Rightarrow> nat option \<Rightarrow> nat" where
  "compute_microbatch_index p batch_offset micro_batch full_batch =
     (let policy_mb = max 1 (gpu_batch_size p);
          runtime_mb = (case micro_batch of Some n \<Rightarrow> if n > 0 then n else policy_mb | None \<Rightarrow> policy_mb);
          total_b = (case full_batch of Some n \<Rightarrow> n | None \<Rightarrow> 0);
          configured = (if runtime_mb \<noteq> policy_mb \<and> \<not> is_expected_tail_mb policy_mb runtime_mb total_b batch_offset
                        then runtime_mb else policy_mb)
      in batch_offset div max 1 configured)"

section \<open>Slabs and block copies\<close>

datatype cache_device = CudaCache | CpuCache | MixedCache "nat list"

type_synonym 'a plane = "nat \<Rightarrow> nat \<Rightarrow> 'a"

record 'a slab =
  seq_total :: nat
  bh_total :: nat
  head_dim :: nat
  slab_device :: cache_device
  k_data :: "'a plane"
  v_data :: "'a plane"

text \<open>
  \<open>dst[s0:s1, b0:b1].copy_(src)\<close> for a destination of \<open>S\<close> by \<open>BH\<close> and a source of \<open>ss\<close> by \<open>sb\<close>:
  slices are clamped to the destination, a dimension of size one is broadcast.
\<close>

definition copy_block ::
  "nat \<Rightarrow> nat \<Rightarrow> 'a plane \<Rightarrow> nat \<times> nat \<Rightarrow> nat \<times> nat \<Rightarrow> nat \<Rightarrow> nat \<Rightarrow> 'a plane \<Rightarrow> 'a plane result" where
  "copy_block S BH dst srange brange ss sb src =
     (let (s0, s1) = srange; (b0, b1) = brange; se = min s1 S; be = min b1 BH in
      if (ss = se - s0 \<or> ss = 1) \<and> (sb = be - b0 \<or> sb = 1)
      then Inr (\<lambda>s b. if s0 \<le> s \<and> s < se \<and> b0 \<le> b \<and> b < be
                      then src (if ss = 1 then 0 else s - s0) (if sb = 1 then 0 else b - b0)
                      else dst s b)
      else Inl RuntimeError)"

text \<open>The segments of a mixed-device tensor that a range of heads meets, in order.\<close>

fun segment_overlaps :: "nat list \<Rightarrow> nat \<Rightarrow> nat \<Rightarrow> (nat \<times> nat) list" where
  "segment_overlaps (p # q # ps) b0 b1 =
     (if max b0 p < min b1 q then [(max b0 p, min b1 q)] else []) @ segment_overlaps (q # ps) b0 b1"
| "segment_overlaps _ b0 b1 = []"

fun write_segments ::
  "nat \<Rightarrow> nat \<Rightarrow> 'a plane \<Rightarrow> nat \<times> nat \<Rightarrow> (nat \<times> nat) list \<Rightarrow> nat \<Rightarrow> nat \<Rightarrow> nat \<Rightarrow> 'a plane \<Rightarrow>
   ('a plane, unit) outcome" where
  "write_segments S BH dst srange [] src_offset ss sb src = (Inr (), dst)"
| "write_segments S BH dst srange ((a, e) # segs) src_offset ss sb src =
     (case copy_block S BH dst srange (a, e) ss (min (src_offset + (e - a)) sb - src_offset)
             (\<lambda>s b. src s (src_offset + b)) of
        Inl err \<Rightarrow> (Inl err, dst)
      | Inr dst' \<Rightarrow> write_segments S BH dst' srange segs (src_offset + (e - a)) ss sb src)"

text \<open>
  \<open>_write_to_cache\<close>: the source has \<open>ss\<close> positions and \<open>sb\<close> heads, of which the heads
  \<open>src_b0..<src_b1\<close> are written.
\<close>

definition write_to_cache ::
  "'b slab \<Rightarrow> 'a plane \<Rightarrow> nat \<times> nat \<Rightarrow> nat \<times> nat \<Rightarrow> nat \<Rightarrow> nat \<Rightarrow> nat \<times> nat \<Rightarrow> 'a plane \<Rightarrow>
   ('a plane, unit) outcome" where
  "write_to_cache sl dst srange brange ss sb src_brange src =
     (case slab_device sl of
        MixedCache points \<Rightarrow>
          write_segments (seq_total sl) (bh_total sl) dst srange
            (segment_overlaps points (fst brange) (snd brange)) (fst src_brange) ss sb src
      | _ \<Rightarrow>
          (case copy_block (seq_total sl) (bh_total sl) dst srange brange ss
                  (min (snd src_brange) sb - fst src_brange) (\<lambda>s b. src s (fst src_brange + b)) of
             Inl err \<Rightarrow> (Inl err, dst)
           | Inr dst' \<Rightarrow> (Inr (), dst')))"


section \<open>The state of the manager\<close>

record 'a stage =
  st_seq :: nat
  st_bh :: nat
  st_k :: "'a plane"
  st_v :: "'a plane"
  st_prefix :: nat

text \<open>A launched transfer: the slab region it moves and, for a prefetch, the event it waits for.\<close>

record offload_copy =
  of_key :: "nat \<times> nat"
  of_prefix :: nat
  of_heads :: "nat \<times> nat"

record prefetch_copy =
  pf_key :: "nat \<times> nat"
  pf_prefix :: nat
  pf_heads :: "nat \<times> nat"
  pf_wait :: "nat option"

record 'a kv_manager =
  kv_pol :: kv_policy
  kv_cfg :: block_config
  slabs :: "nat \<Rightarrow> 'a slab"
  active_stack :: "nat list"
  mb_cpu_staging :: "nat \<times> nat \<rightharpoonup> 'a stage"
  current_gpu_mb :: "nat \<times> nat \<rightharpoonup> nat"
  pending_gpu_mb :: "nat \<times> nat \<rightharpoonup> nat"
  mb_offload_events :: "nat \<times> nat \<rightharpoonup> nat"
  mb_prefetch_events :: "nat \<times> nat \<rightharpoonup> nat"
  offload_enabled :: bool
  async_kv_transfer :: bool
  offload_queue :: "offload_copy list"
  offload_done :: nat
  prefetch_queue :: "prefetch_copy list"
  prefetch_done :: nat
  uninitialised :: 'a

definition active_cache_slot_id :: "'a kv_manager \<Rightarrow> nat option" where
  "active_cache_slot_id m = (case active_stack m of [] \<Rightarrow> None | c # _ \<Rightarrow> Some c)"

definition staging_key :: "nat \<Rightarrow> 'a kv_manager \<Rightarrow> (nat \<times> nat) option" where
  "staging_key mb m = map_option (\<lambda>c. (c, mb)) (active_cache_slot_id m)"

definition slot_state_key :: "nat \<Rightarrow> 'a kv_manager \<Rightarrow> (nat \<times> nat) option" where
  "slot_state_key slot m = map_option (\<lambda>c. (c, slot)) (active_cache_slot_id m)"

abbreviation heads_of :: "'a kv_manager \<Rightarrow> nat" where
  "heads_of m \<equiv> num_attention_heads (kv_cfg m)"

definition slot_state_key_for_mb :: "nat \<Rightarrow> 'a kv_manager \<Rightarrow> (nat \<times> nat) option" where
  "slot_state_key_for_mb mb m =
     (case active_cache_slot_id m of
        None \<Rightarrow> None
      | Some c \<Rightarrow>
          (case slab_device (slabs m c) of
             MixedCache _ \<Rightarrow> None
           | _ \<Rightarrow>
               let (slot, _, _, _) = resolve_working_slot (kv_pol m) mb
                     (bh_total (slabs m c) div max 1 (heads_of m)) (Some (working_slot_batch_size (kv_pol m)))
               in slot_state_key slot m))"

section \<open>The two transfer streams\<close>

definition stage_copy :: "'a slab \<Rightarrow> nat \<Rightarrow> nat \<times> nat \<Rightarrow> 'a stage \<Rightarrow> 'a stage result" where
  "stage_copy sl prefix hds st =
     (let ss = min prefix (seq_total sl); sb = snd hds - fst hds in
      case copy_block (st_seq st) (st_bh st) (st_k st) (0, prefix) (0, st_bh st) ss sb
             (\<lambda>s b. k_data sl s (fst hds + b)) of
        Inl e \<Rightarrow> Inl e
      | Inr k \<Rightarrow>
          (case copy_block (st_seq st) (st_bh st) (st_v st) (0, prefix) (0, st_bh st) ss sb
                  (\<lambda>s b. v_data sl s (fst hds + b)) of
             Inl e \<Rightarrow> Inl e
           | Inr v \<Rightarrow> Inr (st\<lparr>st_k := k, st_v := v\<rparr>)))"

definition slab_restore :: "'a stage \<Rightarrow> nat \<Rightarrow> nat \<times> nat \<Rightarrow> 'a slab \<Rightarrow> 'a slab result" where
  "slab_restore st prefix hds sl =
     (let ss = min prefix (st_seq st); sb = min (snd hds - fst hds) (st_bh st) in
      case copy_block (seq_total sl) (bh_total sl) (k_data sl) (0, prefix) hds ss sb (st_k st) of
        Inl e \<Rightarrow> Inl e
      | Inr k \<Rightarrow>
          (case copy_block (seq_total sl) (bh_total sl) (v_data sl) (0, prefix) hds ss sb (st_v st) of
             Inl e \<Rightarrow> Inl e
           | Inr v \<Rightarrow> Inr (sl\<lparr>k_data := k, v_data := v\<rparr>)))"

definition exec_offload :: "offload_copy \<Rightarrow> 'a kv_manager \<Rightarrow> 'a kv_manager" where
  "exec_offload e m =
     (case mb_cpu_staging m (of_key e) of
        None \<Rightarrow> m
      | Some st \<Rightarrow>
          (case stage_copy (slabs m (fst (of_key e))) (of_prefix e) (of_heads e) st of
             Inl _ \<Rightarrow> m
           | Inr st' \<Rightarrow> m\<lparr>mb_cpu_staging := (mb_cpu_staging m)(of_key e \<mapsto> st')\<rparr>))"

definition offload_progress :: "'a kv_manager \<Rightarrow> 'a kv_manager" where
  "offload_progress m =
     (case offload_queue m of
        [] \<Rightarrow> m
      | e # q \<Rightarrow> (exec_offload e m)\<lparr>offload_queue := q, offload_done := Suc (offload_done m)\<rparr>)"

definition wait_offload :: "nat \<Rightarrow> 'a kv_manager \<Rightarrow> 'a kv_manager" where
  "wait_offload ticket m = (offload_progress ^^ (ticket - offload_done m)) m"

definition exec_prefetch :: "prefetch_copy \<Rightarrow> 'a kv_manager \<Rightarrow> 'a kv_manager" where
  "exec_prefetch e m =
     (let m1 = (case pf_wait e of None \<Rightarrow> m | Some ticket \<Rightarrow> wait_offload ticket m); c = fst (pf_key e) in
      case mb_cpu_staging m1 (pf_key e) of
        None \<Rightarrow> m1
      | Some st \<Rightarrow>
          (case slab_restore st (pf_prefix e) (pf_heads e) (slabs m1 c) of
             Inl _ \<Rightarrow> m1
           | Inr sl \<Rightarrow> m1\<lparr>slabs := (slabs m1)(c := sl)\<rparr>))"

definition prefetch_progress :: "'a kv_manager \<Rightarrow> 'a kv_manager" where
  "prefetch_progress m =
     (case prefetch_queue m of
        [] \<Rightarrow> m
      | e # q \<Rightarrow> (exec_prefetch e m)\<lparr>prefetch_queue := q, prefetch_done := Suc (prefetch_done m)\<rparr>)"

definition wait_prefetch :: "nat \<Rightarrow> 'a kv_manager \<Rightarrow> 'a kv_manager" where
  "wait_prefetch ticket m = (prefetch_progress ^^ (ticket - prefetch_done m)) m"

definition sync_prefetch :: "nat \<Rightarrow> 'a kv_manager \<Rightarrow> 'a kv_manager" where
  "sync_prefetch mb m =
     (if \<not> async_kv_transfer m then m
      else
        case staging_key mb m of
          None \<Rightarrow> m
        | Some k \<Rightarrow>
            let m1 = (case mb_prefetch_events m k of
                        None \<Rightarrow> m
                      | Some ticket \<Rightarrow>
                          wait_prefetch ticket (m\<lparr>mb_prefetch_events := (mb_prefetch_events m)(k := None)\<rparr>))
            in case slot_state_key_for_mb mb m1 of
                 None \<Rightarrow> m1
               | Some sk \<Rightarrow>
                   if pending_gpu_mb m1 sk = Some mb
                   then m1\<lparr>current_gpu_mb := (current_gpu_mb m1)(sk \<mapsto> mb),
                           pending_gpu_mb := (pending_gpu_mb m1)(sk := None)\<rparr>
                   else m1)"

definition sync_prefetch_all :: "'a kv_manager \<Rightarrow> 'a kv_manager" where
  "sync_prefetch_all m =
     (if \<not> async_kv_transfer m then m
      else
        let m1 = (prefetch_progress ^^ length (prefetch_queue m)) m in
        m1\<lparr>mb_prefetch_events := Map.empty,
           current_gpu_mb := current_gpu_mb m1 ++ pending_gpu_mb m1,
           pending_gpu_mb := Map.empty\<rparr>)"

definition sync_offload :: "nat \<Rightarrow> 'a kv_manager \<Rightarrow> 'a kv_manager" where
  "sync_offload mb m =
     (if \<not> async_kv_transfer m then m
      else
        case staging_key mb m of
          None \<Rightarrow> m
        | Some k \<Rightarrow>
            (case mb_offload_events m k of
               None \<Rightarrow> m
             | Some ticket \<Rightarrow> wait_offload ticket (m\<lparr>mb_offload_events := (mb_offload_events m)(k := None)\<rparr>)))"

definition sync_offload_all :: "'a kv_manager \<Rightarrow> 'a kv_manager" where
  "sync_offload_all m =
     (if \<not> async_kv_transfer m then m else (offload_progress ^^ length (offload_queue m)) m)"

definition clear_offload_state :: "'a kv_manager \<Rightarrow> 'a kv_manager" where
  "clear_offload_state m =
     (let m1 = sync_offload_all m in
      m1\<lparr>mb_cpu_staging := Map.empty, current_gpu_mb := Map.empty, pending_gpu_mb := Map.empty,
         mb_offload_events := Map.empty, mb_prefetch_events := Map.empty\<rparr>)"


section \<open>Offloading and prefetching a micro-batch\<close>

definition fresh_staging :: "'a kv_manager \<Rightarrow> nat \<Rightarrow> nat \<Rightarrow> 'a stage" where
  "fresh_staging m S bh =
     \<lparr>st_seq = S, st_bh = bh, st_k = (\<lambda>_ _. uninitialised m), st_v = (\<lambda>_ _. uninitialised m), st_prefix = 0\<rparr>"

text \<open>
  The copy itself. A shape mismatch is raised when the copy is launched, on either path, and is
  caught by the handler around the whole method: only the staging buffer created before it stays.
\<close>

definition launch_offload :: "nat \<times> nat \<Rightarrow> nat \<times> nat \<Rightarrow> nat \<Rightarrow> nat \<times> nat \<Rightarrow> 'a kv_manager \<Rightarrow> 'a kv_manager" where
  "launch_offload k sk prefix hds m =
     (let sl = slabs m (fst k);
          st = (case mb_cpu_staging m k of Some st \<Rightarrow> st | None \<Rightarrow> fresh_staging m (seq_total sl) (snd hds - fst hds));
          m1 = m\<lparr>mb_cpu_staging := (mb_cpu_staging m)(k \<mapsto> st)\<rparr>
      in case stage_copy sl prefix hds st of
           Inl _ \<Rightarrow> m1
         | Inr st' \<Rightarrow>
             let m2 = (if async_kv_transfer m
                       then m1\<lparr>mb_cpu_staging := (mb_cpu_staging m1)(k \<mapsto> st\<lparr>st_prefix := prefix\<rparr>),
                               offload_queue := offload_queue m1 @ [\<lparr>of_key = k, of_prefix = prefix, of_heads = hds\<rparr>],
                               mb_offload_events := (mb_offload_events m1)
                                 (k \<mapsto> Suc (offload_done m1 + length (offload_queue m1)))\<rparr>
                       else m1\<lparr>mb_cpu_staging := (mb_cpu_staging m1)(k \<mapsto> st'\<lparr>st_prefix := prefix\<rparr>),
                               mb_offload_events := (mb_offload_events m1)(k := None)\<rparr>)
             in m2\<lparr>pending_gpu_mb := (pending_gpu_mb m2)(sk := None),
                   current_gpu_mb := (current_gpu_mb m2)(sk \<mapsto> snd k)\<rparr>)"

definition offload_microbatch_kv ::
  "nat \<Rightarrow> nat \<Rightarrow> nat option \<Rightarrow> nat option \<Rightarrow> 'a kv_manager \<Rightarrow> 'a kv_manager" where
  "offload_microbatch_kv mb prefix working_slot batch_rows m =
     (if \<not> offload_enabled m then m
      else
        case active_cache_slot_id m of
          None \<Rightarrow> m
        | Some c \<Rightarrow>
            if slab_device (slabs m c) \<noteq> CudaCache then m
            else
              let H = heads_of m;
                  capacity = bh_total (slabs m c) div H;
                  (slot, start, active, _) =
                    (case working_slot of
                       None \<Rightarrow> resolve_working_slot (kv_pol m) mb capacity batch_rows
                     | Some w \<Rightarrow>
                         let size = working_slot_batch_size (kv_pol m);
                             start = w * size;
                             slot_capacity = min size (capacity - start)
                         in (w, start,
                             (case batch_rows of
                                None \<Rightarrow> slot_capacity
                              | Some n \<Rightarrow> if n = 0 then slot_capacity else min n slot_capacity),
                             slot_capacity));
                  b0 = start * H;
                  b1 = min (b0 + active * H) (bh_total (slabs m c))
              in if active * H = 0 \<or> b1 - b0 = 0 then m
                 else launch_offload (c, mb) (c, slot)
                        (if prefix = 0 then seq_total (slabs m c) else prefix) (b0, b1) m)"

definition launch_prefetch :: "nat \<times> nat \<Rightarrow> nat \<times> nat \<Rightarrow> 'a stage \<Rightarrow> nat \<times> nat \<Rightarrow> 'a kv_manager \<Rightarrow> 'a kv_manager" where
  "launch_prefetch k sk st hds m =
     (case slab_restore st (st_prefix st) hds (slabs m (fst k)) of
        Inl _ \<Rightarrow> m
      | Inr sl \<Rightarrow>
          if async_kv_transfer m
          then m\<lparr>prefetch_queue := prefetch_queue m @
                   [\<lparr>pf_key = k, pf_prefix = st_prefix st, pf_heads = hds, pf_wait = mb_offload_events m k\<rparr>],
                 mb_prefetch_events := (mb_prefetch_events m)(k \<mapsto> Suc (prefetch_done m + length (prefetch_queue m))),
                 pending_gpu_mb := (pending_gpu_mb m)(sk \<mapsto> snd k)\<rparr>
          else m\<lparr>slabs := (slabs m)(fst k := sl),
                 mb_prefetch_events := (mb_prefetch_events m)(k := None),
                 pending_gpu_mb := (pending_gpu_mb m)(sk := None),
                 current_gpu_mb := (current_gpu_mb m)(sk \<mapsto> snd k)\<rparr>)"

definition prefetch_microbatch_kv :: "nat \<Rightarrow> 'a kv_manager \<Rightarrow> 'a kv_manager" where
  "prefetch_microbatch_kv mb m =
     (if \<not> offload_enabled m then m
      else
        case active_cache_slot_id m of
          None \<Rightarrow> m
        | Some c \<Rightarrow>
            (case mb_cpu_staging m (c, mb) of
               None \<Rightarrow> m
             | Some st \<Rightarrow>
                 if slab_device (slabs m c) \<noteq> CudaCache \<or> st_prefix st = 0 then m
                 else
                   let H = heads_of m;
                       capacity = bh_total (slabs m c) div max 1 H;
                       (slot, start, active, _) =
                         resolve_working_slot (kv_pol m) mb capacity (Some (st_bh st div max 1 H));
                       b0 = start * H;
                       b1 = min (b0 + active * H) (bh_total (slabs m c))
                   in if active * H = 0 \<or> b1 - b0 = 0 then m
                      else
                        let sk = (c, slot);
                            current_mb = current_gpu_mb m sk;
                            m1 = (case pending_gpu_mb m sk of
                                    None \<Rightarrow> m
                                  | Some pending \<Rightarrow> if pending \<noteq> mb then sync_prefetch pending m else m);
                            m2 = (case current_mb of
                                    None \<Rightarrow> m1
                                  | Some current \<Rightarrow> if current \<noteq> mb then sync_offload current m1 else m1)
                        in launch_prefetch (c, mb) sk st (b0, b1) m2))"

section \<open>Reading the cache\<close>

text \<open>The view \<open>(B, H, S, D)\<close> a read returns.\<close>

record 'a pkv =
  pk_batch :: nat
  pk_heads :: nat
  pk_seq :: nat
  pk_key :: "nat \<Rightarrow> nat \<Rightarrow> nat \<Rightarrow> 'a"
  pk_value :: "nat \<Rightarrow> nat \<Rightarrow> nat \<Rightarrow> 'a"

definition to_pkv :: "nat \<Rightarrow> 'a slab \<Rightarrow> nat list \<Rightarrow> nat list \<Rightarrow> 'a pkv result" where
  "to_pkv heads sl positions columns =
     (let BH = length columns; H = (if BH < heads then BH else heads) in
      if H = 0 then Inl ZeroDivisionError
      else if BH mod H \<noteq> 0 then Inl AssertionError
      else Inr \<lparr>pk_batch = BH div H, pk_heads = H, pk_seq = length positions,
                pk_key = (\<lambda>b h s. k_data sl (positions ! s) (columns ! (b * H + h))),
                pk_value = (\<lambda>b h s. v_data sl (positions ! s) (columns ! (b * H + h)))\<rparr>)"

text \<open>An index of a tensor dimension: negative indices count from the end.\<close>

definition torch_index :: "nat \<Rightarrow> int \<Rightarrow> nat result" where
  "torch_index n i =
     (if 0 \<le> i \<and> i < int n then Inr (nat i)
      else if i < 0 \<and> - int n \<le> i then Inr (nat (i + int n))
      else Inl IndexError)"

fun torch_indices :: "nat \<Rightarrow> int list \<Rightarrow> nat list result" where
  "torch_indices n [] = Inr []"
| "torch_indices n (i # is) =
     (case torch_index n i of
        Inl e \<Rightarrow> Inl e
      | Inr j \<Rightarrow> (case torch_indices n is of Inl e \<Rightarrow> Inl e | Inr js \<Rightarrow> Inr (j # js)))"

definition read_columns :: "'a slab \<Rightarrow> nat \<times> nat \<Rightarrow> nat list result" where
  "read_columns sl brange =
     (case slab_device sl of
        MixedCache points \<Rightarrow>
          (case segment_overlaps points (fst brange) (snd brange) of
             [] \<Rightarrow> Inl RuntimeError
           | parts \<Rightarrow> Inr (concat (map (\<lambda>(a, e). [a..<e]) parts)))
      | _ \<Rightarrow> Inr [fst brange..<min (snd brange) (bh_total sl)])"

definition read_positions :: "'a slab \<Rightarrow> nat \<Rightarrow> int list option \<Rightarrow> (nat list \<times> bool) result" where
  "read_positions sl prefix position_ids =
     (case position_ids of
        None \<Rightarrow> Inr ([0..<prefix], False)
      | Some [] \<Rightarrow> Inr ([0..<prefix], False)
      | Some (root_position # rest) \<Rightarrow>
          let s_indices = map int [0..<nat root_position] @ root_position # rest;
              need_reorder = (s_indices \<noteq> map int [0..<length s_indices])
          in if slab_device sl = CpuCache then Inl AttributeError
             else (case torch_indices (seq_total sl) s_indices of
                     Inl e \<Rightarrow> Inl e
                   | Inr js \<Rightarrow> Inr (js, need_reorder)))"

definition gpu_multiplexing :: "nat \<Rightarrow> nat \<Rightarrow> bool" where
  "gpu_multiplexing capacity full_batch \<longleftrightarrow> full_batch > 0 \<and> capacity < full_batch"

text \<open>The part of a read that makes the micro-batch resident: nothing to do when it is.\<close>

definition make_resident :: "nat \<Rightarrow> (nat \<times> nat) option \<Rightarrow> 'a kv_manager \<Rightarrow> 'a kv_manager" where
  "make_resident mb key m =
     (let current_mb = Option.bind key (current_gpu_mb m);
          pending_mb = Option.bind key (pending_gpu_mb m)
      in if current_mb \<noteq> Some mb then
           let m1 = (case current_mb of None \<Rightarrow> m | Some z \<Rightarrow> sync_offload z m);
               m2 = (if pending_mb \<noteq> Some mb then prefetch_microbatch_kv mb m1 else m1)
           in sync_prefetch mb m2
         else if pending_mb = Some mb then sync_prefetch mb m
         else m)"

text \<open>The rows of the slab a read addresses; when multiplexing the micro-batch is made resident.\<close>

definition read_range ::
  "nat \<Rightarrow> nat \<Rightarrow> nat \<Rightarrow> nat \<Rightarrow> nat \<Rightarrow> 'a kv_manager \<Rightarrow> nat \<times> nat \<times> 'a kv_manager" where
  "read_range batch_offset full_batch micro_batch capacity BH_full m =
     (let H = heads_of m in
      if full_batch > 0 \<and> micro_batch > 0 then
        if gpu_multiplexing capacity full_batch then
          let mb = compute_microbatch_index (kv_pol m) batch_offset (Some micro_batch) (Some full_batch);
              (slot, start, active, _) = resolve_working_slot (kv_pol m) mb capacity (Some micro_batch);
              rows = (if active > 0 then active else capacity)
          in (start * H, min (start * H + rows * H) BH_full, make_resident mb (slot_state_key slot m) m)
        else (batch_offset * H, min (batch_offset * H + micro_batch * H) BH_full, m)
      else (0, BH_full, m))"

definition select_cache ::
  "nat \<Rightarrow> int list option \<Rightarrow> nat \<Rightarrow> nat \<Rightarrow> nat \<Rightarrow> nat option \<Rightarrow> 'a kv_manager \<Rightarrow>
   ('a kv_manager, 'a pkv option \<times> bool) outcome" where
  "select_cache prefix position_ids batch_offset full_batch micro_batch cache_tensors m =
     (case (case cache_tensors of None \<Rightarrow> active_cache_slot_id m | Some c \<Rightarrow> Some c) of
        None \<Rightarrow> (Inl AssertionError, m)
      | Some c \<Rightarrow>
          if prefix = 0 then (Inr (None, False), m)
          else if prefix > seq_total (slabs m c) then (Inl AssertionError, m)
          else if heads_of m = 0 then (Inl ZeroDivisionError, m)
          else
            let H = heads_of m;
                BH_full = bh_total (slabs m c);
                capacity = BH_full div H;
                (b0, b1, m1) = read_range batch_offset full_batch micro_batch capacity BH_full m
            in (case read_positions (slabs m1 c) prefix position_ids of
                  Inl e \<Rightarrow> (Inl e, m1)
                | Inr (positions, need_reorder) \<Rightarrow>
                    (case read_columns (slabs m1 c) (b0, b1) of
                       Inl e \<Rightarrow> (Inl e, m1)
                     | Inr columns \<Rightarrow>
                         (case to_pkv H (slabs m1 c) positions columns of
                            Inl e \<Rightarrow> (Inl e, m1)
                          | Inr view \<Rightarrow> (Inr (Some view, need_reorder), m1)))))"


section \<open>Writing the cache\<close>

record 'a new_kvs =
  key_shape :: "nat list"
  value_shape :: "nat list"
  key_at :: "nat \<Rightarrow> nat \<Rightarrow> 'a"
  value_at :: "nat \<Rightarrow> nat \<Rightarrow> 'a"

text \<open>The part of a write that waits for transfers of other micro-batches in the slot.\<close>

definition claim_slot :: "nat \<Rightarrow> (nat \<times> nat) option \<Rightarrow> 'a kv_manager \<Rightarrow> 'a kv_manager" where
  "claim_slot mb key m =
     (case key of
        None \<Rightarrow> m
      | Some sk \<Rightarrow>
          let m1 = (case pending_gpu_mb m sk of
                      None \<Rightarrow> m
                    | Some pending \<Rightarrow> if pending \<noteq> mb then sync_prefetch pending m else m)
          in case current_gpu_mb m1 sk of
               None \<Rightarrow> m1
             | Some current \<Rightarrow> if current \<noteq> mb then sync_offload current m1 else m1)"

text \<open>\<open>k_cache\<close> and then \<open>v_cache\<close>; a source of \<open>ss\<close> positions, transposed to \<open>(s, bh)\<close>.\<close>

definition write_planes ::
  "nat \<times> nat \<Rightarrow> nat \<times> nat \<Rightarrow> nat \<Rightarrow> nat \<Rightarrow> nat \<times> nat \<Rightarrow> 'a plane \<Rightarrow> 'a plane \<Rightarrow> 'a slab \<Rightarrow> ('a slab, unit) outcome" where
  "write_planes srange brange ss sb src_brange ksrc vsrc sl =
     (case write_to_cache sl (k_data sl) srange brange ss sb src_brange ksrc of
        (Inl e, k) \<Rightarrow> (Inl e, sl\<lparr>k_data := k\<rparr>)
      | (Inr _, k) \<Rightarrow>
          (case write_to_cache sl (v_data sl) srange brange ss sb src_brange vsrc of
             (r, v) \<Rightarrow> (r, sl\<lparr>k_data := k, v_data := v\<rparr>)))"

fun write_batches ::
  "nat \<Rightarrow> nat \<Rightarrow> nat \<Rightarrow> nat \<times> nat \<Rightarrow> nat list \<Rightarrow> nat \<Rightarrow> nat \<Rightarrow> 'a plane \<Rightarrow> 'a plane \<Rightarrow> 'a slab \<Rightarrow>
   ('a slab, unit) outcome" where
  "write_batches H source_heads b0 srange [] ss sb ksrc vsrc sl = (Inr (), sl)"
| "write_batches H source_heads b0 srange (i # is) ss sb ksrc vsrc sl =
     (case write_planes srange (b0 + i * H, b0 + i * H + source_heads) ss sb
             (i * source_heads, i * source_heads + source_heads) ksrc vsrc sl of
        (Inl e, sl') \<Rightarrow> (Inl e, sl')
      | (Inr _, sl') \<Rightarrow> write_batches H source_heads b0 srange is ss sb ksrc vsrc sl')"

text \<open>The rows of the slab a write addresses, with the slot and its rows when multiplexing.\<close>

definition write_range ::
  "nat \<Rightarrow> nat \<Rightarrow> nat \<Rightarrow> nat \<Rightarrow> nat \<Rightarrow> nat \<Rightarrow> 'a kv_manager \<Rightarrow>
   ('a kv_manager, nat \<times> nat \<times> nat option \<times> nat option) outcome" where
  "write_range bh_span batch_offset full_batch micro_batch capacity bh_dst m =
     (if full_batch > 0 then
        if gpu_multiplexing capacity full_batch then
          let mb = compute_microbatch_index (kv_pol m) batch_offset (Some micro_batch) (Some full_batch);
              (slot, start, active, _) = resolve_working_slot (kv_pol m) mb capacity (Some micro_batch);
              b0 = start * heads_of m
          in (Inr (b0, b0 + bh_span, Some slot, Some active), claim_slot mb (slot_state_key slot m) m)
        else
          let b0 = batch_offset * heads_of m in (Inr (b0, min (b0 + bh_span) bh_dst, None, None), m)
      else if bh_span \<le> bh_dst then (Inr (0, bh_span, None, None), m)
      else (Inl AssertionError, m))"

text \<open>
  The positions a write addresses, how many source positions it has and how many of the new ones it
  skips: past the end of the slab the last \<open>S_total\<close> new positions go to the whole slab.
\<close>

definition write_window :: "nat \<Rightarrow> nat \<Rightarrow> nat \<Rightarrow> nat \<times> nat \<times> nat \<times> nat" where
  "write_window S_total start_position s_new =
     (if start_position < S_total \<and> start_position + s_new \<le> S_total
      then (start_position, start_position + s_new, s_new, 0)
      else (0, S_total, min s_new S_total, s_new - S_total))"

definition write_slab_rows ::
  "nat \<Rightarrow> nat \<Rightarrow> nat \<Rightarrow> nat \<Rightarrow> nat \<Rightarrow> nat \<times> nat \<Rightarrow> 'a new_kvs \<Rightarrow> 'a slab \<Rightarrow> ('a slab, unit) outcome" where
  "write_slab_rows H source_heads BH_src s_new start_position brange kvs sl =
     (let (s0, s1, ss, skip) = write_window (seq_total sl) start_position s_new;
          ksrc = (\<lambda>s b. key_at kvs b (s + skip));
          vsrc = (\<lambda>s b. value_at kvs b (s + skip))
      in if source_heads < H
         then write_batches H source_heads (fst brange) (s0, s1) [0..<BH_src div source_heads] ss BH_src ksrc vsrc sl
         else write_planes (s0, s1) brange ss BH_src (0, BH_src) ksrc vsrc sl)"

definition write_kvs ::
  "'a new_kvs \<Rightarrow> nat \<Rightarrow> nat \<Rightarrow> nat \<Rightarrow> nat \<Rightarrow> nat option \<Rightarrow> 'a kv_manager \<Rightarrow> ('a kv_manager, unit) outcome" where
  "write_kvs kvs start_position batch_offset full_batch micro_batch cache_tensors m =
     (case (case cache_tensors of None \<Rightarrow> active_cache_slot_id m | Some c \<Rightarrow> Some c) of
        None \<Rightarrow> (Inl AssertionError, m)
      | Some c \<Rightarrow>
          let H = heads_of m; S_total = seq_total (slabs m c); BH_dst = bh_total (slabs m c);
              capacity = BH_dst div H
          in if H = 0 then (Inl ZeroDivisionError, m)
             else
               (case key_shape kvs of
                  [BH_src, D_src, s_new] \<Rightarrow>
                    let source_heads = source_heads_per_batch (kv_cfg m) H BH_src full_batch micro_batch;
                        source_batch = BH_src div source_heads;
                        bh_span = (if source_heads < H then source_batch * H else BH_src)
                    in if value_shape kvs \<noteq> [BH_src, s_new, D_src] \<or> D_src \<noteq> head_dim (slabs m c) \<or>
                          BH_src mod source_heads \<noteq> 0
                       then (Inl AssertionError, m)
                       else
                         (case write_range bh_span batch_offset full_batch micro_batch capacity BH_dst m of
                            (Inl e, m1) \<Rightarrow> (Inl e, m1)
                          | (Inr (b0, b1, slot, rows), m1) \<Rightarrow>
                              let (r, sl) = write_slab_rows H source_heads BH_src s_new start_position (b0, b1) kvs (slabs m1 c);
                                  m2 = m1\<lparr>slabs := (slabs m1)(c := sl)\<rparr>
                              in (case r of
                                    Inl e \<Rightarrow> (Inl e, m2)
                                  | Inr _ \<Rightarrow>
                                      (Inr (),
                                       if gpu_multiplexing capacity full_batch
                                       then offload_microbatch_kv
                                              (compute_microbatch_index (kv_pol m) batch_offset (Some micro_batch)
                                                 (Some full_batch))
                                              (fst (snd (write_window S_total start_position s_new))) slot rows m2
                                       else m2)))
                | _ \<Rightarrow> (Inl AssertionError, m)))"

text \<open>\<open>use_cache\<close>: the handle's slab is active while the body runs.\<close>

definition use_cache_ctx :: "nat \<Rightarrow> ('a kv_manager \<Rightarrow> ('a kv_manager, 'b) outcome) \<Rightarrow> 'a kv_manager \<Rightarrow> ('a kv_manager, 'b) outcome" where
  "use_cache_ctx c body m =
     (case body (m\<lparr>active_stack := c # active_stack m\<rparr>) of
        (r, m') \<Rightarrow> (r, m'\<lparr>active_stack := tl (active_stack m')\<rparr>))"


section \<open>A step of a block\<close>

text \<open>
  What a block does with the cache in one step of one micro-batch (\<open>inference_step\<close> and
  \<open>_finalize_cache_update\<close> of \<open>server/backend.py\<close>): read the prefix, run the module, write the new
  keys and values behind what was read. The offload stream makes \<open>rq_overlap\<close> copies meanwhile and
  \<open>rq_after\<close> copies before the next step.
\<close>

record 'a kv_request =
  rq_cache :: nat
  rq_offset :: nat
  rq_full :: nat
  rq_micro :: nat
  rq_prefix :: nat
  rq_kvs :: "'a new_kvs"
  rq_overlap :: nat
  rq_after :: nat

definition cached_step :: "'a kv_request \<Rightarrow> 'a kv_manager \<Rightarrow> ('a kv_manager, 'a pkv option) outcome" where
  "cached_step r m =
     (case select_cache (rq_prefix r) None (rq_offset r) (rq_full r) (rq_micro r) None m of
        (Inl e, m1) \<Rightarrow> (Inl e, m1)
      | (Inr (view, _), m1) \<Rightarrow>
          let cache_len = (case view of None \<Rightarrow> 0 | Some v \<Rightarrow> pk_seq v) in
          (case write_kvs (rq_kvs r) cache_len (rq_offset r) (rq_full r) (rq_micro r) None
                  ((offload_progress ^^ rq_overlap r) m1) of
             (Inl e, m2) \<Rightarrow> (Inl e, m2)
           | (Inr _, m2) \<Rightarrow> (Inr view, (offload_progress ^^ rq_after r) m2)))"

fun run_requests :: "'a kv_request list \<Rightarrow> 'a kv_manager \<Rightarrow> ('a kv_manager, 'a pkv option list) outcome" where
  "run_requests [] m = (Inr [], m)"
| "run_requests (r # rs) m =
     (case use_cache_ctx (rq_cache r) (cached_step r) m of
        (Inl e, m1) \<Rightarrow> (Inl e, m1)
      | (Inr view, m1) \<Rightarrow>
          (case run_requests rs m1 of
             (Inl e, m2) \<Rightarrow> (Inl e, m2)
           | (Inr views, m2) \<Rightarrow> (Inr (view # views), m2)))"

end
