(* ===== verification/KVMultiplex_Props.thy ===== *)
theory KVMultiplex_Props
  imports KVMultiplex
begin

text \<open>
  What the working slots promise: whatever the transfer streams do and in whichever order
  micro-batches and caches take turns, a micro-batch reads back exactly the rows it wrote. The
  invariant relates the slab, the staging buffers and the copies in flight to a logical store that
  keeps every micro-batch apart.
\<close>

named_theorems kvm_simps \<open>frame rules of the cache manager\<close>

section \<open>Exact block copies\<close>

lemma copy_block_exact:
  assumes "s1 \<le> S" and "b1 \<le> BH" and "s0 \<le> s1" and "b0 \<le> b1"
  shows "copy_block S BH dst (s0, s1) (b0, b1) (s1 - s0) (b1 - b0) src =
           Inr (\<lambda>s b. if s0 \<le> s \<and> s < s1 \<and> b0 \<le> b \<and> b < b1 then src (s - s0) (b - b0) else dst s b)"
  using assms by (auto simp: copy_block_def min_def fun_eq_iff Let_def)

lemma stage_copy_exact:
  assumes "st_seq st = seq_total sl" and "st_bh st = w" and "prefix \<le> seq_total sl"
  shows "stage_copy sl prefix (a, a + w) st =
           Inr (st\<lparr>st_k := (\<lambda>s b. if s < prefix \<and> b < w then k_data sl s (a + b) else st_k st s b),
                   st_v := (\<lambda>s b. if s < prefix \<and> b < w then v_data sl s (a + b) else st_v st s b)\<rparr>)"
  using assms by (simp add: stage_copy_def Let_def copy_block_exact [of prefix "seq_total sl" w w 0 0, simplified] cong: if_cong)

lemma slab_restore_exact:
  assumes "st_seq st = seq_total sl" and "st_bh st = w" and "prefix \<le> seq_total sl" and "a + w \<le> bh_total sl"
  shows "slab_restore st prefix (a, a + w) sl =
           Inr (sl\<lparr>k_data := (\<lambda>s b. if s < prefix \<and> a \<le> b \<and> b < a + w then st_k st s (b - a) else k_data sl s b),
                   v_data := (\<lambda>s b. if s < prefix \<and> a \<le> b \<and> b < a + w then st_v st s (b - a) else v_data sl s b)\<rparr>)"
  using assms by (simp add: slab_restore_def Let_def copy_block_exact [of prefix "seq_total sl" "a + w" "bh_total sl" 0 a, simplified] cong: if_cong)

section \<open>Frame rules of the offload stream\<close>

lemma exec_offload_frame [kvm_simps]:
  "kv_pol (exec_offload e m) = kv_pol m" "kv_cfg (exec_offload e m) = kv_cfg m"
  "slabs (exec_offload e m) = slabs m" "active_stack (exec_offload e m) = active_stack m"
  "current_gpu_mb (exec_offload e m) = current_gpu_mb m" "pending_gpu_mb (exec_offload e m) = pending_gpu_mb m"
  "mb_offload_events (exec_offload e m) = mb_offload_events m"
  "mb_prefetch_events (exec_offload e m) = mb_prefetch_events m"
  "offload_enabled (exec_offload e m) = offload_enabled m" "async_kv_transfer (exec_offload e m) = async_kv_transfer m"
  "offload_queue (exec_offload e m) = offload_queue m" "offload_done (exec_offload e m) = offload_done m"
  "prefetch_queue (exec_offload e m) = prefetch_queue m" "prefetch_done (exec_offload e m) = prefetch_done m"
  "uninitialised (exec_offload e m) = uninitialised m"
  by (simp_all add: exec_offload_def split: option.split sum.split)

lemma offload_progress_frame [kvm_simps]:
  "kv_pol (offload_progress m) = kv_pol m" "kv_cfg (offload_progress m) = kv_cfg m"
  "slabs (offload_progress m) = slabs m" "active_stack (offload_progress m) = active_stack m"
  "current_gpu_mb (offload_progress m) = current_gpu_mb m" "pending_gpu_mb (offload_progress m) = pending_gpu_mb m"
  "mb_offload_events (offload_progress m) = mb_offload_events m"
  "mb_prefetch_events (offload_progress m) = mb_prefetch_events m"
  "offload_enabled (offload_progress m) = offload_enabled m" "async_kv_transfer (offload_progress m) = async_kv_transfer m"
  "offload_queue (offload_progress m) = tl (offload_queue m)"
  "prefetch_queue (offload_progress m) = prefetch_queue m" "prefetch_done (offload_progress m) = prefetch_done m"
  "uninitialised (offload_progress m) = uninitialised m"
  by (simp_all add: offload_progress_def kvm_simps split: list.split)

lemma offload_run_frame [kvm_simps]:
  "kv_pol ((offload_progress ^^ n) m) = kv_pol m" "kv_cfg ((offload_progress ^^ n) m) = kv_cfg m"
  "slabs ((offload_progress ^^ n) m) = slabs m" "active_stack ((offload_progress ^^ n) m) = active_stack m"
  "current_gpu_mb ((offload_progress ^^ n) m) = current_gpu_mb m"
  "pending_gpu_mb ((offload_progress ^^ n) m) = pending_gpu_mb m"
  "mb_offload_events ((offload_progress ^^ n) m) = mb_offload_events m"
  "mb_prefetch_events ((offload_progress ^^ n) m) = mb_prefetch_events m"
  "offload_enabled ((offload_progress ^^ n) m) = offload_enabled m"
  "async_kv_transfer ((offload_progress ^^ n) m) = async_kv_transfer m"
  "offload_queue ((offload_progress ^^ n) m) = drop n (offload_queue m)"
  "prefetch_queue ((offload_progress ^^ n) m) = prefetch_queue m"
  "prefetch_done ((offload_progress ^^ n) m) = prefetch_done m"
  "uninitialised ((offload_progress ^^ n) m) = uninitialised m"
  by (induction n) (simp_all add: kvm_simps drop_Suc tl_drop)

lemma wait_offload_frame [kvm_simps]:
  "kv_pol (wait_offload t m) = kv_pol m" "kv_cfg (wait_offload t m) = kv_cfg m"
  "slabs (wait_offload t m) = slabs m" "active_stack (wait_offload t m) = active_stack m"
  "current_gpu_mb (wait_offload t m) = current_gpu_mb m" "pending_gpu_mb (wait_offload t m) = pending_gpu_mb m"
  "mb_offload_events (wait_offload t m) = mb_offload_events m"
  "mb_prefetch_events (wait_offload t m) = mb_prefetch_events m"
  "offload_enabled (wait_offload t m) = offload_enabled m" "async_kv_transfer (wait_offload t m) = async_kv_transfer m"
  "offload_queue (wait_offload t m) = drop (t - offload_done m) (offload_queue m)"
  "prefetch_queue (wait_offload t m) = prefetch_queue m" "prefetch_done (wait_offload t m) = prefetch_done m"
  "uninitialised (wait_offload t m) = uninitialised m"
  by (simp_all add: wait_offload_def kvm_simps)

text \<open>A transfer does not look at the fields the host uses to track transfers.\<close>

lemma exec_offload_commutes:
  "exec_offload e (m\<lparr>mb_offload_events := x\<rparr>) = (exec_offload e m)\<lparr>mb_offload_events := x\<rparr>"
  "exec_offload e (m\<lparr>mb_prefetch_events := x\<rparr>) = (exec_offload e m)\<lparr>mb_prefetch_events := x\<rparr>"
  "exec_offload e (m\<lparr>pending_gpu_mb := y\<rparr>) = (exec_offload e m)\<lparr>pending_gpu_mb := y\<rparr>"
  "exec_offload e (m\<lparr>prefetch_queue := z\<rparr>) = (exec_offload e m)\<lparr>prefetch_queue := z\<rparr>"
  "exec_offload e (m\<lparr>prefetch_done := w\<rparr>) = (exec_offload e m)\<lparr>prefetch_done := w\<rparr>"
  by (simp_all add: exec_offload_def split: option.split sum.split)

lemma offload_progress_commutes:
  "offload_progress (m\<lparr>mb_offload_events := x\<rparr>) = (offload_progress m)\<lparr>mb_offload_events := x\<rparr>"
  "offload_progress (m\<lparr>mb_prefetch_events := x\<rparr>) = (offload_progress m)\<lparr>mb_prefetch_events := x\<rparr>"
  "offload_progress (m\<lparr>pending_gpu_mb := y\<rparr>) = (offload_progress m)\<lparr>pending_gpu_mb := y\<rparr>"
  "offload_progress (m\<lparr>prefetch_queue := z\<rparr>) = (offload_progress m)\<lparr>prefetch_queue := z\<rparr>"
  "offload_progress (m\<lparr>prefetch_done := w\<rparr>) = (offload_progress m)\<lparr>prefetch_done := w\<rparr>"
  by (simp_all add: offload_progress_def exec_offload_commutes split: list.split)

lemma wait_offload_commutes:
  "wait_offload t (m\<lparr>mb_offload_events := x\<rparr>) = (wait_offload t m)\<lparr>mb_offload_events := x\<rparr>"
  "wait_offload t (m\<lparr>mb_prefetch_events := x\<rparr>) = (wait_offload t m)\<lparr>mb_prefetch_events := x\<rparr>"
  "wait_offload t (m\<lparr>pending_gpu_mb := y\<rparr>) = (wait_offload t m)\<lparr>pending_gpu_mb := y\<rparr>"
  "wait_offload t (m\<lparr>prefetch_queue := z\<rparr>) = (wait_offload t m)\<lparr>prefetch_queue := z\<rparr>"
  "wait_offload t (m\<lparr>prefetch_done := w\<rparr>) = (wait_offload t m)\<lparr>prefetch_done := w\<rparr>"
proof -
  have run: "(offload_progress ^^ n) (m\<lparr>mb_offload_events := x\<rparr>) = ((offload_progress ^^ n) m)\<lparr>mb_offload_events := x\<rparr>"
    "(offload_progress ^^ n) (m\<lparr>mb_prefetch_events := x\<rparr>) = ((offload_progress ^^ n) m)\<lparr>mb_prefetch_events := x\<rparr>"
    "(offload_progress ^^ n) (m\<lparr>pending_gpu_mb := y\<rparr>) = ((offload_progress ^^ n) m)\<lparr>pending_gpu_mb := y\<rparr>"
    "(offload_progress ^^ n) (m\<lparr>prefetch_queue := z\<rparr>) = ((offload_progress ^^ n) m)\<lparr>prefetch_queue := z\<rparr>"
    "(offload_progress ^^ n) (m\<lparr>prefetch_done := w\<rparr>) = ((offload_progress ^^ n) m)\<lparr>prefetch_done := w\<rparr>" for n
    by (induction n) (simp_all add: offload_progress_commutes)
  show "wait_offload t (m\<lparr>mb_offload_events := x\<rparr>) = (wait_offload t m)\<lparr>mb_offload_events := x\<rparr>"
    "wait_offload t (m\<lparr>mb_prefetch_events := x\<rparr>) = (wait_offload t m)\<lparr>mb_prefetch_events := x\<rparr>"
    "wait_offload t (m\<lparr>pending_gpu_mb := y\<rparr>) = (wait_offload t m)\<lparr>pending_gpu_mb := y\<rparr>"
    "wait_offload t (m\<lparr>prefetch_queue := z\<rparr>) = (wait_offload t m)\<lparr>prefetch_queue := z\<rparr>"
    "wait_offload t (m\<lparr>prefetch_done := w\<rparr>) = (wait_offload t m)\<lparr>prefetch_done := w\<rparr>"
    by (simp_all add: wait_offload_def run)
qed


section \<open>The logical store and the invariant\<close>

text \<open>
  The logical store keeps for every cache and micro-batch the number of positions written and the
  keys and values by position, batch row and key-value head.
\<close>

type_synonym 'a kv_store = "nat \<times> nat \<rightharpoonup> nat \<times> (nat \<Rightarrow> nat \<Rightarrow> nat \<Rightarrow> 'a) \<times> (nat \<Rightarrow> nat \<Rightarrow> nat \<Rightarrow> 'a)"

abbreviation slot_batch :: "'a kv_manager \<Rightarrow> nat" where
  "slot_batch m \<equiv> working_slot_batch_size (kv_pol m)"

definition capacity_of :: "'a kv_manager \<Rightarrow> nat \<Rightarrow> nat" where
  "capacity_of m c = bh_total (slabs m c) div heads_of m"

definition slot_of :: "'a kv_manager \<Rightarrow> nat \<Rightarrow> nat \<Rightarrow> nat" where
  "slot_of m c mb = mb mod working_slot_count (kv_pol m) (capacity_of m c)"

definition mb_base :: "'a kv_manager \<Rightarrow> nat \<Rightarrow> nat \<Rightarrow> nat" where
  "mb_base m c mb = slot_of m c mb * slot_batch m * heads_of m"

definition mb_rows :: "'a kv_manager \<Rightarrow> nat \<Rightarrow> nat \<Rightarrow> nat" where
  "mb_rows m full mb = min (slot_batch m) (full - mb * slot_batch m)"

text \<open>The slab of a multiplexed cache holds whole slots, and fewer rows than the request.\<close>

definition slots_fit :: "nat \<Rightarrow> 'a kv_manager \<Rightarrow> nat \<Rightarrow> bool" where
  "slots_fit full m c \<longleftrightarrow>
     slab_device (slabs m c) = CudaCache \<and>
     bh_total (slabs m c) = capacity_of m c * heads_of m \<and>
     working_slot_count (kv_pol m) (capacity_of m c) * slot_batch m \<le> capacity_of m c \<and>
     capacity_of m c < full"

definition holds ::
  "nat \<Rightarrow> nat \<Rightarrow> nat \<Rightarrow> nat \<Rightarrow> (nat \<Rightarrow> nat \<Rightarrow> nat \<Rightarrow> 'a) \<Rightarrow> 'a plane \<Rightarrow> nat \<Rightarrow> bool" where
  "holds kvh H rows n X pl base \<longleftrightarrow> (\<forall>s<n. \<forall>b<rows. \<forall>h<kvh. pl s (base + (b * H + h)) = X s b h)"

definition resident :: "'a kv_manager \<Rightarrow> nat \<Rightarrow> nat \<Rightarrow> bool" where
  "resident m c mb \<longleftrightarrow> current_gpu_mb m (c, slot_of m c mb) = Some mb"

definition in_flight :: "'a kv_manager \<Rightarrow> nat \<times> nat \<Rightarrow> offload_copy list" where
  "in_flight m k = filter (\<lambda>e. of_key e = k) (offload_queue m)"

definition slab_holds :: "nat \<Rightarrow> nat \<Rightarrow> 'a kv_manager \<Rightarrow> nat \<Rightarrow> nat \<Rightarrow> nat \<times> (nat \<Rightarrow> nat \<Rightarrow> nat \<Rightarrow> 'a) \<times> (nat \<Rightarrow> nat \<Rightarrow> nat \<Rightarrow> 'a) \<Rightarrow> bool" where
  "slab_holds full kvh m c mb x \<longleftrightarrow>
     (case x of (n, K, V) \<Rightarrow>
        holds kvh (heads_of m) (mb_rows m full mb) n K (k_data (slabs m c)) (mb_base m c mb) \<and>
        holds kvh (heads_of m) (mb_rows m full mb) n V (v_data (slabs m c)) (mb_base m c mb))"

definition stage_shape :: "nat \<Rightarrow> 'a kv_manager \<Rightarrow> nat \<Rightarrow> nat \<Rightarrow> nat \<Rightarrow> 'a stage \<Rightarrow> bool" where
  "stage_shape full m c mb n st \<longleftrightarrow>
     st_seq st = seq_total (slabs m c) \<and> st_bh st = mb_rows m full mb * heads_of m \<and> st_prefix st = n"

definition stage_holds :: "nat \<Rightarrow> nat \<Rightarrow> 'a kv_manager \<Rightarrow> nat \<Rightarrow> nat \<times> (nat \<Rightarrow> nat \<Rightarrow> nat \<Rightarrow> 'a) \<times> (nat \<Rightarrow> nat \<Rightarrow> nat \<Rightarrow> 'a) \<Rightarrow> 'a stage \<Rightarrow> bool" where
  "stage_holds full kvh m mb x st \<longleftrightarrow>
     (case x of (n, K, V) \<Rightarrow>
        holds kvh (heads_of m) (mb_rows m full mb) n K (st_k st) 0 \<and>
        holds kvh (heads_of m) (mb_rows m full mb) n V (st_v st) 0)"

definition mb_ok :: "(nat \<Rightarrow> nat) \<Rightarrow> nat \<Rightarrow> 'a kv_manager \<Rightarrow> 'a kv_store \<Rightarrow> nat \<Rightarrow> nat \<Rightarrow> bool" where
  "mb_ok full kvh m L c mb \<longleftrightarrow>
     (case L (c, mb) of
        None \<Rightarrow> mb_cpu_staging m (c, mb) = None \<and> in_flight m (c, mb) = []
      | Some (n, K, V) \<Rightarrow>
          0 < n \<and> n \<le> seq_total (slabs m c) \<and> mb * slot_batch m < full c \<and>
          (\<exists>st. mb_cpu_staging m (c, mb) = Some st \<and> stage_shape (full c) m c mb n st \<and>
             (in_flight m (c, mb) = [] \<longrightarrow> stage_holds (full c) kvh m mb (n, K, V) st)) \<and>
          (in_flight m (c, mb) \<noteq> [] \<longrightarrow> resident m c mb \<and> of_prefix (last (in_flight m (c, mb))) = n) \<and>
          (resident m c mb \<longrightarrow> slab_holds (full c) kvh m c mb (n, K, V)))"

definition flight_ok :: "(nat \<Rightarrow> nat) \<Rightarrow> 'a kv_manager \<Rightarrow> nat \<Rightarrow> bool" where
  "flight_ok full m i \<longleftrightarrow>
     (let e = offload_queue m ! i; (c, mb) = of_key e in
      of_heads e = (mb_base m c mb, mb_base m c mb + mb_rows m (full c) mb * heads_of m) \<and>
      of_prefix e \<le> seq_total (slabs m c) \<and>
      (\<exists>t. mb_offload_events m (c, mb) = Some t \<and> offload_done m + i < t))"

definition quiet :: "'a kv_manager \<Rightarrow> bool" where
  "quiet m \<longleftrightarrow>
     pending_gpu_mb m = Map.empty \<and> prefetch_queue m = [] \<and> mb_prefetch_events m = Map.empty \<and>
     (\<not> async_kv_transfer m \<longrightarrow> offload_queue m = [])"

definition slots_inv :: "(nat \<Rightarrow> nat) \<Rightarrow> nat \<Rightarrow> 'a kv_manager \<Rightarrow> 'a kv_store \<Rightarrow> bool" where
  "slots_inv full kvh m L \<longleftrightarrow>
     0 < kvh \<and> kvh \<le> heads_of m \<and> offload_enabled m \<and> quiet m \<and>
     (\<forall>c. 0 < full c \<longrightarrow> slots_fit (full c) m c) \<and>
     (\<forall>i < length (offload_queue m). flight_ok full m i) \<and>
     (\<forall>c slot z. current_gpu_mb m (c, slot) = Some z \<longrightarrow> slot = slot_of m c z \<and> L (c, z) \<noteq> None) \<and>
     (\<forall>c mb. mb_ok full kvh m L c mb)"

lemma slots_invD:
  assumes "slots_inv full kvh m L"
  shows "0 < kvh" "kvh \<le> heads_of m" "offload_enabled m" "quiet m"
    and "0 < full c \<Longrightarrow> slots_fit (full c) m c"
    and "i < length (offload_queue m) \<Longrightarrow> flight_ok full m i"
    and "current_gpu_mb m (c, slot) = Some z \<Longrightarrow> slot = slot_of m c z \<and> L (c, z) \<noteq> None"
    and "mb_ok full kvh m L c mb"
  using assms by (simp_all add: slots_inv_def)

lemma in_flight_elem:
  assumes "in_flight m k \<noteq> []"
  obtains i where "i < length (offload_queue m)" and "of_key (offload_queue m ! i) = k"
proof -
  obtain e where "e \<in> set (offload_queue m)" and "of_key e = k"
    using assms by (auto simp: in_flight_def filter_empty_conv)
  then show thesis using that by (metis in_set_conv_nth)
qed

section \<open>Transfers keep the invariant\<close>

text \<open>The store entry a copy in flight belongs to, and that the copy can be made.\<close>

lemma flight_entry:
  assumes inv: "slots_inv full kvh m L" and i: "i < length (offload_queue m)"
    and key: "of_key (offload_queue m ! i) = (c, mb)"
  obtains n K V st where "L (c, mb) = Some (n, K, V)" and "mb_cpu_staging m (c, mb) = Some st"
    and "stage_shape (full c) m c mb n st" and "resident m c mb"
    and "slab_holds (full c) kvh m c mb (n, K, V)"
    and "of_prefix (last (in_flight m (c, mb))) = n"
    and "of_heads (offload_queue m ! i) = (mb_base m c mb, mb_base m c mb + mb_rows m (full c) mb * heads_of m)"
    and "of_prefix (offload_queue m ! i) \<le> seq_total (slabs m c)"
proof -
  have fl: "in_flight m (c, mb) \<noteq> []"
    using i key by (auto simp: in_flight_def filter_empty_conv intro!: bexI [of _ "offload_queue m ! i"])
  have ok: "mb_ok full kvh m L c mb" using inv by (rule slots_invD)
  have "L (c, mb) \<noteq> None" using ok fl unfolding mb_ok_def by (auto split: option.splits)
  then obtain n K V where L: "L (c, mb) = Some (n, K, V)" by (cases "L (c, mb)") auto
  have fo: "flight_ok full m i" using inv i by (rule slots_invD)
  obtain st where "mb_cpu_staging m (c, mb) = Some st" "stage_shape (full c) m c mb n st"
    using ok L by (auto simp: mb_ok_def)
  then show thesis using that L ok fl fo key by (simp add: mb_ok_def flight_ok_def Let_def)
qed

lemma stage_copy_of_flight:
  assumes "stage_shape full m c mb n st" and "p \<le> seq_total (slabs m c)"
  shows "stage_copy (slabs m c) p (mb_base m c mb, mb_base m c mb + mb_rows m full mb * heads_of m) st =
     Inr (st\<lparr>st_k := (\<lambda>s b. if s < p \<and> b < mb_rows m full mb * heads_of m
                            then k_data (slabs m c) s (mb_base m c mb + b) else st_k st s b),
             st_v := (\<lambda>s b. if s < p \<and> b < mb_rows m full mb * heads_of m
                            then v_data (slabs m c) s (mb_base m c mb + b) else st_v st s b)\<rparr>)"
  using assms by (intro stage_copy_exact) (auto simp: stage_shape_def)

lemma row_head_less: "b < rows \<Longrightarrow> h < kvh \<Longrightarrow> kvh \<le> H \<Longrightarrow> b * H + h < rows * (H::nat)"
proof -
  assume a: "b < rows" "h < kvh" "kvh \<le> H"
  have "b * H + h < b * H + H" using a by simp
  also have "\<dots> = Suc b * H" by simp
  also have "\<dots> \<le> rows * H" using a(1) by (intro mult_le_mono1) simp
  finally show ?thesis .
qed

lemma holds_copied:
  assumes "holds kvh H rows n X pl base" and "kvh \<le> H" and "n \<le> p"
  shows "holds kvh H rows n X (\<lambda>s b. if s < p \<and> b < rows * H then pl s (base + b) else old s b) 0"
  using assms unfolding holds_def by (simp add: row_head_less)


lemma holds_restored:
  assumes "holds kvh H rows n X pl 0" and "kvh \<le> H"
  shows "holds kvh H rows n X
           (\<lambda>s b. if s < n \<and> base \<le> b \<and> b < base + rows * H then pl s (b - base) else old s b) base"
  using assms unfolding holds_def by (simp add: row_head_less)

text \<open>Two states of the same geometry.\<close>

definition same_shape :: "'a kv_manager \<Rightarrow> 'a kv_manager \<Rightarrow> bool" where
  "same_shape m m' \<longleftrightarrow>
     kv_pol m' = kv_pol m \<and> kv_cfg m' = kv_cfg m \<and> offload_enabled m' = offload_enabled m \<and>
     async_kv_transfer m' = async_kv_transfer m \<and>
     (\<forall>c. seq_total (slabs m' c) = seq_total (slabs m c) \<and> bh_total (slabs m' c) = bh_total (slabs m c) \<and>
          head_dim (slabs m' c) = head_dim (slabs m c) \<and> slab_device (slabs m' c) = slab_device (slabs m c))"

lemma same_shape_geometry:
  assumes "same_shape m m'"
  shows "kv_pol m' = kv_pol m" "kv_cfg m' = kv_cfg m" "offload_enabled m' = offload_enabled m"
    "async_kv_transfer m' = async_kv_transfer m" "seq_total (slabs m' c) = seq_total (slabs m c)"
    "bh_total (slabs m' c) = bh_total (slabs m c)" "slab_device (slabs m' c) = slab_device (slabs m c)"
    "head_dim (slabs m' c) = head_dim (slabs m c)"
    "capacity_of m' c = capacity_of m c" "slot_of m' c mb = slot_of m c mb" "mb_base m' c mb = mb_base m c mb"
    "mb_rows m' f mb = mb_rows m f mb" "slots_fit f m' c = slots_fit f m c"
    "stage_shape f m' c mb n st = stage_shape f m c mb n st" "stage_holds f kvh m' mb x st = stage_holds f kvh m mb x st"
  using assms by (simp_all add: same_shape_def capacity_of_def slot_of_def mb_base_def mb_rows_def slots_fit_def
      stage_shape_def stage_holds_def)

lemma same_shape_refl [simp]: "same_shape m m"
  by (simp add: same_shape_def)

lemma same_shape_trans: "same_shape a b \<Longrightarrow> same_shape b c \<Longrightarrow> same_shape a c"
  by (simp add: same_shape_def)

lemma same_shape_progress: "same_shape m (offload_progress m)"
  by (simp add: same_shape_def kvm_simps)

lemma flight_queue_cong:
  assumes "same_shape m m'" and "offload_queue m' ! j = offload_queue m ! i"
    and "offload_done m' + j = offload_done m + i"
    and "mb_offload_events m' (of_key (offload_queue m ! i)) = mb_offload_events m (of_key (offload_queue m ! i))"
  shows "flight_ok full m' j = flight_ok full m i"
  using assms by (cases "of_key (offload_queue m ! i)") (simp add: flight_ok_def same_shape_geometry [OF assms(1)])

lemma mb_ok_cong:
  assumes ok: "mb_ok full kvh m L c mb" and sh: "same_shape m m'" and "L' (c, mb) = L (c, mb)"
    and "mb_cpu_staging m' (c, mb) = mb_cpu_staging m (c, mb)" and "in_flight m' (c, mb) = in_flight m (c, mb)"
    and "resident m c mb \<longrightarrow> in_flight m (c, mb) = [] \<or> resident m' c mb"
    and "\<And>x. L (c, mb) = Some x \<Longrightarrow> resident m' c mb \<Longrightarrow>
           resident m c mb \<and> (slab_holds (full c) kvh m c mb x \<longrightarrow> slab_holds (full c) kvh m' c mb x)"
  shows "mb_ok full kvh m' L' c mb"
proof (cases "L (c, mb)")
  case None
  then show ?thesis using assms by (simp add: mb_ok_def)
next
  case (Some x)
  obtain n K V where "x = (n, K, V)" by (cases x)
  with Some show ?thesis using assms by (auto simp: mb_ok_def same_shape_geometry [OF sh])
qed

lemma progress_inv:
  assumes inv: "slots_inv full kvh m L"
  shows "slots_inv full kvh (offload_progress m) L"
proof (cases "offload_queue m")
  case Nil
  then show ?thesis using inv by (simp add: offload_progress_def)
next
  case (Cons e q)
  obtain c mb where key: "of_key e = (c, mb)" by (cases "of_key e")
  define m' where "m' = offload_progress m"
  note sh = same_shape_geometry [OF same_shape_progress [of m], folded m'_def]
  have first: "0 < length (offload_queue m)" "offload_queue m ! 0 = e" using Cons by simp_all
  obtain n K V st where L: "L (c, mb) = Some (n, K, V)" and st: "mb_cpu_staging m (c, mb) = Some st"
    and shape: "stage_shape (full c) m c mb n st" and res: "resident m c mb"
    and sl: "slab_holds (full c) kvh m c mb (n, K, V)" and last: "of_prefix (last (in_flight m (c, mb))) = n"
    and hds: "of_heads e = (mb_base m c mb, mb_base m c mb + mb_rows m (full c) mb * heads_of m)"
    and pre: "of_prefix e \<le> seq_total (slabs m c)"
    using flight_entry [OF inv first(1), unfolded first(2), OF key] .
  define copied where "copied = (\<lambda>(pl :: 'a plane) (old :: 'a plane) s b.
      if s < of_prefix e \<and> b < mb_rows m (full c) mb * heads_of m then pl s (mb_base m c mb + b) else old s b)"
  define st' where "st' = st\<lparr>st_k := copied (k_data (slabs m c)) (st_k st), st_v := copied (v_data (slabs m c)) (st_v st)\<rparr>"
  have cp: "stage_copy (slabs m c) (of_prefix e) (of_heads e) st = Inr st'"
    unfolding hds stage_copy_of_flight [OF shape pre] st'_def copied_def by simp
  have m': "mb_cpu_staging m' = (mb_cpu_staging m)((c, mb) \<mapsto> st')" "offload_done m' = Suc (offload_done m)"
    unfolding m'_def offload_progress_def using Cons st cp key by (simp_all add: exec_offload_def)
  have frame: "slabs m' = slabs m" "current_gpu_mb m' = current_gpu_mb m" "offload_queue m' = q"
    "mb_offload_events m' = mb_offload_events m" "quiet m' = quiet m"
    using Cons inv by (auto simp: m'_def kvm_simps quiet_def slots_inv_def)
  have fl: "in_flight m k = (if k = (c, mb) then [e] else []) @ in_flight m' k" for k
    using Cons key by (simp add: in_flight_def frame)
  have ok: "mb_ok full kvh m' L c' mb'" for c' mb'
  proof (cases "(c', mb') = (c, mb)")
    case False
    then show ?thesis
      using slots_invD(8) [OF inv, of c' mb'] fl [of "(c', mb')"] same_shape_progress [of m, folded m'_def]
      by (intro mb_ok_cong [of full kvh m L c' mb' m' L]) (auto simp: m' frame sh resident_def slab_holds_def)
  next
    case True
    have "stage_holds (full c) kvh m mb (n, K, V) st'" if "in_flight m' (c, mb) = []"
    proof -
      have n: "of_prefix e = n" using last fl [of "(c, mb)"] that by simp
      show ?thesis using sl slots_invD(2) [OF inv]
        by (auto simp: stage_holds_def slab_holds_def st'_def copied_def n intro!: holds_copied)
    qed
    moreover have "of_prefix (last (in_flight m' (c, mb))) = n" if "in_flight m' (c, mb) \<noteq> []"
      using last fl [of "(c, mb)"] that by simp
    moreover have "stage_shape (full c) m c mb n st'" using shape by (simp add: stage_shape_def st'_def)
    ultimately show ?thesis using slots_invD(8) [OF inv, of c mb] True L res sl
      by (auto simp: mb_ok_def m' frame sh resident_def slab_holds_def)
  qed
  have "flight_ok full m' i" if "i < length q" for i
    using slots_invD(6) [OF inv, of "Suc i"] that Cons
      flight_queue_cong [OF same_shape_progress [of m, folded m'_def], of i "Suc i" full]
    by (simp add: frame m')
  then show ?thesis using inv ok unfolding m'_def [symmetric]
    by (simp add: slots_inv_def frame sh m')
qed

lemma progress_run_inv: "slots_inv full kvh m L \<Longrightarrow> slots_inv full kvh ((offload_progress ^^ n) m) L"
  by (induction n) (simp_all add: progress_inv)

lemma wait_inv: "slots_inv full kvh m L \<Longrightarrow> slots_inv full kvh (wait_offload t m) L"
  by (simp add: wait_offload_def progress_run_inv)


lemma flight_has_event:
  assumes inv: "slots_inv full kvh m L" and fl: "in_flight m (c, z) \<noteq> []"
  obtains t where "mb_offload_events m (c, z) = Some t"
proof -
  obtain i where "i < length (offload_queue m)" and "of_key (offload_queue m ! i) = (c, z)"
    using fl by (rule in_flight_elem)
  then show thesis using slots_invD(6) [OF inv, of i] that by (auto simp: flight_ok_def Let_def)
qed

lemma wait_drains:
  assumes inv: "slots_inv full kvh m L" and t: "mb_offload_events m (c, z) = Some t"
  shows "in_flight (wait_offload t m) (c, z) = []"
proof (rule ccontr)
  assume "in_flight (wait_offload t m) (c, z) \<noteq> []"
  then obtain i where i: "i < length (drop (t - offload_done m) (offload_queue m))"
    and "of_key (drop (t - offload_done m) (offload_queue m) ! i) = (c, z)"
    by (rule in_flight_elem) (simp add: kvm_simps)
  moreover define j where "j = t - offload_done m + i"
  ultimately have j: "j < length (offload_queue m)" and key: "of_key (offload_queue m ! j) = (c, z)"
    by (simp_all add: add.commute)
  have "offload_done m + j < t" using slots_invD(6) [OF inv j] t key by (simp add: flight_ok_def Let_def)
  then show False unfolding j_def by linarith
qed

lemma drop_event_inv:
  assumes inv: "slots_inv full kvh m L" and fl: "in_flight m k = []"
  shows "slots_inv full kvh (m\<lparr>mb_offload_events := (mb_offload_events m)(k := None)\<rparr>) L"
proof -
  define m' where "m' = m\<lparr>mb_offload_events := (mb_offload_events m)(k := None)\<rparr>"
  have sh: "same_shape m m'" by (simp add: m'_def same_shape_def)
  note geo = same_shape_geometry [OF sh]
  have same: "slabs m' = slabs m" "current_gpu_mb m' = current_gpu_mb m" "mb_cpu_staging m' = mb_cpu_staging m"
    "offload_queue m' = offload_queue m" "offload_done m' = offload_done m" "quiet m' = quiet m"
    by (simp_all add: m'_def quiet_def)
  have other: "of_key (offload_queue m ! i) \<noteq> k" if "i < length (offload_queue m)" for i
    using fl that by (simp add: in_flight_def filter_empty_conv)
  have "flight_ok full m' i" if "i < length (offload_queue m)" for i
    using slots_invD(6) [OF inv that] other [OF that] flight_queue_cong [OF sh, of i i full]
    by (simp add: same m'_def)
  moreover have "mb_ok full kvh m' L c mb" for c mb
    by (rule mb_ok_cong [OF slots_invD(8) [OF inv] sh])
       (simp_all add: same geo in_flight_def resident_def slab_holds_def)
  ultimately show ?thesis using inv unfolding m'_def [symmetric] by (simp add: slots_inv_def same geo)
qed

text \<open>Waiting for the copies of a micro-batch.\<close>

lemma sync_offload_ok:
  assumes inv: "slots_inv full kvh m L" and act: "active_cache_slot_id m = Some c"
  shows "slots_inv full kvh (sync_offload z m) L" and "in_flight (sync_offload z m) (c, z) = []"
    and "in_flight m k = [] \<Longrightarrow> in_flight (sync_offload z m) k = []"
    and "slabs (sync_offload z m) = slabs m" and "current_gpu_mb (sync_offload z m) = current_gpu_mb m"
    and "active_stack (sync_offload z m) = active_stack m" and "same_shape m (sync_offload z m)"
proof -
  have key: "staging_key z m = Some (c, z)" using act by (simp add: staging_key_def)
  let ?goal = "slots_inv full kvh (sync_offload z m) L \<and> in_flight (sync_offload z m) (c, z) = [] \<and>
    (in_flight m k = [] \<longrightarrow> in_flight (sync_offload z m) k = []) \<and>
    slabs (sync_offload z m) = slabs m \<and> current_gpu_mb (sync_offload z m) = current_gpu_mb m \<and>
    active_stack (sync_offload z m) = active_stack m \<and> same_shape m (sync_offload z m)"
  have ?goal
  proof (cases "async_kv_transfer m \<and> mb_offload_events m (c, z) \<noteq> None")
    case False
    have "in_flight m (c, z) = []"
    proof (cases "async_kv_transfer m")
      case True
      then have "mb_offload_events m (c, z) = None" using False by simp
      then show ?thesis using flight_has_event [OF inv, of c z] by fastforce
    next
      case sync: False
      then show ?thesis using slots_invD(4) [OF inv] by (simp add: quiet_def in_flight_def)
    qed
    moreover have "sync_offload z m = m" using False key by (auto simp: sync_offload_def)
    ultimately show ?thesis using inv by simp
  next
    case True
    then obtain t where t: "mb_offload_events m (c, z) = Some t" by auto
    let ?w = "wait_offload t m"
    have eq: "sync_offload z m = ?w\<lparr>mb_offload_events := (mb_offload_events ?w)((c, z) := None)\<rparr>"
      using True key t by (simp add: sync_offload_def wait_offload_commutes kvm_simps)
    have "in_flight ?w (c, z) = []" using inv t by (rule wait_drains)
    moreover have "in_flight ?w k = []" if "in_flight m k = []"
      using that by (auto simp: in_flight_def kvm_simps filter_empty_conv dest: in_set_dropD)
    ultimately show ?thesis unfolding eq using drop_event_inv [OF wait_inv [OF inv], of t "(c, z)"]
      by (simp add: in_flight_def kvm_simps same_shape_def)
  qed
  then show "slots_inv full kvh (sync_offload z m) L" and "in_flight (sync_offload z m) (c, z) = []"
    and "in_flight m k = [] \<Longrightarrow> in_flight (sync_offload z m) k = []"
    and "slabs (sync_offload z m) = slabs m" and "current_gpu_mb (sync_offload z m) = current_gpu_mb m"
    and "active_stack (sync_offload z m) = active_stack m" and "same_shape m (sync_offload z m)"
    by simp_all
qed

section \<open>Slots do not overlap\<close>

lemma slot_blocks_disjoint:
  assumes "i \<noteq> j" and "x < w" and "y < (w::nat)"
  shows "i * w + x \<noteq> j * w + y"
  using assms by (metis quot_rem_unique(1))

lemma other_slot_untouched:
  assumes "slot_of m c mb \<noteq> slot_of m c mb'" and "b < mb_rows m full mb'" and "h < kvh" and "kvh \<le> heads_of m"
    and "mb_base m c mb \<le> x" and "x < mb_base m c mb + mb_rows m full mb * heads_of m"
  shows "mb_base m c mb' + (b * heads_of m + h) \<noteq> x"
proof -
  let ?w = "slot_batch m * heads_of m"
  have "b * heads_of m + h < mb_rows m full mb' * heads_of m" using assms by (intro row_head_less)
  also have "\<dots> \<le> ?w" by (simp add: mb_rows_def)
  finally have y: "b * heads_of m + h < ?w" .
  have "x - mb_base m c mb < mb_rows m full mb * heads_of m" using assms(5,6) by linarith
  also have "\<dots> \<le> ?w" by (simp add: mb_rows_def)
  finally have z: "x - mb_base m c mb < ?w" .
  have "slot_of m c mb' * ?w + (b * heads_of m + h) \<noteq> slot_of m c mb * ?w + (x - mb_base m c mb)"
    using assms(1) y z by (intro slot_blocks_disjoint) auto
  moreover have "mb_base m c k = slot_of m c k * ?w" for k by (simp add: mb_base_def mult.assoc)
  ultimately show ?thesis using assms(5) by simp
qed

lemma region_in_slab:
  assumes fit: "slots_fit full m c" and pos: "0 < full"
  shows "mb_base m c mb + mb_rows m full mb * heads_of m \<le> bh_total (slabs m c)"
proof -
  let ?n = "working_slot_count (kv_pol m) (capacity_of m c)"
  have n: "0 < ?n" by (simp add: working_slot_count_def Let_def max_def)
  then have "slot_of m c mb < ?n" by (simp add: slot_of_def)
  then have "Suc (slot_of m c mb) * slot_batch m \<le> ?n * slot_batch m" by (intro mult_le_mono1) simp
  also have "\<dots> \<le> capacity_of m c" using fit by (simp add: slots_fit_def)
  finally have "slot_of m c mb * slot_batch m + mb_rows m full mb \<le> capacity_of m c"
    by (simp add: mb_rows_def)
  then have "(slot_of m c mb * slot_batch m + mb_rows m full mb) * heads_of m \<le> capacity_of m c * heads_of m"
    by (rule mult_le_mono1)
  then show ?thesis using fit by (simp add: mb_base_def slots_fit_def add_mult_distrib)
qed


lemma slot_batch_pos [simp]: "0 < working_slot_batch_size p"
  by (simp add: working_slot_batch_size_def)

lemma mb_rows_pos: "mb * slot_batch m < full \<Longrightarrow> 0 < mb_rows m full mb"
  by (simp add: mb_rows_def)

lemma resolve_own_slot:
  assumes fit: "slots_fit full m c" and mb: "mb * slot_batch m < full"
  shows "\<exists>cap. resolve_working_slot (kv_pol m) mb (capacity_of m c) (Some (mb_rows m full mb)) =
    (slot_of m c mb, slot_of m c mb * slot_batch m, mb_rows m full mb, cap) \<and> mb_rows m full mb \<le> cap"
proof -
  let ?n = "working_slot_count (kv_pol m) (capacity_of m c)"
  have n: "0 < ?n" by (simp add: working_slot_count_def Let_def max_def)
  then have "slot_of m c mb < ?n" by (simp add: slot_of_def)
  then have "Suc (slot_of m c mb) * slot_batch m \<le> ?n * slot_batch m" by (intro mult_le_mono1) simp
  also have "\<dots> \<le> capacity_of m c" using fit by (simp add: slots_fit_def)
  finally have "slot_batch m \<le> capacity_of m c - slot_of m c mb * slot_batch m" by simp
  moreover have "mb_rows m full mb \<le> slot_batch m" by (simp add: mb_rows_def)
  ultimately show ?thesis using mb_rows_pos [OF mb]
    by (simp add: resolve_working_slot_def Let_def slot_of_def [symmetric])
qed

lemma microbatch_index_of_offset:
  assumes "mb * slot_batch m < full"
  shows "compute_microbatch_index (kv_pol m) (mb * slot_batch m) (Some (mb_rows m full mb)) (Some full) = mb"
proof -
  have P: "max 1 (gpu_batch_size (kv_pol m)) = slot_batch m" by (simp add: working_slot_batch_size_def)
  have rows: "0 < mb_rows m full mb" using assms by (rule mb_rows_pos)
  have "is_expected_tail_mb (slot_batch m) (mb_rows m full mb) full (mb * slot_batch m)"
    if "mb_rows m full mb \<noteq> slot_batch m"
  proof -
    have "full - mb * slot_batch m < slot_batch m" using that by (simp add: mb_rows_def min_def split: if_splits)
    then show ?thesis using assms by (simp add: is_expected_tail_mb_def mb_rows_def)
  qed
  moreover have "max 1 (slot_batch m) = slot_batch m" using slot_batch_pos [of "kv_pol m"] by linarith
  ultimately show ?thesis unfolding compute_microbatch_index_def P Let_def using rows by auto
qed

section \<open>Prefetching keeps the invariant\<close>

text \<open>Copying a staged micro-batch back into its slot, with no copy of the slot's rows in flight.\<close>

lemma restore_inv:
  assumes inv: "slots_inv full kvh m L" and L: "L (c, mb) = Some (n, K, V)"
    and st: "mb_cpu_staging m (c, mb) = Some st"
    and idle: "\<And>z. slot_of m c z = slot_of m c mb \<Longrightarrow> in_flight m (c, z) = []"
    and sl: "slab_restore st n (mb_base m c mb, mb_base m c mb + mb_rows m (full c) mb * heads_of m) (slabs m c) = Inr sl"
    and slabs': "slabs m' = (slabs m)(c := sl)"
    and cur': "current_gpu_mb m' = (current_gpu_mb m)((c, slot_of m c mb) \<mapsto> mb)"
    and same: "mb_cpu_staging m' = mb_cpu_staging m" "offload_queue m' = offload_queue m"
      "offload_done m' = offload_done m" "mb_offload_events m' = mb_offload_events m"
      "kv_pol m' = kv_pol m" "kv_cfg m' = kv_cfg m" "offload_enabled m' = offload_enabled m"
      "async_kv_transfer m' = async_kv_transfer m"
    and quiet': "quiet m'"
  shows "slots_inv full kvh m' L" and "resident m' c mb" and "same_shape m m'"
proof -
  have ok: "mb_ok full kvh m L c mb" using inv by (rule slots_invD)
  have n: "n \<le> seq_total (slabs m c)" "mb * slot_batch m < full c" and fl: "in_flight m (c, mb) = []"
    and shape: "stage_shape (full c) m c mb n st" and own: "stage_holds (full c) kvh m mb (n, K, V) st"
    using ok L st idle [of mb] by (auto simp: mb_ok_def)
  have "0 < full c" using n(2) by simp
  then have fit: "slots_fit (full c) m c" by (rule slots_invD(5) [OF inv])
  have eq: "sl = (slabs m c)\<lparr>k_data := (\<lambda>s b. if s < n \<and> mb_base m c mb \<le> b \<and> b < mb_base m c mb + mb_rows m (full c) mb * heads_of m
                then st_k st s (b - mb_base m c mb) else k_data (slabs m c) s b),
              v_data := (\<lambda>s b. if s < n \<and> mb_base m c mb \<le> b \<and> b < mb_base m c mb + mb_rows m (full c) mb * heads_of m
                then st_v st s (b - mb_base m c mb) else v_data (slabs m c) s b)\<rparr>"
    using sl shape n region_in_slab [OF fit \<open>0 < full c\<close>, of mb]
    by (subst (asm) slab_restore_exact) (auto simp: stage_shape_def)
  show sh: "same_shape m m'" using same slabs' by (simp add: same_shape_def eq)
  note geo = same_shape_geometry [OF sh]
  show res: "resident m' c mb" by (simp add: resident_def geo cur')
  have H: "kvh \<le> heads_of m" using inv by (rule slots_invD)
  have okH: "mb_ok full kvh m' L c' z" for c' z
  proof (cases "c' = c \<and> slot_of m c z = slot_of m c mb")
    case False
    have "slab_holds (full c') kvh m' c' z x" if "slab_holds (full c') kvh m c' z x" for x
    proof (cases "c' = c")
      case True
      then have "slot_of m c mb \<noteq> slot_of m c z" using False by simp
      then show ?thesis using that True other_slot_untouched [OF _ _ _ H, of c mb z _ "full c"]
        unfolding slab_holds_def geo slabs' eq holds_def by (fastforce split: prod.splits)
    qed (use that in \<open>simp add: slab_holds_def geo slabs'\<close>)
    then show ?thesis using False
      by (intro mb_ok_cong [OF slots_invD(8) [OF inv] sh]) (auto simp: same in_flight_def resident_def geo cur' split: if_splits)
  next
    case slot: True
    show ?thesis
    proof (cases "z = mb")
      case True
      have "slab_holds (full c) kvh m' c mb (n, K, V)"
        using own H by (simp add: slab_holds_def stage_holds_def geo slabs' eq holds_restored)
      then show ?thesis using ok slot True L st shape own fl res
        by (auto simp: mb_ok_def same in_flight_def geo)
    next
      case False
      then have "\<not> resident m' c z" using slot by (simp add: resident_def geo cur')
      then show ?thesis using slot idle [of z]
        by (intro mb_ok_cong [OF slots_invD(8) [OF inv] sh]) (auto simp: same in_flight_def)
    qed
  qed
  moreover have "flight_ok full m' i" if "i < length (offload_queue m)" for i
    using slots_invD(6) [OF inv that] flight_queue_cong [OF sh, of i i full] by (simp add: same)
  moreover have "slot = slot_of m c' z \<and> L (c', z) \<noteq> None" if "current_gpu_mb m' (c', slot) = Some z" for c' slot z
    using that slots_invD(7) [OF inv, of c' slot z] L by (auto simp: cur' split: if_splits)
  ultimately show "slots_inv full kvh m' L"
    using inv quiet' by (simp add: slots_inv_def same geo)
qed


lemma active_of_stack: "active_stack m' = active_stack m \<Longrightarrow> active_cache_slot_id m' = active_cache_slot_id m"
  by (simp add: active_cache_slot_id_def)

lemma slot_key_for_mb:
  assumes "active_cache_slot_id m = Some c" and "slab_device (slabs m c) = CudaCache" and "0 < heads_of m"
  shows "slot_state_key_for_mb mb m = Some (c, slot_of m c mb)"
  using assms by (simp add: slot_state_key_for_mb_def slot_state_key_def resolve_working_slot_def Let_def
      slot_of_def capacity_of_def max_def)

text \<open>The state after an asynchronous prefetch has been launched and waited for.\<close>

lemma launch_sync_eq:
  fixes m :: "'a kv_manager"
  defines "w mb c \<equiv> (case mb_offload_events m (c, mb) of None \<Rightarrow> m | Some t \<Rightarrow> wait_offload t m)"
  assumes async: "async_kv_transfer m" and act: "active_cache_slot_id m = Some c" and q: "quiet m"
    and dev: "slab_device (slabs m c) = CudaCache" and H: "0 < heads_of m"
    and st': "mb_cpu_staging (w mb c) (c, mb) = Some st'"
    and r: "slab_restore st (st_prefix st) hds (slabs m c) = Inr x"
    and r': "slab_restore st' (st_prefix st) hds (slabs m c) = Inr sl"
    and dims: "bh_total sl = bh_total (slabs m c)" "slab_device sl = CudaCache"
  shows "sync_prefetch mb (launch_prefetch (c, mb) (c, slot_of m c mb) st hds m) =
    (w mb c)\<lparr>slabs := (slabs m)(c := sl), mb_prefetch_events := Map.empty, prefetch_queue := [],
      prefetch_done := Suc (prefetch_done m), pending_gpu_mb := Map.empty,
      current_gpu_mb := (current_gpu_mb m)((c, slot_of m c mb) \<mapsto> mb)\<rparr>"
proof -
  define e where "e = \<lparr>pf_key = (c, mb), pf_prefix = st_prefix st, pf_heads = hds, pf_wait = mb_offload_events m (c, mb)\<rparr>"
  define m3 where "m3 = m\<lparr>prefetch_queue := [e], mb_prefetch_events := Map.empty,
     pending_gpu_mb := [(c, slot_of m c mb) \<mapsto> mb]\<rparr>"
  have launch: "launch_prefetch (c, mb) (c, slot_of m c mb) st hds m =
      m3\<lparr>mb_prefetch_events := [(c, mb) \<mapsto> Suc (prefetch_done m)]\<rparr>"
    using async r q by (simp add: launch_prefetch_def m3_def e_def quiet_def)
  have wf: "slabs (w mb c) = slabs m" "active_stack (w mb c) = active_stack m" "kv_pol (w mb c) = kv_pol m"
    "kv_cfg (w mb c) = kv_cfg m" "current_gpu_mb (w mb c) = current_gpu_mb m" "prefetch_done (w mb c) = prefetch_done m"
    by (simp_all add: w_def kvm_simps split: option.split)
  have "(case pf_wait e of None \<Rightarrow> m3 | Some t \<Rightarrow> wait_offload t m3) =
      (w mb c)\<lparr>prefetch_queue := [e], mb_prefetch_events := Map.empty, pending_gpu_mb := [(c, slot_of m c mb) \<mapsto> mb]\<rparr>"
    by (simp add: e_def m3_def w_def wait_offload_commutes split: option.split)
  then have ex: "exec_prefetch e m3 =
      (w mb c)\<lparr>prefetch_queue := [e], mb_prefetch_events := Map.empty, pending_gpu_mb := [(c, slot_of m c mb) \<mapsto> mb],
         slabs := (slabs m)(c := sl)\<rparr>"
    using st' r' by (simp add: exec_prefetch_def e_def wf Let_def)
  have "wait_prefetch (Suc (prefetch_done m)) m3 = prefetch_progress m3"
    by (simp add: wait_prefetch_def m3_def)
  also have "\<dots> = (w mb c)\<lparr>prefetch_queue := [], prefetch_done := Suc (prefetch_done m), mb_prefetch_events := Map.empty,
      pending_gpu_mb := [(c, slot_of m c mb) \<mapsto> mb], slabs := (slabs m)(c := sl)\<rparr>" (is "_ = ?m4")
    using ex by (simp add: prefetch_progress_def m3_def)
  finally have wait: "wait_prefetch (Suc (prefetch_done m)) m3 = ?m4" .
  have key: "slot_state_key_for_mb mb ?m4 = Some (c, slot_of m c mb)"
    using act dev H dims slot_key_for_mb [of ?m4 c mb]
    by (simp add: active_cache_slot_id_def wf slot_of_def capacity_of_def)
  have "m3\<lparr>mb_prefetch_events := Map.empty\<rparr> = m3" "async_kv_transfer m3 = async_kv_transfer m" by (simp_all add: m3_def)
  moreover have "staging_key mb (launch_prefetch (c, mb) (c, slot_of m c mb) st hds m) = Some (c, mb)"
    using act by (simp add: launch m3_def staging_key_def active_cache_slot_id_def)
  ultimately show ?thesis
    using async wait key by (simp add: sync_prefetch_def launch Let_def wf)
qed


lemma stored_entry:
  assumes inv: "slots_inv full kvh m L" and L: "L (c, mb) = Some (n, K, V)"
  obtains st sl where "mb_cpu_staging m (c, mb) = Some st" and "stage_shape (full c) m c mb n st"
    and "slab_restore st n (mb_base m c mb, mb_base m c mb + mb_rows m (full c) mb * heads_of m) (slabs m c) = Inr sl"
    and "bh_total sl = bh_total (slabs m c)" and "slab_device sl = slab_device (slabs m c)"
    and "0 < n" and "mb * slot_batch m < full c" and "slots_fit (full c) m c"
proof -
  obtain st where st: "mb_cpu_staging m (c, mb) = Some st" "stage_shape (full c) m c mb n st"
    and n: "0 < n" "n \<le> seq_total (slabs m c)" and mb: "mb * slot_batch m < full c"
    using slots_invD(8) [OF inv, of c mb] L by (auto simp: mb_ok_def)
  from mb have pos: "0 < full c" by simp
  then have fit: "slots_fit (full c) m c" by (rule slots_invD(5) [OF inv])
  define w where "w = mb_rows m (full c) mb * heads_of m"
  have "slab_restore st n (mb_base m c mb, mb_base m c mb + w) (slabs m c) =
    Inr ((slabs m c)\<lparr>k_data := (\<lambda>s b. if s < n \<and> mb_base m c mb \<le> b \<and> b < mb_base m c mb + w
             then st_k st s (b - mb_base m c mb) else k_data (slabs m c) s b),
           v_data := (\<lambda>s b. if s < n \<and> mb_base m c mb \<le> b \<and> b < mb_base m c mb + w
             then st_v st s (b - mb_base m c mb) else v_data (slabs m c) s b)\<rparr>)"
    using st(2) n(2) region_in_slab [OF fit pos, of mb] unfolding w_def
    by (intro slab_restore_exact) (simp_all add: stage_shape_def)
  then show thesis using that st n mb fit by (simp add: w_def)
qed

lemma prefetch_unfold:
  assumes inv: "slots_inv full kvh m L" and L: "L (c, mb) = Some (n, K, V)" and act: "active_cache_slot_id m = Some c"
    and st: "mb_cpu_staging m (c, mb) = Some st"
  shows "prefetch_microbatch_kv mb m =
    launch_prefetch (c, mb) (c, slot_of m c mb) st
      (mb_base m c mb, mb_base m c mb + mb_rows m (full c) mb * heads_of m)
      (case current_gpu_mb m (c, slot_of m c mb) of
         None \<Rightarrow> m | Some z \<Rightarrow> if z \<noteq> mb then sync_offload z m else m)"
proof -
  have shape: "stage_shape (full c) m c mb n st" and fit: "slots_fit (full c) m c" and n: "0 < n"
    and mb: "mb * slot_batch m < full c"
    using stored_entry [OF inv L] st by auto
  have H: "0 < heads_of m" using slots_invD(1,2) [OF inv] by simp
  then have H1: "max (Suc 0) (heads_of m) = heads_of m" by simp
  have rows: "st_bh st div heads_of m = mb_rows m (full c) mb" and pre: "st_prefix st = n"
    using shape H by (simp_all add: stage_shape_def)
  obtain cap where res: "resolve_working_slot (kv_pol m) mb (bh_total (slabs m c) div heads_of m) (Some (mb_rows m (full c) mb)) =
      (slot_of m c mb, slot_of m c mb * slot_batch m, mb_rows m (full c) mb, cap)"
    using resolve_own_slot [OF fit mb] by (auto simp: capacity_of_def)
  have b1: "min (mb_base m c mb + mb_rows m (full c) mb * heads_of m) (bh_total (slabs m c)) =
      mb_base m c mb + mb_rows m (full c) mb * heads_of m"
    using region_in_slab [OF fit, of mb] mb by simp
  have "0 < mb_rows m (full c) mb * heads_of m" using H mb_rows_pos [OF mb] by simp
  moreover have "slab_device (slabs m c) = CudaCache" using fit by (simp add: slots_fit_def)
  moreover have "pending_gpu_mb m = Map.empty" using slots_invD(4) [OF inv] by (simp add: quiet_def)
  ultimately show ?thesis
    using slots_invD(3) [OF inv] act st n
    by (simp add: prefetch_microbatch_kv_def Let_def H1 rows res b1 pre mb_base_def [symmetric])
qed

lemma launch_sync_ok:
  assumes inv: "slots_inv full kvh m L" and L: "L (c, mb) = Some (n, K, V)" and act: "active_cache_slot_id m = Some c"
    and idle: "\<And>z. slot_of m c z = slot_of m c mb \<Longrightarrow> in_flight m (c, z) = []"
    and st: "stage_shape (full c) m c mb n st" and st0: "\<not> async_kv_transfer m \<Longrightarrow> mb_cpu_staging m (c, mb) = Some st"
  defines "m' \<equiv> sync_prefetch mb (launch_prefetch (c, mb) (c, slot_of m c mb) st
      (mb_base m c mb, mb_base m c mb + mb_rows m (full c) mb * heads_of m) m)"
  shows "slots_inv full kvh m' L" and "resident m' c mb" and "same_shape m m'" and "active_stack m' = active_stack m"
proof -
  let ?hds = "(mb_base m c mb, mb_base m c mb + mb_rows m (full c) mb * heads_of m)"
  have H: "0 < heads_of m" using slots_invD(1,2) [OF inv] by simp
  have q: "quiet m" using inv by (rule slots_invD)
  have n: "n = st_prefix st" using st by (simp add: stage_shape_def)
  have dev: "slab_device (slabs m c) = CudaCache" and fit: "slots_fit (full c) m c" and mb: "mb * slot_batch m < full c"
    and nle: "n \<le> seq_total (slabs m c)"
    using stored_entry [OF inv L] slots_invD(8) [OF inv, of c mb] L by (auto simp: slots_fit_def mb_ok_def)
  obtain x where r: "slab_restore st (st_prefix st) ?hds (slabs m c) = Inr x"
    using slab_restore_exact [of st "slabs m c" "mb_rows m (full c) mb * heads_of m" n "mb_base m c mb"] st nle
      region_in_slab [OF fit, of mb] mb by (auto simp: stage_shape_def)
  have "slots_inv full kvh m' L \<and> resident m' c mb \<and> same_shape m m' \<and> active_stack m' = active_stack m"
  proof (cases "async_kv_transfer m")
    case True
    define w where "w = (case mb_offload_events m (c, mb) of None \<Rightarrow> m | Some t \<Rightarrow> wait_offload t m)"
    have wf: "slabs w = slabs m" "current_gpu_mb w = current_gpu_mb m" "active_stack w = active_stack m"
      "same_shape m w" "quiet w" "in_flight m k = [] \<Longrightarrow> in_flight w k = []" for k
      using q by (auto simp: w_def kvm_simps same_shape_def quiet_def in_flight_def filter_empty_conv
          dest: in_set_dropD split: option.split)
    note geo = same_shape_geometry [OF wf(4)]
    have invw: "slots_inv full kvh w L" using inv by (simp add: w_def wait_inv split: option.split)
    obtain st' sl where st': "mb_cpu_staging w (c, mb) = Some st'"
      and sl: "slab_restore st' n ?hds (slabs m c) = Inr sl" "bh_total sl = bh_total (slabs m c)"
        "slab_device sl = slab_device (slabs m c)"
      using stored_entry [OF invw L, unfolded geo wf(1)] by metis
    have eq: "m' = w\<lparr>slabs := (slabs m)(c := sl), mb_prefetch_events := Map.empty, prefetch_queue := [],
        prefetch_done := Suc (prefetch_done m), pending_gpu_mb := Map.empty,
        current_gpu_mb := (current_gpu_mb m)((c, slot_of m c mb) \<mapsto> mb)\<rparr>"
      unfolding m'_def w_def
      using launch_sync_eq [OF True act q dev H st' [unfolded w_def] r] sl dev by (simp add: n)
    have quiet': "quiet m'" using wf(5) by (simp add: eq quiet_def)
    note restored = restore_inv [OF invw L st', of sl m']
    show ?thesis
      using restored idle wf sl quiet' same_shape_trans [OF wf(4)]
      by (simp add: eq geo)
  next
    case False
    have eq: "m' = m\<lparr>slabs := (slabs m)(c := x), mb_prefetch_events := (mb_prefetch_events m)((c, mb) := None),
        pending_gpu_mb := (pending_gpu_mb m)((c, slot_of m c mb) := None),
        current_gpu_mb := (current_gpu_mb m)((c, slot_of m c mb) \<mapsto> mb)\<rparr>"
      using False r by (simp add: m'_def launch_prefetch_def sync_prefetch_def)
    have quiet': "quiet m'" using q by (simp add: eq quiet_def)
    show ?thesis using restore_inv [OF inv L st0 [OF False], of x m'] idle r n quiet' by (simp add: eq)
  qed
  then show "slots_inv full kvh m' L" and "resident m' c mb" and "same_shape m m'" and "active_stack m' = active_stack m"
    by simp_all
qed


lemma idle_unless_resident:
  assumes inv: "slots_inv full kvh m L" and "\<not> resident m c z"
  shows "in_flight m (c, z) = []"
  using slots_invD(8) [OF inv, of c z] assms(2) by (auto simp: mb_ok_def split: option.splits)

lemma idle_after_sync:
  assumes inv: "slots_inv full kvh m L" and act: "active_cache_slot_id m = Some c"
    and cur: "current_gpu_mb m (c, slot_of m c mb) = Some z" and slot: "slot_of m c y = slot_of m c mb"
  shows "in_flight (sync_offload z m) (c, y) = []"
proof (cases "y = z")
  case True
  then show ?thesis using sync_offload_ok(2) [OF inv act] by simp
next
  case False
  then have "\<not> resident m c y" using cur slot by (simp add: resident_def)
  then show ?thesis using sync_offload_ok(3) [OF inv act] idle_unless_resident [OF inv] by blast
qed

lemma make_resident_ok:
  assumes inv: "slots_inv full kvh m L" and L: "L (c, mb) = Some (n, K, V)" and act: "active_cache_slot_id m = Some c"
  defines "m' \<equiv> make_resident mb (Some (c, slot_of m c mb)) m"
  shows "slots_inv full kvh m' L" and "resident m' c mb" and "same_shape m m'" and "active_stack m' = active_stack m"
proof -
  have pend: "pending_gpu_mb m = Map.empty" using slots_invD(4) [OF inv] by (simp add: quiet_def)
  have "slots_inv full kvh m' L \<and> resident m' c mb \<and> same_shape m m' \<and> active_stack m' = active_stack m"
  proof (cases "current_gpu_mb m (c, slot_of m c mb)")
    case None
    have idle: "in_flight m (c, z) = []" if "slot_of m c z = slot_of m c mb" for z
      using that None idle_unless_resident [OF inv, of c z] by (simp add: resident_def)
    obtain st where st: "mb_cpu_staging m (c, mb) = Some st" "stage_shape (full c) m c mb n st"
      using stored_entry [OF inv L] by metis
    show ?thesis using launch_sync_ok [OF inv L act idle st(2)] st(1) None pend
      by (simp add: m'_def make_resident_def prefetch_unfold [OF inv L act st(1)])
  next
    case (Some z)
    show ?thesis
    proof (cases "z = mb")
      case True
      then show ?thesis using Some pend inv by (simp add: m'_def make_resident_def resident_def)
    next
      case False
      define m1 where "m1 = sync_offload z m"
      define m2 where "m2 = sync_offload z m1"
      note s1 = sync_offload_ok [OF inv act, where z = z, folded m1_def]
      have act1: "active_cache_slot_id m1 = Some c" using act active_of_stack [OF s1(6)] by simp
      note s2 = sync_offload_ok [OF s1(1) act1, where z = z, folded m2_def]
      have act2: "active_cache_slot_id m2 = Some c" using act1 active_of_stack [OF s2(6)] by simp
      note geo1 = same_shape_geometry [OF s1(7)] and geo2 = same_shape_geometry [OF s2(7)]
      have cur1: "current_gpu_mb m1 (c, slot_of m1 c mb) = Some z" using Some s1(5) geo1 by simp
      obtain st where st: "mb_cpu_staging m1 (c, mb) = Some st" "stage_shape (full c) m1 c mb n st"
        using stored_entry [OF s1(1) L] by metis
      have idle: "in_flight m2 (c, y) = []" if "slot_of m2 c y = slot_of m2 c mb" for y
        using idle_after_sync [OF s1(1) act1 cur1, of y, folded m2_def] that by (simp add: geo2)
      have same: "mb_cpu_staging m2 (c, mb) = Some st" if "\<not> async_kv_transfer m2"
        using that st(1) geo2(4) by (simp add: m2_def sync_offload_def)
      have m': "m' = sync_prefetch mb (launch_prefetch (c, mb) (c, slot_of m2 c mb) st
          (mb_base m2 c mb, mb_base m2 c mb + mb_rows m2 (full c) mb * heads_of m2) m2)"
        using Some False pend cur1
        by (simp add: m'_def make_resident_def m1_def [symmetric] prefetch_unfold [OF s1(1) L act1 st(1)]
            m2_def [symmetric] geo2)
      have shape2: "stage_shape (full c) m2 c mb n st" using st(2) by (simp add: geo2)
      note res = launch_sync_ok [OF s2(1) L act2 idle shape2 same, folded m']
      show ?thesis using res s1 s2 same_shape_trans by metis
    qed
  qed
  then show "slots_inv full kvh m' L" and "resident m' c mb" and "same_shape m m'" and "active_stack m' = active_stack m"
    by simp_all
qed

section \<open>Writing rows into a slab\<close>

definition rows_written ::
  "nat \<Rightarrow> nat \<Rightarrow> nat \<Rightarrow> nat \<Rightarrow> nat \<Rightarrow> nat set \<Rightarrow> 'a plane \<Rightarrow> 'a plane \<Rightarrow> 'a plane" where
  "rows_written H kvh b0 p sn B src pl =
     (\<lambda>s x. if p \<le> s \<and> s < p + sn \<and> b0 \<le> x \<and> (x - b0) div H \<in> B \<and> (x - b0) mod H < kvh
            then src (s - p) ((x - b0) div H * kvh + (x - b0) mod H) else pl s x)"

lemma stride_block_iff:
  assumes "0 < H" and "kvh \<le> H"
  shows "b0 + i * H \<le> x \<and> x < b0 + i * H + kvh \<longleftrightarrow> b0 \<le> x \<and> (x - b0) div H = i \<and> (x - b0) mod H < (kvh::nat)"
proof -
  have "y div H = i \<and> y mod H < kvh \<longleftrightarrow> i * H \<le> y \<and> y < i * H + kvh" for y :: nat
  proof -
    have "i * H \<le> y \<and> y < i * H + kvh \<Longrightarrow> y div H = i \<and> y mod H < kvh"
      using assms quot_rem_unique [of "y - i * H" H i] by auto
    moreover have "y div H = i \<and> y mod H < kvh \<Longrightarrow> i * H \<le> y \<and> y < i * H + kvh"
      using div_mult_mod_eq [of y H] by auto
    ultimately show ?thesis by blast
  qed
  note block = this
  show ?thesis
  proof (cases "b0 \<le> x")
    case True
    then obtain y where "x = b0 + y" using le_Suc_ex by blast
    then show ?thesis using block [of y] by auto
  qed auto
qed

lemma write_plane_exact:
  assumes "\<forall>ps. slab_device sl \<noteq> MixedCache ps" and "p + sn \<le> seq_total sl" and "b0 + w \<le> bh_total sl" and "a + w \<le> sb"
  shows "write_to_cache sl dst (p, p + sn) (b0, b0 + w) sn sb (a, a + w) src =
    (Inr (), \<lambda>s x. if p \<le> s \<and> s < p + sn \<and> b0 \<le> x \<and> x < b0 + w then src (s - p) (a + (x - b0)) else dst s x)"
  using assms copy_block_exact [of "p + sn" "seq_total sl" "b0 + w" "bh_total sl" p b0 dst "\<lambda>s b. src s (a + b)"]
  by (cases "slab_device sl") (simp_all add: write_to_cache_def)

lemma write_planes_exact:
  assumes "\<forall>ps. slab_device sl \<noteq> MixedCache ps" and "p + sn \<le> seq_total sl" and "b0 + w \<le> bh_total sl" and "a + w \<le> sb"
  shows "write_planes (p, p + sn) (b0, b0 + w) sn sb (a, a + w) ksrc vsrc sl =
    (Inr (), sl\<lparr>k_data := (\<lambda>s x. if p \<le> s \<and> s < p + sn \<and> b0 \<le> x \<and> x < b0 + w then ksrc (s - p) (a + (x - b0)) else k_data sl s x),
               v_data := (\<lambda>s x. if p \<le> s \<and> s < p + sn \<and> b0 \<le> x \<and> x < b0 + w then vsrc (s - p) (a + (x - b0)) else v_data sl s x)\<rparr>)"
  using assms by (simp add: write_planes_def write_plane_exact)


lemma write_batches_exact:
  assumes "\<forall>ps. slab_device sl \<noteq> MixedCache ps" and "p + sn \<le> seq_total sl" and "b0 + rows * H \<le> bh_total sl"
    and "0 < H" and "kvh \<le> H" and "set is \<subseteq> {..<rows}"
  shows "write_batches H kvh b0 (p, p + sn) is sn (rows * kvh) ksrc vsrc sl =
    (Inr (), sl\<lparr>k_data := rows_written H kvh b0 p sn (set is) ksrc (k_data sl),
               v_data := rows_written H kvh b0 p sn (set is) vsrc (v_data sl)\<rparr>)"
  using assms
proof (induction "is" arbitrary: sl)
  case Nil
  then show ?case by (simp add: rows_written_def)
next
  case (Cons i "is")
  have i: "Suc i \<le> rows" using Cons.prems by simp
  have "b0 + i * H + kvh \<le> b0 + Suc i * H" using Cons.prems by simp
  also have "\<dots> \<le> b0 + rows * H" using i by (intro add_left_mono mult_le_mono1)
  finally have fit: "b0 + i * H + kvh \<le> bh_total sl" using Cons.prems by simp
  have "Suc i * kvh \<le> rows * kvh" using i by (rule mult_le_mono1)
  then have sb: "i * kvh + kvh \<le> rows * kvh" by simp
  let ?w = "\<lambda>src pl. rows_written H kvh b0 p sn {i} src pl"
  have step: "write_planes (p, p + sn) (b0 + i * H, b0 + i * H + kvh) sn (rows * kvh) (i * kvh, i * kvh + kvh) ksrc vsrc sl =
      (Inr (), sl\<lparr>k_data := ?w ksrc (k_data sl), v_data := ?w vsrc (v_data sl)\<rparr>)"
  proof -
    have "(\<lambda>s x. if p \<le> s \<and> s < p + sn \<and> b0 + i * H \<le> x \<and> x < b0 + i * H + kvh
            then src (s - p) (i * kvh + (x - (b0 + i * H))) else pl s x) = ?w src pl" for src pl :: "'a plane"
    proof (intro ext)
      fix s x
      have "x - (b0 + i * H) = (x - b0) mod H" if "b0 \<le> x" "(x - b0) div H = i"
        using that minus_div_mult_eq_mod [of "x - b0" H] by simp
      then show "(if p \<le> s \<and> s < p + sn \<and> b0 + i * H \<le> x \<and> x < b0 + i * H + kvh
            then src (s - p) (i * kvh + (x - (b0 + i * H))) else pl s x) = ?w src pl s x"
        using stride_block_iff [OF Cons.prems(4,5), of b0 i x] by (auto simp: rows_written_def)
    qed
    then show ?thesis using write_planes_exact [OF Cons.prems(1,2) fit sb] by simp
  qed
  have "rows_written H kvh b0 p sn (set is) src (?w src pl) = rows_written H kvh b0 p sn (set (i # is)) src pl"
    for src pl :: "'a plane"
    by (auto simp: rows_written_def fun_eq_iff)
  then show ?case using Cons.IH [of "sl\<lparr>k_data := ?w ksrc (k_data sl), v_data := ?w vsrc (v_data sl)\<rparr>"] Cons.prems step
    by simp
qed

lemma write_whole_rows:
  assumes "\<forall>ps. slab_device sl \<noteq> MixedCache ps" and "p + sn \<le> seq_total sl" and "b0 + rows * H \<le> bh_total sl"
    and "0 < H"
  shows "write_planes (p, p + sn) (b0, b0 + rows * H) sn (rows * H) (0, rows * H) ksrc vsrc sl =
    (Inr (), sl\<lparr>k_data := rows_written H H b0 p sn {..<rows} ksrc (k_data sl),
               v_data := rows_written H H b0 p sn {..<rows} vsrc (v_data sl)\<rparr>)"
proof -
  have "(\<lambda>s x. if p \<le> s \<and> s < p + sn \<and> b0 \<le> x \<and> x < b0 + rows * H then src (s - p) (0 + (x - b0)) else pl s x) =
      rows_written H H b0 p sn {..<rows} src pl" for src pl :: "'a plane"
  proof (intro ext)
    fix s x
    have "x < b0 + rows * H \<longleftrightarrow> (x - b0) div H < rows" if "b0 \<le> x"
      using that assms(4) by (simp add: div_less_iff_less_mult) linarith
    then show "(if p \<le> s \<and> s < p + sn \<and> b0 \<le> x \<and> x < b0 + rows * H then src (s - p) (0 + (x - b0)) else pl s x) =
      rows_written H H b0 p sn {..<rows} src pl s x"
      using assms(4) by (auto simp: rows_written_def)
  qed
  then show ?thesis using write_planes_exact [OF assms(1-3), of 0 "rows * H" ksrc vsrc] by simp
qed

text \<open>Either way of writing a micro-batch, with fewer key-value heads than attention heads or not.\<close>

lemma micro_rows_written:
  assumes "\<forall>ps. slab_device sl \<noteq> MixedCache ps" and "p + sn \<le> seq_total sl" and "b0 + rows * H \<le> bh_total sl"
    and "kvh \<le> H" and "0 < H" and "0 < kvh" and "0 < sn"
  shows "write_slab_rows H kvh (rows * kvh) sn p (b0, b0 + rows * H) kvs sl =
    (Inr (), sl\<lparr>k_data := rows_written H kvh b0 p sn {..<rows} (\<lambda>s b. key_at kvs b s) (k_data sl),
               v_data := rows_written H kvh b0 p sn {..<rows} (\<lambda>s b. value_at kvs b s) (v_data sl)\<rparr>)"
proof -
  have w: "write_window (seq_total sl) p sn = (p, p + sn, sn, 0)" using assms by (simp add: write_window_def)
  show ?thesis
  proof (cases "kvh < H")
    case True
    then show ?thesis using write_batches_exact [of sl p sn b0 rows H kvh "[0..<rows]"] assms
      by (simp add: write_slab_rows_def w atLeast0LessThan)
  next
    case False
    then have "kvh = H" using assms by simp
    then show ?thesis using write_whole_rows [of sl p sn b0 rows H] assms by (simp add: write_slab_rows_def w)
  qed
qed

lemma rows_written_new:
  assumes "0 < H" and "kvh \<le> H" and "b < rows" and "h < kvh" and "p \<le> s" and "s < p + sn"
  shows "rows_written H kvh b0 p sn {..<rows} src pl s (b0 + (b * H + h)) = src (s - p) (b * kvh + h)"
  using assms quot_rem_unique [of h H b] by (simp add: rows_written_def)

lemma rows_written_old:
  assumes "s < p \<or> x < b0 \<or> b0 + rows * H \<le> x" and "0 < H"
  shows "rows_written H kvh b0 p sn {..<rows} src pl s x = pl s x"
proof -
  have "\<not> (x - b0) div H < rows" if "b0 + rows * H \<le> x"
    using that assms(2) by (simp add: div_less_iff_less_mult)
  then show ?thesis using assms(1) by (auto simp: rows_written_def)
qed

section \<open>Writing keeps the invariant\<close>

definition store_write ::
  "nat \<Rightarrow> nat \<Rightarrow> 'a new_kvs \<Rightarrow> (nat \<times> (nat \<Rightarrow> nat \<Rightarrow> nat \<Rightarrow> 'a) \<times> (nat \<Rightarrow> nat \<Rightarrow> nat \<Rightarrow> 'a)) option \<Rightarrow>
   nat \<times> (nat \<Rightarrow> nat \<Rightarrow> nat \<Rightarrow> 'a) \<times> (nat \<Rightarrow> nat \<Rightarrow> nat \<Rightarrow> 'a)" where
  "store_write kvh p kvs old =
     (p + key_shape kvs ! 2,
      (\<lambda>s b h. case old of
         Some (n, K, V) \<Rightarrow> if s < p then K s b h else key_at kvs (b * kvh + h) (s - p)
       | None \<Rightarrow> key_at kvs (b * kvh + h) (s - p)),
      (\<lambda>s b h. case old of
         Some (n, K, V) \<Rightarrow> if s < p then V s b h else value_at kvs (b * kvh + h) (s - p)
       | None \<Rightarrow> value_at kvs (b * kvh + h) (s - p)))"

definition stored :: "'a kv_store \<Rightarrow> nat \<times> nat \<Rightarrow> nat" where
  "stored L k = (case L k of None \<Rightarrow> 0 | Some (n, _) \<Rightarrow> n)"


text \<open>The state a successful launch leaves.\<close>

lemma launch_offload_eq:
  assumes "st = (case mb_cpu_staging m k of Some st \<Rightarrow> st | None \<Rightarrow> fresh_staging m (seq_total (slabs m (fst k))) (snd hds - fst hds))"
    and "stage_copy (slabs m (fst k)) prefix hds st = Inr st'"
  shows "mb_cpu_staging (launch_offload k sk prefix hds m) =
           (mb_cpu_staging m)(k \<mapsto> (if async_kv_transfer m then st else st')\<lparr>st_prefix := prefix\<rparr>)"
    and "offload_queue (launch_offload k sk prefix hds m) = offload_queue m @
           (if async_kv_transfer m then [\<lparr>of_key = k, of_prefix = prefix, of_heads = hds\<rparr>] else [])"
    and "mb_offload_events (launch_offload k sk prefix hds m) = (mb_offload_events m)
           (k := if async_kv_transfer m then Some (Suc (offload_done m + length (offload_queue m))) else None)"
    and "offload_done (launch_offload k sk prefix hds m) = offload_done m"
    and "pending_gpu_mb (launch_offload k sk prefix hds m) = (pending_gpu_mb m)(sk := None)"
    and "current_gpu_mb (launch_offload k sk prefix hds m) = (current_gpu_mb m)(sk \<mapsto> snd k)"
    and "prefetch_queue (launch_offload k sk prefix hds m) = prefetch_queue m"
    and "mb_prefetch_events (launch_offload k sk prefix hds m) = mb_prefetch_events m"
    and "slabs (launch_offload k sk prefix hds m) = slabs m"
    and "active_stack (launch_offload k sk prefix hds m) = active_stack m"
    and "same_shape m (launch_offload k sk prefix hds m)"
  using assms by (simp_all add: launch_offload_def Let_def same_shape_def)

text \<open>The written rows are the logical content after the write.\<close>

lemma written_holds:
  assumes H: "0 < H" "kvh \<le> H" and sn: "sn = key_shape kvs ! 2"
    and old: "case old of None \<Rightarrow> p = 0
              | Some (n, K, V) \<Rightarrow> p \<le> n \<and> (p = 0 \<or> holds kvh H rows n K k base \<and> holds kvh H rows n V v base)"
    and new: "store_write kvh p kvs old = (n', K', V')"
  shows "holds kvh H rows n' K' (rows_written H kvh base p sn {..<rows} (\<lambda>s b. key_at kvs b s) k) base"
    and "holds kvh H rows n' V' (rows_written H kvh base p sn {..<rows} (\<lambda>s b. value_at kvs b s) v) base"
proof -
  have n': "n' = p + sn" and K': "K' = fst (snd (store_write kvh p kvs old))" and V': "V' = snd (snd (store_write kvh p kvs old))"
    using new by (simp_all add: sn store_write_def)
  have "rows_written H kvh base p sn {..<rows} (\<lambda>s b. key_at kvs b s) k s (base + (b * H + h)) = K' s b h \<and>
        rows_written H kvh base p sn {..<rows} (\<lambda>s b. value_at kvs b s) v s (base + (b * H + h)) = V' s b h"
    if "s < n'" "b < rows" "h < kvh" for s b h
  proof (cases "s < p")
    case True
    then obtain n K V where o: "old = Some (n, K, V)" and "s < n" "p \<noteq> 0" using old by (cases old) auto
    then have "k s (base + (b * H + h)) = K s b h \<and> v s (base + (b * H + h)) = V s b h"
      using old that by (auto simp: holds_def)
    then show ?thesis using True H(1) by (simp add: rows_written_old K' V' o store_write_def)
  next
    case False
    then show ?thesis using that H
      by (auto simp: rows_written_new n' K' V' store_write_def split: option.split)
  qed
  then show "holds kvh H rows n' K' (rows_written H kvh base p sn {..<rows} (\<lambda>s b. key_at kvs b s) k) base"
    and "holds kvh H rows n' V' (rows_written H kvh base p sn {..<rows} (\<lambda>s b. value_at kvs b s) v) base"
    by (simp_all add: holds_def)
qed

lemma rows_written_other_slot:
  assumes "slot_of m c mb \<noteq> slot_of m c z" and H: "0 < heads_of m" "kvh \<le> heads_of m"
    and "holds kvh (heads_of m) (mb_rows m f z) n X pl (mb_base m c z)"
  shows "holds kvh (heads_of m) (mb_rows m f z) n X
           (rows_written (heads_of m) kvh (mb_base m c mb) p sn {..<mb_rows m f mb} src pl) (mb_base m c z)"
proof -
  have "rows_written (heads_of m) kvh (mb_base m c mb) p sn {..<mb_rows m f mb} src pl s (mb_base m c z + (b * heads_of m + h)) =
      pl s (mb_base m c z + (b * heads_of m + h))" if "b < mb_rows m f z" "h < kvh" for s b h
  proof (rule rows_written_old)
    let ?x = "mb_base m c z + (b * heads_of m + h)"
    have "\<not> (mb_base m c mb \<le> ?x \<and> ?x < mb_base m c mb + mb_rows m f mb * heads_of m)"
      using other_slot_untouched [OF assms(1) that H(2), of ?x] by blast
    then show "s < p \<or> ?x < mb_base m c mb \<or> mb_base m c mb + mb_rows m f mb * heads_of m \<le> ?x"
      by linarith
  qed (rule H(1))
  then show ?thesis using assms(4) by (simp add: holds_def)
qed


lemma write_inv:
  assumes inv: "slots_inv full kvh m L" and mb: "mb * slot_batch m < full c"
    and p: "p \<le> stored L (c, mb)" "p = 0 \<or> resident m c mb"
    and idle: "\<And>z. slot_of m c z = slot_of m c mb \<Longrightarrow> z \<noteq> mb \<Longrightarrow> in_flight m (c, z) = []"
    and sn: "sn = key_shape kvs ! 2" "0 < sn" "p + sn \<le> seq_total (slabs m c)"
  defines "sl \<equiv> (slabs m c)\<lparr>k_data := rows_written (heads_of m) kvh (mb_base m c mb) p sn {..<mb_rows m (full c) mb}
                              (\<lambda>s b. key_at kvs b s) (k_data (slabs m c)),
                          v_data := rows_written (heads_of m) kvh (mb_base m c mb) p sn {..<mb_rows m (full c) mb}
                              (\<lambda>s b. value_at kvs b s) (v_data (slabs m c))\<rparr>"
  defines "m' \<equiv> launch_offload (c, mb) (c, slot_of m c mb) (p + sn)
                  (mb_base m c mb, mb_base m c mb + mb_rows m (full c) mb * heads_of m)
                  (m\<lparr>slabs := (slabs m)(c := sl)\<rparr>)"
  shows "slots_inv full kvh m' (L((c, mb) \<mapsto> store_write kvh p kvs (L (c, mb))))"
    and "same_shape m m'" and "active_stack m' = active_stack m"
proof -
  let ?k = "(c, mb)" and ?w = "mb_rows m (full c) mb * heads_of m" and ?b = "mb_base m c mb"
  let ?L' = "L(?k \<mapsto> store_write kvh p kvs (L ?k))"
  have H: "0 < heads_of m" "kvh \<le> heads_of m" using slots_invD(1,2) [OF inv] by simp_all
  define m2 where "m2 = m\<lparr>slabs := (slabs m)(c := sl)\<rparr>"
  have sh2: "same_shape m m2" by (simp add: m2_def same_shape_def sl_def)
  note geo2 = same_shape_geometry [OF sh2]
  define st where "st = (case mb_cpu_staging m2 ?k of Some st \<Rightarrow> st | None \<Rightarrow> fresh_staging m2 (seq_total (slabs m2 c)) ?w)"
  have m2: "mb_cpu_staging m2 = mb_cpu_staging m" "slabs m2 c = sl" by (simp_all add: m2_def)
  have st: "st_seq st = seq_total (slabs m c)" "st_bh st = ?w"
    using slots_invD(8) [OF inv, of c mb]
    by (auto simp: st_def m2 mb_ok_def stage_shape_def fresh_staging_def sl_def split: option.splits)
  define cp where "cp = (\<lambda>(pl :: 'a plane) (old :: 'a plane) s b.
      if s < p + sn \<and> b < ?w then pl s (?b + b) else old s b)"
  have copy: "stage_copy sl (p + sn) (?b, ?b + ?w) st = Inr (st\<lparr>st_k := cp (k_data sl) (st_k st), st_v := cp (v_data sl) (st_v st)\<rparr>)"
    (is "_ = Inr ?st'") unfolding cp_def using st sn(3) by (intro stage_copy_exact) (simp_all add: sl_def)
  have pre: "st = (case mb_cpu_staging m2 ?k of
        Some st \<Rightarrow> st | None \<Rightarrow> fresh_staging m2 (seq_total (slabs m2 (fst ?k))) (snd (?b, ?b + ?w) - fst (?b, ?b + ?w)))"
    "stage_copy (slabs m2 (fst ?k)) (p + sn) (?b, ?b + ?w) st = Inr ?st'"
    using copy by (simp_all only: st_def fst_conv snd_conv add_diff_cancel_left' m2)
  have m': "m' = launch_offload ?k (c, slot_of m c mb) (p + sn) (?b, ?b + ?w) m2" by (simp add: m'_def m2_def)
  note launch = launch_offload_eq [OF pre, of "(c, slot_of m c mb)", folded m']
  show sh: "same_shape m m'" using sh2 launch(11) by (rule same_shape_trans)
  show "active_stack m' = active_stack m" using launch(10) by (simp add: m2_def)
  note geo = same_shape_geometry [OF sh]
  have own: "slabs m' = (slabs m)(c := sl)" "offload_done m' = offload_done m"
    "current_gpu_mb m' = (current_gpu_mb m)((c, slot_of m c mb) \<mapsto> mb)"
    using launch(4,6,9) by (simp_all add: m2_def)
  have queue: "offload_queue m' = offload_queue m @
      (if async_kv_transfer m then [\<lparr>of_key = ?k, of_prefix = p + sn, of_heads = (?b, ?b + ?w)\<rparr>] else [])"
    using launch(2) by (simp add: m2_def)
  have fl: "in_flight m' k = in_flight m k @
      (if async_kv_transfer m \<and> k = ?k then [\<lparr>of_key = ?k, of_prefix = p + sn, of_heads = (?b, ?b + ?w)\<rparr>] else [])" for k
    by (auto simp: in_flight_def queue)
  have stg: "mb_cpu_staging m' = (mb_cpu_staging m)(?k \<mapsto> (if async_kv_transfer m then st else ?st')\<lparr>st_prefix := p + sn\<rparr>)"
    using launch(1) by (simp add: m2_def)
  obtain n' K' V' where new: "store_write kvh p kvs (L ?k) = (n', K', V')" by (cases "store_write kvh p kvs (L ?k)") auto
  have n': "n' = p + sn" using new by (simp add: store_write_def sn(1))
  have "case L ?k of None \<Rightarrow> p = 0
        | Some (n, K, V) \<Rightarrow> p \<le> n \<and> (p = 0 \<or> holds kvh (heads_of m) (mb_rows m (full c) mb) n K (k_data (slabs m c)) ?b \<and>
              holds kvh (heads_of m) (mb_rows m (full c) mb) n V (v_data (slabs m c)) ?b)"
    using slots_invD(8) [OF inv, of c mb] p by (auto simp: mb_ok_def stored_def slab_holds_def split: option.splits)
  from written_holds [OF H sn(1) this new]
  have slab: "slab_holds (full c) kvh m' c mb (n', K', V')"
    by (simp add: slab_holds_def geo own sl_def)
  have okk: "mb_ok full kvh m' ?L' c mb"
  proof -
    have "stage_holds (full c) kvh m mb (n', K', V') (?st'\<lparr>st_prefix := p + sn\<rparr>)"
      using slab H(2) by (auto simp: stage_holds_def slab_holds_def geo own cp_def n' intro!: holds_copied)
    moreover have "resident m' c mb" by (simp add: resident_def geo own)
    moreover have "\<not> async_kv_transfer m \<Longrightarrow> in_flight m ?k = []"
      using slots_invD(4) [OF inv] by (simp add: quiet_def in_flight_def)
    ultimately show ?thesis using slab mb sn st
      by (auto simp: mb_ok_def new stg fl stage_shape_def geo n')
  qed
  have oko: "mb_ok full kvh m' ?L' c' z" if ne: "(c', z) \<noteq> ?k" for c' z
  proof (cases "c' = c \<and> slot_of m c z = slot_of m c mb")
    case True
    then have "\<not> resident m' c z" "in_flight m (c, z) = []" using ne idle by (auto simp: resident_def geo own)
    then show ?thesis using True ne
      by (intro mb_ok_cong [OF slots_invD(8) [OF inv] sh]) (auto simp: stg fl)
  next
    case False
    have "slab_holds (full c') kvh m' c' z x" if "slab_holds (full c') kvh m c' z x" for x
    proof (cases "c' = c")
      case True
      then have "slot_of m c mb \<noteq> slot_of m c z" using False by simp
      from rows_written_other_slot [OF this H] show ?thesis using that True
        by (auto simp: slab_holds_def geo own sl_def split: prod.splits)
    qed (use that in \<open>simp add: slab_holds_def geo own\<close>)
    moreover have "resident m' c' z = resident m c' z" using False ne by (auto simp: resident_def geo own)
    ultimately show ?thesis using ne
      by (intro mb_ok_cong [OF slots_invD(8) [OF inv] sh]) (auto simp: stg fl)
  qed
  have flight: "flight_ok full m' i" if "i < length (offload_queue m')" for i
  proof (cases "i < length (offload_queue m)")
    case True
    then have "async_kv_transfer m" using slots_invD(4) [OF inv] by (auto simp: quiet_def)
    then show ?thesis using True slots_invD(6) [OF inv True] launch(3)
      by (cases "of_key (offload_queue m ! i)")
         (auto simp: flight_ok_def queue nth_append geo own(2) Let_def m2_def)
  next
    case False
    then have "async_kv_transfer m" "i = length (offload_queue m)" using that by (auto simp: queue split: if_splits)
    then show ?thesis using launch(3) sn(3) by (simp add: flight_ok_def queue nth_append geo own(2) Let_def m2_def)
  qed
  have "quiet m'" using slots_invD(4) [OF inv] launch(5,7,8) queue by (auto simp: quiet_def geo m2_def)
  moreover have "slot = slot_of m c' z \<and> ?L' (c', z) \<noteq> None" if "current_gpu_mb m' (c', slot) = Some z" for c' slot z
    using that slots_invD(7) [OF inv, of c' slot z] by (cases "(c', z) = ?k") (auto simp: own new split: if_splits)
  moreover have "mb_ok full kvh m' ?L' c' z" for c' z using okk oko by (cases "(c', z) = ?k") auto
  ultimately show "slots_inv full kvh m' ?L'"
    using slots_invD [OF inv] flight by (simp add: slots_inv_def geo)
qed


section \<open>A step of a block on one micro-batch\<close>

lemma claim_slot_ok:
  assumes inv: "slots_inv full kvh m L" and act: "active_cache_slot_id m = Some c"
    and m'_def: "m' = claim_slot mb (Some (c, slot_of m c mb)) m"
  shows "slots_inv full kvh m' L" and "same_shape m m'" and "active_stack m' = active_stack m"
    and "slabs m' = slabs m" and "current_gpu_mb m' = current_gpu_mb m"
    and "slot_of m c z = slot_of m c mb \<Longrightarrow> z \<noteq> mb \<Longrightarrow> in_flight m' (c, z) = []"
proof -
  have pend: "pending_gpu_mb m = Map.empty" using slots_invD(4) [OF inv] by (simp add: quiet_def)
  have "m' = m \<and> (\<forall>z. slot_of m c z = slot_of m c mb \<longrightarrow> z \<noteq> mb \<longrightarrow> \<not> resident m c z) \<or>
      (\<exists>y. current_gpu_mb m (c, slot_of m c mb) = Some y \<and> m' = sync_offload y m)"
    using pend by (auto simp: m'_def claim_slot_def resident_def split: option.split)
  then show "slots_inv full kvh m' L" and "same_shape m m'" and "active_stack m' = active_stack m"
    and "slabs m' = slabs m" and "current_gpu_mb m' = current_gpu_mb m"
    and "slot_of m c z = slot_of m c mb \<Longrightarrow> z \<noteq> mb \<Longrightarrow> in_flight m' (c, z) = []"
    using inv sync_offload_ok [OF inv act] idle_after_sync [OF inv act, of mb _ z] idle_unless_resident [OF inv, of c z]
    by auto
qed

lemma source_heads_of_rows:
  assumes "0 < rows" and "0 < kvh" and "kvh \<le> H" and "0 < full"
  shows "source_heads_per_batch cfg H (rows * kvh) full rows = kvh"
  using assms by (simp add: source_heads_per_batch_def Let_def)

text \<open>The new keys and values of a micro-batch of \<open>rows\<close> rows.\<close>

definition kvs_fit :: "nat \<Rightarrow> nat \<Rightarrow> nat \<Rightarrow> 'a new_kvs \<Rightarrow> bool" where
  "kvs_fit rows kvh D kvs \<longleftrightarrow>
     (\<exists>sn>0. key_shape kvs = [rows * kvh, D, sn] \<and> value_shape kvs = [rows * kvh, sn, D])"

lemma write_kvs_ok:
  assumes inv: "slots_inv full kvh m L" and act: "active_cache_slot_id m = Some c" and mb: "mb * slot_batch m < full c"
    and p: "p \<le> stored L (c, mb)" "p = 0 \<or> resident m c mb"
    and kvs: "kvs_fit (mb_rows m (full c) mb) kvh (head_dim (slabs m c)) kvs"
    and fits: "p + key_shape kvs ! 2 \<le> seq_total (slabs m c)"
  obtains m' where
    "write_kvs kvs p (mb * slot_batch m) (full c) (mb_rows m (full c) mb) None m = (Inr (), m')"
    and "slots_inv full kvh m' (L((c, mb) \<mapsto> store_write kvh p kvs (L (c, mb))))"
    and "same_shape m m'" and "active_stack m' = active_stack m"
proof -
  let ?H = "heads_of m" and ?rows = "mb_rows m (full c) mb" and ?b = "mb_base m c mb"
  have kvh: "0 < kvh" "kvh \<le> ?H" and H: "0 < ?H" using slots_invD(1,2) [OF inv] by simp_all
  have pos: "0 < full c" and rows: "0 < ?rows" using mb mb_rows_pos [OF mb] by simp_all
  have fit: "slots_fit (full c) m c" using pos by (rule slots_invD(5) [OF inv])
  obtain sn where sn: "0 < sn" "key_shape kvs = [?rows * kvh, head_dim (slabs m c), sn]"
      "value_shape kvs = [?rows * kvh, sn, head_dim (slabs m c)]"
    using kvs by (auto simp: kvs_fit_def)
  have fits': "p + sn \<le> seq_total (slabs m c)" using fits sn by simp
  define m1 where "m1 = claim_slot mb (Some (c, slot_of m c mb)) m"
  note cl = claim_slot_ok [OF inv act m1_def]
  note geo = same_shape_geometry [OF cl(2)]
  have act1: "active_cache_slot_id m1 = Some c" using act active_of_stack [OF cl(3)] by simp
  obtain cap where res: "resolve_working_slot (kv_pol m) mb (bh_total (slabs m c) div ?H) (Some ?rows) =
      (slot_of m c mb, slot_of m c mb * slot_batch m, ?rows, cap)" "?rows \<le> cap"
    using resolve_own_slot [OF fit mb] by (auto simp: capacity_of_def)
  have mux: "gpu_multiplexing (bh_total (slabs m c) div ?H) (full c)"
    using fit pos by (simp add: gpu_multiplexing_def slots_fit_def capacity_of_def)
  have range: "write_range (?rows * ?H) (mb * slot_batch m) (full c) ?rows (bh_total (slabs m c) div ?H) (bh_total (slabs m c)) m =
      (Inr (?b, ?b + ?rows * ?H, Some (slot_of m c mb), Some ?rows), m1)"
    using pos mux act by (simp add: write_range_def microbatch_index_of_offset [OF mb] res Let_def m1_def
        slot_state_key_def mb_base_def)
  define sl where "sl = (slabs m c)\<lparr>k_data := rows_written ?H kvh ?b p sn {..<?rows} (\<lambda>s b. key_at kvs b s) (k_data (slabs m c)),
                          v_data := rows_written ?H kvh ?b p sn {..<?rows} (\<lambda>s b. value_at kvs b s) (v_data (slabs m c))\<rparr>"
  have dev: "slab_device (slabs m c) = CudaCache" using fit by (simp add: slots_fit_def)
  have inslab: "?b + ?rows * ?H \<le> bh_total (slabs m c)" using region_in_slab [OF fit pos] .
  have written: "write_slab_rows ?H kvh (?rows * kvh) sn p (?b, ?b + ?rows * ?H) kvs (slabs m c) = (Inr (), sl)"
    unfolding sl_def using dev fits' inslab kvh(2) H kvh(1) sn(1) by (intro micro_rows_written) simp_all
  define m2 where "m2 = m1\<lparr>slabs := (slabs m1)(c := sl)\<rparr>"
  define m' where "m' = offload_microbatch_kv mb (p + sn) (Some (slot_of m c mb)) (Some ?rows) m2"
  have "write_kvs kvs p (mb * slot_batch m) (full c) ?rows None m = (Inr (), m')"
  proof -
    have heads: "source_heads_per_batch (kv_cfg m) ?H (?rows * kvh) (full c) ?rows = kvh"
      using source_heads_of_rows rows kvh pos by blast
    have bh: "(if kvh < ?H then ?rows * ?H else ?rows * kvh) = ?rows * ?H" using kvh by auto
    have "p < seq_total (slabs m c)" using fits' sn(1) by simp
    then show ?thesis
      using act H sn fits' kvh written heads
      by (cases "kvh < ?H") (simp_all add: write_window_def write_kvs_def Let_def bh range cl(4) m2_def m'_def
            mux microbatch_index_of_offset [OF mb])
  qed
  moreover have off: "m' = launch_offload (c, mb) (c, slot_of m1 c mb) (p + sn)
      (mb_base m1 c mb, mb_base m1 c mb + mb_rows m1 (full c) mb * heads_of m1) m2"
  proof -
    have "min (slot_batch m) (bh_total (slabs m c) div ?H - slot_of m c mb * slot_batch m) = cap"
      using res(1) by (simp add: resolve_working_slot_def Let_def slot_of_def capacity_of_def)
    then show ?thesis
      using slots_invD(3) [OF cl(1)] act1 dev rows H res(2) inslab sn(1)
      by (simp add: m'_def offload_microbatch_kv_def m2_def Let_def cl(4) geo sl_def active_cache_slot_id_def
          mb_base_def [symmetric])
  qed
  have sl1: "sl = (slabs m1 c)\<lparr>k_data := rows_written (heads_of m1) kvh (mb_base m1 c mb) p sn {..<mb_rows m1 (full c) mb}
                              (\<lambda>s b. key_at kvs b s) (k_data (slabs m1 c)),
                          v_data := rows_written (heads_of m1) kvh (mb_base m1 c mb) p sn {..<mb_rows m1 (full c) mb}
                              (\<lambda>s b. value_at kvs b s) (v_data (slabs m1 c))\<rparr>"
    by (simp add: sl_def cl(4) geo)
  have "mb * slot_batch m1 < full c" "p = 0 \<or> resident m1 c mb" "sn = key_shape kvs ! 2"
    using mb p(2) sn by (simp_all add: geo resident_def cl(5))
  note wr = write_inv [OF cl(1) this(1) p(1) this(2) _ this(3) sn(1), folded sl1, folded m2_def, folded off]
  have idle: "in_flight m1 (c, z) = []" if "slot_of m1 c z = slot_of m1 c mb" "z \<noteq> mb" for z
    using cl(6) that by (simp add: geo)
  have "slots_inv full kvh m' (L((c, mb) \<mapsto> store_write kvh p kvs (L (c, mb))))" "same_shape m1 m'"
      "active_stack m' = active_stack m1"
    using wr idle fits' by (simp_all add: cl(4))
  ultimately show thesis using that cl(3) same_shape_trans [OF cl(2)] by simp
qed


lemma to_pkv_rows:
  assumes "0 < rows" and "0 < H"
  shows "to_pkv H sl [0..<p] [b0..<b0 + rows * H] =
    Inr \<lparr>pk_batch = rows, pk_heads = H, pk_seq = p,
         pk_key = (\<lambda>b h s. k_data sl ([0..<p] ! s) ([b0..<b0 + rows * H] ! (b * H + h))),
         pk_value = (\<lambda>b h s. v_data sl ([0..<p] ! s) ([b0..<b0 + rows * H] ! (b * H + h)))\<rparr>"
proof -
  have "H \<le> rows * H" using assms by (cases rows) simp_all
  then show ?thesis using assms by (simp add: to_pkv_def Let_def)
qed

text \<open>A view shows the first \<open>p\<close> positions of a store entry.\<close>

definition view_shows ::
  "nat \<Rightarrow> nat \<Rightarrow> nat \<Rightarrow> nat \<Rightarrow> nat \<times> (nat \<Rightarrow> nat \<Rightarrow> nat \<Rightarrow> 'a) \<times> (nat \<Rightarrow> nat \<Rightarrow> nat \<Rightarrow> 'a) \<Rightarrow> 'a pkv \<Rightarrow> bool" where
  "view_shows H kvh rows p x v \<longleftrightarrow>
     pk_batch v = rows \<and> pk_heads v = H \<and> pk_seq v = p \<and>
     (\<forall>b<rows. \<forall>h<kvh. \<forall>s<p. pk_key v b h s = fst (snd x) s b h \<and> pk_value v b h s = snd (snd x) s b h)"

lemma view_of_slab:
  assumes "slab_holds full kvh m c mb (n, K, V)" and "p \<le> n" and "kvh \<le> heads_of m"
    and "0 < mb_rows m full mb" and "0 < kvh"
  obtains v where "to_pkv (heads_of m) (slabs m c) [0..<p]
      [mb_base m c mb..<mb_base m c mb + mb_rows m full mb * heads_of m] = Inr v"
    and "view_shows (heads_of m) kvh (mb_rows m full mb) p (n, K, V) v"
proof -
  have H: "0 < heads_of m" using assms by simp
  have "[mb_base m c mb..<mb_base m c mb + mb_rows m full mb * heads_of m] ! (b * heads_of m + h) =
      mb_base m c mb + (b * heads_of m + h)" if "b < mb_rows m full mb" "h < kvh" for b h
    using row_head_less [OF that assms(3)] by simp
  then show thesis using that to_pkv_rows [OF assms(4) H, of "slabs m c" p "mb_base m c mb"] assms(1,2)
    by (auto simp: view_shows_def slab_holds_def holds_def)
qed

lemma select_ok:
  assumes inv: "slots_inv full kvh m L" and act: "active_cache_slot_id m = Some c" and mb: "mb * slot_batch m < full c"
    and p: "0 < p" "p \<le> stored L (c, mb)"
  obtains v m' x where
    "select_cache p None (mb * slot_batch m) (full c) (mb_rows m (full c) mb) None m = (Inr (Some v, False), m')"
    and "L (c, mb) = Some x" and "view_shows (heads_of m) kvh (mb_rows m (full c) mb) p x v"
    and "slots_inv full kvh m' L" and "resident m' c mb" and "same_shape m m'" and "active_stack m' = active_stack m"
proof -
  let ?H = "heads_of m" and ?rows = "mb_rows m (full c) mb" and ?b = "mb_base m c mb"
  have kvh: "0 < kvh" "kvh \<le> ?H" and H: "0 < ?H" using slots_invD(1,2) [OF inv] by simp_all
  have pos: "0 < full c" and rows: "0 < ?rows" using mb mb_rows_pos [OF mb] by simp_all
  have fit: "slots_fit (full c) m c" using pos by (rule slots_invD(5) [OF inv])
  obtain n K V where L: "L (c, mb) = Some (n, K, V)" and pn: "p \<le> n"
    using p by (auto simp: stored_def split: option.splits)
  have nS: "n \<le> seq_total (slabs m c)" using slots_invD(8) [OF inv, of c mb] L by (simp add: mb_ok_def)
  define m' where "m' = make_resident mb (Some (c, slot_of m c mb)) m"
  note mr = make_resident_ok [OF inv L act, folded m'_def]
  note geo = same_shape_geometry [OF mr(3)]
  have "slab_holds (full c) kvh m' c mb (n, K, V)"
    using slots_invD(8) [OF mr(1), of c mb] L mr(2) by (simp add: mb_ok_def)
  then obtain v where v: "to_pkv ?H (slabs m' c) [0..<p] [?b..<?b + ?rows * ?H] = Inr v"
      and vs: "view_shows ?H kvh ?rows p (n, K, V) v"
    using view_of_slab [of "full c" kvh m' c mb n K V p] pn kvh rows by (auto simp: geo)
  obtain cap where res: "resolve_working_slot (kv_pol m) mb (bh_total (slabs m c) div ?H) (Some ?rows) =
      (slot_of m c mb, slot_of m c mb * slot_batch m, ?rows, cap)"
    using resolve_own_slot [OF fit mb] by (auto simp: capacity_of_def)
  have mux: "gpu_multiplexing (bh_total (slabs m c) div ?H) (full c)"
    using fit pos by (simp add: gpu_multiplexing_def slots_fit_def capacity_of_def)
  have inslab: "?b + ?rows * ?H \<le> bh_total (slabs m c)" using region_in_slab [OF fit pos] .
  have dev: "slab_device (slabs m c) = CudaCache" using fit by (simp add: slots_fit_def)
  have "select_cache p None (mb * slot_batch m) (full c) ?rows None m = (Inr (Some v, False), m')"
    using act p pn nS H pos rows mux v inslab dev
    by (simp add: select_cache_def read_range_def Let_def microbatch_index_of_offset [OF mb] res slot_state_key_def
        m'_def [symmetric] read_positions_def read_columns_def geo mb_base_def [symmetric])
  then show thesis using that L vs mr by blast
qed


text \<open>
  Requests of a multiplexed batch: offsets are multiples of the policy's micro-batch size, only the
  last micro-batch is smaller, and a step continues at most where the micro-batch ends.
\<close>

definition rq_mb :: "'a kv_manager \<Rightarrow> 'a kv_request \<Rightarrow> nat" where
  "rq_mb m r = rq_offset r div slot_batch m"

definition rq_key :: "'a kv_manager \<Rightarrow> 'a kv_request \<Rightarrow> nat \<times> nat" where
  "rq_key m r = (rq_cache r, rq_mb m r)"

definition request_fits :: "(nat \<Rightarrow> nat) \<Rightarrow> nat \<Rightarrow> 'a kv_manager \<Rightarrow> 'a kv_store \<Rightarrow> 'a kv_request \<Rightarrow> bool" where
  "request_fits full kvh m L r \<longleftrightarrow>
     rq_offset r = rq_mb m r * slot_batch m \<and> rq_offset r < full (rq_cache r) \<and>
     rq_full r = full (rq_cache r) \<and> rq_micro r = mb_rows m (full (rq_cache r)) (rq_mb m r) \<and>
     rq_prefix r \<le> stored L (rq_key m r) \<and>
     kvs_fit (rq_micro r) kvh (head_dim (slabs m (rq_cache r))) (rq_kvs r) \<and>
     rq_prefix r + key_shape (rq_kvs r) ! 2 \<le> seq_total (slabs m (rq_cache r))"

definition store_step :: "nat \<Rightarrow> 'a kv_manager \<Rightarrow> 'a kv_request \<Rightarrow> 'a kv_store \<Rightarrow> 'a kv_store" where
  "store_step kvh m r L = L(rq_key m r \<mapsto> store_write kvh (rq_prefix r) (rq_kvs r) (L (rq_key m r)))"

fun requests_fit :: "(nat \<Rightarrow> nat) \<Rightarrow> nat \<Rightarrow> 'a kv_manager \<Rightarrow> 'a kv_request list \<Rightarrow> 'a kv_store \<Rightarrow> bool" where
  "requests_fit full kvh m [] L = True"
| "requests_fit full kvh m (r # rs) L =
     (request_fits full kvh m L r \<and> requests_fit full kvh m rs (store_step kvh m r L))"

definition view_expected :: "nat \<Rightarrow> 'a kv_manager \<Rightarrow> 'a kv_store \<Rightarrow> 'a kv_request \<Rightarrow> 'a pkv option \<Rightarrow> bool" where
  "view_expected kvh m L r view \<longleftrightarrow>
     (if rq_prefix r = 0 then view = None
      else case (L (rq_key m r), view) of
             (Some x, Some v) \<Rightarrow> view_shows (heads_of m) kvh (rq_micro r) (rq_prefix r) x v
           | _ \<Rightarrow> False)"

fun views_expected :: "nat \<Rightarrow> 'a kv_manager \<Rightarrow> 'a kv_request list \<Rightarrow> 'a kv_store \<Rightarrow> 'a pkv option list \<Rightarrow> bool" where
  "views_expected kvh m (r # rs) L (v # vs) =
     (view_expected kvh m L r v \<and> views_expected kvh m rs (store_step kvh m r L) vs)"
| "views_expected kvh m [] L [] = True"
| "views_expected kvh m _ L _ = False"

text \<open>Requests depend on the policy, the model and the lengths of the slabs only.\<close>

definition same_model :: "'a kv_manager \<Rightarrow> 'a kv_manager \<Rightarrow> bool" where
  "same_model m m' \<longleftrightarrow>
     kv_pol m' = kv_pol m \<and> kv_cfg m' = kv_cfg m \<and>
     (\<forall>c. seq_total (slabs m' c) = seq_total (slabs m c) \<and> head_dim (slabs m' c) = head_dim (slabs m c))"

lemma same_shape_model: "same_shape m m' \<Longrightarrow> same_model m m'"
  by (simp add: same_shape_def same_model_def)

lemma request_model:
  assumes "same_model m m'"
  shows "rq_key m' r = rq_key m r" "request_fits full kvh m' L r = request_fits full kvh m L r"
    "store_step kvh m' r L = store_step kvh m r L"
  using assms by (simp_all add: request_fits_def rq_mb_def rq_key_def store_step_def same_model_def mb_rows_def)

lemma view_model:
  assumes "same_model m m'"
  shows "view_expected kvh m' L r v = view_expected kvh m L r v"
proof -
  have "kv_cfg m' = kv_cfg m" using assms by (simp add: same_model_def)
  then show ?thesis unfolding view_expected_def request_model(1) [OF assms] by metis
qed

lemma run_model:
  assumes "same_model m m'"
  shows "requests_fit full kvh m' rs L = requests_fit full kvh m rs L"
    "views_expected kvh m' rs L vs = views_expected kvh m rs L vs"
proof -
  show "requests_fit full kvh m' rs L = requests_fit full kvh m rs L"
    by (induction rs arbitrary: L) (simp_all add: request_model [OF assms])
  show "views_expected kvh m' rs L vs = views_expected kvh m rs L vs"
  proof (induction rs arbitrary: L vs)
    case Nil
    then show ?case by (cases vs) simp_all
  next
    case (Cons r rs)
    then show ?case
      by (cases vs) (simp_all add: request_model [OF assms] view_model [OF assms])
  qed
qed

lemmas request_geometry = request_model [OF same_shape_model]
lemmas view_geometry = view_model [OF same_shape_model]
lemmas run_geometry = run_model [OF same_shape_model]

lemma cached_step_ok:
  assumes inv: "slots_inv full kvh m L" and act: "active_cache_slot_id m = Some (rq_cache r)"
    and req: "request_fits full kvh m L r"
  obtains view m' where "cached_step r m = (Inr view, m')" and "view_expected kvh m L r view"
    and "slots_inv full kvh m' (store_step kvh m r L)" and "same_shape m m'" and "active_stack m' = active_stack m"
proof -
  let ?c = "rq_cache r" and ?mb = "rq_mb m r"
  have mb: "?mb * slot_batch m < full ?c" and off: "rq_offset r = ?mb * slot_batch m"
    and rq: "rq_full r = full ?c" "rq_micro r = mb_rows m (full ?c) ?mb"
    and p: "rq_prefix r \<le> stored L (?c, ?mb)"
    and kvs: "kvs_fit (mb_rows m (full ?c) ?mb) kvh (head_dim (slabs m ?c)) (rq_kvs r)"
    and fits: "rq_prefix r + key_shape (rq_kvs r) ! 2 \<le> seq_total (slabs m ?c)"
    using req by (auto simp: request_fits_def rq_key_def)
  have "\<exists>view m1. select_cache (rq_prefix r) None (rq_offset r) (rq_full r) (rq_micro r) None m = (Inr (view, False), m1) \<and>
      (case view of None \<Rightarrow> 0 | Some v \<Rightarrow> pk_seq v) = rq_prefix r \<and> view_expected kvh m L r view \<and>
      slots_inv full kvh m1 L \<and> (rq_prefix r = 0 \<or> resident m1 ?c ?mb) \<and> same_shape m m1 \<and> active_stack m1 = active_stack m"
  proof (cases "rq_prefix r = 0")
    case True
    then show ?thesis using act inv by (simp add: select_cache_def view_expected_def)
  next
    case False
    then show ?thesis
      using select_ok [OF inv act mb _ p] unfolding off rq
      by (fastforce simp: view_expected_def rq_key_def rq view_shows_def)
  qed
  then obtain view m1 where sel: "select_cache (rq_prefix r) None (rq_offset r) (rq_full r) (rq_micro r) None m = (Inr (view, False), m1)"
    and len: "(case view of None \<Rightarrow> 0 | Some v \<Rightarrow> pk_seq v) = rq_prefix r" and exp: "view_expected kvh m L r view"
    and inv1: "slots_inv full kvh m1 L" and res: "rq_prefix r = 0 \<or> resident m1 ?c ?mb"
    and sh: "same_shape m m1" and st: "active_stack m1 = active_stack m" by blast
  define m2 where "m2 = (offload_progress ^^ rq_overlap r) m1"
  have inv2: "slots_inv full kvh m2 L" unfolding m2_def using inv1 by (rule progress_run_inv)
  have frame: "slabs m2 = slabs m1" "current_gpu_mb m2 = current_gpu_mb m1" "active_stack m2 = active_stack m"
    "same_shape m1 m2" by (simp_all add: m2_def kvm_simps st same_shape_def)
  have sh2: "same_shape m m2" using sh frame(4) by (rule same_shape_trans)
  note geo = same_shape_geometry [OF sh2]
  have act2: "active_cache_slot_id m2 = Some ?c" using act active_of_stack [OF frame(3)] by simp
  have res2: "rq_prefix r = 0 \<or> resident m2 ?c ?mb" using res
    by (simp add: resident_def frame same_shape_geometry [OF frame(4)])
  obtain m3 where wr: "write_kvs (rq_kvs r) (rq_prefix r) (rq_offset r) (rq_full r) (rq_micro r) None m2 = (Inr (), m3)"
    and inv3: "slots_inv full kvh m3 (store_step kvh m r L)" and sh3: "same_shape m2 m3"
    and st3: "active_stack m3 = active_stack m2"
    using write_kvs_ok [OF inv2 act2, of ?mb "rq_prefix r" "rq_kvs r"] mb p res2 kvs fits
    by (auto simp: geo off rq store_step_def rq_key_def)
  have "cached_step r m = (Inr view, (offload_progress ^^ rq_after r) m3)"
    using sel wr by (simp add: cached_step_def len m2_def Let_def)
  moreover have "same_shape m ((offload_progress ^^ rq_after r) m3)"
    using same_shape_trans [OF sh2 sh3] by (simp add: same_shape_def kvm_simps)
  ultimately show thesis using that exp progress_run_inv [OF inv3] st3 frame(3) by (simp add: kvm_simps)
qed


lemma push_active_inv:
  assumes "slots_inv full kvh m L"
  shows "slots_inv full kvh (m\<lparr>active_stack := x\<rparr>) L"
proof -
  have sh: "same_shape m (m\<lparr>active_stack := x\<rparr>)" by (simp add: same_shape_def)
  note geo = same_shape_geometry [OF sh]
  have "mb_ok full kvh (m\<lparr>active_stack := x\<rparr>) L c mb" for c mb
    by (rule mb_ok_cong [OF slots_invD(8) [OF assms] sh])
       (simp_all add: in_flight_def resident_def geo slab_holds_def)
  moreover have "flight_ok full (m\<lparr>active_stack := x\<rparr>) i" if "i < length (offload_queue m)" for i
    using slots_invD(6) [OF assms that] flight_queue_cong [OF sh, of i i full] by simp
  ultimately show ?thesis using assms by (simp add: slots_inv_def geo quiet_def)
qed

lemma run_requests_ok:
  assumes "slots_inv full kvh m L" and "requests_fit full kvh m rs L"
  shows "\<exists>views m'. run_requests rs m = (Inr views, m') \<and> views_expected kvh m rs L views"
  using assms
proof (induction rs arbitrary: m L)
  case Nil
  then show ?case by simp
next
  case (Cons r rs)
  let ?ma = "m\<lparr>active_stack := rq_cache r # active_stack m\<rparr>"
  have inv: "slots_inv full kvh ?ma L" using Cons.prems(1) by (rule push_active_inv)
  have sha: "same_shape m ?ma" by (simp add: same_shape_def)
  have act: "active_cache_slot_id ?ma = Some (rq_cache r)" by (simp add: active_cache_slot_id_def)
  have "request_fits full kvh ?ma L r" using Cons.prems(2) request_geometry(2) [OF sha] by simp
  then obtain view m1 where step: "cached_step r ?ma = (Inr view, m1)" and exp: "view_expected kvh ?ma L r view"
    and inv1: "slots_inv full kvh m1 (store_step kvh ?ma r L)" and sh1: "same_shape ?ma m1"
    by (rule cached_step_ok [OF inv act])
  let ?m1 = "m1\<lparr>active_stack := tl (active_stack m1)\<rparr>"
  have sh: "same_shape m ?m1" using same_shape_trans [OF sha sh1] by (simp add: same_shape_def)
  have inv1': "slots_inv full kvh ?m1 (store_step kvh m r L)"
    using push_active_inv [OF inv1] request_geometry(3) [OF sha] by metis
  have "requests_fit full kvh ?m1 rs (store_step kvh m r L)"
    using Cons.prems(2) run_geometry(1) [OF sh] by simp
  from Cons.IH [OF inv1' this] obtain views m2
    where rest: "run_requests rs ?m1 = (Inr views, m2)" "views_expected kvh ?m1 rs (store_step kvh m r L) views" by blast
  have "view_expected kvh m L r view"
    using exp view_geometry [OF sha] by simp
  then show ?case using step rest run_geometry(2) [OF sh] by (simp add: use_cache_ctx_def)
qed

text \<open>A manager that has not served a request yet.\<close>

definition idle_manager :: "'a kv_manager \<Rightarrow> bool" where
  "idle_manager m \<longleftrightarrow>
     mb_cpu_staging m = Map.empty \<and> current_gpu_mb m = Map.empty \<and> pending_gpu_mb m = Map.empty \<and>
     mb_offload_events m = Map.empty \<and> mb_prefetch_events m = Map.empty \<and> offload_queue m = [] \<and>
     prefetch_queue m = [] \<and> offload_enabled m"

lemma idle_inv:
  assumes "idle_manager m" and "0 < kvh" and "kvh \<le> heads_of m" and "\<And>c. 0 < full c \<Longrightarrow> slots_fit (full c) m c"
  shows "slots_inv full kvh m Map.empty"
  using assms by (simp add: slots_inv_def idle_manager_def quiet_def mb_ok_def in_flight_def)

text \<open>
  C9 Multiplexed micro-batches never see each other. A request whose batch is larger than the
  server's cache slabs runs its micro-batches through the working slots of any number of caches, in
  any order, with each write copied to the CPU staging buffer by a stream that may lag behind by any
  number of copies (or without streams, when transfers are synchronous). Every step of every
  micro-batch succeeds and reads exactly the keys and values that this micro-batch wrote to this
  cache before, truncated to the prefix the step asks for, and the first step reads nothing.
\<close>

theorem multiplexed_reads_are_own_writes:
  assumes "idle_manager m" and "0 < kvh" and "kvh \<le> heads_of m"
    and "\<And>c. 0 < full c \<Longrightarrow> slots_fit (full c) m c"
    and "requests_fit full kvh m rs Map.empty"
  shows "\<exists>views m'. run_requests rs m = (Inr views, m') \<and> views_expected kvh m rs Map.empty views"
  using run_requests_ok [OF idle_inv [OF assms(1-4)] assms(5)] .


definition example_manager :: "nat kv_manager" where
  "example_manager = \<lparr>
     kv_pol = \<lparr>gpu_batch_size = 1, num_gpu_batches = 1\<rparr>,
     kv_cfg = \<lparr>num_attention_heads = 2, num_key_value_heads = Some 1, num_key_value_groups = None\<rparr>,
     slabs = (\<lambda>_. \<lparr>seq_total = 4, bh_total = 2, head_dim = 1, slab_device = CudaCache,
                   k_data = (\<lambda>_ _. 0), v_data = (\<lambda>_ _. 0)\<rparr>),
     active_stack = [], mb_cpu_staging = Map.empty, current_gpu_mb = Map.empty, pending_gpu_mb = Map.empty,
     mb_offload_events = Map.empty, mb_prefetch_events = Map.empty, offload_enabled = True,
     async_kv_transfer = True, offload_queue = [], offload_done = 0, prefetch_queue = [], prefetch_done = 0,
     uninitialised = 99\<rparr>"

definition example_kvs :: "nat \<Rightarrow> nat new_kvs" where
  "example_kvs v = \<lparr>key_shape = [1, 1, 1], value_shape = [1, 1, 1], key_at = (\<lambda>_ _. v), value_at = (\<lambda>_ _. v + 1)\<rparr>"

definition example_request :: "nat \<Rightarrow> nat \<Rightarrow> nat \<Rightarrow> nat kv_request" where
  "example_request offset prefix v =
     \<lparr>rq_cache = 7, rq_offset = offset, rq_full = 2, rq_micro = 1, rq_prefix = prefix, rq_kvs = example_kvs v,
      rq_overlap = 0, rq_after = 0\<rparr>"

lemmas example_simps = example_manager_def example_request_def example_kvs_def rq_mb_def rq_key_def
  working_slot_batch_size_def mb_rows_def kvs_fit_def stored_def store_step_def store_write_def request_fits_def

theorem multiplexed_reads_are_own_writes_witness:
  "\<exists>views m'. run_requests [example_request 0 0 10, example_request 1 0 20, example_request 0 1 11] example_manager =
      (Inr views, m') \<and>
    views_expected 1 example_manager [example_request 0 0 10, example_request 1 0 20, example_request 0 1 11] Map.empty views"
  by (rule multiplexed_reads_are_own_writes [where full = "\<lambda>_. 2"])
     (simp_all add: example_simps idle_manager_def slots_fit_def capacity_of_def working_slot_count_def)

end
