(* ===== verification/KVMultiplex_Ref.thy ===== *)
theory KVMultiplex_Ref
  imports KVMultiplex_Props
begin

text \<open>
  The reference run of the working slots: the same requests on slabs that hold the whole batch, and
  the equivalence of the two.
\<close>

section \<open>A slab that holds the whole batch\<close>

text \<open>
  When the slab has room for the whole batch the same requests address it by their batch offset and
  nothing is staged. This run is the reference the working slots are compared with.
\<close>

definition whole_fits :: "nat \<Rightarrow> 'a kv_manager \<Rightarrow> nat \<Rightarrow> bool" where
  "whole_fits full m c \<longleftrightarrow>
     (\<forall>ps. slab_device (slabs m c) \<noteq> MixedCache ps) \<and>
     bh_total (slabs m c) = capacity_of m c * heads_of m \<and> full \<le> capacity_of m c"

definition whole_base :: "'a kv_manager \<Rightarrow> nat \<Rightarrow> nat" where
  "whole_base m mb = mb * slot_batch m * heads_of m"

definition whole_inv :: "(nat \<Rightarrow> nat) \<Rightarrow> nat \<Rightarrow> 'a kv_manager \<Rightarrow> 'a kv_store \<Rightarrow> bool" where
  "whole_inv full kvh m L \<longleftrightarrow>
     0 < kvh \<and> kvh \<le> heads_of m \<and> offload_queue m = [] \<and> (\<forall>c. 0 < full c \<longrightarrow> whole_fits (full c) m c) \<and>
     (\<forall>c mb n K V. L (c, mb) = Some (n, K, V) \<longrightarrow>
        n \<le> seq_total (slabs m c) \<and>
        holds kvh (heads_of m) (mb_rows m (full c) mb) n K (k_data (slabs m c)) (whole_base m mb) \<and>
        holds kvh (heads_of m) (mb_rows m (full c) mb) n V (v_data (slabs m c)) (whole_base m mb))"

lemma whole_invD:
  assumes "whole_inv full kvh m L"
  shows "0 < kvh" "kvh \<le> heads_of m" "offload_queue m = []"
    and "0 < full c \<Longrightarrow> whole_fits (full c) m c"
    and "L (c, mb) = Some (n, K, V) \<Longrightarrow> n \<le> seq_total (slabs m c)"
    and "L (c, mb) = Some (n, K, V) \<Longrightarrow>
           holds kvh (heads_of m) (mb_rows m (full c) mb) n K (k_data (slabs m c)) (whole_base m mb)"
    and "L (c, mb) = Some (n, K, V) \<Longrightarrow>
           holds kvh (heads_of m) (mb_rows m (full c) mb) n V (v_data (slabs m c)) (whole_base m mb)"
  using assms by (auto simp: whole_inv_def)

lemma idle_progress: "offload_queue m = [] \<Longrightarrow> (offload_progress ^^ n) m = m"
  by (induction n) (simp_all add: offload_progress_def)

lemma whole_region_in_slab:
  assumes "whole_fits full m c" and "mb * slot_batch m < full"
  shows "whole_base m mb + mb_rows m full mb * heads_of m \<le> bh_total (slabs m c)"
proof -
  have "mb * slot_batch m + mb_rows m full mb \<le> full" using assms(2) unfolding mb_rows_def by linarith
  also have "\<dots> \<le> capacity_of m c" using assms(1) by (simp add: whole_fits_def)
  finally have "mb * slot_batch m + mb_rows m full mb \<le> capacity_of m c" .
  then have "(mb * slot_batch m + mb_rows m full mb) * heads_of m \<le> capacity_of m c * heads_of m" by (rule mult_le_mono1)
  then show ?thesis using assms(1) by (simp add: whole_fits_def whole_base_def add_mult_distrib)
qed

lemma rows_written_other_rows:
  assumes "mb \<noteq> z" and H: "0 < heads_of m" "kvh \<le> heads_of m"
    and "holds kvh (heads_of m) (mb_rows m f z) n X pl (whole_base m z)"
  shows "holds kvh (heads_of m) (mb_rows m f z) n X
           (rows_written (heads_of m) kvh (whole_base m mb) p sn {..<mb_rows m f mb} src pl) (whole_base m z)"
proof -
  let ?w = "slot_batch m * heads_of m"
  have "rows_written (heads_of m) kvh (whole_base m mb) p sn {..<mb_rows m f mb} src pl s (whole_base m z + (b * heads_of m + h)) =
      pl s (whole_base m z + (b * heads_of m + h))" if "b < mb_rows m f z" "h < kvh" for s b h
  proof (rule rows_written_old)
    let ?x = "whole_base m z + (b * heads_of m + h)"
    have "b * heads_of m + h < mb_rows m f z * heads_of m" using that H by (intro row_head_less)
    also have "\<dots> \<le> ?w" by (simp add: mb_rows_def)
    finally have y: "b * heads_of m + h < ?w" .
    have "\<not> (whole_base m mb \<le> ?x \<and> ?x < whole_base m mb + ?w)"
    proof
      assume a: "whole_base m mb \<le> ?x \<and> ?x < whole_base m mb + ?w"
      then have "?x - whole_base m mb < ?w" by linarith
      then have "z * ?w + (b * heads_of m + h) \<noteq> mb * ?w + (?x - whole_base m mb)"
        using assms(1) y by (intro slot_blocks_disjoint) auto
      then show False using a by (simp add: whole_base_def mult.assoc)
    qed
    moreover have "mb_rows m f mb * heads_of m \<le> ?w" by (simp add: mb_rows_def)
    ultimately show "s < p \<or> ?x < whole_base m mb \<or> whole_base m mb + mb_rows m f mb * heads_of m \<le> ?x"
      by linarith
  qed (rule H(1))
  then show ?thesis using assms(4) by (simp add: holds_def)
qed

lemma whole_write_ok:
  assumes inv: "whole_inv full kvh m L" and act: "active_cache_slot_id m = Some c" and mb: "mb * slot_batch m < full c"
    and p: "p \<le> stored L (c, mb)"
    and kvs: "kvs_fit (mb_rows m (full c) mb) kvh (head_dim (slabs m c)) kvs"
    and fits: "p + key_shape kvs ! 2 \<le> seq_total (slabs m c)"
  obtains m' where
    "write_kvs kvs p (mb * slot_batch m) (full c) (mb_rows m (full c) mb) None m = (Inr (), m')"
    and "whole_inv full kvh m' (L((c, mb) \<mapsto> store_write kvh p kvs (L (c, mb))))"
    and "same_shape m m'" and "active_stack m' = active_stack m"
proof -
  let ?H = "heads_of m" and ?rows = "mb_rows m (full c) mb" and ?b = "whole_base m mb"
  have kvh: "0 < kvh" "kvh \<le> ?H" and H: "0 < ?H" using whole_invD(1,2) [OF inv] by simp_all
  have pos: "0 < full c" and rows: "0 < ?rows" using mb mb_rows_pos [OF mb] by simp_all
  have fit: "whole_fits (full c) m c" using pos by (rule whole_invD(4) [OF inv])
  obtain sn where sn: "0 < sn" "key_shape kvs = [?rows * kvh, head_dim (slabs m c), sn]"
      "value_shape kvs = [?rows * kvh, sn, head_dim (slabs m c)]"
    using kvs by (auto simp: kvs_fit_def)
  have fits': "p + sn \<le> seq_total (slabs m c)" using fits sn by simp
  have mux: "\<not> gpu_multiplexing (bh_total (slabs m c) div ?H) (full c)"
    using fit by (simp add: gpu_multiplexing_def whole_fits_def capacity_of_def)
  have inslab: "?b + ?rows * ?H \<le> bh_total (slabs m c)" using whole_region_in_slab [OF fit mb] .
  have range: "write_range (?rows * ?H) (mb * slot_batch m) (full c) ?rows (bh_total (slabs m c) div ?H) (bh_total (slabs m c)) m =
      (Inr (?b, ?b + ?rows * ?H, None, None), m)"
    using pos mux inslab by (simp add: write_range_def whole_base_def Let_def)
  define sl where "sl = (slabs m c)\<lparr>k_data := rows_written ?H kvh ?b p sn {..<?rows} (\<lambda>s b. key_at kvs b s) (k_data (slabs m c)),
                          v_data := rows_written ?H kvh ?b p sn {..<?rows} (\<lambda>s b. value_at kvs b s) (v_data (slabs m c))\<rparr>"
  have dev: "\<forall>ps. slab_device (slabs m c) \<noteq> MixedCache ps" using fit by (simp add: whole_fits_def)
  have written: "write_slab_rows ?H kvh (?rows * kvh) sn p (?b, ?b + ?rows * ?H) kvs (slabs m c) = (Inr (), sl)"
    unfolding sl_def using dev fits' inslab kvh(2) H kvh(1) sn(1) by (intro micro_rows_written) simp_all
  define m' where "m' = m\<lparr>slabs := (slabs m)(c := sl)\<rparr>"
  have sh: "same_shape m m'" by (simp add: m'_def same_shape_def sl_def)
  note geo = same_shape_geometry [OF sh]
  have "write_kvs kvs p (mb * slot_batch m) (full c) ?rows None m = (Inr (), m')"
  proof -
    have heads: "source_heads_per_batch (kv_cfg m) ?H (?rows * kvh) (full c) ?rows = kvh"
      using source_heads_of_rows rows kvh pos by blast
    have bh: "(if kvh < ?H then ?rows * ?H else ?rows * kvh) = ?rows * ?H" using kvh by auto
    have "p < seq_total (slabs m c)" using fits' sn(1) by simp
    then show ?thesis
      using act H sn fits' kvh written heads
      by (cases "kvh < ?H") (simp_all add: write_window_def write_kvs_def Let_def bh range m'_def mux)
  qed
  moreover have "whole_inv full kvh m' (L((c, mb) \<mapsto> store_write kvh p kvs (L (c, mb))))"
  proof -
    obtain n' K' V' where new: "store_write kvh p kvs (L (c, mb)) = (n', K', V')"
      by (cases "store_write kvh p kvs (L (c, mb))") auto
    have n': "n' = p + sn" using new sn by (simp add: store_write_def)
    have "case L (c, mb) of None \<Rightarrow> p = 0
          | Some (n, K, V) \<Rightarrow> p \<le> n \<and> (p = 0 \<or> holds kvh ?H ?rows n K (k_data (slabs m c)) ?b \<and>
                holds kvh ?H ?rows n V (v_data (slabs m c)) ?b)"
      using p whole_invD(6,7) [OF inv, of c mb] by (auto simp: stored_def split: option.splits)
    note own = written_holds [OF H kvh(2) _ this new, of sn]
    have base: "whole_base m' z = whole_base m z" for z by (simp add: whole_base_def geo)
    have "n \<le> seq_total (slabs m c') \<and>
        holds kvh ?H (mb_rows m (full c') z) n K (k_data (slabs m' c')) (whole_base m z) \<and>
        holds kvh ?H (mb_rows m (full c') z) n V (v_data (slabs m' c')) (whole_base m z)"
      if L': "(L((c, mb) \<mapsto> store_write kvh p kvs (L (c, mb)))) (c', z) = Some (n, K, V)" for c' z n K V
    proof (cases "(c', z) = (c, mb)")
      case True
      then show ?thesis using L' own fits' sn new n' by (simp add: m'_def sl_def)
    next
      case False
      then have L: "L (c', z) = Some (n, K, V)" using L' by (auto split: if_splits)
      then show ?thesis using whole_invD(5-7) [OF inv L] False rows_written_other_rows [of mb z m kvh] H kvh(2)
        by (cases "c' = c") (auto simp: m'_def sl_def)
    qed
    moreover have "whole_fits (full c') m' c' = whole_fits (full c') m c'" for c' by (simp add: whole_fits_def geo)
    moreover have "offload_queue m' = []" using whole_invD(3) [OF inv] by (simp add: m'_def)
    ultimately show ?thesis using inv unfolding whole_inv_def by (simp add: geo base)
  qed
  ultimately show thesis using that sh by (simp add: m'_def)
qed


lemma whole_select_ok:
  assumes inv: "whole_inv full kvh m L" and act: "active_cache_slot_id m = Some c" and mb: "mb * slot_batch m < full c"
    and p: "0 < p" "p \<le> stored L (c, mb)"
  obtains v x where
    "select_cache p None (mb * slot_batch m) (full c) (mb_rows m (full c) mb) None m = (Inr (Some v, False), m)"
    and "L (c, mb) = Some x" and "view_shows (heads_of m) kvh (mb_rows m (full c) mb) p x v"
proof -
  let ?H = "heads_of m" and ?rows = "mb_rows m (full c) mb" and ?b = "whole_base m mb"
  have kvh: "0 < kvh" "kvh \<le> ?H" and H: "0 < ?H" using whole_invD(1,2) [OF inv] by simp_all
  have pos: "0 < full c" and rows: "0 < ?rows" using mb mb_rows_pos [OF mb] by simp_all
  have fit: "whole_fits (full c) m c" using pos by (rule whole_invD(4) [OF inv])
  obtain n K V where L: "L (c, mb) = Some (n, K, V)" and pn: "p \<le> n"
    using p by (auto simp: stored_def split: option.splits)
  have nS: "n \<le> seq_total (slabs m c)" using whole_invD(5) [OF inv L] .
  have mux: "\<not> gpu_multiplexing (bh_total (slabs m c) div ?H) (full c)"
    using fit by (simp add: gpu_multiplexing_def whole_fits_def capacity_of_def)
  have inslab: "?b + ?rows * ?H \<le> bh_total (slabs m c)" using whole_region_in_slab [OF fit mb] .
  have col: "[?b..<?b + ?rows * ?H] ! (b * ?H + h) = ?b + (b * ?H + h)" if "b < ?rows" "h < kvh" for b h
    using row_head_less [OF that kvh(2)] by simp
  define v where "v = \<lparr>pk_batch = ?rows, pk_heads = ?H, pk_seq = p,
      pk_key = (\<lambda>b h s. k_data (slabs m c) ([0..<p] ! s) ([?b..<?b + ?rows * ?H] ! (b * ?H + h))),
      pk_value = (\<lambda>b h s. v_data (slabs m c) ([0..<p] ! s) ([?b..<?b + ?rows * ?H] ! (b * ?H + h)))\<rparr>"
  have v: "to_pkv ?H (slabs m c) [0..<p] [?b..<?b + ?rows * ?H] = Inr v"
    unfolding v_def using rows H by (rule to_pkv_rows)
  have "view_shows ?H kvh ?rows p (n, K, V) v"
    using whole_invD(6,7) [OF inv L] col pn by (auto simp: view_shows_def v_def holds_def)
  moreover have "select_cache p None (mb * slot_batch m) (full c) ?rows None m = (Inr (Some v, False), m)"
  proof -
    have "read_columns (slabs m c) (?b, ?b + ?rows * ?H) = Inr [?b..<?b + ?rows * ?H]"
      using fit inslab by (cases "slab_device (slabs m c)") (simp_all add: read_columns_def whole_fits_def)
    then show ?thesis using act p pn nS H pos rows mux v inslab
      by (simp add: select_cache_def read_range_def Let_def read_positions_def whole_base_def [symmetric])
  qed
  ultimately show thesis using that L by blast
qed

lemma whole_step_ok:
  assumes inv: "whole_inv full kvh m L" and act: "active_cache_slot_id m = Some (rq_cache r)"
    and req: "request_fits full kvh m L r"
  obtains view m' where "cached_step r m = (Inr view, m')" and "view_expected kvh m L r view"
    and "whole_inv full kvh m' (store_step kvh m r L)" and "same_shape m m'" and "active_stack m' = active_stack m"
proof -
  let ?c = "rq_cache r" and ?mb = "rq_mb m r"
  have mb: "?mb * slot_batch m < full ?c" and off: "rq_offset r = ?mb * slot_batch m"
    and rq: "rq_full r = full ?c" "rq_micro r = mb_rows m (full ?c) ?mb"
    and p: "rq_prefix r \<le> stored L (?c, ?mb)"
    and kvs: "kvs_fit (mb_rows m (full ?c) ?mb) kvh (head_dim (slabs m ?c)) (rq_kvs r)"
    and fits: "rq_prefix r + key_shape (rq_kvs r) ! 2 \<le> seq_total (slabs m ?c)"
    using req by (auto simp: request_fits_def rq_key_def)
  have "\<exists>view. select_cache (rq_prefix r) None (rq_offset r) (rq_full r) (rq_micro r) None m = (Inr (view, False), m) \<and>
      (case view of None \<Rightarrow> 0 | Some v \<Rightarrow> pk_seq v) = rq_prefix r \<and> view_expected kvh m L r view"
  proof (cases "rq_prefix r = 0")
    case True
    then show ?thesis using act by (simp add: select_cache_def view_expected_def)
  next
    case False
    then show ?thesis
      using whole_select_ok [OF inv act mb _ p] unfolding off rq
      by (fastforce simp: view_expected_def rq_key_def rq view_shows_def)
  qed
  then obtain view where sel: "select_cache (rq_prefix r) None (rq_offset r) (rq_full r) (rq_micro r) None m = (Inr (view, False), m)"
    and len: "(case view of None \<Rightarrow> 0 | Some v \<Rightarrow> pk_seq v) = rq_prefix r" and exp: "view_expected kvh m L r view" by blast
  obtain m' where wr: "write_kvs (rq_kvs r) (rq_prefix r) (rq_offset r) (rq_full r) (rq_micro r) None m = (Inr (), m')"
    and inv': "whole_inv full kvh m' (store_step kvh m r L)" and sh: "same_shape m m'"
    and st: "active_stack m' = active_stack m"
    using whole_write_ok [OF inv act mb p kvs fits] by (auto simp: off rq store_step_def rq_key_def)
  have "cached_step r m = (Inr view, m')"
    using sel wr whole_invD(3) [OF inv] whole_invD(3) [OF inv']
    by (simp add: cached_step_def len Let_def idle_progress)
  then show thesis using that exp inv' sh st by blast
qed

lemma whole_push_inv: "whole_inv full kvh m L \<Longrightarrow> whole_inv full kvh (m\<lparr>active_stack := x\<rparr>) L"
  by (simp add: whole_inv_def whole_fits_def capacity_of_def mb_rows_def whole_base_def)

lemma whole_run_ok:
  assumes "whole_inv full kvh m L" and "requests_fit full kvh m rs L"
  shows "\<exists>views m'. run_requests rs m = (Inr views, m') \<and> views_expected kvh m rs L views"
  using assms
proof (induction rs arbitrary: m L)
  case Nil
  then show ?case by simp
next
  case (Cons r rs)
  let ?ma = "m\<lparr>active_stack := rq_cache r # active_stack m\<rparr>"
  have inv: "whole_inv full kvh ?ma L" using Cons.prems(1) by (rule whole_push_inv)
  have sha: "same_shape m ?ma" by (simp add: same_shape_def)
  have act: "active_cache_slot_id ?ma = Some (rq_cache r)" by (simp add: active_cache_slot_id_def)
  have "request_fits full kvh ?ma L r" using Cons.prems(2) request_geometry(2) [OF sha] by simp
  then obtain view m1 where step: "cached_step r ?ma = (Inr view, m1)" and exp: "view_expected kvh ?ma L r view"
    and inv1: "whole_inv full kvh m1 (store_step kvh ?ma r L)" and sh1: "same_shape ?ma m1"
    by (rule whole_step_ok [OF inv act])
  let ?m1 = "m1\<lparr>active_stack := tl (active_stack m1)\<rparr>"
  have sh: "same_shape m ?m1" using same_shape_trans [OF sha sh1] by (simp add: same_shape_def)
  have inv1': "whole_inv full kvh ?m1 (store_step kvh m r L)"
    using whole_push_inv [OF inv1] request_geometry(3) [OF sha] by metis
  have "requests_fit full kvh ?m1 rs (store_step kvh m r L)"
    using Cons.prems(2) run_geometry(1) [OF sh] by simp
  from Cons.IH [OF inv1' this] obtain views m2
    where rest: "run_requests rs ?m1 = (Inr views, m2)" "views_expected kvh ?m1 rs (store_step kvh m r L) views" by blast
  have "view_expected kvh m L r view" using exp view_geometry [OF sha] by simp
  then show ?case using step rest run_geometry(2) [OF sh] by (simp add: use_cache_ctx_def)
qed

section \<open>The working slots are transparent\<close>

definition same_view :: "nat \<Rightarrow> 'a pkv option \<Rightarrow> 'a pkv option \<Rightarrow> bool" where
  "same_view kvh v w \<longleftrightarrow>
     (case (v, w) of
        (None, None) \<Rightarrow> True
      | (Some a, Some b) \<Rightarrow>
          pk_batch a = pk_batch b \<and> pk_heads a = pk_heads b \<and> pk_seq a = pk_seq b \<and>
          (\<forall>i<pk_batch a. \<forall>h<kvh. \<forall>s<pk_seq a. pk_key a i h s = pk_key b i h s \<and> pk_value a i h s = pk_value b i h s)
      | _ \<Rightarrow> False)"

lemma expected_views_agree:
  assumes "views_expected kvh m rs L vs" and "views_expected kvh m rs L ws"
  shows "list_all2 (same_view kvh) vs ws"
  using assms
proof (induction rs arbitrary: L vs ws)
  case Nil
  then show ?case by (cases vs; cases ws) simp_all
next
  case (Cons r rs)
  obtain v vs' w ws' where vw: "vs = v # vs'" "ws = w # ws'" using Cons.prems by (cases vs; cases ws) simp_all
  have "same_view kvh v w"
    using Cons.prems unfolding vw
    by (auto simp: view_expected_def same_view_def view_shows_def split: if_splits option.splits)
  then show ?case using Cons vw by auto
qed


text \<open>
  C15 Sharing working slots is not observable. Running the micro-batches of a batch through the
  working slots of slabs that are too small for it, with the staging copies made in the background,
  lets every step read the same keys and values as running the same requests on slabs that hold
  the whole batch, where nothing is ever offloaded.
\<close>

theorem multiplexing_is_transparent:
  assumes "idle_manager m" and "0 < kvh" and "kvh \<le> heads_of m"
    and "\<And>c. 0 < full c \<Longrightarrow> slots_fit (full c) m c"
    and "same_model m w" and "offload_queue w = []" and "\<And>c. 0 < full c \<Longrightarrow> whole_fits (full c) w c"
    and "requests_fit full kvh m rs Map.empty"
  shows "\<exists>vs ws m' w'. run_requests rs m = (Inr vs, m') \<and> run_requests rs w = (Inr ws, w') \<and>
           list_all2 (same_view kvh) vs ws"
proof -
  obtain vs m' where small: "run_requests rs m = (Inr vs, m')" "views_expected kvh m rs Map.empty vs"
    using run_requests_ok [OF idle_inv [OF assms(1-4)] assms(8)] by blast
  have "whole_inv full kvh w Map.empty"
    using assms by (simp add: whole_inv_def same_model_def)
  moreover have "requests_fit full kvh w rs Map.empty" using assms(8) run_model(1) [OF assms(5)] by simp
  ultimately obtain ws w' where big: "run_requests rs w = (Inr ws, w')" "views_expected kvh w rs Map.empty ws"
    using whole_run_ok by blast
  have "views_expected kvh m rs Map.empty ws" using big(2) run_model(2) [OF assms(5)] by simp
  then show ?thesis using small big(1) expected_views_agree by blast
qed

definition example_whole :: "nat kv_manager" where
  "example_whole = example_manager\<lparr>slabs := (\<lambda>_. (slabs example_manager 0)\<lparr>bh_total := 4\<rparr>)\<rparr>"

theorem multiplexing_is_transparent_witness:
  "\<exists>vs ws m' w'.
     run_requests [example_request 0 0 10, example_request 1 0 20, example_request 0 1 11] example_manager = (Inr vs, m') \<and>
     run_requests [example_request 0 0 10, example_request 1 0 20, example_request 0 1 11] example_whole = (Inr ws, w') \<and>
     list_all2 (same_view 1) vs ws"
  by (rule multiplexing_is_transparent [where full = "\<lambda>_. 2"])
     (simp_all add: example_simps example_whole_def idle_manager_def slots_fit_def whole_fits_def same_model_def
        capacity_of_def working_slot_count_def)

end
