(* ===== verification/KVSlab_Props.thy ===== *)
theory KVSlab_Props
  imports KVMultiplex_Props
begin

text \<open>
  Properties of single slab operations: tensors split over devices behave as one slab, and the
  boundary cases of the slot geometry and of writes past the end of a slab.
\<close>

section \<open>Mixed-device tensors\<close>

lemma upt_clipped_append:
  assumes "p \<le> (q::nat)" and "q \<le> l"
  shows "[max b0 p..<min b1 q] @ [max b0 q..<min b1 l] = [max b0 p..<min b1 l]"
proof -
  consider "q < b0" | "b1 < q" "b0 \<le> q" | "b0 \<le> q" "q \<le> b1" by linarith
  then show ?thesis
  proof cases
    case 3
    then have "max b0 p \<le> q" "q \<le> min b1 l" "min b1 q = q" "max b0 q = q" using assms by auto
    then show ?thesis using upt_add_eq_append [of "max b0 p" q "min b1 l - q"] by simp
  qed (use assms in auto)
qed

lemma segment_columns:
  assumes "sorted ps" and "ps \<noteq> []"
  shows "concat (map (\<lambda>(a, e). [a..<e]) (segment_overlaps ps b0 b1)) = [max b0 (hd ps)..<min b1 (last ps)]"
  using assms
proof (induction ps b0 b1 rule: segment_overlaps.induct)
  case (1 p q ps b0 b1)
  have "p \<le> q" "q \<le> last (q # ps)" using "1.prems" by (auto simp: sorted_wrt_append last_ConsR)
  note app = upt_clipped_append [OF this, of b0 b1]
  show ?case using "1.IH" "1.prems" app by (cases "max b0 p < min b1 q") auto
qed auto

lemma segment_step:
  assumes "p \<le> (q::nat)" and "q \<le> l" and "max b0 p < min b1 q"
  shows "(if A \<and> max b0 q \<le> x \<and> x < min b1 l then f (off + (min b1 q - max b0 p) + (x - max b0 q))
          else if A \<and> max b0 p \<le> x \<and> x < min b1 q then f (off + (x - max b0 p)) else d) =
         (if A \<and> max b0 p \<le> x \<and> x < min b1 l then f (off + (x - max b0 p)) else d)"
proof (cases "x < q")
  case True
  then have "\<not> max b0 q \<le> x" "x < min b1 q \<longleftrightarrow> x < min b1 l" using assms by auto
  then show ?thesis by (simp only: simp_thms if_False)
next
  case False
  have "off + (min b1 q - max b0 p) + (x - max b0 q) = off + (x - max b0 p)" if "max b0 q \<le> x" "x < min b1 l"
    using that assms by (auto simp: min_def max_def split: if_splits)
  moreover have "max b0 q \<le> x \<longleftrightarrow> max b0 p \<le> x" "\<not> x < min b1 q" using False assms by auto
  ultimately show ?thesis by auto
qed

lemma segment_skip:
  assumes "p \<le> (q::nat)" and "q \<le> l" and "\<not> max b0 p < min b1 q"
  shows "min b1 l - max b0 q = min b1 l - max b0 p"
    and "max b0 q \<le> x \<and> x < min b1 l \<longleftrightarrow> max b0 p \<le> x \<and> x < min b1 l"
    and "max b0 p \<le> x \<and> x < min b1 l \<Longrightarrow> x - max b0 q = x - max b0 p"
  using assms by (auto simp: min_def max_def split: if_splits)

lemma segment_skip_step:
  assumes "p \<le> (q::nat)" and "q \<le> l" and "\<not> max b0 p < min b1 q"
  shows "(if A \<and> max b0 q \<le> x \<and> x < min b1 l then f (off + (x - max b0 q)) else d) =
         (if A \<and> max b0 p \<le> x \<and> x < min b1 l then f (off + (x - max b0 p)) else d)"
proof -
  note skip = segment_skip(2,3) [OF assms, of x]
  show ?thesis
  proof (cases "max b0 p \<le> x \<and> x < min b1 l")
    case True
    then have "max b0 q \<le> x \<and> x < min b1 l" "x - max b0 q = x - max b0 p" using skip by blast+
    then show ?thesis using True by presburger
  next
    case False
    then have "\<not> (max b0 q \<le> x \<and> x < min b1 l)" using skip(1) by blast
    then show ?thesis using False by presburger
  qed
qed

lemma write_segments_exact:
  assumes "sorted ps" and "ps \<noteq> []" and "s0 \<le> s1" and "s1 \<le> S" and "last ps \<le> BH"
    and "off + (min b1 (last ps) - max b0 (hd ps)) \<le> sb"
  shows "write_segments S BH dst (s0, s1) (segment_overlaps ps b0 b1) off (s1 - s0) sb src =
    (Inr (), \<lambda>s x. if (s0 \<le> s \<and> s < s1) \<and> max b0 (hd ps) \<le> x \<and> x < min b1 (last ps)
                   then src (s - s0) (off + (x - max b0 (hd ps))) else dst s x)"
  using assms
proof (induction ps b0 b1 arbitrary: dst off rule: segment_overlaps.induct)
  case (1 p q ps b0 b1)
  let ?l = "last (q # ps)" and ?a = "max b0 p" and ?e = "min b1 q"
  have pq: "p \<le> q" "q \<le> ?l" using "1.prems" by (auto simp: last_ConsR)
  have l: "last (p # q # ps) = ?l" by simp
  have tail: "sorted (q # ps)" "?l \<le> BH" using "1.prems" by simp_all
  show ?case
  proof (cases "?a < ?e")
    case True
    define dst' where "dst' = (\<lambda>s b. if (s0 \<le> s \<and> s < s1) \<and> ?a \<le> b \<and> b < ?e then src (s - s0) (off + (b - ?a)) else dst s b)"
    have e: "?e \<le> BH" using tail pq by auto
    have rest: "off + (?e - ?a) + (min b1 ?l - max b0 q) \<le> sb" and off: "off + (?e - ?a) \<le> sb"
      using "1.prems"(6) True pq unfolding l by (simp_all add: min_def max_def split: if_splits)
    have cp: "copy_block S BH dst (s0, s1) (?a, ?e) (s1 - s0) (min (off + (?e - ?a)) sb - off) (\<lambda>s b. src s (off + b)) = Inr dst'"
      using copy_block_exact [of s1 S ?e BH s0 ?a dst "\<lambda>s b. src s (off + b)"] "1.prems"(3,4) e True off
      by (simp add: dst'_def)
    have "write_segments S BH dst' (s0, s1) (segment_overlaps (q # ps) b0 b1) (off + (?e - ?a)) (s1 - s0) sb src =
        (Inr (), \<lambda>s x. if (s0 \<le> s \<and> s < s1) \<and> max b0 q \<le> x \<and> x < min b1 ?l
                   then src (s - s0) (off + (?e - ?a) + (x - max b0 q)) else dst' s x)"
      using tail "1.prems"(3,4) rest by (intro "1.IH" [unfolded list.sel]) auto
    also have "\<dots> = (Inr (), \<lambda>s x. if (s0 \<le> s \<and> s < s1) \<and> ?a \<le> x \<and> x < min b1 ?l
                   then src (s - s0) (off + (x - ?a)) else dst s x)"
      unfolding dst'_def segment_step [OF pq True] ..
    finally show ?thesis unfolding list.sel l using True cp by simp
  next
    case False
    have skip: "min b1 ?l - max b0 q = min b1 ?l - ?a" using pq False by (rule segment_skip)
    have "write_segments S BH dst (s0, s1) (segment_overlaps (q # ps) b0 b1) off (s1 - s0) sb src =
        (Inr (), \<lambda>s x. if (s0 \<le> s \<and> s < s1) \<and> max b0 q \<le> x \<and> x < min b1 ?l
                   then src (s - s0) (off + (x - max b0 q)) else dst s x)"
      using tail "1.prems"(3,4,6) skip by (intro "1.IH" [unfolded list.sel]) auto
    also have "\<dots> = (Inr (), \<lambda>s x. if (s0 \<le> s \<and> s < s1) \<and> ?a \<le> x \<and> x < min b1 ?l
                   then src (s - s0) (off + (x - ?a)) else dst s x)"
      unfolding segment_skip_step [OF pq False] ..
    finally show ?thesis
      by (simp only: list.sel l segment_overlaps.simps(1) [of p q ps b0 b1] False if_False append_Nil)
  qed
qed (auto simp: fun_eq_iff)

text \<open>The cut points of a slab that is split over the devices.\<close>

definition splits_slab :: "nat list \<Rightarrow> nat \<Rightarrow> bool" where
  "splits_slab ps BH \<longleftrightarrow> sorted ps \<and> ps \<noteq> [] \<and> hd ps = 0 \<and> last ps = BH"


definition example_split :: "nat slab" where
  "example_split = \<lparr>seq_total = 2, bh_total = 4, head_dim = 1, slab_device = MixedCache [0, 1, 1, 4],
     k_data = (\<lambda>_ _. 0), v_data = (\<lambda>_ _. 0)\<rparr>"


section \<open>Writes past the end of a slab\<close>

lemma whole_slab_write:
  assumes act: "active_cache_slot_id m = Some c" and H: "0 < heads_of m" "num_key_value_heads (kv_cfg m) = Some (heads_of m)"
    and sh: "key_shape kvs = [B * heads_of m, head_dim (slabs m c), sn]" "value_shape kvs = [B * heads_of m, sn, head_dim (slabs m c)]"
    and bh: "bh_total (slabs m c) = B * heads_of m" and out: "seq_total (slabs m c) < start + sn"
  shows "write_kvs kvs start 0 0 0 None m =
    (case write_planes (0, seq_total (slabs m c)) (0, B * heads_of m) (min sn (seq_total (slabs m c))) (B * heads_of m)
            (0, B * heads_of m) (\<lambda>s b. key_at kvs b (s + (sn - seq_total (slabs m c))))
            (\<lambda>s b. value_at kvs b (s + (sn - seq_total (slabs m c)))) (slabs m c) of
       (r, sl) \<Rightarrow> (r, m\<lparr>slabs := (slabs m)(c := sl)\<rparr>))"
proof -
  have "source_heads_per_batch (kv_cfg m) (heads_of m) (B * heads_of m) 0 0 = heads_of m"
    using H by (simp add: source_heads_per_batch_def Let_def)
  then show ?thesis using act H sh bh out
    by (simp add: write_kvs_def write_range_def write_slab_rows_def write_window_def gpu_multiplexing_def Let_def
        split: prod.split sum.split)
qed

text \<open>
  C27 A write that reaches past the end of the slab is never a write of its tail. With at least as many
  new positions as the slab has, the last of them replace the whole slab, as the comment in the
  source says; with fewer, but more than one, the copy has the wrong shape and raises; and a single
  token, the ordinary decoding step, is broadcast over every position, so the whole history of the
  cache is replaced by copies of the new token.
\<close>

theorem overflowing_write_destroys_cache:
  assumes act: "active_cache_slot_id m = Some c" and H: "0 < heads_of m" "num_key_value_heads (kv_cfg m) = Some (heads_of m)"
    and dev: "slab_device (slabs m c) = CudaCache"
    and sh: "key_shape kvs = [B * heads_of m, head_dim (slabs m c), sn]" "value_shape kvs = [B * heads_of m, sn, head_dim (slabs m c)]"
    and bh: "bh_total (slabs m c) = B * heads_of m" and out: "seq_total (slabs m c) < start + sn"
    and S: "1 < seq_total (slabs m c)" and sn: "0 < sn"
  shows "if sn = 1 \<or> seq_total (slabs m c) \<le> sn
         then \<exists>m'. write_kvs kvs start 0 0 0 None m = (Inr (), m') \<and>
           (\<forall>s < seq_total (slabs m c). \<forall>x < B * heads_of m.
              k_data (slabs m' c) s x = key_at kvs x (if sn = 1 then 0 else s + (sn - seq_total (slabs m c))) \<and>
              v_data (slabs m' c) s x = value_at kvs x (if sn = 1 then 0 else s + (sn - seq_total (slabs m c))))
         else write_kvs kvs start 0 0 0 None m = (Inl RuntimeError, m)"
proof -
  note eq = whole_slab_write [OF act H sh bh out]
  have min: "min sn (seq_total (slabs m c)) = 1 \<longleftrightarrow> sn = 1" using S by auto
  show ?thesis unfolding eq
    using dev S sn bh min
    by (auto simp: write_planes_def write_to_cache_def copy_block_def Let_def min_def)
qed

theorem overflowing_write_destroys_cache_witness:
  "\<exists>m'. write_kvs \<lparr>key_shape = [2, 1, 1], value_shape = [2, 1, 1], key_at = (\<lambda>b _. 5), value_at = (\<lambda>b _. 6)\<rparr> 4 0 0 0 None
      (example_manager\<lparr>active_stack := [7], kv_cfg := \<lparr>num_attention_heads = 2, num_key_value_heads = Some 2, num_key_value_groups = None\<rparr>\<rparr>) = (Inr (), m') \<and>
     (\<forall>s<4. \<forall>x<2. k_data (slabs m' 7) s x = 5 \<and> v_data (slabs m' 7) s x = 6)"
  using overflowing_write_destroys_cache
    [of "example_manager\<lparr>active_stack := [7], kv_cfg := \<lparr>num_attention_heads = 2, num_key_value_heads = Some 2, num_key_value_groups = None\<rparr>\<rparr>"
      7 "\<lparr>key_shape = [2, 1, 1], value_shape = [2, 1, 1], key_at = (\<lambda>b _. 5), value_at = (\<lambda>b _. 6)\<rparr>" 1 1 4]
  by (simp add: example_manager_def active_cache_slot_id_def)

section \<open>Micro-batch indices outside the policy\<close>





section \<open>Operations keep the shapes of the slabs\<close>

lemma slab_update_shape:
  assumes "same_shape m m'" and "seq_total sl = seq_total (slabs m' c)" "bh_total sl = bh_total (slabs m' c)"
    "head_dim sl = head_dim (slabs m' c)" "slab_device sl = slab_device (slabs m' c)"
  shows "same_shape m (m'\<lparr>slabs := (slabs m')(c := sl)\<rparr>)"
  using assms by (auto simp: same_shape_def)

lemma slab_restore_shape:
  "slab_restore st p hds sl = Inr sl' \<Longrightarrow>
     seq_total sl' = seq_total sl \<and> bh_total sl' = bh_total sl \<and> head_dim sl' = head_dim sl \<and> slab_device sl' = slab_device sl"
  by (auto simp: slab_restore_def Let_def split: sum.splits)

lemma wait_offload_shape: "same_shape m (wait_offload t m)"
  by (simp add: same_shape_def kvm_simps)

lemma exec_prefetch_shape: "same_shape m (exec_prefetch e m)"
proof -
  define w where "w = (case pf_wait e of None \<Rightarrow> m | Some t \<Rightarrow> wait_offload t m)"
  have w: "same_shape m w" by (simp add: w_def wait_offload_shape split: option.split)
  then show ?thesis
    by (auto simp: exec_prefetch_def w_def [symmetric] Let_def dest: slab_restore_shape
        intro!: slab_update_shape [OF w] split: option.split sum.split)
qed

lemma prefetch_progress_shape: "same_shape m (prefetch_progress m)"
  using exec_prefetch_shape by (auto simp: prefetch_progress_def same_shape_def split: list.split)

lemma wait_prefetch_shape: "same_shape m (wait_prefetch t m)"
proof -
  have "same_shape m ((prefetch_progress ^^ n) m)" for n
    by (induction n) (auto intro: same_shape_trans prefetch_progress_shape)
  then show ?thesis by (simp add: wait_prefetch_def)
qed

lemma sync_prefetch_shape: "same_shape m (sync_prefetch mb m)"
proof -
  have base: "same_shape m (case mb_prefetch_events m k of None \<Rightarrow> m | Some t \<Rightarrow>
      wait_prefetch t (m\<lparr>mb_prefetch_events := (mb_prefetch_events m)(k := None)\<rparr>))" for k
  proof -
    have "same_shape m (m\<lparr>mb_prefetch_events := (mb_prefetch_events m)(k := None)\<rparr>)" by (simp add: same_shape_def)
    then show ?thesis by (auto intro: same_shape_trans [OF _ wait_prefetch_shape] split: option.split)
  qed
  show ?thesis
  proof (cases "async_kv_transfer m")
    case True
    then show ?thesis
      using base by (cases "staging_key mb m") (auto simp: sync_prefetch_def Let_def same_shape_def split: option.split)
  qed (simp add: sync_prefetch_def)
qed

lemma sync_offload_shape: "same_shape m (sync_offload mb m)"
  by (auto simp: sync_offload_def same_shape_def kvm_simps split: option.split)

lemma launch_offload_shape: "same_shape m (launch_offload k sk prefix hds m)"
  by (auto simp: launch_offload_def Let_def same_shape_def split: sum.split)

lemma offload_microbatch_shape: "same_shape m (offload_microbatch_kv mb prefix slot rows m)"
  by (auto simp: offload_microbatch_kv_def Let_def launch_offload_shape split: option.split prod.split)

lemma launch_prefetch_shape: "same_shape m (launch_prefetch k sk st hds m)"
proof (cases "slab_restore st (st_prefix st) hds (slabs m (fst k))")
  case (Inr sl)
  then show ?thesis using slab_update_shape [OF same_shape_refl, of sl m "fst k"] slab_restore_shape [OF Inr]
    by (auto simp: launch_prefetch_def same_shape_def)
qed (simp add: launch_prefetch_def)

lemma prefetch_microbatch_shape: "same_shape m (prefetch_microbatch_kv mb m)"
  by (auto simp: prefetch_microbatch_kv_def Let_def
      intro!: same_shape_trans [OF _ launch_prefetch_shape] same_shape_trans [OF _ sync_offload_shape] sync_prefetch_shape
      split: option.split prod.split)

lemma make_resident_shape: "same_shape m (make_resident mb key m)"
  by (auto simp: make_resident_def Let_def
      intro!: same_shape_trans [OF _ sync_prefetch_shape] same_shape_trans [OF _ prefetch_microbatch_shape] sync_offload_shape
      split: option.split)

lemma claim_slot_shape: "same_shape m (claim_slot mb key m)"
  by (auto simp: claim_slot_def Let_def intro!: same_shape_trans [OF _ sync_offload_shape] sync_prefetch_shape
      split: option.split)


definition same_dims :: "'a slab \<Rightarrow> 'a slab \<Rightarrow> bool" where
  "same_dims sl sl' \<longleftrightarrow> seq_total sl' = seq_total sl \<and> bh_total sl' = bh_total sl \<and> head_dim sl' = head_dim sl \<and>
     slab_device sl' = slab_device sl"

lemma write_planes_dims: "same_dims sl (snd (write_planes srange brange ss sb sr ksrc vsrc sl))"
  by (auto simp: write_planes_def same_dims_def split: prod.split sum.split)

lemma write_batches_dims: "same_dims sl (snd (write_batches H kvh b0 srange is ss sb ksrc vsrc sl))"
proof (induction "is" arbitrary: sl)
  case Nil
  then show ?case by (simp add: same_dims_def)
next
  case (Cons i "is")
  define w where "w = write_planes srange (b0 + i * H, b0 + i * H + kvh) ss sb (i * kvh, i * kvh + kvh) ksrc vsrc sl"
  obtain r sl' where w': "w = (r, sl')" by (cases w)
  have "same_dims sl sl'" using write_planes_dims [of sl] w' unfolding w_def by (metis snd_conv)
  then show ?case using Cons.IH [of sl'] w' by (cases r) (auto simp: w_def [symmetric] same_dims_def)
qed

lemma write_range_shape: "write_range n off full mb cap bh m = (r, m') \<Longrightarrow> same_shape m m'"
  by (auto simp: write_range_def Let_def claim_slot_shape split: if_splits prod.splits)

lemma read_range_shape: "same_shape m (snd (snd (read_range off full mb cap bh m)))"
  by (auto simp: read_range_def Let_def make_resident_shape split: prod.split)

lemma select_cache_shape: "same_shape m (snd (select_cache p ids off full mb ct m))"
  unfolding select_cache_def Let_def
  by (simp add: case_prod_beta read_range_shape split: option.split sum.split)

lemma write_slab_rows_dims: "same_dims sl (snd (write_slab_rows H kvh bh sn start brange kvs sl))"
  by (auto simp: write_slab_rows_def Let_def write_planes_dims write_batches_dims split: prod.split)

lemma write_kvs_shape: "same_shape m (snd (write_kvs kvs start off full mb ct m))"
proof -
  have upd: "same_shape m (m1\<lparr>slabs := (slabs m1)(c := snd (write_slab_rows H kvh bh sn start br kvs (slabs m1 c)))\<rparr>)"
    if "write_range n off full mb cap bh' m = (r, m1)" for n cap bh' r m1 c H kvh bh sn br
    using write_range_shape [OF that] write_slab_rows_dims [of "slabs m1 c" H kvh bh sn start br kvs]
    by (intro slab_update_shape) (auto simp: same_dims_def)
  show ?thesis unfolding write_kvs_def Let_def
    by (simp add: case_prod_beta write_range_shape [OF prod.collapse [symmetric]] split: option.split list.split sum.split)
       (auto intro!: upd [OF prod.collapse [symmetric]] same_shape_trans [OF _ offload_microbatch_shape])
qed


end
