(* ===== verification/LiveRows.thy ===== *)
theory LiveRows
  imports KVMultiplex_Ref
begin

text \<open>
  The row bookkeeping of the inference backend (\<open>server/backend.py\<close>) when the rows of one batch are
  different requests at different positions: the active mask and the positions sent with a step, the
  runs of rows written together, the attention mask and the position ids of a decoding step, the
  chunks of a prefill and the causal mask. The module itself is a parameter.
\<close>

section \<open>What a step carries\<close>

definition active_mask_list :: "bool list option \<Rightarrow> nat \<Rightarrow> bool list option" where
  "active_mask_list v expected =
     (case v of
        None \<Rightarrow> None
      | Some bits \<Rightarrow> if expected = 0 \<or> length bits \<noteq> expected then None else Some bits)"

fun parse_positions :: "int list \<Rightarrow> nat list option" where
  "parse_positions [] = Some []"
| "parse_positions (p # ps) =
     (if p < 0 then None else map_option (\<lambda>qs. nat p # qs) (parse_positions ps))"

definition row_position_list :: "int list option \<Rightarrow> nat \<Rightarrow> nat list option" where
  "row_position_list v expected =
     (case v of
        None \<Rightarrow> None
      | Some raw \<Rightarrow> if expected = 0 \<or> length raw \<noteq> expected then None else parse_positions raw)"

text \<open>Maximal runs of neighbouring active rows that write at the same position.\<close>

fun row_runs_loop :: "nat \<Rightarrow> (nat \<times> nat) option \<Rightarrow> (bool \<times> nat) list \<Rightarrow> (nat \<times> nat \<times> nat) list" where
  "row_runs_loop i cur [] = (case cur of None \<Rightarrow> [] | Some (start, p) \<Rightarrow> [(start, i, p)])"
| "row_runs_loop i cur ((active, pos) # rows) =
     (case cur of
        None \<Rightarrow> row_runs_loop (Suc i) (if active then Some (i, pos) else None) rows
      | Some (start, p) \<Rightarrow>
          if active then
            if pos \<noteq> p then (start, i, p) # row_runs_loop (Suc i) (Some (i, pos)) rows
            else row_runs_loop (Suc i) cur rows
          else (start, i, p) # row_runs_loop (Suc i) None rows)"

definition active_position_row_runs :: "bool list \<Rightarrow> nat list \<Rightarrow> (nat \<times> nat \<times> nat) list" where
  "active_position_row_runs active row_positions = row_runs_loop 0 None (zip active row_positions)"

definition slice_kv_rows :: "'a new_kvs \<Rightarrow> nat \<Rightarrow> nat \<Rightarrow> nat \<Rightarrow> 'a new_kvs" where
  "slice_kv_rows kvs row_start row_end heads_per_row =
     (let a = row_start * heads_per_row; e = row_end * heads_per_row in
      kvs\<lparr>key_shape := (key_shape kvs)[0 := min e (key_shape kvs ! 0) - a],
          value_shape := (value_shape kvs)[0 := min e (value_shape kvs ! 0) - a],
          key_at := (\<lambda>b. key_at kvs (a + b)), value_at := (\<lambda>b. value_at kvs (a + b))\<rparr>)"

section \<open>Writing the new keys and values\<close>

record step_info =
  si_offset :: nat
  si_full :: nat
  si_micro :: nat
  si_prefix :: nat
  si_mask :: "bool list option"
  si_positions :: "int list option"

fun update_runs ::
  "'a new_kvs \<Rightarrow> nat \<Rightarrow> nat \<Rightarrow> nat \<Rightarrow> (nat \<times> nat \<times> nat) list \<Rightarrow> 'a kv_manager \<Rightarrow> ('a kv_manager, unit) outcome" where
  "update_runs kvs heads_per_row offset full [] m = (Inr (), m)"
| "update_runs kvs heads_per_row offset full ((a, e, p) # runs) m =
     (case write_kvs (slice_kv_rows kvs a e heads_per_row) p (offset + a) full (e - a) None m of
        (Inl err, m1) \<Rightarrow> (Inl err, m1)
      | (Inr _, m1) \<Rightarrow> update_runs kvs heads_per_row offset full runs m1)"

text \<open>The branch of \<open>_finalize_cache_update\<close> without speculation.\<close>

definition finalize_cache_update ::
  "'a new_kvs \<Rightarrow> nat \<Rightarrow> step_info \<Rightarrow> 'a kv_manager \<Rightarrow> ('a kv_manager, unit) outcome" where
  "finalize_cache_update kvs cache_len info m =
     (let expected = (if si_micro info \<noteq> 0 then si_micro info else si_full info);
          active_mask = active_mask_list (si_mask info) expected;
          row_positions = (case active_mask of None \<Rightarrow> None | Some _ \<Rightarrow> row_position_list (si_positions info) expected);
          bh = (case key_shape kvs of [] \<Rightarrow> 0 | n # _ \<Rightarrow> n)
      in case active_mask of
           Some active \<Rightarrow>
             if bh > 0 \<and> expected > 0 \<and> bh mod expected = 0 then
               update_runs kvs (bh div expected) (si_offset info)
                 (if si_full info \<noteq> 0 then si_full info else expected)
                 (active_position_row_runs active
                    (case row_positions of Some ps \<Rightarrow> ps | None \<Rightarrow> replicate expected cache_len)) m
             else write_kvs kvs cache_len (si_offset info) (si_full info) (si_micro info) None m
         | None \<Rightarrow> write_kvs kvs cache_len (si_offset info) (si_full info) (si_micro info) None m)"

section \<open>Masks and positions of a step\<close>

definition live_decode_attention_mask :: "nat \<Rightarrow> nat list \<Rightarrow> bool list list" where
  "live_decode_attention_mask cache_len row_positions =
     map (\<lambda>p. map (\<lambda>s. s < min p cache_len \<or> s = cache_len) [0..<Suc cache_len]) row_positions"

definition live_decode_position_ids :: "nat list \<Rightarrow> nat \<Rightarrow> nat \<Rightarrow> nat list list" where
  "live_decode_position_ids row_positions chunk_length offset =
     map (\<lambda>p. map (\<lambda>i. p + i) [offset..<offset + chunk_length]) row_positions"

definition create_causal_attention_mask :: "nat \<Rightarrow> nat \<Rightarrow> nat \<Rightarrow> bool list list list option" where
  "create_causal_attention_mask B src_len past =
     (if src_len \<le> past then None
      else if past = 0 then Some (replicate B (map (\<lambda>i. map (\<lambda>j. j \<le> i) [0..<src_len]) [0..<src_len]))
      else Some (replicate B (map (\<lambda>i. map (\<lambda>j. j \<le> i + past) [0..<src_len]) [0..<src_len - past])))"

definition estimate_max_chunk_length :: "nat \<Rightarrow> nat \<Rightarrow> nat \<Rightarrow> nat \<Rightarrow> nat \<Rightarrow> nat \<Rightarrow> nat" where
  "estimate_max_chunk_length max_chunk_bytes heads dtype_bytes batch prefix_length seq_length =
     max 1 (max_chunk_bytes div (heads * batch * dtype_bytes * (prefix_length + seq_length)))"

text \<open>
  The chunk loop: every chunk runs with the cache read before the loop, and only the keys and values
  of the last chunk are left for the write after it. The result is \<open>None\<close> when the module gave none,
  and the step returns its input.
\<close>

function chunk_loop ::
  "(nat \<Rightarrow> 'h list \<Rightarrow> ('h list \<times> 'k) option) \<Rightarrow> 'h list \<Rightarrow> nat \<Rightarrow> nat \<Rightarrow> 'h list \<times> 'k option \<Rightarrow>
   ('h list \<times> 'k option) option" where
  "chunk_loop run hs len off acc =
     (if len = 0 \<or> length hs \<le> off then Some acc
      else (case run off (take len (drop off hs)) of
              None \<Rightarrow> None
            | Some (out, k) \<Rightarrow> chunk_loop run hs len (off + len) (fst acc @ out, Some k)))"
  by pat_completeness auto

termination by (relation "measure (\<lambda>(_, hs, len, off, _). length hs - off)") auto

declare chunk_loop.simps [simp del]

section \<open>One step of a block\<close>

text \<open>
  The path of \<open>inference_step\<close> of a block with attention and no speculation. \<open>fwd\<close> is the module: it is
  given the view of the cache, the visible positions, the position ids and the hidden states of a
  chunk. Hidden states are a list over the positions of the step.
\<close>

type_synonym ('a, 'h) block_forward =
  "'a pkv option \<Rightarrow> bool list list list option \<Rightarrow> nat list list \<Rightarrow> 'h list \<Rightarrow> ('h list \<times> 'a new_kvs) option"

definition live_row_positions :: "step_info \<Rightarrow> nat \<Rightarrow> nat \<Rightarrow> nat list option" where
  "live_row_positions info batch_size seq_len =
     (if seq_len \<noteq> 1 then None
      else let expected = (if si_micro info \<noteq> 0 then si_micro info else batch_size) in
        case active_mask_list (si_mask info) expected of
          None \<Rightarrow> None
        | Some _ \<Rightarrow>
            (case row_position_list (si_positions info) expected of
               None \<Rightarrow> None
             | Some ps \<Rightarrow> if length ps = batch_size then Some ps else None))"

definition step_attention_mask :: "nat \<Rightarrow> nat \<Rightarrow> nat \<Rightarrow> nat list option \<Rightarrow> bool list list list option" where
  "step_attention_mask batch_size seq_len cache_len live =
     (if seq_len = 1 then
        (case live of
           Some ps \<Rightarrow> Some (map (\<lambda>row. [row]) (live_decode_attention_mask cache_len ps))
         | None \<Rightarrow> Some (replicate batch_size [replicate (cache_len + 1) True]))
      else create_causal_attention_mask batch_size (seq_len + cache_len) cache_len)"

definition step_position_ids :: "nat \<Rightarrow> nat \<Rightarrow> nat list option \<Rightarrow> nat \<Rightarrow> nat \<Rightarrow> nat list list" where
  "step_position_ids batch_size cache_len live chunk_length offset =
     (case live of
        Some ps \<Rightarrow> live_decode_position_ids ps chunk_length offset
      | None \<Rightarrow> replicate batch_size [cache_len + offset..<cache_len + offset + chunk_length])"

definition step_body ::
  "('a, 'h) block_forward \<Rightarrow> nat \<Rightarrow> nat \<Rightarrow> step_info \<Rightarrow> 'h list \<Rightarrow> 'a kv_manager \<Rightarrow> ('a kv_manager, 'h list) outcome" where
  "step_body fwd max_chunk batch_size info hs m =
     (let seq_len = length hs; live = live_row_positions info batch_size seq_len in
      case select_cache (case live of Some ps \<Rightarrow> Max (set ps) | None \<Rightarrow> si_prefix info) None
             (si_offset info) (si_full info) (si_micro info) None m of
        (Inl e, m1) \<Rightarrow> (Inl e, m1)
      | (Inr (view, _), m1) \<Rightarrow>
          let cache_len = (case view of None \<Rightarrow> 0 | Some v \<Rightarrow> pk_seq v);
              attention_mask = step_attention_mask batch_size seq_len cache_len live
          in case chunk_loop (\<lambda>off chunk. fwd view attention_mask
                      (step_position_ids batch_size cache_len live (min max_chunk (seq_len - off)) off) chunk)
                    hs max_chunk 0 ([], None) of
               None \<Rightarrow> (Inr hs, m1)
             | Some (_, None) \<Rightarrow> (Inl UnboundLocalError, m1)
             | Some (out, Some kvs) \<Rightarrow>
                 (case finalize_cache_update kvs cache_len info m1 of
                    (Inl e, m2) \<Rightarrow> (Inl e, m2)
                  | (Inr _, m2) \<Rightarrow> (Inr out, m2)))"

record block_limits =
  max_chunk_size_bytes :: nat
  max_shard_num_heads :: nat
  dtype_bytes :: nat

definition inference_step ::
  "('a, 'h) block_forward \<Rightarrow> block_limits \<Rightarrow> nat \<Rightarrow> nat \<Rightarrow> step_info \<Rightarrow> 'h list \<Rightarrow> 'a kv_manager \<Rightarrow>
   ('a kv_manager, 'h list) outcome" where
  "inference_step fwd lims c batch_size info hs =
     use_cache_ctx c (\<lambda>m.
       if max_shard_num_heads lims * batch_size * dtype_bytes lims * (si_prefix info + length hs) = 0
       then (Inl ZeroDivisionError, m)
       else step_body fwd
              (estimate_max_chunk_length (max_chunk_size_bytes lims) (max_shard_num_heads lims) (dtype_bytes lims)
                 batch_size (si_prefix info) (length hs))
              batch_size info hs m)"

section \<open>All blocks of a server\<close>

text \<open>\<open>_MergedInferenceStep.__call__\<close>: the prompt of a block is added to the first positions.\<close>

definition add_prompt :: "'h::plus list option \<Rightarrow> 'h list \<Rightarrow> 'h list result" where
  "add_prompt prompt hs =
     (case prompt of
        None \<Rightarrow> Inr hs
      | Some p \<Rightarrow> if length p = 1 then Inr (map (\<lambda>h. h + p ! 0) (take 1 hs) @ drop 1 hs)
                  else if length p \<le> length hs then Inr (map2 (+) (take (length p) hs) p @ drop (length p) hs)
                  else Inl RuntimeError)"

record ('a, 'h) merged_block =
  mb_forward :: "('a, 'h) block_forward"
  mb_limits :: block_limits
  mb_cache :: nat
  mb_info :: step_info

fun merged_blocks ::
  "nat \<Rightarrow> (('a, 'h::plus) merged_block \<times> 'h list option) list \<Rightarrow> 'h list \<Rightarrow> 'a kv_manager \<Rightarrow> ('a kv_manager, 'h list) outcome" where
  "merged_blocks batch_size [] hs m = (Inr hs, m)"
| "merged_blocks batch_size ((b, prompt) # bs) hs m =
     (case add_prompt prompt hs of
        Inl e \<Rightarrow> (Inl e, m)
      | Inr hs1 \<Rightarrow>
          (case inference_step (mb_forward b) (mb_limits b) (mb_cache b) batch_size (mb_info b) hs1 m of
             (Inl e, m1) \<Rightarrow> (Inl e, m1)
           | (Inr hs2, m1) \<Rightarrow> merged_blocks batch_size bs hs2 m1))"

definition merged_inference_step ::
  "nat \<Rightarrow> ('a, 'h::plus) merged_block list \<Rightarrow> 'h list option list \<Rightarrow> 'h list \<Rightarrow> 'a kv_manager \<Rightarrow>
   ('a kv_manager, 'h list) outcome" where
  "merged_inference_step batch_size blocks prompts hs m =
     (if length blocks \<noteq> length prompts then (Inl AssertionError, m)
      else if blocks = [] then (Inl UnboundLocalError, m)
      else merged_blocks batch_size (zip blocks prompts) hs m)"

section \<open>The runs are exactly the active rows\<close>

definition run_ok :: "(bool \<times> nat) list \<Rightarrow> nat \<times> nat \<times> nat \<Rightarrow> bool" where
  "run_ok rows r = (case r of (a, e, p) \<Rightarrow> a < e \<and> e \<le> length rows \<and> (\<forall>j. a \<le> j \<and> j < e \<longrightarrow> rows ! j = (True, p)))"

definition in_run :: "nat \<Rightarrow> nat \<times> nat \<times> nat \<Rightarrow> bool" where
  "in_run j r = (case r of (a, e, _) \<Rightarrow> a \<le> j \<and> j < e)"

definition run_open :: "(bool \<times> nat) list \<Rightarrow> nat \<Rightarrow> (nat \<times> nat) option \<Rightarrow> bool" where
  "run_open rows i cur = (case cur of None \<Rightarrow> True | Some (start, p) \<Rightarrow> start < i \<and> (\<forall>j. start \<le> j \<and> j < i \<longrightarrow> rows ! j = (True, p)))"

lemma row_runs_loop_ok:
  assumes "drop i rows = rest" and "i \<le> length rows" and "run_open rows i cur"
  shows "(\<forall>r \<in> set (row_runs_loop i cur rest). run_ok rows r) \<and>
    (\<forall>j < length rows. fst (rows ! j) \<longrightarrow> (i \<le> j \<or> (\<exists>s p. cur = Some (s, p) \<and> s \<le> j)) \<longrightarrow>
        (\<exists>r \<in> set (row_runs_loop i cur rest). in_run j r))"
  using assms
proof (induction rest arbitrary: i cur)
  case Nil
  then have "i = length rows" by simp
  then show ?case using Nil.prems(3) by (auto simp: run_open_def run_ok_def in_run_def split: option.splits)
next
  case (Cons x rest)
  obtain active pos where x: "x = (active, pos)" by (cases x)
  have i: "i < length rows" and xi: "rows ! i = (active, pos)"
    using Cons.prems(1) x by (auto simp: drop_eq_Nil2 not_le [symmetric] nth_via_drop dest: sym)
  have tl: "drop (Suc i) rows = rest" using Cons.prems(1) by (metis drop_Suc tl_drop list.sel(3))
  show ?case
  proof (cases cur)
    case None
    have "run_open rows (Suc i) (if active then Some (i, pos) else None)"
      using xi by (auto simp: run_open_def le_Suc_eq less_Suc_eq)
    note ih = Cons.IH [OF tl _ this]
    have "j = i \<or> Suc i \<le> j" if "i \<le> j" for j using that by auto
    then show ?thesis using ih i None xi by (fastforce simp: x)
  next
    case (Some c)
    obtain start p where c: "c = (start, p)" by (cases c)
    have op: "start < i" "\<And>j. start \<le> j \<Longrightarrow> j < i \<Longrightarrow> rows ! j = (True, p)"
      using Cons.prems(3) by (auto simp: run_open_def Some c)
    have closed: "run_ok rows (start, i, p)" using op i by (simp add: run_ok_def)
    have here: "in_run j (start, i, p)" if "start \<le> j" "j < i" for j using that by (simp add: in_run_def)
    consider (extend) "active" "pos = p" | (change) "active" "pos \<noteq> p" | (stop) "\<not> active" by blast
    then show ?thesis
    proof cases
      case extend
      then have "run_open rows (Suc i) cur" using op xi by (auto simp: run_open_def Some c less_Suc_eq)
      note ih = Cons.IH [OF tl _ this]
      have "start \<le> j" if "i \<le> j" for j using op(1) that by simp
      then show ?thesis using ih extend i by (auto simp: x Some c)
    next
      case change
      then have "run_open rows (Suc i) (Some (i, pos))" using xi by (auto simp: run_open_def le_Suc_eq less_Suc_eq)
      note ih = Cons.IH [OF tl _ this]
      have set: "set (row_runs_loop i cur (x # rest)) = insert (start, i, p) (set (row_runs_loop (Suc i) (Some (i, pos)) rest))"
        using change by (simp add: x Some c)
      have "\<exists>r \<in> insert (start, i, p) (set (row_runs_loop (Suc i) (Some (i, pos)) rest)). in_run j r"
        if j: "j < length rows" "fst (rows ! j)" "i \<le> j \<or> start \<le> j" for j
        using here [of j] j ih i by (cases "j < i") auto
      then show ?thesis unfolding set using ih i closed by (auto simp: Some c)
    next
      case stop
      have "run_open rows (Suc i) None" by (simp add: run_open_def)
      note ih = Cons.IH [OF tl _ this]
      have set: "set (row_runs_loop i cur (x # rest)) = insert (start, i, p) (set (row_runs_loop (Suc i) None rest))"
        using stop by (simp add: x Some c)
      have "\<exists>r \<in> insert (start, i, p) (set (row_runs_loop (Suc i) None rest)). in_run j r"
        if j: "j < length rows" "fst (rows ! j)" "i \<le> j \<or> start \<le> j" for j
      proof (cases "j < i")
        case True
        then show ?thesis using here j(3) by auto
      next
        case False
        then have "Suc i \<le> j" using j(2) xi stop by (cases "j = i") auto
        then show ?thesis using ih i j by auto
      qed
      then show ?thesis unfolding set using ih i closed by (auto simp: Some c)
    qed
  qed
qed


lemma row_runs_exact:
  assumes "length active = length row_positions" and "rs = active_position_row_runs active row_positions"
  shows "(a, e, p) \<in> set rs \<Longrightarrow> a < e \<and> e \<le> length active"
    and "(a, e, p) \<in> set rs \<Longrightarrow> a \<le> j \<Longrightarrow> j < e \<Longrightarrow> active ! j \<and> row_positions ! j = p"
    and "j < length active \<Longrightarrow> active ! j \<Longrightarrow> \<exists>a e p. (a, e, p) \<in> set rs \<and> a \<le> j \<and> j < e"
proof -
  let ?z = "zip active row_positions"
  have ok: "(\<forall>r \<in> set rs. run_ok ?z r) \<and> (\<forall>j < length ?z. fst (?z ! j) \<longrightarrow> (\<exists>r \<in> set rs. in_run j r))"
    using row_runs_loop_ok [of 0 ?z ?z None] by (simp add: assms(2) active_position_row_runs_def run_open_def)
  show "a < e \<and> e \<le> length active" if "(a, e, p) \<in> set rs"
    using ok that assms(1) by (fastforce simp: run_ok_def)
  show "active ! j \<and> row_positions ! j = p" if r: "(a, e, p) \<in> set rs" and j: "a \<le> j" "j < e"
  proof -
    have "?z ! j = (True, p)" "j < length active" using ok r j assms(1) by (fastforce simp: run_ok_def)+
    then show ?thesis using assms(1) by simp
  qed
  show "\<exists>a e p. (a, e, p) \<in> set rs \<and> a \<le> j \<and> j < e" if "j < length active" "active ! j"
    using ok that assms(1) by (force simp: in_run_def)
qed

section \<open>A masked write touches exactly its rows\<close>

text \<open>Rows \<open>a..<e\<close> of the batch, written at position \<open>p\<close> of a slab that holds the batch.\<close>

lemma run_written:
  assumes act: "active_cache_slot_id m = Some c" and H: "0 < kvh" "kvh \<le> heads_of m"
    and fit: "whole_fits full m c" and rows: "a < e" "off + e \<le> full"
    and sh: "key_shape kvs = [B * kvh, head_dim (slabs m c), sn]" "value_shape kvs = [B * kvh, sn, head_dim (slabs m c)]"
    and eB: "e \<le> B" and sn: "0 < sn" "p + sn \<le> seq_total (slabs m c)"
  shows "write_kvs (slice_kv_rows kvs a e kvh) p (off + a) full (e - a) None m =
    (Inr (), m\<lparr>slabs := (slabs m)(c := (slabs m c)\<lparr>
       k_data := rows_written (heads_of m) kvh ((off + a) * heads_of m) p sn {..<e - a}
                   (\<lambda>s b. key_at kvs (a * kvh + b) s) (k_data (slabs m c)),
       v_data := rows_written (heads_of m) kvh ((off + a) * heads_of m) p sn {..<e - a}
                   (\<lambda>s b. value_at kvs (a * kvh + b) s) (v_data (slabs m c))\<rparr>)\<rparr>)"
proof -
  let ?H = "heads_of m" and ?n = "e - a" and ?kvs = "slice_kv_rows kvs a e kvh" and ?b = "(off + a) * heads_of m"
  have H0: "0 < ?H" and full: "0 < full" and n: "0 < ?n" using H rows by auto
  have "e * kvh \<le> B * kvh" using eB by (rule mult_le_mono1)
  then have len: "min (e * kvh) (B * kvh) - a * kvh = ?n * kvh" by (simp add: diff_mult_distrib)
  have kshape: "key_shape ?kvs = [?n * kvh, head_dim (slabs m c), sn]" "value_shape ?kvs = [?n * kvh, sn, head_dim (slabs m c)]"
    using sh len by (simp_all add: slice_kv_rows_def Let_def)
  have at: "key_at ?kvs = (\<lambda>b. key_at kvs (a * kvh + b))" "value_at ?kvs = (\<lambda>b. value_at kvs (a * kvh + b))"
    by (simp_all add: slice_kv_rows_def Let_def)
  have heads: "source_heads_per_batch (kv_cfg m) ?H (?n * kvh) full ?n = kvh"
    using source_heads_of_rows n H full by blast
  have mux: "\<not> gpu_multiplexing (bh_total (slabs m c) div ?H) full"
    using fit by (simp add: gpu_multiplexing_def whole_fits_def capacity_of_def)
  have "off + a + ?n \<le> capacity_of m c" using fit rows by (simp add: whole_fits_def)
  then have "(off + a + ?n) * ?H \<le> capacity_of m c * ?H" by (rule mult_le_mono1)
  then have inslab: "?b + ?n * ?H \<le> bh_total (slabs m c)" using fit by (simp add: whole_fits_def add_mult_distrib)
  have range: "write_range (?n * ?H) (off + a) full ?n (bh_total (slabs m c) div ?H) (bh_total (slabs m c)) m =
      (Inr (?b, ?b + ?n * ?H, None, None), m)"
    using full mux inslab by (simp add: write_range_def Let_def)
  have dev: "\<forall>ps. slab_device (slabs m c) \<noteq> MixedCache ps" using fit by (simp add: whole_fits_def)
  note written = micro_rows_written [OF dev sn(2) inslab H(2) H0 H(1) sn(1), of ?kvs, unfolded at]
  have bh: "(if kvh < ?H then ?n * ?H else ?n * kvh) = ?n * ?H" using H by auto
  show ?thesis
    using act H0 kshape H written heads n
    by (cases "kvh < ?H") (simp_all add: write_kvs_def Let_def bh range mux)
qed


lemma rows_written_at:
  assumes "h < H"
  shows "rows_written H kvh (r0 * H) p sn {..<n} src pl s (r * H + h) =
    (if p \<le> s \<and> s < p + sn \<and> r0 \<le> r \<and> r < r0 + n \<and> h < kvh then src (s - p) ((r - r0) * kvh + h) else pl s (r * H + h))"
proof -
  have le: "r0 * H \<le> r * H + h \<longleftrightarrow> r0 \<le> r"
  proof
    assume a: "r0 * H \<le> r * H + h"
    show "r0 \<le> r"
    proof (rule ccontr)
      assume "\<not> r0 \<le> r"
      then have "Suc r * H \<le> r0 * H" by (intro mult_le_mono1) simp
      then show False using a assms by simp
    qed
  qed (simp add: trans_le_add1)
  show ?thesis
  proof (cases "r0 \<le> r")
    case True
    then have "r * H + h - r0 * H = (r - r0) * H + h" by (simp add: diff_mult_distrib)
    then show ?thesis using True assms quot_rem_unique [OF assms, of "r - r0"] le
      by (auto simp: rows_written_def)
  qed (use le in \<open>auto simp: rows_written_def\<close>)
qed

definition covered :: "(nat \<times> nat \<times> nat) list \<Rightarrow> nat \<Rightarrow> bool" where
  "covered rs b \<longleftrightarrow> (\<exists>(a, e, p) \<in> set rs. a \<le> b \<and> b < e)"

text \<open>The planes after the runs, row by row.\<close>

definition row_updated ::
  "nat \<Rightarrow> nat \<Rightarrow> nat \<Rightarrow> nat \<Rightarrow> (nat \<Rightarrow> nat) \<Rightarrow> (nat \<Rightarrow> bool) \<Rightarrow> (nat \<Rightarrow> nat \<Rightarrow> 'a) \<Rightarrow> 'a plane \<Rightarrow> 'a plane \<Rightarrow> bool" where
  "row_updated H kvh off sn P A new pl pl' \<longleftrightarrow>
     (\<forall>s r h. h < H \<longrightarrow> pl' s (r * H + h) =
        (if off \<le> r \<and> A (r - off) \<and> h < kvh \<and> P (r - off) \<le> s \<and> s < P (r - off) + sn
         then new ((r - off) * kvh + h) (s - P (r - off)) else pl s (r * H + h)))"

lemma row_updated_step:
  assumes "row_updated H kvh off sn P A new (rows_written H kvh ((off + a) * H) p sn {..<e - a}
             (\<lambda>s b. new (a * kvh + b) s) pl) pl'"
    and "a < e" and "\<And>b. a \<le> b \<Longrightarrow> b < e \<Longrightarrow> P b = p"
  shows "row_updated H kvh off sn P (\<lambda>b. A b \<or> (a \<le> b \<and> b < e)) new pl pl'"
  unfolding row_updated_def
proof (intro allI impI)
  fix s r h assume h: "h < H"
  let ?old = "rows_written H kvh ((off + a) * H) p sn {..<e - a} (\<lambda>s b. new (a * kvh + b) s) pl"
  have old: "?old s (r * H + h) =
      (if p \<le> s \<and> s < p + sn \<and> off + a \<le> r \<and> r < off + e \<and> h < kvh
       then new ((r - off) * kvh + h) (s - p) else pl s (r * H + h))"
  proof -
    have "a * kvh + ((r - (off + a)) * kvh + h) = (r - off) * kvh + h" if "off + a \<le> r"
      using that by (simp add: add_mult_distrib [symmetric] add.assoc [symmetric])
    moreover have "off + a + (e - a) = off + e" using assms(2) by simp
    ultimately show ?thesis unfolding rows_written_at [OF h] by (auto simp: add.assoc [symmetric])
  qed
  have P: "P (r - off) = p" if "off + a \<le> r" "r < off + e" using that assms(2) by (intro assms(3)) auto
  show "pl' s (r * H + h) =
      (if off \<le> r \<and> (A (r - off) \<or> a \<le> r - off \<and> r - off < e) \<and> h < kvh \<and> P (r - off) \<le> s \<and> s < P (r - off) + sn
       then new ((r - off) * kvh + h) (s - P (r - off)) else pl s (r * H + h))"
  proof (cases "off + a \<le> r \<and> r < off + e")
    case True
    then show ?thesis using assms(1) h P old unfolding row_updated_def by auto
  next
    case False
    then have "\<not> (off \<le> r \<and> a \<le> r - off \<and> r - off < e)" by auto
    then show ?thesis using assms(1) h old False unfolding row_updated_def by auto
  qed
qed

lemma update_runs_ok:
  assumes "active_cache_slot_id m = Some c" and "0 < kvh" "kvh \<le> heads_of m" and "whole_fits full m c"
    and "key_shape kvs = [B * kvh, head_dim (slabs m c), sn]" "value_shape kvs = [B * kvh, sn, head_dim (slabs m c)]"
    and "0 < sn" and "off + B \<le> full"
    and "\<And>a e p. (a, e, p) \<in> set rs \<Longrightarrow> a < e \<and> e \<le> B \<and> p + sn \<le> seq_total (slabs m c)"
    and "\<And>a e p b. (a, e, p) \<in> set rs \<Longrightarrow> a \<le> b \<Longrightarrow> b < e \<Longrightarrow> P b = p"
  shows "\<exists>m'. update_runs kvs kvh off full rs m = (Inr (), m') \<and> m' = m\<lparr>slabs := slabs m'\<rparr> \<and>
    same_shape m m' \<and> (\<forall>c'. c' \<noteq> c \<longrightarrow> slabs m' c' = slabs m c') \<and>
    row_updated (heads_of m) kvh off sn P (covered rs) (key_at kvs) (k_data (slabs m c)) (k_data (slabs m' c)) \<and>
    row_updated (heads_of m) kvh off sn P (covered rs) (value_at kvs) (v_data (slabs m c)) (v_data (slabs m' c))"
  using assms
proof (induction rs arbitrary: m)
  case Nil
  then show ?case by (simp add: row_updated_def covered_def)
next
  case (Cons r rs)
  obtain a e p where r: "r = (a, e, p)" by (cases r)
  have run: "a < e" "e \<le> B" "p + sn \<le> seq_total (slabs m c)" using Cons.prems(9) [of a e p] r by auto
  have off: "off + e \<le> full" using run Cons.prems(8) by simp
  define m1 where "m1 = m\<lparr>slabs := (slabs m)(c := (slabs m c)\<lparr>
       k_data := rows_written (heads_of m) kvh ((off + a) * heads_of m) p sn {..<e - a}
                   (\<lambda>s b. key_at kvs (a * kvh + b) s) (k_data (slabs m c)),
       v_data := rows_written (heads_of m) kvh ((off + a) * heads_of m) p sn {..<e - a}
                   (\<lambda>s b. value_at kvs (a * kvh + b) s) (v_data (slabs m c))\<rparr>)\<rparr>"
  have step: "write_kvs (slice_kv_rows kvs a e kvh) p (off + a) full (e - a) None m = (Inr (), m1)"
    unfolding m1_def using Cons.prems(1-4) run(1) off Cons.prems(5,6) run(2) Cons.prems(7) run(3) by (rule run_written)
  have sh: "same_shape m m1" by (simp add: m1_def same_shape_def)
  note geo = same_shape_geometry [OF sh]
  have "whole_fits full m1 c" using Cons.prems(4) by (simp add: whole_fits_def geo)
  moreover have "active_cache_slot_id m1 = Some c" using Cons.prems(1) by (simp add: m1_def active_cache_slot_id_def)
  ultimately obtain m' where m': "update_runs kvs kvh off full rs m1 = (Inr (), m')" "same_shape m1 m'"
      "m' = m1\<lparr>slabs := slabs m'\<rparr>"
      "\<forall>c'. c' \<noteq> c \<longrightarrow> slabs m' c' = slabs m1 c'"
      "row_updated (heads_of m) kvh off sn P (covered rs) (key_at kvs) (k_data (slabs m1 c)) (k_data (slabs m' c))"
      "row_updated (heads_of m) kvh off sn P (covered rs) (value_at kvs) (v_data (slabs m1 c)) (v_data (slabs m' c))"
    using Cons.IH [of m1] Cons.prems by (fastforce simp: geo)
  have P: "P b = p" if "a \<le> b" "b < e" for b using Cons.prems(10) [of a e p b] that by (simp add: r)
  have cov: "covered (r # rs) = (\<lambda>b. covered rs b \<or> (a \<le> b \<and> b < e))" by (auto simp: covered_def r fun_eq_iff)
  have "row_updated (heads_of m) kvh off sn P (covered (r # rs)) (key_at kvs) (k_data (slabs m c)) (k_data (slabs m' c))"
    "row_updated (heads_of m) kvh off sn P (covered (r # rs)) (value_at kvs) (v_data (slabs m c)) (v_data (slabs m' c))"
    unfolding cov using m'(5,6) run(1) P by (auto simp: m1_def intro: row_updated_step)
  moreover have "same_shape m m'" using sh m'(2) by (rule same_shape_trans)
  moreover have "m' = m\<lparr>slabs := slabs m'\<rparr>" using m'(3) by (simp add: m1_def)
  ultimately show ?case using step m'(1,4) by (auto simp: r m1_def)
qed


section \<open>A decoding step over live rows\<close>

lemma live_mask_at:
  assumes "b < length ps" and "s \<le> cache_len"
  shows "live_decode_attention_mask cache_len ps ! b ! s \<longleftrightarrow> s < min (ps ! b) cache_len \<or> s = cache_len"
  using assms by (simp add: live_decode_attention_mask_def del: upt_Suc)

lemma parse_positions_int: "parse_positions (map int ps) = Some ps"
  by (induction ps) simp_all

lemma whole_rows_selected:
  assumes act: "active_cache_slot_id m = Some c" and H: "0 < heads_of m" and fit: "whole_fits full m c"
    and B: "0 < B" "off + B \<le> full" and p: "0 < p" "p \<le> seq_total (slabs m c)"
  obtains v where "select_cache p None off full B None m = (Inr (Some v, False), m)"
    and "pk_batch v = B" and "pk_heads v = heads_of m" and "pk_seq v = p"
    and "\<And>b h s. b < B \<Longrightarrow> h < heads_of m \<Longrightarrow> s < p \<Longrightarrow>
           pk_key v b h s = k_data (slabs m c) s ((off + b) * heads_of m + h) \<and>
           pk_value v b h s = v_data (slabs m c) s ((off + b) * heads_of m + h)"
proof -
  let ?H = "heads_of m" and ?b = "off * heads_of m"
  have full: "0 < full" using B by simp
  have mux: "\<not> gpu_multiplexing (bh_total (slabs m c) div ?H) full"
    using fit by (simp add: gpu_multiplexing_def whole_fits_def capacity_of_def)
  have "(off + B) * ?H \<le> capacity_of m c * ?H" using fit B by (intro mult_le_mono1) (simp add: whole_fits_def)
  then have inslab: "?b + B * ?H \<le> bh_total (slabs m c)" using fit by (simp add: whole_fits_def add_mult_distrib)
  note v = to_pkv_rows [OF B(1) H, of "slabs m c" p ?b]
  have cols: "read_columns (slabs m c) (?b, ?b + B * ?H) = Inr [?b..<?b + B * ?H]"
    using fit inslab by (cases "slab_device (slabs m c)") (simp_all add: read_columns_def whole_fits_def)
  have col: "[?b..<?b + B * ?H] ! (b * ?H + h) = (off + b) * ?H + h" if "b < B" "h < ?H" for b h
    using row_head_less [OF that(1) that(2) order_refl] by (simp add: add_mult_distrib)
  show thesis
  proof (rule that)
    show "select_cache p None off full B None m = (Inr (Some \<lparr>pk_batch = B, pk_heads = ?H, pk_seq = p,
         pk_key = (\<lambda>b h s. k_data (slabs m c) ([0..<p] ! s) ([?b..<?b + B * ?H] ! (b * ?H + h))),
         pk_value = (\<lambda>b h s. v_data (slabs m c) ([0..<p] ! s) ([?b..<?b + B * ?H] ! (b * ?H + h)))\<rparr>, False), m)"
      using act p H full B(1) mux v cols inslab
      by (simp add: select_cache_def read_range_def Let_def read_positions_def)
  qed (simp_all add: col)
qed

text \<open>
  The history of a row: for every position the keys and the values of the key-value heads.
\<close>

type_synonym 'a row_history = "((nat \<Rightarrow> 'a) \<times> (nat \<Rightarrow> 'a)) list"

definition rows_hold :: "nat \<Rightarrow> nat \<Rightarrow> nat \<Rightarrow> nat \<Rightarrow> (nat \<Rightarrow> 'a row_history) \<Rightarrow> 'a kv_manager \<Rightarrow> bool" where
  "rows_hold kvh B off c hist m \<longleftrightarrow>
     (\<forall>b<B. \<forall>s<length (hist b). \<forall>h<kvh.
        k_data (slabs m c) s ((off + b) * heads_of m + h) = fst (hist b ! s) h \<and>
        v_data (slabs m c) s ((off + b) * heads_of m + h) = snd (hist b ! s) h)"

definition extend_rows :: "nat \<Rightarrow> bool list \<Rightarrow> 'a new_kvs \<Rightarrow> (nat \<Rightarrow> 'a row_history) \<Rightarrow> nat \<Rightarrow> 'a row_history" where
  "extend_rows kvh active kvs hist b =
     hist b @ (if active ! b then [(\<lambda>h. key_at kvs (b * kvh + h) 0, \<lambda>h. value_at kvs (b * kvh + h) 0)] else [])"

text \<open>What the module is given shows every row its own history, and nothing else of the cache.\<close>

definition module_sees ::
  "nat \<Rightarrow> nat \<Rightarrow> (nat \<Rightarrow> 'a row_history) \<Rightarrow> 'a pkv option \<Rightarrow> bool list list list option \<Rightarrow> nat list list \<Rightarrow> bool" where
  "module_sees kvh B hist view attn pos_ids \<longleftrightarrow>
     (let cache_len = (case view of None \<Rightarrow> 0 | Some v \<Rightarrow> pk_seq v) in
      \<forall>b<B. pos_ids ! b = [length (hist b)] \<and> the attn ! b ! 0 ! cache_len \<and>
        (\<forall>s<cache_len. the attn ! b ! 0 ! s \<longleftrightarrow> s < length (hist b)) \<and>
        (\<forall>s<length (hist b). \<exists>v. view = Some v \<and> s < pk_seq v \<and>
            (\<forall>h<kvh. pk_key v b h s = fst (hist b ! s) h \<and> pk_value v b h s = snd (hist b ! s) h)))"

definition decode_kvs :: "nat \<Rightarrow> nat \<Rightarrow> nat \<Rightarrow> 'a new_kvs \<Rightarrow> bool" where
  "decode_kvs B kvh D kvs \<longleftrightarrow> key_shape kvs = [B * kvh, D, 1] \<and> value_shape kvs = [B * kvh, 1, D]"

text \<open>A step whose batch is the \<open>B\<close> rows from \<open>off\<close> on, with the lengths of their histories.\<close>

definition live_info :: "nat \<Rightarrow> nat \<Rightarrow> nat \<Rightarrow> bool list \<Rightarrow> (nat \<Rightarrow> 'a row_history) \<Rightarrow> step_info \<Rightarrow> bool" where
  "live_info off full B active hist info \<longleftrightarrow>
     si_offset info = off \<and> si_full info = full \<and> si_micro info = B \<and> si_mask info = Some active \<and>
     si_positions info = Some (map (\<lambda>b. int (length (hist b))) [0..<B])"

lemma live_masked_update:
  assumes act: "active_cache_slot_id m = Some c" and H: "0 < kvh" "kvh \<le> heads_of m" and fit: "whole_fits full m c"
    and B: "0 < B" "off + B \<le> full" and info: "live_info off full B active hist info" and al: "length active = B"
    and hold: "rows_hold kvh B off c hist m" and room: "\<And>b. b < B \<Longrightarrow> length (hist b) < seq_total (slabs m c)"
    and kvs: "decode_kvs B kvh (head_dim (slabs m c)) kvs"
  obtains m' where "finalize_cache_update kvs n info m = (Inr (), m')" and "m' = m\<lparr>slabs := slabs m'\<rparr>"
    and "same_shape m m'" and "\<And>c'. c' \<noteq> c \<Longrightarrow> slabs m' c' = slabs m c'"
    and "rows_hold kvh B off c (extend_rows kvh active kvs hist) m'"
proof -
  define P where "P = map (\<lambda>b. length (hist b)) [0..<B]"
  define rs where "rs = active_position_row_runs active P"
  have mapint: "map (\<lambda>b. int (length (hist b))) [0..<B] = map int P" by (simp add: P_def)
  have PB: "P ! b = length (hist b)" if "b < B" for b using that by (simp add: P_def)
  have lens: "length active = length P" using al by (simp add: P_def)
  note runs = row_runs_exact [OF lens rs_def]
  have bounds: "a < e \<and> e \<le> B \<and> p + 1 \<le> seq_total (slabs m c)" if r: "(a, e, p) \<in> set rs" for a e p
  proof -
    have ae: "a < e" "e \<le> B" using runs(1) [OF r] al by auto
    then have "P ! a = p" using runs(2) [OF r, of a] by simp
    then show ?thesis using ae room [of a] PB [of a] by auto
  qed
  have at: "P ! b = p" if "(a, e, p) \<in> set rs" "a \<le> b" "b < e" for a e p b using runs(2) [OF that] by simp
  have cov: "covered rs b \<longleftrightarrow> active ! b" if "b < B" for b
    using runs(2,3) that al unfolding covered_def by fast
  have sh: "key_shape kvs = [B * kvh, head_dim (slabs m c), 1]" "value_shape kvs = [B * kvh, 1, head_dim (slabs m c)]"
    using kvs by (simp_all add: decode_kvs_def)
  obtain m' where m': "update_runs kvs kvh off full rs m = (Inr (), m')" "m' = m\<lparr>slabs := slabs m'\<rparr>" "same_shape m m'"
      "\<forall>c'. c' \<noteq> c \<longrightarrow> slabs m' c' = slabs m c'"
      "row_updated (heads_of m) kvh off 1 (\<lambda>b. P ! b) (covered rs) (key_at kvs) (k_data (slabs m c)) (k_data (slabs m' c))"
      "row_updated (heads_of m) kvh off 1 (\<lambda>b. P ! b) (covered rs) (value_at kvs) (v_data (slabs m c)) (v_data (slabs m' c))"
    using update_runs_ok [OF act H fit sh zero_less_one B(2), of rs "\<lambda>b. P ! b"] bounds at by auto
  have "row_position_list (si_positions info) B = Some P"
    using info B by (simp add: live_info_def row_position_list_def mapint parse_positions_int) (simp add: P_def)
  then have fin: "finalize_cache_update kvs n info m = (Inr (), m')"
    using info al B H m'(1) by (simp add: finalize_cache_update_def live_info_def active_mask_list_def sh rs_def Let_def)
  have "rows_hold kvh B off c (extend_rows kvh active kvs hist) m'"
    unfolding rows_hold_def
  proof (intro allI impI)
    fix b s h assume b: "b < B" and s: "s < length (extend_rows kvh active kvs hist b)" and h: "h < kvh"
    have heads: "heads_of m' = heads_of m" by (subst m'(2)) simp
    have hH: "h < heads_of m" using h H by simp
    have new: "k_data (slabs m' c) s ((off + b) * heads_of m + h) =
        (if active ! b \<and> s = length (hist b) then key_at kvs (b * kvh + h) 0 else k_data (slabs m c) s ((off + b) * heads_of m + h))"
      "v_data (slabs m' c) s ((off + b) * heads_of m + h) =
        (if active ! b \<and> s = length (hist b) then value_at kvs (b * kvh + h) 0 else v_data (slabs m c) s ((off + b) * heads_of m + h))"
      using m'(5,6) hH h cov [OF b] PB [OF b] unfolding row_updated_def by (auto simp: le_Suc_eq)
    show "k_data (slabs m' c) s ((off + b) * heads_of m' + h) = fst (extend_rows kvh active kvs hist b ! s) h \<and>
        v_data (slabs m' c) s ((off + b) * heads_of m' + h) = snd (extend_rows kvh active kvs hist b ! s) h"
      unfolding heads new using hold b h s
      by (auto simp: rows_hold_def extend_rows_def nth_append less_Suc_eq split: if_splits)
  qed
  then show thesis using that fin m'(2-4) by blast
qed


text \<open>The read of a live step: each row sees its own history and the new token, nothing else.\<close>

lemma live_row_positions_of_info:
  assumes "live_info off full B active hist info" and "length active = B" and "0 < B"
  shows "live_row_positions info B 1 = Some (map (\<lambda>b. length (hist b)) [0..<B])"
proof -
  have "map (\<lambda>b. int (length (hist b))) [0..<B] = map int (map (\<lambda>b. length (hist b)) [0..<B])" by simp
  then have "row_position_list (si_positions info) B = Some (map (\<lambda>b. length (hist b)) [0..<B])"
    using assms by (simp only: live_info_def row_position_list_def option.case parse_positions_int) simp
  then show ?thesis using assms by (simp add: live_row_positions_def live_info_def active_mask_list_def)
qed

lemma live_step_reads:
  assumes act: "active_cache_slot_id m = Some c" and H: "0 < kvh" "kvh \<le> heads_of m" and fit: "whole_fits full m c"
    and B: "0 < B" "off + B \<le> full"
    and hold: "rows_hold kvh B off c hist m" and room: "\<And>b. b < B \<Longrightarrow> length (hist b) < seq_total (slabs m c)"
  obtains view where
      "select_cache (Max (set (map (\<lambda>b. length (hist b)) [0..<B]))) None off full B None m = (Inr (view, False), m)"
    and "module_sees kvh B hist view
           (step_attention_mask B 1 (case view of None \<Rightarrow> 0 | Some v \<Rightarrow> pk_seq v) (Some (map (\<lambda>b. length (hist b)) [0..<B])))
           (step_position_ids B (case view of None \<Rightarrow> 0 | Some v \<Rightarrow> pk_seq v) (Some (map (\<lambda>b. length (hist b)) [0..<B])) 1 0)"
proof -
  define P where "P = map (\<lambda>b. length (hist b)) [0..<B]"
  define top_pos where "top_pos = Max (set P)"
  have ne: "set P \<noteq> {}" using B by (simp add: P_def)
  have PB: "P ! b = length (hist b)" "length P = B" if "b < B" for b using that by (simp_all add: P_def)
  have le: "length (hist b) \<le> top_pos" if "b < B" for b using that by (simp add: top_pos_def P_def)
  have "top_pos \<in> set P" unfolding top_pos_def using ne by (intro Max_in) simp_all
  then have bound: "top_pos \<le> seq_total (slabs m c)" using room by (auto simp: P_def less_imp_le)
  have masks: "the (step_attention_mask B 1 top_pos (Some P)) ! b ! 0 ! top_pos"
    "s < top_pos \<Longrightarrow> the (step_attention_mask B 1 top_pos (Some P)) ! b ! 0 ! s \<longleftrightarrow> s < length (hist b)"
    "step_position_ids B top_pos (Some P) 1 0 ! b = [length (hist b)]" if b: "b < B" for b s
    using live_mask_at [of b P] PB [OF b] b le [OF b]
    by (auto simp: step_attention_mask_def step_position_ids_def live_decode_position_ids_def) 
       (simp_all add: live_decode_attention_mask_def)
  show thesis
  proof (cases "top_pos = 0")
    case True
    then have "select_cache top_pos None off full B None m = (Inr (None, False), m)" using act by (simp add: select_cache_def)
    moreover have "module_sees kvh B hist None (step_attention_mask B 1 0 (Some P)) (step_position_ids B 0 (Some P) 1 0)"
      using masks le True by (auto simp: module_sees_def)
    ultimately show thesis using that [of None] by (simp add: top_pos_def P_def)
  next
    case False
    have H0: "0 < heads_of m" using H by simp
    obtain v where v: "select_cache top_pos None off full B None m = (Inr (Some v, False), m)" "pk_seq v = top_pos"
        "\<And>b h s. b < B \<Longrightarrow> h < heads_of m \<Longrightarrow> s < top_pos \<Longrightarrow>
           pk_key v b h s = k_data (slabs m c) s ((off + b) * heads_of m + h) \<and>
           pk_value v b h s = v_data (slabs m c) s ((off + b) * heads_of m + h)"
    proof (rule whole_rows_selected [OF act H0 fit B _ bound])
      show "0 < top_pos" using False by simp
    qed (use that in blast)
    have "module_sees kvh B hist (Some v) (step_attention_mask B 1 top_pos (Some P)) (step_position_ids B top_pos (Some P) 1 0)"
      unfolding module_sees_def Let_def option.case v(2)
    proof (intro allI impI conjI)
      fix b s assume b: "b < B" and s: "s < length (hist b)"
      then have st: "s < top_pos" using le by (meson less_le_trans)
      have "pk_key v b h s = fst (hist b ! s) h \<and> pk_value v b h s = snd (hist b ! s) h" if h: "h < kvh" for h
        using v(3) [OF b less_le_trans [OF h H(2)] st] hold [unfolded rows_hold_def, rule_format, OF b s h] by simp
      then show "\<exists>va. Some v = Some va \<and> s < pk_seq va \<and>
          (\<forall>h<kvh. pk_key va b h s = fst (hist b ! s) h \<and> pk_value va b h s = snd (hist b ! s) h)"
        using st v(2) by simp
    qed (use masks in simp_all)
    then show thesis using that [of "Some v"] v(1,2) by (simp add: top_pos_def P_def)
  qed
qed

definition decodes :: "nat \<Rightarrow> nat \<Rightarrow> nat \<Rightarrow> ('a, 'h) block_forward \<Rightarrow> bool" where
  "decodes B kvh D fwd \<longleftrightarrow>
     (\<forall>view attn pos_ids h. \<exists>h' kvs. fwd view attn pos_ids [h] = Some ([h'], kvs) \<and> decode_kvs B kvh D kvs)"

definition live_ready :: "nat \<Rightarrow> nat \<Rightarrow> nat \<Rightarrow> nat \<Rightarrow> nat \<Rightarrow> (nat \<Rightarrow> 'a row_history) \<Rightarrow> 'a kv_manager \<Rightarrow> bool" where
  "live_ready kvh full B off c hist m \<longleftrightarrow>
     whole_fits full m c \<and> rows_hold kvh B off c hist m \<and> (\<forall>b<B. length (hist b) < seq_total (slabs m c))"

lemma live_step_body:
  assumes act: "active_cache_slot_id m = Some c" and H: "0 < kvh" "kvh \<le> heads_of m"
    and B: "0 < B" "off + B \<le> full" and info: "live_info off full B active hist info" and al: "length active = B"
    and ready: "live_ready kvh full B off c hist m" and n: "0 < n" and fwd: "decodes B kvh (head_dim (slabs m c)) fwd"
  obtains view attn pos_ids h' kvs m' where
      "module_sees kvh B hist view attn pos_ids" and "fwd view attn pos_ids [h] = Some ([h'], kvs)"
    and "step_body fwd n B info [h] m = (Inr [h'], m')" and "m' = m\<lparr>slabs := slabs m'\<rparr>"
    and "same_shape m m'" and "\<And>c'. c' \<noteq> c \<Longrightarrow> slabs m' c' = slabs m c'"
    and "rows_hold kvh B off c (extend_rows kvh active kvs hist) m'"
proof -
  have fit: "whole_fits full m c" and hold: "rows_hold kvh B off c hist m"
    and room: "\<And>b. b < B \<Longrightarrow> length (hist b) < seq_total (slabs m c)" using ready by (auto simp: live_ready_def)
  let ?P = "map (\<lambda>b. length (hist b)) [0..<B]"
  have live: "live_row_positions info B 1 = Some ?P" using info al B(1) by (rule live_row_positions_of_info)
  obtain view where view: "select_cache (Max (set ?P)) None off full B None m = (Inr (view, False), m)"
      "module_sees kvh B hist view (step_attention_mask B 1 (case view of None \<Rightarrow> 0 | Some v \<Rightarrow> pk_seq v) (Some ?P))
         (step_position_ids B (case view of None \<Rightarrow> 0 | Some v \<Rightarrow> pk_seq v) (Some ?P) 1 0)"
    using live_step_reads [OF act H fit B hold room] by blast
  let ?len = "case view of None \<Rightarrow> 0 | Some v \<Rightarrow> pk_seq v"
  obtain h' kvs where out: "fwd view (step_attention_mask B 1 ?len (Some ?P)) (step_position_ids B ?len (Some ?P) 1 0) [h] = Some ([h'], kvs)"
      "decode_kvs B kvh (head_dim (slabs m c)) kvs" using fwd unfolding decodes_def by blast
  obtain m' where m': "finalize_cache_update kvs ?len info m = (Inr (), m')" "m' = m\<lparr>slabs := slabs m'\<rparr>" "same_shape m m'"
      "\<And>c'. c' \<noteq> c \<Longrightarrow> slabs m' c' = slabs m c'" "rows_hold kvh B off c (extend_rows kvh active kvs hist) m'"
    using live_masked_update [OF act H fit B info al hold room out(2)] by blast
  have "min n (Suc 0) = 1" using n by simp
  then have chunks: "chunk_loop (\<lambda>k chunk. fwd view (step_attention_mask B 1 ?len (Some ?P))
        (step_position_ids B ?len (Some ?P) (min n (1 - k)) k) chunk) [h] n 0 ([], None) = Some ([h'], Some kvs)"
    using n out(1) by (simp add: chunk_loop.simps)
  have "step_body fwd n B info [h] m = (Inr [h'], m')"
    using view(1) live info chunks m'(1) by (simp add: step_body_def live_info_def Let_def)
  then show thesis using that view(2) out(1) m'(2-5) by blast
qed


definition row_step ::
  "nat \<Rightarrow> nat \<Rightarrow> nat \<Rightarrow> bool list \<Rightarrow> (nat \<Rightarrow> 'a row_history) \<Rightarrow> ('a, 'h) block_forward \<Rightarrow> nat \<Rightarrow> 'a kv_manager \<Rightarrow> bool" where
  "row_step kvh B off active hist fwd c m' \<longleftrightarrow>
     (\<exists>view attn pos_ids h h' kvs. module_sees kvh B hist view attn pos_ids \<and> fwd view attn pos_ids [h] = Some ([h'], kvs) \<and>
        rows_hold kvh B off c (extend_rows kvh active kvs hist) m')"

lemma live_inference_step:
  assumes H: "0 < kvh" "kvh \<le> heads_of m" and B: "0 < B" "off + B \<le> full" and info: "live_info off full B active hist info"
    and al: "length active = B" and ready: "live_ready kvh full B off c hist m"
    and fwd: "decodes B kvh (head_dim (slabs m c)) fwd" and lims: "0 < max_shard_num_heads lims" "0 < dtype_bytes lims"
  obtains h' m' where "inference_step fwd lims c B info [h] m = (Inr [h'], m')" and "m' = m\<lparr>slabs := slabs m'\<rparr>"
    and "same_shape m m'" and "\<And>c'. c' \<noteq> c \<Longrightarrow> slabs m' c' = slabs m c'" and "row_step kvh B off active hist fwd c m'"
proof -
  let ?m = "m\<lparr>active_stack := c # active_stack m\<rparr>"
  let ?n = "estimate_max_chunk_length (max_chunk_size_bytes lims) (max_shard_num_heads lims) (dtype_bytes lims) B (si_prefix info) 1"
  have act: "active_cache_slot_id ?m = Some c" by (simp add: active_cache_slot_id_def)
  have H': "kvh \<le> heads_of ?m" and ready': "live_ready kvh full B off c hist ?m" and fwd': "decodes B kvh (head_dim (slabs ?m c)) fwd"
    using H(2) ready fwd by (simp_all add: live_ready_def whole_fits_def capacity_of_def rows_hold_def)
  have n: "0 < ?n" by (simp add: estimate_max_chunk_length_def)
  obtain view attn pos_ids h' kvs m' where st: "module_sees kvh B hist view attn pos_ids" "fwd view attn pos_ids [h] = Some ([h'], kvs)"
      "step_body fwd ?n B info [h] ?m = (Inr [h'], m')" "m' = ?m\<lparr>slabs := slabs m'\<rparr>" "same_shape ?m m'"
      "\<And>c'. c' \<noteq> c \<Longrightarrow> slabs m' c' = slabs ?m c'" "rows_hold kvh B off c (extend_rows kvh active kvs hist) m'"
  proof (rule live_step_body [OF act H(1) H' B info al ready' n fwd', of h], goal_cases)
    case 1
    from 1(2-) show ?case by (rule 1(1))
  qed
  let ?r = "m'\<lparr>active_stack := tl (active_stack m')\<rparr>"
  have "?r = ?m\<lparr>slabs := slabs m'\<rparr>\<lparr>active_stack := active_stack m\<rparr>" by (subst st(4), subst st(4)) simp
  then have r: "?r = m\<lparr>slabs := slabs m'\<rparr>" by simp
  show thesis
  proof (rule that)
    show "inference_step fwd lims c B info [h] m = (Inr [h'], ?r)"
      using st(3) B lims by (simp add: inference_step_def use_cache_ctx_def)
    show "?r = m\<lparr>slabs := slabs ?r\<rparr>" using r by simp
    show "same_shape m ?r" using st(5) by (simp add: same_shape_def)
    show "slabs ?r c' = slabs m c'" if "c' \<noteq> c" for c' using st(6) [OF that] by simp
    have "rows_hold kvh B off c (extend_rows kvh active kvs hist) ?r" using st(7) by (simp add: rows_hold_def)
    then show "row_step kvh B off active hist fwd c ?r" unfolding row_step_def using st(1,2) by blast
  qed
qed

section \<open>The rows of all blocks\<close>

definition block_live ::
  "nat \<Rightarrow> nat \<Rightarrow> nat \<Rightarrow> nat \<Rightarrow> bool list \<Rightarrow> (nat \<Rightarrow> nat \<Rightarrow> 'a row_history) \<Rightarrow> 'a kv_manager \<Rightarrow> ('a, 'h) merged_block \<Rightarrow> bool" where
  "block_live kvh full B off active hist m b \<longleftrightarrow>
     live_info off full B active (hist (mb_cache b)) (mb_info b) \<and>
     live_ready kvh full B off (mb_cache b) (hist (mb_cache b)) m \<and>
     decodes B kvh (head_dim (slabs m (mb_cache b))) (mb_forward b) \<and>
     0 < max_shard_num_heads (mb_limits b) \<and> 0 < dtype_bytes (mb_limits b)"

lemma rows_hold_cong:
  "slabs m' c = slabs m c \<Longrightarrow> kv_cfg m' = kv_cfg m \<Longrightarrow> rows_hold kvh B off c hist m' = rows_hold kvh B off c hist m"
  by (simp add: rows_hold_def)

lemma block_live_cong:
  assumes "slabs m' (mb_cache b) = slabs m (mb_cache b)" and "kv_cfg m' = kv_cfg m"
  shows "block_live kvh full B off active hist m' b = block_live kvh full B off active hist m b"
  using assms by (simp add: block_live_def live_ready_def whole_fits_def capacity_of_def rows_hold_def)

lemma add_short_prompt:
  assumes "case prompt of None \<Rightarrow> True | Some p \<Rightarrow> length p \<le> 1"
  obtains h' where "add_prompt prompt [h] = Inr [h']"
proof (cases prompt)
  case (Some p)
  then have "p = [] \<or> (\<exists>x. p = [x])" using assms by (cases p) auto
  then show thesis using that by (auto simp: add_prompt_def Some)
qed (use that in \<open>simp add: add_prompt_def\<close>)

lemma merged_blocks_extend_rows:
  assumes "0 < kvh" "kvh \<le> heads_of m" "0 < B" "off + B \<le> full" "length active = B"
    and "distinct (map (mb_cache \<circ> fst) bs)"
    and "\<And>b prompt. (b, prompt) \<in> set bs \<Longrightarrow> block_live kvh full B off active hist m b"
    and "\<And>b prompt. (b, prompt) \<in> set bs \<Longrightarrow> case prompt of None \<Rightarrow> True | Some p \<Rightarrow> length p \<le> 1"
  shows "\<exists>h' m'. merged_blocks B bs [h] m = (Inr [h'], m') \<and> kv_cfg m' = kv_cfg m \<and>
    (\<forall>c. c \<notin> (mb_cache \<circ> fst) ` set bs \<longrightarrow> slabs m' c = slabs m c) \<and>
    (\<forall>b \<in> fst ` set bs. row_step kvh B off active (hist (mb_cache b)) (mb_forward b) (mb_cache b) m')"
  using assms
proof (induction bs arbitrary: h m)
  case Nil
  then show ?case by simp
next
  case (Cons x bs)
  obtain b prompt where x: "x = (b, prompt)" by (cases x)
  let ?c = "mb_cache b"
  obtain h1 where h1: "add_prompt prompt [h] = Inr [h1]"
    using add_short_prompt Cons.prems(8) [of b prompt] x by auto
  have bl: "block_live kvh full B off active hist m b" using Cons.prems(7) [of b prompt] x by simp
  have info: "live_info off full B active (hist ?c) (mb_info b)" and ready: "live_ready kvh full B off ?c (hist ?c) m"
    and fwd: "decodes B kvh (head_dim (slabs m ?c)) (mb_forward b)"
    and lims: "0 < max_shard_num_heads (mb_limits b)" "0 < dtype_bytes (mb_limits b)"
    using bl by (simp_all add: block_live_def)
  obtain h2 m1 where st: "inference_step (mb_forward b) (mb_limits b) ?c B (mb_info b) [h1] m = (Inr [h2], m1)"
      "m1 = m\<lparr>slabs := slabs m1\<rparr>" "\<And>c'. c' \<noteq> ?c \<Longrightarrow> slabs m1 c' = slabs m c'"
      "row_step kvh B off active (hist ?c) (mb_forward b) ?c m1"
  proof (rule live_inference_step [OF Cons.prems(1-4) info Cons.prems(5) ready fwd lims, of h1], goal_cases)
    case 1
    from 1(2,3,5,6) show ?case by (rule 1(1))
  qed
  have cfg: "kv_cfg m1 = kv_cfg m" by (subst st(2)) simp
  have other: "mb_cache b' \<noteq> ?c" if "(b', p') \<in> set bs" for b' p' using Cons.prems(6) that by (force simp: x)
  obtain h' m' where ih: "merged_blocks B bs [h2] m1 = (Inr [h'], m')" "kv_cfg m' = kv_cfg m1"
      "\<forall>c. c \<notin> (mb_cache \<circ> fst) ` set bs \<longrightarrow> slabs m' c = slabs m1 c"
      "\<forall>b \<in> fst ` set bs. row_step kvh B off active (hist (mb_cache b)) (mb_forward b) (mb_cache b) m'"
  proof -
    have "\<exists>h' m'. merged_blocks B bs [h2] m1 = (Inr [h'], m') \<and> kv_cfg m' = kv_cfg m1 \<and>
      (\<forall>c. c \<notin> (mb_cache \<circ> fst) ` set bs \<longrightarrow> slabs m' c = slabs m1 c) \<and>
      (\<forall>b \<in> fst ` set bs. row_step kvh B off active (hist (mb_cache b)) (mb_forward b) (mb_cache b) m')"
    proof (rule Cons.IH)
      show "block_live kvh full B off active hist m1 b'" if m: "(b', p') \<in> set bs" for b' p'
        using block_live_cong [of m1 b' m, OF st(3) [OF other [OF m]] cfg] Cons.prems(7) [of b' p'] m by simp
      show "case p' of None \<Rightarrow> True | Some p \<Rightarrow> length p \<le> 1" if "(b', p') \<in> set bs" for b' p'
        using Cons.prems(8) [of b' p'] that by simp
    qed (use Cons.prems cfg in simp_all)
    then show thesis using that by blast
  qed
  have notin: "?c \<notin> (mb_cache \<circ> fst) ` set bs" using Cons.prems(6) by (simp add: x)
  have "row_step kvh B off active (hist ?c) (mb_forward b) ?c m'"
    using st(4) rows_hold_cong [of m' ?c m1] ih(2,3) notin unfolding row_step_def by metis
  then show ?case using h1 st(1,3) ih cfg by (auto simp: x)
qed


section \<open>A prefill in chunks\<close>

lemma chunk_loop_last:
  assumes "0 < len" and "off < length hs"
  shows "\<exists>out. chunk_loop (\<lambda>k chunk. Some (run k chunk)) hs len off acc =
     Some (out, Some (snd (run (off + (length hs - off - 1) div len * len) (drop (off + (length hs - off - 1) div len * len) hs))))"
  using assms
proof (induction "length hs - off" arbitrary: off acc rule: less_induct)
  case less
  obtain out k where run: "run off (take len (drop off hs)) = (out, k)" by (cases "run off (take len (drop off hs))")
  have step: "chunk_loop (\<lambda>k chunk. Some (run k chunk)) hs len off acc =
      chunk_loop (\<lambda>k chunk. Some (run k chunk)) hs len (off + len) (fst acc @ out, Some k)"
    using less.prems run by (subst chunk_loop.simps) simp
  show ?case
  proof (cases "off + len < length hs")
    case True
    have "(length hs - off - 1) div len = Suc ((length hs - (off + len) - 1) div len)"
    proof -
      have "length hs - off - 1 = (length hs - (off + len) - 1) + len" using True less.prems(1) by simp
      then show ?thesis using less.prems(1) by (simp only: div_add_self2)
    qed
    then have "off + (length hs - off - 1) div len * len = off + len + (length hs - (off + len) - 1) div len * len" by simp
    then show ?thesis unfolding step using less.hyps [of "off + len" "(fst acc @ out, Some k)"] True less.prems by (simp add: add.assoc)
  next
    case False
    then have "(length hs - off - 1) div len = 0" using less.prems by (intro div_less) linarith
    moreover have "take len (drop off hs) = drop off hs" using False by simp
    moreover have "chunk_loop (\<lambda>k chunk. Some (run k chunk)) hs len (off + len) (fst acc @ out, Some k) = Some (fst acc @ out, Some k)"
      using False by (subst chunk_loop.simps) simp
    ultimately show ?thesis unfolding step using run by simp
  qed
qed

definition last_chunk :: "nat \<Rightarrow> 'h list \<Rightarrow> nat" where
  "last_chunk len hs = (length hs - 1) div len * len"

lemma last_chunk_less: "hs \<noteq> [] \<Longrightarrow> last_chunk len hs < length hs"
  unfolding last_chunk_def
  by (metis diff_less div_times_less_eq_dividend le_less_trans length_greater_0_conv zero_less_one)

text \<open>The keys and values of a module, for a chunk of any length.\<close>

definition chunk_kvs :: "nat \<Rightarrow> nat \<Rightarrow> nat \<Rightarrow> ('a pkv option \<Rightarrow> bool list list list option \<Rightarrow> nat list list \<Rightarrow> 'h list \<Rightarrow> 'h list \<times> 'a new_kvs) \<Rightarrow> bool" where
  "chunk_kvs B kvh D g \<longleftrightarrow>
     (\<forall>view attn pos_ids chunk.
        key_shape (snd (g view attn pos_ids chunk)) = [B * kvh, D, length chunk] \<and>
        value_shape (snd (g view attn pos_ids chunk)) = [B * kvh, length chunk, D])"

definition plain_info :: "nat \<Rightarrow> nat \<Rightarrow> nat \<Rightarrow> step_info \<Rightarrow> bool" where
  "plain_info off full B info \<longleftrightarrow>
     si_offset info = off \<and> si_full info = full \<and> si_micro info = B \<and> si_prefix info = 0 \<and> si_mask info = None"

lemma slice_all_rows:
  assumes "key_shape kvs = [B * kvh, d, n]" and "value_shape kvs = [B * kvh, n', d']"
  shows "slice_kv_rows kvs 0 B kvh = kvs"
  using assms by (cases kvs) (simp add: slice_kv_rows_def Let_def)

lemma plain_prefill_body:
  assumes act: "active_cache_slot_id m = Some c" and H: "0 < kvh" "kvh \<le> heads_of m" and fit: "whole_fits full m c"
    and B: "0 < B" "off + B \<le> full" and info: "plain_info off full B info" and hs: "hs \<noteq> []" "length hs \<le> seq_total (slabs m c)"
    and n: "0 < n" and g: "chunk_kvs B kvh (head_dim (slabs m c)) g"
    and kvs: "kvs = snd (g None (step_attention_mask B (length hs) 0 None)
       (step_position_ids B 0 None (min n (length hs - last_chunk n hs)) (last_chunk n hs)) (drop (last_chunk n hs) hs))"
  obtains out where
    "step_body (\<lambda>v a p ch. Some (g v a p ch)) n B info hs m =
       (Inr out, m\<lparr>slabs := (slabs m)(c := (slabs m c)\<lparr>
          k_data := rows_written (heads_of m) kvh (off * heads_of m) 0 (length hs - last_chunk n hs) {..<B}
                      (\<lambda>s b. key_at kvs b s) (k_data (slabs m c)),
          v_data := rows_written (heads_of m) kvh (off * heads_of m) 0 (length hs - last_chunk n hs) {..<B}
                      (\<lambda>s b. value_at kvs b s) (v_data (slabs m c))\<rparr>)\<rparr>)"
proof -
  let ?L = "length hs" and ?z = "last_chunk n hs"
  have sn: "0 < ?L - ?z" "0 + (?L - ?z) \<le> seq_total (slabs m c)" using last_chunk_less [OF hs(1), of n] hs(2) by auto
  have sh: "key_shape kvs = [B * kvh, head_dim (slabs m c), ?L - ?z]" "value_shape kvs = [B * kvh, ?L - ?z, head_dim (slabs m c)]"
    using g by (simp_all add: chunk_kvs_def kvs)
  have "write_kvs kvs 0 off full B None m = (Inr (), m\<lparr>slabs := (slabs m)(c := (slabs m c)\<lparr>
          k_data := rows_written (heads_of m) kvh (off * heads_of m) 0 (?L - ?z) {..<B} (\<lambda>s b. key_at kvs b s) (k_data (slabs m c)),
          v_data := rows_written (heads_of m) kvh (off * heads_of m) 0 (?L - ?z) {..<B} (\<lambda>s b. value_at kvs b s) (v_data (slabs m c))\<rparr>)\<rparr>)"
    using run_written [OF act H fit B sh order_refl sn] by (simp add: slice_all_rows [OF sh])
  then have fin: "finalize_cache_update kvs 0 info m = \<dots>"
    using info by (simp add: finalize_cache_update_def plain_info_def active_mask_list_def)
  have live: "live_row_positions info B ?L = None" using info by (simp add: live_row_positions_def plain_info_def active_mask_list_def)
  have sel: "select_cache 0 None off full B None m = (Inr (None, False), m)" using act by (simp add: select_cache_def)
  obtain out where "chunk_loop (\<lambda>k chunk. Some (g None (step_attention_mask B ?L 0 None)
      (step_position_ids B 0 None (min n (?L - k)) k) chunk)) hs n 0 ([], None) = Some (out, Some kvs)"
    using chunk_loop_last [OF n, of 0 hs "\<lambda>k chunk. g None (step_attention_mask B ?L 0 None)
        (step_position_ids B 0 None (min n (?L - k)) k) chunk" "([], None)"] hs(1)
    by (auto simp: kvs last_chunk_def)
  then have "step_body (\<lambda>v a p ch. Some (g v a p ch)) n B info hs m =
      (case finalize_cache_update kvs 0 info m of (Inl e, m2) \<Rightarrow> (Inl e, m2) | (Inr _, m2) \<Rightarrow> (Inr out, m2))"
    using info live sel by (simp add: step_body_def plain_info_def Let_def)
  then show thesis using that [of out] unfolding fin by simp
qed


section \<open>The properties\<close>

text \<open>
  C8 One decoding step of a server over rows that are different requests at different positions: in
  every block of the merged step each row attends to exactly its own keys and values and to the new
  token, at its own position, and afterwards the cache of the block holds for every active row its
  history followed by the new keys and values and for every other row its history unchanged. The
  step returns.
\<close>

theorem merged_step_extends_every_row:
  assumes "0 < kvh" "kvh \<le> heads_of m" "0 < B" "off + B \<le> full" "length active = B"
    and "blocks \<noteq> []" "length prompts = length blocks" "distinct (map mb_cache blocks)"
    and "\<And>b. b \<in> set blocks \<Longrightarrow> block_live kvh full B off active hist m b"
    and "\<And>p. Some p \<in> set prompts \<Longrightarrow> length p \<le> 1"
  shows "\<exists>h' m'. merged_inference_step B blocks prompts [h] m = (Inr [h'], m') \<and>
    (\<forall>b \<in> set blocks. row_step kvh B off active (hist (mb_cache b)) (mb_forward b) (mb_cache b) m')"
proof -
  let ?bs = "zip blocks prompts"
  have fsts: "map fst ?bs = blocks" using assms(7) by simp
  have d: "distinct (map (mb_cache \<circ> fst) ?bs)" using assms(8) by (simp only: map_map [symmetric] fsts)
  have bl: "block_live kvh full B off active hist m b" if "(b, prompt) \<in> set ?bs" for b prompt
    using assms(9) set_zip_leftD [OF that] .
  have pr: "case prompt of None \<Rightarrow> True | Some p \<Rightarrow> length p \<le> 1" if "(b, prompt) \<in> set ?bs" for b prompt
    using assms(10) set_zip_rightD [OF that] by (cases prompt) auto
  have "fst ` set ?bs = set blocks" using fsts by (metis set_map)
  then show ?thesis
    using merged_blocks_extend_rows [OF assms(1-5) d, of hist h] bl pr assms(6,7)
    by (fastforce simp: merged_inference_step_def)
qed

definition example_block :: "nat \<Rightarrow> nat \<Rightarrow> (nat, nat) merged_block" where
  "example_block c v = \<lparr>
     mb_forward = (\<lambda>_ _ _ hs. Some (map Suc hs, \<lparr>key_shape = [2, 1, 1], value_shape = [2, 1, 1],
                     key_at = (\<lambda>b _. v + b), value_at = (\<lambda>b _. v + b)\<rparr>)),
     mb_limits = \<lparr>max_chunk_size_bytes = 64, max_shard_num_heads = 2, dtype_bytes = 2\<rparr>,
     mb_cache = c,
     mb_info = \<lparr>si_offset = 0, si_full = 2, si_micro = 2, si_prefix = 1, si_mask = Some [True, False],
                si_positions = Some [0, 1]\<rparr>\<rparr>"

definition example_history :: "nat \<Rightarrow> nat \<Rightarrow> nat row_history" where
  "example_history c b = (if b = 1 then [(\<lambda>_. 0, \<lambda>_. 0)] else [])"

theorem merged_step_extends_every_row_witness:
  "\<exists>h' m'. merged_inference_step 2 [example_block 7 10, example_block 8 20] [None, Some [5]] [3] example_whole = (Inr [h'], m') \<and>
    (\<forall>b \<in> set [example_block 7 10, example_block 8 20].
       row_step 1 2 0 [True, False] (example_history (mb_cache b)) (mb_forward b) (mb_cache b) m')"
proof (rule merged_step_extends_every_row [where full = 2])
  show "block_live 1 2 2 0 [True, False] example_history example_whole b" if "b \<in> set [example_block 7 10, example_block 8 20]" for b
  proof -
    have "b = example_block 7 10 \<or> b = example_block 8 20" using that by simp
    moreover have "[0..<2] = [0, Suc 0]" by (simp add: upt_rec)
    ultimately show ?thesis
      by (auto simp: block_live_def live_info_def live_ready_def decodes_def decode_kvs_def rows_hold_def example_block_def
          example_history_def example_whole_def example_manager_def whole_fits_def capacity_of_def)
  qed
qed (auto simp: example_block_def example_whole_def example_manager_def)

text \<open>
  C37 A prefill runs in chunks when its attention would need too much memory, and only the last chunk
  reaches the cache: after the step the first positions of the rows hold the keys and values of the
  tokens from \<open>last_chunk\<close> on, and the later positions are what they were before. When the prefill
  is one chunk these are all its tokens.
\<close>

theorem prefill_keeps_last_chunk:
  fixes g :: "'a pkv option \<Rightarrow> bool list list list option \<Rightarrow> nat list list \<Rightarrow> 'h list \<Rightarrow> 'h list \<times> 'a new_kvs"
  assumes H: "0 < kvh" "kvh \<le> heads_of m" and fit: "whole_fits full m c" and B: "0 < B" "off + B \<le> full"
    and info: "plain_info off full B info" and hs: "hs \<noteq> []" "length hs \<le> seq_total (slabs m c)"
    and lims: "0 < max_shard_num_heads lims" "0 < dtype_bytes lims"
    and n: "n = estimate_max_chunk_length (max_chunk_size_bytes lims) (max_shard_num_heads lims) (dtype_bytes lims) B 0 (length hs)"
    and g: "chunk_kvs B kvh (head_dim (slabs m c)) g"
  shows "\<exists>out m' pos_ids. inference_step (\<lambda>v a p ch. Some (g v a p ch)) lims c B info hs m = (Inr out, m') \<and>
    (let z = last_chunk n hs; kvs = snd (g None (step_attention_mask B (length hs) 0 None) pos_ids (drop z hs)) in
     (length hs \<le> n \<longrightarrow> z = 0) \<and> (n < length hs \<longrightarrow> n \<le> z) \<and> z < length hs \<and>
     (\<forall>b<B. \<forall>h<kvh. \<forall>s. k_data (slabs m' c) s ((off + b) * heads_of m + h) =
        (if s < length hs - z then key_at kvs (b * kvh + h) s else k_data (slabs m c) s ((off + b) * heads_of m + h))))"
proof -
  let ?m = "m\<lparr>active_stack := c # active_stack m\<rparr>" and ?z = "last_chunk n hs"
  define pos_ids where "pos_ids = step_position_ids B 0 None (min n (length hs - ?z)) ?z"
  define kvs where "kvs = snd (g None (step_attention_mask B (length hs) 0 None) pos_ids (drop ?z hs))"
  have n0: "0 < n" by (simp add: n estimate_max_chunk_length_def)
  have act: "active_cache_slot_id ?m = Some c" by (simp add: active_cache_slot_id_def)
  have H': "kvh \<le> heads_of ?m" and fit': "whole_fits full ?m c" and hs': "length hs \<le> seq_total (slabs ?m c)"
    and g': "chunk_kvs B kvh (head_dim (slabs ?m c)) g"
    using H(2) fit hs(2) g by (simp_all add: whole_fits_def capacity_of_def)
  obtain out where st: "step_body (\<lambda>v a p ch. Some (g v a p ch)) n B info hs ?m =
       (Inr out, ?m\<lparr>slabs := (slabs m)(c := (slabs m c)\<lparr>
          k_data := rows_written (heads_of m) kvh (off * heads_of m) 0 (length hs - ?z) {..<B} (\<lambda>s b. key_at kvs b s) (k_data (slabs m c)),
          v_data := rows_written (heads_of m) kvh (off * heads_of m) 0 (length hs - ?z) {..<B} (\<lambda>s b. value_at kvs b s) (v_data (slabs m c))\<rparr>)\<rparr>)"
    using plain_prefill_body [OF act H(1) H' fit' B info hs(1) hs' n0 g' kvs_def [unfolded pos_ids_def]] by auto
  define m' where "m' = m\<lparr>slabs := (slabs m)(c := (slabs m c)\<lparr>
          k_data := rows_written (heads_of m) kvh (off * heads_of m) 0 (length hs - ?z) {..<B} (\<lambda>s b. key_at kvs b s) (k_data (slabs m c)),
          v_data := rows_written (heads_of m) kvh (off * heads_of m) 0 (length hs - ?z) {..<B} (\<lambda>s b. value_at kvs b s) (v_data (slabs m c))\<rparr>)\<rparr>"
  have "si_prefix info = 0" using info by (simp add: plain_info_def)
  then have step: "inference_step (\<lambda>v a p ch. Some (g v a p ch)) lims c B info hs m = (Inr out, m')"
    using st B lims hs(1) by (simp add: inference_step_def use_cache_ctx_def n [symmetric] m'_def)
  have data: "k_data (slabs m' c) s ((off + b) * heads_of m + h) =
      (if s < length hs - ?z then key_at kvs (b * kvh + h) s else k_data (slabs m c) s ((off + b) * heads_of m + h))"
    if "b < B" "h < kvh" for b h s
    using rows_written_at [of h "heads_of m" kvh off 0 "length hs - ?z" B "\<lambda>s b. key_at kvs b s" "k_data (slabs m c)" s "off + b"] that H
    by (simp add: m'_def)
  have "?z = 0" if "length hs \<le> n" using that hs(1) n0 by (cases hs) (auto simp: last_chunk_def)
  moreover have "n \<le> ?z" if "n < length hs"
  proof -
    have "n div n \<le> (length hs - 1) div n" using that by (intro div_le_mono) simp
    then show ?thesis using n0 by (simp add: last_chunk_def)
  qed
  moreover have "?z < length hs" using hs(1) by (rule last_chunk_less)
  ultimately show ?thesis using step data by (intro exI [of _ out] exI [of _ m'] exI [of _ pos_ids]) (simp add: Let_def kvs_def)
qed


definition example_module :: "nat pkv option \<Rightarrow> bool list list list option \<Rightarrow> nat list list \<Rightarrow> nat list \<Rightarrow> nat list \<times> nat new_kvs" where
  "example_module v a p chunk = (chunk, \<lparr>key_shape = [2, 1, length chunk], value_shape = [2, length chunk, 1],
     key_at = (\<lambda>_ s. chunk ! s), value_at = (\<lambda>_ s. chunk ! s)\<rparr>)"

theorem prefill_keeps_last_chunk_witness:
  "\<exists>out m'. inference_step (\<lambda>v a p ch. Some (example_module v a p ch))
       \<lparr>max_chunk_size_bytes = 12, max_shard_num_heads = 1, dtype_bytes = 1\<rparr> 7 2
       \<lparr>si_offset = 0, si_full = 2, si_micro = 2, si_prefix = 0, si_mask = None, si_positions = None\<rparr>
       [31, 32, 33] example_whole = (Inr out, m') \<and>
     k_data (slabs m' 7) 0 0 = 33 \<and> k_data (slabs m' 7) 1 0 = 0 \<and> k_data (slabs m' 7) 2 0 = 0"
proof -
  let ?lims = "\<lparr>max_chunk_size_bytes = 12, max_shard_num_heads = 1, dtype_bytes = 1\<rparr>"
  let ?info = "\<lparr>si_offset = 0, si_full = 2, si_micro = 2, si_prefix = 0, si_mask = None, si_positions = None\<rparr>"
  have n: "2 = estimate_max_chunk_length (max_chunk_size_bytes ?lims) (max_shard_num_heads ?lims) (dtype_bytes ?lims) 2 0
      (length [31::nat, 32, 33])" by (simp add: estimate_max_chunk_length_def)
  have z: "last_chunk 2 [31::nat, 32, 33] = 2" by (simp add: last_chunk_def)
  obtain out m' where r: "inference_step (\<lambda>v a p ch. Some (example_module v a p ch)) ?lims 7 2 ?info [31, 32, 33] example_whole = (Inr out, m')"
      "\<forall>b<2. \<forall>h<1. \<forall>s. k_data (slabs m' 7) s ((0 + b) * heads_of example_whole + h) =
        (if s < 1 then [33::nat] ! s else k_data (slabs example_whole 7) s ((0 + b) * heads_of example_whole + h))"
    using prefill_keeps_last_chunk [of 1 example_whole 2 7 2 0 ?info "[31, 32, 33]" ?lims 2 example_module, OF _ _ _ _ _ _ _ _ _ _ n]
    by (auto simp: z Let_def example_module_def chunk_kvs_def plain_info_def example_whole_def example_manager_def whole_fits_def capacity_of_def)
  have "k_data (slabs m' 7) s 0 = (if s < 1 then [33] ! s else k_data (slabs example_whole 7) s 0)" for s
    using r(2) [rule_format, of 0 0 s] by simp
  then show ?thesis using r(1) by (auto simp: example_whole_def example_manager_def)
qed

end
