(* ===== verification/RemoteTraining.thy ===== *)
theory RemoteTraining
  imports Routing ServerStage
begin

text \<open>
  Training through the swarm: the forward and backward passes of a server over its blocks
  (\<open>run_rpc_forward\<close> and \<open>run_rpc_backward\<close> of \<open>server/block_functions.py\<close>), the client that chains
  servers and replaces the ones that fail (\<open>client/sequential_autograd.py\<close>), and the autograd function
  that splits a batch. The forward and backward functions of the blocks are parameters. A tensor is
  a list of rows of positions; a dummy tensor has no element.
\<close>

section \<open>A server\<close>

record 'h train_blocks =
  block_forward :: "nat \<Rightarrow> 'h list list \<Rightarrow> 'h list list"
  block_backward :: "nat \<Rightarrow> 'h list list \<Rightarrow> 'h list list \<Rightarrow> 'h list list"

definition no_elements :: "'h list list \<Rightarrow> bool" where
  "no_elements p \<longleftrightarrow> concat p = []"

definition add_row :: "'h::plus list \<Rightarrow> 'h list \<Rightarrow> 'h list" where
  "add_row p x = map2 (+) (take (length p) x) p @ drop (length p) x"

text \<open>\<open>hidden_states[:, : prompt.shape[1]] += prompt\<close>, with the broadcast over rows.\<close>

definition add_prompts :: "'h::plus list list \<Rightarrow> 'h list list \<Rightarrow> 'h list list result" where
  "add_prompts p x =
     (if no_elements p then Inr x
      else let rows = (if length p = 1 then replicate (length x) (p ! 0) else p) in
        if length rows \<noteq> length x \<or> (width p > width x \<and> width p \<noteq> 1) then Inl RuntimeError
        else Inr (map2 add_row rows x))"

definition split_prompts :: "'h list list list \<Rightarrow> nat \<Rightarrow> 'h list list list" where
  "split_prompts ps n = (if no_elements (concat ps) then replicate n [] else ps)"

fun forward_chain :: "'h::plus train_blocks \<Rightarrow> (nat \<times> 'h list list) list \<Rightarrow> 'h list list \<Rightarrow> 'h list list result" where
  "forward_chain bl [] x = Inr x"
| "forward_chain bl ((i, p) # bs) x =
     (case add_prompts p x of
        Inl e \<Rightarrow> Inl e
      | Inr y \<Rightarrow> forward_chain bl bs (block_forward bl i y))"

definition run_rpc_forward :: "'h::plus train_blocks \<Rightarrow> nat list \<Rightarrow> 'h list list \<Rightarrow> 'h list list list \<Rightarrow> 'h list list result" where
  "run_rpc_forward bl uids x ps =
     (if uids = [] then Inl IndexError else forward_chain bl (zip uids (split_prompts ps (length uids))) x)"

fun inter_chain ::
  "'h::plus train_blocks \<Rightarrow> (nat \<times> 'h list list) list \<Rightarrow> 'h list list \<Rightarrow> 'h list list list \<Rightarrow> ('h list list \<times> 'h list list list) result" where
  "inter_chain bl [] x acc = Inr (x, acc)"
| "inter_chain bl ((i, p) # bs) x acc =
     (case add_prompts p x of
        Inl e \<Rightarrow> Inl e
      | Inr y \<Rightarrow> inter_chain bl bs (block_forward bl i y) (acc @ [y]))"

fun backward_chain ::
  "'h train_blocks \<Rightarrow> ('h list list \<times> 'h list list \<times> nat) list \<Rightarrow> 'h list list \<Rightarrow> 'h list list list \<Rightarrow> 'h list list \<times> 'h list list list" where
  "backward_chain bl [] g acc = (g, acc)"
| "backward_chain bl ((y, p, i) # bs) g acc =
     (let g' = block_backward bl i y g in
      backward_chain bl bs g' (if no_elements p then acc else acc @ [map (take (width p)) g']))"

text \<open>The gradients of the prompts are \<open>[]\<close> when the code returns the gradient of the inputs alone.\<close>

definition run_rpc_backward ::
  "'h::plus train_blocks \<Rightarrow> nat list \<Rightarrow> 'h list list \<Rightarrow> 'h list list \<Rightarrow> 'h list list list \<Rightarrow> ('h list list \<times> 'h list list list) result" where
  "run_rpc_backward bl uids x g ps =
     (if uids = [] then Inl IndexError
      else let prompts = split_prompts ps (length uids) in
        case inter_chain bl (zip (butlast uids) (butlast prompts)) x [] of
          Inl e \<Rightarrow> Inl e
        | Inr (z, acc) \<Rightarrow>
            if prompts = [] then Inl IndexError
            else (case add_prompts (last prompts) z of
                    Inl e \<Rightarrow> Inl e
                  | Inr y \<Rightarrow>
                      let inters = acc @ [y] in
                      if length inters \<noteq> length prompts \<or> length prompts \<noteq> length uids then Inl AssertionError
                      else let (g', gps) = backward_chain bl (rev (zip inters (zip prompts uids))) g []
                           in Inr (g', if no_elements (concat gps) then [] else rev gps)))"

section \<open>The client\<close>

text \<open>
  What the client sees of the swarm may change after every call, so the routing tables, the draws,
  the round-trip times and the answers are functions of the calls so far.
\<close>

datatype 'p call_event = Succeeded 'p | Failed "'p option"

record 'p training_swarm =
  ts_pick :: "'p call_event list \<Rightarrow> nat \<Rightarrow> 'p span_info list \<Rightarrow> real list \<Rightarrow> 'p span_info"
  ts_rtts :: "'p call_event list \<Rightarrow> 'p \<Rightarrow> rtt option"
  ts_info :: "'p call_event list \<Rightarrow> 'p sequence_info"
  ts_fails :: "'p call_event list \<Rightarrow> 'p \<Rightarrow> py_error option"

definition route :: "'p training_swarm \<Rightarrow> 'p call_event list \<Rightarrow> nat \<Rightarrow> nat \<Rightarrow> 'p span_info list result" where
  "route sw calls a b = make_sequence_with_max_throughput (ts_pick sw calls) (ts_rtts sw calls) a b (ts_info sw calls)"

definition trim_route :: "nat \<Rightarrow> 'p span_info list \<Rightarrow> 'p span_info list result" where
  "trim_route b ss =
     (if ss = [] then Inl IndexError
      else Inr (butlast ss @ [(last ss)\<lparr>span_end := min (span_end (last ss)) (int b)\<rparr>]))"

definition span_uids :: "'p span_info \<Rightarrow> nat list" where
  "span_uids sp = [nat (span_start sp)..<nat (span_end sp)]"

definition span_prompts :: "'p span_info \<Rightarrow> 'b list \<Rightarrow> 'b list" where
  "span_prompts sp ps = pyslice (nat (span_start sp)) (nat (span_end sp)) ps"

definition call_peer :: "'p training_swarm \<Rightarrow> 'p call_event list \<Rightarrow> 'p \<Rightarrow> 'r result \<Rightarrow> 'r result" where
  "call_peer sw calls p answer = (case ts_fails sw calls p of Some e \<Rightarrow> Inl e | None \<Rightarrow> answer)"

definition same_tensor_shape :: "'h list list \<Rightarrow> 'h list list \<Rightarrow> bool" where
  "same_tensor_shape x y \<longleftrightarrow> map length x = map length y"

definition next_span ::
  "'p training_swarm \<Rightarrow> 'p call_event list \<Rightarrow> nat \<Rightarrow> nat \<Rightarrow> nat \<Rightarrow> 'p span_info list \<Rightarrow> 'p span_info list result" where
  "next_span sw calls attempt block_idx end_index sequences =
     (if sequences = [] \<or> attempt \<ge> 1 then
        (case route sw calls block_idx end_index of Inl e \<Rightarrow> Inl e | Inr ss \<Rightarrow> trim_route end_index ss)
      else Inr sequences)"

definition try_forward ::
  "'h::plus train_blocks \<Rightarrow> 'p training_swarm \<Rightarrow> 'p call_event list \<Rightarrow> 'h list list list \<Rightarrow> 'p span_info \<Rightarrow> 'h list list \<Rightarrow> 'h list list result" where
  "try_forward bl sw calls prompts sp inputs =
     (case call_peer sw calls (span_peer sp) (run_rpc_forward bl (span_uids sp) inputs (span_prompts sp prompts)) of
        Inl e \<Rightarrow> Inl e
      | Inr outputs \<Rightarrow> if same_tensor_shape outputs inputs then Inr outputs else Inl AssertionError)"

partial_function (option) forward_loop ::
  "'h::plus train_blocks \<Rightarrow> 'p training_swarm \<Rightarrow> nat option \<Rightarrow> 'h list list list \<Rightarrow> nat \<Rightarrow> nat \<Rightarrow> nat \<Rightarrow> 'p span_info list \<Rightarrow>
   'h list list \<Rightarrow> 'h list list list \<Rightarrow> 'p span_info list \<Rightarrow> 'p call_event list \<Rightarrow>
   (('h list list \<times> 'h list list list \<times> 'p span_info list) result \<times> 'p call_event list) option" where
  "forward_loop bl sw retries prompts end_index attempt block_idx sequences inputs inters dones calls =
     (if end_index \<le> block_idx then Some (Inr (inputs, inters, dones), calls)
      else case next_span sw calls attempt block_idx end_index sequences of
        Inl e \<Rightarrow>
          if retries = Some (attempt + 1) then Some (Inl e, calls @ [Failed None])
          else forward_loop bl sw retries prompts end_index (attempt + 1) block_idx sequences inputs inters dones (calls @ [Failed None])
      | Inr ss \<Rightarrow>
          (case try_forward bl sw calls prompts (hd ss) inputs of
             Inl e \<Rightarrow>
               if retries = Some (attempt + 1) then Some (Inl e, calls @ [Failed (Some (span_peer (hd ss)))])
               else forward_loop bl sw retries prompts end_index (attempt + 1) block_idx (tl ss) inputs inters dones
                      (calls @ [Failed (Some (span_peer (hd ss)))])
           | Inr outputs \<Rightarrow>
               forward_loop bl sw retries prompts end_index 0 (nat (span_end (hd ss))) (tl ss) outputs (inters @ [inputs]) (dones @ [hd ss])
                 (calls @ [Succeeded (span_peer (hd ss))])))"

definition sequential_forward ::
  "'h::plus train_blocks \<Rightarrow> 'p training_swarm \<Rightarrow> nat option \<Rightarrow> nat \<Rightarrow> 'h list list list \<Rightarrow> 'h list list \<Rightarrow> nat \<Rightarrow> nat \<Rightarrow> 'p call_event list \<Rightarrow>
   (('h list list \<times> 'h list list list \<times> 'p span_info list) result \<times> 'p call_event list) option" where
  "sequential_forward bl sw retries n_blocks prompts inputs start_index end_index calls =
     (if end_index > n_blocks \<or> \<not> (no_elements (concat prompts) \<or> length prompts = n_blocks) then Some (Inl AssertionError, calls)
      else forward_loop bl sw retries prompts end_index 0 start_index [] inputs [] [] calls)"


text \<open>
  The backward pass keeps the inputs and spans that are left as stacks. \<open>cur\<close> is the span whose
  gradient is being computed; a retry first repeats the forward pass over it, which may split it.
\<close>

definition recover ::
  "'h::plus train_blocks \<Rightarrow> 'p training_swarm \<Rightarrow> nat option \<Rightarrow> nat \<Rightarrow> 'h list list list \<Rightarrow> nat \<Rightarrow> 'h list list \<Rightarrow> 'p span_info \<Rightarrow>
   'h list list list \<Rightarrow> 'p span_info list \<Rightarrow> 'p call_event list \<Rightarrow>
   ((('h list list \<times> 'p span_info) \<times> 'h list list list \<times> 'p span_info list) result \<times> 'p call_event list) option" where
  "recover bl sw retries n_blocks prompts attempt inputs sp inters seqs calls =
     (if attempt = 0 then Some (Inr ((inputs, sp), inters, seqs), calls)
      else (case sequential_forward bl sw retries n_blocks prompts inputs (nat (span_start sp)) (nat (span_end sp)) calls of
              None \<Rightarrow> None
            | Some (Inl e, calls1) \<Rightarrow> Some (Inl e, calls1)
            | Some (Inr (_, backup_inputs, backup_seqs), calls1) \<Rightarrow>
                Some (if backup_seqs = [] then Inl IndexError
                      else if length backup_inputs \<noteq> length backup_seqs \<or> span_start (hd backup_seqs) \<noteq> span_start sp \<or>
                              span_end (last backup_seqs) \<noteq> span_end sp then Inl AssertionError
                      else let is = inters @ backup_inputs; ss = seqs @ backup_seqs
                           in Inr ((last is, last ss), butlast is, butlast ss), calls1)))"

definition try_backward ::
  "'h::plus train_blocks \<Rightarrow> 'p training_swarm \<Rightarrow> 'p call_event list \<Rightarrow> 'h list list list \<Rightarrow> 'p span_info \<Rightarrow> 'h list list \<Rightarrow> 'h list list \<Rightarrow>
   ('h list list \<times> 'h list list list) result" where
  "try_backward bl sw calls prompts sp inputs g =
     call_peer sw calls (span_peer sp) (run_rpc_backward bl (span_uids sp) inputs g (span_prompts sp prompts))"

partial_function (option) backward_loop ::
  "'h::plus train_blocks \<Rightarrow> 'p training_swarm \<Rightarrow> nat option \<Rightarrow> nat \<Rightarrow> 'h list list list \<Rightarrow> nat \<Rightarrow> ('h list list \<times> 'p span_info) option \<Rightarrow>
   'h list list list \<Rightarrow> 'p span_info list \<Rightarrow> 'h list list \<Rightarrow> 'h list list list list \<Rightarrow> 'p call_event list \<Rightarrow>
   (('h list list \<times> 'h list list list list) result \<times> 'p call_event list) option" where
  "backward_loop bl sw retries n_blocks prompts attempt cur inters seqs g gps calls =
     (case cur of
        None \<Rightarrow>
          if seqs = [] \<or> inters = [] then Some (Inr (g, gps), calls)
          else backward_loop bl sw retries n_blocks prompts 0 (Some (last inters, last seqs)) (butlast inters) (butlast seqs) g gps calls
      | Some (inputs, sp) \<Rightarrow>
          (case recover bl sw retries n_blocks prompts attempt inputs sp inters seqs calls of
             None \<Rightarrow> None
           | Some (r, calls1) \<Rightarrow>
               (case r of
                  Inl e \<Rightarrow>
                    if retries = Some (attempt + 1) then Some (Inl e, calls1 @ [Failed (Some (span_peer sp))])
                    else backward_loop bl sw retries n_blocks prompts (attempt + 1) (Some (inputs, sp)) inters seqs g gps
                           (calls1 @ [Failed (Some (span_peer sp))])
                | Inr (now, inters1, seqs1) \<Rightarrow>
                    (case try_backward bl sw calls1 prompts (snd now) (fst now) g of
                       Inl e \<Rightarrow>
                         if retries = Some (attempt + 1) then Some (Inl e, calls1 @ [Failed (Some (span_peer (snd now)))])
                         else backward_loop bl sw retries n_blocks prompts (attempt + 1) (Some now) inters1 seqs1 g gps
                                (calls1 @ [Failed (Some (span_peer (snd now)))])
                     | Inr (g1, sgp) \<Rightarrow>
                         backward_loop bl sw retries n_blocks prompts 0 None inters1 seqs1 g1
                           (if sgp = [] then gps else gps @ [sgp]) (calls1 @ [Succeeded (span_peer (snd now))])))))"

definition sequential_backward ::
  "'h::plus train_blocks \<Rightarrow> 'p training_swarm \<Rightarrow> nat option \<Rightarrow> nat \<Rightarrow> 'h list list list \<Rightarrow> 'h list list \<Rightarrow> 'h list list list \<Rightarrow>
   'p span_info list \<Rightarrow> 'p call_event list \<Rightarrow> (('h list list \<times> 'h list list list option) result \<times> 'p call_event list) option" where
  "sequential_backward bl sw retries n_blocks prompts g inters seqs calls =
     (if length inters \<noteq> length seqs then Some (Inl AssertionError, calls)
      else map_option (\<lambda>(r, calls1). (map_sum id (\<lambda>(g1, gps). (g1, if gps = [] then None else Some (concat (rev gps)))) r, calls1))
             (backward_loop bl sw retries n_blocks prompts 0 None inters seqs g [] calls))"

section \<open>Batches\<close>

definition MAX_TOKENS_IN_BATCH :: nat where
  "MAX_TOKENS_IN_BATCH = 1024"

function split_rows :: "nat \<Rightarrow> 'b list \<Rightarrow> 'b list list" where
  "split_rows n xs = (if n = 0 \<or> xs = [] then [] else take n xs # split_rows n (drop n xs))"
  by pat_completeness auto

termination by (relation "measure (\<lambda>(_, xs). length xs)") auto

declare split_rows.simps [simp del]

text \<open>Splitting the prompts of every block along their rows: one table of prompts per batch.\<close>

definition prompt_batches :: "nat \<Rightarrow> nat \<Rightarrow> 'h list list list \<Rightarrow> 'h list list list list" where
  "prompt_batches n k ps =
     (if no_elements (concat ps) then replicate k []
      else map (\<lambda>j. map (\<lambda>p. take n (drop (j * n) p)) ps) [0..<length (split_rows n (hd ps))])"



section \<open>The reference: one server with all blocks\<close>

definition prompt_at :: "'h list list list \<Rightarrow> nat \<Rightarrow> 'h list list" where
  "prompt_at ps i = (if no_elements (concat ps) then [] else ps ! i)"

definition prompted :: "'h::plus list list \<Rightarrow> 'h list list \<Rightarrow> 'h list list" where
  "prompted p x = (if no_elements p then x else map2 add_row p x)"

definition blocks_out :: "'h::plus train_blocks \<Rightarrow> 'h list list list \<Rightarrow> nat list \<Rightarrow> 'h list list \<Rightarrow> 'h list list" where
  "blocks_out bl ps is x = fold (\<lambda>i x. block_forward bl i (prompted (prompt_at ps i) x)) is x"

text \<open>The chain rule, from the last block to the first, with the gradients of the prompts in order.\<close>

fun blocks_grad ::
  "'h::plus train_blocks \<Rightarrow> 'h list list list \<Rightarrow> nat list \<Rightarrow> 'h list list \<Rightarrow> 'h list list \<Rightarrow> 'h list list \<times> 'h list list list" where
  "blocks_grad bl ps [] x g = (g, [])"
| "blocks_grad bl ps (i # is) x g =
     (let y = prompted (prompt_at ps i) x;
          (g1, gps) = blocks_grad bl ps is (block_forward bl i y) g;
          g0 = block_backward bl i y g1
      in (g0, (if no_elements (concat ps) then gps else map (take (width (prompt_at ps i))) g0 # gps)))"

text \<open>
  Blocks keep the shape of a tensor, a gradient has the shape of the input, and the prompts are
  dummies or one table of a common width per block.
\<close>

definition prompts_fit :: "nat \<Rightarrow> 'h list list list \<Rightarrow> nat list \<Rightarrow> bool" where
  "prompts_fit n ps sh \<longleftrightarrow>
     no_elements (concat ps) \<or>
     length ps = n \<and> sh \<noteq> [] \<and> (\<exists>P>0. (\<forall>l \<in> set sh. P \<le> l) \<and> (\<forall>p \<in> set ps. length p = length sh \<and> (\<forall>r \<in> set p. length r = P)))"

definition train_ok :: "'h train_blocks \<Rightarrow> nat \<Rightarrow> 'h list list list \<Rightarrow> nat list \<Rightarrow> bool" where
  "train_ok bl n ps sh \<longleftrightarrow>
     (\<forall>i<n. \<forall>x. map length x = sh \<longrightarrow> map length (block_forward bl i x) = sh) \<and>
     (\<forall>i<n. \<forall>x g. map length x = sh \<longrightarrow> map length g = sh \<longrightarrow> map length (block_backward bl i x g) = sh) \<and>
     prompts_fit n ps sh"

lemma blocks_out_simps [simp]:
  "blocks_out bl ps [] x = x"
  "blocks_out bl ps (i # is) x = blocks_out bl ps is (block_forward bl i (prompted (prompt_at ps i) x))"
  "blocks_out bl ps (is @ js) x = blocks_out bl ps js (blocks_out bl ps is x)"
  by (simp_all add: blocks_out_def)

lemma blocks_grad_append:
  "blocks_grad bl ps (is @ js) x g =
     (fst (blocks_grad bl ps is x (fst (blocks_grad bl ps js (blocks_out bl ps is x) g))),
      snd (blocks_grad bl ps is x (fst (blocks_grad bl ps js (blocks_out bl ps is x) g))) @ snd (blocks_grad bl ps js (blocks_out bl ps is x) g))"
  by (induction "is" arbitrary: x) (simp_all add: Let_def split_beta)

lemma real_prompt:
  assumes "train_ok bl n ps sh" and "\<not> no_elements (concat ps)" and "i < n"
  obtains P where "0 < P" and "length (ps ! i) = length sh" and "sh \<noteq> []" and "\<forall>l \<in> set sh. P \<le> l"
    and "\<forall>r \<in> set (ps ! i). length r = P" and "width (ps ! i) = P" and "\<not> no_elements (ps ! i)"
proof -
  obtain P where P: "0 < P" "\<forall>l \<in> set sh. P \<le> l" "\<forall>p \<in> set ps. length p = length sh \<and> (\<forall>r \<in> set p. length r = P)" "sh \<noteq> []" "length ps = n"
    using assms(1,2) by (auto simp: train_ok_def prompts_fit_def)
  then have i: "length (ps ! i) = length sh" "\<forall>r \<in> set (ps ! i). length r = P" using assms(3) by auto
  then obtain r rs where r: "ps ! i = r # rs" using P(4) by (cases "ps ! i") auto
  then have "width (ps ! i) = P" "\<not> no_elements (ps ! i)" using i P(1) by (auto simp: width_def no_elements_def)
  then show thesis using that P i by blast
qed

lemma length_add_row: "length p \<le> length x \<Longrightarrow> length (add_row p x) = length x"
  by (simp add: add_row_def)

lemma add_prompts_ok:
  assumes "train_ok bl n ps sh" and "i < n" and x: "map length x = sh"
  shows "add_prompts (prompt_at ps i) x = Inr (prompted (prompt_at ps i) x)" and "map length (prompted (prompt_at ps i) x) = sh"
proof -
  have "add_prompts (prompt_at ps i) x = Inr (prompted (prompt_at ps i) x) \<and> map length (prompted (prompt_at ps i) x) = sh"
  proof (cases "no_elements (concat ps)")
    case True
    then show ?thesis using x by (simp add: prompt_at_def add_prompts_def prompted_def no_elements_def)
  next
    case False
    let ?p = "ps ! i"
    obtain P where P: "0 < P" "length ?p = length sh" "sh \<noteq> []" "\<forall>l \<in> set sh. P \<le> l" "\<forall>r \<in> set ?p. length r = P" "width ?p = P" "\<not> no_elements ?p"
      using real_prompt [OF assms(1) False assms(2)] .
    have len: "length x = length ?p" using x P(2) by auto
    have "x \<noteq> []" using P(3) x by auto
    then have w: "P \<le> width x" using P(4) x by (cases x) (auto simp: width_def)
    have one: "replicate (length x) (?p ! 0) = ?p" if "length ?p = 1" using that len by (cases ?p) auto
    have "map length (map2 add_row ?p x) = map length x"
      by (rule nth_equalityI) (use len P(4,5) x in \<open>auto simp: length_add_row\<close>)
    then show ?thesis using False P len w x one by (simp add: prompt_at_def add_prompts_def prompted_def Let_def)
  qed
  then show "add_prompts (prompt_at ps i) x = Inr (prompted (prompt_at ps i) x)" "map length (prompted (prompt_at ps i) x) = sh" by auto
qed

lemma blocks_out_shape:
  assumes "train_ok bl n ps sh" and "set is \<subseteq> {..<n}" and "map length x = sh"
  shows "map length (blocks_out bl ps is x) = sh"
  using assms(2,3)
proof (induction "is" arbitrary: x)
  case (Cons i "is")
  have "map length (block_forward bl i (prompted (prompt_at ps i) x)) = sh"
    using assms(1) add_prompts_ok(2) [OF assms(1) _ Cons.prems(2), of i] Cons.prems(1) by (simp add: train_ok_def prompts_fit_def)
  then show ?case using Cons.IH Cons.prems(1) by simp
qed simp

lemma blocks_grad_shape:
  assumes "train_ok bl n ps sh" and "set is \<subseteq> {..<n}" and "map length x = sh" and "map length g = sh"
  shows "map length (fst (blocks_grad bl ps is x g)) = sh"
  using assms(2,3)
proof (induction "is" arbitrary: x)
  case (Cons i "is")
  have y: "map length (prompted (prompt_at ps i) x) = sh"
    using add_prompts_ok(2) [OF assms(1) _ Cons.prems(2), of i] Cons.prems(1) by simp
  then have "map length (block_forward bl i (prompted (prompt_at ps i) x)) = sh" using assms(1) Cons.prems(1) by (simp add: train_ok_def prompts_fit_def)
  then show ?case using Cons.IH Cons.prems(1) y assms(1) by (simp add: train_ok_def prompts_fit_def Let_def split_beta)
qed (simp add: assms(4))


section \<open>A server computes its part of the reference\<close>

lemma forward_chain_ok:
  assumes "train_ok bl n ps sh" and "set is \<subseteq> {..<n}" and "map length x = sh"
  shows "forward_chain bl (zip is (map (prompt_at ps) is)) x = Inr (blocks_out bl ps is x)"
  using assms(2,3)
proof (induction "is" arbitrary: x)
  case (Cons i "is")
  have "map length (block_forward bl i (prompted (prompt_at ps i) x)) = sh"
    using blocks_out_shape [OF assms(1), of "[i]" x] Cons.prems by simp
  then show ?case using Cons add_prompts_ok(1) [OF assms(1) _ Cons.prems(2), of i] by simp
qed simp

fun blocks_in :: "'h::plus train_blocks \<Rightarrow> 'h list list list \<Rightarrow> nat list \<Rightarrow> 'h list list \<Rightarrow> 'h list list list" where
  "blocks_in bl ps [] x = []"
| "blocks_in bl ps (i # is) x =
     prompted (prompt_at ps i) x # blocks_in bl ps is (block_forward bl i (prompted (prompt_at ps i) x))"

lemma blocks_in_append: "blocks_in bl ps (is @ js) x = blocks_in bl ps is x @ blocks_in bl ps js (blocks_out bl ps is x)"
  by (induction "is" arbitrary: x) simp_all

lemma length_blocks_in [simp]: "length (blocks_in bl ps is x) = length is"
  by (induction "is" arbitrary: x) simp_all

lemma inter_chain_ok:
  assumes "train_ok bl n ps sh" and "set is \<subseteq> {..<n}" and "map length x = sh"
  shows "inter_chain bl (zip is (map (prompt_at ps) is)) x acc = Inr (blocks_out bl ps is x, acc @ blocks_in bl ps is x)"
  using assms(2,3)
proof (induction "is" arbitrary: x acc)
  case (Cons i "is")
  have "map length (block_forward bl i (prompted (prompt_at ps i) x)) = sh"
    using blocks_out_shape [OF assms(1), of "[i]" x] Cons.prems by simp
  then show ?case using Cons add_prompts_ok(1) [OF assms(1) _ Cons.prems(2), of i] by simp
qed simp

lemma backward_chain_append:
  "backward_chain bl (as @ bs) g acc = (case backward_chain bl as g acc of (g1, acc1) \<Rightarrow> backward_chain bl bs g1 acc1)"
  by (induction bl as g acc rule: backward_chain.induct) (simp_all add: Let_def)

lemma backward_chain_ok:
  assumes "train_ok bl n ps sh" and "set is \<subseteq> {..<n}"
  shows "backward_chain bl (rev (zip (blocks_in bl ps is x) (zip (map (prompt_at ps) is) is))) g acc =
     (fst (blocks_grad bl ps is x g), acc @ rev (snd (blocks_grad bl ps is x g)))"
  using assms(2)
proof (induction "is" arbitrary: x)
  case (Cons i "is")
  have "no_elements (prompt_at ps i) \<longleftrightarrow> no_elements (concat ps)"
    using real_prompt [OF assms(1), of i] Cons.prems by (auto simp: prompt_at_def) (simp add: no_elements_def)
  then show ?case using Cons by (simp add: backward_chain_append Let_def split_beta)
qed simp

lemma split_span_prompts:
  assumes "train_ok bl n ps sh" and "a < b" and "b \<le> n"
  shows "split_prompts (pyslice a b ps) (b - a) = map (prompt_at ps) [a..<b]"
proof (cases "no_elements (concat ps)")
  case True
  then have "no_elements (concat (pyslice a b ps))" by (auto simp: no_elements_def pyslice_def dest: in_set_takeD in_set_dropD)
  moreover have "prompt_at ps = (\<lambda>_. [])" using True by (simp add: prompt_at_def fun_eq_iff)
  ultimately show ?thesis by (simp add: split_prompts_def map_replicate_const)
next
  case False
  have len: "length ps = n" using assms(1) False by (auto simp: train_ok_def prompts_fit_def)
  have slice: "pyslice a b ps = map ((!) ps) [a..<b]"
    by (rule nth_equalityI) (use assms len in \<open>auto simp: pyslice_def\<close>)
  have "\<not> no_elements (ps ! a)" using real_prompt [OF assms(1) False, of a] assms(2,3) by auto
  moreover have "ps ! a \<in> set (pyslice a b ps)" using assms(2) by (simp add: slice)
  ultimately have "\<not> no_elements (concat (pyslice a b ps))" by (auto simp: no_elements_def)
  then show ?thesis using False by (simp add: split_prompts_def slice prompt_at_def)
qed

lemma rpc_forward_ok:
  assumes "train_ok bl n ps sh" and "a < b" and "b \<le> n" and "map length x = sh"
  shows "run_rpc_forward bl [a..<b] x (pyslice a b ps) = Inr (blocks_out bl ps [a..<b] x)"
proof -
  have "set [a..<b] \<subseteq> {..<n}" using assms(3) by auto
  from forward_chain_ok [OF assms(1) this assms(4)] show ?thesis
    using assms(2) split_span_prompts [OF assms(1-3)] by (simp add: run_rpc_forward_def)
qed

lemma grads_real:
  assumes ok: "train_ok bl n ps sh" and d: "\<not> no_elements (concat ps)" and "is": "is \<noteq> []" "set is \<subseteq> {..<n}"
    and x: "map length x = sh" and g: "map length g = sh"
  shows "\<not> no_elements (concat (snd (blocks_grad bl ps is x g)))"
proof -
  obtain i js where i: "is = i # js" using "is"(1) by (cases "is") auto
  have sh: "map length (fst (blocks_grad bl ps is x g)) = sh" using blocks_grad_shape [OF ok "is"(2) x g] .
  obtain P where P: "0 < P" "sh \<noteq> []" "\<forall>l \<in> set sh. P \<le> l" "width (ps ! i) = P"
  proof (rule real_prompt [OF ok d, of i])
    show "i < n" using "is"(2) i by simp
  qed (use that in blast)
  have snd: "\<exists>gps. snd (blocks_grad bl ps is x g) = map (take P) (fst (blocks_grad bl ps is x g)) # gps"
    using d by (simp add: i Let_def split_beta prompt_at_def P(4))
  obtain r rs where r: "fst (blocks_grad bl ps is x g) = r # rs" using sh P(2) by (cases "fst (blocks_grad bl ps is x g)") auto
  then have "r \<noteq> []" using sh P(1,3) by auto
  then show ?thesis using snd r P(1) by (auto simp: no_elements_def)
qed

lemma rpc_backward_ok:
  assumes ok: "train_ok bl n ps sh" and ab: "a < b" "b \<le> n" and x: "map length x = sh" and g: "map length g = sh"
  shows "run_rpc_backward bl [a..<b] x g (pyslice a b ps) = Inr (blocks_grad bl ps [a..<b] x g)"
proof -
  let ?js = "[a..<b - 1]" and ?l = "b - 1"
  have snoc: "[a..<b] = ?js @ [?l]" using ab by (metis Suc_diff_1 less_Suc_eq_le not_less_zero not_less upt_Suc_append zero_less_iff_neq_zero)
  have sub: "set ?js \<subseteq> {..<n}" "set [a..<b] \<subseteq> {..<n}" "?l < n" using ab by auto
  let ?z = "blocks_out bl ps ?js x"
  have z: "map length ?z = sh" using blocks_out_shape [OF ok sub(1) x] .
  have prs: "split_prompts (pyslice a b ps) (b - a) = map (prompt_at ps) ?js @ [prompt_at ps ?l]"
    using split_span_prompts [OF ok ab] by (simp add: snoc)
  have inc: "inter_chain bl (zip (butlast [a..<b]) (butlast (map (prompt_at ps) ?js @ [prompt_at ps ?l]))) x [] = Inr (?z, blocks_in bl ps ?js x)"
    using inter_chain_ok [OF ok sub(1) x, of "[]"] by (simp add: snoc)
  have ins: "blocks_in bl ps ?js x @ [prompted (prompt_at ps ?l) ?z] = blocks_in bl ps [a..<b] x" by (simp add: snoc blocks_in_append)
  have bc: "backward_chain bl (rev (zip (blocks_in bl ps [a..<b] x) (zip (map (prompt_at ps) ?js @ [prompt_at ps ?l]) [a..<b]))) g [] =
      (fst (blocks_grad bl ps [a..<b] x g), rev (snd (blocks_grad bl ps [a..<b] x g)))"
    using backward_chain_ok [OF ok sub(2), of x g "[]"] by (simp add: snoc)
  have "(if no_elements (concat (rev gps)) then [] else gps) = gps" if "gps = snd (blocks_grad bl ps [a..<b] x g)" for gps
  proof (cases "no_elements (concat ps)")
    case True
    have "snd (blocks_grad bl ps is x g) = []" for "is" x by (induction "is" arbitrary: x) (simp_all add: True Let_def split_beta)
    then show ?thesis using that by simp
  next
    case False
    have "\<not> no_elements (concat gps)" unfolding that using grads_real [OF ok False _ sub(2) x g] ab by simp
    then show ?thesis by (auto simp: no_elements_def)
  qed
  then have norm: "(fst (blocks_grad bl ps [a..<b] x g),
      if no_elements (concat (rev (snd (blocks_grad bl ps [a..<b] x g)))) then [] else rev (rev (snd (blocks_grad bl ps [a..<b] x g)))) = blocks_grad bl ps [a..<b] x g"
    by (intro prod_eqI) (simp_all split: if_splits)
  show ?thesis using ab inc bc add_prompts_ok(1) [OF ok sub(3) z]
    by (simp add: run_rpc_backward_def Let_def prs ins [simplified] Suc_diff_Suc norm del: upt_Suc split del: if_split)
qed


section \<open>Routes\<close>

text \<open>Non-empty spans, one after the other, from block \<open>a\<close> to block \<open>b\<close>.\<close>

fun covers :: "'p span_info list \<Rightarrow> nat \<Rightarrow> nat \<Rightarrow> bool" where
  "covers [] a b \<longleftrightarrow> a = b"
| "covers (sp # sps) a b \<longleftrightarrow> span_start sp = int a \<and> int a < span_end sp \<and> span_end sp \<le> int b \<and> covers sps (nat (span_end sp)) b"

lemma trim_route_covers:
  assumes "throughput_loop pick rtts table b a = Inr ss" and "a < b"
  obtains ss' where "trim_route b ss = Inr ss'" and "covers ss' a b" and "ss' \<noteq> []"
proof -
  have "ss \<noteq> [] \<and> covers (butlast ss @ [(last ss)\<lparr>span_end := min (span_end (last ss)) (int b)\<rparr>]) a b"
    using assms
  proof (induction "b - a" arbitrary: a ss rule: less_induct)
    case less
    define weights where "weights = span_weights rtts (table ! a)"
    define c where "c = pick a (table ! a) (map (\<lambda>w. w / sum_list weights) weights)"
    obtain rest where r: "span_start c \<le> int a" "int a < span_end c" "ss = c\<lparr>span_start := int a\<rparr> # rest"
        "throughput_loop pick rtts table b (nat (span_end c)) = Inr rest"
      using less.prems by (subst (asm) throughput_loop.simps)
        (auto simp: Let_def c_def [symmetric] weights_def [symmetric] split: if_splits sum.splits)
    show ?case
    proof (cases "nat (span_end c) < b")
      case True
      moreover have "b - nat (span_end c) < b - a" using r(2) less.prems(2) by linarith
      ultimately have "rest \<noteq> [] \<and> covers (butlast rest @ [(last rest)\<lparr>span_end := min (span_end (last rest)) (int b)\<rparr>]) (nat (span_end c)) b"
        using less.hyps r(4) by blast
      then show ?thesis using r True by auto
    next
      case False
      then have "rest = []" using r(4) by (simp add: throughput_loop.simps)
      then show ?thesis using r False less.prems(2) by (auto simp: min_def)
    qed
  qed
  then show thesis using that by (simp add: trim_route_def)
qed

lemma next_span_covers:
  assumes "next_span sw calls attempt k e seqs = Inr ss" and "k < e" and "attempt = 0 \<Longrightarrow> seqs = [] \<or> covers seqs k e"
  shows "covers ss k e" and "ss \<noteq> []"
proof -
  have "covers ss k e \<and> ss \<noteq> []"
  proof (cases "seqs = [] \<or> attempt \<ge> 1")
    case True
    then obtain r where r: "route sw calls k e = Inr r" "trim_route e r = Inr ss"
      using assms(1) by (auto simp: next_span_def split: sum.splits)
    then show ?thesis using trim_route_covers assms(2) unfolding route_def make_sequence_with_max_throughput_def by fastforce
  next
    case False
    then show ?thesis using assms by (auto simp: next_span_def)
  qed
  then show "covers ss k e" "ss \<noteq> []" by auto
qed

section \<open>The forward pass\<close>

fun failed_call :: "'p call_event \<Rightarrow> bool" where
  "failed_call (Failed _) = True"
| "failed_call (Succeeded _) = False"

definition failures :: "'p call_event list \<Rightarrow> nat" where
  "failures calls = length (filter failed_call calls)"

lemma failures_simps [simp]:
  "failures [] = 0" "failures (as @ bs) = failures as + failures bs"
  "failures [Failed p] = 1" "failures [Succeeded q] = 0"
  by (simp_all add: failures_def)

text \<open>A stack of spans with the inputs they were given, from block \<open>a\<close> to block \<open>b\<close>.\<close>

fun stack_ok :: "'h::plus train_blocks \<Rightarrow> 'h list list list \<Rightarrow> ('h list list \<times> 'p span_info) list \<Rightarrow> nat \<Rightarrow> nat \<Rightarrow> 'h list list \<Rightarrow> bool" where
  "stack_ok bl ps [] a b x \<longleftrightarrow> a = b"
| "stack_ok bl ps ((y, sp) # st) a b x \<longleftrightarrow>
     y = x \<and> span_start sp = int a \<and> int a < span_end sp \<and> span_end sp \<le> int b \<and>
     stack_ok bl ps st (nat (span_end sp)) b (blocks_out bl ps [a..<nat (span_end sp)] x)"

lemma stack_ok_le: "stack_ok bl ps st a b x \<Longrightarrow> a \<le> b"
  by (induction bl ps st a b x rule: stack_ok.induct) auto

lemma blocks_out_upt: "a \<le> b \<Longrightarrow> b \<le> c \<Longrightarrow> blocks_out bl ps [b..<c] (blocks_out bl ps [a..<b] x) = blocks_out bl ps [a..<c] x"
  by (metis blocks_out_simps(3) le_Suc_ex upt_add_eq_append)

lemma stack_ok_append:
  "stack_ok bl ps (st @ st') a c x \<longleftrightarrow> (\<exists>b. stack_ok bl ps st a b x \<and> stack_ok bl ps st' b c (blocks_out bl ps [a..<b] x) \<and> b \<le> c)"
proof (induction st arbitrary: a x)
  case Nil
  then show ?case using stack_ok_le by (auto simp del: upt_Suc)
next
  case (Cons z st)
  obtain y sp where z: "z = (y, sp)" by (cases z)
  let ?m = "nat (span_end sp)"
  let ?x = "blocks_out bl ps [a..<?m] x"
  have eq: "blocks_out bl ps [?m..<b] ?x = blocks_out bl ps [a..<b] x" if "int a < span_end sp" "?m \<le> b" for b
    using that by (intro blocks_out_upt) auto
  have le: "?m \<le> b" if "stack_ok bl ps st ?m b ?x" for b using stack_ok_le [OF that] .
  show ?case
  proof
    assume "stack_ok bl ps ((z # st) @ st') a c x"
    then obtain b where b: "y = x" "span_start sp = int a" "int a < span_end sp" "stack_ok bl ps st ?m b ?x"
        "stack_ok bl ps st' b c (blocks_out bl ps [?m..<b] ?x)" "b \<le> c"
      by (auto simp only: z append_Cons stack_ok.simps Cons.IH)
    have "span_end sp \<le> int b" using le [OF b(4)] by simp
    then show "\<exists>b. stack_ok bl ps (z # st) a b x \<and> stack_ok bl ps st' b c (blocks_out bl ps [a..<b] x) \<and> b \<le> c"
      using b eq [OF b(3) le [OF b(4)]] by (intro exI [of _ b]) (simp add: z)
  next
    assume "\<exists>b. stack_ok bl ps (z # st) a b x \<and> stack_ok bl ps st' b c (blocks_out bl ps [a..<b] x) \<and> b \<le> c"
    then obtain b where b: "y = x" "span_start sp = int a" "int a < span_end sp" "span_end sp \<le> int b" "stack_ok bl ps st ?m b ?x"
        "stack_ok bl ps st' b c (blocks_out bl ps [a..<b] x)" "b \<le> c"
      by (auto simp only: z stack_ok.simps)
    have "\<exists>b. stack_ok bl ps st ?m b ?x \<and> stack_ok bl ps st' b c (blocks_out bl ps [?m..<b] ?x) \<and> b \<le> c"
      using b(5-7) eq [OF b(3) le [OF b(5)]] by (intro exI [of _ b]) simp
    then show "stack_ok bl ps ((z # st) @ st') a c x" using b(1-4,7) by (simp add: z Cons.IH)
  qed
qed

lemma try_forward_ok:
  assumes "train_ok bl n ps sh" and "covers ss k e" and "ss \<noteq> []" and "e \<le> n" and "map length x = sh"
  shows "try_forward bl sw calls ps (hd ss) x =
     (case ts_fails sw calls (span_peer (hd ss)) of Some err \<Rightarrow> Inl err | None \<Rightarrow> Inr (blocks_out bl ps [k..<nat (span_end (hd ss))] x))"
proof -
  obtain sp sps where ss: "ss = sp # sps" using assms(3) by (cases ss) auto
  have b: "k < nat (span_end sp)" "nat (span_end sp) \<le> n" "span_start sp = int k" using assms(2,4) by (auto simp: ss)
  have "set [k..<nat (span_end sp)] \<subseteq> {..<n}" using b by auto
  then have "same_tensor_shape (blocks_out bl ps [k..<nat (span_end sp)] x) x"
    using blocks_out_shape [OF assms(1) _ assms(5)] assms(5) by (simp add: same_tensor_shape_def)
  then show ?thesis using rpc_forward_ok [OF assms(1) b(1,2) assms(5)] b(3)
    by (simp add: ss try_forward_def call_peer_def span_uids_def span_prompts_def split: option.splits)
qed


text \<open>The rank of a loop: what is left to do, and how often it may still be tried.\<close>

lemma rank_less: "a < b \<Longrightarrow> c < r \<Longrightarrow> a * r + c < b * r + d" for a b c d r :: nat
proof -
  assume "a < b" "c < r"
  then have "a * r + c < Suc a * r" "Suc a * r \<le> b * r" by (simp, intro mult_le_mono1) simp
  then show ?thesis by linarith
qed

definition forward_result ::
  "'h::plus train_blocks \<Rightarrow> 'h list list list \<Rightarrow> nat \<Rightarrow> nat \<Rightarrow> 'h list list \<Rightarrow> nat \<Rightarrow> 'h list list list \<Rightarrow> 'p span_info list \<Rightarrow> nat \<Rightarrow>
   ('h list list \<times> 'h list list list \<times> 'p span_info list) result \<Rightarrow> bool" where
  "forward_result bl ps k e x r inters dones fs res \<longleftrightarrow>
     (case res of
        Inl _ \<Rightarrow> r \<le> fs
      | Inr (out, ins, ds) \<Rightarrow> out = blocks_out bl ps [k..<e] x \<and>
          (\<exists>st. stack_ok bl ps st k e x \<and> ins = inters @ map fst st \<and> ds = dones @ map snd st))"

lemma forward_loop_ok:
  assumes ok: "train_ok bl n ps sh" and e: "e \<le> n"
  shows "attempt < r \<Longrightarrow> k \<le> e \<Longrightarrow> map length x = sh \<Longrightarrow> (attempt = 0 \<Longrightarrow> seqs = [] \<or> covers seqs k e) \<Longrightarrow>
    \<exists>res new. forward_loop bl sw (Some r) ps e attempt k seqs x inters dones calls = Some (res, calls @ new) \<and>
      forward_result bl ps k e x r inters dones (attempt + failures new) res"
proof (induction "(e - k) * Suc r + (r - attempt)" arbitrary: attempt k seqs x inters dones calls rule: less_induct)
  case less
  note unfold = forward_loop.simps [of bl sw "Some r" ps e attempt k seqs x inters dones calls]
  have retry: "\<exists>res new. (if Some r = Some (attempt + 1) then Some (Inl err, calls @ [Failed q])
         else forward_loop bl sw (Some r) ps e (attempt + 1) k seqs' x inters dones (calls @ [Failed q])) = Some (res, calls @ new) \<and>
      forward_result bl ps k e x r inters dones (attempt + failures new) res" for err q seqs'
  proof (cases "r = attempt + 1")
    case True
    then show ?thesis by (auto simp: forward_result_def)
  next
    case False
    then have "attempt + 1 < r" using less.prems(1) by simp
    then have "\<exists>res new. forward_loop bl sw (Some r) ps e (attempt + 1) k seqs' x inters dones (calls @ [Failed q]) =
        Some (res, (calls @ [Failed q]) @ new) \<and> forward_result bl ps k e x r inters dones (attempt + 1 + failures new) res"
      using less.prems(2,3) by (intro less.hyps) simp_all
    then obtain res new where "forward_loop bl sw (Some r) ps e (attempt + 1) k seqs' x inters dones (calls @ [Failed q]) = Some (res, (calls @ [Failed q]) @ new)"
        "forward_result bl ps k e x r inters dones (attempt + 1 + failures new) res" by blast
    then show ?thesis using False by (intro exI [of _ res] exI [of _ "Failed q # new"]) (simp add: failures_def)
  qed
  show ?case
  proof (cases "k = e")
    case True
    then show ?thesis unfolding unfold
      by (intro exI [of _ "Inr (x, inters, dones)"] exI [of _ "[]"]) (auto simp: forward_result_def intro!: exI [of _ "[]"])
  next
    case False
    then have ke: "k < e" using less.prems(2) by simp
    show ?thesis
    proof (cases "next_span sw calls attempt k e seqs")
      case (Inl err)
      then show ?thesis unfolding unfold using ke retry by simp
    next
      case (Inr ss)
      have cov: "covers ss k e" "ss \<noteq> []" using next_span_covers [OF Inr ke less.prems(4)] by auto
      note tried = try_forward_ok [OF ok cov e less.prems(3), of sw calls]
      show ?thesis
      proof (cases "ts_fails sw calls (span_peer (hd ss))")
        case (Some err)
        then show ?thesis unfolding unfold using ke retry Inr tried by simp
      next
        case None
        obtain sp sps where ss: "ss = sp # sps" using cov(2) by (cases ss) auto
        let ?m = "nat (span_end sp)"
        let ?y = "blocks_out bl ps [k..<?m] x"
        have m: "k < ?m" "?m \<le> e" "span_start sp = int k" "covers sps ?m e" using cov(1) by (auto simp: ss)
        have "set [k..<?m] \<subseteq> {..<n}" using m e by auto
        then have y: "map length ?y = sh" using blocks_out_shape [OF ok _ less.prems(3)] by blast
        have "(e - ?m) * Suc r + (r - 0) < (e - k) * Suc r + (r - attempt)"
        proof -
          have "e - ?m < e - k" using m(1,2) by simp
          then show ?thesis by (rule rank_less) simp
        qed
        then have "\<exists>res new. forward_loop bl sw (Some r) ps e 0 ?m sps ?y (inters @ [x]) (dones @ [sp]) (calls @ [Succeeded (span_peer sp)]) =
              Some (res, (calls @ [Succeeded (span_peer sp)]) @ new) \<and>
            forward_result bl ps ?m e ?y r (inters @ [x]) (dones @ [sp]) (0 + failures new) res"
          using less.prems(1) m y by (intro less.hyps) simp_all
        then obtain res new where ih: "forward_loop bl sw (Some r) ps e 0 ?m sps ?y (inters @ [x]) (dones @ [sp]) (calls @ [Succeeded (span_peer sp)]) =
              Some (res, (calls @ [Succeeded (span_peer sp)]) @ new)"
            "forward_result bl ps ?m e ?y r (inters @ [x]) (dones @ [sp]) (failures new) res" by auto
        have "forward_result bl ps k e x r inters dones (attempt + failures new) res"
        proof (cases res)
          case (Inr o')
          obtain out ins ds where o': "o' = (out, ins, ds)" by (cases o')
          obtain st where st: "stack_ok bl ps st ?m e ?y" "ins = (inters @ [x]) @ map fst st" "ds = (dones @ [sp]) @ map snd st" "out = blocks_out bl ps [?m..<e] ?y"
            using ih(2) by (auto simp: forward_result_def Inr o')
          have "int k < span_end sp" "span_end sp \<le> int e" using m(1,2) by linarith+
          then have "stack_ok bl ps ((x, sp) # st) k e x" using st(1) m(3) by simp
          moreover have "out = blocks_out bl ps [k..<e] x" using st(4) blocks_out_upt [OF less_imp_le [OF m(1)] m(2)] by simp
          ultimately show ?thesis using st(2,3) by (auto simp: forward_result_def Inr o' intro!: exI [of _ "(x, sp) # st"])
        qed (use ih(2) in \<open>simp add: forward_result_def\<close>)
        then show ?thesis unfolding unfold using ke Inr tried None ih(1)
          by (intro exI [of _ res] exI [of _ "Succeeded (span_peer sp) # new"]) (simp add: ss failures_def)
      qed
    qed
  qed
qed


lemma sequential_forward_ok:
  assumes ok: "train_ok bl n ps sh" and se: "s \<le> e" "e \<le> n" and r: "0 < r" and x: "map length x = sh"
  shows "\<exists>res new. sequential_forward bl sw (Some r) n ps x s e calls = Some (res, calls @ new) \<and>
    forward_result bl ps s e x r [] [] (failures new) res"
proof -
  have "no_elements (concat ps) \<or> length ps = n" using ok by (auto simp: train_ok_def prompts_fit_def)
  then show ?thesis
    using forward_loop_ok [OF ok se(2) r se(1) x, of "[]" sw "[]" "[]" calls] se(2) by (simp add: sequential_forward_def)
qed

section \<open>The backward pass\<close>

lemma stack_ok_ends:
  assumes "stack_ok bl ps st a b x" and "a < b"
  shows "st \<noteq> []" and "span_start (snd (hd st)) = int a" and "span_end (snd (last st)) = int b"
proof -
  have "st \<noteq> [] \<and> span_start (snd (hd st)) = int a \<and> span_end (snd (last st)) = int b"
    using assms
  proof (induction bl ps st a b x rule: stack_ok.induct)
    case (2 bl ps y sp st a b x)
    show ?case
    proof (cases "nat (span_end sp) < b")
      case True
      then show ?thesis using 2 by auto
    next
      case False
      then have "nat (span_end sp) = b" using "2.prems"(1) by auto
      then have "st = []" using "2.prems"(1) stack_ok_le by (cases st) fastforce+
      then show ?thesis using 2 by auto
    qed
  qed simp
  then show "st \<noteq> []" "span_start (snd (hd st)) = int a" "span_end (snd (last st)) = int b" by auto
qed

lemma stack_top:
  assumes "stack_ok bl ps (st @ [(y, sp)]) s k x"
  obtains b where "stack_ok bl ps st s b x" and "y = blocks_out bl ps [s..<b] x" and "span_start sp = int b" and "span_end sp = int k"
    and "s \<le> b" and "b < k"
proof -
  obtain b where b: "stack_ok bl ps st s b x" "stack_ok bl ps [(y, sp)] b k (blocks_out bl ps [s..<b] x)"
    using assms by (auto simp: stack_ok_append)
  then show thesis using that [of b] stack_ok_le [OF b(1)] by auto
qed

lemma recover_ok:
  assumes ok: "train_ok bl n ps sh" and r: "0 < r" and k: "k \<le> n" and x: "map length x = sh"
    and st: "stack_ok bl ps (st @ [(y, sp)]) s k x"
  shows "\<exists>res new. recover bl sw (Some r) n ps attempt y sp (map fst st) (map snd st) calls = Some (res, calls @ new) \<and>
     (case res of
        Inl _ \<Rightarrow> True
      | Inr (now, is, ss) \<Rightarrow> \<exists>st1. is = map fst st1 \<and> ss = map snd st1 \<and> stack_ok bl ps (st1 @ [now]) s k x)"
proof (cases "attempt = 0")
  case True
  then show ?thesis using st by (auto simp: recover_def)
next
  case False
  obtain b where b: "stack_ok bl ps st s b x" "y = blocks_out bl ps [s..<b] x" "span_start sp = int b" "span_end sp = int k" "s \<le> b" "b < k"
    using stack_top [OF st] .
  have "set [s..<b] \<subseteq> {..<n}" using b k by auto
  then have y: "map length y = sh" using blocks_out_shape [OF ok _ x] b(2) by blast
  obtain res new where f: "sequential_forward bl sw (Some r) n ps y b k calls = Some (res, calls @ new)"
      "forward_result bl ps b k y r [] [] (failures new) res"
    using sequential_forward_ok [OF ok less_imp_le [OF b(6)] k r y] by blast
  show ?thesis
  proof (cases res)
    case (Inl e)
    then show ?thesis using f(1) False b(3,4) by (simp add: recover_def)
  next
    case (Inr o')
    obtain out ins ds where o': "o' = (out, ins, ds)" by (cases o')
    obtain bst where bst: "stack_ok bl ps bst b k y" "ins = map fst bst" "ds = map snd bst"
      using f(2) by (auto simp: forward_result_def Inr o')
    note ends = stack_ok_ends [OF bst(1) b(6)]
    have all: "stack_ok bl ps (st @ bst) s k x" using b bst(1) by (auto simp: stack_ok_append)
    have "butlast (st @ bst) @ [last (st @ bst)] = st @ bst" by (rule append_butlast_last_id) (use ends(1) in simp)
    then have "stack_ok bl ps (butlast (st @ bst) @ [last (st @ bst)]) s k x" using all by simp
    moreover have "recover bl sw (Some r) n ps attempt y sp (map fst st) (map snd st) calls =
        Some (Inr (last (st @ bst), map fst (butlast (st @ bst)), map snd (butlast (st @ bst))), calls @ new)"
      using f(1) False b(3,4) ends bst(2,3)
      by (simp add: recover_def Inr o' Let_def hd_map last_map map_butlast [symmetric] butlast_append)
    ultimately show ?thesis by auto
  qed
qed


definition backward_result ::
  "'h::plus train_blocks \<Rightarrow> 'h list list list \<Rightarrow> nat \<Rightarrow> nat \<Rightarrow> 'h list list \<Rightarrow> 'h list list \<Rightarrow> nat \<Rightarrow> 'h list list list list \<Rightarrow> nat \<Rightarrow>
   ('h list list \<times> 'h list list list list) result \<Rightarrow> bool" where
  "backward_result bl ps s k x g r gps fs res \<longleftrightarrow>
     (case res of
        Inl _ \<Rightarrow> r \<le> fs
      | Inr (g', gps') \<Rightarrow> g' = fst (blocks_grad bl ps [s..<k] x g) \<and> [] \<notin> set gps' \<and>
          concat (rev gps') = snd (blocks_grad bl ps [s..<k] x g) @ concat (rev gps))"

lemma backward_loop_ok:
  assumes ok: "train_ok bl n ps sh" and x: "map length x = sh"
  shows "attempt < r \<Longrightarrow> k \<le> n \<Longrightarrow> map length g = sh \<Longrightarrow> [] \<notin> set gps \<Longrightarrow>
    stack_ok bl ps (st @ (case cur of None \<Rightarrow> [] | Some c \<Rightarrow> [c])) s k x \<Longrightarrow>
    \<exists>res new. backward_loop bl sw (Some r) n ps attempt cur (map fst st) (map snd st) g gps calls = Some (res, calls @ new) \<and>
      backward_result bl ps s k x g r gps (attempt + failures new) res"
proof (induction "(k - s) * (r + 2) + (case cur of None \<Rightarrow> r + 1 | Some _ \<Rightarrow> r - attempt)"
    arbitrary: attempt cur st k g gps calls rule: less_induct)
  case less
  note unfold = backward_loop.simps [of bl sw "Some r" n ps attempt cur "map fst st" "map snd st" g gps calls]
  show ?case
  proof (cases cur)
    case None
    show ?thesis
    proof (cases st rule: rev_cases)
      case Nil
      then show ?thesis unfolding unfold using less.prems(4,5) None
        by (intro exI [of _ "Inr (g, gps)"] exI [of _ "[]"]) (simp add: backward_result_def)
    next
      case (snoc st' c)
      have "\<exists>res new. backward_loop bl sw (Some r) n ps 0 (Some c) (map fst st') (map snd st') g gps calls = Some (res, calls @ new) \<and>
          backward_result bl ps s k x g r gps (0 + failures new) res"
        using less.prems None snoc by (intro less.hyps) simp_all
      then show ?thesis unfolding unfold using None snoc by (fastforce simp: backward_result_def split: sum.splits)
    qed
  next
    case (Some c)
    obtain y sp where c: "c = (y, sp)" by (cases c)
    have st: "stack_ok bl ps (st @ [(y, sp)]) s k x" using less.prems(5) Some c by simp
    have r: "0 < r" using less.prems(1) by simp
    have retry: "\<exists>res new. (if Some r = Some (attempt + 1) then Some (Inl err, (calls @ new1) @ [Failed q])
           else backward_loop bl sw (Some r) n ps (attempt + 1) (Some c') (map fst st') (map snd st') g gps ((calls @ new1) @ [Failed q])) =
             Some (res, calls @ new) \<and> backward_result bl ps s k x g r gps (attempt + failures new) res"
      if st': "stack_ok bl ps (st' @ [c']) s k x" for err q c' st' new1
    proof (cases "r = attempt + 1")
      case True
      then show ?thesis by (intro exI [of _ "Inl err"] exI [of _ "new1 @ [Failed q]"]) (simp add: backward_result_def)
    next
      case False
      have "\<exists>res new. backward_loop bl sw (Some r) n ps (attempt + 1) (Some c') (map fst st') (map snd st') g gps ((calls @ new1) @ [Failed q]) =
          Some (res, ((calls @ new1) @ [Failed q]) @ new) \<and> backward_result bl ps s k x g r gps (attempt + 1 + failures new) res"
        using less.prems Some st' False by (intro less.hyps) simp_all
      then obtain res new where "backward_loop bl sw (Some r) n ps (attempt + 1) (Some c') (map fst st') (map snd st') g gps ((calls @ new1) @ [Failed q]) =
          Some (res, ((calls @ new1) @ [Failed q]) @ new)" "backward_result bl ps s k x g r gps (attempt + 1 + failures new) res" by blast
      then show ?thesis using False
        by (intro exI [of _ res] exI [of _ "new1 @ Failed q # new"]) (auto simp: failures_def backward_result_def split: sum.splits)
    qed
    obtain res1 new1 where rec: "recover bl sw (Some r) n ps attempt y sp (map fst st) (map snd st) calls = Some (res1, calls @ new1)"
        "case res1 of Inl _ \<Rightarrow> True
         | Inr (now, is, ss) \<Rightarrow> \<exists>st1. is = map fst st1 \<and> ss = map snd st1 \<and> stack_ok bl ps (st1 @ [now]) s k x"
      using recover_ok [OF ok r less.prems(2) x st] by blast
    show ?thesis
    proof (cases res1)
      case (Inl err)
      then show ?thesis unfolding unfold using Some c rec(1) retry [OF st] by simp
    next
      case (Inr o')
      obtain now st1 where o': "o' = (now, map fst st1, map snd st1)" and st1: "stack_ok bl ps (st1 @ [now]) s k x"
        using rec(2) Inr by (cases o') auto
      obtain y1 sp1 where now: "now = (y1, sp1)" by (cases now)
      obtain b where b: "stack_ok bl ps st1 s b x" "y1 = blocks_out bl ps [s..<b] x" "span_start sp1 = int b" "span_end sp1 = int k" "s \<le> b" "b < k"
        using stack_top [OF st1 [unfolded now]] .
      have "set [s..<b] \<subseteq> {..<n}" "set [b..<k] \<subseteq> {..<n}" using b less.prems(2) by auto
      then have y1: "map length y1 = sh" and g1: "map length (fst (blocks_grad bl ps [b..<k] y1 g)) = sh"
        using blocks_out_shape [OF ok _ x] blocks_grad_shape [OF ok _ _ less.prems(3)] b(2) by blast+
      have tried: "try_backward bl sw calls' ps sp1 y1 g =
          (case ts_fails sw calls' (span_peer sp1) of Some err \<Rightarrow> Inl err | None \<Rightarrow> Inr (blocks_grad bl ps [b..<k] y1 g))" for calls'
        using rpc_backward_ok [OF ok b(6) less.prems(2) y1 less.prems(3)] b(3,4)
        by (simp add: try_backward_def call_peer_def span_uids_def span_prompts_def split: option.splits)
      show ?thesis
      proof (cases "ts_fails sw (calls @ new1) (span_peer sp1)")
        case err: (Some err)
        then show ?thesis unfolding unfold using Some c rec(1) Inr o' now tried retry [OF st1 [unfolded now], of err new1 "Some (span_peer sp1)"]
          by (cases "r = Suc attempt") simp_all
      next
        case none: None
        obtain g2 sgp where gr: "blocks_grad bl ps [b..<k] y1 g = (g2, sgp)" by (cases "blocks_grad bl ps [b..<k] y1 g")
        define gps1 where "gps1 = (if sgp = [] then gps else gps @ [sgp])"
        let ?calls = "(calls @ new1) @ [Succeeded (span_peer sp1)]"
        have rank: "(b - s) * (r + 2) + (r + 1) < (k - s) * (r + 2) + (case cur of None \<Rightarrow> r + 1 | Some _ \<Rightarrow> r - attempt)"
          using b(5,6) by (intro rank_less) simp_all
        have "\<exists>res new. backward_loop bl sw (Some r) n ps 0 None (map fst st1) (map snd st1) g2 gps1 ?calls = Some (res, ?calls @ new) \<and>
            backward_result bl ps s b x g2 r gps1 (0 + failures new) res"
          using less.prems(1,2,4) b(1,6) g1 gr r rank by (intro less.hyps) (auto simp: gps1_def)
        then obtain res new where ih: "backward_loop bl sw (Some r) n ps 0 None (map fst st1) (map snd st1) g2 gps1 ?calls = Some (res, ?calls @ new)"
            "backward_result bl ps s b x g2 r gps1 (failures new) res" by auto
        have split: "[s..<k] = [s..<b] @ [b..<k]" using b(5,6) by (metis le_add_diff_inverse less_imp_le upt_add_eq_append)
        have "concat (rev gps1) = sgp @ concat (rev gps)" by (simp add: gps1_def)
        then have "backward_result bl ps s k x g r gps (attempt + failures (new1 @ Succeeded (span_peer sp1) # new)) res"
          using ih(2) gr unfolding backward_result_def split blocks_grad_append b(2)
          by (auto simp: failures_def split: sum.splits)
        then show ?thesis unfolding unfold using Some c rec(1) Inr o' now tried none gr ih(1)
          by (intro exI [of _ res] exI [of _ "new1 @ Succeeded (span_peer sp1) # new"]) (simp add: gps1_def [symmetric])
      qed
    qed
  qed
qed


lemma sequential_backward_ok:
  assumes ok: "train_ok bl n ps sh" and e: "s < e" "e \<le> n" and r: "0 < r" and x: "map length x = sh" and g: "map length g = sh"
    and st: "stack_ok bl ps st s e x"
  shows "\<exists>res new. sequential_backward bl sw (Some r) n ps g (map fst st) (map snd st) calls = Some (res, calls @ new) \<and>
    (case res of
       Inl _ \<Rightarrow> r \<le> failures new
     | Inr (g', gp) \<Rightarrow> g' = fst (blocks_grad bl ps [s..<e] x g) \<and>
         gp = (if no_elements (concat ps) then None else Some (snd (blocks_grad bl ps [s..<e] x g))))"
proof -
  let ?gps = "snd (blocks_grad bl ps [s..<e] x g)"
  obtain res new where bw: "backward_loop bl sw (Some r) n ps 0 None (map fst st) (map snd st) g [] calls = Some (res, calls @ new)"
      "backward_result bl ps s e x g r [] (failures new) res"
    using backward_loop_ok [OF ok x r e(2) g, of "[]" st None s sw calls] st by auto
  have "?gps = [] \<longleftrightarrow> no_elements (concat ps)"
  proof
    assume "?gps = []"
    have "[s..<e] \<noteq> []" and sub: "set [s..<e] \<subseteq> {..<n}" using e by auto
    show "no_elements (concat ps)"
    proof (rule ccontr)
      assume "\<not> no_elements (concat ps)"
      from grads_real [OF ok this \<open>[s..<e] \<noteq> []\<close> sub x g] \<open>?gps = []\<close> show False by (simp add: no_elements_def)
    qed
  next
    assume "no_elements (concat ps)"
    then have "snd (blocks_grad bl ps is x g) = []" for "is" x by (induction "is" arbitrary: x) (simp_all add: Let_def split_beta)
    then show "?gps = []" by simp
  qed
  moreover have "gps' = [] \<longleftrightarrow> ?gps = []" "concat (rev gps') = ?gps" if "res = Inr (g', gps')" for g' gps'
  proof -
    show c: "concat (rev gps') = ?gps" using bw(2) that by (simp add: backward_result_def)
    have "[] \<notin> set gps'" using bw(2) that by (simp add: backward_result_def)
    then have "concat (rev gps') = [] \<longleftrightarrow> gps' = []" by (cases gps') auto
    then show "gps' = [] \<longleftrightarrow> ?gps = []" using c by simp
  qed
  ultimately show ?thesis using bw
    by (intro exI [of _ "map_sum id (\<lambda>(g1, gps). (g1, if gps = [] then None else Some (concat (rev gps)))) res"] exI [of _ new])
      (auto simp: sequential_backward_def backward_result_def split: sum.splits)
qed

section \<open>The autograd function\<close>

text \<open>
  \<open>asyncio.gather\<close> over the batches: every batch makes its own calls, in a swarm that the other batches
  may change; if some raise, one of the exceptions is raised.
\<close>

fun gather :: "('r result \<times> 'l) option list \<Rightarrow> 'r list result option" where
  "gather [] = Some (Inr [])"
| "gather (r # rs) =
     (case (r, gather rs) of
        (Some (Inr x, _), Some (Inr xs)) \<Rightarrow> Some (Inr (x # xs))
      | (Some (Inl e, _), Some _) \<Rightarrow> Some (Inl e)
      | (Some (Inr _, _), Some (Inl e)) \<Rightarrow> Some (Inl e)
      | _ \<Rightarrow> None)"

definition torch_split :: "nat \<Rightarrow> 'b list \<Rightarrow> 'b list list" where
  "torch_split n xs = (if xs = [] then [[]] else split_rows n xs)"

definition autograd_batch_size :: "'h list list \<Rightarrow> nat" where
  "autograd_batch_size x = max (MAX_TOKENS_IN_BATCH div width x) 1"

record ('p, 'h) autograd_ctx =
  ctx_prompts :: "'h list list list list"
  ctx_inters :: "'h list list list list"
  ctx_seqs :: "'p span_info list list"

definition autograd_forward ::
  "'h::plus train_blocks \<Rightarrow> (nat \<Rightarrow> 'p training_swarm) \<Rightarrow> nat option \<Rightarrow> nat \<Rightarrow> 'h list list list \<Rightarrow> 'h list list \<Rightarrow>
   ('h list list \<times> ('p, 'h) autograd_ctx) result option" where
  "autograd_forward bl sws retries n ps x =
     (if width x = 0 then Some (Inl ZeroDivisionError)
      else let bs = autograd_batch_size x; xs = torch_split bs x; pbs = prompt_batches bs (length xs) ps in
        case gather (map (\<lambda>(j, xb, pb). sequential_forward bl (sws j) retries n pb xb 0 n []) (zip [0..<length xs] (zip xs pbs))) of
          None \<Rightarrow> None
        | Some (Inl e) \<Rightarrow> Some (Inl e)
        | Some (Inr outs) \<Rightarrow>
            Some (if length outs \<noteq> length xs then Inl AssertionError
                  else Inr (concat (map fst outs),
                         \<lparr>ctx_prompts = pbs, ctx_inters = map (fst \<circ> snd) outs, ctx_seqs = map (snd \<circ> snd) outs\<rparr>)))"

definition autograd_backward ::
  "'h::plus train_blocks \<Rightarrow> (nat \<Rightarrow> 'p training_swarm) \<Rightarrow> nat option \<Rightarrow> nat \<Rightarrow> ('p, 'h) autograd_ctx \<Rightarrow> 'h list list \<Rightarrow>
   ('h list list \<times> 'h list list list option) result option" where
  "autograd_backward bl sws retries n ctx g =
     (if width g = 0 then Some (Inl ZeroDivisionError)
      else let gs = torch_split (autograd_batch_size g) g in
        if length (ctx_inters ctx) \<noteq> length gs \<or> length gs \<noteq> length (ctx_seqs ctx) then Some (Inl AssertionError)
        else case gather (map (\<lambda>(j, gb, ib, pb, sb). sequential_backward bl (sws j) retries n pb gb ib sb [])
                     (zip [0..<length gs] (zip gs (zip (ctx_inters ctx) (zip (ctx_prompts ctx) (ctx_seqs ctx)))))) of
               None \<Rightarrow> None
             | Some (Inl e) \<Rightarrow> Some (Inl e)
             | Some (Inr outs) \<Rightarrow>
                 Some (Inr (concat (map fst outs),
                   if None \<in> snd ` set outs then None
                   else Some (map (\<lambda>i. concat (map (\<lambda>out. the (snd out) ! i) outs)) [0..<length (the (snd (hd outs)))]))))"


section \<open>Batches are slices of the whole\<close>

definition rows_ok :: "'h train_blocks \<Rightarrow> nat \<Rightarrow> (nat \<Rightarrow> 'h list \<Rightarrow> 'h list) \<Rightarrow> (nat \<Rightarrow> 'h list \<Rightarrow> 'h list \<Rightarrow> 'h list) \<Rightarrow> bool" where
  "rows_ok bl n f b \<longleftrightarrow>
     (\<forall>i<n. \<forall>x. block_forward bl i x = map (f i) x) \<and> (\<forall>i<n. \<forall>x g. block_backward bl i x g = map2 (b i) x g) \<and>
     (\<forall>i<n. \<forall>row. length (f i row) = length row) \<and> (\<forall>i<n. \<forall>row grow. length grow = length row \<longrightarrow> length (b i row grow) = length row)"

abbreviation rows_of :: "nat \<Rightarrow> nat \<Rightarrow> 'b list \<Rightarrow> 'b list" where
  "rows_of m k xs \<equiv> take k (drop m xs)"

definition batch_prompts :: "nat \<Rightarrow> nat \<Rightarrow> 'h list list list \<Rightarrow> 'h list list list" where
  "batch_prompts m k ps = (if no_elements (concat ps) then [] else map (rows_of m k) ps)"

lemma rows_train_ok:
  assumes "rows_ok bl n f b" and "prompts_fit n ps sh"
  shows "train_ok bl n ps sh"
proof -
  have "map length (map2 (b i) x g) = sh" if "i < n" "map length x = sh" "map length g = sh" for i x g
  proof (rule nth_equalityI)
    have "length x = length sh" "length g = length sh" using that(2,3) by (metis length_map)+
    then show l: "length (map length (map2 (b i) x g)) = length sh" by simp
    have "length (x ! j) = length (g ! j)" if "j < length x" for j using that \<open>map length x = sh\<close> \<open>map length g = sh\<close> by (metis length_map nth_map)
    then show "map length (map2 (b i) x g) ! j = sh ! j" if "j < length (map length (map2 (b i) x g))" for j
      using that assms(1) \<open>i < n\<close> \<open>map length x = sh\<close> by (auto simp: rows_ok_def)
  qed
  then show ?thesis using assms by (simp add: train_ok_def rows_ok_def comp_def)
qed

lemma batch_prompts_fit:
  assumes fit: "prompts_fit n ps sh" and m: "m < length sh" "0 < k" and n: "0 < n"
  shows "prompts_fit n (batch_prompts m k ps) (rows_of m k sh)" and "no_elements (concat (batch_prompts m k ps)) \<longleftrightarrow> no_elements (concat ps)"
proof -
  have "prompts_fit n (batch_prompts m k ps) (rows_of m k sh) \<and> (no_elements (concat (batch_prompts m k ps)) \<longleftrightarrow> no_elements (concat ps))"
  proof (cases "no_elements (concat ps)")
    case True
    then show ?thesis by (simp add: batch_prompts_def prompts_fit_def no_elements_def)
  next
    case False
    obtain P where P: "length ps = n" "0 < P" "\<forall>l \<in> set sh. P \<le> l" "\<forall>p \<in> set ps. length p = length sh \<and> (\<forall>r \<in> set p. length r = P)"
      using fit False by (auto simp: prompts_fit_def)
    have "\<forall>l \<in> set (rows_of m k sh). P \<le> l" using P(3) by (meson in_set_dropD in_set_takeD)
    moreover have "\<forall>p \<in> set (map (rows_of m k) ps). length p = length (rows_of m k sh) \<and> (\<forall>r \<in> set p. length r = P)"
      using P(4) by (fastforce dest: in_set_dropD in_set_takeD)
    moreover have "rows_of m k sh \<noteq> []" using m by simp
    ultimately have f: "prompts_fit n (batch_prompts m k ps) (rows_of m k sh)" using P(1,2) False unfolding prompts_fit_def batch_prompts_def by auto
    have p0: "ps ! 0 \<in> set ps" using P(1) n by simp
    then have "ps ! 0 ! m \<in> set (rows_of m k (ps ! 0))"
    proof -
      have "m < length (ps ! 0)" using P(4) p0 m(1) by simp
      then have "rows_of m k (ps ! 0) ! 0 = ps ! 0 ! m" "0 < length (rows_of m k (ps ! 0))" using m(2) by simp_all
      then show ?thesis by (metis nth_mem)
    qed
    moreover have "ps ! 0 ! m \<noteq> []" using P(2,4) p0 m(1) by (metis length_greater_0_conv nth_mem)
    ultimately have "\<not> no_elements (concat (map (rows_of m k) ps))" using p0 unfolding no_elements_def by force
    then show ?thesis using f False by (simp add: batch_prompts_def)
  qed
  then show "prompts_fit n (batch_prompts m k ps) (rows_of m k sh)" "no_elements (concat (batch_prompts m k ps)) \<longleftrightarrow> no_elements (concat ps)" by auto
qed

lemma batch_prompt_at:
  assumes "prompts_fit n ps sh" and "m < length sh" "0 < k" and "i < n"
  shows "prompt_at (batch_prompts m k ps) i = rows_of m k (prompt_at ps i)"
    and "no_elements (prompt_at (batch_prompts m k ps) i) \<longleftrightarrow> no_elements (prompt_at ps i)"
    and "\<not> no_elements (concat ps) \<Longrightarrow> width (prompt_at (batch_prompts m k ps) i) = width (prompt_at ps i)"
proof -
  have n: "0 < n" using assms(4) by simp
  note fit = batch_prompts_fit [OF assms(1-3) n]
  show at: "prompt_at (batch_prompts m k ps) i = rows_of m k (prompt_at ps i)"
    using fit(2) assms(1,4) by (auto simp: prompt_at_def batch_prompts_def prompts_fit_def)
  have real: "\<not> no_elements (ps ! i) \<and> \<not> no_elements (rows_of m k (ps ! i)) \<and> width (rows_of m k (ps ! i)) = width (ps ! i)" if d: "\<not> no_elements (concat ps)"
  proof -
    obtain P where P: "length ps = n" "0 < P" "\<forall>p \<in> set ps. length p = length sh \<and> (\<forall>r \<in> set p. length r = P)"
      using assms(1) d by (auto simp: prompts_fit_def)
    have "ps ! i \<in> set ps" using assms(4) P(1) by simp
    then have p: "length (ps ! i) = length sh" "\<And>j. j < length sh \<Longrightarrow> length (ps ! i ! j) = P" using P(3) by (metis nth_mem)+
    have "rows_of m k (ps ! i) = ps ! i ! m # take (k - 1) (drop (Suc m) (ps ! i))"
      using p(1) assms(2,3) by (simp add: Cons_nth_drop_Suc [symmetric] take_Cons')
    moreover obtain q qs where "ps ! i = q # qs" using p(1) assms(2) by (cases "ps ! i") auto
    ultimately show ?thesis using p assms(2) P(2) by (force simp: width_def no_elements_def)
  qed
  show "no_elements (prompt_at (batch_prompts m k ps) i) \<longleftrightarrow> no_elements (prompt_at ps i)"
    using real unfolding at by (auto simp: prompt_at_def no_elements_def)
  show "width (prompt_at (batch_prompts m k ps) i) = width (prompt_at ps i)" if "\<not> no_elements (concat ps)"
    using real [OF that] that unfolding at by (simp add: prompt_at_def)
qed


lemma rows_of_map2: "map2 f (rows_of m k xs) (rows_of m k ys) = rows_of m k (map2 f xs ys)"
  by (simp add: take_map drop_map take_zip [symmetric] drop_zip [symmetric])

lemma rows_of_map: "map f (rows_of m k xs) = rows_of m k (map f xs)"
  by (simp add: take_map drop_map)

lemma batch_prompted:
  assumes "prompts_fit n ps sh" and "m < length sh" "0 < k" and "i < n"
  shows "prompted (prompt_at (batch_prompts m k ps) i) (rows_of m k x) = rows_of m k (prompted (prompt_at ps i) x)"
proof (cases "no_elements (prompt_at ps i)")
  case True
  then show ?thesis using batch_prompt_at(2) [OF assms] by (simp add: prompted_def)
next
  case False
  then show ?thesis using batch_prompt_at(2) [OF assms] unfolding batch_prompt_at(1) [OF assms]
    by (simp add: prompted_def rows_of_map2)
qed

lemma batch_blocks_out:
  assumes "rows_ok bl n f b" and "prompts_fit n ps sh" and "m < length sh" "0 < k" and "set is \<subseteq> {..<n}"
  shows "blocks_out bl (batch_prompts m k ps) is (rows_of m k x) = rows_of m k (blocks_out bl ps is x)"
  using assms(5)
proof (induction "is" arbitrary: x)
  case (Cons i "is")
  then have "i < n" by simp
  then have "block_forward bl i (rows_of m k y) = rows_of m k (block_forward bl i y)" for y
    using assms(1) by (simp add: rows_ok_def rows_of_map)
  then show ?case using Cons batch_prompted [OF assms(2-4) \<open>i < n\<close>] by simp
qed simp

lemma batch_blocks_grad:
  assumes "rows_ok bl n f b" and "prompts_fit n ps sh" and "m < length sh" "0 < k" and "0 < n" and "set is \<subseteq> {..<n}"
  shows "blocks_grad bl (batch_prompts m k ps) is (rows_of m k x) (rows_of m k g) =
     (rows_of m k (fst (blocks_grad bl ps is x g)), map (rows_of m k) (snd (blocks_grad bl ps is x g)))"
  using assms(6)
proof (induction "is" arbitrary: x)
  case (Cons i "is")
  then have i: "i < n" by simp
  have fwd: "block_forward bl i (rows_of m k y) = rows_of m k (block_forward bl i y)" for y
    using assms(1) i by (simp add: rows_ok_def rows_of_map)
  have bwd: "block_backward bl i (rows_of m k y) (rows_of m k g') = rows_of m k (block_backward bl i y g')" for y g'
    using assms(1) i by (simp add: rows_ok_def rows_of_map2)
  let ?y = "prompted (prompt_at ps i) x"
  have ih: "blocks_grad bl (batch_prompts m k ps) is (rows_of m k (block_forward bl i ?y)) (rows_of m k g) =
      (rows_of m k (fst (blocks_grad bl ps is (block_forward bl i ?y) g)), map (rows_of m k) (snd (blocks_grad bl ps is (block_forward bl i ?y) g)))"
    using Cons by simp
  show ?case
  proof (cases "no_elements (concat ps)")
    case True
    then show ?thesis using batch_prompts_fit(2) [OF assms(2-5)]
      by (simp add: Let_def batch_prompted [OF assms(2-4) i] fwd bwd ih split_beta)
  next
    case False
    then show ?thesis using batch_prompts_fit(2) [OF assms(2-5)] batch_prompt_at(3) [OF assms(2-4) i False]
      by (simp add: Let_def batch_prompted [OF assms(2-4) i] fwd bwd ih split_beta rows_of_map)
  qed
qed simp

section \<open>Splitting and gathering\<close>

lemma split_rows_induct:
  assumes "0 < k" and "P []" and "\<And>xs. xs \<noteq> [] \<Longrightarrow> P (drop k xs) \<Longrightarrow> P xs"
  shows "P xs"
proof (induction "length xs" arbitrary: xs rule: less_induct)
  case less
  then show ?case using assms by (cases "xs = []") auto
qed

lemma split_rows_Nil [simp]: "split_rows k [] = []"
  by (simp add: split_rows.simps)

lemma split_rows_Cons: "0 < k \<Longrightarrow> xs \<noteq> [] \<Longrightarrow> split_rows k xs = take k xs # split_rows k (drop k xs)"
  by (simp add: split_rows.simps [of k xs])

lemma split_rows_map:
  assumes "0 < k"
  shows "split_rows k (map f xs) = map (map f) (split_rows k xs)"
  using assms by (induction xs rule: split_rows_induct [OF assms]) (simp_all add: split_rows_Cons take_map drop_map)

lemma split_rows_length: "0 < k \<Longrightarrow> length xs = length ys \<Longrightarrow> length (split_rows k xs) = length (split_rows k ys)"
proof -
  assume "0 < k" "length xs = length ys"
  then have "map (\<lambda>_. ()) xs = map (\<lambda>_. ()) ys" by (simp add: map_replicate_const)
  then show ?thesis using split_rows_map [OF \<open>0 < k\<close>] by (metis length_map)
qed

lemma split_rows_nth:
  assumes "0 < k"
  shows "j < length (split_rows k xs) \<Longrightarrow> split_rows k xs ! j = rows_of (j * k) k xs \<and> j * k < length xs"
  using assms
proof (induction xs arbitrary: j rule: split_rows_induct [OF assms])
  case (2 xs)
  show ?case
  proof (cases j)
    case 0
    then show ?thesis using 2 by (simp add: split_rows_Cons)
  next
    case (Suc i)
    then have "i < length (split_rows k (drop k xs))" using 2 by (simp add: split_rows_Cons)
    then show ?thesis using 2 Suc by (fastforce simp: split_rows_Cons add.commute)
  qed
qed simp_all

lemma split_rows_slices:
  assumes "0 < k" and "length ys = length xs"
  shows "split_rows k ys = map (\<lambda>j. rows_of (j * k) k ys) [0..<length (split_rows k xs)]"
  using split_rows_length [OF assms] split_rows_nth [OF assms(1), of _ ys] by (intro nth_equalityI) simp_all

lemma concat_slices:
  assumes "0 < k" and "length ys = length xs"
  shows "concat (map (\<lambda>j. rows_of (j * k) k ys) [0..<length (split_rows k xs)]) = ys"
proof -
  have "concat (split_rows k zs) = zs" for zs :: "'a list"
    using assms(1) by (induction zs rule: split_rows_induct [OF assms(1)]) (simp_all add: split_rows_Cons)
  then show ?thesis using split_rows_slices [OF assms] by metis
qed

lemma gather_cases:
  assumes "None \<notin> set rs"
  obtains (err) e l where "gather rs = Some (Inl e)" and "Some (Inl e, l) \<in> set rs"
  | (ok) xs where "gather rs = Some (Inr xs)" and "list_all2 (\<lambda>r x. \<exists>l. r = Some (Inr x, l)) rs xs"
proof -
  have "(\<exists>e l. gather rs = Some (Inl e) \<and> Some (Inl e, l) \<in> set rs) \<or>
      (\<exists>xs. gather rs = Some (Inr xs) \<and> list_all2 (\<lambda>r x. \<exists>l. r = Some (Inr x, l)) rs xs)"
    using assms
  proof (induction rs)
    case (Cons r rs)
    then obtain q l where r: "r = Some (q, l)" by (cases r) auto
    show ?case using Cons by (cases q) (auto simp: r)
  qed simp
  then show thesis using err ok by blast
qed


section \<open>The autograd function is the whole model\<close>

definition gave_up :: "nat \<Rightarrow> ('r result \<times> 'p call_event list) option \<Rightarrow> bool" where
  "gave_up r o' \<longleftrightarrow> (\<exists>e calls. o' = Some (Inl e, calls) \<and> r \<le> failures calls)"

lemma autograd_batch_size_pos [simp]: "0 < autograd_batch_size x"
  by (simp add: autograd_batch_size_def)

lemma training_batches:
  assumes fit: "prompts_fit n ps (map length x)" and x: "x \<noteq> []" and k: "0 < k" and n: "0 < n" and K: "K = length (split_rows k x)"
  shows "torch_split k x = map (\<lambda>j. rows_of (j * k) k x) [0..<K]"
    and "prompt_batches k K ps = map (\<lambda>j. batch_prompts (j * k) k ps) [0..<K]"
    and "0 < K" and "j < K \<Longrightarrow> j * k < length x"
proof -
  show "torch_split k x = map (\<lambda>j. rows_of (j * k) k x) [0..<K]" unfolding K using x split_rows_slices [OF k, of x x] by (simp add: torch_split_def)
  show "0 < K" using x k by (simp add: K split_rows_Cons)
  show "j * k < length x" if "j < K" using split_rows_nth [OF k, of j x] that unfolding K by blast
  show "prompt_batches k K ps = map (\<lambda>j. batch_prompts (j * k) k ps) [0..<K]"
  proof (cases "no_elements (concat ps)")
    case True
    then show ?thesis by (simp add: prompt_batches_def batch_prompts_def map_replicate_const)
  next
    case False
    then obtain p ps' where ps: "ps = p # ps'" using fit n by (cases ps) (auto simp: prompts_fit_def)
    then have "length (hd ps) = length x" using fit False by (auto simp: prompts_fit_def)
    then have "length (split_rows k (hd ps)) = K" unfolding K using split_rows_length [OF k] by blast
    then show ?thesis using False by (simp add: prompt_batches_def batch_prompts_def)
  qed
qed

lemma list_all2_map_upt:
  assumes "list_all2 Q (map h [0..<K]) xs"
  shows "length xs = K" and "j < K \<Longrightarrow> Q (h j) (xs ! j)"
  using assms by (auto simp: list_all2_conv_all_nth)

lemma zip_batches: "zip [0..<K] (zip (map f [0..<K]) (map g [0..<K])) = map (\<lambda>j. (j, f j, g j)) [0..<K]"
  by (rule nth_equalityI) simp_all

definition ctx_ok ::
  "'h::plus train_blocks \<Rightarrow> nat \<Rightarrow> 'h list list list \<Rightarrow> nat \<Rightarrow> nat \<Rightarrow> 'h list list \<Rightarrow> ('p, 'h) autograd_ctx \<Rightarrow> bool" where
  "ctx_ok bl n ps k K x ctx \<longleftrightarrow>
     length (ctx_inters ctx) = K \<and> length (ctx_seqs ctx) = K \<and> ctx_prompts ctx = map (\<lambda>j. batch_prompts (j * k) k ps) [0..<K] \<and>
     (\<forall>j<K. \<exists>st. stack_ok bl (batch_prompts (j * k) k ps) st 0 n (rows_of (j * k) k x) \<and>
        ctx_inters ctx ! j = map fst st \<and> ctx_seqs ctx ! j = map snd st)"

lemma autograd_forward_ok:
  assumes rows: "rows_ok bl n f b" and fit: "prompts_fit n ps (map length x)" and n: "0 < n" and r: "0 < r"
    and w: "0 < width x" and k: "k = autograd_batch_size x" and K: "K = length (split_rows k x)"
  shows "\<exists>res. autograd_forward bl sws (Some r) n ps x = Some res \<and>
    (case res of
       Inl _ \<Rightarrow> \<exists>j<K. gave_up r (sequential_forward bl (sws j) (Some r) n (batch_prompts (j * k) k ps) (rows_of (j * k) k x) 0 n [])
     | Inr (out, ctx) \<Rightarrow> out = blocks_out bl ps [0..<n] x \<and> ctx_ok bl n ps k K x ctx)"
proof -
  have x: "x \<noteq> []" and k0: "0 < k" using w by (auto simp: width_def k)
  note bat = training_batches [OF fit x k0 n K]
  have sub: "set [0..<n] \<subseteq> {..<n}" by auto
  define calls where "calls j = sequential_forward bl (sws j) (Some r) n (batch_prompts (j * k) k ps) (rows_of (j * k) k x) 0 n []" for j
  have each: "\<exists>res new. calls j = Some (res, new) \<and>
      forward_result bl (batch_prompts (j * k) k ps) 0 n (rows_of (j * k) k x) r [] [] (failures new) res" if "j < K" for j
  proof -
    have m: "j * k < length (map length x)" using bat(4) that by simp
    have "train_ok bl n (batch_prompts (j * k) k ps) (rows_of (j * k) k (map length x))"
      using rows_train_ok [OF rows batch_prompts_fit(1) [OF fit m k0 n]] .
    from sequential_forward_ok [OF this _ order_refl r, of 0 "rows_of (j * k) k x" "sws j" "[]"]
    show ?thesis by (simp add: calls_def rows_of_map)
  qed
  have def': "autograd_forward bl sws (Some r) n ps x =
      (case gather (map calls [0..<K]) of
         None \<Rightarrow> None
       | Some (Inl e) \<Rightarrow> Some (Inl e)
       | Some (Inr outs) \<Rightarrow>
           Some (if length outs \<noteq> K then Inl AssertionError
                 else Inr (concat (map fst outs),
                        \<lparr>ctx_prompts = map (\<lambda>j. batch_prompts (j * k) k ps) [0..<K], ctx_inters = map (fst \<circ> snd) outs, ctx_seqs = map (snd \<circ> snd) outs\<rparr>)))"
    unfolding autograd_forward_def Let_def k [symmetric] bat(1) length_map length_upt diff_zero bat(2) zip_batches map_map
    using w by (simp add: comp_def calls_def [symmetric])
  have "None \<notin> set (map calls [0..<K])" using each by force
  then show ?thesis
  proof (cases rule: gather_cases)
    case (err e l)
    then obtain j where j: "j < K" "calls j = Some (Inl e, l)" by auto
    then have "gave_up r (calls j)" using each [OF j(1)] by (auto simp: gave_up_def forward_result_def)
    then show ?thesis unfolding def' using err(1) j(1) by (auto simp: calls_def)
  next
    case (ok outs)
    note outs = list_all2_map_upt [OF ok(2)]
    have part: "fst (outs ! j) = rows_of (j * k) k (blocks_out bl ps [0..<n] x) \<and>
        (\<exists>st. stack_ok bl (batch_prompts (j * k) k ps) st 0 n (rows_of (j * k) k x) \<and>
           fst (snd (outs ! j)) = map fst st \<and> snd (snd (outs ! j)) = map snd st)" if j: "j < K" for j
    proof -
      obtain l where l: "calls j = Some (Inr (outs ! j), l)" using outs(2) [OF j] by blast
      have m: "j * k < length (map length x)" using bat(4) j by simp
      show ?thesis using each [OF j] batch_blocks_out [OF rows fit m k0 sub] l
        by (auto simp: forward_result_def split: prod.splits)
    qed
    have "map fst outs = map (\<lambda>j. rows_of (j * k) k (blocks_out bl ps [0..<n] x)) [0..<K]"
      by (rule nth_equalityI) (use outs(1) part in auto)
    moreover have "length (blocks_out bl ps [0..<n] x) = length x"
      using blocks_out_shape [OF rows_train_ok [OF rows fit] sub refl] by (metis length_map)
    ultimately have cat: "concat (map fst outs) = blocks_out bl ps [0..<n] x" using concat_slices [OF k0] by (simp add: K)
    have "ctx_ok bl n ps k K x \<lparr>ctx_prompts = map (\<lambda>j. batch_prompts (j * k) k ps) [0..<K], ctx_inters = map (fst \<circ> snd) outs, ctx_seqs = map (snd \<circ> snd) outs\<rparr>"
      using part outs(1) by (auto simp: ctx_ok_def)
    then show ?thesis unfolding def' using ok(1) outs(1) cat by simp
  qed
qed


lemma grads_length:
  assumes "train_ok bl n ps sh" and "set is \<subseteq> {..<n}" and "map length x = sh" and "map length g = sh"
  shows "\<forall>p \<in> set (snd (blocks_grad bl ps is x g)). length p = length sh"
  using assms(2,3)
proof (induction "is" arbitrary: x)
  case (Cons i "is")
  let ?y = "prompted (prompt_at ps i) x"
  have y: "map length (block_forward bl i ?y) = sh" using blocks_out_shape [OF assms(1), of "[i]" x] Cons.prems by simp
  have "map length (fst (blocks_grad bl ps (i # is) x g)) = sh" using blocks_grad_shape [OF assms(1) Cons.prems assms(4)] .
  then have "length (fst (blocks_grad bl ps (i # is) x g)) = length sh" by (metis length_map)
  moreover have "set (snd (blocks_grad bl ps (i # is) x g)) \<subseteq>
      insert (map (take (width (prompt_at ps i))) (fst (blocks_grad bl ps (i # is) x g))) (set (snd (blocks_grad bl ps is (block_forward bl i ?y) g)))"
    by (auto simp: Let_def split_beta)
  ultimately show ?case using Cons.IH [OF _ y] Cons.prems(1) by fastforce
qed simp

lemma zip_ctx:
  assumes "length is = K" and "length ss = K"
  shows "zip [0..<K] (zip (map f [0..<K]) (zip is (zip (map g [0..<K]) ss))) = map (\<lambda>j. (j, f j, is ! j, g j, ss ! j)) [0..<K]"
  by (rule nth_equalityI) (use assms in simp_all)

definition backward_batch ::
  "'h::plus train_blocks \<Rightarrow> (nat \<Rightarrow> 'p training_swarm) \<Rightarrow> nat \<Rightarrow> nat \<Rightarrow> nat \<Rightarrow> ('p, 'h) autograd_ctx \<Rightarrow> 'h list list \<Rightarrow> nat \<Rightarrow>
   (('h list list \<times> 'h list list list option) result \<times> 'p call_event list) option" where
  "backward_batch bl sws r n k ctx g j =
     sequential_backward bl (sws j) (Some r) n (ctx_prompts ctx ! j) (rows_of (j * k) k g) (ctx_inters ctx ! j) (ctx_seqs ctx ! j) []"

lemma backward_batch_ok:
  assumes rows: "rows_ok bl n f b" and fit: "prompts_fit n ps (map length x)" and n: "0 < n" and r: "0 < r" and k: "0 < k"
    and g: "map length g = map length x" and ctx: "ctx_ok bl n ps k K x ctx" and j: "j < K" "j * k < length x"
  shows "\<exists>res new. backward_batch bl sws r n k ctx g j = Some (res, new) \<and>
    (case res of
       Inl _ \<Rightarrow> r \<le> failures new
     | Inr (g', gp) \<Rightarrow> g' = rows_of (j * k) k (fst (blocks_grad bl ps [0..<n] x g)) \<and>
         gp = (if no_elements (concat ps) then None else Some (map (rows_of (j * k) k) (snd (blocks_grad bl ps [0..<n] x g)))))"
proof -
  have m: "j * k < length (map length x)" using j by simp
  have sub: "set [0..<n] \<subseteq> {..<n}" by auto
  let ?sh = "rows_of (j * k) k (map length x)" and ?ps = "batch_prompts (j * k) k ps"
  have ok: "train_ok bl n ?ps ?sh" using rows_train_ok [OF rows batch_prompts_fit(1) [OF fit m k n]] .
  have shapes: "map length (rows_of (j * k) k x) = ?sh" "map length (rows_of (j * k) k g) = ?sh" using g by (simp_all add: rows_of_map)
  obtain st where st: "stack_ok bl ?ps st 0 n (rows_of (j * k) k x)" "ctx_inters ctx ! j = map fst st" "ctx_seqs ctx ! j = map snd st"
    using ctx j(1) by (auto simp: ctx_ok_def)
  have "ctx_prompts ctx ! j = ?ps" using ctx j(1) by (simp add: ctx_ok_def)
  with sequential_backward_ok [OF ok n order_refl r shapes st(1), of "sws j" "[]"]
  show ?thesis unfolding backward_batch_def st(2,3) batch_blocks_grad [OF rows fit m k n sub] batch_prompts_fit(2) [OF fit m k n]
      fst_conv snd_conv append_Nil by simp
qed

lemma autograd_backward_ok:
  assumes rows: "rows_ok bl n f b" and fit: "prompts_fit n ps (map length x)" and n: "0 < n" and r: "0 < r"
    and w: "0 < width x" and g: "map length g = map length x"
    and k: "k = autograd_batch_size x" and K: "K = length (split_rows k x)" and ctx: "ctx_ok bl n ps k K x ctx"
  shows "\<exists>res. autograd_backward bl sws (Some r) n ctx g = Some res \<and>
    (case res of
       Inl _ \<Rightarrow> \<exists>j<K. gave_up r (backward_batch bl sws r n k ctx g j)
     | Inr (g', gp) \<Rightarrow> g' = fst (blocks_grad bl ps [0..<n] x g) \<and>
         gp = (if no_elements (concat ps) then None else Some (snd (blocks_grad bl ps [0..<n] x g))))"
proof -
  let ?G = "fst (blocks_grad bl ps [0..<n] x g)" and ?GP = "snd (blocks_grad bl ps [0..<n] x g)"
  have x: "x \<noteq> []" and k0: "0 < k" using w by (auto simp: width_def k)
  have lg: "length g = length x" using g by (metis length_map)
  have gx: "g \<noteq> []" using lg x by auto
  have wg: "width g = width x" using g x gx by (cases g; cases x) (simp_all add: width_def)
  then have bs: "autograd_batch_size g = k" by (simp add: autograd_batch_size_def k)
  note bat = training_batches [OF fit x k0 n K]
  have gs: "torch_split k g = map (\<lambda>j. rows_of (j * k) k g) [0..<K]"
    using gx split_rows_slices [OF k0 lg] by (simp add: torch_split_def K)
  have sub: "set [0..<n] \<subseteq> {..<n}" by auto
  note ok = rows_train_ok [OF rows fit]
  have each: "\<exists>res new. backward_batch bl sws r n k ctx g j = Some (res, new) \<and>
    (case res of
       Inl _ \<Rightarrow> r \<le> failures new
     | Inr (g', gp) \<Rightarrow> g' = rows_of (j * k) k ?G \<and> gp = (if no_elements (concat ps) then None else Some (map (rows_of (j * k) k) ?GP)))"
    if "j < K" for j using backward_batch_ok [OF rows fit n r k0 g ctx that bat(4) [OF that]] .
  have lens: "length (ctx_inters ctx) = K" "length (ctx_seqs ctx) = K" "ctx_prompts ctx = map (\<lambda>j. batch_prompts (j * k) k ps) [0..<K]"
    using ctx by (simp_all add: ctx_ok_def)
  have calls: "map (\<lambda>(j, gb, ib, pb, sb). sequential_backward bl (sws j) (Some r) n pb gb ib sb [])
      (zip [0..<K] (zip (map (\<lambda>j. rows_of (j * k) k g) [0..<K]) (zip (ctx_inters ctx) (zip (ctx_prompts ctx) (ctx_seqs ctx))))) =
      map (backward_batch bl sws r n k ctx g) [0..<K]"
    unfolding lens(3) zip_ctx [OF lens(1,2)] by (simp add: backward_batch_def lens(3))
  have def': "autograd_backward bl sws (Some r) n ctx g =
      (case gather (map (backward_batch bl sws r n k ctx g) [0..<K]) of
         None \<Rightarrow> None
       | Some (Inl e) \<Rightarrow> Some (Inl e)
       | Some (Inr outs) \<Rightarrow>
           Some (Inr (concat (map fst outs),
             if None \<in> snd ` set outs then None
             else Some (map (\<lambda>i. concat (map (\<lambda>out. the (snd out) ! i) outs)) [0..<length (the (snd (hd outs)))]))))"
    unfolding autograd_backward_def Let_def bs gs length_map length_upt diff_zero calls using w wg lens(1,2) by simp
  have "None \<notin> set (map (backward_batch bl sws r n k ctx g) [0..<K])" using each by force
  then show ?thesis
  proof (cases rule: gather_cases)
    case (err e l)
    then obtain j where j: "j < K" "backward_batch bl sws r n k ctx g j = Some (Inl e, l)" by auto
    then have "gave_up r (backward_batch bl sws r n k ctx g j)" using each [OF j(1)] by (auto simp: gave_up_def)
    then show ?thesis unfolding def' using err(1) j(1) by auto
  next
    case (ok outs)
    note outs = list_all2_map_upt [OF ok(2)]
    have part: "outs ! j = (rows_of (j * k) k ?G, if no_elements (concat ps) then None else Some (map (rows_of (j * k) k) ?GP))" if j: "j < K" for j
      using outs(2) [OF j] each [OF j] by (cases "outs ! j") auto
    have all: "outs = map (\<lambda>j. (rows_of (j * k) k ?G, if no_elements (concat ps) then None else Some (map (rows_of (j * k) k) ?GP))) [0..<K]"
      by (rule nth_equalityI) (use outs(1) part in auto)
    have "length ?G = length x" using blocks_grad_shape [OF \<open>train_ok bl n ps (map length x)\<close> sub refl g] by (metis length_map)
    then have catG: "concat (map fst outs) = ?G" unfolding all using concat_slices [OF k0] by (simp add: K comp_def)
    show ?thesis
    proof (cases "no_elements (concat ps)")
      case True
      have "None \<in> snd ` set outs" unfolding all using True bat(3) by (auto intro!: image_eqI [of _ _ "(rows_of (0 * k) k ?G, None)"])
      then show ?thesis unfolding def' using ok(1) catG True by simp
    next
      case False
      have none: "None \<notin> snd ` set outs" unfolding all using False by auto
      have "hd outs = outs ! 0" using outs(1) bat(3) by (cases outs) simp_all
      then have len: "length (the (snd (hd outs))) = length ?GP" using part [OF bat(3)] False by simp
      have "concat (map (\<lambda>out. the (snd out) ! i) outs) = ?GP ! i" if i: "i < length ?GP" for i
      proof -
        have "length (?GP ! i) = length x" using grads_length [OF \<open>train_ok bl n ps (map length x)\<close> sub refl g] i by simp
        then have "concat (map (\<lambda>j. rows_of (j * k) k (?GP ! i)) [0..<K]) = ?GP ! i" using concat_slices [OF k0] by (simp add: K)
        then show ?thesis unfolding all using i False by (simp add: comp_def)
      qed
      then have "map (\<lambda>i. concat (map (\<lambda>out. the (snd out) ! i) outs)) [0..<length (the (snd (hd outs)))] = ?GP"
        unfolding len by (intro nth_equalityI) simp_all
      then show ?thesis unfolding def' using ok(1) catG False none by simp
    qed
  qed
qed


text \<open>
  C3 One training step through the swarm, for any batch, any routing tables, any servers that fail and
  any draws: the forward pass and the backward pass return. When they do not raise, the output is
  that of the whole model on the whole batch, and the gradients of the inputs and of every block's
  prompts are those of the chain rule over all blocks, however the batch was split and however often
  spans were replaced and recomputed. They raise only when some batch has had \<open>max_retries\<close> failed
  calls.
\<close>

theorem training_step_exact:
  assumes "rows_ok bl n f b" and "prompts_fit n ps (map length x)" and "0 < n" and "0 < r"
    and "0 < width x" and "map length g = map length x"
  shows "\<exists>res. autograd_forward bl sws (Some r) n ps x = Some res \<and>
    (case res of
       Inl _ \<Rightarrow>
         \<exists>j. gave_up r (sequential_forward bl (sws j) (Some r) n (batch_prompts (j * autograd_batch_size x) (autograd_batch_size x) ps)
               (rows_of (j * autograd_batch_size x) (autograd_batch_size x) x) 0 n [])
     | Inr (out, ctx) \<Rightarrow>
         out = blocks_out bl ps [0..<n] x \<and>
         (\<exists>res2. autograd_backward bl sws' (Some r) n ctx g = Some res2 \<and>
            (case res2 of
               Inl _ \<Rightarrow> \<exists>j. gave_up r (backward_batch bl sws' r n (autograd_batch_size x) ctx g j)
             | Inr (g', gp) \<Rightarrow>
                 g' = fst (blocks_grad bl ps [0..<n] x g) \<and>
                 gp = (if no_elements (concat ps) then None else Some (snd (blocks_grad bl ps [0..<n] x g))))))"
proof -
  obtain res where fwd: "autograd_forward bl sws (Some r) n ps x = Some res"
      "case res of
         Inl _ \<Rightarrow> \<exists>j<length (split_rows (autograd_batch_size x) x). gave_up r (sequential_forward bl (sws j) (Some r) n
             (batch_prompts (j * autograd_batch_size x) (autograd_batch_size x) ps) (rows_of (j * autograd_batch_size x) (autograd_batch_size x) x) 0 n [])
       | Inr (out, ctx) \<Rightarrow> out = blocks_out bl ps [0..<n] x \<and> ctx_ok bl n ps (autograd_batch_size x) (length (split_rows (autograd_batch_size x) x)) x ctx"
    using autograd_forward_ok [OF assms(1-5) refl refl, of sws] by blast
  show ?thesis
  proof (cases res)
    case (Inl e)
    then show ?thesis using fwd by auto
  next
    case (Inr o')
    obtain out ctx where o': "o' = (out, ctx)" by (cases o')
    have out: "out = blocks_out bl ps [0..<n] x"
      and ctx: "ctx_ok bl n ps (autograd_batch_size x) (length (split_rows (autograd_batch_size x) x)) x ctx"
      using fwd(2) by (simp_all add: Inr o')
    obtain res2 where "autograd_backward bl sws' (Some r) n ctx g = Some res2"
        "case res2 of
           Inl _ \<Rightarrow> \<exists>j<length (split_rows (autograd_batch_size x) x). gave_up r (backward_batch bl sws' r n (autograd_batch_size x) ctx g j)
         | Inr (g', gp) \<Rightarrow> g' = fst (blocks_grad bl ps [0..<n] x g) \<and>
             gp = (if no_elements (concat ps) then None else Some (snd (blocks_grad bl ps [0..<n] x g)))"
      using autograd_backward_ok [OF assms refl refl ctx, of sws'] by blast
    then have "\<exists>res2. autograd_backward bl sws' (Some r) n ctx g = Some res2 \<and>
            (case res2 of
               Inl _ \<Rightarrow> \<exists>j. gave_up r (backward_batch bl sws' r n (autograd_batch_size x) ctx g j)
             | Inr (g', gp) \<Rightarrow> g' = fst (blocks_grad bl ps [0..<n] x g) \<and>
                 gp = (if no_elements (concat ps) then None else Some (snd (blocks_grad bl ps [0..<n] x g))))"
      by (cases res2) auto
    then show ?thesis using fwd(1) out by (simp add: Inr o')
  qed
qed

definition demo_train_blocks :: "int train_blocks" where
  "demo_train_blocks = \<lparr>
     block_forward = (\<lambda>i x. map (map (\<lambda>v. v * int (i + 2))) x),
     block_backward = (\<lambda>i x g. map2 (\<lambda>row grow. map (\<lambda>v. v * int (i + 2)) grow) x g)\<rparr>"

definition demo_training_swarm :: "nat training_swarm" where
  "demo_training_swarm = \<lparr>
     ts_pick = (\<lambda>_ _ sps _. hd sps), ts_rtts = (\<lambda>_ _. None), ts_info = (\<lambda>_. demo_seq_info),
     ts_fails = (\<lambda>calls _. if calls = [] then Some TimeoutError else None)\<rparr>"

theorem training_step_exact_witness:
  "\<exists>res. autograd_forward demo_train_blocks (\<lambda>_. demo_training_swarm) (Some 3) 2 [[[10], [20]], [[30], [40]]] [[1, 2], [3, 4]] = Some res \<and>
    (case res of
       Inl _ \<Rightarrow>
         \<exists>j. gave_up 3 (sequential_forward demo_train_blocks demo_training_swarm (Some 3) 2
               (batch_prompts (j * autograd_batch_size [[1, 2], [3, 4 :: int]]) (autograd_batch_size [[1, 2], [3, 4 :: int]]) [[[10], [20]], [[30], [40]]])
               (rows_of (j * autograd_batch_size [[1, 2], [3, 4 :: int]]) (autograd_batch_size [[1, 2], [3, 4 :: int]]) [[1, 2], [3, 4]]) 0 2 [])
     | Inr (out, ctx) \<Rightarrow> out = [[156, 12], [258, 24]])"
proof -
  let ?f = "\<lambda>i. map (\<lambda>v. v * int (i + 2))"
  have rows: "rows_ok demo_train_blocks 2 ?f (\<lambda>i row grow. ?f i grow)" by (simp add: rows_ok_def demo_train_blocks_def)
  have fit: "prompts_fit 2 [[[10], [20]], [[30], [40 :: int]]] (map length [[1, 2], [3, 4 :: int]])"
    unfolding prompts_fit_def by (intro disjI2) (auto intro!: exI [of _ 1])
  have two: "[0..<2] = [0, 1 :: nat]" by (simp add: upt_rec)
  have "blocks_out demo_train_blocks [[[10], [20]], [[30], [40]]] [0..<2] [[1, 2], [3, 4]] = [[156, 12], [258, 24]]"
    by (simp add: two prompted_def prompt_at_def no_elements_def add_row_def demo_train_blocks_def)
  then show ?thesis
    using training_step_exact [OF rows fit, of 3 "[[1, 2], [3, 4]]" "\<lambda>_. demo_training_swarm" "\<lambda>_. demo_training_swarm"]
    by (fastforce simp: width_def split: sum.splits)
qed

lemma forward_never:
  assumes "forward_loop bl sw (Some 0) ps e attempt k seqs x inters dones calls = Some res"
    and "\<forall>calls p. ts_fails sw calls p \<noteq> None" and "k < e"
  shows False
proof -
  have "retries = Some 0 \<longrightarrow> (\<forall>calls p. ts_fails sw calls p \<noteq> None) \<longrightarrow> k < e \<longrightarrow> False"
    if "forward_loop bl sw retries ps e attempt k seqs x inters dones calls = Some res" for retries
  proof (rule forward_loop.raw_induct [where P = "\<lambda>bl sw retries ps e attempt k seqs x inters dones calls res.
      retries = Some 0 \<longrightarrow> (\<forall>calls p. ts_fails sw calls p \<noteq> None) \<longrightarrow> k < e \<longrightarrow> False", OF _ that], goal_cases)
    case (1 loop bl sw retries ps e attempt k seqs x inters dones calls res)
    show ?case
    proof (intro impI)
      assume r0: "retries = Some 0" and down: "\<forall>calls p. ts_fails sw calls p \<noteq> None" and ke: "k < e"
      show False
      proof (cases "next_span sw calls attempt k e seqs")
        case (Inl err)
        then have "loop bl sw retries ps e (attempt + 1) k seqs x inters dones (calls @ [Failed None]) = Some res"
          using 1(2) r0 ke by simp
        then show False using 1(1) r0 down ke by blast
      next
        case (Inr ss)
        obtain err where "ts_fails sw calls (span_peer (hd ss)) = Some err" using down by blast
        then have "try_forward bl sw calls ps (hd ss) x = Inl err" by (simp add: try_forward_def call_peer_def)
        then have "loop bl sw retries ps e (attempt + 1) k (tl ss) x inters dones (calls @ [Failed (Some (span_peer (hd ss)))]) = Some res"
          using 1(2) r0 ke Inr by simp
        then show False using 1(1) r0 down ke by blast
      qed
    qed
  qed
  then show False using assms by blast
qed

text \<open>
  C38 With \<open>max_retries\<close> zero the test that ends the retries never holds: a forward pass whose calls
  all fail does not return.
\<close>

theorem zero_retries_never_end:
  assumes "\<And>calls p. ts_fails sw calls p \<noteq> None" and "s < e" and "e \<le> n" and "no_elements (concat ps) \<or> length ps = n"
  shows "sequential_forward bl sw (Some 0) n ps x s e calls = None"
proof -
  have "forward_loop bl sw (Some 0) ps e 0 s [] x [] [] calls = None"
    using forward_never [of bl sw ps e 0 s "[]" x "[]" "[]" calls] assms(1,2) by (metis not_Some_eq)
  then show ?thesis using assms(3,4) by (auto simp: sequential_forward_def)
qed

theorem zero_retries_never_end_witness:
  "sequential_forward demo_train_blocks (demo_training_swarm\<lparr>ts_fails := \<lambda>_ _. Some TimeoutError\<rparr>) (Some 0) 2 [] [[1]] 0 2 [] = None"
  by (rule zero_retries_never_end) (simp_all add: no_elements_def)

end
