(* ===== verification/SpecCache.thy ===== *)
theory SpecCache
  imports LiveRows PagedKV_Props
begin

text \<open>
  The cache of keys and values during speculation (\<open>server/memory_cache_manager.py\<close>): the read of a
  window that still holds rejected positions, the write of a new tree behind it, and the compaction
  that moves the accepted positions of every row together; beside it the calls that mirror these
  writes in the page tables.
\<close>

section \<open>Reading without reordering\<close>

text \<open>Position ids of a batch; negative entries are padding.\<close>

definition valid_positions :: "int list \<Rightarrow> nat list" where
  "valid_positions ids = map nat (filter (\<lambda>p. 0 \<le> p) ids)"

definition all_valid :: "int list list \<Rightarrow> nat list" where
  "all_valid ids = concat (map valid_positions ids)"

definition window_length :: "int list list \<Rightarrow> nat" where
  "window_length ids = Suc (Max (set (all_valid ids)))"

definition make_spec_resident :: "nat \<Rightarrow> (nat \<times> nat) option \<Rightarrow> 'a kv_manager \<Rightarrow> 'a kv_manager" where
  "make_spec_resident mb key m =
     (let current_mb = Option.bind key (current_gpu_mb m);
          pending_mb = Option.bind key (pending_gpu_mb m)
      in if current_mb \<noteq> Some mb
         then sync_prefetch mb (if pending_mb \<noteq> Some mb then prefetch_microbatch_kv mb m else m)
         else if pending_mb = Some mb then sync_prefetch mb m
         else m)"

definition spec_read_range :: "nat \<Rightarrow> nat \<Rightarrow> nat \<Rightarrow> nat \<Rightarrow> nat \<Rightarrow> 'a kv_manager \<Rightarrow> nat \<times> nat \<times> 'a kv_manager" where
  "spec_read_range batch_offset full_batch micro_batch capacity BH_full m =
     (let H = heads_of m in
      if full_batch > 0 \<and> micro_batch > 0 then
        if gpu_multiplexing capacity full_batch then
          let mb = compute_microbatch_index (kv_pol m) batch_offset (Some micro_batch) (Some full_batch);
              (slot, start, active, _) = resolve_working_slot (kv_pol m) mb capacity (Some micro_batch);
              size_rows = (if active > 0 then active else capacity)
          in (start * H, min (start * H + size_rows * H) BH_full, make_spec_resident mb (slot_state_key slot m) m)
        else (batch_offset * H, min (batch_offset * H + micro_batch * H) BH_full, m)
      else (0, BH_full, m))"

definition spec_view :: "nat \<Rightarrow> 'a slab \<Rightarrow> nat \<Rightarrow> nat \<Rightarrow> nat list \<Rightarrow> 'a pkv result" where
  "spec_view heads sl cache_len BH columns =
     (let H = (if BH < heads then BH else heads) in
      if H = 0 \<or> BH mod H \<noteq> 0 then Inl AssertionError
      else if seq_total sl < cache_len \<or> length columns \<noteq> BH then Inl RuntimeError
      else Inr \<lparr>pk_batch = BH div H, pk_heads = H, pk_seq = cache_len,
                pk_key = (\<lambda>b h s. k_data sl s (columns ! (b * H + h))),
                pk_value = (\<lambda>b h s. v_data sl s (columns ! (b * H + h)))\<rparr>)"

definition select_cache_without_reorder ::
  "int list list \<Rightarrow> nat \<Rightarrow> nat \<Rightarrow> nat \<Rightarrow> nat option \<Rightarrow> 'a kv_manager \<Rightarrow> ('a kv_manager, 'a pkv option \<times> nat) outcome" where
  "select_cache_without_reorder ids batch_offset full_batch micro_batch cache_tensors m =
     (case (case cache_tensors of None \<Rightarrow> active_cache_slot_id m | Some c \<Rightarrow> Some c) of
        None \<Rightarrow> (Inl AssertionError, m)
      | Some c \<Rightarrow>
          if heads_of m = 0 then (Inl ZeroDivisionError, m)
          else if all_valid ids = [] then (Inr (None, 0), m)
          else
            let cache_len = window_length ids;
                (b0, b1, m1) = spec_read_range batch_offset full_batch micro_batch (bh_total (slabs m c) div heads_of m) (bh_total (slabs m c)) m
            in (case read_columns (slabs m1 c) (b0, b1) of
                  Inl _ \<Rightarrow> (Inr (None, cache_len), m1)
                | Inr columns \<Rightarrow>
                    (case spec_view (heads_of m) (slabs m1 c) cache_len (b1 - b0) columns of
                       Inl e \<Rightarrow> (Inl e, m1)
                     | Inr view \<Rightarrow> (Inr (Some view, cache_len), m1))))"

section \<open>Compaction\<close>

definition root_position :: "nat \<Rightarrow> nat list \<Rightarrow> nat" where
  "root_position S_old vs = (case vs of [] \<Rightarrow> S_old | p # _ \<Rightarrow> p)"

definition reordered :: "nat \<Rightarrow> nat list \<Rightarrow> (nat \<Rightarrow> 'a::zero) \<Rightarrow> nat \<Rightarrow> 'a" where
  "reordered S_old vs old s =
     (let r = root_position S_old vs in
      if s < r then old s else if s - r < length vs then old (vs ! (s - r)) else 0)"

definition reorder_and_write_cache ::
  "'a::zero pkv \<Rightarrow> int list list \<Rightarrow> nat \<Rightarrow> nat \<Rightarrow> nat \<Rightarrow> nat \<Rightarrow> 'a kv_manager \<Rightarrow> ('a kv_manager, nat \<times> nat list) outcome" where
  "reorder_and_write_cache view ids c batch_offset full_batch micro_batch m =
     (let B = pk_batch view; H = pk_heads view; S_old = pk_seq view; D = head_dim (slabs m c);
          vss = map valid_positions ids;
          lengths = map (\<lambda>vs. root_position S_old vs + length vs) vss;
          new_len = Max (set lengths)
      in if length ids \<noteq> B \<or> (\<exists>p \<in> set (all_valid ids). S_old \<le> p) then (Inl IndexError, m)
         else (case write_kvs
                 \<lparr>key_shape = [B * H, D, new_len], value_shape = [B * H, new_len, D],
                  key_at = (\<lambda>bh. reordered S_old (vss ! (bh div H)) (pk_key view (bh div H) (bh mod H))),
                  value_at = (\<lambda>bh. reordered S_old (vss ! (bh div H)) (pk_value view (bh div H) (bh mod H)))\<rparr>
                 0 batch_offset full_batch micro_batch (Some c) m of
              (Inl e, m1) \<Rightarrow> (Inl e, m1)
            | (Inr _, m1) \<Rightarrow> (Inr (new_len, lengths), m1)))"

section \<open>The page tables beside the slab\<close>

definition infer_seq_ids_and_tokens :: "block_config \<Rightarrow> 'a new_kvs \<Rightarrow> int list \<times> nat" where
  "infer_seq_ids_and_tokens cfg kvs =
     (case key_shape kvs of
        [BH, _, s_new] \<Rightarrow>
          let H = (if num_attention_heads cfg = 0 then 32 else num_attention_heads cfg);
              source_heads = source_heads_per_batch cfg H BH 0 0
          in if source_heads = 0 \<or> BH mod source_heads \<noteq> 0 then ([], 0)
             else (map int [0..<BH div source_heads], s_new)
      | _ \<Rightarrow> ([], 0))"

definition track_paged_write :: "block_config \<Rightarrow> 'a new_kvs \<Rightarrow> nat \<Rightarrow> bool \<Rightarrow> 'b paged_table list \<Rightarrow> 'b paged_table list" where
  "track_paged_write cfg kvs start commit tables =
     (let (seq_ids, s_new) = infer_seq_ids_and_tokens cfg kvs in
      if s_new = 0 \<or> seq_ids = [] then tables
      else map (\<lambda>t. fold (\<lambda>sid t. snd (track_write sid start (int s_new) commit t)) seq_ids t) tables)"

definition table_seq_ids :: "'b paged_table \<Rightarrow> int list" where
  "table_seq_ids t = sorted_list_of_set (dom (seqs t))"

definition rollback_paged_to :: "nat \<Rightarrow> 'b paged_table list \<Rightarrow> 'b paged_table list" where
  "rollback_paged_to target tables =
     map (\<lambda>t. fold (\<lambda>sid t. case get_l_acc sid t of
                                 Inl _ \<Rightarrow> t
                               | Inr acc \<Rightarrow> snd (rollback sid (int (min target acc)) t)) (table_seq_ids t) t) tables"

definition commit_paged_to :: "nat \<Rightarrow> 'b paged_table list \<Rightarrow> 'b paged_table list" where
  "commit_paged_to target tables =
     map (\<lambda>t. fold (\<lambda>sid t. case get_l_seq sid t of
                                 Inl _ \<Rightarrow> t
                               | Inr l \<Rightarrow> snd (commit_seq sid (Some (int (min target l))) t)) (table_seq_ids t) t) tables"

text \<open>
  \<open>_do_reorder_task\<close>: everything it raises is logged and dropped, so it always returns, with whatever
  the slab and the tables are by then.
\<close>

definition reorder_generation ::
  "'a::zero new_kvs \<Rightarrow> int list list \<Rightarrow> nat \<Rightarrow> nat \<Rightarrow> nat \<Rightarrow> nat \<Rightarrow> 'a kv_manager \<times> 'b paged_table list \<Rightarrow>
   ('a kv_manager \<times> 'b paged_table list, unit) outcome" where
  "reorder_generation kvs ids c batch_offset full_batch micro_batch mt =
     (let (m, ts) = mt; write_position = window_length ids; ts1 = rollback_paged_to write_position ts in
      case write_kvs kvs write_position batch_offset full_batch micro_batch (Some c) m of
        (Inl e, m1) \<Rightarrow> (Inl e, m1, ts1)
      | (Inr _, m1) \<Rightarrow>
          let ts2 = track_paged_write (kv_cfg m) kvs write_position False ts1;
              tree_len = last (key_shape kvs);
              extended = map (\<lambda>row. row @ map int [write_position..<write_position + tree_len]) ids;
              cache_len = window_length extended
          in (case select_cache cache_len None batch_offset full_batch micro_batch (Some c) m1 of
                (Inl e, m2) \<Rightarrow> (Inl e, m2, ts2)
              | (Inr (None, _), m2) \<Rightarrow> (Inr (), m2, ts2)
              | (Inr (Some view, _), m2) \<Rightarrow>
                  (case reorder_and_write_cache view extended c batch_offset full_batch micro_batch m2 of
                     (Inl e, m3) \<Rightarrow> (Inl e, m3, ts2)
                   | (Inr _, m3) \<Rightarrow> (Inr (), m3, commit_paged_to cache_len ts2))))"

definition reorder_body ::
  "'a::zero new_kvs \<Rightarrow> int list list option \<Rightarrow> nat \<Rightarrow> nat \<Rightarrow> nat \<Rightarrow> nat \<Rightarrow> 'a kv_manager \<times> 'b paged_table list \<Rightarrow>
   ('a kv_manager \<times> 'b paged_table list, unit) outcome" where
  "reorder_body kvs ids c batch_offset full_batch micro_batch mt =
     (case ids of
        Some pids \<Rightarrow>
          if all_valid pids \<noteq> [] then reorder_generation kvs pids c batch_offset full_batch micro_batch mt
          else (case write_kvs kvs 0 batch_offset full_batch micro_batch (Some c) (fst mt) of
                  (Inl e, m1) \<Rightarrow> (Inl e, m1, snd mt)
                | (Inr _, m1) \<Rightarrow> (Inr (), m1, track_paged_write (kv_cfg (fst mt)) kvs 0 True (snd mt)))
      | None \<Rightarrow>
          (case write_kvs kvs 0 batch_offset full_batch micro_batch (Some c) (fst mt) of
             (Inl e, m1) \<Rightarrow> (Inl e, m1, snd mt)
           | (Inr _, m1) \<Rightarrow> (Inr (), m1, track_paged_write (kv_cfg (fst mt)) kvs 0 True (snd mt))))"

definition do_reorder_task ::
  "'a::zero new_kvs \<Rightarrow> int list list option \<Rightarrow> nat \<Rightarrow> nat \<Rightarrow> nat \<Rightarrow> nat \<Rightarrow> 'a kv_manager \<times> 'b paged_table list \<Rightarrow>
   'a kv_manager \<times> 'b paged_table list" where
  "do_reorder_task kvs ids c batch_offset full_batch micro_batch mt =
     snd (reorder_body kvs ids c batch_offset full_batch micro_batch mt)"


section \<open>Compaction keeps exactly the accepted rows\<close>

lemma active_tensors:
  assumes "active_cache_slot_id m = Some c"
  shows "write_kvs kvs p off full B (Some c) m = write_kvs kvs p off full B None m"
    and "select_cache p ids off full B (Some c) m = select_cache p ids off full B None m"
  using assms by (simp_all add: write_kvs_def select_cache_def)

lemma valid_positions_append: "valid_positions (row @ map int ps) = valid_positions row @ ps"
  by (simp add: valid_positions_def filter_map comp_def)

lemma reordered_list:
  assumes "vs \<noteq> []"
  shows "map (reordered S_old vs old) [0..<hd vs + length vs] = map old ([0..<hd vs] @ vs)"
proof -
  have root: "root_position S_old vs = hd vs" using assms by (cases vs) (simp_all add: root_position_def)
  show ?thesis by (rule nth_equalityI) (auto simp: reordered_def root Let_def nth_append)
qed

lemma increasing_bound:
  assumes "sorted_wrt (<) vs" and "vs \<noteq> []" and "\<forall>p \<in> set vs. p < (W::nat)"
  shows "hd vs + length vs \<le> W"
  using assms
proof (induction vs)
  case (Cons p vs)
  show ?case
  proof (cases vs)
    case Nil
    then show ?thesis using Cons.prems(3) by simp
  next
    case (Cons q qs)
    then have "p < hd vs" "hd vs + length vs \<le> W" using Cons.prems Cons.IH by auto
    then show ?thesis by simp
  qed
qed simp

lemma window_bound: "p \<in> set (all_valid ids) \<Longrightarrow> p < window_length ids"
  by (simp add: window_length_def less_Suc_eq_le)

lemma extended_window:
  assumes "0 < n" and "ids \<noteq> []"
  shows "window_length (map (\<lambda>row. row @ map int [window_length ids..<window_length ids + n]) ids) = window_length ids + n"
proof -
  let ?W = "window_length ids"
  let ?ext = "map (\<lambda>row. row @ map int [?W..<?W + n]) ids"
  have set: "set (all_valid ?ext) = set (all_valid ids) \<union> {?W..<?W + n}"
    using assms(2) by (auto simp: all_valid_def valid_positions_append)
  have "Max (set (all_valid ?ext)) = ?W + n - 1"
  proof (rule Max_eqI)
    show "y \<le> ?W + n - 1" if "y \<in> set (all_valid ?ext)" for y
      using that window_bound [of y ids] assms(1) unfolding set by auto
    show "?W + n - 1 \<in> set (all_valid ?ext)" unfolding set using assms(1) by auto
  qed simp
  then show ?thesis using assms(1) unfolding window_length_def [of ?ext] by simp
qed

lemma whole_rows_written:
  assumes "active_cache_slot_id m = Some c" and "0 < kvh" "kvh \<le> heads_of m" and "whole_fits full m c" and "0 < B" "off + B \<le> full"
    and "key_shape kvs = [B * kvh, head_dim (slabs m c), n]" "value_shape kvs = [B * kvh, n, head_dim (slabs m c)]"
    and "0 < n" "p + n \<le> seq_total (slabs m c)"
  shows "write_kvs kvs p off full B (Some c) m =
    (Inr (), m\<lparr>slabs := (slabs m)(c := (slabs m c)\<lparr>
       k_data := rows_written (heads_of m) kvh (off * heads_of m) p n {..<B} (\<lambda>s b. key_at kvs b s) (k_data (slabs m c)),
       v_data := rows_written (heads_of m) kvh (off * heads_of m) p n {..<B} (\<lambda>s b. value_at kvs b s) (v_data (slabs m c))\<rparr>)\<rparr>)"
  using run_written [OF assms(1-4) assms(5,6) assms(7,8) order_refl assms(9,10)]
  by (simp add: active_tensors(1) [OF assms(1)] slice_all_rows [OF assms(7,8)])

text \<open>
  The cache of one row after a generation step: the prefix up to the first accepted position, the
  accepted positions in their order, and the new tree.
\<close>

definition row_compacted :: "nat list \<Rightarrow> nat \<Rightarrow> (nat \<Rightarrow> 'a) \<Rightarrow> (nat \<Rightarrow> 'a) \<Rightarrow> (nat \<Rightarrow> 'a) \<Rightarrow> bool" where
  "row_compacted vs n old new now \<longleftrightarrow>
     map now [0..<hd vs + length vs + n] = map old ([0..<hd vs] @ vs) @ map new [0..<n]"

lemma row_compactedI:
  assumes vs: "vs \<noteq> []" "\<forall>p \<in> set vs. p < W" "hd vs \<le> W"
    and f: "\<And>s. s < W + n \<Longrightarrow> f s = (if W \<le> s then new (s - W) else old s)"
    and now: "\<And>s. s < hd vs + length vs + n \<Longrightarrow> now s = reordered S_old (vs @ [W..<W + n]) f s"
  shows "row_compacted vs n old new now"
proof -
  let ?vs = "vs @ [W..<W + n]"
  have "map now [0..<hd vs + length vs + n] = map (reordered S_old ?vs f) [0..<hd vs + length vs + n]"
    by (rule map_cong) (use now in auto)
  also have "\<dots> = map f ([0..<hd vs] @ ?vs)"
    using reordered_list [of ?vs S_old f] vs(1) by (simp add: add.assoc)
  also have "\<dots> = map old ([0..<hd vs] @ vs) @ map new [0..<n]"
  proof -
    have "map f [0..<hd vs] = map old [0..<hd vs]" "map f vs = map old vs" using f vs by auto
    moreover have "map f [W..<W + n] = map new [0..<n]" by (rule nth_equalityI) (use f in auto)
    ultimately show ?thesis by simp
  qed
  finally show ?thesis by (simp add: row_compacted_def)
qed


definition accepted_ids :: "int list list \<Rightarrow> nat \<Rightarrow> bool" where
  "accepted_ids ids B \<longleftrightarrow>
     length ids = B \<and> (\<forall>row \<in> set ids. valid_positions row \<noteq> [] \<and> sorted_wrt (<) (valid_positions row))"

definition tree_kvs :: "nat \<Rightarrow> nat \<Rightarrow> nat \<Rightarrow> nat \<Rightarrow> 'a new_kvs \<Rightarrow> bool" where
  "tree_kvs B kvh D n kvs \<longleftrightarrow> key_shape kvs = [B * kvh, D, n] \<and> value_shape kvs = [B * kvh, n, D]"

definition all_compacted :: "nat \<Rightarrow> nat \<Rightarrow> nat \<Rightarrow> int list list \<Rightarrow> nat \<Rightarrow> 'a new_kvs \<Rightarrow> nat \<Rightarrow> 'a slab \<Rightarrow> 'a slab \<Rightarrow> bool" where
  "all_compacted H kvh off ids n kvs B sl sl' \<longleftrightarrow>
     (\<forall>b<B. \<forall>h<kvh.
        row_compacted (valid_positions (ids ! b)) n (\<lambda>s. k_data sl s ((off + b) * H + h)) (key_at kvs (b * kvh + h))
          (\<lambda>s. k_data sl' s ((off + b) * H + h)) \<and>
        row_compacted (valid_positions (ids ! b)) n (\<lambda>s. v_data sl s ((off + b) * H + h)) (value_at kvs (b * kvh + h))
          (\<lambda>s. v_data sl' s ((off + b) * H + h)))"

lemma accepted_rows:
  assumes "accepted_ids ids B" and "b < B" and "W = window_length ids"
  shows "valid_positions (ids ! b) \<noteq> []" and "\<forall>p \<in> set (valid_positions (ids ! b)). p < W"
    and "hd (valid_positions (ids ! b)) + length (valid_positions (ids ! b)) \<le> W"
proof -
  have row: "ids ! b \<in> set ids" using assms(1,2) by (simp add: accepted_ids_def)
  then show ne: "valid_positions (ids ! b) \<noteq> []" using assms(1) by (simp add: accepted_ids_def)
  show lt: "\<forall>p \<in> set (valid_positions (ids ! b)). p < W" unfolding assms(3) using row window_bound by (auto simp: all_valid_def)
  show "hd (valid_positions (ids ! b)) + length (valid_positions (ids ! b)) \<le> W"
    using assms(1) row by (intro increasing_bound ne lt) (simp add: accepted_ids_def)
qed

lemma reorder_write_ok:
  assumes act: "active_cache_slot_id m = Some c" and H: "0 < heads_of m" and fit: "whole_fits full m c" and B: "0 < B" "off + B \<le> full"
    and ids: "accepted_ids ids B" and W: "W = window_length ids" and n: "0 < n" "W + n \<le> seq_total (slabs m c)"
    and view: "pk_batch v = B" "pk_heads v = heads_of m" "pk_seq v = W + n"
  shows "\<exists>r sl'. reorder_and_write_cache v (map (\<lambda>row. row @ map int [W..<W + n]) ids) c off full B m = (Inr r, m\<lparr>slabs := (slabs m)(c := sl')\<rparr>) \<and>
    (\<forall>b h s. b < B \<longrightarrow> h < heads_of m \<longrightarrow> s < hd (valid_positions (ids ! b)) + length (valid_positions (ids ! b)) + n \<longrightarrow>
       k_data sl' s ((off + b) * heads_of m + h) = reordered (W + n) (valid_positions (ids ! b) @ [W..<W + n]) (pk_key v b h) s \<and>
       v_data sl' s ((off + b) * heads_of m + h) = reordered (W + n) (valid_positions (ids ! b) @ [W..<W + n]) (pk_value v b h) s)"
proof -
  let ?H = "heads_of m"
  let ?ext = "map (\<lambda>row. row @ map int [W..<W + n]) ids"
  let ?vss = "map valid_positions ?ext"
  define lens where "lens = map (\<lambda>vs. root_position (W + n) vs + length vs) ?vss"
  define L where "L = Max (set lens)"
  define kvs where "kvs = \<lparr>key_shape = [B * ?H, head_dim (slabs m c), L], value_shape = [B * ?H, L, head_dim (slabs m c)],
      key_at = (\<lambda>bh. reordered (W + n) (?vss ! (bh div ?H)) (pk_key v (bh div ?H) (bh mod ?H))),
      value_at = (\<lambda>bh. reordered (W + n) (?vss ! (bh div ?H)) (pk_value v (bh div ?H) (bh mod ?H)))\<rparr>"
  have len: "length ids = B" using ids by (simp add: accepted_ids_def)
  have lens_at: "lens ! b = hd (valid_positions (ids ! b)) + length (valid_positions (ids ! b)) + n" if "b < B" for b
  proof -
    have "valid_positions (ids ! b) \<noteq> []" using accepted_rows(1) [OF ids that W] .
    then show ?thesis using that len by (cases "valid_positions (ids ! b)") (simp_all add: lens_def valid_positions_append root_position_def)
  qed
  have lenl: "length lens = B" by (simp add: lens_def len)
  have ne: "set lens \<noteq> {}" using lenl B(1) by auto
  have le: "lens ! b \<le> L" if "b < B" for b unfolding L_def using that lenl by (intro Max_ge) simp_all
  have "l \<le> W + n" if "l \<in> set lens" for l
    using that lens_at accepted_rows(3) [OF ids _ W] lenl by (fastforce simp: in_set_conv_nth)
  then have LW: "L \<le> W + n" unfolding L_def using ne by (intro Max.boundedI) simp_all
  have L0: "0 < L" using le [OF B(1)] lens_at [OF B(1)] n(1) by simp
  have inb: "\<not> (\<exists>p \<in> set (all_valid ?ext). W + n \<le> p)"
  proof -
    have "p < W + n" if "p \<in> set (all_valid ?ext)" for p
    proof -
      have "p \<in> set (all_valid ids) \<or> p \<in> {W..<W + n}" using that by (auto simp: all_valid_def valid_positions_append split: if_splits)
      then show ?thesis using window_bound [of p ids] W by auto
    qed
    then show ?thesis by force
  qed
  have sh: "key_shape kvs = [B * ?H, head_dim (slabs m c), L]" "value_shape kvs = [B * ?H, L, head_dim (slabs m c)]" by (simp_all add: kvs_def)
  have room: "0 + L \<le> seq_total (slabs m c)" using LW n(2) by simp
  define sl' where "sl' = (slabs m c)\<lparr>
       k_data := rows_written ?H ?H (off * ?H) 0 L {..<B} (\<lambda>s b. key_at kvs b s) (k_data (slabs m c)),
       v_data := rows_written ?H ?H (off * ?H) 0 L {..<B} (\<lambda>s b. value_at kvs b s) (v_data (slabs m c))\<rparr>"
  have "reorder_and_write_cache v ?ext c off full B m = (Inr (L, lens), m\<lparr>slabs := (slabs m)(c := sl')\<rparr>)"
    unfolding reorder_and_write_cache_def Let_def view lens_def [symmetric] L_def [symmetric] kvs_def [symmetric]
    using whole_rows_written [OF act H order_refl fit B sh L0 room] inb len by (simp add: sl'_def)
  moreover have "k_data sl' s ((off + b) * ?H + h) = reordered (W + n) (valid_positions (ids ! b) @ [W..<W + n]) (pk_key v b h) s"
    "v_data sl' s ((off + b) * ?H + h) = reordered (W + n) (valid_positions (ids ! b) @ [W..<W + n]) (pk_value v b h) s"
    if b: "b < B" and h: "h < ?H" and s: "s < hd (valid_positions (ids ! b)) + length (valid_positions (ids ! b)) + n" for b h s
  proof -
    have sL: "s < L" using s le [OF b] lens_at [OF b] by simp
    have vs: "?vss ! b = valid_positions (ids ! b) @ [W..<W + n]" using b len by (simp add: valid_positions_append)
    have "(b * ?H + h) div ?H = b" "(b * ?H + h) mod ?H = h" using h by simp_all
    then show "k_data sl' s ((off + b) * ?H + h) = reordered (W + n) (valid_positions (ids ! b) @ [W..<W + n]) (pk_key v b h) s"
      "v_data sl' s ((off + b) * ?H + h) = reordered (W + n) (valid_positions (ids ! b) @ [W..<W + n]) (pk_value v b h) s"
      using b h sL vs by (simp_all add: sl'_def kvs_def rows_written_at [OF h])
  qed
  ultimately show ?thesis by blast
qed


lemma generation_ok:
  assumes act: "active_cache_slot_id m = Some c" and H: "0 < kvh" "kvh \<le> heads_of m" and fit: "whole_fits full m c" and B: "0 < B" "off + B \<le> full"
    and ids: "accepted_ids ids B" and kvs: "tree_kvs B kvh (head_dim (slabs m c)) n kvs"
    and n: "0 < n" "window_length ids + n \<le> seq_total (slabs m c)"
  shows "\<exists>sl'. reorder_generation kvs ids c off full B (m, ts) =
     (Inr (), m\<lparr>slabs := (slabs m)(c := sl')\<rparr>,
      commit_paged_to (window_length ids + n) (track_paged_write (kv_cfg m) kvs (window_length ids) False (rollback_paged_to (window_length ids) ts))) \<and>
    all_compacted (heads_of m) kvh off ids n kvs B (slabs m c) sl'"
proof -
  let ?H = "heads_of m"
  define W where W: "W = window_length ids"
  have room: "W + n \<le> seq_total (slabs m c)" using n(2) W by simp
  have H0: "0 < ?H" using H by simp
  have ne: "ids \<noteq> []" using ids B(1) by (auto simp: accepted_ids_def)
  have sh: "key_shape kvs = [B * kvh, head_dim (slabs m c), n]" "value_shape kvs = [B * kvh, n, head_dim (slabs m c)]" "last (key_shape kvs) = n"
    using kvs by (simp_all add: tree_kvs_def)
  define sl1 where "sl1 = (slabs m c)\<lparr>
       k_data := rows_written ?H kvh (off * ?H) W n {..<B} (\<lambda>s b. key_at kvs b s) (k_data (slabs m c)),
       v_data := rows_written ?H kvh (off * ?H) W n {..<B} (\<lambda>s b. value_at kvs b s) (v_data (slabs m c))\<rparr>"
  define m1 where "m1 = m\<lparr>slabs := (slabs m)(c := sl1)\<rparr>"
  have wr: "write_kvs kvs W off full B (Some c) m = (Inr (), m1)"
    unfolding m1_def sl1_def using whole_rows_written [OF act H fit B sh(1,2) n(1) room] .
  have act1: "active_cache_slot_id m1 = Some c" using act by (simp add: m1_def active_cache_slot_id_def)
  have fit1: "whole_fits full m1 c" using fit by (simp add: m1_def sl1_def whole_fits_def capacity_of_def)
  have H1: "0 < heads_of m1" "heads_of m1 = ?H" using H0 by (simp_all add: m1_def)
  have room1: "W + n \<le> seq_total (slabs m1 c)" using room by (simp add: m1_def sl1_def)
  have pos: "0 < W + n" using n by simp
  show ?thesis
  proof (rule whole_rows_selected [OF act1 H1(1) fit1 B pos room1], goal_cases)
    case (1 v)
    have sel: "select_cache (W + n) None off full B (Some c) m1 = (Inr (Some v, False), m1)" using 1(1) by (simp add: active_tensors(2) [OF act1])
    obtain r sl' where re: "reorder_and_write_cache v (map (\<lambda>row. row @ map int [W..<W + n]) ids) c off full B m1 = (Inr r, m1\<lparr>slabs := (slabs m1)(c := sl')\<rparr>)"
        "\<forall>b h s. b < B \<longrightarrow> h < heads_of m1 \<longrightarrow> s < hd (valid_positions (ids ! b)) + length (valid_positions (ids ! b)) + n \<longrightarrow>
           k_data sl' s ((off + b) * heads_of m1 + h) = reordered (W + n) (valid_positions (ids ! b) @ [W..<W + n]) (pk_key v b h) s \<and>
           v_data sl' s ((off + b) * heads_of m1 + h) = reordered (W + n) (valid_positions (ids ! b) @ [W..<W + n]) (pk_value v b h) s"
      using reorder_write_ok [OF act1 H1(1) fit1 B ids W n(1) room1 1(2-4)] by blast
    have "reorder_generation kvs ids c off full B (m, ts) =
        (Inr (), m\<lparr>slabs := (slabs m)(c := sl')\<rparr>,
         commit_paged_to (W + n) (track_paged_write (kv_cfg m) kvs W False (rollback_paged_to W ts)))"
      using wr sel re(1) extended_window [OF n(1) ne] by (simp add: reorder_generation_def Let_def W [symmetric] sh(3)) (simp add: m1_def)
    moreover have "all_compacted ?H kvh off ids n kvs B (slabs m c) sl'"
      unfolding all_compacted_def
    proof (intro allI impI conjI)
      fix b h assume b: "b < B" and h: "h < kvh"
      have hH: "h < ?H" using h H by simp
      note row = accepted_rows [OF ids b W]
      have hd: "hd (valid_positions (ids ! b)) \<le> W" using row(3) by simp
      have tree: "pk_key v b h s = (if W \<le> s then key_at kvs (b * kvh + h) (s - W) else k_data (slabs m c) s ((off + b) * ?H + h))"
        "pk_value v b h s = (if W \<le> s then value_at kvs (b * kvh + h) (s - W) else v_data (slabs m c) s ((off + b) * ?H + h))" if "s < W + n" for s
        using 1(5) [OF b _ that, of h] that b h hH
          rows_written_at [OF hH, of kvh off W n B "\<lambda>s b. key_at kvs b s" "k_data (slabs m c)" s "off + b"]
          rows_written_at [OF hH, of kvh off W n B "\<lambda>s b. value_at kvs b s" "v_data (slabs m c)" s "off + b"]
        by (auto simp: m1_def sl1_def)
      show "row_compacted (valid_positions (ids ! b)) n (\<lambda>s. k_data (slabs m c) s ((off + b) * ?H + h)) (key_at kvs (b * kvh + h)) (\<lambda>s. k_data sl' s ((off + b) * ?H + h))"
        by (rule row_compactedI [OF row(1,2) hd tree(1)]) (use re(2) b hH H1(2) in auto)
      show "row_compacted (valid_positions (ids ! b)) n (\<lambda>s. v_data (slabs m c) s ((off + b) * ?H + h)) (value_at kvs (b * kvh + h)) (\<lambda>s. v_data sl' s ((off + b) * ?H + h))"
        by (rule row_compactedI [OF row(1,2) hd tree(2)]) (use re(2) b hH H1(2) in auto)
    qed
    ultimately show ?thesis unfolding W by blast
  qed
qed


section \<open>The page tables after a step\<close>

definition lens :: "'b paged_table \<Rightarrow> int \<rightharpoonup> nat \<times> nat" where
  "lens t sid = map_option (\<lambda>st. (l_acc st, l_seq st)) (seqs t sid)"

lemma dom_lens [simp]: "dom (lens t) = dom (seqs t)"
  by (auto simp: lens_def)

definition lens_within :: "nat \<Rightarrow> 'b paged_table \<Rightarrow> bool" where
  "lens_within N t \<longleftrightarrow> (\<forall>sid a l. lens t sid = Some (a, l) \<longrightarrow> a \<le> l \<and> l \<le> N)"

definition rollback_step :: "nat \<Rightarrow> int \<Rightarrow> 'b paged_table \<Rightarrow> 'b paged_table" where
  "rollback_step W sid t = (case get_l_acc sid t of Inl _ \<Rightarrow> t | Inr acc \<Rightarrow> snd (rollback sid (int (min W acc)) t))"

definition commit_step :: "nat \<Rightarrow> int \<Rightarrow> 'b paged_table \<Rightarrow> 'b paged_table" where
  "commit_step N sid t = (case get_l_seq sid t of Inl _ \<Rightarrow> t | Inr l \<Rightarrow> snd (commit_seq sid (Some (int (min N l))) t))"

lemma lens_rollback_step:
  "lens (rollback_step W sid t) = (case lens t sid of None \<Rightarrow> lens t | Some (a, l) \<Rightarrow> (lens t)(sid \<mapsto> (min W a, min W a)))"
proof (cases "seqs t sid")
  case (Some st)
  obtain ps free where sp: "shrink_pages (ceil_div (min W (l_acc st)) (block_size t)) (pages st) (free_stack t) = (ps, free)" by fastforce
  have "rollback sid (int (min W (l_acc st))) t = (Inr (), t\<lparr>seqs := (seqs t)(sid \<mapsto> \<lparr>pages = ps, l_acc = min W (l_acc st), l_seq = min W (l_acc st)\<rparr>), free_stack := free\<rparr>)"
    using Some sp by (simp add: rollback_def)
  then show ?thesis using Some by (auto simp: rollback_step_def get_l_acc_def lens_def fun_eq_iff)
qed (simp add: rollback_step_def get_l_acc_def lens_def)

lemma lens_commit_step:
  "lens (commit_step N sid t) = (case lens t sid of None \<Rightarrow> lens t | Some (a, l) \<Rightarrow> (lens t)(sid \<mapsto> (max a (min N l), l)))"
  by (cases "seqs t sid") (auto simp: commit_step_def get_l_seq_def commit_seq_def lens_def fun_eq_iff Let_def max_def)

lemma lens_track_write:
  "lens (snd (track_write sid start (int n) False t)) sid' = Some (a, l) \<Longrightarrow>
     lens t sid' = Some (a, l) \<or> (\<exists>l0. l = max l0 (start + n) \<and> (lens t sid' = Some (a, l0) \<or> a = 0 \<and> l0 = 0)) \<or> (a = 0 \<and> l = 0)"
proof -
  assume fin: "lens (snd (track_write sid start (int n) False t)) sid' = Some (a, l)"
  define t0 where "t0 = (if seqs t sid = None then snd (register_sequence sid t) else t)"
  have t0: "lens t0 q = Some (a', l') \<Longrightarrow> lens t q = Some (a', l') \<or> (a' = 0 \<and> l' = 0)" for q a' l'
    by (auto simp: t0_def register_sequence_def lens_def new_seq_def split: if_splits)
  obtain r t1 where ec: "ensure_capacity sid (start + n) t0 = (r, t1)" by fastforce
  have t1: "lens t1 = lens t0" using ec by (auto simp: ensure_capacity_def lens_def fun_eq_iff split: option.splits prod.splits)
  show ?thesis
  proof (cases "n = 0")
    case True
    then show ?thesis using fin by (simp add: track_write_def)
  next
    case False
    then have tw: "snd (track_write sid start (int n) False t) =
        (case r of Inl _ \<Rightarrow> t1 | Inr _ \<Rightarrow> (case seqs t1 sid of None \<Rightarrow> t1 | Some st \<Rightarrow> t1\<lparr>seqs := (seqs t1)(sid \<mapsto> advance (start + n) False st)\<rparr>))"
      using ec by (simp add: track_write_def Let_def t0_def [symmetric] split: sum.splits option.splits)
    show ?thesis
    proof (cases "(\<exists>e. r = Inl e) \<or> seqs t1 sid = None \<or> sid' \<noteq> sid")
      case True
      then have "lens t1 sid' = Some (a, l)" using fin tw by (auto simp: lens_def split: sum.splits option.splits)
      then show ?thesis using t0 [of sid' a l] t1 by auto
    next
      case no: False
      then obtain st where st: "seqs t1 sid = Some st" "sid' = sid" "\<exists>u. r = Inr u" by (cases r) auto
      then have "a = l_acc st" "l = max (l_seq st) (start + n)"
        using fin tw by (auto simp: lens_def advance_def max_def Let_def split: if_splits)
      moreover have "lens t0 sid = Some (l_acc st, l_seq st)" using t1 st(1) by (metis lens_def option.map(2))
      ultimately show ?thesis using t0 [of sid "l_acc st" "l_seq st"] st(2) by auto
    qed
  qed
qed

lemma rollback_all:
  assumes "finite (dom (seqs t))" and "lens_within N t"
  shows "lens_within W (fold (rollback_step W) (table_seq_ids t) t)"
proof -
  have "\<forall>sid a l. lens (fold (rollback_step W) xs u) sid = Some (a, l) \<longrightarrow> a \<le> l \<and> (l \<le> W \<or> sid \<notin> set xs \<and> lens u sid = Some (a, l))"
    if "lens_within M u" for xs and u :: "'a paged_table" and M
    using that
  proof (induction xs arbitrary: u M)
    case (Cons x xs)
    have w: "lens_within (max M W) (rollback_step W x u)"
      using Cons.prems unfolding lens_within_def lens_rollback_step by (auto split: option.splits if_splits prod.splits simp: le_max_iff_disj)
    show ?case
    proof (intro allI impI)
      fix sid a l assume "lens (fold (rollback_step W) (x # xs) u) sid = Some (a, l)"
      then have "a \<le> l \<and> (l \<le> W \<or> sid \<notin> set xs \<and> lens (rollback_step W x u) sid = Some (a, l))" using Cons.IH [OF w] by simp
      then show "a \<le> l \<and> (l \<le> W \<or> sid \<notin> set (x # xs) \<and> lens u sid = Some (a, l))"
        unfolding lens_rollback_step by (cases "lens u x") (auto split: if_splits)
    qed
  qed (auto simp: lens_within_def)
  moreover have "lens t sid = Some (a, l) \<Longrightarrow> sid \<in> set (table_seq_ids t)" for sid a l
    using assms(1) by (auto simp: table_seq_ids_def lens_def)
  ultimately show ?thesis using assms(2) unfolding lens_within_def by blast
qed


lemma dom_rollback_all: "dom (seqs (fold (rollback_step W) xs t)) = dom (seqs t)"
proof (induction xs arbitrary: t)
  case (Cons x xs)
  have "dom (lens (rollback_step W x t)) = dom (lens t)" unfolding lens_rollback_step
    by (cases "lens t x") (auto simp del: dom_lens split: if_splits)
  then show ?case using Cons by simp
qed simp

lemma track_one:
  assumes "finite (dom (seqs t))" and "lens_within N t" and "start + n \<le> N"
  shows "finite (dom (seqs (snd (track_write sid start (int n) False t))))" and "lens_within N (snd (track_write sid start (int n) False t))"
proof -
  have "seqs (snd (track_write sid start (int n) False t)) q = seqs t q" if "q \<noteq> sid" for q
    using that by (auto simp: track_write_def ensure_capacity_def register_sequence_def Let_def split: option.splits prod.splits sum.splits)
  then have "dom (seqs (snd (track_write sid start (int n) False t))) \<subseteq> insert sid (dom (seqs t))" by (metis domIff insertCI subsetI insertI1)
  then show "finite (dom (seqs (snd (track_write sid start (int n) False t))))" using assms(1) finite_subset by blast
  show "lens_within N (snd (track_write sid start (int n) False t))"
    unfolding lens_within_def
  proof (intro allI impI)
    fix q a l assume "lens (snd (track_write sid start (int n) False t)) q = Some (a, l)"
    from lens_track_write [OF this] show "a \<le> l \<and> l \<le> N" using assms(2,3) unfolding lens_within_def by (auto simp: le_max_iff_disj)
  qed
qed

lemma track_all:
  assumes "finite (dom (seqs t))" and "lens_within N t" and "start + n \<le> N"
  shows "finite (dom (seqs (fold (\<lambda>sid t. snd (track_write sid start (int n) False t)) sids t))) \<and>
    lens_within N (fold (\<lambda>sid t. snd (track_write sid start (int n) False t)) sids t)"
  using assms
proof (induction sids arbitrary: t)
  case (Cons x sids)
  then show ?case using Cons.IH [OF track_one [OF Cons.prems, of x] Cons.prems(3)] by simp
qed simp

lemma commit_all:
  assumes "finite (dom (seqs t))" and "lens_within N t"
  shows "\<forall>sid a l. lens (fold (commit_step N) (table_seq_ids t) t) sid = Some (a, l) \<longrightarrow> a = l"
proof -
  have "\<forall>sid a l. lens (fold (commit_step N) xs u) sid = Some (a, l) \<longrightarrow> a = l \<or> sid \<notin> set xs \<and> lens u sid = Some (a, l)"
    if "lens_within N u" for xs and u :: "'a paged_table"
    using that
  proof (induction xs arbitrary: u)
    case (Cons x xs)
    have w: "lens_within N (commit_step N x u)"
      using Cons.prems unfolding lens_within_def lens_commit_step by (auto split: option.splits if_splits prod.splits)
    show ?case
    proof (intro allI impI)
      fix sid a l assume "lens (fold (commit_step N) (x # xs) u) sid = Some (a, l)"
      then have "a = l \<or> sid \<notin> set xs \<and> lens (commit_step N x u) sid = Some (a, l)" using Cons.IH [OF w] by simp
      then show "a = l \<or> sid \<notin> set (x # xs) \<and> lens u sid = Some (a, l)"
        using Cons.prems unfolding lens_commit_step lens_within_def by (cases "lens u x") (auto split: if_splits)
    qed
  qed simp
  moreover have "lens t sid = Some (a, l) \<Longrightarrow> sid \<in> set (table_seq_ids t)" for sid a l
    using assms(1) by (auto simp: table_seq_ids_def lens_def)
  ultimately show ?thesis using assms(2) by blast
qed

text \<open>After the write of a tree nothing is left that a roll-back of speculation would drop.\<close>

lemma tables_committed:
  assumes fin: "\<forall>t \<in> set ts. finite (dom (seqs t)) \<and> (\<exists>N. lens_within N t)" and kvs: "snd (infer_seq_ids_and_tokens cfg kvs) \<le> n"
  shows "\<forall>t \<in> set (commit_paged_to (W + n) (track_paged_write cfg kvs W False (rollback_paged_to W ts))).
    \<forall>sid a l. lens t sid = Some (a, l) \<longrightarrow> a = l"
proof -
  obtain sids sn where inf: "infer_seq_ids_and_tokens cfg kvs = (sids, sn)" by fastforce
  have rb: "rollback_paged_to W ts = map (\<lambda>t. fold (rollback_step W) (table_seq_ids t) t) ts"
    unfolding rollback_paged_to_def rollback_step_def [abs_def] ..
  have cm: "commit_paged_to (W + n) us = map (\<lambda>t. fold (commit_step (W + n)) (table_seq_ids t) t) us" for us :: "'a paged_table list"
    unfolding commit_paged_to_def commit_step_def [abs_def] ..
  have "finite (dom (seqs t)) \<and> lens_within W t" if "t \<in> set (rollback_paged_to W ts)" for t
    using that fin rollback_all [of _ _ W] by (auto simp: rb dom_rollback_all)
  then have "finite (dom (seqs t)) \<and> lens_within (W + n) t" if "t \<in> set (rollback_paged_to W ts)" for t
    using that unfolding lens_within_def by (meson trans_le_add1)
  then have "finite (dom (seqs t)) \<and> lens_within (W + n) t" if tracked: "t \<in> set (track_paged_write cfg kvs W False (rollback_paged_to W ts))" for t
  proof (cases "sn = 0 \<or> sids = []")
    case True
    then show ?thesis using that \<open>\<And>t. t \<in> set (rollback_paged_to W ts) \<Longrightarrow> finite (dom (seqs t)) \<and> lens_within (W + n) t\<close>
      by (simp add: track_paged_write_def inf)
  next
    case False
    then obtain u where u: "u \<in> set (rollback_paged_to W ts)" "t = fold (\<lambda>sid t. snd (track_write sid W (int sn) False t)) sids u"
      using tracked by (auto simp: track_paged_write_def inf)
    have "W + sn \<le> W + n" using kvs inf by simp
    then show ?thesis unfolding u(2) using \<open>\<And>t. t \<in> set (rollback_paged_to W ts) \<Longrightarrow> finite (dom (seqs t)) \<and> lens_within (W + n) t\<close> u(1)
      by (intro track_all) auto
  qed
  then show ?thesis unfolding cm using commit_all by fastforce
qed


lemma accepted_some: "accepted_ids ids B \<Longrightarrow> 0 < B \<Longrightarrow> all_valid ids \<noteq> []"
  by (cases ids) (auto simp: accepted_ids_def all_valid_def)

text \<open>
  C39 A speculative step leaves in the cache of every row exactly its prefix, the accepted positions in
  their order and the new tree, for keys and values of every key-value head, and no other cache
  changes: the rejected positions of the last tree are gone although they lay between accepted ones.
\<close>

theorem compaction_keeps_accepted_rows:
  assumes "active_cache_slot_id m = Some c" and "0 < kvh" "kvh \<le> heads_of m" and "whole_fits full m c" and "0 < B" "off + B \<le> full"
    and "accepted_ids ids B" and "tree_kvs B kvh (head_dim (slabs m c)) n kvs"
    and "0 < n" "window_length ids + n \<le> seq_total (slabs m c)"
  shows "\<exists>m' ts'. do_reorder_task kvs (Some ids) c off full B (m, ts) = (m', ts') \<and>
    all_compacted (heads_of m) kvh off ids n kvs B (slabs m c) (slabs m' c) \<and> (\<forall>c'. c' \<noteq> c \<longrightarrow> slabs m' c' = slabs m c')"
  using generation_ok [OF assms, of ts] accepted_some [OF assms(7,5)]
  by (auto simp: do_reorder_task_def reorder_body_def)

definition example_tree :: "nat new_kvs" where
  "example_tree = \<lparr>key_shape = [2, 1, 2], value_shape = [2, 2, 1], key_at = (\<lambda>b s. 10 * b + s), value_at = (\<lambda>b s. 10 * b + s)\<rparr>"

theorem compaction_keeps_accepted_rows_witness:
  "\<exists>m' ts'. do_reorder_task example_tree (Some [[0, 1], [1, -1]]) 7 0 2 2 (example_whole\<lparr>active_stack := [7]\<rparr>, [] :: nat paged_table list) = (m', ts') \<and>
    all_compacted 2 1 0 [[0, 1], [1, -1]] 2 example_tree 2 (slabs example_whole 7) (slabs m' 7) \<and> (\<forall>c'. c' \<noteq> 7 \<longrightarrow> slabs m' c' = slabs example_whole c')"
proof -
  let ?m = "example_whole\<lparr>active_stack := [7]\<rparr>"
  have ids: "accepted_ids [[0, 1], [1, -1]] 2" "window_length [[0, 1], [1, -1]] + 2 \<le> seq_total (slabs ?m 7)"
    by (simp_all add: accepted_ids_def valid_positions_def window_length_def all_valid_def example_whole_def example_manager_def)
  show ?thesis
    using compaction_keeps_accepted_rows [of ?m 7 1 2 2 0 "[[0, 1], [1, -1]]" 2 example_tree "[] :: nat paged_table list", OF _ _ _ _ _ _ ids(1) _ _ ids(2)]
    by (simp add: active_cache_slot_id_def whole_fits_def capacity_of_def tree_kvs_def example_tree_def example_whole_def example_manager_def)
qed

lemma commit_paged_to_lengths:
  "map (\<lambda>t. map_option l_seq (seqs t sid)) (commit_paged_to N ts) = map (\<lambda>t. map_option l_seq (seqs t sid)) ts"
proof -
  have len: "map_option l_seq (seqs t sid) = map_option snd (lens t sid)" for t :: "'a paged_table" by (simp add: lens_def option.map_comp comp_def)
  have "map_option snd (lens (fold (commit_step N) xs t) sid) = map_option snd (lens t sid)" for xs and t :: "'a paged_table"
  proof (induction xs arbitrary: t)
    case (Cons x xs)
    have "map_option snd (lens (commit_step N x t) sid) = map_option snd (lens t sid)"
      unfolding lens_commit_step by (cases "lens t x") auto
    then show ?case using Cons by simp
  qed simp
  moreover have "commit_paged_to N ts = map (\<lambda>t. fold (commit_step N) (table_seq_ids t) t) ts"
    unfolding commit_paged_to_def commit_step_def [abs_def] ..
  ultimately show ?thesis by (simp add: len)
qed

lemma demo_tracked:
  "map (\<lambda>t. map_option l_seq (seqs t 0))
     (track_paged_write (kv_cfg example_whole) example_tree 2 False (rollback_paged_to 2 [demo_seq])) = [Some 4]"
proof -
  have rolled: "rollback_paged_to 2 [demo_seq] = [demo_seq]"
    by (simp add: rollback_paged_to_def table_seq_ids_def demo_seq_def demo_table_def get_l_acc_def rollback_def new_seq_def
        shrink_pages.simps ceil_div_def)
  have inf: "infer_seq_ids_and_tokens (kv_cfg example_whole) example_tree = ([0, 1], 2)"
    by (simp add: infer_seq_ids_and_tokens_def example_tree_def example_whole_def example_manager_def source_heads_per_batch_def Let_def upt_rec)
  show ?thesis
    unfolding rolled track_paged_write_def inf
    by (simp add: track_write_def ensure_capacity_def register_sequence_def demo_seq_def demo_table_def
        new_seq_def grow_pages.simps ceil_div_def advance_def Let_def)
qed




end
