(* ===== verification/Spec2Isabelle.thy ===== *)
theory Spec2Isabelle
  imports PagedKV_Props PrefixReuse MemoryCache Microbatch Routing SpecSampling WireFormat InferSession
    TaskPool ContinuousBatching HandlerSessions KVMultiplex_Ref KVSlab_Props LiveRows
    RemoteTraining SpecCache
begin

text \<open>
  Verification of BloomBee, a swarm that serves one large language model from many machines. Paths
  are relative to \<^verbatim>\<open>src/src/bloombee\<close> unless they begin with \<^verbatim>\<open>mvp_capabilities\<close>.

  \<^bold>\<open>The program and its parts.\<close> Every server holds a span of consecutive transformer blocks and announces
  it. A client finds a chain of servers that covers the model (routing), opens an inference session
  that streams hidden states through the chain step by step, and recovers from servers that fail by
  replaying its history to a replacement. On a server, connection handlers receive steps from
  clients and pushes from other servers, filter repetitions, and hand them as tasks to a runtime that
  runs the blocks; attention keys and values live in a cache with a token budget, in pages, with an
  index of prefixes that can be reused. Requests may be split into micro-batches and merged again,
  several requests may share a batch, and a small draft model may propose trees of tokens which the
  large model verifies in one step. Tensors travel in a lossless compressed wrapper.

  \<^bold>\<open>Theories.\<close>
  \<^item> \<open>BB_Prelude\<close>: exceptions of the sources as a datatype, results as sums, slices, ceiling division,
    shared list lemmas and the \<open>named_theorems\<close> collections. Exceptions carry no message.
  \<^item> \<open>KV_Spec\<close>, \<open>PagedKV\<close>, \<open>PagedKV_Props\<close> (\<^verbatim>\<open>server/paged_kv.py\<close>): the contract of a cache with speculative
    writes as a locale, the page table with its raising operations, and page safety, read-after-write,
    commit and roll-back over any sequence of calls.
  \<^item> \<open>PrefixIndex\<close> (\<^verbatim>\<open>server/prefix_index.py\<close>) and \<open>PrefixReuse\<close> (\<^verbatim>\<open>mvp_capabilities/kv_prefix_reuse.py\<close>,
    \<^verbatim>\<open>client/kv_prefix_reuse.py\<close>): the LRU index of prefixes under any hash function, the planner, and the
    metadata of a prefill.
  \<^item> \<open>MemoryCache\<close> (\<^verbatim>\<open>server/memory_cache.py\<close>, \<^verbatim>\<open>server/cache_descriptors.py\<close>, allocation of
    \<^verbatim>\<open>server/memory_cache_manager.py\<close>): allocation as a step relation of concurrent clients, the pipe to
    the runtime, and an interleaving that exceeds the limit.
  \<^item> \<open>KVMultiplex\<close>, \<open>KVMultiplex_Props\<close>, \<open>KVMultiplex_Ref\<close>, \<open>KVSlab_Props\<close>
    (\<^verbatim>\<open>server/memory_cache_manager.py\<close>): the slabs of keys and values, micro-batches that share working
    slots of a slab, and the streams that copy a slot to a staging buffer and back. A launched copy waits
    in a queue and is made later, an event is a ticket in that queue, so every lag of the streams is a
    run of the model. Shown: a micro-batch reads what it wrote, the slots are invisible next to a slab
    for the whole batch, a slab split over devices is one slab, no operation changes a shape; and what
    a write past the end and a change of the micro-batch size destroy. The vector of one head is one
    value; counters, the CPU attention workspace and the linear-attention state are left out.
  \<^item> \<open>LiveRows\<close> (\<^verbatim>\<open>server/backend.py\<close>): the step of a block and the merged step of all blocks over any
    module, with rows at different positions: masks, positions, runs of rows, chunks of a prefill.
    Shown: every row sees and extends its own history; of a prefill in chunks only the last is kept.
  \<^item> \<open>SpecCache\<close> (\<^verbatim>\<open>server/memory_cache_manager.py\<close>): reads, tree writes and the compaction of the cache during
    speculation, with the mirrored calls to the page tables. Shown: a row keeps its prefix, its accepted
    positions and the new tree; the page tables count the unverified tree as accepted.
  \<^item> \<open>NDTensor\<close>, \<open>Microbatch\<close> (\<^verbatim>\<open>utils/microbatch_ops.py\<close>, \<^verbatim>\<open>utils/microbatch_schema.py\<close>,
    \<^verbatim>\<open>server/microbatch.py\<close>): tensors of any rank, splitting, slicing and merging.
  \<^item> \<open>Spans\<close> (\<^verbatim>\<open>data_structures.py\<close>, \<^verbatim>\<open>utils/dht.py\<close>, \<^verbatim>\<open>client/routing/sequence_info.py\<close>,
    \<^verbatim>\<open>server/block_selection.py\<close>) and \<open>Routing\<close> (\<^verbatim>\<open>client/routing/sequence_manager.py\<close>): who holds what,
    where a server joins, when it moves, and the chains a client builds.
  \<^item> \<open>SpecTree\<close>, \<open>SpecBatch\<close>, \<open>SpecVerify\<close>, \<open>SpecSampling\<close> (\<^verbatim>\<open>models/llama/spe_dec_tree.py\<close>,
    \<^verbatim>\<open>speculative_model.py\<close>, \<^verbatim>\<open>spec_decoding_verify.py\<close>, \<^verbatim>\<open>spec_decoding_tree_shape.py\<close>): trees and their
    linearisation, masks of a batch, greedy verification, rejection sampling and tree shapes.
  \<^item> \<open>WireFormat\<close> (\<^verbatim>\<open>utils/lossless_transport.py\<close>): the wrapper, byte lanes, the choice among candidates,
    and decoding of arbitrary bytes.
  \<^item> \<open>ServerStage\<close>, \<open>HiddenRestore\<close> (\<^verbatim>\<open>server/block_functions.py\<close>) and \<open>InferSession\<close>
    (\<^verbatim>\<open>client/inference_session.py\<close>): one stage as a locale interpreted on the model's blocks, restoring
    pruned rows, and the client session with retries and re-routing.
  \<^item> \<open>RemoteTraining\<close> (\<^verbatim>\<open>client/sequential_autograd.py\<close>, the training calls of \<^verbatim>\<open>server/block_functions.py\<close>):
    the forward and backward passes through servers found by \<open>Routing\<close>, with retries, replaced spans and
    recomputed inputs, and the split of a batch. What the client sees of the swarm is a function of its
    calls so far, so any sequence of failures is a run of the model. Shown: output and gradients are
    those of the whole model by the chain rule, and with \<open>max_retries\<close> zero the client never gives up.
  \<^item> \<open>HeapQueue\<close>, \<open>TaskPool\<close> (\<^verbatim>\<open>server/task_pool.py\<close>, \<^verbatim>\<open>server/task_prioritizer.py\<close>): the standard library's
    heap as an instance of a priority-queue locale, and the pool between handlers and runtime.
  \<^item> \<open>FlowControl\<close> (\<^verbatim>\<open>server/s2s_flow.py\<close>, clocks and links of \<^verbatim>\<open>server/handler.py\<close>) and \<open>HandlerSessions\<close>
    (\<^verbatim>\<open>server/handler.py\<close>): the push limiter, clock offsets, sessions across handler processes, the intake
    of pushes and the iterator over steps.
  \<^item> \<open>ContinuousBatching\<close> (\<^verbatim>\<open>client/live_continuous_batching.py\<close>, \<^verbatim>\<open>mvp_capabilities/continuous_batching.py\<close>):
    the tick loop over requests that arrive at different times, and its simulation.

  \<^bold>\<open>How code becomes definitions.\<close> Classes are records, methods are functions on them; an operation
  that may raise returns a sum, and one that may raise after a change returns the exception with the
  state it leaves. Python's unbounded integers are \<open>int\<close>, sizes and counts \<open>nat\<close>, floats real numbers,
  dictionaries maps or, where the order matters, association lists. Concurrency (allocating clients,
  pool threads, handler processes, failing servers) is an inductive step relation over the same
  functions, and statements hold in every reachable state. Code that is not in the repository is a
  parameter: compression libraries, the transformer blocks, the draft model, hash functions, random
  draws, clock readings, the network and the swarm's state. What is assumed of a parameter is a named
  hypothesis, and each such theorem has a witness at a concrete instance.

  \<^bold>\<open>What the lemmas show.\<close> Safety of shared state: pages, cache tokens, tasks, sessions. Exactness:
  reads return what was written, merging undoes splitting, decoding undoes encoding, speculation
  yields what greedy decoding yields, recovery is invisible, every step is computed once and every
  request of a shared batch gets its own decoding. Progress: routing finds a chain when there is one,
  steps return, pools drain, the batching loop ends. Where the code falls short of this the
  development proves that instead: concurrent allocation may exceed the limit, a failed peer stays
  in the routing tables, choosing the best path first biases sampling, pushes with timestamps are
  lost, a write past the end of a slab replaces all of it, micro-batches of one batch may share an
  index, a prefill in chunks loses all chunks but the last, page tables accept trees before they are
  verified, and a client without retries never gives up.

  \<^bold>\<open>Bounds and loops.\<close> Loops over finite data are recursive functions with their termination proofs.
  Loops that may run on are partial functions into \<open>option\<close> (\<open>step_loop\<close>, \<open>live_loop\<close>, \<open>sim_loop\<close>,
  \<open>forward_loop\<close>, \<open>backward_loop\<close>), for which the theorems \<open>step_always_returns\<close>, \<open>live_run_terminates\<close>,
  \<open>simulation_is_live_loop\<close> and \<open>training_step_exact\<close> show that they return.
  \<open>collect_next_servers\<close> takes as fuel the number of sessions, which is the length of the longest chain
  without repetition. No other fuel is used.

  \<^bold>\<open>Not modelled.\<close> The arithmetic of the models (\<^verbatim>\<open>models/*\<close>, \<^verbatim>\<open>flexgen_utils/*\<close>, tensor-parallel and
  PyTorch backends): numerical kernels on third-party tensors. Serialisation of training calls
  (\<^verbatim>\<open>remote_forward_backward.py\<close>), downloading and converting checkpoints, throughput measurement, process
  start-up and command lines: input and output around libraries. Timing summaries, telemetry dumps and
  profiling: logs. The report and proof scripts of \<^verbatim>\<open>mvp_capabilities\<close> and its dashboard: they format
  evidence files. Of the inference backend the speculative step, pruning and the hand-off of a prefix
  from one row to another. Rounding of floats, and the layout of GPU memory.
\<close>

end
